(* ===== verification/Xv6_Prelude.thy ===== *)
theory Xv6_Prelude
  imports Main "HOL-Library.Word"
begin

text \<open>
  Shared vocabulary of the xv6 development: the integer types of the C code, the result
  of running a piece of kernel code on a state (it returns, it panics, or it goes to
  sleep on a channel), sequencing and bounded loops over such results, the names of the
  kernel's locks and sleep channels, and the generic lemmas the components share.
\<close>

unbundle bit_operations_syntax

named_theorems frame \<open>fields an operation leaves alone\<close>
named_theorems wf_intros \<open>an operation keeps the well-formedness of its component\<close>

section \<open>Machine integers\<close>

type_synonym u8 = "8 word"
type_synonym u16 = "16 word"
type_synonym u32 = "32 word"
type_synonym u64 = "64 word"

lemma sint_as_uint: "sint (w :: u64) = uint w - (if sint w < 0 then 2 ^ 64 else 0)"
proof -
  have b: "- (2 ^ 63) \<le> sint w" "sint w < 2 ^ 63" using sint_ge [of w] sint_lt [of w] by simp_all
  have u: "uint w = sint w mod 2 ^ 64" by (simp add: uint_sint take_bit_eq_mod)
  show ?thesis
  proof (cases "sint w < 0")
    case True
    have "sint w mod 2 ^ 64 = (sint w + 2 ^ 64) mod 2 ^ 64" by simp
    also have "\<dots> = sint w + 2 ^ 64" by (rule mod_pos_pos_trivial) (use True b in simp_all)
    finally show ?thesis using True u by simp
  next
    case False
    then have "sint w mod 2 ^ 64 = sint w" by (intro mod_pos_pos_trivial) (use b in simp_all)
    with False u show ?thesis by simp
  qed
qed

lemma uint_minus: "w \<noteq> 0 \<Longrightarrow> uint (- w :: u64) = 2 ^ 64 - uint w"
proof -
  assume "w \<noteq> 0"
  then have "0 < uint w" "uint w < 2 ^ 64"
    using uint_ge_0 [of w] uint_bounded [of w] by (auto simp: less_le word_uint_eq_iff)
  then have "(- uint w) mod 2 ^ 64 = 2 ^ 64 - uint w" by (simp add: zmod_zminus1_eq_if)
  then show ?thesis by (simp add: uint_word_ariths)
qed

section \<open>Locks and sleep channels\<close>

text \<open>
  Every spinlock of the kernel is a static object or sits in a numbered table entry, so a
  lock is named by what it protects; the same for the addresses used as sleep channels.
  A sleep-lock contains a spinlock of its own. \<open>ChYield\<close> stands for no channel at all: a
  process that yields waits for the scheduler only.
\<close>

datatype lock =
    KmemLock | PidLock | WaitLock | ProcLock nat | BcacheLock | LogLock | ItableLock
  | FtableLock | PipeLock u64 | ConsLock | PrLock | TxLock | TicksLock | VdiskLock
  | BufLk nat | InodeLk nat

datatype chan =
    ChProc nat | ChLog | ChTicks | ChPipeRead u64 | ChPipeWrite u64 | ChBufLock nat
  | ChInodeLock nat | ChCons | ChTx | ChDiskFree | ChBuf nat | ChInode nat | ChYield

section \<open>Results of kernel code\<close>

text \<open>
  \<open>Ok x s\<close>: returns \<open>x\<close> in state \<open>s\<close>. \<open>Panic m\<close>: calls \<open>panic(m)\<close>, which never returns.
  \<open>Block c s\<close>: calls \<open>sleep\<close> on channel \<open>c\<close>, leaving the state \<open>s\<close> to the other processes.
\<close>

datatype ('a, 's) res = Ok 'a 's | Panic string | Block chan 's

definition bnd :: "('a, 's) res \<Rightarrow> ('a \<Rightarrow> 's \<Rightarrow> ('b, 's) res) \<Rightarrow> ('b, 's) res" where
  "bnd r f = (case r of Ok x s \<Rightarrow> f x s | Panic m \<Rightarrow> Panic m | Block c s \<Rightarrow> Block c s)"

text \<open>An access outside an array, which C leaves undefined, ends the model the same way.\<close>

definition oob :: "('a, 's) res" where "oob = Panic ''out of bounds''"

lemma bnd_simps [simp]:
  "bnd (Ok x s) f = f x s" "bnd (Panic m) f = Panic m" "bnd (Block c s) f = Block c s"
  by (simp_all add: bnd_def)

lemma bnd_cong [fundef_cong]:
  "r = r' \<Longrightarrow> (\<And>x t. r' = Ok x t \<Longrightarrow> f x t = g x t) \<Longrightarrow> bnd r f = bnd r' g"
  by (cases r') auto

lemma bnd_Ok_iff: "bnd r f = Ok y t \<longleftrightarrow> (\<exists>x s. r = Ok x s \<and> f x s = Ok y t)"
  by (cases r) auto

lemma bnd_Panic_iff:
  "bnd r f = Panic m \<longleftrightarrow> r = Panic m \<or> (\<exists>x s. r = Ok x s \<and> f x s = Panic m)"
  by (cases r) auto

lemma bnd_assoc: "bnd (bnd r f) g = bnd r (\<lambda>x s. bnd (f x s) g)"
  by (cases r) auto

lemma bnd_OkE [elim!]:
  assumes "bnd r f = Ok y t" obtains x s where "r = Ok x s" "f x s = Ok y t"
  using assms by (auto simp: bnd_Ok_iff)

text \<open>Every state a result exposes (returned or left behind by a sleeper) satisfies \<open>P\<close>.\<close>

definition post :: "('s \<Rightarrow> bool) \<Rightarrow> ('a, 's) res \<Rightarrow> bool" where
  "post P r = (case r of Ok x s \<Rightarrow> P s | Panic m \<Rightarrow> True | Block c s \<Rightarrow> P s)"

lemma post_simps [simp]:
  "post P (Ok x s) = P s" "post P (Panic m) = True" "post P (Block c s) = P s"
  by (simp_all add: post_def)

lemma post_bnd:
  assumes "post P r" and "\<And>x s. r = Ok x s \<Longrightarrow> P s \<Longrightarrow> post P (f x s)"
  shows "post P (bnd r f)"
  using assms by (cases r) auto

lemma post_mono: "post P r \<Longrightarrow> (\<And>s. P s \<Longrightarrow> Q s) \<Longrightarrow> post Q r"
  by (cases r) auto

lemma postD: "post P r \<Longrightarrow> r = Ok x s \<Longrightarrow> P s"
  by simp

text \<open>
  Weakest precondition of a result: what holds on return and what holds when it goes to sleep.
  A panic satisfies everything, as for \<open>post\<close>.
\<close>

definition wp :: "('a \<Rightarrow> 's \<Rightarrow> bool) \<Rightarrow> (chan \<Rightarrow> 's \<Rightarrow> bool) \<Rightarrow> ('a, 's) res \<Rightarrow> bool" where
  "wp P B r = (case r of Ok x s \<Rightarrow> P x s | Panic m \<Rightarrow> True | Block c s \<Rightarrow> B c s)"

lemma wp_simps [simp]:
  "wp P B (Ok x s) = P x s" "wp P B (Panic m) = True" "wp P B (Block c s) = B c s"
  by (simp_all add: wp_def)

lemma wp_bnd: "wp (\<lambda>x s. wp P B (f x s)) B r \<Longrightarrow> wp P B (bnd r f)"
  by (cases r) auto

lemma wp_mono: "wp P B r \<Longrightarrow> (\<And>x s. P x s \<Longrightarrow> Q x s) \<Longrightarrow> (\<And>c s. B c s \<Longrightarrow> D c s) \<Longrightarrow> wp Q D r"
  by (cases r) auto

lemma wp_OkD: "wp P B r \<Longrightarrow> r = Ok x s \<Longrightarrow> P x s"
  by simp

lemma wp_BlockD: "wp P B r \<Longrightarrow> r = Block c s \<Longrightarrow> B c s"
  by simp

text \<open>Code that never sleeps.\<close>

definition nosleep :: "('a, 's) res \<Rightarrow> bool" where "nosleep r \<longleftrightarrow> wp (\<lambda>_ _. True) (\<lambda>_ _. False) r"

lemma nosleep_simps [simp]: "nosleep (Ok x s)" "nosleep (Panic m)" "\<not> nosleep (Block c s)"
  by (simp_all add: nosleep_def)

lemma nosleep_bnd: "nosleep r \<Longrightarrow> (\<And>x s. r = Ok x s \<Longrightarrow> nosleep (f x s)) \<Longrightarrow> nosleep (bnd r f)"
  by (cases r) auto

lemma nosleepD: "nosleep r \<Longrightarrow> r \<noteq> Block c s"
  by auto

lemma wp_nosleep: "nosleep r \<Longrightarrow> (\<And>x s. r = Ok x s \<Longrightarrow> P x s) \<Longrightarrow> wp P B r"
  by (cases r) auto

section \<open>Bounded loops\<close>

text \<open>
  \<open>foreach f is s\<close>: the body for every index in turn. \<open>scan f is s\<close>: the same with a body
  that may \<^verbatim>\<open>return\<close> out of the loop (\<open>Some r\<close>) or continue (\<open>None\<close>).
\<close>

fun foreach :: "('i \<Rightarrow> 's \<Rightarrow> (unit, 's) res) \<Rightarrow> 'i list \<Rightarrow> 's \<Rightarrow> (unit, 's) res" where
  "foreach f [] s = Ok () s"
| "foreach f (i # is) s = bnd (f i s) (\<lambda>_ t. foreach f is t)"

fun scan :: "('i \<Rightarrow> 's \<Rightarrow> ('r option, 's) res) \<Rightarrow> 'i list \<Rightarrow> 's \<Rightarrow> ('r option, 's) res" where
  "scan f [] s = Ok None s"
| "scan f (i # is) s = bnd (f i s) (\<lambda>r t. case r of Some v \<Rightarrow> Ok (Some v) t | None \<Rightarrow> scan f is t)"

lemma foreach_append: "foreach f (is @ js) s = bnd (foreach f is s) (\<lambda>_ t. foreach f js t)"
proof (induction "is" arbitrary: s)
  case Nil
  then show ?case by simp
next
  case (Cons i "is")
  then show ?case by (cases "f i s") auto
qed

lemma post_foreach:
  assumes "P s" and "\<And>i s. i \<in> set is \<Longrightarrow> P s \<Longrightarrow> post P (f i s)"
  shows "post P (foreach f is s)"
  using assms by (induction "is" arbitrary: s) (auto intro!: post_bnd)

lemma post_scan:
  assumes "P s" and "\<And>i s. i \<in> set is \<Longrightarrow> P s \<Longrightarrow> post P (f i s)"
  shows "post P (scan f is s)"
  using assms
proof (induction "is" arbitrary: s)
  case Nil
  then show ?case by simp
next
  case (Cons i "is")
  then show ?case by (auto intro!: post_bnd split: option.split)
qed

lemma nosleep_foreach: "(\<And>i s. i \<in> set is \<Longrightarrow> nosleep (f i s)) \<Longrightarrow> nosleep (foreach f is s)"
  by (induction "is" arbitrary: s) (auto intro!: nosleep_bnd)

text \<open>A loop whose body never fails and only applies a pure update is a fold.\<close>

lemma foreach_pure:
  "(\<And>i s. f i s = Ok () (g i s)) \<Longrightarrow> foreach f is s = Ok () (fold g is s)"
  by (induction "is" arbitrary: s) auto

lemma foreach_pure_on:
  "(\<And>i s. i \<in> set is \<Longrightarrow> P s \<Longrightarrow> f i s = Ok () (g i s) \<and> P (g i s)) \<Longrightarrow> P s \<Longrightarrow>
   foreach f is s = Ok () (fold g is s) \<and> P (fold g is s)"
  by (induction "is" arbitrary: s) auto

text \<open>The first index of a table that satisfies a predicate.\<close>

fun find_idx :: "('a \<Rightarrow> bool) \<Rightarrow> 'a list \<Rightarrow> nat option" where
  "find_idx P [] = None"
| "find_idx P (x # xs) = (if P x then Some 0 else map_option Suc (find_idx P xs))"

lemma find_idx_SomeD: "find_idx P xs = Some i \<Longrightarrow> i < length xs \<and> P (xs ! i) \<and> (\<forall>j<i. \<not> P (xs ! j))"
proof (induction xs arbitrary: i)
  case Nil
  then show ?case by simp
next
  case (Cons x xs)
  show ?case
  proof (cases "P x")
    case True
    with Cons.prems show ?thesis by simp
  next
    case False
    with Cons.prems obtain k where "find_idx P xs = Some k" "i = Suc k" by auto
    with Cons.IH False show ?thesis by (auto simp: less_Suc_eq_0_disj)
  qed
qed

lemma find_idx_None_iff: "find_idx P xs = None \<longleftrightarrow> (\<forall>x \<in> set xs. \<not> P x)"
  by (induction xs) auto

lemma find_idx_Some_ex: "\<exists>x \<in> set xs. P x \<Longrightarrow> \<exists>i. find_idx P xs = Some i"
  by (metis find_idx_None_iff option.exhaust)

lemma find_idx_first: "find_idx P xs = Some i \<Longrightarrow> j < i \<Longrightarrow> \<not> P (xs ! j)"
  by (blast dest: find_idx_SomeD)

section \<open>Lists updated by index\<close>

lemma list_update_same_map:
  "i < length xs \<Longrightarrow> f (xs ! i) = f x \<Longrightarrow> map f (xs[i := x]) = map f xs"
  by (metis list_update_id map_update)

lemma set_list_update_other: "x \<in> set (xs[i := y]) \<Longrightarrow> x = y \<or> x \<in> set xs"
  by (meson in_mono insertE set_update_subset_insert)

lemma all_list_update:
  "(\<forall>x \<in> set xs. P x) \<Longrightarrow> P y \<Longrightarrow> \<forall>x \<in> set (xs[i := y]). P x"
  by (auto dest: set_list_update_other)

lemma nth_list_update_cases:
  "j < length xs \<Longrightarrow> xs[i := y] ! j = (if i = j then y else xs ! j)"
  by (simp add: nth_list_update)

section \<open>Spinlocks as one CPU sees them\<close>

text \<open>
  Theory Spinlock models \<^verbatim>\<open>spinlock.c\<close> hart by hart. The kernel code proper runs on one CPU
  at a time and sees a spinlock only through whether this CPU holds it: \<open>held\<close> lists the
  locks this CPU holds, newest first, so \<^verbatim>\<open>mycpu()->noff\<close> is its length. \<open>acquire\<close> panics on
  a lock the CPU already holds and otherwise returns holding it (the wait for another
  CPU's critical section is not a state change of this one); \<open>release\<close> panics on a lock the
  CPU does not hold.
\<close>

record kcore =
  held :: "lock list"
  hartid :: nat
  curproc :: "nat option"
  outp :: "string"

definition holding :: "lock \<Rightarrow> 'x kcore_scheme \<Rightarrow> bool" where
  "holding l s = (l \<in> set (held s))"

definition acquire :: "lock \<Rightarrow> 'x kcore_scheme \<Rightarrow> (unit, 'x kcore_scheme) res" where
  "acquire l s = (if holding l s then Panic ''acquire'' else Ok () (s\<lparr>held := l # held s\<rparr>))"

definition release :: "lock \<Rightarrow> 'x kcore_scheme \<Rightarrow> (unit, 'x kcore_scheme) res" where
  "release l s =
     (if holding l s then Ok () (s\<lparr>held := remove1 l (held s)\<rparr>) else Panic ''release'')"

text \<open>The text the kernel prints with \<^verbatim>\<open>printf\<close>, oldest character first.\<close>

definition kprint :: "string \<Rightarrow> 'x kcore_scheme \<Rightarrow> 'x kcore_scheme" where
  "kprint m s = s\<lparr>outp := outp s @ m\<rparr>"

lemma acquire_free [simp]: "l \<notin> set (held s) \<Longrightarrow> acquire l s = Ok () (s\<lparr>held := l # held s\<rparr>)"
  by (simp add: acquire_def holding_def)

lemma acquire_held [simp]: "l \<in> set (held s) \<Longrightarrow> acquire l s = Panic ''acquire''"
  by (simp add: acquire_def holding_def)

lemma release_held [simp]:
  "l \<in> set (held s) \<Longrightarrow> release l s = Ok () (s\<lparr>held := remove1 l (held s)\<rparr>)"
  by (simp add: release_def holding_def)

lemma release_free [simp]: "l \<notin> set (held s) \<Longrightarrow> release l s = Panic ''release''"
  by (simp add: release_def holding_def)

lemma acquire_Ok_iff:
  "acquire l s = Ok u t \<longleftrightarrow> l \<notin> set (held s) \<and> t = s\<lparr>held := l # held s\<rparr>"
  by (auto simp: acquire_def holding_def)

lemma release_Ok_iff:
  "release l s = Ok u t \<longleftrightarrow> l \<in> set (held s) \<and> t = s\<lparr>held := remove1 l (held s)\<rparr>"
  by (auto simp: release_def holding_def)

lemma nosleep_lock [simp]: "nosleep (acquire l s)" "nosleep (release l s)"
  by (simp_all add: acquire_def release_def)

lemma acquire_not_Block [simp]: "acquire l s \<noteq> Block c t"
  by (simp add: acquire_def)

lemma release_not_Block [simp]: "release l s \<noteq> Block c t"
  by (simp add: release_def)

text \<open>
  A critical section: acquire, run the body, release. When the lock is free and the body
  leaves the lock list alone, the bracket is exactly the body.
\<close>

definition with_lock ::
  "lock \<Rightarrow> ('x kcore_scheme \<Rightarrow> ('a, 'x kcore_scheme) res) \<Rightarrow> 'x kcore_scheme \<Rightarrow> ('a, 'x kcore_scheme) res"
  where
  "with_lock l body s =
     bnd (acquire l s) (\<lambda>_ s. bnd (body s) (\<lambda>x s. bnd (release l s) (\<lambda>_ s. Ok x s)))"

lemma with_lock_held: "l \<in> set (held s) \<Longrightarrow> with_lock l body s = Panic ''acquire''"
  by (simp add: with_lock_def)

lemma held_held_update [simp]: "s\<lparr>held := held s\<rparr> = (s :: 'x kcore_scheme)"
  by (cases s) simp

end
