(* ===== verification/Spinlock.thy ===== *)
theory Spinlock
  imports Xv6_Prelude
begin

text \<open>
  \<^verbatim>\<open>kernel/spinlock.c\<close>, hart by hart: the lock word, the holder, the per-CPU nesting depth of
  \<^verbatim>\<open>push_off\<close> and the interrupt-enable bit of every hart. The functions are given first as
  the C code has them; then the same code is cut at its memory accesses into a step
  relation in which the harts interleave, and mutual exclusion, exactness of \<^verbatim>\<open>holding\<close> and
  "interrupts are off inside a critical section" are proved for every reachable state.
  Last, one hart's view of this machine is shown to be the \<open>held\<close> list of Xv6_Prelude.
\<close>

section \<open>State\<close>

text \<open>\<^verbatim>\<open>struct spinlock\<close>; \<open>lcpu\<close> is the holder, a null pointer being \<open>None\<close>.\<close>

record spinlock =
  locked :: bool
  lname :: string
  lcpu :: "nat option"

text \<open>The locking part of \<^verbatim>\<open>struct cpu\<close>, and \<^verbatim>\<open>sstatus.SIE\<close> of the hart.\<close>

record cpu =
  noff :: int
  intena :: bool
  sie :: bool

record smp =
  locks :: "lock \<Rightarrow> spinlock"
  cpus :: "nat \<Rightarrow> cpu"

definition upd_cpu :: "nat \<Rightarrow> (cpu \<Rightarrow> cpu) \<Rightarrow> 'x smp_scheme \<Rightarrow> 'x smp_scheme" where
  "upd_cpu c f m = m\<lparr>cpus := (cpus m)(c := f (cpus m c))\<rparr>"

definition upd_lock :: "lock \<Rightarrow> (spinlock \<Rightarrow> spinlock) \<Rightarrow> 'x smp_scheme \<Rightarrow> 'x smp_scheme" where
  "upd_lock l f m = m\<lparr>locks := (locks m)(l := f (locks m l))\<rparr>"

section \<open>The functions of spinlock.c\<close>

definition initlock :: "lock \<Rightarrow> string \<Rightarrow> 'x smp_scheme \<Rightarrow> 'x smp_scheme" where
  "initlock l nm m = upd_lock l (\<lambda>k. k\<lparr>lname := nm, locked := False, lcpu := None\<rparr>) m"

definition intr_get :: "nat \<Rightarrow> 'x smp_scheme \<Rightarrow> bool" where
  "intr_get c m = sie (cpus m c)"

definition intr_off :: "nat \<Rightarrow> 'x smp_scheme \<Rightarrow> 'x smp_scheme" where
  "intr_off c m = upd_cpu c (\<lambda>k. k\<lparr>sie := False\<rparr>) m"

definition intr_on :: "nat \<Rightarrow> 'x smp_scheme \<Rightarrow> 'x smp_scheme" where
  "intr_on c m = upd_cpu c (\<lambda>k. k\<lparr>sie := True\<rparr>) m"

definition push_off :: "nat \<Rightarrow> 'x smp_scheme \<Rightarrow> 'x smp_scheme" where
  "push_off c m =
     (let old = intr_get c m;
          m = intr_off c m;
          m = (if noff (cpus m c) = 0 then upd_cpu c (\<lambda>k. k\<lparr>intena := old\<rparr>) m else m)
      in upd_cpu c (\<lambda>k. k\<lparr>noff := noff k + 1\<rparr>) m)"

definition pop_off :: "nat \<Rightarrow> 'x smp_scheme \<Rightarrow> (unit, 'x smp_scheme) res" where
  "pop_off c m =
     (if intr_get c m then Panic ''pop_off - interruptible''
      else if noff (cpus m c) < 1 then Panic ''pop_off''
      else let m = upd_cpu c (\<lambda>k. k\<lparr>noff := noff k - 1\<rparr>) m
           in Ok () (if noff (cpus m c) = 0 \<and> intena (cpus m c) then intr_on c m else m))"

definition cpu_holding :: "nat \<Rightarrow> lock \<Rightarrow> 'x smp_scheme \<Rightarrow> bool" where
  "cpu_holding c l m = (locked (locks m l) \<and> lcpu (locks m l) = Some c)"

text \<open>
  \<^verbatim>\<open>acquire\<close> up to and including the first \<^verbatim>\<open>amoswap\<close>: \<open>Ok False\<close> says the swap returned 1
  and the code spins (the lock word is 1 either way), \<open>Ok True\<close> that it got the lock.
\<close>

definition amoswap :: "lock \<Rightarrow> 'x smp_scheme \<Rightarrow> bool \<times> 'x smp_scheme" where
  "amoswap l m = (locked (locks m l), upd_lock l (\<lambda>k. k\<lparr>locked := True\<rparr>) m)"

definition cpu_acquire :: "nat \<Rightarrow> lock \<Rightarrow> 'x smp_scheme \<Rightarrow> (bool, 'x smp_scheme) res" where
  "cpu_acquire c l m =
     (let m = push_off c m
      in if cpu_holding c l m then Panic ''acquire''
         else let (old, m) = amoswap l m
              in if old then Ok False m
                 else Ok True (upd_lock l (\<lambda>k. k\<lparr>lcpu := Some c\<rparr>) m))"

definition cpu_release :: "nat \<Rightarrow> lock \<Rightarrow> 'x smp_scheme \<Rightarrow> (unit, 'x smp_scheme) res" where
  "cpu_release c l m =
     (if \<not> cpu_holding c l m then Panic ''release''
      else let m = upd_lock l (\<lambda>k. k\<lparr>lcpu := None\<rparr>) m;
               m = upd_lock l (\<lambda>k. k\<lparr>locked := False\<rparr>) m
           in pop_off c m)"

lemmas spin_defs = upd_cpu_def upd_lock_def intr_get_def intr_off_def intr_on_def push_off_def
  pop_off_def cpu_holding_def amoswap_def Let_def

subsection \<open>push_off and pop_off are matched\<close>

text \<open>
  What lies between a \<^verbatim>\<open>push_off\<close> and its \<^verbatim>\<open>pop_off\<close> is any balanced code: it leaves the
  depth where it found it and never turns interrupts on. \<open>nest n\<close> is the deepest simple
  case, \<open>n\<close> pushes followed by \<open>n\<close> pops.
\<close>

fun pushes :: "nat \<Rightarrow> nat \<Rightarrow> 'x smp_scheme \<Rightarrow> 'x smp_scheme" where
  "pushes c 0 m = m"
| "pushes c (Suc n) m = pushes c n (push_off c m)"

fun pops :: "nat \<Rightarrow> nat \<Rightarrow> 'x smp_scheme \<Rightarrow> (unit, 'x smp_scheme) res" where
  "pops c 0 m = Ok () m"
| "pops c (Suc n) m = bnd (pop_off c m) (\<lambda>_ m. pops c n m)"

lemma cpus_push_off:
  "cpus (push_off c m) =
   (cpus m)(c := \<lparr>noff = noff (cpus m c) + 1,
                  intena = (if noff (cpus m c) = 0 then sie (cpus m c) else intena (cpus m c)),
                  sie = False, \<dots> = cpu.more (cpus m c)\<rparr>)"
  by (auto simp: spin_defs)

lemma locks_push_off [simp]: "locks (push_off c m) = locks m"
  by (simp add: spin_defs)

lemma cpus_pushes:
  "0 < n \<Longrightarrow> 0 \<le> noff (cpus m c) \<Longrightarrow>
   cpus (pushes c n m) =
   (cpus m)(c := \<lparr>noff = noff (cpus m c) + int n,
                  intena = (if noff (cpus m c) = 0 then sie (cpus m c) else intena (cpus m c)),
                  sie = False, \<dots> = cpu.more (cpus m c)\<rparr>)"
proof (induction n arbitrary: m)
  case 0
  then show ?case by simp
next
  case (Suc n)
  show ?case
  proof (cases "n = 0")
    case True
    then show ?thesis by (simp add: cpus_push_off)
  next
    case False
    with Suc.prems Suc.IH [of "push_off c m"] show ?thesis
      by (auto simp: cpus_push_off)
  qed
qed

lemma pops_cpus:
  "sie (cpus m c) = False \<Longrightarrow> noff (cpus m c) = int n + k \<Longrightarrow> 0 \<le> k \<Longrightarrow> 0 < n \<Longrightarrow>
   \<exists>m'. pops c n m = Ok () m' \<and> locks m' = locks m \<and> 
     cpus m' = (cpus m)(c := (cpus m c)\<lparr>noff := k, sie := (k = 0 \<and> intena (cpus m c))\<rparr>)"
proof (induction n arbitrary: m)
  case 0
  then show ?case by simp
next
  case (Suc n)
  show ?case
  proof (cases "n = 0")
    case True
    with Suc.prems show ?thesis by (auto simp: spin_defs)
  next
    case False
    define m1 where "m1 = upd_cpu c (\<lambda>k. k\<lparr>noff := noff k - 1\<rparr>) m"
    have pop: "pop_off c m = Ok () m1"
      using Suc.prems False by (auto simp: spin_defs m1_def)
    have "sie (cpus m1 c) = False" "noff (cpus m1 c) = int n + k" "0 < n"
      using Suc.prems False by (auto simp: m1_def spin_defs)
    from Suc.IH [OF this(1,2) Suc.prems(3) this(3)] obtain m' where
      "pops c n m1 = Ok () m'" "locks m' = locks m1"
      "cpus m' = (cpus m1)(c := (cpus m1 c)\<lparr>noff := k, sie := (k = 0 \<and> intena (cpus m1 c))\<rparr>)"
      by blast
    with pop show ?thesis by (auto simp: m1_def spin_defs)
  qed
qed

section \<open>Interleaving of the harts\<close>

text \<open>
  Where a hart is inside \<^verbatim>\<open>acquire\<close> or \<^verbatim>\<open>release\<close>: about to swap (spinning), about to record
  itself as the holder, about to clear the lock word (the holder already cleared), about
  to \<^verbatim>\<open>pop_off\<close>, in no lock operation, or stopped by a panic.
\<close>

datatype pc = Idle | AtSwap lock | AtSetCpu lock | AtClear lock | AtPop | Crashed

text \<open>\<open>own c\<close> is history: the locks whose lock word hart \<open>c\<close> swapped to 1 and has not cleared.\<close>

record lmach = smp +
  pc :: "nat \<Rightarrow> pc"
  own :: "nat \<Rightarrow> lock set"

definition set_pc :: "nat \<Rightarrow> pc \<Rightarrow> lmach \<Rightarrow> lmach" where
  "set_pc c p m = m\<lparr>pc := (pc m)(c := p)\<rparr>"

definition set_own :: "nat \<Rightarrow> lock set \<Rightarrow> lmach \<Rightarrow> lmach" where
  "set_own c L m = m\<lparr>own := (own m)(c := L)\<rparr>"

inductive lstep :: "lmach \<Rightarrow> lmach \<Rightarrow> bool" where
  acq_begin: "pc m c = Idle \<Longrightarrow> \<not> cpu_holding c l (push_off c m) \<Longrightarrow>
     lstep m (set_pc c (AtSwap l) (push_off c m))"
| acq_panic: "pc m c = Idle \<Longrightarrow> cpu_holding c l (push_off c m) \<Longrightarrow>
     lstep m (set_pc c Crashed (push_off c m))"
| acq_spin: "pc m c = AtSwap l \<Longrightarrow> amoswap l m = (True, m') \<Longrightarrow> lstep m m'"
| acq_win: "pc m c = AtSwap l \<Longrightarrow> amoswap l m = (False, m') \<Longrightarrow>
     lstep m (set_own c (insert l (own m c)) (set_pc c (AtSetCpu l) m'))"
| acq_set: "pc m c = AtSetCpu l \<Longrightarrow>
     lstep m (set_pc c Idle (upd_lock l (\<lambda>k. k\<lparr>lcpu := Some c\<rparr>) m))"
| rel_begin: "pc m c = Idle \<Longrightarrow> cpu_holding c l m \<Longrightarrow>
     lstep m (set_pc c (AtClear l) (upd_lock l (\<lambda>k. k\<lparr>lcpu := None\<rparr>) m))"
| rel_panic: "pc m c = Idle \<Longrightarrow> \<not> cpu_holding c l m \<Longrightarrow> lstep m (set_pc c Crashed m)"
| rel_clear: "pc m c = AtClear l \<Longrightarrow>
     lstep m (set_own c (own m c - {l}) (set_pc c AtPop (upd_lock l (\<lambda>k. k\<lparr>locked := False\<rparr>) m)))"
| rel_pop: "pc m c = AtPop \<Longrightarrow> pop_off c m = Ok () m' \<Longrightarrow> lstep m (set_pc c Idle m')"
| rel_pop_panic: "pc m c = AtPop \<Longrightarrow> pop_off c m = Panic e \<Longrightarrow> lstep m (set_pc c Crashed m)"
| intr_change: "pc m c = Idle \<Longrightarrow> noff (cpus m c) = 0 \<Longrightarrow>
     lstep m (upd_cpu c (\<lambda>k. k\<lparr>sie := b\<rparr>) m)"

definition linit :: "lmach \<Rightarrow> bool" where
  "linit m \<longleftrightarrow> (\<forall>l. \<not> locked (locks m l) \<and> lcpu (locks m l) = None) \<and>
     (\<forall>c. noff (cpus m c) = 0 \<and> pc m c = Idle \<and> own m c = {})"

inductive lreach :: "lmach \<Rightarrow> lmach \<Rightarrow> bool" where
  lreach_init: "linit m \<Longrightarrow> lreach m m"
| lreach_step: "lreach m0 m \<Longrightarrow> lstep m m' \<Longrightarrow> lreach m0 m'"

text \<open>The nesting depth a hart owes to the lock operation it is in the middle of.\<close>

fun busy :: "pc \<Rightarrow> int" where
  "busy (AtSwap l) = 1"
| "busy AtPop = 1"
| "busy Idle = 0"
| "busy (AtSetCpu l) = 0"
| "busy (AtClear l) = 0"
| "busy Crashed = 0"

text \<open>The lock whose holder field the hart is in the middle of changing.\<close>

definition mid :: "lmach \<Rightarrow> nat \<Rightarrow> lock option" where
  "mid m c = (case pc m c of AtSetCpu l \<Rightarrow> Some l | AtClear l \<Rightarrow> Some l | _ \<Rightarrow> None)"

definition lock_inv :: "lmach \<Rightarrow> bool" where
  "lock_inv m \<longleftrightarrow>
     (\<forall>l. locked (locks m l) \<longleftrightarrow> (\<exists>c. l \<in> own m c)) \<and>
     (\<forall>l c d. l \<in> own m c \<longrightarrow> l \<in> own m d \<longrightarrow> c = d) \<and>
     (\<forall>l c. lcpu (locks m l) = Some c \<longrightarrow> l \<in> own m c \<and> mid m c \<noteq> Some l) \<and>
     (\<forall>l c. l \<in> own m c \<longrightarrow> mid m c = Some l \<or> lcpu (locks m l) = Some c) \<and>
     (\<forall>l c. mid m c = Some l \<longrightarrow> l \<in> own m c)"

lemma lock_invI:
  assumes "\<And>l. locked (locks m l) \<longleftrightarrow> (\<exists>c. l \<in> own m c)"
    and "\<And>l c d. l \<in> own m c \<Longrightarrow> l \<in> own m d \<Longrightarrow> c = d"
    and "\<And>l c. lcpu (locks m l) = Some c \<Longrightarrow> l \<in> own m c \<and> mid m c \<noteq> Some l"
    and "\<And>l c. l \<in> own m c \<Longrightarrow> mid m c \<noteq> Some l \<Longrightarrow> lcpu (locks m l) = Some c"
    and "\<And>l c. mid m c = Some l \<Longrightarrow> l \<in> own m c"
  shows "lock_inv m"
  unfolding lock_inv_def using assms by meson

lemma lock_invD:
  assumes "lock_inv m"
  shows "locked (locks m l) \<longleftrightarrow> (\<exists>c. l \<in> own m c)"
    and "l \<in> own m c \<Longrightarrow> l \<in> own m d \<Longrightarrow> c = d"
    and "lcpu (locks m l) = Some c \<Longrightarrow> l \<in> own m c \<and> mid m c \<noteq> Some l"
    and "l \<in> own m c \<Longrightarrow> mid m c \<noteq> Some l \<Longrightarrow> lcpu (locks m l) = Some c"
    and "mid m c = Some l \<Longrightarrow> l \<in> own m c"
  using assms unfolding lock_inv_def by meson+

lemma lock_inv_cong:
  "lock_inv m \<Longrightarrow> locks m' = locks m \<Longrightarrow> own m' = own m \<Longrightarrow> mid m' = mid m \<Longrightarrow> lock_inv m'"
  unfolding lock_inv_def by simp

definition depth_inv :: "lmach \<Rightarrow> bool" where
  "depth_inv m \<longleftrightarrow>
     (\<forall>c. finite (own m c) \<and>
        (pc m c \<noteq> Crashed \<longrightarrow>
           noff (cpus m c) = int (card (own m c)) + busy (pc m c) \<and>
           (0 < noff (cpus m c) \<longrightarrow> \<not> sie (cpus m c))))"

lemmas lstep_defs = spin_defs set_pc_def set_own_def

lemma push_off_lmach [simp]: "pc (push_off c m) = pc m" "own (push_off c m) = own m"
  by (simp_all add: spin_defs)

lemma lock_inv_init: "linit m \<Longrightarrow> lock_inv m"
  by (simp add: linit_def lock_inv_def mid_def)

lemma depth_inv_init: "linit m \<Longrightarrow> depth_inv m"
  by (simp add: linit_def depth_inv_def)

lemma mid_set_pc [simp]:
  "mid (set_pc c p m) = (mid m)(c := case p of AtSetCpu l \<Rightarrow> Some l | AtClear l \<Rightarrow> Some l | _ \<Rightarrow> None)"
  by (auto simp: mid_def set_pc_def fun_eq_iff)

lemma mid_other [simp]:
  "mid (set_own c L m) = mid m" "mid (push_off c m) = mid m" "mid (upd_cpu c f m) = mid m"
  "mid (upd_lock l g m) = mid m"
  by (simp_all add: mid_def fun_eq_iff lstep_defs)

lemma fields_set_pc [simp]:
  "locks (set_pc c p m) = locks m" "own (set_pc c p m) = own m" "cpus (set_pc c p m) = cpus m"
  "locks (set_own c L m) = locks m" "own (set_own c L m) = (own m)(c := L)"
  "cpus (set_own c L m) = cpus m" "pc (set_own c L m) = pc m"
  by (simp_all add: set_pc_def set_own_def)

lemma fields_upd [simp]:
  "locks (upd_cpu c f m) = locks m" "own (upd_cpu c f m') = own m'"
  "locks (upd_lock l g m) = (locks m)(l := g (locks m l))" "own (upd_lock l g m') = own m'"
  "pc (upd_lock l g m') = pc m'" "pc (upd_cpu c f m') = pc m'" "cpus (upd_lock l g m) = cpus m"
  by (simp_all add: upd_cpu_def upd_lock_def)

lemma pop_off_fields:
  "pop_off c m = Ok u m' \<Longrightarrow> locks m' = locks m"
  "pop_off c k = Ok u k' \<Longrightarrow> own k' = own k \<and> pc k' = pc k \<and> mid k' = mid k"
  by (auto simp: pop_off_def intr_on_def Let_def split: if_splits)

lemma mid_Idle: "pc m c = Idle \<Longrightarrow> mid m c = None" "pc m c = AtSwap l \<Longrightarrow> mid m c = None"
  "pc m c = AtPop \<Longrightarrow> mid m c = None" "pc m c = AtSetCpu l \<Longrightarrow> mid m c = Some l"
  "pc m c = AtClear l \<Longrightarrow> mid m c = Some l"
  by (simp_all add: mid_def)

lemma lock_inv_lstep:
  assumes "lstep m m'" and "lock_inv m"
  shows "lock_inv m'"
  using assms
proof (induction rule: lstep.induct)
  case (acq_win m c l m')
  note I = lock_invD [OF acq_win(3)]
  have m': "m' = upd_lock l (\<lambda>k. k\<lparr>locked := True\<rparr>) m" and free: "\<And>d. l \<notin> own m d"
    using acq_win(2) I(1) by (auto simp: amoswap_def)
  have nocpu: "lcpu (locks m l) = None" using I(3) free by (metis not_None_eq)
  have nomid: "mid m d \<noteq> Some l" for d using I(5) free by blast
  let ?n = "set_own c (insert l (own m c)) (set_pc c (AtSetCpu l) m')"
  have n: "mid ?n = (mid m)(c := Some l)" "own ?n = (own m)(c := insert l (own m c))"
    "locks ?n = (locks m)(l := (locks m l)\<lparr>locked := True\<rparr>)"
    by (simp_all add: m')
  show ?case
  proof (rule lock_invI)
    show "locked (locks ?n k) = (\<exists>d. k \<in> own ?n d)" for k
      unfolding n using I(1) [of k] by (cases "k = l") auto
    show "d = e" if "k \<in> own ?n d" "k \<in> own ?n e" for k d e
      using that I(2) [of k] free unfolding n by (auto split: if_splits)
    show "k \<in> own ?n d \<and> mid ?n d \<noteq> Some k" if "lcpu (locks ?n k) = Some d" for k d
      using that I(3) [of k d] nocpu unfolding n by (cases "k = l") auto
    show "lcpu (locks ?n k) = Some d" if "k \<in> own ?n d" "mid ?n d \<noteq> Some k" for k d
      using that I(4) [of k d] free mid_Idle(2) [OF acq_win(1)] unfolding n
      by (cases "k = l"; cases "d = c") auto
    show "k \<in> own ?n d" if "mid ?n d = Some k" for k d
      using that I(5) [of d k] unfolding n by (cases "d = c") auto
  qed
next
  case (acq_set m c l)
  note I = lock_invD [OF acq_set(2)] and mc = mid_Idle(4) [OF acq_set(1)]
  have "l \<in> own m c" "\<And>d. l \<in> own m d \<Longrightarrow> d = c" using I(2,5) mc by blast+
  then have other: "\<And>d. l \<in> own m d \<Longrightarrow> d = c" "\<And>d. mid m d = Some l \<Longrightarrow> d = c" using I(5) by blast+
  let ?n = "set_pc c Idle (upd_lock l (\<lambda>k. k\<lparr>lcpu := Some c\<rparr>) m)"
  have n: "mid ?n = (mid m)(c := None)" "own ?n = own m"
    "locks ?n = (locks m)(l := (locks m l)\<lparr>lcpu := Some c\<rparr>)" by simp_all
  show ?case
  proof (rule lock_invI)
    show "locked (locks ?n k) = (\<exists>d. k \<in> own ?n d)" for k
      unfolding n using I(1) [of k] by (cases "k = l") auto
    show "d = e" if "k \<in> own ?n d" "k \<in> own ?n e" for k d e
      using that I(2) [of k] unfolding n by blast
    show "k \<in> own ?n d \<and> mid ?n d \<noteq> Some k" if "lcpu (locks ?n k) = Some d" for k d
      using that I(3) [of k d] \<open>l \<in> own m c\<close> unfolding n by (cases "k = l"; cases "d = c") auto
    show "lcpu (locks ?n k) = Some d" if "k \<in> own ?n d" "mid ?n d \<noteq> Some k" for k d
    proof (cases "k = l")
      case True
      then show ?thesis using that(1) other(1) [of d] unfolding n by simp
    next
      case False
      then have "mid m d \<noteq> Some k" using that(2) mc unfolding n by (cases "d = c") simp_all
      then show ?thesis using False that(1) I(4) [of k d] unfolding n by simp
    qed
    show "k \<in> own ?n d" if "mid ?n d = Some k" for k d
      using that I(5) [of d k] unfolding n by (cases "d = c") auto
  qed
next
  case (rel_begin m c l)
  note I = lock_invD [OF rel_begin(3)] and mc = mid_Idle(1) [OF rel_begin(1)]
  have "l \<in> own m c" "\<And>d. l \<in> own m d \<Longrightarrow> d = c"
    using rel_begin(2) I(2,3) unfolding cpu_holding_def by blast+
  then have nomid: "\<And>d. mid m d \<noteq> Some l" proof -
    fix d
    show "mid m d \<noteq> Some l"
      using I(3) [of l c] I(5) [of d l] rel_begin(2) \<open>\<And>d. l \<in> own m d \<Longrightarrow> d = c\<close>
      unfolding cpu_holding_def by blast
  qed
  let ?n = "set_pc c (AtClear l) (upd_lock l (\<lambda>k. k\<lparr>lcpu := None\<rparr>) m)"
  have n: "mid ?n = (mid m)(c := Some l)" "own ?n = own m"
    "locks ?n = (locks m)(l := (locks m l)\<lparr>lcpu := None\<rparr>)" by simp_all
  show ?case
  proof (rule lock_invI)
    show "locked (locks ?n k) = (\<exists>d. k \<in> own ?n d)" for k
      unfolding n using I(1) [of k] by (cases "k = l") auto
    show "d = e" if "k \<in> own ?n d" "k \<in> own ?n e" for k d e
      using that I(2) [of k] unfolding n by blast
    show "k \<in> own ?n d \<and> mid ?n d \<noteq> Some k" if "lcpu (locks ?n k) = Some d" for k d
      using that I(3) [of k d] unfolding n by (cases "k = l"; cases "d = c") auto
    show "lcpu (locks ?n k) = Some d" if "k \<in> own ?n d" "mid ?n d \<noteq> Some k" for k d
    proof (cases "k = l")
      case True
      then have "d = c" using that(1) \<open>\<And>d. l \<in> own m d \<Longrightarrow> d = c\<close> [of d] unfolding n by simp
      then show ?thesis using that(2) True unfolding n by simp
    next
      case False
      then have "mid m d \<noteq> Some k" "k \<in> own m d"
        using that mc unfolding n by (cases "d = c"; simp)+
      then show ?thesis using False I(4) [of k d] unfolding n by simp
    qed
    show "k \<in> own ?n d" if "mid ?n d = Some k" for k d
      using that I(5) [of d k] \<open>l \<in> own m c\<close> unfolding n by (cases "d = c") auto
  qed
next
  case (rel_clear m c l)
  note I = lock_invD [OF rel_clear(2)] and mc = mid_Idle(5) [OF rel_clear(1)]
  have own: "l \<in> own m c" "\<And>d. l \<in> own m d \<Longrightarrow> d = c" using I(2,5) mc by blast+
  have "lcpu (locks m l) = None" using I(3) own mc by (metis option.exhaust)
  let ?n = "set_own c (own m c - {l}) (set_pc c AtPop (upd_lock l (\<lambda>k. k\<lparr>locked := False\<rparr>) m))"
  have n: "mid ?n = (mid m)(c := None)" "own ?n = (own m)(c := own m c - {l})"
    "locks ?n = (locks m)(l := (locks m l)\<lparr>locked := False\<rparr>)" by simp_all
  show ?case
  proof (rule lock_invI)
    show "locked (locks ?n k) = (\<exists>d. k \<in> own ?n d)" for k
    proof -
      have "k \<in> ((own m)(c := own m c - {l})) d \<longleftrightarrow> k \<in> own m d \<and> k \<noteq> l" for d
        using own(2) [of d] by (cases "d = c") auto
      then show ?thesis unfolding n using I(1) [of k] by (cases "k = l") simp_all
    qed
    show "d = e" if "k \<in> own ?n d" "k \<in> own ?n e" for k d e
      using that I(2) [of k] unfolding n by (auto split: if_splits)
    show "k \<in> own ?n d \<and> mid ?n d \<noteq> Some k" if "lcpu (locks ?n k) = Some d" for k d
      using that I(3) [of k d] \<open>lcpu (locks m l) = None\<close> unfolding n
      by (cases "k = l"; cases "d = c") auto
    show "lcpu (locks ?n k) = Some d" if "k \<in> own ?n d" "mid ?n d \<noteq> Some k" for k d
    proof (cases "k = l")
      case True
      then show ?thesis using that(1) own(2) [of d] unfolding n by (cases "d = c") simp_all
    next
      case False
      then have "mid m d \<noteq> Some k" "k \<in> own m d"
        using that mc unfolding n by (cases "d = c"; simp)+
      then show ?thesis using False I(4) [of k d] unfolding n by simp
    qed
    show "k \<in> own ?n d" if "mid ?n d = Some k" for k d
    proof -
      have dc: "d \<noteq> c" and k: "k \<in> own m d" using that I(5) [of d k] unfolding n by (auto split: if_splits)
      then show ?thesis unfolding n by simp
    qed
  qed
next
  case (acq_spin m c l m')
  then have l: "locked (locks m l)" and m': "m' = upd_lock l (\<lambda>k. k\<lparr>locked := True\<rparr>) m"
    by (simp_all add: amoswap_def)
  have "(locks m l)\<lparr>locked := True\<rparr> = locks m l" using l by (cases "locks m l") simp
  then show ?case unfolding m' by (intro lock_inv_cong [OF acq_spin(3)]) (simp_all add: fun_upd_idem)
next
  case (acq_begin m c l)
  then show ?case
    by (intro lock_inv_cong [OF acq_begin(3)]) (simp_all add: mid_Idle fun_upd_idem)
next
  case (acq_panic m c l)
  then show ?case
    by (intro lock_inv_cong [OF acq_panic(3)]) (simp_all add: mid_Idle fun_upd_idem)
next
  case (rel_panic m c l)
  then show ?case
    by (intro lock_inv_cong [OF rel_panic(3)]) (simp_all add: mid_Idle fun_upd_idem)
next
  case (rel_pop m c m')
  then show ?case
    by (intro lock_inv_cong [OF rel_pop(3)]) (simp_all add: mid_Idle fun_upd_idem pop_off_fields)
next
  case (rel_pop_panic m c e)
  then show ?case
    by (intro lock_inv_cong [OF rel_pop_panic(3)]) (simp_all add: mid_Idle fun_upd_idem)
next
  case (intr_change m c b)
  then show ?case by (intro lock_inv_cong [OF intr_change(3)]) simp_all
qed

text \<open>A hart that is not in the middle of a lock operation never fails \<^verbatim>\<open>pop_off\<close>.\<close>

lemma pop_off_depth:
  assumes "depth_inv m" and "pc m c = AtPop"
  shows "\<exists>m'. pop_off c m = Ok () m'"
proof -
  have "noff (cpus m c) = int (card (own m c)) + 1"
    using assms by (simp add: depth_inv_def)
  then have "0 < noff (cpus m c)" and "\<not> sie (cpus m c)"
    using assms by (auto simp: depth_inv_def)
  then show ?thesis by (simp add: spin_defs)
qed

lemma depth_inv_lstep:
  assumes "lstep m m'" and "lock_inv m" and "depth_inv m"
  shows "depth_inv m'"
  using assms
proof (induction rule: lstep.induct)
  case (acq_begin m c l)
  then show ?case by (auto simp: depth_inv_def set_pc_def cpus_push_off)
next
  case (acq_panic m c l)
  then show ?case by (auto simp: depth_inv_def set_pc_def cpus_push_off)
next
  case (acq_spin m c l m')
  then show ?case by (auto simp: depth_inv_def lstep_defs)
next
  case (acq_win m c l m')
  have "l \<notin> own m c"
    using acq_win by (auto simp: lock_inv_def lstep_defs)
  with acq_win show ?case by (auto simp: depth_inv_def lstep_defs)
next
  case (acq_set m c l)
  then show ?case by (auto simp: depth_inv_def lstep_defs)
next
  case (rel_begin m c l)
  then show ?case by (auto simp: depth_inv_def lstep_defs)
next
  case (rel_panic m c l)
  then show ?case by (auto simp: depth_inv_def lstep_defs)
next
  case (rel_clear m c l)
  have "l \<in> own m c"
    using lock_invD(5) [OF rel_clear(2) mid_Idle(5) [OF rel_clear(1)]] .
  moreover have "finite (own m c)"
    using rel_clear(3) by (simp add: depth_inv_def)
  ultimately have "card (own m c) = Suc (card (own m c - {l}))"
    by (simp only: card.remove)
  then have d: "noff (cpus m c) = int (card (own m c - {l})) + 1" "\<not> sie (cpus m c)"
    using rel_clear(1,3) by (auto simp: depth_inv_def)
  have *: "finite (own m d) \<and> (pc m d \<noteq> Crashed \<longrightarrow>
           noff (cpus m d) = int (card (own m d)) + busy (pc m d) \<and>
           (0 < noff (cpus m d) \<longrightarrow> \<not> sie (cpus m d)))" for d
    using rel_clear(3) by (simp add: depth_inv_def)
  show ?case
    unfolding depth_inv_def
  proof
    fix d
    show "finite (own (set_own c (own m c - {l}) (set_pc c AtPop (upd_lock l (\<lambda>k. k\<lparr>locked := False\<rparr>) m))) d) \<and>
      (pc (set_own c (own m c - {l}) (set_pc c AtPop (upd_lock l (\<lambda>k. k\<lparr>locked := False\<rparr>) m))) d \<noteq> Crashed \<longrightarrow>
       noff (cpus (set_own c (own m c - {l}) (set_pc c AtPop (upd_lock l (\<lambda>k. k\<lparr>locked := False\<rparr>) m))) d) =
         int (card (own (set_own c (own m c - {l}) (set_pc c AtPop (upd_lock l (\<lambda>k. k\<lparr>locked := False\<rparr>) m))) d)) +
         busy (pc (set_own c (own m c - {l}) (set_pc c AtPop (upd_lock l (\<lambda>k. k\<lparr>locked := False\<rparr>) m))) d) \<and>
       (0 < noff (cpus (set_own c (own m c - {l}) (set_pc c AtPop (upd_lock l (\<lambda>k. k\<lparr>locked := False\<rparr>) m))) d) \<longrightarrow>
        \<not> sie (cpus (set_own c (own m c - {l}) (set_pc c AtPop (upd_lock l (\<lambda>k. k\<lparr>locked := False\<rparr>) m))) d)))"
      using d * [of d] * [of c] by (cases "d = c") (simp_all add: set_pc_def)
  qed
next
  case (rel_pop m c m')
  then have "noff (cpus m c) = int (card (own m c)) + 1" "\<not> sie (cpus m c)"
    by (auto simp: depth_inv_def)
  with rel_pop show ?case by (auto simp: depth_inv_def lstep_defs split: if_splits)
next
  case (rel_pop_panic m c e)
  then show ?case by (auto simp: depth_inv_def lstep_defs)
next
  case (intr_change m c b)
  then show ?case by (auto simp: depth_inv_def lstep_defs)
qed

lemma lreach_inv: "lreach m0 m \<Longrightarrow> lock_inv m \<and> depth_inv m"
  by (induction rule: lreach.induct)
     (auto simp: lock_inv_init depth_inv_init intro: lock_inv_lstep depth_inv_lstep)

section \<open>One hart's view\<close>

text \<open>
  The view of hart \<open>c\<close>: the list \<open>h\<close> of Xv6_Prelude names exactly the locks the machine
  says it holds, and the nesting depth is the length of the list.
\<close>

definition held_view :: "nat \<Rightarrow> smp \<Rightarrow> lock list \<Rightarrow> bool" where
  "held_view c m h \<longleftrightarrow>
     distinct h \<and> (\<forall>l. l \<in> set h \<longleftrightarrow> cpu_holding c l m) \<and> noff (cpus m c) = int (length h) \<and>
     (h \<noteq> [] \<longrightarrow> \<not> sie (cpus m c))"

lemma cpu_acquire_view:
  assumes "held_view c m (held s)"
  shows "cpu_acquire c l m = Ok True m' \<Longrightarrow>
           \<exists>s'. acquire l s = Ok () s' \<and> held_view c m' (held s')"
    and "cpu_acquire c l m = Panic e \<Longrightarrow> acquire l s = Panic e"
proof -
  have h: "cpu_holding c l (push_off c m) = (l \<in> set (held s))"
    using assms by (simp add: held_view_def cpu_holding_def)
  show "\<exists>s'. acquire l s = Ok () s' \<and> held_view c m' (held s')" if "cpu_acquire c l m = Ok True m'"
  proof -
    let ?p = "push_off c m"
    have nh: "l \<notin> set (held s)" and nl: "\<not> locked (locks m l)"
      and m': "m' = upd_lock l (\<lambda>k. k\<lparr>lcpu := Some c\<rparr>) (upd_lock l (\<lambda>k. k\<lparr>locked := True\<rparr>) ?p)"
      using that h by (auto simp: cpu_acquire_def amoswap_def Let_def split: if_splits)
    have "cpu_holding c k m' = (k = l \<or> cpu_holding c k m)" for k
      by (auto simp: m' cpu_holding_def)
    moreover have "noff (cpus m' c) = noff (cpus m c) + 1" "\<not> sie (cpus m' c)"
      by (simp_all add: m' cpus_push_off)
    ultimately have "held_view c m' (l # held s)"
      using assms nh unfolding held_view_def by simp
    then show ?thesis using nh by simp
  qed
  show "cpu_acquire c l m = Panic e \<Longrightarrow> acquire l s = Panic e"
    using h by (auto simp: cpu_acquire_def Let_def split: if_splits prod.splits)
qed

lemma cpu_release_view:
  assumes v: "held_view c m (held s)"
  shows "l \<in> set (held s) \<Longrightarrow>
           \<exists>m' s'. cpu_release c l m = Ok () m' \<and> release l s = Ok () s' \<and> held_view c m' (held s')"
    and "l \<notin> set (held s) \<Longrightarrow> cpu_release c l m = Panic ''release'' \<and> release l s = Panic ''release''"
proof -
  show "l \<notin> set (held s) \<Longrightarrow> cpu_release c l m = Panic ''release'' \<and> release l s = Panic ''release''"
    using v by (simp add: cpu_release_def held_view_def)
  assume l: "l \<in> set (held s)"
  then have ne: "held s \<noteq> []" and len: "0 < length (held s)" by auto
  define m1 where "m1 = upd_lock l (\<lambda>k. k\<lparr>locked := False\<rparr>) (upd_lock l (\<lambda>k. k\<lparr>lcpu := None\<rparr>) m)"
  have c: "cpus m1 = cpus m" by (simp add: m1_def upd_lock_def)
  have pop: "\<exists>m'. pop_off c m1 = Ok () m' \<and> locks m' = locks m1 \<and>
      noff (cpus m' c) = int (length (held s)) - 1 \<and>
      (1 < length (held s) \<longrightarrow> \<not> sie (cpus m' c))"
    using v ne len c by (auto simp: held_view_def spin_defs split: if_splits)
  then obtain m' where m': "pop_off c m1 = Ok () m'" "locks m' = locks m1"
      "noff (cpus m' c) = int (length (held s)) - 1"
      "1 < length (held s) \<longrightarrow> \<not> sie (cpus m' c)" by blast
  have "cpu_release c l m = Ok () m'"
    using v l m'(1) by (simp add: cpu_release_def held_view_def m1_def Let_def)
  moreover have "held_view c m' (remove1 l (held s))"
    unfolding held_view_def
  proof (intro conjI allI impI)
    show "distinct (remove1 l (held s))" using v by (simp add: held_view_def)
    show "noff (cpus m' c) = int (length (remove1 l (held s)))"
      using l len m'(3) by (simp add: length_remove1 of_nat_diff Suc_le_eq)
    show "\<And>k. (k \<in> set (remove1 l (held s))) = cpu_holding c k m'"
      using v m'(2) by (auto simp: held_view_def cpu_holding_def m1_def upd_lock_def)
    show "\<not> sie (cpus m' c)" if "remove1 l (held s) \<noteq> []"
    proof -
      have "length (remove1 l (held s)) \<noteq> 0" using that by simp
      then show ?thesis using l m'(4) by (simp add: length_remove1)
    qed
  qed
  ultimately show "\<exists>m' s'. cpu_release c l m = Ok () m' \<and> release l s = Ok () s' \<and>
      held_view c m' (held s')"
    using l by auto
qed

section \<open>Properties\<close>

text \<open>A run used by the witnesses: hart 0 acquires the allocator's lock.\<close>

definition lmach0 :: lmach where
  "lmach0 = \<lparr>locks = (\<lambda>_. \<lparr>locked = False, lname = '''', lcpu = None\<rparr>),
     cpus = (\<lambda>_. \<lparr>noff = 0, intena = False, sie = True\<rparr>), pc = (\<lambda>_. Idle), own = (\<lambda>_. {})\<rparr>"

definition lmach1 :: lmach where
  "lmach1 = set_pc 0 Idle (upd_lock KmemLock (\<lambda>k. k\<lparr>lcpu := Some 0\<rparr>)
     (set_own 0 {KmemLock} (set_pc 0 (AtSetCpu KmemLock) (upd_lock KmemLock (\<lambda>k. k\<lparr>locked := True\<rparr>)
       (set_pc 0 (AtSwap KmemLock) (push_off 0 lmach0))))))"

lemma lreach_lmach1: "lreach lmach0 lmach1"
proof -
  let ?a = "set_pc 0 (AtSwap KmemLock) (push_off 0 lmach0)"
  let ?b = "set_own 0 {KmemLock} (set_pc 0 (AtSetCpu KmemLock)
      (upd_lock KmemLock (\<lambda>k. k\<lparr>locked := True\<rparr>) ?a))"
  have "lreach lmach0 lmach0"
    by (rule lreach_init) (simp add: linit_def lmach0_def)
  moreover have "lstep lmach0 ?a"
    by (rule acq_begin) (simp_all add: lmach0_def cpu_holding_def)
  ultimately have "lreach lmach0 ?a" by (rule lreach_step)
  moreover have "lstep ?a ?b"
    using acq_win [of ?a 0 KmemLock "upd_lock KmemLock (\<lambda>k. k\<lparr>locked := True\<rparr>) ?a"]
    by (simp add: amoswap_def lmach0_def set_pc_def)
  ultimately have "lreach lmach0 ?b" by (rule lreach_step)
  moreover have "lstep ?b lmach1"
    unfolding lmach1_def by (rule acq_set) (simp add: set_pc_def)
  ultimately show ?thesis by (rule lreach_step)
qed

text \<open>
  C2. Mutual exclusion of \<^verbatim>\<open>acquire\<close>/\<^verbatim>\<open>release\<close>: in every state the harts can reach by
  interleaving the memory accesses of the two functions, at most one hart is between a
  successful \<^verbatim>\<open>amoswap\<close> on a lock and the store that clears it.
\<close>

theorem spin_mutual_exclusion:
  assumes "lreach m0 m" and "l \<in> own m c" and "l \<in> own m d"
  shows "c = d"
  using lreach_inv [OF assms(1)] lock_invD(2) [OF _ assms(2,3)] by blast

theorem spin_mutual_exclusion_witness:
  "lreach lmach0 lmach1 \<and> KmemLock \<in> own lmach1 0 \<and> \<not> (\<exists>d. KmemLock \<in> own lmach1 d \<and> 0 \<noteq> d)"
proof -
  have o: "KmemLock \<in> own lmach1 0" by (simp add: lmach1_def)
  then show ?thesis using spin_mutual_exclusion [OF lreach_lmach1 o] lreach_lmach1 by blast
qed

text \<open>
  Holding a lock means what its callers rely on: in every reachable state, a hart that
  is outside the lock functions and inside a critical section passes \<^verbatim>\<open>holding\<close> for exactly
  its own locks, has interrupts off, and its nesting depth \<^verbatim>\<open>noff\<close> is the number of locks
  it holds; and \<^verbatim>\<open>pop_off\<close> never panics at the end of \<^verbatim>\<open>release\<close>.
\<close>

lemma spin_holding_exact:
  assumes "lreach m0 m"
  shows "(pc m c = Idle \<longrightarrow> cpu_holding c l m = (l \<in> own m c) \<and>
           noff (cpus m c) = int (card (own m c)) \<and> (own m c \<noteq> {} \<longrightarrow> \<not> sie (cpus m c))) \<and>
         (pc m c = AtPop \<longrightarrow> pop_off c m \<noteq> Panic e)"
proof (intro conjI impI)
  have L: "lock_inv m" and D: "depth_inv m" using lreach_inv [OF assms] by auto
  show "pop_off c m \<noteq> Panic e" if "pc m c = AtPop"
    using pop_off_depth [OF D that] by auto
  assume i: "pc m c = Idle"
  show "cpu_holding c l m = (l \<in> own m c)"
    using lock_invD(1,3,4) [OF L] mid_Idle(1) [OF i] unfolding cpu_holding_def by (metis option.distinct(1))
  show n: "noff (cpus m c) = int (card (own m c))" using D i by (auto simp: depth_inv_def)
  assume "own m c \<noteq> {}"
  moreover have "finite (own m c)" using D by (auto simp: depth_inv_def)
  ultimately have "0 < noff (cpus m c)" using n by (simp add: card_gt_0_iff)
  then show "\<not> sie (cpus m c)" using D i by (auto simp: depth_inv_def)
qed

lemma spin_holding_exact_witness:
  "pc lmach1 0 = Idle \<and> cpu_holding 0 KmemLock lmach1 \<and> noff (cpus lmach1 0) = 1 \<and>
   \<not> sie (cpus lmach1 0)"
proof -
  have i: "pc lmach1 0 = Idle" by (simp add: lmach1_def set_pc_def)
  have o: "own lmach1 0 = {KmemLock}" by (simp add: lmach1_def)
  show ?thesis using i o spin_holding_exact [OF lreach_lmach1, of 0 KmemLock] by simp
qed

text \<open>
  \<^verbatim>\<open>push_off\<close> and \<^verbatim>\<open>pop_off\<close> are matched at any depth: \<open>n\<close> pushes followed by \<open>n\<close> pops
  never panic, restore the nesting depth, and leave interrupts enabled exactly when they
  were enabled before.
\<close>

lemma push_pop_matched:
  assumes "0 \<le> noff (cpus m c)" and "0 < noff (cpus m c) \<longrightarrow> \<not> sie (cpus m c)"
  shows "\<exists>m'. pops c n (pushes c n m) = Ok () m' \<and> noff (cpus m' c) = noff (cpus m c) \<and>
     sie (cpus m' c) = sie (cpus m c) \<and> (\<forall>d. d \<noteq> c \<longrightarrow> cpus m' d = cpus m d)"
proof (cases "n = 0")
  case True
  then show ?thesis by simp
next
  case False
  note p = cpus_pushes [of n m c]
  have "sie (cpus (pushes c n m) c) = False"
    and "noff (cpus (pushes c n m) c) = int n + noff (cpus m c)"
    using False assms(1) by (auto simp: p)
  from pops_cpus [OF this assms(1)] False obtain m' where
    "pops c n (pushes c n m) = Ok () m'"
    "cpus m' = (cpus (pushes c n m))(c := (cpus (pushes c n m) c)
       \<lparr>noff := noff (cpus m c), sie := (noff (cpus m c) = 0 \<and> intena (cpus (pushes c n m) c))\<rparr>)"
    by auto
  then show ?thesis using False assms by (auto simp: p)
qed

lemma push_pop_matched_witness:
  "\<exists>m'. pops 0 2 (pushes 0 2 lmach0) = Ok () m' \<and> noff (cpus m' 0) = 0 \<and> sie (cpus m' 0)"
proof -
  have "0 \<le> noff (cpus lmach0 0)" "0 < noff (cpus lmach0 0) \<longrightarrow> \<not> sie (cpus lmach0 0)"
    by (simp_all add: lmach0_def)
  from push_pop_matched [OF this, of 2] show ?thesis by (auto simp: lmach0_def)
qed

end
