(* ===== verification/Params.thy ===== *)
theory Params
  imports Xv6_Prelude
begin

text \<open>
  The constants and address arithmetic of the kernel headers: \<^verbatim>\<open>param.h\<close>, \<^verbatim>\<open>memlayout.h\<close>, the
  paging macros of \<^verbatim>\<open>riscv.h\<close>, \<^verbatim>\<open>fs.h\<close>, \<^verbatim>\<open>stat.h\<close>, \<^verbatim>\<open>fcntl.h\<close>, \<^verbatim>\<open>file.h\<close>, \<^verbatim>\<open>elf.h\<close>, \<^verbatim>\<open>vm.h\<close>
  and \<^verbatim>\<open>syscall.h\<close>, with the round-trip facts of the page-table-entry macros.
\<close>

section \<open>param.h\<close>

definition NPROC :: nat where "NPROC = 64"
definition NCPU :: nat where "NCPU = 8"
definition NOFILE :: nat where "NOFILE = 16"
definition NFILE :: nat where "NFILE = 100"
definition NINODE :: nat where "NINODE = 50"
definition NDEV :: int where "NDEV = 10"
definition ROOTDEV :: u32 where "ROOTDEV = 1"
definition MAXARG :: nat where "MAXARG = 32"
definition MAXOPBLOCKS :: nat where "MAXOPBLOCKS = 10"
definition LOGBLOCKS :: nat where "LOGBLOCKS = MAXOPBLOCKS * 3"
definition NBUF :: nat where "NBUF = MAXOPBLOCKS * 3"
definition MAXPATH :: nat where "MAXPATH = 128"
definition USERSTACK :: u64 where "USERSTACK = 1"

lemmas param_defs = NPROC_def NCPU_def NOFILE_def NFILE_def NINODE_def NDEV_def ROOTDEV_def
  MAXARG_def MAXOPBLOCKS_def LOGBLOCKS_def NBUF_def MAXPATH_def USERSTACK_def

section \<open>riscv.h: pages and page-table entries\<close>

definition PGSIZE :: u64 where "PGSIZE = 4096"
definition PGSHIFT :: nat where "PGSHIFT = 12"

definition PGROUNDUP :: "u64 \<Rightarrow> u64" where
  "PGROUNDUP sz = (sz + PGSIZE - 1) AND NOT (PGSIZE - 1)"

definition PGROUNDDOWN :: "u64 \<Rightarrow> u64" where
  "PGROUNDDOWN a = a AND NOT (PGSIZE - 1)"

definition PTE_V :: u64 where "PTE_V = 1"
definition PTE_R :: u64 where "PTE_R = 2"
definition PTE_W :: u64 where "PTE_W = 4"
definition PTE_X :: u64 where "PTE_X = 8"
definition PTE_U :: u64 where "PTE_U = 16"

definition PA2PTE :: "u64 \<Rightarrow> u64" where "PA2PTE pa = push_bit 10 (drop_bit 12 pa)"
definition PTE2PA :: "u64 \<Rightarrow> u64" where "PTE2PA pte = push_bit 12 (drop_bit 10 pte)"
definition PTE_FLAGS :: "u64 \<Rightarrow> u64" where "PTE_FLAGS pte = pte AND 0x3FF"

definition PXMASK :: u64 where "PXMASK = 0x1FF"
definition PXSHIFT :: "nat \<Rightarrow> nat" where "PXSHIFT level = PGSHIFT + 9 * level"
definition PX :: "nat \<Rightarrow> u64 \<Rightarrow> u64" where "PX level va = drop_bit (PXSHIFT level) va AND PXMASK"

definition MAXVA :: u64 where "MAXVA = push_bit (9 + 9 + 9 + 12 - 1) 1"

definition SATP_SV39 :: u64 where "SATP_SV39 = push_bit 60 8"
definition MAKE_SATP :: "u64 \<Rightarrow> u64" where "MAKE_SATP pagetable = SATP_SV39 OR drop_bit 12 pagetable"

definition SSTATUS_SPP :: u64 where "SSTATUS_SPP = push_bit 8 1"
definition SSTATUS_SPIE :: u64 where "SSTATUS_SPIE = push_bit 5 1"
definition SSTATUS_SIE :: u64 where "SSTATUS_SIE = push_bit 1 1"

lemmas page_defs = PGSIZE_def PGSHIFT_def PGROUNDUP_def PGROUNDDOWN_def PXMASK_def PXSHIFT_def
  PX_def
lemmas pte_defs = PTE_V_def PTE_R_def PTE_W_def PTE_X_def PTE_U_def PA2PTE_def PTE2PA_def
  PTE_FLAGS_def

section \<open>memlayout.h\<close>

definition UART0 :: u64 where "UART0 = 0x10000000"
definition UART0_IRQ :: nat where "UART0_IRQ = 10"
definition VIRTIO0 :: u64 where "VIRTIO0 = 0x10001000"
definition VIRTIO0_IRQ :: nat where "VIRTIO0_IRQ = 1"
definition PLIC :: u64 where "PLIC = 0x0c000000"
definition PLIC_SENABLE :: "u64 \<Rightarrow> u64" where "PLIC_SENABLE hart = PLIC + 0x2080 + hart * 0x100"
definition PLIC_SPRIORITY :: "u64 \<Rightarrow> u64" where
  "PLIC_SPRIORITY hart = PLIC + 0x201000 + hart * 0x2000"
definition PLIC_SCLAIM :: "u64 \<Rightarrow> u64" where
  "PLIC_SCLAIM hart = PLIC + 0x201004 + hart * 0x2000"
definition KERNBASE :: u64 where "KERNBASE = 0x80000000"
definition PHYSTOP :: u64 where "PHYSTOP = KERNBASE + 128 * 1024 * 1024"
definition TRAMPOLINE :: u64 where "TRAMPOLINE = MAXVA - PGSIZE"
definition KSTACK :: "nat \<Rightarrow> u64" where
  "KSTACK p = TRAMPOLINE - (of_nat p + 1) * 2 * PGSIZE"
definition TRAPFRAME :: u64 where "TRAPFRAME = TRAMPOLINE - PGSIZE"

lemmas layout_defs = MAXVA_def PGSIZE_def TRAMPOLINE_def TRAPFRAME_def KERNBASE_def PHYSTOP_def
  UART0_def VIRTIO0_def PLIC_def

section \<open>fs.h, stat.h, fcntl.h, file.h\<close>

definition ROOTINO :: u32 where "ROOTINO = 1"
definition BSIZE :: nat where "BSIZE = 1024"
definition FSMAGIC :: u32 where "FSMAGIC = 0x10203040"
definition NDIRECT :: nat where "NDIRECT = 12"
definition NINDIRECT :: nat where "NINDIRECT = BSIZE div 4"
definition MAXFILE :: nat where "MAXFILE = NDIRECT + NINDIRECT"
definition DINODE_SIZE :: nat where "DINODE_SIZE = 4 * 2 + 4 + 4 * (NDIRECT + 1)"
definition IPB :: nat where "IPB = BSIZE div DINODE_SIZE"
definition BPB :: nat where "BPB = BSIZE * 8"
definition DIRSIZ :: nat where "DIRSIZ = 14"
definition DIRENT_SIZE :: nat where "DIRENT_SIZE = 2 + DIRSIZ"

definition T_DIR :: u16 where "T_DIR = 1"
definition T_FILE :: u16 where "T_FILE = 2"
definition T_DEVICE :: u16 where "T_DEVICE = 3"

definition O_RDONLY :: u32 where "O_RDONLY = 0x000"
definition O_WRONLY :: u32 where "O_WRONLY = 0x001"
definition O_RDWR :: u32 where "O_RDWR = 0x002"
definition O_CREATE :: u32 where "O_CREATE = 0x200"
definition O_TRUNC :: u32 where "O_TRUNC = 0x400"

definition CONSOLE :: int where "CONSOLE = 1"

lemmas fs_param_defs = ROOTINO_def BSIZE_def FSMAGIC_def NDIRECT_def NINDIRECT_def MAXFILE_def
  DINODE_SIZE_def IPB_def BPB_def DIRSIZ_def DIRENT_SIZE_def
lemmas stat_defs = T_DIR_def T_FILE_def T_DEVICE_def
lemmas fcntl_defs = O_RDONLY_def O_WRONLY_def O_RDWR_def O_CREATE_def O_TRUNC_def

section \<open>elf.h, vm.h\<close>

definition ELF_MAGIC :: u32 where "ELF_MAGIC = 0x464C457F"
definition ELF_PROG_LOAD :: u32 where "ELF_PROG_LOAD = 1"
definition SBRK_EAGER :: int where "SBRK_EAGER = 1"
definition SBRK_LAZY :: int where "SBRK_LAZY = 2"

section \<open>Facts about the address macros\<close>

lemma word_take_bit_self: "unat (w :: 'a::len word) < 2 ^ n \<Longrightarrow> take_bit n w = w"
  by (simp add: unsigned_take_bit_eq word_unat_eq_iff take_bit_nat_eq_self)

lemma low_ten: "(0x3FF :: u64) = mask 10" and low_twelve: "(0xFFF :: u64) = mask 12"
  by (simp_all add: mask_eq_exp_minus_1)

lemma PGROUNDDOWN_aligned: "PGROUNDDOWN a AND (PGSIZE - 1) = 0"
  by (simp add: PGROUNDDOWN_def PGSIZE_def word_bw_assocs)

lemma PTE_flags_disjoint: "PA2PTE pa AND 0x3FF = 0"
  unfolding PA2PTE_def low_ten
  by (rule bit_word_eqI) (auto simp: bit_simps)

text \<open>
  A page-aligned physical address below \<open>2 ^ 56\<close> survives being packed into a page-table
  entry next to any permission bits, and so do the bits.
\<close>

lemma PTE2PA_PA2PTE:
  assumes "pa AND 0xFFF = 0" and "unat pa < 2 ^ 56" and "unat flags < 2 ^ 10"
  shows "PTE2PA (PA2PTE pa OR flags) = pa" and "PTE_FLAGS (PA2PTE pa OR flags) = flags"
proof -
  have f: "take_bit 10 flags = flags" and p: "take_bit 56 pa = pa"
    using assms(2,3) by (simp_all add: word_take_bit_self)
  have lo: "\<not> bit pa n" if "n < 12" for n
  proof -
    have "bit (pa AND mask 12) n = bit pa n"
      using that by (auto simp: bit_simps)
    then show ?thesis using assms(1) by (simp add: low_twelve)
  qed
  have hif: "\<not> bit flags n" if "10 \<le> n" for n
    using that f by (metis bit_take_bit_iff not_less)
  have hip: "\<not> bit pa n" if "56 \<le> n" for n
    using that p by (metis bit_take_bit_iff not_less)
  show "PTE2PA (PA2PTE pa OR flags) = pa"
  proof (rule bit_word_eqI)
    fix n assume n: "n < LENGTH(64)"
    show "bit (PTE2PA (PA2PTE pa OR flags)) n = bit pa n"
    proof (cases "12 \<le> n \<and> n < 56")
      case True
      define k where "k = n - 12"
      with True have k: "n = 12 + k" "k < 44" by auto
      have "\<not> bit flags (10 + k)" by (rule hif) simp
      with k show ?thesis by (simp add: PTE2PA_def PA2PTE_def bit_simps)
    next
      case False
      with n lo hip hif show ?thesis
        by (auto simp: PTE2PA_def PA2PTE_def bit_simps not_less)
    qed
  qed
  have hif': "n < 10" if "bit flags n" for n using hif that by (meson not_less)
  show "PTE_FLAGS (PA2PTE pa OR flags) = flags"
    unfolding PTE_FLAGS_def low_ten PA2PTE_def
    by (rule bit_word_eqI) (auto simp: bit_simps dest: hif')
qed

end
