(* ===== verification/Kalloc.thy ===== *)
theory Kalloc
  imports Params
begin

text \<open>
  \<^verbatim>\<open>kernel/kalloc.c\<close>: the physical page allocator, over physical memory as an array of
  little-endian 64-bit words. The free list, which the C code threads through the free
  pages themselves, is the list of their addresses, newest first.
\<close>

section \<open>Memory and the free list\<close>

text \<open>
  \<open>mem a\<close> is the word at the 8-aligned physical address \<open>a\<close>; \<open>kend\<close> is the linker symbol
  \<^verbatim>\<open>end\<close>, the first address after the kernel.
\<close>

record kmem = kcore +
  mem :: "u64 \<Rightarrow> u64"
  freelist :: "u64 list"
  kend :: u64

definition load64 :: "u64 \<Rightarrow> 'x kmem_scheme \<Rightarrow> u64" where
  "load64 a s = mem s a"

definition store64 :: "u64 \<Rightarrow> u64 \<Rightarrow> 'x kmem_scheme \<Rightarrow> 'x kmem_scheme" where
  "store64 a w s = s\<lparr>mem := (mem s)(a := w)\<rparr>"

text \<open>Bytes of memory: byte \<open>a AND 7\<close> of the word at \<open>a AND NOT 7\<close>, least significant first.\<close>

definition load8 :: "u64 \<Rightarrow> 'x kmem_scheme \<Rightarrow> u8" where
  "load8 a s = ucast (drop_bit (8 * unat (a AND 7)) (mem s (a AND NOT 7)))"

definition store8 :: "u64 \<Rightarrow> u8 \<Rightarrow> 'x kmem_scheme \<Rightarrow> 'x kmem_scheme" where
  "store8 a b s =
     (let w = a AND NOT 7; k = 8 * unat (a AND 7)
      in s\<lparr>mem := (mem s)(w := (mem s w AND NOT (push_bit k 0xFF)) OR push_bit k (ucast b))\<rparr>)"

fun load_bytes :: "u64 \<Rightarrow> nat \<Rightarrow> 'x kmem_scheme \<Rightarrow> u8 list" where
  "load_bytes a 0 s = []"
| "load_bytes a (Suc n) s = load8 a s # load_bytes (a + 1) n s"

fun store_bytes :: "u64 \<Rightarrow> u8 list \<Rightarrow> 'x kmem_scheme \<Rightarrow> 'x kmem_scheme" where
  "store_bytes a [] s = s"
| "store_bytes a (b # bs) s = store_bytes (a + 1) bs (store8 a b s)"

text \<open>\<^verbatim>\<open>memset(pa, c, PGSIZE)\<close> on a page: every word becomes eight copies of \<open>c\<close>.\<close>

definition memset_page :: "u64 \<Rightarrow> u8 \<Rightarrow> 'x kmem_scheme \<Rightarrow> 'x kmem_scheme" where
  "memset_page pa c s =
     s\<lparr>mem := \<lambda>a. if a AND NOT (PGSIZE - 1) = pa then ucast c * 0x0101010101010101 else mem s a\<rparr>"

section \<open>The operations of kalloc.c\<close>

definition kfree :: "u64 \<Rightarrow> 'x kmem_scheme \<Rightarrow> (unit, 'x kmem_scheme) res" where
  "kfree pa s =
     (if pa mod PGSIZE \<noteq> 0 \<or> pa < kend s \<or> PHYSTOP \<le> pa then Panic ''kfree''
      else let s = memset_page pa 1 s
           in bnd (acquire KmemLock s) (\<lambda>_ s.
              let s = s\<lparr>freelist := pa # freelist s\<rparr>
              in release KmemLock s))"

text \<open>\<^verbatim>\<open>kalloc\<close> returns the page's address, 0 (the null pointer) when there is none.\<close>

definition kalloc :: "'x kmem_scheme \<Rightarrow> (u64, 'x kmem_scheme) res" where
  "kalloc s =
     bnd (acquire KmemLock s) (\<lambda>_ s.
     let r = (case freelist s of [] \<Rightarrow> 0 | pa # _ \<Rightarrow> pa);
         s = (if r \<noteq> 0 then s\<lparr>freelist := tl (freelist s)\<rparr> else s)
     in bnd (release KmemLock s) (\<lambda>_ s.
        Ok r (if r \<noteq> 0 then memset_page r 5 s else s)))"

lemma kfree_Ok_PHYSTOP: "kfree pa s = Ok u t \<Longrightarrow> pa < PHYSTOP \<and> pa mod PGSIZE = 0 \<and> \<not> pa < kend s"
  by (auto simp: kfree_def not_le split: if_splits)

text \<open>
  \<^verbatim>\<open>freerange\<close> frees page after page; \<^verbatim>\<open>kfree\<close> panics past \<^verbatim>\<open>PHYSTOP\<close>, so the loop stops.
\<close>

lemma page_step_less:
  assumes "pa < PHYSTOP"
  shows "unat (PHYSTOP - pa) < unat (PHYSTOP + PGSIZE - pa)"
proof -
  have "unat pa < unat PHYSTOP" using assms by (simp add: word_less_nat_alt)
  then show ?thesis by (simp add: layout_defs unat_sub_if' unat_word_ariths)
qed

function freerange_from :: "u64 \<Rightarrow> u64 \<Rightarrow> 'x kmem_scheme \<Rightarrow> (unit, 'x kmem_scheme) res" where
  "freerange_from p pa_end s =
     (if p + PGSIZE \<le> pa_end
      then bnd (kfree p s) (\<lambda>_ s. freerange_from (p + PGSIZE) pa_end s)
      else Ok () s)"
  by pat_completeness auto
termination
  by (relation "measure (\<lambda>(p, e, s). unat (PHYSTOP + PGSIZE - p))")
     (auto dest!: kfree_Ok_PHYSTOP intro: page_step_less)

declare freerange_from.simps [simp del]

definition freerange :: "u64 \<Rightarrow> u64 \<Rightarrow> 'x kmem_scheme \<Rightarrow> (unit, 'x kmem_scheme) res" where
  "freerange pa_start pa_end s = freerange_from (PGROUNDUP pa_start) pa_end s"

definition kinit :: "'x kmem_scheme \<Rightarrow> (unit, 'x kmem_scheme) res" where
  "kinit s = freerange (kend s) PHYSTOP s"

section \<open>Bytes and words\<close>

lemma low_eight: "(0xFF :: u64) = mask 8"
  by (simp add: mask_eq_exp_minus_1)

lemma load8_store8_same: "load8 a (store8 a b s) = b"
proof -
  define k where "k = unat (a AND 7)"
  have "k \<le> 7"
    unfolding k_def using word_and_le1 [of a 7] by (simp add: word_le_nat_alt)
  then have "8 * k + 8 \<le> 64" by simp
  then show ?thesis
    unfolding load8_def store8_def Let_def k_def [symmetric] low_eight
    by (intro bit_word_eqI) (auto simp: bit_simps word_bw_assocs)
qed

lemma mem_store8_other: "w \<noteq> a AND NOT 7 \<Longrightarrow> mem (store8 a b s) w = mem s w"
  by (simp add: store8_def Let_def)

section \<open>The allocator's invariant\<close>

text \<open>
  Every free page is a page-aligned address in the range the allocator manages, and none is
  in the list twice.
\<close>

definition page_ok :: "'x kmem_scheme \<Rightarrow> u64 \<Rightarrow> bool" where
  "page_ok s pa \<longleftrightarrow> pa mod PGSIZE = 0 \<and> kend s \<le> pa \<and> pa < PHYSTOP"

definition kmem_wf :: "'x kmem_scheme \<Rightarrow> bool" where
  "kmem_wf s \<longleftrightarrow> distinct (freelist s) \<and> (\<forall>pa \<in> set (freelist s). page_ok s pa) \<and> 0 < kend s"

lemma memset_page_fields [simp]:
  "held (memset_page pa c s) = held s" "freelist (memset_page pa c s) = freelist s"
  "kend (memset_page pa c s) = kend s" "kmem.more (memset_page pa c s) = kmem.more s"
  by (simp_all add: memset_page_def)

lemma kfree_eq:
  assumes "KmemLock \<notin> set (held s)"
  shows "kfree pa s =
     (if page_ok s pa then Ok () ((memset_page pa 1 s)\<lparr>freelist := pa # freelist s\<rparr>)
      else Panic ''kfree'')"
  using assms by (simp add: kfree_def page_ok_def Let_def not_less not_le memset_page_def)

lemma kalloc_eq:
  assumes "KmemLock \<notin> set (held s)" and "kmem_wf s"
  shows "kalloc s =
     (case freelist s of [] \<Rightarrow> Ok 0 s
      | pa # ps \<Rightarrow> Ok pa (memset_page pa 5 (s\<lparr>freelist := ps\<rparr>)))"
proof -
  have "pa \<noteq> 0" if "pa \<in> set (freelist s)" for pa
    using that assms(2) by (auto simp: kmem_wf_def page_ok_def)
  then show ?thesis
    using assms(1) by (auto simp: kalloc_def Let_def split: list.split)
qed

lemma kmem_wf_page_pos: "kmem_wf s \<Longrightarrow> pa \<in> set (freelist s) \<Longrightarrow> pa \<noteq> 0"
  by (auto simp: kmem_wf_def page_ok_def)

lemma kalloc_wf:
  assumes "KmemLock \<notin> set (held s)" and "kmem_wf s" and "kalloc s = Ok pa t"
  shows "kmem_wf t" "held t = held s" "kend t = kend s"
    and "pa = 0 \<longleftrightarrow> freelist s = []" "pa \<noteq> 0 \<Longrightarrow> freelist s = pa # freelist t \<and> page_ok s pa"
  using assms kmem_wf_page_pos [OF assms(2)]
  by (auto simp: kalloc_eq kmem_wf_def page_ok_def split: list.splits)

lemma kfree_wf:
  assumes "KmemLock \<notin> set (held s)" and "kmem_wf s" and "page_ok s pa" and "pa \<notin> set (freelist s)"
  shows "\<exists>t. kfree pa s = Ok () t \<and> kmem_wf t \<and> freelist t = pa # freelist s \<and> held t = held s"
  using assms by (auto simp: kfree_eq kmem_wf_def page_ok_def)

section \<open>The page-allocator interface\<close>

text \<open>
  What the clients of the allocator rely on: a stack of free pages, a null result exactly
  when it is empty, and an invariant both operations keep.
\<close>

locale page_allocator =
  fixes alloc :: "'s \<Rightarrow> (u64, 's) res"
    and free :: "u64 \<Rightarrow> 's \<Rightarrow> (unit, 's) res"
    and pages :: "'s \<Rightarrow> u64 list"
    and wf :: "'s \<Rightarrow> bool"
    and ok :: "'s \<Rightarrow> u64 \<Rightarrow> bool"
  assumes alloc_empty: "wf s \<Longrightarrow> pages s = [] \<Longrightarrow> alloc s = Ok 0 s"
    and alloc_some: "wf s \<Longrightarrow> pages s = pa # ps \<Longrightarrow>
      pa \<noteq> 0 \<and> (\<exists>t. alloc s = Ok pa t \<and> wf t \<and> pages t = ps \<and> ok t = ok s)"
    and free_spec: "wf s \<Longrightarrow> ok s pa \<Longrightarrow> pa \<notin> set (pages s) \<Longrightarrow>
      \<exists>t. free pa s = Ok () t \<and> wf t \<and> pages t = pa # pages s \<and> ok t = ok s"
    and wf_distinct: "wf s \<Longrightarrow> distinct (pages s) \<and> (\<forall>pa \<in> set (pages s). ok s pa)"
begin

fun alloc_many :: "nat \<Rightarrow> 's \<Rightarrow> (u64 list, 's) res" where
  "alloc_many 0 s = Ok [] s"
| "alloc_many (Suc n) s =
     bnd (alloc s) (\<lambda>pa s. if pa = 0 then Ok [] s else bnd (alloc_many n s) (\<lambda>ps s. Ok (pa # ps) s))"

fun free_many :: "u64 list \<Rightarrow> 's \<Rightarrow> (unit, 's) res" where
  "free_many [] s = Ok () s"
| "free_many (pa # ps) s = bnd (free pa s) (\<lambda>_ s. free_many ps s)"

lemma alloc_many_spec:
  "wf s \<Longrightarrow> \<exists>t. alloc_many n s = Ok (take n (pages s)) t \<and> wf t \<and> pages t = drop n (pages s) \<and> ok t = ok s"
proof (induction n arbitrary: s)
  case 0
  then show ?case by simp
next
  case (Suc n)
  show ?case
  proof (cases "pages s")
    case Nil
    with Suc.prems show ?thesis by (simp add: alloc_empty)
  next
    case (Cons pa ps)
    from alloc_some [OF Suc.prems Cons] obtain u
      where u: "alloc s = Ok pa u" "pa \<noteq> 0" "wf u" "pages u = ps" "ok u = ok s" by blast
    from Suc.IH [OF u(3)] obtain t where
      "alloc_many n u = Ok (take n ps) t" "wf t" "pages t = drop n ps" "ok t = ok s"
      using u by auto
    with u Cons show ?thesis by auto
  qed
qed

lemma free_many_spec:
  "wf s \<Longrightarrow> (\<And>pa. pa \<in> set ps \<Longrightarrow> ok s pa) \<Longrightarrow> distinct ps \<Longrightarrow> set ps \<inter> set (pages s) = {} \<Longrightarrow>
   \<exists>t. free_many ps s = Ok () t \<and> wf t \<and> pages t = rev ps @ pages s \<and> ok t = ok s"
proof (induction ps arbitrary: s)
  case Nil
  then show ?case by simp
next
  case (Cons pa ps)
  then obtain u where u: "free pa s = Ok () u" "wf u" "pages u = pa # pages s" "ok u = ok s"
    using free_spec [of s pa] by auto
  from Cons.IH [OF u(2)] obtain t where
    "free_many ps u = Ok () t" "wf t" "pages t = rev ps @ pages u" "ok t = ok u"
    using Cons.prems u by auto
  with u show ?case by auto
qed

text \<open>No page is handed out twice, and giving everything back restores the pool.\<close>

lemma alloc_free_many:
  assumes "wf s"
  shows "\<exists>ps t u. alloc_many n s = Ok ps t \<and> distinct ps \<and> set ps \<inter> set (pages t) = {} \<and>
     free_many ps t = Ok () u \<and> set (pages u) = set (pages s) \<and> wf u"
proof -
  obtain t where t: "alloc_many n s = Ok (take n (pages s)) t" "wf t"
    "pages t = drop n (pages s)" "ok t = ok s" using alloc_many_spec [OF assms] by blast
  have d: "distinct (pages s)" "\<forall>pa \<in> set (pages s). ok s pa" using wf_distinct [OF assms] by auto
  have dis: "set (take n (pages s)) \<inter> set (pages t) = {}"
    using d(1) t(3) by (simp add: set_take_disj_set_drop_if_distinct)
  have "\<exists>u. free_many (take n (pages s)) t = Ok () u \<and> wf u \<and>
      pages u = rev (take n (pages s)) @ pages t \<and> ok u = ok t"
    by (rule free_many_spec) (use t d dis in \<open>auto dest: in_set_takeD\<close>)
  then obtain u where u: "free_many (take n (pages s)) t = Ok () u" "wf u"
    "pages u = rev (take n (pages s)) @ pages t" by blast
  have "set (pages u) = set (pages s)"
    using u(3) t(3) by (metis append_take_drop_id set_append set_rev)
  with t u d dis show ?thesis by (metis distinct_take)
qed

end

text \<open>The allocator of \<^verbatim>\<open>kalloc.c\<close> implements the interface wherever its lock is free.\<close>

definition kmem_ready :: "'x kmem_scheme \<Rightarrow> bool" where
  "kmem_ready s \<longleftrightarrow> kmem_wf s \<and> KmemLock \<notin> set (held s)"

interpretation ka: page_allocator kalloc kfree freelist kmem_ready page_ok
proof
  fix s :: "'x kmem_scheme" and pa ps
  assume r: "kmem_ready s"
  then have w: "KmemLock \<notin> set (held s)" "kmem_wf s" by (simp_all add: kmem_ready_def)
  show "kalloc s = Ok 0 s" if "freelist s = []" using that w by (simp add: kalloc_eq)
  show "pa \<noteq> 0 \<and> (\<exists>t. kalloc s = Ok pa t \<and> kmem_ready t \<and> freelist t = ps \<and> page_ok t = page_ok s)"
    if "freelist s = pa # ps"
    using that w by (auto simp: kalloc_eq kmem_ready_def kmem_wf_def page_ok_def fun_eq_iff)
  show "\<exists>t. kfree pa s = Ok () t \<and> kmem_ready t \<and> freelist t = pa # freelist s \<and> page_ok t = page_ok s"
    if "page_ok s pa" "pa \<notin> set (freelist s)"
    using that w by (auto simp: kfree_eq kmem_ready_def kmem_wf_def page_ok_def fun_eq_iff)
  show "distinct (freelist s) \<and> (\<forall>pa\<in>set (freelist s). page_ok s pa)"
    using w by (simp add: kmem_wf_def)
qed

section \<open>Properties\<close>

text \<open>A small allocator state for the witnesses: two free pages at the end of RAM.\<close>

definition kmem0 :: kmem where
  "kmem0 = \<lparr>held = [], hartid = 0, curproc = None, outp = [], mem = (\<lambda>_. 0),
     freelist = [0x87FFF000, 0x87FFE000], kend = 0x80020000\<rparr>"

lemma kmem0_ready: "kmem_ready kmem0"
  by (simp add: kmem_ready_def kmem_wf_def page_ok_def kmem0_def layout_defs)

text \<open>
  C16. The allocator never hands out a page twice: from a well-formed free list, any number
  of \<^verbatim>\<open>kalloc\<close> calls returns pairwise distinct pages that are no longer free, and freeing
  them all with \<^verbatim>\<open>kfree\<close> never panics and restores exactly the original set of free pages.
\<close>

theorem kalloc_kfree_many:
  assumes "kmem_wf s" and "KmemLock \<notin> set (held s)"
  shows "\<exists>ps t u. ka.alloc_many n s = Ok ps t \<and> distinct ps \<and> set ps \<inter> set (freelist t) = {} \<and>
     ka.free_many ps t = Ok () u \<and> set (freelist u) = set (freelist s) \<and> kmem_wf u"
  using ka.alloc_free_many [of s n] assms by (auto simp: kmem_ready_def)

theorem kalloc_kfree_many_witness:
  "\<exists>ps t u. ka.alloc_many 2 kmem0 = Ok ps t \<and> distinct ps \<and> set ps \<inter> set (freelist t) = {} \<and>
     ka.free_many ps t = Ok () u \<and> set (freelist u) = {0x87FFF000, 0x87FFE000} \<and> kmem_wf u"
proof -
  have r: "kmem_wf kmem0" "KmemLock \<notin> set (held kmem0)"
    using kmem0_ready by (simp_all add: kmem_ready_def)
  have "set (freelist kmem0) = {0x87FFF000, 0x87FFE000}" by (simp add: kmem0_def)
  then show ?thesis using kalloc_kfree_many [OF r, of 2] by simp
qed

text \<open>
  What each operation does: \<^verbatim>\<open>kalloc\<close> returns 0 and changes nothing when no page is free,
  and otherwise pops the newest free page and fills it with 5s; \<^verbatim>\<open>kfree\<close> panics on an
  address that is unaligned or outside the managed range, and otherwise fills the page with
  1s and pushes it; neither touches any other word of memory.
\<close>

lemma kalloc_kfree_effect:
  assumes "kmem_wf s" and "KmemLock \<notin> set (held s)"
  shows "(freelist s = [] \<longrightarrow> kalloc s = Ok 0 s) \<and>
     (\<forall>pa ps. freelist s = pa # ps \<longrightarrow> (\<exists>t. kalloc s = Ok pa t \<and> freelist t = ps \<and>
        (\<forall>a. mem t a = (if PGROUNDDOWN a = pa then 0x0505050505050505 else mem s a)))) \<and>
     (\<not> page_ok s p \<longrightarrow> kfree p s = Panic ''kfree'') \<and>
     (page_ok s p \<longrightarrow> (\<exists>t. kfree p s = Ok () t \<and> freelist t = p # freelist s \<and>
        (\<forall>a. mem t a = (if PGROUNDDOWN a = p then 0x0101010101010101 else mem s a))))"
  using assms by (auto simp: kalloc_eq kfree_eq memset_page_def PGROUNDDOWN_def)

lemma kalloc_kfree_effect_witness:
  "(\<exists>t. kalloc kmem0 = Ok 0x87FFF000 t \<and> freelist t = [0x87FFE000] \<and> mem t 0x87FFF008 = 0x0505050505050505) \<and>
   kfree 0x87FFF004 kmem0 = Panic ''kfree''"
proof -
  have r: "kmem_wf kmem0" "KmemLock \<notin> set (held kmem0)"
    using kmem0_ready by (simp_all add: kmem_ready_def)
  have "freelist kmem0 = [0x87FFF000, 0x87FFE000]" "\<not> page_ok kmem0 0x87FFF004"
    "PGROUNDDOWN 0x87FFF008 = 0x87FFF000"
    by (simp_all add: kmem0_def page_ok_def layout_defs PGROUNDDOWN_def)
  then show ?thesis using kalloc_kfree_effect [OF r, of "0x87FFF004"] by force
qed

section \<open>Initialisation\<close>

lemma unat_PGROUNDDOWN: "unat (PGROUNDDOWN a) = unat a - unat a mod 4096"
proof -
  have m: "PGSIZE - 1 = (mask 12 :: u64)" by (simp add: PGSIZE_def mask_eq_exp_minus_1)
  have "a - take_bit 12 a = a AND NOT (take_bit 12 a)"
    by (rule disjunctive_diff_eq_and_not) (simp add: take_bit_eq_mask and.assoc [symmetric] word_bw_assocs word_bw_comms)
  also have "\<dots> = PGROUNDDOWN a"
    unfolding PGROUNDDOWN_def m by (rule bit_word_eqI) (auto simp: bit_simps)
  finally have "PGROUNDDOWN a = a - take_bit 12 a" ..
  moreover have "take_bit 12 a \<le> a"
    by (simp add: word_le_nat_alt unsigned_take_bit_eq take_bit_nat_less_eq_self)
  ultimately show ?thesis
    by (simp add: unat_sub) (simp add: take_bit_eq_mod unat_mod)
qed

lemma aligned_less_step:
  assumes "a mod 4096 = 0" and "b mod 4096 = 0" and "a < b"
  shows "a + 4096 \<le> (b :: nat)"
proof -
  obtain k j where "a = 4096 * k" "b = 4096 * j" using assms(1,2) by (auto elim!: dvdE)
  with assms(3) show ?thesis by simp
qed

lemma roundup_le:
  assumes "x \<le> y" and "y mod 4096 = 0"
  shows "x + 4095 - (x + 4095) mod 4096 \<le> (y :: nat)"
proof -
  obtain j where y: "y = 4096 * j" using assms(2) by (auto elim!: dvdE)
  have "(x + 4095) div 4096 \<le> (4096 * j + 4095) div 4096"
    using assms(1) y by (intro div_le_mono) simp
  then have "(x + 4095) div 4096 \<le> j" by simp
  then show ?thesis unfolding minus_mod_eq_mult_div y by simp
qed

lemma roundup_ge: "x \<le> x + 4095 - (x + 4095) mod (4096 :: nat)"
proof -
  have "(x + 4095) mod 4096 \<le> 4095" by (simp add: less_Suc_eq_le [symmetric])
  then show ?thesis by simp
qed

lemma mod_PGSIZE_iff: "(pa :: u64) mod PGSIZE = 0 \<longleftrightarrow> unat pa mod 4096 = 0"
  by (simp add: PGSIZE_def word_unat_eq_iff unat_mod)

lemma freerange_from_spec:
  assumes "kmem_wf s" "KmemLock \<notin> set (held s)" "p mod PGSIZE = 0" "kend s \<le> p" "p \<le> PHYSTOP"
    and "\<And>pa. pa \<in> set (freelist s) \<Longrightarrow> pa < p"
  shows "\<exists>t. freerange_from p PHYSTOP s = Ok () t \<and> kmem_wf t \<and> kend t = kend s \<and>
     set (freelist t) = set (freelist s) \<union> {pa. pa mod PGSIZE = 0 \<and> p \<le> pa \<and> pa < PHYSTOP}"
  using assms
proof (induction p "PHYSTOP" s rule: freerange_from.induct)
  case (1 p s)
  have ps: "unat PHYSTOP = 0x88000000" by (simp add: layout_defs)
  have pm: "unat p mod 4096 = 0" using "1.prems"(3) by (simp only: mod_PGSIZE_iff)
  have ple: "unat p \<le> 0x88000000" using "1.prems"(5) ps by (simp add: word_le_nat_alt)
  have step: "unat (p + PGSIZE) = unat p + 4096"
    using ple by (simp add: PGSIZE_def unat_word_ariths)
  show ?case
  proof (cases "p < PHYSTOP")
    case False
    then have "p = PHYSTOP" using "1.prems"(5) by simp
    moreover have "\<not> PHYSTOP + PGSIZE \<le> PHYSTOP" by (simp add: layout_defs)
    ultimately show ?thesis
      using "1.prems"(1) by (subst freerange_from.simps) auto
  next
    case True
    have up: "p + PGSIZE \<le> PHYSTOP"
    proof -
      have "unat p < 0x88000000" using True ps by (simp add: word_less_nat_alt)
      then have "unat p + 4096 \<le> 0x88000000" by (intro aligned_less_step pm) simp_all
      then show ?thesis using step ps by (simp add: word_le_nat_alt)
    qed
    have pok: "page_ok s p" using "1.prems" True by (simp add: page_ok_def)
    have "p \<notin> set (freelist s)" using "1.prems"(6) by auto
    then obtain t where t: "kfree p s = Ok () t" "kmem_wf t" "freelist t = p # freelist s"
      "held t = held s" "kend t = kend s"
      using kfree_wf [OF "1.prems"(2,1) pok] kfree_eq [OF "1.prems"(2), of p] pok by auto
    have pl: "p < p + PGSIZE" using step by (simp add: word_less_nat_alt)
    have "\<exists>u. freerange_from (p + PGSIZE) PHYSTOP t = Ok () u \<and> kmem_wf u \<and> kend u = kend t \<and>
      set (freelist u) = set (freelist t) \<union> {pa. pa mod PGSIZE = 0 \<and> p + PGSIZE \<le> pa \<and> pa < PHYSTOP}"
    proof (rule "1.hyps" [OF up t(1) t(2)])
      show "KmemLock \<notin> set (held t)" using t(4) "1.prems"(2) by simp
      show "(p + PGSIZE) mod PGSIZE = 0"
        unfolding mod_PGSIZE_iff step using pm by simp
      show "kend t \<le> p + PGSIZE" using t(5) "1.prems"(4) pl by simp
      show "p + PGSIZE \<le> PHYSTOP" by (rule up)
      show "\<And>pa. pa \<in> set (freelist t) \<Longrightarrow> pa < p + PGSIZE"
        using t(3) "1.prems"(6) pl by (auto intro: less_trans)
    qed
    moreover have "{pa. pa mod PGSIZE = 0 \<and> p \<le> pa \<and> pa < PHYSTOP} =
        insert p {pa. pa mod PGSIZE = 0 \<and> p + PGSIZE \<le> pa \<and> pa < PHYSTOP}"
    proof -
      have "p + PGSIZE \<le> pa" if "pa mod PGSIZE = 0" "p \<le> pa" "pa \<noteq> p" for pa :: u64
      proof -
        have "unat pa mod 4096 = 0" using that(1) by (simp only: mod_PGSIZE_iff)
        moreover have "unat p < unat pa" using that(2,3) by (simp add: word_less_nat_alt [symmetric])
        ultimately have "unat p + 4096 \<le> unat pa" by (intro aligned_less_step pm)
        then show ?thesis using step by (simp add: word_le_nat_alt)
      qed
      then show ?thesis using pl True "1.prems"(3) by (auto intro: less_imp_le less_le_trans del: mod_0_imp_dvd)
    qed
    ultimately show ?thesis
      using up t by (subst freerange_from.simps) auto
  qed
qed

text \<open>
  \<^verbatim>\<open>kinit\<close> never panics and puts into the free list exactly the page-aligned addresses
  between the end of the kernel and \<^verbatim>\<open>PHYSTOP\<close>, each once.
\<close>

lemma kinit_frees_all_pages:
  assumes "freelist s = []" and "KmemLock \<notin> set (held s)" and "0 < kend s" and "kend s \<le> PHYSTOP"
  shows "\<exists>t. kinit s = Ok () t \<and> kmem_wf t \<and> kend t = kend s \<and>
     set (freelist t) = {pa. page_ok s pa}"
proof -
  let ?p = "PGROUNDUP (kend s)"
  have ps: "unat PHYSTOP = 0x88000000" by (simp add: layout_defs)
  have ke: "unat (kend s) \<le> 0x88000000" using assms(4) ps by (simp add: word_le_nat_alt)
  have p: "?p = PGROUNDDOWN (kend s + 4095)"
    by (simp add: PGROUNDUP_def PGROUNDDOWN_def PGSIZE_def add.commute)
  have up: "unat ?p = unat (kend s) + 4095 - (unat (kend s) + 4095) mod 4096"
    using ke by (simp add: p unat_PGROUNDDOWN unat_word_ariths)
  have pm: "?p mod PGSIZE = 0"
    unfolding mod_PGSIZE_iff up by (simp add: minus_mod_eq_mult_div)
  have lo: "kend s \<le> ?p" unfolding word_le_nat_alt up by (rule roundup_ge)
  have hi: "?p \<le> PHYSTOP"
    unfolding word_le_nat_alt up ps by (rule roundup_le [OF ke]) simp
  have "\<exists>t. freerange_from ?p PHYSTOP s = Ok () t \<and> kmem_wf t \<and> kend t = kend s \<and>
     set (freelist t) = set (freelist s) \<union> {pa. pa mod PGSIZE = 0 \<and> ?p \<le> pa \<and> pa < PHYSTOP}"
    by (rule freerange_from_spec [OF _ assms(2) pm lo hi]) (use assms in \<open>auto simp: kmem_wf_def\<close>)
  moreover have iff: "?p \<le> pa \<longleftrightarrow> kend s \<le> pa" if "pa mod PGSIZE = 0" for pa :: u64
  proof
    assume "kend s \<le> pa"
    then have "unat (kend s) \<le> unat pa" by (simp add: word_le_nat_alt)
    moreover have "unat pa mod 4096 = 0" using that by (simp only: mod_PGSIZE_iff)
    ultimately have "unat ?p \<le> unat pa" unfolding up by (intro roundup_le)
    then show "?p \<le> pa" by (simp add: word_le_nat_alt)
  qed (use lo in auto)
  moreover have "{pa. pa mod PGSIZE = 0 \<and> ?p \<le> pa \<and> pa < PHYSTOP} = {pa. page_ok s pa}"
    unfolding page_ok_def using iff by (auto del: mod_0_imp_dvd)
  ultimately show ?thesis
    using assms(1) by (auto simp: kinit_def freerange_def)
qed

lemma kinit_frees_all_pages_witness:
  "\<exists>t. kinit (kmem0\<lparr>freelist := [], kend := 0x80021358\<rparr>) = Ok () t \<and> kmem_wf t \<and>
     0x80022000 \<in> set (freelist t) \<and> 0x80021000 \<notin> set (freelist t)"
proof -
  let ?s = "kmem0\<lparr>freelist := [], kend := 0x80021358\<rparr>"
  have "\<exists>t. kinit ?s = Ok () t \<and> kmem_wf t \<and> kend t = kend ?s \<and> set (freelist t) = {pa. page_ok ?s pa}"
    by (rule kinit_frees_all_pages) (simp_all add: kmem0_def layout_defs)
  moreover have "page_ok ?s 0x80022000" "\<not> page_ok ?s 0x80021000"
    by (simp_all add: page_ok_def layout_defs)
  ultimately show ?thesis by auto
qed

end
