(* ===== verification/Proc_State.thy ===== *)
theory Proc_State
  imports Kalloc
begin

text \<open>
  The data of \<^verbatim>\<open>kernel/proc.h\<close>: saved registers, the trap frame, the process states and the
  process table. Pointers into static tables are table indices, null pointers are \<open>None\<close>;
  a page address that may be null is a \<open>u64\<close> with 0 for null, as in the C code.
\<close>

record kcontext =
  ctx_ra :: u64
  ctx_sp :: u64
  ctx_s0 :: u64
  ctx_s1 :: u64
  ctx_s2 :: u64
  ctx_s3 :: u64
  ctx_s4 :: u64
  ctx_s5 :: u64
  ctx_s6 :: u64
  ctx_s7 :: u64
  ctx_s8 :: u64
  ctx_s9 :: u64
  ctx_s10 :: u64
  ctx_s11 :: u64

text \<open>\<^verbatim>\<open>memset(&p->context, 0, sizeof(p->context))\<close>.\<close>

definition context0 :: kcontext where
  "context0 = \<lparr>ctx_ra = 0, ctx_sp = 0, ctx_s0 = 0, ctx_s1 = 0, ctx_s2 = 0, ctx_s3 = 0, ctx_s4 = 0,
     ctx_s5 = 0, ctx_s6 = 0, ctx_s7 = 0, ctx_s8 = 0, ctx_s9 = 0, ctx_s10 = 0, ctx_s11 = 0\<rparr>"

record trapframe =
  kernel_satp :: u64
  kernel_sp :: u64
  kernel_trap :: u64
  epc :: u64
  kernel_hartid :: u64
  tf_ra :: u64
  tf_sp :: u64
  tf_gp :: u64
  tf_tp :: u64
  tf_t0 :: u64
  tf_t1 :: u64
  tf_t2 :: u64
  tf_s0 :: u64
  tf_s1 :: u64
  a0 :: u64
  a1 :: u64
  a2 :: u64
  a3 :: u64
  a4 :: u64
  a5 :: u64
  a6 :: u64
  a7 :: u64
  tf_s2 :: u64
  tf_s3 :: u64
  tf_s4 :: u64
  tf_s5 :: u64
  tf_s6 :: u64
  tf_s7 :: u64
  tf_s8 :: u64
  tf_s9 :: u64
  tf_s10 :: u64
  tf_s11 :: u64
  tf_t3 :: u64
  tf_t4 :: u64
  tf_t5 :: u64
  tf_t6 :: u64

text \<open>The registers of a page that \<^verbatim>\<open>kalloc\<close> has just filled with 5s.\<close>

definition trapframe_junk :: trapframe where
  "trapframe_junk = (let w = 0x0505050505050505 in
     \<lparr>kernel_satp = w, kernel_sp = w, kernel_trap = w, epc = w, kernel_hartid = w, tf_ra = w,
      tf_sp = w, tf_gp = w, tf_tp = w, tf_t0 = w, tf_t1 = w, tf_t2 = w, tf_s0 = w, tf_s1 = w,
      a0 = w, a1 = w, a2 = w, a3 = w, a4 = w, a5 = w, a6 = w, a7 = w, tf_s2 = w, tf_s3 = w,
      tf_s4 = w, tf_s5 = w, tf_s6 = w, tf_s7 = w, tf_s8 = w, tf_s9 = w, tf_s10 = w, tf_s11 = w,
      tf_t3 = w, tf_t4 = w, tf_t5 = w, tf_t6 = w\<rparr>)"

datatype procstate = UNUSED | USED | SLEEPING | RUNNABLE | RUNNING | ZOMBIE

text \<open>The numbers of the enumeration, as \<^verbatim>\<open>sys_getprocsinfo\<close> prints them.\<close>

fun procstate_num :: "procstate \<Rightarrow> nat" where
  "procstate_num UNUSED = 0"
| "procstate_num USED = 1"
| "procstate_num SLEEPING = 2"
| "procstate_num RUNNABLE = 3"
| "procstate_num RUNNING = 4"
| "procstate_num ZOMBIE = 5"

text \<open>
  \<open>tfpage\<close> is the address of the trap-frame page and \<open>tf\<close> what is stored in it; the lock of
  the process is \<open>ProcLock i\<close> for the entry \<open>i\<close> of the table.
\<close>

record proc =
  state :: procstate
  pchan :: "chan option"
  pkilled :: int
  xstate :: u32
  pid :: int
  parent :: "nat option"
  kstack :: u64
  sz :: u64
  pagetable :: u64
  tfpage :: u64
  tf :: trapframe
  ctx :: kcontext
  ofile :: "nat option list"
  cwd :: "nat option"
  pname :: "u8 list"

text \<open>
  The kernel's process state, with the code addresses the linker provides as constants of
  the state: \<^verbatim>\<open>etext\<close>, \<^verbatim>\<open>trampoline\<close>, \<^verbatim>\<open>uservec\<close>, \<^verbatim>\<open>userret\<close>, \<^verbatim>\<open>usertrap\<close>, \<^verbatim>\<open>forkret\<close>.
\<close>

record kproc = kmem +
  ptable :: "proc list"
  nextpid :: int
  initproc :: "nat option"
  ticks :: u32
  kernel_pagetable :: u64
  etext :: u64
  trampoline_pa :: u64
  uservec_pa :: u64
  userret_pa :: u64
  usertrap_pa :: u64
  forkret_pa :: u64

definition upd_proc :: "nat \<Rightarrow> (proc \<Rightarrow> proc) \<Rightarrow> 'x kproc_scheme \<Rightarrow> 'x kproc_scheme" where
  "upd_proc i f s = s\<lparr>ptable := (ptable s)[i := f (ptable s ! i)]\<rparr>"

text \<open>
  Code that runs in a process starts with \<^verbatim>\<open>myproc()\<close>. Dereferencing the null pointer it
  returns on a CPU without a process faults in the kernel, where \<^verbatim>\<open>kerneltrap\<close> panics.
\<close>

definition with_myproc ::
  "(nat \<Rightarrow> 'x kproc_scheme \<Rightarrow> ('a, 'x kproc_scheme) res) \<Rightarrow> 'x kproc_scheme \<Rightarrow> ('a, 'x kproc_scheme) res"
  where
  "with_myproc f s = (case curproc s of None \<Rightarrow> Panic ''kerneltrap'' | Some p \<Rightarrow> f p s)"

lemma with_myproc_Some [simp]: "curproc s = Some p \<Longrightarrow> with_myproc f s = f p s"
  by (simp add: with_myproc_def)

lemma upd_proc_simps [simp]:
  "length (ptable (upd_proc i f s)) = length (ptable s)"
  "i < length (ptable s) \<Longrightarrow> ptable (upd_proc i f s) ! i = f (ptable s ! i)"
  "j \<noteq> i \<Longrightarrow> ptable (upd_proc i f s) ! j = ptable s ! j"
  "held (upd_proc i f s) = held s" "curproc (upd_proc i f s) = curproc s"
  "nextpid (upd_proc i f s) = nextpid s" "initproc (upd_proc i f s) = initproc s"
  "freelist (upd_proc i f s) = freelist s" "mem (upd_proc i f s) = mem s"
  "kend (upd_proc i f s) = kend s" "ticks (upd_proc i f s) = ticks s"
  by (simp_all add: upd_proc_def)

text \<open>Updating every entry of the table in turn.\<close>

lemma fold_upd_proc:
  "n \<le> length (ptable s) \<Longrightarrow> fold (\<lambda>i. upd_proc i (g i)) [0..<n] s =
     s\<lparr>ptable := map (\<lambda>i. if i < n then g i (ptable s ! i) else ptable s ! i) [0..<length (ptable s)]\<rparr>"
proof (induction n)
  case 0
  have "map (\<lambda>i. if i < 0 then g i (ptable s ! i) else ptable s ! i) [0..<length (ptable s)] = ptable s"
    by (simp add: map_nth)
  then show ?case by simp
next
  case (Suc n)
  have "(map (\<lambda>i. if i < n then g i (ptable s ! i) else ptable s ! i) [0..<length (ptable s)])
      [n := g n (ptable s ! n)] =
      map (\<lambda>i. if i < Suc n then g i (ptable s ! i) else ptable s ! i) [0..<length (ptable s)]"
    using Suc.prems by (intro nth_equalityI) (auto simp: nth_list_update less_Suc_eq)
  then show ?case using Suc by (simp add: upd_proc_def)
qed

text \<open>A blank process table entry and table, for initial states and witnesses.\<close>

definition proc0 :: proc where
  "proc0 = \<lparr>state = UNUSED, pchan = None, pkilled = 0, xstate = 0, pid = 0, parent = None,
     kstack = 0, sz = 0, pagetable = 0, tfpage = 0, tf = trapframe_junk, ctx = context0,
     ofile = replicate 16 None, cwd = None, pname = replicate 16 0\<rparr>"

end
