(* ===== verification/Vm.thy ===== *)
theory Vm
  imports Proc_State
begin

text \<open>
  \<^verbatim>\<open>kernel/vm.c\<close>: Sv39 page tables in physical memory. A page table is the address of its
  root page; a page-table entry is the word of memory at its address. \<^verbatim>\<open>walk\<close> returns the
  address of an entry (\<open>None\<close> for the null pointer). Loops over virtual addresses end because
  \<^verbatim>\<open>walk\<close> panics from \<^verbatim>\<open>MAXVA\<close> on.
\<close>

section \<open>walk, walkaddr, mappages\<close>

definition pte_at :: "u64 \<Rightarrow> nat \<Rightarrow> u64 \<Rightarrow> u64" where
  "pte_at pt level va = pt + 8 * PX level va"

fun walk_from :: "nat \<Rightarrow> u64 \<Rightarrow> u64 \<Rightarrow> bool \<Rightarrow> 'x kmem_scheme \<Rightarrow> (u64 option, 'x kmem_scheme) res" where
  "walk_from 0 pt va alloc s = Ok (Some (pte_at pt 0 va)) s"
| "walk_from (Suc l) pt va alloc s =
     (let pte = pte_at pt (Suc l) va
      in if load64 pte s AND PTE_V \<noteq> 0 then walk_from l (PTE2PA (load64 pte s)) va alloc s
         else if \<not> alloc then Ok None s
         else bnd (kalloc s) (\<lambda>pg s.
           if pg = 0 then Ok None s
           else let s = memset_page pg 0 s;
                    s = store64 pte (PA2PTE pg OR PTE_V) s
                in walk_from l pg va alloc s))"

definition walk :: "u64 \<Rightarrow> u64 \<Rightarrow> bool \<Rightarrow> 'x kmem_scheme \<Rightarrow> (u64 option, 'x kmem_scheme) res" where
  "walk pt va alloc s = (if MAXVA \<le> va then Panic ''walk'' else walk_from 2 pt va alloc s)"

definition walkaddr :: "u64 \<Rightarrow> u64 \<Rightarrow> 'x kmem_scheme \<Rightarrow> (u64, 'x kmem_scheme) res" where
  "walkaddr pt va s =
     (if MAXVA \<le> va then Ok 0 s
      else bnd (walk pt va False s) (\<lambda>r s.
        case r of None \<Rightarrow> Ok 0 s
        | Some pte \<Rightarrow>
            if load64 pte s AND PTE_V = 0 then Ok 0 s
            else if load64 pte s AND PTE_U = 0 then Ok 0 s
            else Ok (PTE2PA (load64 pte s)) s))"

lemma walk_Ok_bound: "walk pt va alloc s = Ok r t \<Longrightarrow> va < MAXVA"
  by (auto simp: walk_def split: if_splits)

lemma va_step_less:
  assumes "va < MAXVA"
  shows "unat (MAXVA - va) < unat (MAXVA + PGSIZE - va)"
proof -
  have "unat va < unat MAXVA" using assms by (simp add: word_less_nat_alt)
  then show ?thesis by (simp add: layout_defs unat_sub_if' unat_word_ariths)
qed

lemma va_step_simp [simp]: "MAXVA + PGSIZE - (va + PGSIZE) = MAXVA - va"
  by simp

function mappages_from ::
  "u64 \<Rightarrow> u64 \<Rightarrow> u64 \<Rightarrow> u64 \<Rightarrow> u64 \<Rightarrow> 'x kmem_scheme \<Rightarrow> (int, 'x kmem_scheme) res" where
  "mappages_from pt a lst pa perm s =
     bnd (walk pt a True s) (\<lambda>r s.
       case r of None \<Rightarrow> Ok (-1) s
       | Some pte \<Rightarrow>
           if load64 pte s AND PTE_V \<noteq> 0 then Panic ''mappages: remap''
           else let s = store64 pte (PA2PTE pa OR perm OR PTE_V) s
                in if a = lst then Ok 0 s
                   else mappages_from pt (a + PGSIZE) lst (pa + PGSIZE) perm s)"
  by pat_completeness auto
termination
  by (relation "measure (\<lambda>(pt, a, lst, pa, perm, s). unat (MAXVA + PGSIZE - a))")
     (auto dest!: walk_Ok_bound intro: va_step_less)

declare mappages_from.simps [simp del]

definition mappages ::
  "u64 \<Rightarrow> u64 \<Rightarrow> u64 \<Rightarrow> u64 \<Rightarrow> u64 \<Rightarrow> 'x kmem_scheme \<Rightarrow> (int, 'x kmem_scheme) res" where
  "mappages pt va nb pa perm s =
     (if va mod PGSIZE \<noteq> 0 then Panic ''mappages: va not aligned''
      else if nb mod PGSIZE \<noteq> 0 then Panic ''mappages: size not aligned''
      else if nb = 0 then Panic ''mappages: size''
      else mappages_from pt va (va + nb - PGSIZE) pa perm s)"

lemma mappages_Ok_bound: "mappages pt va nb pa perm s = Ok r t \<Longrightarrow> va < MAXVA"
  unfolding mappages_def by (auto simp: mappages_from.simps [of pt va] dest: walk_Ok_bound split: if_splits)

definition kvmmap :: "u64 \<Rightarrow> u64 \<Rightarrow> u64 \<Rightarrow> u64 \<Rightarrow> u64 \<Rightarrow> 'x kmem_scheme \<Rightarrow> (unit, 'x kmem_scheme) res" where
  "kvmmap kpgtbl va pa nb perm s =
     bnd (mappages kpgtbl va nb pa perm s) (\<lambda>r s. if r \<noteq> 0 then Panic ''kvmmap'' else Ok () s)"

section \<open>User page tables\<close>

definition uvmcreate :: "'x kmem_scheme \<Rightarrow> (u64, 'x kmem_scheme) res" where
  "uvmcreate s = bnd (kalloc s) (\<lambda>pg s. if pg = 0 then Ok 0 s else Ok pg (memset_page pg 0 s))"

function uvmunmap_from :: "u64 \<Rightarrow> u64 \<Rightarrow> u64 \<Rightarrow> bool \<Rightarrow> 'x kmem_scheme \<Rightarrow> (unit, 'x kmem_scheme) res" where
  "uvmunmap_from pt a hi do_free s =
     (if a < hi
      then bnd (walk pt a False s) (\<lambda>r s.
        case r of None \<Rightarrow> uvmunmap_from pt (a + PGSIZE) hi do_free s
        | Some pte \<Rightarrow>
            if load64 pte s AND PTE_V = 0 then uvmunmap_from pt (a + PGSIZE) hi do_free s
            else bnd (if do_free then kfree (PTE2PA (load64 pte s)) s else Ok () s) (\<lambda>_ s.
              uvmunmap_from pt (a + PGSIZE) hi do_free (store64 pte 0 s)))
      else Ok () s)"
  by pat_completeness auto
termination
  by (relation "measure (\<lambda>(pt, a, hi, do_free, s). unat (MAXVA + PGSIZE - a))")
     (auto dest!: walk_Ok_bound intro: va_step_less)

declare uvmunmap_from.simps [simp del]

definition uvmunmap :: "u64 \<Rightarrow> u64 \<Rightarrow> u64 \<Rightarrow> bool \<Rightarrow> 'x kmem_scheme \<Rightarrow> (unit, 'x kmem_scheme) res" where
  "uvmunmap pt va npages do_free s =
     (if va mod PGSIZE \<noteq> 0 then Panic ''uvmunmap: not aligned''
      else uvmunmap_from pt va (va + npages * PGSIZE) do_free s)"

text \<open>\<^verbatim>\<open>int npages\<close> is the 64-bit page count cut to 32 bits and sign-extended again.\<close>

definition uvmdealloc :: "u64 \<Rightarrow> u64 \<Rightarrow> u64 \<Rightarrow> 'x kmem_scheme \<Rightarrow> (u64, 'x kmem_scheme) res" where
  "uvmdealloc pt oldsz newsz s =
     (if oldsz \<le> newsz then Ok oldsz s
      else if PGROUNDUP newsz < PGROUNDUP oldsz
      then let npages = (ucast ((PGROUNDUP oldsz - PGROUNDUP newsz) div PGSIZE) :: u32)
           in bnd (uvmunmap pt (PGROUNDUP newsz) (scast npages) True s) (\<lambda>_ s. Ok newsz s)
      else Ok newsz s)"

function uvmalloc_from :: "u64 \<Rightarrow> u64 \<Rightarrow> u64 \<Rightarrow> u64 \<Rightarrow> u64 \<Rightarrow> 'x kmem_scheme \<Rightarrow> (u64, 'x kmem_scheme) res" where
  "uvmalloc_from pt a oldsz newsz xperm s =
     (if a < newsz
      then bnd (kalloc s) (\<lambda>pg s.
        if pg = 0 then bnd (uvmdealloc pt a oldsz s) (\<lambda>_ s. Ok 0 s)
        else let s = memset_page pg 0 s
             in bnd (mappages pt a PGSIZE pg (PTE_R OR PTE_U OR xperm) s) (\<lambda>r s.
               if r \<noteq> 0
               then bnd (kfree pg s) (\<lambda>_ s. bnd (uvmdealloc pt a oldsz s) (\<lambda>_ s. Ok 0 s))
               else uvmalloc_from pt (a + PGSIZE) oldsz newsz xperm s))
      else Ok newsz s)"
  by pat_completeness auto
termination
  by (relation "measure (\<lambda>(pt, a, oldsz, newsz, xperm, s). unat (MAXVA + PGSIZE - a))")
     (auto dest!: mappages_Ok_bound intro: va_step_less)

declare uvmalloc_from.simps [simp del]

definition uvmalloc :: "u64 \<Rightarrow> u64 \<Rightarrow> u64 \<Rightarrow> u64 \<Rightarrow> 'x kmem_scheme \<Rightarrow> (u64, 'x kmem_scheme) res" where
  "uvmalloc pt oldsz newsz xperm s =
     (if newsz < oldsz then Ok oldsz s
      else let oldsz = PGROUNDUP oldsz in uvmalloc_from pt oldsz oldsz newsz xperm s)"

text \<open>
  \<^verbatim>\<open>freewalk\<close> recurses into every entry without permission bits. The depth bound is the
  number of levels below the page; the Sv39 tables \<^verbatim>\<open>walk\<close> builds have three levels of pages,
  so 3 is enough for them (\<open>freewalk\<close> on a deeper chain is cut off as a stack overflow).
\<close>

fun freewalk_depth :: "nat \<Rightarrow> u64 \<Rightarrow> 'x kmem_scheme \<Rightarrow> (unit, 'x kmem_scheme) res" where
  "freewalk_depth 0 pt s = Panic ''stack overflow''"
| "freewalk_depth (Suc d) pt s =
     bnd (foreach (\<lambda>i s.
       let pte = load64 (pt + 8 * i) s
       in if pte AND PTE_V \<noteq> 0 \<and> pte AND (PTE_R OR PTE_W OR PTE_X) = 0
          then bnd (freewalk_depth d (PTE2PA pte) s) (\<lambda>_ s. Ok () (store64 (pt + 8 * i) 0 s))
          else if pte AND PTE_V \<noteq> 0 then Panic ''freewalk: leaf''
          else Ok () s) (map of_nat [0..<512]) s) (\<lambda>_ s.
     kfree pt s)"

definition freewalk :: "u64 \<Rightarrow> 'x kmem_scheme \<Rightarrow> (unit, 'x kmem_scheme) res" where
  "freewalk pt s = freewalk_depth 3 pt s"

definition uvmfree :: "u64 \<Rightarrow> u64 \<Rightarrow> 'x kmem_scheme \<Rightarrow> (unit, 'x kmem_scheme) res" where
  "uvmfree pt nb s =
     bnd (if nb > 0 then uvmunmap pt 0 (PGROUNDUP nb div PGSIZE) True s else Ok () s) (\<lambda>_ s.
     freewalk pt s)"

text \<open>\<^verbatim>\<open>memmove(dst, src, PGSIZE)\<close> between two pages.\<close>

definition copy_page :: "u64 \<Rightarrow> u64 \<Rightarrow> 'x kmem_scheme \<Rightarrow> 'x kmem_scheme" where
  "copy_page dst src s =
     s\<lparr>mem := \<lambda>a. if a AND NOT (PGSIZE - 1) = dst then mem s (src + (a - dst)) else mem s a\<rparr>"

function uvmcopy_from :: "u64 \<Rightarrow> u64 \<Rightarrow> u64 \<Rightarrow> u64 \<Rightarrow> 'x kmem_scheme \<Rightarrow> (int, 'x kmem_scheme) res" where
  "uvmcopy_from old new i nb s =
     (if i < nb
      then bnd (walk old i False s) (\<lambda>r s.
        case r of None \<Rightarrow> uvmcopy_from old new (i + PGSIZE) nb s
        | Some pte \<Rightarrow>
            if load64 pte s AND PTE_V = 0 then uvmcopy_from old new (i + PGSIZE) nb s
            else let pa = PTE2PA (load64 pte s); flags = PTE_FLAGS (load64 pte s)
              in bnd (kalloc s) (\<lambda>pg s.
                if pg = 0 then bnd (uvmunmap new 0 (i div PGSIZE) True s) (\<lambda>_ s. Ok (-1) s)
                else let s = copy_page pg pa s
                  in bnd (mappages new i PGSIZE pg flags s) (\<lambda>m s.
                    if m \<noteq> 0
                    then bnd (kfree pg s) (\<lambda>_ s.
                         bnd (uvmunmap new 0 (i div PGSIZE) True s) (\<lambda>_ s. Ok (-1) s))
                    else uvmcopy_from old new (i + PGSIZE) nb s)))
      else Ok 0 s)"
  by pat_completeness auto
termination
  by (relation "measure (\<lambda>(old, new, i, nb, s). unat (MAXVA + PGSIZE - i))")
     (auto dest!: walk_Ok_bound intro: va_step_less)

declare uvmcopy_from.simps [simp del]

definition uvmcopy :: "u64 \<Rightarrow> u64 \<Rightarrow> u64 \<Rightarrow> 'x kmem_scheme \<Rightarrow> (int, 'x kmem_scheme) res" where
  "uvmcopy old new nb s = uvmcopy_from old new 0 nb s"

definition uvmclear :: "u64 \<Rightarrow> u64 \<Rightarrow> 'x kmem_scheme \<Rightarrow> (unit, 'x kmem_scheme) res" where
  "uvmclear pt va s =
     bnd (walk pt va False s) (\<lambda>r s.
       case r of None \<Rightarrow> Panic ''uvmclear''
       | Some pte \<Rightarrow> Ok () (store64 pte (load64 pte s AND NOT PTE_U) s))"

section \<open>Lazy allocation and copying between kernel and user\<close>

definition ismapped :: "u64 \<Rightarrow> u64 \<Rightarrow> 'x kmem_scheme \<Rightarrow> (bool, 'x kmem_scheme) res" where
  "ismapped pt va s =
     bnd (walk pt va False s) (\<lambda>r s.
       case r of None \<Rightarrow> Ok False s
       | Some pte \<Rightarrow> if load64 pte s AND PTE_V \<noteq> 0 then Ok True s else Ok False s)"

definition vmfault :: "u64 \<Rightarrow> u64 \<Rightarrow> int \<Rightarrow> 'x kproc_scheme \<Rightarrow> (u64, 'x kproc_scheme) res" where
  "vmfault pt va read =
     with_myproc (\<lambda>p s.
       if sz (ptable s ! p) \<le> va then Ok 0 s
       else let va = PGROUNDDOWN va
         in bnd (ismapped pt va s) (\<lambda>m s.
           if m then Ok 0 s
           else bnd (kalloc s) (\<lambda>pg s.
             if pg = 0 then Ok 0 s
             else let s = memset_page pg 0 s
               in bnd (mappages (pagetable (ptable s ! p)) va PGSIZE pg (PTE_W OR PTE_U OR PTE_R) s)
                 (\<lambda>r s. if r \<noteq> 0 then bnd (kfree pg s) (\<lambda>_ s. Ok 0 s) else Ok pg s))))"

lemma chunk_pos: "0 < unat (PGSIZE - (va - PGROUNDDOWN va))"
proof -
  have "unat (PGROUNDDOWN va) = unat va - unat va mod 4096" by (rule unat_PGROUNDDOWN)
  then have "unat (va - PGROUNDDOWN va) = unat va mod 4096"
    by (simp add: unat_sub word_le_nat_alt)
  then have "unat (va - PGROUNDDOWN va) < unat PGSIZE" by (simp add: PGSIZE_def)
  then have "PGSIZE - (va - PGROUNDDOWN va) \<noteq> 0" by auto
  then show ?thesis by (simp add: unat_gt_0)
qed

text \<open>\<^verbatim>\<open>src\<close> and \<^verbatim>\<open>len\<close> together are the list of bytes still to be copied.\<close>

function copyout :: "u64 \<Rightarrow> u64 \<Rightarrow> u8 list \<Rightarrow> 'x kproc_scheme \<Rightarrow> (int, 'x kproc_scheme) res" where
  "copyout pt dstva src s =
     (if src = [] then Ok 0 s
      else let va0 = PGROUNDDOWN dstva
        in if MAXVA \<le> va0 then Ok (-1) s
           else bnd (walkaddr pt va0 s) (\<lambda>pa0 s.
             bnd (if pa0 = 0 then vmfault pt va0 0 s else Ok pa0 s) (\<lambda>pa0 s.
             if pa0 = 0 then Ok (-1) s
             else bnd (walk pt va0 False s) (\<lambda>r s.
               case r of None \<Rightarrow> Panic ''kerneltrap''
               | Some pte \<Rightarrow>
                   if load64 pte s AND PTE_W = 0 then Ok (-1) s
                   else let n = min (unat (PGSIZE - (dstva - va0))) (length src);
                            s = store_bytes (pa0 + (dstva - va0)) (take n src) s
                        in copyout pt (va0 + PGSIZE) (drop n src) s))))"
  by pat_completeness auto
termination
  by (relation "measure (\<lambda>(pt, dstva, src, s). length src)")
     (use chunk_pos in \<open>auto simp: Let_def\<close>)

declare copyout.simps [simp del]

text \<open>\<^verbatim>\<open>copyin\<close> returns its code and the bytes it has stored at \<^verbatim>\<open>dst\<close> so far.\<close>

function copyin :: "u64 \<Rightarrow> u64 \<Rightarrow> nat \<Rightarrow> 'x kproc_scheme \<Rightarrow> (int \<times> u8 list, 'x kproc_scheme) res" where
  "copyin pt srcva len s =
     (if len = 0 then Ok (0, []) s
      else let va0 = PGROUNDDOWN srcva
        in bnd (walkaddr pt va0 s) (\<lambda>pa0 s.
           bnd (if pa0 = 0 then vmfault pt va0 0 s else Ok pa0 s) (\<lambda>pa0 s.
           if pa0 = 0 then Ok (-1, []) s
           else let n = min (unat (PGSIZE - (srcva - va0))) len;
                    bs = load_bytes (pa0 + (srcva - va0)) n s
                in bnd (copyin pt (va0 + PGSIZE) (len - n) s) (\<lambda>(r, rest) s. Ok (r, bs @ rest) s))))"
  by pat_completeness auto
termination
  by (relation "measure (\<lambda>(pt, srcva, len, s). len)")
     (use chunk_pos in \<open>auto simp: Let_def\<close>)

declare copyin.simps [simp del]

text \<open>
  The inner loop of \<^verbatim>\<open>copyinstr\<close>: bytes up to a NUL (\<open>True\<close>, the NUL included) or up to the
  end of the chunk.
\<close>

fun take_str :: "u8 list \<Rightarrow> bool \<times> u8 list" where
  "take_str [] = (False, [])"
| "take_str (b # bs) = (if b = 0 then (True, [0]) else (case take_str bs of (z, cs) \<Rightarrow> (z, b # cs)))"

function copyinstr :: "u64 \<Rightarrow> u64 \<Rightarrow> nat \<Rightarrow> 'x kproc_scheme \<Rightarrow> (int \<times> u8 list, 'x kproc_scheme) res" where
  "copyinstr pt srcva mx s =
     (if mx = 0 then Ok (-1, []) s
      else let va0 = PGROUNDDOWN srcva
        in bnd (walkaddr pt va0 s) (\<lambda>pa0 s.
           if pa0 = 0 then Ok (-1, []) s
           else let n = min (unat (PGSIZE - (srcva - va0))) mx;
                    (got_null, bs) = take_str (load_bytes (pa0 + (srcva - va0)) n s)
                in if got_null then Ok (0, bs) s
                   else bnd (copyinstr pt (va0 + PGSIZE) (mx - n) s)
                        (\<lambda>(r, rest) s. Ok (r, bs @ rest) s)))"
  by pat_completeness auto
termination
  by (relation "measure (\<lambda>(pt, srcva, mx, s). mx)")
     (use chunk_pos in \<open>auto simp: Let_def\<close>)

declare copyinstr.simps [simp del]

section \<open>The kernel page table\<close>

definition proc_mapstacks :: "u64 \<Rightarrow> 'x kproc_scheme \<Rightarrow> (unit, 'x kproc_scheme) res" where
  "proc_mapstacks kpgtbl =
     foreach (\<lambda>i s. bnd (kalloc s) (\<lambda>pa s.
       if pa = 0 then Panic ''kalloc''
       else kvmmap kpgtbl (KSTACK i) pa PGSIZE (PTE_R OR PTE_W) s)) [0..<NPROC]"

text \<open>The clearing of the root page writes through the null pointer when \<^verbatim>\<open>kalloc\<close> fails.\<close>

definition kvmmake :: "'x kproc_scheme \<Rightarrow> (u64, 'x kproc_scheme) res" where
  "kvmmake s =
     bnd (kalloc s) (\<lambda>kpgtbl s.
     if kpgtbl = 0 then Panic ''kerneltrap''
     else let s = memset_page kpgtbl 0 s in
     bnd (kvmmap kpgtbl UART0 UART0 PGSIZE (PTE_R OR PTE_W) s) (\<lambda>_ s.
     bnd (kvmmap kpgtbl VIRTIO0 VIRTIO0 PGSIZE (PTE_R OR PTE_W) s) (\<lambda>_ s.
     bnd (kvmmap kpgtbl PLIC PLIC 0x4000000 (PTE_R OR PTE_W) s) (\<lambda>_ s.
     bnd (kvmmap kpgtbl KERNBASE KERNBASE (etext s - KERNBASE) (PTE_R OR PTE_X) s) (\<lambda>_ s.
     bnd (kvmmap kpgtbl (etext s) (etext s) (PHYSTOP - etext s) (PTE_R OR PTE_W) s) (\<lambda>_ s.
     bnd (kvmmap kpgtbl TRAMPOLINE (trampoline_pa s) PGSIZE (PTE_R OR PTE_X) s) (\<lambda>_ s.
     bnd (proc_mapstacks kpgtbl s) (\<lambda>_ s.
     Ok kpgtbl s))))))))"

definition kvminit :: "'x kproc_scheme \<Rightarrow> (unit, 'x kproc_scheme) res" where
  "kvminit s = bnd (kvmmake s) (\<lambda>k s. Ok () (s\<lparr>kernel_pagetable := k\<rparr>))"

text \<open>The value \<^verbatim>\<open>kvminithart\<close> writes to the \<^verbatim>\<open>satp\<close> register of its hart.\<close>

definition kvminithart :: "'x kproc_scheme \<Rightarrow> u64" where
  "kvminithart s = MAKE_SATP (kernel_pagetable s)"

end
