(* ===== verification/Page_Tables.thy ===== *)
theory Page_Tables
  imports Vm
begin

text \<open>
  What the page-table code of theory Vm means: a page table is a tree of pages, an abstract
  lookup function from page addresses to leaf entries is read off it, \<^verbatim>\<open>walk\<close> without
  allocation computes that function, and \<^verbatim>\<open>mappages\<close> and \<^verbatim>\<open>uvmunmap\<close> are updates of it.
\<close>

section \<open>The tree of a page table\<close>

definition child :: "'x kmem_scheme \<Rightarrow> u64 \<Rightarrow> u64 \<Rightarrow> u64 option" where
  "child s p i = (if mem s (p + 8 * i) AND PTE_V \<noteq> 0 then Some (PTE2PA (mem s (p + 8 * i))) else None)"

text \<open>The page reached from \<open>p\<close> by following the entries with the given indices.\<close>

fun node :: "'x kmem_scheme \<Rightarrow> u64 \<Rightarrow> u64 list \<Rightarrow> u64 option" where
  "node s p [] = Some p"
| "node s p (i # is) = Option.bind (child s p i) (\<lambda>q. node s q is)"

text \<open>The leaf entry of a virtual address, when there is a valid one.\<close>

definition lookup :: "'x kmem_scheme \<Rightarrow> u64 \<Rightarrow> u64 \<Rightarrow> u64 option" where
  "lookup s pt va =
     Option.bind (node s pt [PX 2 va, PX 1 va]) (\<lambda>p.
       let pte = mem s (p + 8 * PX 0 va) in if pte AND PTE_V \<noteq> 0 then Some pte else None)"

text \<open>
  The pages of the tree are allocated pages, not in the free list, and no page is at two
  places of the tree.
\<close>

definition path_ok :: "u64 list \<Rightarrow> bool" where
  "path_ok xs \<longleftrightarrow> length xs \<le> 2 \<and> (\<forall>i \<in> set xs. i < 512)"

definition pt_wf :: "'x kmem_scheme \<Rightarrow> u64 \<Rightarrow> bool" where
  "pt_wf s pt \<longleftrightarrow>
     (\<forall>xs p. path_ok xs \<longrightarrow> node s pt xs = Some p \<longrightarrow> page_ok s p \<and> p \<notin> set (freelist s)) \<and>
     (\<forall>xs ys p. path_ok xs \<longrightarrow> path_ok ys \<longrightarrow> node s pt xs = Some p \<longrightarrow> node s pt ys = Some p \<longrightarrow> xs = ys)"

lemma pt_wf_page: "pt_wf s pt \<Longrightarrow> path_ok xs \<Longrightarrow> node s pt xs = Some p \<Longrightarrow> page_ok s p"
  and pt_wf_used: "pt_wf s pt \<Longrightarrow> path_ok xs \<Longrightarrow> node s pt xs = Some p \<Longrightarrow> p \<notin> set (freelist s)"
  and pt_wf_inj: "pt_wf s pt \<Longrightarrow> path_ok xs \<Longrightarrow> path_ok ys \<Longrightarrow> node s pt xs = Some p \<Longrightarrow>
    node s pt ys = Some p \<Longrightarrow> xs = ys"
  unfolding pt_wf_def by blast+

lemma node_snoc: "node s p (xs @ [i]) = Option.bind (node s p xs) (\<lambda>q. child s q i)"
  by (induction xs arbitrary: p) (auto split: bind_split)

lemma path_ok_snoc [simp]: "path_ok (xs @ [i]) \<longleftrightarrow> length xs < 2 \<and> path_ok xs \<and> i < 512"
  by (auto simp: path_ok_def)

lemma path_ok_Nil [simp]: "path_ok []"
  by (simp add: path_ok_def)

section \<open>Addresses of entries\<close>

lemma PX_less: "PX l va < 512"
proof -
  have "PX l va \<le> PXMASK" unfolding PX_def by (rule word_and_le1)
  then show ?thesis unfolding PXMASK_def word_le_nat_alt word_less_nat_alt by simp
qed

lemma PX_path_ok [simp]: "path_ok []" "path_ok [PX l va]" "path_ok [PX l va, PX k va]"
  by (simp_all add: path_ok_def PX_less)

lemma page_round:
  assumes "p mod PGSIZE = 0" and "i < 512"
  shows "(p + 8 * i) AND NOT (PGSIZE - 1) = p"
proof -
  have pm: "unat p mod 4096 = 0" using assms(1) by (simp only: mod_PGSIZE_iff)
  have i: "unat i < 512" using assms(2) by (simp add: word_less_nat_alt)
  have "unat p < 2 ^ 64" using unsigned_less [of p] by simp
  then have "unat p + 4096 \<le> 2 ^ 64" by (intro aligned_less_step pm) simp_all
  then have u: "unat (p + 8 * i) = unat p + 8 * unat i"
    using i by (simp add: unat_word_ariths)
  obtain k where "unat p = 4096 * k" using pm by (auto elim!: dvdE)
  then have m: "(unat p + 8 * unat i) mod 4096 = 8 * unat i" using i by simp
  have "unat (PGROUNDDOWN (p + 8 * i)) = unat p"
    unfolding unat_PGROUNDDOWN u m by simp
  then show ?thesis by (simp add: PGROUNDDOWN_def word_unat_eq_iff)
qed

lemma entry_inj:
  assumes "p mod PGSIZE = 0" "q mod PGSIZE = 0" "i < 512" "j < 512"
  shows "p + 8 * i = q + 8 * j \<longleftrightarrow> p = q \<and> i = j"
proof
  assume e: "p + 8 * i = q + 8 * j"
  then have pq: "p = q" using page_round [OF assms(1,3)] page_round [OF assms(2,4)] by simp
  with e have "8 * i = 8 * j" by simp
  then have "unat (8 * i) = unat (8 * j)" by simp
  then have "i = j" using assms(3,4) by (simp add: word_unat_eq_iff word_less_nat_alt unat_word_ariths)
  with pq show "p = q \<and> i = j" by simp
qed auto

lemma page_ok_mod: "page_ok s p \<Longrightarrow> p mod PGSIZE = 0"
  by (simp add: page_ok_def)

lemma page_ok_bound: "page_ok s p \<Longrightarrow> unat p < 2 ^ 56 \<and> p AND 0xFFF = 0"
proof -
  assume a: "page_ok s p"
  then have "unat p < unat PHYSTOP" by (simp add: page_ok_def word_less_nat_alt)
  moreover have "p AND 0xFFF = 0"
  proof -
    have "p mod 4096 = 0" using a by (simp add: page_ok_def PGSIZE_def)
    then have "take_bit 12 p = 0" by (simp add: take_bit_eq_mod)
    then show ?thesis by (simp add: low_twelve take_bit_eq_mask)
  qed
  ultimately show ?thesis by (simp add: layout_defs)
qed

text \<open>A page address is determined by its three indices.\<close>

lemma PX_bit: "bit (PX l va) n \<longleftrightarrow> n < 9 \<and> bit va (12 + 9 * l + n)"
proof -
  have "(0x1FF :: u64) = mask 9" by (simp add: mask_eq_exp_minus_1)
  then have "PX l va = drop_bit (12 + 9 * l) va AND mask 9"
    unfolding PX_def PXMASK_def PXSHIFT_def PGSHIFT_def by simp
  then show ?thesis
    by (auto simp: bit_simps simp del: mask_numeral dest: bit_imp_le_length)
qed

lemma MAXVA_bit: "va < MAXVA \<Longrightarrow> bit va n \<Longrightarrow> n < 38"
proof -
  assume "va < MAXVA" and b: "bit va n"
  then have "unat va < 2 ^ 38" by (simp add: MAXVA_def word_less_nat_alt)
  then have "take_bit 38 va = va" by (rule word_take_bit_self)
  then show ?thesis using b by (metis bit_take_bit_iff)
qed

lemma PX_inj:
  assumes "va < MAXVA" "vb < MAXVA" "va mod PGSIZE = 0" "vb mod PGSIZE = 0"
    and "PX 2 va = PX 2 vb" "PX 1 va = PX 1 vb" "PX 0 va = PX 0 vb"
  shows "va = vb"
proof (rule bit_word_eqI)
  fix n assume "n < LENGTH(64)"
  have lo: "\<not> bit v n" if "v mod PGSIZE = 0" "n < 12" for v :: u64
  proof -
    have "take_bit 12 v = 0" using that(1) by (simp add: PGSIZE_def take_bit_eq_mod)
    then show ?thesis using that(2) by (metis bit_0_eq bit_take_bit_iff bot_apply bot_bool_def)
  qed
  consider "n < 12" | k where "n = 12 + k" "k < 9" | k where "n = 21 + k" "k < 9"
    | k where "n = 30 + k" "k < 9" | "38 < n"
  proof -
    have "n < 12 \<or> (\<exists>k<9. n = 12 + k) \<or> (\<exists>k<9. n = 21 + k) \<or> (\<exists>k<9. n = 30 + k) \<or> 38 < n"
      by presburger
    then show ?thesis using that by blast
  qed
  then show "bit va n = bit vb n"
  proof cases
    case 1
    then show ?thesis using lo [OF assms(3)] lo [OF assms(4)] by simp
  next
    case (2 k)
    then show ?thesis using PX_bit [of 0 va k] PX_bit [of 0 vb k] assms(7) by simp
  next
    case (3 k)
    then show ?thesis using PX_bit [of 1 va k] PX_bit [of 1 vb k] assms(6) by simp
  next
    case (4 k)
    then show ?thesis using PX_bit [of 2 va k] PX_bit [of 2 vb k] assms(5) by simp
  next
    case 5
    then show ?thesis using MAXVA_bit assms(1,2) by fastforce
  qed
qed

section \<open>Walking\<close>

lemma walk_noalloc:
  "walk pt va False s =
     (if MAXVA \<le> va then Panic ''walk''
      else Ok (map_option (\<lambda>p. p + 8 * PX 0 va) (node s pt [PX 2 va, PX 1 va])) s)"
  by (simp add: walk_def numeral_2_eq_2 Let_def child_def load64_def pte_at_def)

lemma lookup_walk:
  "va < MAXVA \<Longrightarrow> lookup s pt va = (case walk pt va False s of
     Ok (Some pte) t \<Rightarrow> if load64 pte s AND PTE_V \<noteq> 0 then Some (load64 pte s) else None | _ \<Rightarrow> None)"
  by (auto simp: walk_noalloc lookup_def Let_def load64_def not_le split: bind_split)

section \<open>Adding a page to the tree\<close>

definition grow_tree :: "u64 \<Rightarrow> u64 \<Rightarrow> u64 list \<Rightarrow> 'x kmem_scheme \<Rightarrow> 'x kmem_scheme" where
  "grow_tree pte pg ps s =
     store64 pte (PA2PTE pg OR PTE_V) (memset_page pg 0 (memset_page pg 5 (s\<lparr>freelist := ps\<rparr>)))"

lemma grow_tree_fields [simp]:
  "held (grow_tree pte pg ps s) = held s" "freelist (grow_tree pte pg ps s) = ps"
  "kend (grow_tree pte pg ps s) = kend s" "page_ok (grow_tree pte pg ps s) = page_ok s"
  "curproc (grow_tree pte pg ps s) = curproc s"
  "kmem.more (grow_tree pte pg ps s) = kmem.more s"
  by (simp_all add: grow_tree_def store64_def page_ok_def memset_page_def fun_eq_iff)

lemma mem_grow_tree:
  "mem (grow_tree pte pg ps s) a =
     (if a = pte then PA2PTE pg OR PTE_V
      else if a AND NOT (PGSIZE - 1) = pg then 0 else mem s a)"
  by (simp add: grow_tree_def store64_def memset_page_def)

lemma PTE_V_set: "(x OR PTE_V) AND PTE_V \<noteq> 0"
proof -
  have "bit ((x OR PTE_V) AND PTE_V) 0" by (simp add: PTE_V_def bit_simps)
  then show ?thesis by (metis bit_0_eq bot_apply bot_bool_def)
qed

lemma PTE2PA_flags:
  "page_ok s pa \<Longrightarrow> unat flags < 2 ^ 10 \<Longrightarrow> PTE2PA (PA2PTE pa OR flags) = pa"
  using page_ok_bound PTE2PA_PA2PTE(1) by blast

lemma grow_tree_node:
  assumes W: "pt_wf s pt" and fl: "freelist s = pg # ps" and pgok: "page_ok s pg"
    and xi: "path_ok (xs @ [i])" and xp: "node s pt xs = Some p" and none: "child s p i = None"
    and ys: "path_ok ys"
  shows "node (grow_tree (p + 8 * i) pg ps s) pt ys = (if ys = xs @ [i] then Some pg else node s pt ys)"
  using ys
proof (induction ys rule: rev_induct)
  case Nil
  then show ?case by simp
next
  case (snoc j zs)
  let ?t = "grow_tree (p + 8 * i) pg ps s"
  have zj: "path_ok zs" "length zs < 2" "j < 512" and xs: "path_ok xs" "i < 512"
    using snoc.prems xi by auto
  have pp: "page_ok s p" "p \<notin> set (freelist s)" using W xs(1) xp by (auto dest: pt_wf_page pt_wf_used)
  have IH: "node ?t pt zs = (if zs = xs @ [i] then Some pg else node s pt zs)"
    using snoc.IH zj(1) by blast
  show ?case
  proof (cases "zs = xs @ [i]")
    case True
    have "pg + 8 * j \<noteq> p + 8 * i"
      using pp fl entry_inj [OF page_ok_mod [OF pgok] page_ok_mod [OF pp(1)] zj(3) xs(2)] by auto
    then have "child ?t pg j = None"
      by (simp add: child_def mem_grow_tree page_round [OF page_ok_mod [OF pgok] zj(3)])
    moreover have "node s pt zs = None" unfolding True by (simp add: node_snoc xp none)
    moreover have "node ?t pt zs = Some pg" using IH True by (simp only: if_True refl)
    moreover have "zs @ [j] \<noteq> xs @ [i]" using True by auto
    ultimately show ?thesis by (simp add: node_snoc [of _ _ zs j])
  next
    case False
    show ?thesis
    proof (cases "node s pt zs")
      case None
      then have "zs \<noteq> xs" using xp by auto
      with None IH False show ?thesis by (simp add: node_snoc)
    next
      case (Some q)
      have q: "page_ok s q" "q \<notin> set (freelist s)" using W zj(1) Some by (auto dest: pt_wf_page pt_wf_used)
      have r: "(q + 8 * j) AND NOT (PGSIZE - 1) = q" by (rule page_round [OF page_ok_mod [OF q(1)] zj(3)])
      have qpg: "q \<noteq> pg" using q fl by auto
      have iff: "q + 8 * j = p + 8 * i \<longleftrightarrow> zs = xs \<and> j = i"
      proof -
        have "q = p \<longleftrightarrow> zs = xs" using pt_wf_inj [OF W zj(1) xs(1) Some] xp Some by auto
        then show ?thesis
          using entry_inj [OF page_ok_mod [OF q(1)] page_ok_mod [OF pp(1)] zj(3) xs(2)] by simp
      qed
      show ?thesis
      proof (cases "zs = xs \<and> j = i")
        case True
        then have "child ?t q j = Some pg"
          using xp Some PTE_V_set PTE2PA_flags [OF pgok, of PTE_V]
          by (simp add: child_def mem_grow_tree) (simp add: PTE_V_def)
        with IH True False Some show ?thesis by (simp add: node_snoc)
      next
        case F: False
        then have "q + 8 * j \<noteq> p + 8 * i" using iff by blast
        then have "child ?t q j = child s q j"
          using r qpg by (simp add: child_def mem_grow_tree)
        with IH False Some F show ?thesis by (auto simp: node_snoc)
      qed
    qed
  qed
qed

lemma grow_tree_wf:
  assumes W: "pt_wf s pt" and K: "kmem_wf s" and fl: "freelist s = pg # ps"
    and xi: "path_ok (xs @ [i])" and xp: "node s pt xs = Some p" and none: "child s p i = None"
  shows "pt_wf (grow_tree (p + 8 * i) pg ps s) pt" "kmem_wf (grow_tree (p + 8 * i) pg ps s)"
    "node (grow_tree (p + 8 * i) pg ps s) pt (xs @ [i]) = Some pg"
    "lookup (grow_tree (p + 8 * i) pg ps s) pt va = lookup s pt va"
proof -
  let ?t = "grow_tree (p + 8 * i) pg ps s"
  have pgok: "page_ok s pg" and pgps: "pg \<notin> set ps" using K fl by (auto simp: kmem_wf_def)
  note N = grow_tree_node [OF W fl pgok xi xp none]
  show "kmem_wf ?t" using K fl by (auto simp: kmem_wf_def)
  show "node ?t pt (xs @ [i]) = Some pg" using N [OF xi] by simp
  show "pt_wf ?t pt"
    unfolding pt_wf_def
  proof (intro conjI allI impI)
    fix ys q assume a: "path_ok ys" "node ?t pt ys = Some q"
    show "page_ok ?t q" "q \<notin> set (freelist ?t)"
      using a N [OF a(1)] pgok pgps pt_wf_page [OF W a(1)] pt_wf_used [OF W a(1)] fl
      by (auto split: if_splits)
  next
    fix ys zs q
    assume a: "path_ok ys" "path_ok zs" "node ?t pt ys = Some q" "node ?t pt zs = Some q"
    show "ys = zs"
      using a N [OF a(1)] N [OF a(2)] pt_wf_inj [OF W a(1,2)] pt_wf_used [OF W a(1)]
        pt_wf_used [OF W a(2)] fl
      by (auto split: if_splits)
  qed
  show "lookup ?t pt va = lookup s pt va"
  proof (cases "[PX 2 va, PX 1 va] = xs @ [i]")
    case True
    have "pg + 8 * PX 0 va \<noteq> p + 8 * i"
      using pt_wf_used [OF W _ xp] pt_wf_page [OF W _ xp] xi fl
        entry_inj [OF page_ok_mod [OF pgok] _ PX_less, of p i 0 va] by (auto dest: page_ok_mod)
    moreover have "node ?t pt [PX 2 va, PX 1 va] = Some pg" unfolding True using N [OF xi] by simp
    ultimately have "lookup ?t pt va = None"
      unfolding lookup_def
      by (simp add: mem_grow_tree page_round [OF page_ok_mod [OF pgok] PX_less] del: node.simps)
    moreover have "node s pt [PX 2 va, PX 1 va] = None" unfolding True by (simp add: node_snoc xp none)
    ultimately show ?thesis by (simp add: lookup_def)
  next
    case False
    have Nv: "node ?t pt [PX 2 va, PX 1 va] = node s pt [PX 2 va, PX 1 va]"
      unfolding N [OF PX_path_ok(3)] using False by (simp only: if_False)
    show ?thesis
    proof (cases "node s pt [PX 2 va, PX 1 va]")
      case None
      then show ?thesis using Nv by (simp add: lookup_def del: node.simps)
    next
      case (Some q)
      have q: "page_ok s q" "q \<notin> set (freelist s)"
        using pt_wf_page [OF W _ Some] pt_wf_used [OF W _ Some] by simp_all
      have "q \<noteq> p" using pt_wf_inj [OF W _ _ Some, of xs] xp xi by auto
      then have "q + 8 * PX 0 va \<noteq> p + 8 * i"
        using q pt_wf_page [OF W _ xp] xi
          entry_inj [OF page_ok_mod [OF q(1)] _ PX_less, of p i 0 va] by (auto dest: page_ok_mod)
      moreover have "(q + 8 * PX 0 va) AND NOT (PGSIZE - 1) \<noteq> pg"
        using page_round [OF page_ok_mod [OF q(1)] PX_less] q fl by auto
      ultimately show ?thesis
        using Nv Some by (simp add: lookup_def mem_grow_tree del: node.simps)
    qed
  qed
qed

text \<open>
  The memory an operation on a page table may write: the pages of the tree and the free
  pages, which are all that it may add to the tree.
\<close>

definition tree_pages :: "'x kmem_scheme \<Rightarrow> u64 \<Rightarrow> u64 set" where
  "tree_pages s pt = {p. \<exists>xs. path_ok xs \<and> node s pt xs = Some p}"

definition mem_frame :: "u64 \<Rightarrow> 'x kmem_scheme \<Rightarrow> 'x kmem_scheme \<Rightarrow> bool" where
  "mem_frame pt s t \<longleftrightarrow>
     (\<forall>a. a AND NOT (PGSIZE - 1) \<notin> tree_pages s pt \<union> set (freelist s) \<longrightarrow> mem t a = mem s a) \<and>
     tree_pages t pt \<union> set (freelist t) \<subseteq> tree_pages s pt \<union> set (freelist s)"

lemma mem_frame_refl: "mem_frame pt s s"
  by (simp add: mem_frame_def)

lemma mem_frame_trans:
  assumes "mem_frame pt s t" "mem_frame pt t u"
  shows "mem_frame pt s u"
proof -
  have st: "tree_pages t pt \<union> set (freelist t) \<subseteq> tree_pages s pt \<union> set (freelist s)"
    and tu: "tree_pages u pt \<union> set (freelist u) \<subseteq> tree_pages t pt \<union> set (freelist t)"
    using assms by (simp_all add: mem_frame_def)
  have "mem u a = mem s a" if "a AND NOT (PGSIZE - 1) \<notin> tree_pages s pt \<union> set (freelist s)" for a
  proof -
    have "a AND NOT (PGSIZE - 1) \<notin> tree_pages t pt \<union> set (freelist t)" using that st by blast
    then show ?thesis using that assms by (simp add: mem_frame_def)
  qed
  then show ?thesis using subset_trans [OF tu st] unfolding mem_frame_def by blast
qed

lemma tree_pagesI: "path_ok xs \<Longrightarrow> node s pt xs = Some p \<Longrightarrow> p \<in> tree_pages s pt"
  by (auto simp: tree_pages_def)

lemma grow_tree_mem_frame:
  assumes W: "pt_wf s pt" and K: "kmem_wf s" and fl: "freelist s = pg # ps"
    and xi: "path_ok (xs @ [i])" and xp: "node s pt xs = Some p" and none: "child s p i = None"
  shows "mem_frame pt s (grow_tree (p + 8 * i) pg ps s)"
proof -
  have pgok: "page_ok s pg" using K fl by (auto simp: kmem_wf_def)
  have xs: "path_ok xs" "i < 512" using xi by auto
  have r: "(p + 8 * i) AND NOT (PGSIZE - 1) = p"
    by (rule page_round [OF page_ok_mod [OF pt_wf_page [OF W xs(1) xp]] xs(2)])
  have "mem (grow_tree (p + 8 * i) pg ps s) a = mem s a"
    if "a AND NOT (PGSIZE - 1) \<notin> tree_pages s pt \<union> set (freelist s)" for a
  proof -
    have "a \<noteq> p + 8 * i" using that r tree_pagesI [OF xs(1) xp] by auto
    moreover have "a AND NOT (PGSIZE - 1) \<noteq> pg" using that fl by auto
    ultimately show ?thesis by (simp add: mem_grow_tree)
  qed
  moreover have "tree_pages (grow_tree (p + 8 * i) pg ps s) pt \<subseteq> insert pg (tree_pages s pt)"
    using grow_tree_node [OF W fl pgok xi xp none] unfolding tree_pages_def by (auto split: if_splits)
  ultimately show ?thesis using fl unfolding mem_frame_def by auto
qed

text \<open>
  \<open>tree_ext pt s t\<close>: the state \<open>t\<close> has a well-formed page table with the same translations as
  \<open>s\<close>, and only pages of the free list were used on the way.
\<close>

definition pt_ready :: "'x kmem_scheme \<Rightarrow> u64 \<Rightarrow> bool" where
  "pt_ready s pt \<longleftrightarrow> pt_wf s pt \<and> kmem_wf s \<and> KmemLock \<notin> set (held s)"

definition tree_ext :: "u64 \<Rightarrow> 'x kmem_scheme \<Rightarrow> 'x kmem_scheme \<Rightarrow> bool" where
  "tree_ext pt s t \<longleftrightarrow> pt_ready t pt \<and> held t = held s \<and> kend t = kend s \<and> curproc t = curproc s \<and>
     kmem.more t = kmem.more s \<and> mem_frame pt s t \<and>
     set (freelist t) \<subseteq> set (freelist s) \<and> (\<forall>v. lookup t pt v = lookup s pt v)"

lemma tree_ext_refl: "pt_ready s pt \<Longrightarrow> tree_ext pt s s"
  by (simp add: tree_ext_def mem_frame_refl)

lemma tree_ext_trans: "tree_ext pt s t \<Longrightarrow> tree_ext pt t u \<Longrightarrow> tree_ext pt s u"
  unfolding tree_ext_def by (auto intro: mem_frame_trans)

lemma walk_from_step:
  assumes R: "pt_ready s pt" and xp: "node s pt xs = Some p" and ok: "path_ok (xs @ [PX (Suc l) va])"
  shows "(\<exists>q t. walk_from (Suc l) p va True s = walk_from l q va True t \<and> tree_ext pt s t \<and>
            node t pt (xs @ [PX (Suc l) va]) = Some q) \<or>
         walk_from (Suc l) p va True s = Ok None s \<and> freelist s = []"
proof -
  let ?i = "PX (Suc l) va"
  have W: "pt_wf s pt" "kmem_wf s" "KmemLock \<notin> set (held s)" using R by (simp_all add: pt_ready_def)
  show ?thesis
  proof (cases "child s p ?i")
    case (Some q)
    then have "walk_from (Suc l) p va True s = walk_from l q va True s"
      by (auto simp: child_def load64_def pte_at_def Let_def split: if_splits)
    moreover have "node s pt (xs @ [?i]) = Some q" using xp Some by (simp add: node_snoc)
    ultimately show ?thesis using tree_ext_refl [OF R] by blast
  next
    case None
    then have v: "mem s (p + 8 * ?i) AND PTE_V = 0" by (auto simp: child_def split: if_splits)
    show ?thesis
    proof (cases "freelist s")
      case Nil
      then have "walk_from (Suc l) p va True s = Ok None s"
        using v by (simp add: load64_def pte_at_def kalloc_eq [OF W(3,2)])
      with Nil show ?thesis by blast
    next
      case (Cons pg ps)
      have pg: "pg \<noteq> 0" using kmem_wf_page_pos [OF W(2)] Cons by simp
      let ?t = "grow_tree (p + 8 * ?i) pg ps s"
      have "walk_from (Suc l) p va True s = walk_from l pg va True ?t"
        using v Cons pg by (simp add: load64_def pte_at_def kalloc_eq [OF W(3,2)] grow_tree_def)
      moreover have "tree_ext pt s ?t"
        using grow_tree_wf [OF W(1,2) Cons ok xp None] grow_tree_mem_frame [OF W(1,2) Cons ok xp None]
          W(3) Cons by (auto simp: tree_ext_def pt_ready_def)
      moreover have "node ?t pt (xs @ [?i]) = Some pg"
        by (rule grow_tree_wf(3) [OF W(1,2) Cons ok xp None])
      ultimately show ?thesis by blast
    qed
  qed
qed

lemma tree_ext_ready: "tree_ext pt s t \<Longrightarrow> pt_ready t pt"
  by (simp add: tree_ext_def)

lemma walk_alloc:
  assumes R: "pt_ready s pt" and va: "va < MAXVA"
  shows "\<exists>r t. walk pt va True s = Ok r t \<and> tree_ext pt s t \<and>
     (case r of None \<Rightarrow> freelist t = []
      | Some a \<Rightarrow> \<exists>p. node t pt [PX 2 va, PX 1 va] = Some p \<and> a = p + 8 * PX 0 va)"
proof -
  have w: "walk pt va True s = walk_from (Suc (Suc 0)) pt va True s"
    unfolding walk_def using va by (auto simp: numeral_2_eq_2 simp del: walk_from.simps)
  from walk_from_step [OF R, of "[]" pt "Suc 0" va]
  consider q t where "walk pt va True s = walk_from (Suc 0) q va True t" "tree_ext pt s t"
      "node t pt [PX 2 va] = Some q"
    | "walk pt va True s = Ok None s" "freelist s = []"
    unfolding w by (auto simp: PX_less path_ok_def numeral_2_eq_2 simp del: walk_from.simps)
  then show ?thesis
  proof cases
    case (1 q t)
    note t = 1
    from walk_from_step [OF tree_ext_ready [OF t(2)] t(3), of 0 va]
    consider q' u where "walk_from (Suc 0) q va True t = walk_from 0 q' va True u" "tree_ext pt t u"
        "node u pt [PX 2 va, PX 1 va] = Some q'"
      | "walk_from (Suc 0) q va True t = Ok None t" "freelist t = []"
      by (auto simp: PX_less path_ok_def simp del: walk_from.simps node.simps)
    then show ?thesis
    proof cases
      case (1 q' u)
      then have "walk pt va True s = Ok (Some (q' + 8 * PX 0 va)) u"
        using t(1) by (simp add: pte_at_def)
      with 1 tree_ext_trans [OF t(2)] show ?thesis by fastforce
    next
      case 2
      with t show ?thesis by force
    qed
  next
    case 2
    with tree_ext_refl [OF R] show ?thesis by force
  qed
qed

section \<open>Writing a leaf entry\<close>

lemma store_leaf_node:
  assumes W: "pt_wf s pt" and p: "node s pt [PX 2 va, PX 1 va] = Some p" and ys: "path_ok ys"
  shows "node (store64 (p + 8 * PX 0 va) e s) pt ys = node s pt ys"
  using ys
proof (induction ys rule: rev_induct)
  case Nil
  then show ?case by simp
next
  case (snoc j zs)
  then have zj: "path_ok zs" "length zs < 2" "j < 512" by auto
  show ?case
  proof (cases "node s pt zs")
    case None
    then show ?thesis using snoc.IH zj(1) by (simp add: node_snoc)
  next
    case (Some q)
    have "q \<noteq> p" using pt_wf_inj [OF W zj(1) PX_path_ok(3) Some] p zj(2) by auto
    then have "q + 8 * j \<noteq> p + 8 * PX 0 va"
      using entry_inj [OF page_ok_mod [OF pt_wf_page [OF W zj(1) Some]]
          page_ok_mod [OF pt_wf_page [OF W PX_path_ok(3) p]] zj(3) PX_less] by blast
    then show ?thesis using snoc.IH zj(1) Some by (simp add: node_snoc child_def store64_def)
  qed
qed

lemma store_leaf_mem_frame:
  assumes W: "pt_wf s pt" and p: "node s pt [PX 2 va, PX 1 va] = Some p"
  shows "mem_frame pt s (store64 (p + 8 * PX 0 va) e s)"
proof -
  have r: "(p + 8 * PX 0 va) AND NOT (PGSIZE - 1) = p"
    by (rule page_round [OF page_ok_mod [OF pt_wf_page [OF W PX_path_ok(3) p]] PX_less])
  have "tree_pages (store64 (p + 8 * PX 0 va) e s) pt = tree_pages s pt"
    unfolding tree_pages_def using store_leaf_node [OF W p] by auto
  then show ?thesis
    using r tree_pagesI [OF PX_path_ok(3) p] by (auto simp: mem_frame_def store64_def)
qed

lemma store_leaf:
  assumes R: "pt_ready s pt" and p: "node s pt [PX 2 va, PX 1 va] = Some p"
    and va: "va < MAXVA" "va mod PGSIZE = 0"
  shows "pt_ready (store64 (p + 8 * PX 0 va) e s) pt"
    and "v < MAXVA \<Longrightarrow> v mod PGSIZE = 0 \<Longrightarrow> lookup (store64 (p + 8 * PX 0 va) e s) pt v =
       (if v = va then (if e AND PTE_V \<noteq> 0 then Some e else None) else lookup s pt v)"
proof -
  let ?t = "store64 (p + 8 * PX 0 va) e s"
  have W: "pt_wf s pt" "kmem_wf s" using R by (simp_all add: pt_ready_def)
  note N = store_leaf_node [OF W(1) p, of _ e]
  have "page_ok ?t = page_ok s" "freelist ?t = freelist s"
    by (simp_all add: store64_def page_ok_def fun_eq_iff)
  then have "pt_wf ?t pt" using W(1) unfolding pt_wf_def by (metis N)
  then show "pt_ready ?t pt"
    using R by (simp add: pt_ready_def kmem_wf_def store64_def page_ok_def)
  assume v: "v < MAXVA" "v mod PGSIZE = 0"
  show "lookup ?t pt v =
       (if v = va then (if e AND PTE_V \<noteq> 0 then Some e else None) else lookup s pt v)"
  proof (cases "node s pt [PX 2 v, PX 1 v]")
    case None
    then have "v \<noteq> va" using p by auto
    then show ?thesis unfolding lookup_def N [OF PX_path_ok(3)] None by simp
  next
    case (Some q)
    have "q + 8 * PX 0 v = p + 8 * PX 0 va \<longleftrightarrow> v = va"
    proof
      assume "q + 8 * PX 0 v = p + 8 * PX 0 va"
      then have e: "q = p" "PX 0 v = PX 0 va"
        using entry_inj [OF page_ok_mod [OF pt_wf_page [OF W(1) PX_path_ok(3) Some]]
          page_ok_mod [OF pt_wf_page [OF W(1) PX_path_ok(3) p]] PX_less PX_less] by auto
      then have "[PX 2 v, PX 1 v] = [PX 2 va, PX 1 va]"
        using pt_wf_inj [OF W(1) PX_path_ok(3) PX_path_ok(3) Some] p by blast
      then show "v = va" using PX_inj [OF v(1) va(1) v(2) va(2)] e(2) by simp
    qed (use p Some in auto)
    then show ?thesis
      unfolding lookup_def N [OF PX_path_ok(3)] Some by (auto simp: store64_def)
  qed
qed

section \<open>mappages\<close>

lemma page_step:
  assumes "a mod PGSIZE = 0" and "unat a + 4096 < 2 ^ 64"
  shows "unat (a + PGSIZE) = unat a + 4096" "(a + PGSIZE) mod PGSIZE = 0" "a < a + PGSIZE"
    and "v mod PGSIZE = 0 \<Longrightarrow> a \<le> v \<longleftrightarrow> v = a \<or> a + PGSIZE \<le> v"
proof -
  show u: "unat (a + PGSIZE) = unat a + 4096"
    using assms(2) by (simp add: PGSIZE_def unat_word_ariths)
  show "(a + PGSIZE) mod PGSIZE = 0" using assms(1) unfolding mod_PGSIZE_iff u by simp
  show l: "a < a + PGSIZE" using u by (simp add: word_less_nat_alt)
  show "a \<le> v \<longleftrightarrow> v = a \<or> a + PGSIZE \<le> v" if "v mod PGSIZE = 0"
  proof
    assume "a \<le> v"
    show "v = a \<or> a + PGSIZE \<le> v"
    proof (cases "v = a")
      case False
      with \<open>a \<le> v\<close> have "unat a < unat v" by (simp add: word_less_nat_alt [symmetric])
      then have "unat a + 4096 \<le> unat v"
        by (intro aligned_less_step) (use assms(1) that in \<open>simp_all only: mod_PGSIZE_iff\<close>)
      then show ?thesis using u by (simp add: word_le_nat_alt)
    qed simp
  qed (use l in auto)
qed

lemma PTE_V_pte: "(PA2PTE pa OR perm OR PTE_V) AND PTE_V \<noteq> 0"
  using PTE_V_set [of "PA2PTE pa OR perm"] by (simp only: or.assoc not_False_eq_True)

text \<open>What an operation on a page table leaves alone.\<close>

definition vm_frame :: "'x kmem_scheme \<Rightarrow> 'x kmem_scheme \<Rightarrow> bool" where
  "vm_frame s t \<longleftrightarrow> held t = held s \<and> kend t = kend s \<and> curproc t = curproc s \<and>
     kmem.more t = kmem.more s \<and> set (freelist t) \<subseteq> set (freelist s)"

lemma vm_frame_trans: "vm_frame s t \<Longrightarrow> vm_frame t u \<Longrightarrow> vm_frame s u"
  by (auto simp: vm_frame_def)

lemma tree_ext_frame: "tree_ext pt s t \<Longrightarrow> vm_frame s t"
  by (simp add: tree_ext_def vm_frame_def)

lemma store64_frame: "vm_frame s t \<Longrightarrow> vm_frame s (store64 a e t)"
  by (simp add: vm_frame_def store64_def)

lemma map_step:
  assumes R: "pt_ready s pt" and a: "a < MAXVA" "a mod PGSIZE = 0" and none: "lookup s pt a = None"
  shows "(\<exists>t. walk pt a True s = Ok None t \<and> tree_ext pt s t \<and> freelist t = []) \<or>
     (\<exists>pte t. walk pt a True s = Ok (Some pte) t \<and> load64 pte t AND PTE_V = 0 \<and> vm_frame s t \<and>
        (\<forall>e. e AND PTE_V \<noteq> 0 \<longrightarrow> pt_ready (store64 pte e t) pt \<and> mem_frame pt s (store64 pte e t) \<and>
           (\<forall>v. v < MAXVA \<longrightarrow> v mod PGSIZE = 0 \<longrightarrow>
              lookup (store64 pte e t) pt v = (if v = a then Some e else lookup s pt v))))"
proof -
  from walk_alloc [OF R a(1)] obtain r t where w: "walk pt a True s = Ok r t" "tree_ext pt s t"
    "case r of None \<Rightarrow> freelist t = []
     | Some x \<Rightarrow> \<exists>p. node t pt [PX 2 a, PX 1 a] = Some p \<and> x = p + 8 * PX 0 a" by blast
  show ?thesis
  proof (cases r)
    case None
    with w show ?thesis by auto
  next
    case (Some x)
    with w(3) obtain p where p: "node t pt [PX 2 a, PX 1 a] = Some p" "x = p + 8 * PX 0 a" by auto
    have l: "lookup t pt v = lookup s pt v" for v using w(2) by (simp add: tree_ext_def)
    have "load64 x t AND PTE_V = 0"
      using none l [of a] p by (auto simp: lookup_def Let_def load64_def simp del: node.simps split: if_splits)
    moreover have "pt_ready (store64 x e t) pt \<and> mem_frame pt s (store64 x e t) \<and> (\<forall>v. v < MAXVA \<longrightarrow> v mod PGSIZE = 0 \<longrightarrow>
        lookup (store64 x e t) pt v = (if v = a then Some e else lookup s pt v))"
      if "e AND PTE_V \<noteq> 0" for e
      using store_leaf(1) [OF tree_ext_ready [OF w(2)] p(1) a, of e]
        store_leaf(2) [OF tree_ext_ready [OF w(2)] p(1) a, where e = e]
        mem_frame_trans [OF _ store_leaf_mem_frame [OF _ p(1)], of s e] w(2) that l p(2)
      by (auto simp: tree_ext_def pt_ready_def)
    ultimately show ?thesis using w Some tree_ext_frame [OF w(2)] by auto
  qed
qed

text \<open>
  The outcome of mapping the pages \<open>a\<close> to \<open>lst\<close>: nothing else changes, and either all of them
  are mapped or the allocator ran out of pages.
\<close>

definition maps_to ::
  "u64 \<Rightarrow> u64 \<Rightarrow> u64 \<Rightarrow> u64 \<Rightarrow> u64 \<Rightarrow> 'x kmem_scheme \<Rightarrow> int \<Rightarrow> 'x kmem_scheme \<Rightarrow> bool" where
  "maps_to pt a lst pa perm s r t \<longleftrightarrow> pt_ready t pt \<and> vm_frame s t \<and> mem_frame pt s t \<and>
     (\<forall>v. v mod PGSIZE = 0 \<longrightarrow> v < MAXVA \<longrightarrow> \<not> (a \<le> v \<and> v \<le> lst) \<longrightarrow>
        lookup t pt v = lookup s pt v) \<and>
     (r = 0 \<and> (\<forall>v. v mod PGSIZE = 0 \<longrightarrow> a \<le> v \<longrightarrow> v \<le> lst \<longrightarrow>
        lookup t pt v = Some (PA2PTE (pa + (v - a)) OR perm OR PTE_V)) \<or> r = -1 \<and> freelist t = [])"

lemma maps_toD:
  assumes "maps_to pt a lst pa perm s r t"
  shows "pt_ready t pt" "vm_frame s t" "mem_frame pt s t" "r = 0 \<or> r = -1 \<and> freelist t = []"
    "v mod PGSIZE = 0 \<Longrightarrow> v < MAXVA \<Longrightarrow> \<not> (a \<le> v \<and> v \<le> lst) \<Longrightarrow> lookup t pt v = lookup s pt v"
    "r = 0 \<Longrightarrow> v mod PGSIZE = 0 \<Longrightarrow> a \<le> v \<Longrightarrow> v \<le> lst \<Longrightarrow>
       lookup t pt v = Some (PA2PTE (pa + (v - a)) OR perm OR PTE_V)"
  using assms unfolding maps_to_def by auto

lemma maps_toI:
  assumes "pt_ready t pt" "vm_frame s t" "mem_frame pt s t" "r = 0 \<or> r = -1 \<and> freelist t = []"
    "\<And>v. v mod PGSIZE = 0 \<Longrightarrow> v < MAXVA \<Longrightarrow> \<not> (a \<le> v \<and> v \<le> lst) \<Longrightarrow> lookup t pt v = lookup s pt v"
    "\<And>v. r = 0 \<Longrightarrow> v mod PGSIZE = 0 \<Longrightarrow> a \<le> v \<Longrightarrow> v \<le> lst \<Longrightarrow>
       lookup t pt v = Some (PA2PTE (pa + (v - a)) OR perm OR PTE_V)"
  shows "maps_to pt a lst pa perm s r t"
  using assms unfolding maps_to_def by (auto del: mod_0_imp_dvd)

lemma maps_to_nomem: "tree_ext pt s t \<Longrightarrow> freelist t = [] \<Longrightarrow> maps_to pt a lst pa perm s (-1) t"
  by (simp add: maps_to_def tree_ext_def vm_frame_def)

lemma mappages_from_spec:
  assumes "pt_ready s pt" "a mod PGSIZE = 0" "unat a + n * 4096 < 2 ^ 38"
    and "\<And>v. v mod PGSIZE = 0 \<Longrightarrow> a \<le> v \<Longrightarrow> v \<le> a + of_nat n * PGSIZE \<Longrightarrow> lookup s pt v = None"
  shows "\<exists>r t. mappages_from pt a (a + of_nat n * PGSIZE) pa perm s = Ok r t \<and>
     maps_to pt a (a + of_nat n * PGSIZE) pa perm s r t"
  using assms
proof (induction n arbitrary: a pa s)
  case (0 a pa s)
  have am: "a < MAXVA" using "0.prems"(3) by (simp add: MAXVA_def word_less_nat_alt)
  have "lookup s pt a = None" using "0.prems"(4) [of a] "0.prems"(2) by simp
  from map_step [OF "0.prems"(1) am "0.prems"(2) this]
  show ?case
  proof (elim disjE exE conjE)
    fix t assume "walk pt a True s = Ok None t" "tree_ext pt s t" "freelist t = []"
    then show ?thesis
      by (auto simp: mappages_from.simps [of pt a] intro: maps_to_nomem)
  next
    fix pte t
    let ?e = "PA2PTE pa OR perm OR PTE_V"
    assume w: "walk pt a True s = Ok (Some pte) t" "load64 pte t AND PTE_V = 0" "vm_frame s t"
      and l: "\<forall>e. e AND PTE_V \<noteq> 0 \<longrightarrow> pt_ready (store64 pte e t) pt \<and> mem_frame pt s (store64 pte e t) \<and>
        (\<forall>v. v < MAXVA \<longrightarrow> v mod PGSIZE = 0 \<longrightarrow>
           lookup (store64 pte e t) pt v = (if v = a then Some e else lookup s pt v))"
    from l have e: "pt_ready (store64 pte ?e t) pt"
      "mem_frame pt s (store64 pte ?e t)"
      "\<And>v. v < MAXVA \<Longrightarrow> v mod PGSIZE = 0 \<Longrightarrow>
           lookup (store64 pte ?e t) pt v = (if v = a then Some ?e else lookup s pt v)"
      using mp [OF spec [OF l] PTE_V_pte [of pa perm]] by simp_all
    have m: "mappages_from pt a (a + of_nat 0 * PGSIZE) pa perm s = Ok 0 (store64 pte ?e t)"
      using w(1,2) by (subst mappages_from.simps) simp
    have out: "lookup (store64 pte ?e t) pt v = lookup s pt v"
      if "v mod PGSIZE = 0" "v < MAXVA" "\<not> (a \<le> v \<and> v \<le> a + of_nat 0 * PGSIZE)" for v
    proof -
      have "v \<noteq> a" using that(3) by auto
      then show ?thesis using e(3) that(1,2) by simp
    qed
    have ina: "lookup (store64 pte ?e t) pt v = Some (PA2PTE (pa + (v - a)) OR perm OR PTE_V)"
      if "a \<le> v" "v \<le> a + of_nat 0 * PGSIZE" for v
    proof -
      have "v = a" using that by simp
      then show ?thesis using e(3) am "0.prems"(2) by simp
    qed
    have "maps_to pt a (a + of_nat 0 * PGSIZE) pa perm s 0 (store64 pte ?e t)"
      by (rule maps_toI [OF e(1) store64_frame [OF w(3)] e(2)]) (use out ina in \<open>auto del: mod_0_imp_dvd\<close>)
    with m show ?thesis by blast
  qed
next
  case (Suc n a pa s)
  let ?b = "a + PGSIZE" and ?lst = "a + of_nat (Suc n) * PGSIZE"
  have am: "a < MAXVA" using Suc.prems(3) by (simp add: MAXVA_def word_less_nat_alt)
  have lst: "?lst = ?b + of_nat n * PGSIZE" by (simp add: algebra_simps)
  have b: "unat ?b = unat a + 4096" "?b mod PGSIZE = 0" "a < ?b"
    "\<And>v. v mod PGSIZE = 0 \<Longrightarrow> a \<le> v \<longleftrightarrow> v = a \<or> ?b \<le> v"
    using page_step [OF Suc.prems(2)] Suc.prems(3) by auto
  have ub: "unat ?b + n * 4096 < 2 ^ 38" using b(1) Suc.prems(3) by simp
  have ul: "unat ?lst = unat ?b + n * 4096"
    unfolding lst using ub by (simp add: PGSIZE_def unat_word_ariths unat_of_nat)
  have bl: "?b \<le> ?lst" using ul by (simp add: word_le_nat_alt)
  then have al: "a \<le> ?lst" "a \<noteq> ?lst" using b(3) by auto
  have "lookup s pt a = None" by (rule Suc.prems(4)) (use al Suc.prems(2) in auto)
  from map_step [OF Suc.prems(1) am Suc.prems(2) this]
  show ?case
  proof (elim disjE exE conjE)
    fix t assume "walk pt a True s = Ok None t" "tree_ext pt s t" "freelist t = []"
    then show ?thesis
      by (auto simp: mappages_from.simps [of pt a] intro: maps_to_nomem)
  next
    fix pte t
    let ?e = "PA2PTE pa OR perm OR PTE_V"
    assume w: "walk pt a True s = Ok (Some pte) t" "load64 pte t AND PTE_V = 0" "vm_frame s t"
      and l: "\<forall>e. e AND PTE_V \<noteq> 0 \<longrightarrow> pt_ready (store64 pte e t) pt \<and> mem_frame pt s (store64 pte e t) \<and>
        (\<forall>v. v < MAXVA \<longrightarrow> v mod PGSIZE = 0 \<longrightarrow>
           lookup (store64 pte e t) pt v = (if v = a then Some e else lookup s pt v))"
    let ?u = "store64 pte ?e t"
    from l have e: "pt_ready ?u pt" "mem_frame pt s ?u"
      "\<And>v. v < MAXVA \<Longrightarrow> v mod PGSIZE = 0 \<Longrightarrow>
           lookup ?u pt v = (if v = a then Some ?e else lookup s pt v)"
      using mp [OF spec [OF l] PTE_V_pte [of pa perm]] by simp_all
    have lM: "?lst < MAXVA" using ul ub by (simp add: MAXVA_def word_less_nat_alt)
    have none: "lookup ?u pt v = None" if "v mod PGSIZE = 0" "?b \<le> v" "v \<le> ?b + of_nat n * PGSIZE" for v
    proof -
      have "v < MAXVA" using that(3) lM unfolding lst by simp
      moreover have "v \<noteq> a" using that(2) b(3) by auto
      moreover have "lookup s pt v = None"
        using Suc.prems(4) [OF that(1)] that b(3) unfolding lst by auto
      ultimately show ?thesis using e(3) that(1) by simp
    qed
    have "\<exists>r x. mappages_from pt ?b (?b + of_nat n * PGSIZE) (pa + PGSIZE) perm ?u = Ok r x \<and>
        maps_to pt ?b (?b + of_nat n * PGSIZE) (pa + PGSIZE) perm ?u r x"
      by (rule Suc.IH [OF e(1) b(2) ub]) (rule none)
    then obtain r x where mx: "mappages_from pt ?b (?b + of_nat n * PGSIZE) (pa + PGSIZE) perm ?u = Ok r x"
      "maps_to pt ?b ?lst (pa + PGSIZE) perm ?u r x" unfolding lst by blast
    note x = maps_toD [OF mx(2)]
    have m: "mappages_from pt a ?lst pa perm s = Ok r x"
      using w al(2) mx(1) by (subst mappages_from.simps) (simp add: lst [symmetric])
    have out: "lookup x pt v = lookup s pt v"
      if "v mod PGSIZE = 0" "v < MAXVA" "\<not> (a \<le> v \<and> v \<le> ?lst)" for v
    proof -
      have "v \<noteq> a" "\<not> (?b \<le> v \<and> v \<le> ?lst)" using that(3) al b(3) by auto
      then show ?thesis using x(5) [OF that(1,2)] e(3) [OF that(2,1)] by simp
    qed
    have ina: "lookup x pt a = Some ?e"
    proof -
      have "\<not> (?b \<le> a \<and> a \<le> ?lst)" using b(3) by auto
      then show ?thesis using x(5) [OF Suc.prems(2) am] e(3) [OF am Suc.prems(2)] by simp
    qed
    have pav: "pa + PGSIZE + (v - ?b) = pa + (v - a)" for v by simp
    have inr: "lookup x pt v = Some (PA2PTE (pa + (v - a)) OR perm OR PTE_V)"
      if "r = 0" "v mod PGSIZE = 0" "a \<le> v" "v \<le> ?lst" for v
    proof (cases "v = a")
      case True
      then show ?thesis using ina by simp
    next
      case False
      then have "?b \<le> v" using b(4) [OF that(2)] that(3) by blast
      then show ?thesis using x(6) [OF that(1,2) _ that(4)] pav by simp
    qed
    have "maps_to pt a ?lst pa perm s r x"
      by (rule maps_toI [OF x(1) vm_frame_trans [OF store64_frame [OF w(3)] x(2)] mem_frame_trans [OF e(2) x(3)] x(4)])
        (use out inr in \<open>auto del: mod_0_imp_dvd\<close>)
    with m show ?thesis by blast
  qed
qed

section \<open>uvmunmap\<close>

text \<open>Memory that agrees on the pages of the tree gives the same tree.\<close>

lemma tree_agree:
  assumes A: "\<And>xs p i. path_ok xs \<Longrightarrow> node s pt xs = Some p \<Longrightarrow> i < 512 \<Longrightarrow> mem t (p + 8 * i) = mem s (p + 8 * i)"
  shows "path_ok ys \<Longrightarrow> node t pt ys = node s pt ys" and "lookup t pt v = lookup s pt v"
proof -
  show N: "node t pt ys = node s pt ys" if "path_ok ys" for ys
    using that
  proof (induction ys rule: rev_induct)
    case Nil
    then show ?case by simp
  next
    case (snoc j zs)
    then have zj: "path_ok zs" "j < 512" by auto
    then show ?case
      using snoc.IH A [OF zj(1) _ zj(2)] by (cases "node s pt zs") (auto simp: node_snoc child_def)
  qed
  show "lookup t pt v = lookup s pt v"
    unfolding lookup_def N [OF PX_path_ok(3)]
    using A [OF PX_path_ok(3) _ PX_less] by (cases "node s pt [PX 2 v, PX 1 v]") (auto simp del: node.simps)
qed

text \<open>
  The user pages of a range: mapped to allocated pages, none of them a page of the tree, no
  page mapped twice.
\<close>

definition user_pages :: "'x kmem_scheme \<Rightarrow> u64 \<Rightarrow> u64 \<Rightarrow> u64 \<Rightarrow> u64 set" where
  "user_pages s pt lo hi =
     {pa. \<exists>v pte. v mod PGSIZE = 0 \<and> lo \<le> v \<and> v < hi \<and> lookup s pt v = Some pte \<and> pa = PTE2PA pte}"

definition user_wf :: "'x kmem_scheme \<Rightarrow> u64 \<Rightarrow> u64 \<Rightarrow> u64 \<Rightarrow> bool" where
  "user_wf s pt lo hi \<longleftrightarrow>
     (\<forall>pa \<in> user_pages s pt lo hi. page_ok s pa \<and> pa \<notin> set (freelist s) \<and>
        (\<forall>xs. path_ok xs \<longrightarrow> node s pt xs \<noteq> Some pa)) \<and>
     (\<forall>v w e f. v mod PGSIZE = 0 \<longrightarrow> w mod PGSIZE = 0 \<longrightarrow> lo \<le> v \<longrightarrow> v < hi \<longrightarrow> lo \<le> w \<longrightarrow> w < hi \<longrightarrow>
        lookup s pt v = Some e \<longrightarrow> lookup s pt w = Some f \<longrightarrow> PTE2PA e = PTE2PA f \<longrightarrow> v = w)"

lemma user_pagesI:
  "v mod PGSIZE = 0 \<Longrightarrow> lo \<le> v \<Longrightarrow> v < hi \<Longrightarrow> lookup s pt v = Some pte \<Longrightarrow> PTE2PA pte \<in> user_pages s pt lo hi"
  by (auto simp: user_pages_def del: mod_0_imp_dvd)

lemma user_wf_inj:
  "user_wf s pt lo hi \<Longrightarrow> v mod PGSIZE = 0 \<Longrightarrow> w mod PGSIZE = 0 \<Longrightarrow> lo \<le> v \<Longrightarrow> v < hi \<Longrightarrow> lo \<le> w \<Longrightarrow>
   w < hi \<Longrightarrow> lookup s pt v = Some e \<Longrightarrow> lookup s pt w = Some f \<Longrightarrow> PTE2PA e = PTE2PA f \<Longrightarrow> v = w"
  unfolding user_wf_def by (blast del: mod_0_imp_dvd)

lemma user_wf_page:
  assumes "user_wf s pt lo hi" "pa \<in> user_pages s pt lo hi"
  shows "page_ok s pa" "pa \<notin> set (freelist s)" "path_ok xs \<Longrightarrow> node s pt xs \<noteq> Some pa"
  using assms unfolding user_wf_def by blast+

text \<open>Freeing a page outside the tree leaves the tree alone.\<close>

lemma kfree_tree:
  assumes R: "pt_ready s pt" and pa: "page_ok s pa" "pa \<notin> set (freelist s)"
    and out: "\<And>xs. path_ok xs \<Longrightarrow> node s pt xs \<noteq> Some pa"
  shows "\<exists>t. kfree pa s = Ok () t \<and> pt_ready t pt \<and> held t = held s \<and> page_ok t = page_ok s \<and>
     freelist t = pa # freelist s \<and> (\<forall>xs. path_ok xs \<longrightarrow> node t pt xs = node s pt xs) \<and>
     (\<forall>v. lookup t pt v = lookup s pt v)"
proof -
  let ?t = "(memset_page pa 1 s)\<lparr>freelist := pa # freelist s\<rparr>"
  have W: "pt_wf s pt" "kmem_wf s" "KmemLock \<notin> set (held s)" using R by (simp_all add: pt_ready_def)
  have A: "mem ?t (p + 8 * i) = mem s (p + 8 * i)"
    if "path_ok xs" "node s pt xs = Some p" "i < 512" for xs p i
    using page_round [OF page_ok_mod [OF pt_wf_page [OF W(1) that(1,2)]] that(3)] out [OF that(1)] that(2)
    by (auto simp: memset_page_def)
  have N: "node ?t pt xs = node s pt xs" if "path_ok xs" for xs
    by (rule tree_agree(1) [OF A that])
  have L: "lookup ?t pt v = lookup s pt v" for v by (rule tree_agree(2) [OF A])
  have po: "page_ok ?t = page_ok s" by (simp add: page_ok_def fun_eq_iff)
  have "pt_wf ?t pt"
    unfolding pt_wf_def po
    using N W(1) out by (auto simp: pt_wf_def)
  moreover have "kmem_wf ?t" using W(2) pa po by (simp add: kmem_wf_def)
  ultimately have "pt_ready ?t pt" using W(3) by (simp add: pt_ready_def)
  moreover have "kfree pa s = Ok () ?t" using kfree_eq [OF W(3)] pa(1) by simp
  ultimately show ?thesis using N L po by auto
qed

lemma uvmunmap_skip:
  assumes "a < hi" "a < MAXVA" "lookup s pt a = None"
  shows "uvmunmap_from pt a hi do_free s = uvmunmap_from pt (a + PGSIZE) hi do_free s"
proof (cases "node s pt [PX 2 a, PX 1 a]")
  case None
  then show ?thesis using assms by (simp add: uvmunmap_from.simps [of pt a] walk_noalloc not_le [symmetric] del: node.simps)
next
  case (Some p)
  then have "mem s (p + 8 * PX 0 a) AND PTE_V = 0"
    using assms(3) by (auto simp: lookup_def Let_def simp del: node.simps split: if_splits)
  then show ?thesis using assms(1,2) Some
    by (simp add: uvmunmap_from.simps [of pt a] walk_noalloc not_le [symmetric] load64_def del: node.simps)
qed

text \<open>One mapped page: it is freed and its entry cleared.\<close>

lemma uvmunmap_hit:
  assumes R: "pt_ready s pt" and a: "a < hi" "a < MAXVA" "a mod PGSIZE = 0"
    and l: "lookup s pt a = Some pte" and pa: "page_ok s (PTE2PA pte)" "PTE2PA pte \<notin> set (freelist s)"
    and out: "\<And>xs. path_ok xs \<Longrightarrow> node s pt xs \<noteq> Some (PTE2PA pte)"
  shows "\<exists>t. uvmunmap_from pt a hi True s = uvmunmap_from pt (a + PGSIZE) hi True t \<and> pt_ready t pt \<and>
     held t = held s \<and> page_ok t = page_ok s \<and> freelist t = PTE2PA pte # freelist s \<and>
     (\<forall>xs. path_ok xs \<longrightarrow> node t pt xs = node s pt xs) \<and>
     (\<forall>v. v mod PGSIZE = 0 \<longrightarrow> v < MAXVA \<longrightarrow> lookup t pt v = (if v = a then None else lookup s pt v))"
proof -
  from l obtain p where p: "node s pt [PX 2 a, PX 1 a] = Some p" "pte = mem s (p + 8 * PX 0 a)" "pte AND PTE_V \<noteq> 0"
    by (auto simp: lookup_def Let_def simp del: node.simps split: bind_splits if_splits)
  obtain u where u: "kfree (PTE2PA pte) s = Ok () u" "pt_ready u pt" "held u = held s" "page_ok u = page_ok s"
    "freelist u = PTE2PA pte # freelist s" "\<forall>xs. path_ok xs \<longrightarrow> node u pt xs = node s pt xs"
    "\<forall>v. lookup u pt v = lookup s pt v"
    using kfree_tree [OF R pa out] by blast
  let ?t = "store64 (p + 8 * PX 0 a) 0 u"
  have pu: "node u pt [PX 2 a, PX 1 a] = Some p" using u(6) p(1) PX_path_ok(3) by metis
  have "uvmunmap_from pt a hi True s = uvmunmap_from pt (a + PGSIZE) hi True ?t"
    using a p u(1) by (subst uvmunmap_from.simps)
      (simp add: walk_noalloc not_le [symmetric] load64_def del: node.simps)
  moreover have "pt_ready ?t pt" by (rule store_leaf(1) [OF u(2) pu a(2,3)])
  moreover have "held ?t = held s" "page_ok ?t = page_ok s" "freelist ?t = PTE2PA pte # freelist s"
    using u(3,4,5) by (simp_all add: store64_def page_ok_def fun_eq_iff)
  moreover have "node ?t pt xs = node s pt xs" if "path_ok xs" for xs
    using store_leaf_node [OF _ pu that] u(2,6) that by (simp add: pt_ready_def)
  moreover have "lookup ?t pt v = (if v = a then None else lookup s pt v)"
    if "v mod PGSIZE = 0" "v < MAXVA" for v
    using store_leaf(2) [OF u(2) pu a(2,3) that(2,1), of 0] u(7) by simp
  ultimately show ?thesis by blast
qed

lemma user_pages_split:
  assumes "a mod PGSIZE = 0" "a < hi" "unat a + 4096 < 2 ^ 64"
  shows "user_pages s pt a hi =
     (case lookup s pt a of None \<Rightarrow> {} | Some pte \<Rightarrow> {PTE2PA pte}) \<union> user_pages s pt (a + PGSIZE) hi"
proof -
  note st = page_step [OF assms(1,3)]
  have iff: "a \<le> v \<and> v < hi \<longleftrightarrow> v = a \<or> a + PGSIZE \<le> v \<and> v < hi" if "v mod PGSIZE = 0" for v
    using st(4) [OF that] assms(2) by auto
  have "user_pages s pt a hi = {pa. \<exists>v pte. v mod PGSIZE = 0 \<and> (v = a \<or> a + PGSIZE \<le> v \<and> v < hi) \<and>
      lookup s pt v = Some pte \<and> pa = PTE2PA pte}"
    unfolding user_pages_def using iff by (blast del: mod_0_imp_dvd)
  then show ?thesis
    using assms(1) unfolding user_pages_def by (auto del: mod_0_imp_dvd split: option.splits)
qed

lemma user_pages_cong:
  assumes "\<And>v. v mod PGSIZE = 0 \<Longrightarrow> lo \<le> v \<Longrightarrow> v < hi \<Longrightarrow> lookup t pt v = lookup s pt v"
  shows "user_pages t pt lo hi = user_pages s pt lo hi"
  unfolding user_pages_def using assms by (metis (no_types, lifting))

lemma uvmunmap_from_spec:
  assumes "pt_ready s pt" "a mod PGSIZE = 0" "unat a + n * 4096 < 2 ^ 38"
    and "user_wf s pt a (a + of_nat n * PGSIZE)"
  shows "\<exists>t. uvmunmap_from pt a (a + of_nat n * PGSIZE) True s = Ok () t \<and> pt_ready t pt \<and>
     held t = held s \<and> page_ok t = page_ok s \<and>
     set (freelist t) = set (freelist s) \<union> user_pages s pt a (a + of_nat n * PGSIZE) \<and>
     (\<forall>v. v mod PGSIZE = 0 \<longrightarrow> v < MAXVA \<longrightarrow> lookup t pt v =
        (if a \<le> v \<and> v < a + of_nat n * PGSIZE then None else lookup s pt v))"
  using assms
proof (induction n arbitrary: a s)
  case (0 a s)
  then show ?case by (auto simp: uvmunmap_from.simps [of pt a] user_pages_def)
next
  case (Suc n a s)
  let ?b = "a + PGSIZE" and ?hi = "a + of_nat (Suc n) * PGSIZE"
  have am: "a < MAXVA" using Suc.prems(3) by (simp add: MAXVA_def word_less_nat_alt)
  have hi: "?hi = ?b + of_nat n * PGSIZE" by (simp add: algebra_simps)
  have a64: "unat a + 4096 < 2 ^ 64" using Suc.prems(3) by simp
  note b = page_step [OF Suc.prems(2) a64]
  have ub: "unat ?b + n * 4096 < 2 ^ 38" using b(1) Suc.prems(3) by simp
  have uh: "unat ?hi = unat ?b + n * 4096"
    unfolding hi using ub by (simp add: PGSIZE_def unat_word_ariths unat_of_nat)
  have ah: "a < ?hi" using uh b(1) by (simp add: word_less_nat_alt)
  have iff: "a \<le> v \<and> v < ?hi \<longleftrightarrow> v = a \<or> ?b \<le> v \<and> v < ?hi" if "v mod PGSIZE = 0" for v
    using b(4) [OF that] ah by auto
  have step: ?case
    if t: "uvmunmap_from pt a ?hi True s = uvmunmap_from pt ?b ?hi True t" "pt_ready t pt"
      "held t = held s" "page_ok t = page_ok s"
      "set (freelist t) = set (freelist s) \<union> (case lookup s pt a of None \<Rightarrow> {} | Some pte \<Rightarrow> {PTE2PA pte})"
      "\<And>xs. path_ok xs \<Longrightarrow> node t pt xs = node s pt xs"
      "\<And>v. v mod PGSIZE = 0 \<Longrightarrow> v < MAXVA \<Longrightarrow> lookup t pt v = (if v = a then None else lookup s pt v)" for t
  proof -
    have hM: "v < MAXVA" if "v < ?hi" for v
      using that uh ub by (simp add: MAXVA_def word_less_nat_alt)
    have leq: "lookup t pt v = lookup s pt v" if "v mod PGSIZE = 0" "?b \<le> v" "v < ?hi" for v
    proof -
      have "v \<noteq> a" using that(2) b(3) by auto
      then show ?thesis using t(7) [OF that(1) hM [OF that(3)]] by simp
    qed
    have up: "user_pages t pt ?b ?hi = user_pages s pt ?b ?hi" by (rule user_pages_cong [OF leq])
    have sub: "user_pages s pt ?b ?hi \<subseteq> user_pages s pt a ?hi"
      using user_pages_split [OF Suc.prems(2) ah a64] by blast
    have nl: "pa \<notin> (case lookup s pt a of None \<Rightarrow> {} | Some pte \<Rightarrow> {PTE2PA pte})"
      if "pa \<in> user_pages s pt ?b ?hi" for pa
    proof -
      from that obtain v pte where v: "v mod PGSIZE = 0" "?b \<le> v" "v < ?hi" "lookup s pt v = Some pte"
        "pa = PTE2PA pte" unfolding user_pages_def by (blast del: mod_0_imp_dvd)
      have "v \<noteq> a" "a \<le> v" using v(2) b(3) by auto
      then show ?thesis
        using user_wf_inj [OF Suc.prems(4) v(1) Suc.prems(2) _ v(3) order_refl ah v(4)] v(5)
        by (auto split: option.splits)
    qed
    have "user_wf t pt ?b ?hi"
      unfolding user_wf_def
    proof (intro conjI ballI allI impI)
      fix pa assume "pa \<in> user_pages t pt ?b ?hi"
      then have pa: "pa \<in> user_pages s pt ?b ?hi" "pa \<in> user_pages s pt a ?hi" using up sub by auto
      note w = user_wf_page [OF Suc.prems(4) pa(2)]
      show "page_ok t pa" using w(1) t(4) by simp
      show "pa \<notin> set (freelist t)" using w(2) nl [OF pa(1)] t(5) by auto
      show "node t pt xs \<noteq> Some pa" if "path_ok xs" for xs using w(3) [OF that] t(6) [OF that] by simp
    next
      fix v w e f
      assume v: "v mod PGSIZE = 0" "w mod PGSIZE = 0" "?b \<le> v" "v < ?hi" "?b \<le> w" "w < ?hi"
        "lookup t pt v = Some e" "lookup t pt w = Some f" "PTE2PA e = PTE2PA f"
      have "a \<le> v" "a \<le> w" using v(3,5) b(3) by auto
      then show "v = w"
        using user_wf_inj [OF Suc.prems(4) v(1,2) _ v(4) _ v(6) _ _ v(9)] leq v by simp
    qed
    from Suc.IH [OF t(2) b(2) ub, folded hi, OF this]
    obtain u where u: "uvmunmap_from pt ?b ?hi True t = Ok () u" "pt_ready u pt" "held u = held t"
      "page_ok u = page_ok t" "set (freelist u) = set (freelist t) \<union> user_pages t pt ?b ?hi"
      "\<forall>v. v mod PGSIZE = 0 \<longrightarrow> v < MAXVA \<longrightarrow>
         lookup u pt v = (if ?b \<le> v \<and> v < ?hi then None else lookup t pt v)" by blast
    have "set (freelist u) = set (freelist s) \<union> user_pages s pt a ?hi"
      unfolding u(5) up t(5) user_pages_split [OF Suc.prems(2) ah a64] by (simp only: Un_assoc)
    moreover have "lookup u pt v = (if a \<le> v \<and> v < ?hi then None else lookup s pt v)"
      if "v mod PGSIZE = 0" "v < MAXVA" for v
      using u(6) t(7) [OF that] iff [OF that(1)] that by auto
    ultimately show ?thesis using u(1-4) t(1,3,4) by auto
  qed
  show ?case
  proof (cases "lookup s pt a")
    case None
    show ?thesis
      by (rule step [of s]) (use None uvmunmap_skip [OF ah am None] Suc.prems(1) in auto)
  next
    case (Some pte)
    have up: "PTE2PA pte \<in> user_pages s pt a ?hi"
      by (rule user_pagesI [OF Suc.prems(2) order_refl ah Some])
    from uvmunmap_hit [OF Suc.prems(1) ah am Suc.prems(2) Some user_wf_page [OF Suc.prems(4) up]]
    obtain t where t: "uvmunmap_from pt a ?hi True s = uvmunmap_from pt ?b ?hi True t" "pt_ready t pt"
      "held t = held s" "page_ok t = page_ok s" "freelist t = PTE2PA pte # freelist s"
      "\<forall>xs. path_ok xs \<longrightarrow> node t pt xs = node s pt xs"
      "\<forall>v. v mod PGSIZE = 0 \<longrightarrow> v < MAXVA \<longrightarrow> lookup t pt v = (if v = a then None else lookup s pt v)"
      by blast
    show ?thesis
      by (rule step [OF t(1-4)]) (use t(5-7) Some in auto)
  qed
qed

section \<open>Properties\<close>

lemma walkaddr_lookup:
  "walkaddr pt va s = Ok (if MAXVA \<le> va then 0 else
     (case lookup s pt va of None \<Rightarrow> 0 | Some pte \<Rightarrow> if pte AND PTE_U = 0 then 0 else PTE2PA pte)) s"
  by (auto simp: walkaddr_def walk_noalloc lookup_def load64_def Let_def simp del: node.simps
      split: option.splits bind_splits)

text \<open>
  A concrete page table for the witnesses: the root at \<open>0x87FFD000\<close>, one page-table page at
  each of the lower levels, and the user page \<open>0x87FFA000\<close> mapped at address 0.
\<close>

definition kmem_pt :: kmem where
  "kmem_pt = kmem0\<lparr>mem := (\<lambda>_. 0)(0x87FFD000 := PA2PTE 0x87FFC000 OR PTE_V,
     0x87FFC000 := PA2PTE 0x87FFB000 OR PTE_V, 0x87FFB000 := PA2PTE 0x87FFA000 OR 0x17)\<rparr>"

lemma kmem_pt_child:
  assumes "p \<in> {0x87FFD000, 0x87FFC000, 0x87FFB000}" "i < 512"
  shows "child kmem_pt p i = (if i = 0 then Some (p - 0x1000) else None)"
proof -
  have p: "p mod PGSIZE = 0" using assms(1) by (auto simp: PGSIZE_def)
  have e: "p + 8 * i = q \<longleftrightarrow> p = q \<and> i = 0" if "q \<in> {0x87FFD000, 0x87FFC000, 0x87FFB000}" for q
    using entry_inj [OF p _ assms(2), of q 0] that by (auto simp: PGSIZE_def)
  show ?thesis
    using assms e [of "0x87FFD000"] e [of "0x87FFC000"] e [of "0x87FFB000"]
    by (auto simp: child_def kmem_pt_def pte_defs)
qed

lemma kmem_pt_node:
  assumes "path_ok xs"
  shows "node kmem_pt 0x87FFD000 xs = (if set xs \<subseteq> {0} then Some (0x87FFD000 - 0x1000 * of_nat (length xs)) else None)"
proof -
  consider "xs = []" | i where "xs = [i]" "i < 512" | i j where "xs = [i, j]" "i < 512" "j < 512"
  proof -
    have "length xs \<le> 2" using assms by (simp add: path_ok_def)
    then have "length xs = 0 \<or> length xs = Suc 0 \<or> length xs = Suc (Suc 0)" by arith
    then show ?thesis using that assms by (auto simp: path_ok_def length_Suc_conv)
  qed
  then show ?thesis by cases (auto simp: kmem_pt_child)
qed

lemma kmem_pt_ready: "pt_ready kmem_pt 0x87FFD000"
proof -
  have len: "xs = replicate (length xs) 0" if "set xs \<subseteq> {0}" for xs :: "u64 list"
    using that by (metis in_mono replicate_eqI singletonD)
  have l3: "length xs \<in> {0, 1, 2}" if "path_ok xs" for xs
  proof -
    have "length xs \<le> 2" using that by (simp add: path_ok_def)
    then have "length xs = 0 \<or> length xs = 1 \<or> length xs = 2" by arith
    then show ?thesis by simp
  qed
  have "pt_wf kmem_pt 0x87FFD000"
    unfolding pt_wf_def
  proof (intro conjI allI impI)
    fix xs p assume a: "path_ok xs" "node kmem_pt 0x87FFD000 xs = Some p"
    then have "p \<in> {0x87FFD000, 0x87FFC000, 0x87FFB000}"
      using l3 [OF a(1)] by (auto simp: kmem_pt_node split: if_splits)
    then show "page_ok kmem_pt p" "p \<notin> set (freelist kmem_pt)"
      by (auto simp: page_ok_def kmem_pt_def kmem0_def layout_defs)
  next
    fix xs ys p
    assume a: "path_ok xs" "path_ok ys" "node kmem_pt 0x87FFD000 xs = Some p" "node kmem_pt 0x87FFD000 ys = Some p"
    then have e: "set xs \<subseteq> {0}" "set ys \<subseteq> {0}"
      "0x1000 * of_nat (length xs) = (0x1000 * of_nat (length ys) :: u64)"
      by (auto simp: kmem_pt_node split: if_splits)
    then have "length xs = length ys" using l3 [OF a(1)] l3 [OF a(2)] by auto
    then show "xs = ys" using len [OF e(1)] len [OF e(2)] by metis
  qed
  then show ?thesis
    using kmem0_ready by (simp add: pt_ready_def kmem_ready_def kmem_wf_def kmem_pt_def page_ok_def)
qed

lemma kmem_pt_lookup: "lookup kmem_pt 0x87FFD000 v =
   (if PX 2 v = 0 \<and> PX 1 v = 0 \<and> PX 0 v = 0 then Some (PA2PTE 0x87FFA000 OR 0x17) else None)"
proof -
  have c: "child kmem_pt 0x87FFB000 (PX 0 v) = (if PX 0 v = 0 then Some 0x87FFA000 else None)"
    by (simp add: kmem_pt_child PX_less)
  then have "mem kmem_pt (0x87FFB000 + 8 * PX 0 v) AND PTE_V \<noteq> 0 \<longleftrightarrow> PX 0 v = 0"
    by (auto simp: child_def split: if_splits)
  then show ?thesis
    unfolding lookup_def kmem_pt_node [OF PX_path_ok(3)]
    by (auto simp: kmem_pt_def PTE_V_def)
qed

text \<open>
  C5. \<^verbatim>\<open>mappages\<close> is an update of the translation: on a page-table tree with no page of the
  range mapped, it never panics; on success every page of the range translates to the
  corresponding physical page with the given permissions, on failure the allocator is out of
  pages; either way the table stays a tree, no address outside the range is affected, and no
  memory is written but the pages of the table and free pages.
\<close>

theorem mappages_translates:
  assumes "pt_ready s pt" and "va mod PGSIZE = 0" and "unat va + n * 4096 < 2 ^ 38"
    and "\<And>v. v mod PGSIZE = 0 \<Longrightarrow> va \<le> v \<Longrightarrow> v \<le> va + of_nat n * PGSIZE \<Longrightarrow> lookup s pt v = None"
  shows "\<exists>r t. mappages pt va (of_nat (n + 1) * PGSIZE) pa perm s = Ok r t \<and> pt_ready t pt \<and>
     (\<forall>a. PGROUNDDOWN a \<notin> tree_pages s pt \<union> set (freelist s) \<longrightarrow> mem t a = mem s a) \<and>
     (\<forall>v. v mod PGSIZE = 0 \<longrightarrow> v < MAXVA \<longrightarrow> \<not> (va \<le> v \<and> v \<le> va + of_nat n * PGSIZE) \<longrightarrow>
        lookup t pt v = lookup s pt v) \<and>
     (r = 0 \<and> (\<forall>v. v mod PGSIZE = 0 \<longrightarrow> va \<le> v \<longrightarrow> v \<le> va + of_nat n * PGSIZE \<longrightarrow>
        lookup t pt v = Some (PA2PTE (pa + (v - va)) OR perm OR PTE_V)) \<or> r = -1 \<and> freelist t = [])"
proof -
  have sz: "unat (of_nat (n + 1) * PGSIZE :: u64) = (n + 1) * 4096"
    using assms(3) by (simp add: PGSIZE_def unat_word_ariths unat_of_nat)
  then have "of_nat (n + 1) * PGSIZE mod PGSIZE = (0 :: u64)" "of_nat (n + 1) * PGSIZE \<noteq> (0 :: u64)"
    unfolding mod_PGSIZE_iff by (simp_all add: word_unat_eq_iff del: of_nat_add)
  moreover have "va + of_nat (n + 1) * PGSIZE - PGSIZE = va + of_nat n * PGSIZE"
    by (simp add: algebra_simps)
  ultimately have "mappages pt va (of_nat (n + 1) * PGSIZE) pa perm s =
      mappages_from pt va (va + of_nat n * PGSIZE) pa perm s"
    using assms(2) by (simp add: mappages_def add_diff_eq [symmetric] del: of_nat_add)
  moreover obtain r t where "mappages_from pt va (va + of_nat n * PGSIZE) pa perm s = Ok r t"
    "maps_to pt va (va + of_nat n * PGSIZE) pa perm s r t"
    using mappages_from_spec [OF assms(1-3), of pa perm] assms(4) by blast
  ultimately show ?thesis unfolding maps_to_def mem_frame_def PGROUNDDOWN_def by auto
qed

theorem mappages_translates_witness:
  "\<exists>r t. mappages 0x87FFD000 0x1000 0x2000 0x87000000 (PTE_R OR PTE_U) kmem_pt = Ok r t \<and>
     pt_ready t 0x87FFD000 \<and> lookup t 0x87FFD000 0 = Some (PA2PTE 0x87FFA000 OR 0x17) \<and>
     (r = 0 \<and> lookup t 0x87FFD000 0x2000 = Some (PA2PTE 0x87001000 OR (PTE_R OR PTE_U) OR PTE_V) \<or>
      r = -1 \<and> freelist t = [])"
proof -
  have none: "lookup kmem_pt 0x87FFD000 v = None"
    if "v mod PGSIZE = 0" "0x1000 \<le> v" "v \<le> 0x1000 + of_nat 1 * PGSIZE" for v
  proof -
    have "v < MAXVA"
      using that(3) by (auto simp: layout_defs word_le_nat_alt word_less_nat_alt)
    moreover have "v \<noteq> 0" using that(2) by (auto simp: word_le_nat_alt)
    ultimately have "\<not> (PX 2 v = 0 \<and> PX 1 v = 0 \<and> PX 0 v = 0)"
      using PX_inj [of v 0] that(1) by (auto simp: PX_def MAXVA_def)
    then show ?thesis by (simp add: kmem_pt_lookup)
  qed
  have "\<exists>r t. mappages 0x87FFD000 0x1000 (of_nat (1 + 1) * PGSIZE) 0x87000000 (PTE_R OR PTE_U) kmem_pt = Ok r t \<and>
     pt_ready t 0x87FFD000 \<and>
     (\<forall>a. PGROUNDDOWN a \<notin> tree_pages kmem_pt 0x87FFD000 \<union> set (freelist kmem_pt) \<longrightarrow> mem t a = mem kmem_pt a) \<and>
     (\<forall>v. v mod PGSIZE = 0 \<longrightarrow> v < MAXVA \<longrightarrow> \<not> (0x1000 \<le> v \<and> v \<le> 0x1000 + of_nat 1 * PGSIZE) \<longrightarrow>
        lookup t 0x87FFD000 v = lookup kmem_pt 0x87FFD000 v) \<and>
     (r = 0 \<and> (\<forall>v. v mod PGSIZE = 0 \<longrightarrow> 0x1000 \<le> v \<longrightarrow> v \<le> 0x1000 + of_nat 1 * PGSIZE \<longrightarrow>
        lookup t 0x87FFD000 v = Some (PA2PTE (0x87000000 + (v - 0x1000)) OR (PTE_R OR PTE_U) OR PTE_V)) \<or>
      r = -1 \<and> freelist t = [])"
    by (rule mappages_translates [OF kmem_pt_ready]) (use none in \<open>simp_all add: PGSIZE_def\<close>)
  then obtain r t where t: "mappages 0x87FFD000 0x1000 (of_nat (1 + 1) * PGSIZE) 0x87000000 (PTE_R OR PTE_U) kmem_pt = Ok r t"
     "pt_ready t 0x87FFD000"
     "\<forall>v. v mod PGSIZE = 0 \<longrightarrow> v < MAXVA \<longrightarrow> \<not> (0x1000 \<le> v \<and> v \<le> 0x1000 + of_nat 1 * PGSIZE) \<longrightarrow>
        lookup t 0x87FFD000 v = lookup kmem_pt 0x87FFD000 v"
     "r = 0 \<and> (\<forall>v. v mod PGSIZE = 0 \<longrightarrow> 0x1000 \<le> v \<longrightarrow> v \<le> 0x1000 + of_nat 1 * PGSIZE \<longrightarrow>
        lookup t 0x87FFD000 v = Some (PA2PTE (0x87000000 + (v - 0x1000)) OR (PTE_R OR PTE_U) OR PTE_V)) \<or>
      r = -1 \<and> freelist t = []" by blast
  have "lookup t 0x87FFD000 0 = lookup kmem_pt 0x87FFD000 0"
    using t(3) by (simp add: PGSIZE_def MAXVA_def)
  moreover have "lookup kmem_pt 0x87FFD000 0 = Some (PA2PTE 0x87FFA000 OR 0x17)"
    by (simp add: kmem_pt_lookup PX_def)
  moreover have "of_nat (1 + 1) * PGSIZE = (0x2000 :: u64)" by (simp add: PGSIZE_def)
  ultimately show ?thesis using t(1,2,4) by (auto simp: PGSIZE_def)
qed

text \<open>
  C33. \<^verbatim>\<open>uvmunmap\<close> with \<open>do_free\<close>: on a range whose mapped pages are allocated, distinct and
  outside the table, it never panics, frees exactly the pages that were mapped, leaves the
  range unmapped and every other translation as it was.
\<close>

theorem uvmunmap_frees_mapped:
  assumes "pt_ready s pt" and "va mod PGSIZE = 0" and "unat va + n * 4096 < 2 ^ 38"
    and "user_wf s pt va (va + of_nat n * PGSIZE)"
  shows "\<exists>t. uvmunmap pt va (of_nat n) True s = Ok () t \<and> pt_ready t pt \<and>
     set (freelist t) = set (freelist s) \<union> user_pages s pt va (va + of_nat n * PGSIZE) \<and>
     (\<forall>v. v mod PGSIZE = 0 \<longrightarrow> v < MAXVA \<longrightarrow> lookup t pt v =
        (if va \<le> v \<and> v < va + of_nat n * PGSIZE then None else lookup s pt v))"
  using uvmunmap_from_spec [OF assms] assms(2) by (auto simp: uvmunmap_def)

lemma aligned_below_page: "v mod PGSIZE = 0 \<Longrightarrow> v < 0x1000 \<Longrightarrow> v = (0 :: u64)"
proof -
  assume a: "v mod PGSIZE = 0" "v < 0x1000"
  have "unat v mod 4096 = 0" using a(1) by (simp only: mod_PGSIZE_iff)
  moreover have "unat v < 4096" using a(2) by (simp add: word_less_nat_alt)
  ultimately show ?thesis by (simp add: word_unat_eq_iff)
qed

lemma kmem_pt_user_pages: "user_pages kmem_pt 0x87FFD000 0 0x1000 = {0x87FFA000}"
proof -
  have l: "lookup kmem_pt 0x87FFD000 0 = Some (PA2PTE 0x87FFA000 OR 0x17)"
    by (simp add: kmem_pt_lookup PX_def)
  have pa: "PTE2PA (PA2PTE 0x87FFA000 OR 0x17) = 0x87FFA000" by (simp add: PTE2PA_def PA2PTE_def)
  have "0x87FFA000 \<in> user_pages kmem_pt 0x87FFD000 0 0x1000"
    using user_pagesI [of 0 0 "0x1000" kmem_pt "0x87FFD000", OF _ _ _ l] pa by simp
  moreover have "p = 0x87FFA000" if "p \<in> user_pages kmem_pt 0x87FFD000 0 0x1000" for p
  proof -
    from that obtain v pte where v: "v mod PGSIZE = 0" "v < 0x1000"
      "lookup kmem_pt 0x87FFD000 v = Some pte" "p = PTE2PA pte"
      unfolding user_pages_def by (blast del: mod_0_imp_dvd)
    have "v = 0" by (rule aligned_below_page [OF v(1,2)])
    then show ?thesis using v(3,4) l pa by simp
  qed
  ultimately show ?thesis by blast
qed

theorem uvmunmap_frees_mapped_witness:
  "\<exists>t. uvmunmap 0x87FFD000 0 1 True kmem_pt = Ok () t \<and> 0x87FFA000 \<in> set (freelist t) \<and>
     0x87FFA000 \<notin> set (freelist kmem_pt) \<and> lookup kmem_pt 0x87FFD000 0 \<noteq> None \<and> lookup t 0x87FFD000 0 = None"
proof -
  have len: "length xs = 0 \<or> length xs = 1 \<or> length xs = 2" if "path_ok xs" for xs
    using that unfolding path_ok_def by arith
  have n: "node kmem_pt 0x87FFD000 xs \<noteq> Some 0x87FFA000" if "path_ok xs" for xs
    using len [OF that] by (auto simp: kmem_pt_node [OF that])
  have "page_ok kmem_pt 0x87FFA000" "0x87FFA000 \<notin> set (freelist kmem_pt)"
    by (simp_all add: page_ok_def kmem_pt_def kmem0_def layout_defs)
  then have "user_wf kmem_pt 0x87FFD000 0 0x1000"
    unfolding user_wf_def kmem_pt_user_pages using n aligned_below_page
    by (blast del: mod_0_imp_dvd)
  then have "\<exists>t. uvmunmap 0x87FFD000 0 (of_nat 1) True kmem_pt = Ok () t \<and> pt_ready t 0x87FFD000 \<and>
     set (freelist t) = set (freelist kmem_pt) \<union> user_pages kmem_pt 0x87FFD000 0 (0 + of_nat 1 * PGSIZE) \<and>
     (\<forall>v. v mod PGSIZE = 0 \<longrightarrow> v < MAXVA \<longrightarrow> lookup t 0x87FFD000 v =
        (if 0 \<le> v \<and> v < 0 + of_nat 1 * PGSIZE then None else lookup kmem_pt 0x87FFD000 v))"
    by (intro uvmunmap_frees_mapped [OF kmem_pt_ready]) (simp_all add: PGSIZE_def)
  moreover have "lookup kmem_pt 0x87FFD000 0 \<noteq> None" by (simp add: kmem_pt_lookup PX_def)
  moreover have "0 + of_nat 1 * PGSIZE = (0x1000 :: u64)" "(0 :: u64) < 0x1000" "(0 :: u64) < MAXVA"
    by (simp_all add: PGSIZE_def MAXVA_def)
  moreover have "0x87FFA000 \<notin> set (freelist kmem_pt)" by (simp add: kmem_pt_def kmem0_def)
  ultimately show ?thesis using kmem_pt_user_pages by (auto simp del: node.simps)
qed

section \<open>Lazy allocation\<close>

text \<open>Taking a page off the free list and clearing it does not disturb the tree.\<close>

lemma take_page:
  assumes R: "pt_ready s pt" and fl: "freelist s = pg # ps"
  defines "t \<equiv> memset_page pg 0 (memset_page pg 5 (s\<lparr>freelist := ps\<rparr>))"
  shows "pt_ready t pt" "lookup t pt v = lookup s pt v" "tree_pages t pt = tree_pages s pt"
    "page_ok t = page_ok s" "page_ok s pg" "pg \<notin> set ps" "pg \<notin> tree_pages s pt" "pg \<noteq> 0"
    "kmem.more t = kmem.more s" "freelist t = ps" "curproc t = curproc s" "held t = held s"
    "mem t a = (if a AND NOT (PGSIZE - 1) = pg then 0 else mem s a)" "path_ok xs \<Longrightarrow> node t pt xs = node s pt xs"
proof -
  have W: "pt_wf s pt" "kmem_wf s" "KmemLock \<notin> set (held s)" using R by (simp_all add: pt_ready_def)
  show po: "page_ok t = page_ok s" by (simp add: t_def page_ok_def fun_eq_iff)
  show f: "freelist t = ps" by (simp add: t_def)
  show pg: "page_ok s pg" "pg \<notin> set ps" using W(2) fl by (auto simp: kmem_wf_def)
  show "pg \<noteq> 0" using kmem_wf_page_pos [OF W(2)] fl by simp
  show tp: "pg \<notin> tree_pages s pt"
    using pt_wf_used [OF W(1)] fl by (auto simp: tree_pages_def)
  show m: "mem t a = (if a AND NOT (PGSIZE - 1) = pg then 0 else mem s a)" for a
    by (simp add: t_def memset_page_def)
  have A: "mem t (p + 8 * i) = mem s (p + 8 * i)"
    if "path_ok xs" "node s pt xs = Some p" "i < 512" for xs p i
    using page_round [OF page_ok_mod [OF pt_wf_page [OF W(1) that(1,2)]] that(3)]
      tree_pagesI [OF that(1,2)] tp by (auto simp: m)
  show N: "node t pt xs = node s pt xs" if "path_ok xs" for xs
    by (rule tree_agree(1) [OF A that])
  show "lookup t pt v = lookup s pt v" by (rule tree_agree(2) [OF A])
  show "tree_pages t pt = tree_pages s pt" using N by (auto simp: tree_pages_def)
  have "pt_wf t pt"
    using N W(1) fl unfolding pt_wf_def po f by auto
  moreover have "kmem_wf t" using W(2) fl po f by (auto simp: kmem_wf_def t_def)
  ultimately show "pt_ready t pt" using W(3) by (simp add: pt_ready_def t_def)
  show "kmem.more t = kmem.more s" "held t = held s" by (simp_all add: t_def)
  show "curproc t = curproc s" by (simp add: t_def memset_page_def)
qed

lemma ismapped_lookup: "va < MAXVA \<Longrightarrow> ismapped pt va s = Ok (lookup s pt va \<noteq> None) s"
  by (auto simp: ismapped_def walk_noalloc lookup_def load64_def Let_def not_le [symmetric] simp del: node.simps
      split: option.splits bind_splits)

lemma PGROUNDDOWN_le: "PGROUNDDOWN a \<le> a"
  using unat_PGROUNDDOWN [of a] by (simp add: word_le_nat_alt)

lemma PGROUNDDOWN_mod: "PGROUNDDOWN a mod PGSIZE = 0"
  unfolding mod_PGSIZE_iff unat_PGROUNDDOWN by (simp add: minus_mod_eq_mult_div)

text \<open>How many pages of the tree lie on the way to an address and are not there yet.\<close>

definition tables_missing :: "'x kmem_scheme \<Rightarrow> u64 \<Rightarrow> u64 \<Rightarrow> nat" where
  "tables_missing s pt va =
     (case child s pt (PX 2 va) of None \<Rightarrow> 2 | Some q \<Rightarrow> if child s q (PX 1 va) = None then 1 else 0)"

lemma walk_from_Suc:
  assumes "kmem_wf s" "KmemLock \<notin> set (held s)"
  shows "walk_from (Suc l) p va True s = (case child s p (PX (Suc l) va) of Some q \<Rightarrow> walk_from l q va True s
     | None \<Rightarrow> (case freelist s of [] \<Rightarrow> Ok None s
        | pg # ps \<Rightarrow> walk_from l pg va True (grow_tree (p + 8 * PX (Suc l) va) pg ps s)))"
  using kmem_wf_page_pos [OF assms(1)]
  by (auto simp: child_def load64_def pte_at_def kalloc_eq [OF assms(2,1)] grow_tree_def split: list.split)

lemma walk_missing:
  assumes R: "pt_ready s pt" and va: "va < MAXVA" and w: "walk pt va True s = Ok r t"
  shows "r = None \<longleftrightarrow> length (freelist s) < tables_missing s pt va"
proof -
  have W: "pt_wf s pt" "kmem_wf s" "KmemLock \<notin> set (held s)" using R by (simp_all add: pt_ready_def)
  have w': "walk_from (Suc (Suc 0)) pt va True s = Ok r t"
    using w va by (simp add: walk_def numeral_2_eq_2 not_le [symmetric] del: walk_from.simps split: if_splits)
  note S = walk_from_Suc [OF W(2,3), of "Suc 0" pt va] and S' = walk_from_Suc [OF W(2,3), of 0 _ va]
  have two: "PX (Suc (Suc 0)) va = PX 2 va" by (simp add: numeral_2_eq_2)
  show ?thesis
  proof (cases "child s pt (PX 2 va)")
    case (Some q)
    then have w1: "walk_from (Suc 0) q va True s = Ok r t" using w' S by (simp add: two del: walk_from.simps(2))
    show ?thesis
      using w1 Some by (auto simp: S' two tables_missing_def simp del: walk_from.simps(2) split: option.splits list.splits)
  next
    case None
    show ?thesis
    proof (cases "freelist s")
      case Nil
      then show ?thesis using w' S None by (auto simp: two tables_missing_def simp del: walk_from.simps(2))
    next
      case (Cons pg ps)
      have pg: "page_ok s pg" using W(2) Cons by (simp add: kmem_wf_def)
      let ?t = "grow_tree (pt + 8 * PX 2 va) pg ps s"
      have w1: "walk_from (Suc 0) pg va True ?t = Ok r t"
        using w' S None Cons by (simp add: two del: walk_from.simps(2))
      have root: "page_ok s pt" "pt \<notin> set (freelist s)" using pt_wf_page [OF W(1), of "[]"] pt_wf_used [OF W(1), of "[]"] by simp_all
      have "pg + 8 * PX 1 va \<noteq> pt + 8 * PX 2 va"
        using entry_inj [OF page_ok_mod [OF pg] page_ok_mod [OF root(1)] PX_less PX_less] root(2) Cons by auto
      then have n: "child ?t pg (PX 1 va) = None"
        by (simp add: child_def mem_grow_tree page_round [OF page_ok_mod [OF pg] PX_less])
      have kw: "kmem_wf ?t" "KmemLock \<notin> set (held ?t)"
        using W(3) grow_tree_wf(2) [OF W(1,2) Cons, of "[]" "PX 2 va" pt] None by (simp_all add: PX_less)
      show ?thesis
        using w1 n None Cons
        by (auto simp: walk_from_Suc [OF kw] tables_missing_def simp del: walk_from.simps(2) split: list.splits)
    qed
  qed
qed

lemma mappages_one:
  assumes "pt_ready s pt" "va mod PGSIZE = 0" "va < MAXVA" "lookup s pt va = None"
  shows "\<exists>r t. mappages pt va PGSIZE pa perm s = Ok r t \<and> maps_to pt va va pa perm s r t"
proof -
  have "unat va + 0 * 4096 < 2 ^ 38" using assms(3) by (simp add: MAXVA_def word_less_nat_alt)
  then have "\<exists>r t. mappages_from pt va (va + of_nat 0 * PGSIZE) pa perm s = Ok r t \<and>
      maps_to pt va (va + of_nat 0 * PGSIZE) pa perm s r t"
    using assms by (intro mappages_from_spec) (auto dest: order_antisym simp del: mod_0_imp_dvd)
  moreover have "mappages pt va PGSIZE pa perm s = mappages_from pt va va pa perm s"
    using assms(2) by (simp add: mappages_def) (simp add: PGSIZE_def)
  ultimately show ?thesis by simp
qed


lemma tables_missing_node:
  "tables_missing s pt va =
     (if node s pt [PX 2 va] = None then 2 else if node s pt [PX 2 va, PX 1 va] = None then 1 else 0)"
  by (auto simp: tables_missing_def split: option.splits)

lemma mappages_one_missing:
  assumes "pt_ready s pt" "va mod PGSIZE = 0" "va < MAXVA" "mappages pt va PGSIZE pa perm s = Ok r t"
  shows "r = 0 \<longleftrightarrow> tables_missing s pt va \<le> length (freelist s)" "r \<noteq> 0 \<Longrightarrow> lookup t pt v = lookup s pt v"
proof -
  obtain x u where w: "walk pt va True s = Ok x u" "tree_ext pt s u" using walk_alloc [OF assms(1,3)] by blast
  have m: "mappages_from pt va va pa perm s = Ok r t"
    using assms(2,4) by (simp add: mappages_def) (simp add: PGSIZE_def)
  then have "r = 0 \<longleftrightarrow> x \<noteq> None"
    by (auto simp: mappages_from.simps [of pt va] w(1) Let_def split: option.splits if_splits)
  then show "r = 0 \<longleftrightarrow> tables_missing s pt va \<le> length (freelist s)" using walk_missing [OF assms(1,3) w(1)] by auto
  show "lookup t pt v = lookup s pt v" if "r \<noteq> 0"
    using m that w by (auto simp: mappages_from.simps [of pt va] tree_ext_def Let_def split: option.splits if_splits)
qed

lemma vmfault_spec:
  fixes s :: "'x kproc_scheme"
  assumes "pt_ready s pt" and "curproc s = Some p" and "pagetable (ptable s ! p) = pt"
    and "va < sz (ptable s ! p)" and "va < MAXVA"
  shows "\<exists>r t. vmfault pt va rd s = Ok r t \<and> pt_ready t pt \<and> kmem.more t = kmem.more s \<and> vm_frame s t \<and>
     (\<forall>v. v mod PGSIZE = 0 \<longrightarrow> v < MAXVA \<longrightarrow> v \<noteq> PGROUNDDOWN va \<longrightarrow> lookup t pt v = lookup s pt v) \<and>
     mem_frame pt s t \<and> set (freelist t) \<subseteq> set (freelist s) \<and>
     (if lookup s pt (PGROUNDDOWN va) \<noteq> None then r = 0 \<and> t = s
      else if length (freelist s) \<le> tables_missing s pt (PGROUNDDOWN va)
      then r = 0 \<and> lookup t pt (PGROUNDDOWN va) = None \<and> (freelist s \<noteq> [] \<longrightarrow> hd (freelist s) \<in> set (freelist t))
      else r = hd (freelist s) \<and> r \<notin> set (freelist t) \<and> r \<notin> tree_pages t pt \<and>
        lookup t pt (PGROUNDDOWN va) = Some (PA2PTE r OR (PTE_W OR PTE_U OR PTE_R) OR PTE_V) \<and>
        walkaddr pt (PGROUNDDOWN va) t = Ok r t \<and>
        (\<forall>a. PGROUNDDOWN a = r \<longrightarrow> mem t a = 0))"
proof -
  let ?va = "PGROUNDDOWN va"
  have vm: "?va < MAXVA" using assms(5) PGROUNDDOWN_le order.strict_trans1 by blast
  have lk: "KmemLock \<notin> set (held s)" "kmem_wf s" using assms(1) by (simp_all add: pt_ready_def)
  have start: "vmfault pt va rd s = (if lookup s pt ?va \<noteq> None then Ok 0 s
      else bnd (kalloc s) (\<lambda>pg s.
             if pg = 0 then Ok 0 s
             else let s = memset_page pg 0 s
               in bnd (mappages (pagetable (ptable s ! p)) ?va PGSIZE pg (PTE_W OR PTE_U OR PTE_R) s)
                 (\<lambda>r s. if r \<noteq> 0 then bnd (kfree pg s) (\<lambda>_ s. Ok 0 s) else Ok pg s)))"
    using assms(2-5) ismapped_lookup [OF vm, of pt s]
    by (simp add: vmfault_def not_le [symmetric] Let_def)
  consider (mapped) "lookup s pt ?va \<noteq> None" | (empty) "lookup s pt ?va = None" "freelist s = []"
    | (page) pg ps where "lookup s pt ?va = None" "freelist s = pg # ps"
    by (cases "freelist s") auto
  then show ?thesis
  proof cases
    case mapped
    with start assms(1) show ?thesis by (auto simp: mem_frame_refl vm_frame_def)
  next
    case empty
    with start assms(1) lk show ?thesis by (auto simp: kalloc_eq mem_frame_refl vm_frame_def)
  next
    case (page pg ps)
    let ?t = "memset_page pg 0 (memset_page pg 5 (s\<lparr>freelist := ps\<rparr>))"
    note T = take_page [OF assms(1) page(2)]
    have pt: "pagetable (ptable ?t ! p) = pt"
      using T(9) assms(3) by (simp add: memset_page_def)
    obtain r u where u: "mappages pt ?va PGSIZE pg (PTE_W OR PTE_U OR PTE_R) ?t = Ok r u"
      "maps_to pt ?va ?va pg (PTE_W OR PTE_U OR PTE_R) ?t r u"
      using mappages_one [OF T(1) PGROUNDDOWN_mod vm, of pg "PTE_W OR PTE_U OR PTE_R"] T(2) page(1) by auto
    note M = maps_toD [OF u(2)]
    have enough: "r = 0 \<longleftrightarrow> \<not> length (freelist s) \<le> tables_missing s pt ?va"
      using mappages_one_missing(1) [OF T(1) PGROUNDDOWN_mod vm u(1)] T(10) page(2)
      unfolding tables_missing_node T(14) [OF PX_path_ok(2)] T(14) [OF PX_path_ok(3)] by (auto simp: Suc_le_eq simp del: node.simps)
    have vf: "vmfault pt va rd s = (if r \<noteq> 0 then bnd (kfree pg u) (\<lambda>_ s. Ok 0 s) else Ok pg u)"
      using start page lk u(1) pt T(8) by (simp add: kalloc_eq)
    have more: "kmem.more u = kmem.more s" using M(2) T(9) by (simp add: vm_frame_def)
    have other: "lookup u pt v = lookup s pt v" if "v mod PGSIZE = 0" "v < MAXVA" "v \<noteq> ?va" for v
    proof -
      have "\<not> (?va \<le> v \<and> v \<le> ?va)" using that(3) by auto
      then show ?thesis using M(5) [OF that(1,2)] T(2) by simp
    qed
    have kend: "kend u = kend s" using M(2) by (simp add: vm_frame_def)
    then have po: "page_ok u pg" using T(5) by (simp add: page_ok_def)
    have sub: "tree_pages u pt \<union> set (freelist u) \<subseteq> tree_pages s pt \<union> set ps"
      using M(3) T(3,10) by (simp add: mem_frame_def)
    then have fr: "pg \<notin> tree_pages u pt \<union> set (freelist u)" using T(6,7) by auto
    have vfr: "vm_frame s u" using M(2) T(10-12) page(2) T(9) by (auto simp: vm_frame_def)
    have mu: "mem u a = mem s a" if "a AND NOT (PGSIZE - 1) \<notin> tree_pages s pt \<union> set (freelist s)" for a
    proof -
      have "a AND NOT (PGSIZE - 1) \<notin> tree_pages ?t pt \<union> set (freelist ?t)" "a AND NOT (PGSIZE - 1) \<noteq> pg"
        using that page(2) T(3,10) by auto
      then show ?thesis using M(3) T(13) [of a] by (simp add: mem_frame_def)
    qed
    have frm: "mem_frame pt s u" using mu sub page(2) by (auto simp: mem_frame_def)
    show ?thesis
    proof (cases "r = 0")
      case True
      have l: "lookup u pt ?va = Some (PA2PTE pg OR (PTE_W OR PTE_U OR PTE_R) OR PTE_V)"
        using M(6) [OF True PGROUNDDOWN_mod order_refl order_refl] by simp
      have fl: "unat (PTE_W OR PTE_U OR PTE_R OR PTE_V) < 2 ^ 10" by (simp add: pte_defs)
      have pu: "(x OR PTE_W OR PTE_U OR PTE_R OR PTE_V) AND PTE_U \<noteq> 0" for x
      proof -
        have "bit ((x OR PTE_W OR PTE_U OR PTE_R OR PTE_V) AND PTE_U) 4" by (simp add: pte_defs bit_simps)
        then show ?thesis by (metis bit_0_eq bot_apply bot_bool_def)
      qed
      have wa: "walkaddr pt ?va u = Ok pg u"
        using l vm pu [of "PA2PTE pg"] PTE2PA_flags [OF T(5) fl] by (simp add: walkaddr_lookup not_le [symmetric] or.assoc)
      have z: "mem u a = 0" if "PGROUNDDOWN a = pg" for a
      proof -
        have "a AND NOT (PGSIZE - 1) \<notin> tree_pages ?t pt \<union> set (freelist ?t)"
          using that T(3,6,7,10) by (simp add: PGROUNDDOWN_def)
        then have "mem u a = mem ?t a" using M(3) by (simp add: mem_frame_def)
        then show ?thesis using T(13) [of a] that by (simp add: PGROUNDDOWN_def)
      qed
      have "hd (freelist s) = pg" "set (freelist u) \<subseteq> set (freelist s)" using page(2) vfr by (simp_all add: vm_frame_def)
      then show ?thesis
        using vf True M(1) more vfr other l page fr wa z frm enough
        by (intro exI [of _ pg] exI [of _ u]) auto
    next
      case False
      have "node u pt xs \<noteq> Some pg" if "path_ok xs" for xs using fr tree_pagesI [OF that] by auto
      then obtain w where w: "kfree pg u = Ok () w" "pt_ready w pt" "\<forall>v. lookup w pt v = lookup u pt v"
        "freelist w = pg # freelist u" "\<forall>xs. path_ok xs \<longrightarrow> node w pt xs = node u pt xs"
        using kfree_tree [OF M(1) po] fr by blast
      have we: "w = (memset_page pg 1 u)\<lparr>freelist := pg # freelist u\<rparr>"
        using w(1) M(1) kfree_eq [of u pg] by (auto simp: pt_ready_def split: if_splits)
      have mw: "kmem.more w = kmem.more u" "vm_frame s w"
        using vfr page(2) by (simp_all add: we vm_frame_def) (simp add: memset_page_def)
      have tw: "tree_pages w pt = tree_pages u pt" using w(5) by (auto simp: tree_pages_def)
      have "mem w a = mem s a" if "a AND NOT (PGSIZE - 1) \<notin> tree_pages s pt \<union> set (freelist s)" for a
        using mu [OF that] that page(2) by (auto simp: we memset_page_def)
      then have fw: "mem_frame pt s w" "set (freelist w) \<subseteq> set (freelist s)"
        using sub page(2) w(4) tw vfr by (auto simp: mem_frame_def vm_frame_def)
      have "vmfault pt va rd s = Ok 0 w" using vf False w(1) by simp
      moreover have "lookup w pt ?va = None"
        using w(3) mappages_one_missing(2) [OF T(1) PGROUNDDOWN_mod vm u(1) False] T(2) page(1) by simp
      ultimately show ?thesis
        using w mw more other page fw False enough
        by (intro exI [of _ 0] exI [of _ w]) (simp del: mod_0_imp_dvd)
    qed
  qed
qed

text \<open>
  C34. Lazy allocation: a fault below the process size on a page that is already mapped returns 0
  and changes nothing. On an unmapped page the outcome depends on the free pages alone. If there are
  no more of them than pages of the tree missing on the way to the address, it returns 0, the page
  stays unmapped and the page taken for the data is free again (pages added to the tree stay
  there). Otherwise it returns the first free page, now mapped user-readable and writable, in use
  and with every word zero. In all cases the table stays a tree, other pages keep their
  translation, no page is freed that was in use, memory outside the tree and the free pages is as
  before, and the process table is untouched.
\<close>

theorem vmfault_lazy_page:
  fixes s :: "'x kproc_scheme"
  assumes "pt_ready s pt" and "curproc s = Some p" and "pagetable (ptable s ! p) = pt"
    and "va < sz (ptable s ! p)" and "va < MAXVA"
  shows "\<exists>r t. vmfault pt va rd s = Ok r t \<and> pt_ready t pt \<and> kmem.more t = kmem.more s \<and>
     (\<forall>v. v mod PGSIZE = 0 \<longrightarrow> v < MAXVA \<longrightarrow> v \<noteq> PGROUNDDOWN va \<longrightarrow> lookup t pt v = lookup s pt v) \<and>
     (\<forall>a. PGROUNDDOWN a \<notin> tree_pages s pt \<union> set (freelist s) \<longrightarrow> mem t a = mem s a) \<and>
     set (freelist t) \<subseteq> set (freelist s) \<and>
     (if lookup s pt (PGROUNDDOWN va) \<noteq> None then r = 0 \<and> t = s
      else if length (freelist s) \<le> tables_missing s pt (PGROUNDDOWN va)
      then r = 0 \<and> lookup t pt (PGROUNDDOWN va) = None \<and> (freelist s \<noteq> [] \<longrightarrow> hd (freelist s) \<in> set (freelist t))
      else r = hd (freelist s) \<and> r \<notin> set (freelist t) \<and> r \<notin> tree_pages t pt \<and>
        lookup t pt (PGROUNDDOWN va) = Some (PA2PTE r OR (PTE_W OR PTE_U OR PTE_R) OR PTE_V) \<and>
        walkaddr pt (PGROUNDDOWN va) t = Ok r t \<and>
        (\<forall>a. PGROUNDDOWN a = r \<longrightarrow> mem t a = 0))"
proof -
  from vmfault_spec [OF assms, of rd] obtain r t where T: "vmfault pt va rd s = Ok r t \<and> pt_ready t pt \<and>
     kmem.more t = kmem.more s \<and> vm_frame s t \<and>
     (\<forall>v. v mod PGSIZE = 0 \<longrightarrow> v < MAXVA \<longrightarrow> v \<noteq> PGROUNDDOWN va \<longrightarrow> lookup t pt v = lookup s pt v) \<and>
     mem_frame pt s t \<and> set (freelist t) \<subseteq> set (freelist s) \<and>
     (if lookup s pt (PGROUNDDOWN va) \<noteq> None then r = 0 \<and> t = s
      else if length (freelist s) \<le> tables_missing s pt (PGROUNDDOWN va)
      then r = 0 \<and> lookup t pt (PGROUNDDOWN va) = None \<and> (freelist s \<noteq> [] \<longrightarrow> hd (freelist s) \<in> set (freelist t))
      else r = hd (freelist s) \<and> r \<notin> set (freelist t) \<and> r \<notin> tree_pages t pt \<and>
        lookup t pt (PGROUNDDOWN va) = Some (PA2PTE r OR (PTE_W OR PTE_U OR PTE_R) OR PTE_V) \<and>
        walkaddr pt (PGROUNDDOWN va) t = Ok r t \<and>
        (\<forall>a. PGROUNDDOWN a = r \<longrightarrow> mem t a = 0))" by (elim exE) (rule that)
  then have "\<forall>a. PGROUNDDOWN a \<notin> tree_pages s pt \<union> set (freelist s) \<longrightarrow> mem t a = mem s a"
    by (simp add: mem_frame_def PGROUNDDOWN_def)
  with T show ?thesis by blast
qed

text \<open>A process with the page table above, 3 pages long, of which only the first is mapped.\<close>

definition kproc_pt :: kproc where
  "kproc_pt = \<lparr>held = [], hartid = 0, curproc = Some 0, outp = [], mem = mem kmem_pt,
     freelist = freelist kmem_pt, kend = kend kmem_pt,
     ptable = [proc0\<lparr>state := RUNNING, pid := 1, sz := 0x3000, pagetable := 0x87FFD000\<rparr>],
     nextpid = 2, initproc = Some 0, ticks = 0, kernel_pagetable = 0, etext = 0, trampoline_pa = 0,
     uservec_pa = 0, userret_pa = 0, usertrap_pa = 0, forkret_pa = 0\<rparr>"

lemma node_transfer: "mem t = mem s \<Longrightarrow> node (t :: 'x kmem_scheme) p xs = node (s :: 'y kmem_scheme) p xs"
  by (induction xs arbitrary: p) (auto simp: child_def split: bind_split)

lemma lookup_transfer: "mem t = mem s \<Longrightarrow> lookup (t :: 'x kmem_scheme) pt v = lookup (s :: 'y kmem_scheme) pt v"
  unfolding lookup_def using node_transfer [of t s] by (simp del: node.simps)

lemma pt_ready_transfer:
  assumes "mem t = mem s" "freelist t = freelist s" "kend t = kend s" "held t = held s" "pt_ready s pt"
  shows "pt_ready (t :: 'x kmem_scheme) pt"
  using assms node_transfer [OF assms(1), of pt]
  by (simp add: pt_ready_def pt_wf_def kmem_wf_def page_ok_def)

lemma kproc_pt_ready: "pt_ready kproc_pt 0x87FFD000"
  by (rule pt_ready_transfer [OF _ _ _ _ kmem_pt_ready])
    (simp_all add: kproc_pt_def, simp add: kmem_pt_def kmem0_def)

lemma kproc_pt_lookup: "lookup kproc_pt 0x87FFD000 v = lookup kmem_pt 0x87FFD000 v"
  by (rule lookup_transfer) (simp add: kproc_pt_def)

theorem vmfault_lazy_page_witness:
  "\<exists>t. vmfault 0x87FFD000 0x1234 0 kproc_pt = Ok 0x87FFF000 t \<and>
     lookup t 0x87FFD000 0 = Some (PA2PTE 0x87FFA000 OR 0x17) \<and>
     walkaddr 0x87FFD000 0x1000 t = Ok 0x87FFF000 t \<and> mem t 0x87FFF008 = 0"
proof -
  have p: "PGROUNDDOWN 0x1234 = 0x1000" by (simp add: PGROUNDDOWN_def PGSIZE_def)
  have n: "lookup kproc_pt 0x87FFD000 (PGROUNDDOWN 0x1234) = None"
    unfolding kproc_pt_lookup kmem_pt_lookup p by (simp add: PX_def PXMASK_def PXSHIFT_def PGSHIFT_def)
  have z: "lookup kproc_pt 0x87FFD000 0 = Some (PA2PTE 0x87FFA000 OR 0x17)"
    unfolding kproc_pt_lookup by (simp add: kmem_pt_lookup PX_def)
  have fl: "freelist kproc_pt = [0x87FFF000, 0x87FFE000]"
    by (simp add: kproc_pt_def kmem_pt_def kmem0_def)
  have h: "curproc kproc_pt = Some 0" "pagetable (ptable kproc_pt ! 0) = 0x87FFD000"
    "0x1234 < sz (ptable kproc_pt ! 0)" "(0x1234 :: u64) < MAXVA" "(0 :: u64) < MAXVA"
    by (simp_all add: kproc_pt_def MAXVA_def)
  have "PX 2 0x1000 = 0" "PX 1 0x1000 = 0" "PX 2 0 = 0" "PX 1 0 = 0"
    by (simp_all add: PX_def PXMASK_def PXSHIFT_def PGSHIFT_def)
  then have "tables_missing kproc_pt 0x87FFD000 0x1000 = 0"
    using z unfolding tables_missing_node lookup_def by (auto split: bind_splits)
  then have few: "\<not> length (freelist kproc_pt) \<le> tables_missing kproc_pt 0x87FFD000 (PGROUNDDOWN 0x1234)"
    by (simp add: fl p)
  from vmfault_lazy_page [OF kproc_pt_ready h(1-4), of 0] n few fl
  obtain t where t: "vmfault 0x87FFD000 0x1234 0 kproc_pt = Ok 0x87FFF000 t"
     "\<forall>v. v mod PGSIZE = 0 \<longrightarrow> v < MAXVA \<longrightarrow> v \<noteq> PGROUNDDOWN 0x1234 \<longrightarrow>
        lookup t 0x87FFD000 v = lookup kproc_pt 0x87FFD000 v"
     "walkaddr 0x87FFD000 (PGROUNDDOWN 0x1234) t = Ok 0x87FFF000 t"
     "\<forall>a. PGROUNDDOWN a = 0x87FFF000 \<longrightarrow> mem t a = 0" by auto
  have "lookup t 0x87FFD000 0 = lookup kproc_pt 0x87FFD000 0"
    using t(2) h(5) unfolding p by simp
  moreover have "PGROUNDDOWN 0x87FFF008 = 0x87FFF000" by (simp add: PGROUNDDOWN_def PGSIZE_def)
  ultimately show ?thesis using t z unfolding p by auto
qed

end
