(* ===== verification/Vm_Frame.thy ===== *)
theory Vm_Frame
  imports Page_Tables
begin

text \<open>
  What the operations of theories Kalloc and Vm leave alone: the locks held, the current
  process and everything of the kernel state beyond memory and its free list. The facts are
  collected in \<open>frame\<close>; the results of the size-changing operations follow.
\<close>

definition kframe :: "'x kmem_scheme \<Rightarrow> 'x kmem_scheme \<Rightarrow> bool" where
  "kframe s t \<longleftrightarrow> held t = held s \<and> hartid t = hartid s \<and> curproc t = curproc s \<and> outp t = outp s \<and>
     kend t = kend s \<and> kmem.more t = kmem.more s"

lemma kframe_refl [simp, intro]: "kframe s s"
  by (simp add: kframe_def)

lemma kframe_trans: "kframe s t \<Longrightarrow> kframe t u \<Longrightarrow> kframe s u"
  by (simp add: kframe_def)

lemma kframe_store64 [simp]: "kframe s (store64 a w t) = kframe s t"
  by (simp add: kframe_def store64_def)

lemma kframe_memset [simp]: "kframe s (memset_page a c t) = kframe s t"
  by (simp add: kframe_def memset_page_def)

lemma kframe_copy_page [simp]: "kframe s (copy_page d a t) = kframe s t"
  by (simp add: kframe_def copy_page_def)

lemma kframe_store8 [simp]: "kframe s (store8 a w t) = kframe s t"
  by (simp add: kframe_def store8_def Let_def)

lemma kframe_store_bytes [simp]: "kframe s (store_bytes a bs t) = kframe s t"
  by (induction a bs t rule: store_bytes.induct) auto

lemma kframe_freelist [simp]: "kframe s (t\<lparr>freelist := fl\<rparr>) = kframe s t"
  by (simp add: kframe_def)

text \<open>Induction over the pages up to \<^verbatim>\<open>MAXVA\<close>, the bound of every loop over addresses.\<close>

lemma va_induct [case_names step]:
  assumes "\<And>a. (a < MAXVA \<Longrightarrow> P (a + PGSIZE)) \<Longrightarrow> P a"
  shows "P (a :: u64)"
proof (induction "unat (MAXVA + PGSIZE - a)" arbitrary: a rule: less_induct)
  case less
  show ?case
    by (rule assms, rule less.hyps) (use va_step_less in simp)
qed

lemma walk_high: "\<not> va < MAXVA \<Longrightarrow> walk pt va alloc s = Panic ''walk''"
  by (simp add: walk_def not_less)

lemma mappages_high: "\<not> va < MAXVA \<Longrightarrow> mappages pt va nb pa perm s \<noteq> Ok r t"
  by (auto simp: mappages_def walk_high mappages_from.simps [of pt va])

text \<open>The shape of every frame fact: starting inside the frame of \<open>z\<close> ends inside it.\<close>

lemma kalloc_frame [frame]: "kframe z s \<Longrightarrow> post (kframe z) (kalloc s)"
  by (auto simp: kalloc_def acquire_def release_def holding_def kframe_def memset_page_def Let_def)

lemma kfree_frame [frame]: "kframe z s \<Longrightarrow> post (kframe z) (kfree pa s)"
  by (auto simp: kfree_def acquire_def release_def holding_def kframe_def memset_page_def Let_def)

lemma walk_from_frame [frame]: "kframe z s \<Longrightarrow> post (kframe z) (walk_from l pt va alloc s)"
  by (induction l pt va alloc s rule: walk_from.induct)
    (auto simp: Let_def intro!: post_bnd kalloc_frame)

lemma walk_frame [frame]: "kframe z s \<Longrightarrow> post (kframe z) (walk pt va alloc s)"
  by (simp add: walk_def walk_from_frame)

lemma walkaddr_frame [frame]: "kframe z s \<Longrightarrow> post (kframe z) (walkaddr pt va s)"
  by (auto simp: walkaddr_def intro!: post_bnd walk_frame split: option.splits)

lemma mappages_from_frame [frame]: "kframe z s \<Longrightarrow> post (kframe z) (mappages_from pt a lst pa perm s)"
proof (induction a arbitrary: s pa rule: va_induct)
  case (step a)
  show ?case
  proof (cases "a < MAXVA")
    case True
    note IH = step.IH [OF True]
    show ?thesis
      using step.prems
      by (subst mappages_from.simps)
        (auto simp: Let_def intro!: post_bnd walk_frame IH split: option.splits)
  next
    case False
    then show ?thesis
      using step.prems False by (subst mappages_from.simps) (simp add: walk_high)
  qed
qed

lemma mappages_frame [frame]: "kframe z s \<Longrightarrow> post (kframe z) (mappages pt va nb pa perm s)"
  by (simp add: mappages_def mappages_from_frame)

lemma kvmmap_frame [frame]: "kframe z s \<Longrightarrow> post (kframe z) (kvmmap pt va pa nb perm s)"
  by (auto simp: kvmmap_def intro!: post_bnd mappages_frame)

lemma uvmcreate_frame [frame]: "kframe z s \<Longrightarrow> post (kframe z) (uvmcreate s)"
  by (auto simp: uvmcreate_def intro!: post_bnd kalloc_frame)

lemma uvmunmap_from_frame [frame]: "kframe z s \<Longrightarrow> post (kframe z) (uvmunmap_from pt a hi fr s)"
proof (induction a arbitrary: s fr rule: va_induct)
  case (step a)
  show ?case
  proof (cases "a < MAXVA")
    case True
    note IH = step.IH [OF True]
    show ?thesis
      using step.prems
      by (subst uvmunmap_from.simps)
        (auto simp: Let_def intro!: post_bnd walk_frame kfree_frame IH split: option.splits)
  next
    case False
    then show ?thesis
      using step.prems False by (subst uvmunmap_from.simps) (simp add: walk_high)
  qed
qed

lemma uvmunmap_frame [frame]: "kframe z s \<Longrightarrow> post (kframe z) (uvmunmap pt va n fr s)"
  by (simp add: uvmunmap_def uvmunmap_from_frame)

lemma uvmdealloc_frame [frame]: "kframe z s \<Longrightarrow> post (kframe z) (uvmdealloc pt o' n s)"
  by (auto simp: uvmdealloc_def Let_def intro!: post_bnd uvmunmap_frame)

lemma uvmalloc_from_frame [frame]: "kframe z s \<Longrightarrow> post (kframe z) (uvmalloc_from pt a o' n x s)"
proof (induction a arbitrary: s rule: va_induct)
  case (step a)
  show ?case
  proof (cases "a < MAXVA")
    case True
    note IH = step.IH [OF True]
    show ?thesis
      using step.prems
      by (subst uvmalloc_from.simps)
        (auto simp: Let_def intro!: post_bnd kalloc_frame kfree_frame mappages_frame uvmdealloc_frame IH split: option.splits)
  next
    case False
    then show ?thesis
      using step.prems False
      by (subst uvmalloc_from.simps)
        (auto simp: Let_def mappages_high intro!: post_bnd kalloc_frame mappages_frame kfree_frame uvmdealloc_frame)
  qed
qed

lemma uvmalloc_frame [frame]: "kframe z s \<Longrightarrow> post (kframe z) (uvmalloc pt o' n x s)"
  by (simp add: uvmalloc_def Let_def uvmalloc_from_frame)

lemma freewalk_depth_frame [frame]: "kframe z s \<Longrightarrow> post (kframe z) (freewalk_depth d pt s)"
  by (induction d pt s rule: freewalk_depth.induct)
    (auto simp: Let_def intro!: post_bnd kfree_frame post_foreach)

lemma freewalk_frame [frame]: "kframe z s \<Longrightarrow> post (kframe z) (freewalk pt s)"
  by (simp add: freewalk_def freewalk_depth_frame)

lemma uvmfree_frame [frame]: "kframe z s \<Longrightarrow> post (kframe z) (uvmfree pt n s)"
  by (auto simp: uvmfree_def intro!: post_bnd uvmunmap_frame freewalk_frame)

lemma uvmcopy_from_frame [frame]: "kframe z s \<Longrightarrow> post (kframe z) (uvmcopy_from old new i n s)"
proof (induction i arbitrary: s rule: va_induct)
  case (step i)
  show ?case
  proof (cases "i < MAXVA")
    case True
    note IH = step.IH [OF True]
    show ?thesis
      using step.prems
      by (subst uvmcopy_from.simps)
        (auto simp: Let_def intro!: post_bnd walk_frame kalloc_frame kfree_frame mappages_frame uvmunmap_frame IH split: option.splits)
  next
    case False
    then show ?thesis
      using step.prems False by (subst uvmcopy_from.simps) (simp add: walk_high)
  qed
qed

lemma uvmcopy_frame [frame]: "kframe z s \<Longrightarrow> post (kframe z) (uvmcopy old new n s)"
  by (simp add: uvmcopy_def uvmcopy_from_frame)

lemma uvmclear_frame [frame]: "kframe z s \<Longrightarrow> post (kframe z) (uvmclear pt va s)"
  by (auto simp: uvmclear_def intro!: post_bnd walk_frame split: option.splits)

lemma ismapped_frame [frame]: "kframe z s \<Longrightarrow> post (kframe z) (ismapped pt va s)"
  by (auto simp: ismapped_def intro!: post_bnd walk_frame split: option.splits)

lemma vmfault_frame [frame]: "kframe z s \<Longrightarrow> post (kframe z) (vmfault pt va rd s)"
  by (auto simp: vmfault_def with_myproc_def Let_def
      intro!: post_bnd ismapped_frame kalloc_frame kfree_frame mappages_frame split: option.splits)

lemma copyout_frame [frame]: "kframe z s \<Longrightarrow> post (kframe z) (copyout pt va bs s)"
proof (induction bs arbitrary: va s rule: length_induct)
  case (1 bs)
  show ?case
    using "1.prems"
    by (subst copyout.simps)
      (auto simp: Let_def chunk_pos intro!: post_bnd walk_frame walkaddr_frame vmfault_frame "1.IH" [rule_format]
        split: option.splits prod.splits if_splits)
qed

lemma copyin_frame [frame]: "kframe z s \<Longrightarrow> post (kframe z) (copyin pt va n s)"
proof (induction n arbitrary: va s rule: less_induct)
  case (less n)
  show ?case
    using less.prems
    by (subst copyin.simps)
      (auto simp: Let_def chunk_pos intro!: post_bnd walk_frame walkaddr_frame vmfault_frame less.IH
        split: option.splits prod.splits if_splits)
qed

lemma copyinstr_frame [frame]: "kframe z s \<Longrightarrow> post (kframe z) (copyinstr pt va n s)"
proof (induction n arbitrary: va s rule: less_induct)
  case (less n)
  show ?case
    using less.prems
    by (subst copyinstr.simps)
      (auto simp: Let_def chunk_pos intro!: post_bnd walkaddr_frame less.IH
        split: option.splits prod.splits if_splits)
qed

lemma frameD: "(\<And>z. kframe z s \<Longrightarrow> post (kframe z) r) \<Longrightarrow> r = Ok x t \<Longrightarrow> kframe s t"
  by (metis kframe_refl postD)

lemma kframe_proc:
  assumes "kframe s (t :: 'x kproc_scheme)"
  shows "ptable t = ptable s" "nextpid t = nextpid s" "initproc t = initproc s" "ticks t = ticks s"
    "kernel_pagetable t = kernel_pagetable s" "trampoline_pa t = trampoline_pa s"
    "uservec_pa t = uservec_pa s" "userret_pa t = userret_pa s" "usertrap_pa t = usertrap_pa s"
    "forkret_pa t = forkret_pa s" "etext t = etext s" "kproc.more t = kproc.more s"
    "curproc t = curproc s" "held t = held s"
  using assms by (cases s; cases t; simp add: kframe_def)+

section \<open>Memory operations never sleep\<close>

text \<open>So they may be used under a spinlock.\<close>

lemma kalloc_nosleep [simp]: "nosleep (kalloc s)"
  by (auto simp: kalloc_def Let_def intro!: nosleep_bnd)

lemma kfree_nosleep [simp]: "nosleep (kfree pa s)"
  by (auto simp: kfree_def Let_def intro!: nosleep_bnd)

lemma walk_nosleep [simp]: "nosleep (walk pt va alloc s)"
proof -
  have "nosleep (walk_from l pt va alloc s)" for l
    by (induction l pt va alloc s rule: walk_from.induct) (auto simp: Let_def intro!: nosleep_bnd)
  then show ?thesis by (simp add: walk_def)
qed

lemma walkaddr_nosleep [simp]: "nosleep (walkaddr pt va s)"
  by (auto simp: walkaddr_def intro!: nosleep_bnd split: option.splits)

lemma mappages_from_nosleep [simp]: "nosleep (mappages_from pt a lst pa perm s)"
proof (induction a arbitrary: s pa rule: va_induct)
  case (step a)
  show ?case
  proof (cases "a < MAXVA")
    case True
    note IH = step.IH [OF True]
    show ?thesis by (subst mappages_from.simps) (auto simp: Let_def intro!: nosleep_bnd IH split: option.splits)
  next
    case False
    then show ?thesis by (subst mappages_from.simps) (simp add: walk_high)
  qed
qed

lemma mappages_nosleep [simp]: "nosleep (mappages pt va nb pa perm s)"
  by (simp add: mappages_def)

lemma vmfault_nosleep [simp]: "nosleep (vmfault pt va rd s)"
  by (auto simp: vmfault_def with_myproc_def ismapped_def Let_def intro!: nosleep_bnd split: option.splits)

lemma copyout_nosleep [simp]: "nosleep (copyout pt va bs s)"
proof (induction bs arbitrary: va s rule: length_induct)
  case (1 bs)
  show ?case
    by (subst copyout.simps)
      (auto simp: Let_def chunk_pos intro!: nosleep_bnd "1.IH" [rule_format] split: option.splits)
qed

lemma copyin_nosleep [simp]: "nosleep (copyin pt va n s)"
proof (induction n arbitrary: va s rule: less_induct)
  case (less n)
  show ?case
    by (subst copyin.simps)
      (auto simp: Let_def chunk_pos intro!: nosleep_bnd less.IH split: option.splits prod.splits)
qed

lemma copyinstr_nosleep [simp]: "nosleep (copyinstr pt va n s)"
proof (induction n arbitrary: va s rule: less_induct)
  case (less n)
  show ?case
    by (subst copyinstr.simps)
      (auto simp: Let_def chunk_pos intro!: nosleep_bnd less.IH split: option.splits prod.splits if_splits)
qed

end
