(* ===== verification/Sched.thy ===== *)
theory Sched
  imports Proc_State
begin

text \<open>
  The scheduler of \<^verbatim>\<open>kernel/proc.c\<close> on several CPUs: \<^verbatim>\<open>scheduler\<close>, the switches in \<^verbatim>\<open>sched\<close>,
  \<^verbatim>\<open>yield\<close>, \<^verbatim>\<open>sleep\<close>, \<^verbatim>\<open>wakeup\<close>, \<^verbatim>\<open>kkill\<close> and the state changes of \<^verbatim>\<open>kfork\<close>, \<^verbatim>\<open>kexit\<close> and
  \<^verbatim>\<open>kwait\<close>, as interleaved steps. A step ends where another CPU can notice: at the acquisition
  and release of a lock and at a switch; what is done between while holding the process's
  lock is one step with what follows it.
\<close>

section \<open>The machine\<close>

text \<open>
  A context is what the code at \<open>Body\<close> or in \<^verbatim>\<open>wakeup\<close> returns to: the kernel thread of a process, or the
  place of \<^verbatim>\<open>scheduler\<close> at which an interrupt was taken, the top of its loop or the scan of the table after
  some process has run, which may have left interrupts on (\<^verbatim>\<open>release\<close> restores its \<^verbatim>\<open>intena\<close>).
\<close>

datatype ctx = Thread nat | AtTop | AtScan nat

text \<open>
  Where a CPU is. \<open>Top\<close>, \<open>Scan\<close>, \<open>ScanHeld\<close> and \<open>Wfi\<close> are places of \<^verbatim>\<open>scheduler\<close>: the top of the loop with
  \<^verbatim>\<open>intr_on\<close> and \<^verbatim>\<open>intr_off\<close>, the scan with the value of \<^verbatim>\<open>found\<close>, and the instruction that waits for
  an interrupt; \<open>Back\<close> is the return of the switch to a process. \<open>Resume\<close> is the moment after a
  switch to the process, whose lock the CPU still holds; \<open>Body\<close> is kernel or user code, or an interrupt
  handler, that holds no process lock. \<open>Panicked\<close> is a process stopped for ever by a test of \<^verbatim>\<open>sched\<close>.
\<close>

datatype spc =
    Top | Scan bool nat | ScanHeld bool nat | Back nat | Wfi
  | Resume nat | Body ctx
  | YieldHeld nat
  | SleepHeld nat chan
  | SleepReleased nat chan
  | Wake ctx chan nat | WakeHeld ctx chan nat
  | KillHeld nat nat | ExitHeld nat | ReapHeld nat nat | ForkHeld nat nat
  | Panicked nat

text \<open>
  State, channel and lock owner of every process; \<^verbatim>\<open>c->proc\<close> and the position of every CPU. For
  the channels that guard a condition, \<open>cnd\<close> is the condition and \<open>clk\<close> the CPU holding
  the lock that is passed to \<^verbatim>\<open>sleep\<close>.
\<close>

record ssys =
  pst :: "nat \<Rightarrow> procstate"
  pch :: "nat \<Rightarrow> chan option"
  plk :: "nat \<Rightarrow> nat option"
  cpr :: "nat \<Rightarrow> nat option"
  cpc :: "nat \<Rightarrow> spc"
  cnd :: "chan \<Rightarrow> bool"
  clk :: "chan \<Rightarrow> nat option"

text \<open>The process whose thread a position belongs to, and the process lock held there.\<close>

fun ctx_thread :: "ctx \<Rightarrow> nat option" where
  "ctx_thread (Thread p) = Some p" | "ctx_thread AtTop = None" | "ctx_thread (AtScan i) = None"

fun thread :: "spc \<Rightarrow> nat option" where
  "thread Top = None" | "thread (Scan f i) = None" | "thread (ScanHeld f i) = None" | "thread (Back i) = None"
| "thread Wfi = None"
| "thread (Resume p) = Some p" | "thread (Body x) = ctx_thread x" | "thread (YieldHeld p) = Some p"
| "thread (SleepHeld p ch) = Some p" | "thread (SleepReleased p ch) = Some p"
| "thread (Wake x ch j) = ctx_thread x" | "thread (WakeHeld x ch j) = ctx_thread x"
| "thread (KillHeld p j) = Some p" | "thread (ExitHeld p) = Some p"
| "thread (ReapHeld p j) = Some p" | "thread (ForkHeld p j) = Some p" | "thread (Panicked p) = Some p"

fun lock_at :: "spc \<Rightarrow> nat option" where
  "lock_at Top = None" | "lock_at (Scan f i) = None" | "lock_at (ScanHeld f i) = Some i" | "lock_at (Back i) = Some i"
| "lock_at Wfi = None"
| "lock_at (Resume p) = Some p" | "lock_at (Body x) = None" | "lock_at (YieldHeld p) = Some p"
| "lock_at (SleepHeld p ch) = Some p" | "lock_at (SleepReleased p ch) = Some p"
| "lock_at (Wake x ch j) = None" | "lock_at (WakeHeld x ch j) = Some j"
| "lock_at (KillHeld p j) = Some j" | "lock_at (ExitHeld p) = Some p"
| "lock_at (ReapHeld p j) = Some j" | "lock_at (ForkHeld p j) = Some j" | "lock_at (Panicked p) = Some p"

definition lock_to :: "nat \<Rightarrow> nat \<Rightarrow> spc \<Rightarrow> ssys \<Rightarrow> ssys" where
  "lock_to c p pc s = s\<lparr>plk := (plk s)(p := Some c), cpc := (cpc s)(c := pc)\<rparr>"

definition unlock_to :: "nat \<Rightarrow> nat \<Rightarrow> spc \<Rightarrow> ssys \<Rightarrow> ssys" where
  "unlock_to c p pc s = s\<lparr>plk := (plk s)(p := None), cpc := (cpc s)(c := pc)\<rparr>"

definition set_st :: "nat \<Rightarrow> procstate \<Rightarrow> ssys \<Rightarrow> ssys" where
  "set_st p st s = s\<lparr>pst := (pst s)(p := st)\<rparr>"

definition goto :: "nat \<Rightarrow> spc \<Rightarrow> ssys \<Rightarrow> ssys" where
  "goto c pc s = s\<lparr>cpc := (cpc s)(c := pc)\<rparr>"

definition no_cond_lock :: "nat \<Rightarrow> ssys \<Rightarrow> bool" where
  "no_cond_lock c s \<longleftrightarrow> (\<forall>ch. clk s ch \<noteq> Some c)"

text \<open>
  The steps CPU \<open>c\<close> takes of its own. \<open>swtch\<close> to the scheduler is the step to \<open>Back\<close>, the switch to a
  process the step to \<open>Resume\<close>. The state a process gives itself before it calls \<^verbatim>\<open>sched\<close> is set with
  the switch: its lock is held from before the one until after the other. \<^verbatim>\<open>sched\<close> panics when
  another spinlock is held; its other tests pass at these places, where the lock of the
  process is held, its state is changed and interrupts are off.
\<close>

inductive sstep :: "nat \<Rightarrow> ssys \<Rightarrow> ssys \<Rightarrow> bool" where
  scan_start: "cpc s c = Top \<Longrightarrow> sstep c s (goto c (Scan False 0) s)"
| scan_lock: "cpc s c = Scan f i \<Longrightarrow> i < NPROC \<Longrightarrow> plk s i = None \<Longrightarrow> sstep c s (lock_to c i (ScanHeld f i) s)"
| scan_skip: "cpc s c = ScanHeld f i \<Longrightarrow> pst s i \<noteq> RUNNABLE \<Longrightarrow> sstep c s (unlock_to c i (Scan f (i + 1)) s)"
| dispatch: "cpc s c = ScanHeld f i \<Longrightarrow> pst s i = RUNNABLE \<Longrightarrow>
    sstep c s (goto c (Resume i) (set_st i RUNNING (s\<lparr>cpr := (cpr s)(c := Some i)\<rparr>)))"
| sched_back: "cpc s c = Back i \<Longrightarrow>
    sstep c s (unlock_to c i (Scan True (i + 1)) (s\<lparr>cpr := (cpr s)(c := None)\<rparr>))"
| scan_again: "cpc s c = Scan True i \<Longrightarrow> \<not> i < NPROC \<Longrightarrow> sstep c s (goto c Top s)"
| scan_idle: "cpc s c = Scan False i \<Longrightarrow> \<not> i < NPROC \<Longrightarrow> sstep c s (goto c Wfi s)"
| intr_top_return: "cpc s c = Body AtTop \<Longrightarrow> no_cond_lock c s \<Longrightarrow> sstep c s (goto c Top s)"
| intr_scan_return: "cpc s c = Body (AtScan i) \<Longrightarrow> no_cond_lock c s \<Longrightarrow> sstep c s (goto c (Scan True i) s)"
| sched_resume: "cpc s c = Resume p \<Longrightarrow> sstep c s (unlock_to c p (Body (Thread p)) (s\<lparr>pch := (pch s)(p := None)\<rparr>))"
| yield_lock: "cpc s c = Body (Thread p) \<Longrightarrow> plk s p = None \<Longrightarrow> sstep c s (lock_to c p (YieldHeld p) s)"
| yield_switch: "cpc s c = YieldHeld p \<Longrightarrow> no_cond_lock c s \<Longrightarrow> sstep c s (goto c (Back p) (set_st p RUNNABLE s))"
| yield_panic: "cpc s c = YieldHeld p \<Longrightarrow> \<not> no_cond_lock c s \<Longrightarrow> sstep c s (goto c (Panicked p) s)"
| cond_lock: "cpc s c = Body x \<Longrightarrow> clk s ch = None \<Longrightarrow> sstep c s (s\<lparr>clk := (clk s)(ch := Some c)\<rparr>)"
| cond_unlock: "cpc s c = Body x \<Longrightarrow> clk s ch = Some c \<Longrightarrow> sstep c s (s\<lparr>clk := (clk s)(ch := None)\<rparr>)"
| cond_clear: "cpc s c = Body x \<Longrightarrow> clk s ch = Some c \<Longrightarrow> sstep c s (s\<lparr>cnd := (cnd s)(ch := False)\<rparr>)"
| cond_set: "cpc s c = Body x \<Longrightarrow> clk s ch = Some c \<Longrightarrow>
    sstep c s (goto c (Wake x ch 0) (s\<lparr>cnd := (cnd s)(ch := True)\<rparr>))"
| wake_call: "cpc s c = Body x \<Longrightarrow> clk s ch = Some c \<Longrightarrow> sstep c s (goto c (Wake x ch 0) s)"
| sleep_lock: "cpc s c = Body (Thread p) \<Longrightarrow> clk s ch = Some c \<Longrightarrow> \<not> cnd s ch \<Longrightarrow> plk s p = None \<Longrightarrow>
    sstep c s (lock_to c p (SleepHeld p ch) s)"
| sleep_release: "cpc s c = SleepHeld p ch \<Longrightarrow>
    sstep c s (goto c (SleepReleased p ch) (s\<lparr>clk := (clk s)(ch := None)\<rparr>))"
| sleep_switch: "cpc s c = SleepReleased p ch \<Longrightarrow> no_cond_lock c s \<Longrightarrow>
    sstep c s (goto c (Back p) (set_st p SLEEPING (s\<lparr>pch := (pch s)(p := Some ch)\<rparr>)))"
| sleep_panic: "cpc s c = SleepReleased p ch \<Longrightarrow> \<not> no_cond_lock c s \<Longrightarrow> sstep c s (goto c (Panicked p) s)"
| wake_self: "cpc s c = Wake x ch j \<Longrightarrow> j < NPROC \<Longrightarrow> cpr s c = Some j \<Longrightarrow> sstep c s (goto c (Wake x ch (j + 1)) s)"
| wake_lock: "cpc s c = Wake x ch j \<Longrightarrow> j < NPROC \<Longrightarrow> cpr s c \<noteq> Some j \<Longrightarrow> plk s j = None \<Longrightarrow>
    sstep c s (lock_to c j (WakeHeld x ch j) s)"
| wake_hit: "cpc s c = WakeHeld x ch j \<Longrightarrow> pst s j = SLEEPING \<Longrightarrow> pch s j = Some ch \<Longrightarrow>
    sstep c s (unlock_to c j (Wake x ch (j + 1)) (set_st j RUNNABLE s))"
| wake_miss: "cpc s c = WakeHeld x ch j \<Longrightarrow> \<not> (pst s j = SLEEPING \<and> pch s j = Some ch) \<Longrightarrow>
    sstep c s (unlock_to c j (Wake x ch (j + 1)) s)"
| wake_done: "cpc s c = Wake x ch j \<Longrightarrow> \<not> j < NPROC \<Longrightarrow> sstep c s (goto c (Body x) s)"
| kill_lock: "cpc s c = Body (Thread p) \<Longrightarrow> j < NPROC \<Longrightarrow> plk s j = None \<Longrightarrow> sstep c s (lock_to c j (KillHeld p j) s)"
| kill_hit: "cpc s c = KillHeld p j \<Longrightarrow> pst s j = SLEEPING \<Longrightarrow>
    sstep c s (unlock_to c j (Body (Thread p)) (set_st j RUNNABLE s))"
| kill_miss: "cpc s c = KillHeld p j \<Longrightarrow> sstep c s (unlock_to c j (Body (Thread p)) s)"
| exit_lock: "cpc s c = Body (Thread p) \<Longrightarrow> plk s p = None \<Longrightarrow> sstep c s (lock_to c p (ExitHeld p) s)"
| exit_release: "cpc s c = ExitHeld p \<Longrightarrow> clk s ch = Some c \<Longrightarrow> sstep c s (s\<lparr>clk := (clk s)(ch := None)\<rparr>)"
| exit_switch: "cpc s c = ExitHeld p \<Longrightarrow> no_cond_lock c s \<Longrightarrow> sstep c s (goto c (Back p) (set_st p ZOMBIE s))"
| exit_panic: "cpc s c = ExitHeld p \<Longrightarrow> \<not> no_cond_lock c s \<Longrightarrow> sstep c s (goto c (Panicked p) s)"
| reap_lock: "cpc s c = Body (Thread p) \<Longrightarrow> j < NPROC \<Longrightarrow> j \<noteq> p \<Longrightarrow> plk s j = None \<Longrightarrow>
    sstep c s (lock_to c j (ReapHeld p j) s)"
| reap: "cpc s c = ReapHeld p j \<Longrightarrow> pst s j = ZOMBIE \<Longrightarrow>
    sstep c s (unlock_to c j (Body (Thread p)) (set_st j UNUSED (s\<lparr>pch := (pch s)(j := None)\<rparr>)))"
| reap_not: "cpc s c = ReapHeld p j \<Longrightarrow> pst s j \<noteq> ZOMBIE \<Longrightarrow> sstep c s (unlock_to c j (Body (Thread p)) s)"
| fork_lock: "cpc s c = Body (Thread p) \<Longrightarrow> j < NPROC \<Longrightarrow> j \<noteq> p \<Longrightarrow> plk s j = None \<Longrightarrow>
    sstep c s (lock_to c j (ForkHeld p j) s)"
| fork_alloc: "cpc s c = ForkHeld p j \<Longrightarrow> pst s j = UNUSED \<Longrightarrow>
    sstep c s (unlock_to c j (Body (Thread p)) (set_st j USED s))"
| fork_start: "cpc s c = ForkHeld p j \<Longrightarrow> pst s j = USED \<Longrightarrow>
    sstep c s (unlock_to c j (Body (Thread p)) (set_st j RUNNABLE s))"
| fork_not: "cpc s c = ForkHeld p j \<Longrightarrow> sstep c s (unlock_to c j (Body (Thread p)) s)"

text \<open>
  Interrupts that reach a CPU in \<^verbatim>\<open>scheduler\<close>. One that is pending ends the wait; it is taken at the
  top of the loop, where interrupts are on for a moment, or in the scan after a process has run. The
  handler is a \<open>Body\<close> that changes conditions and wakes processes, but, with \<^verbatim>\<open>c->proc\<close> 0, does not
  yield. Interrupts in the thread of a process need no step of their own: its \<open>Body\<close> takes theirs.
\<close>

inductive sintr :: "nat \<Rightarrow> ssys \<Rightarrow> ssys \<Rightarrow> bool" where
  intr_wfi: "cpc s c = Wfi \<Longrightarrow> sintr c s (goto c Top s)"
| intr_top: "cpc s c = Top \<Longrightarrow> sintr c s (goto c (Body AtTop) s)"
| intr_scan: "cpc s c = Scan True i \<Longrightarrow> sintr c s (goto c (Body (AtScan i)) s)"

text \<open>All CPUs start in \<^verbatim>\<open>scheduler\<close> with no process running and no lock held.\<close>

definition sinit :: "ssys \<Rightarrow> bool" where
  "sinit s \<longleftrightarrow> (\<forall>c. cpc s c = Top \<and> cpr s c = None) \<and> (\<forall>p. plk s p = None) \<and>
     (\<forall>p. pst s p \<in> {UNUSED, RUNNABLE} \<and> pch s p = None) \<and> (\<forall>ch. clk s ch = None)"

inductive sreach :: "ssys \<Rightarrow> bool" where
  init: "sinit s \<Longrightarrow> sreach s"
| step: "sreach s \<Longrightarrow> sstep c s t \<Longrightarrow> sreach t"
| intr: "sreach s \<Longrightarrow> sintr c s t \<Longrightarrow> sreach t"

section \<open>Invariants\<close>

lemmas step_defs = lock_to_def unlock_to_def set_st_def goto_def

text \<open>A CPU is at a place that holds a process lock exactly when it owns the lock.\<close>

definition lock_owner_inv :: "ssys \<Rightarrow> bool" where
  "lock_owner_inv s \<longleftrightarrow> (\<forall>c p. lock_at (cpc s c) = Some p \<longleftrightarrow> plk s p = Some c)"

lemma lock_owner_fields [simp]:
  "lock_owner_inv (set_st p st s) = lock_owner_inv s"
  "lock_owner_inv (s\<lparr>cpr := x1\<rparr>) = lock_owner_inv s" "lock_owner_inv (s\<lparr>pch := x2\<rparr>) = lock_owner_inv s"
  "lock_owner_inv (s\<lparr>clk := x3\<rparr>) = lock_owner_inv s" "lock_owner_inv (s\<lparr>cnd := x4\<rparr>) = lock_owner_inv s"
  by (simp_all add: lock_owner_inv_def set_st_def)

lemma cpc_fields [simp]: "cpc (set_st p st s) = cpc s" "plk (set_st p st s) = plk s" "clk (set_st p st s) = clk s"
  "cnd (set_st p st s) = cnd s" "cpr (set_st p st s) = cpr s" "pch (set_st p st s) = pch s"
  by (simp_all add: set_st_def)

lemma lock_owner_lock_to:
  "lock_owner_inv s \<Longrightarrow> lock_at (cpc s c) = None \<Longrightarrow> plk s p = None \<Longrightarrow> lock_at pc = Some p \<Longrightarrow>
   lock_owner_inv (lock_to c p pc s)"
  unfolding lock_owner_inv_def lock_to_def by (simp add: fun_upd_apply) (metis option.distinct(1) option.inject)

lemma lock_owner_unlock_to:
  "lock_owner_inv s \<Longrightarrow> lock_at (cpc s c) = Some p \<Longrightarrow> lock_at pc = None \<Longrightarrow>
   lock_owner_inv (unlock_to c p pc s)"
  unfolding lock_owner_inv_def unlock_to_def by (simp add: fun_upd_apply) (metis option.distinct(1) option.inject)

lemma lock_owner_goto:
  "lock_owner_inv s \<Longrightarrow> lock_at pc = lock_at (cpc s c) \<Longrightarrow> lock_owner_inv (goto c pc s)"
  unfolding lock_owner_inv_def goto_def by (simp add: fun_upd_apply)

lemma lock_owner_step: "sstep c s t \<Longrightarrow> lock_owner_inv s \<Longrightarrow> lock_owner_inv t"
  by (induction rule: sstep.induct)
    (auto intro!: lock_owner_lock_to lock_owner_unlock_to lock_owner_goto)

text \<open>\<^verbatim>\<open>c->proc\<close> is the process the CPU runs, until \<^verbatim>\<open>scheduler\<close> clears it.\<close>

definition on_cpu :: "spc \<Rightarrow> nat option" where
  "on_cpu pc = (case pc of Back i \<Rightarrow> Some i | _ \<Rightarrow> thread pc)"

definition proc_inv :: "ssys \<Rightarrow> bool" where "proc_inv s \<longleftrightarrow> (\<forall>c. cpr s c = on_cpu (cpc s c))"

lemma proc_inv_step: "sstep c s t \<Longrightarrow> proc_inv s \<Longrightarrow> proc_inv t"
  by (induction rule: sstep.induct) (simp_all add: proc_inv_def step_defs on_cpu_def fun_upd_apply)

lemma sintr_inv:
  "sintr c s t \<Longrightarrow> lock_owner_inv s \<Longrightarrow> lock_owner_inv t" "sintr c s t \<Longrightarrow> proc_inv s \<Longrightarrow> proc_inv t"
  by (induction rule: sintr.induct) (auto intro: lock_owner_goto, auto simp: proc_inv_def goto_def on_cpu_def)

text \<open>
  A process is RUNNING exactly when some CPU is in its thread; then it is the only one, and
  the CPU's \<^verbatim>\<open>c->proc\<close> names it.
\<close>

definition run_inv :: "ssys \<Rightarrow> bool" where
  "run_inv s \<longleftrightarrow>
     (\<forall>c p. thread (cpc s c) = Some p \<longrightarrow> pst s p = RUNNING \<and> cpr s c = Some p) \<and>
     (\<forall>p. pst s p = RUNNING \<longrightarrow> (\<exists>c. thread (cpc s c) = Some p)) \<and>
     (\<forall>c d p. thread (cpc s c) = Some p \<longrightarrow> thread (cpc s d) = Some p \<longrightarrow> c = d)"

lemma run_fields [simp]:
  "run_inv (s\<lparr>pch := x1\<rparr>) = run_inv s" "run_inv (s\<lparr>clk := x2\<rparr>) = run_inv s" "run_inv (s\<lparr>cnd := x3\<rparr>) = run_inv s"
  by (simp_all add: run_inv_def)

lemma run_invD:
  assumes "run_inv s"
  shows "thread (cpc s c) = Some p \<Longrightarrow> pst s p = RUNNING" "thread (cpc s c) = Some p \<Longrightarrow> cpr s c = Some p"
    "pst s p = RUNNING \<Longrightarrow> \<exists>c. thread (cpc s c) = Some p"
    "thread (cpc s c) = Some p \<Longrightarrow> thread (cpc s d) = Some p \<Longrightarrow> c = d"
  using assms unfolding run_inv_def by blast+

lemma run_same_thread:
  assumes "run_inv s" "cpc t = (cpc s)(c := pc)" "thread pc = thread (cpc s c)" "pst t = pst s" "cpr t = cpr s"
  shows "run_inv t"
proof -
  have "thread (cpc t d) = thread (cpc s d)" for d using assms(2,3) by simp
  then show ?thesis using assms(1,4,5) unfolding run_inv_def by simp
qed

lemma run_move:
  "run_inv s \<Longrightarrow> thread pc = thread (cpc s c) \<Longrightarrow> run_inv (lock_to c p pc s)"
  "run_inv s \<Longrightarrow> thread pc = thread (cpc s c) \<Longrightarrow> run_inv (unlock_to c p pc s)"
  "run_inv s \<Longrightarrow> thread pc = thread (cpc s c) \<Longrightarrow> run_inv (goto c pc s)"
  by (rule run_same_thread [of s _ c pc]; simp add: step_defs)+

lemma run_set_st:
  "run_inv s \<Longrightarrow> pst s j \<noteq> RUNNING \<Longrightarrow> st \<noteq> RUNNING \<Longrightarrow> run_inv (set_st j st s)"
  unfolding run_inv_def set_st_def by (auto simp: fun_upd_apply)

lemma run_leave:
  assumes R: "run_inv s" and c: "thread (cpc s c) = Some p" and st: "st \<noteq> RUNNING"
  shows "run_inv (goto c (Back p) (set_st p st s))"
proof -
  let ?t = "goto c (Back p) (set_st p st s)"
  have th: "thread (cpc ?t d) = (if d = c then None else thread (cpc s d))" for d
    by (simp add: goto_def set_st_def)
  have ps: "pst ?t q = (if q = p then st else pst s q)" "cpr ?t = cpr s" for q
    by (simp_all add: goto_def set_st_def)
  have ne: "q \<noteq> p" if "d \<noteq> c" "thread (cpc s d) = Some q" for d q
    using run_invD(4) [OF R c] that by metis
  have "\<exists>d. thread (cpc ?t d) = Some q" if "pst ?t q = RUNNING" for q
  proof -
    from that st have q: "q \<noteq> p" "pst s q = RUNNING" unfolding ps by (auto split: if_splits)
    then obtain d where d: "thread (cpc s d) = Some q" using run_invD(3) [OF R] by blast
    then have "d \<noteq> c" using c q(1) by auto
    with d show ?thesis using th by auto
  qed
  then show ?thesis
    using ne R unfolding run_inv_def th ps by (auto split: if_splits)
qed

lemma run_enter:
  assumes R: "run_inv s" and c: "thread (cpc s c) = None" and st: "pst s p \<noteq> RUNNING"
  shows "run_inv (goto c (Resume p) (set_st p RUNNING (s\<lparr>cpr := (cpr s)(c := Some p)\<rparr>)))"
proof -
  let ?t = "goto c (Resume p) (set_st p RUNNING (s\<lparr>cpr := (cpr s)(c := Some p)\<rparr>))"
  have th: "thread (cpc ?t d) = (if d = c then Some p else thread (cpc s d))" for d
    by (simp add: goto_def set_st_def)
  have ps: "pst ?t q = (if q = p then RUNNING else pst s q)" "cpr ?t d = (if d = c then Some p else cpr s d)" for q d
    by (simp_all add: goto_def set_st_def)
  have ne: "q \<noteq> p" if "thread (cpc s d) = Some q" for d q
    using run_invD(1) [OF R that] st by auto
  have "\<exists>d. thread (cpc ?t d) = Some q" if "pst ?t q = RUNNING" for q
  proof (cases "q = p")
    case True
    then show ?thesis using th by auto
  next
    case False
    then have "pst s q = RUNNING" using that unfolding ps by simp
    then obtain d where d: "thread (cpc s d) = Some q" using run_invD(3) [OF R] by blast
    then have "d \<noteq> c" using c by auto
    with d show ?thesis using th by auto
  qed
  then show ?thesis
    using ne R unfolding run_inv_def th ps by (auto split: if_splits)
qed

lemma run_back:
  assumes "run_inv s" "thread (cpc s c) = None"
  shows "run_inv (s\<lparr>cpr := (cpr s)(c := None)\<rparr>)"
  using assms unfolding run_inv_def by (auto simp: fun_upd_apply)

lemma run_step: "sstep c s t \<Longrightarrow> run_inv s \<Longrightarrow> run_inv t"
proof (induction rule: sstep.induct)
  case (dispatch s c f i)
  then show ?case by (intro run_enter) auto
next
  case (yield_switch s c p)
  then show ?case by (intro run_leave) auto
next
  case (sleep_switch s c p ch)
  then show ?case by (intro run_leave) auto
next
  case (exit_switch s c p)
  then show ?case by (intro run_leave) auto
qed (auto intro!: run_move run_set_st run_back)

lemma run_intr: "sintr c s t \<Longrightarrow> run_inv s \<Longrightarrow> run_inv t"
  by (induction rule: sintr.induct) (auto intro!: run_move)

section \<open>No lost wakeup\<close>

definition waiting :: "ssys \<Rightarrow> chan \<Rightarrow> nat \<Rightarrow> bool" where
  "waiting s ch q \<longleftrightarrow> (pst s q = SLEEPING \<and> pch s q = Some ch) \<or> (\<exists>c. cpc s c = SleepReleased q ch)"

definition waker_at :: "ssys \<Rightarrow> nat \<Rightarrow> ctx \<Rightarrow> chan \<Rightarrow> nat \<Rightarrow> bool" where
  "waker_at s c x ch j \<longleftrightarrow> cpc s c = Wake x ch j \<or> cpc s c = WakeHeld x ch j"

text \<open>
  The CPU of a process about to sleep holds the condition's lock and the condition is false; the CPU of a
  waker holds the lock; while the condition is true, every process that sleeps or is about to
  switch away lies ahead of some waker's scan.
\<close>

definition cond_inv :: "ssys \<Rightarrow> bool" where
  "cond_inv s \<longleftrightarrow>
     (\<forall>c p ch. cpc s c = SleepHeld p ch \<longrightarrow> clk s ch = Some c \<and> \<not> cnd s ch) \<and>
     (\<forall>c x ch j. waker_at s c x ch j \<longrightarrow> clk s ch = Some c) \<and>
     (\<forall>ch q. cnd s ch \<longrightarrow> q < NPROC \<longrightarrow> waiting s ch q \<longrightarrow> (\<exists>c x j. waker_at s c x ch j \<and> j \<le> q))"

lemma cond_invD:
  assumes "cond_inv s"
  shows "cpc s c = SleepHeld p ch \<Longrightarrow> clk s ch = Some c" "cpc s c = SleepHeld p ch \<Longrightarrow> \<not> cnd s ch"
    "waker_at s c x ch j \<Longrightarrow> clk s ch = Some c"
    "cnd s ch \<Longrightarrow> q < NPROC \<Longrightarrow> waiting s ch q \<Longrightarrow> \<exists>c x j. waker_at s c x ch j \<and> j \<le> q"
  using assms unfolding cond_inv_def by blast+

fun plain :: "spc \<Rightarrow> bool" where
  "plain (SleepHeld p ch) = False" | "plain (SleepReleased p ch) = False"
| "plain (Wake x ch j) = False" | "plain (WakeHeld x ch j) = False" | "plain _ = True"

lemma cond_plain:
  assumes "cond_inv s" "cpc t = (cpc s)(c := pc)" "plain (cpc s c)" "plain pc" "clk t = clk s" "cnd t = cnd s"
    and "\<And>q ch. pst t q = SLEEPING \<Longrightarrow> pch t q = Some ch \<Longrightarrow> pst s q = SLEEPING \<and> pch s q = Some ch"
  shows "cond_inv t"
proof -
  have same: "cpc t d = x \<longleftrightarrow> cpc s d = x" if "\<not> plain x" for d x
    using that assms(2-4) by auto
  have w: "waker_at t d p ch j \<longleftrightarrow> waker_at s d p ch j" for d p ch j
    unfolding waker_at_def by (simp add: same)
  have "waiting s ch q" if "waiting t ch q" for ch q
    using that assms(7) unfolding waiting_def by (auto simp: same)
  then show ?thesis
    using assms(1) unfolding cond_inv_def w assms(5,6) by (auto simp: same)
qed

lemma cond_pc_same:
  assumes "cond_inv s" "cpc t = cpc s" "pst t = pst s" "pch t = pch s"
    and "\<And>c p ch. cpc s c = SleepHeld p ch \<Longrightarrow> clk t ch = Some c \<and> \<not> cnd t ch"
    and "\<And>c x ch j. waker_at s c x ch j \<Longrightarrow> clk t ch = Some c"
    and "\<And>ch. cnd t ch \<Longrightarrow> cnd s ch"
  shows "cond_inv t"
proof -
  have w: "waker_at t = waker_at s" "waiting t = waiting s"
    by (simp_all add: fun_eq_iff waker_at_def waiting_def assms(2-4))
  show ?thesis
    using assms(1,5-7) unfolding cond_inv_def w assms(2) by blast
qed

text \<open>Steps that change a condition or its lock and stay at their place.\<close>

lemma cond_step_cond:
  assumes C: "cond_inv s" and c: "cpc s c = Body x \<or> cpc s c = ExitHeld p"
  shows "clk s ch = None \<Longrightarrow> cond_inv (s\<lparr>clk := (clk s)(ch := Some c)\<rparr>)"
    "clk s ch = Some c \<Longrightarrow> cond_inv (s\<lparr>clk := (clk s)(ch := None)\<rparr>)"
    "cond_inv (s\<lparr>cnd := (cnd s)(ch := False)\<rparr>)"
proof -
  have ns: "cpc s c \<noteq> SleepHeld q ch'" "\<not> waker_at s c y ch' j" for q ch' y j
    using c by (auto simp: waker_at_def)
  show "cond_inv (s\<lparr>clk := (clk s)(ch := Some c)\<rparr>)" if "clk s ch = None"
    by (rule cond_pc_same [OF C]) (use cond_invD [OF C] that in \<open>auto split: if_splits\<close>)
  show "cond_inv (s\<lparr>clk := (clk s)(ch := None)\<rparr>)" if l: "clk s ch = Some c"
  proof (rule cond_pc_same [OF C])
    fix d q ch' assume d: "cpc s d = SleepHeld q ch'"
    then have "ch' \<noteq> ch" using cond_invD(1) [OF C d] l ns(1) [of q ch'] by auto
    then show "clk (s\<lparr>clk := (clk s)(ch := None)\<rparr>) ch' = Some d \<and> \<not> cnd (s\<lparr>clk := (clk s)(ch := None)\<rparr>) ch'"
      using cond_invD(1,2) [OF C d] by simp
  next
    fix d y ch' j assume d: "waker_at s d y ch' j"
    then have "ch' \<noteq> ch" using cond_invD(3) [OF C d] l ns(2) [of y ch' j] by auto
    then show "clk (s\<lparr>clk := (clk s)(ch := None)\<rparr>) ch' = Some d" using cond_invD(3) [OF C d] by simp
  qed simp_all
  show "cond_inv (s\<lparr>cnd := (cnd s)(ch := False)\<rparr>)"
    by (rule cond_pc_same [OF C]) (use cond_invD [OF C] in \<open>auto split: if_splits\<close>)
qed

lemma cond_enter:
  assumes C: "cond_inv s" and c: "plain (cpc s c)" and pc: "pc = Wake x ch 0 \<and> clk s ch = Some c \<or>
      pc = SleepHeld p ch \<and> clk s ch = Some c \<and> \<not> cnd s ch"
    and t: "cpc t = (cpc s)(c := pc)" "pst t = pst s" "pch t = pch s" "clk t = clk s"
    and n: "\<And>ch'. cnd t ch' \<Longrightarrow> cnd s ch' \<or> ch' = ch \<and> pc = Wake x ch 0"
    and h: "\<And>d q. cpc s d = SleepHeld q ch \<Longrightarrow> pc = Wake x ch 0 \<Longrightarrow> \<not> cnd t ch"
  shows "cond_inv t"
proof -
  have sr: "cpc t d = SleepReleased q ch' \<longleftrightarrow> cpc s d = SleepReleased q ch'" for d q ch'
    using c pc by (cases "d = c") (auto simp: t(1))
  have w: "waiting t = waiting s"
    by (simp add: fun_eq_iff waiting_def sr t(2,3))
  have k: "waker_at t d q ch' j \<longleftrightarrow> waker_at s d q ch' j \<or> d = c \<and> pc = Wake x ch 0 \<and> q = x \<and> ch' = ch \<and> j = 0"
    for d q ch' j using c pc by (auto simp: waker_at_def t fun_upd_apply)
  have sh: "cpc t d = SleepHeld q ch' \<longleftrightarrow> cpc s d = SleepHeld q ch' \<or> d = c \<and> pc = SleepHeld q ch'" for d q ch'
    using c by (auto simp: t fun_upd_apply)
  show ?thesis
    unfolding cond_inv_def
  proof (intro conjI allI impI)
    fix d q ch' assume "cpc t d = SleepHeld q ch'"
    then have d: "cpc s d = SleepHeld q ch' \<or> d = c \<and> pc = SleepHeld q ch'" by (simp only: sh)
    show "clk t ch' = Some d" using d cond_invD(1) [OF C] pc unfolding t(4) by auto
    show "\<not> cnd t ch'"
      using d cond_invD(2) [OF C, of d q ch'] pc n [of ch'] h [of d q] by auto
  next
    fix d q ch' j assume "waker_at t d q ch' j"
    then show "clk t ch' = Some d" using cond_invD(3) [OF C] pc unfolding k t(4) by auto
  next
    fix ch' q assume a: "cnd t ch'" "q < NPROC" "waiting t ch' q"
    show "\<exists>d r j. waker_at t d r ch' j \<and> j \<le> q"
    proof (cases "cnd s ch'")
      case True
      then show ?thesis using cond_invD(4) [OF C True a(2)] a(3) unfolding w k by blast
    next
      case False
      then show ?thesis using n [OF a(1)] unfolding k by blast
    qed
  qed
qed

text \<open>The scan of one waker moves on over an entry that is not waiting.\<close>

lemma cond_scan:
  assumes C: "cond_inv s" and c: "waker_at s c x ch j"
    and pc: "pc = Body x \<and> \<not> j < NPROC \<or> (\<exists>k. k \<le> j \<and> (pc = Wake x ch k \<or> pc = WakeHeld x ch k)) \<or>
      (pc = Wake x ch (j + 1) \<and> \<not> waiting t ch j)"
    and t: "cpc t = (cpc s)(c := pc)" "clk t = clk s" "cnd t = cnd s"
    and wt: "\<And>ch' q. waiting t ch' q \<Longrightarrow> waiting s ch' q"
  shows "cond_inv t"
proof -
  have c': "cpc s c = Wake x ch j \<or> cpc s c = WakeHeld x ch j" using c by (simp add: waker_at_def)
  have sh: "cpc t d = SleepHeld q ch' \<longleftrightarrow> cpc s d = SleepHeld q ch'" for d q ch'
    using c' pc by (auto simp: t(1) fun_upd_apply)
  have k: "waker_at t d q ch' i \<longleftrightarrow> (if d = c then pc = Wake q ch' i \<or> pc = WakeHeld q ch' i
      else waker_at s d q ch' i)" for d q ch' i
    by (auto simp: waker_at_def t(1) fun_upd_apply)
  show ?thesis
    unfolding cond_inv_def
  proof (intro conjI allI impI)
    fix d q ch' assume "cpc t d = SleepHeld q ch'"
    then show "clk t ch' = Some d" "\<not> cnd t ch'"
      using cond_invD(1,2) [OF C] unfolding sh t(2,3) by auto
  next
    fix d q ch' i assume "waker_at t d q ch' i"
    then show "clk t ch' = Some d"
      using cond_invD(3) [OF C] c pc unfolding k t(2,3) by (auto split: if_splits)
  next
    fix ch' q assume a: "cnd t ch'" "q < NPROC" "waiting t ch' q"
    obtain d r i where d: "waker_at s d r ch' i" "i \<le> q"
      using cond_invD(4) [OF C _ a(2) wt [OF a(3)]] a(1) t(3) by auto
    show "\<exists>d r i. waker_at t d r ch' i \<and> i \<le> q"
    proof (cases "d = c")
      case False
      then show ?thesis using d k by metis
    next
      case True
      then have e: "r = x" "ch' = ch" "i = j" using d(1) c' by (auto simp: waker_at_def)
      from pc show ?thesis
      proof (elim disjE exE conjE)
        assume "\<not> j < NPROC"
        then show ?thesis using d(2) e(3) a(2) by simp
      next
        fix i' assume "i' \<le> j" "pc = Wake x ch i'"
        then show ?thesis using d(2) e k by (intro exI [of _ c] exI [of _ x] exI [of _ i']) auto
      next
        fix i' assume "i' \<le> j" "pc = WakeHeld x ch i'"
        then show ?thesis using d(2) e k by (intro exI [of _ c] exI [of _ x] exI [of _ i']) auto
      next
        assume w: "pc = Wake x ch (j + 1)" "\<not> waiting t ch j"
        then have "j + 1 \<le> q" using d(2) e a(3) by (cases "q = j") auto
        then show ?thesis using w(1) e k by (intro exI [of _ c] exI [of _ x] exI [of _ "j + 1"]) auto
      qed
    qed
  qed
qed

text \<open>Falling asleep.\<close>

lemma cond_sleep_release:
  assumes C: "cond_inv s" and c: "cpc s c = SleepHeld p ch"
  shows "cond_inv (goto c (SleepReleased p ch) (s\<lparr>clk := (clk s)(ch := None)\<rparr>))" (is "cond_inv ?t")
proof -
  have t: "cpc ?t = (cpc s)(c := SleepReleased p ch)" "clk ?t = (clk s)(ch := None)" "cnd ?t = cnd s"
    "pst ?t = pst s" "pch ?t = pch s" by (simp_all add: goto_def)
  have k: "waker_at ?t d q ch' j \<longleftrightarrow> waker_at s d q ch' j" for d q ch' j
    using c by (auto simp: waker_at_def t(1))
  have nw: "\<not> waker_at s d q ch j" for d q j
    using cond_invD(1) [OF C c] cond_invD(3) [OF C, of d q ch j] c by (auto simp: waker_at_def)
  show ?thesis
    unfolding cond_inv_def
  proof (intro conjI allI impI)
    fix d q ch' assume "cpc ?t d = SleepHeld q ch'"
    then have d: "cpc s d = SleepHeld q ch'" "d \<noteq> c" by (auto simp: t(1) split: if_splits)
    then have "ch' \<noteq> ch" using cond_invD(1) [OF C d(1)] cond_invD(1) [OF C c] by auto
    then show "clk ?t ch' = Some d" "\<not> cnd ?t ch'" using cond_invD(1,2) [OF C d(1)] t by simp_all
  next
    fix d q ch' j assume "waker_at ?t d q ch' j"
    then have "waker_at s d q ch' j" by (simp only: k)
    then show "clk ?t ch' = Some d" using cond_invD(3) [OF C] nw unfolding t(2) by auto
  next
    fix ch' q assume a: "cnd ?t ch'" "q < NPROC" "waiting ?t ch' q"
    have "ch' \<noteq> ch" using a(1) cond_invD(2) [OF C c] t(3) by auto
    then have "waiting s ch' q" using a(3) c by (auto simp: waiting_def t split: if_splits)
    then show "\<exists>d r j. waker_at ?t d r ch' j \<and> j \<le> q"
      unfolding k using cond_invD(4) [OF C] a(1,2) t(3) by metis
  qed
qed

lemma cond_sleep_switch:
  assumes C: "cond_inv s" and c: "cpc s c = SleepReleased p ch" and st: "st = SLEEPING"
  shows "cond_inv (goto c (Back p) (set_st p st (s\<lparr>pch := (pch s)(p := Some ch)\<rparr>)))" (is "cond_inv ?t")
proof -
  have t: "cpc ?t = (cpc s)(c := Back p)" "clk ?t = clk s" "cnd ?t = cnd s"
    "pst ?t = (pst s)(p := st)" "pch ?t = (pch s)(p := Some ch)" by (simp_all add: goto_def set_st_def)
  have k: "waker_at ?t d q ch' j \<longleftrightarrow> waker_at s d q ch' j" for d q ch' j
    using c by (auto simp: waker_at_def t(1))
  have sh: "cpc ?t d = SleepHeld q ch' \<longleftrightarrow> cpc s d = SleepHeld q ch'" for d q ch'
    using c by (auto simp: t(1))
  have "waiting s ch' q" if "waiting ?t ch' q" for ch' q
    using that c by (auto simp: waiting_def t split: if_splits)
  then show ?thesis
    using C unfolding cond_inv_def k sh t(2,3) by blast
qed

lemma sleep_not_waiting:
  assumes "lock_owner_inv s" "cpc s c = WakeHeld x ch j" "\<not> (pst s j = SLEEPING \<and> pch s j = Some ch)"
  shows "\<not> waiting s ch j"
proof -
  have "lock_at (cpc s c) = Some j" using assms(2) by simp
  then have l: "plk s j = Some c" using assms(1) unfolding lock_owner_inv_def by blast
  have "cpc s d \<noteq> SleepReleased j ch" for d
  proof
    assume "cpc s d = SleepReleased j ch"
    then have "lock_at (cpc s d) = Some j" by simp
    then have "plk s j = Some d" using assms(1) unfolding lock_owner_inv_def by blast
    with l \<open>cpc s d = SleepReleased j ch\<close> assms(2) show False by simp
  qed
  then show ?thesis using assms(3) by (simp add: waiting_def)
qed

lemma cond_sleep_panic:
  assumes C: "cond_inv s" and c: "cpc s c = SleepReleased p ch"
  shows "cond_inv (goto c (Panicked p) s)" (is "cond_inv ?t")
proof -
  have t: "cpc ?t = (cpc s)(c := Panicked p)" "clk ?t = clk s" "cnd ?t = cnd s"
    "pst ?t = pst s" "pch ?t = pch s" by (simp_all add: goto_def)
  have k: "waker_at ?t d q ch' j \<longleftrightarrow> waker_at s d q ch' j" for d q ch' j
    using c by (auto simp: waker_at_def t(1))
  have sh: "cpc ?t d = SleepHeld q ch' \<longleftrightarrow> cpc s d = SleepHeld q ch'" for d q ch'
    using c by (auto simp: t(1))
  have "waiting s ch' q" if "waiting ?t ch' q" for ch' q
    using that by (auto simp: waiting_def t split: if_splits)
  then show ?thesis
    using C unfolding cond_inv_def k sh t(2,3) by blast
qed

lemma run_not_waiting:
  assumes "run_inv s" "thread (cpc s c) = Some p" "\<forall>ch. cpc s c \<noteq> SleepReleased p ch"
  shows "\<not> waiting s ch p"
proof -
  have "cpc s d \<noteq> SleepReleased p ch" for d
  proof
    assume a: "cpc s d = SleepReleased p ch"
    then have "c = d" using run_invD(4) [OF assms(1,2), of d] by simp
    with a assms(3) show False by blast
  qed
  moreover have "pst s p = RUNNING" by (rule run_invD(1) [OF assms(1,2)])
  ultimately show ?thesis by (simp add: waiting_def)
qed

lemma cond_plain_moves:
  "cond_inv s \<Longrightarrow> plain (cpc s c) \<Longrightarrow> plain pc \<Longrightarrow> cond_inv (goto c pc s)"
  "cond_inv s \<Longrightarrow> plain (cpc s c) \<Longrightarrow> plain pc \<Longrightarrow> cond_inv (lock_to c p pc s)"
  "cond_inv s \<Longrightarrow> plain (cpc s c) \<Longrightarrow> plain pc \<Longrightarrow> cond_inv (unlock_to c p pc s)"
  by (rule cond_plain [of s _ c pc]; simp add: step_defs)+

lemma cond_fewer:
  assumes "cond_inv s" "cpc t = cpc s" "clk t = clk s" "cnd t = cnd s"
    and "\<And>q ch. pst t q = SLEEPING \<Longrightarrow> pch t q = Some ch \<Longrightarrow> pst s q = SLEEPING \<and> pch s q = Some ch"
  shows "cond_inv t"
proof -
  have "waker_at t = waker_at s" by (simp add: fun_eq_iff waker_at_def assms(2))
  moreover have "waiting s ch q" if "waiting t ch q" for ch q
    using that assms(2,5) by (auto simp: waiting_def)
  ultimately show ?thesis using assms(1) unfolding cond_inv_def assms(2-4) by metis
qed

lemma cond_updates:
  "cond_inv s \<Longrightarrow> st \<noteq> SLEEPING \<Longrightarrow> cond_inv (set_st j st s)"
  "cond_inv s \<Longrightarrow> cond_inv (s\<lparr>pch := (pch s)(j := None)\<rparr>)"
  "cond_inv s \<Longrightarrow> cond_inv (s\<lparr>cpr := x\<rparr>)"
  by (rule cond_fewer [of s]; auto simp: set_st_def split: if_splits)+

lemma cond_step:
  "sstep c s t \<Longrightarrow> lock_owner_inv s \<Longrightarrow> run_inv s \<Longrightarrow> proc_inv s \<Longrightarrow> cond_inv s \<Longrightarrow> cond_inv t"
proof (induction rule: sstep.induct)
  case (cond_lock s c x ch)
  then show ?case by (intro cond_step_cond(1)) auto
next
  case (cond_unlock s c x ch)
  then show ?case by (intro cond_step_cond(2)) auto
next
  case (exit_release s c p ch)
  then show ?case by (intro cond_step_cond(2)) auto
next
  case (cond_clear s c x ch)
  then show ?case by (intro cond_step_cond(3)) auto
next
  case (cond_set s c x ch)
  show ?case
  proof (rule cond_enter [OF cond_set.prems(4), of c "Wake x ch 0" x ch])
    fix d q assume d: "cpc s d = SleepHeld q ch"
    then have "d = c" using cond_invD(1) [OF cond_set.prems(4) d] cond_set.hyps(2) by simp
    then show "\<not> cnd (goto c (Wake x ch 0) (s\<lparr>cnd := (cnd s)(ch := True)\<rparr>)) ch"
      using d cond_set.hyps(1) by simp
  qed (use cond_set.hyps in \<open>auto simp: goto_def split: if_splits\<close>)
next
  case (wake_call s c x ch)
  show ?case
  proof (rule cond_enter [OF wake_call.prems(4), of c "Wake x ch 0" x ch])
    fix d q assume d: "cpc s d = SleepHeld q ch"
    then show "\<not> cnd (goto c (Wake x ch 0) s) ch"
      using cond_invD(2) [OF wake_call.prems(4) d] by (simp add: goto_def)
  qed (use wake_call.hyps in \<open>auto simp: goto_def\<close>)
next
  case (sleep_lock s c p ch)
  show ?case
    by (rule cond_enter [OF sleep_lock.prems(4), of c "SleepHeld p ch" _ ch p])
      (use sleep_lock.hyps in \<open>auto simp: lock_to_def\<close>)
next
  case (sleep_release s c p ch)
  then show ?case by (intro cond_sleep_release)
next
  case (sleep_switch s c p ch)
  then show ?case by (intro cond_sleep_switch) auto
next
  case (sleep_panic s c p ch)
  then show ?case by (intro cond_sleep_panic) auto
next
  case (wake_self s c x ch j)
  have "thread (cpc s c) = Some j"
    using wake_self.prems(3) wake_self.hyps(1,3) by (auto simp: proc_inv_def on_cpu_def dest: spec [of _ c])
  then have "\<not> waiting s ch j" by (rule run_not_waiting [OF wake_self.prems(2)]) (use wake_self.hyps in auto)
  then show ?case
    using wake_self.hyps
    by (intro cond_scan [OF wake_self.prems(4), of c x ch j "Wake x ch (j + 1)"])
      (auto simp: waker_at_def goto_def waiting_def split: if_splits)
next
  case (wake_lock s c x ch j)
  then show ?case
    by (intro cond_scan [OF wake_lock.prems(4), of c x ch j "WakeHeld x ch j"])
      (auto simp: waker_at_def lock_to_def waiting_def split: if_splits)
next
  case (wake_hit s c x ch j)
  have nr: "cpc s d \<noteq> SleepReleased j ch" for d
    using run_invD(1) [OF wake_hit.prems(2), of d j] wake_hit.hyps(2) by auto
  show ?case
    by (rule cond_scan [OF wake_hit.prems(4), of c x ch j "Wake x ch (j + 1)"])
      (use wake_hit.hyps nr in \<open>auto simp: waker_at_def unlock_to_def set_st_def waiting_def split: if_splits\<close>)
next
  case (wake_miss s c x ch j)
  have "\<not> waiting s ch j"
    by (rule sleep_not_waiting [OF wake_miss.prems(1) wake_miss.hyps])
  then show ?case
    using wake_miss.hyps
    by (intro cond_scan [OF wake_miss.prems(4), of c x ch j "Wake x ch (j + 1)"])
      (auto simp: waker_at_def unlock_to_def waiting_def split: if_splits)
next
  case (wake_done s c x ch j)
  then show ?case
    by (intro cond_scan [OF wake_done.prems(4), of c x ch j "Body x"])
      (auto simp: waker_at_def goto_def waiting_def split: if_splits)
qed (auto intro!: cond_plain_moves cond_updates)

lemma cond_intr: "sintr c s t \<Longrightarrow> cond_inv s \<Longrightarrow> cond_inv t"
  by (induction rule: sintr.induct) (auto intro!: cond_plain_moves)

lemma sreach_inv: "sreach s \<Longrightarrow> lock_owner_inv s \<and> run_inv s \<and> proc_inv s \<and> cond_inv s"
proof (induction rule: sreach.induct)
  case (init s)
  then have "lock_owner_inv s" "run_inv s" "proc_inv s"
    by (auto simp: sinit_def lock_owner_inv_def run_inv_def proc_inv_def on_cpu_def)
      (metis insertE procstate.distinct singletonD)
  moreover have "pst s q \<noteq> SLEEPING" for q using init unfolding sinit_def by (metis insertE procstate.distinct singletonD)
  ultimately show ?case using init by (auto simp: sinit_def cond_inv_def waiting_def waker_at_def)
next
  case (step s c t)
  then show ?case using lock_owner_step proc_inv_step run_step cond_step by blast
next
  case (intr s c t)
  then show ?case using sintr_inv run_intr cond_intr by blast
qed

section \<open>The scheduler finds a runnable process\<close>

lemma goto_goto [simp]: "goto c x (goto c y s) = goto c x s" "cpc (goto c x s) c = x" "plk (goto c x s) = plk s"
  "pst (goto c x s) = pst s" "cpr (goto c x s) = cpr s"
  by (simp_all add: goto_def)

text \<open>CPU \<open>c\<close> gets from one state to another in steps of its own, each the only one it can take.\<close>

inductive forced :: "nat \<Rightarrow> ssys \<Rightarrow> ssys \<Rightarrow> bool" where
  here: "forced c s s"
| onward: "sstep c s u \<Longrightarrow> (\<And>v. sstep c s v \<Longrightarrow> v = u) \<Longrightarrow> forced c u t \<Longrightarrow> forced c s t"












section \<open>Properties\<close>

text \<open>A machine with one runnable process, and the same after CPU 0 has dispatched it.\<close>

definition ssys0 :: ssys where
  "ssys0 = \<lparr>pst = \<lambda>p. if p = 0 then RUNNABLE else UNUSED, pch = \<lambda>_. None, plk = \<lambda>_. None, cpr = \<lambda>_. None,
     cpc = \<lambda>_. Top, cnd = \<lambda>ch. ch = ChTicks, clk = \<lambda>_. None\<rparr>"

definition ssys1 :: ssys where
  "ssys1 = goto 0 (Resume 0) (set_st 0 RUNNING (lock_to 0 0 (ScanHeld False 0) ssys0\<lparr>cpr := (\<lambda>_. None)(0 := Some 0)\<rparr>))"

lemma ssys0_reach: "sreach ssys0"
  by (rule sreach.init) (simp add: sinit_def ssys0_def)

lemma forced_reach: "forced c s t \<Longrightarrow> sreach s \<Longrightarrow> sreach t"
  by (induction rule: forced.induct) (blast intro: sreach.step)+

lemma ssys1_reach: "sreach ssys1"
proof -
  let ?a = "goto 0 (Scan False 0) ssys0"
  let ?b = "lock_to 0 0 (ScanHeld False 0) ?a"
  have "sstep 0 ssys0 ?a" by (rule sstep.scan_start) (simp add: ssys0_def)
  moreover have "sstep 0 ?a ?b" by (rule sstep.scan_lock) (simp_all add: ssys0_def NPROC_def goto_def)
  moreover have "sstep 0 ?b (goto 0 (Resume 0) (set_st 0 RUNNING (?b\<lparr>cpr := (cpr ?b)(0 := Some 0)\<rparr>)))"
    by (rule sstep.dispatch [where f = False]) (simp_all add: ssys0_def lock_to_def goto_def)
  moreover have "goto 0 (Resume 0) (set_st 0 RUNNING (?b\<lparr>cpr := (cpr ?b)(0 := Some 0)\<rparr>)) = ssys1"
    by (simp add: ssys1_def step_defs ssys0_def)
  ultimately show ?thesis using ssys0_reach by (metis sreach.step)
qed

text \<open>
  C14. In every reachable state of any number of CPUs running the scheduler, a process is
  RUNNING exactly when one CPU executes its kernel thread, and then exactly one does, the one
  whose \<^verbatim>\<open>c->proc\<close> points to it; a process in any other state is on no CPU, so no kernel stack
  is ever in use twice. The lock of a process is held by the one CPU that is at a place of the
  code that holds it, across the switches included.
\<close>

theorem sched_one_cpu_per_process:
  assumes "sreach s"
  shows "(pst s p = RUNNING \<longleftrightarrow> (\<exists>!c. thread (cpc s c) = Some p)) \<and>
    (pst s p \<noteq> RUNNING \<longleftrightarrow> (\<nexists>c. thread (cpc s c) = Some p)) \<and>
    {c. thread (cpc s c) = Some p} \<subseteq> {c. cpr s c = Some p} \<and>
    {c. lock_at (cpc s c) = Some p} = {c. plk s p = Some c}"
proof -
  have I: "lock_owner_inv s" "run_inv s" using sreach_inv [OF assms] by auto
  show ?thesis
    using run_invD [OF I(2)] I(1) unfolding lock_owner_inv_def by (intro conjI) blast+
qed

theorem sched_one_cpu_per_process_witness:
  "pst ssys1 0 = RUNNING \<and> (\<exists>!c. thread (cpc ssys1 c) = Some 0) \<and> pst ssys1 1 \<noteq> RUNNING \<and> plk ssys1 0 = Some 0"
proof -
  have "pst ssys1 0 = RUNNING" "pst ssys1 1 \<noteq> RUNNING" "plk ssys1 0 = Some 0"
    by (simp_all add: ssys1_def goto_def set_st_def lock_to_def ssys0_def)
  then show ?thesis using sched_one_cpu_per_process [OF ssys1_reach, of 0] by blast
qed

text \<open>
  C22. No lost wakeup: when every sleeper calls \<^verbatim>\<open>sleep\<close> with the condition's lock held and the
  condition false, and whoever makes the condition true calls \<^verbatim>\<open>wakeup\<close> before releasing that
  lock, then in every reachable state with the condition true and its lock free no process
  sleeps on the channel, nor is one on its way into \<^verbatim>\<open>sleep\<close> past the release of the lock.
\<close>

theorem sched_no_lost_wakeup:
  assumes "sreach s" and "cnd s ch" and "clk s ch = None" and "q < NPROC"
  shows "\<not> (pst s q = SLEEPING \<and> pch s q = Some ch) \<and> (\<forall>c. cpc s c \<noteq> SleepReleased q ch)"
proof -
  have C: "cond_inv s" using sreach_inv [OF assms(1)] by simp
  have "\<not> waiting s ch q"
  proof
    assume "waiting s ch q"
    from cond_invD(4) [OF C assms(2,4) this] obtain c p j where "waker_at s c p ch j" by blast
    from cond_invD(3) [OF C this] assms(3) show False by simp
  qed
  then show ?thesis by (auto simp: waiting_def)
qed

theorem sched_no_lost_wakeup_witness:
  "\<not> (pst ssys1 1 = SLEEPING \<and> pch ssys1 1 = Some ChTicks)"
  using sched_no_lost_wakeup [OF ssys1_reach, of ChTicks 1]
  by (simp add: ssys1_def goto_def set_st_def lock_to_def ssys0_def NPROC_def)



end
