(* ===== verification/Printf.thy ===== *)
theory Printf
  imports Xv6_Prelude
begin

text \<open>
  \<^verbatim>\<open>kernel/printf.c\<close> and \<^verbatim>\<open>user/printf.c\<close>. Formatting is a function from the format string and
  the variable arguments to the characters printed; \<open>None\<close> stands for reading an argument
  that is not there or has another type, which C leaves undefined.
\<close>

section \<open>Numbers\<close>

text \<open>
  The \<^verbatim>\<open>do ... while\<close> loop that fills \<^verbatim>\<open>buf\<close>, least significant digit first. The callers use
  base 10 and 16 only.
\<close>

function digit_buf :: "string \<Rightarrow> nat \<Rightarrow> nat \<Rightarrow> string" where
  "digit_buf digits base x =
     digits ! (x mod base) #
     (if x div base \<noteq> 0 \<and> 2 \<le> base then digit_buf digits base (x div base) else [])"
  by pat_completeness auto
termination
  by (relation "measure (\<lambda>(d, b, x). x)") (auto intro!: div_less_dividend intro: gr0I)

declare digit_buf.simps [simp del]

definition printint_buf :: "string \<Rightarrow> u64 \<Rightarrow> nat \<Rightarrow> bool \<Rightarrow> string" where
  "printint_buf digits xx base sign =
     (let neg = sign \<and> xx <s 0; x = if neg then - xx else xx
      in digit_buf digits base (unat x) @ (if neg then ''-'' else []))"

definition kdigits :: string where "kdigits = ''0123456789abcdef''"

definition print_digits :: "string \<Rightarrow> u64 \<Rightarrow> nat \<Rightarrow> bool \<Rightarrow> string" where
  "print_digits digits xx base sign = rev (printint_buf digits xx base sign)"

definition printint :: "u64 \<Rightarrow> nat \<Rightarrow> bool \<Rightarrow> string" where
  "printint xx base sign = print_digits kdigits xx base sign"

fun hex16 :: "string \<Rightarrow> nat \<Rightarrow> u64 \<Rightarrow> string" where
  "hex16 digits 0 x = []"
| "hex16 digits (Suc n) x = digits ! unat (drop_bit 60 x) # hex16 digits n (push_bit 4 x)"

definition printptr :: "string \<Rightarrow> u64 \<Rightarrow> string" where
  "printptr digits x = ''0x'' @ hex16 digits 16 x"

section \<open>Conversions\<close>

text \<open>A variable argument: a register's contents or a string pointer, \<open>None\<close> when null.\<close>

datatype arg = Num u64 | Str "string option"

text \<open>What \<^verbatim>\<open>va_arg(ap, int)\<close> and \<^verbatim>\<open>va_arg(ap, uint32)\<close> make of a register.\<close>

definition as_int :: "u64 \<Rightarrow> u64" where "as_int w = scast (ucast w :: u32)"
definition as_uint :: "u64 \<Rightarrow> u64" where "as_uint w = ucast (ucast w :: u32)"

definition chr_at :: "string \<Rightarrow> nat \<Rightarrow> char" where
  "chr_at cs i = (if i < length cs then cs ! i else CHR 0x00)"

text \<open>
  One conversion after a \<^verbatim>\<open>%\<close> and what it prints with a table of digits, with the arguments left. \<^verbatim>\<open>consputc\<close>
  turns the code \<^verbatim>\<open>BACKSPACE\<close>, 256, into three characters, also when it comes from \<^verbatim>\<open>%c\<close>.
\<close>

datatype conv = Signed "u64 \<Rightarrow> u64" | Unsigned "u64 \<Rightarrow> u64" nat | Pointer | Character | StringConv
  | Literal string

definition code_out :: "u32 \<Rightarrow> string" where
  "code_out c = (if c = 0x100 then [CHR 0x08, CHR '' '', CHR 0x08] else [char_of (unat (c AND 0xFF))])"

fun conv_out :: "string \<Rightarrow> conv \<Rightarrow> arg list \<Rightarrow> (string \<times> arg list) option" where
  "conv_out ds (Signed f) (Num w # as) = Some (print_digits ds (f w) 10 True, as)"
| "conv_out ds (Unsigned f b) (Num w # as) = Some (print_digits ds (f w) b False, as)"
| "conv_out ds Pointer (Num w # as) = Some (printptr ds w, as)"
| "conv_out ds Character (Num w # as) = Some (code_out (ucast w), as)"
| "conv_out ds StringConv (Str s # as) = Some (case s of None \<Rightarrow> ''(null)'' | Some t \<Rightarrow> t, as)"
| "conv_out ds (Literal t) as = Some (t, as)"
| "conv_out ds _ _ = None"

text \<open>
  The chain of tests on \<^verbatim>\<open>c0\<close>, \<^verbatim>\<open>c1\<close>, \<^verbatim>\<open>c2\<close>, with the number of characters of the format it takes
  (\<^verbatim>\<open>i += 1\<close> and \<^verbatim>\<open>i += 2\<close> after the first). \<^verbatim>\<open>c0 == 0\<close> is tested by the callers.
\<close>

definition conversion :: "char \<Rightarrow> char \<Rightarrow> char \<Rightarrow> conv \<times> nat" where
  "conversion c0 c1 c2 =
     (if c0 = CHR ''d'' then (Signed as_int, 1)
      else if c0 = CHR ''l'' \<and> c1 = CHR ''d'' then (Signed id, 2)
      else if c0 = CHR ''l'' \<and> c1 = CHR ''l'' \<and> c2 = CHR ''d'' then (Signed id, 3)
      else if c0 = CHR ''u'' then (Unsigned as_uint 10, 1)
      else if c0 = CHR ''l'' \<and> c1 = CHR ''u'' then (Unsigned id 10, 2)
      else if c0 = CHR ''l'' \<and> c1 = CHR ''l'' \<and> c2 = CHR ''u'' then (Unsigned id 10, 3)
      else if c0 = CHR ''x'' then (Unsigned as_uint 16, 1)
      else if c0 = CHR ''l'' \<and> c1 = CHR ''x'' then (Unsigned id 16, 2)
      else if c0 = CHR ''l'' \<and> c1 = CHR ''l'' \<and> c2 = CHR ''x'' then (Unsigned id 16, 3)
      else if c0 = CHR ''p'' then (Pointer, 1)
      else if c0 = CHR ''c'' then (Character, 1)
      else if c0 = CHR ''s'' then (StringConv, 1)
      else if c0 = CHR ''%'' then (Literal ''%'', 1)
      else (Literal [CHR ''%'', c0], 1))"

lemma conversion_pos: "conversion c0 c1 c2 = (c, n) \<Longrightarrow> 0 < n"
  by (auto simp: conversion_def split: if_splits)

section \<open>The kernel's printf\<close>

text \<open>
  The format is the characters before its NUL. The table \<^verbatim>\<open>digits\<close> of the file is an argument; the
  kernel's is \<open>kdigits\<close>.
\<close>

function vformat :: "string \<Rightarrow> string \<Rightarrow> arg list \<Rightarrow> string option" where
  "vformat ds [] as = Some []"
| "vformat ds (cx # fmt) as =
     (if cx \<noteq> CHR ''%'' then map_option ((#) cx) (vformat ds fmt as)
      else let c0 = chr_at fmt 0;
               c1 = (if c0 \<noteq> CHR 0x00 then chr_at fmt 1 else CHR 0x00);
               c2 = (if c1 \<noteq> CHR 0x00 then chr_at fmt 2 else CHR 0x00)
        in if c0 = CHR 0x00 then Some []
           else case conversion c0 c1 c2 of (c, n) \<Rightarrow>
             (case conv_out ds c as of None \<Rightarrow> None
              | Some (t, as) \<Rightarrow> map_option ((@) t) (vformat ds (drop n fmt) as)))"
  by pat_completeness auto
termination
  by (relation "measure (\<lambda>(ds, fmt, as). length fmt)") auto

declare vformat.simps(2) [simp del]

definition printf :: "string \<Rightarrow> arg list \<Rightarrow> 'x kcore_scheme \<Rightarrow> (unit, 'x kcore_scheme) res" where
  "printf fmt as s =
     bnd (acquire PrLock s) (\<lambda>_ s.
       case vformat kdigits fmt as of None \<Rightarrow> Panic ''va_arg''
       | Some t \<Rightarrow> release PrLock (kprint t s))"

section \<open>The user library's printf\<close>

text \<open>
  \<^verbatim>\<open>user/printf.c\<close> has functions of its own, given here as that file has them. First \<^verbatim>\<open>printint\<close> with
  its loop over the digits, and \<^verbatim>\<open>printptr\<close>.
\<close>

definition udigits :: string where "udigits = ''0123456789ABCDEF''"

function udigit_buf :: "nat \<Rightarrow> nat \<Rightarrow> string" where
  "udigit_buf base x =
     udigits ! (x mod base) # (let x = x div base in if x \<noteq> 0 \<and> 2 \<le> base then udigit_buf base x else [])"
  by pat_completeness auto
termination
  by (relation "measure (\<lambda>(b, x). x)") (auto intro!: div_less_dividend intro: gr0I)

declare udigit_buf.simps [simp del]

definition uprintint :: "u64 \<Rightarrow> nat \<Rightarrow> bool \<Rightarrow> string" where
  "uprintint xx base sign =
     (let neg = sign \<and> xx <s 0;
          x = (if neg then - xx else xx);
          buf = udigit_buf base (unat x);
          buf = (if neg then buf @ ''-'' else buf)
      in rev buf)"

fun uptr_digits :: "nat \<Rightarrow> u64 \<Rightarrow> string" where
  "uptr_digits 0 x = []"
| "uptr_digits (Suc n) x = udigits ! unat (drop_bit 60 x) # uptr_digits n (push_bit 4 x)"

definition uprintptr :: "u64 \<Rightarrow> string" where
  "uprintptr x = CHR ''0'' # CHR ''x'' # uptr_digits 16 x"

text \<open>
  The chain of tests of \<^verbatim>\<open>vprintf\<close> in the state \<^verbatim>\<open>'%'\<close>: what is printed, the arguments left and what is
  added to \<^verbatim>\<open>i\<close>. \<open>num_arg\<close> and \<open>str_arg\<close> are \<^verbatim>\<open>va_arg\<close>; \<^verbatim>\<open>putc\<close> cuts its argument to a \<^verbatim>\<open>char\<close>.
\<close>

definition num_arg :: "arg list \<Rightarrow> (u64 \<Rightarrow> string) \<Rightarrow> nat \<Rightarrow> (string \<times> arg list \<times> nat) option" where
  "num_arg as f n = (case as of Num w # as \<Rightarrow> Some (f w, as, n) | _ \<Rightarrow> None)"

definition str_arg :: "arg list \<Rightarrow> (string option \<Rightarrow> string) \<Rightarrow> (string \<times> arg list \<times> nat) option" where
  "str_arg as f = (case as of Str s # as \<Rightarrow> Some (f s, as, 0) | _ \<Rightarrow> None)"

definition uconv :: "char \<Rightarrow> char \<Rightarrow> char \<Rightarrow> arg list \<Rightarrow> (string \<times> arg list \<times> nat) option" where
  "uconv c0 c1 c2 as =
     (if c0 = CHR ''d'' then num_arg as (\<lambda>w. uprintint (as_int w) 10 True) 0
      else if c0 = CHR ''l'' \<and> c1 = CHR ''d'' then num_arg as (\<lambda>w. uprintint w 10 True) 1
      else if c0 = CHR ''l'' \<and> c1 = CHR ''l'' \<and> c2 = CHR ''d'' then num_arg as (\<lambda>w. uprintint w 10 True) 2
      else if c0 = CHR ''u'' then num_arg as (\<lambda>w. uprintint (as_uint w) 10 False) 0
      else if c0 = CHR ''l'' \<and> c1 = CHR ''u'' then num_arg as (\<lambda>w. uprintint w 10 False) 1
      else if c0 = CHR ''l'' \<and> c1 = CHR ''l'' \<and> c2 = CHR ''u'' then num_arg as (\<lambda>w. uprintint w 10 False) 2
      else if c0 = CHR ''x'' then num_arg as (\<lambda>w. uprintint (as_uint w) 16 False) 0
      else if c0 = CHR ''l'' \<and> c1 = CHR ''x'' then num_arg as (\<lambda>w. uprintint w 16 False) 1
      else if c0 = CHR ''l'' \<and> c1 = CHR ''l'' \<and> c2 = CHR ''x'' then num_arg as (\<lambda>w. uprintint w 16 False) 2
      else if c0 = CHR ''p'' then num_arg as uprintptr 0
      else if c0 = CHR ''c'' then num_arg as (\<lambda>w. [char_of (unat (ucast w :: u8))]) 0
      else if c0 = CHR ''s'' then str_arg as (\<lambda>s. case s of None \<Rightarrow> ''(null)'' | Some t \<Rightarrow> t)
      else if c0 = CHR ''%'' then Some (''%'', as, 0)
      else Some (CHR ''%'' # [c0], as, 0))"

text \<open>\<open>st\<close> is the variable \<^verbatim>\<open>state\<close>, true after a \<^verbatim>\<open>%\<close>; the format is what is left from \<^verbatim>\<open>fmt[i]\<close> on.\<close>

function uvprintf :: "bool \<Rightarrow> string \<Rightarrow> arg list \<Rightarrow> string option" where
  "uvprintf st [] as = Some []"
| "uvprintf st (c0 # fmt) as =
     (if \<not> st
      then if c0 = CHR ''%'' then uvprintf True fmt as
           else map_option ((#) c0) (uvprintf False fmt as)
      else let c1 = (if c0 \<noteq> CHR 0x00 then chr_at fmt 0 else CHR 0x00);
               c2 = (if c1 \<noteq> CHR 0x00 then chr_at fmt 1 else CHR 0x00)
        in case uconv c0 c1 c2 as of None \<Rightarrow> None
           | Some (t, as, n) \<Rightarrow> map_option ((@) t) (uvprintf False (drop n fmt) as))"
  by pat_completeness auto
termination
  by (relation "measure (\<lambda>(st, fmt, as). length fmt)") auto

declare uvprintf.simps(2) [simp del]

definition uprintf :: "string \<Rightarrow> arg list \<Rightarrow> string option" where
  "uprintf fmt as = uvprintf False fmt as"

section \<open>Properties\<close>

lemma digit_buf_length:
  assumes "2 \<le> b" "x < b ^ n" "0 < n"
  shows "length (digit_buf ds b x) \<le> n"
  using assms
proof (induction n arbitrary: x)
  case 0
  then show ?case by simp
next
  case (Suc n)
  show ?case
  proof (cases "x div b = 0")
    case True
    then show ?thesis by (simp add: digit_buf.simps)
  next
    case False
    have d: "x div b < b ^ n" using Suc.prems(1,2) by (simp add: div_less_iff_less_mult mult.commute)
    with False have "0 < n" by (cases n) auto
    with Suc.IH [OF Suc.prems(1) d] False Suc.prems(1) show ?thesis by (subst digit_buf.simps) simp
  qed
qed

text \<open>The number a list of digits denotes, least significant digit first.\<close>

fun digits_val :: "nat \<Rightarrow> nat list \<Rightarrow> nat" where
  "digits_val b [] = 0"
| "digits_val b (d # ds) = d + b * digits_val b ds"

lemma digit_buf_digits:
  assumes "2 \<le> b"
  shows "\<exists>ds. digit_buf cs b x = map ((!) cs) ds \<and> digits_val b ds = x \<and> (\<forall>d \<in> set ds. d < b) \<and> ds \<noteq> [] \<and>
    (last ds = 0 \<longrightarrow> ds = [0])"
proof (induction x rule: less_induct)
  case (less x)
  show ?case
  proof (cases "x div b = 0")
    case True
    then have "x mod b = x" using assms by (simp add: div_eq_0_iff)
    with True assms show ?thesis by (intro exI [of _ "[x]"]) (auto simp: digit_buf.simps div_eq_0_iff)
  next
    case False
    then have lt: "x div b < x" using assms by (intro div_less_dividend) (auto intro: gr0I)
    obtain ds where ds: "digit_buf cs b (x div b) = map ((!) cs) ds"
      "digits_val b ds = x div b" "\<forall>d\<in>set ds. d < b" "ds \<noteq> []" "last ds = 0 \<longrightarrow> ds = [0]" using less.IH [OF lt] by (elim exE conjE) (rule that)
    have "ds \<noteq> [0]" using ds(2) False by auto
    have "digit_buf cs b x = cs ! (x mod b) # digit_buf cs b (x div b)"
      using False assms by (subst digit_buf.simps) simp
    then have "digit_buf cs b x = map ((!) cs) (x mod b # ds)" by (simp add: ds(1))
    moreover have "digits_val b (x mod b # ds) = x" by (simp add: ds(2))
    moreover have "\<forall>d \<in> set (x mod b # ds). d < b" using ds(3) assms by simp
    moreover have "x mod b # ds \<noteq> []" by simp
    moreover have "last (x mod b # ds) = 0 \<longrightarrow> x mod b # ds = [0]"
      using ds(4,5) \<open>ds \<noteq> [0]\<close> by simp
    ultimately show ?thesis by (intro exI conjI)
  qed
qed

text \<open>
  C38. Number printing: for every 64-bit value and the two bases used, \<^verbatim>\<open>printint\<close> fills at most
  the 20 bytes of its buffer, and what it prints is the minus sign of a negative signed value
  followed by the digits of the magnitude without leading zeros; the smallest negative number,
  which \<^verbatim>\<open>x = -xx\<close> wraps on, included.
\<close>

theorem printint_correct:
  assumes "b = 10 \<or> b = 16"
  shows "length (printint_buf kdigits w b sign) \<le> 20 \<and>
    (\<exists>ds. printint w b sign =
        (if sign \<and> sint w < 0 then ''-'' else []) @ map ((!) kdigits) (rev ds) \<and>
      int (digits_val b ds) = (if sign then \<bar>sint w\<bar> else uint w) \<and>
      (\<forall>d \<in> set ds. d < b) \<and> ds \<noteq> [] \<and> (last ds = 0 \<longrightarrow> ds = [0]))"
proof -
  define neg where "neg \<longleftrightarrow> sign \<and> sint w < 0"
  define x where "x = (if neg then - w else w)"
  have b2: "2 \<le> b" using assms by auto
  have buf: "printint_buf kdigits w b sign = digit_buf kdigits b (unat x) @ (if neg then ''-'' else [])"
    by (simp add: printint_buf_def neg_def x_def word_sless_alt Let_def)
  have xv: "int (unat x) = (if sign then \<bar>sint w\<bar> else uint w)"
  proof (cases neg)
    case True
    then have s: "sign" "sint w < 0" by (simp_all add: neg_def)
    have "w \<noteq> 0" using s(2) by auto
    moreover have "sint w = uint w - 2 ^ 64" using sint_as_uint [of w] s(2) by simp
    ultimately show ?thesis using True s uint_minus [of w] by (simp add: x_def)
  next
    case False
    then show ?thesis
      using sint_as_uint [of w] by (auto simp: x_def neg_def not_less)
  qed
  have "length (digit_buf kdigits b (unat x)) + (if neg then 1 else 0) \<le> 20"
  proof (cases neg)
    case True
    have "sint w \<ge> - (2 ^ 63)" using sint_ge [of w] by simp
    moreover have "int (unat x) = - sint w" using xv True by (simp add: neg_def)
    ultimately have "int (unat x) \<le> int (2 ^ 63)" by simp
    then have "unat x \<le> 2 ^ 63" by (simp only: of_nat_le_iff)
    then have "unat x < b ^ 19" using assms by auto
    then show ?thesis using digit_buf_length [OF b2, of "unat x" 19 kdigits] True by simp
  next
    case False
    have "unat x < 2 ^ 64" using unsigned_less [of x] by simp
    then have "unat x < b ^ 20" using assms by auto
    then show ?thesis using digit_buf_length [OF b2, of "unat x" 20 kdigits] False by simp
  qed
  then have "length (printint_buf kdigits w b sign) \<le> 20" by (auto simp: buf split: if_splits)
  moreover obtain ds where ds: "digit_buf kdigits b (unat x) = map ((!) kdigits) ds"
      "digits_val b ds = unat x" "\<forall>d \<in> set ds. d < b" "ds \<noteq> []" "last ds = 0 \<longrightarrow> ds = [0]"
    using digit_buf_digits [OF b2, of kdigits "unat x"] by (elim exE conjE) (rule that)
  moreover have "printint w b sign = (if sign \<and> sint w < 0 then ''-'' else []) @ map ((!) kdigits) (rev ds)"
    by (simp add: printint_def print_digits_def buf ds(1) rev_map neg_def)
  moreover have "int (digits_val b ds) = (if sign then \<bar>sint w\<bar> else uint w)" using ds(2) xv by simp
  ultimately show ?thesis using ds(3,4,5) by (intro conjI exI [of _ ds]) assumption+
qed

theorem printint_correct_witness:
  "printint (- 42) 10 True = ''-42'' \<and>
   (\<exists>ds. printint 0x8000000000000000 10 True = ''-'' @ map ((!) kdigits) (rev ds) \<and>
      digits_val 10 ds = 9223372036854775808)"
proof -
  have "printint (- 42) 10 True = ''-42''" by code_simp
  moreover have "sint (0x8000000000000000 :: u64) = - 9223372036854775808" by code_simp
  ultimately show ?thesis
    using printint_correct [of 10 "0x8000000000000000" True] by (auto simp del: of_nat_eq_iff)
qed

section \<open>The two machines\<close>

lemma udigit_buf_eq: "udigit_buf base x = digit_buf udigits base x"
proof (induction x rule: less_induct)
  case (less x)
  have "x div base < x" if "x div base \<noteq> 0" "2 \<le> base"
    using that by (intro div_less_dividend) (auto intro: gr0I)
  then show ?case
    using less.IH by (subst udigit_buf.simps, subst digit_buf.simps) (simp add: Let_def)
qed

lemma uprintint_eq: "uprintint xx base sign = print_digits udigits xx base sign"
  by (simp add: uprintint_def print_digits_def printint_buf_def udigit_buf_eq Let_def)

lemma uprintptr_eq: "uprintptr x = printptr udigits x"
proof -
  have "uptr_digits n y = hex16 udigits n y" for n y by (induction n arbitrary: y) simp_all
  then show ?thesis by (simp add: uprintptr_def printptr_def)
qed

lemma code_out_char:
  assumes "(ucast w :: u32) \<noteq> 0x100"
  shows "code_out (ucast w) = [char_of (unat (ucast (w :: u64) :: u8))]"
proof -
  have "unat ((ucast w :: u32) AND 0xFF) = unat (ucast w :: u8)"
  proof -
    have "(0xFF :: u32) = mask 8" by (simp add: mask_eq_exp_minus_1)
    then have "(ucast w :: u32) AND 0xFF = take_bit 8 (ucast w)" by (simp add: take_bit_eq_mask)
    then show ?thesis by (simp add: unsigned_ucast_eq unsigned_take_bit_eq)
  qed
  then show ?thesis using assms by (simp add: code_out_def)
qed

text \<open>The code that the two machines treat differently, when it is the argument of a \<^verbatim>\<open>%c\<close>.\<close>

definition no_backspace :: "arg list \<Rightarrow> bool" where
  "no_backspace as \<longleftrightarrow> (\<forall>w. Num w \<in> set as \<longrightarrow> (ucast w :: u32) \<noteq> 0x100)"

lemma uconv_eq:
  assumes "c0 = CHR ''c'' \<longrightarrow> no_backspace as"
  shows "uconv c0 c1 c2 as = (case conversion c0 c1 c2 of (c, n) \<Rightarrow>
     (case conv_out udigits c as of None \<Rightarrow> None | Some (t, as) \<Rightarrow> Some (t, as, n - 1)))"
proof (cases as)
  case Nil
  then show ?thesis by (simp add: uconv_def conversion_def num_arg_def str_arg_def)
next
  case (Cons a bs)
  show ?thesis
  proof (cases a)
    case (Num w)
    have "c0 = CHR ''c'' \<longrightarrow> code_out (ucast w) = [char_of (unat (ucast w :: u8))]"
      using assms Cons Num code_out_char [of w] by (simp add: no_backspace_def)
    then show ?thesis
      using Cons Num by (simp add: uconv_def conversion_def num_arg_def str_arg_def uprintint_eq uprintptr_eq)
  next
    case (Str t)
    then show ?thesis using Cons by (simp add: uconv_def conversion_def num_arg_def str_arg_def)
  qed
qed

lemma conv_out_args: "conv_out ds c as = Some (t, bs) \<Longrightarrow> set bs \<subseteq> set as"
  by (cases "(ds, c, as)" rule: conv_out.cases) auto

text \<open>
  C40. The two implementations of formatted output agree: on every format string the user
  library's state machine, which remembers a pending percent sign and has a chain of conversions and
  printing functions of its own, prints exactly what the kernel's lookahead loop would print with the
  user library's table of digits, argument by argument, including unknown conversions and a percent
  sign at the end. The one exception is the number 256 printed with \<^verbatim>\<open>%c\<close>, which the kernel's console
  takes for a backspace.
\<close>

theorem uprintf_is_vformat:
  assumes "CHR 0x00 \<notin> set fmt" and "CHR ''c'' \<in> set fmt \<longrightarrow> no_backspace as"
  shows "uprintf fmt as = vformat udigits fmt as"
  unfolding uprintf_def
  using assms
proof (induction "length fmt" arbitrary: fmt as rule: less_induct)
  case less
  show ?case
  proof (cases fmt)
    case Nil
    then show ?thesis by simp
  next
    case (Cons cx rest)
    show ?thesis
    proof (cases "cx = CHR ''%''")
      case False
      have "uvprintf False rest as = vformat udigits rest as" by (rule less.hyps) (use less.prems Cons in auto)
      with Cons False show ?thesis by (simp add: uvprintf.simps(2) vformat.simps(2))
    next
      case True
      show ?thesis
      proof (cases rest)
        case Nil
        with Cons True show ?thesis by (simp add: uvprintf.simps(2) vformat.simps(2) chr_at_def)
      next
        case C0: (Cons c0 tl)
        then have c0: "c0 \<noteq> CHR 0x00" "c0 = CHR ''c'' \<longrightarrow> no_backspace as" using less.prems Cons by auto
        define c1 where "c1 = chr_at tl 0"
        define c2 where "c2 = (if c1 \<noteq> CHR 0x00 then chr_at tl 1 else CHR 0x00)"
        obtain c n where cn: "conversion c0 c1 c2 = (c, n)" by fastforce
        then have n: "drop n rest = drop (n - 1) tl" using conversion_pos [OF cn] C0 by (cases n) auto
        have ix: "chr_at rest 0 = c0" "chr_at rest 1 = c1" "chr_at rest 2 = chr_at tl 1"
          using C0 by (simp_all add: chr_at_def c1_def numeral_2_eq_2)
        have IH: "uvprintf False (drop n rest) bs = vformat udigits (drop n rest) bs" if "set bs \<subseteq> set as" for bs
          using that by (intro less.hyps) (use less.prems Cons in \<open>auto simp: no_backspace_def dest: in_set_dropD\<close>)
        have "uvprintf False fmt as = (case conv_out udigits c as of None \<Rightarrow> None
              | Some (t, as) \<Rightarrow> map_option ((@) t) (uvprintf False (drop n rest) as))"
          using Cons True C0 c0(1) cn uconv_eq [OF c0(2), of c1 c2] unfolding n
          by (simp add: uvprintf.simps(2) Let_def c1_def c2_def split: option.split)
        moreover have "vformat udigits fmt as = (case conv_out udigits c as of None \<Rightarrow> None
              | Some (t, as) \<Rightarrow> map_option ((@) t) (vformat udigits (drop n rest) as))"
          using Cons True c0 cn
          by (cases "c1 = CHR 0x00") (simp_all add: vformat.simps(2) Let_def ix c2_def del: One_nat_def)
        ultimately show ?thesis by (auto simp: IH [OF conv_out_args] split: option.splits)
      qed
    qed
  qed
qed

theorem uprintf_is_vformat_witness:
  "uprintf ''%c%lx%'' [Num 65, Num 0xAB] = Some ''AAB'' \<and> vformat udigits ''%c%lx%'' [Num 65, Num 0xAB] = Some ''AAB'' \<and>
   uprintf ''%c'' [Num 0x100] \<noteq> vformat udigits ''%c'' [Num 0x100]"
proof -
  have "uprintf ''%c%lx%'' [Num 65, Num 0xAB] = vformat udigits ''%c%lx%'' [Num 65, Num 0xAB]"
    by (rule uprintf_is_vformat) (simp_all add: no_backspace_def)
  moreover have "vformat udigits ''%c%lx%'' [Num 65, Num 0xAB] = Some ''AAB''" by code_simp
  moreover have "uprintf ''%c'' [Num 0x100] \<noteq> vformat udigits ''%c'' [Num 0x100]" by code_simp
  ultimately show ?thesis by simp
qed

end
