(* ===== verification/Cstring.thy ===== *)
theory Cstring
  imports Xv6_Prelude
begin

text \<open>
  \<^verbatim>\<open>kernel/string.c\<close> and the string functions of \<^verbatim>\<open>user/ulib.c\<close>. The functions that move
  overlapping memory work on a memory of bytes, pointers being addresses; the others get the
  list of bytes a pointer points to, and \<open>None\<close> is a read or write past its end. Plain \<^verbatim>\<open>char\<close> is unsigned in the RISC-V ABI the program is built for.
\<close>

section \<open>Moving bytes\<close>

type_synonym bytes = "nat \<Rightarrow> u8"

fun memset :: "nat \<Rightarrow> u8 \<Rightarrow> nat \<Rightarrow> bytes \<Rightarrow> bytes" where
  "memset dst c 0 m = m"
| "memset dst c (Suc n) m = memset (dst + 1) c n (m(dst := c))"

text \<open>\<^verbatim>\<open>*d++ = *s++\<close>, \<open>n\<close> times, and \<^verbatim>\<open>*--d = *--s\<close>, \<open>n\<close> times.\<close>

fun copy_up :: "nat \<Rightarrow> nat \<Rightarrow> nat \<Rightarrow> bytes \<Rightarrow> bytes" where
  "copy_up d s 0 m = m"
| "copy_up d s (Suc n) m = copy_up (d + 1) (s + 1) n (m(d := m s))"

fun copy_down :: "nat \<Rightarrow> nat \<Rightarrow> nat \<Rightarrow> bytes \<Rightarrow> bytes" where
  "copy_down d s 0 m = m"
| "copy_down d s (Suc n) m = copy_down (d - 1) (s - 1) n (m(d - 1 := m (s - 1)))"

definition memmove :: "nat \<Rightarrow> nat \<Rightarrow> nat \<Rightarrow> bytes \<Rightarrow> bytes" where
  "memmove dst src n m =
     (if n = 0 then m
      else if src < dst \<and> dst < src + n then copy_down (dst + n) (src + n) n m
      else copy_up dst src n m)"

definition memcpy :: "nat \<Rightarrow> nat \<Rightarrow> nat \<Rightarrow> bytes \<Rightarrow> bytes" where
  "memcpy dst src n m = memmove dst src n m"

text \<open>The user library's version compares the pointers only.\<close>

definition umemmove :: "nat \<Rightarrow> nat \<Rightarrow> nat \<Rightarrow> bytes \<Rightarrow> bytes" where
  "umemmove dst src n m =
     (if dst < src then copy_up dst src n m else copy_down (dst + n) (src + n) n m)"

lemma copy_up_eq:
  "d \<le> s \<or> s + n \<le> d \<Longrightarrow> copy_up d s n m = (\<lambda>a. if d \<le> a \<and> a < d + n then m (s + (a - d)) else m a)"
proof (induction n arbitrary: d s m)
  case 0
  then show ?case by (auto simp: fun_eq_iff)
next
  case (Suc n)
  have "copy_up (d + 1) (s + 1) n (m(d := m s)) =
      (\<lambda>a. if d + 1 \<le> a \<and> a < d + 1 + n then (m(d := m s)) (s + 1 + (a - (d + 1))) else (m(d := m s)) a)"
    by (rule Suc.IH) (use Suc.prems in auto)
  moreover have "s + 1 + (a - (d + 1)) \<noteq> d" if "d + 1 \<le> a" "a < d + 1 + n" for a
    using Suc.prems that by auto
  moreover have "Suc (s + a - Suc d) = s + a - d" if "Suc d \<le> a" for a using that by arith
  ultimately show ?case by (auto simp: fun_eq_iff)
qed

lemma copy_down_eq:
  "s \<le> d \<or> d + n \<le> s \<Longrightarrow>
   copy_down (d + n) (s + n) n m = (\<lambda>a. if d \<le> a \<and> a < d + n then m (s + (a - d)) else m a)"
proof (induction n arbitrary: m)
  case 0
  then show ?case by (auto simp: fun_eq_iff)
next
  case (Suc n)
  have "copy_down (d + n) (s + n) n (m(d + n := m (s + n))) =
     (\<lambda>a. if d \<le> a \<and> a < d + n then (m(d + n := m (s + n))) (s + (a - d)) else (m(d + n := m (s + n))) a)"
    by (rule Suc.IH) (use Suc.prems in auto)
  moreover have "s + (a - d) \<noteq> d + n" if "d \<le> a" "a < d + n" for a
    using Suc.prems that by auto
  ultimately show ?case by (auto simp: fun_eq_iff)
qed

section \<open>Comparing bytes\<close>

text \<open>\<^verbatim>\<open>*s1 - *s2\<close> on unsigned characters, as an \<^verbatim>\<open>int\<close>.\<close>

fun memcmp :: "u8 list \<Rightarrow> u8 list \<Rightarrow> nat \<Rightarrow> int option" where
  "memcmp v1 v2 0 = Some 0"
| "memcmp (a # v1) (b # v2) (Suc n) = (if a \<noteq> b then Some (uint a - uint b) else memcmp v1 v2 n)"
| "memcmp _ _ (Suc n) = None"

fun strncmp :: "u8 list \<Rightarrow> u8 list \<Rightarrow> nat \<Rightarrow> int option" where
  "strncmp p q 0 = Some 0"
| "strncmp (a # p) (b # q) (Suc n) = (if a \<noteq> 0 \<and> a = b then strncmp p q n else Some (uint a - uint b))"
| "strncmp _ _ (Suc n) = None"

fun strcmp :: "u8 list \<Rightarrow> u8 list \<Rightarrow> int option" where
  "strcmp (a # p) (b # q) = (if a \<noteq> 0 \<and> a = b then strcmp p q else Some (uint a - uint b))"
| "strcmp _ _ = None"

fun strlen :: "u8 list \<Rightarrow> nat option" where
  "strlen [] = None"
| "strlen (c # s) = (if c = 0 then Some 0 else map_option Suc (strlen s))"

text \<open>\<^verbatim>\<open>strchr\<close> returns the distance to the character found, \<open>Some None\<close> for the null pointer.\<close>

fun strchr :: "u8 list \<Rightarrow> u8 \<Rightarrow> nat option option" where
  "strchr [] c = None"
| "strchr (a # s) c =
     (if a = 0 then Some None else if a = c then Some (Some 0)
      else map_option (map_option Suc) (strchr s c))"

section \<open>Copying strings\<close>

text \<open>The contents of \<^verbatim>\<open>s\<close> afterwards. The second loop of \<^verbatim>\<open>strncpy\<close> fills up with zeros.\<close>

fun zero_fill :: "u8 list \<Rightarrow> nat \<Rightarrow> u8 list option" where
  "zero_fill s 0 = Some s"
| "zero_fill [] (Suc n) = None"
| "zero_fill (_ # s) (Suc n) = map_option ((#) 0) (zero_fill s n)"

fun strncpy :: "u8 list \<Rightarrow> u8 list \<Rightarrow> nat \<Rightarrow> u8 list option" where
  "strncpy s t 0 = Some s"
| "strncpy (_ # s) (c # t) (Suc n) =
     map_option ((#) c) (if c = 0 then zero_fill s n else strncpy s t n)"
| "strncpy _ _ (Suc n) = None"

text \<open>\<open>n\<close> is what \<^verbatim>\<open>--n\<close> still allows; the final \<^verbatim>\<open>*s = 0\<close> follows the characters copied.\<close>

fun safestrcpy_loop :: "u8 list \<Rightarrow> u8 list \<Rightarrow> nat \<Rightarrow> u8 list option" where
  "safestrcpy_loop (_ # s) t 0 = Some (0 # s)"
| "safestrcpy_loop (_ # s) (c # t) (Suc n) =
     (if c \<noteq> 0 then map_option ((#) c) (safestrcpy_loop s t n)
      else (case s of [] \<Rightarrow> None | _ # s' \<Rightarrow> Some (0 # 0 # s')))"
| "safestrcpy_loop _ _ _ = None"

definition safestrcpy :: "u8 list \<Rightarrow> u8 list \<Rightarrow> int \<Rightarrow> u8 list option" where
  "safestrcpy s t n = (if n \<le> 0 then Some s else safestrcpy_loop s t (nat n - 1))"

fun strcpy :: "u8 list \<Rightarrow> u8 list \<Rightarrow> u8 list option" where
  "strcpy (_ # s) (c # t) = (if c = 0 then Some (0 # s) else map_option ((#) c) (strcpy s t))"
| "strcpy _ _ = None"

text \<open>\<^verbatim>\<open>atoi\<close> accumulates in an \<^verbatim>\<open>int\<close>, here without its overflow.\<close>

fun atoi_from :: "int \<Rightarrow> u8 list \<Rightarrow> int option" where
  "atoi_from n [] = None"
| "atoi_from n (c # s) = (if 48 \<le> c \<and> c \<le> 57 then atoi_from (n * 10 + uint c - 48) s else Some n)"

definition atoi :: "u8 list \<Rightarrow> int option" where
  "atoi s = atoi_from 0 s"

section \<open>Properties\<close>

text \<open>
  \<^verbatim>\<open>memmove\<close> copies as if through a temporary buffer: whatever the overlap of the two
  ranges, the kernel's version and the user library's version leave in every destination
  byte what the source byte held before the call, and change nothing else.
\<close>

theorem memmove_simultaneous:
  "memmove dst src n m = (\<lambda>a. if dst \<le> a \<and> a < dst + n then m (src + (a - dst)) else m a) \<and>
   umemmove dst src n m = memmove dst src n m"
proof -
  have z: "m = (\<lambda>a. if dst \<le> a \<and> a < dst then m (src + (a - dst)) else m a)"
    by (auto simp: fun_eq_iff)
  have "memmove dst src n m = (\<lambda>a. if dst \<le> a \<and> a < dst + n then m (src + (a - dst)) else m a)"
    using z unfolding memmove_def by (auto intro!: copy_down_eq copy_up_eq)
  moreover have "umemmove dst src n m =
      (\<lambda>a. if dst \<le> a \<and> a < dst + n then m (src + (a - dst)) else m a)"
    unfolding umemmove_def by (auto intro!: copy_down_eq copy_up_eq)
  ultimately show ?thesis by simp
qed

text \<open>The string a buffer holds: the bytes before the first NUL.\<close>

definition cstr :: "u8 list \<Rightarrow> u8 list" where
  "cstr s = takeWhile (\<lambda>c. c \<noteq> 0) s"

lemma cstr_Cons [simp]: "cstr (c # s) = (if c = 0 then [] else c # cstr s)"
  by (simp add: cstr_def)

lemma cstr_Nil [simp]: "cstr [] = []"
  by (simp add: cstr_def)

lemma zero_fill_eq: "n \<le> length s \<Longrightarrow> zero_fill s n = Some (replicate n 0 @ drop n s)"
proof (induction s n rule: zero_fill.induct)
qed auto

lemma strlen_eq: "strlen s = (if 0 \<in> set s then Some (length (cstr s)) else None)"
  by (induction s) auto

lemma strncpy_eq:
  "n \<le> length s \<Longrightarrow> 0 \<in> set t \<or> n \<le> length t \<Longrightarrow>
   strncpy s t n = Some (take n (cstr t @ replicate n 0) @ drop n s)"
proof (induction s t n rule: strncpy.induct)
  case (2 x s c t n)
  then show ?case
    by (cases "c = 0") (auto simp: zero_fill_eq take_Cons' replicate_append_same [symmetric] min_def)
qed auto

lemma strncmp_zero:
  "(0 \<in> set p \<or> n \<le> length p) \<Longrightarrow> (0 \<in> set q \<or> n \<le> length q) \<Longrightarrow>
   \<exists>d. strncmp p q n = Some d \<and> (d = 0 \<longleftrightarrow> take n (cstr p) = take n (cstr q))"
proof (induction p q n rule: strncmp.induct)
  case (2 a p b q n)
  then show ?case by (cases "a = 0"; cases "b = 0"; cases "a = b") (auto simp: word_uint_eq_iff)
qed auto

text \<open>
  \<^verbatim>\<open>strncpy\<close> into a buffer of at least \<open>n\<close> bytes writes exactly \<open>n\<close> bytes: the string cut
  to \<open>n\<close> characters and zeros after it (with no terminator when the string is longer), which
  is the form of a directory entry's name; two such names agree exactly when \<^verbatim>\<open>strncmp\<close> over
  \<open>n\<close> characters returns 0.
\<close>

lemma strncpy_strncmp:
  assumes "n \<le> length s" "n \<le> length s'" and "0 \<in> set t \<or> n \<le> length t" and "0 \<in> set u \<or> n \<le> length u"
  shows "strncpy s t n = Some (take n (cstr t @ replicate n 0) @ drop n s) \<and>
    (\<exists>d. strncmp t u n = Some d \<and>
      (d = 0 \<longleftrightarrow> map_option (take n) (strncpy s t n) = map_option (take n) (strncpy s' u n)))"
proof -
  have E: "strncpy s t n = Some (take n (cstr t @ replicate n 0) @ drop n s)"
    "strncpy s' u n = Some (take n (cstr u @ replicate n 0) @ drop n s')"
    using assms strncpy_eq by blast+
  have nz: "0 \<notin> set (take n (cstr w))" for w
    by (auto simp: cstr_def dest!: in_set_takeD set_takeWhileD)
  have cut: "take n (cstr w) = cstr (take n (cstr w @ replicate n 0) @ [0])" for w
  proof -
    have "cstr (x @ replicate k 0 @ [0]) = x" if "0 \<notin> set x" for x :: "u8 list" and k
      using that by (induction x) (auto simp: cstr_def takeWhile_append)
    then show ?thesis using nz [of w] by simp
  qed
  have "take n (cstr t) = take n (cstr u) \<longleftrightarrow>
      take n (cstr t @ replicate n 0) = take n (cstr u @ replicate n 0)"
  proof
    assume e: "take n (cstr t) = take n (cstr u)"
    then have "length (take n (cstr t)) = length (take n (cstr u))" by simp
    then have "n - length (cstr t) = n - length (cstr u)" by auto
    with e show "take n (cstr t @ replicate n 0) = take n (cstr u @ replicate n 0)" by simp
  next
    assume "take n (cstr t @ replicate n 0) = take n (cstr u @ replicate n 0)"
    then show "take n (cstr t) = take n (cstr u)" using cut by metis
  qed
  moreover have "take n (take n (cstr w @ replicate n 0) @ y) = take n (cstr w @ replicate n 0)"
    for w y :: "u8 list" by simp
  ultimately show ?thesis
    using strncmp_zero [OF assms(3,4)] unfolding E option.map option.inject by metis
qed

lemma strncpy_strncmp_witness:
  "strncpy [9,9,9,9] [97,0,5] 3 = Some [97,0,0,9] \<and>
   (\<exists>d. strncmp [97,0,5] [97,98,99,100] 3 = Some d \<and> d \<noteq> 0)"
  using strncpy_strncmp [of 3 "[9,9,9,9]" "[1,2,3,4]" "[97,0,5]" "[97,98,99,100]"]
  by (auto simp: numeral_3_eq_3)

lemma safestrcpy_loop_eq:
  "k < length s \<Longrightarrow> 0 \<in> set t \<or> k \<le> length t \<Longrightarrow>
   \<exists>r. safestrcpy_loop s t k = Some r \<and> length r = length s \<and> cstr r = take k (cstr t) \<and> 0 \<in> set r \<and>
     drop (Suc k) r = drop (Suc k) s"
proof (induction s t k rule: safestrcpy_loop.induct)
  case (2 x s c t k)
  show ?case
  proof (cases "c = 0")
    case True
    then show ?thesis using 2 by (cases s) auto
  next
    case False
    then obtain r where "safestrcpy_loop s t k = Some r" "length r = length s" "cstr r = take k (cstr t)"
      "0 \<in> set r" "drop (Suc k) r = drop (Suc k) s" using 2 by auto
    with False show ?thesis by auto
  qed
qed auto

text \<open>
  \<^verbatim>\<open>safestrcpy\<close> into a buffer of at least \<open>n > 0\<close> bytes always leaves a terminated string,
  the longest prefix of the source that fits, and never writes past the first \<open>n\<close> bytes.
\<close>

lemma safestrcpy_terminates_string:
  assumes "0 < n" and "nat n \<le> length s" and "0 \<in> set t"
  shows "\<exists>r. safestrcpy s t n = Some r \<and> length r = length s \<and> drop (nat n) r = drop (nat n) s \<and>
     strlen r = Some (min (nat n - 1) (length (cstr t))) \<and> cstr r = take (nat n - 1) (cstr t)"
proof -
  have k: "nat n - 1 < length s" "Suc (nat n - 1) = nat n" using assms by auto
  from safestrcpy_loop_eq [OF k(1)] obtain r where
    "safestrcpy_loop s t (nat n - 1) = Some r" "length r = length s" "cstr r = take (nat n - 1) (cstr t)"
    "0 \<in> set r" "drop (nat n) r = drop (nat n) s" using assms(3) unfolding k(2) by blast
  then show ?thesis using assms(1) by (auto simp: safestrcpy_def strlen_eq min_def)
qed

lemma safestrcpy_terminates_string_witness:
  "\<exists>r. safestrcpy [7,7,7,7] [97,98,99,0] 3 = Some r \<and> r ! 3 = 7 \<and> strlen r = Some 2"
proof -
  obtain r where r: "safestrcpy [7,7,7,7] [97,98,99,0] 3 = Some r" "length r = 4"
     "drop 3 r = [7]" "strlen r = Some 2"
    using safestrcpy_terminates_string [of 3 "[7,7,7,7]" "[97,98,99,0]"] by (auto simp: numeral_3_eq_3)
  moreover have "r ! 3 = 7" using nth_drop [of 3 r 0] r(2,3) by simp
  ultimately show ?thesis by blast
qed

end
