(* ===== verification/Proc.thy ===== *)
theory Proc
  imports Vm_Frame Printf Cstring
begin

text \<open>
  \<^verbatim>\<open>kernel/proc.c\<close>: the process table, process creation and the parts of its life that
  concern the table and memory alone, sleeping and waking, killing, and copies to user or
  kernel destinations. \<^verbatim>\<open>kfork\<close>, \<^verbatim>\<open>kexit\<close>, \<^verbatim>\<open>kwait\<close>, \<^verbatim>\<open>userinit\<close> and \<^verbatim>\<open>forkret\<close>, which call
  into the file system, are in theory Proc_Life, the scheduler is in theory Sched.
\<close>

section \<open>The CPU and the current process\<close>

definition cpuid :: "'x kproc_scheme \<Rightarrow> nat" where "cpuid s = hartid s"

definition myproc :: "'x kproc_scheme \<Rightarrow> nat option" where "myproc s = curproc s"

definition procinit :: "'x kproc_scheme \<Rightarrow> 'x kproc_scheme" where
  "procinit s = fold (\<lambda>i. upd_proc i (\<lambda>p. p\<lparr>state := UNUSED, kstack := KSTACK i\<rparr>)) [0..<NPROC] s"

section \<open>Creating and freeing a process\<close>

definition allocpid :: "'x kproc_scheme \<Rightarrow> (int, 'x kproc_scheme) res" where
  "allocpid s =
     bnd (acquire PidLock s) (\<lambda>_ s.
     let pid' = nextpid s; s = s\<lparr>nextpid := nextpid s + 1\<rparr>
     in bnd (release PidLock s) (\<lambda>_ s. Ok pid' s))"

definition proc_pagetable :: "nat \<Rightarrow> 'x kproc_scheme \<Rightarrow> (u64, 'x kproc_scheme) res" where
  "proc_pagetable p s =
     bnd (uvmcreate s) (\<lambda>pt s.
     if pt = 0 then Ok 0 s
     else bnd (mappages pt TRAMPOLINE PGSIZE (trampoline_pa s) (PTE_R OR PTE_X) s) (\<lambda>r s.
     if r < 0 then bnd (uvmfree pt 0 s) (\<lambda>_ s. Ok 0 s)
     else bnd (mappages pt TRAPFRAME PGSIZE (tfpage (ptable s ! p)) (PTE_R OR PTE_W) s) (\<lambda>r s.
     if r < 0
     then bnd (uvmunmap pt TRAMPOLINE 1 False s) (\<lambda>_ s. bnd (uvmfree pt 0 s) (\<lambda>_ s. Ok 0 s))
     else Ok pt s)))"

definition proc_freepagetable :: "u64 \<Rightarrow> u64 \<Rightarrow> 'x kproc_scheme \<Rightarrow> (unit, 'x kproc_scheme) res" where
  "proc_freepagetable pt siz s =
     bnd (uvmunmap pt TRAMPOLINE 1 False s) (\<lambda>_ s.
     bnd (uvmunmap pt TRAPFRAME 1 False s) (\<lambda>_ s.
     uvmfree pt siz s))"

definition freeproc :: "nat \<Rightarrow> 'x kproc_scheme \<Rightarrow> (unit, 'x kproc_scheme) res" where
  "freeproc p s =
     bnd (if tfpage (ptable s ! p) \<noteq> 0 then kfree (tfpage (ptable s ! p)) s else Ok () s) (\<lambda>_ s.
     let s = upd_proc p (\<lambda>q. q\<lparr>tfpage := 0\<rparr>) s in
     bnd (if pagetable (ptable s ! p) \<noteq> 0
          then proc_freepagetable (pagetable (ptable s ! p)) (sz (ptable s ! p)) s
          else Ok () s) (\<lambda>_ s.
     Ok () (upd_proc p (\<lambda>q. q\<lparr>pagetable := 0, sz := 0, pid := 0, parent := None,
       pname := (pname q)[0 := 0], pchan := None, pkilled := 0, xstate := 0, state := UNUSED\<rparr>) s)))"

text \<open>
  The part of \<^verbatim>\<open>allocproc\<close> from the label \<^verbatim>\<open>found\<close> on; the result is the table index, with
  the lock of the process held, or \<open>None\<close>.
\<close>

definition allocproc_found :: "nat \<Rightarrow> 'x kproc_scheme \<Rightarrow> (nat option, 'x kproc_scheme) res" where
  "allocproc_found p s =
     bnd (allocpid s) (\<lambda>n s.
     let s = upd_proc p (\<lambda>q. q\<lparr>pid := n, state := USED\<rparr>) s in
     bnd (kalloc s) (\<lambda>pg s.
     let s = upd_proc p (\<lambda>q. q\<lparr>tfpage := pg, tf := trapframe_junk\<rparr>) s in
     if pg = 0
     then bnd (freeproc p s) (\<lambda>_ s. bnd (release (ProcLock p) s) (\<lambda>_ s. Ok None s))
     else bnd (proc_pagetable p s) (\<lambda>pt s.
     let s = upd_proc p (\<lambda>q. q\<lparr>pagetable := pt\<rparr>) s in
     if pt = 0
     then bnd (freeproc p s) (\<lambda>_ s. bnd (release (ProcLock p) s) (\<lambda>_ s. Ok None s))
     else Ok (Some p) (upd_proc p (\<lambda>q. q\<lparr>ctx :=
            context0\<lparr>ctx_ra := forkret_pa s, ctx_sp := kstack q + PGSIZE\<rparr>\<rparr>) s))))"

fun allocproc_scan :: "nat list \<Rightarrow> 'x kproc_scheme \<Rightarrow> (nat option, 'x kproc_scheme) res" where
  "allocproc_scan [] s = Ok None s"
| "allocproc_scan (p # ps) s =
     bnd (acquire (ProcLock p) s) (\<lambda>_ s.
     if state (ptable s ! p) = UNUSED then allocproc_found p s
     else bnd (release (ProcLock p) s) (\<lambda>_ s. allocproc_scan ps s))"

definition allocproc :: "'x kproc_scheme \<Rightarrow> (nat option, 'x kproc_scheme) res" where
  "allocproc s = allocproc_scan [0..<NPROC] s"

text \<open>\<^verbatim>\<open>sz + n\<close> adds the sign-extended \<^verbatim>\<open>int\<close> \<open>n\<close> to an unsigned 64-bit size.\<close>

definition growproc :: "int \<Rightarrow> 'x kproc_scheme \<Rightarrow> (int, 'x kproc_scheme) res" where
  "growproc n =
     with_myproc (\<lambda>p s.
     let siz = sz (ptable s ! p); pt = pagetable (ptable s ! p) in
     if 0 < n
     then if TRAPFRAME < siz + of_int n then Ok (-1) s
          else bnd (uvmalloc pt siz (siz + of_int n) PTE_W s) (\<lambda>r s.
            if r = 0 then Ok (-1) s else Ok 0 (upd_proc p (\<lambda>q. q\<lparr>sz := r\<rparr>) s))
     else if n < 0
     then bnd (uvmdealloc pt siz (siz + of_int n) s) (\<lambda>r s. Ok 0 (upd_proc p (\<lambda>q. q\<lparr>sz := r\<rparr>) s))
     else Ok 0 (upd_proc p (\<lambda>q. q\<lparr>sz := siz\<rparr>) s))"

section \<open>Sleeping and waking\<close>

definition wakeup_one :: "chan \<Rightarrow> nat \<Rightarrow> 'x kproc_scheme \<Rightarrow> (unit, 'x kproc_scheme) res" where
  "wakeup_one c p s =
     (if myproc s = Some p then Ok () s
      else bnd (acquire (ProcLock p) s) (\<lambda>_ s.
        let s = (if state (ptable s ! p) = SLEEPING \<and> pchan (ptable s ! p) = Some c
                 then upd_proc p (\<lambda>q. q\<lparr>state := RUNNABLE\<rparr>) s else s)
        in release (ProcLock p) s))"

definition wakeup :: "chan \<Rightarrow> 'x kproc_scheme \<Rightarrow> (unit, 'x kproc_scheme) res" where
  "wakeup c s = foreach (wakeup_one c) [0..<NPROC] s"

text \<open>
  \<^verbatim>\<open>sched\<close> checks its callers and switches to the scheduler; the state at the switch is left
  to the other processes. On this CPU interrupts are off while a lock is held, so the test of
  \<^verbatim>\<open>intr_get\<close>, which comes after that of the lock, never panics.
\<close>

definition sched :: "chan \<Rightarrow> 'x kproc_scheme \<Rightarrow> (unit, 'x kproc_scheme) res" where
  "sched c =
     with_myproc (\<lambda>p s.
     if \<not> holding (ProcLock p) s then Panic ''sched p->lock''
     else if length (held s) \<noteq> 1 then Panic ''sched locks''
     else if state (ptable s ! p) = RUNNING then Panic ''sched RUNNING''
     else Block c s)"

text \<open>\<^verbatim>\<open>sleep(chan, lk)\<close> up to the switch and after it.\<close>

definition sleep :: "chan \<Rightarrow> lock \<Rightarrow> 'x kproc_scheme \<Rightarrow> (unit, 'x kproc_scheme) res" where
  "sleep c lk =
     with_myproc (\<lambda>p s.
     bnd (acquire (ProcLock p) s) (\<lambda>_ s.
     bnd (release lk s) (\<lambda>_ s.
     sched c (upd_proc p (\<lambda>q. q\<lparr>pchan := Some c, state := SLEEPING\<rparr>) s))))"

definition sleep_resume :: "lock \<Rightarrow> 'x kproc_scheme \<Rightarrow> (unit, 'x kproc_scheme) res" where
  "sleep_resume lk =
     with_myproc (\<lambda>p s.
     let s = upd_proc p (\<lambda>q. q\<lparr>pchan := None\<rparr>) s in
     bnd (release (ProcLock p) s) (\<lambda>_ s. acquire lk s))"

text \<open>\<^verbatim>\<open>yield\<close> up to the switch and after it.\<close>

definition yield :: "'x kproc_scheme \<Rightarrow> (unit, 'x kproc_scheme) res" where
  "yield =
     with_myproc (\<lambda>p s.
     bnd (acquire (ProcLock p) s) (\<lambda>_ s.
     sched ChYield (upd_proc p (\<lambda>q. q\<lparr>state := RUNNABLE\<rparr>) s)))"

definition yield_resume :: "'x kproc_scheme \<Rightarrow> (unit, 'x kproc_scheme) res" where
  "yield_resume = with_myproc (\<lambda>p s. release (ProcLock p) s)"

section \<open>Killing\<close>

fun kkill_scan :: "int \<Rightarrow> nat list \<Rightarrow> 'x kproc_scheme \<Rightarrow> (int, 'x kproc_scheme) res" where
  "kkill_scan n [] s = Ok (-1) s"
| "kkill_scan n (p # ps) s =
     bnd (acquire (ProcLock p) s) (\<lambda>_ s.
     if pid (ptable s ! p) = n
     then let s = upd_proc p (\<lambda>q. q\<lparr>pkilled := 1\<rparr>) s;
              s = (if state (ptable s ! p) = SLEEPING then upd_proc p (\<lambda>q. q\<lparr>state := RUNNABLE\<rparr>) s else s)
          in bnd (release (ProcLock p) s) (\<lambda>_ s. Ok 0 s)
     else bnd (release (ProcLock p) s) (\<lambda>_ s. kkill_scan n ps s))"

definition kkill :: "int \<Rightarrow> 'x kproc_scheme \<Rightarrow> (int, 'x kproc_scheme) res" where
  "kkill n s = kkill_scan n [0..<NPROC] s"

definition setkilled :: "nat \<Rightarrow> 'x kproc_scheme \<Rightarrow> (unit, 'x kproc_scheme) res" where
  "setkilled p s =
     bnd (acquire (ProcLock p) s) (\<lambda>_ s. release (ProcLock p) (upd_proc p (\<lambda>q. q\<lparr>pkilled := 1\<rparr>) s))"

definition killed :: "nat \<Rightarrow> 'x kproc_scheme \<Rightarrow> (bool, 'x kproc_scheme) res" where
  "killed p s =
     bnd (acquire (ProcLock p) s) (\<lambda>_ s.
     let k = pkilled (ptable s ! p) in bnd (release (ProcLock p) s) (\<lambda>_ s. Ok (k \<noteq> 0) s))"

definition reparent :: "nat \<Rightarrow> 'x kproc_scheme \<Rightarrow> (unit, 'x kproc_scheme) res" where
  "reparent p s =
     foreach (\<lambda>i s.
       if parent (ptable s ! i) = Some p
       then let s = upd_proc i (\<lambda>q. q\<lparr>parent := initproc s\<rparr>) s
            in case initproc s of Some k \<Rightarrow> wakeup (ChProc k) s | None \<Rightarrow> Ok () s
       else Ok () s) [0..<NPROC] s"

section \<open>Copies to and from user or kernel memory\<close>

text \<open>
  A destination or source: a user virtual address, or a kernel buffer. Of a kernel buffer as
  destination the bytes written so far are kept, as source the bytes not yet read.
\<close>

datatype place = UserMem u64 | KernMem "u8 list"

definition either_copyout :: "place \<Rightarrow> u8 list \<Rightarrow> 'x kproc_scheme \<Rightarrow> (int \<times> place, 'x kproc_scheme) res" where
  "either_copyout dst src =
     with_myproc (\<lambda>p s.
     case dst of
       UserMem va \<Rightarrow> bnd (copyout (pagetable (ptable s ! p)) va src s) (\<lambda>r s. Ok (r, dst) s)
     | KernMem bs \<Rightarrow> Ok (0, KernMem (bs @ src)) s)"

definition either_copyin :: "place \<Rightarrow> nat \<Rightarrow> 'x kproc_scheme \<Rightarrow> (int \<times> u8 list, 'x kproc_scheme) res" where
  "either_copyin src n =
     with_myproc (\<lambda>p s.
     case src of
       UserMem va \<Rightarrow> copyin (pagetable (ptable s ! p)) va n s
     | KernMem bs \<Rightarrow> Ok (0, take n bs) s)"

text \<open>Pointer arithmetic on a destination and on a source.\<close>

fun dst_add :: "place \<Rightarrow> nat \<Rightarrow> place" where
  "dst_add (UserMem va) n = UserMem (va + of_nat n)"
| "dst_add (KernMem bs) n = KernMem bs"

fun src_add :: "place \<Rightarrow> nat \<Rightarrow> place" where
  "src_add (UserMem va) n = UserMem (va + of_nat n)"
| "src_add (KernMem bs) n = KernMem (drop n bs)"

section \<open>The process listing\<close>

fun state_name :: "procstate \<Rightarrow> string" where
  "state_name UNUSED = ''unused''"
| "state_name USED = ''used''"
| "state_name SLEEPING = ''sleep ''"
| "state_name RUNNABLE = ''runble''"
| "state_name RUNNING = ''run   ''"
| "state_name ZOMBIE = ''zombie''"

definition bytes_string :: "u8 list \<Rightarrow> string" where
  "bytes_string bs = map (\<lambda>b. char_of (unat b)) (cstr bs)"

definition procdump :: "'x kproc_scheme \<Rightarrow> (unit, 'x kproc_scheme) res" where
  "procdump s =
     bnd (printf [CHR 0x0A] [] s) (\<lambda>_ s.
     foreach (\<lambda>p s.
       let q = ptable s ! p in
       if state q = UNUSED then Ok () s
       else bnd (printf ''%d %s %s'' [Num (of_int (pid q)), Str (Some (state_name (state q))),
                   Str (Some (bytes_string (pname q)))] s) (\<lambda>_ s.
            printf [CHR 0x0A] [] s)) [0..<NPROC] s)"

section \<open>Waking and killing\<close>

definition proc_locks_free :: "'x kproc_scheme \<Rightarrow> bool" where
  "proc_locks_free s \<longleftrightarrow> (\<forall>i. ProcLock i \<notin> set (held s)) \<and> length (ptable s) = NPROC"

definition woken :: "chan \<Rightarrow> nat option \<Rightarrow> nat \<Rightarrow> proc \<Rightarrow> proc" where
  "woken c me i q =
     (if me \<noteq> Some i \<and> state q = SLEEPING \<and> pchan q = Some c then q\<lparr>state := RUNNABLE\<rparr> else q)"

lemma upd_proc_same: "f (ptable s ! i) = ptable s ! i \<Longrightarrow> upd_proc i f s = s"
  by (simp add: upd_proc_def)

lemma wakeup_one_eq:
  "proc_locks_free s \<Longrightarrow> wakeup_one c i s = Ok () (upd_proc i (woken c (curproc s) i) s)"
  by (auto simp: wakeup_one_def myproc_def proc_locks_free_def woken_def upd_proc_same)
    (simp_all add: upd_proc_def woken_def)

lemma upd_proc_locks_free [simp]: "proc_locks_free (upd_proc i f s) = proc_locks_free s"
  by (simp add: proc_locks_free_def upd_proc_def)

lemma wakeup_eq:
  assumes "proc_locks_free s"
  shows "wakeup c s = Ok () (s\<lparr>ptable := map (\<lambda>i. woken c (curproc s) i (ptable s ! i)) [0..<NPROC]\<rparr>)"
proof -
  have "foreach (wakeup_one c) [0..<NPROC] s =
      Ok () (fold (\<lambda>i. upd_proc i (woken c (curproc s) i)) [0..<NPROC] s)"
    by (rule foreach_pure_on [where P = "\<lambda>t. proc_locks_free t \<and> curproc t = curproc s", THEN conjunct1])
      (use assms in \<open>auto simp: wakeup_one_eq\<close>)
  then show ?thesis
    using assms fold_upd_proc [of NPROC s "woken c (curproc s)"]
    by (simp add: wakeup_def proc_locks_free_def cong: map_cong)
qed

lemma kkill_scan_eq:
  assumes "proc_locks_free s" "k \<le> NPROC"
  shows "kkill_scan n [k..<NPROC] s =
    (case find_idx (\<lambda>q. pid q = n) (drop k (ptable s)) of
       None \<Rightarrow> Ok (-1) s
     | Some j \<Rightarrow> Ok 0 (upd_proc (k + j) (\<lambda>q. q\<lparr>pkilled := 1,
         state := if state q = SLEEPING then RUNNABLE else state q\<rparr>) s))"
  using assms(2)
proof (induction k rule: inc_induct)
  case base
  then show ?case using assms(1) by (simp add: proc_locks_free_def)
next
  case (step k)
  have k: "k < length (ptable s)" using step assms(1) by (simp add: proc_locks_free_def)
  then have "drop k (ptable s) = ptable s ! k # drop (Suc k) (ptable s)" by (simp add: Cons_nth_drop_Suc)
  moreover have "[k..<NPROC] = k # [Suc k..<NPROC]" using step by (simp add: upt_conv_Cons)
  moreover have "ProcLock k \<notin> set (held s)" using assms(1) by (simp add: proc_locks_free_def)
  ultimately show ?case
    using k step.IH by (auto simp: upd_proc_def list_update_overwrite split: option.splits)
qed

section \<open>The page table of a new process\<close>

lemma walk_from_count:
  "walk_from l pt va al s = Ok r t \<Longrightarrow> length (freelist s) \<le> length (freelist t) + l"
proof (induction l pt va al s rule: walk_from.induct)
  case (2 l pt va al s)
  show ?case
  proof (cases "load64 (pte_at pt (Suc l) va) s AND PTE_V = 0 \<and> al")
    case False
    then show ?thesis using "2.prems" "2.IH"(1) by (fastforce simp: Let_def split: if_splits)
  next
    case True
    then obtain pg u where u: "kalloc s = Ok pg u"
      and w: "pg = 0 \<and> t = u \<or> pg \<noteq> 0 \<and> walk_from l pg va al
        (store64 (pte_at pt (Suc l) va) (PA2PTE pg OR PTE_V) (memset_page pg 0 u)) = Ok r t"
      using "2.prems" by (auto simp: Let_def split: if_splits)
    have "length (freelist s) \<le> length (freelist u) + 1"
      using u by (auto simp: kalloc_def acquire_def release_def holding_def Let_def split: if_splits)
    moreover have "length (freelist u) \<le> length (freelist t) + l" if "pg \<noteq> 0"
      using "2.IH"(2) True u w that by (fastforce simp: store64_def)
    ultimately show ?thesis using w by auto
  qed
qed simp

lemma walk_count: "walk pt va al s = Ok r t \<Longrightarrow> length (freelist s) \<le> length (freelist t) + 2"
  unfolding walk_def by (auto dest: walk_from_count split: if_splits)

lemma mappages_one_count:
  "mappages pt va PGSIZE pa perm s = Ok r t \<Longrightarrow> length (freelist s) \<le> length (freelist t) + 2"
  by (auto simp: mappages_def mappages_from.simps [of pt va] store64_def Let_def
      dest!: walk_count split: if_splits option.splits)

text \<open>An empty page table.\<close>

lemma uvmcreate_empty:
  assumes "kmem_wf s" "KmemLock \<notin> set (held s)" "freelist s = pg # ps"
  shows "\<exists>t. uvmcreate s = Ok pg t \<and> pg \<noteq> 0 \<and> pt_ready t pg \<and> (\<forall>v. lookup t pg v = None) \<and>
    freelist t = ps \<and> kframe s t \<and> page_ok s pg"
proof -
  let ?t = "memset_page pg 0 (memset_page pg 5 (s\<lparr>freelist := ps\<rparr>))"
  have pg: "pg \<noteq> 0" "page_ok s pg" "pg \<notin> set ps"
    using assms kmem_wf_page_pos [OF assms(1)] by (auto simp: kmem_wf_def)
  have c: "child ?t pg i = None" if "i < 512" for i
    using page_round [OF page_ok_mod [OF pg(2)] that] by (simp add: child_def memset_page_def)
  have N: "node ?t pg xs = (if xs = [] then Some pg else None)" if "path_ok xs" for xs
    using that by (cases xs) (auto simp: path_ok_def c)
  have po: "page_ok ?t = page_ok s" by (simp add: page_ok_def fun_eq_iff)
  have "pt_wf ?t pg" unfolding pt_wf_def po using N pg by (auto split: if_splits)
  moreover have "kmem_wf ?t" using assms(1,3) po by (auto simp: kmem_wf_def)
  ultimately have "pt_ready ?t pg" using assms(2) by (simp add: pt_ready_def)
  moreover have "lookup ?t pg v = None" for v
    unfolding lookup_def N [OF PX_path_ok(3)] by simp
  moreover have "uvmcreate s = Ok pg ?t"
    using assms pg by (simp add: uvmcreate_def kalloc_eq)
  ultimately show ?thesis using pg by auto
qed

text \<open>
  The page table of a new process maps the trampoline and the trap frame and nothing else.
\<close>

definition fresh_user_table :: "'x kmem_scheme \<Rightarrow> u64 \<Rightarrow> u64 \<Rightarrow> u64 \<Rightarrow> bool" where
  "fresh_user_table t pt tramp tfp \<longleftrightarrow> pt_ready t pt \<and>
     (\<forall>v. v mod PGSIZE = 0 \<longrightarrow> v < MAXVA \<longrightarrow> lookup t pt v =
        (if v = TRAMPOLINE then Some (PA2PTE tramp OR (PTE_R OR PTE_X) OR PTE_V)
         else if v = TRAPFRAME then Some (PA2PTE tfp OR (PTE_R OR PTE_W) OR PTE_V) else None))"

lemma proc_pagetable_fresh:
  fixes s :: "'x kproc_scheme"
  assumes K: "kmem_wf s" "KmemLock \<notin> set (held s)" and F: "5 < length (freelist s)"
  shows "\<exists>pt t. proc_pagetable p s = Ok pt t \<and> pt \<noteq> 0 \<and> kframe s t \<and>
    length (freelist s) \<le> length (freelist t) + 5 \<and> set (freelist t) \<subseteq> set (freelist s) \<and>
    fresh_user_table t pt (trampoline_pa s) (tfpage (ptable s ! p))"
proof -
  obtain pt ps where fl: "freelist s = pt # ps" using F by (cases "freelist s") auto
  obtain a where a: "uvmcreate s = Ok pt a" "pt \<noteq> 0" "pt_ready a pt" "\<And>v. lookup a pt v = None"
    "freelist a = ps" "kframe s a" using uvmcreate_empty [OF K fl] by blast
  have kp: "trampoline_pa a = trampoline_pa s" "ptable a = ptable s"
    by (rule kframe_proc [OF a(6)])+
  have addr: "TRAMPOLINE mod PGSIZE = 0" "TRAMPOLINE < MAXVA" "TRAPFRAME mod PGSIZE = 0" "TRAPFRAME < MAXVA"
    "TRAPFRAME \<noteq> TRAMPOLINE" by (simp_all add: layout_defs)
  obtain r b where b: "mappages pt TRAMPOLINE PGSIZE (trampoline_pa s) (PTE_R OR PTE_X) a = Ok r b"
    "maps_to pt TRAMPOLINE TRAMPOLINE (trampoline_pa s) (PTE_R OR PTE_X) a r b"
    using mappages_one [OF a(3) addr(1,2) a(4)] by blast
  note B = maps_toD [OF b(2)]
  have "length (freelist a) \<le> length (freelist b) + 2" by (rule mappages_one_count [OF b(1)])
  then have cb: "2 < length (freelist b)" "length (freelist s) \<le> length (freelist b) + 3" using F fl a(5) by auto
  then have r0: "r = 0" using B(4) by auto
  have fb: "kframe s b"
    by (rule kframe_trans [OF a(6)]) (rule frameD [OF _ b(1)], rule mappages_frame)
  have lb: "lookup b pt v = (if v = TRAMPOLINE then Some (PA2PTE (trampoline_pa s) OR (PTE_R OR PTE_X) OR PTE_V) else None)"
    if "v mod PGSIZE = 0" "v < MAXVA" for v
  proof (cases "v = TRAMPOLINE")
    case True
    then show ?thesis using B(6) [OF r0 that(1)] by simp
  next
    case False
    then have "\<not> (TRAMPOLINE \<le> v \<and> v \<le> TRAMPOLINE)" by auto
    then show ?thesis using B(5) [OF that] a(4) False by simp
  qed
  have "lookup b pt TRAPFRAME = None" using lb [OF addr(3,4)] addr(5) by simp
  then obtain q c where c: "mappages pt TRAPFRAME PGSIZE (tfpage (ptable s ! p)) (PTE_R OR PTE_W) b = Ok q c"
    "maps_to pt TRAPFRAME TRAPFRAME (tfpage (ptable s ! p)) (PTE_R OR PTE_W) b q c"
    using mappages_one [OF B(1) addr(3,4)] by blast
  note C = maps_toD [OF c(2)]
  have "length (freelist b) \<le> length (freelist c) + 2" by (rule mappages_one_count [OF c(1)])
  then have cc: "0 < length (freelist c)" "length (freelist s) \<le> length (freelist c) + 5" using cb by auto
  then have q0: "q = 0" using C(4) by auto
  have fc: "kframe s c"
    by (rule kframe_trans [OF fb]) (rule frameD [OF _ c(1)], rule mappages_frame)
  have lc: "lookup c pt v = (if v = TRAMPOLINE then Some (PA2PTE (trampoline_pa s) OR (PTE_R OR PTE_X) OR PTE_V)
      else if v = TRAPFRAME then Some (PA2PTE (tfpage (ptable s ! p)) OR (PTE_R OR PTE_W) OR PTE_V) else None)"
    if "v mod PGSIZE = 0" "v < MAXVA" for v
  proof (cases "v = TRAPFRAME")
    case True
    then show ?thesis using C(6) [OF q0 that(1)] addr(5) by simp
  next
    case False
    then have "\<not> (TRAPFRAME \<le> v \<and> v \<le> TRAPFRAME)" by auto
    then show ?thesis using C(5) [OF that] lb [OF that] False by simp
  qed
  have kb: "ptable b = ptable s" by (rule kframe_proc(1) [OF fb])
  have "proc_pagetable p s = Ok pt c"
    using a b c r0 q0 kp kb by (simp add: proc_pagetable_def)
  moreover have "set (freelist c) \<subseteq> set (freelist s)"
    using B(2) C(2) a(5) fl by (auto simp: vm_frame_def)
  ultimately show ?thesis using a(2) fc cc C(1) lc unfolding fresh_user_table_def by blast
qed

lemma allocproc_scan_eq:
  assumes "proc_locks_free s" "k \<le> NPROC"
  shows "allocproc_scan [k..<NPROC] s =
    (case find_idx (\<lambda>q. state q = UNUSED) (drop k (ptable s)) of
       None \<Rightarrow> Ok None s
     | Some j \<Rightarrow> allocproc_found (k + j) (s\<lparr>held := ProcLock (k + j) # held s\<rparr>))"
  using assms(2)
proof (induction k rule: inc_induct)
  case base
  then show ?case using assms(1) by (simp add: proc_locks_free_def)
next
  case (step k)
  have k: "k < length (ptable s)" using step assms(1) by (simp add: proc_locks_free_def)
  then have "drop k (ptable s) = ptable s ! k # drop (Suc k) (ptable s)" by (simp add: Cons_nth_drop_Suc)
  moreover have "[k..<NPROC] = k # [Suc k..<NPROC]" using step by (simp add: upt_conv_Cons)
  moreover have "ProcLock k \<notin> set (held s)" using assms(1) by (simp add: proc_locks_free_def)
  ultimately show ?case using step.IH by (auto split: option.splits)
qed

lemma fresh_user_table_transfer:
  assumes "mem t = mem s" "freelist t = freelist s" "kend t = kend s" "held t = held s"
    and "fresh_user_table s pt a b"
  shows "fresh_user_table (t :: 'x kmem_scheme) pt a b"
  using assms pt_ready_transfer [OF assms(1-4)] lookup_transfer [OF assms(1)]
  by (simp add: fresh_user_table_def)

lemma allocproc_found_spec:
  fixes s :: "'x kproc_scheme"
  assumes L: "PidLock \<notin> set (held s)" "KmemLock \<notin> set (held s)" and K: "kmem_wf s"
    and F: "6 < length (freelist s)" and i: "i < length (ptable s)"
  shows "\<exists>t. allocproc_found i s = Ok (Some i) t \<and> held t = held s \<and> curproc t = curproc s \<and>
    nextpid t = nextpid s + 1 \<and> length (ptable t) = length (ptable s) \<and>
    (\<forall>j. j \<noteq> i \<longrightarrow> ptable t ! j = ptable s ! j) \<and>
    (\<exists>tfp pt. tfp \<noteq> 0 \<and> pt \<noteq> 0 \<and> ptable t ! i = (ptable s ! i)\<lparr>pid := nextpid s, state := USED, tfpage := tfp,
       tf := trapframe_junk, pagetable := pt,
       ctx := context0\<lparr>ctx_ra := forkret_pa s, ctx_sp := kstack (ptable s ! i) + PGSIZE\<rparr>\<rparr> \<and>
       fresh_user_table t pt (trampoline_pa s) tfp)"
proof -
  obtain pg ps where fl: "freelist s = pg # ps" using F by (cases "freelist s") auto
  have pg: "pg \<noteq> 0" using kmem_wf_page_pos [OF K] fl by simp
  define a where "a = upd_proc i (\<lambda>q. q\<lparr>pid := nextpid s, state := USED\<rparr>) (s\<lparr>nextpid := nextpid s + 1\<rparr>)"
  have pid: "allocpid s = Ok (nextpid s) (s\<lparr>nextpid := nextpid s + 1\<rparr>)"
    using L(1) by (simp add: allocpid_def)
  have A: "kmem_wf a" "KmemLock \<notin> set (held a)" "freelist a = pg # ps"
    using K L(2) fl by (simp_all add: a_def kmem_wf_def page_ok_def)
  define b where "b = memset_page pg 5 (a\<lparr>freelist := ps\<rparr>)"
  have ka: "kalloc a = Ok pg b" using kalloc_eq [OF A(2,1)] A(3) by (simp add: b_def)
  define c where "c = upd_proc i (\<lambda>q. q\<lparr>tfpage := pg, tf := trapframe_junk\<rparr>) b"
  have C: "kmem_wf c" "KmemLock \<notin> set (held c)" "freelist c = ps"
    using kalloc_wf [OF A(2,1) ka] A(2) by (simp_all add: c_def b_def kmem_wf_def page_ok_def)
  have cf: "ptable c = (ptable s)[i := (ptable s ! i)\<lparr>pid := nextpid s, state := USED, tfpage := pg,
       tf := trapframe_junk\<rparr>]" "trampoline_pa c = trampoline_pa s" "forkret_pa c = forkret_pa s"
    "held c = held s" "curproc c = curproc s" "nextpid c = nextpid s + 1"
    using i by (simp_all add: c_def b_def a_def upd_proc_def memset_page_def)
  have "5 < length (freelist c)" using F fl C(3) by simp
  from proc_pagetable_fresh [OF C(1,2) this] obtain pt d where d: "proc_pagetable i c = Ok pt d" "pt \<noteq> 0"
    "kframe c d" "fresh_user_table d pt (trampoline_pa c) (tfpage (ptable c ! i))" by blast
  note D = kframe_proc [OF d(3)]
  define e where "e = upd_proc i (\<lambda>q. q\<lparr>pagetable := pt\<rparr>) d"
  define u where "u = upd_proc i (\<lambda>q. q\<lparr>ctx :=
            context0\<lparr>ctx_ra := forkret_pa e, ctx_sp := kstack q + PGSIZE\<rparr>\<rparr>) e"
  have run: "allocproc_found i s = Ok (Some i) u"
    using pid ka pg d(1,2) unfolding allocproc_found_def
    by (simp add: a_def [symmetric] c_def [symmetric] e_def [symmetric] u_def [symmetric])
  have "fresh_user_table u pt (trampoline_pa s) pg"
    by (rule fresh_user_table_transfer [of _ d])
      (use d(4) cf(1,2) i in \<open>simp_all add: u_def e_def\<close>)
  moreover have "ptable u ! i = (ptable s ! i)\<lparr>pid := nextpid s, state := USED, tfpage := pg,
       tf := trapframe_junk, pagetable := pt,
       ctx := context0\<lparr>ctx_ra := forkret_pa s, ctx_sp := kstack (ptable s ! i) + PGSIZE\<rparr>\<rparr>"
    using i D(1,10) cf by (simp add: u_def e_def upd_proc_def)
  moreover have "ptable u ! j = ptable s ! j" if "j \<noteq> i" for j
    using that D(1) cf by (simp add: u_def e_def)
  moreover have "held u = held s" "curproc u = curproc s" "nextpid u = nextpid s + 1"
    "length (ptable u) = length (ptable s)"
    using D cf by (simp_all add: u_def e_def)
  ultimately show ?thesis using run pg d(2) by blast
qed

section \<open>Properties\<close>

text \<open>A table with process 0 running and process 1 asleep on the ticks channel, for witnesses.\<close>

definition kproc_two :: kproc where
  "kproc_two = kproc_pt\<lparr>held := [], freelist := map (\<lambda>i. 0x87FF0000 - of_nat i * 0x1000) [0..<7],
     ptable := [proc0\<lparr>state := RUNNING, pid := 1, pagetable := 0x87FFD000, sz := 0x3000\<rparr>,
       proc0\<lparr>state := SLEEPING, pid := 2, pchan := Some ChTicks\<rparr>] @ replicate 62 proc0, nextpid := 3\<rparr>"

lemma kproc_two_ok: "proc_locks_free kproc_two" "kmem_wf kproc_two" "curproc kproc_two = Some 0"
  "held kproc_two = []"
proof -
  have "upt 0 7 = [0,1,2,3,4,5,6]" by (simp add: upt_rec)
  then have "freelist kproc_two = [0x87FF0000, 0x87FEF000, 0x87FEE000, 0x87FED000, 0x87FEC000, 0x87FEB000, 0x87FEA000]"
    by (simp add: kproc_two_def)
  then show "kmem_wf kproc_two"
    by (simp add: kmem_wf_def page_ok_def kproc_two_def kproc_pt_def kmem_pt_def kmem0_def layout_defs)
qed (simp_all add: proc_locks_free_def kproc_two_def kproc_pt_def NPROC_def)

lemma allocproc_spec:
  fixes s :: "'x kproc_scheme"
  assumes "proc_locks_free s" and "PidLock \<notin> set (held s)" and "KmemLock \<notin> set (held s)"
    and "kmem_wf s" and "6 < length (freelist s)"
  shows "case find_idx (\<lambda>q. state q = UNUSED) (ptable s) of
      None \<Rightarrow> allocproc s = Ok None s
    | Some i \<Rightarrow> \<exists>t. allocproc s = Ok (Some i) t \<and> held t = ProcLock i # held s \<and>
        nextpid t = nextpid s + 1 \<and> (\<forall>j. j \<noteq> i \<longrightarrow> ptable t ! j = ptable s ! j) \<and>
        (\<exists>tfp pt. tfp \<noteq> 0 \<and> pt \<noteq> 0 \<and> ptable t ! i = (ptable s ! i)\<lparr>pid := nextpid s, state := USED,
           tfpage := tfp, tf := trapframe_junk, pagetable := pt,
           ctx := context0\<lparr>ctx_ra := forkret_pa s, ctx_sp := kstack (ptable s ! i) + PGSIZE\<rparr>\<rparr> \<and>
           fresh_user_table t pt (trampoline_pa s) tfp)"
proof (cases "find_idx (\<lambda>q. state q = UNUSED) (ptable s)")
  case None
  then show ?thesis using allocproc_scan_eq [OF assms(1), of 0] by (simp add: allocproc_def)
next
  case (Some i)
  let ?s = "s\<lparr>held := ProcLock i # held s\<rparr>"
  have i: "i < length (ptable ?s)" using find_idx_SomeD [OF Some] by simp
  have "kmem_wf ?s" using assms(4) by (simp add: kmem_wf_def page_ok_def)
  moreover have "allocproc s = allocproc_found i ?s"
    using allocproc_scan_eq [OF assms(1), of 0] Some by (simp add: allocproc_def)
  ultimately show ?thesis
    using allocproc_found_spec [of ?s i] assms(2,3,5) i Some by simp blast
qed

text \<open>
  C18. \<^verbatim>\<open>allocproc\<close> on a table with an unused entry and enough free pages takes the first such
  entry, gives it a fresh process id, a trap-frame page, a page table that maps exactly the
  trampoline and that trap frame, neither for user access, and a context that starts at
  \<^verbatim>\<open>forkret\<close> on its own kernel stack; it returns with the lock of the entry held and no
  other entry touched. Without an unused entry it returns null and changes nothing. The flag
  \<^verbatim>\<open>killed\<close> of the entry is not reset.
\<close>

theorem allocproc_takes_first_unused:
  fixes s :: "'x kproc_scheme"
  assumes "proc_locks_free s" and "PidLock \<notin> set (held s)" and "KmemLock \<notin> set (held s)"
    and "kmem_wf s" and "6 < length (freelist s)"
  shows "case find_idx (\<lambda>q. state q = UNUSED) (ptable s) of
      None \<Rightarrow> allocproc s = Ok None s
    | Some i \<Rightarrow> \<exists>t. allocproc s = Ok (Some i) t \<and> held t = ProcLock i # held s \<and>
        nextpid t = nextpid s + 1 \<and> (\<forall>j. j \<noteq> i \<longrightarrow> ptable t ! j = ptable s ! j) \<and>
        (\<exists>tfp pt. tfp \<noteq> 0 \<and> pt \<noteq> 0 \<and> ptable t ! i = (ptable s ! i)\<lparr>pid := nextpid s, state := USED,
           tfpage := tfp, tf := trapframe_junk, pagetable := pt,
           ctx := context0\<lparr>ctx_ra := forkret_pa s, ctx_sp := kstack (ptable s ! i) + PGSIZE\<rparr>\<rparr> \<and>
           fresh_user_table t pt (trampoline_pa s) tfp)"
  by (rule allocproc_spec [OF assms])

theorem allocproc_takes_first_unused_witness:
  "\<exists>t. allocproc kproc_two = Ok (Some 2) t \<and> held t = [ProcLock 2] \<and> pid (ptable t ! 2) = 3 \<and>
     state (ptable t ! 2) = USED \<and> ptable t ! 1 = ptable kproc_two ! 1"
proof -
  have f: "find_idx (\<lambda>q. state q = UNUSED) (ptable kproc_two) = Some 2"
    using replicate_Suc [of 61 proc0] by (simp add: kproc_two_def proc0_def)
  have "6 < length (freelist kproc_two)" "nextpid kproc_two = 3" by (simp_all add: kproc_two_def)
  then show ?thesis
    using allocproc_takes_first_unused [OF kproc_two_ok(1) _ _ kproc_two_ok(2)] f kproc_two_ok(4) by auto
qed

text \<open>
  \<^verbatim>\<open>wakeup(chan)\<close> makes runnable exactly the processes that sleep on \<^verbatim>\<open>chan\<close>, except the
  caller itself, and changes nothing else: not the channels, not the other states, not memory
  and not the locks held.
\<close>

lemma wakeup_exact:
  assumes "proc_locks_free s"
  shows "\<exists>t. wakeup c s = Ok () t \<and> t = s\<lparr>ptable := ptable t\<rparr> \<and> length (ptable t) = NPROC \<and>
    (\<forall>i<NPROC. ptable t ! i =
       (if state (ptable s ! i) = SLEEPING \<and> pchan (ptable s ! i) = Some c \<and> curproc s \<noteq> Some i
        then (ptable s ! i)\<lparr>state := RUNNABLE\<rparr> else ptable s ! i))"
  using wakeup_eq [OF assms, of c] by (auto simp: woken_def)

lemma wakeup_exact_witness:
  "\<exists>t. wakeup ChTicks kproc_two = Ok () t \<and> state (ptable t ! 1) = RUNNABLE \<and>
     state (ptable t ! 0) = RUNNING \<and> held t = []"
proof -
  obtain t where t: "wakeup ChTicks kproc_two = Ok () t" "t = kproc_two\<lparr>ptable := ptable t\<rparr>"
    "\<forall>i<NPROC. ptable t ! i =
       (if state (ptable kproc_two ! i) = SLEEPING \<and> pchan (ptable kproc_two ! i) = Some ChTicks \<and>
           curproc kproc_two \<noteq> Some i
        then (ptable kproc_two ! i)\<lparr>state := RUNNABLE\<rparr> else ptable kproc_two ! i)"
    using wakeup_exact [OF kproc_two_ok(1), of ChTicks] by blast
  have q: "ptable kproc_two ! 0 = proc0\<lparr>state := RUNNING, pid := 1, pagetable := 0x87FFD000, sz := 0x3000\<rparr>"
    "ptable kproc_two ! 1 = proc0\<lparr>state := SLEEPING, pid := 2, pchan := Some ChTicks\<rparr>"
    by (simp_all add: kproc_two_def)
  have "state (ptable t ! 1) = RUNNABLE"
    using t(3) [rule_format, of 1] q(2) kproc_two_ok(3) by (simp add: NPROC_def)
  moreover have "state (ptable t ! 0) = RUNNING"
    using t(3) [rule_format, of 0] q(1) kproc_two_ok(3) by (simp add: NPROC_def)
  moreover have "held t = held (kproc_two\<lparr>ptable := ptable t\<rparr>)" using t(2) by (rule arg_cong)
  then have "held t = []" using kproc_two_ok(4) by simp
  ultimately show ?thesis using t(1) by blast
qed

text \<open>
  \<^verbatim>\<open>kkill(pid)\<close> flags the first table entry with that process id, wakes it if it sleeps
  and returns 0; with no such entry it returns -1. Nothing else changes. The entry need not
  be in use: unused entries have process id 0, so \<^verbatim>\<open>kkill(0)\<close> flags the first of them.
\<close>

lemma kkill_first_match:
  assumes "proc_locks_free s"
  shows "kkill n s =
    (case find_idx (\<lambda>q. pid q = n) (ptable s) of
       None \<Rightarrow> Ok (-1) s
     | Some i \<Rightarrow> Ok 0 (upd_proc i (\<lambda>q. q\<lparr>pkilled := 1,
         state := if state q = SLEEPING then RUNNABLE else state q\<rparr>) s))"
  using kkill_scan_eq [OF assms, of 0 n] by (simp add: kkill_def split: option.splits)

lemma kkill_first_match_witness:
  "(\<exists>t. kkill 2 kproc_two = Ok 0 t \<and> pkilled (ptable t ! 1) = 1 \<and> state (ptable t ! 1) = RUNNABLE) \<and>
   (\<exists>t. kkill 0 kproc_two = Ok 0 t \<and> pkilled (ptable t ! 2) = 1 \<and> state (ptable t ! 2) = UNUSED)"
proof -
  have l: "length (ptable kproc_two) = 64" by (simp add: kproc_two_def)
  have q: "ptable kproc_two ! 1 = proc0\<lparr>state := SLEEPING, pid := 2, pchan := Some ChTicks\<rparr>"
    "ptable kproc_two ! 2 = proc0"
    by (simp_all add: kproc_two_def nth_append)
  have "find_idx (\<lambda>q. pid q = 2) (ptable kproc_two) = Some 1"
    "find_idx (\<lambda>q. pid q = 0) (ptable kproc_two) = Some 2"
    using replicate_Suc [of 61 proc0] by (simp_all add: kproc_two_def proc0_def)
  then show ?thesis
    using kkill_first_match [OF kproc_two_ok(1), of 2] kkill_first_match [OF kproc_two_ok(1), of 0] l q
    by (simp add: proc0_def)
qed

text \<open>
  The process that starts after \<^verbatim>\<open>kkill(0)\<close> is born killed: the flag set on the unused entry
  survives \<^verbatim>\<open>allocproc\<close>.
\<close>

lemma kkill_zero_poisons:
  "\<exists>t u. kkill 0 kproc_two = Ok 0 t \<and> allocproc t = Ok (Some 2) u \<and> pkilled (ptable u ! 2) = 1"
proof -
  have i: "find_idx (\<lambda>q. pid q = 0) (ptable kproc_two) = Some 2"
    using replicate_Suc [of 61 proc0] by (simp add: kproc_two_def proc0_def)
  let ?t = "upd_proc 2 (\<lambda>q. q\<lparr>pkilled := 1, state := if state q = SLEEPING then RUNNABLE else state q\<rparr>) kproc_two"
  have pt: "ptable ?t ! 2 = proc0\<lparr>pkilled := 1\<rparr>" "length (ptable ?t) = 64"
    by (simp_all add: kproc_two_def nth_append upd_proc_def) (simp add: proc0_def)
  have "ptable ?t = [proc0\<lparr>state := RUNNING, pid := 1, pagetable := 0x87FFD000, sz := 0x3000\<rparr>,
       proc0\<lparr>state := SLEEPING, pid := 2, pchan := Some ChTicks\<rparr>, proc0\<lparr>pkilled := 1\<rparr>] @ replicate 61 proc0"
    using replicate_Suc [of 61 proc0] by (simp add: upd_proc_def kproc_two_def numeral_2_eq_2) (simp add: proc0_def)
  then have f: "find_idx (\<lambda>q. state q = UNUSED) (ptable ?t) = Some 2" by (simp add: proc0_def)
  have "kmem_wf ?t" using kproc_two_ok(2) by (simp add: kmem_wf_def page_ok_def)
  moreover have "proc_locks_free ?t" "held ?t = []" using kproc_two_ok(1,4) by simp_all
  moreover have "6 < length (freelist ?t)" by (simp add: kproc_two_def)
  ultimately obtain u where u: "allocproc ?t = Ok (Some 2) u" "pkilled (ptable u ! 2) = pkilled (ptable ?t ! 2)"
    using allocproc_spec [of ?t] f by auto
  moreover have "kkill 0 kproc_two = Ok 0 ?t"
    using kkill_scan_eq [OF kproc_two_ok(1), of 0 0] i by (simp add: kkill_def numeral_2_eq_2)
  ultimately show ?thesis using pt(1) by auto
qed

end
