(* ===== verification/Sleeplock.thy ===== *)
theory Sleeplock
  imports Proc
begin

text \<open>
  \<^verbatim>\<open>kernel/sleeplock.c\<close>: locks a process keeps while it sleeps. The code runs in one process;
  where it has to wait, the result is \<open>Block\<close> with the state the process leaves to the others,
  and \<open>acquiresleep_resume\<close> is what it does when it is woken. The second half computes the
  operations in the state a system call runs them in, with no spinlock held.
\<close>

section \<open>State\<close>

text \<open>
  Sleep-locks are members of buffers and in-memory inodes, so they are named by the table
  entry they belong to; each contains a spinlock and is its own sleep channel.
\<close>

datatype slk = SlBuf nat | SlInode nat

fun sl_lock :: "slk \<Rightarrow> lock" where
  "sl_lock (SlBuf i) = BufLk i"
| "sl_lock (SlInode i) = InodeLk i"

fun sl_chan :: "slk \<Rightarrow> chan" where
  "sl_chan (SlBuf i) = ChBufLock i"
| "sl_chan (SlInode i) = ChInodeLock i"

record sleeplock =
  sl_locked :: bool
  sl_name :: string
  sl_pid :: int

record kslp = kproc +
  slocks :: "slk \<Rightarrow> sleeplock"

definition upd_slock :: "slk \<Rightarrow> (sleeplock \<Rightarrow> sleeplock) \<Rightarrow> 'x kslp_scheme \<Rightarrow> 'x kslp_scheme" where
  "upd_slock l f s = s\<lparr>slocks := (slocks s)(l := f (slocks s l))\<rparr>"

section \<open>The operations of sleeplock.c\<close>

definition initsleeplock :: "slk \<Rightarrow> string \<Rightarrow> 'x kslp_scheme \<Rightarrow> 'x kslp_scheme" where
  "initsleeplock l nm = upd_slock l (\<lambda>k. k\<lparr>sl_name := nm, sl_locked := False, sl_pid := 0\<rparr>)"

text \<open>The loop of \<^verbatim>\<open>acquiresleep\<close>, with the inner spinlock held.\<close>

definition acquiresleep_loop :: "slk \<Rightarrow> 'x kslp_scheme \<Rightarrow> (unit, 'x kslp_scheme) res" where
  "acquiresleep_loop l s =
     (if sl_locked (slocks s l) then sleep (sl_chan l) (sl_lock l) s
      else let s = upd_slock l (\<lambda>k. k\<lparr>sl_locked := True\<rparr>) s
           in with_myproc (\<lambda>p s.
                release (sl_lock l) (upd_slock l (\<lambda>k. k\<lparr>sl_pid := pid (ptable s ! p)\<rparr>) s)) s)"

definition acquiresleep :: "slk \<Rightarrow> 'x kslp_scheme \<Rightarrow> (unit, 'x kslp_scheme) res" where
  "acquiresleep l s = bnd (acquire (sl_lock l) s) (\<lambda>_ s. acquiresleep_loop l s)"

definition acquiresleep_resume :: "slk \<Rightarrow> 'x kslp_scheme \<Rightarrow> (unit, 'x kslp_scheme) res" where
  "acquiresleep_resume l s = bnd (sleep_resume (sl_lock l) s) (\<lambda>_ s. acquiresleep_loop l s)"

definition releasesleep :: "slk \<Rightarrow> 'x kslp_scheme \<Rightarrow> (unit, 'x kslp_scheme) res" where
  "releasesleep l s =
     bnd (acquire (sl_lock l) s) (\<lambda>_ s.
     let s = upd_slock l (\<lambda>k. k\<lparr>sl_locked := False, sl_pid := 0\<rparr>) s in
     bnd (wakeup (sl_chan l) s) (\<lambda>_ s. release (sl_lock l) s))"

definition holdingsleep :: "slk \<Rightarrow> 'x kslp_scheme \<Rightarrow> (bool, 'x kslp_scheme) res" where
  "holdingsleep l s =
     bnd (acquire (sl_lock l) s) (\<lambda>_ s.
     bnd (if sl_locked (slocks s l)
          then with_myproc (\<lambda>p s. Ok (sl_pid (slocks s l) = pid (ptable s ! p)) s) s
          else Ok False s) (\<lambda>r s.
     bnd (release (sl_lock l) s) (\<lambda>_ s. Ok r s)))"

section \<open>In a system call\<close>

text \<open>
  The state system-call code runs in: in a process, with no spinlock held. \<open>wake\<close> is the
  effect of \<^verbatim>\<open>wakeup\<close> in such a state, \<open>mypid\<close> the current process id.
\<close>

definition quiet :: "'x kproc_scheme \<Rightarrow> bool" where
  "quiet s \<longleftrightarrow> held s = [] \<and> (\<exists>p<NPROC. curproc s = Some p) \<and> length (ptable s) = NPROC"

definition mypid :: "'x kproc_scheme \<Rightarrow> int" where
  "mypid s = (case curproc s of None \<Rightarrow> 0 | Some p \<Rightarrow> pid (ptable s ! p))"

definition wake :: "chan \<Rightarrow> 'x kproc_scheme \<Rightarrow> 'x kproc_scheme" where
  "wake c s = s\<lparr>ptable := map (\<lambda>i. woken c (curproc s) i (ptable s ! i)) [0..<NPROC]\<rparr>"

lemma quietD: "quiet s \<Longrightarrow> held s = []" "quiet s \<Longrightarrow> length (ptable s) = NPROC"
  by (simp_all add: quiet_def)

lemma quiet_curproc: "quiet s \<Longrightarrow> \<exists>p<NPROC. curproc s = Some p \<and> mypid s = pid (ptable s ! p)"
  by (auto simp: quiet_def mypid_def)

lemma mypid_cong: "curproc t = curproc s \<Longrightarrow> ptable t = ptable s \<Longrightarrow> mypid t = mypid s"
  by (simp add: mypid_def split: option.split)

lemma quiet_cong: "curproc t = curproc s \<Longrightarrow> ptable t = ptable s \<Longrightarrow> held t = held s \<Longrightarrow> quiet t = quiet s"
  by (simp add: quiet_def)

lemma wake_fields [simp]: "held (wake c s) = held s" "curproc (wake c s) = curproc s"
  "length (ptable (wake c s)) = NPROC"
  by (simp_all add: wake_def)

lemma woken_pid [simp]: "pid (woken c m i q) = pid q"
  by (simp add: woken_def)

lemma quiet_wake [simp]: "quiet s \<Longrightarrow> quiet (wake c s)"
  by (simp add: quiet_def)

lemma mypid_wake [simp]: "quiet s \<Longrightarrow> mypid (wake c s) = mypid s"
  by (auto simp: quiet_def mypid_def wake_def)

lemma wakeup_wake: "proc_locks_free s \<Longrightarrow> wakeup c s = Ok () (wake c s)"
  by (simp add: wakeup_eq wake_def)

lemma sl_lock_not_proc [simp]: "sl_lock l \<noteq> ProcLock i" "ProcLock i \<noteq> sl_lock l"
  by (cases l; simp)+

lemma acquiresleep_eq:
  assumes "quiet s" "\<not> sl_locked (slocks s l)"
  shows "acquiresleep l s = Ok () (upd_slock l (\<lambda>k. k\<lparr>sl_locked := True, sl_pid := mypid s\<rparr>) s)"
  using assms quiet_curproc [OF assms(1)]
  by (cases s) (auto simp: acquiresleep_def acquiresleep_loop_def upd_slock_def quiet_def)

text \<open>A process that finds the lock taken sleeps on it, holding nothing but its own lock.\<close>

lemma acquiresleep_blocks:
  assumes "quiet s" "sl_locked (slocks s l)" "curproc s = Some p" 
  shows "acquiresleep l s = Block (sl_chan l)
    (upd_proc p (\<lambda>q. q\<lparr>pchan := Some (sl_chan l), state := SLEEPING\<rparr>) (s\<lparr>held := [ProcLock p]\<rparr>))"
proof -
  have "p < length (ptable s)" "held s = []" using assms by (auto simp: quiet_def)
  then show ?thesis using assms(2,3)
    by (simp add: acquiresleep_def acquiresleep_loop_def sleep_def sched_def holding_def upd_proc_def)
qed

lemma releasesleep_eq:
  assumes "quiet s"
  shows "releasesleep l s = Ok () (wake (sl_chan l) (upd_slock l (\<lambda>k. k\<lparr>sl_locked := False, sl_pid := 0\<rparr>) s))"
proof -
  have h: "held s = []" "length (ptable s) = NPROC" using assms by (auto simp: quiet_def)
  then have "proc_locks_free (upd_slock l (\<lambda>k. k\<lparr>sl_locked := False, sl_pid := 0\<rparr>) (s\<lparr>held := [sl_lock l]\<rparr>))"
    by (simp add: proc_locks_free_def upd_slock_def)
  with h show ?thesis
    by (cases s) (simp add: releasesleep_def wakeup_wake Let_def, simp add: wake_def upd_slock_def)
qed

lemma holdingsleep_eq:
  assumes "quiet s"
  shows "holdingsleep l s = Ok (sl_locked (slocks s l) \<and> sl_pid (slocks s l) = mypid s) s"
proof -
  have h: "held s = []" using assms by (simp add: quiet_def)
  obtain p where "curproc s = Some p" "mypid s = pid (ptable s ! p)" using quiet_curproc [OF assms] by blast
  with h show ?thesis by (cases s) (simp add: holdingsleep_def)
qed

text \<open>After \<^verbatim>\<open>acquiresleep\<close> the process holds the lock, after \<^verbatim>\<open>releasesleep\<close> it does not.\<close>

definition holds :: "slk \<Rightarrow> 'x kslp_scheme \<Rightarrow> bool" where
  "holds l s \<longleftrightarrow> sl_locked (slocks s l) \<and> sl_pid (slocks s l) = mypid s"

end
