(* ===== verification/Bytes.thy ===== *)
theory Bytes
  imports Cstring Params
begin

text \<open>
  The little-endian integers inside a block of bytes: the fields of the structures the code
  overlays on buffer data, ELF headers and directory entries, with their round trips.
\<close>

section \<open>Reading and writing fields\<close>

definition get16 :: "u8 list \<Rightarrow> nat \<Rightarrow> u16" where
  "get16 bs i = ucast (bs ! i) OR push_bit 8 (ucast (bs ! (i + 1)))"

definition get32 :: "u8 list \<Rightarrow> nat \<Rightarrow> u32" where
  "get32 bs i = ucast (bs ! i) OR push_bit 8 (ucast (bs ! (i + 1)))
     OR push_bit 16 (ucast (bs ! (i + 2))) OR push_bit 24 (ucast (bs ! (i + 3)))"

definition get64 :: "u8 list \<Rightarrow> nat \<Rightarrow> u64" where
  "get64 bs i = ucast (get32 bs i) OR push_bit 32 (ucast (get32 bs (i + 4)))"

definition bytes16 :: "u16 \<Rightarrow> u8 list" where
  "bytes16 w = [ucast w, ucast (drop_bit 8 w)]"

definition bytes32 :: "u32 \<Rightarrow> u8 list" where
  "bytes32 w = [ucast w, ucast (drop_bit 8 w), ucast (drop_bit 16 w), ucast (drop_bit 24 w)]"

text \<open>Overwriting a stretch of a block; \<^verbatim>\<open>memmove\<close> into a buffer's data.\<close>

definition patch :: "u8 list \<Rightarrow> nat \<Rightarrow> u8 list \<Rightarrow> u8 list" where
  "patch bs i xs = take i bs @ xs @ drop (i + length xs) bs"

definition put16 :: "u8 list \<Rightarrow> nat \<Rightarrow> u16 \<Rightarrow> u8 list" where
  "put16 bs i w = patch bs i (bytes16 w)"

definition put32 :: "u8 list \<Rightarrow> nat \<Rightarrow> u32 \<Rightarrow> u8 list" where
  "put32 bs i w = patch bs i (bytes32 w)"

definition sub_bytes :: "u8 list \<Rightarrow> nat \<Rightarrow> nat \<Rightarrow> u8 list" where
  "sub_bytes bs i n = take n (drop i bs)"

section \<open>Round trips\<close>

lemma length_bytes [simp]: "length (bytes16 w) = 2" "length (bytes32 v) = 4"
  by (simp_all add: bytes16_def bytes32_def)

lemma length_patch [simp]: "i + length xs \<le> length bs \<Longrightarrow> length (patch bs i xs) = length bs"
  by (simp add: patch_def)

lemma length_put [simp]: "i + 2 \<le> length bs \<Longrightarrow> length (put16 bs i h) = length bs"
  "i + 4 \<le> length bs \<Longrightarrow> length (put32 bs i w) = length bs"
  by (simp_all add: put16_def put32_def)

lemma nth_patch:
  "i + length xs \<le> length bs \<Longrightarrow> j < length bs \<Longrightarrow>
   patch bs i xs ! j = (if i \<le> j \<and> j < i + length xs then xs ! (j - i) else bs ! j)"
  by (auto simp: patch_def nth_append)

lemma sub_bytes_patch [simp]:
  "i + length xs \<le> length bs \<Longrightarrow> n = length xs \<Longrightarrow> sub_bytes (patch bs i xs) i n = xs"
  by (simp add: sub_bytes_def patch_def)

lemma sub_bytes_patch_other:
  assumes "i + length xs \<le> length bs" "j + n \<le> i \<or> i + length xs \<le> j" "j + n \<le> length bs"
  shows "sub_bytes (patch bs i xs) j n = sub_bytes bs j n"
  using assms by (intro nth_equalityI) (auto simp: sub_bytes_def nth_patch)

lemma length_sub_bytes [simp]: "i + n \<le> length bs \<Longrightarrow> length (sub_bytes bs i n) = n"
  by (simp add: sub_bytes_def)

lemma get16_put16 [simp]: "i + 2 \<le> length bs \<Longrightarrow> get16 (put16 bs i w) i = w"
  by (auto simp: get16_def put16_def nth_patch bytes16_def bit_simps intro!: bit_word_eqI)

lemma bytes32_join:
  "(ucast (ucast (w :: u32) :: u8) :: u32) OR push_bit 8 (ucast (ucast (drop_bit 8 w) :: u8))
     OR push_bit 16 (ucast (ucast (drop_bit 16 w) :: u8)) OR push_bit 24 (ucast (ucast (drop_bit 24 w) :: u8)) = w"
proof (rule bit_word_eqI)
  fix n assume "n < LENGTH(32)"
  then have "n < 8 \<or> 8 \<le> n \<and> n < 16 \<or> 16 \<le> n \<and> n < 24 \<or> 24 \<le> n \<and> n < 32" by auto
  then show "bit ((ucast (ucast (w :: u32) :: u8) :: u32) OR push_bit 8 (ucast (ucast (drop_bit 8 w) :: u8))
     OR push_bit 16 (ucast (ucast (drop_bit 16 w) :: u8)) OR push_bit 24 (ucast (ucast (drop_bit 24 w) :: u8))) n
     = bit w n"
    by (elim disjE) (auto simp: bit_simps)
qed

lemma get32_put32 [simp]: "i + 4 \<le> length bs \<Longrightarrow> get32 (put32 bs i w) i = w"
  using bytes32_join [of w]
  by (simp add: get32_def put32_def nth_patch bytes32_def numeral_2_eq_2 numeral_3_eq_3)

lemma get32_patch_other:
  "i + length xs \<le> length bs \<Longrightarrow> j + 4 \<le> i \<or> i + length xs \<le> j \<Longrightarrow> j + 4 \<le> length bs \<Longrightarrow>
   get32 (patch bs i xs) j = get32 bs j"
  by (auto simp: get32_def nth_patch)

lemma get32_put32_other [simp]:
  "i + 4 \<le> length bs \<Longrightarrow> j + 4 \<le> length bs \<Longrightarrow> j + 4 \<le> i \<or> i + 4 \<le> j \<Longrightarrow>
   get32 (put32 bs i w) j = get32 bs j"
  by (simp add: put32_def get32_patch_other)

lemma get32_put16_other [simp]:
  "i + 2 \<le> length bs \<Longrightarrow> j + 4 \<le> length bs \<Longrightarrow> j + 4 \<le> i \<or> i + 2 \<le> j \<Longrightarrow>
   get32 (put16 bs i w) j = get32 bs j"
  by (simp add: put16_def get32_patch_other)

lemma get16_patch_other:
  "i + length xs \<le> length bs \<Longrightarrow> j + 2 \<le> i \<or> i + length xs \<le> j \<Longrightarrow> j + 2 \<le> length bs \<Longrightarrow>
   get16 (patch bs i xs) j = get16 bs j"
  by (auto simp: get16_def nth_patch)

lemma get16_put16_other [simp]:
  "i + 2 \<le> length bs \<Longrightarrow> j + 2 \<le> length bs \<Longrightarrow> j + 2 \<le> i \<or> i + 2 \<le> j \<Longrightarrow>
   get16 (put16 bs i w) j = get16 bs j"
  by (simp add: put16_def get16_patch_other)

lemma get16_put32_other [simp]:
  "i + 4 \<le> length bs \<Longrightarrow> j + 2 \<le> length bs \<Longrightarrow> j + 2 \<le> i \<or> i + 4 \<le> j \<Longrightarrow>
   get16 (put32 bs i w) j = get16 bs j"
  by (simp add: put32_def get16_patch_other)

end
