(* ===== verification/Bio.thy ===== *)
theory Bio
  imports Sleeplock Bytes
begin

text \<open>
  \<^verbatim>\<open>kernel/bio.c\<close>: the buffer cache. The doubly linked list of all buffers is the list of
  their table indices from \<^verbatim>\<open>head.next\<close>, the most recently used, to \<^verbatim>\<open>head.prev\<close>. The disk
  is an array of blocks together with the writes it has performed, oldest first, so that a
  crash between two writes can be talked about; \<open>disk_rw\<close> is what \<^verbatim>\<open>virtio_disk_rw\<close> does by
  the time it returns. The second half reads the cache as a map from block numbers to their
  current content, reference count and lock, and computes every operation on that map.
\<close>

section \<open>State\<close>

record buf =
  bvalid :: bool
  bdev :: u32
  bblockno :: u32
  brefcnt :: u32
  bdata :: "u8 list"

record kbio = kslp +
  bufs :: "buf list"
  blru :: "nat list"
  disk :: "u32 \<Rightarrow> u8 list"
  dtrace :: "(u32 \<times> u8 list) list"

definition upd_buf :: "nat \<Rightarrow> (buf \<Rightarrow> buf) \<Rightarrow> 'x kbio_scheme \<Rightarrow> 'x kbio_scheme" where
  "upd_buf i f s = s\<lparr>bufs := (bufs s)[i := f (bufs s ! i)]\<rparr>"

definition set_bdata :: "nat \<Rightarrow> u8 list \<Rightarrow> 'x kbio_scheme \<Rightarrow> 'x kbio_scheme" where
  "set_bdata i bs = upd_buf i (\<lambda>x. x\<lparr>bdata := bs\<rparr>)"

section \<open>The operations of bio.c\<close>

definition binit :: "'x kbio_scheme \<Rightarrow> 'x kbio_scheme" where
  "binit s =
     fold (\<lambda>b s. initsleeplock (SlBuf b) ''buffer'' (s\<lparr>blru := b # blru s\<rparr>)) [0..<NBUF] (s\<lparr>blru := []\<rparr>)"

text \<open>
  A transfer between buffer \<open>i\<close> and its block. The process sleeps until the device has
  finished, which it may not do while it holds a spinlock.
\<close>

definition disk_rw :: "nat \<Rightarrow> bool \<Rightarrow> 'x kbio_scheme \<Rightarrow> (unit, 'x kbio_scheme) res" where
  "disk_rw i wr =
     with_myproc (\<lambda>p s.
     if held s \<noteq> [] then Panic ''sched locks''
     else let b = bufs s ! i in
       if wr then Ok () (s\<lparr>disk := (disk s)(bblockno b := bdata b),
                           dtrace := dtrace s @ [(bblockno b, bdata b)]\<rparr>)
       else Ok () (set_bdata i (disk s (bblockno b)) s))"

definition bget :: "u32 \<Rightarrow> u32 \<Rightarrow> 'x kbio_scheme \<Rightarrow> (nat, 'x kbio_scheme) res" where
  "bget dev blockno s =
     bnd (acquire BcacheLock s) (\<lambda>_ s.
     case find (\<lambda>i. bdev (bufs s ! i) = dev \<and> bblockno (bufs s ! i) = blockno) (blru s) of
       Some i \<Rightarrow>
         let s = upd_buf i (\<lambda>b. b\<lparr>brefcnt := brefcnt b + 1\<rparr>) s in
         bnd (release BcacheLock s) (\<lambda>_ s. bnd (acquiresleep (SlBuf i) s) (\<lambda>_ s. Ok i s))
     | None \<Rightarrow>
         (case find (\<lambda>i. brefcnt (bufs s ! i) = 0) (rev (blru s)) of
            Some i \<Rightarrow>
              let s = upd_buf i (\<lambda>b. b\<lparr>bdev := dev, bblockno := blockno, bvalid := False, brefcnt := 1\<rparr>) s in
              bnd (release BcacheLock s) (\<lambda>_ s. bnd (acquiresleep (SlBuf i) s) (\<lambda>_ s. Ok i s))
          | None \<Rightarrow> Panic ''bget: no buffers''))"

definition bread :: "u32 \<Rightarrow> u32 \<Rightarrow> 'x kbio_scheme \<Rightarrow> (nat, 'x kbio_scheme) res" where
  "bread dev blockno s =
     bnd (bget dev blockno s) (\<lambda>i s.
     if \<not> bvalid (bufs s ! i)
     then bnd (disk_rw i False s) (\<lambda>_ s. Ok i (upd_buf i (\<lambda>b. b\<lparr>bvalid := True\<rparr>) s))
     else Ok i s)"

definition bwrite :: "nat \<Rightarrow> 'x kbio_scheme \<Rightarrow> (unit, 'x kbio_scheme) res" where
  "bwrite i s =
     bnd (holdingsleep (SlBuf i) s) (\<lambda>h s. if \<not> h then Panic ''bwrite'' else disk_rw i True s)"

definition brelse :: "nat \<Rightarrow> 'x kbio_scheme \<Rightarrow> (unit, 'x kbio_scheme) res" where
  "brelse i s =
     bnd (holdingsleep (SlBuf i) s) (\<lambda>h s.
     if \<not> h then Panic ''brelse''
     else bnd (releasesleep (SlBuf i) s) (\<lambda>_ s.
       bnd (acquire BcacheLock s) (\<lambda>_ s.
       let s = upd_buf i (\<lambda>b. b\<lparr>brefcnt := brefcnt b - 1\<rparr>) s;
           s = (if brefcnt (bufs s ! i) = 0 then s\<lparr>blru := i # remove1 i (blru s)\<rparr> else s)
       in release BcacheLock s)))"

definition bpin :: "nat \<Rightarrow> 'x kbio_scheme \<Rightarrow> (unit, 'x kbio_scheme) res" where
  "bpin i s =
     bnd (acquire BcacheLock s) (\<lambda>_ s.
     release BcacheLock (upd_buf i (\<lambda>b. b\<lparr>brefcnt := brefcnt b + 1\<rparr>) s))"

definition bunpin :: "nat \<Rightarrow> 'x kbio_scheme \<Rightarrow> (unit, 'x kbio_scheme) res" where
  "bunpin i s =
     bnd (acquire BcacheLock s) (\<lambda>_ s.
     release BcacheLock (upd_buf i (\<lambda>b. b\<lparr>brefcnt := brefcnt b - 1\<rparr>) s))"

section \<open>The cache as a map\<close>

text \<open>Buffer \<open>i\<close> is the one for block \<open>b\<close> of device \<open>d\<close>.\<close>

definition cached :: "u32 \<Rightarrow> 'x kbio_scheme \<Rightarrow> nat \<Rightarrow> u32 \<Rightarrow> bool" where
  "cached d s i b \<longleftrightarrow> i < length (bufs s) \<and> bdev (bufs s ! i) = d \<and> bblockno (bufs s ! i) = b"

definition buf_of :: "u32 \<Rightarrow> 'x kbio_scheme \<Rightarrow> u32 \<Rightarrow> nat option" where
  "buf_of d s b = find_idx (\<lambda>x. bdev x = d \<and> bblockno x = b) (bufs s)"

text \<open>The content the kernel sees, the references, and the blocks whose buffers are locked.\<close>

definition blk :: "u32 \<Rightarrow> 'x kbio_scheme \<Rightarrow> u32 \<Rightarrow> u8 list" where
  "blk d s b = (case buf_of d s b of
     Some i \<Rightarrow> if bvalid (bufs s ! i) then bdata (bufs s ! i) else disk s b
   | None \<Rightarrow> disk s b)"

definition pin :: "u32 \<Rightarrow> 'x kbio_scheme \<Rightarrow> u32 \<Rightarrow> nat" where
  "pin d s b = (case buf_of d s b of Some i \<Rightarrow> unat (brefcnt (bufs s ! i)) | None \<Rightarrow> 0)"

definition busy :: "u32 \<Rightarrow> 'x kbio_scheme \<Rightarrow> u32 \<Rightarrow> bool" where
  "busy d s b = (case buf_of d s b of Some i \<Rightarrow> sl_locked (slocks s (SlBuf i)) | None \<Rightarrow> False)"

text \<open>
  The invariant: the list is a permutation of the table; every buffer in use is for device
  \<open>d\<close>, no two for the same block; an unreferenced buffer is unlocked and agrees with the disk.
\<close>

definition bio_wf :: "u32 \<Rightarrow> 'x kbio_scheme \<Rightarrow> bool" where
  "bio_wf d s \<longleftrightarrow> length (bufs s) = NBUF \<and> distinct (blru s) \<and> set (blru s) = {..<NBUF} \<and>
     (\<forall>i j b. cached d s i b \<and> cached d s j b \<longrightarrow> i = j) \<and>
     (\<forall>i<NBUF. bdev (bufs s ! i) = d \<or> \<not> bvalid (bufs s ! i) \<and> brefcnt (bufs s ! i) = 0) \<and>
     (\<forall>i<NBUF. length (bdata (bufs s ! i)) = BSIZE) \<and> (\<forall>b. length (disk s b) = BSIZE) \<and>
     (\<forall>i<NBUF. brefcnt (bufs s ! i) = 0 \<longrightarrow> \<not> sl_locked (slocks s (SlBuf i)) \<and>
        (bvalid (bufs s ! i) \<longrightarrow> bdata (bufs s ! i) = disk s (bblockno (bufs s ! i))))"

text \<open>The process holds the locked, valid buffer \<open>i\<close> of block \<open>b\<close>.\<close>

definition handle :: "u32 \<Rightarrow> 'x kbio_scheme \<Rightarrow> nat \<Rightarrow> u32 \<Rightarrow> bool" where
  "handle d s i b \<longleftrightarrow> cached d s i b \<and> bvalid (bufs s ! i) \<and> brefcnt (bufs s ! i) \<noteq> 0 \<and> holds (SlBuf i) s"

text \<open>What the operations leave alone: everything but the cache, the disk and who is runnable.\<close>

definition bframe :: "'x kbio_scheme \<Rightarrow> 'x kbio_scheme \<Rightarrow> bool" where
  "bframe s t \<longleftrightarrow> kbio.more t = kbio.more s \<and> mypid t = mypid s \<and> curproc t = curproc s \<and>
     held t = held s \<and> hartid t = hartid s \<and> mem t = mem s \<and> freelist t = freelist s \<and>
     kend t = kend s \<and> length (ptable t) = length (ptable s) \<and>
     (\<forall>i<NPROC. (ptable t ! i)\<lparr>state := UNUSED\<rparr> = (ptable s ! i)\<lparr>state := UNUSED\<rparr>) \<and>
     (\<forall>i. slocks t (SlInode i) = slocks s (SlInode i))"

lemma bframe_refl [simp, intro]: "bframe s s" by (simp add: bframe_def)

lemma bframe_trans: "bframe s t \<Longrightarrow> bframe t u \<Longrightarrow> bframe s u" by (simp add: bframe_def)

lemma bframe_quiet: "bframe s t \<Longrightarrow> quiet s \<Longrightarrow> quiet t"
  by (simp add: bframe_def quiet_def)

definition bio_ok :: "u32 \<Rightarrow> 'x kbio_scheme \<Rightarrow> bool" where
  "bio_ok d s \<longleftrightarrow> quiet s \<and> bio_wf d s"

lemma bio_wf_unique: "bio_wf d s \<Longrightarrow> cached d s i b \<Longrightarrow> cached d s j b \<Longrightarrow> i = j"
  unfolding bio_wf_def by (elim conjE) blast

lemma buf_of_SomeD: "buf_of d s b = Some i \<Longrightarrow> cached d s i b"
  unfolding buf_of_def cached_def by (auto dest: find_idx_SomeD)

lemma cached_buf_of:
  assumes "bio_wf d s" "cached d s i b" shows "buf_of d s b = Some i"
proof -
  have "\<exists>x \<in> set (bufs s). bdev x = d \<and> bblockno x = b" using assms(2) by (auto simp: cached_def)
  then obtain j where j: "buf_of d s b = Some j"
    using find_idx_Some_ex [of "bufs s" "\<lambda>x. bdev x = d \<and> bblockno x = b"] by (auto simp: buf_of_def)
  with bio_wf_unique [OF assms buf_of_SomeD] have "i = j" by blast
  with j show ?thesis by simp
qed

lemma buf_of_None_iff: "buf_of d s b = None \<longleftrightarrow> (\<forall>i. \<not> cached d s i b)"
  by (fastforce simp: buf_of_def cached_def find_idx_None_iff in_set_conv_nth)

lemma view_cached:
  assumes "bio_wf d s" "cached d s i b"
  shows "blk d s b = (if bvalid (bufs s ! i) then bdata (bufs s ! i) else disk s b)"
    and "pin d s b = unat (brefcnt (bufs s ! i))" and "busy d s b = sl_locked (slocks s (SlBuf i))"
  using cached_buf_of [OF assms] by (simp_all add: blk_def pin_def busy_def)

lemma view_uncached:
  assumes "\<forall>i. \<not> cached d s i b"
  shows "blk d s b = disk s b" "pin d s b = 0" "busy d s b = False"
  using assms by (simp_all add: blk_def pin_def busy_def buf_of_None_iff [symmetric])

text \<open>An unreferenced block agrees with the disk.\<close>

lemma bio_clean:
  assumes wf: "bio_wf d s" and p: "pin d s b = 0" shows "blk d s b = disk s b"
proof (cases "\<exists>i. cached d s i b")
  case True
  then obtain i where c: "cached d s i b" ..
  then have "i < NBUF" "bblockno (bufs s ! i) = b" using wf by (simp_all add: cached_def bio_wf_def)
  moreover have "brefcnt (bufs s ! i) = 0" using view_cached(2) [OF wf c] p by (simp add: unat_eq_0)
  ultimately have "bvalid (bufs s ! i) \<Longrightarrow> bdata (bufs s ! i) = disk s b" using wf by (simp add: bio_wf_def)
  then show ?thesis using view_cached(1) [OF wf c] by simp
next
  case False
  then show ?thesis using view_uncached(1) by blast
qed

lemma handle_cached: "handle d s i b \<Longrightarrow> cached d s i b" by (simp add: handle_def)

lemma handle_view:
  assumes "bio_wf d s" "handle d s i b"
  shows "blk d s b = bdata (bufs s ! i)" "0 < pin d s b" "busy d s b" "i < NBUF" "bblockno (bufs s ! i) = b"
  using assms view_cached [OF assms(1) handle_cached [OF assms(2)]]
  by (simp_all add: handle_def holds_def cached_def bio_wf_def unat_gt_0)

text \<open>A buffer is available as long as fewer than \<^verbatim>\<open>NBUF\<close> blocks are referenced.\<close>

lemma pinned_card:
  assumes "bio_wf d s" "\<forall>i<NBUF. brefcnt (bufs s ! i) \<noteq> 0"
  shows "card {b. 0 < pin d s b} = NBUF"
proof -
  let ?f = "\<lambda>i. bblockno (bufs s ! i)"
  have L: "length (bufs s) = NBUF" using assms(1) by (simp add: bio_wf_def)
  have c: "cached d s i (?f i)" if "i < NBUF" for i
    using assms that L by (auto simp: bio_wf_def cached_def)
  have inj: "inj_on ?f {..<NBUF}"
  proof (rule inj_onI)
    fix i j assume "i \<in> {..<NBUF}" "j \<in> {..<NBUF}" "?f i = ?f j"
    then have "cached d s i (?f i)" "cached d s j (?f i)" using c [of i] c [of j] by simp_all
    then show "i = j" by (rule bio_wf_unique [OF assms(1)])
  qed
  have "{b. 0 < pin d s b} = ?f ` {..<NBUF}"
  proof (intro set_eqI iffI)
    fix b assume "b \<in> {b. 0 < pin d s b}"
    then have "\<not> (\<forall>i. \<not> cached d s i b)" using view_uncached(2) [of d s b] by auto
    then obtain i where "cached d s i b" by blast
    then show "b \<in> ?f ` {..<NBUF}" using L by (auto simp: cached_def)
  next
    fix b assume "b \<in> ?f ` {..<NBUF}"
    then obtain i where "i < NBUF" "b = ?f i" by auto
    then show "b \<in> {b. 0 < pin d s b}"
      using view_cached(2) [OF assms(1) c [of i]] assms(2) by (simp add: unat_gt_0)
  qed
  then show ?thesis using card_image [OF inj] by simp
qed

lemma free_buffer:
  assumes "bio_wf d s" "card {b. 0 < pin d s b} < NBUF"
  shows "\<exists>i<NBUF. brefcnt (bufs s ! i) = 0"
  using pinned_card [OF assms(1)] assms(2) by fastforce

section \<open>Changing one buffer\<close>

text \<open>
  Every operation rewrites one table entry. Either the entry keeps its block, or an
  unreferenced entry is given a block that is not in the cache.
\<close>

lemma wf_entry:
  assumes "bio_wf d s" "i < NBUF"
  shows "length (bdata (bufs s ! i)) = BSIZE" "bdev (bufs s ! i) \<noteq> d \<Longrightarrow> brefcnt (bufs s ! i) = 0"
    "bdev (bufs s ! i) \<noteq> d \<Longrightarrow> \<not> bvalid (bufs s ! i)"
    "brefcnt (bufs s ! i) = 0 \<Longrightarrow> \<not> sl_locked (slocks s (SlBuf i))"
    "brefcnt (bufs s ! i) = 0 \<Longrightarrow> bvalid (bufs s ! i) \<Longrightarrow> bdata (bufs s ! i) = disk s (bblockno (bufs s ! i))"
  using assms unfolding bio_wf_def by blast+

lemma wf_table: "bio_wf d s \<Longrightarrow> length (bufs s) = NBUF" "bio_wf d s \<Longrightarrow> set (blru s) = {..<NBUF}"
  "bio_wf d s \<Longrightarrow> distinct (blru s)" "bio_wf d s \<Longrightarrow> length (disk s b) = BSIZE"
  by (simp_all add: bio_wf_def)

lemma cached_update_same:
  assumes "cached d s i b" "bufs t = (bufs s)[i := x]" "bdev x = d" "bblockno x = b"
  shows "cached d t j c = cached d s j c"
  using assms by (auto simp: cached_def nth_list_update)

lemma cached_update_new:
  assumes "i < length (bufs s)" "bufs t = (bufs s)[i := x]" "bdev x = d" "bblockno x = b"
  shows "cached d t j c = (if j = i then c = b else cached d s j c)"
  using assms by (auto simp: cached_def nth_list_update)

lemma wf_update:
  assumes wf: "bio_wf d s" and i: "i < NBUF" and b: "bufs t = (bufs s)[i := x]"
    and id: "bdev x = d" "bblockno x = b" "length (bdata x) = BSIZE"
    and new: "\<forall>j. j \<noteq> i \<longrightarrow> \<not> cached d s j b"
    and lru: "distinct (blru t)" "set (blru t) = {..<NBUF}"
    and l: "\<forall>j. j \<noteq> i \<longrightarrow> slocks t (SlBuf j) = slocks s (SlBuf j)"
    and dk: "\<forall>c. c \<noteq> b \<longrightarrow> disk t c = disk s c" "length (disk t b) = BSIZE"
    and z: "brefcnt x = 0 \<Longrightarrow> \<not> sl_locked (slocks t (SlBuf i)) \<and> (bvalid x \<longrightarrow> bdata x = disk t b)"
  shows "bio_wf d t"
  unfolding bio_wf_def
proof (intro conjI allI impI)
  note L = wf_table [OF wf]
  note B = b L(1) i
  show "length (bufs t) = NBUF" "distinct (blru t)" "set (blru t) = {..<NBUF}" using B lru by simp_all
  show "length (disk t c) = BSIZE" for c using dk L(4) by (cases "c = b") auto
  show "j = k" if "cached d t j c \<and> cached d t k c" for j k c
    using that cached_update_new [of i s t x d b, OF _ b id(1,2)] new i L(1) bio_wf_unique [OF wf]
    by (auto split: if_splits)
  show "bdev (bufs t ! j) = d \<or> \<not> bvalid (bufs t ! j) \<and> brefcnt (bufs t ! j) = 0" if "j < NBUF" for j
    using that B id wf_entry(2,3) [OF wf that] by (auto simp: nth_list_update)
  show "length (bdata (bufs t ! j)) = BSIZE" if "j < NBUF" for j
    using that B id wf_entry(1) [OF wf that] by (auto simp: nth_list_update)
  show "\<not> sl_locked (slocks t (SlBuf j))" if "j < NBUF" "brefcnt (bufs t ! j) = 0" for j
    using that B z l wf_entry(4) [OF wf that(1)] by (cases "j = i") auto
  show "bdata (bufs t ! j) = disk t (bblockno (bufs t ! j))"
    if "j < NBUF" "brefcnt (bufs t ! j) = 0" "bvalid (bufs t ! j)" for j
  proof (cases "j = i")
    case True
    then show ?thesis using that B z id by simp
  next
    case False
    then have e: "bufs t ! j = bufs s ! j" using B by simp
    have "bdev (bufs s ! j) = d" using wf_entry(3) [OF wf that(1)] that(3) e by auto
    then have "cached d s j (bblockno (bufs s ! j))" using that(1) L(1) by (simp add: cached_def)
    then have "bblockno (bufs s ! j) \<noteq> b" using new False by blast
    then show ?thesis using e that dk wf_entry(5) [OF wf that(1)] by simp
  qed
qed

lemma views_update_same:
  assumes wf: "bio_wf d s" "bio_wf d t" and c: "cached d s i b" and b: "bufs t = (bufs s)[i := x]"
    and id: "bdev x = d" "bblockno x = b"
    and l: "\<forall>j. j \<noteq> i \<longrightarrow> slocks t (SlBuf j) = slocks s (SlBuf j)"
    and dk: "\<forall>c. c \<noteq> b \<longrightarrow> disk t c = disk s c"
  shows "blk d t = (blk d s)(b := if bvalid x then bdata x else disk t b)"
    and "pin d t = (pin d s)(b := unat (brefcnt x))"
    and "busy d t = (busy d s)(b := sl_locked (slocks t (SlBuf i)))"
proof -
  have ct: "cached d t j k = cached d s j k" for j k by (rule cached_update_same [OF c b id])
  have xi: "bufs t ! i = x" using b c by (simp add: cached_def)
  have v: "blk d t k = ((blk d s)(b := if bvalid x then bdata x else disk t b)) k \<and>
      pin d t k = ((pin d s)(b := unat (brefcnt x))) k \<and>
      busy d t k = ((busy d s)(b := sl_locked (slocks t (SlBuf i)))) k" for k
  proof (cases "k = b")
    case True
    have "cached d t i b" using ct c by simp
    from view_cached [OF wf(2) this] xi True show ?thesis by simp
  next
    case False
    show ?thesis
    proof (cases "\<exists>j. cached d s j k")
      case True
      then obtain j where j: "cached d s j k" ..
      then have ji: "j \<noteq> i" using c False by (auto simp: cached_def)
      have "cached d t j k" using ct j by simp
      from view_cached [OF wf(2) this] view_cached [OF wf(1) j] ji False b l dk show ?thesis by simp
    next
      case nc: False
      then have "\<forall>j. \<not> cached d t j k" using ct by simp
      from view_uncached [OF this] view_uncached [of d s k] nc False dk show ?thesis by auto
    qed
  qed
  show "blk d t = (blk d s)(b := if bvalid x then bdata x else disk t b)"
    "pin d t = (pin d s)(b := unat (brefcnt x))" 
    "busy d t = (busy d s)(b := sl_locked (slocks t (SlBuf i)))"
    using v by (simp_all add: fun_eq_iff)
qed

lemma views_update_new:
  assumes wf: "bio_wf d s" "bio_wf d t" and i: "i < NBUF" "brefcnt (bufs s ! i) = 0"
    and nc: "\<forall>j. \<not> cached d s j b" and b: "bufs t = (bufs s)[i := x]"
    and id: "bdev x = d" "bblockno x = b"
    and l: "\<forall>j. j \<noteq> i \<longrightarrow> slocks t (SlBuf j) = slocks s (SlBuf j)" and dk: "disk t = disk s"
  shows "blk d t = (blk d s)(b := if bvalid x then bdata x else disk t b)"
    and "pin d t = (pin d s)(b := unat (brefcnt x))"
    and "busy d t = (busy d s)(b := sl_locked (slocks t (SlBuf i)))"
proof -
  have L: "i < length (bufs s)" using wf_table(1) [OF wf(1)] i by simp
  have ct: "cached d t j k = (if j = i then k = b else cached d s j k)" for j k
    by (rule cached_update_new [OF L b id])
  have xi: "bufs t ! i = x" using b L by simp
  have v: "blk d t k = ((blk d s)(b := if bvalid x then bdata x else disk t b)) k \<and>
      pin d t k = ((pin d s)(b := unat (brefcnt x))) k \<and>
      busy d t k = ((busy d s)(b := sl_locked (slocks t (SlBuf i)))) k" for k
  proof (cases "k = b")
    case True
    have "cached d t i b" using ct by simp
    from view_cached [OF wf(2) this] xi True show ?thesis by simp
  next
    case False
    show ?thesis
    proof (cases "\<exists>j. j \<noteq> i \<and> cached d s j k")
      case True
      then obtain j where j: "j \<noteq> i" "cached d s j k" by blast
      have "cached d t j k" using ct j by simp
      from view_cached [OF wf(2) this] view_cached [OF wf(1) j(2)] j False b l dk show ?thesis by simp
    next
      case nj: False
      then have "\<forall>j. \<not> cached d t j k" using ct False by auto
      note T = view_uncached [OF this]
      have S: "blk d s k = disk s k \<and> pin d s k = 0 \<and> \<not> busy d s k"
      proof (cases "cached d s i k")
        case True
        then have "bblockno (bufs s ! i) = k" by (simp add: cached_def)
        then show ?thesis using view_cached [OF wf(1) True] wf_entry(4,5) [OF wf(1) i(1)] i(2) by simp
      next
        case False
        with nj have "\<forall>j. \<not> cached d s j k" by metis
        from view_uncached [OF this] show ?thesis by simp
      qed
      from T S False dk show ?thesis by simp
    qed
  qed
  show "blk d t = (blk d s)(b := if bvalid x then bdata x else disk t b)"
    "pin d t = (pin d s)(b := unat (brefcnt x))"
    "busy d t = (busy d s)(b := sl_locked (slocks t (SlBuf i)))"
    using v by (simp_all add: fun_eq_iff)
qed

lemma handle_other:
  assumes "handle d s j c" "j \<noteq> i" "bufs t = (bufs s)[i := x]" "mypid t = mypid s"
    "slocks t (SlBuf j) = slocks s (SlBuf j)"
  shows "handle d t j c"
  using assms by (simp add: handle_def cached_def holds_def)

section \<open>The operations on the map\<close>

lemma find_SomeI: "\<exists>x \<in> set xs. P x \<Longrightarrow> \<exists>i. find P xs = Some i \<and> i \<in> set xs \<and> P i"
  by (induction xs) auto

lemma find_unique:
  assumes "i \<in> set xs" "P i" "\<And>j. j \<in> set xs \<Longrightarrow> P j \<Longrightarrow> j = i"
  shows "find P xs = Some i"
  using find_SomeI [of xs P] assms by blast

lemma bio_okD: "bio_ok d s \<Longrightarrow> quiet s" "bio_ok d s \<Longrightarrow> bio_wf d s"
  by (simp_all add: bio_ok_def)

lemma quiet_fields: "quiet s \<Longrightarrow> held s = []" "quiet s \<Longrightarrow> length (ptable s) = NPROC"
  by (simp_all add: quiet_def)

lemma quiet_no_lock [simp]: "quiet s \<Longrightarrow> l \<notin> set (held s)"
  by (simp add: quiet_def)

text \<open>The state of buffer \<open>i\<close> and of its lock; everything else stays.\<close>

definition entry_to :: "nat \<Rightarrow> buf \<Rightarrow> sleeplock \<Rightarrow> 'x kbio_scheme \<Rightarrow> 'x kbio_scheme" where
  "entry_to i x k s = s\<lparr>bufs := (bufs s)[i := x], slocks := (slocks s)(SlBuf i := k)\<rparr>"

lemma entry_to_fields [simp]: "bufs (entry_to i x k s) = (bufs s)[i := x]"
  "slocks (entry_to i x k s) = (slocks s)(SlBuf i := k)" "disk (entry_to i x k s) = disk s"
  "dtrace (entry_to i x k s) = dtrace s" "blru (entry_to i x k s) = blru s"
  "quiet (entry_to i x k s) = quiet s" "mypid (entry_to i x k s) = mypid s"
  "bframe s (entry_to i x k s)"
  by (auto simp: entry_to_def quiet_def bframe_def intro!: mypid_cong)

lemma bget_hit:
  assumes "bio_ok d s" "cached d s i b" "\<not> busy d s b"
  shows "\<exists>k. sl_locked k \<and> sl_pid k = mypid s \<and>
    bget d b s = Ok i (entry_to i ((bufs s ! i)\<lparr>brefcnt := brefcnt (bufs s ! i) + 1\<rparr>) k s)"
proof -
  note q = bio_okD(1) [OF assms(1)] and wf = bio_okD(2) [OF assms(1)]
  have i: "i < NBUF" using assms(2) wf_table(1) [OF wf] by (simp add: cached_def)
  have u: "j = i" if "j < NBUF" "bdev (bufs s ! j) = d" "bblockno (bufs s ! j) = b" for j
    by (rule bio_wf_unique [OF wf _ assms(2)]) (use that wf_table(1) [OF wf] in \<open>simp add: cached_def\<close>)
  have f: "find (\<lambda>i. bdev (bufs s ! i) = d \<and> bblockno (bufs s ! i) = b) (blru s) = Some i"
  proof (rule find_unique)
    show "i \<in> set (blru s)" using i wf_table(2) [OF wf] by simp
    show "bdev (bufs s ! i) = d \<and> bblockno (bufs s ! i) = b" using assms(2) by (simp add: cached_def)
    show "j = i" if "j \<in> set (blru s)" "bdev (bufs s ! j) = d \<and> bblockno (bufs s ! j) = b" for j
      using that wf_table(2) [OF wf] by (intro u) auto
  qed
  let ?u = "upd_buf i (\<lambda>x. x\<lparr>brefcnt := brefcnt x + 1\<rparr>) s"
  have uq: "quiet ?u" "mypid ?u = mypid s" "slocks ?u = slocks s" "held s = []"
    using q by (auto simp: quiet_def upd_buf_def intro!: mypid_cong)
  have nl: "\<not> sl_locked (slocks ?u (SlBuf i))" using view_cached(3) [OF wf assms(2)] assms(3) uq by simp
  have "bget d b s = Ok i (upd_slock (SlBuf i) (\<lambda>k. k\<lparr>sl_locked := True, sl_pid := mypid s\<rparr>) ?u)"
    using f acquiresleep_eq [OF uq(1) nl] uq(2,4) by (cases s) (simp add: bget_def upd_buf_def)
  moreover have "upd_slock (SlBuf i) (\<lambda>k. k\<lparr>sl_locked := True, sl_pid := mypid s\<rparr>) ?u =
     entry_to i ((bufs s ! i)\<lparr>brefcnt := brefcnt (bufs s ! i) + 1\<rparr>)
       ((slocks s (SlBuf i))\<lparr>sl_locked := True, sl_pid := mypid s\<rparr>) s"
    by (simp add: upd_slock_def upd_buf_def entry_to_def)
  ultimately show ?thesis by (intro exI [of _ "(slocks s (SlBuf i))\<lparr>sl_locked := True, sl_pid := mypid s\<rparr>"]) simp
qed

lemma bget_miss:
  assumes "bio_ok d s" "\<forall>i. \<not> cached d s i b" "\<exists>i<NBUF. brefcnt (bufs s ! i) = 0"
  shows "\<exists>i k. i < NBUF \<and> brefcnt (bufs s ! i) = 0 \<and> sl_locked k \<and> sl_pid k = mypid s \<and>
    bget d b s = Ok i (entry_to i ((bufs s ! i)\<lparr>bdev := d, bblockno := b, bvalid := False, brefcnt := 1\<rparr>) k s)"
proof -
  note q = bio_okD(1) [OF assms(1)] and wf = bio_okD(2) [OF assms(1)]
  note T = wf_table [OF wf]
  have f: "find (\<lambda>i. bdev (bufs s ! i) = d \<and> bblockno (bufs s ! i) = b) (blru s) = None"
    using assms(2) T by (auto simp: find_None_iff cached_def)
  obtain i where g: "find (\<lambda>i. brefcnt (bufs s ! i) = 0) (rev (blru s)) = Some i" "i < NBUF"
    "brefcnt (bufs s ! i) = 0"
    using find_SomeI [of "rev (blru s)" "\<lambda>i. brefcnt (bufs s ! i) = 0"] assms(3) T(2) by auto
  let ?u = "upd_buf i (\<lambda>x. x\<lparr>bdev := d, bblockno := b, bvalid := False, brefcnt := 1\<rparr>) s"
  have uq: "quiet ?u" "mypid ?u = mypid s" "slocks ?u = slocks s" "held s = []"
    using q by (auto simp: quiet_def upd_buf_def intro!: mypid_cong)
  have nl: "\<not> sl_locked (slocks ?u (SlBuf i))" using wf_entry(4) [OF wf g(2,3)] uq by simp
  have "bget d b s = Ok i (upd_slock (SlBuf i) (\<lambda>k. k\<lparr>sl_locked := True, sl_pid := mypid s\<rparr>) ?u)"
    using f g acquiresleep_eq [OF uq(1) nl] uq(2,4) by (cases s) (simp add: bget_def upd_buf_def)
  moreover have "upd_slock (SlBuf i) (\<lambda>k. k\<lparr>sl_locked := True, sl_pid := mypid s\<rparr>) ?u =
     entry_to i ((bufs s ! i)\<lparr>bdev := d, bblockno := b, bvalid := False, brefcnt := 1\<rparr>)
       ((slocks s (SlBuf i))\<lparr>sl_locked := True, sl_pid := mypid s\<rparr>) s"
    by (simp add: upd_slock_def upd_buf_def entry_to_def)
  ultimately show ?thesis using g
    by (intro exI [of _ i] exI [of _ "(slocks s (SlBuf i))\<lparr>sl_locked := True, sl_pid := mypid s\<rparr>"]) simp
qed

text \<open>With every buffer referenced, a block that is not cached cannot be had.\<close>

lemma bget_full:
  assumes "bio_ok d s" "\<forall>i. \<not> cached d s i b" "\<forall>i<NBUF. brefcnt (bufs s ! i) \<noteq> 0"
  shows "bget d b s = Panic ''bget: no buffers''"
proof -
  note q = bio_okD(1) [OF assms(1)] and T = wf_table [OF bio_okD(2) [OF assms(1)]]
  have "find (\<lambda>i. bdev (bufs s ! i) = d \<and> bblockno (bufs s ! i) = b) (blru s) = None"
    using assms(2) T by (auto simp: find_None_iff cached_def)
  moreover have "find (\<lambda>i. brefcnt (bufs s ! i) = 0) (rev (blru s)) = None"
    using assms(3) T by (auto simp: find_None_iff)
  ultimately show ?thesis using q by (simp add: bget_def)
qed

lemma disk_rw_read:
  assumes "quiet s" shows "disk_rw i False s = Ok () (set_bdata i (disk s (bblockno (bufs s ! i))) s)"
  using assms by (auto simp: disk_rw_def quiet_def)

lemma disk_rw_write:
  assumes "quiet s" shows "disk_rw i True s = Ok ()
    (s\<lparr>disk := (disk s)(bblockno (bufs s ! i) := bdata (bufs s ! i)),
       dtrace := dtrace s @ [(bblockno (bufs s ! i), bdata (bufs s ! i))]\<rparr>)"
  using assms by (auto simp: disk_rw_def quiet_def Let_def)

lemma bread_from_bget:
  assumes "bget d b s = Ok i (entry_to i x k s)" "quiet s" "i < length (bufs s)" "bblockno x = b"
  shows "bread d b s = Ok i (entry_to i (x\<lparr>bdata := if bvalid x then bdata x else disk s b, bvalid := True\<rparr>) k s)"
proof -
  have "entry_to i (x\<lparr>bdata := bdata x, bvalid := True\<rparr>) k s = entry_to i x k s" if "bvalid x"
    using that by (cases x) simp
  moreover have "upd_buf i (\<lambda>b. b\<lparr>bvalid := True\<rparr>) (set_bdata i (disk s b) (entry_to i x k s)) =
      entry_to i (x\<lparr>bdata := disk s b, bvalid := True\<rparr>) k s"
    using assms(3) by (simp add: upd_buf_def set_bdata_def entry_to_def)
  ultimately show ?thesis
    using assms by (simp add: bread_def disk_rw_read)
qed

section \<open>The operations on the views\<close>

text \<open>
  \<open>io_eff d s t b v n l ws\<close>: the step from \<open>s\<close> to \<open>t\<close> touched block \<open>b\<close> only, which now has
  content \<open>v\<close>, \<open>n\<close> references and lock state \<open>l\<close>, and made the disk perform the writes \<open>ws\<close>.
\<close>

definition apply_writes :: "(u32 \<times> u8 list) list \<Rightarrow> (u32 \<Rightarrow> u8 list) \<Rightarrow> u32 \<Rightarrow> u8 list" where
  "apply_writes ws dk = fold (\<lambda>(b, v) dk. dk(b := v)) ws dk"

definition io_eff :: "u32 \<Rightarrow> 'x kbio_scheme \<Rightarrow> 'x kbio_scheme \<Rightarrow> u32 \<Rightarrow> u8 list \<Rightarrow> nat \<Rightarrow> bool \<Rightarrow>
    (u32 \<times> u8 list) list \<Rightarrow> bool" where
  "io_eff d s t b v n l ws \<longleftrightarrow> bio_ok d t \<and> bframe s t \<and> blk d t = (blk d s)(b := v) \<and>
     pin d t = (pin d s)(b := n) \<and> busy d t = (busy d s)(b := l) \<and>
     disk t = apply_writes ws (disk s) \<and> dtrace t = dtrace s @ ws \<and>
     (\<forall>j c. c \<noteq> b \<longrightarrow> handle d s j c \<longrightarrow> handle d t j c)"

lemma io_effD:
  assumes "io_eff d s t b v n l ws"
  shows "bio_ok d t" "bframe s t" "blk d t = (blk d s)(b := v)" "pin d t = (pin d s)(b := n)"
    "busy d t = (busy d s)(b := l)" "disk t = apply_writes ws (disk s)" "dtrace t = dtrace s @ ws"
    "c \<noteq> b \<Longrightarrow> handle d s j c \<Longrightarrow> handle d t j c"
  using assms unfolding io_eff_def by blast+

lemma apply_writes_simps [simp]: "apply_writes [] dk = dk"
  "apply_writes ((b, v) # ws) dk = apply_writes ws (dk(b := v))"
  "apply_writes (ws @ ws') dk = apply_writes ws' (apply_writes ws dk)"
  by (simp_all add: apply_writes_def)

text \<open>The step to the state \<open>entry_to\<close> of an entry that keeps its block.\<close>

lemma entry_same_eff:
  assumes ok: "bio_ok d s" and c: "cached d s i b" and id: "bdev x = d" "bblockno x = b"
    and len: "length (bdata x) = BSIZE"
    and z: "brefcnt x = 0 \<Longrightarrow> \<not> sl_locked k \<and> (bvalid x \<longrightarrow> bdata x = disk s b)"
  shows "io_eff d s (entry_to i x k s) b (if bvalid x then bdata x else disk s b) (unat (brefcnt x)) (sl_locked k) []"
proof -
  let ?t = "entry_to i x k s"
  note wf = bio_okD(2) [OF ok] and T = wf_table [OF bio_okD(2) [OF ok]]
  have i: "i < NBUF" using c T by (simp add: cached_def)
  have nc: "\<forall>j. j \<noteq> i \<longrightarrow> \<not> cached d s j b" using bio_wf_unique [OF wf c] by blast
  have wf': "bio_wf d ?t" by (rule wf_update [OF wf i _ id len nc]) (use T z in auto)
  note v = views_update_same [OF wf wf' c _ id, simplified]
  have "handle d ?t j e" if "handle d s j e" "e \<noteq> b" for j e
  proof -
    have "j \<noteq> i" using that c by (auto simp: handle_def cached_def)
    then show ?thesis by (intro handle_other [OF that(1)]) auto
  qed
  then show ?thesis using wf' ok v by (auto simp: io_eff_def bio_ok_def)
qed

lemma bread_spec:
  assumes ok: "bio_ok d s" and nb: "\<not> busy d s b" and av: "0 < pin d s b \<or> card {c. 0 < pin d s c} < NBUF"
    and small: "pin d s b < 2 ^ 31"
  shows "\<exists>i t. bread d b s = Ok i t \<and> io_eff d s t b (blk d s b) (pin d s b + 1) True [] \<and> handle d t i b"
proof (cases "\<exists>i. cached d s i b")
  case True
  then obtain i where c: "cached d s i b" ..
  note q = bio_okD(1) [OF ok] and wf = bio_okD(2) [OF ok]
  note V = view_cached [OF wf c]
  from bget_hit [OF ok c nb] obtain k where k: "sl_locked k" "sl_pid k = mypid s"
    and g: "bget d b s = Ok i (entry_to i ((bufs s ! i)\<lparr>brefcnt := brefcnt (bufs s ! i) + 1\<rparr>) k s)" by blast
  let ?x = "(bufs s ! i)\<lparr>brefcnt := brefcnt (bufs s ! i) + 1,
     bdata := if bvalid (bufs s ! i) then bdata (bufs s ! i) else disk s b, bvalid := True\<rparr>"
  have r: "bread d b s = Ok i (entry_to i ?x k s)"
    using bread_from_bget [OF g q] c by (simp add: cached_def)
  have i: "i < NBUF" "bdev (bufs s ! i) = d" "bblockno (bufs s ! i) = b"
    using c wf_table(1) [OF wf] by (simp_all add: cached_def)
  have n: "unat (brefcnt (bufs s ! i) + 1) = pin d s b + 1"
    using small V(2) by (simp add: unat_word_ariths)
  then have nz: "brefcnt (bufs s ! i) + 1 \<noteq> 0" by auto
  have "io_eff d s (entry_to i ?x k s) b (blk d s b) (pin d s b + 1) True []"
    using entry_same_eff [OF ok c, of ?x k] i wf_entry(1) [OF wf i(1)] wf_table(4) [OF wf] nz k V n by simp
  moreover have "handle d (entry_to i ?x k s) i b"
    using i k nz wf_table(1) [OF wf] by (simp add: handle_def cached_def holds_def)
  ultimately show ?thesis using r by blast
next
  case False
  note q = bio_okD(1) [OF ok] and wf = bio_okD(2) [OF ok]
  note T = wf_table [OF wf]
  have nc: "\<forall>i. \<not> cached d s i b" using False by blast
  note V = view_uncached [OF nc]
  have "\<exists>i<NBUF. brefcnt (bufs s ! i) = 0" using free_buffer [OF wf] av V by simp
  from bget_miss [OF ok nc this] obtain i k where i: "i < NBUF" "brefcnt (bufs s ! i) = 0"
    and k: "sl_locked k" "sl_pid k = mypid s" and g: "bget d b s = Ok i (entry_to i
      ((bufs s ! i)\<lparr>bdev := d, bblockno := b, bvalid := False, brefcnt := 1\<rparr>) k s)" by blast
  let ?x = "(bufs s ! i)\<lparr>bdev := d, bblockno := b, brefcnt := 1, bdata := disk s b, bvalid := True\<rparr>"
  let ?t = "entry_to i ?x k s"
  have r: "bread d b s = Ok i ?t"
    using bread_from_bget [OF g q] i T by simp
  have wf': "bio_wf d ?t"
    by (rule wf_update [OF wf i(1), of _ ?x b]) (use T nc in auto)
  note v = views_update_new [OF wf wf' i nc, where x = ?x, simplified]
  have "handle d ?t j e" if "handle d s j e" for j e
  proof -
    have "j \<noteq> i" using that i by (auto simp: handle_def)
    then show ?thesis by (intro handle_other [OF that(1)]) auto
  qed
  then have "io_eff d s ?t b (blk d s b) (pin d s b + 1) True []"
    using wf' ok v V k by (simp add: io_eff_def bio_ok_def)
  moreover have "handle d ?t i b"
    using i k T by (simp add: handle_def cached_def holds_def)
  ultimately show ?thesis using r by blast
qed

lemma set_bdata_spec:
  assumes ok: "bio_ok d s" and h: "handle d s i b" and len: "length bs = BSIZE"
  shows "io_eff d s (set_bdata i bs s) b bs (pin d s b) True [] \<and> handle d (set_bdata i bs s) i b"
proof -
  note wf = bio_okD(2) [OF ok]
  have c: "cached d s i b" "bvalid (bufs s ! i)" "brefcnt (bufs s ! i) \<noteq> 0" "sl_locked (slocks s (SlBuf i))"
    using h by (simp_all add: handle_def holds_def)
  have i: "i < length (bufs s)" "bdev (bufs s ! i) = d" "bblockno (bufs s ! i) = b"
    using c(1) by (simp_all add: cached_def)
  have e: "set_bdata i bs s = entry_to i ((bufs s ! i)\<lparr>bdata := bs\<rparr>) (slocks s (SlBuf i)) s"
    by (simp add: set_bdata_def upd_buf_def entry_to_def)
  have "io_eff d s (set_bdata i bs s) b bs (pin d s b) True []"
    using entry_same_eff [OF ok c(1), of "(bufs s ! i)\<lparr>bdata := bs\<rparr>" "slocks s (SlBuf i)"] c i len e
      view_cached(2) [OF wf c(1)] by simp
  then show ?thesis using h i by (simp add: e handle_def cached_def holds_def)
qed

lemma bwrite_spec:
  assumes ok: "bio_ok d s" and h: "handle d s i b"
  shows "\<exists>t. bwrite i s = Ok () t \<and> io_eff d s t b (blk d s b) (pin d s b) True [(b, blk d s b)] \<and> handle d t i b"
proof -
  note q = bio_okD(1) [OF ok] and wf = bio_okD(2) [OF ok]
  note H = handle_view [OF wf h]
  have l: "sl_locked (slocks s (SlBuf i)) \<and> sl_pid (slocks s (SlBuf i)) = mypid s"
    and nz: "brefcnt (bufs s ! i) \<noteq> 0" and vl: "bvalid (bufs s ! i)" and c: "cached d s i b"
    using h by (simp_all add: handle_def holds_def)
  define t where "t = s\<lparr>disk := (disk s)(b := bdata (bufs s ! i)), dtrace := dtrace s @ [(b, bdata (bufs s ! i))]\<rparr>"
  have tf: "bufs t = bufs s" "slocks t = slocks s" "disk t = (disk s)(b := bdata (bufs s ! i))"
    "dtrace t = dtrace s @ [(b, bdata (bufs s ! i))]" "blru t = blru s" "mypid t = mypid s" "quiet t"
    "bframe s t"
    using q by (auto simp: t_def bframe_def quiet_def intro!: mypid_cong)
  have nc: "\<forall>j. j \<noteq> i \<longrightarrow> \<not> cached d s j b" using bio_wf_unique [OF wf c] by blast
  have len: "length (bdata (bufs s ! i)) = BSIZE" using wf_entry(1) [OF wf H(4)] .
  have wf': "bio_wf d t"
    by (rule wf_update [OF wf H(4), of _ "bufs s ! i" b])
      (use tf c nc nz len wf_table [OF wf] in \<open>simp_all add: cached_def\<close>)
  have "bufs t = (bufs s)[i := bufs s ! i]" using tf by simp
  note v = views_update_same [OF wf wf' c this]
  have "handle d t j e" if "handle d s j e" for j e
    using that tf by (simp add: handle_def cached_def holds_def)
  moreover have "bwrite i s = Ok () t"
    using holdingsleep_eq [OF q] l H(5) disk_rw_write [OF q, of i] by (simp add: bwrite_def t_def)
  moreover have "io_eff d s t b (blk d s b) (pin d s b) True [(b, blk d s b)]"
    using v tf wf' c vl H l view_cached [OF wf c] calculation(1)
    by (simp add: io_eff_def bio_ok_def cached_def)
  ultimately show ?thesis using h by blast
qed

lemma refcnt_dec: "w \<noteq> 0 \<Longrightarrow> unat (w - 1 :: u32) = unat w - 1"
  by (metis unat_minus_one)

text \<open>
  \<^verbatim>\<open>brelse\<close> also wakes whoever waits for the buffer. The caller must not let go of the last
  reference to a buffer that differs from the disk.
\<close>

lemma brelse_spec:
  assumes ok: "bio_ok d s" and h: "handle d s i b" and cl: "1 < pin d s b \<or> blk d s b = disk s b"
  shows "\<exists>t. brelse i s = Ok () t \<and> io_eff d s t b (blk d s b) (pin d s b - 1) False []"
proof -
  note q = bio_okD(1) [OF ok] and wf = bio_okD(2) [OF ok]
  note H = handle_view [OF wf h] and T = wf_table [OF wf]
  have l: "sl_locked (slocks s (SlBuf i)) \<and> sl_pid (slocks s (SlBuf i)) = mypid s"
    and nz: "brefcnt (bufs s ! i) \<noteq> 0" and vl: "bvalid (bufs s ! i)" and c: "cached d s i b"
    using h by (simp_all add: handle_def holds_def)
  let ?x = "(bufs s ! i)\<lparr>brefcnt := brefcnt (bufs s ! i) - 1\<rparr>"
  let ?k = "(slocks s (SlBuf i))\<lparr>sl_locked := False, sl_pid := 0\<rparr>"
  let ?L = "if brefcnt ?x = 0 then i # remove1 i (blru s) else blru s"
  define u where "u = wake (ChBufLock i) (upd_slock (SlBuf i) (\<lambda>k. k\<lparr>sl_locked := False, sl_pid := 0\<rparr>) s)"
  define t where "t = u\<lparr>bufs := (bufs s)[i := ?x], blru := ?L\<rparr>"
  have uf: "held u = []" "bufs u = bufs s" "blru u = blru s"
    using q by (simp_all add: u_def wake_def upd_slock_def quiet_def)
  have "u\<lparr>held := []\<rparr> = u" using uf(1) by (cases u) simp
  then have r: "brelse i s = Ok () t"
    using holdingsleep_eq [OF q, of "SlBuf i"] releasesleep_eq [OF q, of "SlBuf i"] l uf H(4) T(1)
    by (cases u) (auto simp: brelse_def u_def [symmetric] t_def upd_buf_def)
  have ql: "length (ptable s) = NPROC" using q by (simp add: quiet_def)
  have tf: "bufs t = (bufs s)[i := ?x]" "slocks t = (slocks s)(SlBuf i := ?k)" "disk t = disk s"
    "dtrace t = dtrace s" "blru t = ?L" "curproc t = curproc s" "held t = held s"
    "ptable t = map (\<lambda>j. woken (ChBufLock i) (curproc s) j (ptable s ! j)) [0..<NPROC]"
    by (simp_all add: t_def u_def wake_def upd_slock_def)
  have qt: "quiet t" using q tf by (simp add: quiet_def)
  have mp: "mypid t = mypid s" using q tf by (auto simp: mypid_def quiet_def)
  have "bframe s t" unfolding bframe_def mp
    using tf ql by (simp add: t_def u_def wake_def upd_slock_def woken_def)
  have nc: "\<forall>j. j \<noteq> i \<longrightarrow> \<not> cached d s j b" using bio_wf_unique [OF wf c] by blast
  have n: "unat (brefcnt ?x) = pin d s b - 1" using refcnt_dec [OF nz] view_cached(2) [OF wf c] by simp
  have wf': "bio_wf d t"
  proof (rule wf_update [OF wf H(4) tf(1) _ _ _ nc])
    show "bdev ?x = d" "bblockno ?x = b" "length (bdata ?x) = BSIZE"
      using c wf_entry(1) [OF wf H(4)] by (simp_all add: cached_def)
    show "distinct (blru t)" "set (blru t) = {..<NBUF}"
      using tf(5) T(2,3) H(4) by (auto simp: set_remove1_eq)
    show "\<forall>j. j \<noteq> i \<longrightarrow> slocks t (SlBuf j) = slocks s (SlBuf j)" "\<forall>c. c \<noteq> b \<longrightarrow> disk t c = disk s c"
      "length (disk t b) = BSIZE" using tf T(4) by simp_all
    show "\<not> sl_locked (slocks t (SlBuf i)) \<and> (bvalid ?x \<longrightarrow> bdata ?x = disk t b)" if "brefcnt ?x = 0"
      using cl n that tf H(1) view_cached(1) [OF wf c] by auto
  qed
  have id: "bdev ?x = d" "bblockno ?x = b" using c by (simp_all add: cached_def)
  note v = views_update_same [OF wf wf' c tf(1) id]
  have hd: "handle d t j e" if "handle d s j e" "e \<noteq> b" for j e
  proof -
    have "j \<noteq> i" using that c by (auto simp: handle_def cached_def)
    then show ?thesis by (intro handle_other [OF that(1) _ tf(1) mp]) (simp_all add: tf)
  qed
  have "io_eff d s t b (blk d s b) (pin d s b - 1) False []"
    using v tf wf' qt \<open>bframe s t\<close> hd vl H(1) n by (simp add: io_eff_def bio_ok_def)
  then show ?thesis using r by blast
qed

lemma bpin_spec:
  assumes ok: "bio_ok d s" and h: "handle d s i b" and small: "pin d s b < 2 ^ 31"
  shows "\<exists>t. bpin i s = Ok () t \<and> io_eff d s t b (blk d s b) (pin d s b + 1) True [] \<and> handle d t i b"
proof -
  note q = bio_okD(1) [OF ok] and wf = bio_okD(2) [OF ok]
  have c: "cached d s i b" "bvalid (bufs s ! i)" "sl_locked (slocks s (SlBuf i))"
    using h by (simp_all add: handle_def holds_def)
  have i: "i < length (bufs s)" "bdev (bufs s ! i) = d" "bblockno (bufs s ! i) = b"
    using c(1) by (simp_all add: cached_def)
  let ?x = "(bufs s ! i)\<lparr>brefcnt := brefcnt (bufs s ! i) + 1\<rparr>"
  let ?t = "entry_to i ?x (slocks s (SlBuf i)) s"
  have n: "unat (brefcnt (bufs s ! i) + 1) = pin d s b + 1"
    using small view_cached(2) [OF wf c(1)] by (simp add: unat_word_ariths)
  then have nz: "brefcnt (bufs s ! i) + 1 \<noteq> 0" by auto
  have "held s = []" using q by (simp add: quiet_def)
  then have r: "bpin i s = Ok () ?t"
    by (cases s) (simp add: bpin_def upd_buf_def entry_to_def)
  moreover have "io_eff d s ?t b (blk d s b) (pin d s b + 1) True []"
    using entry_same_eff [OF ok c(1), of ?x "slocks s (SlBuf i)"] c i n nz handle_view(1) [OF wf h]
      wf_entry(1) [OF wf handle_view(4) [OF wf h]] by simp
  moreover have "handle d ?t i b" using h i nz by (simp add: handle_def cached_def holds_def)
  ultimately show ?thesis by blast
qed

lemma bunpin_spec:
  assumes ok: "bio_ok d s" and h: "handle d s i b" and n1: "1 < pin d s b"
  shows "\<exists>t. bunpin i s = Ok () t \<and> io_eff d s t b (blk d s b) (pin d s b - 1) True [] \<and> handle d t i b"
proof -
  note q = bio_okD(1) [OF ok] and wf = bio_okD(2) [OF ok]
  have c: "cached d s i b" "bvalid (bufs s ! i)" "sl_locked (slocks s (SlBuf i))" "brefcnt (bufs s ! i) \<noteq> 0"
    using h by (simp_all add: handle_def holds_def)
  have i: "i < length (bufs s)" "bdev (bufs s ! i) = d" "bblockno (bufs s ! i) = b"
    using c(1) by (simp_all add: cached_def)
  let ?x = "(bufs s ! i)\<lparr>brefcnt := brefcnt (bufs s ! i) - 1\<rparr>"
  let ?t = "entry_to i ?x (slocks s (SlBuf i)) s"
  have n: "unat (brefcnt (bufs s ! i) - 1) = pin d s b - 1"
    using refcnt_dec [OF c(4)] view_cached(2) [OF wf c(1)] by simp
  then have nz: "brefcnt (bufs s ! i) - 1 \<noteq> 0" using n1 by auto
  have "held s = []" using q by (simp add: quiet_def)
  then have r: "bunpin i s = Ok () ?t"
    by (cases s) (simp add: bunpin_def upd_buf_def entry_to_def)
  moreover have "io_eff d s ?t b (blk d s b) (pin d s b - 1) True []"
    using entry_same_eff [OF ok c(1), of ?x "slocks s (SlBuf i)"] c i n nz handle_view(1) [OF wf h]
      wf_entry(1) [OF wf handle_view(4) [OF wf h]] by simp
  moreover have "handle d ?t i b" using h i nz by (simp add: handle_def cached_def holds_def)
  ultimately show ?thesis by blast
qed

end
