(* ===== verification/Log.thy ===== *)
theory Log
  imports Bio
begin

text \<open>
  \<^verbatim>\<open>kernel/log.c\<close>: the write-ahead log. First the operations; then the sequential behaviour of
  a commit and of recovery on the block map of theory Bio; last the crash theorem: whatever
  prefix of its disk writes a commit performed, recovery leaves every block outside the log
  either as before or as after the whole transaction.
\<close>

section \<open>State\<close>

record superblock =
  sb_magic :: u32
  sb_size :: u32
  sb_nblocks :: u32
  sb_ninodes :: u32
  sb_nlog :: u32
  sb_logstart :: u32
  sb_inodestart :: u32
  sb_bmapstart :: u32

text \<open>\<^verbatim>\<open>struct log\<close> with its in-memory header \<^verbatim>\<open>lh\<close>; block numbers are kept as the 32 bits they are.\<close>

record klog = kbio +
  log_start :: u32
  log_outstanding :: int
  log_committing :: bool
  log_dev :: u32
  lhn :: int
  lhblock :: "u32 list"

section \<open>The operations of log.c\<close>

definition install_one :: "bool \<Rightarrow> nat \<Rightarrow> 'x klog_scheme \<Rightarrow> (unit, 'x klog_scheme) res" where
  "install_one recovering tail s =
     bnd (if recovering
          then printf (''recovering tail %d dst %d'' @ [CHR 0x0A]) [Num (of_nat tail), Num (ucast (lhblock s ! tail))] s
          else Ok () s) (\<lambda>_ s.
     bnd (bread (log_dev s) (log_start s + of_nat tail + 1) s) (\<lambda>lbuf s.
     bnd (bread (log_dev s) (lhblock s ! tail) s) (\<lambda>dbuf s.
     let s = set_bdata dbuf (bdata (bufs s ! lbuf)) s in
     bnd (bwrite dbuf s) (\<lambda>_ s.
     bnd (if \<not> recovering then bunpin dbuf s else Ok () s) (\<lambda>_ s.
     bnd (brelse lbuf s) (\<lambda>_ s. brelse dbuf s))))))"

definition install_trans :: "bool \<Rightarrow> 'x klog_scheme \<Rightarrow> (unit, 'x klog_scheme) res" where
  "install_trans recovering s = foreach (install_one recovering) [0..<nat (lhn s)] s"

text \<open>The on-disk header: the count, then the block numbers, four bytes each.\<close>

definition hdr_put :: "nat \<Rightarrow> u32 list \<Rightarrow> u8 list \<Rightarrow> u8 list" where
  "hdr_put n bl d = fold (\<lambda>i d. put32 d (4 + 4 * i) (bl ! i)) [0..<n] d"

definition read_head :: "'x klog_scheme \<Rightarrow> (unit, 'x klog_scheme) res" where
  "read_head s =
     bnd (bread (log_dev s) (log_start s) s) (\<lambda>b s.
     let d = bdata (bufs s ! b); s = s\<lparr>lhn := sint (get32 d 0)\<rparr>
     in if nat (lhn s) > length (lhblock s) then oob
        else brelse b (s\<lparr>lhblock := fold (\<lambda>i bl. bl[i := get32 d (4 + 4 * i)]) [0..<nat (lhn s)] (lhblock s)\<rparr>))"

definition write_head :: "'x klog_scheme \<Rightarrow> (unit, 'x klog_scheme) res" where
  "write_head s =
     bnd (bread (log_dev s) (log_start s) s) (\<lambda>b s.
     let s = set_bdata b (put32 (bdata (bufs s ! b)) 0 (word_of_int (lhn s))) s
     in if nat (lhn s) > length (lhblock s) then oob
        else let s = set_bdata b (hdr_put (nat (lhn s)) (lhblock s) (bdata (bufs s ! b))) s
             in bnd (bwrite b s) (\<lambda>_ s. brelse b s))"

definition recover_from_log :: "'x klog_scheme \<Rightarrow> (unit, 'x klog_scheme) res" where
  "recover_from_log s =
     bnd (read_head s) (\<lambda>_ s.
     bnd (install_trans True s) (\<lambda>_ s.
     write_head (s\<lparr>lhn := 0\<rparr>)))"

definition initlog :: "u32 \<Rightarrow> superblock \<Rightarrow> 'x klog_scheme \<Rightarrow> (unit, 'x klog_scheme) res" where
  "initlog dev sb s =
     (if 4 + 4 * LOGBLOCKS \<ge> BSIZE then Panic ''initlog: too big logheader''
      else recover_from_log (s\<lparr>log_start := sb_logstart sb, log_dev := dev\<rparr>))"

text \<open>The loop of \<^verbatim>\<open>begin_op\<close>, with the lock held; a caller that sleeps resumes at its top.\<close>

definition begin_op_loop :: "'x klog_scheme \<Rightarrow> (unit, 'x klog_scheme) res" where
  "begin_op_loop s =
     (if log_committing s then sleep ChLog LogLock s
      else if lhn s + (log_outstanding s + 1) * int MAXOPBLOCKS > int LOGBLOCKS then sleep ChLog LogLock s
      else release LogLock (s\<lparr>log_outstanding := log_outstanding s + 1\<rparr>))"

definition begin_op :: "'x klog_scheme \<Rightarrow> (unit, 'x klog_scheme) res" where
  "begin_op s = bnd (acquire LogLock s) (\<lambda>_ s. begin_op_loop s)"

definition begin_op_resume :: "'x klog_scheme \<Rightarrow> (unit, 'x klog_scheme) res" where
  "begin_op_resume s = bnd (sleep_resume LogLock s) (\<lambda>_ s. begin_op_loop s)"

definition write_log_one :: "nat \<Rightarrow> 'x klog_scheme \<Rightarrow> (unit, 'x klog_scheme) res" where
  "write_log_one tail s =
     bnd (bread (log_dev s) (log_start s + of_nat tail + 1) s) (\<lambda>to s.
     bnd (bread (log_dev s) (lhblock s ! tail) s) (\<lambda>from s.
     let s = set_bdata to (bdata (bufs s ! from)) s in
     bnd (bwrite to s) (\<lambda>_ s.
     bnd (brelse from s) (\<lambda>_ s. brelse to s))))"

definition write_log :: "'x klog_scheme \<Rightarrow> (unit, 'x klog_scheme) res" where
  "write_log s = foreach write_log_one [0..<nat (lhn s)] s"

definition commit :: "'x klog_scheme \<Rightarrow> (unit, 'x klog_scheme) res" where
  "commit s =
     (if lhn s > 0
      then bnd (write_log s) (\<lambda>_ s.
           bnd (write_head s) (\<lambda>_ s.
           bnd (install_trans False s) (\<lambda>_ s.
           write_head (s\<lparr>lhn := 0\<rparr>))))
      else Ok () s)"

definition end_op :: "'x klog_scheme \<Rightarrow> (unit, 'x klog_scheme) res" where
  "end_op s =
     bnd (acquire LogLock s) (\<lambda>_ s.
     let s = s\<lparr>log_outstanding := log_outstanding s - 1\<rparr> in
     if log_committing s then Panic ''log.committing''
     else let do_commit = (log_outstanding s = 0) in
       bnd (if do_commit then Ok () (s\<lparr>log_committing := True\<rparr>) else wakeup ChLog s) (\<lambda>_ s.
       bnd (release LogLock s) (\<lambda>_ s.
       if do_commit
       then bnd (commit s) (\<lambda>_ s.
            bnd (acquire LogLock s) (\<lambda>_ s.
            bnd (wakeup ChLog (s\<lparr>log_committing := False\<rparr>)) (\<lambda>_ s.
            release LogLock s)))
       else Ok () s)))"

definition log_write :: "nat \<Rightarrow> 'x klog_scheme \<Rightarrow> (unit, 'x klog_scheme) res" where
  "log_write b s =
     bnd (acquire LogLock s) (\<lambda>_ s.
     if lhn s \<ge> int LOGBLOCKS then Panic ''too big a transaction''
     else if log_outstanding s < 1 then Panic ''log_write outside of trans''
     else let bno = bblockno (bufs s ! b); n = nat (lhn s);
              i = (case find_idx (\<lambda>w. w = bno) (take n (lhblock s)) of Some i \<Rightarrow> i | None \<Rightarrow> n);
              s = s\<lparr>lhblock := (lhblock s)[i := bno]\<rparr>
          in bnd (if i = n then bnd (bpin b s) (\<lambda>_ s. Ok () (s\<lparr>lhn := lhn s + 1\<rparr>)) else Ok () s) (\<lambda>_ s.
             release LogLock s))"

section \<open>Headers\<close>

lemma hdr_put_props:
  assumes "4 + 4 * n \<le> length d"
  shows "length (hdr_put n bl d) = length d \<and> get32 (hdr_put n bl d) 0 = get32 d 0 \<and>
    (\<forall>i<n. get32 (hdr_put n bl d) (4 + 4 * i) = bl ! i)"
  using assms
proof (induction n)
  case 0
  then show ?case by (simp add: hdr_put_def)
next
  case (Suc n)
  let ?e = "hdr_put n bl d"
  have IH: "length ?e = length d" "get32 ?e 0 = get32 d 0" "\<And>i. i < n \<Longrightarrow> get32 ?e (4 + 4 * i) = bl ! i"
    using Suc by auto
  have e: "hdr_put (Suc n) bl d = put32 ?e (4 + 4 * n) (bl ! n)" by (simp add: hdr_put_def)
  have "get32 (put32 ?e (4 + 4 * n) (bl ! n)) (4 + 4 * i) = bl ! i" if "i < Suc n" for i
  proof (cases "i = n")
    case True
    then show ?thesis using Suc.prems IH(1) by simp
  next
    case False
    then show ?thesis using that Suc.prems IH(1,3) by simp
  qed
  then show ?case unfolding e using IH(1,2) Suc.prems by simp
qed

lemma fold_update_prefix:
  "n \<le> length bl \<Longrightarrow> fold (\<lambda>i bl. bl[i := f i]) [0..<n] bl = map f [0..<n] @ drop n bl"
proof (induction n)
  case 0
  then show ?case by simp
next
  case (Suc n)
  then have "drop n bl = bl ! n # drop (Suc n) bl" by (simp add: Cons_nth_drop_Suc)
  then show ?case using Suc by (simp add: list_update_append)
qed

section \<open>Steps on the block map\<close>

lemma bframe_log:
  assumes "bframe s t"
  shows "log_start t = log_start s" "log_dev t = log_dev s" "lhn t = lhn s" "lhblock t = lhblock s"
    "log_outstanding t = log_outstanding s" "log_committing t = log_committing s"
  using assms by (cases s, cases t, simp add: bframe_def)+

lemma io_eff_log:
  assumes "io_eff d s t b v n l ws"
  shows "log_start t = log_start s" "log_dev t = log_dev s" "lhn t = lhn s" "lhblock t = lhblock s"
    "log_outstanding t = log_outstanding s" "log_committing t = log_committing s"
  using bframe_log [OF io_effD(2) [OF assms]] by simp_all

text \<open>
  \<open>put_step d s t b v p\<close>: block \<open>b\<close> now has content \<open>v\<close> both in the cache and on the disk, by
  one disk write, and is referenced \<open>p\<close> times; nothing else changed and no buffer is locked.
\<close>

definition put_step :: "u32 \<Rightarrow> 'x kbio_scheme \<Rightarrow> 'x kbio_scheme \<Rightarrow> u32 \<Rightarrow> u8 list \<Rightarrow> nat \<Rightarrow> bool" where
  "put_step d s t b v p \<longleftrightarrow> bio_ok d t \<and> bframe s t \<and> blk d t = (blk d s)(b := v) \<and>
     pin d t = (pin d s)(b := p) \<and> busy d t = busy d s \<and> disk t = (disk s)(b := v) \<and>
     dtrace t = dtrace s @ [(b, v)]"

lemma put_stepD:
  assumes "put_step d s t b v p"
  shows "bio_ok d t" "bframe s t" "blk d t = (blk d s)(b := v)" "pin d t = (pin d s)(b := p)"
    "busy d t = busy d s" "disk t = (disk s)(b := v)" "dtrace t = dtrace s @ [(b, v)]"
  using assms unfolding put_step_def by blast+

lemma blk_length: "bio_wf d s \<Longrightarrow> length (blk d s b) = BSIZE"
  by (auto simp: blk_def dest!: buf_of_SomeD split: option.split)
    (auto simp: bio_wf_def cached_def)

lemma busy_same: "\<not> busy d s b \<Longrightarrow> (busy d s)(b := False) = busy d s"
  by (simp add: fun_eq_iff)

lemma write_log_one_spec:
  fixes s :: "'x klog_scheme"
  assumes ok: "bio_ok d s" and nb: "\<And>b. \<not> busy d s b" and dev: "log_dev s = d"
    and lb: "l = log_start s + of_nat k + 1" and hb: "h = lhblock s ! k" and ne: "l \<noteq> h"
    and pl: "pin d s l = 0" and ph: "pin d s h = 1" and av: "card {c. 0 < pin d s c} < NBUF"
  shows "\<exists>t. write_log_one k s = Ok () t \<and> put_step d s t l (blk d s h) 0"
proof -
  obtain i1 t1 where 1: "bread d l s = Ok i1 t1" "handle d t1 i1 l"
    and e1: "io_eff d s t1 l (blk d s l) (pin d s l + 1) True []"
    using bread_spec [OF ok nb, of l] av pl by auto
  note D1 = io_effD [OF e1] and L1 = io_eff_log [OF e1]
  obtain i2 t2 where 2: "bread d h t1 = Ok i2 t2" "handle d t2 i2 h"
    and e2: "io_eff d t1 t2 h (blk d t1 h) (pin d t1 h + 1) True []"
    using bread_spec [OF D1(1), of h] D1(4,5) nb ph ne by auto
  note D2 = io_effD [OF e2] and L2 = io_eff_log [OF e2]
  have h1: "handle d t2 i1 l" using D2(8) 1(2) ne by auto
  let ?v = "blk d s h"
  have v2: "blk d t2 = blk d s" using D2(3) D1(3) by simp
  have v: "bdata (bufs t2 ! i2) = ?v" "blk d t2 = blk d s"
    using handle_view(1) [OF bio_okD(2) [OF D2(1)] 2(2)] v2 by simp_all
  define t3 where "t3 = set_bdata i1 ?v t2"
  have e3: "io_eff d t2 t3 l ?v (pin d t2 l) True []" and h3: "handle d t3 i1 l"
    using set_bdata_spec [OF D2(1) h1] blk_length [OF bio_okD(2) [OF ok]] by (simp_all add: t3_def)
  note D3 = io_effD [OF e3] and L3 = io_eff_log [OF e3]
  have h3': "handle d t3 i2 h" using D3(8) 2(2) ne by auto
  obtain t4 where 4: "bwrite i1 t3 = Ok () t4" "handle d t4 i1 l"
    and e4: "io_eff d t3 t4 l (blk d t3 l) (pin d t3 l) True [(l, blk d t3 l)]"
    using bwrite_spec [OF D3(1) h3] by blast
  note D4 = io_effD [OF e4] and L4 = io_eff_log [OF e4]
  have h4: "handle d t4 i2 h" using D4(8) h3' ne by auto
  have p4: "pin d t4 h = 2" "pin d t4 l = 1" using D1(4) D2(4) D3(4) D4(4) ne ph pl by simp_all
  obtain t5 where 5: "brelse i2 t4 = Ok () t5"
    and e5: "io_eff d t4 t5 h (blk d t4 h) (pin d t4 h - 1) False []"
    using brelse_spec [OF D4(1) h4] p4 by auto
  note D5 = io_effD [OF e5] and L5 = io_eff_log [OF e5]
  have h5: "handle d t5 i1 l" using D5(8) 4(2) ne by auto
  have b5: "blk d t5 l = disk t5 l" using D1(6) D2(6) D3(3,6) D4(3,6) D5(3,6) ne by simp
  obtain t6 where 6: "brelse i1 t5 = Ok () t6"
    and e6: "io_eff d t5 t6 l (blk d t5 l) (pin d t5 l - 1) False []"
    using brelse_spec [OF D5(1) h5] b5 by auto
  note D6 = io_effD [OF e6] and L6 = io_eff_log [OF e6]
  have "write_log_one k s = Ok () t6"
    using 1 2 4 5 6 v(1) dev L1(2) L1(4) by (simp add: write_log_one_def lb [symmetric] hb [symmetric] t3_def [symmetric])
  moreover have "put_step d s t6 l ?v 0"
    unfolding put_step_def
  proof (intro conjI)
    show "bframe s t6" by (intro bframe_trans [OF D1(2)] bframe_trans [OF D2(2)] bframe_trans [OF D3(2)]
        bframe_trans [OF D4(2)] bframe_trans [OF D5(2) D6(2)])
    show "blk d t6 = (blk d s)(l := ?v)"
      using v(2) D3(3) D4(3) D5(3) D6(3) ne by (auto simp: fun_eq_iff)
    show "pin d t6 = (pin d s)(l := 0)"
      using D1(4) D2(4) D3(4) D4(4) D5(4) D6(4) ne ph pl by (auto simp: fun_eq_iff)
    show "busy d t6 = busy d s"
      using D1(5) D2(5) D3(5) D4(5) D5(5) D6(5) ne nb by (auto simp: fun_eq_iff)
    show "disk t6 = (disk s)(l := ?v)"
      using v D1(6) D2(6) D3(3,6) D4(6) D5(6) D6(6) by simp
    show "dtrace t6 = dtrace s @ [(l, ?v)]"
      using v D1(7) D2(7) D3(3,7) D4(7) D5(7) D6(7) by simp
  qed (rule D6(1))
  ultimately show ?thesis by blast
qed

lemma install_one_spec:
  fixes s :: "'x klog_scheme"
  assumes ok: "bio_ok d s" and nb: "\<And>b. \<not> busy d s b" and dev: "log_dev s = d"
    and lb: "l = log_start s + of_nat k + 1" and hb: "h = lhblock s ! k" and ne: "l \<noteq> h"
    and pl: "pin d s l = 0" and ph: "pin d s h = 1" and av: "card {c. 0 < pin d s c} < NBUF"
  shows "\<exists>t. install_one False k s = Ok () t \<and> put_step d s t h (blk d s l) 0"
proof -
  obtain i1 t1 where 1: "bread d l s = Ok i1 t1" "handle d t1 i1 l"
    and e1: "io_eff d s t1 l (blk d s l) (pin d s l + 1) True []"
    using bread_spec [OF ok nb, of l] av pl by auto
  note D1 = io_effD [OF e1] and L1 = io_eff_log [OF e1]
  obtain i2 t2 where 2: "bread d h t1 = Ok i2 t2" "handle d t2 i2 h"
    and e2: "io_eff d t1 t2 h (blk d t1 h) (pin d t1 h + 1) True []"
    using bread_spec [OF D1(1), of h] D1(4,5) nb ph ne by auto
  note D2 = io_effD [OF e2] and L2 = io_eff_log [OF e2]
  have h1: "handle d t2 i1 l" using D2(8) 1(2) ne by auto
  let ?v = "blk d s l"
  have v2: "blk d t2 = blk d s" using D2(3) D1(3) by simp
  have v: "bdata (bufs t2 ! i1) = ?v" "blk d t2 = blk d s"
    using handle_view(1) [OF bio_okD(2) [OF D2(1)] h1] v2 by simp_all
  define t3 where "t3 = set_bdata i2 ?v t2"
  have e3: "io_eff d t2 t3 h ?v (pin d t2 h) True []" and h3: "handle d t3 i2 h"
    using set_bdata_spec [OF D2(1) 2(2)] blk_length [OF bio_okD(2) [OF ok]] by (simp_all add: t3_def)
  note D3 = io_effD [OF e3]
  have h3': "handle d t3 i1 l" using D3(8) h1 ne by auto
  obtain t4 where 4: "bwrite i2 t3 = Ok () t4" "handle d t4 i2 h"
    and e4: "io_eff d t3 t4 h (blk d t3 h) (pin d t3 h) True [(h, blk d t3 h)]"
    using bwrite_spec [OF D3(1) h3] by blast
  note D4 = io_effD [OF e4]
  have h4: "handle d t4 i1 l" using D4(8) h3' ne by auto
  have p4: "pin d t4 h = 2" "pin d t4 l = 1" using D1(4) D2(4) D3(4) D4(4) ne ph pl by simp_all
  obtain t5 where 5: "bunpin i2 t4 = Ok () t5" "handle d t5 i2 h"
    and e5: "io_eff d t4 t5 h (blk d t4 h) (pin d t4 h - 1) True []"
    using bunpin_spec [OF D4(1) 4(2)] p4 by auto
  note D5 = io_effD [OF e5]
  have h5: "handle d t5 i1 l" using D5(8) h4 ne by auto
  have b5: "blk d t5 l = disk t5 l"
    using pl D1(3,6) D2(3,6) D3(3,6) D4(3,6) D5(3,6) ne bio_clean [OF bio_okD(2) [OF ok] pl] by simp
  obtain t6 where 6: "brelse i1 t5 = Ok () t6"
    and e6: "io_eff d t5 t6 l (blk d t5 l) (pin d t5 l - 1) False []"
    using brelse_spec [OF D5(1) h5] b5 by auto
  note D6 = io_effD [OF e6]
  have h6: "handle d t6 i2 h" using D6(8) 5(2) ne by auto
  have b6: "blk d t6 h = disk t6 h" using D3(3) D4(3,6) D5(3,6) D6(3,6) D1(6) D2(6) D3(6) ne by simp
  obtain t7 where 7: "brelse i2 t6 = Ok () t7"
    and e7: "io_eff d t6 t7 h (blk d t6 h) (pin d t6 h - 1) False []"
    using brelse_spec [OF D6(1) h6] b6 by auto
  note D7 = io_effD [OF e7]
  have "install_one False k s = Ok () t7"
    using 1 2 4 5 6 7 v(1) dev io_eff_log(2,4) [OF e1]
    by (simp add: install_one_def lb [symmetric] hb [symmetric] t3_def [symmetric])
  moreover have "put_step d s t7 h ?v 0"
    unfolding put_step_def
  proof (intro conjI)
    show "bframe s t7" by (intro bframe_trans [OF D1(2)] bframe_trans [OF D2(2)] bframe_trans [OF D3(2)]
        bframe_trans [OF D4(2)] bframe_trans [OF D5(2)] bframe_trans [OF D6(2) D7(2)])
    show "blk d t7 = (blk d s)(h := ?v)"
      using v(2) D3(3) D4(3) D5(3) D6(3) D7(3) ne by (auto simp: fun_eq_iff)
    show "pin d t7 = (pin d s)(h := 0)"
      using D1(4) D2(4) D3(4) D4(4) D5(4) D6(4) D7(4) ne ph pl by (auto simp: fun_eq_iff)
    show "busy d t7 = busy d s"
      using D1(5) D2(5) D3(5) D4(5) D5(5) D6(5) D7(5) ne nb by (auto simp: fun_eq_iff)
    show "disk t7 = (disk s)(h := ?v)"
      using v D1(6) D2(6) D3(3,6) D4(6) D5(6) D6(6) D7(6) by simp
    show "dtrace t7 = dtrace s @ [(h, ?v)]"
      using v D1(7) D2(7) D3(3,7) D4(7) D5(7) D6(7) D7(7) by simp
  qed (rule D7(1))
  ultimately show ?thesis by blast
qed

lemma kprint_views:
  "bio_ok d (kprint m s) = bio_ok d s" "bframe s (kprint m s)" "blk d (kprint m s) = blk d s"
  "pin d (kprint m s) = pin d s" "busy d (kprint m s) = busy d s" "disk (kprint m s) = disk s"
  "dtrace (kprint m s) = dtrace s" "log_start (kprint m t) = log_start t"
  "log_dev (kprint m t) = log_dev t" "lhblock (kprint m t) = lhblock t"
  by (auto simp: kprint_def bio_ok_def quiet_def bio_wf_def cached_def bframe_def blk_def pin_def
      busy_def buf_of_def mypid_def fun_eq_iff split: option.split)

lemma printf_quiet:
  assumes "quiet s" "vformat kdigits fmt as = Some m" shows "printf fmt as s = Ok () (kprint m s)"
  using assms by (cases s) (auto simp: printf_def quiet_def kprint_def)

lemma recovering_msg:
  "\<exists>m. vformat kdigits (''recovering tail %d dst %d'' @ [CHR 0x0A]) [Num a, Num b] = Some m"
  by (simp add: vformat.simps(2) conversion_def chr_at_def)

text \<open>One block installed during recovery, when nothing is referenced.\<close>

lemma install_recovering_spec:
  fixes s :: "'x klog_scheme"
  assumes ok0: "bio_ok d s" and nb0: "\<And>b. \<not> busy d s b" and dev: "log_dev s = d"
    and lb: "l = log_start s + of_nat k + 1" and hb: "h = lhblock s ! k" and ne: "l \<noteq> h"
    and p0: "\<And>b. pin d s b = 0"
  shows "\<exists>t. install_one True k s = Ok () t \<and> put_step d s t h (blk d s l) 0"
proof -
  obtain m where m: "vformat kdigits (''recovering tail %d dst %d'' @ [CHR 0x0A])
      [Num (of_nat k), Num (ucast (lhblock s ! k))] = Some m" using recovering_msg by blast
  define r where "r = kprint m s"
  have K: "bio_ok d r = bio_ok d s" "bframe s r" "blk d r = blk d s" "pin d r = pin d s"
    "busy d r = busy d s" "disk r = disk s" "dtrace r = dtrace s"
    by (simp_all add: r_def kprint_views)
  note pr = printf_quiet [OF bio_okD(1) [OF ok0] m, folded r_def]
  have ok: "bio_ok d r" and nb: "\<And>b. \<not> busy d r b" and pz: "\<And>b. pin d r b = 0"
    using K ok0 nb0 p0 by simp_all
  obtain i1 t1 where 1: "bread d l r = Ok i1 t1" "handle d t1 i1 l"
    and e1: "io_eff d r t1 l (blk d r l) (pin d r l + 1) True []"
    using bread_spec [OF ok nb, of l] pz by (auto simp: NBUF_def MAXOPBLOCKS_def)
  note D1 = io_effD [OF e1]
  have "{c. 0 < pin d t1 c} = {l}" using D1(4) pz by (auto split: if_splits)
  then have "card {c. 0 < pin d t1 c} < NBUF" by (simp add: NBUF_def MAXOPBLOCKS_def)
  then obtain i2 t2 where 2: "bread d h t1 = Ok i2 t2" "handle d t2 i2 h"
    and e2: "io_eff d t1 t2 h (blk d t1 h) (pin d t1 h + 1) True []"
    using bread_spec [OF D1(1), of h] D1(4,5) nb pz ne by auto
  note D2 = io_effD [OF e2]
  have h1: "handle d t2 i1 l" using D2(8) 1(2) ne by auto
  let ?v = "blk d r l"
  have v2: "blk d t2 = blk d r" using D2(3) D1(3) by simp
  have v: "bdata (bufs t2 ! i1) = ?v"
    using handle_view(1) [OF bio_okD(2) [OF D2(1)] h1] v2 by simp
  define t3 where "t3 = set_bdata i2 ?v t2"
  have e3: "io_eff d t2 t3 h ?v (pin d t2 h) True []" and h3: "handle d t3 i2 h"
    using set_bdata_spec [OF D2(1) 2(2)] blk_length [OF bio_okD(2) [OF ok]] by (simp_all add: t3_def)
  note D3 = io_effD [OF e3]
  have h3': "handle d t3 i1 l" using D3(8) h1 ne by auto
  obtain t4 where 4: "bwrite i2 t3 = Ok () t4" "handle d t4 i2 h"
    and e4: "io_eff d t3 t4 h (blk d t3 h) (pin d t3 h) True [(h, blk d t3 h)]"
    using bwrite_spec [OF D3(1) h3] by blast
  note D4 = io_effD [OF e4]
  have h4: "handle d t4 i1 l" using D4(8) h3' ne by auto
  have c4: "blk d t4 l = disk t4 l"
    using D1(3,6) D2(3,6) D3(3,6) D4(3,6) ne bio_clean [OF bio_okD(2) [OF ok] pz] by simp
  obtain t6 where 6: "brelse i1 t4 = Ok () t6"
    and e6: "io_eff d t4 t6 l (blk d t4 l) (pin d t4 l - 1) False []"
    using brelse_spec [OF D4(1) h4] c4 by auto
  note D6 = io_effD [OF e6]
  have h6: "handle d t6 i2 h" using D6(8) 4(2) ne by auto
  have b6: "blk d t6 h = disk t6 h" using D3(3) D4(3,6) D6(3,6) D1(6) D2(6) D3(6) ne by simp
  obtain t7 where 7: "brelse i2 t6 = Ok () t7"
    and e7: "io_eff d t6 t7 h (blk d t6 h) (pin d t6 h - 1) False []"
    using brelse_spec [OF D6(1) h6] b6 by auto
  note D7 = io_effD [OF e7]
  have "log_dev r = d" "lhblock r = lhblock s" "log_start r = log_start s"
    using dev by (simp_all add: r_def kprint_views)
  then have "install_one True k s = Ok () t7"
    using pr 1 2 4 6 7 v io_eff_log(2,4) [OF e1]
    by (simp add: install_one_def lb [symmetric] hb [symmetric] t3_def [symmetric])
  moreover have "put_step d s t7 h (blk d s l) 0"
    unfolding put_step_def
  proof (intro conjI)
    show "bframe s t7" by (intro bframe_trans [OF K(2)] bframe_trans [OF D1(2)] bframe_trans [OF D2(2)]
        bframe_trans [OF D3(2)] bframe_trans [OF D4(2)] bframe_trans [OF D6(2) D7(2)])
    show "blk d t7 = (blk d s)(h := blk d s l)"
      using K v2 D3(3) D4(3) D6(3) D7(3) ne by (auto simp: fun_eq_iff)
    show "pin d t7 = (pin d s)(h := 0)"
      using K D1(4) D2(4) D3(4) D4(4) D6(4) D7(4) ne p0 by (auto simp: fun_eq_iff)
    show "busy d t7 = busy d s"
      using K D1(5) D2(5) D3(5) D4(5) D6(5) D7(5) ne nb by (auto simp: fun_eq_iff)
    show "disk t7 = (disk s)(h := blk d s l)"
      using K v D1(6) D2(6) D3(3,6) D4(6) D6(6) D7(6) by simp
    show "dtrace t7 = dtrace s @ [(h, blk d s l)]"
      using K v D1(7) D2(7) D3(3,7) D4(7) D6(7) D7(7) by simp
  qed (rule D7(1))
  ultimately show ?thesis by blast
qed

lemma write_head_spec:
  fixes s :: "'x klog_scheme"
  assumes ok: "bio_ok d s" and nb: "\<And>b. \<not> busy d s b" and dev: "log_dev s = d"
    and hb: "h = log_start s" and ph: "pin d s h = 0" and av: "card {c. 0 < pin d s c} < NBUF"
    and n: "nat (lhn s) \<le> LOGBLOCKS" "length (lhblock s) = LOGBLOCKS"
  shows "\<exists>t. write_head s = Ok () t \<and> put_step d s t h
    (hdr_put (nat (lhn s)) (lhblock s) (put32 (blk d s h) 0 (word_of_int (lhn s)))) 0"
proof -
  let ?w = "put32 (blk d s h) 0 (word_of_int (lhn s)) :: u8 list"
  let ?v = "hdr_put (nat (lhn s)) (lhblock s) ?w"
  have len: "length ?w = BSIZE" "length ?v = BSIZE"
    using blk_length [OF bio_okD(2) [OF ok], of h] hdr_put_props [of "nat (lhn s)" ?w "lhblock s"] n(1)
    by (simp_all add: BSIZE_def LOGBLOCKS_def MAXOPBLOCKS_def)
  obtain i1 t1 where 1: "bread d h s = Ok i1 t1" "handle d t1 i1 h"
    and e1: "io_eff d s t1 h (blk d s h) (pin d s h + 1) True []"
    using bread_spec [OF ok nb, of h] av ph by auto
  note D1 = io_effD [OF e1] and L1 = io_eff_log [OF e1]
  have v1: "bdata (bufs t1 ! i1) = blk d s h"
    using handle_view(1) [OF bio_okD(2) [OF D1(1)] 1(2)] D1(3) by simp
  define t2 where "t2 = set_bdata i1 ?w t1"
  have e2: "io_eff d t1 t2 h ?w (pin d t1 h) True []" and h2: "handle d t2 i1 h"
    using set_bdata_spec [OF D1(1) 1(2) len(1)] by (simp_all add: t2_def)
  note D2 = io_effD [OF e2] and L2 = io_eff_log [OF e2]
  have v2: "bdata (bufs t2 ! i1) = ?w"
    using handle_view(1) [OF bio_okD(2) [OF D2(1)] h2] D2(3) by simp
  define t3 where "t3 = set_bdata i1 ?v t2"
  have e3: "io_eff d t2 t3 h ?v (pin d t2 h) True []" and h3: "handle d t3 i1 h"
    using set_bdata_spec [OF D2(1) h2 len(2)] by (simp_all add: t3_def)
  note D3 = io_effD [OF e3]
  obtain t4 where 4: "bwrite i1 t3 = Ok () t4" "handle d t4 i1 h"
    and e4: "io_eff d t3 t4 h (blk d t3 h) (pin d t3 h) True [(h, blk d t3 h)]"
    using bwrite_spec [OF D3(1) h3] by blast
  note D4 = io_effD [OF e4]
  obtain t5 where 5: "brelse i1 t4 = Ok () t5"
    and e5: "io_eff d t4 t5 h (blk d t4 h) (pin d t4 h - 1) False []"
    using brelse_spec [OF D4(1) 4(2)] D4(3,6) D3(3,6) by auto
  note D5 = io_effD [OF e5]
  have "write_head s = Ok () t5"
    using 1 4 5 v1 v2 dev n L1 L2
    by (simp add: write_head_def Let_def hb [symmetric] t2_def [symmetric] t3_def [symmetric])
  moreover have "put_step d s t5 h ?v 0"
    unfolding put_step_def
  proof (intro conjI)
    show "bframe s t5" by (intro bframe_trans [OF D1(2)] bframe_trans [OF D2(2)] bframe_trans [OF D3(2)]
        bframe_trans [OF D4(2) D5(2)])
    show "blk d t5 = (blk d s)(h := ?v)" using D1(3) D2(3) D3(3) D4(3) D5(3) by simp
    show "pin d t5 = (pin d s)(h := 0)" using D1(4) D2(4) D3(4) D4(4) D5(4) ph by simp
    show "busy d t5 = busy d s" using D1(5) D2(5) D3(5) D4(5) D5(5) nb by (simp add: busy_same)
    show "disk t5 = (disk s)(h := ?v)" using D1(6) D2(6) D3(3,6) D4(6) D5(6) by simp
    show "dtrace t5 = dtrace s @ [(h, ?v)]" using D1(7) D2(7) D3(3,7) D4(7) D5(7) by simp
  qed (rule D5(1))
  ultimately show ?thesis by blast
qed

section \<open>The loops\<close>

definition log_region :: "u32 \<Rightarrow> u32 set" where
  "log_region start = (\<lambda>i. start + of_nat i) ` {..LOGBLOCKS}"

definition logged :: "'x klog_scheme \<Rightarrow> u32 list" where
  "logged s = take (nat (lhn s)) (lhblock s)"

text \<open>
  The log as a commit finds it, with no file-system call running: the logged blocks are
  distinct, outside the log, and referenced exactly by the pins of \<^verbatim>\<open>log_write\<close>.
\<close>

definition log_wf :: "'x klog_scheme \<Rightarrow> bool" where
  "log_wf s \<longleftrightarrow> bio_ok (log_dev s) s \<and> (\<forall>b. \<not> busy (log_dev s) s b) \<and> 0 \<le> lhn s \<and> lhn s \<le> int LOGBLOCKS \<and>
     length (lhblock s) = LOGBLOCKS \<and> distinct (logged s) \<and> set (logged s) \<inter> log_region (log_start s) = {} \<and>
     (\<forall>b. pin (log_dev s) s b = (if b \<in> set (logged s) then 1 else 0))"

text \<open>A fresh boot: nothing referenced, nothing locked.\<close>

definition booted :: "u32 \<Rightarrow> 'x klog_scheme \<Rightarrow> bool" where
  "booted d s \<longleftrightarrow> bio_ok d s \<and> log_dev s = d \<and> (\<forall>b. \<not> busy d s b \<and> pin d s b = 0) \<and> length (lhblock s) = LOGBLOCKS"

text \<open>\<open>steps d s t W P\<close>: the writes \<open>W\<close> went both to the cache and to the disk.\<close>

definition steps :: "u32 \<Rightarrow> 'x kbio_scheme \<Rightarrow> 'x kbio_scheme \<Rightarrow> (u32 \<times> u8 list) list \<Rightarrow> (u32 \<Rightarrow> nat) \<Rightarrow> bool" where
  "steps d s t W P \<longleftrightarrow> bio_ok d t \<and> bframe s t \<and> busy d t = busy d s \<and> blk d t = apply_writes W (blk d s) \<and>
     disk t = apply_writes W (disk s) \<and> dtrace t = dtrace s @ W \<and> pin d t = P"

lemma stepsD:
  assumes "steps d s t W P"
  shows "bio_ok d t" "bframe s t" "busy d t = busy d s" "blk d t = apply_writes W (blk d s)"
    "disk t = apply_writes W (disk s)" "dtrace t = dtrace s @ W" "pin d t = P"
  using assms unfolding steps_def by blast+

lemma steps_refl: "bio_ok d s \<Longrightarrow> steps d s s [] (pin d s)"
  by (simp add: steps_def)

lemma steps_trans: "steps d s t W P \<Longrightarrow> steps d t u W' P' \<Longrightarrow> steps d s u (W @ W') P'"
  by (auto simp: steps_def intro: bframe_trans)

lemma put_step_steps: "put_step d s t b v p \<Longrightarrow> steps d s t [(b, v)] ((pin d s)(b := p))"
  by (auto simp: steps_def put_step_def)

lemma apply_writes_other: "b \<notin> fst ` set W \<Longrightarrow> apply_writes W f b = f b"
  by (induction W arbitrary: f) auto

lemma apply_writes_last: "distinct (map fst W) \<Longrightarrow> (b, v) \<in> set W \<Longrightarrow> apply_writes W f b = v"
  by (induction W arbitrary: f) (force simp: apply_writes_other)+

lemma of_nat_inj32: "of_nat i = (of_nat j :: u32) \<Longrightarrow> i < 2 ^ 32 \<Longrightarrow> j < 2 ^ 32 \<Longrightarrow> i = j"
  by (simp add: word_of_nat_eq_iff take_bit_nat_eq_self)

lemma region_slot:
  "i < LOGBLOCKS \<Longrightarrow> start + of_nat i + 1 \<in> log_region start" "start \<in> log_region start"
proof -
  show "start + of_nat i + 1 \<in> log_region start" if "i < LOGBLOCKS"
    unfolding log_region_def by (rule image_eqI [of _ _ "Suc i"]) (use that in \<open>simp_all add: algebra_simps\<close>)
  show "start \<in> log_region start"
    unfolding log_region_def by (rule image_eqI [of _ _ 0]) simp_all
qed

lemma disjointD: "A \<inter> B = {} \<Longrightarrow> x \<in> A \<Longrightarrow> x \<notin> B"
  by auto

lemma nth_in_take: "k < n \<Longrightarrow> k < length xs \<Longrightarrow> xs ! k \<in> set (take n xs)"
  using nth_mem [of k "take n xs"] by simp

lemma slot_inj:
  "i < LOGBLOCKS \<Longrightarrow> j < LOGBLOCKS \<Longrightarrow> (start :: u32) + of_nat i + 1 = start + of_nat j + 1 \<Longrightarrow> i = j"
  by (auto simp: LOGBLOCKS_def MAXOPBLOCKS_def intro: of_nat_inj32)

lemma slot_not_start: "i < LOGBLOCKS \<Longrightarrow> (start :: u32) + of_nat i + 1 \<noteq> start"
proof
  assume "i < LOGBLOCKS" "start + of_nat i + 1 = start"
  then have "(of_nat (Suc i) :: u32) = of_nat 0" by (simp add: algebra_simps)
  then show False using \<open>i < LOGBLOCKS\<close> of_nat_inj32 [of "Suc i" 0] by (simp add: LOGBLOCKS_def MAXOPBLOCKS_def)
qed

definition log_writes :: "u32 \<Rightarrow> 'x klog_scheme \<Rightarrow> nat \<Rightarrow> (u32 \<times> u8 list) list" where
  "log_writes d s k = map (\<lambda>i. (log_start s + of_nat i + 1, blk d s (lhblock s ! i))) [0..<k]"

definition home_writes :: "u32 \<Rightarrow> 'x klog_scheme \<Rightarrow> nat \<Rightarrow> (u32 \<times> u8 list) list" where
  "home_writes d s k = map (\<lambda>i. (lhblock s ! i, blk d s (log_start s + of_nat i + 1))) [0..<k]"

lemma log_writes_keys: "k \<le> LOGBLOCKS \<Longrightarrow> fst ` set (log_writes d s k) \<subseteq> log_region (log_start s)"
  by (auto simp: log_writes_def intro!: region_slot)

lemma home_writes_keys: "k \<le> length (lhblock s) \<Longrightarrow> fst ` set (home_writes d s k) = set (take k (lhblock s))"
  by (simp add: home_writes_def image_image nth_image [symmetric])

lemma write_log_loop:
  fixes s :: "'x klog_scheme"
  assumes ok: "bio_ok d s" and nb: "\<And>b. \<not> busy d s b" and dev: "log_dev s = d"
    and len: "length (lhblock s) = LOGBLOCKS"
    and out: "set (take n (lhblock s)) \<inter> log_region (log_start s) = {}"
    and pl: "\<And>b. b \<in> log_region (log_start s) \<Longrightarrow> pin d s b = 0"
    and ph: "\<And>b. b \<in> set (take n (lhblock s)) \<Longrightarrow> pin d s b = 1"
    and av: "card {c. 0 < pin d s c} < NBUF" and n: "n \<le> LOGBLOCKS"
  shows "k \<le> n \<Longrightarrow> \<exists>t. foreach write_log_one [0..<k] s = Ok () t \<and> steps d s t (log_writes d s k) (pin d s)"
proof (induction k)
  case 0
  then show ?case using steps_refl [OF ok] by (simp add: log_writes_def)
next
  case (Suc k)
  then obtain t where t: "foreach write_log_one [0..<k] s = Ok () t" "steps d s t (log_writes d s k) (pin d s)"
    by auto
  note S = stepsD [OF t(2)] and L = bframe_log [OF stepsD(2) [OF t(2)]]
  let ?l = "log_start s + of_nat k + 1" and ?h = "lhblock s ! k"
  have hb: "?h \<in> set (take n (lhblock s))"
    by (rule nth_in_take) (use Suc.prems n len in simp_all)
  have lr: "?l \<in> log_region (log_start s)" using Suc.prems n region_slot(1) [of k] by simp
  have ne: "?l \<noteq> ?h" using disjointD [OF out hb] lr by metis
  have hk: "?h \<notin> fst ` set (log_writes d s k)"
    using log_writes_keys [of k d s] Suc.prems n out hb by auto
  then have v: "blk d t ?h = blk d s ?h" using S(4) by (simp add: apply_writes_other)
  have nbt: "\<And>b. \<not> busy d t b" using S(3) nb by simp
  obtain u where u: "write_log_one k t = Ok () u" "put_step d t u ?l (blk d s ?h) 0"
    using write_log_one_spec [OF S(1) nbt, of ?l k ?h] L dev ne pl [OF lr] ph [OF hb] av S(7) v by auto
  have "steps d s u (log_writes d s k @ [(?l, blk d s ?h)]) ((pin d t)(?l := 0))"
    by (rule steps_trans [OF t(2) put_step_steps [OF u(2)]])
  moreover have "(pin d t)(?l := 0) = pin d s" using S(7) pl [OF lr] by (simp add: fun_eq_iff)
  moreover have "log_writes d s (Suc k) = log_writes d s k @ [(?l, blk d s ?h)]" by (simp add: log_writes_def)
  ultimately show ?case using t(1) u(1) by (simp add: foreach_append)
qed

lemma install_loop:
  fixes s :: "'x klog_scheme"
  assumes ok: "bio_ok d s" and nb: "\<And>b. \<not> busy d s b" and dev: "log_dev s = d"
    and len: "length (lhblock s) = LOGBLOCKS"
    and out: "set (take n (lhblock s)) \<inter> log_region (log_start s) = {}"
    and pl: "\<And>b. b \<in> log_region (log_start s) \<Longrightarrow> pin d s b = 0" and n: "n \<le> LOGBLOCKS"
    and ph: "if r then (\<forall>b. pin d s b = 0)
      else distinct (take n (lhblock s)) \<and> (\<forall>b \<in> set (take n (lhblock s)). pin d s b = 1) \<and>
        card {c. 0 < pin d s c} < NBUF"
  shows "k \<le> n \<Longrightarrow> \<exists>t. foreach (install_one r) [0..<k] s = Ok () t \<and> steps d s t (home_writes d s k)
      (\<lambda>b. if b \<in> set (take k (lhblock s)) then 0 else pin d s b)"
proof (induction k)
  case 0
  then show ?case using steps_refl [OF ok] by (simp add: home_writes_def)
next
  case (Suc k)
  then obtain t where t: "foreach (install_one r) [0..<k] s = Ok () t"
    "steps d s t (home_writes d s k) (\<lambda>b. if b \<in> set (take k (lhblock s)) then 0 else pin d s b)"
    by auto
  note S = stepsD [OF t(2)] and L = bframe_log [OF stepsD(2) [OF t(2)]]
  let ?l = "log_start s + of_nat k + 1" and ?h = "lhblock s ! k"
  have kl: "k < length (lhblock s)" using Suc.prems n len by simp
  have tk: "take (Suc k) (lhblock s) = take k (lhblock s) @ [?h]" by (rule take_Suc_conv_app_nth [OF kl])
  have hb: "?h \<in> set (take n (lhblock s))"
    by (rule nth_in_take) (use Suc.prems n len in simp_all)
  have sub: "set (take k (lhblock s)) \<subseteq> set (take n (lhblock s))"
    using Suc.prems by (simp add: set_take_subset_set_take)
  have lr: "?l \<in> log_region (log_start s)" using Suc.prems n region_slot(1) [of k] by simp
  have ne: "?l \<noteq> ?h" using disjointD [OF out hb] lr by metis
  have "?l \<notin> fst ` set (home_writes d s k)"
    using home_writes_keys [of k s d] kl sub out lr by auto
  then have v: "blk d t ?l = blk d s ?l" using S(4) by (simp add: apply_writes_other)
  have nbt: "\<And>b. \<not> busy d t b" using S(3) nb by simp
  have plt: "pin d t ?l = 0" using S(7) pl [OF lr] by simp
  have "\<exists>u. install_one r k t = Ok () u \<and> put_step d t u ?h (blk d s ?l) 0"
  proof (cases r)
    case True
    then have "\<And>b. pin d t b = 0" using S(7) ph by simp
    then show ?thesis
      using install_recovering_spec [OF S(1) nbt, of ?l k ?h] L dev ne v True by auto
  next
    case False
    have "distinct (take (Suc k) (lhblock s))"
      using False ph Suc.prems by (metis distinct_take min.absorb1 take_take)
    then have "?h \<notin> set (take k (lhblock s))" by (simp add: tk)
    then have "pin d t ?h = 1" using S(7) ph hb False by simp
    moreover have "{c. 0 < pin d t c} \<subseteq> {c. 0 < pin d s c}" using S(7) by auto
    then have "card {c. 0 < pin d t c} < NBUF"
      using False ph card_mono [of "{c. 0 < pin d s c}" "{c. 0 < pin d t c}"] by (simp add: finite_subset)
    ultimately show ?thesis
      using install_one_spec [OF S(1) nbt, of ?l k ?h] L dev ne v plt False by auto
  qed
  then obtain u where u: "install_one r k t = Ok () u" "put_step d t u ?h (blk d s ?l) 0" by blast
  have "steps d s u (home_writes d s k @ [(?h, blk d s ?l)]) ((pin d t)(?h := 0))"
    by (rule steps_trans [OF t(2) put_step_steps [OF u(2)]])
  moreover have "(pin d t)(?h := 0) = (\<lambda>b. if b \<in> set (take (Suc k) (lhblock s)) then 0 else pin d s b)"
    using S(7) tk by (auto simp: fun_eq_iff)
  moreover have "home_writes d s (Suc k) = home_writes d s k @ [(?h, blk d s ?l)]" by (simp add: home_writes_def)
  ultimately show ?case using t(1) u(1) by (simp add: foreach_append)
qed

section \<open>Commit and recovery\<close>

text \<open>What recovery makes of a disk: the home blocks named by the on-disk header are overwritten.\<close>

definition hdr_n :: "u8 list \<Rightarrow> nat" where "hdr_n d = nat (sint (get32 d 0))"

definition log_recover :: "u32 \<Rightarrow> (u32 \<Rightarrow> u8 list) \<Rightarrow> u32 \<Rightarrow> u8 list" where
  "log_recover start dk =
     apply_writes (map (\<lambda>i. (get32 (dk start) (4 + 4 * i), dk (start + of_nat i + 1))) [0..<hdr_n (dk start)]) dk"

definition head_of :: "u32 \<Rightarrow> 'x klog_scheme \<Rightarrow> int \<Rightarrow> u8 list \<Rightarrow> u8 list" where
  "head_of d s n base = hdr_put (nat n) (lhblock s) (put32 base 0 (word_of_int n))"

lemma head_of_props:
  assumes "length base = BSIZE" "0 \<le> n" "n \<le> int LOGBLOCKS"
  shows "length (head_of d s n base) = BSIZE" "hdr_n (head_of d s n base) = nat n"
    "i < nat n \<Longrightarrow> get32 (head_of d s n base) (4 + 4 * i) = lhblock s ! i"
proof -
  have l: "length (put32 base 0 (word_of_int n)) = BSIZE" using assms(1) by (simp add: BSIZE_def)
  have b: "4 + 4 * nat n \<le> length (put32 base 0 (word_of_int n))"
    using l assms(3) by (simp add: BSIZE_def LOGBLOCKS_def MAXOPBLOCKS_def)
  note H = hdr_put_props [OF b, of "lhblock s"]
  show "length (head_of d s n base) = BSIZE" using H l by (simp add: head_of_def)
  have "get32 (head_of d s n base) 0 = word_of_int n"
    using H assms(1) by (simp add: head_of_def BSIZE_def)
  moreover have "sint (word_of_int n :: u32) = n"
    using assms by (simp add: LOGBLOCKS_def MAXOPBLOCKS_def sint_sbintrunc' signed_take_bit_int_eq_self)
  ultimately show "hdr_n (head_of d s n base) = nat n" by (simp add: hdr_n_def)
  show "i < nat n \<Longrightarrow> get32 (head_of d s n base) (4 + 4 * i) = lhblock s ! i"
    using H by (simp add: head_of_def)
qed

lemma write_head_steps:
  fixes s :: "'x klog_scheme"
  assumes ok: "bio_ok d s" and nb: "\<And>b. \<not> busy d s b" and dev: "log_dev s = d"
    and ph: "pin d s (log_start s) = 0" and av: "card {c. 0 < pin d s c} < NBUF"
    and n: "lhn s \<le> int LOGBLOCKS" "length (lhblock s) = LOGBLOCKS"
  shows "\<exists>t. write_head s = Ok () t \<and>
    steps d s t [(log_start s, head_of d s (lhn s) (blk d s (log_start s)))] (pin d s)"
proof -
  have "nat (lhn s) \<le> LOGBLOCKS" using n by simp
  from write_head_spec [OF ok nb dev refl ph av this n(2)] obtain t where t: "write_head s = Ok () t"
    "put_step d s t (log_start s) (head_of d s (lhn s) (blk d s (log_start s))) 0"
    unfolding head_of_def by blast
  from put_step_steps [OF t(2)] ph show ?thesis
    using t(1) by (auto simp: fun_upd_idem)
qed

lemma bframe_lhn:
  fixes s t :: "'x klog_scheme"
  assumes "bframe s t" shows "bframe (s\<lparr>lhn := n\<rparr>) (t\<lparr>lhn := n\<rparr>)"
proof -
  have "kbio.more (t\<lparr>lhn := n\<rparr>) = kbio.more (s\<lparr>lhn := n\<rparr>)"
    using assms by (cases s, cases t) (simp add: bframe_def)
  moreover have "mypid (r\<lparr>lhn := n\<rparr>) = mypid r" for r :: "'x klog_scheme" by (rule mypid_cong) simp_all
  ultimately show ?thesis using assms by (simp add: bframe_def)
qed

lemma lhn_views:
  "bio_ok d (t\<lparr>lhn := n\<rparr>) = bio_ok d t" "blk d (t\<lparr>lhn := n\<rparr>) = blk d t" "pin d (t\<lparr>lhn := n\<rparr>) = pin d t" "busy d (t\<lparr>lhn := n\<rparr>) = busy d t"
  by (auto simp: bio_ok_def quiet_def bio_wf_def cached_def blk_def pin_def busy_def buf_of_def fun_eq_iff
      split: option.split)

lemma pin_card:
  "(\<forall>b. pin d s b = (if b \<in> set bs then 1 else 0)) \<Longrightarrow> distinct bs \<Longrightarrow> card {c. 0 < pin d s c} = length bs"
proof -
  assume "\<forall>b. pin d s b = (if b \<in> set bs then 1 else 0)" "distinct bs"
  moreover from this have "{c. 0 < pin d s c} = set bs" by (auto split: if_splits)
  ultimately show ?thesis by (simp add: distinct_card)
qed

text \<open>The disk writes of a commit, in order.\<close>

definition commit_writes :: "u32 \<Rightarrow> 'x klog_scheme \<Rightarrow> (u32 \<times> u8 list) list" where
  "commit_writes d s =
     (let n = nat (lhn s); H = head_of d s (lhn s) (blk d s (log_start s)) in
      if n = 0 then []
      else log_writes d s n @ [(log_start s, H)] @ map (\<lambda>b. (b, blk d s b)) (logged s) @
           [(log_start s, head_of d s 0 H)])"

lemma commit_spec:
  fixes s :: "'x klog_scheme"
  assumes wf: "log_wf s" and room: "lhn s < int NBUF"
  defines "d \<equiv> log_dev s"
  shows "\<exists>t. commit s = Ok () t \<and> lhn t = 0 \<and> bframe (s\<lparr>lhn := 0\<rparr>) t \<and> bio_ok d t \<and> (\<forall>b. \<not> busy d t b \<and> pin d t b = 0) \<and>
    blk d t = apply_writes (commit_writes d s) (blk d s) \<and>
    disk t = apply_writes (commit_writes d s) (disk s) \<and> dtrace t = dtrace s @ commit_writes d s"
proof (cases "lhn s = 0")
  case True
  then have "s\<lparr>lhn := 0\<rparr> = s" by (cases s) simp
  then have "bframe (s\<lparr>lhn := 0\<rparr>) s" by (metis bframe_refl)
  then show ?thesis using True wf by (auto simp: commit_def commit_writes_def log_wf_def d_def logged_def)
next
  case False
  let ?n = "nat (lhn s)" and ?st = "log_start s"
  have W: "bio_ok d s" "\<And>b. \<not> busy d s b" "0 \<le> lhn s" "lhn s \<le> int LOGBLOCKS" "length (lhblock s) = LOGBLOCKS"
    "distinct (logged s)" "set (logged s) \<inter> log_region ?st = {}"
    "\<forall>b. pin d s b = (if b \<in> set (logged s) then 1 else 0)"
    using wf by (auto simp: log_wf_def d_def)
  have dv: "log_dev s = d" by (simp add: d_def)
  have bs: "take ?n (lhblock s) = logged s" "?n \<le> LOGBLOCKS" using W(4) by (simp_all add: logged_def)
  have card: "card {c. 0 < pin d s c} < NBUF"
    using pin_card [OF W(8,6)] room W(3,5) bs(2) by (simp add: logged_def)
  have pl: "pin d s b = 0" if "b \<in> log_region ?st" for b
    using that W(7,8) by auto
  have ph: "pin d s b = 1" if "b \<in> set (take ?n (lhblock s))" for b using that W(8) bs by simp
  obtain t1 where t1: "write_log s = Ok () t1" and S1: "steps d s t1 (log_writes d s ?n) (pin d s)"
    using write_log_loop [OF W(1,2) dv W(5) W(7) [folded bs(1)] pl ph card bs(2), of ?n]
    by (auto simp: write_log_def bs(1))
  note D1 = stepsD [OF S1] and L1 = bframe_log [OF stepsD(2) [OF S1]]
  have nb1: "\<And>b. \<not> busy d t1 b" using D1(3) W(2) by simp
  have st_new: "?st \<notin> fst ` set (log_writes d s ?n)"
    using slot_not_start [of _ ?st] bs(2) by (fastforce simp: log_writes_def)
  have b1: "blk d t1 ?st = blk d s ?st" using D1(4) apply_writes_other [OF st_new] by simp
  let ?H = "head_of d s (lhn s) (blk d s ?st)"
  have hd: "head_of d t1 (lhn t1) (blk d t1 ?st) = ?H" using L1 b1 by (simp add: head_of_def)
  have stpin: "pin d s ?st = 0" using pl region_slot(2) by blast
  obtain t2 where t2: "write_head t1 = Ok () t2" and S2: "steps d t1 t2 [(?st, ?H)] (pin d s)"
    using write_head_steps [OF D1(1) nb1] L1 D1(7) stpin card W(4,5) hd by (auto simp: d_def [symmetric])
  note D2 = stepsD [OF S2] and L2 = bframe_log [OF stepsD(2) [OF S2]]
  have nb2: "\<And>b. \<not> busy d t2 b" using D2(3) nb1 by simp
  have ph2: "distinct (take ?n (lhblock t2)) \<and> (\<forall>b \<in> set (take ?n (lhblock t2)). pin d t2 b = 1) \<and>
      card {c. 0 < pin d t2 c} < NBUF"
    using L1 L2 D2(7) ph W(6) bs card by simp
  have I2: "log_dev t2 = d" "length (lhblock t2) = LOGBLOCKS"
    "set (take ?n (lhblock t2)) \<inter> log_region (log_start t2) = {}"
    using L1 L2 dv W(5,7) bs(1) by simp_all
  have "\<exists>t3. foreach (install_one False) [0..<?n] t2 = Ok () t3 \<and> steps d t2 t3 (home_writes d t2 ?n)
      (\<lambda>b. if b \<in> set (take ?n (lhblock t2)) then 0 else pin d t2 b)"
    by (rule install_loop [OF D2(1) nb2 I2 _ bs(2)]) (use D2(7) L1 L2 pl ph2 in simp_all)
  then obtain t3 where t3: "install_trans False t2 = Ok () t3" and S3: "steps d t2 t3 (home_writes d t2 ?n)
      (\<lambda>b. if b \<in> set (take ?n (lhblock t2)) then 0 else pin d t2 b)"
    using L1 L2 by (auto simp: install_trans_def)
  note D3 = stepsD [OF S3] and L3 = bframe_log [OF stepsD(2) [OF S3]]
  have hw: "home_writes d t2 ?n = map (\<lambda>b. (b, blk d s b)) (logged s)"
  proof (rule nth_equalityI)
    show "length (home_writes d t2 ?n) = length (map (\<lambda>b. (b, blk d s b)) (logged s))"
      using bs W(5) by (simp add: home_writes_def logged_def)
    fix i assume "i < length (home_writes d t2 ?n)"
    then have i: "i < ?n" by (simp add: home_writes_def)
    have "blk d t1 (?st + of_nat i + 1) = blk d s (lhblock s ! i)"
    proof -
      have "distinct (map fst (log_writes d s ?n))"
        using slot_inj [of _ _ ?st] bs(2) by (auto simp: log_writes_def distinct_map inj_on_def)
      then show ?thesis
        unfolding D1(4) by (rule apply_writes_last) (use i in \<open>auto simp: log_writes_def\<close>)
    qed
    then have "blk d t2 (?st + of_nat i + 1) = blk d s (lhblock s ! i)"
      using D2(4) slot_not_start [of i ?st] i bs(2) by simp
    then show "home_writes d t2 ?n ! i = map (\<lambda>b. (b, blk d s b)) (logged s) ! i"
      using i L1 L2 bs W(5) by (simp add: home_writes_def logged_def)
  qed
  have p3: "pin d t3 b = 0" for b using D3(7) D2(7) L1 L2 W(8) bs by simp
  define t3' where "t3' = t3\<lparr>lhn := 0\<rparr>"
  have V3: "bio_ok d t3'" "blk d t3' = blk d t3" "pin d t3' = pin d t3" "busy d t3' = busy d t3"
    "disk t3' = disk t3" "dtrace t3' = dtrace t3" "log_start t3' = ?st" "log_dev t3' = d" "lhn t3' = 0"
    "lhblock t3' = lhblock s"
    using D3(1) L1 L2 L3 by (simp_all add: t3'_def lhn_views d_def)
  have stB: "?st \<notin> set (logged s)" using W(7) region_slot(2) by (metis disjointD)
  have st3: "blk d t3 ?st = ?H"
    using D3(4) hw D2(4) apply_writes_other [of ?st "map (\<lambda>b. (b, blk d s b)) (logged s)"] stB
    by (simp add: image_image)
  have H0: "head_of d t3' (lhn t3') (blk d t3' (log_start t3')) = head_of d s 0 ?H"
    using V3 st3 by (simp add: head_of_def)
  have nb3: "\<And>b. \<not> busy d t3' b" using V3(4) D3(3) nb2 by simp
  have "card {c. 0 < pin d t3' c} < NBUF" using p3 V3 by (simp add: NBUF_def MAXOPBLOCKS_def)
  with write_head_steps [OF V3(1) nb3] obtain t4 where t4: "write_head t3' = Ok () t4"
    and S4: "steps d t3' t4 [(?st, head_of d s 0 ?H)] (pin d t3')"
    using H0 V3 p3 W(5) by auto
  note D4 = stepsD [OF S4] and L4 = bframe_log [OF stepsD(2) [OF S4]]
  have cw: "commit_writes d s = log_writes d s ?n @ [(?st, ?H)] @ map (\<lambda>b. (b, blk d s b)) (logged s) @
      [(?st, head_of d s 0 ?H)]"
    using False W(3) by (simp add: commit_writes_def Let_def)
  have fr: "bframe (s\<lparr>lhn := 0\<rparr>) t4"
  proof -
    have "bframe s t3" by (intro bframe_trans [OF D1(2)] bframe_trans [OF D2(2) D3(2)])
    then have "bframe (s\<lparr>lhn := 0\<rparr>) t3'"
      unfolding t3'_def by (rule bframe_lhn)
    then show ?thesis by (rule bframe_trans [OF _ D4(2)])
  qed
  have "commit s = Ok () t4" using t1 t2 t3 t4 False W(3) by (simp add: commit_def t3'_def)
  moreover have "disk t4 = apply_writes (commit_writes d s) (disk s)" "dtrace t4 = dtrace s @ commit_writes d s"
    "blk d t4 = apply_writes (commit_writes d s) (blk d s)"
    using D1 D2 D3 D4 V3 hw by (simp_all add: cw)
  moreover have "lhn t4 = 0" "pin d t4 b = 0" "\<not> busy d t4 b" for b
    using L4 V3 D4 p3 nb3 by simp_all
  ultimately show ?thesis using D4(1) fr by blast
qed

text \<open>Recovery, on a fresh boot, of a disk whose header is sane.\<close>

definition sane_head :: "u32 \<Rightarrow> (u32 \<Rightarrow> u8 list) \<Rightarrow> bool" where
  "sane_head start dk \<longleftrightarrow> hdr_n (dk start) \<le> LOGBLOCKS \<and>
     (\<forall>i<hdr_n (dk start). get32 (dk start) (4 + 4 * i) \<notin> log_region start)"

lemma recover_spec:
  fixes s :: "'x klog_scheme"
  assumes bt: "booted d s" and sane: "sane_head (log_start s) (disk s)"
  shows "\<exists>t. recover_from_log s = Ok () t \<and> booted d t \<and> lhn t = 0 \<and>
    hdr_n (disk t (log_start s)) = 0 \<and> (\<forall>b. b \<noteq> log_start s \<longrightarrow> disk t b = log_recover (log_start s) (disk s) b)"
proof -
  let ?st = "log_start s" and ?n = "hdr_n (disk s (log_start s))"
  let ?bl = "map (\<lambda>i. get32 (disk s ?st) (4 + 4 * i)) [0..<?n] @ drop ?n (lhblock s)"
  have B: "bio_ok d s" "\<And>b. \<not> busy d s b" "\<And>b. pin d s b = 0" "log_dev s = d" "length (lhblock s) = LOGBLOCKS"
    using bt by (simp_all add: booted_def)
  have c0: "card {c. 0 < pin d s c} < NBUF" using B(3) by (simp add: NBUF_def MAXOPBLOCKS_def)
  have bd: "blk d s b = disk s b" for b by (rule bio_clean [OF bio_okD(2) [OF B(1)] B(3)])
  have n: "?n \<le> LOGBLOCKS" using sane by (simp add: sane_head_def)
  \<comment> \<open>\<^verbatim>\<open>read_head\<close>\<close>
  obtain i1 t1 where 1: "bread d ?st s = Ok i1 t1" "handle d t1 i1 ?st"
    and e1: "io_eff d s t1 ?st (blk d s ?st) (pin d s ?st + 1) True []"
    using bread_spec [OF B(1) B(2), of ?st] c0 B(3) by auto
  note D1 = io_effD [OF e1] and L1 = io_eff_log [OF e1]
  have v1: "bdata (bufs t1 ! i1) = disk s ?st"
    using handle_view(1) [OF bio_okD(2) [OF D1(1)] 1(2)] D1(3) bd by simp
  define t2 where "t2 = t1\<lparr>lhn := sint (get32 (disk s ?st) 0), lhblock := ?bl\<rparr>"
  have t2v: "bio_ok d t2" "handle d t2 i1 ?st" "blk d t2 = blk d t1" "pin d t2 = pin d t1" "busy d t2 = busy d t1"
    "disk t2 = disk t1" "dtrace t2 = dtrace t1" "log_start t2 = ?st" "log_dev t2 = d" "lhblock t2 = ?bl"
    "nat (lhn t2) = ?n"
    using D1(1) 1(2) L1 B(4) by (auto simp: t2_def bio_ok_def quiet_def bio_wf_def cached_def blk_def pin_def
      busy_def buf_of_def handle_def holds_def hdr_n_def fun_eq_iff mypid_def split: option.split)
  have "blk d t2 ?st = disk t2 ?st" using t2v D1(3,6) bd by simp
  then obtain t3 where 3: "brelse i1 t2 = Ok () t3"
    and e3: "io_eff d t2 t3 ?st (blk d t2 ?st) (pin d t2 ?st - 1) False []"
    using brelse_spec [OF t2v(1,2)] by auto
  note D3 = io_effD [OF e3] and L3 = io_eff_log [OF e3]
  have rh: "read_head s = Ok () t3"
    using 1 3 v1 B(4,5) n L1 fold_update_prefix [of ?n "lhblock s"] t2v(11)
    by (simp add: read_head_def t2_def hdr_n_def)
  have S3: "bio_ok d t3" "\<And>b. \<not> busy d t3 b" "\<And>b. pin d t3 b = 0" "blk d t3 = disk s" "disk t3 = disk s"
    "log_start t3 = ?st" "log_dev t3 = d" "lhblock t3 = ?bl" "nat (lhn t3) = ?n"
    using D3 D1 t2v L3 B bd by (auto simp: fun_eq_iff)
  have tk: "take ?n (lhblock t3) = map (\<lambda>i. get32 (disk s ?st) (4 + 4 * i)) [0..<?n]" using S3(8) by simp
  have len3: "length (lhblock t3) = LOGBLOCKS" using S3(8) B(5) n by simp
  have out: "set (take ?n (lhblock t3)) \<inter> log_region (log_start t3) = {}"
    unfolding tk S3(6) using sane by (auto simp: sane_head_def)
  have "\<exists>t. foreach (install_one True) [0..<?n] t3 = Ok () t \<and> steps d t3 t (home_writes d t3 ?n)
      (\<lambda>b. if b \<in> set (take ?n (lhblock t3)) then 0 else pin d t3 b)"
    by (rule install_loop [OF S3(1,2,7) len3 out S3(3) n]) (use S3(3) in simp_all)
  then obtain t4 where t4: "install_trans True t3 = Ok () t4"
    and S4: "steps d t3 t4 (home_writes d t3 ?n) (\<lambda>b. if b \<in> set (take ?n (lhblock t3)) then 0 else pin d t3 b)"
    using S3(9) by (auto simp: install_trans_def)
  note D4 = stepsD [OF S4] and L4 = bframe_log [OF stepsD(2) [OF S4]]
  have hw: "home_writes d t3 ?n = map (\<lambda>i. (get32 (disk s ?st) (4 + 4 * i), disk s (?st + of_nat i + 1))) [0..<?n]"
    using S3 by (auto simp: home_writes_def nth_append)
  define t4' where "t4' = t4\<lparr>lhn := 0\<rparr>"
  have V4: "bio_ok d t4'" "pin d t4' b = 0" "\<not> busy d t4' b" "disk t4' = disk t4" "log_start t4' = ?st"
    "log_dev t4' = d" "lhn t4' = 0" "length (lhblock t4') = LOGBLOCKS" for b
    using D4 S3 L4 B(5) n by (simp_all add: t4'_def lhn_views)
  have "card {c. 0 < pin d t4' c} < NBUF" using V4 by (simp add: NBUF_def MAXOPBLOCKS_def)
  with write_head_steps [OF V4(1,3)] obtain t5 where t5: "write_head t4' = Ok () t5"
    and S5: "steps d t4' t5 [(?st, head_of d t4' 0 (blk d t4' ?st))] (pin d t4')"
    using V4 by auto
  note D5 = stepsD [OF S5] and L5 = bframe_log [OF stepsD(2) [OF S5]]
  have "hdr_n (disk t5 ?st) = 0"
    using D5(5) head_of_props(2) [of "blk d t4' ?st" 0 d t4'] blk_length [OF bio_okD(2) [OF V4(1)]] by simp
  moreover have "disk t5 b = log_recover ?st (disk s) b" if "b \<noteq> ?st" for b
    using that D5(5) V4(4) D4(5) S3(5) hw by (simp add: log_recover_def)
  moreover have "recover_from_log s = Ok () t5"
    using rh t4 t5 by (simp add: recover_from_log_def t4'_def)
  moreover have "booted d t5" "lhn t5 = 0"
    using D5 V4 L5 by (simp_all add: booted_def)
  ultimately show ?thesis by blast
qed

section \<open>Crashes\<close>

text \<open>
  The four phases of a commit: while the log is being written the on-disk header is still
  empty; from the header write until the header is cleared recovery installs everything.
\<close>

lemma log_recover_empty: "hdr_n (dk start) = 0 \<Longrightarrow> log_recover start dk = dk"
  by (simp add: log_recover_def)

lemma log_recover_full:
  assumes h: "hdr_n (dk start) = n" "\<And>i. i < n \<Longrightarrow> get32 (dk start) (4 + 4 * i) = bs ! i"
    and b: "length bs = n" "distinct bs" "\<And>i. i < n \<Longrightarrow> dk (start + of_nat i + 1) = v (bs ! i)"
  shows "log_recover start dk c = (if c \<in> set bs then v c else dk c)"
proof -
  let ?W = "map (\<lambda>i. (get32 (dk start) (4 + 4 * i), dk (start + of_nat i + 1))) [0..<n]"
  have w: "?W = map (\<lambda>b. (b, v b)) bs" by (rule nth_equalityI) (use h b in auto)
  show ?thesis
  proof (cases "c \<in> set bs")
    case True
    then have "apply_writes ?W dk c = v c"
      unfolding w by (intro apply_writes_last) (use b(2) in \<open>auto simp: comp_def\<close>)
    then show ?thesis using True h by (simp add: log_recover_def)
  next
    case False
    then have "apply_writes ?W dk c = dk c" unfolding w by (intro apply_writes_other) auto
    then show ?thesis using False h by (simp add: log_recover_def)
  qed
qed

lemma apply_take_home:
  "c \<notin> set bs \<Longrightarrow> apply_writes (take k (map (\<lambda>b. (b, v b)) bs)) f c = f c"
  by (rule apply_writes_other) (auto dest!: in_set_takeD simp: take_map)

text \<open>The state of the disk after \<open>k\<close> writes of the commit, seen through recovery.\<close>

lemma crash_view:
  fixes s :: "'x klog_scheme"
  assumes wf: "log_wf s" and clear: "hdr_n (disk s (log_start s)) = 0"
    and k: "k \<le> length (commit_writes (log_dev s) s)"
  defines "st \<equiv> log_start s" and "d \<equiv> log_dev s"
  defines "dk \<equiv> apply_writes (take k (commit_writes d s)) (disk s)"
  shows "sane_head st dk \<and> ((\<forall>b. b \<notin> log_region st \<longrightarrow> log_recover st dk b = disk s b) \<or>
    (\<forall>b. b \<notin> log_region st \<longrightarrow> log_recover st dk b = blk d s b))"
proof -
  let ?n = "nat (lhn s)" and ?bs = "logged s"
  let ?A = "log_writes d s ?n" and ?H = "head_of d s (lhn s) (blk d s st)"
  let ?B = "map (\<lambda>b. (b, blk d s b)) ?bs" and ?Hz = "head_of d s 0 (head_of d s (lhn s) (blk d s st))"
  have W: "bio_ok d s" "0 \<le> lhn s" "lhn s \<le> int LOGBLOCKS" "length (lhblock s) = LOGBLOCKS"
    "distinct ?bs" "set ?bs \<inter> log_region st = {}" "\<forall>b. pin d s b = (if b \<in> set ?bs then 1 else 0)"
    using wf by (auto simp: log_wf_def d_def st_def)
  have n: "?n \<le> LOGBLOCKS" "length ?bs = ?n" using W by (simp_all add: logged_def)
  have keyA: "fst ` set ?A \<subseteq> log_region st" using log_writes_keys [OF n(1), of d s] by (simp add: st_def)
  have stA: "st \<notin> fst ` set ?A"
    using slot_not_start [of _ st] n(1) by (fastforce simp: log_writes_def st_def)
  have stB: "st \<notin> set ?bs" using W(6) region_slot(2) by (metis disjointD)
  have clean: "blk d s b = disk s b" if "b \<notin> set ?bs" for b
    by (rule bio_clean [OF bio_okD(2) [OF W(1)]]) (use that W(7) in simp)
  have lenst: "length (blk d s st) = BSIZE" by (rule blk_length [OF bio_okD(2) [OF W(1)]])
  note HP = head_of_props [OF lenst W(2,3), where d = d and s = s]
  note HP0 = head_of_props(2) [OF HP(1), where n = 0 and d = d and s = s, simplified]
  show ?thesis
  proof (cases "?n = 0")
    case True
    then have "dk = disk s" by (simp add: dk_def commit_writes_def)
    then show ?thesis using clear by (simp add: sane_head_def log_recover_empty st_def)
  next
    case False
    have cw: "commit_writes d s = ?A @ [(st, ?H)] @ ?B @ [(st, ?Hz)]"
      using False by (simp add: commit_writes_def Let_def st_def)
    have lA: "length ?A = ?n" by (simp add: log_writes_def)
    have kn: "k \<le> 2 * ?n + 2" using k [folded d_def] n(2) lA by (simp add: cw)
    consider (log) "k \<le> ?n" | (inst) "?n < k" "k \<le> 2 * ?n + 1" | (fin) "k = 2 * ?n + 2"
      using kn by linarith
    then show ?thesis
    proof cases
      case log
      then have dk: "dk = apply_writes (take k ?A) (disk s)" using lA by (simp add: dk_def cw)
      have sub: "fst ` set (take k ?A) \<subseteq> fst ` set ?A" by (auto dest: in_set_takeD)
      have "dk st = disk s st" unfolding dk by (rule apply_writes_other) (use sub stA in blast)
      then have h: "hdr_n (dk st) = 0" using clear by (simp add: st_def)
      have "dk b = disk s b" if "b \<notin> log_region st" for b
        unfolding dk by (rule apply_writes_other) (use sub keyA that in blast)
      then show ?thesis using h by (simp add: sane_head_def log_recover_empty)
    next
      case inst
      let ?j = "k - ?n - 1"
      have dk: "dk = apply_writes (take ?j ?B) ((apply_writes ?A (disk s))(st := ?H))"
        using inst lA n(2) by (simp add: dk_def cw take_Cons' Suc_diff_le)
      have other: "dk b = ((apply_writes ?A (disk s))(st := ?H)) b" if "b \<notin> set ?bs" for b
        unfolding dk using apply_take_home [of b] that by simp
      have H: "dk st = ?H" using other [OF stB] by simp
      have hn: "hdr_n (dk st) = ?n" "\<And>i. i < ?n \<Longrightarrow> get32 (dk st) (4 + 4 * i) = ?bs ! i"
        using H HP by (simp_all add: logged_def)
      have slots: "dk (st + of_nat i + 1) = blk d s (?bs ! i)" if "i < ?n" for i
      proof -
        have "st + of_nat i + 1 \<in> log_region st" using region_slot(1) that n(1) by simp
        then have "st + of_nat i + 1 \<notin> set ?bs" using W(6) by blast
        moreover have "distinct (map fst ?A)"
          using slot_inj [of _ _ st] n(1) by (auto simp: log_writes_def distinct_map inj_on_def st_def)
        then have "apply_writes ?A (disk s) (st + of_nat i + 1) = blk d s (?bs ! i)"
          by (rule apply_writes_last) (use that in \<open>auto simp: log_writes_def st_def logged_def\<close>)
        ultimately show ?thesis using other slot_not_start [of i st] that n(1) by simp
      qed
      have rec: "log_recover st dk b = (if b \<in> set ?bs then blk d s b else dk b)" for b
        by (rule log_recover_full [OF hn n(2) W(5) slots])
      have "log_recover st dk b = blk d s b" if "b \<notin> log_region st" for b
      proof (cases "b \<in> set ?bs")
        case True
        then show ?thesis using rec by simp
      next
        case False
        have "b \<noteq> st" using that region_slot(2) by metis
        moreover have "apply_writes ?A (disk s) b = disk s b"
          by (rule apply_writes_other) (use keyA that in blast)
        ultimately show ?thesis using rec False other [OF False] clean [OF False] by simp
      qed
      moreover have "sane_head st dk"
        using hn n disjointD [OF W(6)] by (simp add: sane_head_def)
      ultimately show ?thesis by blast
    next
      case fin
      have dk: "dk = (apply_writes ?B ((apply_writes ?A (disk s))(st := ?H)))(st := ?Hz)"
        using fin lA n(2) by (simp add: dk_def cw)
      have h: "hdr_n (dk st) = 0" using HP0 by (simp add: dk)
      have "dk b = blk d s b" if "b \<notin> log_region st" for b
      proof (cases "b \<in> set ?bs")
        case True
        then have "b \<noteq> st" using stB by auto
        moreover have "apply_writes ?B ((apply_writes ?A (disk s))(st := ?H)) b = blk d s b"
          by (rule apply_writes_last) (use W(5) True in \<open>auto simp: comp_def\<close>)
        ultimately show ?thesis by (simp add: dk)
      next
        case False
        have "b \<noteq> st" using that region_slot(2) by metis
        moreover have "apply_writes ?A (disk s) b = disk s b"
          by (rule apply_writes_other) (use keyA that in blast)
        moreover have "apply_writes ?B ((apply_writes ?A (disk s))(st := ?H)) b = ((apply_writes ?A (disk s))(st := ?H)) b"
          by (rule apply_writes_other) (use False in auto)
        ultimately show ?thesis using clean [OF False] by (simp add: dk)
      qed
      then show ?thesis using h by (simp add: sane_head_def log_recover_empty)
    qed
  qed
qed

section \<open>Properties\<close>

text \<open>
  A kernel with \<open>n\<close> logged blocks, from block 50 on, whose cached content differs from the disk.
\<close>

definition buf_unused :: buf where
  "buf_unused = \<lparr>bvalid = False, bdev = 0, bblockno = 0, brefcnt = 0, bdata = replicate 1024 0\<rparr>"

definition klog_n :: "nat \<Rightarrow> klog" where
  "klog_n n = kproc.extend kproc_two
     \<lparr>slocks = \<lambda>_. \<lparr>sl_locked = False, sl_name = [], sl_pid = 0\<rparr>,
      bufs = map (\<lambda>i. if i < n then \<lparr>bvalid = True, bdev = 1, bblockno = 50 + of_nat i, brefcnt = 1,
        bdata = replicate 1024 7\<rparr> else buf_unused) [0..<NBUF],
      blru = rev [0..<NBUF], disk = \<lambda>_. replicate 1024 0, dtrace = [],
      log_start = 2, log_outstanding = 0, log_committing = False, log_dev = 1, lhn = int n,
      lhblock = map (\<lambda>i. 50 + of_nat i) [0..<LOGBLOCKS]\<rparr>"

lemma klog_n_fields:
  "held (klog_n n) = []" "curproc (klog_n n) = Some 0" "length (ptable (klog_n n)) = NPROC"
  "i < NBUF \<Longrightarrow> bufs (klog_n n) ! i = (if i < n then \<lparr>bvalid = True, bdev = 1, bblockno = 50 + of_nat i, brefcnt = 1,
        bdata = replicate 1024 7\<rparr> else buf_unused)" "length (bufs (klog_n n)) = NBUF"
  "slocks (klog_n n) = (\<lambda>_. \<lparr>sl_locked = False, sl_name = [], sl_pid = 0\<rparr>)" "blru (klog_n n) = rev [0..<NBUF]"
  "disk (klog_n n) = (\<lambda>_. replicate 1024 0)" "dtrace (klog_n n) = []" "log_start (klog_n n) = 2" "log_dev (klog_n n) = 1"
  "lhn (klog_n n) = int n" "lhblock (klog_n n) = map (\<lambda>i. 50 + of_nat i) [0..<LOGBLOCKS]"
  using kproc_two_ok
  by (simp_all add: klog_n_def kproc.extend_def kproc_two_def kproc_pt_def NPROC_def)

lemma klog_n_wf:
  assumes n: "n \<le> 30"
  shows "log_wf (klog_n n)" "hdr_n (disk (klog_n n) (log_start (klog_n n))) = 0"
proof -
  note F = klog_n_fields
  have N: "NBUF = 30" "LOGBLOCKS = 30" by (simp_all add: NBUF_def LOGBLOCKS_def MAXOPBLOCKS_def)
  have inj: "i = j" if "(50 :: u32) + of_nat i = 50 + of_nat j" "i < 30" "j < 30" for i j
    using that of_nat_inj32 [of i j] by simp
  have cc: "cached 1 (klog_n n) i b \<longleftrightarrow> i < n \<and> b = 50 + of_nat i" for i b
    using n by (cases "i < 30") (auto simp: cached_def F(5) N F(4) buf_unused_def)
  have wf: "bio_wf 1 (klog_n n)"
    unfolding bio_wf_def cc N
  proof (intro conjI allI impI)
    show "length (bufs (klog_n n)) = 30" "distinct (blru (klog_n n))" "set (blru (klog_n n)) = {..<30}"
      by (auto simp: F N)
    show "length (disk (klog_n n) b) = BSIZE" for b by (simp add: F BSIZE_def)
    show "i = j" if "(i < n \<and> b = 50 + of_nat i) \<and> j < n \<and> b = 50 + of_nat j" for i j and b :: u32
      using that n by (intro inj) auto
    fix i :: nat assume i: "i < 30"
    note B = F(4) [of i n, unfolded N, OF i]
    show "bdev (bufs (klog_n n) ! i) = 1 \<or> \<not> bvalid (bufs (klog_n n) ! i) \<and> brefcnt (bufs (klog_n n) ! i) = 0"
      "length (bdata (bufs (klog_n n) ! i)) = BSIZE"
      by (simp_all add: B buf_unused_def BSIZE_def)
    assume z: "brefcnt (bufs (klog_n n) ! i) = 0"
    show "\<not> sl_locked (slocks (klog_n n) (SlBuf i))" by (simp add: F)
    assume "bvalid (bufs (klog_n n) ! i)"
    then show "bdata (bufs (klog_n n) ! i) = disk (klog_n n) (bblockno (bufs (klog_n n) ! i))"
      using z by (simp add: B buf_unused_def split: if_splits)
  qed
  have q: "quiet (klog_n n)" by (auto simp: quiet_def F NPROC_def)
  have lg: "logged (klog_n n) = map (\<lambda>i. 50 + of_nat i) [0..<n]"
    using n by (simp add: logged_def F N take_map)
  have v: "pin 1 (klog_n n) b = (if b \<in> set (logged (klog_n n)) then 1 else 0) \<and> \<not> busy 1 (klog_n n) b" for b
  proof (cases "\<exists>i<n. b = 50 + of_nat i")
    case True
    then obtain i where i: "i < n" "b = 50 + of_nat i" by blast
    then show ?thesis using view_cached(2,3) [OF wf, of i b] cc n lg F(4) [of i n] by (auto simp: N F(6))
  next
    case False
    then show ?thesis using view_uncached(2,3) [of 1 "klog_n n" b] cc lg by auto
  qed
  have out: "(50 :: u32) + of_nat i \<notin> log_region 2" if "i < n" for i
  proof
    assume "(50 :: u32) + of_nat i \<in> log_region 2"
    then obtain j where "j \<le> 30" "(50 :: u32) + of_nat i = 2 + of_nat j" by (auto simp: log_region_def N)
    then have "(of_nat (48 + i) :: u32) = of_nat j" by (simp add: eq_diff_eq algebra_simps)
    then show False using of_nat_inj32 [of "48 + i" j] \<open>j \<le> 30\<close> that n by simp
  qed
  have "distinct (logged (klog_n n))" unfolding lg using inj n by (auto simp: distinct_map inj_on_def)
  moreover have "set (logged (klog_n n)) \<inter> log_region 2 = {}" using out by (auto simp: lg)
  ultimately show "log_wf (klog_n n)" using wf q v n by (simp add: log_wf_def bio_ok_def F N)
  show "hdr_n (disk (klog_n n) (log_start (klog_n n))) = 0" by (simp add: F hdr_n_def get32_def)
qed

text \<open>
  C1. A commit is atomic across crashes. It returns with the logged blocks on the disk and the
  header cleared; and for every prefix of the disk writes it performs, a fresh boot that finds
  the disk in that state recovers without panicking, to a disk on which every block outside
  the log is as before the transaction, or every one is as the transaction left it.
\<close>

theorem commit_crash_atomic:
  fixes s :: "'x klog_scheme" and c :: "'y klog_scheme"
  assumes "log_wf s" and "lhn s < int NBUF" and "hdr_n (disk s (log_start s)) = 0"
  shows "\<exists>t ws. commit s = Ok () t \<and> lhn t = 0 \<and> dtrace t = dtrace s @ ws \<and> disk t = apply_writes ws (disk s) \<and>
    (\<forall>b. b \<notin> log_region (log_start s) \<longrightarrow> disk t b = blk (log_dev s) s b) \<and>
    (\<forall>k\<le>length ws. booted (log_dev s) c \<and> log_start c = log_start s \<and> disk c = apply_writes (take k ws) (disk s) \<longrightarrow>
       (\<exists>u. recover_from_log c = Ok () u \<and> hdr_n (disk u (log_start s)) = 0 \<and>
          ((\<forall>b. b \<notin> log_region (log_start s) \<longrightarrow> disk u b = disk s b) \<or>
           (\<forall>b. b \<notin> log_region (log_start s) \<longrightarrow> disk u b = blk (log_dev s) s b))))"
proof -
  let ?d = "log_dev s" and ?st = "log_start s"
  let ?ws = "commit_writes ?d s"
  from commit_spec [OF assms(1,2)] obtain t where t: "commit s = Ok () t" "lhn t = 0"
    "dtrace t = dtrace s @ ?ws" "disk t = apply_writes ?ws (disk s)" "blk ?d t = apply_writes ?ws (blk ?d s)"
    "bio_ok ?d t" "\<forall>b. pin ?d t b = 0" by blast
  have fin: "disk t b = blk ?d s b" if b: "b \<notin> log_region ?st" for b
  proof (cases "b \<in> fst ` set ?ws")
    case True
    then have "b \<in> set (logged s)"
      using b region_slot(2) [of ?st] log_writes_keys [of "nat (lhn s)" ?d s] assms(1)
      by (fastforce simp: commit_writes_def Let_def log_wf_def split: if_splits)
    then have "apply_writes ?ws f b = blk ?d s b" for f
      using b region_slot(2) [of ?st] apply_writes_last [of "map (\<lambda>b. (b, blk ?d s b)) (logged s)" b "blk ?d s b"] assms(1)
      by (cases "nat (lhn s) = 0") (auto simp: commit_writes_def Let_def log_wf_def comp_def logged_def)
    then show ?thesis using t(4) by simp
  next
    case False
    have "disk t b = disk s b" unfolding t(4) by (rule apply_writes_other [OF False])
    moreover have "blk ?d t b = blk ?d s b" unfolding t(5) by (rule apply_writes_other [OF False])
    moreover have "blk ?d t b = disk t b" using bio_clean [OF bio_okD(2) [OF t(6)]] t(7) by blast
    ultimately show ?thesis by simp
  qed
  have "\<exists>u. recover_from_log c = Ok () u \<and> hdr_n (disk u ?st) = 0 \<and>
          ((\<forall>b. b \<notin> log_region ?st \<longrightarrow> disk u b = disk s b) \<or> (\<forall>b. b \<notin> log_region ?st \<longrightarrow> disk u b = blk ?d s b))"
    if k: "k \<le> length ?ws" and c: "booted ?d c" "log_start c = ?st" "disk c = apply_writes (take k ?ws) (disk s)" for k
  proof -
    note V = crash_view [OF assms(1,3) k]
    obtain u where u: "recover_from_log c = Ok () u" "hdr_n (disk u ?st) = 0"
      "\<And>b. b \<noteq> ?st \<Longrightarrow> disk u b = log_recover ?st (disk c) b"
      using recover_spec [OF c(1)] V c by (auto simp: c(2,3))
    have "disk u b = log_recover ?st (disk c) b" if "b \<notin> log_region ?st" for b
      using u(3) that region_slot(2) by metis
    then show ?thesis using u(1,2) V c(3) by auto
  qed
  then show ?thesis using t(1-4) fin by blast
qed

theorem commit_crash_atomic_witness:
  "\<exists>t. commit (klog_n 1) = Ok () t \<and> lhn t = 0 \<and> disk t 50 = replicate 1024 7"
proof -
  have wf: "log_wf (klog_n 1)" "hdr_n (disk (klog_n 1) (log_start (klog_n 1))) = 0" using klog_n_wf [of 1] by simp_all
  have "lhn (klog_n 1) < int NBUF" by (simp add: klog_n_fields NBUF_def MAXOPBLOCKS_def)
  with commit_crash_atomic [OF wf(1) _ wf(2)] obtain t where "commit (klog_n 1) = Ok () t" "lhn t = 0"
    "\<forall>b. b \<notin> log_region (log_start (klog_n 1)) \<longrightarrow> disk t b = blk (log_dev (klog_n 1)) (klog_n 1) b"
    by blast
  moreover have lg: "logged (klog_n 1) = [50]"
    by (simp add: logged_def klog_n_fields LOGBLOCKS_def MAXOPBLOCKS_def upt_conv_Cons)
  then have "(50 :: u32) \<notin> log_region (log_start (klog_n 1))"
    using wf(1) by (auto simp: log_wf_def)
  moreover have "blk 1 (klog_n 1) 50 = replicate 1024 7"
  proof -
    have ok: "bio_wf 1 (klog_n 1)" using wf(1) by (simp add: log_wf_def bio_ok_def klog_n_fields)
    have c: "cached 1 (klog_n 1) 0 50" by (simp add: cached_def klog_n_fields NBUF_def MAXOPBLOCKS_def)
    from view_cached(1) [OF ok c] show ?thesis by (simp add: klog_n_fields NBUF_def MAXOPBLOCKS_def)
  qed
  ultimately show ?thesis by (auto simp: klog_n_fields)
qed

text \<open>A log of \<^verbatim>\<open>LOGBLOCKS\<close> blocks pins every buffer of the cache.\<close>

lemma pinned_all:
  assumes wf: "bio_wf d s" and c: "card {b. 0 < pin d s b} = NBUF"
  shows "\<forall>i<NBUF. brefcnt (bufs s ! i) \<noteq> 0"
proof (rule ccontr)
  let ?I = "{i. i < NBUF \<and> brefcnt (bufs s ! i) \<noteq> 0}"
  assume "\<not> (\<forall>i<NBUF. brefcnt (bufs s ! i) \<noteq> 0)"
  then have "?I \<subset> {..<NBUF}" by auto
  then have lt: "card ?I < NBUF" using psubset_card_mono [of "{..<NBUF}" ?I] by simp
  have "{b. 0 < pin d s b} \<subseteq> (\<lambda>i. bblockno (bufs s ! i)) ` ?I"
  proof
    fix b assume "b \<in> {b. 0 < pin d s b}"
    then have p: "0 < pin d s b" by simp
    then obtain i where i: "cached d s i b" using view_uncached(2) [of d s b] by auto
    then have "brefcnt (bufs s ! i) \<noteq> 0" using view_cached(2) [OF wf i] p by auto
    then show "b \<in> (\<lambda>i. bblockno (bufs s ! i)) ` ?I" using i wf_table(1) [OF wf] by (auto simp: cached_def)
  qed
  then have "card {b. 0 < pin d s b} \<le> card ?I" by (rule surj_card_le [rotated]) simp
  then show False using lt c by simp
qed

lemma commit_full_panics:
  fixes s :: "'x klog_scheme"
  assumes wf: "log_wf s" and full: "lhn s = int LOGBLOCKS"
  shows "commit s = Panic ''bget: no buffers''"
proof -
  let ?d = "log_dev s" and ?l = "log_start s + of_nat 0 + 1"
  have W: "bio_ok ?d s" "distinct (logged s)" "length (lhblock s) = LOGBLOCKS"
    "set (logged s) \<inter> log_region (log_start s) = {}"
    "\<forall>b. pin ?d s b = (if b \<in> set (logged s) then 1 else 0)"
    using wf by (auto simp: log_wf_def)
  note ok = bio_okD(2) [OF W(1)]
  have "length (logged s) = NBUF" using full W(3) by (simp add: logged_def LOGBLOCKS_def NBUF_def)
  then have all: "\<forall>i<NBUF. brefcnt (bufs s ! i) \<noteq> 0" using pinned_all [OF ok] pin_card [OF W(5,2)] by simp
  have "?l \<in> log_region (log_start s)" by (rule region_slot(1)) (simp add: LOGBLOCKS_def MAXOPBLOCKS_def)
  then have p: "pin ?d s ?l = 0" using W(4,5) by auto
  have "\<not> cached ?d s i ?l" for i
  proof
    assume c: "cached ?d s i ?l"
    then have "brefcnt (bufs s ! i) \<noteq> 0" using all wf_table(1) [OF ok] by (simp add: cached_def)
    then show False using view_cached(2) [OF ok c] p by (simp add: unat_eq_0)
  qed
  then have "bread ?d ?l s = Panic ''bget: no buffers''"
    using bget_full [OF W(1) _ all] by (simp add: bread_def)
  moreover have "[0..<LOGBLOCKS] = 0 # [1..<LOGBLOCKS]"
    by (simp add: upt_conv_Cons LOGBLOCKS_def MAXOPBLOCKS_def)
  ultimately show ?thesis
    using full by (simp add: commit_def write_log_def write_log_one_def LOGBLOCKS_def MAXOPBLOCKS_def)
qed

text \<open>
  C39. When the log is full, with \<^verbatim>\<open>LOGBLOCKS\<close> distinct blocks, a commit panics with "no buffers":
  every one of the \<^verbatim>\<open>NBUF\<close> buffers of the cache is pinned by a logged block, and \<^verbatim>\<open>write_log\<close>
  needs one more for the log block it writes.
\<close>

theorem commit_full_log_panics:
  fixes s :: "'x klog_scheme"
  assumes "log_wf s" and "lhn s = int LOGBLOCKS"
  shows "commit s = Panic ''bget: no buffers''"
  by (rule commit_full_panics [OF assms])

theorem commit_full_log_panics_witness: "commit (klog_n 30) = Panic ''bget: no buffers''"
  by (rule commit_full_log_panics) (use klog_n_wf [of 30] in \<open>simp_all add: klog_n_fields LOGBLOCKS_def MAXOPBLOCKS_def\<close>)

end
