(* ===== verification/Log_Space.thy ===== *)
theory Log_Space
  imports Log
begin

text \<open>
  The reservation scheme of \<^verbatim>\<open>begin_op\<close>: an operation may log at most \<^verbatim>\<open>MAXOPBLOCKS\<close> new blocks,
  and is admitted only if the log has room for that much on behalf of every operation in
  progress. Here the operations of concurrent system calls are interleaved as steps; the theorem
  is that \<^verbatim>\<open>log_write\<close> never finds the log full.
\<close>

section \<open>What the buffer cache leaves alone\<close>

named_theorems logkeeps \<open>an operation leaves the in-memory log alone\<close>

definition lg :: "int \<times> u32 list \<times> int \<times> bool \<Rightarrow> 'x klog_scheme \<Rightarrow> bool" where
  "lg z s \<longleftrightarrow> z = (lhn s, lhblock s, log_outstanding s, log_committing s)"

lemma lg_updates [simp]:
  "lg z (s\<lparr>held := h\<rparr>) = lg z s" "lg z (s\<lparr>outp := oo\<rparr>) = lg z s" "lg z (s\<lparr>slocks := sl\<rparr>) = lg z s"
  "lg z (s\<lparr>bufs := bs\<rparr>) = lg z s" "lg z (s\<lparr>blru := l\<rparr>) = lg z s" "lg z (s\<lparr>disk := d\<rparr>) = lg z s"
  "lg z (s\<lparr>dtrace := tr\<rparr>) = lg z s" "lg z (upd_slock sl' g s) = lg z s" "lg z (upd_buf i f s) = lg z s"
  "lg z (set_bdata i d' s) = lg z s" "lg z (kprint m s) = lg z s" "lg z (upd_proc p q s) = lg z s"
  by (simp_all add: lg_def upd_slock_def upd_buf_def set_bdata_def kprint_def upd_proc_def)

lemma lg_locks [logkeeps]: "lg z s \<Longrightarrow> post (lg z) (acquire l s)" "lg z s \<Longrightarrow> post (lg z) (release l s)"
  by (simp_all add: acquire_def release_def)

lemma lg_printf [logkeeps]: "lg z s \<Longrightarrow> post (lg z) (printf f as s)"
  by (auto simp: printf_def intro!: post_bnd logkeeps split: option.split)

lemma lg_wakeup [logkeeps]: "lg z s \<Longrightarrow> post (lg z) (wakeup c s)"
  by (auto simp: wakeup_def wakeup_one_def Let_def intro!: post_foreach post_bnd logkeeps)

lemma lg_sleep [logkeeps]: "lg z s \<Longrightarrow> post (lg z) (sleep c lk s)"
  by (auto simp: sleep_def sched_def with_myproc_def Let_def intro!: post_bnd logkeeps split: option.split)

lemma lg_acquiresleep [logkeeps]: "lg z s \<Longrightarrow> post (lg z) (acquiresleep l s)"
  by (auto simp: acquiresleep_def acquiresleep_loop_def with_myproc_def Let_def intro!: post_bnd logkeeps split: option.split)

lemma lg_releasesleep [logkeeps]: "lg z s \<Longrightarrow> post (lg z) (releasesleep l s)"
  by (auto simp: releasesleep_def Let_def intro!: post_bnd logkeeps split: option.split)

lemma lg_holdingsleep [logkeeps]: "lg z s \<Longrightarrow> post (lg z) (holdingsleep l s)"
  by (auto simp: holdingsleep_def with_myproc_def Let_def intro!: post_bnd logkeeps split: option.split)

lemma lg_disk_rw [logkeeps]: "lg z s \<Longrightarrow> post (lg z) (disk_rw i wr s)"
  by (auto simp: disk_rw_def with_myproc_def Let_def intro!: post_bnd logkeeps split: option.split)

lemma lg_bget [logkeeps]: "lg z s \<Longrightarrow> post (lg z) (bget d b s)"
  by (auto simp: bget_def Let_def intro!: post_bnd logkeeps split: option.split)

lemma lg_bread [logkeeps]: "lg z s \<Longrightarrow> post (lg z) (bread d b s)"
  by (auto simp: bread_def Let_def intro!: post_bnd logkeeps split: option.split)

lemma lg_bwrite [logkeeps]: "lg z s \<Longrightarrow> post (lg z) (bwrite i s)"
  by (auto simp: bwrite_def Let_def intro!: post_bnd logkeeps split: option.split)

lemma lg_brelse [logkeeps]: "lg z s \<Longrightarrow> post (lg z) (brelse i s)"
  by (auto simp: brelse_def Let_def intro!: post_bnd logkeeps split: option.split)

lemma lg_bpin [logkeeps]: "lg z s \<Longrightarrow> post (lg z) (bpin i s)"
  by (auto simp: bpin_def Let_def intro!: post_bnd logkeeps split: option.split)

lemma lg_bunpin [logkeeps]: "lg z s \<Longrightarrow> post (lg z) (bunpin i s)"
  by (auto simp: bunpin_def Let_def intro!: post_bnd logkeeps split: option.split)

lemma lg_install_one [logkeeps]: "lg z s \<Longrightarrow> post (lg z) (install_one r i s)"
  by (auto simp: install_one_def Let_def intro!: post_bnd logkeeps split: option.split)

lemma lg_install_trans [logkeeps]: "lg z s \<Longrightarrow> post (lg z) (install_trans r s)"
  by (auto simp: install_trans_def Let_def intro!: post_foreach post_bnd logkeeps split: option.split)

lemma lg_write_head [logkeeps]: "lg z s \<Longrightarrow> post (lg z) (write_head s)"
  by (auto simp: write_head_def oob_def Let_def intro!: post_bnd logkeeps split: option.split)

lemma lg_write_log [logkeeps]: "lg z s \<Longrightarrow> post (lg z) (write_log s)"
  by (auto simp: write_log_def write_log_one_def Let_def intro!: post_foreach post_bnd logkeeps split: option.split)

section \<open>The operations on the header\<close>

text \<open>
  \<open>res_ok n v s\<close>: \<open>v\<close> operations are in progress and the log holds no more than \<open>n\<close> blocks.
\<close>

definition res_ok :: "int \<Rightarrow> int \<Rightarrow> 'x klog_scheme \<Rightarrow> bool" where
  "res_ok n v s \<longleftrightarrow> 0 \<le> lhn s \<and> lhn s \<le> n \<and> log_outstanding s = v"

lemma res_ok_lg: "res_ok n v s \<longleftrightarrow> (\<exists>m bl c. 0 \<le> m \<and> m \<le> n \<and> lg (m, bl, v, c) s)"
  by (auto simp: res_ok_def lg_def)

lemma res_ok_keep:
  assumes "\<And>z. lg z s \<Longrightarrow> post (lg z) r" and "res_ok n v s" shows "post (res_ok n v) r"
proof -
  have "post (lg (lhn s, lhblock s, log_outstanding s, log_committing s)) r"
    by (rule assms(1)) (simp add: lg_def)
  then show ?thesis by (rule post_mono) (use assms(2) in \<open>auto simp: lg_def res_ok_def\<close>)
qed

lemmas res_ok_keeps = logkeeps [THEN res_ok_keep]

lemma res_ok_zero: "res_ok n v s \<Longrightarrow> 0 \<le> n \<Longrightarrow> res_ok n v (s\<lparr>lhn := 0\<rparr>)"
  by (simp add: res_ok_def)

lemma res_ok_committing [simp]: "res_ok n v (s\<lparr>log_committing := c\<rparr>) = res_ok n v s"
  by (simp add: res_ok_def)

lemma commit_res_ok: "res_ok n v s \<Longrightarrow> post (res_ok n v) (commit s)"
  unfolding commit_def
  by (auto intro!: post_bnd res_ok_keeps res_ok_zero) (auto simp: res_ok_def)

lemma res_ok_outside [simp]:
  "res_ok n v (s\<lparr>held := h\<rparr>) = res_ok n v s"
  "res_ok n v (s\<lparr>log_outstanding := u\<rparr>) \<longleftrightarrow> 0 \<le> lhn s \<and> lhn s \<le> n \<and> u = v"
  by (auto simp: res_ok_def)

lemma end_op_res_ok: "res_ok n v s \<Longrightarrow> post (res_ok n (v - 1)) (end_op s)"
proof -
  assume r: "res_ok n v s"
  then have b: "0 \<le> lhn s" "lhn s \<le> n" "log_outstanding s = v" by (simp_all add: res_ok_def)
  show ?thesis
    unfolding end_op_def acquire_def Let_def
    by (auto intro!: post_bnd commit_res_ok res_ok_keeps simp: b)
qed

lemma lg_sleep_resume [logkeeps]: "lg z s \<Longrightarrow> post (lg z) (sleep_resume lk s)"
  by (auto simp: sleep_resume_def with_myproc_def Let_def intro!: post_bnd logkeeps split: option.split)

text \<open>An admitted operation found room for itself and every operation before it.\<close>

lemma sleep_not_Ok: "sleep c lk s \<noteq> Ok u t"
  by (auto simp: sleep_def with_myproc_def sched_def bnd_def split: option.split res.split)

definition admits :: "int \<Rightarrow> int \<Rightarrow> 'x klog_scheme \<Rightarrow> bool" where
  "admits n v t \<longleftrightarrow> lhn t = n \<and> log_outstanding t = v + 1 \<and> n + (v + 1) * int MAXOPBLOCKS \<le> int LOGBLOCKS"

lemma begin_op_loop_lg:
  assumes "lg (n, bl, v, c) s"
  shows "begin_op_loop s = Ok u t \<Longrightarrow> admits n v t" "begin_op_loop s = Block ch t \<Longrightarrow> lg (n, bl, v, c) t"
proof -
  have v: "lhn s = n" "log_outstanding s = v" using assms by (simp_all add: lg_def)
  show "begin_op_loop s = Ok u t \<Longrightarrow> admits n v t"
    by (auto simp: begin_op_loop_def sleep_not_Ok release_def admits_def v split: if_splits)
  have "post (lg (n, bl, v, c)) (sleep ChLog LogLock s)" by (rule logkeeps assms)+
  then show "begin_op_loop s = Block ch t \<Longrightarrow> lg (n, bl, v, c) t"
    by (auto simp: begin_op_loop_def release_def split: if_splits)
qed

lemma lg_self: "lg (lhn s, lhblock s, log_outstanding s, log_committing s) s"
  by (simp add: lg_def)

lemma begin_op_lg:
  assumes "lg (n, bl, v, c) s"
  shows "begin_op s = Ok u t \<Longrightarrow> admits n v t" "begin_op s = Block ch t \<Longrightarrow> lg (n, bl, v, c) t"
  using begin_op_loop_lg [of n bl v c "s\<lparr>held := LogLock # held s\<rparr>"] assms
  by (auto simp: begin_op_def acquire_def split: if_splits)

lemma begin_op_resume_lg:
  assumes "lg (n, bl, v, c) s"
  shows "begin_op_resume s = Ok u t \<Longrightarrow> admits n v t" "begin_op_resume s = Block ch t \<Longrightarrow> lg (n, bl, v, c) t"
proof -
  have r: "post (lg (n, bl, v, c)) (sleep_resume LogLock s)" by (rule logkeeps assms)+
  show "begin_op_resume s = Ok u t \<Longrightarrow> admits n v t" "begin_op_resume s = Block ch t \<Longrightarrow> lg (n, bl, v, c) t"
    using r begin_op_loop_lg by (auto simp: begin_op_resume_def bnd_def split: res.splits)
qed

lemma log_write_counts:
  assumes "log_write i s = Ok u t"
  shows "log_outstanding t = log_outstanding s \<and> (lhn t = lhn s \<or> lhn t = lhn s + 1)"
  using assms
  by (auto simp: log_write_def bpin_def acquire_def release_def upd_buf_def Let_def bnd_def split: if_splits res.splits)

lemma log_write_panics:
  "lhn s < int LOGBLOCKS \<Longrightarrow> 0 < log_outstanding s \<Longrightarrow>
    log_write i s \<noteq> Panic ''too big a transaction'' \<and> log_write i s \<noteq> Panic ''log_write outside of trans''"
  by (auto simp: log_write_def bpin_def acquire_def release_def upd_buf_def Let_def bnd_def split: if_splits res.splits)

section \<open>Operations in progress\<close>

text \<open>
  A state of the log together with what each operation in progress may still add to it. A step is
  a call by one of the operations, or anything else the kernel does that adds nothing to the log
  (the rest of a commit that slept empties it).
\<close>

inductive log_step :: "'x klog_scheme \<times> nat list \<Rightarrow> 'x klog_scheme \<times> nat list \<Rightarrow> bool" where
  begins: "begin_op s = Ok u t \<Longrightarrow> log_step (s, B) (t, MAXOPBLOCKS # B)"
| begin_waits: "begin_op s = Block c t \<Longrightarrow> log_step (s, B) (t, B)"
| resumes: "begin_op_resume s = Ok u t \<Longrightarrow> log_step (s, B) (t, MAXOPBLOCKS # B)"
| resume_waits: "begin_op_resume s = Block c t \<Longrightarrow> log_step (s, B) (t, B)"
| absorbs: "log_write i s = Ok u t \<Longrightarrow> lhn t = lhn s \<Longrightarrow> log_step (s, xs @ Suc b # ys) (t, xs @ Suc b # ys)"
| adds: "log_write i s = Ok u t \<Longrightarrow> lhn t \<noteq> lhn s \<Longrightarrow> log_step (s, xs @ Suc b # ys) (t, xs @ b # ys)"
| ends: "end_op s = Ok u t \<Longrightarrow> log_step (s, xs @ b # ys) (t, xs @ ys)"
| end_sleeps: "end_op s = Block c t \<Longrightarrow> log_step (s, xs @ b # ys) (t, xs @ ys)"
| others: "0 \<le> lhn t \<Longrightarrow> lhn t \<le> lhn s \<Longrightarrow> log_outstanding t = log_outstanding s \<Longrightarrow> log_step (s, B) (t, B)"

text \<open>The log has room for all that the operations in progress may still add.\<close>

definition reserved :: "'x klog_scheme \<times> nat list \<Rightarrow> bool" where
  "reserved z \<longleftrightarrow> (case z of (s, B) \<Rightarrow> 0 \<le> lhn s \<and> log_outstanding s = int (length B) \<and>
     list_all (\<lambda>b. b \<le> MAXOPBLOCKS) B \<and> lhn s + int (sum_list B) \<le> int LOGBLOCKS)"

lemma sum_list_le: "list_all (\<lambda>b. b \<le> m) B \<Longrightarrow> sum_list B \<le> length B * (m :: nat)"
  by (induction B) auto

lemma reserved_admit:
  assumes "reserved (s, B)" "admits (lhn s) (log_outstanding s) t"
  shows "reserved (t, MAXOPBLOCKS # B)"
proof -
  have "int (sum_list B) \<le> int (length B) * int MAXOPBLOCKS"
    using assms(1) sum_list_le [of MAXOPBLOCKS B] by (simp add: reserved_def flip: of_nat_mult)
  then show ?thesis using assms by (auto simp: reserved_def admits_def algebra_simps)
qed

lemma reserved_end:
  assumes r: "reserved (s, xs @ b # ys)" and p: "post (res_ok (lhn s) (log_outstanding s - 1)) r"
    and t: "r = Ok u t \<or> r = Block c t"
  shows "reserved (t, xs @ ys)"
proof -
  have "res_ok (lhn s) (log_outstanding s - 1) t" using p t by auto
  then show ?thesis using r by (auto simp: reserved_def res_ok_def)
qed

lemma reserved_step: "log_step y z \<Longrightarrow> reserved y \<Longrightarrow> reserved z"
proof (induction rule: log_step.induct)
  case (begins s u t B)
  then show ?case using reserved_admit begin_op_lg(1) [OF lg_self] by blast
next
  case (begin_waits s c t B)
  then show ?case using begin_op_lg(2) [OF lg_self, of s c t] by (simp add: reserved_def lg_def)
next
  case (resumes s u t B)
  then show ?case using reserved_admit begin_op_resume_lg(1) [OF lg_self] by blast
next
  case (resume_waits s c t B)
  then show ?case using begin_op_resume_lg(2) [OF lg_self, of s c t] by (simp add: reserved_def lg_def)
next
  case (absorbs i s u t xs b ys)
  then show ?case using log_write_counts [OF absorbs(1)] by (simp add: reserved_def)
next
  case (adds i s u t xs b ys)
  then show ?case using log_write_counts [OF adds(1)] by (auto simp: reserved_def)
next
  case (ends s u t xs b ys)
  have "res_ok (lhn s) (log_outstanding s) s" using ends(2) by (simp add: reserved_def res_ok_def)
  then show ?case using reserved_end [OF ends(2) end_op_res_ok] ends(1) by blast
next
  case (end_sleeps s c t xs b ys)
  have "res_ok (lhn s) (log_outstanding s) s" using end_sleeps(2) by (simp add: reserved_def res_ok_def)
  then show ?case using reserved_end [OF end_sleeps(2) end_op_res_ok] end_sleeps(1) by blast
next
  case (others t s B)
  then show ?case by (auto simp: reserved_def)
qed

lemma reserved_run: "log_step\<^sup>*\<^sup>* y z \<Longrightarrow> reserved y \<Longrightarrow> reserved z"
  by (induction rule: rtranclp_induct) (auto intro: reserved_step)

lemma reserved_start: "lhn s = 0 \<Longrightarrow> log_outstanding s = 0 \<Longrightarrow> reserved (s, [])"
  by (simp add: reserved_def)

lemma reserved_room:
  "reserved (s, xs @ Suc b # ys) \<Longrightarrow> lhn s < int LOGBLOCKS \<and> 0 < log_outstanding s"
  by (auto simp: reserved_def)

section \<open>Properties\<close>

text \<open>C6. Whatever the interleaving of operations, a log_write by an operation that has not used up
  its MAXOPBLOCKS blocks finds room in the log and a transaction to be part of: neither of the two
  panics of log_write can happen.\<close>

theorem log_write_has_room:
  assumes "log_step\<^sup>*\<^sup>* (s0, []) (s, xs @ Suc b # ys)" "lhn s0 = 0" "log_outstanding s0 = 0"
  shows "log_write i s \<noteq> Panic ''too big a transaction'' \<and> log_write i s \<noteq> Panic ''log_write outside of trans''"
  using reserved_room [OF reserved_run [OF assms(1) reserved_start [OF assms(2,3)]]]
  by (simp add: log_write_panics)

theorem log_write_has_room_witness:
  "\<exists>t. begin_op (klog_n 0) = Ok () t \<and> log_write 0 t \<noteq> Panic ''too big a transaction'' \<and>
     log_write 0 t \<noteq> Panic ''log_write outside of trans''"
proof -
  have f: "lhn (klog_n 0) = 0" "log_outstanding (klog_n 0) = 0" "log_committing (klog_n 0) = False" "held (klog_n 0) = []"
    by (simp_all add: klog_n_fields) (simp_all add: klog_n_def kproc.extend_def)
  then obtain t where t: "begin_op (klog_n 0) = Ok () t"
    by (simp add: begin_op_def begin_op_loop_def release_def holding_def MAXOPBLOCKS_def LOGBLOCKS_def)
  have "log_step\<^sup>*\<^sup>* (klog_n 0, []) (t, [] @ Suc 9 # [])"
    using log_step.begins [OF t, of "[]"] by (simp add: MAXOPBLOCKS_def)
  then show ?thesis using t log_write_has_room [OF _ f(1,2), of t "[]" 9 "[]"] by blast
qed

end
