(* ===== verification/Bio_Cache.thy ===== *)
theory Bio_Cache
  imports Log
begin

text \<open>
  The buffer cache seen from its callers: reading a block gives its current content, whether it comes
  from a buffer or from the disk, and never changes what any block holds.
\<close>

text \<open>A reference for every buffer: otherwise a buffer can be recycled.\<close>

lemma all_pinned:
  assumes wf: "bio_wf d s" and c: "NBUF \<le> card {b. 0 < pin d s b}"
  shows "\<forall>i<NBUF. brefcnt (bufs s ! i) \<noteq> 0"
proof (intro allI impI notI)
  fix i assume i: "i < NBUF" and z: "brefcnt (bufs s ! i) = 0"
  let ?f = "\<lambda>i. bblockno (bufs s ! i)"
  have "{b. 0 < pin d s b} \<subseteq> ?f ` ({..<NBUF} - {i})"
  proof
    fix b assume b: "b \<in> {b. 0 < pin d s b}"
    then obtain j where j: "cached d s j b" using view_uncached(2) [of d s b] by auto
    then have "brefcnt (bufs s ! j) \<noteq> 0" using view_cached(2) [OF wf j] b by (auto simp: unat_gt_0)
    then have "j \<noteq> i" using z by auto
    then show "b \<in> ?f ` ({..<NBUF} - {i})" using j wf_table(1) [OF wf] by (auto simp: cached_def)
  qed
  then have "card {b. 0 < pin d s b} \<le> card (?f ` ({..<NBUF} - {i}))" by (intro card_mono) auto
  also have "\<dots> \<le> card ({..<NBUF} - {i})" by (intro card_image_le) auto
  also have "\<dots> < NBUF" using i by simp
  finally show False using c by simp
qed

text \<open>C8. The buffer cache is well typed and transparent: bread of a block nobody has locked returns
  a locked, valid buffer with the block's current content, and afterwards, as after giving it back with
  brelse, no two buffers are for one block, the LRU list is a permutation of the buffers, unreferenced
  buffers agree with the disk, and every block holds what it held; it panics only when every buffer is
  referenced.\<close>

theorem bcache_transparent:
  assumes "bio_ok d s" "\<not> busy d s b" "pin d s b < 2 ^ 31"
  shows "bread d b s = Panic ''bget: no buffers'' \<and> (\<forall>i<NBUF. brefcnt (bufs s ! i) \<noteq> 0) \<or>
    (\<exists>i t u. bread d b s = Ok i t \<and> bio_ok d t \<and> handle d t i b \<and> bdata (bufs t ! i) = blk d s b \<and> blk d t = blk d s \<and>
       disk t = disk s \<and> brelse i t = Ok () u \<and> bio_ok d u \<and> blk d u = blk d s \<and> pin d u = pin d s \<and> busy d u = busy d s)"
proof (cases "0 < pin d s b \<or> card {c. 0 < pin d s c} < NBUF")
  case True
  obtain i t where t: "bread d b s = Ok i t" "io_eff d s t b (blk d s b) (pin d s b + 1) True []" "handle d t i b"
    using bread_spec [OF assms(1,2) True assms(3)] by blast
  have T: "bio_ok d t" "blk d t = blk d s" "pin d t = (pin d s)(b := pin d s b + 1)" "busy d t = (busy d s)(b := True)" "disk t = disk s"
    using t(2) by (simp_all add: io_eff_def)
  have cl: "1 < pin d t b \<or> blk d t b = disk t b" using T bio_clean [OF bio_okD(2) [OF assms(1)], of b] by auto
  obtain u where u: "brelse i t = Ok () u" "io_eff d t u b (blk d t b) (pin d t b - 1) False []"
    using brelse_spec [OF T(1) t(3) cl] by blast
  have "bio_ok d u" "blk d u = blk d s" "pin d u = pin d s" "busy d u = busy d s"
    using u(2) T assms(2) by (simp_all add: io_eff_def fun_eq_iff)
  moreover have "bdata (bufs t ! i) = blk d s b" using handle_view(1) [OF bio_okD(2) [OF T(1)] t(3)] T(2) by simp
  ultimately show ?thesis using t(1,3) T(1,2,5) u(1) by blast
next
  case False
  then have all: "\<forall>i<NBUF. brefcnt (bufs s ! i) \<noteq> 0" using all_pinned [OF bio_okD(2) [OF assms(1)]] by simp
  have "\<forall>i. \<not> cached d s i b"
  proof (intro allI notI)
    fix i assume c: "cached d s i b"
    have "brefcnt (bufs s ! i) \<noteq> 0" using all c wf_table(1) [OF bio_okD(2) [OF assms(1)]] by (simp add: cached_def)
    then show False using view_cached(2) [OF bio_okD(2) [OF assms(1)] c] False by (simp add: unat_gt_0)
  qed
  then have "bget d b s = Panic ''bget: no buffers''" using bget_full [OF assms(1)] all by blast
  then show ?thesis using all by (simp add: bread_def)
qed

text \<open>Two of the thirty buffers are in use, block 60 is in none.\<close>

theorem bcache_transparent_witness:
  "\<exists>i t. bread 1 60 (klog_n 2) = Ok i t \<and> bdata (bufs t ! i) = replicate 1024 0 \<and> bio_ok 1 t"
proof -
  let ?s = "klog_n 2"
  have ok: "bio_ok 1 ?s" using klog_n_wf(1) [of 2] by (simp add: log_wf_def klog_n_fields)
  have c: "\<not> cached 1 ?s i 60" for i
    by (auto simp: cached_def klog_n_fields buf_unused_def NBUF_def MAXOPBLOCKS_def dest!: less_2_cases)
  then have v: "\<not> busy 1 ?s 60" "pin 1 ?s 60 = 0" "blk 1 ?s 60 = replicate 1024 0"
    using view_uncached [of 1 ?s 60] by (simp_all add: klog_n_fields)
  have "brefcnt (bufs ?s ! 2) = 0" by (simp add: klog_n_fields NBUF_def MAXOPBLOCKS_def buf_unused_def)
  moreover have "2 < NBUF" by (simp add: NBUF_def MAXOPBLOCKS_def)
  ultimately have "\<not> (\<forall>i<NBUF. brefcnt (bufs ?s ! i) \<noteq> 0)" by blast
  then show ?thesis using bcache_transparent [OF ok v(1)] v(2,3) by auto
qed

end
