(* ===== verification/Fs.thy ===== *)
theory Fs
  imports Log
begin

text \<open>
  \<^verbatim>\<open>kernel/fs.c\<close>: the block bitmap, on-disk and in-memory inodes, file content through direct
  and indirect blocks, directories and path names. Pointers to inodes are indices of the inode
  table; a pointer that may be null is an option. The path of a lookup is the list of its bytes
  before the NUL, a name is the contents of its \<^verbatim>\<open>DIRSIZ\<close>-byte buffer.
\<close>

section \<open>State\<close>

record inode =
  i_dev :: u32
  i_inum :: u32
  i_ref :: int
  i_valid :: bool
  i_type :: u16
  i_major :: u16
  i_minor :: u16
  i_nlink :: u16
  i_size :: u32
  i_addrs :: "u32 list"

record kfs = klog +
  fsb :: superblock
  itable :: "inode list"

definition upd_inode :: "nat \<Rightarrow> (inode \<Rightarrow> inode) \<Rightarrow> 'x kfs_scheme \<Rightarrow> 'x kfs_scheme" where
  "upd_inode i f s = s\<lparr>itable := (itable s)[i := f (itable s ! i)]\<rparr>"

abbreviation inode_at :: "'x kfs_scheme \<Rightarrow> nat \<Rightarrow> inode" where
  "inode_at s i \<equiv> itable s ! i"

abbreviation buf_data :: "'x kbio_scheme \<Rightarrow> nat \<Rightarrow> u8 list" where
  "buf_data s b \<equiv> bdata (bufs s ! b)"

definition IBLOCK :: "u32 \<Rightarrow> superblock \<Rightarrow> u32" where
  "IBLOCK i sb = i div of_nat IPB + sb_inodestart sb"

definition BBLOCK :: "u32 \<Rightarrow> superblock \<Rightarrow> u32" where
  "BBLOCK b sb = b div of_nat BPB + sb_bmapstart sb"

section \<open>The super block\<close>

definition sb_of_bytes :: "u8 list \<Rightarrow> superblock" where
  "sb_of_bytes d = \<lparr>sb_magic = get32 d 0, sb_size = get32 d 4, sb_nblocks = get32 d 8, sb_ninodes = get32 d 12,
     sb_nlog = get32 d 16, sb_logstart = get32 d 20, sb_inodestart = get32 d 24, sb_bmapstart = get32 d 28\<rparr>"

definition readsb :: "u32 \<Rightarrow> 'x kfs_scheme \<Rightarrow> (unit, 'x kfs_scheme) res" where
  "readsb dev s =
     bnd (bread dev 1 s) (\<lambda>bp s. brelse bp (s\<lparr>fsb := sb_of_bytes (buf_data s bp)\<rparr>))"

section \<open>Blocks\<close>

definition bzero :: "u32 \<Rightarrow> u32 \<Rightarrow> 'x kfs_scheme \<Rightarrow> (unit, 'x kfs_scheme) res" where
  "bzero dev bno s =
     bnd (bread dev bno s) (\<lambda>bp s.
     let s = set_bdata bp (replicate BSIZE 0) s in
     bnd (log_write bp s) (\<lambda>_ s. brelse bp s))"

text \<open>Bit \<open>bi\<close> of a bitmap block.\<close>

definition bit_mask :: "nat \<Rightarrow> u8" where "bit_mask bi = push_bit (bi mod 8) 1"

definition bit_clear :: "u8 list \<Rightarrow> nat \<Rightarrow> bool" where
  "bit_clear d bi \<longleftrightarrow> d ! (bi div 8) AND bit_mask bi = 0"

text \<open>One bitmap block: the inner loop stops at the end of the block or of the file system.\<close>

definition balloc_group :: "u32 \<Rightarrow> nat \<Rightarrow> 'x kfs_scheme \<Rightarrow> (u32 option, 'x kfs_scheme) res" where
  "balloc_group dev b s =
     bnd (bread dev (BBLOCK (of_nat b) (fsb s)) s) (\<lambda>bp s.
     let d = buf_data s bp in
     case find (bit_clear d) [0..<min BPB (unat (sb_size (fsb s)) - b)] of
       Some bi \<Rightarrow>
         let s = set_bdata bp (d[bi div 8 := d ! (bi div 8) OR bit_mask bi]) s in
         bnd (log_write bp s) (\<lambda>_ s.
         bnd (brelse bp s) (\<lambda>_ s.
         bnd (bzero dev (of_nat (b + bi)) s) (\<lambda>_ s. Ok (Some (of_nat (b + bi))) s)))
     | None \<Rightarrow> bnd (brelse bp s) (\<lambda>_ s. Ok None s))"

definition balloc :: "u32 \<Rightarrow> 'x kfs_scheme \<Rightarrow> (u32, 'x kfs_scheme) res" where
  "balloc dev s =
     bnd (scan (balloc_group dev) (map (\<lambda>k. k * BPB) [0..<(unat (sb_size (fsb s)) + BPB - 1) div BPB]) s) (\<lambda>r s.
     case r of Some b \<Rightarrow> Ok b s
     | None \<Rightarrow> bnd (printf (''balloc: out of blocks'' @ [CHR 0x0A]) [] s) (\<lambda>_ s. Ok 0 s))"

definition bfree :: "u32 \<Rightarrow> u32 \<Rightarrow> 'x kfs_scheme \<Rightarrow> (unit, 'x kfs_scheme) res" where
  "bfree dev b s =
     bnd (bread dev (BBLOCK b (fsb s)) s) (\<lambda>bp s.
     let bi = unat b mod BPB; d = buf_data s bp in
     if bit_clear d bi then Panic ''freeing free block''
     else let s = set_bdata bp (d[bi div 8 := d ! (bi div 8) AND NOT (bit_mask bi)]) s in
       bnd (log_write bp s) (\<lambda>_ s. brelse bp s))"

section \<open>Inodes\<close>

definition iinit :: "'x kfs_scheme \<Rightarrow> 'x kfs_scheme" where
  "iinit s = fold (\<lambda>i. initsleeplock (SlInode i) ''inode'') [0..<NINODE] s"

text \<open>The on-disk inode at slot \<^verbatim>\<open>inum % IPB\<close> of its block: where it is, what it holds.\<close>

definition dip_off :: "u32 \<Rightarrow> nat" where
  "dip_off inum = (unat inum mod IPB) * DINODE_SIZE"

definition dip_type :: "u8 list \<Rightarrow> u32 \<Rightarrow> u16" where
  "dip_type d inum = get16 d (dip_off inum)"

definition dip_nlink :: "u8 list \<Rightarrow> u32 \<Rightarrow> u16" where
  "dip_nlink d inum = get16 d (dip_off inum + 6)"

definition dip_read :: "u8 list \<Rightarrow> u32 \<Rightarrow> inode \<Rightarrow> inode" where
  "dip_read d inum ip =
     (let k = dip_off inum in
      ip\<lparr>i_type := get16 d k, i_major := get16 d (k + 2), i_minor := get16 d (k + 4), i_nlink := get16 d (k + 6),
         i_size := get32 d (k + 8), i_addrs := map (\<lambda>j. get32 d (k + 12 + 4 * j)) [0..<NDIRECT + 1]\<rparr>)"

definition dip_bytes :: "inode \<Rightarrow> u8 list" where
  "dip_bytes ip = bytes16 (i_type ip) @ bytes16 (i_major ip) @ bytes16 (i_minor ip) @ bytes16 (i_nlink ip)
     @ bytes32 (i_size ip) @ concat (map bytes32 (i_addrs ip))"

text \<open>\<^verbatim>\<open>iget\<close> returns the table entry, \<^verbatim>\<open>idup\<close> its argument, which it is handy to ignore.\<close>

definition iget :: "u32 \<Rightarrow> u32 \<Rightarrow> 'x kfs_scheme \<Rightarrow> (nat, 'x kfs_scheme) res" where
  "iget dev inum s =
     bnd (acquire ItableLock s) (\<lambda>_ s.
     case find_idx (\<lambda>ip. 0 < i_ref ip \<and> i_dev ip = dev \<and> i_inum ip = inum) (itable s) of
       Some i \<Rightarrow>
         bnd (release ItableLock (upd_inode i (\<lambda>ip. ip\<lparr>i_ref := i_ref ip + 1\<rparr>) s)) (\<lambda>_ s. Ok i s)
     | None \<Rightarrow>
         (case find_idx (\<lambda>ip. i_ref ip = 0) (itable s) of
            None \<Rightarrow> Panic ''iget: no inodes''
          | Some i \<Rightarrow>
              bnd (release ItableLock (upd_inode i (\<lambda>ip. ip\<lparr>i_dev := dev, i_inum := inum, i_ref := 1,
                i_valid := False\<rparr>) s)) (\<lambda>_ s. Ok i s)))"

definition ialloc_one :: "u32 \<Rightarrow> u16 \<Rightarrow> nat \<Rightarrow> 'x kfs_scheme \<Rightarrow> (nat option, 'x kfs_scheme) res" where
  "ialloc_one dev typ n s =
     (let inum = of_nat n in
      bnd (bread dev (IBLOCK inum (fsb s)) s) (\<lambda>bp s.
      if dip_type (buf_data s bp) inum = 0
      then let s = set_bdata bp (put16 (patch (buf_data s bp) (dip_off inum) (replicate DINODE_SIZE 0)) (dip_off inum) typ) s
           in bnd (log_write bp s) (\<lambda>_ s.
              bnd (brelse bp s) (\<lambda>_ s.
              bnd (iget dev inum s) (\<lambda>i s. Ok (Some i) s)))
      else bnd (brelse bp s) (\<lambda>_ s. Ok None s)))"

definition ialloc :: "u32 \<Rightarrow> u16 \<Rightarrow> 'x kfs_scheme \<Rightarrow> (nat option, 'x kfs_scheme) res" where
  "ialloc dev typ s =
     bnd (scan (ialloc_one dev typ) [1..<unat (sb_ninodes (fsb s))] s) (\<lambda>r s.
     case r of Some i \<Rightarrow> Ok (Some i) s
     | None \<Rightarrow> bnd (printf (''ialloc: no inodes'' @ [CHR 0x0A]) [] s) (\<lambda>_ s. Ok None s))"

definition iupdate :: "nat \<Rightarrow> 'x kfs_scheme \<Rightarrow> (unit, 'x kfs_scheme) res" where
  "iupdate i s =
     (let ip = inode_at s i in
      bnd (bread (i_dev ip) (IBLOCK (i_inum ip) (fsb s)) s) (\<lambda>bp s.
      let s = set_bdata bp (patch (buf_data s bp) (dip_off (i_inum ip)) (dip_bytes ip)) s in
      bnd (log_write bp s) (\<lambda>_ s. brelse bp s)))"

definition idup :: "nat \<Rightarrow> 'x kfs_scheme \<Rightarrow> (nat, 'x kfs_scheme) res" where
  "idup i s =
     bnd (acquire ItableLock s) (\<lambda>_ s.
     bnd (release ItableLock (upd_inode i (\<lambda>ip. ip\<lparr>i_ref := i_ref ip + 1\<rparr>) s)) (\<lambda>_ s. Ok i s))"

definition ilock :: "nat option \<Rightarrow> 'x kfs_scheme \<Rightarrow> (unit, 'x kfs_scheme) res" where
  "ilock p s =
     (case p of None \<Rightarrow> Panic ''ilock'' | Some i \<Rightarrow>
      if i_ref (inode_at s i) < 1 then Panic ''ilock''
      else bnd (acquiresleep (SlInode i) s) (\<lambda>_ s.
        if \<not> i_valid (inode_at s i)
        then bnd (bread (i_dev (inode_at s i)) (IBLOCK (i_inum (inode_at s i)) (fsb s)) s) (\<lambda>bp s.
             let s = upd_inode i (dip_read (buf_data s bp) (i_inum (inode_at s i))) s in
             bnd (brelse bp s) (\<lambda>_ s.
             let s = upd_inode i (\<lambda>ip. ip\<lparr>i_valid := True\<rparr>) s in
             if i_type (inode_at s i) = 0 then Panic ''ilock: no type'' else Ok () s))
        else Ok () s))"

definition iunlock :: "nat option \<Rightarrow> 'x kfs_scheme \<Rightarrow> (unit, 'x kfs_scheme) res" where
  "iunlock p s =
     (case p of None \<Rightarrow> Panic ''iunlock'' | Some i \<Rightarrow>
      bnd (holdingsleep (SlInode i) s) (\<lambda>h s.
      if \<not> h \<or> i_ref (inode_at s i) < 1 then Panic ''iunlock''
      else releasesleep (SlInode i) s))"

section \<open>Inode content\<close>

text \<open>Where block \<open>bn\<close> of the file lives; a missing block is allocated, 0 means the disk is full.\<close>

definition bmap :: "nat \<Rightarrow> u32 \<Rightarrow> 'x kfs_scheme \<Rightarrow> (u32, 'x kfs_scheme) res" where
  "bmap i bn s =
     (let dev = i_dev (inode_at s i); n = unat bn in
      if n < NDIRECT
      then let addr = i_addrs (inode_at s i) ! n in
        if addr = 0
        then bnd (balloc dev s) (\<lambda>addr s.
             if addr = 0 then Ok 0 s
             else Ok addr (upd_inode i (\<lambda>ip. ip\<lparr>i_addrs := (i_addrs ip)[n := addr]\<rparr>) s))
        else Ok addr s
      else let n = n - NDIRECT in
      if n < NINDIRECT
      then bnd (if i_addrs (inode_at s i) ! NDIRECT = 0
                then bnd (balloc dev s) (\<lambda>addr s.
                     if addr = 0 then Ok 0 s
                     else Ok addr (upd_inode i (\<lambda>ip. ip\<lparr>i_addrs := (i_addrs ip)[NDIRECT := addr]\<rparr>) s))
                else Ok (i_addrs (inode_at s i) ! NDIRECT) s) (\<lambda>ind s.
           if ind = 0 then Ok 0 s
           else bnd (bread dev ind s) (\<lambda>bp s.
                let addr = get32 (buf_data s bp) (4 * n) in
                bnd (if addr = 0
                     then bnd (balloc dev s) (\<lambda>addr s.
                          if addr \<noteq> 0
                          then bnd (log_write bp (set_bdata bp (put32 (buf_data s bp) (4 * n) addr) s)) (\<lambda>_ s. Ok addr s)
                          else Ok addr s)
                     else Ok addr s) (\<lambda>addr s.
                bnd (brelse bp s) (\<lambda>_ s. Ok addr s))))
      else Panic ''bmap: out of range'')"

definition itrunc :: "nat \<Rightarrow> 'x kfs_scheme \<Rightarrow> (unit, 'x kfs_scheme) res" where
  "itrunc i s =
     (let dev = i_dev (inode_at s i) in
      bnd (foreach (\<lambda>k s.
             if i_addrs (inode_at s i) ! k \<noteq> 0
             then bnd (bfree dev (i_addrs (inode_at s i) ! k) s) (\<lambda>_ s.
                  Ok () (upd_inode i (\<lambda>ip. ip\<lparr>i_addrs := (i_addrs ip)[k := 0]\<rparr>) s))
             else Ok () s) [0..<NDIRECT] s) (\<lambda>_ s.
      bnd (if i_addrs (inode_at s i) ! NDIRECT \<noteq> 0
           then bnd (bread dev (i_addrs (inode_at s i) ! NDIRECT) s) (\<lambda>bp s.
                bnd (foreach (\<lambda>j s.
                       if get32 (buf_data s bp) (4 * j) \<noteq> 0 then bfree dev (get32 (buf_data s bp) (4 * j)) s
                       else Ok () s) [0..<NINDIRECT] s) (\<lambda>_ s.
                bnd (brelse bp s) (\<lambda>_ s.
                bnd (bfree dev (i_addrs (inode_at s i) ! NDIRECT) s) (\<lambda>_ s.
                Ok () (upd_inode i (\<lambda>ip. ip\<lparr>i_addrs := (i_addrs ip)[NDIRECT := 0]\<rparr>) s)))))
           else Ok () s) (\<lambda>_ s.
      iupdate i (upd_inode i (\<lambda>ip. ip\<lparr>i_size := 0\<rparr>) s))))"

definition iput :: "nat \<Rightarrow> 'x kfs_scheme \<Rightarrow> (unit, 'x kfs_scheme) res" where
  "iput i s =
     bnd (acquire ItableLock s) (\<lambda>_ s.
     bnd (if i_ref (inode_at s i) = 1 \<and> i_valid (inode_at s i) \<and> i_nlink (inode_at s i) = 0
          then bnd (acquiresleep (SlInode i) s) (\<lambda>_ s.
               bnd (release ItableLock s) (\<lambda>_ s.
               bnd (itrunc i s) (\<lambda>_ s.
               bnd (iupdate i (upd_inode i (\<lambda>ip. ip\<lparr>i_type := 0\<rparr>) s)) (\<lambda>_ s.
               bnd (releasesleep (SlInode i) (upd_inode i (\<lambda>ip. ip\<lparr>i_valid := False\<rparr>) s)) (\<lambda>_ s.
               acquire ItableLock s)))))
          else Ok () s) (\<lambda>_ s.
     release ItableLock (upd_inode i (\<lambda>ip. ip\<lparr>i_ref := i_ref ip - 1\<rparr>) s)))"

definition iunlockput :: "nat \<Rightarrow> 'x kfs_scheme \<Rightarrow> (unit, 'x kfs_scheme) res" where
  "iunlockput i s = bnd (iunlock (Some i) s) (\<lambda>_ s. iput i s)"

definition ireclaim :: "u32 \<Rightarrow> 'x kfs_scheme \<Rightarrow> (unit, 'x kfs_scheme) res" where
  "ireclaim dev s =
     foreach (\<lambda>n s.
       let inum = of_nat n in
       bnd (bread dev (IBLOCK inum (fsb s)) s) (\<lambda>bp s.
       bnd (if dip_type (buf_data s bp) inum \<noteq> 0 \<and> dip_nlink (buf_data s bp) inum = 0
            then bnd (printf (''ireclaim: orphaned inode %d'' @ [CHR 0x0A]) [Num (of_nat n)] s) (\<lambda>_ s.
                 bnd (iget dev inum s) (\<lambda>i s. Ok (Some i) s))
            else Ok None s) (\<lambda>ip s.
       bnd (brelse bp s) (\<lambda>_ s.
       case ip of None \<Rightarrow> Ok () s
       | Some i \<Rightarrow>
           bnd (begin_op s) (\<lambda>_ s.
           bnd (ilock (Some i) s) (\<lambda>_ s.
           bnd (iunlock (Some i) s) (\<lambda>_ s.
           bnd (iput i s) (\<lambda>_ s. end_op s)))))))) [1..<unat (sb_ninodes (fsb s))] s"

definition fsinit :: "u32 \<Rightarrow> 'x kfs_scheme \<Rightarrow> (unit, 'x kfs_scheme) res" where
  "fsinit dev s =
     bnd (readsb dev s) (\<lambda>_ s.
     if sb_magic (fsb s) \<noteq> FSMAGIC then Panic ''invalid file system''
     else bnd (initlog dev (fsb s) s) (\<lambda>_ s. ireclaim dev s))"

record stat =
  st_dev :: u32
  st_ino :: u32
  st_type :: u16
  st_nlink :: u16
  st_size :: u64

definition stati :: "nat \<Rightarrow> 'x kfs_scheme \<Rightarrow> stat" where
  "stati i s = (let ip = inode_at s i in
     \<lparr>st_dev = i_dev ip, st_ino = i_inum ip, st_type = i_type ip, st_nlink = i_nlink ip, st_size = ucast (i_size ip)\<rparr>)"

text \<open>
  The loop of \<^verbatim>\<open>readi\<close>: \<open>tot\<close> of \<open>n\<close> bytes have been copied and \<open>off\<close> is the place reached. The
  result is the value returned and the destination after the copies.
\<close>

lemma block_chunk_pos: "0 < BSIZE - off mod BSIZE"
  by (simp add: BSIZE_def)

function readi_loop :: "nat \<Rightarrow> place \<Rightarrow> nat \<Rightarrow> nat \<Rightarrow> nat \<Rightarrow> 'x kfs_scheme \<Rightarrow> (int \<times> place, 'x kfs_scheme) res" where
  "readi_loop i dst off tot n s =
     (if tot < n
      then bnd (bmap i (of_nat (off div BSIZE)) s) (\<lambda>addr s.
           if addr = 0 then Ok (int tot, dst) s
           else bnd (bread (i_dev (inode_at s i)) addr s) (\<lambda>bp s.
                let m = min (n - tot) (BSIZE - off mod BSIZE) in
                bnd (either_copyout dst (sub_bytes (buf_data s bp) (off mod BSIZE) m) s) (\<lambda>(r, dst) s.
                if r = -1 then bnd (brelse bp s) (\<lambda>_ s. Ok (-1, dst) s)
                else bnd (brelse bp s) (\<lambda>_ s. readi_loop i (dst_add dst m) (off + m) (tot + m) n s))))
      else Ok (int tot, dst) s)"
  by pat_completeness auto
termination
  by (relation "measure (\<lambda>(i, dst, off, tot, n, s). n - tot)") (auto simp: BSIZE_def)

declare readi_loop.simps [simp del]

definition readi :: "nat \<Rightarrow> place \<Rightarrow> u32 \<Rightarrow> u32 \<Rightarrow> 'x kfs_scheme \<Rightarrow> (int \<times> place, 'x kfs_scheme) res" where
  "readi i dst off n s =
     (let siz = i_size (inode_at s i) in
      if off > siz \<or> off + n < off then Ok (0, dst) s
      else let n = (if off + n > siz then siz - off else n)
        in readi_loop i dst (unat off) 0 (unat n) s)"

text \<open>
  The loop of \<^verbatim>\<open>writei\<close> copies straight into the buffer, so the bytes a failing copy delivered
  stay there; \<^verbatim>\<open>log_write\<close> is reached only after a complete one. The result is \<open>tot\<close> and \<open>off\<close>.
\<close>

function writei_loop :: "nat \<Rightarrow> place \<Rightarrow> nat \<Rightarrow> nat \<Rightarrow> nat \<Rightarrow> 'x kfs_scheme \<Rightarrow> (nat \<times> nat, 'x kfs_scheme) res" where
  "writei_loop i src off tot n s =
     (if tot < n
      then bnd (bmap i (of_nat (off div BSIZE)) s) (\<lambda>addr s.
           if addr = 0 then Ok (tot, off) s
           else bnd (bread (i_dev (inode_at s i)) addr s) (\<lambda>bp s.
                let m = min (n - tot) (BSIZE - off mod BSIZE) in
                bnd (either_copyin src m s) (\<lambda>(r, bs) s.
                let s = set_bdata bp (patch (buf_data s bp) (off mod BSIZE) bs) s in
                if r = -1 then bnd (brelse bp s) (\<lambda>_ s. Ok (tot, off) s)
                else bnd (log_write bp s) (\<lambda>_ s.
                     bnd (brelse bp s) (\<lambda>_ s. writei_loop i (src_add src m) (off + m) (tot + m) n s)))))
      else Ok (tot, off) s)"
  by pat_completeness auto
termination
  by (relation "measure (\<lambda>(i, src, off, tot, n, s). n - tot)") (auto simp: BSIZE_def)

declare writei_loop.simps [simp del]

definition writei :: "nat \<Rightarrow> place \<Rightarrow> u32 \<Rightarrow> u32 \<Rightarrow> 'x kfs_scheme \<Rightarrow> (int, 'x kfs_scheme) res" where
  "writei i src off n s =
     (if off > i_size (inode_at s i) \<or> off + n < off then Ok (-1) s
      else if unat (off + n) > MAXFILE * BSIZE then Ok (-1) s
      else bnd (writei_loop i src (unat off) 0 (unat n) s) (\<lambda>(tot, off) s.
        let s = (if off > unat (i_size (inode_at s i))
                 then upd_inode i (\<lambda>ip. ip\<lparr>i_size := of_nat off\<rparr>) s else s)
        in bnd (iupdate i s) (\<lambda>_ s. Ok (int tot) s)))"

section \<open>Directories\<close>

text \<open>A comparison that would run past both names is \<open>None\<close>.\<close>

definition namecmp :: "u8 list \<Rightarrow> u8 list \<Rightarrow> int option" where
  "namecmp p q = strncmp p q DIRSIZ"

text \<open>The offsets \<^verbatim>\<open>0, 16, ...\<close> below the size of a directory, and the entry read at one.\<close>

definition dir_offs :: "'x kfs_scheme \<Rightarrow> nat \<Rightarrow> nat list" where
  "dir_offs s dp = map (\<lambda>k. k * DIRENT_SIZE) [0..<(unat (i_size (inode_at s dp)) + DIRENT_SIZE - 1) div DIRENT_SIZE]"

definition read_de :: "string \<Rightarrow> nat \<Rightarrow> nat \<Rightarrow> 'x kfs_scheme \<Rightarrow> (u16 \<times> u8 list, 'x kfs_scheme) res" where
  "read_de msg dp off s =
     bnd (readi dp (KernMem []) (of_nat off) (of_nat DIRENT_SIZE) s) (\<lambda>(r, de) s.
     case de of
       KernMem bs \<Rightarrow> if r \<noteq> int DIRENT_SIZE then Panic msg else Ok (get16 bs 0, drop 2 bs) s
     | UserMem _ \<Rightarrow> oob)"

text \<open>The inode found and its offset, which the caller stores through \<^verbatim>\<open>poff\<close> if not null.\<close>

definition dirlookup :: "nat \<Rightarrow> u8 list \<Rightarrow> 'x kfs_scheme \<Rightarrow> ((nat \<times> u32) option, 'x kfs_scheme) res" where
  "dirlookup dp name s =
     (if i_type (inode_at s dp) \<noteq> T_DIR then Panic ''dirlookup not DIR''
      else scan (\<lambda>off s.
        bnd (read_de ''dirlookup read'' dp off s) (\<lambda>(inum, nm) s.
        if inum = 0 then Ok None s
        else (case namecmp name nm of
            None \<Rightarrow> oob
          | Some c \<Rightarrow> if c = 0
              then bnd (iget (i_dev (inode_at s dp)) (ucast inum) s) (\<lambda>i s. Ok (Some (i, of_nat off)) s)
              else Ok None s))) (dir_offs s dp) s)"

definition dirlink :: "nat \<Rightarrow> u8 list \<Rightarrow> u32 \<Rightarrow> 'x kfs_scheme \<Rightarrow> (int, 'x kfs_scheme) res" where
  "dirlink dp name inum s =
     bnd (dirlookup dp name s) (\<lambda>r s.
     case r of
       Some (i, _) \<Rightarrow> bnd (iput i s) (\<lambda>_ s. Ok (-1) s)
     | None \<Rightarrow>
         bnd (scan (\<lambda>off s. bnd (read_de ''dirlink read'' dp off s) (\<lambda>(n, _) s.
                Ok (if n = 0 then Some off else None) s)) (dir_offs s dp) s) (\<lambda>r s.
         let off = (case r of Some off \<Rightarrow> off | None \<Rightarrow> length (dir_offs s dp) * DIRENT_SIZE) in
         (case strncpy (replicate DIRSIZ 0) name DIRSIZ of
            None \<Rightarrow> oob
          | Some nm \<Rightarrow>
              bnd (writei dp (KernMem (bytes16 (ucast inum) @ nm)) (of_nat off) (of_nat DIRENT_SIZE) s) (\<lambda>w s.
              if w \<noteq> int DIRENT_SIZE then Ok (-1) s else Ok 0 s))))"

section \<open>Paths\<close>

definition slash :: u8 where "slash = 47"

text \<open>
  The next element of a path goes to the name buffer, the rest of the path is returned without
  leading slashes; \<open>None\<close> is the null pointer, when there is no element.
\<close>

definition skipelem :: "u8 list \<Rightarrow> u8 list \<Rightarrow> (u8 list \<times> u8 list) option" where
  "skipelem path name =
     (let path = dropWhile (\<lambda>c. c = slash) path in
      if path = [] then None
      else let el = takeWhile (\<lambda>c. c \<noteq> slash) path; path = dropWhile (\<lambda>c. c \<noteq> slash) path;
               name = (if length el \<ge> DIRSIZ then patch name 0 (take DIRSIZ el) else patch name 0 (el @ [0]))
           in Some (dropWhile (\<lambda>c. c = slash) path, name))"

lemma skipelem_shorter: "skipelem path name = Some (path', name') \<Longrightarrow> length path' < length path"
proof -
  assume a: "skipelem path name = Some (path', name')"
  let ?p = "dropWhile (\<lambda>c. c = slash) path"
  have n: "?p \<noteq> []" and r: "path' = dropWhile (\<lambda>c. c = slash) (dropWhile (\<lambda>c. c \<noteq> slash) ?p)"
    using a by (auto simp: skipelem_def Let_def split: if_splits)
  then obtain c cs where p: "?p = c # cs" by (cases ?p) auto
  have "c \<noteq> slash" using p hd_dropWhile [OF n] by simp
  then have "path' = dropWhile (\<lambda>c. c = slash) (dropWhile (\<lambda>c. c \<noteq> slash) cs)" using r p by simp
  then have "length path' \<le> length cs" using length_dropWhile_le le_trans by metis
  moreover have "length ?p \<le> length path" by (rule length_dropWhile_le)
  ultimately show ?thesis using p by simp
qed

text \<open>\<open>par\<close> is the flag \<^verbatim>\<open>nameiparent\<close>; the result is the inode and the name buffer.\<close>

function namex_loop :: "nat \<Rightarrow> u8 list \<Rightarrow> bool \<Rightarrow> u8 list \<Rightarrow> 'x kfs_scheme \<Rightarrow> (nat option \<times> u8 list, 'x kfs_scheme) res" where
  "namex_loop i path par name s =
     (case skipelem path name of
        None \<Rightarrow>
          if par then bnd (iput i s) (\<lambda>_ s. Ok (None, name) s) else Ok (Some i, name) s
      | Some (path, name) \<Rightarrow>
          bnd (ilock (Some i) s) (\<lambda>_ s.
          if i_type (inode_at s i) \<noteq> T_DIR then bnd (iunlockput i s) (\<lambda>_ s. Ok (None, name) s)
          else if par \<and> path = [] then bnd (iunlock (Some i) s) (\<lambda>_ s. Ok (Some i, name) s)
          else bnd (dirlookup i name s) (\<lambda>nx s.
            case nx of
              None \<Rightarrow> bnd (iunlockput i s) (\<lambda>_ s. Ok (None, name) s)
            | Some (nx, _) \<Rightarrow> bnd (iunlockput i s) (\<lambda>_ s. namex_loop nx path par name s))))"
  by pat_completeness auto
termination
  by (relation "measure (\<lambda>(i, path, par, name, s). length path)") (auto dest: skipelem_shorter)

declare namex_loop.simps [simp del]

definition namex :: "u8 list \<Rightarrow> bool \<Rightarrow> u8 list \<Rightarrow> 'x kfs_scheme \<Rightarrow> (nat option \<times> u8 list, 'x kfs_scheme) res" where
  "namex path par name s =
     bnd (if path \<noteq> [] \<and> hd path = slash then iget ROOTDEV ROOTINO s
          else with_myproc (\<lambda>p s. case cwd (ptable s ! p) of None \<Rightarrow> Panic ''kerneltrap'' | Some i \<Rightarrow> idup i s) s) (\<lambda>i s.
     namex_loop i path par name s)"

definition namei :: "u8 list \<Rightarrow> 'x kfs_scheme \<Rightarrow> (nat option, 'x kfs_scheme) res" where
  "namei path s = bnd (namex path False (replicate DIRSIZ 0) s) (\<lambda>(i, _) s. Ok i s)"

definition nameiparent :: "u8 list \<Rightarrow> u8 list \<Rightarrow> 'x kfs_scheme \<Rightarrow> (nat option \<times> u8 list, 'x kfs_scheme) res" where
  "nameiparent path name s = namex path True name s"

end
