(* ===== verification/Io_State.thy ===== *)
theory Io_State
  imports Fs
begin

text \<open>
  The state above the file system: the file table of \<^verbatim>\<open>file.c\<close>, the pipes, the device switch,
  the console's line buffer and the serial port.
\<close>

datatype fdtype = FD_NONE | FD_PIPE | FD_INODE | FD_DEVICE

record kfile =
  ftype :: fdtype
  fref :: int
  freadable :: bool
  fwritable :: bool
  fpipe :: u64
  fip :: nat
  foff :: u32
  fmajor :: u16

text \<open>
  A pipe occupies a page of its own and is named by the page's address. The functions a device
  can have are those of the console or none.
\<close>

record pipe =
  pdata :: "u8 list"
  nread :: u32
  nwrite :: u32
  readopen :: bool
  writeopen :: bool

datatype devfn = NoDev | ConsoleDev

record consbuf =
  cbuf :: "u8 list"
  cr :: u32
  cw :: u32
  ce :: u32

text \<open>
  \<open>uart_rx\<close>: characters the port has received and the kernel not yet read; \<open>uart_tx_idle\<close>: the
  port can take a character; \<open>tx_busy\<close>: the variable of \<^verbatim>\<open>uart.c\<close>; \<open>stack_pad\<close>: what lies in the
  four bytes of padding of a \<^verbatim>\<open>struct stat\<close> on the kernel stack.
\<close>

record kio = kfs +
  ftable :: "kfile list"
  pipes :: "u64 \<Rightarrow> pipe"
  devsw_read :: "devfn list"
  devsw_write :: "devfn list"
  cons :: consbuf
  tx_busy :: bool
  uart_tx_idle :: bool
  uart_rx :: "u8 list"
  first_proc :: bool
  stack_pad :: "u8 list"

definition upd_file :: "nat \<Rightarrow> (kfile \<Rightarrow> kfile) \<Rightarrow> 'x kio_scheme \<Rightarrow> 'x kio_scheme" where
  "upd_file i f s = s\<lparr>ftable := (ftable s)[i := f (ftable s ! i)]\<rparr>"

definition upd_pipe :: "u64 \<Rightarrow> (pipe \<Rightarrow> pipe) \<Rightarrow> 'x kio_scheme \<Rightarrow> 'x kio_scheme" where
  "upd_pipe p f s = s\<lparr>pipes := (pipes s)(p := f (pipes s p))\<rparr>"

definition upd_cons :: "(consbuf \<Rightarrow> consbuf) \<Rightarrow> 'x kio_scheme \<Rightarrow> 'x kio_scheme" where
  "upd_cons f s = s\<lparr>cons := f (cons s)\<rparr>"

lemma upd_pipe_fields [simp]: "held (upd_pipe p f s) = held s" "pipes (upd_pipe p f s) p = f (pipes s p)"
  "q \<noteq> p \<Longrightarrow> pipes (upd_pipe p f s) q = pipes s q" "curproc (upd_pipe p f s) = curproc s"
  "ptable (upd_pipe p f s) = ptable s"
  by (simp_all add: upd_pipe_def)

lemma upd_cons_fields [simp]: "held (upd_cons f s) = held s" "cons (upd_cons f s) = f (cons s)"
  "curproc (upd_cons f s) = curproc s" "ptable (upd_cons f s) = ptable s"
  by (simp_all add: upd_cons_def)

section \<open>What the operations of the layers below leave alone\<close>

lemma wakeup_more_post: "kproc.more s = z \<Longrightarrow> post (\<lambda>t. kproc.more t = z) (wakeup c s)"
  unfolding wakeup_def
  by (rule post_foreach) (auto simp: wakeup_one_def acquire_def release_def upd_proc_def Let_def)

lemma wakeup_nosleep [simp]: "nosleep (wakeup c s)"
  unfolding wakeup_def
  by (rule nosleep_foreach) (auto simp: wakeup_one_def Let_def intro!: nosleep_bnd)

lemma wakeup_more: "wakeup c s = Ok u t \<Longrightarrow> kproc.more t = kproc.more s"
  using wakeup_more_post [of s "kproc.more s" c] by simp

lemma wakeup_wp: "(\<And>t. kproc.more t = kproc.more s \<Longrightarrow> P () t) \<Longrightarrow> wp P B (wakeup c s)"
  by (rule wp_nosleep) (simp_all add: wakeup_more)

lemma killed_wp: "(\<And>k t. kproc.more t = kproc.more s \<Longrightarrow> ptable t = ptable s \<Longrightarrow> P k t) \<Longrightarrow> wp P B (killed p s)"
  by (auto simp: killed_def acquire_def release_def Let_def)

lemma acquire_wp: "(l \<notin> set (held s) \<Longrightarrow> P () (s\<lparr>held := l # held s\<rparr>)) \<Longrightarrow> wp P B (acquire l s)"
  by (simp add: acquire_def holding_def)

lemma release_wp: "(l \<in> set (held s) \<Longrightarrow> P () (s\<lparr>held := remove1 l (held s)\<rparr>)) \<Longrightarrow> wp P B (release l s)"
  by (simp add: release_def holding_def)

lemma sleep_wp: "(\<And>t. kproc.more t = kproc.more s \<Longrightarrow> B c t) \<Longrightarrow> wp P B (sleep c lk s)"
  by (auto simp: sleep_def sched_def with_myproc_def acquire_def release_def upd_proc_def split: option.split)

lemma sleep_resume_wp:
  "(\<And>t. kproc.more t = kproc.more s \<Longrightarrow> lk \<in> set (held t) \<Longrightarrow> P () t) \<Longrightarrow> wp P B (sleep_resume lk s)"
  by (auto simp: sleep_resume_def with_myproc_def acquire_def release_def upd_proc_def Let_def split: option.split)

lemma with_myproc_wp: "(\<And>p. curproc s = Some p \<Longrightarrow> wp P B (f p s)) \<Longrightarrow> wp P B (with_myproc f s)"
  by (simp add: with_myproc_def split: option.split)

lemma copyout_wp: "(\<And>r t. copyout pt va bs s = Ok r t \<Longrightarrow> kframe s t \<Longrightarrow> P r t) \<Longrightarrow> wp P B (copyout pt va bs s)"
  by (rule wp_nosleep) (auto dest: postD [OF copyout_frame [OF kframe_refl]])

lemma kframe_more: "kframe s (t :: 'x kproc_scheme) \<Longrightarrow> kproc.more t = kproc.more s"
  by (rule kframe_proc(12))

lemma more_io:
  assumes "kproc.more (t :: 'x kio_scheme) = kproc.more s"
  shows "pipes t = pipes s" "ftable t = ftable s" "cons t = cons s" "tx_busy t = tx_busy s"
  using assms by (cases s; cases t; simp)+

section \<open>An idle kernel\<close>

text \<open>
  No file open, the inode table and the caches empty, one process running and one asleep, whose
  page 0 is mapped for reading and writing; for initial states and witnesses.
\<close>

definition inode0 :: inode where
  "inode0 = \<lparr>i_dev = 0, i_inum = 0, i_ref = 0, i_valid = False, i_type = 0, i_major = 0, i_minor = 0,
     i_nlink = 0, i_size = 0, i_addrs = replicate 13 0\<rparr>"

definition kfile0 :: kfile where
  "kfile0 = \<lparr>ftype = FD_NONE, fref = 0, freadable = False, fwritable = False, fpipe = 0, fip = 0, foff = 0, fmajor = 0\<rparr>"

definition pipe0 :: pipe where
  "pipe0 = \<lparr>pdata = replicate 512 0, nread = 0, nwrite = 0, readopen = False, writeopen = False\<rparr>"

definition kio0 :: kio where
  "kio0 = klog.extend (klog_n 0)
     \<lparr>fsb = \<lparr>sb_magic = FSMAGIC, sb_size = 2000, sb_nblocks = 1953, sb_ninodes = 200, sb_nlog = 31, sb_logstart = 2,
        sb_inodestart = 33, sb_bmapstart = 46\<rparr>,
      itable = replicate NINODE inode0, ftable = replicate NFILE kfile0, pipes = \<lambda>_. pipe0,
      devsw_read = replicate 10 NoDev, devsw_write = replicate 10 NoDev,
      cons = \<lparr>cbuf = replicate 128 0, cr = 0, cw = 0, ce = 0\<rparr>, tx_busy = False, uart_tx_idle = True, uart_rx = [],
      first_proc = False, stack_pad = [0, 0, 0, 0]\<rparr>"

lemma kio0_fields:
  "held kio0 = []" "hartid kio0 = 0" "curproc kio0 = Some 0" "outp kio0 = []" "mem kio0 = mem kmem_pt" "kend kio0 = kend kmem_pt"
  "ptable kio0 = [proc0\<lparr>state := RUNNING, pid := 1, pagetable := 0x87FFD000, sz := 0x3000\<rparr>,
       proc0\<lparr>state := SLEEPING, pid := 2, pchan := Some ChTicks\<rparr>] @ replicate 62 proc0"
  "length (ptable kio0) = 64" "ticks kio0 = 0"
  "itable kio0 = replicate NINODE inode0" "ftable kio0 = replicate NFILE kfile0" "pipes kio0 = (\<lambda>_. pipe0)"
  "cons kio0 = \<lparr>cbuf = replicate 128 0, cr = 0, cw = 0, ce = 0\<rparr>" "tx_busy kio0 = False"
  by (simp_all add: kio0_def klog.extend_def klog_n_def kproc.extend_def kproc_two_def kproc_pt_def)

end
