(* ===== verification/User_Mem.thy ===== *)
theory User_Mem
  imports Vm_Frame
begin

text \<open>
  The memory of a process as its page table shows it: the byte at a user address, where a page
  that has not been touched yet reads as zeros, and what \<^verbatim>\<open>copyin\<close> makes of it.
\<close>

definition user_byte :: "'x kmem_scheme \<Rightarrow> u64 \<Rightarrow> u64 \<Rightarrow> u8" where
  "user_byte s pt va =
     (if MAXVA \<le> va then 0
      else case lookup s pt (PGROUNDDOWN va) of
        None \<Rightarrow> 0
      | Some pte \<Rightarrow> if pte AND PTE_U = 0 then 0 else load8 (PTE2PA pte + (va - PGROUNDDOWN va)) s)"

text \<open>The pages the user can reach are allocated pages and not pages of the table itself.\<close>

definition user_mem :: "'x kmem_scheme \<Rightarrow> u64 \<Rightarrow> bool" where
  "user_mem s pt \<longleftrightarrow> pt_ready s pt \<and>
     (\<forall>v pte. v mod PGSIZE = 0 \<longrightarrow> v < MAXVA \<longrightarrow> lookup s pt v = Some pte \<longrightarrow> pte AND PTE_U \<noteq> 0 \<longrightarrow>
        page_ok s (PTE2PA pte) \<and> PTE2PA pte \<notin> tree_pages s pt \<union> set (freelist s))"

text \<open>The addresses a copy fails at: beyond the process, or on a page that is the kernel's.\<close>

definition user_bad :: "'x kmem_scheme \<Rightarrow> u64 \<Rightarrow> u64 \<Rightarrow> u64 \<Rightarrow> bool" where
  "user_bad s pt siz va \<longleftrightarrow> MAXVA \<le> va \<or>
     (case lookup s pt (PGROUNDDOWN va) of None \<Rightarrow> siz \<le> PGROUNDDOWN va | Some pte \<Rightarrow> pte AND PTE_U = 0)"

text \<open>The address space of a process before and after it has been filled in.\<close>

definition same_user :: "u64 \<Rightarrow> u64 \<Rightarrow> 'x kmem_scheme \<Rightarrow> 'x kmem_scheme \<Rightarrow> bool" where
  "same_user pt siz s t \<longleftrightarrow> user_mem t pt \<and> user_byte t pt = user_byte s pt \<and> user_bad t pt siz = user_bad s pt siz"

lemma same_user_refl: "user_mem s pt \<Longrightarrow> same_user pt siz s s"
  by (simp add: same_user_def)

lemma same_user_trans: "same_user pt siz s t \<Longrightarrow> same_user pt siz t u \<Longrightarrow> same_user pt siz s u"
  by (simp add: same_user_def)

lemma user_mem_cong:
  assumes "mem t = mem s" "freelist t = freelist s" "kend t = kend s" "KmemLock \<notin> set (held t)" "user_mem s pt"
  shows "user_mem t pt"
proof -
  have n: "node t pt xs = node s pt xs" for xs by (rule node_transfer [OF assms(1)])
  have "tree_pages t pt = tree_pages s pt" by (simp add: tree_pages_def n)
  then show ?thesis
    using assms lookup_transfer [OF assms(1), of pt]
    by (simp add: user_mem_def pt_ready_def pt_wf_def kmem_wf_def page_ok_def n)
qed

lemma same_user_cong:
  assumes "mem t = mem s" "freelist t = freelist s" "kend t = kend s" "KmemLock \<notin> set (held t)" "same_user pt siz z s"
  shows "same_user pt siz z t"
proof -
  have l: "lookup t pt v = lookup s pt v" for v by (rule lookup_transfer [OF assms(1)])
  have "load8 a t = load8 a s" for a by (simp add: load8_def assms(1))
  then have "user_byte t pt = user_byte s pt" "user_bad t pt siz = user_bad s pt siz"
    by (simp_all add: user_byte_def user_bad_def l fun_eq_iff cong: option.case_cong if_cong)
  then show ?thesis using assms(5) user_mem_cong [OF assms(1-4)] by (simp add: same_user_def)
qed

lemma unat_add_page:
  assumes "unat (p :: u64) mod 4096 = 0" "unat (k :: u64) < 4096" shows "unat (p + k) = unat p + unat k"
proof -
  have "unat p + 4096 \<le> 2 ^ 64"
    using aligned_less_step [of "unat p" "2 ^ 64"] assms(1) unsigned_less [of p] by simp
  then show ?thesis using assms(2) by (simp add: unat_word_ariths)
qed

lemma page_offset_less: "unat (va - PGROUNDDOWN va) < 4096"
proof -
  have "unat (PGROUNDDOWN va) = unat va - unat va mod 4096" by (rule unat_PGROUNDDOWN)
  then have "unat (va - PGROUNDDOWN va) = unat va mod 4096" by (simp add: unat_sub word_le_nat_alt)
  then show ?thesis by simp
qed

lemma page_byte_word:
  assumes "p mod PGSIZE = 0"
  shows "PGROUNDDOWN ((p + (va - PGROUNDDOWN va)) AND NOT 7) = p"
proof -
  let ?k = "va - PGROUNDDOWN va"
  have pm: "unat p mod 4096 = 0" using assms by (simp only: mod_PGSIZE_iff)
  have "unat (PGROUNDDOWN (p + ?k)) = unat p"
    using pm page_offset_less [of va] unfolding unat_PGROUNDDOWN unat_add_page [OF pm page_offset_less]
    by (auto elim!: dvdE)
  then have "PGROUNDDOWN (p + ?k) = p" by (simp add: word_unat_eq_iff)
  moreover have "NOT 7 AND NOT (PGSIZE - 1) = (NOT (PGSIZE - 1) :: u64)" by (simp add: PGSIZE_def)
  ultimately show ?thesis by (simp add: PGROUNDDOWN_def and.assoc)
qed

lemma load8_page: "p mod PGSIZE = 0 \<Longrightarrow> (\<And>a. PGROUNDDOWN a = p \<Longrightarrow> mem t a = mem s a) \<Longrightarrow>
    load8 (p + (va - PGROUNDDOWN va)) t = load8 (p + (va - PGROUNDDOWN va)) s"
  unfolding load8_def using page_byte_word [of p va] by simp

text \<open>Writing outside the pages of a table leaves its translation alone.\<close>

lemma node_outside:
  assumes W: "pt_wf s pt" and M: "\<And>a. PGROUNDDOWN a \<in> tree_pages s pt \<Longrightarrow> mem t a = mem s a"
  shows "path_ok xs \<Longrightarrow> node t pt xs = node s pt xs"
proof (induction xs rule: rev_induct)
  case (snoc i zs)
  then have z: "path_ok zs" "i < 512" by auto
  show ?case
  proof (cases "node s pt zs")
    case (Some q)
    have "PGROUNDDOWN (q + 8 * i) = q"
      using page_round [OF page_ok_mod [OF pt_wf_page [OF W z(1) Some]] z(2)] by (simp add: PGROUNDDOWN_def)
    then have "mem t (q + 8 * i) = mem s (q + 8 * i)" using M tree_pagesI [OF z(1) Some] by simp
    then show ?thesis using snoc.IH [OF z(1)] Some by (simp add: node_snoc child_def)
  qed (use snoc.IH [OF z(1)] in \<open>simp add: node_snoc\<close>)
qed simp

lemma lookup_outside:
  assumes W: "pt_wf s pt" and M: "\<And>a. PGROUNDDOWN a \<in> tree_pages s pt \<Longrightarrow> mem t a = mem s a"
  shows "lookup t pt v = lookup s pt v"
proof (cases "node s pt [PX 2 v, PX 1 v]")
  case (Some q)
  have "PGROUNDDOWN (q + 8 * PX 0 v) = q"
    using page_round [OF page_ok_mod [OF pt_wf_page [OF W PX_path_ok(3) Some]] PX_less] by (simp add: PGROUNDDOWN_def)
  then have "mem t (q + 8 * PX 0 v) = mem s (q + 8 * PX 0 v)" using M tree_pagesI [OF PX_path_ok(3) Some] by simp
  then show ?thesis
    using node_outside [of s pt t, OF W M PX_path_ok(3)] Some by (simp add: lookup_def del: node.simps)
qed (use node_outside [of s pt t, OF W M PX_path_ok(3)] in \<open>simp add: lookup_def del: node.simps\<close>)

text \<open>Faulting a page in shows the process the zeros it could see there before.\<close>

lemma vmfault_same_user:
  fixes s :: "'x kproc_scheme"
  assumes U: "user_mem s pt" and "curproc s = Some p" and "pagetable (ptable s ! p) = pt"
    and "va < sz (ptable s ! p)" and "va < MAXVA" and N: "lookup s pt (PGROUNDDOWN va) = None"
    and V: "vmfault pt va rd s = Ok r t" and siz: "PGROUNDDOWN va < siz"
  shows "vm_frame s t \<and> same_user pt siz s t \<and>
    (if r = 0 then lookup t pt (PGROUNDDOWN va) = None \<and> length (freelist t) \<le> 2
     else page_ok s r \<and> (\<forall>a. PGROUNDDOWN a = r \<longrightarrow> mem t a = 0) \<and>
       (\<exists>pte. lookup t pt (PGROUNDDOWN va) = Some pte \<and> pte AND PTE_U \<noteq> 0 \<and> PTE2PA pte = r))"
proof -
  let ?va = "PGROUNDDOWN va"
  have R: "pt_ready s pt" using U by (simp add: user_mem_def)
  have vm: "?va < MAXVA" using assms(5) PGROUNDDOWN_le order.strict_trans1 by blast
  from vmfault_spec [OF R assms(2-5), of rd] V N
  have T: "pt_ready t pt" "vm_frame s t" "mem_frame pt s t" "set (freelist t) \<subseteq> set (freelist s)"
    and O: "\<And>v. v mod PGSIZE = 0 \<Longrightarrow> v < MAXVA \<Longrightarrow> v \<noteq> ?va \<Longrightarrow> lookup t pt v = lookup s pt v"
    and C: "if length (freelist s) \<le> tables_missing s pt ?va
      then r = 0 \<and> lookup t pt ?va = None \<and> (freelist s \<noteq> [] \<longrightarrow> hd (freelist s) \<in> set (freelist t))
      else r = hd (freelist s) \<and> r \<notin> set (freelist t) \<and> r \<notin> tree_pages t pt \<and>
        lookup t pt ?va = Some (PA2PTE r OR (PTE_W OR PTE_U OR PTE_R) OR PTE_V) \<and>
        walkaddr pt ?va t = Ok r t \<and> (\<forall>a. PGROUNDDOWN a = r \<longrightarrow> mem t a = 0)"
    by auto
  have po: "page_ok t = page_ok s" using T(2) by (simp add: vm_frame_def page_ok_def fun_eq_iff)
  have km: "kmem_wf s" "kmem_wf t" using R T(1) by (simp_all add: pt_ready_def)
  have "length (freelist t) \<le> length (freelist s)"
    using km T(4) by (auto simp: kmem_wf_def distinct_card [symmetric] intro: card_mono)
  moreover have "tables_missing s pt ?va \<le> 2" by (simp add: tables_missing_node)
  ultimately have few: "length (freelist t) \<le> 2" if "length (freelist s) \<le> tables_missing s pt ?va"
    using that by linarith
  have res: "if r = 0 then lookup t pt ?va = None \<and> length (freelist t) \<le> 2
     else page_ok s r \<and> r \<notin> tree_pages t pt \<union> set (freelist t) \<and> (\<forall>a. PGROUNDDOWN a = r \<longrightarrow> mem t a = 0) \<and>
       (\<exists>pte. lookup t pt ?va = Some pte \<and> pte AND PTE_U \<noteq> 0 \<and> PTE2PA pte = r)"
  proof (cases "length (freelist s) \<le> tables_missing s pt ?va")
    case True
    then show ?thesis using C few by simp
  next
    case False
    then have "r \<in> set (freelist s)" using C by (cases "freelist s") auto
    then have "page_ok s r" "r \<noteq> 0" using km(1) kmem_wf_page_pos by (auto simp: kmem_wf_def)
    moreover have "PTE2PA (PA2PTE r OR (PTE_W OR PTE_U OR PTE_R) OR PTE_V) = r"
      using PTE2PA_flags [OF \<open>page_ok s r\<close>, of "PTE_W OR PTE_U OR PTE_R OR PTE_V"] by (simp add: or.assoc pte_defs)
    moreover have "(PA2PTE r OR (PTE_W OR PTE_U OR PTE_R) OR PTE_V) AND PTE_U \<noteq> 0"
    proof -
      have "bit ((PA2PTE r OR (PTE_W OR PTE_U OR PTE_R) OR PTE_V) AND PTE_U) 4" by (simp add: pte_defs bit_simps)
      then show ?thesis by (metis bit_0_eq bot_apply bot_bool_def)
    qed
    ultimately show ?thesis using False C by auto
  qed
  have old: "lookup t pt v = lookup s pt v" if "v mod PGSIZE = 0" "v < MAXVA" "lookup s pt v \<noteq> None" for v
    using O [OF that(1,2)] that(3) N by (cases "v = ?va") auto
  have keep: "page_ok s (PTE2PA pte) \<and> PTE2PA pte \<notin> tree_pages t pt \<union> set (freelist t) \<and>
      (\<forall>a. PGROUNDDOWN a = PTE2PA pte \<longrightarrow> mem t a = mem s a)"
    if "v mod PGSIZE = 0" "v < MAXVA" "lookup s pt v = Some pte" "pte AND PTE_U \<noteq> 0" for v pte
  proof -
    have "page_ok s (PTE2PA pte)" and n: "PTE2PA pte \<notin> tree_pages s pt \<union> set (freelist s)"
      using U that by (auto simp: user_mem_def)
    moreover have "PTE2PA pte \<notin> tree_pages t pt \<union> set (freelist t)" using n T(3) unfolding mem_frame_def by blast
    moreover have "\<forall>a. PGROUNDDOWN a = PTE2PA pte \<longrightarrow> mem t a = mem s a"
      using n T(3) unfolding mem_frame_def PGROUNDDOWN_def by metis
    ultimately show ?thesis by blast
  qed
  have "user_mem t pt"
    unfolding user_mem_def po
  proof (intro conjI allI impI)
    fix v pte
    assume v: "v mod PGSIZE = 0" "v < MAXVA" "lookup t pt v = Some pte" "pte AND PTE_U \<noteq> 0"
    have "page_ok s (PTE2PA pte) \<and> PTE2PA pte \<notin> tree_pages t pt \<union> set (freelist t)"
    proof (cases "v = ?va")
      case True
      then show ?thesis using v(3) res by (auto split: if_splits)
    next
      case False
      then show ?thesis using keep [OF v(1,2) _ v(4)] v(3) O [OF v(1,2) False] by simp
    qed
    then show "page_ok s (PTE2PA pte)" "PTE2PA pte \<notin> tree_pages t pt \<union> set (freelist t)" by auto
  qed (rule T(1))
  moreover have "user_byte t pt v = user_byte s pt v" for v
  proof (cases "MAXVA \<le> v")
    case False
    let ?v = "PGROUNDDOWN v"
    have v: "?v mod PGSIZE = 0" "?v < MAXVA"
      using False PGROUNDDOWN_le [of v] by (auto simp only: PGROUNDDOWN_mod not_le)
    consider "lookup s pt ?v = None" "?v = ?va" | "lookup s pt ?v = None" "lookup t pt ?v = None"
      | pte where "lookup s pt ?v = Some pte" "lookup t pt ?v = Some pte"
      using O [OF v] old [OF v] by (cases "lookup s pt ?v"; cases "?v = ?va") auto
    then show ?thesis
    proof cases
      case 1
      show ?thesis
      proof (cases "r = 0")
        case True
        then show ?thesis using 1 res by (simp add: user_byte_def)
      next
        case F: False
        then obtain pte where pte: "lookup t pt ?va = Some pte" "PTE2PA pte = r" "page_ok s r"
          "\<forall>a. PGROUNDDOWN a = r \<longrightarrow> mem t a = 0" using res by auto
        have "mem t ((r + (v - ?v)) AND NOT 7) = 0"
          using pte(4) page_byte_word [OF page_ok_mod [OF pte(3)], of v] by blast
        then show ?thesis using 1 pte by (simp add: user_byte_def load8_def)
      qed
    next
      case 2
      then show ?thesis by (simp add: user_byte_def)
    next
      case (3 pte)
      then show ?thesis using keep [OF v 3(1)] load8_page [of "PTE2PA pte" t s v]
        by (auto simp: user_byte_def dest: page_ok_mod)
    qed
  qed (simp add: user_byte_def)
  moreover have "user_bad t pt siz v = user_bad s pt siz v" for v
  proof (cases "MAXVA \<le> v")
    case False
    let ?v = "PGROUNDDOWN v"
    have v: "?v mod PGSIZE = 0" "?v < MAXVA"
      using False PGROUNDDOWN_le [of v] by (auto simp only: PGROUNDDOWN_mod not_le)
    show ?thesis
    proof (cases "?v = ?va")
      case True
      then show ?thesis using N siz res by (auto simp: user_bad_def not_le split: if_splits)
    qed (simp add: user_bad_def O [OF v])
  qed (simp add: user_bad_def)
  ultimately show ?thesis using T(2) res by (auto simp: same_user_def fun_eq_iff)
qed

lemma copyin_0 [simp]: "copyin pt va 0 s = Ok (0, []) s"
  by (subst copyin.simps) simp

lemma copyin_byte:
  fixes s :: "'x kproc_scheme"
  assumes U: "user_mem s pt" and P: "curproc s = Some p" "pagetable (ptable s ! p) = pt" "sz (ptable s ! p) = siz"
    and M: "siz \<le> MAXVA"
  shows "\<exists>r bs t. copyin pt va 1 s = Ok (r, bs) t \<and> vm_frame s t \<and> same_user pt siz s t \<and>
    (if r = -1 then user_bad s pt siz va \<or> lookup t pt (PGROUNDDOWN va) = None \<and> length (freelist t) \<le> 2
     else r = 0 \<and> bs = [user_byte s pt va] \<and> \<not> user_bad s pt siz va)"
proof -
  let ?v = "PGROUNDDOWN va"
  let ?load = "\<lambda>pa0 t. Ok (0 :: int, [load8 (pa0 + (va - ?v)) t]) t"
  have one: "copyin pt va 1 s = bnd (walkaddr pt ?v s) (\<lambda>pa0 s.
      bnd (if pa0 = 0 then vmfault pt ?v 0 s else Ok pa0 s) (\<lambda>pa0 s.
        if pa0 = 0 then Ok (-1, []) s else ?load pa0 s))"
  proof -
    have "min (unat (PGSIZE - (va - ?v))) 1 = 1" using chunk_pos [of va] by simp
    then show ?thesis
      by (subst copyin.simps) (simp add: Let_def cong: if_cong)
  qed
  have refl: "vm_frame s s" "same_user pt siz s s" using U same_user_refl by (auto simp: vm_frame_def)
  have mx: "MAXVA \<le> ?v \<longleftrightarrow> MAXVA \<le> va"
  proof -
    have n: "2 ^ 38 \<le> k - k mod 4096" if "2 ^ 38 \<le> k" for k :: nat
    proof -
      have "2 ^ 38 div 4096 \<le> k div 4096" using that by (rule div_le_mono)
      then have "2 ^ 38 \<le> 4096 * (k div 4096)" by simp
      then show ?thesis by (simp add: minus_mod_eq_mult_div)
    qed
    have "MAXVA \<le> va \<Longrightarrow> MAXVA \<le> ?v"
      unfolding word_le_nat_alt unat_PGROUNDDOWN using n [of "unat va"] by (simp add: MAXVA_def)
    then show ?thesis using PGROUNDDOWN_le [of va] by auto
  qed
  have beyond: "vmfault pt ?v 0 s = Ok 0 s" if "siz \<le> ?v"
    using that P by (simp add: vmfault_def)
  have dd: "PGROUNDDOWN ?v = ?v" by (simp add: PGROUNDDOWN_def and.assoc)
  consider (high) "MAXVA \<le> va" | (bad) pte where "va < MAXVA" "lookup s pt ?v = Some pte" "pte AND PTE_U = 0"
    | (ok) pte where "va < MAXVA" "lookup s pt ?v = Some pte" "pte AND PTE_U \<noteq> 0"
    | (out) "va < MAXVA" "lookup s pt ?v = None" "siz \<le> ?v" | (lazy) "va < MAXVA" "lookup s pt ?v = None" "?v < siz"
    by (cases "lookup s pt ?v") (auto simp: not_le [symmetric])
  then show ?thesis
  proof cases
    case high
    then have "copyin pt va 1 s = Ok (-1, []) s" 
      unfolding one using mx order_trans [OF M] beyond by (simp add: walkaddr_lookup)
    then show ?thesis using refl high by (auto simp: user_bad_def)
  next
    case (bad pte)
    then have "?v < MAXVA" using mx by (simp add: not_le [symmetric])
    have "vmfault pt ?v 0 s = Ok 0 s"
    proof (cases "siz \<le> ?v")
      case False
      with vmfault_spec [of s pt p ?v 0] U P \<open>?v < MAXVA\<close> bad show ?thesis
        by (auto simp: user_mem_def dd)
    qed (rule beyond)
    then have "copyin pt va 1 s = Ok (-1, []) s" unfolding one using bad by (simp add: walkaddr_lookup)
    then show ?thesis using refl bad by (auto simp: user_bad_def)
  next
    case (ok pte)
    then have v: "\<not> MAXVA \<le> ?v" "?v mod PGSIZE = 0" using mx by (simp_all only: not_le PGROUNDDOWN_mod)
    then have "page_ok s (PTE2PA pte)" using U ok by (auto simp: user_mem_def not_le)
    then have nz: "PTE2PA pte \<noteq> 0" using U by (auto simp: user_mem_def pt_ready_def kmem_wf_def page_ok_def)
    then have "copyin pt va 1 s = Ok (0, [user_byte s pt va]) s"
      unfolding one using ok v by (simp add: walkaddr_lookup user_byte_def not_le [symmetric])
    then show ?thesis using refl ok by (auto simp: user_bad_def not_le)
  next
    case out
    then have "copyin pt va 1 s = Ok (-1, []) s" unfolding one using mx beyond by (simp add: walkaddr_lookup)
    then show ?thesis using refl out by (auto simp: user_bad_def)
  next
    case lazy
    have v: "?v < MAXVA" using lazy mx by (simp add: not_le [symmetric])
    have R: "pt_ready s pt" using U by (simp add: user_mem_def)
    obtain r t where rt: "vmfault pt ?v 0 s = Ok r t"
      using vmfault_spec [OF R P(1,2), of ?v 0] lazy v P(3) by auto
    have F: "vm_frame s t \<and> same_user pt siz s t \<and>
      (if r = 0 then lookup t pt ?v = None \<and> length (freelist t) \<le> 2
       else page_ok s r \<and> (\<forall>a. PGROUNDDOWN a = r \<longrightarrow> mem t a = 0) \<and>
         (\<exists>pte. lookup t pt ?v = Some pte \<and> pte AND PTE_U \<noteq> 0 \<and> PTE2PA pte = r))"
      using vmfault_same_user [OF U P(1,2) _ v _ rt, of siz, unfolded dd] lazy P(3) by simp
    have w: "walkaddr pt ?v s = Ok 0 s" using lazy v by (simp add: walkaddr_lookup)
    have nb: "\<not> user_bad s pt siz va" using lazy by (simp add: user_bad_def not_le)
    show ?thesis
    proof (cases "r = 0")
      case True
      then have "copyin pt va 1 s = Ok (-1, []) t" unfolding one using w rt by simp
      then show ?thesis using F True by auto
    next
      case False
      then have c: "copyin pt va 1 s = Ok (0, [load8 (r + (va - ?v)) t]) t" unfolding one using w rt by simp
      have z: "mem t ((r + (va - ?v)) AND NOT 7) = 0"
        using F False page_byte_word [OF page_ok_mod, of s r va] by simp
      have "user_byte s pt va = 0" using lazy by (simp add: user_byte_def)
      then have "copyin pt va 1 s = Ok (0, [user_byte s pt va]) t" using c z by (simp add: load8_def)
      then show ?thesis using F nb by auto
    qed
  qed
qed

end
