(* ===== verification/Ring_Buffer.thy ===== *)
theory Ring_Buffer
  imports Xv6_Prelude
begin

text \<open>
  Byte queues. The locale \<open>byte_queue\<close> is the contract a reader and a writer rely on: put adds
  at the end, drop removes what peek shows. The locale \<open>counter_ring\<close> is the implementation the
  kernel uses for pipes and for console input: an array indexed by two 32-bit counters that
  run free and wrap. Any such ring whose size divides 2^32 keeps the contract.
\<close>

section \<open>The contract\<close>

locale byte_queue =
  fixes ok :: "'q \<Rightarrow> bool" and contents :: "'q \<Rightarrow> u8 list" and cap :: nat
    and put :: "u8 \<Rightarrow> 'q \<Rightarrow> 'q" and peek :: "'q \<Rightarrow> u8" and drp :: "'q \<Rightarrow> 'q"
  assumes put_law: "ok q \<Longrightarrow> length (contents q) < cap \<Longrightarrow> ok (put b q) \<and> contents (put b q) = contents q @ [b]"
    and drop_law: "ok q \<Longrightarrow> contents q \<noteq> [] \<Longrightarrow>
      ok (drp q) \<and> contents q = peek q # contents (drp q)"
    and cap_law: "ok q \<Longrightarrow> length (contents q) \<le> cap"
begin

fun puts :: "u8 list \<Rightarrow> 'q \<Rightarrow> 'q" where
  "puts [] q = q"
| "puts (b # bs) q = puts bs (put b q)"

fun drops :: "nat \<Rightarrow> 'q \<Rightarrow> 'q" where
  "drops 0 q = q"
| "drops (Suc n) q = drops n (drp q)"

fun peeks :: "nat \<Rightarrow> 'q \<Rightarrow> u8 list" where
  "peeks 0 q = []"
| "peeks (Suc n) q = peek q # peeks n (drp q)"

lemma puts_contents:
  "ok q \<Longrightarrow> length (contents q) + length bs \<le> cap \<Longrightarrow> ok (puts bs q) \<and> contents (puts bs q) = contents q @ bs"
proof (induction bs arbitrary: q)
  case Nil
  then show ?case by simp
next
  case (Cons b bs)
  then have "ok (put b q)" "contents (put b q) = contents q @ [b]" using put_law [of q b] by auto
  with Cons show ?case by simp
qed

lemma peeks_contents:
  "ok q \<Longrightarrow> n \<le> length (contents q) \<Longrightarrow>
     ok (drops n q) \<and> peeks n q = take n (contents q) \<and> contents (drops n q) = drop n (contents q)"
proof (induction n arbitrary: q)
  case 0
  then show ?case by simp
next
  case (Suc n)
  then have ne: "contents q \<noteq> []" by auto
  have d: "ok (drp q)" "contents q = peek q # contents (drp q)" using drop_law [OF Suc.prems(1) ne] by auto
  then have "n \<le> length (contents (drp q))" using Suc.prems(2) by (metis length_Cons Suc_le_mono)
  with Suc.IH [OF d(1)] d(2) show ?case by (metis drop_Suc_Cons drops.simps(2) peeks.simps(2) take_Suc_Cons)
qed

text \<open>First in, first out.\<close>

lemma fifo: "ok q \<Longrightarrow> contents q = [] \<Longrightarrow> length bs \<le> cap \<Longrightarrow> peeks (length bs) (puts bs q) = bs"
  using puts_contents [of q bs] peeks_contents [of "puts bs q" "length bs"] by simp

end

section \<open>Rings with free-running counters\<close>

definition ring_level :: "u32 \<Rightarrow> u32 \<Rightarrow> nat" where "ring_level r w = unat (w - r)"

definition ring_contents :: "nat \<Rightarrow> u8 list \<Rightarrow> u32 \<Rightarrow> u32 \<Rightarrow> u8 list" where
  "ring_contents n d r w = map (\<lambda>i. d ! (unat (r + of_nat i) mod n)) [0..<ring_level r w]"

lemma ring_contents_length [simp]: "length (ring_contents n d r w) = ring_level r w"
  by (simp add: ring_contents_def)

lemma ring_empty_iff: "ring_contents n d r w = [] \<longleftrightarrow> r = w"
  by (auto simp: ring_contents_def ring_level_def unat_eq_0)

lemma ring_level_Suc: "ring_level r w < 2 ^ 32 - 1 \<Longrightarrow> ring_level r (w + 1) = Suc (ring_level r w)"
proof -
  assume "ring_level r w < 2 ^ 32 - 1"
  then have "1 + (w - r) \<noteq> 0" by (auto simp: ring_level_def unat_eq_0 [symmetric] unat_word_ariths)
  then have "unat (1 + (w - r)) = Suc (unat (w - r))" by (rule unatSuc)
  then show ?thesis by (simp add: ring_level_def algebra_simps)
qed

lemma ring_level_pred: "r \<noteq> w \<Longrightarrow> ring_level r w = Suc (ring_level (r + 1) w)"
proof -
  assume "r \<noteq> w"
  then have "w - r \<noteq> 0" by simp
  then have "unat (w - r - 1) = unat (w - r) - 1" "0 < unat (w - r)"
    by (simp_all add: unat_minus_one word_neq_0_conv unat_gt_0)
  then show ?thesis by (simp add: ring_level_def algebra_simps)
qed

text \<open>Below a level of at most \<open>n\<close>, distinct positions of the queue lie at distinct indices.\<close>

lemma ring_index: "n dvd 2 ^ 32 \<Longrightarrow> unat (r + of_nat i :: u32) mod n = (unat r + i) mod n"
proof -
  assume n: "n dvd 2 ^ 32"
  have "unat (r + of_nat i :: u32) = (unat r + i) mod 2 ^ 32"
    by (simp add: unat_word_ariths unat_of_nat mod_add_right_eq)
  with n show ?thesis by (simp add: mod_mod_cancel)
qed

lemma mod_add_inj: "(a + i) mod n = (a + j) mod n \<Longrightarrow> i < j \<Longrightarrow> j < i + n \<Longrightarrow> False" for a i j n :: nat
proof -
  assume e: "(a + i) mod n = (a + j) mod n" and l: "i < j" "j < i + n"
  from e have "n dvd (a + j) - (a + i)" by (metis l(1) mod_eq_dvd_iff_nat nat_add_left_cancel_le less_imp_le)
  then have "n dvd j - i" by simp
  with l show False by (metis dvd_imp_le less_diff_conv2 less_imp_le not_less zero_less_diff add.commute)
qed

lemma ring_store:
  assumes "n dvd 2 ^ 32" "n < 2 ^ 32" "length d = n" "ring_level r w < n"
  shows "ring_contents n (d[unat w mod n := b]) r (w + 1) = ring_contents n d r w @ [b]"
proof -
  let ?l = "ring_level r w"
  have n: "0 < n" using assms(4) by simp
  have lv: "ring_level r (w + 1) = Suc ?l"
    by (rule ring_level_Suc) (use assms(2,4) in simp)
  have w: "unat w mod n = (unat r + ?l) mod n"
    using ring_index [OF assms(1), of r ?l] by (simp add: ring_level_def)
  have old: "d[unat w mod n := b] ! ((unat r + i) mod n) = d ! ((unat r + i) mod n)" if "i < ?l" for i
  proof -
    have "(unat r + i) mod n \<noteq> (unat r + ?l) mod n"
      using mod_add_inj [of "unat r" i n ?l] that assms(4) by auto
    then show ?thesis unfolding w by (simp add: nth_list_update)
  qed
  have new: "d[unat w mod n := b] ! ((unat r + ?l) mod n) = b"
    unfolding w using n assms(3) by simp
  show ?thesis
    by (simp add: ring_contents_def lv ring_index [OF assms(1)] old new)
qed

lemma ring_take:
  assumes "r \<noteq> w"
  shows "ring_contents n d r w = d ! (unat r mod n) # ring_contents n d (r + 1) w"
proof -
  have l: "[0..<ring_level r w] = 0 # map Suc [0..<ring_level (r + 1) w]"
    by (subst ring_level_pred [OF assms]) (simp add: map_Suc_upt upt_conv_Cons)
  show ?thesis
    by (simp add: ring_contents_def l algebra_simps)
qed

text \<open>A shorter queue of the same start is the front of the longer one, and what is stored past it leaves it alone.\<close>

lemma ring_prefix:
  "ring_level r w \<le> ring_level r e \<Longrightarrow> ring_contents n d r w = take (ring_level r w) (ring_contents n d r e)"
  by (simp add: ring_contents_def take_map)

lemma ring_level_back:
  assumes "e \<noteq> w" "ring_level r w \<le> ring_level r e"
  shows "ring_level r w \<le> ring_level r (e - 1)" "ring_level r e = Suc (ring_level r (e - 1))"
proof -
  have "w - r \<noteq> e - r" using assms(1) by (metis diff_add_cancel)
  then have "unat (w - r) \<noteq> unat (e - r)" by (simp add: word_unat_eq_iff)
  with assms(2) have l: "unat (w - r) < unat (e - r)" by (simp add: ring_level_def)
  then have "e - r \<noteq> 0" by auto
  then have "unat (e - r - 1) = unat (e - r) - 1" by (simp add: unat_minus_one)
  moreover have "e - r - 1 = e - 1 - r" by simp
  ultimately have "unat (e - 1 - r) = unat (e - r) - 1" by metis
  then show "ring_level r w \<le> ring_level r (e - 1)" "ring_level r e = Suc (ring_level r (e - 1))"
    using l by (simp_all add: ring_level_def)
qed

locale counter_ring =
  fixes n :: nat and dat :: "'q \<Rightarrow> u8 list" and rd wr :: "'q \<Rightarrow> u32"
    and put :: "u8 \<Rightarrow> 'q \<Rightarrow> 'q" and peek :: "'q \<Rightarrow> u8" and drp :: "'q \<Rightarrow> 'q"
  assumes size_law: "n dvd 2 ^ 32" "n < 2 ^ 32"
    and put_ring: "dat (put b q) = (dat q)[unat (wr q) mod n := b]" "wr (put b q) = wr q + 1" "rd (put b q) = rd q"
    and drop_ring: "dat (drp q) = dat q" "wr (drp q) = wr q" "rd (drp q) = rd q + 1"
    and peek_ring: "peek q = dat q ! (unat (rd q) mod n)"

sublocale counter_ring \<subseteq> byte_queue
    "\<lambda>q. length (dat q) = n \<and> ring_level (rd q) (wr q) \<le> n" "\<lambda>q. ring_contents n (dat q) (rd q) (wr q)" n put peek drp
proof (unfold_locales, goal_cases)
  case (1 q b)
  with size_law(2) have "ring_level (rd q) (wr q + 1) = Suc (ring_level (rd q) (wr q))"
    by (intro ring_level_Suc) simp
  with 1 show ?case by (simp add: put_ring ring_store [OF size_law])
next
  case (2 q)
  then have "rd q \<noteq> wr q" by (simp add: ring_empty_iff)
  with 2 show ?case
    by (simp add: drop_ring peek_ring ring_take [of "rd q" "wr q"] ring_level_pred [of "rd q" "wr q"])
next
  case (3 q)
  then show ?case by simp
qed

end
