(* ===== verification/Pipe.thy ===== *)
theory Pipe
  imports Io_State User_Mem Ring_Buffer
begin

text \<open>
  \<^verbatim>\<open>kernel/pipe.c\<close>: reading, writing and closing a pipe; \<^verbatim>\<open>pipealloc\<close>, which needs the file
  table, is in theory File. A reader or writer that has to wait is the result \<open>Block\<close>; the
  \<open>resume\<close> functions continue it. The buffer is a ring indexed by two 32-bit counters that run
  free, an instance of \<open>counter_ring\<close>; the last section proves that reading and writing treat it
  as a bounded first-in first-out queue.
\<close>

definition PIPESIZE :: nat where "PIPESIZE = 512"

section \<open>One byte in, one byte out\<close>

definition pipe_full :: "pipe \<Rightarrow> bool" where "pipe_full p \<longleftrightarrow> nwrite p = nread p + of_nat PIPESIZE"
definition pipe_empty :: "pipe \<Rightarrow> bool" where "pipe_empty p \<longleftrightarrow> nread p = nwrite p"

definition pipe_put :: "u8 \<Rightarrow> pipe \<Rightarrow> pipe" where
  "pipe_put ch p = p\<lparr>pdata := (pdata p)[unat (nwrite p) mod PIPESIZE := ch], nwrite := nwrite p + 1\<rparr>"

definition pipe_peek :: "pipe \<Rightarrow> u8" where "pipe_peek p = pdata p ! (unat (nread p) mod PIPESIZE)"
definition pipe_drop :: "pipe \<Rightarrow> pipe" where "pipe_drop p = p\<lparr>nread := nread p + 1\<rparr>"

section \<open>The operations of pipe.c\<close>

definition pipeclose :: "u64 \<Rightarrow> bool \<Rightarrow> 'x kio_scheme \<Rightarrow> (unit, 'x kio_scheme) res" where
  "pipeclose pi writable s =
     bnd (acquire (PipeLock pi) s) (\<lambda>_ s.
     bnd (if writable then wakeup (ChPipeRead pi) (upd_pipe pi (\<lambda>p. p\<lparr>writeopen := False\<rparr>) s)
          else wakeup (ChPipeWrite pi) (upd_pipe pi (\<lambda>p. p\<lparr>readopen := False\<rparr>) s)) (\<lambda>_ s.
     if \<not> readopen (pipes s pi) \<and> \<not> writeopen (pipes s pi)
     then bnd (release (PipeLock pi) s) (\<lambda>_ s. kfree pi s)
     else release (PipeLock pi) s))"

function pipewrite_loop :: "u64 \<Rightarrow> u64 \<Rightarrow> int \<Rightarrow> int \<Rightarrow> nat \<Rightarrow> 'x kio_scheme \<Rightarrow> (int, 'x kio_scheme) res" where
  "pipewrite_loop pi addr n i pr s =
     (if i < n
      then bnd (if readopen (pipes s pi) then killed pr s else Ok True s) (\<lambda>k s.
           if k then bnd (release (PipeLock pi) s) (\<lambda>_ s. Ok (-1) s)
           else if pipe_full (pipes s pi)
           then bnd (wakeup (ChPipeRead pi) s) (\<lambda>_ s.
                bnd (sleep (ChPipeWrite pi) (PipeLock pi) s) (\<lambda>_ s. Ok i s))
           else bnd (copyin (pagetable (ptable s ! pr)) (addr + of_int i) 1 s) (\<lambda>(r, bs) s.
                if r = -1
                then bnd (wakeup (ChPipeRead pi) s) (\<lambda>_ s. bnd (release (PipeLock pi) s) (\<lambda>_ s. Ok i s))
                else pipewrite_loop pi addr n (i + 1) pr (upd_pipe pi (pipe_put (hd bs)) s)))
      else bnd (wakeup (ChPipeRead pi) s) (\<lambda>_ s. bnd (release (PipeLock pi) s) (\<lambda>_ s. Ok i s)))"
  by pat_completeness auto
termination
  by (relation "measure (\<lambda>(pi, addr, n, i, pr, s). nat (n - i))") auto

declare pipewrite_loop.simps [simp del]

definition pipewrite :: "u64 \<Rightarrow> u64 \<Rightarrow> int \<Rightarrow> 'x kio_scheme \<Rightarrow> (int, 'x kio_scheme) res" where
  "pipewrite pi addr n =
     with_myproc (\<lambda>pr s. bnd (acquire (PipeLock pi) s) (\<lambda>_ s. pipewrite_loop pi addr n 0 pr s))"

definition pipewrite_resume :: "u64 \<Rightarrow> u64 \<Rightarrow> int \<Rightarrow> int \<Rightarrow> 'x kio_scheme \<Rightarrow> (int, 'x kio_scheme) res" where
  "pipewrite_resume pi addr n i =
     with_myproc (\<lambda>pr s. bnd (sleep_resume (PipeLock pi) s) (\<lambda>_ s. pipewrite_loop pi addr n i pr s))"

text \<open>The copying loop of \<^verbatim>\<open>piperead\<close>, then its two phases.\<close>

function piperead_copy :: "u64 \<Rightarrow> u64 \<Rightarrow> int \<Rightarrow> int \<Rightarrow> nat \<Rightarrow> 'x kio_scheme \<Rightarrow> (int, 'x kio_scheme) res" where
  "piperead_copy pi addr n i pr s =
     (if i < n
      then if pipe_empty (pipes s pi) then Ok i s
           else let ch = pipe_peek (pipes s pi) in
             bnd (copyout (pagetable (ptable s ! pr)) (addr + of_int i) [ch] s) (\<lambda>r s.
             if r = -1 then Ok (if i = 0 then -1 else i) s
             else piperead_copy pi addr n (i + 1) pr (upd_pipe pi pipe_drop s))
      else Ok i s)"
  by pat_completeness auto
termination
  by (relation "measure (\<lambda>(pi, addr, n, i, pr, s). nat (n - i))") auto

declare piperead_copy.simps [simp del]

definition piperead_loop :: "u64 \<Rightarrow> u64 \<Rightarrow> int \<Rightarrow> nat \<Rightarrow> 'x kio_scheme \<Rightarrow> (int, 'x kio_scheme) res" where
  "piperead_loop pi addr n pr s =
     (if pipe_empty (pipes s pi) \<and> writeopen (pipes s pi)
      then bnd (killed pr s) (\<lambda>k s.
           if k then bnd (release (PipeLock pi) s) (\<lambda>_ s. Ok (-1) s)
           else bnd (sleep (ChPipeRead pi) (PipeLock pi) s) (\<lambda>_ s. Ok 0 s))
      else bnd (piperead_copy pi addr n 0 pr s) (\<lambda>i s.
           bnd (wakeup (ChPipeWrite pi) s) (\<lambda>_ s.
           bnd (release (PipeLock pi) s) (\<lambda>_ s. Ok i s))))"

definition piperead :: "u64 \<Rightarrow> u64 \<Rightarrow> int \<Rightarrow> 'x kio_scheme \<Rightarrow> (int, 'x kio_scheme) res" where
  "piperead pi addr n =
     with_myproc (\<lambda>pr s. bnd (acquire (PipeLock pi) s) (\<lambda>_ s. piperead_loop pi addr n pr s))"

definition piperead_resume :: "u64 \<Rightarrow> u64 \<Rightarrow> int \<Rightarrow> 'x kio_scheme \<Rightarrow> (int, 'x kio_scheme) res" where
  "piperead_resume pi addr n =
     with_myproc (\<lambda>pr s. bnd (sleep_resume (PipeLock pi) s) (\<lambda>_ s. piperead_loop pi addr n pr s))"

section \<open>The buffer is a bounded queue\<close>

definition pipe_contents :: "pipe \<Rightarrow> u8 list" where
  "pipe_contents p = ring_contents PIPESIZE (pdata p) (nread p) (nwrite p)"

definition pipe_ok :: "pipe \<Rightarrow> bool" where
  "pipe_ok p \<longleftrightarrow> length (pdata p) = PIPESIZE \<and> ring_level (nread p) (nwrite p) \<le> PIPESIZE"

interpretation pq: counter_ring PIPESIZE pdata nread nwrite pipe_put pipe_peek pipe_drop
  by unfold_locales (simp_all add: PIPESIZE_def pipe_put_def pipe_drop_def pipe_peek_def)

lemma pipe_put_queue:
  "pipe_ok p \<Longrightarrow> length (pipe_contents p) < PIPESIZE \<Longrightarrow>
     pipe_ok (pipe_put b p) \<and> pipe_contents (pipe_put b p) = pipe_contents p @ [b]"
  using pq.put_law [of p b] by (simp add: pipe_ok_def pipe_contents_def)

lemma pipe_drop_queue:
  "pipe_ok p \<Longrightarrow> pipe_contents p \<noteq> [] \<Longrightarrow>
     pipe_ok (pipe_drop p) \<and> pipe_contents p = pipe_peek p # pipe_contents (pipe_drop p)"
  using pq.drop_law [of p] by (simp add: pipe_ok_def pipe_contents_def)

lemma pipe_empty_iff: "pipe_empty p \<longleftrightarrow> pipe_contents p = []"
  by (simp add: pipe_empty_def pipe_contents_def ring_empty_iff)

lemma pipe_full_iff: "pipe_ok p \<Longrightarrow> pipe_full p \<longleftrightarrow> length (pipe_contents p) = PIPESIZE"
proof -
  have "nwrite p = nread p + 512 \<longleftrightarrow> nwrite p - nread p = 512" by (auto simp: algebra_simps)
  also have "\<dots> \<longleftrightarrow> unat (nwrite p - nread p) = 512" by (simp add: word_unat_eq_iff)
  finally show ?thesis
    by (simp add: pipe_full_def pipe_contents_def ring_level_def PIPESIZE_def)
qed

lemma pipe_contents_le: "pipe_ok p \<Longrightarrow> length (pipe_contents p) \<le> PIPESIZE"
  by (simp add: pipe_ok_def pipe_contents_def)

text \<open>
  C28. The pipe buffer is a first-in first-out queue of at most 512 bytes, also when its counters
  wrap: the tests of the code are those of the empty and the full queue, a byte is stored at the
  end of a queue that is not full, and what is read is the front of a queue that is not empty.
\<close>

theorem pipe_is_bounded_queue:
  assumes "pipe_ok p"
  shows "(pipe_empty p \<longleftrightarrow> pipe_contents p = []) \<and>
    (pipe_full p \<longleftrightarrow> length (pipe_contents p) = PIPESIZE) \<and>
    (\<not> pipe_full p \<longrightarrow> pipe_ok (pipe_put b p) \<and> pipe_contents (pipe_put b p) = pipe_contents p @ [b]) \<and>
    (\<not> pipe_empty p \<longrightarrow> pipe_ok (pipe_drop p) \<and> pipe_contents p = pipe_peek p # pipe_contents (pipe_drop p))"
  using assms pipe_put_queue [of p b] pipe_drop_queue [of p] pipe_contents_le [of p]
  by (auto simp: pipe_empty_iff pipe_full_iff)

text \<open>Three bytes of a buffer whose write counter has wrapped.\<close>

definition wrapped_pipe :: pipe where
  "wrapped_pipe = \<lparr>pdata = map of_nat [0..<512], nread = 0xFFFFFFFF, nwrite = 2, readopen = True, writeopen = True\<rparr>"

lemma wrapped_pipe_facts: "pipe_ok wrapped_pipe" "pipe_contents wrapped_pipe = [255, 0, 1]"
proof -
  have u: "upt 0 3 = [0, 1, 2 :: nat]" by (simp add: upt_rec)
  show "pipe_ok wrapped_pipe" "pipe_contents wrapped_pipe = [255, 0, 1]"
    by (simp_all add: pipe_ok_def pipe_contents_def wrapped_pipe_def PIPESIZE_def ring_contents_def ring_level_def u)
qed

theorem pipe_is_bounded_queue_witness:
  "pipe_contents (pipe_put 7 wrapped_pipe) = pipe_contents wrapped_pipe @ [7] \<and>
   pipe_contents wrapped_pipe = 255 # pipe_contents (pipe_drop wrapped_pipe)"
proof -
  have "\<not> pipe_full wrapped_pipe" "\<not> pipe_empty wrapped_pipe"
    by (simp_all add: pipe_full_def pipe_empty_def wrapped_pipe_def PIPESIZE_def)
  moreover have "pipe_peek wrapped_pipe = 255"
    by (simp add: pipe_peek_def wrapped_pipe_def PIPESIZE_def)
  ultimately show ?thesis using pipe_is_bounded_queue [OF wrapped_pipe_facts(1), of 7] by simp
qed

section \<open>Reading and writing through the system calls\<close>

text \<open>\<open>q\<close> is the pipe before: what a read that has copied \<open>i\<close> bytes still does.\<close>

definition front_taken :: "pipe \<Rightarrow> int \<Rightarrow> int \<Rightarrow> int \<Rightarrow> pipe \<Rightarrow> bool" where
  "front_taken q n i r q' \<longleftrightarrow> (\<exists>k. pipe_ok q' \<and> pipe_contents q' = drop k (pipe_contents q) \<and>
     k \<le> length (pipe_contents q) \<and> int k \<le> max (n - i) 0 \<and>
     (r = i + int k \<and> (k = 0 \<longrightarrow> n \<le> i \<or> pipe_contents q = []) \<or> r = -1 \<and> i = 0 \<and> k = 0 \<or>
      r = i + int k \<and> 0 < i + int k))"

lemma front_taken_0: "pipe_ok q \<Longrightarrow> n \<le> i \<or> pipe_contents q = [] \<Longrightarrow> front_taken q n i i q"
  unfolding front_taken_def by (rule exI [of _ 0]) auto

lemma front_taken_fail: "pipe_ok q \<Longrightarrow> 0 \<le> i \<Longrightarrow> front_taken q n i (if i = 0 then -1 else i) q"
  unfolding front_taken_def by (rule exI [of _ 0]) auto

lemma front_taken_Suc:
  assumes "pipe_ok q" "pipe_contents q \<noteq> []" "i < n" "0 \<le> i" "front_taken (pipe_drop q) n (i + 1) r q'"
  shows "front_taken q n i r q'"
proof -
  have d: "pipe_contents q = pipe_peek q # pipe_contents (pipe_drop q)"
    using pipe_drop_queue [OF assms(1,2)] by simp
  have e: "length (pipe_contents q) = Suc (length (pipe_contents (pipe_drop q)))"
    "drop (Suc k) (pipe_contents q) = drop k (pipe_contents (pipe_drop q))" for k
    by (subst d, simp)+
  from assms(5) obtain k where k: "pipe_ok q'" "pipe_contents q' = drop k (pipe_contents (pipe_drop q))"
    "k \<le> length (pipe_contents (pipe_drop q))" "int k \<le> max (n - (i + 1)) 0" "r = i + 1 + int k"
    unfolding front_taken_def using assms(4) by auto
  show ?thesis
    unfolding front_taken_def using k assms(3,4) by (intro exI [of _ "Suc k"]) (auto simp: e)
qed

lemma piperead_copy_wp:
  "pipe_ok (pipes s pi) \<Longrightarrow> 0 \<le> i \<Longrightarrow>
     wp (\<lambda>r t. front_taken (pipes s pi) n i r (pipes t pi)) (\<lambda>_ _. False) (piperead_copy pi addr n i pr s)"
proof (induction pi addr n i pr s rule: piperead_copy.induct)
  case (1 pi addr n i pr s)
  show ?case
  proof (cases "i < n \<and> \<not> pipe_empty (pipes s pi)")
    case False
    with "1.prems" show ?thesis
      by (subst piperead_copy.simps) (auto simp: pipe_empty_iff intro: front_taken_0)
  next
    case True
    let ?q = "pipes s pi"
    have ne: "pipe_contents ?q \<noteq> []" using True by (simp add: pipe_empty_iff)
    have ok: "pipe_ok (pipe_drop ?q)" using pipe_drop_queue [OF "1.prems"(1) ne] by simp
    show ?thesis
      unfolding piperead_copy.simps [of pi addr n i pr s] Let_def if_P [OF conjunct1 [OF True]] if_not_P [OF conjunct2 [OF True]]
    proof (intro wp_bnd copyout_wp)
      fix r :: int and u
      assume c: "copyout (pagetable (ptable s ! pr)) (addr + of_int i) [pipe_peek ?q] s = Ok r u" and "kframe s u"
      then have pu: "pipes u = pipes s" using more_io(1) kframe_more by blast
      have step: "front_taken (pipe_drop ?q) n (i + 1) r' q' \<Longrightarrow> front_taken ?q n i r' q'" for r' q'
        using front_taken_Suc [OF "1.prems"(1) ne] True "1.prems"(2) by auto
      have IH: "r \<noteq> -1 \<Longrightarrow> wp (\<lambda>r t. front_taken (pipe_drop ?q) n (i + 1) r (pipes t pi)) (\<lambda>_ _. False)
        (piperead_copy pi addr n (i + 1) pr (upd_pipe pi pipe_drop u))"
        using "1.IH" [of "pipe_peek ?q" r u] True ok "1.prems"(2) pu c by auto
      show "wp (\<lambda>r t. front_taken ?q n i r (pipes t pi)) (\<lambda>_ _. False)
         (if r = -1 then Ok (if i = 0 then -1 else i) u
          else piperead_copy pi addr n (i + 1) pr (upd_pipe pi pipe_drop u))"
        using front_taken_fail [OF "1.prems"(1,2)] pu step wp_mono [OF IH] by auto
    qed
  qed
qed

text \<open>
  C30. A read from a pipe that returns has removed the first k bytes of the queue and nothing
  else, for a k of at most n; it returns k, or -1 with nothing removed. It returns 0 for
  a positive count only at the end of the file: queue empty and no writer left. It sleeps only
  when the queue is empty and there is a writer, and then has changed nothing in any pipe.
\<close>

theorem piperead_takes_front:
  assumes "pipe_ok (pipes s pi)"
  shows "wp (\<lambda>r t. \<exists>k. pipe_ok (pipes t pi) \<and> pipe_contents (pipes t pi) = drop k (pipe_contents (pipes s pi)) \<and>
        k \<le> length (pipe_contents (pipes s pi)) \<and> k \<le> nat n \<and> (r = int k \<or> r = -1 \<and> k = 0) \<and>
        (r = 0 \<and> 0 < n \<longrightarrow> pipe_contents (pipes s pi) = [] \<and> \<not> writeopen (pipes s pi)))
     (\<lambda>c t. pipe_contents (pipes s pi) = [] \<and> writeopen (pipes s pi) \<and> pipes t = pipes s)
     (piperead pi addr n s)"
  unfolding piperead_def piperead_loop_def
proof (intro with_myproc_wp wp_bnd acquire_wp, goal_cases)
  case (1 pr)
  let ?Q = "\<lambda>r t. \<exists>k. pipe_ok (pipes t pi) \<and> pipe_contents (pipes t pi) = drop k (pipe_contents (pipes s pi)) \<and>
        k \<le> length (pipe_contents (pipes s pi)) \<and> k \<le> nat n \<and> (r = int k \<or> r = -1 \<and> k = 0) \<and>
        (r = 0 \<and> 0 < n \<longrightarrow> pipe_contents (pipes s pi) = [] \<and> \<not> writeopen (pipes s pi))"
  let ?B = "\<lambda>c t. pipe_contents (pipes s pi) = [] \<and> writeopen (pipes s pi) \<and> pipes t = pipes s"
  let ?u = "s\<lparr>held := PipeLock pi # held s\<rparr>"
  have stay: "?Q (-1) t" if "pipes t = pipes s" for t
    using that assms by (intro exI [of _ 0]) auto
  have took: "?Q r t" if "front_taken (pipes s pi) n 0 r (pipes t pi)"
    "\<not> (pipe_empty (pipes s pi) \<and> writeopen (pipes s pi))" for r t
    using that unfolding front_taken_def by (auto simp: pipe_empty_iff)
  show ?case
  proof (cases "pipe_empty (pipes s pi) \<and> writeopen (pipes s pi)")
    case True
    then have e: "pipe_contents (pipes s pi) = []" "writeopen (pipes s pi)" by (simp_all add: pipe_empty_iff)
    have "wp ?Q ?B (bnd (killed pr ?u) (\<lambda>k s. if k then bnd (release (PipeLock pi) s) (\<lambda>_. Ok (-1))
        else bnd (sleep (ChPipeRead pi) (PipeLock pi) s) (\<lambda>_. Ok 0)))"
    proof (intro wp_bnd killed_wp)
      fix k t
      assume "kproc.more t = kproc.more ?u"
      then have pt: "pipes t = pipes s" using more_io(1) [of t ?u] by simp
      have "wp ?Q ?B (bnd (release (PipeLock pi) t) (\<lambda>_. Ok (-1)))"
        by (intro wp_bnd release_wp) (simp only: wp_simps, rule stay, simp add: pt)
      moreover have "wp ?Q ?B (bnd (sleep (ChPipeRead pi) (PipeLock pi) t) (\<lambda>_. Ok 0))"
        by (intro wp_bnd sleep_wp) (drule more_io(1), simp add: e pt)
      ultimately show "wp ?Q ?B (if k then bnd (release (PipeLock pi) t) (\<lambda>_. Ok (-1))
          else bnd (sleep (ChPipeRead pi) (PipeLock pi) t) (\<lambda>_. Ok 0))" by simp
    qed
    with True show ?thesis by simp
  next
    case False
    have c: "\<not> (pipe_empty (pipes ?u pi) \<and> writeopen (pipes ?u pi))" using False by simp
    have A: "wp (\<lambda>r t. front_taken (pipes s pi) n 0 r (pipes t pi)) (\<lambda>_ _. False) (piperead_copy pi addr n 0 pr ?u)"
      using piperead_copy_wp [of ?u pi 0 n addr pr] assms by simp
    have R: "wp (\<lambda>r' t. ?Q r' t) D (bnd (wakeup (ChPipeWrite pi) t) (\<lambda>_ s. bnd (release (PipeLock pi) s) (\<lambda>_ s. Ok r s)))"
      if "front_taken (pipes s pi) n 0 r (pipes t pi)" for r t D
    proof (intro wp_bnd wakeup_wp release_wp)
      fix v
      assume "kproc.more v = kproc.more t"
      then have "pipes v = pipes t" by (rule more_io(1))
      with that have "front_taken (pipes s pi) n 0 r (pipes (v\<lparr>held := remove1 (PipeLock pi) (held v)\<rparr>) pi)" by simp
      from took [OF this False] show "wp ?Q D (Ok r (v\<lparr>held := remove1 (PipeLock pi) (held v)\<rparr>))"
        by (simp only: wp_simps)
    qed
    show ?thesis
      unfolding if_not_P [OF c] by (rule wp_bnd, rule wp_mono [OF A], erule R, erule FalseE)
  qed
qed

text \<open>
  A process in the middle of a system call: it runs, and its page table is well-formed.
\<close>

definition in_syscall :: "nat \<Rightarrow> 'x kproc_scheme \<Rightarrow> bool" where
  "in_syscall p s \<longleftrightarrow> curproc s = Some p \<and> p < NPROC \<and> length (ptable s) = NPROC \<and>
     sz (ptable s ! p) \<le> MAXVA \<and> user_mem s (pagetable (ptable s ! p))"

text \<open>
  What a write by process \<open>p\<close> from user address \<open>addr\<close> has done to the pipe between \<open>s\<close> and \<open>t\<close>, of
  which the call has stored \<open>i\<close> bytes before \<open>s\<close> and \<open>k\<close> since; and that it has waked the readers.
\<close>

definition bytes_sent :: "u64 \<Rightarrow> u64 \<Rightarrow> int \<Rightarrow> nat \<Rightarrow> nat \<Rightarrow> 'x kio_scheme \<Rightarrow> 'x kio_scheme \<Rightarrow> bool" where
  "bytes_sent pi addr i p k s t \<longleftrightarrow> pipe_ok (pipes t pi) \<and>
     pipe_contents (pipes t pi) = pipe_contents (pipes s pi) @
       map (\<lambda>j. user_byte s (pagetable (ptable s ! p)) (addr + of_int (i + int j))) [0..<k] \<and>
     (\<exists>d w. pipes t = (pipes s)(pi := (pipes s pi)\<lparr>pdata := d, nwrite := w\<rparr>)) \<and>
     same_user (pagetable (ptable s ! p)) (sz (ptable s ! p)) s t"

definition others_waked :: "chan \<Rightarrow> nat \<Rightarrow> 'x kproc_scheme \<Rightarrow> 'x kproc_scheme \<Rightarrow> bool" where
  "others_waked c p s t \<longleftrightarrow>
     length (ptable t) = NPROC \<and> (\<forall>j<NPROC. j \<noteq> p \<longrightarrow> ptable t ! j = woken c (Some p) j (ptable s ! j))"

text \<open>A byte that is not copied in: a bad address, or a page to fault in and no memory for it.\<close>

definition copy_stopped :: "nat \<Rightarrow> 'x kproc_scheme \<Rightarrow> 'x kproc_scheme \<Rightarrow> u64 \<Rightarrow> bool" where
  "copy_stopped p s t va \<longleftrightarrow> user_bad s (pagetable (ptable s ! p)) (sz (ptable s ! p)) va \<or>
     lookup t (pagetable (ptable s ! p)) (PGROUNDDOWN va) = None \<and> length (freelist t) \<le> 2"

text \<open>
  The outcomes of \<^verbatim>\<open>pipewrite\<close> from the point where \<open>i\<close> of the \<open>n\<close> bytes are stored: -1 when there
  are bytes to write and the pipe has no reader or the writer is killed; the number of bytes stored;
  or asleep on a full pipe.
\<close>

definition pipe_written :: "u64 \<Rightarrow> u64 \<Rightarrow> int \<Rightarrow> int \<Rightarrow> nat \<Rightarrow> 'x kio_scheme \<Rightarrow> (int, 'x kio_scheme) res \<Rightarrow> bool" where
  "pipe_written pi addr n i p s res \<longleftrightarrow>
     (let stop = (\<not> readopen (pipes s pi) \<or> pkilled (ptable s ! p) \<noteq> 0) in
      case res of
        Ok r t \<Rightarrow> held t = [] \<and>
          (if i < n \<and> stop then r = -1 \<and> bytes_sent pi addr i p 0 s t \<and> ptable t = ptable s
           else \<exists>k. r = i + int k \<and> k \<le> nat (n - i) \<and> bytes_sent pi addr i p k s t \<and>
             others_waked (ChPipeRead pi) p s t \<and> ptable t ! p = ptable s ! p \<and>
             (n \<le> r \<or> copy_stopped p s t (addr + of_int r)))
      | Block c t \<Rightarrow> c = ChPipeWrite pi \<and> held t = [ProcLock p] \<and> \<not> stop \<and>
          (\<exists>k. i + int k < n \<and> bytes_sent pi addr i p k s t \<and> pipe_full (pipes t pi) \<and>
             others_waked (ChPipeRead pi) p s t \<and>
             ptable t ! p = (ptable s ! p)\<lparr>pchan := Some c, state := SLEEPING\<rparr>)
      | Panic m \<Rightarrow> False)"

lemma killed_eq: "ProcLock p \<notin> set (held s) \<Longrightarrow> killed p s = Ok (pkilled (ptable s ! p) \<noteq> 0) s"
  by (simp add: killed_def Let_def)

lemma in_syscall_D:
  assumes "in_syscall p s"
  shows "curproc s = Some p" "p < NPROC" "length (ptable s) = NPROC" "sz (ptable s ! p) \<le> MAXVA"
    "user_mem s (pagetable (ptable s ! p))"
  using assms by (simp_all add: in_syscall_def)


lemma bytes_sent_0: "pipe_ok (pipes s pi) \<Longrightarrow> pipes t = pipes s \<Longrightarrow>
    same_user (pagetable (ptable s ! p)) (sz (ptable s ! p)) s t \<Longrightarrow> bytes_sent pi addr i p 0 s t"
  unfolding bytes_sent_def by (auto intro!: exI [of _ "pdata (pipes s pi)"] exI [of _ "nwrite (pipes s pi)"])

text \<open>The byte at \<open>i\<close> is stored between \<open>s\<close> and \<open>u\<close>, the rest between \<open>u\<close> and \<open>t\<close>.\<close>

lemma bytes_sent_Suc:
  assumes "pipe_ok (pipes s pi)" "\<not> pipe_full (pipes s pi)"
    and b: "b = user_byte s (pagetable (ptable s ! p)) (addr + of_int i)"
    and su: "same_user (pagetable (ptable s ! p)) (sz (ptable s ! p)) s u"
    and pu: "pipes u = (pipes s)(pi := pipe_put b (pipes s pi))" "ptable u = ptable s"
    and "bytes_sent pi addr (i + 1) p k u t"
  shows "bytes_sent pi addr i p (Suc k) s t"
proof -
  let ?pt = "pagetable (ptable s ! p)"
  have "length (pipe_contents (pipes s pi)) < PIPESIZE"
    using assms(1,2) pipe_full_iff [of "pipes s pi"] pipe_contents_le [of "pipes s pi"] by auto
  then have c: "pipe_contents (pipe_put b (pipes s pi)) = pipe_contents (pipes s pi) @ [b]"
    using pipe_put_queue [OF assms(1)] by simp
  have ub: "user_byte u ?pt = user_byte s ?pt" using su by (simp add: same_user_def)
  have "map (\<lambda>j. user_byte s ?pt (addr + of_int (i + int j))) [0..<Suc k] =
      b # map (\<lambda>j. user_byte s ?pt (addr + of_int (i + 1 + int j))) [0..<k]"
    unfolding upt_conv_Cons [OF zero_less_Suc] map_Suc_upt [symmetric] by (simp add: b algebra_simps)
  with assms(7) c ub pu same_user_trans [OF su] show ?thesis
    unfolding bytes_sent_def by (auto simp: pipe_put_def)
qed

lemma copy_stopped_cong: "same_user (pagetable (ptable s ! p)) (sz (ptable s ! p)) s u \<Longrightarrow> ptable u = ptable s \<Longrightarrow>
    copy_stopped p u t va \<longleftrightarrow> copy_stopped p s t va"
  by (simp add: copy_stopped_def same_user_def)

lemma pipe_written_Suc:
  assumes "pipe_ok (pipes s pi)" "\<not> pipe_full (pipes s pi)" "i < n" "readopen (pipes s pi)" "pkilled (ptable s ! p) = 0"
    and b: "b = user_byte s (pagetable (ptable s ! p)) (addr + of_int i)"
    and su: "same_user (pagetable (ptable s ! p)) (sz (ptable s ! p)) s u"
    and pu: "pipes u = (pipes s)(pi := pipe_put b (pipes s pi))" "ptable u = ptable s"
    and W: "pipe_written pi addr n (i + 1) p u res"
  shows "pipe_written pi addr n i p s res"
proof -
  note S = bytes_sent_Suc [OF assms(1,2) b su pu]
  have st: "readopen (pipes u pi)" "pkilled (ptable u ! p) = 0"
    using assms(4,5) pu by (simp_all add: pipe_put_def)
  note C = copy_stopped_cong [OF su pu(2)]
  show ?thesis
  proof (cases res)
    case (Ok r t)
    then obtain k where "held t = []" "r = i + 1 + int k" "k \<le> nat (n - (i + 1))" "bytes_sent pi addr (i + 1) p k u t"
      "others_waked (ChPipeRead pi) p u t" "ptable t ! p = ptable u ! p"
      "n \<le> r \<or> copy_stopped p u t (addr + of_int r)"
      using W st by (auto simp: pipe_written_def)
    with Ok S [of k] assms(3-5) C pu(2) show ?thesis
      by (auto simp: pipe_written_def others_waked_def intro!: exI [of _ "Suc k"])
  next
    case (Block c t)
    then obtain k where "c = ChPipeWrite pi" "held t = [ProcLock p]" "i + 1 + int k < n" "bytes_sent pi addr (i + 1) p k u t"
      "pipe_full (pipes t pi)" "others_waked (ChPipeRead pi) p u t"
      "ptable t ! p = (ptable u ! p)\<lparr>pchan := Some c, state := SLEEPING\<rparr>"
      using W by (auto simp: pipe_written_def)
    with Block S [of k] assms(3-5) pu(2) show ?thesis
      by (auto simp: pipe_written_def others_waked_def intro!: exI [of _ "Suc k"])
  next
    case (Panic m)
    then show ?thesis using W by (simp add: pipe_written_def)
  qed
qed

lemma in_syscall_frame:
  assumes "in_syscall p s" "ptable t = ptable s" "curproc t = curproc s" "user_mem t (pagetable (ptable s ! p))"
  shows "in_syscall p t"
  using assms by (simp add: in_syscall_def)

text \<open>The three ways out of the loop.\<close>

lemma pipewrite_stop:
  assumes "held s = [PipeLock pi]" "in_syscall p s" "pipe_ok (pipes s pi)" "i < n"
    and "\<not> readopen (pipes s pi) \<or> pkilled (ptable s ! p) \<noteq> 0"
  shows "pipe_written pi addr n i p s (bnd (release (PipeLock pi) s) (\<lambda>_. Ok (-1)))"
proof -
  have "same_user (pagetable (ptable s ! p)) (sz (ptable s ! p)) s (s\<lparr>held := []\<rparr>)"
    by (rule same_user_cong [where s = s]) (simp_all add: same_user_refl in_syscall_D [OF assms(2)])
  then show ?thesis
    using assms by (auto simp: pipe_written_def intro: bytes_sent_0)
qed

text \<open>What follows a failing or the last copy, from a state that has the pipe and the user's bytes of \<open>s\<close>.\<close>

lemma pipewrite_wake:
  assumes "held u = [PipeLock pi]" "in_syscall p u" "pipe_ok (pipes s pi)" "pipes u = pipes s" "ptable u = ptable s"
    and "same_user (pagetable (ptable s ! p)) (sz (ptable s ! p)) s u"
    and "\<not> (i < n \<and> (\<not> readopen (pipes s pi) \<or> pkilled (ptable s ! p) \<noteq> 0))"
    and "n \<le> i \<or> copy_stopped p s u (addr + of_int i)"
  shows "pipe_written pi addr n i p s
    (bnd (wakeup (ChPipeRead pi) u) (\<lambda>_ s. bnd (release (PipeLock pi) s) (\<lambda>_ s. Ok i s)))"
proof -
  note D = in_syscall_D [OF assms(2)]
  let ?l = "map (\<lambda>j. woken (ChPipeRead pi) (curproc u) j (ptable u ! j)) [0..<NPROC]"
  let ?t = "u\<lparr>ptable := ?l, held := []\<rparr>"
  have w: "wakeup (ChPipeRead pi) u = Ok () (u\<lparr>ptable := ?l\<rparr>)"
    by (rule wakeup_eq) (simp add: proc_locks_free_def assms(1) D)
  have su: "same_user (pagetable (ptable s ! p)) (sz (ptable s ! p)) s ?t"
    by (rule same_user_cong [OF _ _ _ _ assms(6)]) simp_all
  have l: "(\<forall>j<NPROC. j \<noteq> p \<longrightarrow> ?l ! j = woken (ChPipeRead pi) (Some p) j (ptable s ! j)) \<and> ?l ! p = ptable s ! p"
    using D(1,2) assms(5) by (simp add: woken_def)
  have cs: "copy_stopped p s ?t = copy_stopped p s u"
    using lookup_transfer [of ?t u] by (simp add: copy_stopped_def fun_eq_iff)
  have b: "bytes_sent pi addr i p 0 s ?t" using assms(3,4) su by (intro bytes_sent_0) simp_all
  have "\<exists>k. i = i + int k \<and> k \<le> nat (n - i) \<and> bytes_sent pi addr i p k s ?t \<and>
       others_waked (ChPipeRead pi) p s ?t \<and> ptable ?t ! p = ptable s ! p \<and>
       (n \<le> i \<or> copy_stopped p s ?t (addr + of_int i))"
    using b l assms(8) by (intro exI [of _ 0]) (simp add: others_waked_def cs)
  moreover have r: "bnd (wakeup (ChPipeRead pi) u) (\<lambda>_ s. bnd (release (PipeLock pi) s) (\<lambda>_ s. Ok i s)) = Ok i ?t"
    using w assms(1) by simp
  ultimately show ?thesis
    unfolding r pipe_written_def Let_def res.case if_not_P [OF assms(7)] by simp
qed

lemma pipewrite_full:
  assumes "held s = [PipeLock pi]" "in_syscall p s" "pipe_ok (pipes s pi)" "pipe_full (pipes s pi)" "i < n"
    and "readopen (pipes s pi)" "pkilled (ptable s ! p) = 0"
  shows "pipe_written pi addr n i p s
    (bnd (wakeup (ChPipeRead pi) s) (\<lambda>_ s. bnd (sleep (ChPipeWrite pi) (PipeLock pi) s) (\<lambda>_ s. Ok i s)))"
proof -
  note D = in_syscall_D [OF assms(2)]
  let ?l = "map (\<lambda>j. woken (ChPipeRead pi) (curproc s) j (ptable s ! j)) [0..<NPROC]"
  let ?c = "ChPipeWrite pi"
  let ?t = "upd_proc p (\<lambda>q. q\<lparr>pchan := Some ?c, state := SLEEPING\<rparr>) (s\<lparr>ptable := ?l, held := [ProcLock p]\<rparr>)"
  have w: "wakeup (ChPipeRead pi) s = Ok () (s\<lparr>ptable := ?l\<rparr>)"
    by (rule wakeup_eq) (simp add: proc_locks_free_def assms(1) D)
  have lp: "?l ! p = ptable s ! p" using D(1,2) by (simp add: woken_def)
  have r: "bnd (wakeup (ChPipeRead pi) s) (\<lambda>_ s. bnd (sleep ?c (PipeLock pi) s) (\<lambda>_ s. Ok i s)) = Block ?c ?t"
    using w assms(1) D(1-3) by (simp add: sleep_def with_myproc_def sched_def holding_def upd_proc_def)
  have su: "same_user (pagetable (ptable s ! p)) (sz (ptable s ! p)) s ?t"
    unfolding upd_proc_def by (rule same_user_cong [where s = s]) (simp_all add: same_user_refl D(5))
  have pt: "ptable ?t = ?l[p := (ptable s ! p)\<lparr>pchan := Some ?c, state := SLEEPING\<rparr>]"
    using lp by (simp add: upd_proc_def)
  have ps: "pipes ?t = pipes s" "held ?t = [ProcLock p]" by (simp_all add: upd_proc_def)
  have "others_waked (ChPipeRead pi) p s ?t" using D(1) by (auto simp: others_waked_def pt)
  moreover have "ptable ?t ! p = (ptable s ! p)\<lparr>pchan := Some ?c, state := SLEEPING\<rparr>" using D(2) by (simp add: pt)
  moreover have "bytes_sent pi addr i p 0 s ?t" by (rule bytes_sent_0 [OF assms(3) ps(1) su])
  ultimately have "\<exists>k. i + int k < n \<and> bytes_sent pi addr i p k s ?t \<and> pipe_full (pipes ?t pi) \<and>
      others_waked (ChPipeRead pi) p s ?t \<and> ptable ?t ! p = (ptable s ! p)\<lparr>pchan := Some ?c, state := SLEEPING\<rparr>"
    using assms(4,5) ps(1) by (intro exI [of _ 0]) simp
  then show ?thesis unfolding r using ps(2) assms(6,7) by (simp add: pipe_written_def Let_def)
qed

lemma pipewrite_loop_written:
  "held s = [PipeLock pi] \<Longrightarrow> in_syscall p s \<Longrightarrow> pipe_ok (pipes s pi) \<Longrightarrow>
     pipe_written pi addr n i p s (pipewrite_loop pi addr n i p s)"
proof (induction pi addr n i p s rule: pipewrite_loop.induct)
  case (1 pi addr n i p s)
  note D = in_syscall_D [OF "1.prems"(2)]
  have k: "killed p s = Ok (pkilled (ptable s ! p) \<noteq> 0) s" by (rule killed_eq) (simp add: "1.prems"(1))
  consider (done') "\<not> i < n" | (stop) "i < n" "\<not> readopen (pipes s pi) \<or> pkilled (ptable s ! p) \<noteq> 0"
    | (full) "i < n" "readopen (pipes s pi)" "pkilled (ptable s ! p) = 0" "pipe_full (pipes s pi)"
    | (copy) "i < n" "readopen (pipes s pi)" "pkilled (ptable s ! p) = 0" "\<not> pipe_full (pipes s pi)"
    by blast
  then show ?case
  proof cases
    case done'
    then show ?thesis
      using pipewrite_wake [OF "1.prems"(1-3) refl refl, of i n addr] D(5)
      by (subst pipewrite_loop.simps) (simp add: same_user_refl)
  next
    case stop
    then show ?thesis
      using pipewrite_stop [OF "1.prems" stop] k by (subst pipewrite_loop.simps) (auto split: if_splits)
  next
    case full
    then show ?thesis
      using pipewrite_full [OF "1.prems" full(4,1-3)] k by (subst pipewrite_loop.simps) simp
  next
    case copy
    let ?pt = "pagetable (ptable s ! p)"
    let ?siz = "sz (ptable s ! p)"
    obtain r bs u where c: "copyin ?pt (addr + of_int i) 1 s = Ok (r, bs) u" "same_user ?pt ?siz s u"
      "if r = -1 then user_bad s ?pt ?siz (addr + of_int i) \<or>
         lookup u ?pt (PGROUNDDOWN (addr + of_int i)) = None \<and> length (freelist u) \<le> 2
       else r = 0 \<and> bs = [user_byte s ?pt (addr + of_int i)] \<and> \<not> user_bad s ?pt ?siz (addr + of_int i)"
      using copyin_byte [OF D(5,1) refl refl D(4)] by blast
    have fr: "kframe s u" by (rule frameD [OF _ c(1)]) (rule copyin_frame)
    have u: "held u = [PipeLock pi]" "ptable u = ptable s" "curproc u = curproc s" "pipes u = pipes s"
      using kframe_proc(1,13,14) [OF fr] "1.prems"(1) more_io(1) [OF kframe_more [OF fr]] by simp_all
    have syc: "in_syscall p u"
      by (rule in_syscall_frame [OF "1.prems"(2) u(2,3)]) (use c(2) in \<open>simp add: same_user_def\<close>)
    show ?thesis
    proof (cases "r = -1")
      case True
      then have "copy_stopped p s u (addr + of_int i)" using c(3) by (simp add: copy_stopped_def)
      then have "pipe_written pi addr n i p s
          (bnd (wakeup (ChPipeRead pi) u) (\<lambda>_ s. bnd (release (PipeLock pi) s) (\<lambda>_ s. Ok i s)))"
        using copy by (intro pipewrite_wake [OF u(1) syc "1.prems"(3) u(4,2) c(2)]) simp_all
      then show ?thesis using copy k c(1) True by (subst pipewrite_loop.simps) simp
    next
      case False
      let ?b = "user_byte s ?pt (addr + of_int i)"
      let ?v = "upd_pipe pi (pipe_put ?b) u"
      have v: "held ?v = [PipeLock pi]" "ptable ?v = ptable s" "curproc ?v = curproc s"
        "pipes ?v = (pipes s)(pi := pipe_put ?b (pipes s pi))"
        using u by (simp_all add: upd_pipe_def)
      have sv: "same_user ?pt ?siz s ?v"
        by (rule same_user_cong [OF _ _ _ _ c(2)]) (simp_all add: u upd_pipe_def)
      have ok: "pipe_ok (pipe_put ?b (pipes s pi))"
        using copy(4) pipe_put_queue [OF "1.prems"(3)] pipe_full_iff [OF "1.prems"(3)] pipe_contents_le [OF "1.prems"(3)]
        by auto
      have syv: "in_syscall p ?v"
        by (rule in_syscall_frame [OF "1.prems"(2) v(2,3)]) (use sv in \<open>simp add: same_user_def\<close>)
      have bs: "hd bs = ?b" using c(3) False by simp
      have "pipe_written pi addr n (i + 1) p ?v (pipewrite_loop pi addr n (i + 1) p ?v)"
        using "1.IH" [of "False" s "(r, bs)" u r bs u] copy k c(1) False syv ok v by (simp add: bs)
      from pipe_written_Suc [OF "1.prems"(3) copy(4,1-3) refl sv v(4,2) this]
      show ?thesis using copy k c(1) False by (subst pipewrite_loop.simps) (simp add: bs)
    qed
  qed
qed

lemma pipe_written_base:
  assumes "mem u = mem s" "pipes u = pipes s" "ptable u = ptable s"
  shows "pipe_written pi addr n i p u = pipe_written pi addr n i p s"
proof -
  have l: "lookup u pt v = lookup s pt v" for pt v by (rule lookup_transfer [OF assms(1)])
  have "load8 a u = load8 a s" for a by (simp add: load8_def assms(1))
  then have "user_byte u pt = user_byte s pt" "user_bad u pt siz = user_bad s pt siz" for pt siz
    by (simp_all add: user_byte_def user_bad_def l fun_eq_iff cong: option.case_cong if_cong)
  then have "bytes_sent pi addr i p k u = bytes_sent pi addr i p k s" "others_waked c p u = others_waked c p s"
    "copy_stopped p u = copy_stopped p s" for k c
    by (simp_all add: bytes_sent_def same_user_def others_waked_def copy_stopped_def assms(2,3) fun_eq_iff)
  then show ?thesis unfolding pipe_written_def assms(2,3) by (simp only:)
qed

text \<open>
  C31. A write by a process with a sound page table never panics. If there is something to write and
  the pipe has no reader or the process is killed, it returns -1 and nothing is stored. Otherwise
  it appends to the queue, in order, the first \<open>k\<close> bytes the process has at \<open>addr\<close>, where a page not yet
  touched counts as zeros, and nothing else of any pipe or of the process's memory changes.
  It returns \<open>k\<close>, which is \<open>n\<close> unless the next byte is at an address the process may not read or no
  memory is left to fault it in; or it sleeps, having waked the readers, with \<open>k\<close> less than \<open>n\<close> and the queue
  full. Switched to again, with \<open>i\<close> bytes stored, it goes on in the same way from the byte at \<open>addr + i\<close>.
\<close>

theorem pipewrite_appends:
  assumes "in_syscall p s" and "pipe_ok (pipes s pi)"
  shows "(held s = [] \<longrightarrow> pipe_written pi addr n 0 p s (pipewrite pi addr n s)) \<and>
    (held s = [ProcLock p] \<longrightarrow>
       pipe_written pi addr n i p (upd_proc p (\<lambda>q. q\<lparr>pchan := None\<rparr>) s) (pipewrite_resume pi addr n i s))"
proof (intro conjI impI)
  note D = in_syscall_D [OF assms(1)]
  assume h: "held s = []"
  let ?u = "s\<lparr>held := [PipeLock pi]\<rparr>"
  have m: "user_mem ?u (pagetable (ptable s ! p))" by (rule user_mem_cong [OF _ _ _ _ D(5)]) simp_all
  have "in_syscall p ?u" by (rule in_syscall_frame [OF assms(1) _ _ m]) simp_all
  then have "pipe_written pi addr n 0 p ?u (pipewrite_loop pi addr n 0 p ?u)"
    using assms(2) by (intro pipewrite_loop_written) simp_all
  moreover have "pipewrite pi addr n s = pipewrite_loop pi addr n 0 p ?u"
    using h D(1) by (simp add: pipewrite_def with_myproc_def)
  ultimately show "pipe_written pi addr n 0 p s (pipewrite pi addr n s)"
    using pipe_written_base [of ?u s] by simp
next
  note D = in_syscall_D [OF assms(1)]
  assume h: "held s = [ProcLock p]"
  let ?v = "upd_proc p (\<lambda>q. q\<lparr>pchan := None\<rparr>) s"
  let ?u = "?v\<lparr>held := [PipeLock pi]\<rparr>"
  have v: "curproc ?v = Some p" "length (ptable ?v) = NPROC" "ptable ?v ! p = (ptable s ! p)\<lparr>pchan := None\<rparr>"
    "pipes ?v = pipes s" using D(1-3) by (simp_all add: upd_proc_def)
  have "user_mem ?u (pagetable (ptable s ! p))"
    by (rule user_mem_cong [OF _ _ _ _ D(5)]) (simp_all add: upd_proc_def)
  then have "in_syscall p ?u" using D(2,4) v by (simp add: in_syscall_def)
  then have "pipe_written pi addr n i p ?u (pipewrite_loop pi addr n i p ?u)"
    using assms(2) v(4) by (intro pipewrite_loop_written) simp_all
  moreover have "pipewrite_resume pi addr n i s = pipewrite_loop pi addr n i p ?u"
    using h D(1,3) by (simp add: pipewrite_resume_def with_myproc_def sleep_resume_def upd_proc_def)
  ultimately show "pipe_written pi addr n i p ?v (pipewrite_resume pi addr n i s)"
    using pipe_written_base [of ?u ?v] by simp
qed

text \<open>A pipe of three bytes; two are read into the process's page 0, or two of its bytes are written.\<close>

definition kio_pipe :: kio where
  "kio_pipe = kio0\<lparr>pipes := (\<lambda>_. wrapped_pipe)\<rparr>"

theorem piperead_takes_front_witness:
  "wp (\<lambda>r t. \<exists>k. pipe_ok (pipes t 0) \<and> pipe_contents (pipes t 0) = drop k [255, 0, 1] \<and> k \<le> 2 \<and> (r = int k \<or> r = -1 \<and> k = 0))
     (\<lambda>_ _. False) (piperead 0 0x10 2 kio_pipe)"
proof -
  have p: "pipes kio_pipe 0 = wrapped_pipe" by (simp add: kio_pipe_def)
  then have ok: "pipe_ok (pipes kio_pipe 0)" by (simp add: wrapped_pipe_facts)
  show ?thesis
    by (rule wp_mono [OF piperead_takes_front [OF ok, of 2 "0x10"]]) (auto simp: p wrapped_pipe_facts PIPESIZE_def)
qed

definition kio_msg :: kio where
  "kio_msg = kio_pipe\<lparr>mem := (mem kio_pipe)(0x87FFA010 := 0x4241)\<rparr>"

lemma kmem_pt_tree: "tree_pages kmem_pt 0x87FFD000 \<subseteq> {0x87FFD000, 0x87FFC000, 0x87FFB000}"
proof
  fix p assume "p \<in> tree_pages kmem_pt 0x87FFD000"
  then obtain xs where xs: "path_ok xs" "node kmem_pt 0x87FFD000 xs = Some p" by (auto simp: tree_pages_def)
  then have "length xs \<le> 2" by (simp add: path_ok_def)
  then have "length xs = 0 \<or> length xs = 1 \<or> length xs = 2" by arith
  with xs show "p \<in> {0x87FFD000, 0x87FFC000, 0x87FFB000}" by (auto simp: kmem_pt_node split: if_splits)
qed

lemma kio_msg_lookup:
  "path_ok xs \<Longrightarrow> node kio_msg 0x87FFD000 xs = node kmem_pt 0x87FFD000 xs"
  "lookup kio_msg 0x87FFD000 v = lookup kmem_pt 0x87FFD000 v"
proof -
  have W: "pt_wf kmem_pt 0x87FFD000" using kmem_pt_ready by (simp add: pt_ready_def)
  have "PGROUNDDOWN 0x87FFA010 = 0x87FFA000" by (simp add: PGROUNDDOWN_def PGSIZE_def)
  then have M: "mem kio_msg a = mem kmem_pt a" if "PGROUNDDOWN a \<in> tree_pages kmem_pt 0x87FFD000" for a
    using that kmem_pt_tree by (auto simp: kio_msg_def kio_pipe_def kio0_fields)
  show "path_ok xs \<Longrightarrow> node kio_msg 0x87FFD000 xs = node kmem_pt 0x87FFD000 xs"
    "lookup kio_msg 0x87FFD000 v = lookup kmem_pt 0x87FFD000 v"
    by (rule node_outside [of kmem_pt _ kio_msg, OF W M], assumption+) (rule lookup_outside [of kmem_pt _ kio_msg, OF W M], assumption)
qed

lemma kio_msg_syscall: "in_syscall 0 kio_msg"
proof -
  have k: "kend kio_msg = kend kproc_two" "freelist kio_msg = freelist kproc_two" "held kio_msg = []"
    by (simp_all add: kio_msg_def kio_pipe_def kio0_def klog.extend_def klog_n_def kproc.extend_def kproc_two_def)
  have ke: "kend kproc_two = kend kmem_pt" by (simp add: kproc_two_def kproc_pt_def)
  have "[0..<7] = [0, 1, 2, 3, 4, 5, 6]" by (simp add: upt_rec)
  then have fl: "freelist kproc_two = [0x87FF0000, 0x87FEF000, 0x87FEE000, 0x87FED000, 0x87FEC000, 0x87FEB000, 0x87FEA000]"
    by (simp add: kproc_two_def)
  have T: "tree_pages kio_msg 0x87FFD000 = tree_pages kmem_pt 0x87FFD000"
    by (auto simp: tree_pages_def kio_msg_lookup(1))
  have W: "pt_wf kmem_pt 0x87FFD000" using kmem_pt_ready by (simp add: pt_ready_def)
  have p: "p \<notin> set (freelist kproc_two)" if "path_ok xs" "node kmem_pt 0x87FFD000 xs = Some p" for xs p
    using tree_pagesI [OF that] kmem_pt_tree by (auto simp: fl)
  have "pt_wf kio_msg 0x87FFD000"
    unfolding pt_wf_def
  proof (intro conjI allI impI)
    fix xs q assume x: "path_ok xs" "node kio_msg 0x87FFD000 xs = Some q"
    then have y: "node kmem_pt 0x87FFD000 xs = Some q" by (simp add: kio_msg_lookup(1))
    show "page_ok kio_msg q" using pt_wf_page [OF W x(1) y] by (simp add: page_ok_def k ke)
    show "q \<notin> set (freelist kio_msg)" using p [OF x(1) y] by (simp add: k)
  next
    fix xs ys q assume "path_ok xs" "path_ok ys" "node kio_msg 0x87FFD000 xs = Some q" "node kio_msg 0x87FFD000 ys = Some q"
    then show "xs = ys" using pt_wf_inj [OF W, of xs ys q] by (simp add: kio_msg_lookup(1))
  qed
  moreover have "kmem_wf kio_msg" using kproc_two_ok(2) by (simp add: kmem_wf_def page_ok_def k)
  ultimately have R: "pt_ready kio_msg 0x87FFD000" by (simp add: pt_ready_def k)
  have pa: "PTE2PA (PA2PTE 0x87FFA000 OR 0x17) = 0x87FFA000" by (simp add: PTE2PA_def PA2PTE_def)
  have "0x87FFA000 \<notin> tree_pages kmem_pt 0x87FFD000 \<union> set (freelist kproc_two)"
    using kmem_pt_tree by (auto simp: fl)
  moreover have "page_ok kio_msg 0x87FFA000"
    by (simp add: page_ok_def k ke kmem_pt_def kmem0_def layout_defs)
  ultimately have "user_mem kio_msg 0x87FFD000"
    using R by (auto simp: user_mem_def kio_msg_lookup(2) kmem_pt_lookup T k pa split: if_splits)
  then show ?thesis
    by (simp add: in_syscall_def kio_msg_def kio_pipe_def kio0_fields NPROC_def MAXVA_def)
qed

lemma kio_msg_bytes:
  "user_byte kio_msg 0x87FFD000 0x10 = 0x41" "user_byte kio_msg 0x87FFD000 0x11 = 0x42"
proof -
  have l: "lookup kio_msg 0x87FFD000 0 = Some (PA2PTE 0x87FFA000 OR 0x17)"
    by (simp add: kio_msg_lookup(2) kmem_pt_lookup PX_def)
  have "PGROUNDDOWN 0x10 = 0" "PGROUNDDOWN 0x11 = 0" by (simp_all add: PGROUNDDOWN_def PGSIZE_def)
  moreover have "mem kio_msg 0x87FFA010 = 0x4241" by (simp add: kio_msg_def)
  ultimately show "user_byte kio_msg 0x87FFD000 0x10 = 0x41" "user_byte kio_msg 0x87FFD000 0x11 = 0x42"
    by (simp_all add: user_byte_def l load8_def MAXVA_def PTE_U_def PTE2PA_def PA2PTE_def)
qed

text \<open>Where the process can see a byte that is not zero, a copy does not stop.\<close>

lemma copy_not_stopped:
  assumes "same_user (pagetable (ptable s ! p)) (sz (ptable s ! p)) s t"
    and "user_byte s (pagetable (ptable s ! p)) va \<noteq> 0"
  shows "\<not> copy_stopped p s t va"
  using assms by (auto simp: copy_stopped_def same_user_def user_bad_def user_byte_def fun_eq_iff
      split: option.splits if_splits dest: spec [of _ va])

lemma kio_msg_written:
  assumes W: "pipe_written 0 0x10 2 (int i) 0 s res" and i: "i < 2"
    and s: "pipes s 0 = wrapped_pipe" "pkilled (ptable s ! 0) = 0" "pagetable (ptable s ! 0) = 0x87FFD000"
      "user_byte s 0x87FFD000 = user_byte kio_msg 0x87FFD000"
  shows "\<exists>t. res = Ok 2 t \<and> pipe_contents (pipes t 0) = [255, 0, 1] @ drop i [0x41, 0x42]"
proof -
  have ro: "readopen wrapped_pipe" by (simp add: wrapped_pipe_def)
  note u = kio_msg_bytes [folded s(4)]
  show ?thesis
  proof (cases res)
    case (Ok r t)
    with W ro s obtain k where k: "r = int i + int k" "k \<le> nat (2 - int i)" "bytes_sent 0 0x10 (int i) 0 k s t"
      "2 \<le> r \<or> copy_stopped 0 s t (0x10 + of_int r)" by (auto simp: pipe_written_def)
    have "same_user (pagetable (ptable s ! 0)) (sz (ptable s ! 0)) s t" using k(3) by (simp add: bytes_sent_def)
    note n = copy_not_stopped [OF this, unfolded s(3)]
    have i01: "i = 0 \<or> i = 1" using i by arith
    have "i + k = 2"
    proof (rule ccontr)
      assume "i + k \<noteq> 2"
      then have "i + k = 0 \<or> i + k = 1" using k(2) i01 by auto
      then have "r = 0 \<or> r = 1" using k(1) by presburger
      then show False using k(4) n [of "0x10"] n [of "0x11"] u by auto
    qed
    with i01 consider "i = 0" "k = 2" | "i = 1" "k = 1" by auto
    then show ?thesis
      using k(1,3) s u Ok by cases (auto simp: bytes_sent_def wrapped_pipe_facts numeral_2_eq_2)
  next
    case (Block c t)
    with W s obtain k where k: "int i + int k < 2" "bytes_sent 0 0x10 (int i) 0 k s t" "pipe_full (pipes t 0)"
      by (auto simp: pipe_written_def)
    then have "length (pipe_contents (pipes t 0)) = 512"
      using pipe_full_iff [of "pipes t 0"] by (simp add: bytes_sent_def PIPESIZE_def)
    then show ?thesis using k(1,2) s by (simp add: bytes_sent_def wrapped_pipe_facts)
  next
    case (Panic m)
    then show ?thesis using W by (simp add: pipe_written_def)
  qed
qed

theorem pipewrite_appends_witness:
  "(\<exists>t. pipewrite 0 0x10 2 kio_msg = Ok 2 t \<and> pipe_contents (pipes t 0) = [255, 0, 1, 0x41, 0x42]) \<and>
   (\<exists>t. pipewrite_resume 0 0x10 2 1 (kio_msg\<lparr>held := [ProcLock 0]\<rparr>) = Ok 2 t \<and>
      pipe_contents (pipes t 0) = [255, 0, 1, 0x42])"
proof
  note D = in_syscall_D [OF kio_msg_syscall]
  have m: "pipes kio_msg 0 = wrapped_pipe" "held kio_msg = []" "pagetable (ptable kio_msg ! 0) = 0x87FFD000"
    "pkilled (ptable kio_msg ! 0) = 0"
    by (simp_all add: kio_msg_def kio_pipe_def kio0_fields proc0_def)
  have ok: "pipe_ok (pipes kio_msg 0)" by (simp add: m wrapped_pipe_facts)
  have "pipe_written 0 0x10 2 (int 0) 0 kio_msg (pipewrite 0 0x10 2 kio_msg)"
    using pipewrite_appends [OF kio_msg_syscall ok, of "0x10" 2] m by simp
  from kio_msg_written [OF this] m
  show "\<exists>t. pipewrite 0 0x10 2 kio_msg = Ok 2 t \<and> pipe_contents (pipes t 0) = [255, 0, 1, 0x41, 0x42]" by simp
  let ?h = "kio_msg\<lparr>held := [ProcLock 0]\<rparr>"
  let ?s = "upd_proc 0 (\<lambda>q. q\<lparr>pchan := None\<rparr>) ?h"
  have "user_mem ?h (pagetable (ptable kio_msg ! 0))" by (rule user_mem_cong [OF _ _ _ _ D(5)]) simp_all
  then have "in_syscall 0 ?h" by (intro in_syscall_frame [OF kio_msg_syscall]) simp_all
  then have W: "pipe_written 0 0x10 2 (int 1) 0 ?s (pipewrite_resume 0 0x10 2 1 ?h)"
    using pipewrite_appends [of 0 ?h 0 "0x10" 2 1] ok by simp
  have "same_user 0x87FFD000 0 kio_msg ?s"
    by (rule same_user_cong [where s = kio_msg])
      (use D(5) m in \<open>simp_all add: same_user_refl upd_proc_def\<close>)
  then show "\<exists>t. pipewrite_resume 0 0x10 2 1 ?h = Ok 2 t \<and> pipe_contents (pipes t 0) = [255, 0, 1, 0x42]"
    using kio_msg_written [OF W] m D(2,3) by (simp add: same_user_def upd_proc_def)
qed

end
