(* ===== verification/Console.thy ===== *)
theory Console
  imports Io_State Ring_Buffer
begin

text \<open>
  \<^verbatim>\<open>kernel/uart.c\<close> and \<^verbatim>\<open>kernel/console.c\<close>: characters to and from the serial port, the line
  editing of the console's input buffer and the read and write functions of the console
  device. Output appears at the end of \<open>outp\<close>. The spinning in \<^verbatim>\<open>uartputc_sync\<close> waits for the
  device only and changes no kernel state; the port's set-up is the list of its register writes.
\<close>

section \<open>uart.c\<close>

definition IER :: nat where "IER = 1"
definition FCR :: nat where "FCR = 2"
definition LCR :: nat where "LCR = 3"

text \<open>The register writes in their order. With \<open>0x80\<close> in \<open>LCR\<close> registers 0 and 1 are the baud rate's latch.\<close>

definition uartinit :: "(nat \<times> u8) list" where
  "uartinit = [(IER, 0), (LCR, push_bit 7 1), (0, 3), (1, 0), (LCR, push_bit 0 3),
     (FCR, push_bit 0 1 OR push_bit 1 3), (IER, push_bit 1 1 OR push_bit 0 1)]"

text \<open>The baud rate is set with interrupts off, and the port is left with both interrupts on and the latch closed.\<close>

lemma uartinit_final:
  "map_of (rev uartinit) IER = Some 3" "map_of (rev uartinit) LCR = Some 3" "map_of (rev (butlast uartinit)) IER = Some 0"
  by (simp_all add: uartinit_def IER_def LCR_def FCR_def)

definition put_thr :: "u8 \<Rightarrow> 'x kcore_scheme \<Rightarrow> 'x kcore_scheme" where
  "put_thr b = kprint [char_of (unat b)]"

definition uartputc_sync :: "int \<Rightarrow> 'x kcore_scheme \<Rightarrow> 'x kcore_scheme" where
  "uartputc_sync c = put_thr (of_int c)"

fun uartwrite_loop :: "u8 list \<Rightarrow> 'x kio_scheme \<Rightarrow> (unit, 'x kio_scheme) res" where
  "uartwrite_loop [] s = release TxLock s"
| "uartwrite_loop (b # bs) s =
     (if tx_busy s then sleep ChTx TxLock s
      else uartwrite_loop bs ((put_thr b s)\<lparr>tx_busy := True\<rparr>))"

definition uartwrite :: "u8 list \<Rightarrow> 'x kio_scheme \<Rightarrow> (unit, 'x kio_scheme) res" where
  "uartwrite bs s = bnd (acquire TxLock s) (\<lambda>_ s. uartwrite_loop bs s)"

text \<open>After being woken, with \<open>bs\<close> still to be sent.\<close>

definition uartwrite_resume :: "u8 list \<Rightarrow> 'x kio_scheme \<Rightarrow> (unit, 'x kio_scheme) res" where
  "uartwrite_resume bs s = bnd (sleep_resume TxLock s) (\<lambda>_ s. uartwrite_loop bs s)"

definition uartgetc :: "'x kio_scheme \<Rightarrow> int \<times> 'x kio_scheme" where
  "uartgetc s = (case uart_rx s of [] \<Rightarrow> (-1, s) | c # cs \<Rightarrow> (uint c, s\<lparr>uart_rx := cs\<rparr>))"

section \<open>console.c: output and input\<close>

definition BACKSPACE :: int where "BACKSPACE = 0x100"
definition INPUT_BUF_SIZE :: nat where "INPUT_BUF_SIZE = 128"
definition ctrl :: "char \<Rightarrow> int" where "ctrl x = of_char x - of_char CHR 0x40"

definition consputc :: "int \<Rightarrow> 'x kcore_scheme \<Rightarrow> 'x kcore_scheme" where
  "consputc c s =
     (if c = BACKSPACE then uartputc_sync 8 (uartputc_sync 32 (uartputc_sync 8 s)) else uartputc_sync c s)"

function consolewrite_loop :: "place \<Rightarrow> int \<Rightarrow> int \<Rightarrow> 'x kio_scheme \<Rightarrow> (int, 'x kio_scheme) res" where
  "consolewrite_loop src i n s =
     (if i < n
      then let nn = (if 32 > n - i then n - i else 32) in
           bnd (either_copyin src (nat nn) s) (\<lambda>(r, bs) s.
           if r = -1 then Ok i s
           else bnd (uartwrite bs s) (\<lambda>_ s. consolewrite_loop (src_add src (nat nn)) (i + nn) n s))
      else Ok i s)"
  by pat_completeness auto
termination
  by (relation "measure (\<lambda>(src, i, n, s). nat (n - i))") auto

declare consolewrite_loop.simps [simp del]

definition consolewrite :: "place \<Rightarrow> int \<Rightarrow> 'x kio_scheme \<Rightarrow> (int, 'x kio_scheme) res" where
  "consolewrite src n s = consolewrite_loop src 0 n s"

text \<open>The writer was asleep in \<^verbatim>\<open>uartwrite\<close> with \<open>bs\<close> of its batch, which ends before \<open>i\<close>, unsent.\<close>

definition consolewrite_resume :: "u8 list \<Rightarrow> place \<Rightarrow> int \<Rightarrow> int \<Rightarrow> 'x kio_scheme \<Rightarrow> (int, 'x kio_scheme) res" where
  "consolewrite_resume bs src i n s = bnd (uartwrite_resume bs s) (\<lambda>_ s. consolewrite_loop src i n s)"

text \<open>The input ring: a byte taken by the reader, a byte stored by the interrupt handler.\<close>

definition cons_peek :: "consbuf \<Rightarrow> u8" where "cons_peek c = cbuf c ! (unat (cr c) mod INPUT_BUF_SIZE)"
definition cons_drop :: "consbuf \<Rightarrow> consbuf" where "cons_drop c = c\<lparr>cr := cr c + 1\<rparr>"
definition cons_store :: "u8 \<Rightarrow> consbuf \<Rightarrow> consbuf" where
  "cons_store b c = c\<lparr>cbuf := (cbuf c)[unat (ce c) mod INPUT_BUF_SIZE := b], ce := ce c + 1\<rparr>"

text \<open>
  The loop of \<^verbatim>\<open>consoleread\<close>, lock held; \<open>n\<close> bytes are still wanted. The result is \<open>target - n\<close>.
\<close>

definition read_result :: "u32 \<Rightarrow> int \<Rightarrow> int" where "read_result target n = sint (target - of_int n)"

function consoleread_loop :: "place \<Rightarrow> int \<Rightarrow> u32 \<Rightarrow> 'x kio_scheme \<Rightarrow> (int \<times> place, 'x kio_scheme) res" where
  "consoleread_loop dst n target s =
     (if 0 < n
      then if cr (cons s) = cw (cons s)
           then with_myproc (\<lambda>p s. bnd (killed p s) (\<lambda>k s.
                if k then bnd (release ConsLock s) (\<lambda>_ s. Ok (-1, dst) s)
                else bnd (sleep ChCons ConsLock s) (\<lambda>_ s. Ok (0, dst) s))) s
           else let c = cons_peek (cons s); s = upd_cons cons_drop s in
             if uint c = ctrl CHR ''D''
             then let s = (if of_int n < target then upd_cons (\<lambda>k. k\<lparr>cr := cr k - 1\<rparr>) s else s)
                  in bnd (release ConsLock s) (\<lambda>_ s. Ok (read_result target n, dst) s)
             else bnd (either_copyout dst [c] s) (\<lambda>(r, dst) s.
               if r = -1 then bnd (release ConsLock s) (\<lambda>_ s. Ok (read_result target n, dst) s)
               else if c = 10
               then bnd (release ConsLock s) (\<lambda>_ s. Ok (read_result target (n - 1), dst_add dst 1) s)
               else consoleread_loop (dst_add dst 1) (n - 1) target s)
      else bnd (release ConsLock s) (\<lambda>_ s. Ok (read_result target n, dst) s))"
  by pat_completeness auto
termination
  by (relation "measure (\<lambda>(dst, n, target, s). nat n)") auto

declare consoleread_loop.simps [simp del]

definition consoleread :: "place \<Rightarrow> int \<Rightarrow> 'x kio_scheme \<Rightarrow> (int \<times> place, 'x kio_scheme) res" where
  "consoleread dst n s = bnd (acquire ConsLock s) (\<lambda>_ s. consoleread_loop dst n (of_int n) s)"

definition consoleread_resume :: "place \<Rightarrow> int \<Rightarrow> u32 \<Rightarrow> 'x kio_scheme \<Rightarrow> (int \<times> place, 'x kio_scheme) res" where
  "consoleread_resume dst n target s = bnd (sleep_resume ConsLock s) (\<lambda>_ s. consoleread_loop dst n target s)"

section \<open>console.c: the interrupt handler\<close>

lemma word_pred_measure: "(x :: u32) \<noteq> y \<Longrightarrow> unat (x - 1 - y) < unat (x - y)"
proof -
  assume "x \<noteq> y"
  then have "x - y \<noteq> 0" by simp
  then have "unat (x - y - 1) < unat (x - y)" by (metis measure_unat)
  then show ?thesis by (simp add: algebra_simps)
qed

function kill_line :: "'x kio_scheme \<Rightarrow> 'x kio_scheme" where
  "kill_line s =
     (if ce (cons s) \<noteq> cw (cons s) \<and> cbuf (cons s) ! (unat (ce (cons s) - 1) mod INPUT_BUF_SIZE) \<noteq> 10
      then kill_line (consputc BACKSPACE (upd_cons (\<lambda>k. k\<lparr>ce := ce k - 1\<rparr>) s))
      else s)"
  by pat_completeness auto
termination
  by (relation "measure (\<lambda>s. unat (ce (cons s) - cw (cons s)))")
    (auto simp: consputc_def uartputc_sync_def put_thr_def kprint_def word_pred_measure)

declare kill_line.simps [simp del]

definition consoleintr :: "int \<Rightarrow> 'x kio_scheme \<Rightarrow> (unit, 'x kio_scheme) res" where
  "consoleintr c s =
     bnd (acquire ConsLock s) (\<lambda>_ s.
     bnd (if c = ctrl CHR ''P'' then procdump s
          else if c = ctrl CHR ''U'' then Ok () (kill_line s)
          else if c = ctrl CHR ''H'' \<or> c = 0x7f
          then Ok () (if ce (cons s) \<noteq> cw (cons s)
                      then consputc BACKSPACE (upd_cons (\<lambda>k. k\<lparr>ce := ce k - 1\<rparr>) s) else s)
          else if c \<noteq> 0 \<and> ce (cons s) - cr (cons s) < of_nat INPUT_BUF_SIZE
          then let c = (if c = 13 then 10 else c);
                   s = upd_cons (cons_store (of_int c)) (consputc c s)
               in if c = 10 \<or> c = ctrl CHR ''D'' \<or> ce (cons s) - cr (cons s) = of_nat INPUT_BUF_SIZE
                  then wakeup ChCons (upd_cons (\<lambda>k. k\<lparr>cw := ce k\<rparr>) s)
                  else Ok () s
          else Ok () s) (\<lambda>_ s.
     release ConsLock s))"

text \<open>
  \<^verbatim>\<open>uartintr\<close> reads characters until there is none; \<open>n\<close> bounds the rounds, one more than the
  characters waiting.
\<close>

fun uart_input :: "nat \<Rightarrow> 'x kio_scheme \<Rightarrow> (unit, 'x kio_scheme) res" where
  "uart_input 0 s = Ok () s"
| "uart_input (Suc n) s =
     (case uartgetc s of (c, s) \<Rightarrow>
        if c = -1 then Ok () s else bnd (consoleintr c s) (\<lambda>_ s. uart_input n s))"

definition uartintr :: "'x kio_scheme \<Rightarrow> (unit, 'x kio_scheme) res" where
  "uartintr s =
     bnd (acquire TxLock s) (\<lambda>_ s.
     bnd (if uart_tx_idle s then wakeup ChTx (s\<lparr>tx_busy := False\<rparr>) else Ok () s) (\<lambda>_ s.
     bnd (release TxLock s) (\<lambda>_ s.
     uart_input (Suc (length (uart_rx s))) s)))"

definition consoleinit :: "'x kio_scheme \<Rightarrow> 'x kio_scheme" where
  "consoleinit s =
     s\<lparr>devsw_read := (devsw_read s)[nat CONSOLE := ConsoleDev], devsw_write := (devsw_write s)[nat CONSOLE := ConsoleDev]\<rparr>"

section \<open>Editing never touches a finished line\<close>

text \<open>
  The ring between \<^verbatim>\<open>r\<close> and \<^verbatim>\<open>e\<close> is a queue; its front part, up to \<^verbatim>\<open>w\<close>, has been released to
  readers, the rest is the line being edited.
\<close>

interpretation cq: counter_ring INPUT_BUF_SIZE cbuf cr ce cons_store cons_peek cons_drop
  by unfold_locales (simp_all add: INPUT_BUF_SIZE_def cons_store_def cons_peek_def cons_drop_def)

definition cons_ok :: "consbuf \<Rightarrow> bool" where
  "cons_ok c \<longleftrightarrow> length (cbuf c) = INPUT_BUF_SIZE \<and> ring_level (cr c) (ce c) \<le> INPUT_BUF_SIZE \<and>
     ring_level (cr c) (cw c) \<le> ring_level (cr c) (ce c)"

definition cons_queue :: "consbuf \<Rightarrow> u8 list" where
  "cons_queue c = ring_contents INPUT_BUF_SIZE (cbuf c) (cr c) (ce c)"

definition released :: "consbuf \<Rightarrow> u8 list" where
  "released c = ring_contents INPUT_BUF_SIZE (cbuf c) (cr c) (cw c)"

lemma released_prefix: "cons_ok c \<Longrightarrow> released c = take (ring_level (cr c) (cw c)) (cons_queue c)"
  by (simp add: cons_ok_def released_def cons_queue_def ring_prefix)

text \<open>A character at the end of a queue that is not full.\<close>

lemma cons_store_queue:
  assumes "cons_ok c" "ring_level (cr c) (ce c) < INPUT_BUF_SIZE"
  shows "cons_ok (cons_store b c)" "cons_queue (cons_store b c) = cons_queue c @ [b]"
    "released (cons_store b c) = released c"
proof -
  have q: "length (cbuf (cons_store b c)) = INPUT_BUF_SIZE \<and>
      ring_level (cr (cons_store b c)) (ce (cons_store b c)) \<le> INPUT_BUF_SIZE"
    "cons_queue (cons_store b c) = cons_queue c @ [b]"
    using cq.put_law [of c b] assms by (simp_all add: cons_ok_def cons_queue_def)
  have l: "ring_level (cr c) (ce c + 1) = Suc (ring_level (cr c) (ce c))"
    using assms(2) by (intro ring_level_Suc) (simp add: INPUT_BUF_SIZE_def)
  show ok: "cons_ok (cons_store b c)"
    using q assms(1) l by (auto simp: cons_ok_def cons_store_def)
  show "cons_queue (cons_store b c) = cons_queue c @ [b]" by (rule q(2))
  have "ring_level (cr c) (cw c) \<le> length (cons_queue c)"
    using assms(1) by (simp add: cons_ok_def cons_queue_def)
  then show "released (cons_store b c) = released c"
    using released_prefix [OF ok] released_prefix [OF assms(1)] q(2) by (simp add: cons_store_def)
qed

text \<open>Taking back the last character of the line being edited.\<close>

lemma cons_erase_queue:
  assumes "cons_ok c" "ce c \<noteq> cw c"
  shows "cons_ok (c\<lparr>ce := ce c - 1\<rparr>)" "released (c\<lparr>ce := ce c - 1\<rparr>) = released c"
  using ring_level_back [OF assms(2), of "cr c"] assms(1) by (auto simp: cons_ok_def released_def)

text \<open>Making the whole queue available to readers.\<close>

lemma cons_release_queue:
  assumes "cons_ok c"
  shows "cons_ok (c\<lparr>cw := ce c\<rparr>)" "released (c\<lparr>cw := ce c\<rparr>) = cons_queue c"
  using assms by (simp_all add: cons_ok_def released_def cons_queue_def)

definition edit_only :: "consbuf \<Rightarrow> consbuf \<Rightarrow> bool" where
  "edit_only c d \<longleftrightarrow> cons_ok d \<and> released d = released c"

lemma consputc_cons [simp]: "cons (consputc x s) = cons s"
  by (simp add: consputc_def uartputc_sync_def put_thr_def kprint_def)

lemma kill_line_edit: "cons_ok (cons s) \<Longrightarrow> edit_only (cons s) (cons (kill_line s))"
proof (induction s rule: kill_line.induct)
  case (1 s)
  show ?case
  proof (cases "ce (cons s) \<noteq> cw (cons s) \<and> cbuf (cons s) ! (unat (ce (cons s) - 1) mod INPUT_BUF_SIZE) \<noteq> 10")
    case True
    with "1.IH" [OF True] cons_erase_queue [OF "1.prems"] show ?thesis
      by (subst kill_line.simps) (auto simp: edit_only_def)
  next
    case False
    with "1.prems" show ?thesis by (subst kill_line.simps) (auto simp: edit_only_def)
  qed
qed

lemma printf_wp: "(\<And>t. kcore.more t = kcore.more s \<Longrightarrow> P () t) \<Longrightarrow> wp P B (printf f as s)"
  by (auto simp: printf_def acquire_def release_def kprint_def split: option.split)

lemma procdump_cons: "wp (\<lambda>_ t. cons t = cons s) B (procdump (s :: 'x kio_scheme))"
proof -
  have core: "kcore.more (t :: 'x kio_scheme) = kcore.more u \<Longrightarrow> cons t = cons u" for t u
    by (cases t; cases u) simp
  have ns: "nosleep (procdump s)"
    by (auto simp: procdump_def printf_def Let_def intro!: nosleep_bnd nosleep_foreach split: option.split)
  have "post (\<lambda>t. cons t = cons s) (procdump s)"
    unfolding procdump_def
    by (auto simp: printf_def acquire_def release_def kprint_def Let_def
        intro!: post_bnd post_foreach split: option.split)
  with ns show ?thesis by (cases "procdump s") auto
qed

definition released_line :: "consbuf \<Rightarrow> consbuf \<Rightarrow> bool" where
  "released_line c d \<longleftrightarrow> cons_ok d \<and> (\<exists>line. released d = released c @ line \<and>
     (line \<noteq> [] \<longrightarrow> last line = 10 \<or> last line = 4 \<or> length (released d) = INPUT_BUF_SIZE))"

lemma edit_only_released_line: "edit_only c d \<Longrightarrow> released_line c d"
  by (simp add: edit_only_def released_line_def)

lemma store_release:
  fixes c :: consbuf and b :: u8
  defines "d \<equiv> cons_store b c"
  assumes ok: "cons_ok c" and room: "ring_level (cr c) (ce c) < INPUT_BUF_SIZE"
    and e: "b = 10 \<or> b = 4 \<or> ce d - cr d = of_nat INPUT_BUF_SIZE"
  shows "released_line c (d\<lparr>cw := ce d\<rparr>)"
proof -
  note st = cons_store_queue [OF ok room, of b, folded d_def]
  note rl = cons_release_queue [OF st(1)]
  have pre: "released c = take (ring_level (cr c) (cw c)) (cons_queue c)" by (rule released_prefix [OF ok])
  then have q: "cons_queue c @ [b] = released c @ (drop (ring_level (cr c) (cw c)) (cons_queue c) @ [b])"
    by simp
  have f: "length (released (d\<lparr>cw := ce d\<rparr>)) = INPUT_BUF_SIZE" if "ce d - cr d = of_nat INPUT_BUF_SIZE"
    using that by (simp add: released_def ring_level_def INPUT_BUF_SIZE_def)
  show ?thesis
    unfolding released_line_def using rl st(2) q e f
    by (intro conjI exI [of _ "drop (ring_level (cr c) (cw c)) (cons_queue c) @ [b]"]) auto
qed

lemma room_iff: "ce c - cr c < of_nat INPUT_BUF_SIZE \<longleftrightarrow> ring_level (cr c) (ce c) < INPUT_BUF_SIZE"
  by (simp add: word_less_nat_alt ring_level_def INPUT_BUF_SIZE_def)

text \<open>
  C32. An input character never changes what the console has already released to readers: the
  interrupt handler only appends to it, and only when the character ends a line, is an end of
  file or fills the buffer; otherwise it edits the unreleased line only. The buffer stays
  well-formed: never more than 128 characters, the released part never more than the whole.
\<close>

theorem consoleintr_keeps_released:
  assumes "cons_ok (cons s)"
  shows "wp (\<lambda>_ t. cons_ok (cons t) \<and>
      (released (cons t) = released (cons s) \<or>
       (\<exists>line. released (cons t) = released (cons s) @ line \<and>
          (last line = 10 \<or> last line = 4 \<or> length (released (cons t)) = INPUT_BUF_SIZE))))
    (\<lambda>_ _. False) (consoleintr c s)"
proof -
  let ?R = "released_line (cons s)"
  have core: "kcore.more (t :: 'a kio_scheme) = kcore.more u \<Longrightarrow> cons t = cons u" for t u
    by (cases t; cases u) simp
  have char: "wp (\<lambda>_ t. ?R (cons t)) (\<lambda>_ _. False)
      (let c = (if c = 13 then 10 else c); s = upd_cons (cons_store (of_int c)) (consputc c u)
       in if c = 10 \<or> c = ctrl CHR ''D'' \<or> ce (cons s) - cr (cons s) = of_nat INPUT_BUF_SIZE
          then wakeup ChCons (upd_cons (\<lambda>k. k\<lparr>cw := ce k\<rparr>) s) else Ok () s)"
    if cu: "cons u = cons s" and room: "ce (cons s) - cr (cons s) < of_nat INPUT_BUF_SIZE" for u :: "'a kio_scheme"
  proof -
    define b where "b = (if c = 13 then 10 else c)"
    let ?d = "cons_store (of_int b) (cons s)"
    have r: "ring_level (cr (cons s)) (ce (cons s)) < INPUT_BUF_SIZE" using room by (simp add: room_iff)
    have "?R (?d\<lparr>cw := ce ?d\<rparr>)"
      if "b = 10 \<or> b = ctrl CHR ''D'' \<or> ce ?d - cr ?d = of_nat INPUT_BUF_SIZE"
      by (rule store_release [OF assms r]) (use that in \<open>auto simp: ctrl_def of_char_def\<close>)
    moreover have "?R ?d"
      using cons_store_queue [OF assms r] by (auto intro: edit_only_released_line simp: edit_only_def)
    ultimately show ?thesis
      unfolding b_def [symmetric] Let_def by (auto intro!: wakeup_wp dest!: more_io(3) simp: cu)
  qed
  have same: "?R (cons s)" using assms by (simp add: edit_only_released_line edit_only_def)
  have mid: "wp (\<lambda>_ t. ?R (cons t)) (\<lambda>_ _. False)
     (if c = ctrl CHR ''P'' then procdump u
      else if c = ctrl CHR ''U'' then Ok () (kill_line u)
      else if c = ctrl CHR ''H'' \<or> c = 0x7f
      then Ok () (if ce (cons u) \<noteq> cw (cons u) then consputc BACKSPACE (upd_cons (\<lambda>k. k\<lparr>ce := ce k - 1\<rparr>) u) else u)
      else if c \<noteq> 0 \<and> ce (cons u) - cr (cons u) < of_nat INPUT_BUF_SIZE
      then let c = (if c = 13 then 10 else c); s = upd_cons (cons_store (of_int c)) (consputc c u)
           in if c = 10 \<or> c = ctrl CHR ''D'' \<or> ce (cons s) - cr (cons s) = of_nat INPUT_BUF_SIZE
              then wakeup ChCons (upd_cons (\<lambda>k. k\<lparr>cw := ce k\<rparr>) s) else Ok () s
      else Ok () u)" if cu: "cons u = cons s" for u :: "'a kio_scheme"
  proof -
    have "wp (\<lambda>_ t. ?R (cons t)) (\<lambda>_ _. False) (procdump u)"
      using procdump_cons [of u "\<lambda>_ _. False"] same cu by (auto elim: wp_mono)
    moreover have "?R (cons (kill_line u))"
      using kill_line_edit [of u] assms cu by (simp add: edit_only_released_line)
    moreover have "?R (cons s\<lparr>ce := ce (cons s) - 1\<rparr>)" if "ce (cons s) \<noteq> cw (cons s)"
      using cons_erase_queue [OF assms that] by (simp add: edit_only_released_line edit_only_def)
    ultimately show ?thesis using char [OF cu] same cu by simp
  qed
  have "wp (\<lambda>_ t. ?R (cons t)) (\<lambda>_ _. False) (consoleintr c s)"
    unfolding consoleintr_def
    by (intro wp_bnd acquire_wp, rule wp_mono [OF mid]) (auto intro!: release_wp)
  then show ?thesis by (rule wp_mono) (auto simp: released_line_def)
qed

text \<open>Two released characters, one being edited, counters wrapped; carriage return arrives.\<close>

definition kio_cons :: kio where
  "kio_cons = kio0\<lparr>cons := \<lparr>cbuf = replicate 128 65, cr = 0xFFFFFFFF, cw = 1, ce = 2\<rparr>\<rparr>"

theorem consoleintr_keeps_released_witness:
  "released (cons kio_cons) = [65, 65] \<and>
   wp (\<lambda>_ t. cons_ok (cons t) \<and> take 2 (released (cons t)) = [65, 65]) (\<lambda>_ _. False) (consoleintr 13 kio_cons)"
proof -
  have u: "upt 0 2 = [0, 1 :: nat]" by (simp add: upt_rec)
  have r: "released (cons kio_cons) = [65, 65]"
    by (simp add: released_def kio_cons_def INPUT_BUF_SIZE_def ring_contents_def ring_level_def u)
  have ok: "cons_ok (cons kio_cons)"
    by (simp add: cons_ok_def kio_cons_def INPUT_BUF_SIZE_def ring_level_def)
  show ?thesis
    using r by (intro conjI wp_mono [OF consoleintr_keeps_released [OF ok, of 13]]) auto
qed

end
