(* ===== verification/File.thy ===== *)
theory File
  imports Pipe Console
begin

text \<open>
  \<^verbatim>\<open>kernel/file.c\<close>, with \<^verbatim>\<open>pipealloc\<close> of \<^verbatim>\<open>pipe.c\<close>: the table of open files, reference counts,
  and reading and writing by kind of file. Calls through the device switch go to the console,
  the only device that registers functions.
\<close>

section \<open>The file table\<close>

definition filealloc :: "'x kio_scheme \<Rightarrow> (nat option, 'x kio_scheme) res" where
  "filealloc s =
     bnd (acquire FtableLock s) (\<lambda>_ s.
     case find_idx (\<lambda>f. fref f = 0) (ftable s) of
       Some f \<Rightarrow> bnd (release FtableLock (upd_file f (\<lambda>f. f\<lparr>fref := 1\<rparr>) s)) (\<lambda>_ s. Ok (Some f) s)
     | None \<Rightarrow> bnd (release FtableLock s) (\<lambda>_ s. Ok None s))"

definition filedup :: "nat \<Rightarrow> 'x kio_scheme \<Rightarrow> (nat, 'x kio_scheme) res" where
  "filedup f s =
     bnd (acquire FtableLock s) (\<lambda>_ s.
     if fref (ftable s ! f) < 1 then Panic ''filedup''
     else bnd (release FtableLock (upd_file f (\<lambda>f. f\<lparr>fref := fref f + 1\<rparr>) s)) (\<lambda>_ s. Ok f s))"

definition fileclose :: "nat \<Rightarrow> 'x kio_scheme \<Rightarrow> (unit, 'x kio_scheme) res" where
  "fileclose f s =
     bnd (acquire FtableLock s) (\<lambda>_ s.
     if fref (ftable s ! f) < 1 then Panic ''fileclose''
     else let s = upd_file f (\<lambda>f. f\<lparr>fref := fref f - 1\<rparr>) s in
     if 0 < fref (ftable s ! f) then release FtableLock s
     else let ff = ftable s ! f; s = upd_file f (\<lambda>f. f\<lparr>fref := 0, ftype := FD_NONE\<rparr>) s in
       bnd (release FtableLock s) (\<lambda>_ s.
       if ftype ff = FD_PIPE then pipeclose (fpipe ff) (fwritable ff) s
       else if ftype ff = FD_INODE \<or> ftype ff = FD_DEVICE
       then bnd (begin_op s) (\<lambda>_ s. bnd (iput (fip ff) s) (\<lambda>_ s. end_op s))
       else Ok () s))"

section \<open>stat, read, write\<close>

text \<open>A \<^verbatim>\<open>struct stat\<close> as the compiler lays it out; the padding is whatever the stack held.\<close>

definition stat_bytes :: "stat \<Rightarrow> u8 list \<Rightarrow> u8 list" where
  "stat_bytes st pad = bytes32 (st_dev st) @ bytes32 (st_ino st) @ bytes16 (st_type st) @ bytes16 (st_nlink st)
     @ pad @ bytes32 (ucast (st_size st)) @ bytes32 (ucast (drop_bit 32 (st_size st)))"

definition filestat :: "nat \<Rightarrow> u64 \<Rightarrow> 'x kio_scheme \<Rightarrow> (int, 'x kio_scheme) res" where
  "filestat f addr =
     with_myproc (\<lambda>p s.
     if ftype (ftable s ! f) = FD_INODE \<or> ftype (ftable s ! f) = FD_DEVICE
     then let ip = fip (ftable s ! f) in
       bnd (ilock (Some ip) s) (\<lambda>_ s.
       let st = stati ip s in
       bnd (iunlock (Some ip) s) (\<lambda>_ s.
       bnd (copyout (pagetable (ptable s ! p)) addr (stat_bytes st (stack_pad s)) s) (\<lambda>r s.
       Ok (if r < 0 then -1 else 0) s)))
     else Ok (-1) s)"

definition dev_fn :: "devfn list \<Rightarrow> u16 \<Rightarrow> devfn" where
  "dev_fn sw major = (if sint major < 0 \<or> NDEV \<le> sint major then NoDev else sw ! nat (sint major))"

definition fileread :: "nat \<Rightarrow> u64 \<Rightarrow> int \<Rightarrow> 'x kio_scheme \<Rightarrow> (int, 'x kio_scheme) res" where
  "fileread f addr n s =
     (let ff = ftable s ! f in
      if \<not> freadable ff then Ok (-1) s
      else case ftype ff of
        FD_PIPE \<Rightarrow> piperead (fpipe ff) addr n s
      | FD_DEVICE \<Rightarrow>
          (case dev_fn (devsw_read s) (fmajor ff) of
             NoDev \<Rightarrow> Ok (-1) s
           | ConsoleDev \<Rightarrow> bnd (consoleread (UserMem addr) n s) (\<lambda>(r, _) s. Ok r s))
      | FD_INODE \<Rightarrow>
          bnd (ilock (Some (fip ff)) s) (\<lambda>_ s.
          bnd (readi (fip ff) (UserMem addr) (foff (ftable s ! f)) (of_int n) s) (\<lambda>(r, _) s.
          let s = (if 0 < r then upd_file f (\<lambda>f. f\<lparr>foff := foff f + of_int r\<rparr>) s else s) in
          bnd (iunlock (Some (fip ff)) s) (\<lambda>_ s. Ok r s)))
      | FD_NONE \<Rightarrow> Panic ''fileread'')"

text \<open>The most one log transaction may write, in bytes.\<close>

definition write_max :: int where "write_max = int (((MAXOPBLOCKS - 1 - 1 - 2) div 2) * BSIZE)"

function filewrite_loop :: "nat \<Rightarrow> nat \<Rightarrow> u64 \<Rightarrow> int \<Rightarrow> int \<Rightarrow> 'x kio_scheme \<Rightarrow> (int, 'x kio_scheme) res" where
  "filewrite_loop f ip addr i n s =
     (if i < n
      then let n1 = (if n - i > write_max then write_max else n - i) in
        bnd (begin_op s) (\<lambda>_ s.
        bnd (ilock (Some ip) s) (\<lambda>_ s.
        bnd (writei ip (UserMem (addr + of_int i)) (foff (ftable s ! f)) (of_int n1) s) (\<lambda>r s.
        let s = (if 0 < r then upd_file f (\<lambda>f. f\<lparr>foff := foff f + of_int r\<rparr>) s else s) in
        bnd (iunlock (Some ip) s) (\<lambda>_ s.
        bnd (end_op s) (\<lambda>_ s.
        if r \<noteq> n1 then Ok i s else filewrite_loop f ip addr (i + r) n s)))))
      else Ok i s)"
  by pat_completeness auto
termination
  by (relation "measure (\<lambda>(f, ip, addr, i, n, s). nat (n - i))")
    (auto simp: write_max_def MAXOPBLOCKS_def BSIZE_def)

declare filewrite_loop.simps [simp del]

definition filewrite :: "nat \<Rightarrow> u64 \<Rightarrow> int \<Rightarrow> 'x kio_scheme \<Rightarrow> (int, 'x kio_scheme) res" where
  "filewrite f addr n s =
     (let ff = ftable s ! f in
      if \<not> fwritable ff then Ok (-1) s
      else case ftype ff of
        FD_PIPE \<Rightarrow> pipewrite (fpipe ff) addr n s
      | FD_DEVICE \<Rightarrow>
          (case dev_fn (devsw_write s) (fmajor ff) of
             NoDev \<Rightarrow> Ok (-1) s | ConsoleDev \<Rightarrow> consolewrite (UserMem addr) n s)
      | FD_INODE \<Rightarrow> bnd (filewrite_loop f (fip ff) addr 0 n s) (\<lambda>i s. Ok (if i = n then n else -1) s)
      | FD_NONE \<Rightarrow> Panic ''filewrite'')"

section \<open>Creating a pipe\<close>

definition pipe_init :: "'x kio_scheme \<Rightarrow> u64 \<Rightarrow> pipe" where
  "pipe_init s pi = (pipes s pi)\<lparr>readopen := True, writeopen := True, nwrite := 0, nread := 0\<rparr>"

text \<open>The label \<^verbatim>\<open>bad\<close>: give back what was obtained.\<close>

definition pipealloc_bad :: "nat option \<Rightarrow> nat option \<Rightarrow> 'x kio_scheme \<Rightarrow> ((nat \<times> nat) option, 'x kio_scheme) res" where
  "pipealloc_bad f0 f1 s =
     bnd (case f0 of Some f \<Rightarrow> fileclose f s | None \<Rightarrow> Ok () s) (\<lambda>_ s.
     bnd (case f1 of Some f \<Rightarrow> fileclose f s | None \<Rightarrow> Ok () s) (\<lambda>_ s. Ok None s))"

definition pipealloc :: "'x kio_scheme \<Rightarrow> ((nat \<times> nat) option, 'x kio_scheme) res" where
  "pipealloc s =
     bnd (filealloc s) (\<lambda>f0 s.
     case f0 of None \<Rightarrow> pipealloc_bad None None s
     | Some a \<Rightarrow>
     bnd (filealloc s) (\<lambda>f1 s.
     case f1 of None \<Rightarrow> pipealloc_bad (Some a) None s
     | Some b \<Rightarrow>
     bnd (kalloc s) (\<lambda>pi s.
     if pi = 0 then pipealloc_bad (Some a) (Some b) s
     else let s = upd_pipe pi (\<lambda>_. pipe_init s pi) s;
              s = upd_file a (\<lambda>f. f\<lparr>ftype := FD_PIPE, freadable := True, fwritable := False, fpipe := pi\<rparr>) s;
              s = upd_file b (\<lambda>f. f\<lparr>ftype := FD_PIPE, freadable := False, fwritable := True, fpipe := pi\<rparr>) s
          in Ok (Some (a, b)) s)))"

end
