(* ===== verification/Syscall_Args.thy ===== *)
theory Syscall_Args
  imports File
begin

text \<open>
  The argument half of \<^verbatim>\<open>kernel/syscall.c\<close>: the registers of the trap frame, words and strings
  of user memory.
\<close>

definition fetchaddr :: "u64 \<Rightarrow> 'x kproc_scheme \<Rightarrow> (u64 option, 'x kproc_scheme) res" where
  "fetchaddr addr =
     with_myproc (\<lambda>p s.
     if sz (ptable s ! p) \<le> addr \<or> sz (ptable s ! p) < addr + 8 then Ok None s
     else bnd (copyin (pagetable (ptable s ! p)) addr 8 s) (\<lambda>(r, bs) s.
          if r \<noteq> 0 then Ok None s else Ok (Some (get64 bs 0)) s))"

text \<open>The string fetched, without its NUL; the code returns its length, \<open>None\<close> being -1.\<close>

definition fetchstr :: "u64 \<Rightarrow> nat \<Rightarrow> 'x kproc_scheme \<Rightarrow> (u8 list option, 'x kproc_scheme) res" where
  "fetchstr addr mx =
     with_myproc (\<lambda>p s.
     bnd (copyinstr (pagetable (ptable s ! p)) addr mx s) (\<lambda>(r, bs) s.
     if r < 0 then Ok None s else Ok (Some (cstr bs)) s))"

definition argraw :: "nat \<Rightarrow> 'x kproc_scheme \<Rightarrow> (u64, 'x kproc_scheme) res" where
  "argraw n =
     with_myproc (\<lambda>p s.
     let t = tf (ptable s ! p) in
     if n = 0 then Ok (a0 t) s else if n = 1 then Ok (a1 t) s else if n = 2 then Ok (a2 t) s
     else if n = 3 then Ok (a3 t) s else if n = 4 then Ok (a4 t) s else if n = 5 then Ok (a5 t) s
     else Panic ''argraw'')"

definition argint :: "nat \<Rightarrow> 'x kproc_scheme \<Rightarrow> (int, 'x kproc_scheme) res" where
  "argint n s = bnd (argraw n s) (\<lambda>w s. Ok (sint (ucast w :: u32)) s)"

definition argaddr :: "nat \<Rightarrow> 'x kproc_scheme \<Rightarrow> (u64, 'x kproc_scheme) res" where
  "argaddr n s = argraw n s"

definition argstr :: "nat \<Rightarrow> nat \<Rightarrow> 'x kproc_scheme \<Rightarrow> (u8 list option, 'x kproc_scheme) res" where
  "argstr n mx s = bnd (argaddr n s) (\<lambda>addr s. fetchstr addr mx s)"

end
