(* ===== verification/Sysfile.thy ===== *)
theory Sysfile
  imports Syscall_Args
begin

text \<open>
  \<^verbatim>\<open>kernel/sysfile.c\<close>: the file-system calls, each with its error exits. A call returns the
  value that goes to the caller's \<^verbatim>\<open>a0\<close>, as an integer. \<^verbatim>\<open>sys_exec\<close> is in theory Exec.
\<close>

section \<open>File descriptors\<close>

text \<open>The descriptor and the file it names.\<close>

definition argfd :: "nat \<Rightarrow> 'x kio_scheme \<Rightarrow> ((int \<times> nat) option, 'x kio_scheme) res" where
  "argfd n s =
     bnd (argint n s) (\<lambda>fd s.
     if fd < 0 \<or> int NOFILE \<le> fd then Ok None s
     else with_myproc (\<lambda>p s.
       case ofile (ptable s ! p) ! nat fd of None \<Rightarrow> Ok None s | Some f \<Rightarrow> Ok (Some (fd, f)) s) s)"

definition set_ofile :: "nat \<Rightarrow> nat \<Rightarrow> nat option \<Rightarrow> 'x kproc_scheme \<Rightarrow> 'x kproc_scheme" where
  "set_ofile p fd f = upd_proc p (\<lambda>q. q\<lparr>ofile := (ofile q)[fd := f]\<rparr>)"

definition fdalloc :: "nat \<Rightarrow> 'x kio_scheme \<Rightarrow> (int, 'x kio_scheme) res" where
  "fdalloc f =
     with_myproc (\<lambda>p s.
     case find_idx (\<lambda>o'. o' = None) (take NOFILE (ofile (ptable s ! p))) of
       Some fd \<Rightarrow> Ok (int fd) (set_ofile p fd (Some f) s)
     | None \<Rightarrow> Ok (-1) s)"

definition sys_dup :: "'x kio_scheme \<Rightarrow> (int, 'x kio_scheme) res" where
  "sys_dup s =
     bnd (argfd 0 s) (\<lambda>r s.
     case r of None \<Rightarrow> Ok (-1) s
     | Some (_, f) \<Rightarrow>
     bnd (fdalloc f s) (\<lambda>fd s.
     if fd < 0 then Ok (-1) s else bnd (filedup f s) (\<lambda>_ s. Ok fd s)))"

definition sys_read :: "'x kio_scheme \<Rightarrow> (int, 'x kio_scheme) res" where
  "sys_read s =
     bnd (argaddr 1 s) (\<lambda>p s.
     bnd (argint 2 s) (\<lambda>n s.
     bnd (argfd 0 s) (\<lambda>r s.
     case r of None \<Rightarrow> Ok (-1) s | Some (_, f) \<Rightarrow> fileread f p n s)))"

definition sys_write :: "'x kio_scheme \<Rightarrow> (int, 'x kio_scheme) res" where
  "sys_write s =
     bnd (argaddr 1 s) (\<lambda>p s.
     bnd (argint 2 s) (\<lambda>n s.
     bnd (argfd 0 s) (\<lambda>r s.
     case r of None \<Rightarrow> Ok (-1) s | Some (_, f) \<Rightarrow> filewrite f p n s)))"

definition sys_close :: "'x kio_scheme \<Rightarrow> (int, 'x kio_scheme) res" where
  "sys_close s =
     bnd (argfd 0 s) (\<lambda>r s.
     case r of None \<Rightarrow> Ok (-1) s
     | Some (fd, f) \<Rightarrow>
     with_myproc (\<lambda>p s. bnd (fileclose f (set_ofile p (nat fd) None s)) (\<lambda>_ s. Ok 0 s)) s)"

definition sys_fstat :: "'x kio_scheme \<Rightarrow> (int, 'x kio_scheme) res" where
  "sys_fstat s =
     bnd (argaddr 1 s) (\<lambda>st s.
     bnd (argfd 0 s) (\<lambda>r s.
     case r of None \<Rightarrow> Ok (-1) s | Some (_, f) \<Rightarrow> filestat f st s))"

section \<open>Names\<close>

definition name_junk :: "u8 list" where "name_junk = replicate DIRSIZ 0"

text \<open>End a transaction with an error.\<close>

definition op_fail :: "'x kio_scheme \<Rightarrow> (int, 'x kio_scheme) res" where
  "op_fail s = bnd (end_op s) (\<lambda>_ s. Ok (-1) s)"

definition link_bad :: "nat \<Rightarrow> 'x kio_scheme \<Rightarrow> (int, 'x kio_scheme) res" where
  "link_bad ip s =
     bnd (ilock (Some ip) s) (\<lambda>_ s.
     bnd (iupdate ip (upd_inode ip (\<lambda>i. i\<lparr>i_nlink := i_nlink i - 1\<rparr>) s)) (\<lambda>_ s.
     bnd (iunlockput ip s) (\<lambda>_ s. op_fail s)))"

definition sys_link :: "'x kio_scheme \<Rightarrow> (int, 'x kio_scheme) res" where
  "sys_link s =
     bnd (argstr 0 MAXPATH s) (\<lambda>old s.
     case old of None \<Rightarrow> Ok (-1) s
     | Some old \<Rightarrow>
     bnd (argstr 1 MAXPATH s) (\<lambda>new s.
     case new of None \<Rightarrow> Ok (-1) s
     | Some new \<Rightarrow>
     bnd (begin_op s) (\<lambda>_ s.
     bnd (namei old s) (\<lambda>ip s.
     case ip of None \<Rightarrow> op_fail s
     | Some ip \<Rightarrow>
     bnd (ilock (Some ip) s) (\<lambda>_ s.
     if i_type (inode_at s ip) = T_DIR then bnd (iunlockput ip s) (\<lambda>_ s. op_fail s)
     else
     bnd (iupdate ip (upd_inode ip (\<lambda>i. i\<lparr>i_nlink := i_nlink i + 1\<rparr>) s)) (\<lambda>_ s.
     bnd (iunlock (Some ip) s) (\<lambda>_ s.
     bnd (nameiparent new name_junk s) (\<lambda>(dp, name) s.
     case dp of None \<Rightarrow> link_bad ip s
     | Some dp \<Rightarrow>
     bnd (ilock (Some dp) s) (\<lambda>_ s.
     bnd (if i_dev (inode_at s dp) \<noteq> i_dev (inode_at s ip) then Ok (-1) s
          else dirlink dp name (i_inum (inode_at s ip)) s) (\<lambda>r s.
     if r < 0 then bnd (iunlockput dp s) (\<lambda>_ s. link_bad ip s)
     else bnd (iunlockput dp s) (\<lambda>_ s.
          bnd (iput ip s) (\<lambda>_ s.
          bnd (end_op s) (\<lambda>_ s. Ok 0 s)))))))))))))"

definition isdirempty :: "nat \<Rightarrow> 'x kio_scheme \<Rightarrow> (bool, 'x kio_scheme) res" where
  "isdirempty dp s =
     bnd (scan (\<lambda>off s.
       bnd (read_de ''isdirempty: readi'' dp off s) (\<lambda>(inum, _) s.
       Ok (if inum \<noteq> 0 then Some () else None) s)) (drop 2 (dir_offs s dp)) s) (\<lambda>r s.
     Ok (r = None) s)"

definition unlink_bad :: "nat \<Rightarrow> 'x kio_scheme \<Rightarrow> (int, 'x kio_scheme) res" where
  "unlink_bad dp s = bnd (iunlockput dp s) (\<lambda>_ s. op_fail s)"

text \<open>The part of \<^verbatim>\<open>sys_unlink\<close> after the entry has been found.\<close>

definition unlink_found :: "nat \<Rightarrow> nat \<Rightarrow> u32 \<Rightarrow> 'x kio_scheme \<Rightarrow> (int, 'x kio_scheme) res" where
  "unlink_found dp ip off s =
     bnd (ilock (Some ip) s) (\<lambda>_ s.
     if sint (i_nlink (inode_at s ip)) < 1 then Panic ''unlink: nlink < 1''
     else
     bnd (if i_type (inode_at s ip) = T_DIR then isdirempty ip s else Ok True s) (\<lambda>e s.
     if \<not> e then bnd (iunlockput ip s) (\<lambda>_ s. unlink_bad dp s)
     else
     bnd (writei dp (KernMem (replicate DIRENT_SIZE 0)) off (of_nat DIRENT_SIZE) s) (\<lambda>w s.
     if w \<noteq> int DIRENT_SIZE then Panic ''unlink: writei''
     else
     bnd (if i_type (inode_at s ip) = T_DIR
          then iupdate dp (upd_inode dp (\<lambda>i. i\<lparr>i_nlink := i_nlink i - 1\<rparr>) s) else Ok () s) (\<lambda>_ s.
     bnd (iunlockput dp s) (\<lambda>_ s.
     bnd (iupdate ip (upd_inode ip (\<lambda>i. i\<lparr>i_nlink := i_nlink i - 1\<rparr>) s)) (\<lambda>_ s.
     bnd (iunlockput ip s) (\<lambda>_ s.
     bnd (end_op s) (\<lambda>_ s. Ok 0 s))))))))"

text \<open>\<^verbatim>\<open>"."\<close> and \<^verbatim>\<open>".."\<close> with their NULs.\<close>

definition dot :: "u8 list" where "dot = [46, 0]"
definition dotdot :: "u8 list" where "dotdot = [46, 46, 0]"

definition sys_unlink :: "'x kio_scheme \<Rightarrow> (int, 'x kio_scheme) res" where
  "sys_unlink s =
     bnd (argstr 0 MAXPATH s) (\<lambda>path s.
     case path of None \<Rightarrow> Ok (-1) s
     | Some path \<Rightarrow>
     bnd (begin_op s) (\<lambda>_ s.
     bnd (nameiparent path name_junk s) (\<lambda>(dp, name) s.
     case dp of None \<Rightarrow> op_fail s
     | Some dp \<Rightarrow>
     bnd (ilock (Some dp) s) (\<lambda>_ s.
     if namecmp name dot = Some 0 \<or> namecmp name dotdot = Some 0 then unlink_bad dp s
     else
     bnd (dirlookup dp name s) (\<lambda>r s.
     case r of None \<Rightarrow> unlink_bad dp s
     | Some (ip, off) \<Rightarrow> unlink_found dp ip off s)))))"

section \<open>Creating and opening\<close>

definition create_fail :: "nat \<Rightarrow> nat \<Rightarrow> 'x kio_scheme \<Rightarrow> (nat option, 'x kio_scheme) res" where
  "create_fail dp ip s =
     bnd (iupdate ip (upd_inode ip (\<lambda>i. i\<lparr>i_nlink := 0\<rparr>) s)) (\<lambda>_ s.
     bnd (iunlockput ip s) (\<lambda>_ s.
     bnd (iunlockput dp s) (\<lambda>_ s. Ok None s)))"

text \<open>The part of \<^verbatim>\<open>create\<close> after \<^verbatim>\<open>ialloc\<close>.\<close>

definition create_new :: "nat \<Rightarrow> nat \<Rightarrow> u8 list \<Rightarrow> u16 \<Rightarrow> u16 \<Rightarrow> u16 \<Rightarrow> 'x kio_scheme \<Rightarrow> (nat option, 'x kio_scheme) res" where
  "create_new dp ip name typ major minor s =
     bnd (ilock (Some ip) s) (\<lambda>_ s.
     bnd (iupdate ip (upd_inode ip (\<lambda>i. i\<lparr>i_major := major, i_minor := minor, i_nlink := 1\<rparr>) s)) (\<lambda>_ s.
     bnd (if typ = T_DIR
          then bnd (dirlink ip dot (i_inum (inode_at s ip)) s) (\<lambda>r s.
               if r < 0 then Ok False s
               else bnd (dirlink ip dotdot (i_inum (inode_at s dp)) s) (\<lambda>r s. Ok (\<not> r < 0) s))
          else Ok True s) (\<lambda>ok s.
     if \<not> ok then create_fail dp ip s
     else
     bnd (dirlink dp name (i_inum (inode_at s ip)) s) (\<lambda>r s.
     if r < 0 then create_fail dp ip s
     else
     bnd (if typ = T_DIR then iupdate dp (upd_inode dp (\<lambda>i. i\<lparr>i_nlink := i_nlink i + 1\<rparr>) s) else Ok () s) (\<lambda>_ s.
     bnd (iunlockput dp s) (\<lambda>_ s. Ok (Some ip) s))))))"

definition create :: "u8 list \<Rightarrow> u16 \<Rightarrow> u16 \<Rightarrow> u16 \<Rightarrow> 'x kio_scheme \<Rightarrow> (nat option, 'x kio_scheme) res" where
  "create path typ major minor s =
     bnd (nameiparent path name_junk s) (\<lambda>(dp, name) s.
     case dp of None \<Rightarrow> Ok None s
     | Some dp \<Rightarrow>
     bnd (ilock (Some dp) s) (\<lambda>_ s.
     bnd (dirlookup dp name s) (\<lambda>r s.
     case r of
       Some (ip, _) \<Rightarrow>
         bnd (iunlockput dp s) (\<lambda>_ s.
         bnd (ilock (Some ip) s) (\<lambda>_ s.
         if typ = T_FILE \<and> (i_type (inode_at s ip) = T_FILE \<or> i_type (inode_at s ip) = T_DEVICE) then Ok (Some ip) s
         else bnd (iunlockput ip s) (\<lambda>_ s. Ok None s)))
     | None \<Rightarrow>
         bnd (ialloc (i_dev (inode_at s dp)) typ s) (\<lambda>ip s.
         case ip of None \<Rightarrow> bnd (iunlockput dp s) (\<lambda>_ s. Ok None s)
         | Some ip \<Rightarrow> create_new dp ip name typ major minor s))))"

text \<open>The part of \<^verbatim>\<open>sys_open\<close> from the check of the device number on, with the inode locked.\<close>

definition open_inode :: "nat \<Rightarrow> u32 \<Rightarrow> 'x kio_scheme \<Rightarrow> (int, 'x kio_scheme) res" where
  "open_inode ip omode s =
     (let it = inode_at s ip in
      if i_type it = T_DEVICE \<and> (sint (i_major it) < 0 \<or> NDEV \<le> sint (i_major it))
      then bnd (iunlockput ip s) (\<lambda>_ s. op_fail s)
      else
      bnd (filealloc s) (\<lambda>f s.
      case f of None \<Rightarrow> bnd (iunlockput ip s) (\<lambda>_ s. op_fail s)
      | Some f \<Rightarrow>
      bnd (fdalloc f s) (\<lambda>fd s.
      if fd < 0 then bnd (fileclose f s) (\<lambda>_ s. bnd (iunlockput ip s) (\<lambda>_ s. op_fail s))
      else
      let it = inode_at s ip;
          s = (if i_type it = T_DEVICE then upd_file f (\<lambda>f. f\<lparr>ftype := FD_DEVICE, fmajor := i_major it\<rparr>) s
               else upd_file f (\<lambda>f. f\<lparr>ftype := FD_INODE, foff := 0\<rparr>) s);
          s = upd_file f (\<lambda>f. f\<lparr>fip := ip, freadable := (omode AND O_WRONLY = 0),
                 fwritable := (omode AND O_WRONLY \<noteq> 0 \<or> omode AND O_RDWR \<noteq> 0)\<rparr>) s
      in bnd (if omode AND O_TRUNC \<noteq> 0 \<and> i_type (inode_at s ip) = T_FILE then itrunc ip s else Ok () s) (\<lambda>_ s.
         bnd (iunlock (Some ip) s) (\<lambda>_ s.
         bnd (end_op s) (\<lambda>_ s. Ok fd s))))))"

definition sys_open :: "'x kio_scheme \<Rightarrow> (int, 'x kio_scheme) res" where
  "sys_open s =
     bnd (argint 1 s) (\<lambda>om s.
     let omode = of_int om :: u32 in
     bnd (argstr 0 MAXPATH s) (\<lambda>path s.
     case path of None \<Rightarrow> Ok (-1) s
     | Some path \<Rightarrow>
     bnd (begin_op s) (\<lambda>_ s.
     if omode AND O_CREATE \<noteq> 0
     then bnd (create path T_FILE 0 0 s) (\<lambda>ip s.
          case ip of None \<Rightarrow> op_fail s | Some ip \<Rightarrow> open_inode ip omode s)
     else bnd (namei path s) (\<lambda>ip s.
          case ip of None \<Rightarrow> op_fail s
          | Some ip \<Rightarrow>
          bnd (ilock (Some ip) s) (\<lambda>_ s.
          if i_type (inode_at s ip) = T_DIR \<and> omode \<noteq> O_RDONLY
          then bnd (iunlockput ip s) (\<lambda>_ s. op_fail s)
          else open_inode ip omode s)))))"

definition sys_mkdir :: "'x kio_scheme \<Rightarrow> (int, 'x kio_scheme) res" where
  "sys_mkdir s =
     bnd (begin_op s) (\<lambda>_ s.
     bnd (argstr 0 MAXPATH s) (\<lambda>path s.
     case path of None \<Rightarrow> op_fail s
     | Some path \<Rightarrow>
     bnd (create path T_DIR 0 0 s) (\<lambda>ip s.
     case ip of None \<Rightarrow> op_fail s
     | Some ip \<Rightarrow> bnd (iunlockput ip s) (\<lambda>_ s. bnd (end_op s) (\<lambda>_ s. Ok 0 s)))))"

definition sys_mknod :: "'x kio_scheme \<Rightarrow> (int, 'x kio_scheme) res" where
  "sys_mknod s =
     bnd (begin_op s) (\<lambda>_ s.
     bnd (argint 1 s) (\<lambda>major s.
     bnd (argint 2 s) (\<lambda>minor s.
     bnd (argstr 0 MAXPATH s) (\<lambda>path s.
     case path of None \<Rightarrow> op_fail s
     | Some path \<Rightarrow>
     bnd (create path T_DEVICE (of_int major) (of_int minor) s) (\<lambda>ip s.
     case ip of None \<Rightarrow> op_fail s
     | Some ip \<Rightarrow> bnd (iunlockput ip s) (\<lambda>_ s. bnd (end_op s) (\<lambda>_ s. Ok 0 s)))))))"

definition sys_chdir :: "'x kio_scheme \<Rightarrow> (int, 'x kio_scheme) res" where
  "sys_chdir =
     with_myproc (\<lambda>p s.
     bnd (begin_op s) (\<lambda>_ s.
     bnd (argstr 0 MAXPATH s) (\<lambda>path s.
     case path of None \<Rightarrow> op_fail s
     | Some path \<Rightarrow>
     bnd (namei path s) (\<lambda>ip s.
     case ip of None \<Rightarrow> op_fail s
     | Some ip \<Rightarrow>
     bnd (ilock (Some ip) s) (\<lambda>_ s.
     if i_type (inode_at s ip) \<noteq> T_DIR then bnd (iunlockput ip s) (\<lambda>_ s. op_fail s)
     else
     bnd (iunlock (Some ip) s) (\<lambda>_ s.
     bnd (case cwd (ptable s ! p) of None \<Rightarrow> Panic ''kerneltrap'' | Some c \<Rightarrow> iput c s) (\<lambda>_ s.
     bnd (end_op s) (\<lambda>_ s.
     Ok 0 (upd_proc p (\<lambda>q. q\<lparr>cwd := Some ip\<rparr>) s)))))))))"

section \<open>Pipes\<close>

definition int_bytes :: "int \<Rightarrow> u8 list" where "int_bytes n = bytes32 (of_int n)"

text \<open>The error exit, the copies of the two descriptors to the user, and their allocation.\<close>

definition pipe_undo :: "nat \<Rightarrow> nat \<Rightarrow> 'x kio_scheme \<Rightarrow> (int, 'x kio_scheme) res" where
  "pipe_undo rfl wfl s = bnd (fileclose rfl s) (\<lambda>_ s. bnd (fileclose wfl s) (\<lambda>_ s. Ok (-1) s))"

definition pipe_report :: "nat \<Rightarrow> u64 \<Rightarrow> nat \<Rightarrow> nat \<Rightarrow> int \<Rightarrow> int \<Rightarrow> 'x kio_scheme \<Rightarrow> (int, 'x kio_scheme) res" where
  "pipe_report p fdarray rfl wfl fd0 fd1 s =
     bnd (copyout (pagetable (ptable s ! p)) fdarray (int_bytes fd0) s) (\<lambda>r s.
     bnd (if r < 0 then Ok (-1) s
          else copyout (pagetable (ptable s ! p)) (fdarray + 4) (int_bytes fd1) s) (\<lambda>r s.
     if r < 0 then pipe_undo rfl wfl (set_ofile p (nat fd1) None (set_ofile p (nat fd0) None s))
     else Ok 0 s))"

definition pipe_install :: "nat \<Rightarrow> u64 \<Rightarrow> nat \<Rightarrow> nat \<Rightarrow> 'x kio_scheme \<Rightarrow> (int, 'x kio_scheme) res" where
  "pipe_install p fdarray rfl wfl s =
     bnd (fdalloc rfl s) (\<lambda>fd0 s.
     if fd0 < 0 then pipe_undo rfl wfl s
     else
     bnd (fdalloc wfl s) (\<lambda>fd1 s.
     if fd1 < 0 then pipe_undo rfl wfl (set_ofile p (nat fd0) None s)
     else pipe_report p fdarray rfl wfl fd0 fd1 s))"

definition sys_pipe :: "'x kio_scheme \<Rightarrow> (int, 'x kio_scheme) res" where
  "sys_pipe =
     with_myproc (\<lambda>p s.
     bnd (argaddr 0 s) (\<lambda>fdarray s.
     bnd (pipealloc s) (\<lambda>r s.
     case r of None \<Rightarrow> Ok (-1) s
     | Some (rfl, wfl) \<Rightarrow> pipe_install p fdarray rfl wfl s)))"

end
