(* ===== verification/Exec.thy ===== *)
theory Exec
  imports Sysfile
begin

text \<open>
  \<^verbatim>\<open>kernel/exec.c\<close> and \<^verbatim>\<open>sys_exec\<close>: loading an ELF image into a fresh page table and building
  the argument stack. Arguments are the lists of their bytes without the NUL.
\<close>

section \<open>ELF headers\<close>

definition ELFHDR_SIZE :: nat where "ELFHDR_SIZE = 64"
definition PROGHDR_SIZE :: nat where "PROGHDR_SIZE = 56"

record elfhdr =
  eh_magic :: u32
  eh_entry :: u64
  eh_phoff :: u64
  eh_phnum :: u16

record proghdr =
  ph_type :: u32
  ph_flags :: u32
  ph_off :: u64
  ph_vaddr :: u64
  ph_filesz :: u64
  ph_memsz :: u64

definition elfhdr_of :: "u8 list \<Rightarrow> elfhdr" where
  "elfhdr_of d = \<lparr>eh_magic = get32 d 0, eh_entry = get64 d 24, eh_phoff = get64 d 32, eh_phnum = get16 d 56\<rparr>"

definition proghdr_of :: "u8 list \<Rightarrow> proghdr" where
  "proghdr_of d = \<lparr>ph_type = get32 d 0, ph_flags = get32 d 4, ph_off = get64 d 8, ph_vaddr = get64 d 16,
     ph_filesz = get64 d 32, ph_memsz = get64 d 40\<rparr>"

definition flags2perm :: "u32 \<Rightarrow> u64" where
  "flags2perm flags =
     (let perm = (if flags AND 1 \<noteq> 0 then PTE_X else 0) in if flags AND 2 \<noteq> 0 then perm OR PTE_W else perm)"

section \<open>Loading\<close>

text \<open>\<^verbatim>\<open>readi\<close> into a page of kernel memory at \<open>pa\<close>.\<close>

definition readi_phys :: "nat \<Rightarrow> u64 \<Rightarrow> u32 \<Rightarrow> u32 \<Rightarrow> 'x kio_scheme \<Rightarrow> (int, 'x kio_scheme) res" where
  "readi_phys ip pa off n s =
     bnd (readi ip (KernMem []) off n s) (\<lambda>(r, d) s.
     case d of KernMem bs \<Rightarrow> Ok r (store_bytes pa bs s) | UserMem _ \<Rightarrow> oob)"

function loadseg_loop :: "u64 \<Rightarrow> u64 \<Rightarrow> nat \<Rightarrow> u32 \<Rightarrow> nat \<Rightarrow> nat \<Rightarrow> 'x kio_scheme \<Rightarrow> (int, 'x kio_scheme) res" where
  "loadseg_loop pt va ip offset i siz s =
     (if i < siz
      then bnd (walkaddr pt (va + of_nat i) s) (\<lambda>pa s.
           if pa = 0 then Panic ''loadseg: address should exist''
           else let n = (if siz - i < 4096 then siz - i else 4096) in
             bnd (readi_phys ip pa (offset + of_nat i) (of_nat n) s) (\<lambda>r s.
             if r \<noteq> int n then Ok (-1) s else loadseg_loop pt va ip offset (i + 4096) siz s))
      else Ok 0 s)"
  by pat_completeness auto
termination
  by (relation "measure (\<lambda>(pt, va, ip, offset, i, siz, s). siz - i)") auto

declare loadseg_loop.simps [simp del]

definition loadseg :: "u64 \<Rightarrow> u64 \<Rightarrow> nat \<Rightarrow> u32 \<Rightarrow> u32 \<Rightarrow> 'x kio_scheme \<Rightarrow> (int, 'x kio_scheme) res" where
  "loadseg pt va ip offset siz s = loadseg_loop pt va ip offset 0 (unat siz) s"

text \<open>
  The loop over program headers: the new size and whether it went through. On failure the size
  is the one to free.
\<close>

fun load_phdrs :: "u64 \<Rightarrow> nat \<Rightarrow> u32 \<Rightarrow> nat \<Rightarrow> u64 \<Rightarrow> 'x kio_scheme \<Rightarrow> (bool \<times> u64, 'x kio_scheme) res" where
  "load_phdrs pt ip off 0 siz s = Ok (True, siz) s"
| "load_phdrs pt ip off (Suc k) siz s =
     bnd (readi ip (KernMem []) off (of_nat PROGHDR_SIZE) s) (\<lambda>(r, d) s.
     case d of UserMem _ \<Rightarrow> oob
     | KernMem bs \<Rightarrow>
     if r \<noteq> int PROGHDR_SIZE then Ok (False, siz) s
     else let ph = proghdr_of bs; off' = off + of_nat PROGHDR_SIZE in
     if ph_type ph \<noteq> ELF_PROG_LOAD then load_phdrs pt ip off' k siz s
     else if ph_memsz ph < ph_filesz ph \<or> ph_vaddr ph + ph_memsz ph < ph_vaddr ph \<or> ph_vaddr ph mod PGSIZE \<noteq> 0
     then Ok (False, siz) s
     else bnd (uvmalloc pt siz (ph_vaddr ph + ph_memsz ph) (flags2perm (ph_flags ph)) s) (\<lambda>sz1 s.
     if sz1 = 0 then Ok (False, siz) s
     else bnd (loadseg pt (ph_vaddr ph) ip (ucast (ph_off ph)) (ucast (ph_filesz ph)) s) (\<lambda>r s.
     if r < 0 then Ok (False, sz1) s else load_phdrs pt ip off' k sz1 s)))"

section \<open>The argument stack\<close>

text \<open>Push the strings; the result is the stack pointer and \<^verbatim>\<open>ustack\<close>, or \<open>None\<close>.\<close>

definition align16 :: "u64 \<Rightarrow> u64" where "align16 sp = sp - sp mod 16"

fun push_args :: "u64 \<Rightarrow> u64 \<Rightarrow> nat \<Rightarrow> u8 list list \<Rightarrow> u64 \<Rightarrow> u64 list \<Rightarrow> 'x kio_scheme
    \<Rightarrow> ((u64 \<times> u64 list) option, 'x kio_scheme) res" where
  "push_args pt stackbase argc [] sp ustack s = Ok (Some (sp, ustack)) s"
| "push_args pt stackbase argc (arg # args) sp ustack s =
     (if MAXARG \<le> argc then Ok None s
      else let sp = align16 (sp - (of_nat (length arg) + 1)) in
      if sp < stackbase then Ok None s
      else bnd (copyout pt sp (arg @ [0]) s) (\<lambda>r s.
      if r < 0 then Ok None s else push_args pt stackbase (argc + 1) args sp (ustack @ [sp]) s))"

definition bytes64 :: "u64 \<Rightarrow> u8 list" where
  "bytes64 w = bytes32 (ucast w) @ bytes32 (ucast (drop_bit 32 w))"

text \<open>\<^verbatim>\<open>ustack[argc] = 0\<close> lies outside the array when there are \<^verbatim>\<open>MAXARG\<close> arguments.\<close>

definition push_ustack :: "u64 \<Rightarrow> u64 \<Rightarrow> u64 \<Rightarrow> u64 list \<Rightarrow> 'x kio_scheme \<Rightarrow> (u64 option, 'x kio_scheme) res" where
  "push_ustack pt stackbase sp ustack s =
     (if MAXARG \<le> length ustack then oob
      else let sp = align16 (sp - (of_nat (length ustack) + 1) * 8) in
      if sp < stackbase then Ok None s
      else bnd (copyout pt sp (concat (map bytes64 (ustack @ [0]))) s) (\<lambda>r s.
      if r < 0 then Ok None s else Ok (Some sp) s))"

text \<open>The bytes after the last slash.\<close>

fun last_elem :: "u8 list \<Rightarrow> u8 list \<Rightarrow> u8 list" where
  "last_elem lst [] = lst"
| "last_elem lst (c # cs) = (if c = slash then last_elem cs cs else last_elem lst cs)"

section \<open>kexec\<close>

text \<open>The label \<^verbatim>\<open>bad\<close>; \<open>ip\<close> is the inode still locked, if any.\<close>

definition exec_bad :: "u64 \<Rightarrow> u64 \<Rightarrow> nat option \<Rightarrow> 'x kio_scheme \<Rightarrow> (int, 'x kio_scheme) res" where
  "exec_bad pt siz ip s =
     bnd (if pt \<noteq> 0 then proc_freepagetable pt siz s else Ok () s) (\<lambda>_ s.
     case ip of None \<Rightarrow> Ok (-1) s | Some i \<Rightarrow> bnd (iunlockput i s) (\<lambda>_ s. op_fail s))"

text \<open>From the stack pages on: \<open>siz\<close> is the size of the loaded image.\<close>

definition exec_stack :: "nat \<Rightarrow> u8 list \<Rightarrow> u8 list list \<Rightarrow> u64 \<Rightarrow> u64 \<Rightarrow> u64 \<Rightarrow> 'x kio_scheme \<Rightarrow> (int, 'x kio_scheme) res" where
  "exec_stack p path argv pt entry siz s =
     (let oldsz = sz (ptable s ! p); siz = PGROUNDUP siz in
      bnd (uvmalloc pt siz (siz + (USERSTACK + 1) * PGSIZE) PTE_W s) (\<lambda>sz1 s.
      if sz1 = 0 then exec_bad pt siz None s
      else
      bnd (uvmclear pt (sz1 - (USERSTACK + 1) * PGSIZE) s) (\<lambda>_ s.
      let stackbase = sz1 - USERSTACK * PGSIZE in
      bnd (push_args pt stackbase 0 argv sz1 [] s) (\<lambda>r s.
      case r of None \<Rightarrow> exec_bad pt sz1 None s
      | Some (sp, ustack) \<Rightarrow>
      bnd (push_ustack pt stackbase sp ustack s) (\<lambda>r s.
      case r of None \<Rightarrow> exec_bad pt sz1 None s
      | Some sp \<Rightarrow>
      (case safestrcpy (pname (ptable s ! p)) (last_elem path path @ [0]) 16 of
         None \<Rightarrow> oob
       | Some nm \<Rightarrow>
           let oldpt = pagetable (ptable s ! p);
               s = upd_proc p (\<lambda>q. q\<lparr>pname := nm, pagetable := pt, sz := sz1,
                     tf := (tf q)\<lparr>a1 := sp, epc := entry, tf_sp := sp\<rparr>\<rparr>) s
           in bnd (proc_freepagetable oldpt oldsz s) (\<lambda>_ s. Ok (int (length argv)) s)))))))"

definition kexec :: "u8 list \<Rightarrow> u8 list list \<Rightarrow> 'x kio_scheme \<Rightarrow> (int, 'x kio_scheme) res" where
  "kexec path argv =
     with_myproc (\<lambda>p s.
     bnd (begin_op s) (\<lambda>_ s.
     bnd (namei path s) (\<lambda>ip s.
     case ip of None \<Rightarrow> op_fail s
     | Some ip \<Rightarrow>
     bnd (ilock (Some ip) s) (\<lambda>_ s.
     bnd (readi ip (KernMem []) 0 (of_nat ELFHDR_SIZE) s) (\<lambda>(r, d) s.
     case d of UserMem _ \<Rightarrow> oob
     | KernMem bs \<Rightarrow>
     if r \<noteq> int ELFHDR_SIZE then exec_bad 0 0 (Some ip) s
     else let elf = elfhdr_of bs in
     if eh_magic elf \<noteq> ELF_MAGIC then exec_bad 0 0 (Some ip) s
     else
     bnd (proc_pagetable p s) (\<lambda>pt s.
     if pt = 0 then exec_bad 0 0 (Some ip) s
     else
     bnd (load_phdrs pt ip (ucast (eh_phoff elf)) (unat (eh_phnum elf)) 0 s) (\<lambda>(good, siz) s.
     if \<not> good then exec_bad pt siz (Some ip) s
     else
     bnd (iunlockput ip s) (\<lambda>_ s.
     bnd (end_op s) (\<lambda>_ s.
     exec_stack p path argv pt (eh_entry elf) siz s)))))))))"

section \<open>sys_exec\<close>

text \<open>
  Fetch the argument vector, each string into a page of its own: the pages obtained, in order,
  the strings, and whether all went well.
\<close>

fun fetch_argv :: "u64 \<Rightarrow> nat \<Rightarrow> nat \<Rightarrow> u64 list \<Rightarrow> u8 list list \<Rightarrow> 'x kio_scheme
    \<Rightarrow> (bool \<times> u64 list \<times> u8 list list, 'x kio_scheme) res" where
  "fetch_argv uargv i 0 pages argv s = Ok (False, pages, argv) s"
| "fetch_argv uargv i (Suc k) pages argv s =
     bnd (fetchaddr (uargv + 8 * of_nat i) s) (\<lambda>r s.
     case r of None \<Rightarrow> Ok (False, pages, argv) s
     | Some uarg \<Rightarrow>
     if uarg = 0 then Ok (True, pages, argv) s
     else bnd (kalloc s) (\<lambda>pg s.
     if pg = 0 then Ok (False, pages, argv) s
     else bnd (fetchstr uarg 4096 s) (\<lambda>r s.
     case r of None \<Rightarrow> Ok (False, pages @ [pg], argv) s
     | Some str \<Rightarrow> fetch_argv uargv (i + 1) k (pages @ [pg]) (argv @ [str]) s)))"

definition sys_exec :: "'x kio_scheme \<Rightarrow> (int, 'x kio_scheme) res" where
  "sys_exec s =
     bnd (argaddr 1 s) (\<lambda>uargv s.
     bnd (argstr 0 MAXPATH s) (\<lambda>path s.
     case path of None \<Rightarrow> Ok (-1) s
     | Some path \<Rightarrow>
     bnd (fetch_argv uargv 0 MAXARG [] [] s) (\<lambda>(good, pages, argv) s.
     bnd (if good then kexec path argv s else Ok (-1) s) (\<lambda>ret s.
     bnd (foreach kfree pages s) (\<lambda>_ s. Ok ret s)))))"

end
