(* ===== verification/Proc_Life.thy ===== *)
theory Proc_Life
  imports Exec
begin

text \<open>
  The part of \<^verbatim>\<open>kernel/proc.c\<close> that creates and ends processes: \<^verbatim>\<open>userinit\<close>, \<^verbatim>\<open>kfork\<close>,
  \<^verbatim>\<open>kexit\<close> and \<^verbatim>\<open>kwait\<close>.
\<close>

definition userinit :: "'x kio_scheme \<Rightarrow> (unit, 'x kio_scheme) res" where
  "userinit s =
     bnd (allocproc s) (\<lambda>r s.
     case r of None \<Rightarrow> Panic ''kerneltrap''
     | Some p \<Rightarrow>
     bnd (namei [slash] (s\<lparr>initproc := Some p\<rparr>)) (\<lambda>ip s.
     release (ProcLock p) (upd_proc p (\<lambda>q. q\<lparr>cwd := ip, state := RUNNABLE\<rparr>) s)))"

text \<open>Duplicate the open files of \<open>p\<close> into \<open>np\<close>.\<close>

definition fork_files :: "nat \<Rightarrow> nat \<Rightarrow> 'x kio_scheme \<Rightarrow> (unit, 'x kio_scheme) res" where
  "fork_files p np s =
     foreach (\<lambda>i s.
       case ofile (ptable s ! p) ! i of
         None \<Rightarrow> Ok () s
       | Some f \<Rightarrow> bnd (filedup f s) (\<lambda>f s. Ok () (set_ofile np i (Some f) s))) [0..<NOFILE] s"

definition kfork :: "'x kio_scheme \<Rightarrow> (int, 'x kio_scheme) res" where
  "kfork =
     with_myproc (\<lambda>p s.
     bnd (allocproc s) (\<lambda>r s.
     case r of None \<Rightarrow> Ok (-1) s
     | Some np \<Rightarrow>
     bnd (uvmcopy (pagetable (ptable s ! p)) (pagetable (ptable s ! np)) (sz (ptable s ! p)) s) (\<lambda>r s.
     if r < 0
     then bnd (freeproc np s) (\<lambda>_ s. bnd (release (ProcLock np) s) (\<lambda>_ s. Ok (-1) s))
     else
     let s = upd_proc np (\<lambda>q. q\<lparr>sz := sz (ptable s ! p), tf := (tf (ptable s ! p))\<lparr>a0 := 0\<rparr>\<rparr>) s in
     bnd (fork_files p np s) (\<lambda>_ s.
     bnd (case cwd (ptable s ! p) of None \<Rightarrow> Panic ''kerneltrap'' | Some c \<Rightarrow> idup c s) (\<lambda>c s.
     case safestrcpy (pname (ptable s ! np)) (pname (ptable s ! p)) 16 of
       None \<Rightarrow> oob
     | Some nm \<Rightarrow>
     let s = upd_proc np (\<lambda>q. q\<lparr>cwd := Some c, pname := nm\<rparr>) s; n = pid (ptable s ! np) in
     bnd (release (ProcLock np) s) (\<lambda>_ s.
     bnd (acquire WaitLock s) (\<lambda>_ s.
     bnd (release WaitLock (upd_proc np (\<lambda>q. q\<lparr>parent := Some p\<rparr>) s)) (\<lambda>_ s.
     bnd (acquire (ProcLock np) s) (\<lambda>_ s.
     bnd (release (ProcLock np) (upd_proc np (\<lambda>q. q\<lparr>state := RUNNABLE\<rparr>) s)) (\<lambda>_ s.
     Ok n s))))))))))"

definition close_files :: "nat \<Rightarrow> 'x kio_scheme \<Rightarrow> (unit, 'x kio_scheme) res" where
  "close_files p s =
     foreach (\<lambda>fd s.
       case ofile (ptable s ! p) ! fd of
         None \<Rightarrow> Ok () s
       | Some f \<Rightarrow> bnd (fileclose f s) (\<lambda>_ s. Ok () (set_ofile p fd None s))) [0..<NOFILE] s"

text \<open>
  A process that exits never returns: its last act is the switch to the scheduler, in a state
  that no wake-up reaches. A parent pointer that is null is no channel at all.
\<close>

definition kexit :: "int \<Rightarrow> 'x kio_scheme \<Rightarrow> (unit, 'x kio_scheme) res" where
  "kexit status =
     with_myproc (\<lambda>p s.
     if initproc s = Some p then Panic ''init exiting''
     else
     bnd (close_files p s) (\<lambda>_ s.
     bnd (begin_op s) (\<lambda>_ s.
     bnd (case cwd (ptable s ! p) of None \<Rightarrow> Panic ''kerneltrap'' | Some c \<Rightarrow> iput c s) (\<lambda>_ s.
     bnd (end_op s) (\<lambda>_ s.
     let s = upd_proc p (\<lambda>q. q\<lparr>cwd := None\<rparr>) s in
     bnd (acquire WaitLock s) (\<lambda>_ s.
     bnd (reparent p s) (\<lambda>_ s.
     bnd (case parent (ptable s ! p) of Some k \<Rightarrow> wakeup (ChProc k) s | None \<Rightarrow> Ok () s) (\<lambda>_ s.
     bnd (acquire (ProcLock p) s) (\<lambda>_ s.
     let s = upd_proc p (\<lambda>q. q\<lparr>xstate := of_int status, state := ZOMBIE\<rparr>) s in
     bnd (release WaitLock s) (\<lambda>_ s.
     bnd (sched ChYield s) (\<lambda>_ s. Panic ''zombie exit'')))))))))))"

text \<open>
  One scan of the table by \<^verbatim>\<open>kwait\<close>: the value to return, with the wait lock already released,
  or \<open>None\<close>; the flag is \<^verbatim>\<open>havekids\<close>.
\<close>

fun kwait_scan :: "nat \<Rightarrow> u64 \<Rightarrow> nat list \<Rightarrow> bool \<Rightarrow> 'x kio_scheme \<Rightarrow> (int option \<times> bool, 'x kio_scheme) res" where
  "kwait_scan p addr [] kids s = Ok (None, kids) s"
| "kwait_scan p addr (pp # pps) kids s =
     (if parent (ptable s ! pp) = Some p
      then bnd (acquire (ProcLock pp) s) (\<lambda>_ s.
           if state (ptable s ! pp) = ZOMBIE
           then let n = pid (ptable s ! pp) in
             bnd (if addr \<noteq> 0
                  then copyout (pagetable (ptable s ! p)) addr (bytes32 (xstate (ptable s ! pp))) s
                  else Ok 0 s) (\<lambda>r s.
             if r < 0
             then bnd (release (ProcLock pp) s) (\<lambda>_ s. bnd (release WaitLock s) (\<lambda>_ s. Ok (Some (-1), True) s))
             else bnd (freeproc pp s) (\<lambda>_ s.
                  bnd (release (ProcLock pp) s) (\<lambda>_ s.
                  bnd (release WaitLock s) (\<lambda>_ s. Ok (Some n, True) s))))
           else bnd (release (ProcLock pp) s) (\<lambda>_ s. kwait_scan p addr pps True s))
      else kwait_scan p addr pps kids s)"

definition kwait_loop :: "nat \<Rightarrow> u64 \<Rightarrow> 'x kio_scheme \<Rightarrow> (int, 'x kio_scheme) res" where
  "kwait_loop p addr s =
     bnd (kwait_scan p addr [0..<NPROC] False s) (\<lambda>(r, kids) s.
     case r of Some n \<Rightarrow> Ok n s
     | None \<Rightarrow>
     bnd (if kids then killed p s else Ok True s) (\<lambda>k s.
     if k then bnd (release WaitLock s) (\<lambda>_ s. Ok (-1) s)
     else bnd (sleep (ChProc p) WaitLock s) (\<lambda>_ s. Ok 0 s)))"

definition kwait :: "u64 \<Rightarrow> 'x kio_scheme \<Rightarrow> (int, 'x kio_scheme) res" where
  "kwait addr = with_myproc (\<lambda>p s. bnd (acquire WaitLock s) (\<lambda>_ s. kwait_loop p addr s))"

definition kwait_resume :: "u64 \<Rightarrow> 'x kio_scheme \<Rightarrow> (int, 'x kio_scheme) res" where
  "kwait_resume addr = with_myproc (\<lambda>p s. bnd (sleep_resume WaitLock s) (\<lambda>_ s. kwait_loop p addr s))"

end
