(* ===== verification/Fs_Frame.thy ===== *)
theory Fs_Frame
  imports Fs
begin

text \<open>
  What the operations of the file system and everything below leave alone, on return and when they
  go to sleep. The locale \<open>fs_frame\<close> is a property of states that does not look at the locks, the caches, the
  disk, the log and the inode table, nor at whether a process runs or sleeps; every operation
  keeps such a property. It is used at two: the processes and all state of the layers above stay
  (\<open>fk\<close>), and, as long as nothing is copied to user memory, physical memory and the free list
  stay (\<open>mk\<close>). The facts are collected in \<open>keeps\<close>.
\<close>

named_theorems keeps \<open>an operation leaves the layers above alone\<close>

text \<open>A process but for what sleep and wakeup change.\<close>

definition rested :: "proc \<Rightarrow> proc" where "rested q = q\<lparr>state := UNUSED, pchan := None\<rparr>"

lemma rested_fields [simp]:
  "ofile (rested q) = ofile q" "pagetable (rested q) = pagetable q" "sz (rested q) = sz q" "pname (rested q) = pname q" "tf (rested q) = tf q"
  by (simp_all add: rested_def)

definition fk :: "'x kfs_scheme \<Rightarrow> 'x kfs_scheme \<Rightarrow> bool" where
  "fk z s \<longleftrightarrow> kfs.more s = kfs.more z \<and> map rested (ptable s) = map rested (ptable z) \<and> curproc s = curproc z"

lemma fk_refl [simp, intro]: "fk s s"
  by (simp add: fk_def)

lemma fk_trans: "fk s t \<Longrightarrow> fk t u \<Longrightarrow> fk s u"
  by (simp add: fk_def)

lemma fk_ofile: "fk z s \<Longrightarrow> map ofile (ptable s) = map ofile (ptable z)"
proof -
  assume "fk z s"
  then have "map ofile (map rested (ptable s)) = map ofile (map rested (ptable z))" by (simp only: fk_def)
  then show ?thesis by (simp add: comp_def)
qed

lemma map_rested_update: "rested (f (ps ! i)) = rested (ps ! i) \<Longrightarrow> map rested (ps[i := f (ps ! i)]) = map rested ps"
  by (cases "i < length ps") (auto intro: list_update_same_map simp: list_update_beyond)

lemma fk_updates [simp]:
  "fk z (s\<lparr>held := h\<rparr>) = fk z s" "fk z (s\<lparr>outp := oo\<rparr>) = fk z s" "fk z (s\<lparr>slocks := sl\<rparr>) = fk z s"
  "fk z (s\<lparr>bufs := bs\<rparr>) = fk z s" "fk z (s\<lparr>blru := l\<rparr>) = fk z s" "fk z (s\<lparr>disk := d\<rparr>) = fk z s"
  "fk z (s\<lparr>dtrace := tr\<rparr>) = fk z s" "fk z (s\<lparr>log_start := ls\<rparr>) = fk z s" "fk z (s\<lparr>log_dev := ld\<rparr>) = fk z s"
  "fk z (s\<lparr>log_outstanding := lo\<rparr>) = fk z s" "fk z (s\<lparr>log_committing := lc\<rparr>) = fk z s"
  "fk z (s\<lparr>lhn := n\<rparr>) = fk z s" "fk z (s\<lparr>lhblock := lb\<rparr>) = fk z s" "fk z (s\<lparr>fsb := f\<rparr>) = fk z s"
  "fk z (s\<lparr>itable := it\<rparr>) = fk z s"
  by (simp_all add: fk_def)

lemma fk_upd_proc: "(\<And>q. rested (f q) = rested q) \<Longrightarrow> fk z (upd_proc p f s) = fk z s"
  by (simp add: fk_def upd_proc_def map_rested_update)

section \<open>The operations keep what they do not look at\<close>

locale fs_frame =
  fixes P :: "'x kfs_scheme \<Rightarrow> bool"
  assumes upd_held [simp]: "P (s\<lparr>held := h\<rparr>) = P s" and upd_outp [simp]: "P (s\<lparr>outp := oo\<rparr>) = P s"
    and upd_slocks [simp]: "P (s\<lparr>slocks := sl\<rparr>) = P s" and upd_bufs [simp]: "P (s\<lparr>bufs := bs\<rparr>) = P s"
    and upd_blru [simp]: "P (s\<lparr>blru := l\<rparr>) = P s" and upd_disk [simp]: "P (s\<lparr>disk := d\<rparr>) = P s"
    and upd_dtrace [simp]: "P (s\<lparr>dtrace := tr\<rparr>) = P s" and upd_log_start [simp]: "P (s\<lparr>log_start := ls\<rparr>) = P s"
    and upd_log_dev [simp]: "P (s\<lparr>log_dev := ld\<rparr>) = P s" and upd_outst [simp]: "P (s\<lparr>log_outstanding := lo\<rparr>) = P s"
    and upd_commit [simp]: "P (s\<lparr>log_committing := lc\<rparr>) = P s" and upd_lhn [simp]: "P (s\<lparr>lhn := n\<rparr>) = P s"
    and upd_lhblock [simp]: "P (s\<lparr>lhblock := lb\<rparr>) = P s" and upd_fsb [simp]: "P (s\<lparr>fsb := f\<rparr>) = P s"
    and upd_itable [simp]: "P (s\<lparr>itable := it\<rparr>) = P s"
    and upd_rested: "(\<And>q. rested (g q) = rested q) \<Longrightarrow> P (upd_proc p g s) = P s"
begin

lemma upd_parts [simp]:
  "P (upd_slock sl g s) = P s" "P (upd_buf i h s) = P s" "P (set_bdata i d s) = P s"
  "P (upd_inode i k s) = P s" "P (kprint m s) = P s"
  by (simp_all add: upd_slock_def upd_buf_def set_bdata_def upd_inode_def kprint_def)

lemma acquire_keeps [keeps]: "P s \<Longrightarrow> post P (acquire l s)"
  by (simp add: acquire_def)

lemma release_keeps [keeps]: "P s \<Longrightarrow> post P (release l s)"
  by (simp add: release_def)

lemma printf_keeps [keeps]: "P s \<Longrightarrow> post P (printf f as s)"
  by (auto simp: printf_def intro!: post_bnd keeps split: option.split)

lemma wakeup_keeps [keeps]: "P s \<Longrightarrow> post P (wakeup c s)"
  by (auto simp: wakeup_def wakeup_one_def Let_def upd_rested rested_def intro!: post_foreach post_bnd keeps)

lemma sleep_keeps [keeps]: "P s \<Longrightarrow> post P (sleep c lk s)"
  by (auto simp: sleep_def sched_def with_myproc_def Let_def upd_rested rested_def intro!: post_bnd keeps split: option.split)

lemma acquiresleep_keeps [keeps]: "P s \<Longrightarrow> post P (acquiresleep l s)"
  by (auto simp: acquiresleep_def acquiresleep_loop_def with_myproc_def Let_def intro!: post_bnd keeps split: option.split)

lemma releasesleep_keeps [keeps]: "P s \<Longrightarrow> post P (releasesleep l s)"
  by (auto simp: releasesleep_def Let_def intro!: post_bnd keeps split: option.split)

lemma holdingsleep_keeps [keeps]: "P s \<Longrightarrow> post P (holdingsleep l s)"
  by (auto simp: holdingsleep_def with_myproc_def Let_def intro!: post_bnd keeps split: option.split)

lemma disk_rw_keeps [keeps]: "P s \<Longrightarrow> post P (disk_rw i wr s)"
  by (auto simp: disk_rw_def with_myproc_def Let_def intro!: post_bnd keeps split: option.split)

lemma bget_keeps [keeps]: "P s \<Longrightarrow> post P (bget d b s)"
  by (auto simp: bget_def Let_def intro!: post_bnd keeps split: option.split)

lemma bread_keeps [keeps]: "P s \<Longrightarrow> post P (bread d b s)"
  by (auto simp: bread_def Let_def intro!: post_bnd keeps split: option.split)

lemma bwrite_keeps [keeps]: "P s \<Longrightarrow> post P (bwrite i s)"
  by (auto simp: bwrite_def Let_def intro!: post_bnd keeps split: option.split)

lemma brelse_keeps [keeps]: "P s \<Longrightarrow> post P (brelse i s)"
  by (auto simp: brelse_def Let_def intro!: post_bnd keeps split: option.split)

lemma bpin_keeps [keeps]: "P s \<Longrightarrow> post P (bpin i s)"
  by (auto simp: bpin_def Let_def intro!: post_bnd keeps split: option.split)

lemma bunpin_keeps [keeps]: "P s \<Longrightarrow> post P (bunpin i s)"
  by (auto simp: bunpin_def Let_def intro!: post_bnd keeps split: option.split)

lemma install_one_keeps [keeps]: "P s \<Longrightarrow> post P (install_one r i s)"
  by (auto simp: install_one_def Let_def intro!: post_bnd keeps split: option.split)

lemma install_trans_keeps [keeps]: "P s \<Longrightarrow> post P (install_trans r s)"
  by (auto simp: install_trans_def Let_def intro!: post_foreach post_bnd keeps split: option.split)

lemma read_head_keeps [keeps]: "P s \<Longrightarrow> post P (read_head s)"
  by (auto simp: read_head_def oob_def Let_def intro!: post_bnd keeps split: option.split)

lemma write_head_keeps [keeps]: "P s \<Longrightarrow> post P (write_head s)"
  by (auto simp: write_head_def oob_def Let_def intro!: post_bnd keeps split: option.split)

lemma recover_from_log_keeps [keeps]: "P s \<Longrightarrow> post P (recover_from_log s)"
  by (auto simp: recover_from_log_def Let_def intro!: post_bnd keeps split: option.split)

lemma begin_op_keeps [keeps]: "P s \<Longrightarrow> post P (begin_op s)"
  by (auto simp: begin_op_def begin_op_loop_def Let_def intro!: post_bnd keeps split: option.split)

lemma write_log_keeps [keeps]: "P s \<Longrightarrow> post P (write_log s)"
  by (auto simp: write_log_def write_log_one_def Let_def intro!: post_foreach post_bnd keeps split: option.split)

lemma commit_keeps [keeps]: "P s \<Longrightarrow> post P (commit s)"
  by (auto simp: commit_def Let_def intro!: post_bnd keeps split: option.split)

lemma end_op_keeps [keeps]: "P s \<Longrightarrow> post P (end_op s)"
  by (auto simp: end_op_def Let_def intro!: post_bnd keeps split: option.split)

lemma log_write_keeps [keeps]: "P s \<Longrightarrow> post P (log_write b s)"
  by (auto simp: log_write_def Let_def intro!: post_bnd keeps split: option.split)

lemma readsb_keeps [keeps]: "P s \<Longrightarrow> post P (readsb d s)"
  by (auto simp: readsb_def Let_def intro!: post_bnd keeps split: option.split)

lemma bzero_keeps [keeps]: "P s \<Longrightarrow> post P (bzero d b s)"
  by (auto simp: bzero_def Let_def intro!: post_bnd keeps split: option.split)

lemma balloc_group_keeps [keeps]: "P s \<Longrightarrow> post P (balloc_group d b s)"
  by (auto simp: balloc_group_def Let_def intro!: post_bnd keeps split: option.split)

lemma balloc_keeps [keeps]: "P s \<Longrightarrow> post P (balloc d s)"
  by (auto simp: balloc_def Let_def intro!: post_scan post_bnd keeps split: option.split)

lemma bfree_keeps [keeps]: "P s \<Longrightarrow> post P (bfree d b s)"
  by (auto simp: bfree_def Let_def intro!: post_bnd keeps split: option.split)

lemma iget_keeps [keeps]: "P s \<Longrightarrow> post P (iget d n s)"
  by (auto simp: iget_def Let_def intro!: post_bnd keeps split: option.split)

lemma ialloc_one_keeps [keeps]: "P s \<Longrightarrow> post P (ialloc_one d ty n s)"
  by (auto simp: ialloc_one_def Let_def intro!: post_bnd keeps split: option.split)

lemma ialloc_keeps [keeps]: "P s \<Longrightarrow> post P (ialloc d ty s)"
  by (auto simp: ialloc_def Let_def intro!: post_scan post_bnd keeps split: option.split)

lemma iupdate_keeps [keeps]: "P s \<Longrightarrow> post P (iupdate i s)"
  by (auto simp: iupdate_def Let_def intro!: post_bnd keeps split: option.split)

lemma idup_keeps [keeps]: "P s \<Longrightarrow> post P (idup i s)"
  by (auto simp: idup_def Let_def intro!: post_bnd keeps split: option.split)

lemma ilock_keeps [keeps]: "P s \<Longrightarrow> post P (ilock p s)"
  by (auto simp: ilock_def Let_def intro!: post_bnd keeps split: option.split)

lemma iunlock_keeps [keeps]: "P s \<Longrightarrow> post P (iunlock p s)"
  by (auto simp: iunlock_def Let_def intro!: post_bnd keeps split: option.split)

lemma bmap_keeps [keeps]: "P s \<Longrightarrow> post P (bmap i n s)"
  by (auto simp: bmap_def Let_def intro!: post_bnd keeps split: option.split)

lemma itrunc_keeps [keeps]: "P s \<Longrightarrow> post P (itrunc i s)"
  by (auto simp: itrunc_def Let_def intro!: post_foreach post_bnd keeps split: option.split)

lemma iput_keeps [keeps]: "P s \<Longrightarrow> post P (iput i s)"
  by (auto simp: iput_def Let_def intro!: post_bnd keeps split: option.split)

lemma iunlockput_keeps [keeps]: "P s \<Longrightarrow> post P (iunlockput i s)"
  by (auto simp: iunlockput_def Let_def intro!: post_bnd keeps split: option.split)

section \<open>Content read into kernel memory, directories, paths\<close>

lemma io_chunk_less: "tot < n \<Longrightarrow> n - (tot + min (n - tot) (BSIZE - off mod BSIZE)) < n - tot"
  by (auto simp: BSIZE_def)

lemma readi_loop_kern_keeps [keeps]: "P s \<Longrightarrow> post P (readi_loop i (KernMem bs) off tot n s)"
proof (induction "n - tot" arbitrary: bs off tot s rule: less_induct)
  case less
  show ?case
    using less.prems by (subst readi_loop.simps)
      (auto simp: either_copyout_def with_myproc_def Let_def io_chunk_less intro!: post_bnd keeps less.hyps
        split: prod.split option.splits)
qed

lemma readi_kern_keeps [keeps]: "P s \<Longrightarrow> post P (readi i (KernMem bs) off n s)"
  by (auto simp: readi_def Let_def intro!: keeps)

lemma read_de_keeps [keeps]: "P s \<Longrightarrow> post P (read_de m d off s)"
  by (auto simp: read_de_def oob_def intro!: post_bnd keeps split: prod.split place.split)

lemma dirlookup_keeps [keeps]: "P s \<Longrightarrow> post P (dirlookup d nm s)"
  by (auto simp: dirlookup_def oob_def intro!: post_scan post_bnd keeps split: prod.split option.split)

lemma namex_loop_keeps [keeps]: "P s \<Longrightarrow> post P (namex_loop i path par nm s)"
proof (induction "length path" arbitrary: i path par nm s rule: less_induct)
  case less
  show ?case
    using less.prems by (subst namex_loop.simps)
      (auto intro!: post_bnd keeps less.hyps skipelem_shorter split: prod.split option.split)
qed

lemma namex_keeps [keeps]: "P s \<Longrightarrow> post P (namex path par nm s)"
  by (auto simp: namex_def with_myproc_def intro!: post_bnd keeps split: option.split)

lemma namei_keeps [keeps]: "P s \<Longrightarrow> post P (namei path s)"
  by (auto simp: namei_def intro!: post_bnd keeps split: prod.split)

lemma nameiparent_keeps [keeps]: "P s \<Longrightarrow> post P (nameiparent path nm s)"
  by (simp add: nameiparent_def keeps)

end

section \<open>Copies to and from user memory\<close>

text \<open>A property that does not look at physical memory either is kept by all of them.\<close>

locale fs_frame_user = fs_frame +
  assumes upd_memory: "kframe s t \<Longrightarrow> P s \<Longrightarrow> P t"
begin

lemma post_kframe: "(\<And>z. kframe z s \<Longrightarrow> post (kframe z) r) \<Longrightarrow> P s \<Longrightarrow> post P r"
  by (rule post_mono [of "kframe s"]) (auto intro: upd_memory)

lemma copy_keeps [keeps]:
  "P s \<Longrightarrow> post P (copyout pt va bs s)" "P s \<Longrightarrow> post P (copyin pt va n s)"
  "P s \<Longrightarrow> post P (copyinstr pt va n s)" "P s \<Longrightarrow> post P (kalloc s)" "P s \<Longrightarrow> post P (kfree pa s)"
  by (auto intro: post_kframe frame)

lemma either_copy_keeps [keeps]:
  "P s \<Longrightarrow> post P (either_copyout dst src s)" "P s \<Longrightarrow> post P (either_copyin sr n s)"
  by (auto simp: either_copyout_def either_copyin_def with_myproc_def intro!: post_bnd keeps
      split: option.split place.split)

lemma readi_loop_keeps [keeps]: "P s \<Longrightarrow> post P (readi_loop i dst off tot n s)"
proof (induction "n - tot" arbitrary: dst off tot s rule: less_induct)
  case less
  show ?case
    using less.prems by (subst readi_loop.simps)
      (auto simp: Let_def io_chunk_less intro!: post_bnd keeps less.hyps split: prod.split)
qed

lemma writei_loop_keeps [keeps]: "P s \<Longrightarrow> post P (writei_loop i sr off tot n s)"
proof (induction "n - tot" arbitrary: sr off tot s rule: less_induct)
  case less
  show ?case
    using less.prems by (subst writei_loop.simps)
      (auto simp: Let_def io_chunk_less intro!: post_bnd keeps less.hyps split: prod.split)
qed

lemma readi_keeps [keeps]: "P s \<Longrightarrow> post P (readi i dst off n s)"
  by (auto simp: readi_def Let_def intro!: keeps)

lemma writei_keeps [keeps]: "P s \<Longrightarrow> post P (writei i sr off n s)"
  by (auto simp: writei_def Let_def intro!: post_bnd keeps split: prod.split)

lemma dirlink_keeps [keeps]: "P s \<Longrightarrow> post P (dirlink d nm n s)"
  by (auto simp: dirlink_def oob_def Let_def intro!: post_scan post_bnd keeps split: prod.split option.split)

end

section \<open>The two properties\<close>

lemma kframe_fk:
  assumes "kframe s t" "fk z s"
  shows "fk z (t :: 'x kfs_scheme)"
proof -
  have "kproc.more t = kproc.more s" "ptable t = ptable s" "curproc t = curproc s"
    using kframe_proc(1,12,13) [OF assms(1)] by auto
  with assms(2) show ?thesis by (cases s; cases t; simp add: fk_def)
qed

interpretation fk: fs_frame_user "fk z" for z
  by unfold_locales (auto simp: fk_upd_proc intro: kframe_fk)

definition mk :: "'x kfs_scheme \<Rightarrow> 'x kfs_scheme \<Rightarrow> bool" where
  "mk z s \<longleftrightarrow> mem s = mem z \<and> freelist s = freelist z \<and> kend s = kend z"

lemma mk_refl [simp, intro]: "mk s s"
  by (simp add: mk_def)

interpretation mk: fs_frame "mk z" for z
  by unfold_locales (simp_all add: mk_def upd_proc_def)

end
