(* ===== verification/File_Refs.thy ===== *)
theory File_Refs
  imports Proc_Life Fs_Frame
begin

text \<open>
  The reference count of an open file is the number of descriptors that name it, over all
  processes. While a system call runs it may hold references of its own, or owe one: \<open>E f\<close> is
  how many more the count of \<open>f\<close> is than there are descriptors.
\<close>

section \<open>Counting descriptors\<close>

definition fdcount :: "'x kproc_scheme \<Rightarrow> nat \<Rightarrow> nat" where
  "fdcount s f = count_list (concat (map ofile (ptable s))) (Some f)"

definition refs :: "nat option \<Rightarrow> (nat \<Rightarrow> int) \<Rightarrow> 'x kio_scheme \<Rightarrow> bool" where
  "refs c E s \<longleftrightarrow> length (ftable s) = NFILE \<and> (\<forall>p<length (ptable s). length (ofile (ptable s ! p)) = NOFILE) \<and>
     curproc s = c \<and> (\<forall>p. c = Some p \<longrightarrow> p < length (ptable s)) \<and>
     (\<forall>p<length (ptable s). \<forall>f. Some f \<in> set (ofile (ptable s ! p)) \<longrightarrow> f < NFILE) \<and>
     (\<forall>f<NFILE. fref (ftable s ! f) = int (fdcount s f) + E f)"

definition file_refs_exact :: "'x kio_scheme \<Rightarrow> bool" where
  "file_refs_exact s \<longleftrightarrow> refs (curproc s) (\<lambda>_. 0) s"

lemma count_list_update:
  "i < length xs \<Longrightarrow> int (count_list (xs[i := v]) x) = int (count_list xs x) + of_bool (v = x) - of_bool (xs ! i = x)"
proof (induction xs arbitrary: i)
  case Nil
  then show ?case by simp
next
  case (Cons a xs)
  show ?case
  proof (cases i)
    case 0
    then show ?thesis by simp
  next
    case (Suc j)
    with Cons.IH [of j] Cons.prems show ?thesis by simp
  qed
qed

lemma count_concat_update:
  assumes "p < length xss" "i < length (xss ! p)"
  shows "int (count_list (concat (xss[p := (xss ! p)[i := v]])) x) =
    int (count_list (concat xss) x) + of_bool (v = x) - of_bool (xss ! p ! i = x)"
  using assms
proof (induction xss arbitrary: p)
  case Nil
  then show ?case by simp
next
  case (Cons xs xss)
  then show ?case by (cases p) (auto simp: count_list_update)
qed

lemma fdcount_set_ofile:
  assumes "p < length (ptable s)" "i < length (ofile (ptable s ! p))"
  shows "int (fdcount (set_ofile p i v s) f) = int (fdcount s f) + of_bool (v = Some f) - of_bool (ofile (ptable s ! p) ! i = Some f)"
proof -
  have "map ofile (ptable (set_ofile p i v s)) = (map ofile (ptable s))[p := (map ofile (ptable s) ! p)[i := v]]"
    using assms(1) by (simp add: set_ofile_def upd_proc_def map_update)
  with count_concat_update [of p "map ofile (ptable s)" i v "Some f"] assms show ?thesis
    by (simp add: fdcount_def)
qed

section \<open>Rules for the operations on files\<close>

lemma refs_fk:
  assumes "fk s t" "refs c E (s :: 'x kio_scheme)"
  shows "refs c E t"
proof -
  have m: "map ofile (ptable t) = map ofile (ptable s)" "curproc t = curproc s" "kfs.more t = kfs.more s"
    using assms(1) fk_ofile [OF assms(1)] by (simp_all add: fk_def)
  then have f: "ftable t = ftable s" by (cases s; cases t; simp)
  have l: "length (ptable t) = length (ptable s)" using m(1) by (metis length_map)
  have n: "ofile (ptable t ! p) = ofile (ptable s ! p)" if "p < length (ptable s)" for p
    using m(1) that l by (metis nth_map)
  show ?thesis using assms(2) m l n f by (simp add: refs_def fdcount_def)
qed

lemma refs_updates [simp]:
  "refs c E (s\<lparr>held := h\<rparr>) = refs c E s" "refs c E (s\<lparr>pipes := q\<rparr>) = refs c E s" "refs c E (upd_pipe pi g s) = refs c E s"
  "refs c E (upd_inode i k s) = refs c E s"
  by (simp_all add: refs_def fdcount_def upd_pipe_def upd_inode_def)

lemma refs_upd_file:
  "refs c E s \<Longrightarrow> (f < NFILE \<Longrightarrow> fref (g (ftable s ! f)) = fref (ftable s ! f) + d) \<Longrightarrow> refs c (E(f := E f + d)) (upd_file f g s)"
  by (auto simp: refs_def fdcount_def upd_file_def nth_list_update)

lemma refs_upd_file_same:
  "refs c E s \<Longrightarrow> (f < NFILE \<Longrightarrow> fref (g (ftable s ! f)) = fref (ftable s ! f)) \<Longrightarrow> refs c E (upd_file f g s)"
  using refs_upd_file [of c E s f g 0] by simp

lemma refs_set_ofile:
  assumes "refs c E s" "curproc s = Some p" "i < NOFILE" "\<forall>f. v = Some f \<longrightarrow> f < NFILE"
  shows "refs c (\<lambda>f. E f - of_bool (v = Some f) + of_bool (ofile (ptable s ! p) ! i = Some f)) (set_ofile p i v s)"
proof -
  have p: "p < length (ptable s)" and i: "i < length (ofile (ptable s ! p))" using assms by (auto simp: refs_def)
  have t: "ptable (set_ofile p i v s) = (ptable s)[p := (ptable s ! p)\<lparr>ofile := (ofile (ptable s ! p))[i := v]\<rparr>]"
    "ftable (set_ofile p i v s) = ftable s" "curproc (set_ofile p i v s) = curproc s"
    by (simp_all add: set_ofile_def upd_proc_def)
  have m: "Some f \<in> set ((ofile (ptable s ! p))[i := v]) \<Longrightarrow> f < NFILE" for f
    using assms(1,4) p by (auto simp: refs_def dest!: set_list_update_other)
  show ?thesis
    using assms(1) p m unfolding refs_def t
    by (auto simp: fdcount_set_ofile [OF p i] nth_list_update)
qed

lemma post_wp: "post Q r \<Longrightarrow> (\<And>x t. Q t \<Longrightarrow> P x t) \<Longrightarrow> wp P (\<lambda>_ _. True) r"
  by (cases r) auto

lemma keeps_wp:
  assumes "refs c E s" "\<And>z. fk z s \<Longrightarrow> post (fk z) r" "\<And>x t. refs c E t \<Longrightarrow> P x t"
  shows "wp P (\<lambda>_ _. True) (r :: ('a, 'x kio_scheme) res)"
  by (rule post_wp [of "fk s"]) (use assms in \<open>auto intro: refs_fk\<close>)

lemma filealloc_wp:
  assumes "refs c E s" "\<And>t. refs c E t \<Longrightarrow> P None t" "\<And>f t. f < NFILE \<Longrightarrow> refs c (E(f := E f + 1)) t \<Longrightarrow> P (Some f) t"
  shows "wp P (\<lambda>_ _. True) (filealloc s)"
proof (cases "FtableLock \<in> set (held s)")
  case True
  then show ?thesis by (simp add: filealloc_def)
next
  case False
  show ?thesis
  proof (cases "find_idx (\<lambda>f. fref f = 0) (ftable s)")
    case None
    with False assms(1,2) show ?thesis by (simp add: filealloc_def)
  next
    case (Some f)
    then have f: "f < NFILE" "fref (ftable s ! f) = 0" using assms(1) by (auto dest: find_idx_SomeD simp: refs_def)
    have "refs c (E(f := E f + 1)) (upd_file f (\<lambda>f. f\<lparr>fref := 1\<rparr>) s)"
      using assms(1) f by (auto simp: refs_def fdcount_def upd_file_def nth_list_update)
    with False f(1) assms(3) Some show ?thesis by (simp add: filealloc_def upd_file_def)
  qed
qed

lemma filedup_wp:
  assumes "refs c E s" "\<And>t. refs c (E(f := E f + 1)) t \<Longrightarrow> P f t"
  shows "wp P (\<lambda>_ _. True) (filedup f s)"
proof -
  have "refs c (E(f := E f + 1)) (upd_file f (\<lambda>f. f\<lparr>fref := fref f + 1\<rparr>) s)" by (rule refs_upd_file [OF assms(1)]) simp
  with assms(2) show ?thesis
    by (auto simp: filedup_def acquire_def release_def upd_file_def)
qed

lemma keeps_refs:
  assumes "\<And>z s. fk z s \<Longrightarrow> post (fk z) (g s)" "refs c E s"
  shows "post (refs c E) (g s :: ('a, 'x kio_scheme) res)"
  by (rule post_mono [of "fk s"]) (use assms in \<open>auto intro: refs_fk\<close>)

lemmas kept_refs = keeps_refs [OF fk.acquire_keeps] keeps_refs [OF fk.release_keeps] keeps_refs [OF fk.wakeup_keeps]
  keeps_refs [OF fk.copy_keeps(5)] keeps_refs [OF fk.begin_op_keeps] keeps_refs [OF fk.iput_keeps] keeps_refs [OF fk.end_op_keeps]

lemma pipeclose_refs: "refs c E s \<Longrightarrow> post (refs c E) (pipeclose pi wr s)"
  by (auto simp: pipeclose_def intro!: post_bnd kept_refs)

lemma fileclose_wp:
  assumes "refs c E s" "\<And>t. refs c (E(f := E f - 1)) t \<Longrightarrow> P () t"
  shows "wp P (\<lambda>_ _. True) (fileclose f s)"
proof (cases "FtableLock \<in> set (held s) \<or> fref (ftable s ! f) < 1")
  case True
  then show ?thesis by (auto simp: fileclose_def acquire_def holding_def)
next
  case False
  let ?E = "E(f := E f - 1)" and ?u = "s\<lparr>held := FtableLock # held s\<rparr>"
  let ?v = "upd_file f (\<lambda>f. f\<lparr>fref := fref f - 1\<rparr>) ?u"
  let ?w = "upd_file f (\<lambda>f. f\<lparr>fref := 0, ftype := FD_NONE\<rparr>) ?v"
  have v: "refs c ?E ?v"
    using refs_upd_file [of c E ?u f "\<lambda>f. f\<lparr>fref := fref f - 1\<rparr>" "-1"] assms(1) by simp
  have w: "refs c ?E ?w" if "\<not> 0 < fref (ftable ?v ! f)"
  proof -
    have "length (ftable s) = NFILE" using assms(1) by (simp add: refs_def)
    then show ?thesis using that False by (intro refs_upd_file_same [OF v]) (simp add: upd_file_def)
  qed
  have "post (refs c ?E) (fileclose f s)"
    using False v w
    by (auto simp: fileclose_def Let_def intro!: post_bnd kept_refs pipeclose_refs)
  then show ?thesis by (rule post_wp) (use assms(2) in auto)
qed

lemma fdalloc_wp:
  assumes "refs c E s" "f < NFILE" "P (-1) s" "\<And>fd p. 0 \<le> fd \<Longrightarrow> fd < int NOFILE \<Longrightarrow> curproc s = Some p \<Longrightarrow>
      ofile (ptable s ! p) ! nat fd = None \<Longrightarrow> refs c (E(f := E f - 1)) (set_ofile p (nat fd) (Some f) s) \<Longrightarrow>
      P fd (set_ofile p (nat fd) (Some f) s)"
  shows "wp P (\<lambda>_ _. True) (fdalloc f s)"
proof (cases "curproc s")
  case None
  then show ?thesis by (simp add: fdalloc_def with_myproc_def)
next
  case (Some p)
  have l: "length (ofile (ptable s ! p)) = NOFILE" using assms(1) Some by (auto simp: refs_def)
  show ?thesis
  proof (cases "find_idx (\<lambda>o'. o' = None) (take NOFILE (ofile (ptable s ! p)))")
    case None
    with Some assms(3) show ?thesis by (simp add: fdalloc_def)
  next
    case (Some i)
    then have i: "i < NOFILE" "ofile (ptable s ! p) ! i = None" using l by (auto dest: find_idx_SomeD)
    have "refs c (\<lambda>g. E g - of_bool (Some f = Some g) + of_bool (ofile (ptable s ! p) ! i = Some g)) (set_ofile p i (Some f) s)"
      by (rule refs_set_ofile [OF assms(1) \<open>curproc s = Some p\<close> i(1)]) (use assms(2) in simp)
    moreover have "(\<lambda>g. E g - of_bool (Some f = Some g) + of_bool (ofile (ptable s ! p) ! i = Some g)) = E(f := E f - 1)"
      using i(2) by (auto simp: fun_eq_iff)
    ultimately show ?thesis
      using assms(4) [of "int i" p] i Some \<open>curproc s = Some p\<close> by (simp add: fdalloc_def)
  qed
qed

lemma refs_cong: "refs c E s \<Longrightarrow> (\<And>f. E f = E' f) \<Longrightarrow> refs c E' s"
  by (metis ext)

section \<open>The calls that hand out and take back descriptors\<close>

lemma argraw_eq: "argraw n s = Ok v t \<Longrightarrow> t = s"
  by (auto simp: argraw_def with_myproc_def Let_def split: option.splits if_splits)

lemma argraw_keeps [keeps]: "fk z s \<Longrightarrow> post (fk z) (argraw n s)"
  by (auto simp: argraw_def with_myproc_def Let_def split: option.split)

lemma arg_keeps [keeps]:
  "fk z s \<Longrightarrow> post (fk z) (argint n s)" "fk z s \<Longrightarrow> post (fk z) (argaddr n s)" "fk z s \<Longrightarrow> post (fk z) (fetchstr a m s)"
  by (auto simp: argint_def argaddr_def fetchstr_def with_myproc_def intro!: post_bnd keeps split: option.split prod.split)

lemma argstr_keeps [keeps]: "fk z s \<Longrightarrow> post (fk z) (argstr n m s)"
  by (auto simp: argstr_def intro!: post_bnd keeps)

lemma op_fail_keeps [keeps]: "fk z s \<Longrightarrow> post (fk z) (op_fail s)"
  by (auto simp: op_fail_def intro!: post_bnd keeps)

lemma create_keeps [keeps]:
  "fk z s \<Longrightarrow> post (fk z) (create_fail d i s)" "fk z s \<Longrightarrow> post (fk z) (create_new d i nm ty ma mi s)"
  "fk z s \<Longrightarrow> post (fk z) (create path ty ma mi s)"
proof -
  have A: "fk z s \<Longrightarrow> post (fk z) (create_fail d i s)" for d i s
    by (auto simp: create_fail_def intro!: post_bnd keeps)
  have B: "fk z s \<Longrightarrow> post (fk z) (create_new d i nm ty ma mi s)" for d i nm s
    by (auto simp: create_new_def intro!: post_bnd keeps A)
  show "fk z s \<Longrightarrow> post (fk z) (create_fail d i s)" "fk z s \<Longrightarrow> post (fk z) (create_new d i nm ty ma mi s)"
    by (rule A, assumption) (rule B)
  show "fk z s \<Longrightarrow> post (fk z) (create path ty ma mi s)"
    by (auto simp: create_def intro!: post_bnd keeps B split: prod.split option.split)
qed

lemma argfd_wp:
  assumes "refs c E s" "P None s"
    and "\<And>p fd f. curproc s = Some p \<Longrightarrow> 0 \<le> fd \<Longrightarrow> fd < int NOFILE \<Longrightarrow>
      ofile (ptable s ! p) ! nat fd = Some f \<Longrightarrow> f < NFILE \<Longrightarrow> P (Some (fd, f)) s"
  shows "wp P (\<lambda>_ _. True) (argfd n s)"
proof -
  have v: "ofile (ptable s ! p) ! nat fd = Some f \<Longrightarrow> curproc s = Some p \<Longrightarrow> 0 \<le> fd \<Longrightarrow> fd < int NOFILE \<Longrightarrow> f < NFILE" for p fd f
    using assms(1) unfolding refs_def by (metis nat_less_iff nth_mem)
  have "wp (\<lambda>w t. t = s) (\<lambda>_ _. True) (argint n s)"
    by (auto simp: argint_def argraw_def with_myproc_def Let_def split: option.split)
  then show ?thesis
    unfolding argfd_def
    by (intro wp_bnd, elim wp_mono) (use assms(2,3) v in \<open>auto simp: with_myproc_def split: option.split\<close>)
qed

text \<open>\<^verbatim>\<open>sys_dup\<close> hands out the descriptor before it takes the reference.\<close>

lemma sys_dup_refs:
  assumes r: "refs c E s"
  shows "wp (\<lambda>_. refs c E) (\<lambda>_ _. True) (sys_dup s)"
proof -
  have dup: "wp (\<lambda>_ t. wp (\<lambda>_. refs c E) (\<lambda>_ _. True) (Ok fd t)) (\<lambda>_ _. True) (filedup f t)"
    if "refs c (E(f := E f - 1)) t" for f t and fd :: int
    by (rule filedup_wp [OF that], unfold wp_simps, erule refs_cong) simp
  have "wp (\<lambda>_. refs c E) (\<lambda>_ _. True) (bnd (fdalloc f s) (\<lambda>fd s.
      if fd < 0 then Ok (-1) s else bnd (filedup f s) (\<lambda>_ s. Ok fd s)))" if "f < NFILE" for f
    by (rule wp_bnd, rule fdalloc_wp [OF r that]) (auto intro!: wp_bnd dup simp: r)
  then show ?thesis
    unfolding sys_dup_def by (intro wp_bnd argfd_wp [OF r]) (auto simp: r)
qed

lemma sys_close_refs:
  assumes r: "refs c E s"
  shows "wp (\<lambda>_. refs c E) (\<lambda>_ _. True) (sys_close s)"
proof -
  have "wp (\<lambda>_ t. wp (\<lambda>_. refs c E) (\<lambda>_ _. True) (Ok 0 t)) (\<lambda>_ _. True) (fileclose f (set_ofile p (nat fd) None s))"
    if p: "curproc s = Some p" "0 \<le> fd" "fd < int NOFILE" "ofile (ptable s ! p) ! nat fd = Some f" for p fd f
  proof (rule fileclose_wp)
    show "refs c (\<lambda>g. E g - of_bool (None = Some g) + of_bool (ofile (ptable s ! p) ! nat fd = Some g)) (set_ofile p (nat fd) None s)"
      by (rule refs_set_ofile [OF r p(1)]) (use p in simp_all)
  qed (use p in \<open>auto elim!: refs_cong\<close>)
  then have "wp (\<lambda>_. refs c E) (\<lambda>_ _. True)
      (with_myproc (\<lambda>p s. bnd (fileclose f (set_ofile p (nat fd) None s)) (\<lambda>_ s. Ok 0 s)) s)"
    if "curproc s = Some p" "0 \<le> fd" "fd < int NOFILE" "ofile (ptable s ! p) ! nat fd = Some f" for p fd f
    using that by (simp add: wp_bnd)
  then show ?thesis
    unfolding sys_close_def by (intro wp_bnd argfd_wp [OF r]) (auto simp: r)
qed

text \<open>The files of a new pipe or of a newly opened inode are installed before they are filled in.\<close>

lemma open_inode_refs:
  assumes r: "refs c E s"
  shows "wp (\<lambda>_. refs c E) (\<lambda>_ _. True) (open_inode ip om s)"
proof -
  have fail: "wp (\<lambda>_. refs c E) (\<lambda>_ _. True) (bnd (iunlockput ip t) (\<lambda>_ s. op_fail s))" if "refs c E t" for t
    by (rule keeps_wp [OF that]) (auto intro!: post_bnd keeps)
  have undo: "wp (\<lambda>_ t. wp (\<lambda>_. refs c E) (\<lambda>_ _. True) (bnd (iunlockput ip t) (\<lambda>_ s. op_fail s))) (\<lambda>_ _. True) (fileclose f t)"
    if "refs c (E(f := E f + 1)) t" for f t
    by (rule fileclose_wp [OF that], rule fail, erule refs_cong) simp
  have fin: "wp (\<lambda>_. refs c E) (\<lambda>_ _. True)
      (bnd (if tr then itrunc ip t else Ok () t) (\<lambda>_ s. bnd (iunlock (Some ip) s) (\<lambda>_ s. bnd (end_op s) (\<lambda>_ s. Ok fd s))))"
    if "refs c E t" for tr t and fd :: int
    by (rule keeps_wp [OF that]) (auto intro!: post_bnd keeps)
  have filled: "wp (\<lambda>_. refs c E) (\<lambda>_ _. True)
      (let it = inode_at t ip;
          s = (if i_type it = T_DEVICE then upd_file f (\<lambda>f. f\<lparr>ftype := FD_DEVICE, fmajor := i_major it\<rparr>) t
               else upd_file f (\<lambda>f. f\<lparr>ftype := FD_INODE, foff := 0\<rparr>) t);
          s = upd_file f (\<lambda>f. f\<lparr>fip := ip, freadable := (om AND O_WRONLY = 0),
                 fwritable := (om AND O_WRONLY \<noteq> 0 \<or> om AND O_RDWR \<noteq> 0)\<rparr>) s
      in bnd (if om AND O_TRUNC \<noteq> 0 \<and> i_type (inode_at s ip) = T_FILE then itrunc ip s else Ok () s) (\<lambda>_ s.
         bnd (iunlock (Some ip) s) (\<lambda>_ s.
         bnd (end_op s) (\<lambda>_ s. Ok fd s))))" if "refs c E t" for f t and fd :: int
    unfolding Let_def by (rule fin) (use that in \<open>auto intro!: refs_upd_file_same\<close>)
  have install: "wp (\<lambda>_. refs c E) (\<lambda>_ _. True)
      (bnd (fdalloc f t) (\<lambda>fd s.
      if fd < 0 then bnd (fileclose f s) (\<lambda>_ s. bnd (iunlockput ip s) (\<lambda>_ s. op_fail s))
      else
      let it = inode_at s ip;
          s = (if i_type it = T_DEVICE then upd_file f (\<lambda>f. f\<lparr>ftype := FD_DEVICE, fmajor := i_major it\<rparr>) s
               else upd_file f (\<lambda>f. f\<lparr>ftype := FD_INODE, foff := 0\<rparr>) s);
          s = upd_file f (\<lambda>f. f\<lparr>fip := ip, freadable := (om AND O_WRONLY = 0),
                 fwritable := (om AND O_WRONLY \<noteq> 0 \<or> om AND O_RDWR \<noteq> 0)\<rparr>) s
      in bnd (if om AND O_TRUNC \<noteq> 0 \<and> i_type (inode_at s ip) = T_FILE then itrunc ip s else Ok () s) (\<lambda>_ s.
         bnd (iunlock (Some ip) s) (\<lambda>_ s.
         bnd (end_op s) (\<lambda>_ s. Ok fd s)))))" if f: "f < NFILE" and t: "refs c (E(f := E f + 1)) t" for f t
  proof (rule wp_bnd, rule fdalloc_wp [OF t f], goal_cases)
    case 1
    then show ?case using undo [OF t] by (simp add: wp_bnd)
  next
    case (2 fd p)
    from 2(5) have "refs c E (set_ofile p (nat fd) (Some f) t)" by (rule refs_cong) simp
    with 2(1) filled [of _ f fd] show ?case by simp
  qed
  show ?thesis
    unfolding open_inode_def Let_def [of "inode_at s ip"]
    by (auto simp: fail r simp del: Let_def intro!: wp_bnd [of _ _ _ "filealloc s"] filealloc_wp [OF r] install)
qed

lemma sys_open_refs:
  assumes r: "refs c E s"
  shows "wp (\<lambda>_. refs c E) (\<lambda>_ _. True) (sys_open s)"
proof -
  have fail: "wp (\<lambda>_. refs c E) (\<lambda>_ _. True) (op_fail t)" if "refs c E t" for t
    by (rule keeps_wp [OF that]) (auto intro!: keeps)
  have iput_fail: "wp (\<lambda>_. refs c E) (\<lambda>_ _. True) (bnd (iunlockput ip t) (\<lambda>_ s. op_fail s))" if "refs c E t" for t ip
    by (rule keeps_wp [OF that]) (auto intro!: post_bnd keeps)
  have made: "wp (\<lambda>_. refs c E) (\<lambda>_ _. True) (bnd (create path T_FILE 0 0 t) (\<lambda>ip s.
      case ip of None \<Rightarrow> op_fail s | Some ip \<Rightarrow> open_inode ip om s))" if "refs c E t" for t path om
    by (rule wp_bnd, rule keeps_wp [OF that]) (auto intro!: keeps fail open_inode_refs split: option.split)
  have found: "wp (\<lambda>_. refs c E) (\<lambda>_ _. True) (bnd (namei path t) (\<lambda>ip s.
          case ip of None \<Rightarrow> op_fail s
          | Some ip \<Rightarrow> bnd (ilock (Some ip) s) (\<lambda>_ s.
              if i_type (inode_at s ip) = T_DIR \<and> om \<noteq> O_RDONLY
              then bnd (iunlockput ip s) (\<lambda>_ s. op_fail s)
              else open_inode ip om s)))" if "refs c E t" for t path om
  proof (rule wp_bnd, rule keeps_wp [OF that], goal_cases)
    case (2 ip u)
    have "wp (\<lambda>_. refs c E) (\<lambda>_ _. True) (bnd (ilock (Some k) u) (\<lambda>_ s.
              if i_type (inode_at s k) = T_DIR \<and> om \<noteq> O_RDONLY
              then bnd (iunlockput k s) (\<lambda>_ s. op_fail s)
              else open_inode k om s))" for k
      by (rule wp_bnd, rule keeps_wp [OF 2]) (auto intro!: keeps iput_fail open_inode_refs)
    then show ?case using fail [OF 2] by (simp split: option.split)
  qed (rule keeps)
  have start: "wp (\<lambda>_. refs c E) (\<lambda>_ _. True)
      (bnd (begin_op t) (\<lambda>_ s.
     if om AND O_CREATE \<noteq> 0
     then bnd (create path T_FILE 0 0 s) (\<lambda>ip s.
          case ip of None \<Rightarrow> op_fail s | Some ip \<Rightarrow> open_inode ip om s)
     else bnd (namei path s) (\<lambda>ip s.
          case ip of None \<Rightarrow> op_fail s
          | Some ip \<Rightarrow> bnd (ilock (Some ip) s) (\<lambda>_ s.
              if i_type (inode_at s ip) = T_DIR \<and> om \<noteq> O_RDONLY
              then bnd (iunlockput ip s) (\<lambda>_ s. op_fail s)
              else open_inode ip om s))))" if "refs c E t" for t path om
    by (rule wp_bnd, rule keeps_wp [OF that]) (auto intro!: keeps made found)
  show ?thesis
    unfolding sys_open_def Let_def
  proof (rule wp_bnd, rule keeps_wp [OF r], goal_cases)
    case (2 om t)
    show ?case
      by (rule wp_bnd, rule keeps_wp [OF 2]) (auto intro!: keeps start split: option.split)
  qed (rule keeps)
qed

lemma pipealloc_wp:
  assumes r: "refs c E s" and P: "\<And>t. refs c E t \<Longrightarrow> P None t"
    "\<And>a b t. a < NFILE \<Longrightarrow> b < NFILE \<Longrightarrow> refs c (\<lambda>f. E f + of_bool (f = a) + of_bool (f = b)) t \<Longrightarrow> P (Some (a, b)) t"
  shows "wp P (\<lambda>_ _. True) (pipealloc s)"
proof -
  have bad1: "wp P (\<lambda>_ _. True) (pipealloc_bad (Some a) None t)" if "refs c (E(a := E a + 1)) t" for a t
    unfolding pipealloc_bad_def option.case
    by (rule wp_bnd, rule fileclose_wp [OF that]) (auto intro!: P(1) elim!: refs_cong)
  have bad2: "wp P (\<lambda>_ _. True) (pipealloc_bad (Some a) (Some b) t)"
    if t: "refs c (\<lambda>f. E f + of_bool (f = a) + of_bool (f = b)) t" for a b t
    unfolding pipealloc_bad_def option.case
  proof (rule wp_bnd, rule fileclose_wp [OF t], goal_cases)
    case (1 u)
    show ?case by (rule wp_bnd, rule fileclose_wp [OF 1]) (auto intro!: P(1) elim!: refs_cong)
  qed
  have bad0: "wp P (\<lambda>_ _. True) (pipealloc_bad None None t)" if "refs c E t" for t
    using that P(1) by (simp add: pipealloc_bad_def)
  have fill: "wp P (\<lambda>_ _. True) (bnd (kalloc t) (\<lambda>pi s.
     if pi = 0 then pipealloc_bad (Some a) (Some b) s
     else let s = upd_pipe pi (\<lambda>_. pipe_init s pi) s;
              s = upd_file a (\<lambda>f. f\<lparr>ftype := FD_PIPE, freadable := True, fwritable := False, fpipe := pi\<rparr>) s;
              s = upd_file b (\<lambda>f. f\<lparr>ftype := FD_PIPE, freadable := False, fwritable := True, fpipe := pi\<rparr>) s
          in Ok (Some (a, b)) s))"
    if t: "refs c (\<lambda>f. E f + of_bool (f = a) + of_bool (f = b)) t" "a < NFILE" "b < NFILE" for a b t
    by (rule wp_bnd, rule keeps_wp [OF t(1)])
      (auto simp: Let_def intro!: keeps bad2 P(2) t(2,3) refs_upd_file_same)
  have two: "wp P (\<lambda>_ _. True) (bnd (filealloc t) (\<lambda>f1 s.
     case f1 of None \<Rightarrow> pipealloc_bad (Some a) None s
     | Some b \<Rightarrow>
     bnd (kalloc s) (\<lambda>pi s.
     if pi = 0 then pipealloc_bad (Some a) (Some b) s
     else let s = upd_pipe pi (\<lambda>_. pipe_init s pi) s;
              s = upd_file a (\<lambda>f. f\<lparr>ftype := FD_PIPE, freadable := True, fwritable := False, fpipe := pi\<rparr>) s;
              s = upd_file b (\<lambda>f. f\<lparr>ftype := FD_PIPE, freadable := False, fwritable := True, fpipe := pi\<rparr>) s
          in Ok (Some (a, b)) s)))"
    if t: "refs c (E(a := E a + 1)) t" "a < NFILE" for a t
  proof (rule wp_bnd, rule filealloc_wp [OF t(1)], goal_cases)
    case (1 u)
    then show ?case by (simp add: bad1)
  next
    case (2 b u)
    have "refs c (\<lambda>f. E f + of_bool (f = a) + of_bool (f = b)) u" by (rule refs_cong [OF 2(2)]) auto
    then show ?case using fill [OF _ t(2) 2(1)] by simp
  qed
  show ?thesis
    unfolding pipealloc_def
    by (rule wp_bnd, rule filealloc_wp [OF r]) (simp_all add: bad0 two)
qed

lemma pipe_undo_refs:
  assumes t: "refs c (\<lambda>f. E f + of_bool (f = a) + of_bool (f = b)) t"
  shows "wp (\<lambda>_. refs c E) (\<lambda>_ _. True) (pipe_undo a b t)"
  unfolding pipe_undo_def
proof (rule wp_bnd, rule fileclose_wp [OF t], goal_cases)
  case (1 u)
  show ?case by (rule wp_bnd, rule fileclose_wp [OF 1], unfold wp_simps, erule refs_cong) simp
qed

text \<open>A descriptor taken back leaves its reference to the caller.\<close>

lemma refs_take:
  assumes "refs c E t" "c = Some p" "i < NOFILE" "ofile (ptable t ! p) ! i = Some a"
  shows "refs c (\<lambda>f. E f + of_bool (f = a)) (set_ofile p i None t)"
proof -
  have "curproc t = Some p" using assms(1,2) by (simp add: refs_def)
  from refs_set_ofile [OF assms(1) this assms(3), of None] show ?thesis
    by (rule refs_cong, simp) (use assms(4) in auto)
qed

lemma ofile_set_ofile:
  "refs c E t \<Longrightarrow> c = Some p \<Longrightarrow> i < NOFILE \<Longrightarrow>
     ofile (ptable (set_ofile p i v t) ! p) ! j = (if j = i then v else ofile (ptable t ! p) ! j)"
  by (auto simp: set_ofile_def refs_def nth_list_update)

lemma ofile_fk:
  assumes "fk t v" "p < length (ptable t)"
  shows "ofile (ptable v ! p) = ofile (ptable t ! p)"
proof -
  have m: "map ofile (ptable v) = map ofile (ptable t)" by (rule fk_ofile [OF assms(1)])
  then have "length (ptable v) = length (ptable t)" by (metis length_map)
  moreover have "map ofile (ptable v) ! p = map ofile (ptable t) ! p" by (simp only: m)
  ultimately show ?thesis using assms(2) by simp
qed

lemma pipe_report_refs:
  assumes t: "refs c E t" and p: "c = Some p"
    and d: "nat fd0 \<noteq> nat fd1" "nat fd0 < NOFILE" "nat fd1 < NOFILE"
    and o': "ofile (ptable t ! p) ! nat fd0 = Some a" "ofile (ptable t ! p) ! nat fd1 = Some b"
  shows "wp (\<lambda>_. refs c E) (\<lambda>_ _. True) (pipe_report p fdarray a b fd0 fd1 t)"
proof -
  let ?Q = "\<lambda>_ :: int. refs c E" and ?T = "\<lambda>_ _. True"
  let ?fin = "\<lambda>r s. if r < 0 then pipe_undo a b (set_ofile p (nat fd1) None (set_ofile p (nat fd0) None s)) else Ok 0 s"
  have undo: "wp ?Q ?T (?fin r v)" if "fk t v" for v and r :: int
  proof -
    have v: "refs c E v" by (rule refs_fk [OF that t])
    have "p < length (ptable t)" using t p by (simp add: refs_def)
    note e = ofile_fk [OF that this]
    have "refs c (\<lambda>f. E f + of_bool (f = a) + of_bool (f = b)) (set_ofile p (nat fd1) None (set_ofile p (nat fd0) None v))"
      using d o' by (intro refs_take [OF _ p] v) (auto simp: ofile_set_ofile [OF v p] e)
    from pipe_undo_refs [OF this] v show ?thesis by simp
  qed
  have copy: "wp (\<lambda>_ v. fk t v) ?T (copyout pt va bs u)" if "fk t u" for pt va bs u
    by (rule post_wp [OF fk.copy_keeps(1) [OF that]])
  have second: "wp ?Q ?T (bnd (if r < 0 then Ok (-1) u else copyout pt va bs u) ?fin)" if u: "fk t u" for r :: int and u pt va bs
    using undo [OF u, of "-1"] wp_mono [OF copy [OF u], of "\<lambda>r s. wp ?Q ?T (?fin r s)" ?T] undo
    by (intro wp_bnd) (cases "r < 0"; simp)
  show ?thesis
    unfolding pipe_report_def by (rule wp_bnd, rule wp_mono [OF copy [OF fk_refl]], erule second, simp)
qed

lemma pipe_install_refs:
  assumes t: "refs c (\<lambda>f. E f + of_bool (f = a) + of_bool (f = b)) t" and ab: "a < NFILE" "b < NFILE" and p: "c = Some p"
  shows "wp (\<lambda>_. refs c E) (\<lambda>_ _. True) (pipe_install p fdarray a b t)"
  unfolding pipe_install_def
proof (rule wp_bnd, rule fdalloc_wp [OF t ab(1)], goal_cases)
  case 1
  then show ?case using pipe_undo_refs [OF t] by simp
next
  case (2 fd0 q)
  let ?u = "set_ofile p (nat fd0) (Some a) t"
  have q: "q = p" using 2(3) t p by (simp add: refs_def)
  have u: "refs c (\<lambda>f. E f + of_bool (f = b)) ?u" using 2(5) unfolding q by (rule refs_cong) simp
  have n0: "nat fd0 < NOFILE" using 2(1,2) by simp
  have oa: "ofile (ptable ?u ! p) ! nat fd0 = Some a" by (simp add: ofile_set_ofile [OF t p n0])
  have "wp (\<lambda>_. refs c E) (\<lambda>_ _. True) (bnd (fdalloc b ?u) (\<lambda>fd1 s.
     if fd1 < 0 then pipe_undo a b (set_ofile p (nat fd0) None s) else pipe_report p fdarray a b fd0 fd1 s))"
  proof (rule wp_bnd, rule fdalloc_wp [OF u ab(2)], goal_cases)
    case 1
    have "refs c (\<lambda>f. E f + of_bool (f = a) + of_bool (f = b)) (set_ofile p (nat fd0) None ?u)"
      by (rule refs_cong [OF refs_take [OF u p n0 oa]]) simp
    then show ?case using pipe_undo_refs by simp
  next
    case (2 fd1 q')
    have q': "q' = p" using 2(3) u p by (simp add: refs_def)
    have n1: "nat fd1 < NOFILE" using 2(1,2) by simp
    have ne: "nat fd0 \<noteq> nat fd1" using 2(4) oa q' by auto
    have v: "refs c E (set_ofile p (nat fd1) (Some b) ?u)" using 2(5) unfolding q' by (rule refs_cong) simp
    have "wp (\<lambda>_. refs c E) (\<lambda>_ _. True) (pipe_report p fdarray a b fd0 fd1 (set_ofile p (nat fd1) (Some b) ?u))"
      by (rule pipe_report_refs [OF v p ne n0 n1]) (use ne oa in \<open>simp_all add: ofile_set_ofile [OF u p n1]\<close>)
    then show ?case using 2(1) q' by simp
  qed
  then show ?case using 2(1) q by simp
qed

lemma sys_pipe_refs:
  assumes r: "refs c E s"
  shows "wp (\<lambda>_. refs c E) (\<lambda>_ _. True) (sys_pipe s)"
proof (cases "curproc s")
  case None
  then show ?thesis by (simp add: sys_pipe_def with_myproc_def)
next
  case (Some p)
  then have p: "c = Some p" using r by (simp add: refs_def)
  have pa: "wp (\<lambda>_. refs c E) (\<lambda>_ _. True) (bnd (pipealloc t) (\<lambda>r s.
     case r of None \<Rightarrow> Ok (-1) s | Some (a, b) \<Rightarrow> pipe_install p fdarray a b s))" if t: "refs c E t" for t fdarray
    by (rule wp_bnd, rule pipealloc_wp [OF t]) (simp_all add: pipe_install_refs p)
  show ?thesis
    unfolding sys_pipe_def with_myproc_Some [OF Some] by (rule wp_bnd, rule keeps_wp [OF r]) (auto intro!: keeps pa)
qed

text \<open>Closing a file does not touch descriptors.\<close>

definition same_fds :: "nat option list list \<Rightarrow> 'x kio_scheme \<Rightarrow> bool" where
  "same_fds m s \<longleftrightarrow> map ofile (ptable s) = m"

lemma same_fds_updates [simp]:
  "same_fds m (s\<lparr>held := h\<rparr>) = same_fds m s" "same_fds m (upd_file f g s) = same_fds m s"
  "same_fds m (upd_pipe pi k s) = same_fds m s"
  by (simp_all add: same_fds_def upd_file_def upd_pipe_def)

lemma keeps_same_fds:
  assumes "\<And>z s. fk z s \<Longrightarrow> post (fk z) (g s)" "same_fds m s"
  shows "post (same_fds m) (g s :: ('a, 'x kio_scheme) res)"
  by (rule post_mono [of "fk s"]) (use assms in \<open>auto simp: same_fds_def dest: fk_ofile\<close>)

lemmas kept_fds = keeps_same_fds [OF fk.acquire_keeps] keeps_same_fds [OF fk.release_keeps] keeps_same_fds [OF fk.wakeup_keeps]
  keeps_same_fds [OF fk.copy_keeps(5)] keeps_same_fds [OF fk.begin_op_keeps] keeps_same_fds [OF fk.iput_keeps] keeps_same_fds [OF fk.end_op_keeps]

lemma fileclose_fds: "same_fds m s \<Longrightarrow> post (same_fds m) (fileclose f s)"
  by (auto simp: fileclose_def pipeclose_def Let_def intro!: post_bnd kept_fds)

lemma wp_post: "wp P B r \<Longrightarrow> post Q r \<Longrightarrow> wp (\<lambda>x s. P x s \<and> Q s) B r"
  by (cases r) auto

lemma close_one_refs:
  assumes r: "refs c E s" and p: "c = Some p" and i: "i < NOFILE"
  shows "wp (\<lambda>_. refs c E) (\<lambda>_ _. True) (case ofile (ptable s ! p) ! i of
       None \<Rightarrow> Ok () s
     | Some f \<Rightarrow> bnd (fileclose f s) (\<lambda>_ s. Ok () (set_ofile p i None s)))"
proof (cases "ofile (ptable s ! p) ! i")
  case None
  with r show ?thesis by simp
next
  case (Some f)
  have A: "wp (\<lambda>_. refs c (E(f := E f - 1))) (\<lambda>_ _. True) (fileclose f s)"
    by (rule fileclose_wp [OF r])
  have B: "post (same_fds (map ofile (ptable s))) (fileclose f s)"
    by (rule fileclose_fds) (simp add: same_fds_def)
  have "wp (\<lambda>_ t. refs c E (set_ofile p i None t)) (\<lambda>_ _. True) (fileclose f s)"
  proof (rule wp_mono [OF wp_post [OF A B]])
    fix t
    assume t: "refs c (E(f := E f - 1)) t \<and> same_fds (map ofile (ptable s)) t"
    then have m: "map ofile (ptable t) ! p = map ofile (ptable s) ! p" by (simp add: same_fds_def)
    have "p < length (ptable t)" "p < length (ptable s)" using t r p by (auto simp: refs_def)
    with m Some have "ofile (ptable t ! p) ! i = Some f" by simp
    from refs_take [OF conjunct1 [OF t] p i this] show "refs c E (set_ofile p i None t)"
      by (rule refs_cong) simp
  qed simp
  then show ?thesis unfolding Some option.case by (intro wp_bnd) simp
qed

lemma close_files_refs:
  assumes r: "refs c E s" and p: "c = Some p"
  shows "wp (\<lambda>_. refs c E) (\<lambda>_ _. True) (close_files p s)"
proof -
  have loop: "set fds \<subseteq> {..<NOFILE} \<Longrightarrow> refs c E s \<Longrightarrow> wp (\<lambda>_. refs c E) (\<lambda>_ _. True) (foreach (\<lambda>fd s.
       case ofile (ptable s ! p) ! fd of
         None \<Rightarrow> Ok () s
       | Some f \<Rightarrow> bnd (fileclose f s) (\<lambda>_ s. Ok () (set_ofile p fd None s))) fds s)" for fds s
  proof (induction fds arbitrary: s)
    case (Cons i fds)
    show ?case
      unfolding foreach.simps
      by (rule wp_bnd, rule wp_mono [OF close_one_refs [OF Cons.prems(2) p]]) (use Cons in auto)
  qed simp
  show ?thesis unfolding close_files_def by (rule loop) (use r in auto)
qed

section \<open>The property\<close>

text \<open>
  C4. File reference counts are exact. If before a call every open file's count equals the
  number of descriptors, over all processes, that name it, then it does so when dup, close,
  open or pipe returns, whichever way it returns, and after a process has closed its files on
  exit.
\<close>

theorem file_refs_exact_preserved:
  assumes "file_refs_exact s" and "curproc s = Some p"
  shows "wp (\<lambda>_. file_refs_exact) (\<lambda>_ _. True) (sys_dup s) \<and> wp (\<lambda>_. file_refs_exact) (\<lambda>_ _. True) (sys_close s) \<and>
    wp (\<lambda>_. file_refs_exact) (\<lambda>_ _. True) (sys_open s) \<and> wp (\<lambda>_. file_refs_exact) (\<lambda>_ _. True) (sys_pipe s) \<and>
    wp (\<lambda>_. file_refs_exact) (\<lambda>_ _. True) (close_files p s)"
proof -
  have r: "refs (Some p) (\<lambda>_. 0) s" using assms by (simp add: file_refs_exact_def)
  show ?thesis
    using sys_dup_refs [OF r] sys_close_refs [OF r] sys_open_refs [OF r] sys_pipe_refs [OF r] close_files_refs [OF r refl]
    by (auto simp: file_refs_exact_def refs_def elim!: wp_mono)
qed

text \<open>File 3 is open twice in the running process.\<close>

definition kio_files :: kio where
  "kio_files = kio0\<lparr>ptable := (ptable kio0)[0 := (ptable kio0 ! 0)\<lparr>ofile := [Some 3, None, Some 3] @ replicate 13 None\<rparr>],
     ftable := (ftable kio0)[3 := kfile0\<lparr>fref := 2\<rparr>]\<rparr>"

lemma kio_files_table:
  "ptable kio_files = [proc0\<lparr>state := RUNNING, pid := 1, pagetable := 0x87FFD000, sz := 0x3000,
       ofile := [Some 3, None, Some 3] @ replicate 13 None\<rparr>,
     proc0\<lparr>state := SLEEPING, pid := 2, pchan := Some ChTicks\<rparr>] @ replicate 62 proc0"
  by (simp add: kio_files_def kio0_fields)

lemma kio_files_count: "fdcount kio_files f = (if f = 3 then 2 else 0)"
proof -
  have "count_list (concat (replicate n (replicate 16 None))) (Some f) = 0" for n and f :: nat
    by (induction n) (auto simp: count_list_0_iff)
  moreover have "count_list (replicate n None) (Some f) = 0" for n and f :: nat
    by (induction n) auto
  ultimately show ?thesis by (simp add: fdcount_def kio_files_table proc0_def)
qed

lemma kio_files_exact: "file_refs_exact kio_files"
proof -
  have o': "ofile (ptable kio_files ! p) = (if p = 0 then [Some 3, None, Some 3] @ replicate 13 None else replicate 16 None)"
    if "p < 64" for p
    using that by (auto simp: kio_files_table nth_append nth_Cons' proc0_def)
  have l: "length (ptable kio_files) = 64" by (simp add: kio_files_table)
  have f: "ftable kio_files = (replicate NFILE kfile0)[3 := kfile0\<lparr>fref := 2\<rparr>]" "curproc kio_files = Some 0"
    by (simp_all add: kio_files_def kio0_fields)
  show ?thesis
    unfolding file_refs_exact_def refs_def l
    by (auto simp: o' f kio_files_count NFILE_def NOFILE_def nth_list_update kfile0_def)
qed

theorem file_refs_exact_preserved_witness:
  "file_refs_exact kio_files \<and> wp (\<lambda>_. file_refs_exact) (\<lambda>_ _. True) (sys_dup kio_files) \<and>
   wp (\<lambda>_. file_refs_exact) (\<lambda>_ _. True) (sys_close kio_files)"
proof -
  have "curproc kio_files = Some 0" by (simp add: kio_files_def kio0_fields)
  from file_refs_exact_preserved [OF kio_files_exact this] kio_files_exact show ?thesis by simp
qed

end
