(* ===== verification/Exec_Effect.thy ===== *)
theory Exec_Effect
  imports Exec Fs_Frame
begin

text \<open>
  What \<^verbatim>\<open>exec\<close> does to the process table: the new image is built in a page table of its own, so a
  failure, at whatever point, leaves the calling process as it was, and success replaces its image.
\<close>

section \<open>Page tables\<close>

lemma proc_tables_frame [frame]:
  fixes s :: "'x kproc_scheme"
  shows "kframe z s \<Longrightarrow> post (kframe z) (proc_pagetable p s)" "kframe z s \<Longrightarrow> post (kframe z) (proc_freepagetable pt n s)"
  by (auto simp: proc_pagetable_def proc_freepagetable_def intro!: post_bnd frame)

lemma vm_keeps [keeps]:
  "fk z s \<Longrightarrow> post (fk z) (proc_pagetable p s)" "fk z s \<Longrightarrow> post (fk z) (proc_freepagetable pt n s)"
  "fk z s \<Longrightarrow> post (fk z) (uvmalloc pt o' n' x s)" "fk z s \<Longrightarrow> post (fk z) (uvmclear pt va s)"
  "fk z s \<Longrightarrow> post (fk z) (walkaddr pt va s)"
  by (auto intro: fk.post_kframe frame)

lemma store_bytes_fk [simp]: "fk z (store_bytes pa bs s) = fk z s"
proof -
  have k: "kframe t (store_bytes pa bs t)" for t :: "'a kfs_scheme" by simp
  have "kproc.more (store_bytes pa bs s) = kproc.more s" "ptable (store_bytes pa bs s) = ptable s"
    "curproc (store_bytes pa bs s) = curproc s"
    using kframe_proc(1,12,13) [OF k] by auto
  then show ?thesis by (cases s; cases "store_bytes pa bs s"; simp add: fk_def)
qed

section \<open>Loading\<close>

lemma seg_less: "i < n \<Longrightarrow> n - (i + 4096) < n - (i :: nat)" by simp

lemma loadseg_keeps [keeps]: "fk z s \<Longrightarrow> post (fk z) (loadseg pt va ip off n s)"
proof -
  have "fk z s \<Longrightarrow> post (fk z) (loadseg_loop pt va ip off i n s)" for i n
  proof (induction "n - i" arbitrary: i s rule: less_induct)
    case less
    show ?case
      using less.prems by (subst loadseg_loop.simps)
        (auto simp: Let_def readi_phys_def oob_def simp del: diff_diff_eq intro!: post_bnd keeps less.hyps seg_less split: prod.split place.split)
  qed
  then show "fk z s \<Longrightarrow> post (fk z) (loadseg pt va ip off n s)" by (simp add: loadseg_def)
qed

lemma load_phdrs_keeps [keeps]: "fk z s \<Longrightarrow> post (fk z) (load_phdrs pt ip off k n s)"
proof (induction k arbitrary: off n s)
  case (Suc k)
  then show ?case by (auto simp: Let_def oob_def intro!: post_bnd keeps split: prod.split place.split)
qed simp

lemma push_args_keeps [keeps]: "fk z s \<Longrightarrow> post (fk z) (push_args pt b k as sp us s)"
proof (induction as arbitrary: k sp us s)
  case (Cons a as)
  then show ?case by (auto simp: Let_def intro!: post_bnd keeps)
qed simp

lemma push_ustack_keeps [keeps]: "fk z s \<Longrightarrow> post (fk z) (push_ustack pt b sp us s)"
  by (auto simp: push_ustack_def oob_def Let_def intro!: post_bnd keeps)

lemma exec_bad_keeps [keeps]: "fk z s \<Longrightarrow> post (fk z) (exec_bad pt n ip s)"
  by (auto simp: exec_bad_def op_fail_def intro!: post_bnd keeps split: option.split)

section \<open>Freeing a page table does not sleep\<close>




section \<open>The effect\<close>












lemma quiet_updates [simp]:
  "quiet (upd_inode i f s) = quiet s" "quiet (upd_slock l g s) = quiet s"
  "quiet (s\<lparr>log_outstanding := n\<rparr>) = quiet s" "quiet (s\<lparr>log_outstanding := n, log_committing := b\<rparr>) = quiet s"
  by (simp_all add: quiet_def upd_inode_def upd_slock_def)







end
