(* ===== verification/Paths.thy ===== *)
theory Paths
  imports Fs
begin

text \<open>
  \<^verbatim>\<open>skipelem\<close> against a specification of path names, and the layout of inodes on disk: what
  \<^verbatim>\<open>iupdate\<close> stores is what \<^verbatim>\<open>ilock\<close> loads, and no other inode of the block changes.
\<close>

section \<open>Path elements\<close>

text \<open>The specification: cut at the slashes, drop the empty pieces.\<close>

fun split_slash :: "u8 list \<Rightarrow> u8 list list" where
  "split_slash [] = [[]]"
| "split_slash (c # cs) =
     (if c = slash then [] # split_slash cs
      else case split_slash cs of w # ws \<Rightarrow> (c # w) # ws | [] \<Rightarrow> [[c]])"

definition path_elems :: "u8 list \<Rightarrow> u8 list list" where
  "path_elems path = filter (\<lambda>w. w \<noteq> []) (split_slash path)"

text \<open>The name in the buffer: at most \<^verbatim>\<open>DIRSIZ\<close> bytes, shorter ones end in a NUL.\<close>

definition buf_name :: "u8 list \<Rightarrow> u8 list" where
  "buf_name name = takeWhile (\<lambda>c. c \<noteq> 0) (take DIRSIZ name)"

text \<open>The names \<^verbatim>\<open>namex\<close> goes through: \<^verbatim>\<open>skipelem\<close> until it returns 0.\<close>

function skip_names :: "u8 list \<Rightarrow> u8 list \<Rightarrow> u8 list list" where
  "skip_names path name =
     (case skipelem path name of None \<Rightarrow> []
      | Some (path', name') \<Rightarrow> buf_name name' # skip_names path' name')"
  by pat_completeness auto
termination
  by (relation "measure (\<lambda>(path, name). length path)") (auto intro: skipelem_shorter)

declare skip_names.simps [simp del]

lemma split_slash_nonempty: "split_slash p \<noteq> []"
  by (induction p) (auto split: list.split)

lemma path_elems_slash: "path_elems (slash # p) = path_elems p"
  by (simp add: path_elems_def)

lemma path_elems_drop: "path_elems (dropWhile (\<lambda>c. c = slash) p) = path_elems p"
  by (induction p) (auto simp: path_elems_slash)

lemma split_slash_elem:
  "split_slash p = takeWhile (\<lambda>c. c \<noteq> slash) p #
     (case dropWhile (\<lambda>c. c \<noteq> slash) p of [] \<Rightarrow> [] | c # cs \<Rightarrow> split_slash cs)"
  by (induction p) (auto split: list.split)

lemma path_elems_first:
  assumes "p \<noteq> []" "hd p \<noteq> slash"
  shows "path_elems p = takeWhile (\<lambda>c. c \<noteq> slash) p # path_elems (dropWhile (\<lambda>c. c \<noteq> slash) p)"
proof -
  have ne: "takeWhile (\<lambda>c. c \<noteq> slash) p \<noteq> []" using assms by (cases p) auto
  let ?r = "dropWhile (\<lambda>c. c \<noteq> slash) p"
  have "?r = [] \<or> (\<exists>cs. ?r = slash # cs)" by (cases ?r) (auto simp: dropWhile_eq_Cons_conv)
  then have "filter (\<lambda>w. w \<noteq> []) (case ?r of [] \<Rightarrow> [] | c # cs \<Rightarrow> split_slash cs) = path_elems ?r"
    by (elim disjE exE; simp only: list.case path_elems_slash) (simp_all add: path_elems_def)
  then show ?thesis
    unfolding path_elems_def [of p] split_slash_elem [of p] using ne by simp
qed

lemma buf_name_elem:
  fixes el name
  defines "n \<equiv> (if length el \<ge> DIRSIZ then patch name 0 (take DIRSIZ el) else patch name 0 (el @ [0]))"
  assumes "length name = DIRSIZ" "0 \<notin> set el"
  shows "buf_name n = take DIRSIZ el" "length n = DIRSIZ"
proof -
  have z: "takeWhile (\<lambda>c. c \<noteq> 0) xs = xs" if "0 \<notin> set xs" for xs :: "u8 list"
    using that by (auto simp: takeWhile_eq_all_conv)
  show l: "length n = DIRSIZ"
    using assms(2) by (simp add: n_def not_le)
  show "buf_name n = take DIRSIZ el"
  proof (cases "length el \<ge> DIRSIZ")
    case True
    then have "n = take DIRSIZ el" using assms(2) by (simp add: n_def patch_def)
    moreover have "0 \<notin> set (take DIRSIZ el)" using assms(3) by (meson in_set_takeD)
    ultimately show ?thesis by (simp add: buf_name_def z)
  next
    case False
    then have "take DIRSIZ n = el @ 0 # drop (Suc (length el)) name" using l by (simp add: n_def patch_def)
    then show ?thesis using False assms(3) by (simp add: buf_name_def z takeWhile_append)
  qed
qed

text \<open>
  C24. The names a path lookup goes through are the maximal slash-free pieces of the path, in
  order, each cut to 14 bytes; leading, repeated and trailing slashes make no difference.
\<close>

theorem skipelem_splits_path:
  assumes "0 \<notin> set path" and "length name = DIRSIZ"
  shows "skip_names path name = map (take DIRSIZ) (path_elems path)"
  using assms
proof (induction path name rule: skip_names.induct)
  case (1 path name)
  let ?p = "dropWhile (\<lambda>c. c = slash) path"
  show ?case
  proof (cases "?p = []")
    case True
    have "path_elems ?p = []" unfolding True by (simp add: path_elems_def)
    then have "path_elems path = []" by (simp only: path_elems_drop)
    with True show ?thesis by (subst skip_names.simps) (simp add: skipelem_def)
  next
    case False
    let ?el = "takeWhile (\<lambda>c. c \<noteq> slash) ?p" and ?rest = "dropWhile (\<lambda>c. c \<noteq> slash) ?p"
    let ?name = "if length ?el \<ge> DIRSIZ then patch name 0 (take DIRSIZ ?el) else patch name 0 (?el @ [0])"
    have el: "0 \<notin> set ?el" using "1.prems"(1) by (meson set_dropWhileD set_takeWhileD)
    have h: "hd ?p \<noteq> slash" using hd_dropWhile [OF False] by simp
    have sk: "skipelem path name = Some (dropWhile (\<lambda>c. c = slash) ?rest, ?name)"
      using False by (simp add: skipelem_def Let_def)
    have rest: "0 \<notin> set (dropWhile (\<lambda>c. c = slash) ?rest)" using "1.prems"(1) by (meson set_dropWhileD)
    have "skip_names (dropWhile (\<lambda>c. c = slash) ?rest) ?name = map (take DIRSIZ) (path_elems (dropWhile (\<lambda>c. c = slash) ?rest))"
      by (rule "1.IH" [OF sk refl rest buf_name_elem(2) [OF "1.prems"(2) el]])
    then have "skip_names path name = take DIRSIZ ?el # map (take DIRSIZ) (path_elems ?rest)"
      by (subst skip_names.simps) (simp add: sk buf_name_elem(1) [OF "1.prems"(2) el] path_elems_drop del: if_split)
    moreover have "path_elems path = ?el # path_elems ?rest"
      using path_elems_first [OF False h] path_elems_drop [of path] by simp
    ultimately show ?thesis by simp
  qed
qed

text \<open>\<^verbatim>\<open>//usr/abcdefghijklmnop/\<close>\<close>

theorem skipelem_splits_path_witness:
  "skip_names [47, 47, 117, 115, 114, 47, 97, 98, 99, 100, 101, 102, 103, 104, 105, 106, 107, 108, 109, 110, 111, 112, 47] (replicate 14 0) =
     [[117, 115, 114], [97, 98, 99, 100, 101, 102, 103, 104, 105, 106, 107, 108, 109, 110]]"
  by (subst skipelem_splits_path) (simp_all add: DIRSIZ_def path_elems_def slash_def)

section \<open>Inodes on disk\<close>

definition disk_fields :: "inode \<Rightarrow> u16 \<times> u16 \<times> u16 \<times> u16 \<times> u32 \<times> u32 list" where
  "disk_fields ip = (i_type ip, i_major ip, i_minor ip, i_nlink ip, i_size ip, i_addrs ip)"

lemma length_concat_bytes32: "length (concat (map bytes32 ws)) = 4 * length ws"
  by (induction ws) auto

lemma length_dip_bytes: "length (i_addrs ip) = NDIRECT + 1 \<Longrightarrow> length (dip_bytes ip) = DINODE_SIZE"
  by (simp add: dip_bytes_def length_concat_bytes32 DINODE_SIZE_def NDIRECT_def)

lemma dip_off_le: "dip_off inum + DINODE_SIZE \<le> BSIZE"
proof -
  have ipb: "IPB = 16" by (simp add: IPB_def BSIZE_def DINODE_SIZE_def NDIRECT_def)
  have "unat inum mod IPB < 16" unfolding ipb by (rule mod_less_divisor) simp
  then show ?thesis by (simp add: dip_off_def DINODE_SIZE_def NDIRECT_def BSIZE_def)
qed

lemma dip_off_disjoint:
  assumes "unat m mod IPB \<noteq> unat n mod IPB"
  shows "dip_off m + DINODE_SIZE \<le> dip_off n \<or> dip_off n + DINODE_SIZE \<le> dip_off m"
proof -
  have le: "i * DINODE_SIZE + DINODE_SIZE \<le> j * DINODE_SIZE" if "i < j" for i j
    using mult_le_mono1 [of "Suc i" j DINODE_SIZE] that by simp
  from assms have "unat m mod IPB < unat n mod IPB \<or> unat n mod IPB < unat m mod IPB" by linarith
  then show ?thesis unfolding dip_off_def by (metis le)
qed

lemma get32_bytes32: "get32 (bytes32 w @ xs) 0 = w"
  using bytes32_join [of w] by (simp add: get32_def bytes32_def numeral_2_eq_2 numeral_3_eq_3)

lemma get16_bytes16: "get16 (bytes16 w @ xs) 0 = w"
  by (auto simp: get16_def bytes16_def bit_simps intro!: bit_word_eqI)

text \<open>Reading at an offset inside what has been patched in, and past a prefix.\<close>

lemma get_patch_in:
  assumes "i + length xs \<le> length d"
  shows "j + 4 \<le> length xs \<Longrightarrow> get32 (patch d i xs) (i + j) = get32 xs j"
    "j + 2 \<le> length xs \<Longrightarrow> get16 (patch d i xs) (i + j) = get16 xs j"
  using assms by (auto simp: get32_def get16_def nth_patch)

lemma get_append:
  "get32 (xs @ ys) (length xs + j) = get32 ys j" "get16 (xs @ ys) (length xs + j) = get16 ys j"
  by (simp_all add: get32_def get16_def nth_append)

lemma get32_concat: "j < length ws \<Longrightarrow> get32 (concat (map bytes32 ws)) (4 * j) = ws ! j"
proof (induction ws arbitrary: j)
  case Nil
  then show ?case by simp
next
  case (Cons w ws)
  show ?case
  proof (cases j)
    case 0
    then show ?thesis by (simp add: get32_bytes32)
  next
    case (Suc k)
    with Cons.IH [of k] Cons.prems get_append(1) [of "bytes32 w" "concat (map bytes32 ws)" "4 * k"]
    show ?thesis by simp
  qed
qed

lemma dinode_stored:
  assumes "length d = BSIZE" and "length (i_addrs ip) = NDIRECT + 1"
  shows "disk_fields (dip_read (patch d (dip_off n) (dip_bytes ip)) n jp) = disk_fields ip \<and>
    length (patch d (dip_off n) (dip_bytes ip)) = BSIZE \<and>
    (unat m mod IPB \<noteq> unat n mod IPB \<longrightarrow> dip_read (patch d (dip_off n) (dip_bytes ip)) m jp = dip_read d m jp)"
proof -
  let ?x = "dip_bytes ip" and ?k = "dip_off n"
  have x: "length ?x = DINODE_SIZE" by (rule length_dip_bytes [OF assms(2)])
  have le: "?k + length ?x \<le> length d" using dip_off_le [of n] x assms(1) by simp
  have L: "DINODE_SIZE = 64" by (simp add: DINODE_SIZE_def NDIRECT_def)
  have f16: "get16 (patch d ?k ?x) (?k + j) = get16 ?x j" if "j + 2 \<le> 64" for j
    using get_patch_in(2) [OF le, of j] that x L by simp
  have f32: "get32 (patch d ?k ?x) (?k + j) = get32 ?x j" if "j + 4 \<le> 64" for j
    using get_patch_in(1) [OF le, of j] that x L by simp
  have addr: "get32 ?x (12 + 4 * j) = i_addrs ip ! j" if "j < NDIRECT + 1" for j
    using get_append(1) [of "bytes16 (i_type ip) @ bytes16 (i_major ip) @ bytes16 (i_minor ip) @ bytes16 (i_nlink ip) @ bytes32 (i_size ip)"
        "concat (map bytes32 (i_addrs ip))" "4 * j"] get32_concat [of j "i_addrs ip"] that assms(2)
    by (simp add: dip_bytes_def)
  have "get16 ?x 0 = i_type ip" "get16 ?x 2 = i_major ip" "get16 ?x 4 = i_minor ip" "get16 ?x 6 = i_nlink ip" "get32 ?x 8 = i_size ip"
    using get16_bytes16 [of "i_type ip"] get16_bytes16 [of "i_major ip"] get16_bytes16 [of "i_minor ip"] get16_bytes16 [of "i_nlink ip"]
      get32_bytes32 [of "i_size ip"] get_append(2) [of "bytes16 (i_type ip)" _ 0]
      get_append(2) [of "bytes16 (i_type ip) @ bytes16 (i_major ip)" _ 0]
      get_append(2) [of "bytes16 (i_type ip) @ bytes16 (i_major ip) @ bytes16 (i_minor ip)" _ 0]
      get_append(1) [of "bytes16 (i_type ip) @ bytes16 (i_major ip) @ bytes16 (i_minor ip) @ bytes16 (i_nlink ip)" _ 0]
    by (simp_all add: dip_bytes_def)
  moreover have "map (\<lambda>j. get32 (patch d ?k ?x) (?k + 12 + 4 * j)) [0..<NDIRECT + 1] = i_addrs ip"
    by (rule nth_equalityI) (use f32 [of "12 + 4 * _"] addr assms(2) in \<open>auto simp: add.assoc NDIRECT_def\<close>)
  ultimately have "disk_fields (dip_read (patch d ?k ?x) n jp) = disk_fields ip"
    using f16 [of 0] f16 [of 2] f16 [of 4] f16 [of 6] f32 [of 8] by (simp add: disk_fields_def dip_read_def Let_def)
  moreover have "dip_read (patch d ?k ?x) m jp = dip_read d m jp" if "unat m mod IPB \<noteq> unat n mod IPB"
  proof -
    let ?j = "dip_off m"
    have ds: "?j + 64 \<le> ?k \<or> ?k + 64 \<le> ?j" using dip_off_disjoint [OF that] L by simp
    have jl: "?j + 64 \<le> length d" using dip_off_le [of m] L assms(1) by simp
    have g16: "get16 (patch d ?k ?x) (?j + i) = get16 d (?j + i)" if "i + 2 \<le> 64" for i
      using that ds jl x L by (intro get16_patch_other [OF le]) auto
    have g32: "get32 (patch d ?k ?x) (?j + i) = get32 d (?j + i)" if "i + 4 \<le> 64" for i
      using that ds jl x L by (intro get32_patch_other [OF le]) auto
    have "map (\<lambda>i. get32 (patch d ?k ?x) (?j + 12 + 4 * i)) [0..<NDIRECT + 1] = map (\<lambda>i. get32 d (?j + 12 + 4 * i)) [0..<NDIRECT + 1]"
      by (rule map_cong [OF refl]) (simp add: g32 add.assoc NDIRECT_def)
    then show ?thesis
      using g16 [of 0] g16 [of 2] g16 [of 4] g16 [of 6] g32 [of 8] by (simp add: dip_read_def Let_def)
  qed
  ultimately show ?thesis using le assms(1) by simp
qed

text \<open>
  C20. What \<^verbatim>\<open>iupdate\<close> stores in a block is what \<^verbatim>\<open>ilock\<close> reads back, for every inode and every
  block it may lie in; and it leaves every other inode of the block as it was.
\<close>

theorem dinode_round_trip:
  assumes "length d = BSIZE" and "length (i_addrs ip) = NDIRECT + 1"
  shows "disk_fields (dip_read (patch d (dip_off n) (dip_bytes ip)) n jp) = disk_fields ip \<and>
    length (patch d (dip_off n) (dip_bytes ip)) = BSIZE \<and>
    (unat m mod IPB \<noteq> unat n mod IPB \<longrightarrow> dip_read (patch d (dip_off n) (dip_bytes ip)) m jp = dip_read d m jp)"
  by (rule dinode_stored [OF assms])

definition inode_sample :: inode where
  "inode_sample = \<lparr>i_dev = 1, i_inum = 5, i_ref = 1, i_valid = True, i_type = T_FILE, i_major = 0, i_minor = 0,
     i_nlink = 2, i_size = 0x12345, i_addrs = map (\<lambda>j. 0x100 + of_nat j) [0..<13]\<rparr>"

theorem dinode_round_trip_witness:
  "disk_fields (dip_read (patch (replicate 1024 9) (dip_off 5) (dip_bytes inode_sample)) 5 inode_sample) = disk_fields inode_sample \<and>
   dip_read (patch (replicate 1024 9) (dip_off 5) (dip_bytes inode_sample)) 6 inode_sample = dip_read (replicate 1024 9) 6 inode_sample"
proof -
  have "length (replicate 1024 (9 :: u8)) = BSIZE" "length (i_addrs inode_sample) = NDIRECT + 1"
    by (simp_all add: BSIZE_def inode_sample_def NDIRECT_def)
  moreover have "unat (6 :: u32) mod IPB \<noteq> unat (5 :: u32) mod IPB"
    by (simp add: IPB_def BSIZE_def DINODE_SIZE_def NDIRECT_def)
  ultimately show ?thesis
    using dinode_round_trip [of "replicate 1024 9" inode_sample 5 inode_sample 6] by blast
qed

end
