(* ===== verification/Fs_Blocks.thy ===== *)
theory Fs_Blocks
  imports Fs
begin

text \<open>
  What the file system's operations on single blocks do to the disk the kernel sees: each reads a
  block, changes it, logs it and lets it go, and leaves the invariant \<open>log_wf\<close> of theory Log from
  which the crash theorem starts. On top of that the block bitmap is a set of blocks, of which
  \<^verbatim>\<open>balloc\<close> and \<^verbatim>\<open>bfree\<close> take and give back members.
\<close>

section \<open>Writing to the log\<close>

lemma log_views:
  "bio_ok d (t\<lparr>lhblock := l, lhn := n\<rparr>) = bio_ok d t" "blk d (t\<lparr>lhblock := l, lhn := n\<rparr>) = blk d t"
  "pin d (t\<lparr>lhblock := l, lhn := n\<rparr>) = pin d t" "busy d (t\<lparr>lhblock := l, lhn := n\<rparr>) = busy d t"
  "handle d (t\<lparr>lhblock := l, lhn := n\<rparr>) i b = handle d t i b"
  "bio_ok d (t\<lparr>lhblock := l\<rparr>) = bio_ok d t" "blk d (t\<lparr>lhblock := l\<rparr>) = blk d t"
  "pin d (t\<lparr>lhblock := l\<rparr>) = pin d t" "busy d (t\<lparr>lhblock := l\<rparr>) = busy d t"
  "handle d (t\<lparr>lhblock := l\<rparr>) i b = handle d t i b"
  by (auto simp: bio_ok_def quiet_def bio_wf_def cached_def blk_def pin_def busy_def buf_of_def fun_eq_iff
      handle_def holds_def mypid_def split: option.split)

text \<open>
  \<open>lstep d s t b v p l\<close>: block \<open>b\<close> now has content \<open>v\<close> and \<open>p\<close> references, and \<open>l\<close> says whether its
  buffer is locked; the logged blocks are \<open>bs\<close>. The disk and all else are as before.
\<close>

definition lstep :: "u32 \<Rightarrow> 'x klog_scheme \<Rightarrow> 'x klog_scheme \<Rightarrow> u32 \<Rightarrow> u8 list \<Rightarrow> nat \<Rightarrow> bool \<Rightarrow> u32 list \<Rightarrow> bool" where
  "lstep d s t b v p l bs \<longleftrightarrow> bio_ok d t \<and> blk d t = (blk d s)(b := v) \<and> pin d t = (pin d s)(b := p) \<and>
     busy d t = (busy d s)(b := l) \<and> disk t = disk s \<and> dtrace t = dtrace s \<and> logged t = bs \<and>
     lhn t = int (length bs) \<and> length (lhblock t) = length (lhblock s) \<and> log_start t = log_start s \<and> log_dev t = log_dev s \<and>
     log_outstanding t = log_outstanding s \<and> log_committing t = log_committing s \<and>
     klog.more t = klog.more s \<and> (\<forall>j c. c \<noteq> b \<longrightarrow> handle d s j c \<longrightarrow> handle d t j c)"

lemma io_eff_more: "io_eff d s t b v n l ws \<Longrightarrow> klog.more t = klog.more (s :: 'x klog_scheme)"
proof -
  assume "io_eff d s t b v n l ws"
  then have "kbio.more t = kbio.more s" by (simp add: io_eff_def bframe_def)
  then show ?thesis by (cases s; cases t; simp)
qed

lemma io_eff_lstep:
  assumes "io_eff d s t b v n l []" "0 \<le> lhn s" "lhn s \<le> int (length (lhblock s))"
  shows "lstep d s t b v n l (logged s)"
  using io_effD [OF assms(1)] io_eff_log [OF assms(1)] io_eff_more [OF assms(1)] assms(2,3)
  by (simp add: lstep_def logged_def)

lemma lstep_trans:
  "lstep d s t b v p l bs \<Longrightarrow> lstep d t u b v' p' l' bs' \<Longrightarrow> lstep d s u b v' p' l' bs'"
  by (simp add: lstep_def)

text \<open>\<^verbatim>\<open>log_write\<close> references the buffer for the log unless the block is in it already.\<close>

lemma log_write_spec:
  fixes s :: "'x klog_scheme"
  assumes ok: "bio_ok d s" and h: "handle d s i b" and n: "0 \<le> lhn s" "lhn s < int LOGBLOCKS"
    and o': "1 \<le> log_outstanding s" and L: "length (lhblock s) = LOGBLOCKS" and small: "pin d s b < 2 ^ 31"
  shows "\<exists>t. log_write i s = Ok () t \<and> handle d t i b \<and>
    lstep d s t b (blk d s b) (pin d s b + of_bool (b \<notin> set (logged s))) True
      (if b \<in> set (logged s) then logged s else logged s @ [b])"
proof -
  have q: "held s = []" using bio_okD(1) [OF ok] by (simp add: quiet_def)
  have bno: "bblockno (bufs s ! i) = b" using h by (simp add: handle_def cached_def)
  let ?n = "nat (lhn s)"
  have n': "?n < length (lhblock s)" using n L by simp
  have busy: "busy d s b" using handle_view [OF bio_okD(2) [OF ok] h] by simp
  show ?thesis
  proof (cases "find_idx (\<lambda>w. w = b) (take ?n (lhblock s))")
    case None
    then have nin: "b \<notin> set (logged s)" by (auto simp: find_idx_None_iff logged_def)
    obtain t where t: "bpin i s = Ok () t" "io_eff d s t b (blk d s b) (pin d s b + 1) True []" "handle d t i b"
      using bpin_spec [OF ok h small] by blast
    have pinned: "bpin i (s\<lparr>held := [LogLock], lhblock := l\<rparr>) = Ok () (t\<lparr>held := [LogLock], lhblock := l\<rparr>)" for l
      using t(1) q by (auto simp: bpin_def upd_buf_def)
    have ht: "held t = []" using io_effD(2) [OF t(2)] q by (simp add: bframe_def)
    note T = io_eff_log [OF t(2)]
    let ?t = "t\<lparr>lhblock := (lhblock s)[?n := b], lhn := lhn s + 1\<rparr>"
    have "log_write i s = Ok () (t\<lparr>held := [], lhblock := (lhblock s)[?n := b], lhn := lhn s + 1\<rparr>)"
      using q n(2) o' None pinned [of "(lhblock s)[?n := b]"] T by (simp add: log_write_def bno Let_def)
    moreover have "t\<lparr>held := [], lhblock := (lhblock s)[?n := b], lhn := lhn s + 1\<rparr> = ?t"
      using ht by (cases t) simp
    moreover have "logged ?t = logged s @ [b]"
      using n' n by (simp add: logged_def nat_add_distrib take_Suc_conv_app_nth)
    moreover have "lstep d s ?t b (blk d s b) (pin d s b + 1) True (logged s @ [b])"
      using io_effD [OF t(2)] T n n' L io_eff_more [OF t(2)] calculation(3)
      by (simp add: lstep_def log_views) (simp add: logged_def)
    ultimately show ?thesis using t(3) nin by (auto simp: log_views)
  next
    case (Some j)
    then have j: "j < ?n" "lhblock s ! j = b" using find_idx_SomeD [OF Some] n' by auto
    then have yes: "b \<in> set (logged s)" using n' by (auto simp: logged_def in_set_conv_nth)
    have "(lhblock s)[j := b] = lhblock s" using j(2) list_update_id [of "lhblock s" j] by simp
    then have "log_write i s = Ok () (s\<lparr>held := []\<rparr>)"
      using q n(2) o' Some j by (simp add: log_write_def bno Let_def)
    then have "log_write i s = Ok () s" using q by (cases s) simp
    moreover have "lstep d s s b (blk d s b) (pin d s b) True (logged s)"
      using ok busy n' n by (simp add: lstep_def logged_def fun_upd_idem)
    ultimately show ?thesis using h yes by auto
  qed
qed

section \<open>Transactions\<close>

text \<open>
  The log inside a transaction, the process holding the locked buffers \<open>H\<close>, each with its block: the
  invariant \<open>log_wf\<close> of theory Log is the case of no held buffer. A held block that has not been
  logged still agrees with the disk.
\<close>

definition hlog_wf :: "(nat \<times> u32) list \<Rightarrow> 'x klog_scheme \<Rightarrow> bool" where
  "hlog_wf H s \<longleftrightarrow> bio_ok (log_dev s) s \<and> distinct (map snd H) \<and> (\<forall>h \<in> set H. handle (log_dev s) s (fst h) (snd h)) \<and>
     (\<forall>b. busy (log_dev s) s b \<longleftrightarrow> b \<in> snd ` set H) \<and> 0 \<le> lhn s \<and> lhn s \<le> int LOGBLOCKS \<and>
     length (lhblock s) = LOGBLOCKS \<and> distinct (logged s) \<and> set (logged s) \<inter> log_region (log_start s) = {} \<and>
     (\<forall>b. pin (log_dev s) s b = of_bool (b \<in> set (logged s)) + of_bool (b \<in> snd ` set H)) \<and>
     (\<forall>b. b \<notin> set (logged s) \<longrightarrow> blk (log_dev s) s b = disk s b)"

lemma hlog_wf_Nil: "hlog_wf [] s = log_wf s"
  using bio_clean [of "log_dev s" s] by (auto simp: hlog_wf_def log_wf_def bio_ok_def)

text \<open>
  \<open>tx H s t b v\<close>: as part of the transaction block \<open>b\<close> has got content \<open>v\<close>, and the buffers \<open>H\<close> are held
  now. \<open>same_tx\<close>: blocks have been looked at, buffers taken or let go.
\<close>

definition same_log :: "(nat \<times> u32) list \<Rightarrow> 'x klog_scheme \<Rightarrow> 'x klog_scheme \<Rightarrow> bool" where
  "same_log H s t \<longleftrightarrow> hlog_wf H t \<and> log_dev t = log_dev s \<and> log_start t = log_start s \<and> disk t = disk s \<and>
     log_outstanding t = log_outstanding s \<and> log_committing t = log_committing s \<and> klog.more t = klog.more s"

definition tx :: "(nat \<times> u32) list \<Rightarrow> 'x klog_scheme \<Rightarrow> 'x klog_scheme \<Rightarrow> u32 \<Rightarrow> u8 list \<Rightarrow> bool" where
  "tx H s t b v \<longleftrightarrow> same_log H s t \<and> blk (log_dev s) t = (blk (log_dev s) s)(b := v) \<and>
     logged t = (if b \<in> set (logged s) then logged s else logged s @ [b])"

definition same_tx :: "(nat \<times> u32) list \<Rightarrow> 'x klog_scheme \<Rightarrow> 'x klog_scheme \<Rightarrow> bool" where
  "same_tx H s t \<longleftrightarrow> same_log H s t \<and> blk (log_dev s) t = blk (log_dev s) s \<and> logged t = logged s"

lemma hlog_wfD:
  assumes "hlog_wf H s"
  shows "bio_ok (log_dev s) s" "busy (log_dev s) s b \<longleftrightarrow> b \<in> snd ` set H" "0 \<le> lhn s" "lhn s \<le> int LOGBLOCKS" "length (lhblock s) = LOGBLOCKS"
    "distinct (logged s)" "set (logged s) \<inter> log_region (log_start s) = {}"
    "pin (log_dev s) s b = of_bool (b \<in> set (logged s)) + of_bool (b \<in> snd ` set H)" "lhn s = int (length (logged s))"
    "(i, c) \<in> set H \<Longrightarrow> handle (log_dev s) s i c" "b \<notin> set (logged s) \<Longrightarrow> blk (log_dev s) s b = disk s b" "distinct (map snd H)"
  using assms by (auto simp: hlog_wf_def logged_def)

lemma held_block: "hlog_wf H s \<Longrightarrow> (i, b) \<in> set H \<Longrightarrow> bdata (bufs s ! i) = blk (log_dev s) s b"
  using handle_view(1) [OF bio_okD(2)] hlog_wfD(1,10) by metis

lemma blk_size: "hlog_wf H s \<Longrightarrow> length (blk (log_dev s) s b) = BSIZE"
  using blk_length [OF bio_okD(2) [OF hlog_wfD(1)]] by blast

lemma hlog_pinned_card:
  assumes "hlog_wf H s" shows "card {c. 0 < pin (log_dev s) s c} \<le> length (logged s) + length H"
proof -
  have "{c. 0 < pin (log_dev s) s c} = set (logged s) \<union> snd ` set H" using hlog_wfD(8) [OF assms] by auto
  also have "card \<dots> \<le> card (set (logged s)) + card (snd ` set H)" by (rule card_Un_le)
  also have "\<dots> \<le> length (logged s) + length H"
    by (intro add_mono card_length order_trans [OF card_image_le card_length]) simp
  finally show ?thesis .
qed

lemma pin_small: "hlog_wf H s \<Longrightarrow> pin (log_dev s) s b < 2 ^ 31"
  by (simp add: hlog_wfD(8) of_bool_def)

text \<open>The three steps of which every access to a block is made.\<close>

lemma bread_held:
  fixes s :: "'x klog_scheme"
  assumes w: "hlog_wf H s" and n: "lhn s + int (length H) < int LOGBLOCKS" and b: "b \<notin> snd ` set H"
  shows "\<exists>i t. bread (log_dev s) b s = Ok i t \<and> bdata (bufs t ! i) = blk (log_dev s) s b \<and> same_tx ((i, b) # H) s t"
proof -
  let ?d = "log_dev s"
  note W = hlog_wfD [OF w]
  have "length (logged s) + length H < NBUF" using n W(9) by (simp add: LOGBLOCKS_def NBUF_def)
  then have av: "card {c. 0 < pin ?d s c} < NBUF" using hlog_pinned_card [OF w] by simp
  have nb: "\<not> busy ?d s b" using W(2) b by simp
  from bread_spec [OF W(1) nb disjI2 [OF av] pin_small [OF w]] obtain i t
    where t: "bread ?d b s = Ok i t" "io_eff ?d s t b (blk ?d s b) (pin ?d s b + 1) True []" "handle ?d t i b" by blast
  have "lhn s \<le> int (length (lhblock s))" using W(4,5) by simp
  note L = io_eff_lstep [OF t(2) W(3) this]
  have "hlog_wf ((i, b) # H) t"
    using L W b t(3) unfolding hlog_wf_def lstep_def by (auto simp: image_iff)
  then have "same_tx ((i, b) # H) s t" using L by (simp add: same_tx_def same_log_def lstep_def)
  moreover have "bdata (bufs t ! i) = blk ?d s b"
    using held_block [OF \<open>hlog_wf ((i, b) # H) t\<close>, of i b] L by (simp add: lstep_def)
  ultimately show ?thesis using t(1) by blast
qed

lemma write_held:
  fixes s :: "'x klog_scheme"
  assumes w: "hlog_wf ((i, b) # H) s" and n: "lhn s < int LOGBLOCKS" and o': "1 \<le> log_outstanding s"
    and r: "b \<notin> log_region (log_start s)" and v: "length v = BSIZE"
  shows "\<exists>t. log_write i (set_bdata i v s) = Ok () t \<and> tx ((i, b) # H) s t b v"
proof -
  let ?d = "log_dev s" and ?t = "set_bdata i v s"
  note W = hlog_wfD [OF w]
  have h: "handle ?d s i b" using W(10) by simp
  have e: "io_eff ?d s ?t b v (pin ?d s b) True []" "handle ?d ?t i b" using set_bdata_spec [OF W(1) h v] by simp_all
  note E = io_effD [OF e(1)] and G = io_eff_log [OF e(1)]
  have "lhn s \<le> int (length (lhblock s))" using W(4,5) by simp
  note l1 = io_eff_lstep [OF e(1) W(3) this]
  have p: "pin ?d ?t b = pin ?d s b" "blk ?d ?t b = v" "logged ?t = logged s" using E G by (simp_all add: logged_def)
  have "pin ?d ?t b < 2 ^ 31" using pin_small [OF w] p(1) by simp
  from log_write_spec [OF E(1) e(2) _ _ _ _ this] obtain u
    where u: "log_write i ?t = Ok () u" "handle ?d u i b"
      "lstep ?d ?t u b v (pin ?d s b + of_bool (b \<notin> set (logged s))) True (if b \<in> set (logged s) then logged s else logged s @ [b])"
    unfolding G p using W(3,5) n o' by blast
  note L = lstep_trans [OF l1 u(3)]
  have pb: "pin ?d s b = of_bool (b \<in> set (logged s)) + 1" using W(8) [of b] by simp
  have nb: "(j, b) \<notin> set H" for j using W(12) by (force simp: image_iff)
  have "hlog_wf ((i, b) # H) u"
    unfolding hlog_wf_def
  proof (intro conjI)
    show "\<forall>h \<in> set ((i, b) # H). handle (log_dev u) u (fst h) (snd h)"
    proof
      fix h assume "h \<in> set ((i, b) # H)"
      then consider "h = (i, b)" | "h \<in> set H" by auto
      then show "handle (log_dev u) u (fst h) (snd h)"
      proof cases
        case 1 then show ?thesis using u(2) L by (simp add: lstep_def)
      next
        case 2
        then have "snd h \<noteq> b" using nb [of "fst h"] by (cases h) auto
        moreover have "handle ?d s (fst h) (snd h)" using W(10) [of "fst h" "snd h"] 2 by simp
        ultimately show ?thesis using L by (simp add: lstep_def)
      qed
    qed
  qed (use L W r n pb in \<open>auto simp: lstep_def\<close>)
  then have "tx ((i, b) # H) s u b v" using L by (simp add: tx_def same_log_def lstep_def)
  then show ?thesis using u(1) by blast
qed

lemma brelse_held:
  fixes s :: "'x klog_scheme"
  assumes w: "hlog_wf ((i, b) # H) s"
  shows "\<exists>t. brelse i s = Ok () t \<and> same_tx H s t"
proof -
  let ?d = "log_dev s"
  note W = hlog_wfD [OF w]
  have h: "handle ?d s i b" using W(10) by simp
  have pb: "pin ?d s b = of_bool (b \<in> set (logged s)) + 1" using W(8) [of b] by simp
  have "1 < pin ?d s b \<or> blk ?d s b = disk s b" using W(11) [of b] pb by (cases "b \<in> set (logged s)") auto
  from brelse_spec [OF W(1) h this] obtain t
    where t: "brelse i s = Ok () t" "io_eff ?d s t b (blk ?d s b) (pin ?d s b - 1) False []" by blast
  have "lhn s \<le> int (length (lhblock s))" using W(4,5) by simp
  note L = io_eff_lstep [OF t(2) W(3) this]
  have nb: "(j, b) \<notin> set H" for j using W(12) by (force simp: image_iff)
  have "hlog_wf H t"
    unfolding hlog_wf_def
  proof (intro conjI)
    show "\<forall>h \<in> set H. handle (log_dev t) t (fst h) (snd h)"
    proof
      fix h assume "h \<in> set H"
      then have "snd h \<noteq> b" "handle ?d s (fst h) (snd h)"
        using nb [of "fst h"] W(10) [of "fst h" "snd h"] by (cases h; auto)+
      then show "handle (log_dev t) t (fst h) (snd h)" using L by (simp add: lstep_def)
    qed
    have "b \<notin> snd ` set H" using nb by force
    then show "\<forall>c. busy (log_dev t) t c \<longleftrightarrow> c \<in> snd ` set H"
      "\<forall>c. pin (log_dev t) t c = of_bool (c \<in> set (logged t)) + of_bool (c \<in> snd ` set H)"
      using L W(2,8) pb by (auto simp: lstep_def)
  qed (use L W in \<open>auto simp: lstep_def\<close>)
  then show ?thesis using t(1) L by (auto simp: same_tx_def same_log_def lstep_def)
qed

lemma same_log_trans: "same_log H s t \<Longrightarrow> same_log H' t u \<Longrightarrow> same_log H' s u"
  by (simp add: same_log_def)

lemma same_tx_trans: "same_tx H s t \<Longrightarrow> same_tx H' t u \<Longrightarrow> same_tx H' s u"
  by (simp add: same_tx_def same_log_def)

lemma same_tx_tx: "same_tx H s t \<Longrightarrow> tx H' t u b v \<Longrightarrow> tx H' s u b v"
  by (simp add: same_tx_def tx_def same_log_def)

lemma tx_same_tx: "tx H s t b v \<Longrightarrow> same_tx H' t u \<Longrightarrow> tx H' s u b v"
  by (simp add: same_tx_def tx_def same_log_def)

text \<open>A transaction that may log \<open>k\<close> more blocks while \<open>H\<close> are held.\<close>

definition in_tx :: "(nat \<times> u32) list \<Rightarrow> nat \<Rightarrow> 'x klog_scheme \<Rightarrow> bool" where
  "in_tx H k s \<longleftrightarrow> hlog_wf H s \<and> 1 \<le> log_outstanding s \<and> lhn s + int (k + length H) \<le> int LOGBLOCKS"

lemma in_tx_wf: "in_tx H k s \<Longrightarrow> hlog_wf H s" by (simp add: in_tx_def)

lemma in_tx_le: "in_tx H k s \<Longrightarrow> j \<le> k \<Longrightarrow> in_tx H j s" by (simp add: in_tx_def)

lemma tx_in_tx:
  assumes "in_tx H (Suc k) s" "tx H s t b v" shows "in_tx H k t"
  using assms hlog_wfD(9) [of H s] hlog_wfD(9) [of H t] by (auto simp: in_tx_def tx_def same_log_def)

lemma same_tx_in_tx: "in_tx H k s \<Longrightarrow> same_tx H' s t \<Longrightarrow> k' + length H' \<le> k + length H \<Longrightarrow> in_tx H' k' t"
  using hlog_wfD(9) [of H s] hlog_wfD(9) [of H' t] by (auto simp: in_tx_def same_tx_def same_log_def)

text \<open>Looking at a block, and changing one.\<close>

lemma block_access:
  fixes s :: "'x klog_scheme"
  assumes w: "in_tx H (Suc k) s" and b: "b \<notin> snd ` set H"
  obtains i t where "bread (log_dev s) b s = Ok i t" "in_tx ((i, b) # H) k t" "bdata (bufs t ! i) = blk (log_dev s) s b"
    "same_tx ((i, b) # H) s t" "\<exists>u. brelse i t = Ok () u \<and> same_tx H s u"
proof -
  from bread_held [OF in_tx_wf [OF w] _ b] w obtain i t
    where t: "bread (log_dev s) b s = Ok i t" "bdata (bufs t ! i) = blk (log_dev s) s b" "same_tx ((i, b) # H) s t"
    by (auto simp: in_tx_def)
  have "hlog_wf ((i, b) # H) t" using t(3) by (simp add: same_tx_def same_log_def)
  from brelse_held [OF this] obtain u where "brelse i t = Ok () u" "same_tx H t u" by blast
  moreover have "in_tx ((i, b) # H) k t" using same_tx_in_tx [OF w t(3)] by simp
  ultimately show ?thesis using that t same_tx_trans [OF t(3)] by blast
qed

lemma block_update:
  fixes s :: "'x klog_scheme"
  assumes w: "in_tx ((i, b) # H) k t" and t: "same_tx ((i, b) # H) s t" and r: "b \<notin> log_region (log_start s)" and v: "length v = BSIZE"
  shows "\<exists>u z. log_write i (set_bdata i v t) = Ok () u \<and> brelse i u = Ok () z \<and> tx H s z b v"
proof -
  have st: "log_start t = log_start s" using t by (simp add: same_tx_def same_log_def)
  from write_held [OF in_tx_wf [OF w]] obtain u where u: "log_write i (set_bdata i v t) = Ok () u" "tx ((i, b) # H) t u b v"
    using w r v st by (auto simp: in_tx_def)
  have "hlog_wf ((i, b) # H) u" using u(2) by (simp add: tx_def same_log_def)
  from brelse_held [OF this] obtain z where z: "brelse i u = Ok () z" "same_tx H u z" by blast
  show ?thesis using u(1) z(1) same_tx_tx [OF t tx_same_tx [OF u(2) z(2)]] by blast
qed

section \<open>The bitmap as a set\<close>

lemma more_fs:
  assumes "klog.more t = klog.more (s :: 'x kfs_scheme)"
  shows "fsb t = fsb s" "itable t = itable s"
  using assms by (cases s; cases t; simp)+

lemma bit_clear_bit: "bit_clear d bi \<longleftrightarrow> \<not> bit (d ! (bi div 8)) (bi mod 8)"
proof -
  have "(w AND push_bit k 1 = 0) = (\<not> bit w k)" if "k < 8" for w :: u8 and k
  proof
    assume z: "w AND push_bit k 1 = 0"
    have "bit (w AND push_bit k 1) k = bit w k" using that by (simp add: bit_simps)
    then show "\<not> bit w k" unfolding z by simp
  next
    assume "\<not> bit w k"
    then show "w AND push_bit k 1 = 0" by (intro bit_word_eqI) (auto simp: bit_simps)
  qed
  then show ?thesis by (simp add: bit_clear_def bit_mask_def)
qed

lemma bit_set_clear:
  assumes "length d = BSIZE" "bi < BPB" "bj < BPB"
  shows "bit_clear (d[bi div 8 := d ! (bi div 8) OR bit_mask bi]) bj \<longleftrightarrow> bit_clear d bj \<and> bj \<noteq> bi"
    "bit_clear (d[bi div 8 := d ! (bi div 8) AND NOT (bit_mask bi)]) bj \<longleftrightarrow> bit_clear d bj \<or> bj = bi"
proof -
  have l: "bi div 8 < length d" "bj div 8 < length d" using assms by (simp_all add: BPB_def BSIZE_def)
  have eq: "bj = bi \<longleftrightarrow> bj div 8 = bi div 8 \<and> bj mod 8 = bi mod 8" by (metis div_mult_mod_eq)
  show "bit_clear (d[bi div 8 := d ! (bi div 8) OR bit_mask bi]) bj \<longleftrightarrow> bit_clear d bj \<and> bj \<noteq> bi"
    "bit_clear (d[bi div 8 := d ! (bi div 8) AND NOT (bit_mask bi)]) bj \<longleftrightarrow> bit_clear d bj \<or> bj = bi"
    unfolding bit_clear_bit eq using l
    by (auto simp: nth_list_update bit_mask_def bit_simps)
qed

definition used :: "'x kfs_scheme \<Rightarrow> nat \<Rightarrow> bool" where
  "used s n \<longleftrightarrow> \<not> bit_clear (blk (log_dev s) s (BBLOCK (of_nat n) (fsb s))) (n mod BPB)"

definition fs_size :: "'x kfs_scheme \<Rightarrow> nat" where "fs_size s = unat (sb_size (fsb s))"

text \<open>What the layout of the disk gives: the blocks of log and bitmap are apart and not free.\<close>

definition fs_meta :: "'x kfs_scheme \<Rightarrow> bool" where
  "fs_meta s \<longleftrightarrow> (\<forall>n<fs_size s. BBLOCK (of_nat n) (fsb s) \<notin> log_region (log_start s)) \<and>
     (\<forall>n<fs_size s. of_nat n \<in> log_region (log_start s) \<longrightarrow> used s n) \<and>
     (\<forall>n<fs_size s. \<forall>m<fs_size s. (of_nat n :: u32) = BBLOCK (of_nat m) (fsb s) \<longrightarrow> used s n)"

lemma fs_size_bound: "fs_size s < 2 ^ 32"
  using unsigned_less [of "sb_size (fsb s)"] by (simp add: fs_size_def)

lemma BBLOCK_group:
  assumes "bi < BPB" "k * BPB + bi < 2 ^ 32"
  shows "BBLOCK (of_nat (k * BPB + bi)) sb = BBLOCK (of_nat (k * BPB)) sb" "(k * BPB + bi) mod BPB = bi"
proof -
  have B: "BPB = 8192" by (simp add: BPB_def BSIZE_def)
  have "unat (of_nat n :: u32) = n" if "n < 2 ^ 32" for n
    using that by (simp add: unsigned_of_nat take_bit_nat_eq_self)
  from this [of "k * BPB + bi"] this [of "k * BPB"] assms(2)
  have u: "unat (of_nat (k * BPB + bi) :: u32) = k * BPB + bi" "unat (of_nat (k * BPB) :: u32) = k * BPB" by auto
  have "unat ((of_nat (k * BPB + bi) :: u32) div of_nat BPB) = unat ((of_nat (k * BPB) :: u32) div of_nat BPB)"
    unfolding unat_div u using assms(1) by (simp add: B)
  then show "BBLOCK (of_nat (k * BPB + bi)) sb = BBLOCK (of_nat (k * BPB)) sb"
    unfolding word_unat_eq_iff [symmetric] BBLOCK_def by (rule arg_cong)
  show "(k * BPB + bi) mod BPB = bi" using assms(1) by simp
qed

lemma bzero_tx:
  fixes s :: "'x kfs_scheme"
  assumes "in_tx H (Suc k) s" "b \<notin> log_region (log_start s)" "b \<notin> snd ` set H"
  shows "\<exists>t. bzero (log_dev s) b s = Ok () t \<and> tx H s t b (replicate BSIZE 0)"
proof -
  obtain i t where t: "bread (log_dev s) b s = Ok i t" "in_tx ((i, b) # H) k t" "same_tx ((i, b) # H) s t"
    by (rule block_access [OF assms(1,3)])
  from block_update [OF t(2,3) assms(2), of "replicate BSIZE 0"] t(1) show ?thesis
    by (auto simp: bzero_def)
qed

text \<open>The held buffers are of blocks in use, none of them of the bitmap.\<close>

definition held_used :: "(nat \<times> u32) list \<Rightarrow> 'x kfs_scheme \<Rightarrow> bool" where
  "held_used H s \<longleftrightarrow> (\<forall>n<fs_size s. BBLOCK (of_nat n) (fsb s) \<notin> snd ` set H \<and> (of_nat n \<in> snd ` set H \<longrightarrow> used s n))"

lemma held_used_Nil [simp]: "held_used [] s" by (simp add: held_used_def)

text \<open>Block \<open>n\<close> was free and is now taken and zeroed; at most two blocks have been logged.\<close>

definition taken :: "(nat \<times> u32) list \<Rightarrow> nat \<Rightarrow> 'x kfs_scheme \<Rightarrow> 'x kfs_scheme \<Rightarrow> bool" where
  "taken H n s t \<longleftrightarrow> n < fs_size s \<and> \<not> used s n \<and> (\<forall>m<fs_size s. used t m \<longleftrightarrow> used s m \<or> m = n) \<and>
     (\<forall>b. b \<noteq> BBLOCK (of_nat n) (fsb s) \<longrightarrow>
        blk (log_dev s) t b = (if b = of_nat n then replicate BSIZE 0 else blk (log_dev s) s b)) \<and>
     same_log H s t \<and> length (logged t) \<le> length (logged s) + 2"

lemma of_nat_fs_inj: "n < fs_size s \<Longrightarrow> m < fs_size s \<Longrightarrow> (of_nat n :: u32) = of_nat m \<Longrightarrow> n = m"
  using of_nat_inj32 [of n m] fs_size_bound [of s] by simp

text \<open>Setting a bit and zeroing its block takes the block.\<close>

lemma mark_used:
  assumes w: "hlog_wf H s" and t: "tx H s t (BBLOCK (of_nat n) (fsb s)) (d[bi div 8 := d ! (bi div 8) OR bit_mask bi])"
    and d: "d = blk (log_dev s) s (BBLOCK (of_nat n) (fsb s))" and n: "n < fs_size s" "bi = n mod BPB" and free: "\<not> used s n"
  shows "used t m \<longleftrightarrow> used s m \<or> BBLOCK (of_nat m) (fsb s) = BBLOCK (of_nat n) (fsb s) \<and> m mod BPB = bi"
proof -
  have B: "0 < BPB" by (simp add: BPB_def BSIZE_def)
  have len: "length d = BSIZE" using blk_size [OF w] by (simp add: d)
  have f: "fsb t = fsb s" "log_dev t = log_dev s" using t more_fs(1) by (auto simp: tx_def same_log_def)
  show ?thesis
    using t bit_set_clear(1) [OF len, of bi "m mod BPB"] B n(2)
    by (auto simp: used_def f tx_def d)
qed

lemma BBLOCK_bit_inj:
  assumes "m < fs_size s" "n < fs_size s" "BBLOCK (of_nat m) (fsb s) = BBLOCK (of_nat n) (fsb s)" "m mod BPB = n mod BPB"
  shows "m = n"
proof -
  have B: "BPB = 8192" by (simp add: BPB_def BSIZE_def)
  have u: "unat (of_nat k :: u32) = k" if "k < fs_size s" for k
    using that fs_size_bound [of s] by (simp add: unsigned_of_nat take_bit_nat_eq_self)
  have "(of_nat m :: u32) div of_nat BPB = of_nat n div of_nat BPB" using assms(3) by (simp add: BBLOCK_def)
  then have "unat ((of_nat m :: u32) div of_nat BPB) = unat ((of_nat n :: u32) div of_nat BPB)" by simp
  then have "m div BPB = n div BPB" unfolding unat_div u [OF assms(1)] u [OF assms(2)] by (simp add: B)
  then show ?thesis using assms(4) by (metis div_mult_mod_eq)
qed

lemma take_block:
  assumes s: "in_tx H 2 s" "fs_meta s" and n: "n < fs_size s" "\<not> used s n"
    and d: "d = blk (log_dev s) s (BBLOCK (of_nat n) (fsb s))" and bi: "bi = n mod BPB"
    and t: "tx H s t (BBLOCK (of_nat n) (fsb s)) (d[bi div 8 := d ! (bi div 8) OR bit_mask bi])"
  shows "of_nat n \<notin> log_region (log_start t)" "tx H t u (of_nat n) (replicate BSIZE 0) \<Longrightarrow> taken H n s u"
proof -
  note w = in_tx_wf [OF s(1)]
  have "fsb t = fsb s" using t by (intro more_fs) (simp add: tx_def same_log_def)
  then have T: "fsb t = fsb s" "log_dev t = log_dev s" "log_start t = log_start s" "fs_size t = fs_size s" "same_log H s t"
    using t by (simp_all add: tx_def same_log_def fs_size_def)
  show "of_nat n \<notin> log_region (log_start t)" using s(2) n by (auto simp: fs_meta_def T)
  assume u: "tx H t u (of_nat n) (replicate BSIZE 0)"
  have U: "fsb u = fsb s" "log_dev u = log_dev s" "same_log H s u"
    using u T more_fs(1) same_log_trans [OF T(5)] by (auto simp: tx_def same_log_def)
  have ne: "of_nat n \<noteq> BBLOCK (of_nat m) (fsb s)" if "m < fs_size s" for m
    using s(2) n that by (auto simp: fs_meta_def)
  have "used u m = used t m" if "m < fs_size s" for m
    using u ne [OF that] by (simp add: used_def U T tx_def)
  moreover have "used t m \<longleftrightarrow> used s m \<or> m = n" if "m < fs_size s" for m
    unfolding mark_used [OF w t d n(1) bi n(2)] using BBLOCK_bit_inj [OF that n(1)] bi by auto
  moreover have "length (logged u) \<le> length (logged s) + 2"
    using t u by (auto simp: tx_def split: if_splits)
  ultimately show "taken H n s u"
    using n t u U(3) T by (auto simp: taken_def tx_def)
qed

lemma balloc_group_spec:
  fixes s :: "'x kfs_scheme"
  assumes s: "in_tx H 2 s" "fs_meta s" "held_used H s" and b: "b = k * BPB" "b < fs_size s"
  shows "(\<exists>t. balloc_group (log_dev s) b s = Ok None t \<and> same_tx H s t \<and> (\<forall>n. b \<le> n \<and> n < b + BPB \<and> n < fs_size s \<longrightarrow> used s n)) \<or>
    (\<exists>n t. balloc_group (log_dev s) b s = Ok (Some (of_nat n)) t \<and> taken H n s t)"
proof -
  let ?d = "log_dev s" and ?bb = "BBLOCK (of_nat b) (fsb s)"
  let ?data = "blk ?d s ?bb"
  have s1: "in_tx H (Suc 1) s" using s(1) by (simp add: numeral_2_eq_2)
  have nh: "?bb \<notin> snd ` set H" using s(3) b(2) by (simp add: held_used_def)
  have grp: "BBLOCK (of_nat (b + bi)) (fsb s) = ?bb" "(b + bi) mod BPB = bi" if "bi < BPB" "b + bi < fs_size s" for bi
    using BBLOCK_group [of bi k] that fs_size_bound [of s] b(1) by auto
  obtain i t where t: "bread ?d ?bb s = Ok i t" "in_tx ((i, ?bb) # H) 1 t" "buf_data t i = ?data" "same_tx ((i, ?bb) # H) s t"
    and r: "\<exists>u. brelse i t = Ok () u \<and> same_tx H s u"
    by (rule block_access [OF s1 nh])
  have f: "fsb t = fsb s" using t(4) more_fs(1) by (auto simp: same_tx_def same_log_def)
  let ?F = "find (bit_clear ?data) [0..<min BPB (unat (sb_size (fsb s)) - b)]"
  show ?thesis
  proof (cases ?F)
    case None
    have "used s n" if "b \<le> n" "n < b + BPB" "n < fs_size s" for n
    proof -
      have "n - b < min BPB (fs_size s - b)" using that by linarith
      then have "\<not> bit_clear ?data (n - b)" using None by (auto simp: find_None_iff fs_size_def)
      then show ?thesis using grp [of "n - b"] that by (simp add: used_def)
    qed
    moreover obtain u where "brelse i t = Ok () u" "same_tx H s u" using r by blast
    ultimately show ?thesis using None t(1,3) f by (simp add: balloc_group_def)
  next
    case (Some bi)
    then have bi: "bi < BPB" "b + bi < fs_size s" "bit_clear ?data bi" by (auto simp: find_Some_iff fs_size_def)
    note G = grp [OF bi(1,2)]
    have free: "\<not> used s (b + bi)" using bi(3) G by (simp add: used_def)
    let ?v = "?data[bi div 8 := ?data ! (bi div 8) OR bit_mask bi]"
    have "length ?v = BSIZE" using blk_size [OF in_tx_wf [OF s(1)]] by simp
    moreover have "?bb \<notin> log_region (log_start s)" using s(2) bi(2) G(1) by (auto simp: fs_meta_def)
    ultimately obtain u z where z: "log_write i (set_bdata i ?v t) = Ok () u" "brelse i u = Ok () z" "tx H s z ?bb ?v"
      using block_update [OF t(2,4)] by blast
    have zz: "tx H s z (BBLOCK (of_nat (b + bi)) (fsb s)) ?v" using z(3) G(1) by simp
    have e: "?data = blk ?d s (BBLOCK (of_nat (b + bi)) (fsb s))" "bi = (b + bi) mod BPB" unfolding G by simp_all
    note K = take_block [OF s(1,2) bi(2) free e zz]
    have "in_tx H (Suc 0) z" using tx_in_tx [OF _ z(3)] s1 by simp
    moreover have "of_nat (b + bi) \<notin> snd ` set H" using s(3) bi(2) free unfolding held_used_def by blast
    ultimately obtain y
      where y: "bzero (log_dev z) (of_nat (b + bi)) z = Ok () y" "tx H z y (of_nat (b + bi)) (replicate BSIZE 0)" using bzero_tx [OF _ K(1)] by blast
    have "log_dev z = ?d" using z(3) by (simp add: tx_def same_log_def)
    then have "balloc_group ?d b s = Ok (Some (of_nat (b + bi))) y"
      using t(1,3) Some z(1,2) y(1) f by (simp add: balloc_group_def Let_def)
    moreover have "taken H (b + bi) s y" by (rule K(2) [OF y(2)])
    ultimately show ?thesis by blast
  qed
qed

lemma same_tx_fs:
  assumes "same_tx H s t" "fs_meta s"
  shows "fs_meta t" "used t = used s" "fs_size t = fs_size s" "log_dev t = log_dev s" "taken H' n t u \<Longrightarrow> taken H' n s u"
    "same_tx H' t u' \<Longrightarrow> same_tx H' s u'" "fsb t = fsb s" "held_used H' t = held_used H' s"
proof -
  show f: "fsb t = fsb s" using assms(1) by (intro more_fs) (simp add: same_tx_def same_log_def)
  then show z: "fs_size t = fs_size s" by (simp add: fs_size_def)
  show d: "log_dev t = log_dev s" using assms(1) by (simp add: same_tx_def same_log_def)
  then show us: "used t = used s" using assms(1) f by (simp add: fun_eq_iff used_def same_tx_def)
  have st: "log_start t = log_start s" using assms(1) by (simp add: same_tx_def same_log_def)
  show "fs_meta t" using assms(2) by (simp add: fs_meta_def f z us st)
  show "held_used H' t = held_used H' s" by (simp add: held_used_def f z us)
  show "taken H' n t u \<Longrightarrow> taken H' n s u"
    using assms(1) by (auto simp: taken_def f z us d same_tx_def same_log_def)
  show "same_tx H' t u' \<Longrightarrow> same_tx H' s u'" using assms(1) by (auto simp: same_tx_def same_log_def)
qed

lemma scan_groups:
  fixes s :: "'x kfs_scheme"
  assumes "in_tx H 2 s" "fs_meta s" "held_used H s" "\<forall>k \<in> set ks. k * BPB < fs_size s"
  shows "(\<exists>t. scan (balloc_group (log_dev s)) (map (\<lambda>k. k * BPB) ks) s = Ok None t \<and> same_tx H s t \<and>
      (\<forall>k \<in> set ks. \<forall>n. k * BPB \<le> n \<and> n < k * BPB + BPB \<and> n < fs_size s \<longrightarrow> used s n)) \<or>
    (\<exists>n t. scan (balloc_group (log_dev s)) (map (\<lambda>k. k * BPB) ks) s = Ok (Some (of_nat n)) t \<and> taken H n s t)"
  using assms
proof (induction ks arbitrary: s)
  case Nil
  then have "same_tx H s s" by (simp add: same_tx_def same_log_def in_tx_def)
  then show ?case by auto
next
  case (Cons k ks)
  from balloc_group_spec [OF Cons.prems(1-3) refl, of k] Cons.prems(4)
  consider (full) t where "balloc_group (log_dev s) (k * BPB) s = Ok None t" "same_tx H s t"
      "\<forall>n. k * BPB \<le> n \<and> n < k * BPB + BPB \<and> n < fs_size s \<longrightarrow> used s n"
    | (found) n t where "balloc_group (log_dev s) (k * BPB) s = Ok (Some (of_nat n)) t" "taken H n s t"
    by auto
  then show ?case
  proof cases
    case full
    note F = same_tx_fs [OF full(2) Cons.prems(2)]
    have "\<forall>k \<in> set ks. k * BPB < fs_size t" using Cons.prems(4) F(3) by simp
    from Cons.IH [OF same_tx_in_tx [OF Cons.prems(1) full(2) order_refl] F(1) _ this]
    have "(\<exists>u. scan (balloc_group (log_dev s)) (map (\<lambda>k. k * BPB) ks) t = Ok None u \<and> same_tx H t u \<and>
          (\<forall>k \<in> set ks. \<forall>n. k * BPB \<le> n \<and> n < k * BPB + BPB \<and> n < fs_size s \<longrightarrow> used s n)) \<or>
        (\<exists>n u. scan (balloc_group (log_dev s)) (map (\<lambda>k. k * BPB) ks) t = Ok (Some (of_nat n)) u \<and> taken H n t u)"
      using F(8) Cons.prems(3) unfolding F(2-4) by blast
    then show ?thesis
    proof (elim disjE exE conjE)
      fix u
      assume "scan (balloc_group (log_dev s)) (map (\<lambda>k. k * BPB) ks) t = Ok None u" "same_tx H t u"
        "\<forall>k \<in> set ks. \<forall>n. k * BPB \<le> n \<and> n < k * BPB + BPB \<and> n < fs_size s \<longrightarrow> used s n"
      then show ?thesis using full(1,3) F(6) by (intro disjI1 exI [of _ u]) simp
    next
      fix n u
      assume "scan (balloc_group (log_dev s)) (map (\<lambda>k. k * BPB) ks) t = Ok (Some (of_nat n)) u" "taken H n t u"
      then show ?thesis using full(1) F(5) by (intro disjI2 exI [of _ n] exI [of _ u]) simp
    qed
  next
    case found
    then show ?thesis by auto
  qed
qed

lemma blocks_in_groups:
  "n < z \<Longrightarrow> n div BPB < (z + BPB - 1) div BPB" "k < (z + BPB - 1) div BPB \<Longrightarrow> k * BPB < z"
proof -
  have B: "0 < BPB" by (simp add: BPB_def BSIZE_def)
  assume "n < z"
  then have "(n + BPB) div BPB \<le> (z + BPB - 1) div BPB" by (intro div_le_mono) simp
  moreover have "(n + BPB) div BPB = Suc (n div BPB)" using B by (simp add: div_add_self2)
  ultimately show "n div BPB < (z + BPB - 1) div BPB" by linarith
next
  have B: "0 < BPB" by (simp add: BPB_def BSIZE_def)
  assume "k < (z + BPB - 1) div BPB"
  then have "Suc k * BPB \<le> z + BPB - 1" using B by (simp only: Suc_le_eq less_eq_div_iff_mult_less_eq [symmetric])
  then show "k * BPB < z" using B by simp
qed

lemma kprint_log:
  "lhn (kprint m t) = lhn t" "log_outstanding (kprint m t) = log_outstanding t"
  "log_committing (kprint m t) = log_committing t" "klog.more (kprint m t) = klog.more t"
  "handle d (kprint m t) i b = handle d t i b"
  by (simp_all add: kprint_def handle_def cached_def holds_def mypid_def split: option.split)

lemma same_tx_kprint: "same_tx H s t \<Longrightarrow> same_tx H s (kprint m t)"
proof -
  have "logged (kprint m t) = logged t" by (simp add: logged_def kprint_views kprint_log)
  moreover from this have "hlog_wf H (kprint m t) = hlog_wf H t" by (simp add: hlog_wf_def kprint_views kprint_log)
  ultimately show "same_tx H s t \<Longrightarrow> same_tx H s (kprint m t)"
    by (simp add: same_tx_def same_log_def kprint_views kprint_log)
qed

lemma balloc_spec:
  fixes s :: "'x kfs_scheme"
  assumes "in_tx H 2 s" "fs_meta s" "held_used H s"
  shows "(\<exists>t. balloc (log_dev s) s = Ok 0 t \<and> (\<forall>n<fs_size s. used s n) \<and> same_tx H s t) \<or>
    (\<exists>n t. balloc (log_dev s) s = Ok (of_nat n) t \<and> taken H n s t)"
proof -
  let ?ks = "[0..<(fs_size s + BPB - 1) div BPB]"
  have "\<forall>k \<in> set ?ks. k * BPB < fs_size s" using blocks_in_groups(2) by auto
  from scan_groups [OF assms this]
  consider (full) t where "scan (balloc_group (log_dev s)) (map (\<lambda>k. k * BPB) ?ks) s = Ok None t" "same_tx H s t"
      "\<forall>k \<in> set ?ks. \<forall>n. k * BPB \<le> n \<and> n < k * BPB + BPB \<and> n < fs_size s \<longrightarrow> used s n"
    | (found) n t where "scan (balloc_group (log_dev s)) (map (\<lambda>k. k * BPB) ?ks) s = Ok (Some (of_nat n)) t" "taken H n s t"
    by blast
  then show ?thesis
  proof cases
    case full
    have "used s n" if "n < fs_size s" for n
    proof -
      have "n div BPB \<in> set ?ks" using blocks_in_groups(1) [OF that] by simp
      moreover have "n div BPB * BPB \<le> n" "n < n div BPB * BPB + BPB"
        by (simp_all add: BPB_def BSIZE_def) 
      ultimately show ?thesis using full(3) that by blast
    qed
    then have u: "\<forall>n<fs_size s. used s n" by blast
    obtain m where m: "vformat kdigits (''balloc: out of blocks'' @ [CHR 0x0A]) [] = Some m"
      by (simp add: vformat.simps(2))
    have q: "quiet t" using full(2) hlog_wfD(1) [of H t] by (auto simp: same_tx_def same_log_def dest: bio_okD)
    then have "balloc (log_dev s) s = Ok 0 (kprint m t)"
      using full(1) printf_quiet [OF q m] by (simp add: balloc_def fs_size_def)
    then show ?thesis using u same_tx_kprint [OF full(2)] by blast
  next
    case found
    then show ?thesis by (auto simp: balloc_def fs_size_def)
  qed
qed

text \<open>Block \<open>n\<close> is free again; no other block has changed.\<close>

definition given_back :: "(nat \<times> u32) list \<Rightarrow> nat \<Rightarrow> 'x kfs_scheme \<Rightarrow> 'x kfs_scheme \<Rightarrow> bool" where
  "given_back H n s t \<longleftrightarrow> (\<forall>m<fs_size s. used t m \<longleftrightarrow> used s m \<and> m \<noteq> n) \<and>
     (\<forall>b. b \<noteq> BBLOCK (of_nat n) (fsb s) \<longrightarrow> blk (log_dev s) t b = blk (log_dev s) s b) \<and>
     same_log H s t \<and> length (logged t) \<le> length (logged s) + 1"

lemma bfree_spec:
  fixes s :: "'x kfs_scheme"
  assumes s: "in_tx H 1 s" "fs_meta s" "held_used H s" and n: "n < fs_size s"
  shows "used s n \<Longrightarrow> \<exists>t. bfree (log_dev s) (of_nat n) s = Ok () t \<and> given_back H n s t"
    "\<not> used s n \<Longrightarrow> bfree (log_dev s) (of_nat n) s = Panic ''freeing free block''"
proof -
  let ?d = "log_dev s" and ?bb = "BBLOCK (of_nat n) (fsb s)" and ?bi = "n mod BPB"
  let ?data = "blk ?d s ?bb"
  have nh: "?bb \<notin> snd ` set H" using s(3) n by (simp add: held_used_def)
  have B: "0 < BPB" by (simp add: BPB_def BSIZE_def)
  have un: "unat (of_nat n :: u32) mod BPB = ?bi"
    using n fs_size_bound [of s] by (simp add: unsigned_of_nat take_bit_nat_eq_self)
  obtain i t where t: "bread ?d ?bb s = Ok i t" "in_tx ((i, ?bb) # H) 0 t" "buf_data t i = ?data" "same_tx ((i, ?bb) # H) s t"
    by (rule block_access [OF s(1) [unfolded One_nat_def] nh])
  show "\<not> used s n \<Longrightarrow> bfree (log_dev s) (of_nat n) s = Panic ''freeing free block''"
    using t(1,3) un by (simp add: bfree_def used_def)
  assume u: "used s n"
  let ?v = "?data[?bi div 8 := ?data ! (?bi div 8) AND NOT (bit_mask ?bi)]"
  have len: "length ?data = BSIZE" using blk_size [OF in_tx_wf [OF s(1)]] by simp
  have "?bb \<notin> log_region (log_start s)" using s(2) n by (auto simp: fs_meta_def)
  then obtain y z where z: "log_write i (set_bdata i ?v t) = Ok () y" "brelse i y = Ok () z" "tx H s z ?bb ?v"
    using block_update [OF t(2,4), of ?v] len by auto
  have f: "fsb z = fsb s" "log_dev z = ?d" using z(3) more_fs(1) by (auto simp: tx_def same_log_def)
  have "used z m \<longleftrightarrow> used s m \<and> m \<noteq> n" if m: "m < fs_size s" for m
  proof (cases "BBLOCK (of_nat m) (fsb s) = ?bb")
    case True
    have "m mod BPB = ?bi \<longleftrightarrow> m = n" using BBLOCK_bit_inj [OF m n True] by auto
    then show ?thesis
      using bit_set_clear(2) [OF len, of ?bi "m mod BPB"] B True z(3) by (simp add: used_def f tx_def)
  next
    case False
    then show ?thesis using z(3) by (auto simp: used_def f tx_def)
  qed
  then have "given_back H n s z" using z(3) by (auto simp: given_back_def tx_def)
  moreover have "bfree ?d (of_nat n) s = Ok () z" using t(1,3) un z(1,2) u by (simp add: bfree_def used_def Let_def)
  ultimately show "\<exists>t. bfree (log_dev s) (of_nat n) s = Ok () t \<and> given_back H n s t" by blast
qed

section \<open>Properties\<close>

text \<open>C11. Inside a transaction, whatever buffers of blocks in use the caller holds, balloc returns a block that was free, marks exactly that block used
  and zeroes it, changing no other block but the one of the bitmap it is in, all of it in the log
  only; or it returns 0, every block of the file system being in use, and changes nothing.\<close>

theorem balloc_takes_free_block:
  fixes s :: "'x kfs_scheme"
  assumes "in_tx H 2 s" "fs_meta s" "held_used H s"
  shows "(\<exists>t. balloc (log_dev s) s = Ok 0 t \<and> (\<forall>n<fs_size s. used s n) \<and> same_tx H s t) \<or>
    (\<exists>n t. balloc (log_dev s) s = Ok (of_nat n) t \<and> taken H n s t)"
  by (rule balloc_spec) (rule assms)+

text \<open>C19. Inside a transaction, whatever buffers of blocks in use the caller holds, bfree of a used block marks exactly that block free and changes no
  block but the one of the bitmap it is in; of a free block it panics.\<close>

theorem bfree_gives_back:
  fixes s :: "'x kfs_scheme"
  assumes "in_tx H 1 s" "fs_meta s" "held_used H s" "n < fs_size s"
  shows "(\<exists>t. bfree (log_dev s) (of_nat n) s = Ok () t \<and> used s n \<and> given_back H n s t) \<or>
    bfree (log_dev s) (of_nat n) s = Panic ''freeing free block'' \<and> \<not> used s n"
  using bfree_spec [OF assms] by blast

text \<open>A file system of 2000 blocks of which the first 48 are in use, in a transaction; block 47 holds \<open>v\<close>.\<close>

definition disk_on :: "u8 list \<Rightarrow> u32 \<Rightarrow> u8 list" where
  "disk_on v b = (if b = 46 then replicate 6 0xFF @ replicate 1018 0 else if b = 47 then v else replicate 1024 0)"

definition kfs_on :: "u8 list \<Rightarrow> kfs" where
  "kfs_on v = klog.extend ((klog_n 0)\<lparr>log_outstanding := 1, disk := disk_on v\<rparr>)
     \<lparr>fsb = \<lparr>sb_magic = FSMAGIC, sb_size = 2000, sb_nblocks = 1953, sb_ninodes = 200, sb_nlog = 31, sb_logstart = 2,
        sb_inodestart = 33, sb_bmapstart = 46\<rparr>, itable = []\<rparr>"

lemma kfs_on_fields:
  "log_dev (kfs_on v) = 1" "log_start (kfs_on v) = 2" "disk (kfs_on v) = (disk_on v)" "bufs (kfs_on v) = bufs (klog_n 0)" "log_outstanding (kfs_on v) = 1"
  "lhn (kfs_on v) = 0" "fs_size (kfs_on v) = 2000" "sb_bmapstart (fsb (kfs_on v)) = 46"
  by (simp_all add: kfs_on_def klog.extend_def klog_n_fields fs_size_def)

lemma kfs_on_cached: "\<not> cached 1 (kfs_on v) i b"
  using klog_n_fields(4) [of i 0] by (auto simp: cached_def kfs_on_fields klog_n_fields(5) buf_unused_def)

lemma kfs_on_blk: "blk 1 (kfs_on v) b = (disk_on v) b"
proof -
  have "buf_of 1 (kfs_on v) b = None" using kfs_on_cached by (auto simp: buf_of_None_iff)
  then show ?thesis by (simp add: blk_def kfs_on_fields)
qed

lemma kfs_on_in_tx:
  assumes "length v = 1024" shows "in_tx [] 30 (kfs_on v)"
proof -
  have F: "blru (kfs_on v) = rev [0..<NBUF]" "slocks (kfs_on v) = (\<lambda>_. \<lparr>sl_locked = False, sl_name = [], sl_pid = 0\<rparr>)"
    "held (kfs_on v) = []" "curproc (kfs_on v) = Some 0" "length (ptable (kfs_on v)) = NPROC" "length (lhblock (kfs_on v)) = LOGBLOCKS"
    using klog_n_fields [of 0] by (simp_all add: kfs_on_def klog.extend_def)
  have B: "length (bufs (kfs_on v)) = NBUF" "i < NBUF \<Longrightarrow> bufs (kfs_on v) ! i = buf_unused" for i
    using klog_n_fields(4) [of i 0] klog_n_fields(5) [of 0] by (simp_all add: kfs_on_fields)
  have D: "disk (kfs_on v) = (disk_on v)" by (rule kfs_on_fields(3))
  have wf: "bio_wf 1 (kfs_on v)"
    unfolding bio_wf_def
    by (auto simp: kfs_on_cached B F buf_unused_def BSIZE_def D disk_on_def assms)
  have none: "buf_of 1 (kfs_on v) b = None" for b using kfs_on_cached by (auto simp: buf_of_None_iff)
  have "log_wf (kfs_on v)"
    unfolding log_wf_def
    using wf none by (auto simp: kfs_on_fields F bio_ok_def quiet_def NPROC_def logged_def pin_def busy_def)
  then show ?thesis by (simp add: in_tx_def hlog_wf_Nil kfs_on_fields LOGBLOCKS_def MAXOPBLOCKS_def)
qed

lemma kfs_on_bblock: "n < 2000 \<Longrightarrow> BBLOCK (of_nat n) (fsb (kfs_on v)) = 46"
proof -
  assume n: "n < 2000"
  have "unat (of_nat n :: u32) = n" using n by (simp add: unsigned_of_nat take_bit_nat_eq_self)
  then have "unat ((of_nat n :: u32) div of_nat BPB) = 0" using n by (simp add: unat_div BPB_def BSIZE_def)
  then have "(of_nat n :: u32) div of_nat BPB = 0" by (simp only: unat_eq_0)
  then show ?thesis by (simp add: BBLOCK_def kfs_on_fields)
qed

lemma kfs_on_used: "n < 2000 \<Longrightarrow> used (kfs_on v) n \<longleftrightarrow> n < 48"
proof -
  assume n: "n < 2000"
  have B: "n mod BPB = n" using n by (simp add: BPB_def BSIZE_def)
  have "(disk_on v) 46 ! (n div 8) = (if n < 48 then -1 else 0)"
    using n by (auto simp: disk_on_def nth_append)
  then show ?thesis
    using n by (simp add: used_def kfs_on_fields kfs_on_blk kfs_on_bblock B bit_clear_bit)
qed

lemma kfs_on_log_region: "n < 2000 \<Longrightarrow> of_nat n \<in> log_region 2 \<Longrightarrow> n < 48"
proof -
  assume n: "n < 2000" "of_nat n \<in> log_region 2"
  then obtain i where i: "i \<le> 30" "(of_nat n :: u32) = 2 + of_nat i"
    by (auto simp: log_region_def LOGBLOCKS_def MAXOPBLOCKS_def)
  then have "(of_nat n :: u32) = of_nat (2 + i)" by simp
  then have "n = 2 + i" using of_nat_inj32 [of n "2 + i"] n(1) i(1) by simp
  then show "n < 48" using i(1) by simp
qed

lemma kfs_on_meta: "fs_meta (kfs_on v)"
proof -
  have "(46 :: u32) \<notin> log_region 2" 
  proof
    assume "(46 :: u32) \<in> log_region 2"
    then obtain i where i: "i \<le> 30" "(46 :: u32) = 2 + of_nat i"
      by (auto simp: log_region_def LOGBLOCKS_def MAXOPBLOCKS_def)
    then have "(of_nat 46 :: u32) = of_nat (2 + i)" by simp
    then show False using of_nat_inj32 [of 46 "2 + i"] i(1) by simp
  qed
  moreover have "n < 48" if "n < 2000" "(of_nat n :: u32) = 46" for n
    using of_nat_inj32 [of n 46] that by simp
  ultimately show ?thesis
    unfolding fs_meta_def kfs_on_fields
    using kfs_on_bblock kfs_on_used kfs_on_log_region by auto
qed

abbreviation kfs48 :: kfs where "kfs48 \<equiv> kfs_on (replicate 1024 0)"

theorem balloc_takes_free_block_witness:
  "\<exists>n t. balloc 1 kfs48 = Ok (of_nat n) t \<and> 48 \<le> n \<and> n < 2000 \<and> used t n \<and> blk 1 t (of_nat n) = replicate BSIZE 0"
proof -
  have "\<not> (\<forall>n<fs_size kfs48. used kfs48 n)" using kfs_on_used [of 100] by (auto simp: kfs_on_fields intro!: exI [of _ 100])
  then obtain n t where n: "balloc 1 kfs48 = Ok (of_nat n) t" "taken [] n kfs48 t"
    using balloc_takes_free_block [OF in_tx_le [OF kfs_on_in_tx, of "replicate 1024 0" 2] kfs_on_meta held_used_Nil] unfolding kfs_on_fields by auto
  then have t: "n < 2000" "\<not> used kfs48 n" "used t n"
    "of_nat n \<noteq> BBLOCK (of_nat n) (fsb kfs48) \<longrightarrow> blk 1 t (of_nat n) = replicate BSIZE 0"
    by (auto simp: taken_def kfs_on_fields)
  have m: "48 \<le> n" using t(1,2) kfs_on_used by auto
  have "of_nat n \<noteq> BBLOCK (of_nat n) (fsb kfs48)"
    using of_nat_inj32 [of n 46] t(1) m by (auto simp: kfs_on_bblock)
  then show ?thesis using n t m by auto
qed

theorem bfree_gives_back_witness:
  "(\<exists>t. bfree 1 (of_nat 40) kfs48 = Ok () t \<and> \<not> used t 40) \<and> bfree 1 (of_nat 50) kfs48 = Panic ''freeing free block''"
proof -
  have tx: "in_tx [] 1 kfs48" by (rule in_tx_le [OF kfs_on_in_tx]) simp_all
  have l: "40 < fs_size kfs48" "50 < fs_size kfs48" by (simp_all add: kfs_on_fields)
  have "used kfs48 40" "\<not> used kfs48 50" by (simp_all add: kfs_on_used)
  then show ?thesis
    using bfree_gives_back [OF tx kfs_on_meta held_used_Nil l(1)] bfree_gives_back [OF tx kfs_on_meta held_used_Nil l(2)] l(1)
    unfolding kfs_on_fields(1) by (auto simp: given_back_def)
qed

end
