(* ===== verification/Fs_Data.thy ===== *)
theory Fs_Data
  imports Fs_Blocks Paths
begin

text \<open>
  The content of a file as the bytes at its offsets: the inode's direct and indirect block numbers are
  a function from block indices to blocks, by which \<^verbatim>\<open>readi\<close> finds the bytes and which \<^verbatim>\<open>bmap\<close> extends
  by blocks from the bitmap.
\<close>

section \<open>The blocks of a file\<close>

text \<open>
  The block numbers an inode gives: slots 0 to 11 the direct blocks, 12 the indirect block, from 13 on
  the entries of the indirect block; 0 means none. \<open>f\<close> is the content of the disk's blocks.
\<close>

definition slot :: "(u32 \<Rightarrow> u8 list) \<Rightarrow> inode \<Rightarrow> nat \<Rightarrow> u32" where
  "slot f ip k = (if k \<le> NDIRECT then i_addrs ip ! k
     else if i_addrs ip ! NDIRECT = 0 then 0 else get32 (f (i_addrs ip ! NDIRECT)) (4 * (k - NDIRECT - 1)))"

definition slot_of :: "nat \<Rightarrow> nat" where "slot_of n = (if n < NDIRECT then n else n + 1)"

text \<open>The byte at an offset, and a stretch of them.\<close>

definition file_byte :: "(u32 \<Rightarrow> u8 list) \<Rightarrow> inode \<Rightarrow> nat \<Rightarrow> u8" where
  "file_byte f ip j = f (slot f ip (slot_of (j div BSIZE))) ! (j mod BSIZE)"

definition file_bytes :: "(u32 \<Rightarrow> u8 list) \<Rightarrow> inode \<Rightarrow> nat \<Rightarrow> nat \<Rightarrow> u8 list" where
  "file_bytes f ip a n = map (file_byte f ip) [a..<a + n]"

text \<open>Every block from offset \<open>a\<close> on below \<open>z\<close> is there.\<close>

definition mapped :: "(u32 \<Rightarrow> u8 list) \<Rightarrow> inode \<Rightarrow> nat \<Rightarrow> bool" where
  "mapped f ip z \<longleftrightarrow> (\<forall>j<z. slot f ip (slot_of (j div BSIZE)) \<noteq> 0)"

lemma file_bytes_add: "file_bytes f ip a (m + n) = file_bytes f ip a m @ file_bytes f ip (a + m) n"
  unfolding file_bytes_def add.assoc [symmetric] upt_add_eq_append [of a "a + m" n, OF le_add1]
  by simp

lemma file_bytes_0 [simp]: "file_bytes f ip a 0 = []" by (simp add: file_bytes_def)

lemma length_file_bytes [simp]: "length (file_bytes f ip a n) = n" by (simp add: file_bytes_def)

lemma nth_file_bytes [simp]: "k < n \<Longrightarrow> file_bytes f ip a n ! k = file_byte f ip (a + k)"
  by (simp add: file_bytes_def)

text \<open>Within a block the bytes of the file are the bytes of the block.\<close>

lemma within_block:
  assumes "a mod BSIZE + k < BSIZE"
  shows "(a + k) div BSIZE = a div BSIZE" "(a + k) mod BSIZE = a mod BSIZE + k"
proof -
  have e: "a + k = a div BSIZE * BSIZE + (a mod BSIZE + k)" by simp
  have B: "0 < BSIZE" by (simp add: BSIZE_def)
  show "(a + k) div BSIZE = a div BSIZE" unfolding e div_mult_self3 [OF less_imp_neq [OF B, symmetric]] using assms by simp
  show "(a + k) mod BSIZE = a mod BSIZE + k" unfolding e mod_mult_self3 using assms by simp
qed

lemma block_bytes:
  assumes "length (f (slot f ip (slot_of (a div BSIZE)))) = BSIZE" "a mod BSIZE + m \<le> BSIZE"
  shows "sub_bytes (f (slot f ip (slot_of (a div BSIZE)))) (a mod BSIZE) m = file_bytes f ip a m"
  using assms by (intro nth_equalityI) (auto simp: sub_bytes_def file_byte_def within_block)

lemma unat_of_nat32: "n < 2 ^ 32 \<Longrightarrow> unat (of_nat n :: u32) = n"
  by (simp add: unsigned_of_nat take_bit_nat_eq_self)

section \<open>Reading\<close>

text \<open>Looking at a block needs one more buffer, whether in a transaction or not.\<close>

definition can_look :: "'x klog_scheme \<Rightarrow> bool" where
  "can_look s \<longleftrightarrow> hlog_wf [] s \<and> lhn s < int LOGBLOCKS"

lemma look_at_block:
  fixes s :: "'x klog_scheme"
  assumes "can_look s"
  obtains i t u where "bread (log_dev s) b s = Ok i t" "bdata (bufs t ! i) = blk (log_dev s) s b" "same_tx [(i, b)] s t"
    "brelse i t = Ok () u" "same_tx [] s u" "can_look u"
proof -
  have w: "hlog_wf [] s" "lhn s + int (length ([] :: (nat \<times> u32) list)) < int LOGBLOCKS" using assms by (simp_all add: can_look_def)
  from bread_held [OF w, of b] obtain i t
    where t: "bread (log_dev s) b s = Ok i t" "bdata (bufs t ! i) = blk (log_dev s) s b" "same_tx [(i, b)] s t" by auto
  have "hlog_wf [(i, b)] t" using t(3) by (simp add: same_tx_def same_log_def)
  from brelse_held [OF this] obtain u where u: "brelse i t = Ok () u" "same_tx [] t u" by blast
  note U = same_tx_trans [OF t(3) u(2)]
  have "can_look u" using U w hlog_wfD(9) [of "[]" s] hlog_wfD(9) [of "[]" u]
    by (simp add: can_look_def same_tx_def same_log_def)
  then show ?thesis using that t u(1) U by blast
qed

text \<open>Reads leave the state of the file system alone.\<close>

lemma same_tx_frame:
  assumes "same_tx H s (t :: 'x kfs_scheme)"
  shows "fsb t = fsb s" "itable t = itable s" "log_dev t = log_dev s" "log_start t = log_start s"
    "blk (log_dev s) t = blk (log_dev s) s" "hlog_wf H t"
proof -
  have m: "klog.more t = klog.more s" using assms by (simp add: same_tx_def same_log_def)
  show "fsb t = fsb s" "itable t = itable s" by (rule more_fs [OF m])+
  show "log_dev t = log_dev s" "log_start t = log_start s" "blk (log_dev s) t = blk (log_dev s) s" "hlog_wf H t"
    using assms by (simp_all add: same_tx_def same_log_def)
qed

lemma same_tx_refl: "hlog_wf H s \<Longrightarrow> same_tx H s s" by (simp add: same_tx_def same_log_def)

text \<open>\<^verbatim>\<open>bmap\<close> of a block that is there finds it.\<close>

lemma bmap_mapped:
  fixes s :: "'x kfs_scheme"
  assumes c: "can_look s" and dev: "i_dev (inode_at s i) = log_dev s" and n: "n < MAXFILE"
    and m: "slot (blk (log_dev s) s) (inode_at s i) (slot_of n) \<noteq> 0"
  shows "\<exists>t. bmap i (of_nat n) s = Ok (slot (blk (log_dev s) s) (inode_at s i) (slot_of n)) t \<and> same_tx [] s t \<and> can_look t"
proof -
  have u: "unat (of_nat n :: u32) = n" using n by (intro unat_of_nat32) (simp add: MAXFILE_def NDIRECT_def NINDIRECT_def BSIZE_def)
  show ?thesis
  proof (cases "n < NDIRECT")
    case True
    then show ?thesis using m c same_tx_refl [of "[]" s] unfolding bmap_def u
      by (simp add: slot_def slot_of_def can_look_def Let_def)
  next
    case False
    let ?ind = "i_addrs (inode_at s i) ! NDIRECT"
    have ind: "?ind \<noteq> 0" and sl: "slot (blk (log_dev s) s) (inode_at s i) (slot_of n) = get32 (blk (log_dev s) s ?ind) (4 * (n - NDIRECT))"
      using m False by (auto simp: slot_def slot_of_def split: if_splits)
    have n': "n - NDIRECT < NINDIRECT" using n False by (simp add: MAXFILE_def)
    obtain k t v where t: "bread (log_dev s) ?ind s = Ok k t" "bdata (bufs t ! k) = blk (log_dev s) s ?ind"
      "brelse k t = Ok () v" "same_tx [] s v" "can_look v" by (rule look_at_block [OF c])
    show ?thesis using t False ind n' m unfolding bmap_def u sl
      by (simp add: dev Let_def)
  qed
qed

lemma same_tx_quiet: "same_tx H s t \<Longrightarrow> quiet t"
  using hlog_wfD(1) [of H t] by (simp add: same_tx_def same_log_def bio_ok_def)

lemma copy_kernel:
  assumes "quiet s"
  shows "either_copyout (KernMem acc) xs s = Ok (0, KernMem (acc @ xs)) s"
    "either_copyin (KernMem acc) m s = Ok (0, take m acc) s"
  using assms by (auto simp: either_copyout_def either_copyin_def with_myproc_def quiet_def)

lemma readi_loop_reads:
  fixes s :: "'x kfs_scheme"
  assumes "can_look s" "i_dev (inode_at s i) = log_dev s" "off + (n - tot) \<le> MAXFILE * BSIZE" "tot \<le> n"
    "mapped (blk (log_dev s) s) (inode_at s i) (off + (n - tot))"
  shows "\<exists>t. readi_loop i (KernMem acc) off tot n s =
    Ok (int n, KernMem (acc @ file_bytes (blk (log_dev s) s) (inode_at s i) off (n - tot))) t \<and> same_tx [] s t \<and> can_look t"
  using assms
proof (induction "n - tot" arbitrary: acc off tot s rule: less_induct)
  case less
  show ?case
  proof (cases "tot < n")
    case False
    then show ?thesis using less.prems same_tx_refl [of "[]" s]
      by (subst readi_loop.simps) (simp add: can_look_def)
  next
    case True
    let ?f = "blk (log_dev s) s" and ?ip = "inode_at s i" and ?m = "min (n - tot) (BSIZE - off mod BSIZE)"
    let ?b = "slot ?f ?ip (slot_of (off div BSIZE))"
    have B: "0 < BSIZE" by (simp add: BSIZE_def)
    have b0: "?b \<noteq> 0" using less.prems(5) True by (simp add: mapped_def)
    have "off < MAXFILE * BSIZE" using less.prems(3) True by simp
    then have lt: "off div BSIZE < MAXFILE" using B by (simp add: div_less_iff_less_mult)
    obtain t where t: "bmap i (of_nat (off div BSIZE)) s = Ok ?b t" "same_tx [] s t" "can_look t"
      using bmap_mapped [OF less.prems(1,2) lt b0] by blast
    note T = same_tx_frame [OF t(2)]
    obtain k v w where v: "bread (log_dev t) ?b t = Ok k v" "bdata (bufs v ! k) = blk (log_dev t) t ?b" "same_tx [(k, ?b)] t v"
      "brelse k v = Ok () w" "same_tx [] t w" "can_look w" by (rule look_at_block [OF t(3)])
    note W = same_tx_frame [OF v(5)]
    have mm: "off mod BSIZE + ?m \<le> BSIZE" "0 < ?m" "?m \<le> n - tot" using True B mod_less_divisor [OF B, of off] by simp_all
    have cp: "sub_bytes (bdata (bufs v ! k)) (off mod BSIZE) ?m = file_bytes ?f ?ip off ?m"
      unfolding v(2) T(3,5) by (rule block_bytes [OF blk_size [where H = "[]"] mm(1)]) (use less.prems(1) in \<open>simp add: can_look_def\<close>)
    have q: "quiet v" by (rule same_tx_quiet [OF v(3)])
    have F: "blk (log_dev s) w = ?f" "inode_at w i = ?ip" "log_dev w = log_dev s" using T W by simp_all
    have step: "readi_loop i (KernMem acc) off tot n s =
      readi_loop i (KernMem (acc @ file_bytes ?f ?ip off ?m)) (off + ?m) (tot + ?m) n w"
      using t(1) v(1,4) True b0 cp copy_kernel(1) [OF q] T less.prems(2) by (subst readi_loop.simps) (simp add: Let_def)
    have "n - (tot + m) < n - tot \<and> off + m + (n - (tot + m)) = off + (n - tot) \<and> tot + m \<le> n \<and> m + (n - (tot + m)) = n - tot" if "0 < m" "m \<le> n - tot" for m
      using that by auto
    from this [OF mm(2,3)] have d: "n - (tot + ?m) < n - tot" "off + ?m + (n - (tot + ?m)) = off + (n - tot)" "tot + ?m \<le> n"
      "?m + (n - (tot + ?m)) = n - tot" by blast+
    note I = less.hyps [of "tot + ?m" w "off + ?m" "acc @ file_bytes ?f ?ip off ?m", unfolded F d(2), OF d(1) v(6) less.prems(2,3) d(3) less.prems(5)]
    have "file_bytes ?f ?ip off ?m @ file_bytes ?f ?ip (off + ?m) (n - (tot + ?m)) = file_bytes ?f ?ip off (n - tot)"
      unfolding file_bytes_add [symmetric] d(4) ..
    then have "(acc @ file_bytes ?f ?ip off ?m) @ file_bytes ?f ?ip (off + ?m) (n - (tot + ?m)) = acc @ file_bytes ?f ?ip off (n - tot)"
      by (simp only: append_assoc)
    from I [unfolded this] obtain z where z: "readi_loop i (KernMem (acc @ file_bytes ?f ?ip off ?m)) (off + ?m) (tot + ?m) n w =
        Ok (int n, KernMem (acc @ file_bytes ?f ?ip off (n - tot))) z" "same_tx [] w z" "can_look z" by blast
    have "same_tx [] s z" by (rule same_tx_trans [OF t(2) same_tx_trans [OF v(5) z(2)]])
    then show ?thesis using z(1,3) unfolding step by blast
  qed
qed

section \<open>A file and its blocks\<close>

definition NSLOT :: nat where "NSLOT = NDIRECT + 1 + NINDIRECT"

abbreviation islot :: "nat \<Rightarrow> 'x kfs_scheme \<Rightarrow> nat \<Rightarrow> u32" where
  "islot i s \<equiv> slot (blk (log_dev s) s) (itable s ! i)"

abbreviation ibyte :: "nat \<Rightarrow> 'x kfs_scheme \<Rightarrow> nat \<Rightarrow> u8" where
  "ibyte i s \<equiv> file_byte (blk (log_dev s) s) (itable s ! i)"

text \<open>A block in use that belongs to neither the log nor the bitmap.\<close>

definition fs_blk :: "'x kfs_scheme \<Rightarrow> u32 \<Rightarrow> bool" where
  "fs_blk s b \<longleftrightarrow> unat b < fs_size s \<and> used s (unat b) \<and> b \<notin> log_region (log_start s) \<and>
     (\<forall>n<fs_size s. BBLOCK (of_nat n) (fsb s) \<noteq> b)"

abbreviation own_iblock :: "nat \<Rightarrow> 'x kfs_scheme \<Rightarrow> u32" where
  "own_iblock i s \<equiv> IBLOCK (i_inum (itable s ! i)) (fsb s)"

text \<open>The blocks of the inode at table entry \<open>i\<close> are in use, all different, and not its inode block.\<close>

definition file_wf :: "nat \<Rightarrow> 'x kfs_scheme \<Rightarrow> bool" where
  "file_wf i s \<longleftrightarrow> i < length (itable s) \<and> i_dev (inode_at s i) = log_dev s \<and> length (i_addrs (inode_at s i)) = NDIRECT + 1 \<and>
     fs_meta s \<and> 0 < fs_size s \<and> used s 0 \<and> fs_blk s (own_iblock i s) \<and>
     (\<forall>k<NSLOT. islot i s k \<noteq> 0 \<longrightarrow> fs_blk s (islot i s k) \<and> islot i s k \<noteq> own_iblock i s) \<and>
     (\<forall>k<NSLOT. \<forall>l<NSLOT. islot i s k \<noteq> 0 \<and> islot i s k = islot i s l \<longrightarrow> k = l)"

definition same_fs :: "nat \<Rightarrow> 'x kfs_scheme \<Rightarrow> 'x kfs_scheme \<Rightarrow> bool" where
  "same_fs i s t \<longleftrightarrow> log_dev t = log_dev s \<and> log_start t = log_start s \<and> disk t = disk s \<and> fsb t = fsb s \<and>
     log_outstanding t = log_outstanding s \<and> log_committing t = log_committing s \<and>
     itable t = (itable s)[i := (inode_at s i)\<lparr>i_addrs := i_addrs (inode_at t i)\<rparr>]"

text \<open>
  From \<open>s\<close> to \<open>t\<close> the bytes \<open>xs\<close> have been written at offset \<open>a\<close> of the file of inode \<open>i\<close>: the file may have
  got new blocks, which were free; its other bytes and all blocks of others are as before.
\<close>

definition wrote :: "nat \<Rightarrow> 'x kfs_scheme \<Rightarrow> 'x kfs_scheme \<Rightarrow> nat \<Rightarrow> u8 list \<Rightarrow> bool" where
  "wrote i s t a xs \<longleftrightarrow> file_wf i t \<and> hlog_wf [] t \<and> same_fs i s t \<and> a + length xs \<le> MAXFILE * BSIZE \<and>
     (\<forall>m<fs_size s. used s m \<longrightarrow> used t m) \<and>
     (\<forall>k<NSLOT. islot i s k \<noteq> 0 \<longrightarrow> islot i t k = islot i s k) \<and>
     (\<forall>k<NSLOT. islot i t k = islot i s k \<or> \<not> used s (unat (islot i t k))) \<and>
     (\<forall>b. fs_blk s b \<and> (\<forall>k<NSLOT. islot i s k \<noteq> b) \<longrightarrow> blk (log_dev s) t b = blk (log_dev s) s b) \<and>
     (\<forall>j. j div BSIZE < MAXFILE \<and> islot i s (slot_of (j div BSIZE)) \<noteq> 0 \<and> \<not> (a \<le> j \<and> j < a + length xs) \<longrightarrow>
        ibyte i t j = ibyte i s j) \<and>
     (\<forall>k<length xs. islot i t (slot_of ((a + k) div BSIZE)) \<noteq> 0 \<and> ibyte i t (a + k) = xs ! k)"

lemma slot_of_less: "n < MAXFILE \<Longrightarrow> slot_of n < NSLOT" "slot_of n \<noteq> NDIRECT"
  by (auto simp: slot_of_def NSLOT_def MAXFILE_def)

lemma file_wfD:
  assumes "file_wf i s"
  shows "i < length (itable s)" "i_dev (inode_at s i) = log_dev s" "length (i_addrs (inode_at s i)) = NDIRECT + 1"
    "fs_meta s" "0 < fs_size s" "used s 0" "fs_blk s (own_iblock i s)"
    "k < NSLOT \<Longrightarrow> islot i s k \<noteq> 0 \<Longrightarrow> fs_blk s (islot i s k)" "k < NSLOT \<Longrightarrow> islot i s k \<noteq> 0 \<Longrightarrow> islot i s k \<noteq> own_iblock i s"
    "k < NSLOT \<Longrightarrow> l < NSLOT \<Longrightarrow> islot i s k \<noteq> 0 \<Longrightarrow> islot i s k = islot i s l \<Longrightarrow> k = l"
  using assms unfolding file_wf_def by blast+

lemma same_fsD:
  assumes "same_fs i s t" "i < length (itable s)"
  shows "inode_at t i = (inode_at s i)\<lparr>i_addrs := i_addrs (inode_at t i)\<rparr>" "length (itable t) = length (itable s)"
    "fs_size t = fs_size s" "own_iblock i t = own_iblock i s" "i_dev (inode_at t i) = i_dev (inode_at s i)"
    "i_size (inode_at t i) = i_size (inode_at s i)"
proof -
  have it: "itable t = (itable s)[i := (inode_at s i)\<lparr>i_addrs := i_addrs (inode_at t i)\<rparr>]" and f: "fsb t = fsb s"
    using assms(1) by (simp_all add: same_fs_def)
  from it have "itable t ! i = (itable s)[i := (inode_at s i)\<lparr>i_addrs := i_addrs (inode_at t i)\<rparr>] ! i" by (rule arg_cong)
  then show I: "inode_at t i = (inode_at s i)\<lparr>i_addrs := i_addrs (inode_at t i)\<rparr>" using assms(2) by simp
  show "length (itable t) = length (itable s)" by (subst it) simp
  show "fs_size t = fs_size s" using f by (simp add: fs_size_def)
  show "own_iblock i t = own_iblock i s" "i_dev (inode_at t i) = i_dev (inode_at s i)"
    "i_size (inode_at t i) = i_size (inode_at s i)" by (subst I, simp add: f)+
qed

lemma same_fs_trans:
  assumes "same_fs i s t" "same_fs i t u" "i < length (itable s)"
  shows "same_fs i s u"
proof -
  have I: "inode_at t i = (inode_at s i)\<lparr>i_addrs := i_addrs (inode_at t i)\<rparr>" by (rule same_fsD(1) [OF assms(1,3)])
  have it: "itable t = (itable s)[i := (inode_at s i)\<lparr>i_addrs := i_addrs (inode_at t i)\<rparr>]" using assms(1) by (simp add: same_fs_def)
  have "itable u = (itable t)[i := (inode_at t i)\<lparr>i_addrs := i_addrs (inode_at u i)\<rparr>]" using assms(2) by (simp add: same_fs_def)
  also have "\<dots> = (itable s)[i := (inode_at t i)\<lparr>i_addrs := i_addrs (inode_at u i)\<rparr>]" by (subst it) simp
  also have "(inode_at t i)\<lparr>i_addrs := i_addrs (inode_at u i)\<rparr> = (inode_at s i)\<lparr>i_addrs := i_addrs (inode_at u i)\<rparr>"
    by (subst I) simp
  finally show ?thesis using assms(1,2) by (simp add: same_fs_def)
qed

lemma fs_blk_mono:
  assumes "fs_blk s b" "fsb t = fsb s" "log_start t = log_start s" "\<forall>m<fs_size s. used s m \<longrightarrow> used t m"
  shows "fs_blk t b"
  using assms by (simp add: fs_blk_def fs_size_def)

lemma wroteD:
  assumes "wrote i s t a xs"
  shows "file_wf i t" "hlog_wf [] t" "same_fs i s t" "a + length xs \<le> MAXFILE * BSIZE"
    "m < fs_size s \<Longrightarrow> used s m \<Longrightarrow> used t m"
    "k < NSLOT \<Longrightarrow> islot i s k \<noteq> 0 \<Longrightarrow> islot i t k = islot i s k"
    "k < NSLOT \<Longrightarrow> islot i t k \<noteq> islot i s k \<Longrightarrow> \<not> used s (unat (islot i t k))"
    "fs_blk s b \<Longrightarrow> \<forall>k<NSLOT. islot i s k \<noteq> b \<Longrightarrow> blk (log_dev s) t b = blk (log_dev s) s b"
    "j div BSIZE < MAXFILE \<Longrightarrow> islot i s (slot_of (j div BSIZE)) \<noteq> 0 \<Longrightarrow> \<not> (a \<le> j \<and> j < a + length xs) \<Longrightarrow> ibyte i t j = ibyte i s j"
    "n < length xs \<Longrightarrow> islot i t (slot_of ((a + n) div BSIZE)) \<noteq> 0" "n < length xs \<Longrightarrow> ibyte i t (a + n) = xs ! n"
  using assms unfolding wrote_def by (elim conjE; blast)+

lemma div_block_less: "j < MAXFILE * BSIZE \<Longrightarrow> j div BSIZE < MAXFILE"
  by (rule less_mult_imp_div_less)

lemma wrote_trans:
  assumes 1: "wrote i s t a xs" and 2: "wrote i t u (a + length xs) ys" and w: "file_wf i s"
  shows "wrote i s u a (xs @ ys)"
proof -
  note D1 = wroteD [OF 1] and D2 = wroteD [OF 2]
  note F = same_fsD [OF D1(3) file_wfD(1) [OF w]]
  have f: "fsb t = fsb s" "log_start t = log_start s" "log_dev t = log_dev s" using D1(3) by (simp_all add: same_fs_def)
  have fu: "fs_size u = fs_size t" by (rule same_fsD(3) [OF D2(3) file_wfD(1) [OF D1(1)]])
  have bd: "a + length (xs @ ys) \<le> MAXFILE * BSIZE" using D2(4) by simp
  have um: "\<forall>m<fs_size s. used s m \<longrightarrow> used t m" using D1(5) by blast
  have new: "\<not> used s (unat (islot i u k))" if k: "k < NSLOT" "islot i u k \<noteq> islot i s k" for k
  proof (cases "islot i u k = islot i t k")
    case True
    then show ?thesis using D1(7) [OF k(1)] k(2) by simp
  next
    case False
    then have n: "\<not> used t (unat (islot i u k))" by (rule D2(7) [OF k(1)])
    have "islot i u k \<noteq> 0" using n um file_wfD(5,6) [OF w] by auto
    then have "unat (islot i u k) < fs_size s"
      using file_wfD(8) [OF D2(1) k(1)] F(3) fu by (simp add: fs_blk_def)
    then show ?thesis using n um by blast
  qed
  have other: "blk (log_dev s) u b = blk (log_dev s) s b" if b: "fs_blk s b" "\<forall>k<NSLOT. islot i s k \<noteq> b" for b
  proof -
    have "fs_blk t b" by (rule fs_blk_mono [OF b(1) f(1,2) um])
    moreover have "\<forall>k<NSLOT. islot i t k \<noteq> b" using D1(7) b by (metis fs_blk_def)
    ultimately have "blk (log_dev t) u b = blk (log_dev t) t b" by (rule D2(8))
    then show ?thesis using D1(8) [OF b] f(3) by simp
  qed
  have kept: "ibyte i u j = ibyte i s j"
    if j: "j div BSIZE < MAXFILE" "islot i s (slot_of (j div BSIZE)) \<noteq> 0" "\<not> (a \<le> j \<and> j < a + length (xs @ ys))" for j
  proof -
    have "islot i t (slot_of (j div BSIZE)) \<noteq> 0" using D1(6) [OF slot_of_less(1) [OF j(1)] j(2)] j(2) by simp
    moreover have "\<not> (a + length xs \<le> j \<and> j < a + length xs + length ys)" using j(3) by auto
    ultimately have "ibyte i u j = ibyte i t j" by (rule D2(9) [OF j(1)])
    also have "\<not> (a \<le> j \<and> j < a + length xs)" using j(3) by auto
    then have "ibyte i t j = ibyte i s j" by (rule D1(9) [OF j(1,2)])
    finally show ?thesis .
  qed
  have wr: "islot i u (slot_of ((a + k) div BSIZE)) \<noteq> 0 \<and> ibyte i u (a + k) = (xs @ ys) ! k" if k: "k < length (xs @ ys)" for k
  proof (cases "k < length xs")
    case True
    have m: "(a + k) div BSIZE < MAXFILE" using bd k by (intro div_block_less) simp
    note nz = D1(10) [OF True]
    have "ibyte i u (a + k) = ibyte i t (a + k)" using D2(9) [OF m nz] True by simp
    then show ?thesis using D2(6) [OF slot_of_less(1) [OF m] nz] nz D1(11) [OF True] True by (simp add: nth_append)
  next
    case False
    then have "k - length xs < length ys" "a + length xs + (k - length xs) = a + k" using k by simp_all
    then show ?thesis using D2(10,11) [of "k - length xs"] False by (simp add: nth_append)
  qed
  have "same_fs i s u" by (rule same_fs_trans [OF D1(3) D2(3) file_wfD(1) [OF w]])
  moreover have "islot i u k = islot i s k" if "k < NSLOT" "islot i s k \<noteq> 0" for k using D1(6) [OF that] D2(6) [OF that(1)] that(2) by simp
  moreover have "used u m" if "m < fs_size s" "used s m" for m using D2(5) F(3) D1(5) [OF that] that(1) by simp
  ultimately show ?thesis
    unfolding wrote_def using D2(1,2) bd new other kept wr by (intro conjI allI impI) blast+
qed

section \<open>New blocks\<close>

lemma fs_blk_slot: "k < NSLOT \<Longrightarrow> file_wf i s \<Longrightarrow> islot i s k \<noteq> 0 \<Longrightarrow> fs_blk s (islot i s k)"
  by (rule file_wfD(8))

lemma data_not_indirect:
  assumes "file_wf i s" "n < MAXFILE" "islot i s (slot_of n) \<noteq> 0"
  shows "islot i s (slot_of n) \<noteq> islot i s NDIRECT"
  using file_wfD(10) [OF assms(1) slot_of_less(1) [OF assms(2)] _ assms(3)] slot_of_less(2) [of n] by (auto simp: NSLOT_def)

lemma of_nat_zero32: "n < 2 ^ 32 \<Longrightarrow> (of_nat n :: u32) = 0 \<Longrightarrow> n = 0"
  using unat_of_nat32 [of n] by auto

text \<open>Slot \<open>k0\<close> was empty and has got the free block \<open>n\<close>; only the indirect block may have changed.\<close>

lemma grow_wrote:
  assumes w: "file_wf i s" and h: "hlog_wf [] t" and sf: "same_fs i s t" and len: "length (i_addrs (inode_at t i)) = NDIRECT + 1"
    and n: "n < fs_size s" "\<not> used s n" "\<And>m. m < fs_size s \<Longrightarrow> used t m \<longleftrightarrow> used s m \<or> m = n"
    and k0: "k0 < NSLOT" "islot i s k0 = 0" "\<And>k. k < NSLOT \<Longrightarrow> islot i t k = (if k = k0 then of_nat n else islot i s k)"
    and bs: "\<And>b. fs_blk s b \<Longrightarrow> b \<noteq> islot i s NDIRECT \<Longrightarrow> blk (log_dev s) t b = blk (log_dev s) s b"
    and a: "a \<le> MAXFILE * BSIZE"
  shows "wrote i s t a []"
proof -
  note W = file_wfD [OF w] and F = same_fsD [OF sf file_wfD(1) [OF w]]
  have f: "fsb t = fsb s" "log_start t = log_start s" "log_dev t = log_dev s" using sf by (simp_all add: same_fs_def)
  have n32: "n < 2 ^ 32" using n(1) fs_size_bound [of s] by simp
  have un: "unat (of_nat n :: u32) = n" by (rule unat_of_nat32 [OF n32])
  have um: "\<forall>m<fs_size s. used s m \<longrightarrow> used t m" using n(3) by blast
  have n0: "(of_nat n :: u32) \<noteq> 0" using of_nat_zero32 [OF n32] n(2) W(6) by auto
  have fm: "fs_meta t" using W(4) um unfolding fs_meta_def F(3) f by blast
  have newb: "fs_blk t (of_nat n)"
    unfolding fs_blk_def un F(3) f using n W(4) unfolding fs_meta_def by (metis (no_types))
  have old: "fs_blk t b" if "fs_blk s b" for b by (rule fs_blk_mono [OF that f(1,2) um])
  have ne: "islot i s k \<noteq> of_nat n" if "k < NSLOT" for k
  proof
    assume e: "islot i s k = of_nat n"
    then have "fs_blk s (of_nat n)" using W(8) [OF that] n0 by simp
    then show False using n(2) by (simp add: fs_blk_def un)
  qed
  have own: "of_nat n \<noteq> own_iblock i s"
  proof
    assume "of_nat n = own_iblock i s"
    then have "fs_blk s (of_nat n)" using W(7) by simp
    then show False using n(2) by (simp add: fs_blk_def un)
  qed
  have wf: "file_wf i t"
    unfolding file_wf_def F(2,3,4,5)
  proof (intro conjI allI impI)
    show "i < length (itable s)" "i_dev (inode_at s i) = log_dev t" "0 < fs_size s" using W f by simp_all
    show "used t 0" using um W(5,6) by blast
    show "fs_blk t (own_iblock i s)" by (rule old [OF W(7)])
    show "fs_blk t (islot i t k)" "islot i t k \<noteq> own_iblock i s" if "k < NSLOT" "islot i t k \<noteq> 0" for k
      using that k0(3) [OF that(1)] newb own old [OF W(8)] W(9) by (auto split: if_splits)
    show "k = l" if "k < NSLOT" "l < NSLOT" "islot i t k \<noteq> 0 \<and> islot i t k = islot i t l" for k l
      using that k0(3) [OF that(1)] k0(3) [OF that(2)] ne [OF that(1)] ne [OF that(2)] W(10) [OF that(1,2)]
      by (auto split: if_splits)
  qed (rule len fm)+
  have keep: "ibyte i t j = ibyte i s j" if j: "j div BSIZE < MAXFILE" "islot i s (slot_of (j div BSIZE)) \<noteq> 0" for j
  proof -
    have sl: "islot i t (slot_of (j div BSIZE)) = islot i s (slot_of (j div BSIZE))"
      using k0(2,3) slot_of_less(1) [OF j(1)] j(2) by auto
    have "blk (log_dev s) t (islot i s (slot_of (j div BSIZE))) = blk (log_dev s) s (islot i s (slot_of (j div BSIZE)))"
      by (rule bs [OF fs_blk_slot [OF slot_of_less(1) [OF j(1)] w j(2)] data_not_indirect [OF w j]])
    then show ?thesis unfolding file_byte_def sl by (simp only: f(3))
  qed
  have oth: "blk (log_dev s) t b = blk (log_dev s) s b" if "fs_blk s b" "\<forall>k<NSLOT. islot i s k \<noteq> b" for b
    using bs [OF that(1)] that(2) by (metis NSLOT_def less_add_one trans_less_add1)
  have sl: "islot i t k = islot i s k \<or> \<not> used s (unat (islot i t k))" if "k < NSLOT" for k
    using k0(3) [OF that] n(2) un by simp
  have kp: "islot i t k = islot i s k" if "k < NSLOT" "islot i s k \<noteq> 0" for k
    using k0(2,3) that by auto
  show ?thesis
    unfolding wrote_def using wf h sf a um kp sl oth keep by (intro conjI allI impI; simp)
qed

lemma fs_blk_used: "fs_blk s (of_nat n) \<Longrightarrow> n < fs_size s \<Longrightarrow> used s n"
  using unat_of_nat32 [of n] fs_size_bound [of s] by (simp add: fs_blk_def)

lemma same_tx_wrote:
  assumes w: "file_wf i s" and t: "same_tx [] s t" and a: "a \<le> MAXFILE * BSIZE"
  shows "wrote i s t a []"
proof -
  note W = file_wfD [OF w] and T = same_tx_frame [OF t] and F = same_tx_fs [OF t file_wfD(4) [OF w]]
  have st: "log_start t = log_start s" "disk t = disk s" "log_outstanding t = log_outstanding s" "log_committing t = log_committing s"
    using t by (simp_all add: same_tx_def same_log_def)
  have fb: "fs_blk t b = fs_blk s b" for b by (simp add: fs_blk_def F T st)
  have B: "blk (log_dev t) t = blk (log_dev s) s" by (simp add: T)
  have "file_wf i t"
    using w unfolding file_wf_def by (simp only: fb F T B simp_thms) blast
  then show ?thesis
    unfolding wrote_def using T(6) a by (simp add: T F st same_fs_def)
qed

text \<open>The part of \<^verbatim>\<open>bmap\<close> that fills a slot of the inode itself.\<close>

definition addr_fill :: "nat \<Rightarrow> nat \<Rightarrow> 'x kfs_scheme \<Rightarrow> (u32, 'x kfs_scheme) res" where
  "addr_fill i k s =
     (if i_addrs (inode_at s i) ! k = 0
      then bnd (balloc (i_dev (inode_at s i)) s) (\<lambda>addr s.
           if addr = 0 then Ok 0 s
           else Ok addr (upd_inode i (\<lambda>ip. ip\<lparr>i_addrs := (i_addrs ip)[k := addr]\<rparr>) s))
      else Ok (i_addrs (inode_at s i) ! k) s)"

lemma taken_frame:
  assumes "taken H n s (t :: 'x kfs_scheme)"
  shows "fsb t = fsb s" "itable t = itable s" "log_dev t = log_dev s" "log_start t = log_start s" "hlog_wf H t"
    "disk t = disk s" "log_outstanding t = log_outstanding s" "log_committing t = log_committing s"
    "n < fs_size s" "\<not> used s n" "m < fs_size s \<Longrightarrow> used t m \<longleftrightarrow> used s m \<or> m = n" "fs_size t = fs_size s"
    "length (logged t) \<le> length (logged s) + 2"
proof -
  have m: "klog.more t = klog.more s" using assms by (simp add: taken_def same_log_def)
  show f: "fsb t = fsb s" "itable t = itable s" by (rule more_fs [OF m])+
  show "fs_size t = fs_size s" by (simp add: fs_size_def f)
qed (use assms in \<open>auto simp: taken_def same_log_def\<close>)

lemma taken_other:
  assumes t: "taken H n s t" and b: "fs_blk s b"
  shows "blk (log_dev s) t b = blk (log_dev s) s b"
proof -
  have n: "n < fs_size s" "\<not> used s n" using t by (simp_all add: taken_def)
  have "b \<noteq> of_nat n"
    using b n unat_of_nat32 [of n] fs_size_bound [of s] by (auto simp: fs_blk_def)
  moreover have "b \<noteq> BBLOCK (of_nat n) (fsb s)" using b n(1) by (auto simp: fs_blk_def)
  ultimately show ?thesis using t by (simp add: taken_def)
qed

lemma taken_zero:
  assumes "taken H n s t" "fs_meta s"
  shows "blk (log_dev s) t (of_nat n) = replicate BSIZE 0"
  using assms by (auto simp: taken_def fs_meta_def)

lemma itable_views:
  "bio_ok d (t\<lparr>itable := x\<rparr>) = bio_ok d t" "blk d (t\<lparr>itable := x\<rparr>) = blk d t"
  "pin d (t\<lparr>itable := x\<rparr>) = pin d t" "busy d (t\<lparr>itable := x\<rparr>) = busy d t" "handle d (t\<lparr>itable := x\<rparr>) i b = handle d t i b"
  by (auto simp: bio_ok_def quiet_def bio_wf_def cached_def blk_def pin_def busy_def buf_of_def fun_eq_iff
      handle_def holds_def mypid_def split: option.split)

lemma upd_inode_views:
  "blk d (upd_inode i f t) = blk d t" "hlog_wf H (upd_inode i f t) = hlog_wf H t" "log_dev (upd_inode i f t) = log_dev t"
  "used (upd_inode i f t) = used t" "fsb (upd_inode i f t) = fsb t" "logged (upd_inode i f t) = logged t"
  "log_start (upd_inode i f t) = log_start t" "log_outstanding (upd_inode i f t) = log_outstanding t"
  "log_committing (upd_inode i f t) = log_committing t" "disk (upd_inode i f t) = disk t"
  by (simp_all add: upd_inode_def itable_views hlog_wf_def logged_def used_def fun_eq_iff)

lemma get32_zeros: "j + 4 \<le> n \<Longrightarrow> get32 (replicate n 0) j = 0"
  by (simp add: get32_def)

lemma slot_set:
  assumes k: "k \<le> NDIRECT" "length (i_addrs ip) = NDIRECT + 1" "slot f ip k = 0" and l: "l < NSLOT"
    and z: "g v = replicate BSIZE 0" and g: "slot f ip NDIRECT \<noteq> 0 \<Longrightarrow> g (slot f ip NDIRECT) = f (slot f ip NDIRECT)"
  shows "slot g (ip\<lparr>i_addrs := (i_addrs ip)[k := v]\<rparr>) l = (if l = k then v else slot f ip l)"
proof -
  have kl: "k < length (i_addrs ip)" using k by simp
  consider "l \<le> NDIRECT" | "NDIRECT < l" "k = NDIRECT" | "NDIRECT < l" "k \<noteq> NDIRECT" by linarith
  then show ?thesis
  proof cases
    case 1
    then show ?thesis using kl by (simp add: slot_def nth_list_update)
  next
    case 2
    then have "slot f ip l = 0" using k(3) by (simp add: slot_def)
    moreover have "4 * (l - NDIRECT - 1) + 4 \<le> BSIZE" using l by (simp add: NSLOT_def NINDIRECT_def BSIZE_def)
    then have "get32 (g v) (4 * (l - NDIRECT - 1)) = 0" unfolding z by (rule get32_zeros)
    ultimately show ?thesis using 2 kl by (simp add: slot_def)
  next
    case 3
    then show ?thesis using k(1) kl g by (auto simp: slot_def)
  qed
qed

lemma slot_fill:
  assumes w: "file_wf i s" and t: "taken [] n s t" and k: "k \<le> NDIRECT" "islot i s k = 0" and l: "l < NSLOT"
  shows "slot (blk (log_dev s) t) ((inode_at s i)\<lparr>i_addrs := (i_addrs (inode_at s i))[k := of_nat n]\<rparr>) l =
    (if l = k then of_nat n else islot i s l)"
proof (rule slot_set [where f = "blk (log_dev s) s" and g = "blk (log_dev s) t", OF k(1) file_wfD(3) [OF w] k(2) l taken_zero [OF t file_wfD(4) [OF w]]])
  show "blk (log_dev s) t (islot i s NDIRECT) = blk (log_dev s) s (islot i s NDIRECT)" if "islot i s NDIRECT \<noteq> 0"
    by (rule taken_other [OF t fs_blk_slot [OF _ w that]]) (simp add: NSLOT_def)
qed

lemma addr_fill_grows:
  fixes s :: "'x kfs_scheme"
  assumes w: "file_wf i s" and x: "in_tx [] 2 s" and k: "k \<le> NDIRECT" and a: "a \<le> MAXFILE * BSIZE"
  shows "(\<exists>t. addr_fill i k s = Ok 0 t \<and> (\<forall>m<fs_size s. used s m) \<and> wrote i s t a [] \<and> logged t = logged s) \<or>
    (\<exists>t. addr_fill i k s = Ok (islot i t k) t \<and> islot i t k \<noteq> 0 \<and> wrote i s t a [] \<and> length (logged t) \<le> length (logged s) + 2)"
proof -
  note W = file_wfD [OF w]
  have sk: "islot i s k = i_addrs (inode_at s i) ! k" using k by (simp add: slot_def)
  show ?thesis
  proof (cases "islot i s k = 0")
    case False
    then show ?thesis using same_tx_wrote [OF w same_tx_refl [OF in_tx_wf [OF x]] a] by (auto simp: addr_fill_def sk)
  next
    case True
    from balloc_spec [OF x W(4) held_used_Nil] consider
        (full) t where "balloc (log_dev s) s = Ok 0 t" "\<forall>n<fs_size s. used s n" "same_tx [] s t"
      | (found) n t where "balloc (log_dev s) s = Ok (of_nat n) t" "taken [] n s t" by blast
    then show ?thesis
    proof cases
      case full
      then have "addr_fill i k s = Ok 0 t" using True by (simp add: addr_fill_def sk W(2))
      then show ?thesis using full same_tx_wrote [OF w full(3) a] by (auto simp: same_tx_def)
    next
      case found
      note T = taken_frame [OF found(2)]
      let ?ip = "(inode_at s i)\<lparr>i_addrs := (i_addrs (inode_at s i))[k := of_nat n]\<rparr>"
      define u where "u = upd_inode i (\<lambda>ip. ip\<lparr>i_addrs := (i_addrs ip)[k := of_nat n]\<rparr>) t"
      have n0: "(of_nat n :: u32) \<noteq> 0"
        using of_nat_zero32 [of n] T(9,10) fs_size_bound [of s] W(6) by auto
      have r: "addr_fill i k s = Ok (of_nat n) u"
        using found(1) True n0 by (simp add: addr_fill_def sk W(2) u_def)
      have it: "itable u = (itable s)[i := ?ip]" by (simp add: u_def upd_inode_def T(2))
      have ip: "inode_at u i = ?ip" using W(1) by (simp add: it)
      have V: "log_dev u = log_dev s" "blk (log_dev s) u = blk (log_dev s) t" "used u = used t" "hlog_wf [] u" "logged u = logged t"
        using T by (simp_all add: u_def upd_inode_views)
      have sf: "same_fs i s u"
        unfolding same_fs_def using T by (simp add: it ip W(1)) (simp add: u_def upd_inode_views)
      have sl: "islot i u l = (if l = k then of_nat n else islot i s l)" if "l < NSLOT" for l
        unfolding V ip by (rule slot_fill [OF w found(2) k True that])
      have ks: "k < NSLOT" using k by (simp add: NSLOT_def)
      have "wrote i s u a []"
      proof (rule grow_wrote [OF w V(4) sf _ T(9,10) _ ks True sl _ a])
        show "length (i_addrs (inode_at u i)) = NDIRECT + 1" using W(3) by (simp add: ip)
        show "blk (log_dev s) u b = blk (log_dev s) s b" if "fs_blk s b" for b
          unfolding V(2) by (rule taken_other [OF found(2) that])
      qed (simp_all add: V T(11))
      moreover have "islot i u k = of_nat n" using sl [OF ks] by simp
      ultimately show ?thesis using r n0 T(13) V(5) by metis
    qed
  qed
qed

text \<open>The part that fills an entry of the indirect block, whose buffer is held meanwhile.\<close>

definition entry_fill :: "u32 \<Rightarrow> u32 \<Rightarrow> nat \<Rightarrow> 'x kfs_scheme \<Rightarrow> (u32, 'x kfs_scheme) res" where
  "entry_fill dev ind n s =
     bnd (bread dev ind s) (\<lambda>bp s.
     let addr = get32 (buf_data s bp) (4 * n) in
     bnd (if addr = 0
          then bnd (balloc dev s) (\<lambda>addr s.
               if addr \<noteq> 0
               then bnd (log_write bp (set_bdata bp (put32 (buf_data s bp) (4 * n) addr) s)) (\<lambda>_ s. Ok addr s)
               else Ok addr s)
          else Ok addr s) (\<lambda>addr s.
     bnd (brelse bp s) (\<lambda>_ s. Ok addr s)))"

lemma bmap_fill:
  "bmap i bn s =
     (let n = unat bn in
      if n < NDIRECT then addr_fill i n s
      else let n = n - NDIRECT in
      if n < NINDIRECT
      then bnd (addr_fill i NDIRECT s) (\<lambda>ind t. if ind = 0 then Ok 0 t else entry_fill (i_dev (inode_at s i)) ind n t)
      else Panic ''bmap: out of range'')"
  by (simp add: bmap_def addr_fill_def entry_fill_def Let_def cong: if_cong)

lemma slot_entry:
  assumes "slot f ip NDIRECT \<noteq> 0"
  shows "slot f ip (e + NDIRECT + 1) = get32 (f (slot f ip NDIRECT)) (4 * e)"
  using assms by (simp add: slot_def)

text \<open>The blocks after an entry of the indirect block has been written.\<close>

lemma slot_put:
  assumes d: "g (slot f ip NDIRECT) = put32 (f (slot f ip NDIRECT)) (4 * e) v"
    and L: "length (f (slot f ip NDIRECT)) = BSIZE"
    and e: "e < NINDIRECT" and z: "slot f ip NDIRECT \<noteq> 0" and k: "k < NSLOT"
  shows "slot g ip k = (if k = e + NDIRECT + 1 then v else slot f ip k)"
proof (cases "k \<le> NDIRECT")
  case True
  then show ?thesis by (auto simp: slot_def)
next
  case False
  define j where "j = k - NDIRECT - 1"
  then have j: "k = j + NDIRECT + 1" "j < NINDIRECT" using False k by (simp_all add: NSLOT_def)
  have b: "4 * e + 4 \<le> BSIZE" "4 * j + 4 \<le> BSIZE" using e j(2) by (simp_all add: NINDIRECT_def BSIZE_def)
  have "j = e \<or> 4 * j + 4 \<le> 4 * e \<or> 4 * e + 4 \<le> 4 * j" by linarith
  moreover have "get32 (put32 (f (slot f ip NDIRECT)) (4 * e) v) (4 * j) =
      (if j = e then v else get32 (f (slot f ip NDIRECT)) (4 * j))"
    using b L get32_put32_other [of "4 * e" "f (slot f ip NDIRECT)" "4 * j" v] calculation by auto
  moreover have "slot g ip k = get32 (g (slot f ip NDIRECT)) (4 * j)" using z by (simp add: slot_def j(1))
  ultimately show ?thesis using slot_entry [OF z, of j] d j(1) by auto
qed

lemma entry_fill_grows:
  fixes s :: "'x kfs_scheme"
  assumes w: "file_wf i s" and x: "in_tx [] 3 s" and e: "e < NINDIRECT" and z: "islot i s NDIRECT \<noteq> 0" and a: "a \<le> MAXFILE * BSIZE"
  shows "(\<exists>t. entry_fill (log_dev s) (islot i s NDIRECT) e s = Ok 0 t \<and> (\<forall>m<fs_size s. used s m) \<and> wrote i s t a [] \<and>
      logged t = logged s) \<or>
    (\<exists>t. entry_fill (log_dev s) (islot i s NDIRECT) e s = Ok (islot i t (e + NDIRECT + 1)) t \<and> islot i t (e + NDIRECT + 1) \<noteq> 0 \<and>
      wrote i s t a [] \<and> length (logged t) \<le> length (logged s) + 3)"
proof -
  note W = file_wfD [OF w]
  let ?d = "log_dev s" and ?ind = "islot i s NDIRECT" and ?k = "e + NDIRECT + 1"
  have nk: "NDIRECT < NSLOT" "?k < NSLOT" using e by (simp_all add: NSLOT_def)
  have ib: "fs_blk s ?ind" by (rule W(8) [OF nk(1) z])
  have x': "in_tx [] (Suc 2) s" using x by (simp add: numeral_3_eq_3)
  obtain bp t where t: "bread ?d ?ind s = Ok bp t" "in_tx [(bp, ?ind)] 2 t" "buf_data t bp = blk ?d s ?ind" "same_tx [(bp, ?ind)] s t"
    "\<exists>u. brelse bp t = Ok () u \<and> same_tx [] s u"
    by (rule block_access [OF x', of ?ind]) auto
  note T = same_tx_frame [OF t(4)] and TF = same_tx_fs [OF t(4) W(4)]
  have en: "get32 (buf_data t bp) (4 * e) = islot i s ?k" using slot_entry [OF z] t(3) by simp
  show ?thesis
  proof (cases "islot i s ?k = 0")
    case False
    obtain u where u: "brelse bp t = Ok () u" "same_tx [] s u" using t(5) by blast
    note U = same_tx_frame [OF u(2)]
    have "entry_fill ?d ?ind e s = Ok (islot i s ?k) u" using t(1) en False u(1) by (simp add: entry_fill_def Let_def)
    moreover have "islot i u ?k = islot i s ?k" by (simp add: U)
    moreover have "logged u = logged s" using u(2) by (simp add: same_tx_def)
    ultimately show ?thesis using False same_tx_wrote [OF w u(2) a] by auto
  next
    case True
    have "BBLOCK (of_nat n) (fsb s) \<noteq> ?ind" "of_nat n = ?ind \<Longrightarrow> used s n" if "n < fs_size s" for n
      using ib fs_blk_used [of s n] that by (auto simp: fs_blk_def)
    then have hu: "held_used [(bp, ?ind)] t" unfolding TF(8) by (simp add: held_used_def)
    from balloc_spec [OF t(2) TF(1) hu] consider
        (full) v where "balloc ?d t = Ok 0 v" "\<forall>n<fs_size s. used s n" "same_tx [(bp, ?ind)] t v"
      | (found) n v where "balloc ?d t = Ok (of_nat n) v" "taken [(bp, ?ind)] n t v" unfolding TF(2-4) T(3) by blast
    then show ?thesis
    proof cases
      case full
      obtain u where u: "brelse bp v = Ok () u" "same_tx [] v u"
        using brelse_held [of bp ?ind "[]" v] full(3) by (auto simp: same_tx_def same_log_def)
      have su: "same_tx [] s u" by (rule same_tx_trans [OF t(4) same_tx_trans [OF full(3) u(2)]])
      have "entry_fill ?d ?ind e s = Ok 0 u" using t(1) en True full(1) u(1) by (simp add: entry_fill_def Let_def)
      moreover have "logged u = logged s" using su by (simp add: same_tx_def)
      ultimately show ?thesis using full(2) same_tx_wrote [OF w su a] by blast
    next
      case found
      have tk: "taken [(bp, ?ind)] n s v" by (rule TF(5) [OF found(2)])
      note V = taken_frame [OF tk]
      have n0: "(of_nat n :: u32) \<noteq> 0" using of_nat_zero32 [of n] V(9,10) fs_size_bound [of s] W(6) by auto
      have bi: "blk ?d v ?ind = blk ?d s ?ind" by (rule taken_other [OF tk ib])
      have bv: "buf_data v bp = blk ?d s ?ind" using held_block [OF V(5), of bp ?ind] V(3) bi by simp
      let ?v = "put32 (blk ?d s ?ind) (4 * e) (of_nat n)"
      have L: "length (blk ?d s ?ind) = BSIZE" by (rule blk_size [OF in_tx_wf [OF x]])
      have e4: "4 * e + 4 \<le> BSIZE" using e by (simp add: NINDIRECT_def BSIZE_def)
      have room: "lhn v < int LOGBLOCKS" "1 \<le> log_outstanding v"
        using x V(7,13) hlog_wfD(9) [OF V(5)] hlog_wfD(9) [OF in_tx_wf [OF x]] by (simp_all add: in_tx_def)
      have nr: "?ind \<notin> log_region (log_start v)" using ib V(4) by (simp add: fs_blk_def)
      have "length ?v = BSIZE" using L e4 by simp
      from write_held [OF V(5) room nr this]
      obtain y where y: "log_write bp (set_bdata bp ?v v) = Ok () y" "tx [(bp, ?ind)] v y ?ind ?v" by blast
      obtain u where u: "brelse bp y = Ok () u" "same_tx [] y u"
        using brelse_held [of bp ?ind "[]" y] y(2) by (auto simp: tx_def same_log_def)
      have tu: "tx [] v u ?ind ?v" by (rule tx_same_tx [OF y(2) u(2)])
      have m: "klog.more u = klog.more v" using tu by (simp add: tx_def same_log_def)
      have U: "fsb u = fsb s" "itable u = itable s" "log_dev u = ?d" "log_start u = log_start s" "hlog_wf [] u" "disk u = disk s"
        "log_outstanding u = log_outstanding s" "log_committing u = log_committing s"
        using tu more_fs [OF m] V by (simp_all add: tx_def same_log_def)
      have bu: "blk ?d u = (blk ?d v)(?ind := ?v)" using tu V(3) by (simp add: tx_def)
      have us: "used u m = used v m" if "m < fs_size s" for m
      proof -
        have "?ind \<noteq> BBLOCK (of_nat m) (fsb s)" using ib that by (auto simp: fs_blk_def)
        then show ?thesis by (simp add: used_def U V bu)
      qed
      have r: "entry_fill ?d ?ind e s = Ok (of_nat n) u"
        using t(1) en True found(1) n0 bv y(1) u(1) by (simp add: entry_fill_def Let_def)
      have sl: "islot i u l = (if l = ?k then of_nat n else islot i s l)" if "l < NSLOT" for l
        unfolding U(2,3) by (rule slot_put [OF _ L e z that]) (simp add: bu)
      have sf: "same_fs i s u"
        unfolding same_fs_def by (simp add: U)
      have "wrote i s u a []"
      proof (rule grow_wrote [OF w U(5) sf _ V(9,10) _ nk(2) True sl _ a])
        show "length (i_addrs (inode_at u i)) = NDIRECT + 1" using W(3) by (simp add: U)
        show "used u m \<longleftrightarrow> used s m \<or> m = n" if "m < fs_size s" for m using us [OF that] V(11) [OF that] by simp
        show "blk ?d u b = blk ?d s b" if "fs_blk s b" "b \<noteq> ?ind" for b
          using taken_other [OF tk that(1)] that(2) by (simp add: bu)
      qed
      moreover have "islot i u ?k = of_nat n" using sl [OF nk(2)] by simp
      moreover have "length (logged u) \<le> length (logged s) + 3"
        using tu V(13) by (simp add: tx_def split: if_splits)
      ultimately show ?thesis using r n0 by metis
    qed
  qed
qed

lemma wrote_nil_trans:
  "wrote i s t a [] \<Longrightarrow> wrote i t u a xs \<Longrightarrow> file_wf i s \<Longrightarrow> wrote i s u a xs"
  using wrote_trans [of i s t a "[]" u xs] by simp

lemma bmap_grows:
  fixes s :: "'x kfs_scheme"
  assumes w: "file_wf i s" and x: "in_tx [] 5 s" and n: "n < MAXFILE" and a: "a \<le> MAXFILE * BSIZE"
  shows "\<exists>t. wrote i s t a [] \<and> length (logged t) \<le> length (logged s) + 5 \<and>
    (bmap i (of_nat n) s = Ok 0 t \<and> (\<forall>m<fs_size s. used t m) \<or>
     bmap i (of_nat n) s = Ok (islot i t (slot_of n)) t \<and> islot i t (slot_of n) \<noteq> 0)"
proof -
  have un: "unat (of_nat n :: u32) = n" using n by (intro unat_of_nat32) (simp add: MAXFILE_def NDIRECT_def NINDIRECT_def BSIZE_def)
  have x2: "in_tx [] 2 s" by (rule in_tx_le [OF x]) simp
  show ?thesis
  proof (cases "n < NDIRECT")
    case True
    then have b: "bmap i (of_nat n) s = addr_fill i n s" "slot_of n = n" "n \<le> NDIRECT" by (simp_all add: bmap_fill un slot_of_def)
    from addr_fill_grows [OF w x2 b(3) a] show ?thesis
    proof (elim disjE exE conjE)
      fix t assume "addr_fill i n s = Ok 0 t" "\<forall>m<fs_size s. used s m" "wrote i s t a []" "logged t = logged s"
      then show ?thesis using b wroteD(5) [of i s t a "[]"] by (intro exI [of _ t]) simp
    next
      fix t assume "addr_fill i n s = Ok (islot i t n) t" "islot i t n \<noteq> 0" "wrote i s t a []" "length (logged t) \<le> length (logged s) + 2"
      then show ?thesis using b by (intro exI [of _ t]) simp
    qed
  next
    case False
    define e where "e = n - NDIRECT"
    have e: "e < NINDIRECT" "slot_of n = e + NDIRECT + 1" using n False by (simp_all add: e_def MAXFILE_def slot_of_def)
    have b: "bmap i (of_nat n) s =
        bnd (addr_fill i NDIRECT s) (\<lambda>ind t. if ind = 0 then Ok 0 t else entry_fill (i_dev (inode_at s i)) ind e t)"
      unfolding bmap_fill un Let_def e_def [symmetric] using False e(1) by simp
    from addr_fill_grows [OF w x2 order_refl a] consider
        (full) t where "addr_fill i NDIRECT s = Ok 0 t" "\<forall>m<fs_size s. used s m" "wrote i s t a []" "logged t = logged s"
      | (ind) t where "addr_fill i NDIRECT s = Ok (islot i t NDIRECT) t" "islot i t NDIRECT \<noteq> 0" "wrote i s t a []"
          "length (logged t) \<le> length (logged s) + 2" by blast
    then show ?thesis
    proof cases
      case full
      then show ?thesis using b wroteD(5) [OF full(3)] by (intro exI [of _ t]) simp
    next
      case ind
      note D = wroteD [OF ind(3)] and F = same_fsD [OF wroteD(3) [OF ind(3)] file_wfD(1) [OF w]]
      have d: "i_dev (inode_at s i) = log_dev t" using F(5) file_wfD(2) [OF D(1)] by simp
      have x3: "in_tx [] 3 t"
        using x D(3) ind(4) hlog_wfD(9) [OF D(2)] hlog_wfD(9) [OF in_tx_wf [OF x]] D(2) by (simp add: in_tx_def same_fs_def)
      have r: "bmap i (of_nat n) s = entry_fill (log_dev t) (islot i t NDIRECT) e t"
        using b ind(1,2) by (simp add: d)
      from entry_fill_grows [OF D(1) x3 e(1) ind(2) a] show ?thesis
      proof (elim disjE exE conjE)
        fix u assume u: "entry_fill (log_dev t) (islot i t NDIRECT) e t = Ok 0 u" "\<forall>m<fs_size t. used t m" "wrote i t u a []" "logged u = logged t"
        show ?thesis
          using u(1,4) r ind(4) wrote_nil_trans [OF ind(3) u(3) w] wroteD(5) [OF u(3)] u(2) F(3) by (intro exI [of _ u]) simp
      next
        fix u assume u: "entry_fill (log_dev t) (islot i t NDIRECT) e t = Ok (islot i u (e + NDIRECT + 1)) u"
          "islot i u (e + NDIRECT + 1) \<noteq> 0" "wrote i t u a []" "length (logged u) \<le> length (logged t) + 3"
        show ?thesis
          unfolding e(2) using u(1,2,4) r ind(4) wrote_nil_trans [OF ind(3) u(3) w] by (intro exI [of _ u]) simp
      qed
    qed
  qed
qed

end
