(* ===== verification/Fs_Write.thy ===== *)
theory Fs_Write
  imports Fs_Data
begin

text \<open>
  What \<^verbatim>\<open>readi\<close> and \<^verbatim>\<open>writei\<close> do to a file, seen as the sequence of its bytes: the loop of \<^verbatim>\<open>writei\<close>
  overwrites and appends, block by block, and \<^verbatim>\<open>iupdate\<close> stores the new size and block numbers.
\<close>

section \<open>Writing\<close>

text \<open>A block of the file overwritten in place.\<close>

lemma tx_wrote:
  fixes s :: "'x kfs_scheme"
  assumes w: "file_wf i s" and t: "tx [] s t b (patch (blk (log_dev s) s b) (a mod BSIZE) xs)" and h: "hlog_wf [] s"
    and b: "b = islot i s (slot_of (a div BSIZE))" "b \<noteq> 0" and a: "a div BSIZE < MAXFILE" "a mod BSIZE + length xs \<le> BSIZE"
  shows "wrote i s t a xs"
proof -
  note W = file_wfD [OF w]
  let ?d = "log_dev s" and ?v = "patch (blk (log_dev s) s b) (a mod BSIZE) xs"
  have m: "klog.more t = klog.more s" using t by (simp add: tx_def same_log_def)
  have T: "fsb t = fsb s" "itable t = itable s" "log_dev t = ?d" "log_start t = log_start s" "hlog_wf [] t" "disk t = disk s"
    "log_outstanding t = log_outstanding s" "log_committing t = log_committing s"
    using t more_fs [OF m] by (simp_all add: tx_def same_log_def)
  have bt: "blk ?d t = (blk ?d s)(b := ?v)" using t by (simp add: tx_def)
  note sl = slot_of_less(1) [OF a(1)]
  have fb: "fs_blk s b" using W(8) [OF sl] b by simp
  have us: "used t m = used s m" if "m < fs_size s" for m
  proof -
    have "b \<noteq> BBLOCK (of_nat m) (fsb s)" using fb that by (auto simp: fs_blk_def)
    then show ?thesis by (simp add: used_def T bt)
  qed
  have ind: "islot i s NDIRECT \<noteq> b" if "islot i s NDIRECT \<noteq> 0"
    using data_not_indirect [OF w a(1)] b by simp
  have ist: "islot i t k = islot i s k" for k
    using ind by (auto simp: T bt slot_def)
  have fz: "fs_size t = fs_size s" by (simp add: fs_size_def T)
  have fbt: "fs_blk t c" if "fs_blk s c" for c by (rule fs_blk_mono [OF that T(1,4)]) (simp add: us)
  have fm: "fs_meta t" using W(4) us unfolding fs_meta_def fz T by simp
  have wf: "file_wf i t"
    unfolding file_wf_def ist fz using W us fm by (auto simp: T fbt)
  have L: "length (blk ?d s b) = BSIZE" by (rule blk_size [OF h])
  have vb: "?v ! j = (if a mod BSIZE \<le> j \<and> j < a mod BSIZE + length xs then xs ! (j - a mod BSIZE) else blk ?d s b ! j)" if "j < BSIZE" for j
    using nth_patch [of "a mod BSIZE" xs "blk ?d s b" j] a(2) that L by simp
  have B: "0 < BSIZE" by (simp add: BSIZE_def)
  have by1: "ibyte i t j = ibyte i s j"
    if j: "j div BSIZE < MAXFILE" "islot i s (slot_of (j div BSIZE)) \<noteq> 0" "\<not> (a \<le> j \<and> j < a + length xs)" for j
  proof (cases "islot i s (slot_of (j div BSIZE)) = b")
    case False
    then show ?thesis unfolding file_byte_def ist by (simp add: T(3) bt)
  next
    case True
    have "slot_of (j div BSIZE) = slot_of (a div BSIZE)"
      by (rule W(10) [OF slot_of_less(1) [OF j(1)] sl j(2)]) (use True b in simp)
    then have q: "j div BSIZE = a div BSIZE" by (simp add: slot_of_def split: if_splits)
    have e: "j = a div BSIZE * BSIZE + j mod BSIZE" "a = a div BSIZE * BSIZE + a mod BSIZE" using q by (metis div_mult_mod_eq)+
    have "\<not> (a mod BSIZE \<le> j mod BSIZE \<and> j mod BSIZE < a mod BSIZE + length xs)" using j(3) e by linarith
    then have "?v ! (j mod BSIZE) = blk ?d s b ! (j mod BSIZE)" using vb [OF mod_less_divisor [OF B, of j]] by auto
    then show ?thesis unfolding file_byte_def ist True by (simp add: T(3) bt)
  qed
  have by2: "islot i t (slot_of ((a + k) div BSIZE)) \<noteq> 0 \<and> ibyte i t (a + k) = xs ! k" if k: "k < length xs" for k
  proof -
    have lt: "a mod BSIZE + k < BSIZE" using a(2) k by simp
    note e = within_block [OF lt]
    have "?v ! (a mod BSIZE + k) = xs ! k" using vb [OF lt] k by simp
    then show ?thesis unfolding file_byte_def ist e b(1) [symmetric] using b(2) by (simp add: T(3) bt)
  qed
  have le: "a + length xs \<le> MAXFILE * BSIZE"
  proof -
    have "a + length xs \<le> a div BSIZE * BSIZE + BSIZE" using a(2) div_mult_mod_eq [of a BSIZE] by linarith
    also have "\<dots> = Suc (a div BSIZE) * BSIZE" by simp
    also have "\<dots> \<le> MAXFILE * BSIZE" using a(1) by (intro mult_le_mono1) simp
    finally show ?thesis .
  qed
  have sf: "same_fs i s t" by (simp add: same_fs_def T)
  have oth: "blk ?d t c = blk ?d s c" if "fs_blk s c" "\<forall>k<NSLOT. islot i s k \<noteq> c" for c
    using that(2) sl b(1) by (auto simp: bt)
  show ?thesis
    unfolding wrote_def
    using wf T(5) sf le us oth by1 by2 ist by (intro conjI allI impI) (blast | simp)+
qed

lemma in_tx_step:
  assumes "in_tx [] (k + m) s" "wrote i s t a xs" "length (logged t) \<le> length (logged s) + m"
  shows "in_tx [] k t"
  using assms hlog_wfD(9) [of "[]" s] hlog_wfD(9) [OF wroteD(2) [OF assms(2)]] wroteD(2,3) [OF assms(2)]
  by (simp add: in_tx_def same_fs_def)

text \<open>One round of the loop: a block found or made, and overwritten.\<close>

lemma write_one:
  fixes s :: "'x kfs_scheme"
  assumes w: "file_wf i s" and x: "in_tx [] 6 s" and off: "off div BSIZE < MAXFILE" and m: "off mod BSIZE + m \<le> BSIZE" "m \<le> length src"
  shows "\<exists>t. wrote i s t off [] \<and> length (logged t) \<le> length (logged s) + 5 \<and> (\<forall>k<fs_size s. used t k) \<and>
      bmap i (of_nat (off div BSIZE)) s = Ok 0 t \<or>
    (\<exists>addr t bp v y z. bmap i (of_nat (off div BSIZE)) s = Ok addr t \<and> addr \<noteq> 0 \<and> i_dev (inode_at t i) = log_dev t \<and>
       bread (log_dev t) addr t = Ok bp v \<and> either_copyin (KernMem src) m v = Ok (0, take m src) v \<and>
       log_write bp (set_bdata bp (patch (buf_data v bp) (off mod BSIZE) (take m src)) v) = Ok () y \<and> brelse bp y = Ok () z \<and>
       wrote i s z off (take m src) \<and> length (logged z) \<le> length (logged s) + 6)"
proof -
  have x5: "in_tx [] 5 s" by (rule in_tx_le [OF x]) simp
  have B: "0 < BSIZE" by (simp add: BSIZE_def)
  have a: "off \<le> MAXFILE * BSIZE" using off B by (simp add: div_less_iff_less_mult)
  from bmap_grows [OF w x5 off a] obtain t where t: "wrote i s t off []" "length (logged t) \<le> length (logged s) + 5"
    and r: "bmap i (of_nat (off div BSIZE)) s = Ok 0 t \<and> (\<forall>m<fs_size s. used t m) \<or>
     bmap i (of_nat (off div BSIZE)) s = Ok (islot i t (slot_of (off div BSIZE))) t \<and> islot i t (slot_of (off div BSIZE)) \<noteq> 0" by blast
  from r show ?thesis
  proof
    assume "bmap i (of_nat (off div BSIZE)) s = Ok 0 t \<and> (\<forall>m<fs_size s. used t m)"
    then show ?thesis using t by blast
  next
    let ?b = "islot i t (slot_of (off div BSIZE))"
    assume b: "bmap i (of_nat (off div BSIZE)) s = Ok ?b t \<and> ?b \<noteq> 0"
    note D = wroteD [OF t(1)]
    have "in_tx [] (1 + 5) s" using x by simp
    then have x1: "in_tx [] (Suc 0) t" using in_tx_step [of 1 5] t by simp
    obtain bp v where v: "bread (log_dev t) ?b t = Ok bp v" "in_tx [(bp, ?b)] 0 v" "buf_data v bp = blk (log_dev t) t ?b"
      "same_tx [(bp, ?b)] t v" by (rule block_access [OF x1, of ?b]) auto
    have fb: "fs_blk t ?b" using file_wfD(8) [OF D(1) slot_of_less(1) [OF off]] b by blast
    let ?v = "patch (blk (log_dev t) t ?b) (off mod BSIZE) (take m src)"
    have L: "length ?v = BSIZE" using blk_size [OF D(2), of ?b] m by simp
    have "?b \<notin> log_region (log_start t)" using fb by (simp add: fs_blk_def)
    from block_update [OF v(2,4) this L] obtain y z
      where z: "log_write bp (set_bdata bp ?v v) = Ok () y" "brelse bp y = Ok () z" "tx [] t z ?b ?v" by blast
    have wz: "wrote i t z off (take m src)"
      by (rule tx_wrote [OF D(1) z(3) D(2) refl _ off]) (use b m in auto)
    have "either_copyin (KernMem src) m v = Ok (0, take m src) v" by (rule copy_kernel(2) [OF same_tx_quiet [OF v(4)]])
    moreover have "length (logged z) \<le> length (logged s) + 6" using z(3) t(2) by (auto simp: tx_def)
    ultimately show ?thesis
      using b v z wrote_nil_trans [OF t(1) wz w] file_wfD(2) [OF D(1)] by metis
  qed
qed

lemma writei_loop_writes:
  fixes s :: "'x kfs_scheme"
  assumes "file_wf i s" "in_tx [] (6 * q) s" "tot \<le> n" "n - tot \<le> length src" "off + (n - tot) \<le> MAXFILE * BSIZE"
    "tot < n \<longrightarrow> off + (n - tot) \<le> (off div BSIZE + q) * BSIZE"
  shows "\<exists>k t. writei_loop i (KernMem src) off tot n s = Ok (tot + k, off + k) t \<and> tot + k \<le> n \<and> wrote i s t off (take k src) \<and>
    (tot + k < n \<longrightarrow> (\<forall>m<fs_size s. used t m)) \<and> length (logged t) \<le> length (logged s) + 6 * q"
  using assms
proof (induction "n - tot" arbitrary: src off tot s q rule: less_induct)
  case less
  show ?case
  proof (cases "tot < n")
    case False
    have "wrote i s s off []"
      by (rule same_tx_wrote [OF less.prems(1) same_tx_refl [OF in_tx_wf [OF less.prems(2)]]]) (use less.prems(5) in simp)
    then show ?thesis using False less.prems(3) by (subst writei_loop.simps) (auto intro!: exI [of _ 0])
  next
    case True
    let ?m = "min (n - tot) (BSIZE - off mod BSIZE)"
    have B: "0 < BSIZE" by (simp add: BSIZE_def)
    obtain p where q: "q = Suc p"
    proof (cases q)
      case 0
      then have "off + (n - tot) \<le> off div BSIZE * BSIZE" using less.prems(6) True by simp
      then have "off < off div BSIZE * BSIZE" using True by simp
      then show ?thesis using div_mult_mod_eq [of off BSIZE] by linarith
    qed
    have x: "in_tx [] 6 s" by (rule in_tx_le [OF less.prems(2)]) (simp add: q)
    have lt: "off div BSIZE < MAXFILE" using less.prems(5) True by (intro div_block_less) simp
    have mm: "off mod BSIZE + ?m \<le> BSIZE" "0 < ?m" "?m \<le> n - tot" "?m \<le> length src"
      using True B mod_less_divisor [OF B, of off] less.prems(4) by simp_all
    from write_one [OF less.prems(1) x lt mm(1,4)] consider
        (full) t where "wrote i s t off []" "length (logged t) \<le> length (logged s) + 5" "\<forall>k<fs_size s. used t k"
          "bmap i (of_nat (off div BSIZE)) s = Ok 0 t"
      | (wr) addr t bp v y z where "bmap i (of_nat (off div BSIZE)) s = Ok addr t" "addr \<noteq> 0" "i_dev (inode_at t i) = log_dev t"
          "bread (log_dev t) addr t = Ok bp v" "either_copyin (KernMem src) ?m v = Ok (0, take ?m src) v"
          "log_write bp (set_bdata bp (patch (buf_data v bp) (off mod BSIZE) (take ?m src)) v) = Ok () y" "brelse bp y = Ok () z"
          "wrote i s z off (take ?m src)" "length (logged z) \<le> length (logged s) + 6" by blast
    then show ?thesis
    proof cases
      case full
      then show ?thesis using True by (subst writei_loop.simps) (auto simp: q intro!: exI [of _ 0])
    next
      case wr
      have step: "writei_loop i (KernMem src) off tot n s = writei_loop i (KernMem (drop ?m src)) (off + ?m) (tot + ?m) n z"
        using wr(1-7) True by (subst writei_loop.simps) (simp add: Let_def)
      note D = wroteD [OF wr(8)]
      have F: "fs_size z = fs_size s" by (rule same_fsD(3) [OF D(3) file_wfD(1) [OF less.prems(1)]])
      have x': "in_tx [] (6 * p) z" by (rule in_tx_step [OF _ wr(8,9)]) (use less.prems(2) in \<open>simp add: q add.commute\<close>)
      have "n - (tot + m) < n - tot \<and> off + m + (n - (tot + m)) = off + (n - tot) \<and> tot + m \<le> n \<and> n - (tot + m) \<le> length (drop m src)"
        if "0 < m" "m \<le> n - tot" for m using that less.prems(4) by auto
      from this [OF mm(2,3)] have d: "n - (tot + ?m) < n - tot" "off + ?m + (n - (tot + ?m)) = off + (n - tot)" "tot + ?m \<le> n"
        "n - (tot + ?m) \<le> length (drop ?m src)" by blast+
      have e: "off + ?m + (n - (tot + ?m)) \<le> ((off + ?m) div BSIZE + p) * BSIZE" if "tot + ?m < n"
      proof -
        have mb: "?m = BSIZE - off mod BSIZE" using that by simp
        have "off + ?m = Suc (off div BSIZE) * BSIZE" unfolding mb using div_mult_mod_eq [of off BSIZE] mod_less_divisor [OF B, of off]
          by (simp only: mult_Suc) 
        then have "(off + ?m) div BSIZE = Suc (off div BSIZE)" using B by simp
        then show ?thesis unfolding d(2) using less.prems(6) True q by simp
      qed
      have "off + ?m + (n - (tot + ?m)) \<le> MAXFILE * BSIZE" unfolding d(2) by (rule less.prems(5))
      from less.hyps [OF d(1) D(1) x' d(3,4) this] e obtain k t
        where k: "writei_loop i (KernMem (drop ?m src)) (off + ?m) (tot + ?m) n z = Ok (tot + ?m + k, off + ?m + k) t" "tot + ?m + k \<le> n"
          "wrote i z t (off + ?m) (take k (drop ?m src))" "tot + ?m + k < n \<longrightarrow> (\<forall>m<fs_size z. used t m)"
          "length (logged t) \<le> length (logged z) + 6 * p" by blast
      have "wrote i s t off (take ?m src @ take k (drop ?m src))"
        by (rule wrote_trans [OF wr(8) _ less.prems(1)]) (use k(3) mm(4) in \<open>simp add: min_absorb2\<close>)
      then have "wrote i s t off (take (?m + k) src)" by (simp only: take_add)
      moreover have "length (logged t) \<le> length (logged s) + 6 * q" using k(5) wr(9) by (simp add: q)
      moreover have "writei_loop i (KernMem src) off tot n s = Ok (tot + (?m + k), off + (?m + k)) t"
        unfolding step k(1) by (simp only: add.assoc)
      moreover have "tot + (?m + k) \<le> n" using k(2) by (simp only: add.assoc)
      moreover have "tot + (?m + k) < n \<longrightarrow> (\<forall>m<fs_size s. used t m)" using k(4) unfolding F by (simp only: add.assoc)
      ultimately show ?thesis by blast
    qed
  qed
qed

text \<open>Storing the inode changes its block only, and setting the size none.\<close>

lemma slot_size [simp]: "slot f (ip\<lparr>i_size := z\<rparr>) k = slot f ip k" by (simp add: slot_def)

lemma size_views:
  fixes t :: "'x kfs_scheme"
  assumes i: "i < length (itable t)" and u_def: "u = upd_inode i (\<lambda>ip. ip\<lparr>i_size := z\<rparr>) t"
  shows "inode_at u i = (inode_at t i)\<lparr>i_size := z\<rparr>" "islot i u k = islot i t k" "ibyte i u j = ibyte i t j"
    "own_iblock i u = own_iblock i t" "fs_blk u b = fs_blk t b" "fs_size u = fs_size t" "file_wf i u = file_wf i t"
proof -
  show I: "inode_at u i = (inode_at t i)\<lparr>i_size := z\<rparr>" using i by (simp add: u_def upd_inode_def)
  have V: "log_dev u = log_dev t" "blk (log_dev t) u = blk (log_dev t) t" "fsb u = fsb t" "used u = used t" "log_start u = log_start t"
    by (simp_all add: u_def upd_inode_views)
  show S: "islot i u k = islot i t k" for k by (simp add: I V)
  show "ibyte i u j = ibyte i t j" unfolding file_byte_def S by (simp add: V)
  show O: "own_iblock i u = own_iblock i t" by (simp add: I V)
  show Z: "fs_size u = fs_size t" by (simp add: fs_size_def V)
  show B: "fs_blk u b = fs_blk t b" for b by (simp add: fs_blk_def V Z)
  have "fs_meta u = fs_meta t" "length (itable u) = length (itable t)" by (simp_all add: fs_meta_def V Z) (simp add: u_def upd_inode_def)
  then show "file_wf i u = file_wf i t" unfolding file_wf_def S O B Z by (simp add: I V)
qed

lemma iupdate_stores:
  fixes t :: "'x kfs_scheme"
  assumes w: "file_wf i t" and x: "in_tx [] 1 t"
  shows "\<exists>u. iupdate i t = Ok () u \<and> file_wf i u \<and> itable u = itable t \<and> same_fs i t u \<and> hlog_wf [] u \<and>
    (\<forall>k. islot i u k = islot i t k) \<and> (\<forall>j. j div BSIZE < MAXFILE \<longrightarrow> islot i t (slot_of (j div BSIZE)) \<noteq> 0 \<longrightarrow> ibyte i u j = ibyte i t j) \<and>
    (\<forall>m<fs_size t. used u m = used t m) \<and> (\<forall>b. b \<noteq> own_iblock i t \<longrightarrow> blk (log_dev t) u b = blk (log_dev t) t b) \<and>
    disk_fields (dip_read (blk (log_dev t) u (own_iblock i t)) (i_inum (inode_at t i)) jp) = disk_fields (inode_at t i)"
proof -
  note W = file_wfD [OF w]
  let ?b = "own_iblock i t" and ?d = "log_dev t" and ?ip = "inode_at t i"
  let ?v = "patch (blk ?d t ?b) (dip_off (i_inum ?ip)) (dip_bytes ?ip)"
  obtain bp v where v: "bread ?d ?b t = Ok bp v" "in_tx [(bp, ?b)] 0 v" "buf_data v bp = blk ?d t ?b" "same_tx [(bp, ?b)] t v"
    by (rule block_access [OF x [unfolded One_nat_def], of ?b]) auto
  note V = same_tx_frame [OF v(4)]
  have L: "length (blk ?d t ?b) = BSIZE" by (rule blk_size [OF in_tx_wf [OF x]])
  note R = dinode_stored [OF L W(3), of "i_inum ?ip" jp]
  have "?b \<notin> log_region (log_start t)" using W(7) by (simp add: fs_blk_def)
  from block_update [OF v(2,4) this, of ?v] R obtain y u
    where u: "log_write bp (set_bdata bp ?v v) = Ok () y" "brelse bp y = Ok () u" "tx [] t u ?b ?v" by blast
  have m: "klog.more u = klog.more t" using u(3) by (simp add: tx_def same_log_def)
  have U: "fsb u = fsb t" "itable u = itable t" "log_dev u = ?d" "log_start u = log_start t" "hlog_wf [] u" "disk u = disk t"
    "log_outstanding u = log_outstanding t" "log_committing u = log_committing t"
    using u(3) more_fs [OF m] by (simp_all add: tx_def same_log_def)
  have bu: "blk ?d u = (blk ?d t)(?b := ?v)" using u(3) by (simp add: tx_def)
  have r: "iupdate i t = Ok () u" using v(1,3) u(1,2) V W(2) by (simp add: iupdate_def Let_def)
  have us: "used u m = used t m" if "m < fs_size t" for m
  proof -
    have "?b \<noteq> BBLOCK (of_nat m) (fsb t)" using W(7) that by (auto simp: fs_blk_def)
    then show ?thesis by (simp add: used_def U bu)
  qed
  have "NDIRECT < NSLOT" by (simp add: NSLOT_def)
  then have "islot i t NDIRECT \<noteq> 0 \<Longrightarrow> islot i t NDIRECT \<noteq> ?b" by (rule W(9))
  then have sl: "islot i u k = islot i t k" for k unfolding U(2,3) bu by (simp add: slot_def)
  have fz: "fs_size u = fs_size t" by (simp add: fs_size_def U)
  have fbt: "fs_blk u c" if "fs_blk t c" for c by (rule fs_blk_mono [OF that U(1,4)]) (simp add: us)
  have fm: "fs_meta u" using W(4) us unfolding fs_meta_def fz U by simp
  have wf: "file_wf i u" unfolding file_wf_def sl fz using W us fm by (auto simp: U fbt)
  have by1: "ibyte i u j = ibyte i t j" if "j div BSIZE < MAXFILE" "islot i t (slot_of (j div BSIZE)) \<noteq> 0" for j
    unfolding file_byte_def sl using W(9) [OF slot_of_less(1) [OF that(1)] that(2)] by (simp add: U(3) bu)
  have "disk_fields (dip_read (blk ?d u ?b) (i_inum ?ip) jp) = disk_fields ?ip" using R by (simp add: bu)
  moreover have "same_fs i t u" by (simp add: same_fs_def U)
  ultimately show ?thesis using r wf U(2,5) sl by1 us by (intro exI [of _ u]) (simp add: bu)
qed

section \<open>Files as byte sequences\<close>

definition file_data :: "nat \<Rightarrow> 'x kfs_scheme \<Rightarrow> u8 list" where
  "file_data i s = file_bytes (blk (log_dev s) s) (inode_at s i) 0 (unat (i_size (inode_at s i)))"

text \<open>Besides, a file has a block wherever it has bytes.\<close>

definition file_ok :: "nat \<Rightarrow> 'x kfs_scheme \<Rightarrow> bool" where
  "file_ok i s \<longleftrightarrow> file_wf i s \<and> unat (i_size (inode_at s i)) \<le> MAXFILE * BSIZE \<and>
     mapped (blk (log_dev s) s) (inode_at s i) (unat (i_size (inode_at s i)))"

lemma length_file_data: "length (file_data i s) = unat (i_size (inode_at s i))" by (simp add: file_data_def)

lemma readi_reads:
  fixes s :: "'x kfs_scheme"
  assumes "file_ok i s" "can_look s"
    and bs_def: "bs = (if unat off + unat n < 2 ^ 32 then take (unat n) (drop (unat off) (file_data i s)) else [])"
  shows "\<exists>t. readi i (KernMem acc) off n s = Ok (int (length bs), KernMem (acc @ bs)) t \<and> same_tx [] s t"
proof -
  let ?z = "i_size (inode_at s i)" and ?f = "blk (log_dev s) s" and ?ip = "inode_at s i"
  have ok: "file_wf i s" "unat ?z \<le> MAXFILE * BSIZE" "mapped ?f ?ip (unat ?z)" using assms(1) by (simp_all add: file_ok_def)
  have b: "unat off < 2 ^ 32" "unat n < 2 ^ 32" using unsigned_less [of off] unsigned_less [of n] by simp_all
  have "(unat off + unat n) mod 2 ^ 32 = (if unat off + unat n < 2 ^ 32 then unat off + unat n else unat off + unat n - 2 ^ 32)"
    using b by (simp add: le_mod_geq)
  then have ov: "off + n < off \<longleftrightarrow> \<not> unat off + unat n < 2 ^ 32"
    using b by (auto simp: word_less_nat_alt unat_word_ariths)
  have len: "length (file_data i s) = unat ?z" by (rule length_file_data)
  show ?thesis
  proof (cases "off > ?z \<or> off + n < off")
    case True
    then have "unat ?z < unat off \<or> \<not> unat off + unat n < 2 ^ 32" unfolding ov by (simp only: word_less_nat_alt)
    then have "bs = []" using len by (auto simp: bs_def)
    then show ?thesis using True same_tx_refl [of "[]" s] assms(2) by (auto simp: readi_def can_look_def)
  next
    case False
    then have "\<not> off > ?z" "\<not> off + n < off" by blast+
    then have o: "unat off \<le> unat ?z" "unat off + unat n < 2 ^ 32" unfolding ov by (simp_all only: word_less_nat_alt not_less not_not)
    then have sum: "unat (off + n) = unat off + unat n" by (simp add: unat_word_ariths)
    let ?n = "if off + n > ?z then ?z - off else n"
    have un: "unat ?n = min (unat n) (unat ?z - unat off)"
      using o unat_sub [of off ?z] by (auto simp: word_less_nat_alt word_le_nat_alt sum)
    have r: "readi i (KernMem acc) off n s = readi_loop i (KernMem acc) (unat off) 0 (unat ?n) s"
      using False by (simp add: readi_def Let_def)
    have le: "unat off + (unat ?n - 0) \<le> unat ?z" using o(1) unfolding un by simp
    have m: "mapped ?f ?ip (unat off + (unat ?n - 0))" using ok(3) le unfolding mapped_def by auto
    have bd: "unat off + (unat ?n - 0) \<le> MAXFILE * BSIZE" using le ok(2) by linarith
    from readi_loop_reads [OF assms(2) file_wfD(2) [OF ok(1)] bd le0 m] obtain t
      where t: "readi_loop i (KernMem acc) (unat off) 0 (unat ?n) s =
        Ok (int (unat ?n), KernMem (acc @ file_bytes ?f ?ip (unat off) (unat ?n))) t" "same_tx [] s t" by auto
    have "bs = file_bytes ?f ?ip (unat off) (unat ?n)"
      unfolding bs_def using o len unfolding un by (intro nth_equalityI) (auto simp: file_data_def)
    then show ?thesis using r t by auto
  qed
qed

lemma writei_written:
  fixes s :: "'x kfs_scheme"
  assumes ok: "file_ok i s" and x: "in_tx [] (6 * q + 1) s" and off: "unat off \<le> length (file_data i s)"
    and len: "unat off + length xs \<le> MAXFILE * BSIZE" and q: "unat off + length xs \<le> (unat off div BSIZE + q) * BSIZE"
  shows "\<exists>k t. writei i (KernMem xs) off (of_nat (length xs)) s = Ok (int k) t \<and> k \<le> length xs \<and>
    (k < length xs \<longrightarrow> (\<forall>m<fs_size s. used t m)) \<and>
    file_ok i t \<and> file_data i t = patch (file_data i s) (unat off) (take k xs) \<and>
    (\<forall>b. fs_blk s b \<and> (\<forall>l<NSLOT. islot i s l \<noteq> b) \<and> b \<noteq> own_iblock i s \<longrightarrow> blk (log_dev s) t b = blk (log_dev s) s b) \<and>
    (\<forall>j. j \<noteq> i \<longrightarrow> inode_at t j = inode_at s j) \<and>
    disk_fields (dip_read (blk (log_dev s) t (own_iblock i s)) (i_inum (inode_at s i)) jp) = disk_fields (inode_at t i)"
proof -
  let ?z = "i_size (inode_at s i)" and ?n = "length xs"
  have w: "file_wf i s" and z: "unat ?z \<le> MAXFILE * BSIZE" and mp: "mapped (blk (log_dev s) s) (inode_at s i) (unat ?z)"
    using ok by (simp_all add: file_ok_def)
  note il = file_wfD(1) [OF w]
  have M: "MAXFILE * BSIZE < 2 ^ 32" by (simp add: MAXFILE_def NDIRECT_def NINDIRECT_def BSIZE_def)
  have oz: "unat off \<le> unat ?z" using off by (simp add: length_file_data)
  have un: "unat (of_nat ?n :: u32) = ?n" using len M by (intro unat_of_nat32) linarith
  have sum: "unat (off + of_nat ?n) = unat off + ?n" using len M un by (simp add: unat_word_ariths)
  have g: "\<not> (off > ?z \<or> off + of_nat ?n < off)" "\<not> unat (off + of_nat ?n) > MAXFILE * BSIZE"
    using oz len sum by (simp_all add: word_less_nat_alt not_less)
  have x': "in_tx [] (6 * q) s" by (rule in_tx_le [OF x]) simp
  from writei_loop_writes [OF w x' le0 _ _ , of ?n xs "unat off"] len q obtain k t
    where k: "writei_loop i (KernMem xs) (unat off) 0 ?n s = Ok (k, unat off + k) t" "k \<le> ?n" "wrote i s t (unat off) (take k xs)"
      "k < ?n \<longrightarrow> (\<forall>m<fs_size s. used t m)" "length (logged t) \<le> length (logged s) + 6 * q" by auto
  note D = wroteD [OF k(3)] and F = same_fsD [OF wroteD(3) [OF k(3)] il]
  have lk: "length (take k xs) = k" using k(2) by simp
  have ib: "i < length (itable t)" using F(2) il by simp
  let ?z' = "max (unat ?z) (unat off + k)"
  have z': "?z' \<le> MAXFILE * BSIZE" using z len k(2) by simp
  define u where "u = (if unat off + k > unat (i_size (inode_at t i)) then upd_inode i (\<lambda>ip. ip\<lparr>i_size := of_nat (unat off + k)\<rparr>) t else t)"
  have uk: "unat (of_nat (unat off + k) :: u32) = unat off + k" using z' M by (intro unat_of_nat32) linarith
  note S = size_views [OF ib refl]
  have U: "unat (i_size (inode_at u i)) = ?z'" "islot i u l = islot i t l" "ibyte i u j = ibyte i t j" "own_iblock i u = own_iblock i s"
    "file_wf i u" "log_dev u = log_dev s" "blk (log_dev s) u = blk (log_dev s) t" "used u = used t" "fs_size u = fs_size s"
    "in_tx [] 1 u" "i_inum (inode_at u i) = i_inum (inode_at s i)" "j \<noteq> i \<Longrightarrow> inode_at u j = inode_at s j" for l j
  proof -
    have d: "log_dev t = log_dev s" and it: "itable t = (itable s)[i := (inode_at s i)\<lparr>i_addrs := i_addrs (inode_at t i)\<rparr>]"
      using D(3) by (simp_all add: same_fs_def)
    have inum: "i_inum (inode_at t i) = i_inum (inode_at s i)" by (subst F(1)) simp
    show "unat (i_size (inode_at u i)) = ?z'" using S(1) uk by (simp add: u_def F(6))
    show "islot i u l = islot i t l" "ibyte i u j = ibyte i t j" using S(2,3) by (simp_all add: u_def)
    show "own_iblock i u = own_iblock i s" using S(4) F(4) by (simp add: u_def)
    show "file_wf i u" using S(7) D(1) by (simp add: u_def)
    show "log_dev u = log_dev s" "blk (log_dev s) u = blk (log_dev s) t" "used u = used t" by (simp_all add: u_def upd_inode_views d)
    show "fs_size u = fs_size s" using S(6) F(3) by (simp add: u_def)
    have "in_tx [] (1 + 6 * q) s" using x by (simp add: add.commute)
    from in_tx_step [OF this k(3,5)] show "in_tx [] 1 u" by (simp add: u_def in_tx_def upd_inode_views) (simp add: upd_inode_def)
    show "i_inum (inode_at u i) = i_inum (inode_at s i)" using inum S(1) by (simp add: u_def)
    show "inode_at u j = inode_at s j" if "j \<noteq> i"
    proof -
      have "inode_at u j = inode_at t j" using that by (simp add: u_def upd_inode_def)
      also have "\<dots> = inode_at s j" by (subst it) (use that in simp)
      finally show ?thesis .
    qed
  qed
  obtain v where v: "iupdate i u = Ok () v" "file_wf i v" "itable v = itable u" "same_fs i u v"
      "\<forall>k. islot i v k = islot i u k" "\<forall>j. j div BSIZE < MAXFILE \<longrightarrow> islot i u (slot_of (j div BSIZE)) \<noteq> 0 \<longrightarrow> ibyte i v j = ibyte i u j"
      "\<forall>m<fs_size u. used v m = used u m" "\<forall>b. b \<noteq> own_iblock i u \<longrightarrow> blk (log_dev u) v b = blk (log_dev u) u b"
      "disk_fields (dip_read (blk (log_dev u) v (own_iblock i u)) (i_inum (inode_at u i)) jp) = disk_fields (inode_at u i)"
    using iupdate_stores [OF U(5,10), of jp] by blast
  have r: "writei i (KernMem xs) off (of_nat ?n) s = Ok (int k) v"
    using g k(1) v(1) unfolding writei_def un u_def by (simp add: Let_def)
  have I: "inode_at v i = inode_at u i" by (simp add: v(3))
  have nz: "islot i t (slot_of (j div BSIZE)) \<noteq> 0" if "j < ?z'" for j
  proof (cases "j < unat ?z")
    case True
    then have "j div BSIZE < MAXFILE" "islot i s (slot_of (j div BSIZE)) \<noteq> 0" using z mp by (auto intro: div_block_less simp: mapped_def)
    then show ?thesis using D(6) [OF slot_of_less(1)] by simp
  next
    case False
    then have "j = unat off + (j - unat off)" "j - unat off < length (take k xs)" using that oz lk by auto
    then show ?thesis using D(10) by metis
  qed
  have ok': "file_ok i v"
    unfolding file_ok_def I using v(2) z' U(1) nz v(5) U(2) I by (simp add: mapped_def)
  have byte: "ibyte i v j = patch (file_data i s) (unat off) (take k xs) ! j" if j: "j < ?z'" for j
  proof -
    have m: "j div BSIZE < MAXFILE" using j z' by (intro div_block_less) linarith
    have "ibyte i v j = ibyte i t j" using v(6) m nz [OF j] U(2,3) by simp
    also have "\<dots> = patch (file_data i s) (unat off) (take k xs) ! j"
    proof (cases "unat off \<le> j \<and> j < unat off + k")
      case True
      then have e: "j - unat off < length (take k xs)" "j - unat off < k" "unat off + (j - unat off) = j" using lk by auto
      then have "ibyte i t j = xs ! (j - unat off)" using D(11) [of "j - unat off"] by simp
      then show ?thesis using True e(2) oz k(2) by (simp add: patch_def nth_append length_file_data)
    next
      case False
      then have jz: "j < unat ?z" using j oz by auto
      then have "islot i s (slot_of (j div BSIZE)) \<noteq> 0" using mp by (simp add: mapped_def)
      then have "ibyte i t j = ibyte i s j" using D(9) [OF m] False lk by simp
      also have "\<dots> = file_data i s ! j" using jz by (simp add: file_data_def)
      finally show ?thesis using False oz jz k(2) by (auto simp: patch_def nth_append length_file_data)
    qed
    finally show ?thesis .
  qed
  have lp: "length (patch (file_data i s) (unat off) (take k xs)) = ?z'"
    using oz k(2) by (simp add: patch_def length_file_data)
  have data: "file_data i v = patch (file_data i s) (unat off) (take k xs)"
    by (rule nth_equalityI) (use byte U(1) in \<open>simp_all add: length_file_data lp I\<close>, simp add: file_data_def I)
  have oth: "blk (log_dev s) v b = blk (log_dev s) s b"
    if "fs_blk s b \<and> (\<forall>l<NSLOT. islot i s l \<noteq> b) \<and> b \<noteq> own_iblock i s" for b
    using that v(8) U(4,6,7) D(8) [of b] by simp
  have "\<forall>j. j \<noteq> i \<longrightarrow> inode_at v j = inode_at s j" using U(12) v(3) by simp
  moreover have "k < ?n \<longrightarrow> (\<forall>m<fs_size s. used v m)" using k(4) v(7) U(8,9) by simp
  moreover have "disk_fields (dip_read (blk (log_dev s) v (own_iblock i s)) (i_inum (inode_at s i)) jp) = disk_fields (inode_at v i)"
    using v(9) [unfolded U(4)] by (simp add: U(6,11) I)
  ultimately show ?thesis using r k(2) ok' data oth by blast
qed

section \<open>Properties\<close>

text \<open>
  C7. A read from a file into kernel memory returns the bytes from the offset on, as many as asked for
  and as the file has, none if offset and count overflow; it changes no block, inode or log entry.
\<close>

theorem readi_returns_content:
  fixes s :: "'x kfs_scheme"
  assumes "file_ok i s" "can_look s"
    and "bs = (if unat off + unat n < 2 ^ 32 then take (unat n) (drop (unat off) (file_data i s)) else [])"
  shows "\<exists>t. readi i (KernMem acc) off n s = Ok (int (length bs), KernMem (acc @ bs)) t \<and> same_tx [] s t"
  by (rule readi_reads) (rule assms)+

text \<open>
  C3. In a transaction with room in the log, a write of kernel memory at an offset not past the end
  of a file puts the bytes there, overwriting and then appending, all of them unless the disk has no
  free block left; the result is the number written. The blocks the file gets were free and are its
  own; no other block changes but the bitmap and the inode's, and that stores the inode as it is now.
\<close>

theorem writei_puts_bytes:
  fixes s :: "'x kfs_scheme"
  assumes "file_ok i s" "in_tx [] (6 * q + 1) s" "unat off \<le> length (file_data i s)"
    and "unat off + length xs \<le> MAXFILE * BSIZE" "unat off + length xs \<le> (unat off div BSIZE + q) * BSIZE"
  shows "\<exists>k t. writei i (KernMem xs) off (of_nat (length xs)) s = Ok (int k) t \<and> k \<le> length xs \<and>
    (k < length xs \<longrightarrow> (\<forall>m<fs_size s. used t m)) \<and>
    file_ok i t \<and> file_data i t = patch (file_data i s) (unat off) (take k xs) \<and>
    (\<forall>b. fs_blk s b \<and> (\<forall>l<NSLOT. islot i s l \<noteq> b) \<and> b \<noteq> own_iblock i s \<longrightarrow> blk (log_dev s) t b = blk (log_dev s) s b) \<and>
    (\<forall>j. j \<noteq> i \<longrightarrow> inode_at t j = inode_at s j) \<and>
    disk_fields (dip_read (blk (log_dev s) t (own_iblock i s)) (i_inum (inode_at s i)) jp) = disk_fields (inode_at t i)"
  by (rule writei_written) (rule assms)+

text \<open>A file with its first \<open>z\<close> bytes in block 47 of the file system of 2000 blocks.\<close>

definition kfs_one :: "u16 \<Rightarrow> u32 \<Rightarrow> u8 list \<Rightarrow> kfs" where
  "kfs_one ty z v = (kfs_on v)\<lparr>itable := [\<lparr>i_dev = 1, i_inum = 5, i_ref = 1, i_valid = True, i_type = ty, i_major = 0, i_minor = 0,
     i_nlink = 1, i_size = z, i_addrs = 47 # replicate 12 0\<rparr>]\<rparr>"

lemma kfs_one_fields:
  assumes "length v = 1024"
  shows
  "log_dev (kfs_one ty z v) = 1" "fsb (kfs_one ty z v) = fsb (kfs_on v)" "blk 1 (kfs_one ty z v) = (disk_on v)" "in_tx [] 30 (kfs_one ty z v)" "fs_size (kfs_one ty z v) = 2000"
  "used (kfs_one ty z v) = used (kfs_on v)" "log_start (kfs_one ty z v) = 2" "fs_meta (kfs_one ty z v)"
proof -
  show f: "log_dev (kfs_one ty z v) = 1" "fsb (kfs_one ty z v) = fsb (kfs_on v)" "blk 1 (kfs_one ty z v) = (disk_on v)" "log_start (kfs_one ty z v) = 2"
    by (simp_all add: kfs_one_def itable_views kfs_on_fields fun_eq_iff kfs_on_blk)
  show z: "fs_size (kfs_one ty z v) = 2000" using kfs_on_fields(7) by (simp add: fs_size_def f)
  show u: "used (kfs_one ty z v) = used (kfs_on v)" by (simp add: used_def fun_eq_iff f kfs_on_fields kfs_on_blk)
  show "fs_meta (kfs_one ty z v)" using kfs_on_meta by (simp add: fs_meta_def f z u kfs_on_fields)
  have "logged (kfs_one ty z v) = logged (kfs_on v)" by (simp add: kfs_one_def logged_def)
  then show "in_tx [] 30 (kfs_one ty z v)" using kfs_on_in_tx [OF assms] by (simp add: in_tx_def hlog_wf_def kfs_one_def itable_views)
qed

lemma kfs_one_ok:
  assumes v: "length v = 1024" and z: "unat z \<le> 1024" shows "file_ok 0 (kfs_one ty z v)"
proof -
  note F = kfs_one_fields [OF v, of ty z]
  have s0: "slot (disk_on v) (inode_at (kfs_one ty z v) 0) k = (if k = 0 then 47 else 0)" if "k < NSLOT" for k
    using that by (auto simp: slot_def kfs_one_def NDIRECT_def nth_Cons split: nat.split)
  have ib: "own_iblock 0 (kfs_one ty z v) = 33"
    by (simp add: IBLOCK_def kfs_one_def kfs_on_def klog.extend_def IPB_def BSIZE_def DINODE_SIZE_def NDIRECT_def word_div_def)
  have bb: "n < 2000 \<Longrightarrow> BBLOCK (of_nat n) (fsb (kfs_one ty z v)) = 46" for n unfolding F(2) by (rule kfs_on_bblock)
  have lr: "(of_nat n :: u32) \<notin> log_region 2" if "n \<in> {33, 47}" for n
  proof
    assume "(of_nat n :: u32) \<in> log_region 2"
    then obtain i where i: "i \<le> 30" "(of_nat n :: u32) = of_nat (2 + i)"
      by (auto simp: log_region_def LOGBLOCKS_def MAXOPBLOCKS_def)
    then have "n = 2 + i" using of_nat_inj32 [of n "2 + i"] that by auto
    then show False using i(1) that by auto
  qed
  have b: "fs_blk (kfs_one ty z v) 33" "fs_blk (kfs_one ty z v) 47"
    using lr [of 33] lr [of 47] bb by (auto simp: fs_blk_def F kfs_on_used)
  have ip: "0 < length (itable (kfs_one ty z v))" "i_dev (inode_at (kfs_one ty z v) 0) = 1" "length (i_addrs (inode_at (kfs_one ty z v) 0)) = NDIRECT + 1"
    by (simp_all add: kfs_one_def NDIRECT_def)
  have "\<forall>k<NSLOT. slot (disk_on v) (inode_at (kfs_one ty z v) 0) k \<noteq> 0 \<longrightarrow> fs_blk (kfs_one ty z v) (slot (disk_on v) (inode_at (kfs_one ty z v) 0) k) \<and>
      slot (disk_on v) (inode_at (kfs_one ty z v) 0) k \<noteq> 33" using s0 b by auto
  moreover have "\<forall>k<NSLOT. \<forall>l<NSLOT. slot (disk_on v) (inode_at (kfs_one ty z v) 0) k \<noteq> 0 \<and>
      slot (disk_on v) (inode_at (kfs_one ty z v) 0) k = slot (disk_on v) (inode_at (kfs_one ty z v) 0) l \<longrightarrow> k = l" using s0 by (auto split: if_splits)
  ultimately have "file_wf 0 (kfs_one ty z v)"
    unfolding file_wf_def ib using ip b(1) F(8)
    by (simp add: F(1,3,5) F(6) [unfolded kfs_one_def] F(6) kfs_on_used)
  moreover have "mapped (disk_on v) (inode_at (kfs_one ty z v) 0) (unat z)"
    unfolding mapped_def using s0 [of 0] z by (auto simp: BSIZE_def slot_of_def NDIRECT_def NSLOT_def)
  moreover have "i_size (inode_at (kfs_one ty z v) 0) = z" by (simp add: kfs_one_def)
  moreover have "unat z \<le> MAXFILE * BSIZE" using z by (simp add: MAXFILE_def NDIRECT_def BSIZE_def)
  ultimately show ?thesis by (simp add: file_ok_def F)
qed

lemma kfs_one_data:
  assumes v: "length v = 1024" and z: "unat z \<le> 1024" shows "file_data 0 (kfs_one ty z v) = take (unat z) v"
proof (rule nth_equalityI)
  have L: "length (file_data 0 (kfs_one ty z v)) = unat z" by (simp add: length_file_data kfs_one_def)
  then show "length (file_data 0 (kfs_one ty z v)) = length (take (unat z) v)" using v z by simp
  fix k assume "k < length (file_data 0 (kfs_one ty z v))"
  then have k: "k < unat z" using L by simp
  moreover have "i_size (inode_at (kfs_one ty z v) 0) = z" by (simp add: kfs_one_def)
  ultimately have "file_data 0 (kfs_one ty z v) ! k = file_byte (disk_on v) (inode_at (kfs_one ty z v) 0) k"
    by (simp add: file_data_def kfs_one_fields [OF v])
  also have "\<dots> = v ! k"
    using k z by (simp add: file_byte_def slot_of_def slot_def kfs_one_def BSIZE_def NDIRECT_def disk_on_def)
  finally show "file_data 0 (kfs_one ty z v) ! k = take (unat z) v ! k" using k v z by simp
qed

abbreviation kfs_file :: kfs where "kfs_file \<equiv> kfs_one T_FILE 3 (replicate 1024 0)"

lemma kfs_file_facts: "file_ok 0 kfs_file" "in_tx [] 30 kfs_file" "can_look kfs_file" "file_data 0 kfs_file = [0, 0, 0]"
proof -
  show x: "in_tx [] 30 kfs_file" by (rule kfs_one_fields(4)) simp
  then show "can_look kfs_file" by (simp add: can_look_def in_tx_def)
  show "file_ok 0 kfs_file" by (rule kfs_one_ok) simp_all
  have "unat (3 :: u32) = 3" "replicate 3 (0 :: u8) = [0, 0, 0]" by (simp, simp add: numeral_3_eq_3)
  then show "file_data 0 kfs_file = [0, 0, 0]" using kfs_one_data [of "replicate 1024 0" 3 T_FILE] by (simp only: length_replicate take_replicate) simp
qed

theorem readi_returns_content_witness:
  "\<exists>t. readi 0 (KernMem []) 1 10 kfs_file = Ok (2, KernMem [0, 0]) t"
  using readi_returns_content [OF kfs_file_facts(1,3) refl, of "[]" 1 10] by (auto simp: kfs_file_facts)

theorem writei_puts_bytes_witness:
  "\<exists>k t. writei 0 (KernMem [7, 8, 9]) 2 3 kfs_file = Ok (int k) t \<and> k \<le> 3 \<and> file_data 0 t = [0, 0] @ take k [7, 8, 9] @ drop k [0]"
proof -
  have x: "in_tx [] (6 * 1 + 1) kfs_file" by (rule in_tx_le [OF kfs_file_facts(2)]) simp
  have l: "unat (2 :: u32) \<le> length (file_data 0 kfs_file)" "unat (2 :: u32) + length [7, 8, 9 :: u8] \<le> MAXFILE * BSIZE"
    "unat (2 :: u32) + length [7, 8, 9 :: u8] \<le> (unat (2 :: u32) div BSIZE + 1) * BSIZE"
    by (simp_all add: kfs_file_facts(4) MAXFILE_def NDIRECT_def BSIZE_def)
  obtain k t where "writei 0 (KernMem [7, 8, 9]) 2 (of_nat (length [7, 8, 9 :: u8])) kfs_file = Ok (int k) t"
    "k \<le> length [7, 8, 9 :: u8]" "file_data 0 t = patch (file_data 0 kfs_file) (unat (2 :: u32)) (take k [7, 8, 9])"
    using writei_puts_bytes [OF kfs_file_facts(1) x l] by blast
  then show ?thesis by (intro exI [of _ k] exI [of _ t]) (auto simp: kfs_file_facts(4) patch_def min_def)
qed

end
