(* ===== verification/Fs_Dir.thy ===== *)
theory Fs_Dir
  imports Fs_Write
begin

text \<open>
  Directories as lists of entries: \<^verbatim>\<open>dirlookup\<close> answers for the first entry in use with the name.
\<close>

section \<open>Entries\<close>

text \<open>Entry \<open>k\<close> of a directory with the given bytes: inode number and the 14 bytes of the name.\<close>

definition dirent_at :: "u8 list \<Rightarrow> nat \<Rightarrow> u16 \<times> u8 list" where
  "dirent_at d k = (let e = sub_bytes d (k * DIRENT_SIZE) DIRENT_SIZE in (get16 e 0, drop 2 e))"

text \<open>It is in use, and its name is the given one as far as a name goes.\<close>

definition dir_match :: "u8 list \<Rightarrow> u8 list \<Rightarrow> nat \<Rightarrow> bool" where
  "dir_match name d k \<longleftrightarrow> fst (dirent_at d k) \<noteq> 0 \<and>
     take DIRSIZ (cstr name) = take DIRSIZ (cstr (snd (dirent_at d k)))"

lemma same_tx_keeps:
  fixes s t :: "'x kfs_scheme"
  assumes "same_tx [] s t"
  shows "file_ok i t = file_ok i s" "file_data i t = file_data i s" "can_look s \<Longrightarrow> can_look t"
proof -
  note T = same_tx_frame [OF assms]
  have B: "blk (log_dev t) t = blk (log_dev s) s" by (simp add: T)
  have f: "fs_size t = fs_size s" by (simp add: fs_size_def T)
  have u: "used t = used s" by (simp add: fun_eq_iff used_def T)
  have fb: "fs_blk t b = fs_blk s b" for b by (simp add: fs_blk_def T f u)
  have fm: "fs_meta t = fs_meta s" by (simp add: fs_meta_def T f u)
  have "file_wf i t = file_wf i s" unfolding file_wf_def B fb fm f u by (simp add: T)
  then show "file_ok i t = file_ok i s" unfolding file_ok_def B by (simp add: T)
  show "file_data i t = file_data i s" unfolding file_data_def B by (simp add: T)
  show "can_look s \<Longrightarrow> can_look t"
    using assms hlog_wfD(9) [of "[]" s] hlog_wfD(9) [of "[]" t] by (simp add: can_look_def same_tx_def same_log_def)
qed

lemma read_de_entry:
  fixes s :: "'x kfs_scheme"
  assumes "file_ok dp s" "can_look s" "length (file_data dp s) = c * DIRENT_SIZE" "k < c"
  shows "\<exists>t. read_de msg dp (k * DIRENT_SIZE) s = Ok (dirent_at (file_data dp s) k) t \<and> same_tx [] s t"
proof -
  have D: "DIRENT_SIZE = 16" by (simp add: DIRENT_SIZE_def DIRSIZ_def)
  have "length (file_data dp s) \<le> MAXFILE * BSIZE" using assms(1) by (simp add: file_ok_def length_file_data)
  also have "MAXFILE * BSIZE < 2 ^ 31" by (simp add: MAXFILE_def NDIRECT_def NINDIRECT_def BSIZE_def)
  finally have c: "c * 16 < 2 ^ 31" using assms(3) D by simp
  have k: "k * 16 + 16 \<le> c * 16" using assms(4) by simp
  have u: "unat (of_nat (k * DIRENT_SIZE) :: u32) = k * 16" unfolding D using c k by (intro unat_of_nat32) simp
  have v: "unat (of_nat DIRENT_SIZE :: u32) = 16" by (simp add: D)
  have "k * 16 + 16 < 2 ^ 32" using c k by simp
  then have r: "\<exists>t. readi dp (KernMem []) (of_nat (k * DIRENT_SIZE)) (of_nat DIRENT_SIZE) s =
      Ok (int (length (sub_bytes (file_data dp s) (k * 16) 16)), KernMem (sub_bytes (file_data dp s) (k * 16) 16)) t \<and> same_tx [] s t"
    using readi_reads [OF assms(1,2) refl, of "[]" "of_nat (k * DIRENT_SIZE)" "of_nat DIRENT_SIZE", unfolded u v]
    by (simp add: sub_bytes_def)
  have "length (sub_bytes (file_data dp s) (k * 16) 16) = 16" using assms(3) k D by simp
  then show ?thesis using r by (auto simp: read_de_def dirent_at_def D Let_def)
qed

section \<open>Looking up\<close>

lemma dirent_name_length:
  assumes "length d = c * DIRENT_SIZE" "k < c" shows "length (snd (dirent_at d k)) = DIRSIZ"
proof -
  have "k * DIRENT_SIZE + DIRENT_SIZE \<le> c * DIRENT_SIZE" using mult_le_mono1 [of "Suc k" c DIRENT_SIZE] assms(2) by simp
  then show ?thesis using assms(1) by (simp add: dirent_at_def Let_def DIRENT_SIZE_def)
qed

definition dir_probe :: "nat \<Rightarrow> u8 list \<Rightarrow> nat \<Rightarrow> 'x kfs_scheme \<Rightarrow> ((nat \<times> u32) option, 'x kfs_scheme) res" where
  "dir_probe dp name off s =
     bnd (read_de ''dirlookup read'' dp off s) (\<lambda>(inum, nm) s.
     if inum = 0 then Ok None s
     else (case namecmp name nm of
         None \<Rightarrow> oob
       | Some c \<Rightarrow> if c = 0
           then bnd (iget (i_dev (inode_at s dp)) (ucast inum) s) (\<lambda>i s. Ok (Some (i, of_nat off)) s)
           else Ok None s))"

lemma scan_dirents:
  fixes s :: "'x kfs_scheme"
  assumes "file_ok dp s" "can_look s" "length d = c * DIRENT_SIZE" "d = file_data dp s" "0 \<in> set name \<or> DIRSIZ \<le> length name"
    "set ks \<subseteq> {..<c}"
  shows "\<exists>t. same_tx [] s t \<and> scan (dir_probe dp name) (map (\<lambda>k. k * DIRENT_SIZE) ks) s =
    (case find (dir_match name d) ks of None \<Rightarrow> Ok None t
     | Some k \<Rightarrow> bnd (iget (log_dev s) (ucast (fst (dirent_at d k))) t) (\<lambda>i s. Ok (Some (i, of_nat (k * DIRENT_SIZE))) s))"
  using assms
proof (induction ks arbitrary: s)
  case Nil
  then show ?case using same_tx_refl [of "[]" s] by (auto simp: can_look_def)
next
  case (Cons k ks)
  have k: "k < c" "set ks \<subseteq> {..<c}" using Cons.prems(6) by auto
  have len: "length (file_data dp s) = c * DIRENT_SIZE" using Cons.prems(3,4) by simp
  obtain t where t: "read_de ''dirlookup read'' dp (k * DIRENT_SIZE) s = Ok (dirent_at d k) t" "same_tx [] s t"
    using read_de_entry [OF Cons.prems(1,2) len k(1)] Cons.prems(4) by blast
  note K = same_tx_keeps [OF t(2)] and F = same_tx_frame [OF t(2)]
  have dev: "i_dev (inode_at t dp) = log_dev s"
    using Cons.prems(1) F(2) by (simp add: file_ok_def file_wf_def)
  obtain inum nm where e: "dirent_at d k = (inum, nm)" by (cases "dirent_at d k")
  have ln: "length nm = DIRSIZ" using dirent_name_length [OF Cons.prems(3) k(1)] e by simp
  then obtain r where r: "namecmp name nm = Some r" "r = 0 \<longleftrightarrow> take DIRSIZ (cstr name) = take DIRSIZ (cstr nm)"
    using strncmp_zero [OF Cons.prems(5), of nm] by (auto simp: namecmp_def)
  show ?case
  proof (cases "dir_match name d k")
    case True
    then have "inum \<noteq> 0" "r = 0" using r(2) by (simp_all add: dir_match_def e)
    then have p: "dir_probe dp name (k * DIRENT_SIZE) s =
        bnd (iget (log_dev s) (ucast inum) t) (\<lambda>i s. Ok (Some (i, of_nat (k * DIRENT_SIZE))) s)"
      using t(1) r(1) by (simp add: dir_probe_def e dev)
    show ?thesis using t(2) True by (intro exI [of _ t]) (simp add: p e bnd_assoc)
  next
    case False
    then have n: "inum = 0 \<or> r \<noteq> 0" using r(2) by (auto simp: dir_match_def e)
    have kt: "file_ok dp t" "d = file_data dp t" using K(1,2) Cons.prems(1,4) by simp_all
    obtain u where u: "same_tx [] t u" "scan (dir_probe dp name) (map (\<lambda>k. k * DIRENT_SIZE) ks) t =
      (case find (dir_match name d) ks of None \<Rightarrow> Ok None u
       | Some k \<Rightarrow> bnd (iget (log_dev t) (ucast (fst (dirent_at d k))) u) (\<lambda>i s. Ok (Some (i, of_nat (k * DIRENT_SIZE))) s))"
      using Cons.IH [OF kt(1) K(3) [OF Cons.prems(2)] Cons.prems(3) kt(2) Cons.prems(5) k(2)] by blast
    have p: "dir_probe dp name (k * DIRENT_SIZE) s = Ok None t" using t(1) r(1) n by (auto simp: dir_probe_def e)
    show ?thesis
      using False u(2) [unfolded F(3)] same_tx_trans [OF t(2) u(1)] by (intro exI [of _ u]) (simp add: p)
  qed
qed

lemma dir_offs_exact:
  assumes "unat (i_size (inode_at s dp)) = c * DIRENT_SIZE"
  shows "dir_offs s dp = map (\<lambda>k. k * DIRENT_SIZE) [0..<c]"
proof -
  have "(c * DIRENT_SIZE + DIRENT_SIZE - 1) div DIRENT_SIZE = c"
    by (simp add: DIRENT_SIZE_def DIRSIZ_def)
  then show ?thesis unfolding dir_offs_def assms by simp
qed

lemma dirlookup_first:
  fixes s :: "'x kfs_scheme"
  assumes "file_ok dp s" "can_look s" "i_type (inode_at s dp) = T_DIR" "length (file_data dp s) = c * DIRENT_SIZE"
    "0 \<in> set name \<or> DIRSIZ \<le> length name"
  shows "\<exists>t. same_tx [] s t \<and> dirlookup dp name s =
    (case find (dir_match name (file_data dp s)) [0..<c] of None \<Rightarrow> Ok None t
     | Some k \<Rightarrow> bnd (iget (log_dev s) (ucast (fst (dirent_at (file_data dp s) k))) t)
         (\<lambda>i s. Ok (Some (i, of_nat (k * DIRENT_SIZE))) s))"
proof -
  have "unat (i_size (inode_at s dp)) = c * DIRENT_SIZE" using assms(4) by (simp add: length_file_data)
  from dir_offs_exact [OF this]
  have r: "dirlookup dp name s = scan (dir_probe dp name) (map (\<lambda>k. k * DIRENT_SIZE) [0..<c]) s"
    using assms(3) by (simp add: dirlookup_def dir_probe_def [abs_def])
  have "set [0..<c] \<subseteq> {..<c}" by auto
  from scan_dirents [OF assms(1,2,4) refl assms(5) this] show ?thesis unfolding r .
qed

section \<open>Property\<close>

text \<open>
  C21. A lookup in a directory whose size is a whole number of entries gets, through \<^verbatim>\<open>iget\<close>, the inode of
  the first entry that is in use and has the name, names being compared up to 14 bytes or a NUL, and
  returns its offset; without such an entry it returns null. It changes no block.
\<close>

theorem dirlookup_first_match:
  fixes s :: "'x kfs_scheme"
  assumes "file_ok dp s" "can_look s" "i_type (inode_at s dp) = T_DIR" "length (file_data dp s) = c * DIRENT_SIZE"
    "0 \<in> set name \<or> DIRSIZ \<le> length name"
  shows "\<exists>t. same_tx [] s t \<and> dirlookup dp name s =
    (case find (dir_match name (file_data dp s)) [0..<c] of None \<Rightarrow> Ok None t
     | Some k \<Rightarrow> bnd (iget (log_dev s) (ucast (fst (dirent_at (file_data dp s) k))) t)
         (\<lambda>i s. Ok (Some (i, of_nat (k * DIRENT_SIZE))) s))"
  by (rule dirlookup_first) (rule assms)+

text \<open>Entries \<^verbatim>\<open>a\<close> of inode 7, an unused one that still has the name \<^verbatim>\<open>b\<close>, and \<^verbatim>\<open>b\<close> of inode 9.\<close>

definition dir_sample :: "u8 list" where
  "dir_sample = [7, 0, 97] @ replicate 13 0 @ [0, 0, 98] @ replicate 13 0 @ [9, 0, 98] @ replicate 13 0"

theorem dirlookup_first_match_witness:
  "\<exists>t. same_tx [] (kfs_one T_DIR 48 (dir_sample @ replicate 976 0)) t \<and>
     dirlookup 0 [98, 0] (kfs_one T_DIR 48 (dir_sample @ replicate 976 0)) = bnd (iget 1 9 t) (\<lambda>i s. Ok (Some (i, 32)) s)"
proof -
  let ?v = "dir_sample @ replicate 976 0" and ?s = "kfs_one T_DIR 48 (dir_sample @ replicate 976 0)"
  have v: "length ?v = 1024" and l: "length dir_sample = 48" by (simp_all add: dir_sample_def)
  have d: "file_data 0 ?s = dir_sample" using kfs_one_data [OF v, of 48 T_DIR] l by simp
  have ok: "file_ok 0 ?s" by (rule kfs_one_ok [OF v]) simp
  have cl: "can_look ?s" using kfs_one_fields(4) [OF v, of T_DIR 48] by (simp add: can_look_def in_tx_def)
  have ty: "i_type (inode_at ?s 0) = T_DIR" by (simp add: kfs_one_def)
  have len: "length (file_data 0 ?s) = 3 * DIRENT_SIZE" using l by (simp add: d DIRENT_SIZE_def DIRSIZ_def)
  have e: "dirent_at dir_sample 0 = (7, 97 # replicate 13 0)" "dirent_at dir_sample 1 = (0, 98 # replicate 13 0)"
    "dirent_at dir_sample 2 = (9, 98 # replicate 13 0)"
    by (simp_all add: dirent_at_def dir_sample_def sub_bytes_def DIRENT_SIZE_def DIRSIZ_def get16_def)
  have "find (dir_match [98, 0] dir_sample) [0..<3] = Some 2"
    by (simp add: upt_rec dir_match_def e [simplified] numeral_2_eq_2 [symmetric] cstr_def DIRSIZ_def)
  moreover have "of_nat (2 * DIRENT_SIZE) = (32 :: u32)" by (simp add: DIRENT_SIZE_def DIRSIZ_def)
  moreover have "log_dev ?s = 1" by (rule kfs_one_fields(1) [OF v])
  ultimately show ?thesis
    using dirlookup_first_match [OF ok cl ty len, of "[98, 0]", unfolded d] e(3) by simp
qed

end
