(* ===== verification/Mkfs.thy ===== *)
theory Mkfs
  imports Fs_Data
begin

text \<open>
  \<^verbatim>\<open>mkfs/mkfs.c\<close>, which builds the file system image on the host: the image is the list of its
  sectors, a directory entry and the super block are lists of bytes, and the on-disk inode is the disk
  part of the kernel's \<open>inode\<close>. A failed assertion and \<^verbatim>\<open>die\<close> are panics; the host's files are given.
  The host is little-endian.
\<close>

section \<open>The image\<close>

definition FSSIZE :: nat where "FSSIZE = 2000"
definition NINODES :: nat where "NINODES = 200"
definition nbitmap :: nat where "nbitmap = FSSIZE div BPB + 1"
definition ninodeblocks :: nat where "ninodeblocks = NINODES div IPB + 1"
definition nlog :: nat where "nlog = LOGBLOCKS + 1"
definition nmeta :: nat where "nmeta = 2 + nlog + ninodeblocks + nbitmap"
definition nblocks :: nat where "nblocks = FSSIZE - nmeta"

record mkfs =
  img :: "u8 list list"
  freeinode :: u32
  freeblock :: u32

definition xshort :: "u16 \<Rightarrow> u16" where
  "xshort x = get16 [ucast x, ucast (drop_bit 8 x)] 0"

definition xint :: "u32 \<Rightarrow> u32" where
  "xint x = get32 [ucast x, ucast (drop_bit 8 x), ucast (drop_bit 16 x), ucast (drop_bit 24 x)] 0"

definition mk_sb :: superblock where
  "mk_sb = \<lparr>sb_magic = FSMAGIC, sb_size = xint (of_nat FSSIZE), sb_nblocks = xint (of_nat nblocks),
     sb_ninodes = xint (of_nat NINODES), sb_nlog = xint (of_nat nlog), sb_logstart = xint 2,
     sb_inodestart = xint (of_nat (2 + nlog)), sb_bmapstart = xint (of_nat (2 + nlog + ninodeblocks))\<rparr>"

definition sb_bytes :: "superblock \<Rightarrow> u8 list" where
  "sb_bytes b = concat (map bytes32 [sb_magic b, sb_size b, sb_nblocks b, sb_ninodes b, sb_nlog b, sb_logstart b,
     sb_inodestart b, sb_bmapstart b])"

text \<open>A sector past the end cannot be read; writing one makes the image longer.\<close>

definition zero_block :: "u8 list" where "zero_block = replicate BSIZE 0"

definition wsect :: "u32 \<Rightarrow> u8 list \<Rightarrow> mkfs \<Rightarrow> (unit, mkfs) res" where
  "wsect sec buf s =
     Ok () (s\<lparr>img := (img s @ replicate (Suc (unat sec) - length (img s)) zero_block)[unat sec := buf]\<rparr>)"

definition rsect :: "u32 \<Rightarrow> mkfs \<Rightarrow> (u8 list, mkfs) res" where
  "rsect sec s = (if unat sec < length (img s) then Ok (img s ! unat sec) s else Panic ''read'')"

section \<open>Inodes\<close>

definition dinode0 :: inode where
  "dinode0 = \<lparr>i_dev = 0, i_inum = 0, i_ref = 0, i_valid = False, i_type = 0, i_major = 0, i_minor = 0, i_nlink = 0,
     i_size = 0, i_addrs = replicate (NDIRECT + 1) 0\<rparr>"

definition winode :: "u32 \<Rightarrow> inode \<Rightarrow> mkfs \<Rightarrow> (unit, mkfs) res" where
  "winode inum ip s =
     bnd (rsect (IBLOCK inum mk_sb) s) (\<lambda>buf s.
     wsect (IBLOCK inum mk_sb) (patch buf (dip_off inum) (dip_bytes ip)) s)"

definition rinode :: "u32 \<Rightarrow> mkfs \<Rightarrow> (inode, mkfs) res" where
  "rinode inum s = bnd (rsect (IBLOCK inum mk_sb) s) (\<lambda>buf s. Ok (dip_read buf inum dinode0) s)"

definition mk_ialloc :: "u16 \<Rightarrow> mkfs \<Rightarrow> (u32, mkfs) res" where
  "mk_ialloc typ s =
     (let inum = freeinode s; s = s\<lparr>freeinode := freeinode s + 1\<rparr> in
      bnd (winode inum (dinode0\<lparr>i_type := xshort typ, i_nlink := xshort 1, i_size := xint 0\<rparr>) s) (\<lambda>_ s. Ok inum s))"

text \<open>The bitmap block: \<open>n\<close> bits from the first on.\<close>

definition mk_balloc :: "nat \<Rightarrow> mkfs \<Rightarrow> (unit, mkfs) res" where
  "mk_balloc n s =
     (if BPB \<le> n then Panic ''assert''
      else wsect (sb_bmapstart mk_sb)
        (fold (\<lambda>i buf. buf[i div 8 := buf ! (i div 8) OR bit_mask i]) [0..<n] zero_block) s)"

section \<open>Appending to a file\<close>

text \<open>The block for index \<open>fbn\<close> of the file, allocated if need be.\<close>

definition new_block :: "mkfs \<Rightarrow> u32 \<times> mkfs" where
  "new_block s = (freeblock s, s\<lparr>freeblock := freeblock s + 1\<rparr>)"

definition file_sector :: "nat \<Rightarrow> inode \<Rightarrow> mkfs \<Rightarrow> (u32 \<times> inode, mkfs) res" where
  "file_sector fbn din s =
     (if fbn < NDIRECT
      then let (din, s) = (if xint (i_addrs din ! fbn) = 0
             then let (b, s) = new_block s in (din\<lparr>i_addrs := (i_addrs din)[fbn := xint b]\<rparr>, s) else (din, s))
           in Ok (xint (i_addrs din ! fbn), din) s
      else let (din, s) = (if xint (i_addrs din ! NDIRECT) = 0
             then let (b, s) = new_block s in (din\<lparr>i_addrs := (i_addrs din)[NDIRECT := xint b]\<rparr>, s) else (din, s))
           in bnd (rsect (xint (i_addrs din ! NDIRECT)) s) (\<lambda>indirect s.
              let k = 4 * (fbn - NDIRECT) in
              bnd (if get32 indirect k = 0
                   then let (b, s) = new_block s; indirect = put32 indirect k (xint b) in
                     bnd (wsect (xint (i_addrs din ! NDIRECT)) indirect s) (\<lambda>_ s. Ok indirect s)
                   else Ok indirect s) (\<lambda>indirect s.
              Ok (xint (get32 indirect k), din) s)))"

function iappend_loop :: "inode \<Rightarrow> nat \<Rightarrow> u8 list \<Rightarrow> mkfs \<Rightarrow> (inode \<times> nat, mkfs) res" where
  "iappend_loop din off p s =
     (if p = [] then Ok (din, off) s
      else let fbn = off div BSIZE in
        if MAXFILE \<le> fbn then Panic ''assert''
        else bnd (file_sector fbn din s) (\<lambda>(x, din) s.
          let n1 = min (length p) ((fbn + 1) * BSIZE - off) in
          bnd (rsect x s) (\<lambda>buf s.
          bnd (wsect x (patch buf (off - fbn * BSIZE) (take n1 p)) s) (\<lambda>_ s.
          iappend_loop din (off + n1) (drop n1 p) s))))"
  by pat_completeness auto
termination
proof (relation "measure (\<lambda>(din, off, p, s). length p)", simp)
  fix din s x xa y sa buf sb sc and off :: nat and p :: "u8 list" and fbn n1
  assume p: "p \<noteq> []" and f: "fbn = off div BSIZE" and n: "n1 = min (length p) ((fbn + 1) * BSIZE - off)"
  have "off < (fbn + 1) * BSIZE" unfolding f using dividend_less_div_times [of BSIZE off] by (simp add: BSIZE_def)
  then have "0 < n1" using p n by simp
  then show "((y, off + n1, drop n1 p, sc), din, off, p, s) \<in> measure (\<lambda>(din, off, p, s). length p)"
    using p by simp
qed

declare iappend_loop.simps [simp del]

definition iappend :: "u32 \<Rightarrow> u8 list \<Rightarrow> mkfs \<Rightarrow> (unit, mkfs) res" where
  "iappend inum p s =
     bnd (rinode inum s) (\<lambda>din s.
     bnd (iappend_loop din (unat (xint (i_size din))) p s) (\<lambda>(din, off) s.
     winode inum (din\<lparr>i_size := xint (of_nat off)\<rparr>) s))"


section \<open>Building the image\<close>

text \<open>
  The arguments after the image's name, as bytes without the NUL. \<open>host a\<close> is what \<^verbatim>\<open>open\<close> and the
  following \<^verbatim>\<open>read\<close>s give for a file, chunk by chunk; \<open>None\<close> if it cannot be opened.
\<close>

definition direntry :: "u32 \<Rightarrow> u8 list \<Rightarrow> u8 list" where
  "direntry inum name = bytes16 (xshort (ucast inum)) @ take DIRSIZ name @ replicate (DIRSIZ - length name) 0"

fun append_chunks :: "u32 \<Rightarrow> u8 list list \<Rightarrow> mkfs \<Rightarrow> (unit, mkfs) res" where
  "append_chunks inum [] s = Ok () s"
| "append_chunks inum (c # cs) s = (if c = [] then Ok () s else bnd (iappend inum c s) (\<lambda>_ s. append_chunks inum cs s))"

definition strip_user :: "u8 list \<Rightarrow> u8 list" where
  "strip_user a = (if take 5 a = [117, 115, 101, 114, 47] then drop 5 a else a)"

definition skip_underscore :: "u8 list \<Rightarrow> u8 list" where
  "skip_underscore n = (if n \<noteq> [] \<and> hd n = 95 then tl n else n)"

definition add_file :: "(u8 list \<Rightarrow> u8 list list option) \<Rightarrow> u8 list \<Rightarrow> mkfs \<Rightarrow> (unit, mkfs) res" where
  "add_file host a s =
     (let n = strip_user a in
      if 47 \<in> set n then Panic ''assert''
      else case host a of None \<Rightarrow> Panic ''open''
      | Some chunks \<Rightarrow>
          let n = skip_underscore n in
          if DIRSIZ < length n then Panic ''assert''
          else bnd (mk_ialloc T_FILE s) (\<lambda>inum s.
               bnd (iappend ROOTINO (direntry inum n) s) (\<lambda>_ s. append_chunks inum chunks s)))"

definition fix_root :: "mkfs \<Rightarrow> (unit, mkfs) res" where
  "fix_root s =
     bnd (rinode ROOTINO s) (\<lambda>din s.
     let off = xint (i_size din); off = (off div of_nat BSIZE + 1) * of_nat BSIZE in
     winode ROOTINO (din\<lparr>i_size := xint off\<rparr>) s)"

definition mkfs_main :: "(u8 list \<Rightarrow> u8 list list option) \<Rightarrow> u8 list list \<Rightarrow> (unit, mkfs) res" where
  "mkfs_main host args =
     bnd (foreach (\<lambda>i. wsect (of_nat i) zero_block) [0..<FSSIZE] \<lparr>img = [], freeinode = 1, freeblock = of_nat nmeta\<rparr>) (\<lambda>_ s.
     bnd (wsect 1 (patch zero_block 0 (sb_bytes mk_sb)) s) (\<lambda>_ s.
     bnd (mk_ialloc T_DIR s) (\<lambda>rootino s.
     if rootino \<noteq> ROOTINO then Panic ''assert''
     else bnd (iappend rootino (direntry rootino [46]) s) (\<lambda>_ s.
     bnd (iappend rootino (direntry rootino [46, 46]) s) (\<lambda>_ s.
     bnd (foreach (add_file host) args s) (\<lambda>_ s.
     bnd (fix_root s) (\<lambda>_ s. mk_balloc (unat (freeblock s)) s)))))))"

end
