(* ===== verification/Mkfs_Append.thy ===== *)
theory Mkfs_Append
  imports Mkfs
begin

text \<open>
  \<^verbatim>\<open>iappend\<close> of the image builder: the blocks a file gets, exactly as many as its size needs, and the
  bytes in them.
\<close>

section \<open>Sectors and fields\<close>

lemma xint_id [simp]: "xint x = x"
  using get32_bytes32 [of x "[]"] by (simp add: xint_def bytes32_def)

lemma xshort_id [simp]: "xshort x = x"
  using get16_bytes16 [of x "[]"] by (simp add: xshort_def bytes16_def)

lemma layout: "nbitmap = 1" "ninodeblocks = 13" "nlog = 31" "nmeta = 47" "nblocks = 1953" "sb_inodestart mk_sb = 33"
  "sb_bmapstart mk_sb = 46"
  by (simp_all add: nbitmap_def ninodeblocks_def nlog_def nmeta_def nblocks_def mk_sb_def FSSIZE_def NINODES_def
      fs_param_defs LOGBLOCKS_def MAXOPBLOCKS_def)

definition sector :: "mkfs \<Rightarrow> u32 \<Rightarrow> u8 list" where "sector s b = img s ! unat b"

definition put_sector :: "u32 \<Rightarrow> u8 list \<Rightarrow> mkfs \<Rightarrow> mkfs" where
  "put_sector b buf s = s\<lparr>img := (img s)[unat b := buf]\<rparr>"

text \<open>The image has all its sectors, and those not handed out yet are zero.\<close>

definition img_ok :: "mkfs \<Rightarrow> bool" where
  "img_ok s \<longleftrightarrow> length (img s) = FSSIZE \<and> (\<forall>b<FSSIZE. length (img s ! b) = BSIZE) \<and> nmeta \<le> unat (freeblock s) \<and>
     unat (freeblock s) \<le> FSSIZE \<and> (\<forall>b<FSSIZE. unat (freeblock s) \<le> b \<longrightarrow> img s ! b = zero_block)"

lemma img_okD:
  assumes "img_ok s"
  shows "length (img s) = FSSIZE" "unat b < FSSIZE \<Longrightarrow> length (sector s b) = BSIZE" "nmeta \<le> unat (freeblock s)"
    "unat (freeblock s) \<le> FSSIZE" "unat b < FSSIZE \<Longrightarrow> unat (freeblock s) \<le> unat b \<Longrightarrow> sector s b = zero_block"
  using assms unfolding img_ok_def sector_def by blast+

lemma rsect_ok: "img_ok s \<Longrightarrow> unat b < FSSIZE \<Longrightarrow> rsect b s = Ok (sector s b) s"
  by (simp add: rsect_def img_ok_def sector_def)

lemma wsect_ok: "img_ok s \<Longrightarrow> unat b < FSSIZE \<Longrightarrow> wsect b buf s = Ok () (put_sector b buf s)"
  by (simp add: wsect_def img_ok_def put_sector_def)

lemma put_sector_fields [simp]:
  "freeblock (put_sector b buf s) = freeblock s" "freeinode (put_sector b buf s) = freeinode s"
  by (simp_all add: put_sector_def)

lemma sector_put: "img_ok s \<Longrightarrow> unat b < FSSIZE \<Longrightarrow> sector (put_sector b buf s) = (sector s)(b := buf)"
  by (auto simp: fun_eq_iff sector_def put_sector_def img_ok_def nth_list_update word_unat_eq_iff)

lemma img_ok_put: "img_ok s \<Longrightarrow> unat b < unat (freeblock s) \<Longrightarrow> length buf = BSIZE \<Longrightarrow> img_ok (put_sector b buf s)"
  by (auto simp: img_ok_def put_sector_def nth_list_update)

lemma sector_other [simp]: "sector (s\<lparr>freeblock := b\<rparr>) = sector s" "sector (s\<lparr>freeinode := i\<rparr>) = sector s"
  by (simp_all add: sector_def fun_eq_iff)

lemma freeblock_Suc: "unat (freeblock s) < FSSIZE \<Longrightarrow> unat (freeblock s + 1) = Suc (unat (freeblock s))"
  unfolding FSSIZE_def by (subst unat_add_lem [THEN iffD1]) simp_all

lemma img_ok_new: "img_ok s \<Longrightarrow> unat (freeblock s) < FSSIZE \<Longrightarrow> img_ok (s\<lparr>freeblock := freeblock s + 1\<rparr>)"
  using freeblock_Suc [of s] by (auto simp: img_ok_def)

section \<open>The blocks of a file being written\<close>

lemma BSIZE_pos: "0 < BSIZE" by (simp add: BSIZE_def)

abbreviation mslot :: "mkfs \<Rightarrow> inode \<Rightarrow> nat \<Rightarrow> u32" where "mslot s \<equiv> slot (sector s)"

abbreviation mbyte :: "mkfs \<Rightarrow> inode \<Rightarrow> nat \<Rightarrow> u8" where "mbyte s \<equiv> file_byte (sector s)"

text \<open>The slots in use are those of \<open>K\<close>, with different data blocks handed out before.\<close>

definition owns :: "nat set \<Rightarrow> inode \<Rightarrow> mkfs \<Rightarrow> bool" where
  "owns K ip s \<longleftrightarrow> img_ok s \<and> length (i_addrs ip) = NDIRECT + 1 \<and> K \<subseteq> {..<NSLOT} \<and>
     (\<forall>k<NSLOT. mslot s ip k \<noteq> 0 \<longleftrightarrow> k \<in> K) \<and>
     (\<forall>k\<in>K. nmeta \<le> unat (mslot s ip k) \<and> unat (mslot s ip k) < unat (freeblock s)) \<and> inj_on (mslot s ip) K"

lemma ownsD:
  assumes "owns K ip s"
  shows "img_ok s" "length (i_addrs ip) = NDIRECT + 1" "k \<in> K \<Longrightarrow> k < NSLOT" "k < NSLOT \<Longrightarrow> mslot s ip k \<noteq> 0 \<longleftrightarrow> k \<in> K"
    "k \<in> K \<Longrightarrow> nmeta \<le> unat (mslot s ip k)" "k \<in> K \<Longrightarrow> unat (mslot s ip k) < unat (freeblock s)"
    "k \<in> K \<Longrightarrow> l \<in> K \<Longrightarrow> mslot s ip k = mslot s ip l \<Longrightarrow> k = l"
  using assms unfolding owns_def inj_on_def by blast+

lemma owns_range: "owns K ip s \<Longrightarrow> k \<in> K \<Longrightarrow> unat (mslot s ip k) < FSSIZE"
  by (meson ownsD(1,6) img_okD(4) less_le_trans)

lemma owns_indirect: "owns K ip s \<Longrightarrow> k \<in> K \<Longrightarrow> NDIRECT < k \<Longrightarrow> NDIRECT \<in> K"
  using ownsD(3,4) [of K ip s k] ownsD(4) [of K ip s NDIRECT] by (auto simp: slot_def NSLOT_def)

text \<open>
  From \<open>s\<close> to \<open>t\<close> the file of inode \<open>ip\<close>, now \<open>jp\<close>, has got the bytes \<open>xs\<close> at offset \<open>a\<close>, in its blocks and in new
  ones, which are zero elsewhere.
\<close>

definition appended :: "inode \<Rightarrow> mkfs \<Rightarrow> nat \<Rightarrow> u8 list \<Rightarrow> inode \<Rightarrow> mkfs \<Rightarrow> bool" where
  "appended ip s a xs jp t \<longleftrightarrow> freeinode t = freeinode s \<and> unat (freeblock s) \<le> unat (freeblock t) \<and>
     jp = ip\<lparr>i_addrs := i_addrs jp\<rparr> \<and> a + length xs \<le> MAXFILE * BSIZE \<and>
     (\<forall>k<NSLOT. mslot s ip k \<noteq> 0 \<longrightarrow> mslot t jp k = mslot s ip k) \<and>
     (\<forall>k<NSLOT. mslot t jp k = mslot s ip k \<or> unat (freeblock s) \<le> unat (mslot t jp k)) \<and>
     (\<forall>b. unat b < unat (freeblock s) \<and> (\<forall>k<NSLOT. mslot s ip k \<noteq> b) \<longrightarrow> sector t b = sector s b) \<and>
     (\<forall>j. j div BSIZE < MAXFILE \<and> mslot s ip (slot_of (j div BSIZE)) \<noteq> 0 \<and> \<not> (a \<le> j \<and> j < a + length xs) \<longrightarrow>
        mbyte t jp j = mbyte s ip j) \<and>
     (\<forall>j. j div BSIZE < MAXFILE \<and> mslot s ip (slot_of (j div BSIZE)) = 0 \<and> mslot t jp (slot_of (j div BSIZE)) \<noteq> 0 \<and>
        \<not> (a \<le> j \<and> j < a + length xs) \<longrightarrow> mbyte t jp j = 0) \<and>
     (\<forall>k<length xs. mslot t jp (slot_of ((a + k) div BSIZE)) \<noteq> 0 \<and> mbyte t jp (a + k) = xs ! k)"

lemma appendedD:
  assumes "appended ip s a xs jp t"
  shows "freeinode t = freeinode s" "unat (freeblock s) \<le> unat (freeblock t)" "jp = ip\<lparr>i_addrs := i_addrs jp\<rparr>"
    "a + length xs \<le> MAXFILE * BSIZE" "k < NSLOT \<Longrightarrow> mslot s ip k \<noteq> 0 \<Longrightarrow> mslot t jp k = mslot s ip k"
    "k < NSLOT \<Longrightarrow> mslot t jp k \<noteq> mslot s ip k \<Longrightarrow> unat (freeblock s) \<le> unat (mslot t jp k)"
    "unat b < unat (freeblock s) \<Longrightarrow> \<forall>k<NSLOT. mslot s ip k \<noteq> b \<Longrightarrow> sector t b = sector s b"
    "j div BSIZE < MAXFILE \<Longrightarrow> mslot s ip (slot_of (j div BSIZE)) \<noteq> 0 \<Longrightarrow> \<not> (a \<le> j \<and> j < a + length xs) \<Longrightarrow>
       mbyte t jp j = mbyte s ip j"
    "j div BSIZE < MAXFILE \<Longrightarrow> mslot s ip (slot_of (j div BSIZE)) = 0 \<Longrightarrow> mslot t jp (slot_of (j div BSIZE)) \<noteq> 0 \<Longrightarrow>
       \<not> (a \<le> j \<and> j < a + length xs) \<Longrightarrow> mbyte t jp j = 0"
    "n < length xs \<Longrightarrow> mslot t jp (slot_of ((a + n) div BSIZE)) \<noteq> 0" "n < length xs \<Longrightarrow> mbyte t jp (a + n) = xs ! n"
  using assms unfolding appended_def by (elim conjE; blast)+

lemma appended_refl: "a \<le> MAXFILE * BSIZE \<Longrightarrow> appended ip s a [] ip s"
  by (simp add: appended_def)

lemma appended_trans:
  assumes 1: "appended ip s a xs jp t" and 2: "appended jp t (a + length xs) ys kp u"
  shows "appended ip s a (xs @ ys) kp u"
proof -
  note D1 = appendedD [OF 1] and D2 = appendedD [OF 2]
  have kp: "kp = ip\<lparr>i_addrs := i_addrs kp\<rparr>" by (subst D2(3), subst D1(3)) simp
  have bd: "a + length (xs @ ys) \<le> MAXFILE * BSIZE" using D2(4) by simp
  have new: "mslot u kp k = mslot s ip k \<or> unat (freeblock s) \<le> unat (mslot u kp k)" if "k < NSLOT" for k
    using D1(2) D1(6) [OF that] D2(6) [OF that] by force
  have other: "sector u b = sector s b" if b: "unat b < unat (freeblock s)" "\<forall>k<NSLOT. mslot s ip k \<noteq> b" for b
  proof -
    have "\<forall>k<NSLOT. mslot t jp k \<noteq> b" using D1(6) b by (metis not_less)
    then have "sector u b = sector t b" using D2(7) [of b] b(1) D1(2) by simp
    then show ?thesis using D1(7) [OF b] by simp
  qed
  have kept: "mbyte u kp j = mbyte s ip j"
    if j: "j div BSIZE < MAXFILE" "mslot s ip (slot_of (j div BSIZE)) \<noteq> 0" "\<not> (a \<le> j \<and> j < a + length (xs @ ys))" for j
  proof -
    have "mslot t jp (slot_of (j div BSIZE)) \<noteq> 0" using D1(5) [OF slot_of_less(1) [OF j(1)] j(2)] j(2) by simp
    moreover have "\<not> (a + length xs \<le> j \<and> j < a + length xs + length ys)" using j(3) by auto
    ultimately have "mbyte u kp j = mbyte t jp j" by (rule D2(8) [OF j(1)])
    also have "\<not> (a \<le> j \<and> j < a + length xs)" using j(3) by auto
    then have "mbyte t jp j = mbyte s ip j" by (rule D1(8) [OF j(1,2)])
    finally show ?thesis .
  qed
  have zero: "mbyte u kp j = 0"
    if j: "j div BSIZE < MAXFILE" "mslot s ip (slot_of (j div BSIZE)) = 0" "mslot u kp (slot_of (j div BSIZE)) \<noteq> 0"
      "\<not> (a \<le> j \<and> j < a + length (xs @ ys))" for j
  proof -
    have o: "\<not> (a \<le> j \<and> j < a + length xs)" "\<not> (a + length xs \<le> j \<and> j < a + length xs + length ys)" using j(4) by auto
    show ?thesis
    proof (cases "mslot t jp (slot_of (j div BSIZE)) = 0")
      case True
      then show ?thesis by (rule D2(9) [OF j(1) _ j(3) o(2)])
    next
      case False
      then show ?thesis using D2(8) [OF j(1) False o(2)] D1(9) [OF j(1,2) False o(1)] by simp
    qed
  qed
  have wr: "mslot u kp (slot_of ((a + k) div BSIZE)) \<noteq> 0 \<and> mbyte u kp (a + k) = (xs @ ys) ! k" if k: "k < length (xs @ ys)" for k
  proof (cases "k < length xs")
    case True
    have m: "(a + k) div BSIZE < MAXFILE" using bd k by (intro div_block_less) simp
    note nz = D1(10) [OF True]
    have "mbyte u kp (a + k) = mbyte t jp (a + k)" using D2(8) [OF m nz] True by simp
    then show ?thesis using D2(5) [OF slot_of_less(1) [OF m] nz] nz D1(11) [OF True] True by (simp add: nth_append)
  next
    case False
    then have "k - length xs < length ys" "a + length xs + (k - length xs) = a + k" using k by simp_all
    then show ?thesis using D2(10,11) [of "k - length xs"] False by (simp add: nth_append)
  qed
  have same: "mslot u kp k = mslot s ip k" if "k < NSLOT" "mslot s ip k \<noteq> 0" for k
    using D1(5) [OF that] D2(5) [OF that(1)] that(2) by simp
  have "freeinode u = freeinode s" "unat (freeblock s) \<le> unat (freeblock u)" using D1(1,2) D2(1,2) by simp_all
  then show ?thesis
    unfolding appended_def using kp bd same new other kept zero wr by (intro conjI allI impI) blast+
qed


text \<open>Slot \<open>k0\<close> was empty and has got the next free sector.\<close>

lemma grow_appended:
  assumes w: "owns K ip s" and t: "img_ok t" "freeinode t = freeinode s" "unat (freeblock t) = Suc (unat (freeblock s))"
    and jp: "jp = ip\<lparr>i_addrs := i_addrs jp\<rparr>" "length (i_addrs jp) = NDIRECT + 1"
    and k0: "k0 < NSLOT" "k0 \<notin> K" "\<And>k. k < NSLOT \<Longrightarrow> mslot t jp k = (if k = k0 then freeblock s else mslot s ip k)"
    and bs: "\<And>b. unat b < unat (freeblock s) \<Longrightarrow> b \<noteq> mslot s ip NDIRECT \<Longrightarrow> sector t b = sector s b"
    and z: "sector t (freeblock s) = zero_block"
    and a: "a \<le> MAXFILE * BSIZE"
  shows "owns (insert k0 K) jp t \<and> appended ip s a [] jp t"
proof
  note W = ownsD [OF w]
  have fb: "nmeta \<le> unat (freeblock s)" "freeblock s \<noteq> 0" using img_okD(3) [OF W(1)] by (auto simp: layout)
  have ne: "mslot s ip k \<noteq> freeblock s" if "k \<in> K" for k using W(6) [OF that] by auto
  have sl: "mslot t jp k = mslot s ip k" if "k \<in> K" for k using k0(2) k0(3) [OF W(3) [OF that]] that by auto
  have slk: "mslot t jp k0 = freeblock s" using k0(3) [OF k0(1)] by simp
  have sub: "insert k0 K \<subseteq> {..<NSLOT}" using k0(1) W(3) by auto
  have nz: "mslot t jp k \<noteq> 0 \<longleftrightarrow> k \<in> insert k0 K" if "k < NSLOT" for k
    using k0(3) [OF that] W(4) [OF that] fb(2) by auto
  have rng: "nmeta \<le> unat (mslot t jp k) \<and> unat (mslot t jp k) < unat (freeblock t)" if "k \<in> insert k0 K" for k
    using that W(5,6) [of k] sl [of k] slk fb(1) t(3) by (cases "k = k0") auto
  have "inj_on (mslot t jp) K" using w sl unfolding owns_def by (metis inj_on_cong)
  moreover have "freeblock s \<notin> mslot t jp ` K" using ne sl by (metis imageE)
  ultimately have inj: "inj_on (mslot t jp) (insert k0 K)" using slk k0(2) by (simp add: inj_on_insert)
  show "owns (insert k0 K) jp t"
    unfolding owns_def using t(1) jp(2) sub nz rng inj by (intro conjI allI ballI impI) (blast | rule assms)+
  have keep: "mbyte t jp j = mbyte s ip j" if j: "j div BSIZE < MAXFILE" "mslot s ip (slot_of (j div BSIZE)) \<noteq> 0" for j
  proof -
    let ?k = "slot_of (j div BSIZE)"
    have kK: "?k \<in> K" using W(4) [OF slot_of_less(1) [OF j(1)]] j(2) by simp
    have "mslot s ip ?k \<noteq> mslot s ip NDIRECT"
    proof
      assume e: "mslot s ip ?k = mslot s ip NDIRECT"
      then have "NDIRECT \<in> K" using W(4) [of NDIRECT] j(2) by (simp add: NSLOT_def)
      from W(7) [OF kK this e] show False using slot_of_less(2) by simp
    qed
    from bs [OF W(6) [OF kK] this] show ?thesis unfolding file_byte_def sl [OF kK] by simp
  qed
  have oth: "sector t b = sector s b" if "unat b < unat (freeblock s)" "\<forall>k<NSLOT. mslot s ip k \<noteq> b" for b
  proof -
    have "NDIRECT < NSLOT" by (simp add: NSLOT_def)
    then show ?thesis using bs [OF that(1)] that(2) by metis
  qed
  have kp: "mslot t jp k = mslot s ip k" if "k < NSLOT" "mslot s ip k \<noteq> 0" for k
    using k0(3) [OF that(1)] k0(2) W(4) [OF that(1)] that(2) by auto
  have new: "mslot t jp k = mslot s ip k \<or> unat (freeblock s) \<le> unat (mslot t jp k)" if "k < NSLOT" for k
    using k0(3) [OF that] by simp
  have zero: "mbyte t jp j = 0" if "j div BSIZE < MAXFILE" "mslot s ip (slot_of (j div BSIZE)) = 0"
      "mslot t jp (slot_of (j div BSIZE)) \<noteq> 0" for j
    using k0(3) [OF slot_of_less(1) [OF that(1)]] that(2,3) z BSIZE_pos
    by (simp add: file_byte_def zero_block_def split: if_splits)
  have le: "unat (freeblock s) \<le> unat (freeblock t)" using t(3) by simp
  show "appended ip s a [] jp t"
    unfolding appended_def using t(2) le jp(1) a kp oth keep new zero by (intro conjI allI impI) (blast | simp)+
qed

definition grab :: "nat \<Rightarrow> inode \<times> mkfs \<Rightarrow> inode \<times> mkfs" where
  "grab k = (\<lambda>(ip, s). if i_addrs ip ! k = 0 then (ip\<lparr>i_addrs := (i_addrs ip)[k := freeblock s]\<rparr>, s\<lparr>freeblock := freeblock s + 1\<rparr>)
     else (ip, s))"

lemma grab_grows:
  assumes w: "owns K ip s" and k: "k \<le> NDIRECT" and room: "k \<notin> K \<Longrightarrow> unat (freeblock s) < FSSIZE" and a: "a \<le> MAXFILE * BSIZE"
    and r: "(jp, t) = grab k (ip, s)"
  shows "owns (insert k K) jp t" "appended ip s a [] jp t" "i_addrs jp ! k = mslot t jp k"
    "unat (freeblock t) = unat (freeblock s) + (if k \<in> K then 0 else 1)"
proof -
  note W = ownsD [OF w]
  have ks: "k < NSLOT" and sk: "mslot s ip k = i_addrs ip ! k" using k by (simp_all add: NSLOT_def slot_def)
  have kk: "k \<in> K \<longleftrightarrow> i_addrs ip ! k \<noteq> 0" using W(4) [OF ks] sk by simp
  have "(owns (insert k K) jp t \<and> appended ip s a [] jp t) \<and> unat (freeblock t) = unat (freeblock s) + (if k \<in> K then 0 else 1)"
  proof (cases "k \<in> K")
    case True
    then show ?thesis using r w kk appended_refl [OF a] by (simp add: grab_def insert_absorb)
  next
    case False
    note fb = room [OF False]
    have j: "jp = ip\<lparr>i_addrs := (i_addrs ip)[k := freeblock s]\<rparr>" "t = s\<lparr>freeblock := freeblock s + 1\<rparr>"
      using r False kk by (simp_all add: grab_def)
    have S: "unat (freeblock t) = Suc (unat (freeblock s))" using freeblock_Suc [OF fb] by (simp add: j)
    have ok: "img_ok t" unfolding j by (rule img_ok_new [OF W(1) fb])
    have z: "sector t (freeblock s) = replicate BSIZE 0" using img_okD(5) [OF W(1) fb] by (simp add: j zero_block_def)
    have sl: "mslot t jp l = (if l = k then freeblock s else mslot s ip l)" if "l < NSLOT" for l
      using slot_set [where f = "sector s" and g = "sector t" and v = "freeblock s", OF k W(2) _ that z] False kk sk
      by (simp add: j)
    have "owns (insert k K) jp t \<and> appended ip s a [] jp t"
      by (rule grow_appended [OF w ok _ S _ _ ks False sl _ _ a]) (use z in \<open>simp_all add: j W(2) zero_block_def\<close>)
    then show ?thesis using S False by simp
  qed
  then show "owns (insert k K) jp t" "appended ip s a [] jp t"
    "unat (freeblock t) = unat (freeblock s) + (if k \<in> K then 0 else 1)" by blast+
  show "i_addrs jp ! k = mslot t jp k" using k by (simp add: slot_def)
qed


text \<open>The entry of the indirect block, which is there.\<close>

definition grab_entry :: "nat \<Rightarrow> inode \<Rightarrow> mkfs \<Rightarrow> (u8 list, mkfs) res" where
  "grab_entry e ip s = bnd (rsect (i_addrs ip ! NDIRECT) s) (\<lambda>indirect s.
     if get32 indirect (4 * e) = 0
     then let indirect = put32 indirect (4 * e) (freeblock s); s = s\<lparr>freeblock := freeblock s + 1\<rparr> in
       bnd (wsect (i_addrs ip ! NDIRECT) indirect s) (\<lambda>_ s. Ok indirect s)
     else Ok indirect s)"

lemma file_sector_grab:
  "file_sector n ip s =
     (if n < NDIRECT then let (ip, s) = grab n (ip, s) in Ok (i_addrs ip ! n, ip) s
      else let (ip, s) = grab NDIRECT (ip, s) in
        bnd (grab_entry (n - NDIRECT) ip s) (\<lambda>indirect s. Ok (get32 indirect (4 * (n - NDIRECT)), ip) s))"
  by (simp add: file_sector_def grab_def grab_entry_def new_block_def Let_def bnd_assoc cong: if_cong split: prod.split)

lemma grab_entry_grows:
  assumes w: "owns K ip s" and i: "NDIRECT \<in> K" and e: "e < NINDIRECT" and a: "a \<le> MAXFILE * BSIZE"
    and room: "e + NDIRECT + 1 \<notin> K \<Longrightarrow> unat (freeblock s) < FSSIZE"
  shows "\<exists>indirect t. grab_entry e ip s = Ok indirect t \<and> get32 indirect (4 * e) = mslot t ip (e + NDIRECT + 1) \<and>
    owns (insert (e + NDIRECT + 1) K) ip t \<and> appended ip s a [] ip t \<and>
    unat (freeblock t) = unat (freeblock s) + (if e + NDIRECT + 1 \<in> K then 0 else 1)"
proof -
  note W = ownsD [OF w]
  let ?k = "e + NDIRECT + 1" and ?ind = "mslot s ip NDIRECT"
  have ks: "?k < NSLOT" using e by (simp add: NSLOT_def)
  have ad: "i_addrs ip ! NDIRECT = ?ind" by (simp add: slot_def)
  have z: "?ind \<noteq> 0" using W(4) [of NDIRECT] i by (simp add: NSLOT_def)
  have ir: "unat ?ind < FSSIZE" by (rule owns_range [OF w i])
  have L: "length (sector s ?ind) = BSIZE" by (rule img_okD(2) [OF W(1) ir])
  have en: "get32 (sector s ?ind) (4 * e) = mslot s ip ?k" by (rule slot_entry [OF z, symmetric])
  show ?thesis
  proof (cases "?k \<in> K")
    case True
    then have "mslot s ip ?k \<noteq> 0" using W(4) [OF ks] by simp
    then show ?thesis using w en True rsect_ok [OF W(1) ir] appended_refl [OF a]
      by (simp add: grab_entry_def ad insert_absorb)
  next
    case False
    note fb = room [OF False]
    have z0: "mslot s ip ?k = 0" using W(4) [OF ks] False by simp
    let ?v = "put32 (sector s ?ind) (4 * e) (freeblock s)" and ?s = "s\<lparr>freeblock := freeblock s + 1\<rparr>"
    let ?t = "put_sector ?ind ?v ?s"
    note F = freeblock_Suc [OF fb] and ok = img_ok_new [OF W(1) fb]
    have e4: "4 * e + 4 \<le> BSIZE" using e by (simp add: NINDIRECT_def BSIZE_def)
    have lt: "unat ?ind < unat (freeblock s)" by (rule W(6) [OF i])
    have S: "sector ?t = (sector s)(?ind := ?v)" using sector_put [OF ok ir] by simp
    have r: "grab_entry e ip s = Ok ?v ?t"
      using rsect_ok [OF W(1) ir] wsect_ok [OF ok ir] en z0 by (simp add: grab_entry_def ad Let_def)
    have okt: "img_ok ?t" using L e4 lt F by (intro img_ok_put [OF ok]) simp_all
    have sl: "mslot ?t ip k = (if k = ?k then freeblock s else mslot s ip k)" if "k < NSLOT" for k
      by (rule slot_put [OF _ L e z that]) (simp add: S)
    have "owns (insert ?k K) ip ?t \<and> appended ip s a [] ip ?t"
      by (rule grow_appended [OF w okt _ _ _ W(2) ks False sl _ _ a])
        (use lt img_okD(5) [OF W(1) fb] in \<open>auto simp: F S\<close>)
    moreover have "get32 ?v (4 * e) = mslot ?t ip ?k" using sl [OF ks] L e4 by simp
    ultimately show ?thesis using r F False by (intro exI [of _ ?v] exI [of _ ?t]) simp
  qed
qed

text \<open>The slots a file of a given size uses.\<close>

definition needs :: "nat \<Rightarrow> nat set" where
  "needs z = {k. k < NSLOT \<and> (if k \<le> NDIRECT then k else k - 1) * BSIZE < z}"

definition nblk :: "nat \<Rightarrow> nat" where
  "nblk z = (z + BSIZE - 1) div BSIZE + (if NDIRECT * BSIZE < z then 1 else 0)"

definition new_slots :: "nat \<Rightarrow> nat set" where
  "new_slots n = insert (slot_of n) (if n < NDIRECT then {} else {NDIRECT})"

lemma file_sector_grows:
  assumes w: "owns K ip s" and n: "n < MAXFILE" and a: "a \<le> MAXFILE * BSIZE"
    and room: "unat (freeblock s) + card (new_slots n - K) \<le> FSSIZE"
  shows "\<exists>jp t. file_sector n ip s = Ok (mslot t jp (slot_of n), jp) t \<and> owns (new_slots n \<union> K) jp t \<and> appended ip s a [] jp t \<and>
    unat (freeblock t) = unat (freeblock s) + card (new_slots n - K)"
proof (cases "n < NDIRECT")
  case True
  then have k: "n \<le> NDIRECT" "slot_of n = n" "new_slots n = {n}" by (simp_all add: slot_of_def new_slots_def)
  have c: "card (new_slots n - K) = (if n \<in> K then 0 else 1)" by (simp add: k insert_Diff_if)
  obtain jp t where g: "(jp, t) = grab n (ip, s)" by (metis surj_pair)
  have "unat (freeblock s) < FSSIZE" if "n \<notin> K" using room that by (simp add: c)
  note G = grab_grows [OF w k(1) this a g]
  have "file_sector n ip s = Ok (mslot t jp n, jp) t" using True G(3) by (simp add: file_sector_grab g [symmetric])
  moreover have "new_slots n \<union> K = insert n K" by (simp add: k)
  ultimately show ?thesis using G(1,2,4) unfolding c k(2) by auto
next
  case False
  define e where "e = n - NDIRECT"
  then have e: "e < NINDIRECT" "slot_of n = e + NDIRECT + 1" "n - NDIRECT = e"
    using n False by (simp_all add: MAXFILE_def slot_of_def)
  let ?k = "e + NDIRECT + 1"
  have ns: "new_slots n = {?k, NDIRECT}" using False e(2) by (simp add: new_slots_def)
  have c: "card (new_slots n - K) = (if NDIRECT \<in> K then 0 else 1) + (if ?k \<in> K then 0 else 1)"
    unfolding ns by (auto simp: insert_Diff_if)
  obtain jp t where g: "(jp, t) = grab NDIRECT (ip, s)" by (metis surj_pair)
  have "unat (freeblock s) < FSSIZE" if "NDIRECT \<notin> K" using room that by (simp add: c)
  note G = grab_grows [OF w order_refl this a g]
  have "unat (freeblock t) < FSSIZE" if "?k \<notin> insert NDIRECT K" using room that G(4) by (simp add: c split: if_splits)
  from grab_entry_grows [OF G(1) insertI1 e(1) a this] obtain indirect u where
    u: "grab_entry e jp t = Ok indirect u" "get32 indirect (4 * e) = mslot u jp ?k" "owns (insert ?k (insert NDIRECT K)) jp u"
      "appended jp t a [] jp u" "unat (freeblock u) = unat (freeblock t) + (if ?k \<in> insert NDIRECT K then 0 else 1)" by blast
  have r: "file_sector n ip s = Ok (mslot u jp ?k, jp) u" using False u(1,2) by (simp add: file_sector_grab g [symmetric] e(3))
  have fb: "unat (freeblock u) = unat (freeblock s) + card (new_slots n - K)" using u(5) G(4) unfolding c by simp
  have ap: "appended ip s a [] jp u" using appended_trans [OF G(2), of "[]" jp u] u(4) by simp
  have "owns (new_slots n \<union> K) jp u" using u(3) by (simp add: ns)
  then show ?thesis unfolding e(2) using r fb ap by blast
qed

text \<open>The bytes of a chunk go into the block that is there.\<close>

lemma chunk_appended:
  assumes w: "owns K ip s" and n: "n < MAXFILE" "slot_of n \<in> K" and o: "d + length q \<le> BSIZE" and x: "x = mslot s ip (slot_of n)"
  shows "rsect x s = Ok (sector s x) s \<and> wsect x (patch (sector s x) d q) s = Ok () (put_sector x (patch (sector s x) d q) s) \<and>
    owns K ip (put_sector x (patch (sector s x) d q) s) \<and> appended ip s (n * BSIZE + d) q ip (put_sector x (patch (sector s x) d q) s)"
proof -
  note W = ownsD [OF w]
  let ?v = "patch (sector s x) d q"
  let ?t = "put_sector x ?v s"
  have xr: "unat x < FSSIZE" "unat x < unat (freeblock s)" using owns_range [OF w n(2)] W(6) [OF n(2)] x by simp_all
  have L: "length (sector s x) = BSIZE" by (rule img_okD(2) [OF W(1) xr(1)])
  have S: "sector ?t = (sector s)(x := ?v)" by (rule sector_put [OF W(1) xr(1)])
  have xi: "x \<noteq> mslot s ip NDIRECT" if "mslot s ip NDIRECT \<noteq> 0"
    using that W(4) [of NDIRECT] W(7) [OF n(2), of NDIRECT] slot_of_less(2) [of n] by (auto simp: x NSLOT_def)
  have sl: "mslot ?t ip k = mslot s ip k" for k
  proof (cases "i_addrs ip ! NDIRECT = 0")
    case False
    then have "x \<noteq> i_addrs ip ! NDIRECT" using xi by (simp add: slot_def)
    then show ?thesis by (simp add: slot_def S)
  qed (simp add: slot_def)
  have ok: "img_ok ?t" using L o by (intro img_ok_put [OF W(1) xr(2)]) simp
  have "owns K ip ?t" using w ok unfolding owns_def sl by simp
  moreover have "appended ip s (n * BSIZE + d) q ip ?t"
    unfolding appended_def sl
  proof (intro conjI allI impI)
    show "sector ?t b = sector s b" if "unat b < unat (freeblock s) \<and> (\<forall>k<NSLOT. mslot s ip k \<noteq> b)" for b
      using that slot_of_less(1) [OF n(1)] x unfolding S by (metis fun_upd_apply)
    have "n * BSIZE + BSIZE \<le> MAXFILE * BSIZE" using n(1) mult_le_mono1 [of "Suc n" MAXFILE BSIZE] by simp
    then show "n * BSIZE + d + length q \<le> MAXFILE * BSIZE" using o by simp
    show "mbyte ?t ip j = mbyte s ip j"
      if j: "j div BSIZE < MAXFILE \<and> mslot s ip (slot_of (j div BSIZE)) \<noteq> 0 \<and> \<not> (n * BSIZE + d \<le> j \<and> j < n * BSIZE + d + length q)" for j
    proof (cases "j div BSIZE = n")
      case True
      have m: "j mod BSIZE < BSIZE" by (simp add: BSIZE_def)
      have "j = n * BSIZE + j mod BSIZE" unfolding True [symmetric] by simp
      then have "\<not> (d \<le> j mod BSIZE \<and> j mod BSIZE < d + length q)" using j by linarith
      then have "?v ! (j mod BSIZE) = sector s x ! (j mod BSIZE)" using o L m by (auto simp: nth_patch)
      then show ?thesis unfolding file_byte_def sl unfolding S True x [symmetric] by simp
    next
      case False
      have "slot_of (j div BSIZE) \<in> K" using W(4) [OF slot_of_less(1)] j by blast
      moreover have "slot_of (j div BSIZE) \<noteq> slot_of n" using False by (auto simp: slot_of_def split: if_splits)
      ultimately have "mslot s ip (slot_of (j div BSIZE)) \<noteq> x" using W(7) n(2) x by blast
      then show ?thesis unfolding file_byte_def sl unfolding S by simp
    qed
    fix k assume k: "k < length q"
    have b: "(n * BSIZE) mod BSIZE + (d + k) < BSIZE" using k o by simp
    note D = within_block [OF b]
    have D': "(n * BSIZE + d + k) div BSIZE = n" "(n * BSIZE + d + k) mod BSIZE = d + k"
      using D by (simp_all add: add.assoc BSIZE_def)
    show "mslot s ip (slot_of ((n * BSIZE + d + k) div BSIZE)) \<noteq> 0"
      unfolding D'(1) using W(4) [OF slot_of_less(1) [OF n(1)]] n(2) by simp
    show "mbyte ?t ip (n * BSIZE + d + k) = q ! k"
      unfolding file_byte_def D' sl unfolding x [symmetric] S using k o L by (simp add: nth_patch)
  qed (simp_all, blast)
  ultimately show ?thesis using rsect_ok [OF W(1) xr(1)] wsect_ok [OF W(1) xr(1)] by blast
qed


text \<open>A chunk at offset \<open>a\<close> needs the block of the offset, and the indirect block from the 13th block on.\<close>

lemma block_less: "0 < q \<Longrightarrow> q \<le> BSIZE \<Longrightarrow> x * BSIZE < n * BSIZE + q \<longleftrightarrow> x \<le> n"
proof (cases "x \<le> n")
  case False
  then show "q \<le> BSIZE \<Longrightarrow> ?thesis" using mult_le_mono1 [of "Suc n" x BSIZE] by simp
next
  case True
  then have "x * BSIZE \<le> n * BSIZE" by (rule mult_le_mono1)
  then show "0 < q \<Longrightarrow> ?thesis" using True by linarith
qed

lemma block_less': "r < BSIZE \<Longrightarrow> x * BSIZE < n * BSIZE + r \<longleftrightarrow> x < n \<or> x = n \<and> 0 < r"
  using block_less [of r x n] BSIZE_pos by (cases "r = 0") auto

lemma nblk_at:
  "r < BSIZE \<Longrightarrow> nblk (n * BSIZE + r) = n + (if 0 < r then 1 else 0) + (if NDIRECT < n \<or> NDIRECT = n \<and> 0 < r then 1 else 0)"
proof -
  assume r: "r < BSIZE"
  have "(n * BSIZE + r + BSIZE - 1) div BSIZE = n + (r + BSIZE - 1) div BSIZE"
    using div_mult_self3 [of BSIZE n "r + BSIZE - 1"] BSIZE_pos by (simp add: add.assoc)
  also have "(r + BSIZE - 1) div BSIZE = (if 0 < r then 1 else 0)"
    using r BSIZE_pos by (cases r) (simp_all add: div_add_self2)
  finally show ?thesis unfolding nblk_def block_less' [OF r] by simp
qed

lemma needs_at:
  "r < BSIZE \<Longrightarrow> k \<in> needs (n * BSIZE + r) \<longleftrightarrow> k < NSLOT \<and>
    ((if k \<le> NDIRECT then k else k - 1) < n \<or> (if k \<le> NDIRECT then k else k - 1) = n \<and> 0 < r)"
  using block_less' [of r "if k \<le> NDIRECT then k else k - 1" n] by (simp add: needs_def)

lemma needs_end:
  "0 < q \<Longrightarrow> q \<le> BSIZE \<Longrightarrow> k \<in> needs (n * BSIZE + q) \<longleftrightarrow> k < NSLOT \<and> (if k \<le> NDIRECT then k else k - 1) \<le> n"
  using block_less [of q "if k \<le> NDIRECT then k else k - 1" n] by (simp add: needs_def)

lemma new_slots_needs:
  assumes n: "n < MAXFILE" and r: "r < BSIZE" and q: "r < q" "q \<le> BSIZE"
  shows "new_slots n \<union> needs (n * BSIZE + r) = needs (n * BSIZE + q)" (is ?A)
    "nblk (n * BSIZE + q) = nblk (n * BSIZE + r) + card (new_slots n - needs (n * BSIZE + r))" (is ?B)
proof -
  have ns: "n + 1 < NSLOT" using n by (simp add: NSLOT_def MAXFILE_def)
  have q0: "0 < q" using q(1) by simp
  have "k \<in> new_slots n \<or> k \<in> needs (n * BSIZE + r) \<longleftrightarrow> k \<in> needs (n * BSIZE + q)" for k
  proof -
    have "k \<in> new_slots n \<longleftrightarrow> k = (if n < NDIRECT then n else n + 1) \<or> NDIRECT \<le> n \<and> k = NDIRECT"
      by (auto simp: new_slots_def slot_of_def)
    then show ?thesis unfolding needs_at [OF r] needs_end [OF q0 q(2)] using ns by (cases "k \<le> NDIRECT") auto
  qed
  then show ?A by blast
  have "nblk (n * BSIZE + q) = n + 1 + (if NDIRECT \<le> n then 1 else 0)"
  proof (cases "q = BSIZE")
    case True
    then show ?thesis using nblk_at [of 0 "Suc n"] BSIZE_pos by (simp add: add.commute less_Suc_eq_le)
  next
    case False
    then show ?thesis using nblk_at [of q n] q by auto
  qed
  moreover have "slot_of n \<in> needs (n * BSIZE + r) \<longleftrightarrow> 0 < r"
    using needs_at [OF r, of "slot_of n" n] ns by (auto simp: slot_of_def)
  moreover have "NDIRECT \<in> needs (n * BSIZE + r) \<longleftrightarrow> NDIRECT < n \<or> NDIRECT = n \<and> 0 < r"
    using needs_at [OF r, of NDIRECT n] by (auto simp: NSLOT_def)
  ultimately show ?B
    using slot_of_less(2) [of n] unfolding nblk_at [OF r] new_slots_def by (auto simp: insert_Diff_if)
qed

lemma nblk_mono: "a \<le> b \<Longrightarrow> nblk a \<le> nblk b"
  unfolding nblk_def by (intro add_mono div_le_mono) auto

lemma iappend_loop_appends:
  assumes "owns (needs a) ip s" "a + length p \<le> MAXFILE * BSIZE" "unat (freeblock s) + nblk (a + length p) \<le> FSSIZE + nblk a"
  shows "\<exists>jp t. iappend_loop ip a p s = Ok (jp, a + length p) t \<and> owns (needs (a + length p)) jp t \<and> appended ip s a p jp t \<and>
    unat (freeblock t) + nblk a = unat (freeblock s) + nblk (a + length p)"
  using assms
proof (induction "length p" arbitrary: ip a p s rule: less_induct)
  case less
  show ?case
  proof (cases "p = []")
    case True
    then show ?thesis using less.prems appended_refl [of a ip s] by (subst iappend_loop.simps) simp
  next
    case False
    define n where "n = a div BSIZE"
    define r where "r = a mod BSIZE"
    define m where "m = min (length p) (BSIZE - r)"
    have a: "a = n * BSIZE + r" and r: "r < BSIZE" using BSIZE_pos by (simp_all add: n_def r_def)
    have m: "0 < m" "m \<le> length p" "r < r + m" "r + m \<le> BSIZE" using False r by (simp_all add: m_def)
    have am: "a + m = n * BSIZE + (r + m)" by (simp add: a)
    have n: "n < MAXFILE" unfolding n_def using less.prems(2) m by (intro div_block_less) simp
    have aB: "a \<le> MAXFILE * BSIZE" using less.prems(2) by simp
    note N = new_slots_needs [OF n r m(3,4), folded a am]
    have mono: "nblk (a + m) \<le> nblk (a + length p)" using m by (intro nblk_mono) simp
    have "unat (freeblock s) + card (new_slots n - needs a) \<le> FSSIZE" using less.prems(3) N(2) mono by simp
    from file_sector_grows [OF less.prems(1) n aB this] obtain jp t where
      t: "file_sector n ip s = Ok (mslot t jp (slot_of n), jp) t" "owns (needs (a + m)) jp t" "appended ip s a [] jp t"
        "unat (freeblock t) = unat (freeblock s) + card (new_slots n - needs a)" unfolding N(1) by blast
    have sn: "slot_of n \<in> needs (a + m)" using N(1) by (auto simp: new_slots_def)
    have lm: "r + length (take m p) \<le> BSIZE" using m by simp
    let ?x = "mslot t jp (slot_of n)"
    let ?u = "put_sector ?x (patch (sector t ?x) r (take m p)) t"
    from chunk_appended [OF t(2) n sn lm refl, folded a]
    have u: "rsect ?x t = Ok (sector t ?x) t" "wsect ?x (patch (sector t ?x) r (take m p)) t = Ok () ?u" "owns (needs (a + m)) jp ?u"
      "appended jp t a (take m p) jp ?u" by blast+
    have e: "(n + 1) * BSIZE - a = BSIZE - r" "a - n * BSIZE = r" by (simp_all add: a)
    have step: "iappend_loop ip a p s = iappend_loop jp (a + m) (drop m p) ?u"
      using False n u(1,2) t(1) e by (subst iappend_loop.simps) (simp add: n_def [symmetric] m_def [symmetric] Let_def)
    have al: "a + m + length (drop m p) = a + length p" and dl: "length (drop m p) < length p" using m by simp_all
    have fb: "unat (freeblock ?u) + nblk a = unat (freeblock s) + nblk (a + m)" using t(4) N(2) by simp
    have room: "unat (freeblock ?u) + nblk (a + length p) \<le> FSSIZE + nblk (a + m)" using fb less.prems(3) by simp
    from less.hyps [OF dl u(3), unfolded al, OF less.prems(2) room] obtain kp v where
      v: "iappend_loop jp (a + m) (drop m p) ?u = Ok (kp, a + length p) v" "owns (needs (a + length p)) kp v"
        "appended jp ?u (a + m) (drop m p) kp v" "unat (freeblock v) + nblk (a + m) = unat (freeblock ?u) + nblk (a + length p)" by blast
    have "appended ip s a (take m p) jp ?u" using appended_trans [OF t(3), of "take m p" jp ?u] u(4) by simp
    from appended_trans [OF this, of "drop m p" kp v] v(3) m(2) have "appended ip s a p kp v" by simp
    then show ?thesis unfolding step using v fb by (intro exI [of _ kp] exI [of _ v]) simp
  qed
qed

end
