(* ===== verification/Mkfs_Image.thy ===== *)
theory Mkfs_Image
  imports Mkfs_Append
begin

text \<open>
  The image as a map from inode numbers to type, links and content: the builder's inode operations
  refine an update of the map, and the whole program builds a root directory with the given files.
\<close>

section \<open>The inodes of an image\<close>

definition ino :: "mkfs \<Rightarrow> u32 \<Rightarrow> inode" where
  "ino s n = dip_read (sector s (IBLOCK n mk_sb)) n dinode0"

definition live :: "mkfs \<Rightarrow> u32 \<Rightarrow> bool" where "live s n \<longleftrightarrow> 0 < n \<and> n < freeinode s"

abbreviation fsz :: "mkfs \<Rightarrow> u32 \<Rightarrow> nat" where "fsz s n \<equiv> unat (i_size (ino s n))"

definition view :: "mkfs \<Rightarrow> u32 \<rightharpoonup> u16 \<times> u16 \<times> u8 list" where
  "view s n = (if live s n then Some (i_type (ino s n), i_nlink (ino s n), file_bytes (sector s) (ino s n) 0 (fsz s n)) else None)"

text \<open>An inode owns the blocks its size needs; the rest of its last block is zero.\<close>

definition ino_ok :: "mkfs \<Rightarrow> u32 \<Rightarrow> bool" where
  "ino_ok s n \<longleftrightarrow> owns (needs (fsz s n)) (ino s n) s \<and> fsz s n \<le> MAXFILE * BSIZE \<and>
     (\<forall>j. fsz s n \<le> j \<and> j div BSIZE < MAXFILE \<and> mslot s (ino s n) (slot_of (j div BSIZE)) \<noteq> 0 \<longrightarrow> mbyte s (ino s n) j = 0)"

definition mk_wf :: "mkfs \<Rightarrow> bool" where
  "mk_wf s \<longleftrightarrow> img_ok s \<and> 0 < freeinode s \<and> unat (freeinode s) \<le> NINODES \<and> (\<forall>n. live s n \<longrightarrow> ino_ok s n) \<and>
     (\<forall>n m k l. live s n \<and> live s m \<and> n \<noteq> m \<and> k < NSLOT \<and> l < NSLOT \<and> mslot s (ino s n) k \<noteq> 0 \<longrightarrow>
        mslot s (ino s n) k \<noteq> mslot s (ino s m) l) \<and>
     unat (freeblock s) = nmeta + (\<Sum>n | live s n. nblk (fsz s n)) \<and>
     (\<forall>n. unat n < NINODES \<and> \<not> live s n \<longrightarrow> ino s n = dinode0)"

lemma mk_wfD:
  assumes "mk_wf s"
  shows "img_ok s" "0 < freeinode s" "unat (freeinode s) \<le> NINODES" "live s n \<Longrightarrow> ino_ok s n"
    "live s n \<Longrightarrow> live s m \<Longrightarrow> n \<noteq> m \<Longrightarrow> k < NSLOT \<Longrightarrow> l < NSLOT \<Longrightarrow> mslot s (ino s n) k \<noteq> 0 \<Longrightarrow>
       mslot s (ino s n) k \<noteq> mslot s (ino s m) l"
    "unat (freeblock s) = nmeta + (\<Sum>n | live s n. nblk (fsz s n))"
    "unat n < NINODES \<Longrightarrow> \<not> live s n \<Longrightarrow> ino s n = dinode0"
  using assms unfolding mk_wf_def by blast+

lemma ino_okD:
  assumes "ino_ok s n"
  shows "owns (needs (fsz s n)) (ino s n) s" "fsz s n \<le> MAXFILE * BSIZE"
    "fsz s n \<le> j \<Longrightarrow> j div BSIZE < MAXFILE \<Longrightarrow> mslot s (ino s n) (slot_of (j div BSIZE)) \<noteq> 0 \<Longrightarrow> mbyte s (ino s n) j = 0"
  using assms unfolding ino_ok_def by blast+

lemma live_less: "mk_wf s \<Longrightarrow> live s n \<Longrightarrow> unat n < NINODES"
  using mk_wfD(3) [of s] by (simp add: live_def word_less_nat_alt)

lemma iblock: "unat n < NINODES \<Longrightarrow> unat (IBLOCK n mk_sb) = unat n div IPB + 33"
proof -
  assume n: "unat n < NINODES"
  have I: "IPB = 16" by (simp add: IPB_def BSIZE_def DINODE_SIZE_def NDIRECT_def)
  have d: "unat (n div 16) = unat n div 16" by (simp add: unat_div)
  have "unat (n div 16) + unat (33 :: u32) < 2 ^ 32" using n unfolding d by (simp add: NINODES_def)
  then have "unat (n div 16 + 33) = unat n div 16 + 33" using d by (simp add: unat_add_lem [THEN iffD1])
  then show ?thesis by (simp add: IBLOCK_def layout I)
qed

lemma iblock_meta: "unat n < NINODES \<Longrightarrow> 33 \<le> unat (IBLOCK n mk_sb) \<and> unat (IBLOCK n mk_sb) < 46"
  using iblock [of n] by (auto simp: NINODES_def IPB_def BSIZE_def DINODE_SIZE_def NDIRECT_def)

lemma iblock_same:
  assumes "unat n < NINODES" "unat m < NINODES" "IBLOCK n mk_sb = IBLOCK m mk_sb" "n \<noteq> m"
  shows "unat m mod IPB \<noteq> unat n mod IPB"
proof
  assume e: "unat m mod IPB = unat n mod IPB"
  have "unat n div IPB = unat m div IPB" using iblock [OF assms(1)] iblock [OF assms(2)] assms(3) by simp
  then have "unat n = unat m" using e by (metis div_mult_mod_eq)
  then show False using assms(4) by (simp add: word_unat_eq_iff)
qed

definition raw :: "inode \<Rightarrow> bool" where
  "raw ip \<longleftrightarrow> i_dev ip = 0 \<and> i_inum ip = 0 \<and> i_ref ip = 0 \<and> \<not> i_valid ip"

lemma raw_ino: "raw (ino s n)" by (simp add: raw_def ino_def dip_read_def dinode0_def Let_def)

lemma raw_eq: "raw ip \<Longrightarrow> raw jp \<Longrightarrow> disk_fields ip = disk_fields jp \<Longrightarrow> ip = jp"
  by (simp add: raw_def disk_fields_def)

lemma length_ino: "length (i_addrs (ino s n)) = NDIRECT + 1"
  by (simp add: ino_def dip_read_def Let_def)

lemma winode_stores:
  assumes ok: "img_ok s" and n: "unat n < NINODES" and ip: "raw ip" "length (i_addrs ip) = NDIRECT + 1"
  obtains t where "winode n ip s = Ok () t" "img_ok t" "freeinode t = freeinode s" "freeblock t = freeblock s"
    "\<And>b. b \<noteq> IBLOCK n mk_sb \<Longrightarrow> sector t b = sector s b" "ino t n = ip" "\<And>m. unat m < NINODES \<Longrightarrow> m \<noteq> n \<Longrightarrow> ino t m = ino s m"
proof -
  let ?b = "IBLOCK n mk_sb"
  let ?v = "patch (sector s ?b) (dip_off n) (dip_bytes ip)"
  let ?t = "put_sector ?b ?v s"
  have b: "unat ?b < FSSIZE" "unat ?b < unat (freeblock s)"
    using iblock_meta [OF n] img_okD(3) [OF ok] by (simp_all add: FSSIZE_def layout)
  have L: "length (sector s ?b) = BSIZE" by (rule img_okD(2) [OF ok b(1)])
  note D = dinode_stored [OF L ip(2)]
  have v: "length ?v = BSIZE" using D [where n = n and m = n and jp = dinode0] by simp
  have S: "sector ?t = (sector s)(?b := ?v)" by (rule sector_put [OF ok b(1)])
  have "disk_fields (ino ?t n) = disk_fields ip" using D [where n = n and m = n and jp = dinode0] by (simp add: ino_def S)
  then have i: "ino ?t n = ip" by (rule raw_eq [OF raw_ino ip(1)])
  have o: "ino ?t m = ino s m" if "unat m < NINODES" "m \<noteq> n" for m
  proof (cases "IBLOCK m mk_sb = ?b")
    case True
    then show ?thesis using D [where n = n and m = m and jp = dinode0] iblock_same [OF n that(1)] that(2) by (simp add: ino_def S)
  qed (simp add: ino_def S)
  show ?thesis
  proof (rule that [OF _ img_ok_put [OF ok b(2) v] _ _ _ i o])
    show "winode n ip s = Ok () ?t" using rsect_ok [OF ok b(1)] wsect_ok [OF ok b(1)] by (simp add: winode_def)
    show "sector ?t c = sector s c" if "c \<noteq> ?b" for c using that by (simp add: S)
  qed simp_all
qed

lemma rinode_ok: "img_ok s \<Longrightarrow> unat n < NINODES \<Longrightarrow> rinode n s = Ok (ino s n) s"
  using rsect_ok [of s "IBLOCK n mk_sb"] iblock_meta [of n] by (simp add: rinode_def ino_def FSSIZE_def)

section \<open>Frames\<close>

text \<open>An inode whose blocks have not changed is as it was.\<close>

lemma same_file:
  assumes a: "i_addrs jp = i_addrs ip" and g: "\<And>k. k < NSLOT \<Longrightarrow> slot f ip k \<noteq> 0 \<Longrightarrow> g (slot f ip k) = f (slot f ip k)"
  shows "slot g jp k = slot f ip k"
    "j div BSIZE < MAXFILE \<Longrightarrow> slot f ip (slot_of (j div BSIZE)) \<noteq> 0 \<Longrightarrow> file_byte g jp j = file_byte f ip j"
proof -
  have "g (i_addrs ip ! NDIRECT) = f (i_addrs ip ! NDIRECT)" if "i_addrs ip ! NDIRECT \<noteq> 0"
    using g [of NDIRECT] that by (simp add: slot_def NSLOT_def)
  then show sl: "slot g jp k = slot f ip k" for k by (simp add: slot_def a)
  show "j div BSIZE < MAXFILE \<Longrightarrow> slot f ip (slot_of (j div BSIZE)) \<noteq> 0 \<Longrightarrow> file_byte g jp j = file_byte f ip j"
    unfolding file_byte_def sl by (simp add: g slot_of_less(1))
qed

lemma owns_same:
  assumes w: "owns K ip s" and t: "img_ok t" "unat (freeblock s) \<le> unat (freeblock t)" and a: "i_addrs jp = i_addrs ip"
    and g: "\<And>k. k \<in> K \<Longrightarrow> sector t (mslot s ip k) = sector s (mslot s ip k)"
  shows "owns K jp t"
proof -
  note W = ownsD [OF w]
  have "mslot t jp k = mslot s ip k" for k
    by (rule same_file(1) [OF a]) (use g W(4) in blast)
  then have "mslot t jp = mslot s ip" by (rule ext)
  then show ?thesis using w t a unfolding owns_def by (auto intro: less_le_trans)
qed

lemma needs_bytes: "j < z \<Longrightarrow> j div BSIZE < MAXFILE \<Longrightarrow> slot_of (j div BSIZE) \<in> needs z"
  using slot_of_less [of "j div BSIZE"] le_less_trans [OF div_times_less_eq_dividend [of j BSIZE], of z]
  by (auto simp: needs_def slot_of_def split: if_splits)


lemma needs_less: "k \<in> needs z \<Longrightarrow> k < NSLOT" by (simp add: needs_def)

text \<open>Inode \<open>m\<close> of \<open>s\<close> is in \<open>t\<close> unchanged.\<close>

lemma ino_kept:
  assumes ok: "ino_ok s m" and i: "ino t m = ino s m" and t: "img_ok t" "unat (freeblock s) \<le> unat (freeblock t)"
    and g: "\<And>k. k < NSLOT \<Longrightarrow> mslot s (ino s m) k \<noteq> 0 \<Longrightarrow> sector t (mslot s (ino s m) k) = sector s (mslot s (ino s m) k)"
  shows "ino_ok t m" "mslot t (ino t m) k = mslot s (ino s m) k"
    "file_bytes (sector t) (ino t m) 0 (fsz s m) = file_bytes (sector s) (ino s m) 0 (fsz s m)"
proof -
  note O = ino_okD [OF ok] and W = ownsD [OF ino_okD(1) [OF ok]]
  have sl: "mslot t (ino t m) k = mslot s (ino s m) k" for k
    by (rule same_file(1) [where f = "sector s"]) (use i g in simp_all)
  have bt: "mbyte t (ino t m) j = mbyte s (ino s m) j"
    if "j div BSIZE < MAXFILE" "mslot s (ino s m) (slot_of (j div BSIZE)) \<noteq> 0" for j
    by (rule same_file(2) [where f = "sector s", OF _ _ that]) (use i g in simp_all)
  have gk: "sector t (mslot s (ino s m) k) = sector s (mslot s (ino s m) k)" if "k \<in> needs (fsz s m)" for k
    using g [of k] W(3) [OF that] W(4) [of k] that by simp
  have "owns (needs (fsz s m)) (ino t m) t" by (rule owns_same [OF O(1) t _ gk]) (simp_all add: i)
  then show "ino_ok t m" using O(2,3) sl bt unfolding ino_ok_def by (simp add: i)
  show "mslot t (ino t m) k = mslot s (ino s m) k" by (rule sl)
  show "file_bytes (sector t) (ino t m) 0 (fsz s m) = file_bytes (sector s) (ino s m) 0 (fsz s m)"
  proof (rule nth_equalityI)
    fix j assume "j < length (file_bytes (sector t) (ino t m) 0 (fsz s m))"
    then have j: "j < fsz s m" by simp
    have m: "j div BSIZE < MAXFILE" using j O(2) by (intro div_block_less) simp
    have "mslot s (ino s m) (slot_of (j div BSIZE)) \<noteq> 0"
      using W(4) [OF slot_of_less(1) [OF m]] needs_bytes [OF j m] by simp
    then show "file_bytes (sector t) (ino t m) 0 (fsz s m) ! j = file_bytes (sector s) (ino s m) 0 (fsz s m) ! j"
      using j bt [OF m] by simp
  qed simp
qed

text \<open>
  Appending to a file appends to the content in the map, and leaves the map alone elsewhere, as it does the
  boot sector, the super block and the log.
\<close>

definition keeps_head :: "mkfs \<Rightarrow> mkfs \<Rightarrow> bool" where
  "keeps_head s t \<longleftrightarrow> (\<forall>b. b \<noteq> 0 \<and> unat b < 33 \<longrightarrow> sector t b = sector s b)"

lemma iappend_view:
  assumes wf: "mk_wf s" and n: "live s n" and len: "fsz s n + length p \<le> MAXFILE * BSIZE"
    and room: "unat (freeblock s) + nblk (fsz s n + length p) \<le> FSSIZE + nblk (fsz s n)"
  obtains t where "iappend n p s = Ok () t" "mk_wf t" "freeinode t = freeinode s" "keeps_head s t"
    "view t = (view s)(n \<mapsto> (i_type (ino s n), i_nlink (ino s n), file_bytes (sector s) (ino s n) 0 (fsz s n) @ p))"
    "fsz t n = fsz s n + length p" "unat (freeblock t) + nblk (fsz s n) = unat (freeblock s) + nblk (fsz s n + length p)"
proof -
  note W = mk_wfD [OF wf] and N = ino_okD [OF mk_wfD(4) [OF wf n]]
  let ?z = "fsz s n" and ?ip = "ino s n"
  have nn: "unat n < NINODES" by (rule live_less [OF wf n])
  from iappend_loop_appends [OF N(1) len room] obtain jp t where
    t: "iappend_loop ?ip ?z p s = Ok (jp, ?z + length p) t" "owns (needs (?z + length p)) jp t" "appended ?ip s ?z p jp t"
      "unat (freeblock t) + nblk ?z = unat (freeblock s) + nblk (?z + length p)" by blast
  note A = appendedD [OF t(3)] and T = ownsD [OF t(2)] and S = ownsD [OF N(1)]
  define kp where "kp = jp\<lparr>i_size := of_nat (?z + length p)\<rparr>"
  have "?z + length p < 2 ^ 32" using len by (simp add: MAXFILE_def NDIRECT_def NINDIRECT_def BSIZE_def)
  then have zz: "unat (of_nat (?z + length p) :: u32) = ?z + length p" by (rule unat_of_nat32)
  have "i_size kp = of_nat (?z + length p)" by (simp add: kp_def)
  then have sz: "unat (i_size kp) = ?z + length p" using zz by (simp only:)
  have jp: "raw jp" "i_type jp = i_type ?ip" "i_nlink jp = i_nlink ?ip" by (subst A(3), use raw_ino in \<open>simp add: raw_def\<close>)+
  have kp: "raw kp" "length (i_addrs kp) = NDIRECT + 1" "i_addrs kp = i_addrs jp" using jp(1) T(2) by (simp_all add: kp_def raw_def)
  obtain u where u: "winode n kp t = Ok () u" "img_ok u" "freeinode u = freeinode t" "freeblock u = freeblock t"
    "\<And>b. b \<noteq> IBLOCK n mk_sb \<Longrightarrow> sector u b = sector t b" "ino u n = kp" "\<And>m. unat m < NINODES \<Longrightarrow> m \<noteq> n \<Longrightarrow> ino u m = ino t m"
    by (rule winode_stores [OF T(1) nn kp(1,2)]) blast
  have fi: "freeinode u = freeinode s" using u(3) A(1) by simp
  then have lq: "live u = live s" by (simp add: live_def fun_eq_iff)
  then have lv: "live u m = live s m" for m by simp
  have data: "b \<noteq> IBLOCK m mk_sb" if "nmeta \<le> unat b" "unat m < NINODES" for b m
    using iblock_meta [OF that(2)] that(1) by (auto simp: layout)
  have ut: "sector u (mslot t jp k) = sector t (mslot t jp k)" if "k \<in> needs (?z + length p)" for k
    by (rule u(5) [OF data [OF T(5) [OF that] nn]])
  have head: "sector t b = sector s b" if "b \<noteq> 0" "unat b < nmeta" for b
  proof (rule A(7))
    show "unat b < unat (freeblock s)" using that(2) img_okD(3) [OF W(1)] by simp
    show "\<forall>k<NSLOT. mslot s ?ip k \<noteq> b" using S(4,5) that by (metis not_less)
  qed
  have it: "ino t m = ino s m" if "unat m < NINODES" for m
    unfolding ino_def using iblock_meta [OF that] by (subst head) (auto simp: layout)
  have other: "ino u m = ino s m" if "live s m" "m \<noteq> n" for m
    using u(7) [OF live_less [OF wf that(1)] that(2)] it [OF live_less [OF wf that(1)]] by simp
  have kept: "sector u (mslot s (ino s m) k) = sector s (mslot s (ino s m) k)"
    if m: "live s m" "m \<noteq> n" and k: "k < NSLOT" "mslot s (ino s m) k \<noteq> 0" for m k
  proof -
    note M = ownsD [OF ino_okD(1) [OF W(4) [OF m(1)]]]
    have kn: "k \<in> needs (fsz s m)" using M(4) [OF k(1)] k(2) by simp
    have "sector t (mslot s (ino s m) k) = sector s (mslot s (ino s m) k)"
      using A(7) [OF M(6) [OF kn]] W(5) [OF m(1) n m(2) k(1) _ k(2)] by metis
    then show ?thesis using u(5) [OF data [OF M(5) [OF kn] nn]] by simp
  qed
  have le: "unat (freeblock s) \<le> unat (freeblock u)" using A(2) u(4) by simp
  have K: "ino_ok u m" "mslot u (ino u m) k = mslot s (ino s m) k"
    "file_bytes (sector u) (ino u m) 0 (fsz s m) = file_bytes (sector s) (ino s m) 0 (fsz s m)"
    if m: "live s m" "m \<noteq> n" for m k
    by (rule ino_kept [OF W(4) [OF m(1)] other [OF m] u(2) le]; rule kept [OF m]; assumption)+
  have slu: "mslot u kp k = mslot t jp k" for k
    by (rule same_file(1) [OF kp(3)]) (use ut T(4) in blast)
  have byu: "mbyte u kp j = mbyte t jp j" if "j div BSIZE < MAXFILE" "mslot t jp (slot_of (j div BSIZE)) \<noteq> 0" for j
    by (rule same_file(2) [OF kp(3) _ that]) (use ut T(4) in blast)
  have "owns (needs (?z + length p)) kp u" by (rule owns_same [OF t(2) u(2) _ kp(3) ut]) (simp add: u(4))
  moreover have "mbyte u kp j = 0" if j: "?z + length p \<le> j" "j div BSIZE < MAXFILE" "mslot u kp (slot_of (j div BSIZE)) \<noteq> 0" for j
  proof -
    have nz: "mslot t jp (slot_of (j div BSIZE)) \<noteq> 0" and o: "\<not> (?z \<le> j \<and> j < ?z + length p)" using j slu by simp_all
    show ?thesis unfolding byu [OF j(2) nz]
      using A(8) [OF j(2) _ o] A(9) [OF j(2) _ nz o] N(3) [of j] j by (cases "mslot s ?ip (slot_of (j div BSIZE)) = 0") auto
  qed
  ultimately have okn: "ino_ok u n" unfolding ino_ok_def u(6) sz using len by blast
  have bytes: "file_bytes (sector u) kp 0 (?z + length p) = file_bytes (sector s) ?ip 0 ?z @ p"
  proof (rule nth_equalityI)
    fix j assume "j < length (file_bytes (sector u) kp 0 (?z + length p))"
    then have j: "j < ?z + length p" by simp
    have m: "j div BSIZE < MAXFILE" using j len by (intro div_block_less) simp
    have nz: "mslot t jp (slot_of (j div BSIZE)) \<noteq> 0"
      using T(4) [OF slot_of_less(1) [OF m]] needs_bytes [OF j m] by simp
    have nz': "mslot s ?ip (slot_of (j div BSIZE)) \<noteq> 0" if "j < ?z"
      using S(4) [OF slot_of_less(1) [OF m]] needs_bytes [OF that m] by simp
    show "file_bytes (sector u) kp 0 (?z + length p) ! j = (file_bytes (sector s) ?ip 0 ?z @ p) ! j"
      using j byu [OF m nz] A(8) [OF m nz'] A(11) [of "j - ?z"] by (cases "j < ?z") (simp_all add: nth_append)
  qed simp
  have vw: "view u = (view s)(n \<mapsto> (i_type ?ip, i_nlink ?ip, file_bytes (sector s) ?ip 0 ?z @ p))"
  proof
    fix m
    show "view u m = ((view s)(n \<mapsto> (i_type ?ip, i_nlink ?ip, file_bytes (sector s) ?ip 0 ?z @ p))) m"
    proof (cases "m = n")
      case True
      then show ?thesis using n lv bytes sz jp(2,3) by (simp add: view_def u(6)) (simp add: kp_def)
    next
      case False
      then show ?thesis using lv K(3) [of m] other [of m] by (simp add: view_def)
    qed
  qed
  have slm: "mslot u (ino u m) k = mslot s (ino s m) k" if "live s m" "m \<noteq> n" for m k by (rule K(2) [OF that])
  have apart: "mslot u kp k \<noteq> mslot s (ino s m) l" if m: "live s m" "m \<noteq> n" "k < NSLOT" "l < NSLOT" "mslot u kp k \<noteq> 0" for m k l
  proof
    assume e: "mslot u kp k = mslot s (ino s m) l"
    note M = ownsD [OF ino_okD(1) [OF W(4) [OF m(1)]]]
    have nz: "mslot s (ino s m) l \<noteq> 0" using e m(5) by simp
    then have "unat (mslot s (ino s m) l) < unat (freeblock s)" using M(4) [OF m(4)] M(6) by simp
    then have "mslot t jp k = mslot s ?ip k" using A(6) [OF m(3)] e slu by fastforce
    then show False using W(5) [OF m(1) n m(2,4,3) nz] e slu by simp
  qed
  have cross: "mslot u (ino u m) k \<noteq> mslot u (ino u m') l"
    if m: "live s m" "live s m'" "m \<noteq> m'" "k < NSLOT" "l < NSLOT" "mslot u (ino u m) k \<noteq> 0" for m m' k l
  proof -
    consider "m = n" | "m \<noteq> n" "m' = n" | "m \<noteq> n" "m' \<noteq> n" by blast
    then show ?thesis
    proof cases
      case 1
      then show ?thesis using apart [OF m(2) _ m(4,5)] m(3,6) slm [OF m(2)] u(6) by simp
    next
      case 2
      then show ?thesis using apart [OF m(1) _ m(5,4)] m(6) slm [OF m(1)] u(6) by fastforce
    next
      case 3
      then show ?thesis using W(5) [OF m(1-5)] m(6) slm [OF m(1)] slm [OF m(2)] by simp
    qed
  qed
  have "(\<Sum>m | live s m. nblk (fsz u m)) = nblk (fsz u n) + (\<Sum>m\<in>{m. live s m} - {n}. nblk (fsz u m))"
    using n by (intro sum.remove) simp_all
  moreover have "(\<Sum>m | live s m. nblk (fsz s m)) = nblk ?z + (\<Sum>m\<in>{m. live s m} - {n}. nblk (fsz s m))"
    using n by (intro sum.remove) simp_all
  moreover have "(\<Sum>m\<in>{m. live s m} - {n}. nblk (fsz u m)) = (\<Sum>m\<in>{m. live s m} - {n}. nblk (fsz s m))"
    using other by (intro sum.cong) auto
  ultimately have "(\<Sum>m | live s m. nblk (fsz u m)) + nblk ?z = (\<Sum>m | live s m. nblk (fsz s m)) + nblk (?z + length p)"
    using sz u(6) by simp
  then have count: "unat (freeblock u) = nmeta + (\<Sum>m | live u m. nblk (fsz u m))" using W(6) t(4) u(4) lq by simp
  have "ino_ok u m" if "live u m" for m using that okn K(1) [of m] lv by (cases "m = n") simp_all
  moreover have "ino u m = dinode0" if "unat m < NINODES" "\<not> live s m" for m
    using u(7) [OF that(1)] it [OF that(1)] W(7) [OF that] n that(2) by force
  ultimately have "mk_wf u" unfolding mk_wf_def using u(2) W(2,3) fi cross count lq by simp
  moreover have "keeps_head s u" unfolding keeps_head_def
  proof (intro allI impI)
    fix b :: u32 assume b: "b \<noteq> 0 \<and> unat b < 33"
    then have "b \<noteq> IBLOCK n mk_sb" using iblock_meta [OF nn] by auto
    then show "sector u b = sector s b" using u(5) head [of b] b by (simp add: layout)
  qed
  moreover have "iappend n p s = Ok () u" using rinode_ok [OF W(1) nn] t(1) u(1) by (simp add: iappend_def kp_def)
  ultimately show ?thesis using that fi vw sz t(4) u(4,6) by simp
qed


lemma live_new: "unat (freeinode s) < NINODES \<Longrightarrow> 0 < freeinode s \<Longrightarrow> freeinode t = freeinode s + 1 \<Longrightarrow>
  live t m \<longleftrightarrow> live s m \<or> m = freeinode s"
proof -
  assume fi: "unat (freeinode s) < NINODES" "0 < freeinode s" and t: "freeinode t = freeinode s + 1"
  have "unat (freeinode s + 1) = Suc (unat (freeinode s))"
    using fi(1) unfolding NINODES_def by (subst unat_add_lem [THEN iffD1]) simp_all
  then show ?thesis using fi(2) unfolding live_def t by (auto simp: word_less_nat_alt word_unat_eq_iff)
qed

lemma mk_ialloc_view:
  assumes wf: "mk_wf s" and fi: "unat (freeinode s) < NINODES"
  obtains t where "mk_ialloc typ s = Ok (freeinode s) t" "mk_wf t" "freeinode t = freeinode s + 1" "keeps_head s t"
    "freeblock t = freeblock s" "view t = (view s)(freeinode s \<mapsto> (typ, 1, []))" "fsz t (freeinode s) = 0" "live t (freeinode s)"
proof -
  note W = mk_wfD [OF wf]
  let ?n = "freeinode s" and ?s = "s\<lparr>freeinode := freeinode s + 1\<rparr>"
  let ?ip = "dinode0\<lparr>i_type := typ, i_nlink := 1, i_size := 0\<rparr>"
  have ok: "img_ok ?s" using W(1) by (simp add: img_ok_def)
  have ino_s: "ino ?s m = ino s m" for m by (simp add: ino_def)
  have ip: "raw ?ip" "length (i_addrs ?ip) = NDIRECT + 1" by (simp_all add: raw_def dinode0_def)
  obtain t where t: "winode ?n ?ip ?s = Ok () t" "img_ok t" "freeinode t = ?n + 1" "freeblock t = freeblock s"
    "\<And>b. b \<noteq> IBLOCK ?n mk_sb \<Longrightarrow> sector t b = sector s b" "ino t ?n = ?ip" "\<And>m. unat m < NINODES \<Longrightarrow> m \<noteq> ?n \<Longrightarrow> ino t m = ino s m"
    by (rule winode_stores [OF ok fi ip]) (simp add: ino_s)
  have lv: "live t m \<longleftrightarrow> live s m \<or> m = ?n" for m by (rule live_new [OF fi W(2) t(3)])
  have nn: "\<not> live s ?n" by (simp add: live_def)
  have other: "ino t m = ino s m" if "live s m" for m using t(7) [OF live_less [OF wf that]] that nn by blast
  have sl0: "slot f ?ip k = 0" if "k < NSLOT" for f k by (simp add: slot_def dinode0_def del: replicate_Suc)
  have kept: "sector t (mslot s (ino s m) l) = sector s (mslot s (ino s m) l)"
    if m: "live s m" and l: "l < NSLOT" "mslot s (ino s m) l \<noteq> 0" for m l
  proof -
    note M = ownsD [OF ino_okD(1) [OF W(4) [OF m]]]
    have "nmeta \<le> unat (mslot s (ino s m) l)" using M(4) [OF l(1)] M(5) l(2) by simp
    then show ?thesis using iblock_meta [OF fi] by (intro t(5)) (auto simp: layout)
  qed
  have le: "unat (freeblock s) \<le> unat (freeblock t)" by (simp add: t(4))
  have K: "ino_ok t m" "mslot t (ino t m) k = mslot s (ino s m) k"
    "file_bytes (sector t) (ino t m) 0 (fsz s m) = file_bytes (sector s) (ino s m) 0 (fsz s m)"
    if m: "live s m" for m k
    by (rule ino_kept [OF W(4) [OF m] other [OF m] t(2) le]; rule kept [OF m]; assumption)+
  have z: "needs 0 = {}" by (simp add: needs_def)
  have okn: "ino_ok t ?n"
    unfolding ino_ok_def t(6) owns_def using t(2) ip(2) sl0 sl0 [OF slot_of_less(1)] by (auto simp: z)
  have vw: "view t = (view s)(?n \<mapsto> (typ, 1, []))"
  proof
    fix m
    show "view t m = ((view s)(?n \<mapsto> (typ, 1, []))) m"
      using K(3) [of m] other [of m] nn by (cases "m = ?n") (simp_all add: view_def lv t(6))
  qed
  have cross: "mslot t (ino t m) k \<noteq> mslot t (ino t m') l"
    if m: "live t m" "live t m'" "m \<noteq> m'" "k < NSLOT" "l < NSLOT" "mslot t (ino t m) k \<noteq> 0" for m m' k l
  proof -
    have lm: "live s m" using m(1,4,6) sl0 lv by (auto simp: t(6))
    show ?thesis
    proof (cases "m' = ?n")
      case True
      then show ?thesis using m(5,6) sl0 by (simp add: t(6))
    next
      case False
      then have "live s m'" using m(2) lv by simp
      then show ?thesis using W(5) [OF lm _ m(3-5)] m(6) K(2) lm by simp
    qed
  qed
  have "{m. live t m} = insert ?n {m. live s m}" using lv by auto
  then have "(\<Sum>m | live t m. nblk (fsz t m)) = nblk (fsz t ?n) + (\<Sum>m | live s m. nblk (fsz t m))" using nn by simp
  also have "(\<Sum>m | live s m. nblk (fsz t m)) = (\<Sum>m | live s m. nblk (fsz s m))" using other by (intro sum.cong) auto
  finally have count: "unat (freeblock t) = nmeta + (\<Sum>m | live t m. nblk (fsz t m))"
    using W(6) t(4,6) nblk_at [of 0 0] BSIZE_pos by (simp add: NDIRECT_def)
  have "unat (?n + 1) = Suc (unat ?n)" using fi unfolding NINODES_def by (subst unat_add_lem [THEN iffD1]) simp_all
  then have fi': "0 < freeinode t" "unat (freeinode t) \<le> NINODES" using fi t(3) by (simp_all add: word_less_nat_alt)
  have free: "ino t m = dinode0" if "unat m < NINODES" "\<not> live t m" for m
    using t(7) [OF that(1)] W(7) [OF that(1)] that(2) lv by simp
  have "ino_ok t m" if "live t m" for m using that okn K(1) [of m] lv by (cases "m = ?n") simp_all
  then have wt: "mk_wf t" unfolding mk_wf_def using t(2) fi' cross count free by simp
  have "keeps_head s t" unfolding keeps_head_def using t(5) iblock_meta [OF fi] by (metis not_less)
  moreover have "mk_ialloc typ s = Ok ?n t" using t(1) by (simp add: mk_ialloc_def)
  moreover have "live t ?n" using lv by simp
  ultimately show ?thesis using that wt t(3,4,6) vw by simp
qed

end
