(* ===== verification/Mkfs_Build.thy ===== *)
theory Mkfs_Build
  imports Mkfs_Image
begin

text \<open>
  The image that \<^verbatim>\<open>mkfs\<close> builds: a super block the kernel reads back, a root directory with the given
  files and their content, free inodes, and a bitmap of exactly the blocks in use.
\<close>

section \<open>The empty image\<close>

lemma wipe:
  "n \<le> FSSIZE \<Longrightarrow> foreach (\<lambda>i. wsect (of_nat i) zero_block) [0..<n] \<lparr>img = [], freeinode = i, freeblock = b\<rparr> =
     Ok () \<lparr>img = replicate n zero_block, freeinode = i, freeblock = b\<rparr>"
proof (induction n)
  case (Suc n)
  have u: "unat (of_nat n :: u32) = n" using Suc.prems by (intro unat_of_nat32) (simp add: FSSIZE_def)
  have "(replicate n zero_block @ replicate (Suc 0) zero_block)[n := zero_block] = replicate (Suc n) zero_block"
    using list_update_length [of "replicate n zero_block" zero_block "[]" zero_block] by (simp add: replicate_append_same)
  then show ?case using Suc by (simp add: foreach_append wsect_def u del: replicate_Suc)
qed simp

definition with_super :: mkfs where
  "with_super = \<lparr>img = (replicate FSSIZE zero_block)[1 := patch zero_block 0 (sb_bytes mk_sb)], freeinode = 1, freeblock = of_nat nmeta\<rparr>"

lemma length_sb_bytes: "length (sb_bytes sb) = 32" by (simp add: sb_bytes_def)

lemma sb_stored: "sb_of_bytes (patch zero_block 0 (sb_bytes mk_sb)) = mk_sb"
proof -
  have g: "get32 (concat (map bytes32 ws) @ xs) (4 * i) = ws ! i" if "i < length ws" for ws xs i
    using get32_concat [OF that] length_concat_bytes32 [of ws] that by (simp add: get32_def nth_append)
  let ?ws = "[sb_magic mk_sb, sb_size mk_sb, sb_nblocks mk_sb, sb_ninodes mk_sb, sb_nlog mk_sb, sb_logstart mk_sb,
     sb_inodestart mk_sb, sb_bmapstart mk_sb]"
  have p: "patch zero_block 0 (sb_bytes mk_sb) = concat (map bytes32 ?ws) @ drop 32 zero_block"
    by (simp only: patch_def sb_bytes_def [symmetric] length_sb_bytes) simp
  have "get32 (patch zero_block 0 (sb_bytes mk_sb)) (4 * i) = ?ws ! i" if "i < 8" for i
    unfolding p by (rule g) (use that in simp)
  from this [of 0] this [of 1] this [of 2] this [of 3] this [of 4] this [of 5] this [of 6] this [of 7]
  show ?thesis by (simp add: sb_of_bytes_def numeral_nat)
qed

lemma with_super_sector: "unat b < FSSIZE \<Longrightarrow> sector with_super b = (if b = 1 then patch zero_block 0 (sb_bytes mk_sb) else zero_block)"
  by (auto simp: sector_def with_super_def nth_list_update FSSIZE_def word_unat_eq_iff simp del: replicate_Suc)

lemma with_super_wf: "mk_wf with_super"
proof -
  have Z: "length zero_block = BSIZE" by (simp add: zero_block_def)
  have P: "length (patch zero_block 0 (sb_bytes mk_sb)) = BSIZE" by (simp add: Z length_sb_bytes BSIZE_def)
  have lv: "\<not> live with_super n" for n by (auto simp: live_def with_super_def word_less_nat_alt)
  have "img_ok with_super"
    unfolding img_ok_def using Z P by (auto simp: with_super_def nth_list_update layout FSSIZE_def simp del: replicate_Suc)
  moreover have "ino with_super n = dinode0" if n: "unat n < NINODES" for n
  proof -
    have "IBLOCK n mk_sb \<noteq> 1" "unat (IBLOCK n mk_sb) < FSSIZE" using iblock_meta [OF n] by (auto simp: FSSIZE_def)
    then have s: "sector with_super (IBLOCK n mk_sb) = replicate BSIZE 0" by (simp add: with_super_sector zero_block_def)
    have d: "dip_off n + 64 \<le> BSIZE" using dip_off_le [of n] by (simp add: DINODE_SIZE_def NDIRECT_def)
    have "map (\<lambda>j. get32 (replicate BSIZE 0) (dip_off n + 12 + 4 * j)) [0..<NDIRECT + 1] = replicate (NDIRECT + 1) 0"
      using d by (intro nth_equalityI) (simp_all add: get32_zeros NDIRECT_def del: replicate_Suc upt_Suc)
    moreover have g: "get16 (replicate BSIZE 0) (dip_off n + j) = 0" if "j \<le> 6" for j
      using d that by (simp add: get16_def)
    ultimately show ?thesis using d get32_zeros [of "dip_off n + 8" BSIZE] g [of 0] g [of 2]
      by (simp add: ino_def dip_read_def s Let_def dinode0_def del: upt_Suc replicate_Suc)
  qed
  ultimately show ?thesis
    unfolding mk_wf_def using lv by (simp add: with_super_def NINODES_def layout)
qed

section \<open>Files\<close>

lemma append_chunks_view:
  assumes "mk_wf s" "live s n" "\<forall>c\<in>set cs. c \<noteq> []" "fsz s n + length (concat cs) \<le> MAXFILE * BSIZE"
    "unat (freeblock s) + nblk (fsz s n + length (concat cs)) \<le> FSSIZE + nblk (fsz s n)"
  obtains t where "append_chunks n cs s = Ok () t" "mk_wf t" "freeinode t = freeinode s" "keeps_head s t"
    "view t = (view s)(n \<mapsto> (i_type (ino s n), i_nlink (ino s n), file_bytes (sector s) (ino s n) 0 (fsz s n) @ concat cs))"
    "unat (freeblock t) + nblk (fsz s n) = unat (freeblock s) + nblk (fsz s n + length (concat cs))"
proof -
  have "\<exists>t. append_chunks n cs s = Ok () t \<and> mk_wf t \<and> freeinode t = freeinode s \<and> keeps_head s t \<and>
    view t = (view s)(n \<mapsto> (i_type (ino s n), i_nlink (ino s n), file_bytes (sector s) (ino s n) 0 (fsz s n) @ concat cs)) \<and>
    unat (freeblock t) + nblk (fsz s n) = unat (freeblock s) + nblk (fsz s n + length (concat cs))"
    using assms
  proof (induction cs arbitrary: s)
    case Nil
    then have "view s n = Some (i_type (ino s n), i_nlink (ino s n), file_bytes (sector s) (ino s n) 0 (fsz s n))"
      by (simp add: view_def)
    then show ?case using Nil by (auto simp: keeps_head_def fun_eq_iff)
  next
    case (Cons c cs)
    have len: "fsz s n + length c \<le> MAXFILE * BSIZE" using Cons.prems(4) by simp
    have mono: "nblk (fsz s n + length c) \<le> nblk (fsz s n + length (concat (c # cs)))" by (rule nblk_mono) simp
    have room: "unat (freeblock s) + nblk (fsz s n + length c) \<le> FSSIZE + nblk (fsz s n)" using Cons.prems(5) mono by linarith
    obtain t where t: "iappend n c s = Ok () t" "mk_wf t" "freeinode t = freeinode s" "keeps_head s t"
      "view t = (view s)(n \<mapsto> (i_type (ino s n), i_nlink (ino s n), file_bytes (sector s) (ino s n) 0 (fsz s n) @ c))"
      "fsz t n = fsz s n + length c" "unat (freeblock t) + nblk (fsz s n) = unat (freeblock s) + nblk (fsz s n + length c)"
      by (rule iappend_view [OF Cons.prems(1,2) len room])
    have lt: "live t n" using Cons.prems(2) t(3) by (simp add: live_def)
    have vn: "i_type (ino t n) = i_type (ino s n)" "i_nlink (ino t n) = i_nlink (ino s n)"
      "file_bytes (sector t) (ino t n) 0 (fsz t n) = file_bytes (sector s) (ino s n) 0 (fsz s n) @ c"
      using fun_cong [OF t(5), of n] lt by (simp_all add: view_def)
    have al: "fsz t n + length (concat cs) = fsz s n + length (concat (c # cs))" by (simp add: t(6))
    have r: "unat (freeblock t) + nblk (fsz t n + length (concat cs)) \<le> FSSIZE + nblk (fsz t n)"
      unfolding al using Cons.prems(5) t(6,7) by simp
    have ne: "\<forall>c\<in>set cs. c \<noteq> []" using Cons.prems(3) by simp
    from Cons.IH [OF t(2) lt ne _ r, unfolded al, OF Cons.prems(4)] obtain u where
      u: "append_chunks n cs t = Ok () u" "mk_wf u" "freeinode u = freeinode t" "keeps_head t u"
        "view u = (view t)(n \<mapsto> (i_type (ino t n), i_nlink (ino t n), file_bytes (sector t) (ino t n) 0 (fsz t n) @ concat cs))"
        "unat (freeblock u) + nblk (fsz t n) = unat (freeblock t) + nblk (fsz s n + length (concat (c # cs)))" by blast
    have "view u = (view s)(n \<mapsto> (i_type (ino s n), i_nlink (ino s n), file_bytes (sector s) (ino s n) 0 (fsz s n) @ concat (c # cs)))"
      unfolding u(5) t(5) vn by simp
    moreover have "append_chunks n (c # cs) s = Ok () u" using t(1) u(1) Cons.prems(3) by simp
    moreover have "keeps_head s u" using t(4) u(4) by (simp add: keeps_head_def)
    moreover have "unat (freeblock u) + nblk (fsz s n) = unat (freeblock s) + nblk (fsz s n + length (concat (c # cs)))"
      using u(6) t(6,7) by simp
    ultimately show ?case using u(2,3) t(3) by (intro exI [of _ u]) simp
  qed
  then show ?thesis using that by blast
qed


text \<open>
  What a file argument must be for the builder to take it: readable, its name without a slash and at most
  14 bytes long, \<^verbatim>\<open>read\<close> returning at most a block at a time, and no larger than a file can be.
\<close>

definition arg_name :: "u8 list \<Rightarrow> u8 list" where "arg_name a = skip_underscore (strip_user a)"

definition arg_data :: "(u8 list \<Rightarrow> u8 list list option) \<Rightarrow> u8 list \<Rightarrow> u8 list" where
  "arg_data host a = (case host a of None \<Rightarrow> [] | Some cs \<Rightarrow> concat cs)"

definition arg_ok :: "(u8 list \<Rightarrow> u8 list list option) \<Rightarrow> u8 list \<Rightarrow> bool" where
  "arg_ok host a \<longleftrightarrow> 47 \<notin> set (strip_user a) \<and> length (arg_name a) \<le> DIRSIZ \<and> length (arg_data host a) \<le> MAXFILE * BSIZE \<and>
     (case host a of None \<Rightarrow> False | Some cs \<Rightarrow> list_all (\<lambda>c. c \<noteq> [] \<and> length c \<le> BSIZE) cs)"

fun entries :: "u32 \<Rightarrow> u8 list list \<Rightarrow> u8 list" where
  "entries n [] = []"
| "entries n (a # as) = direntry n (arg_name a) @ entries (n + 1) as"

lemma length_direntry [simp]: "length name \<le> DIRSIZ \<Longrightarrow> length (direntry n name) = DIRENT_SIZE"
  by (simp add: direntry_def DIRENT_SIZE_def)

lemma view_Some:
  "view s n = Some (ty, nl, d) \<longleftrightarrow> live s n \<and> i_type (ino s n) = ty \<and> i_nlink (ino s n) = nl \<and>
     file_bytes (sector s) (ino s n) 0 (fsz s n) = d"
  by (auto simp: view_def)

lemma view_length: "view s n = Some (ty, nl, d) \<Longrightarrow> fsz s n = length d"
  by (auto simp: view_Some)

lemma add_file_view:
  assumes wf: "mk_wf s" and root: "view s ROOTINO = Some (ty, nl, R)" and a: "arg_ok host a"
    and fi: "unat (freeinode s) < NINODES" and big: "length R + DIRENT_SIZE \<le> MAXFILE * BSIZE"
    and room: "unat (freeblock s) + nblk (length R + DIRENT_SIZE) + nblk (length (arg_data host a)) \<le> FSSIZE + nblk (length R)"
  obtains t where "add_file host a s = Ok () t" "mk_wf t" "freeinode t = freeinode s + 1" "keeps_head s t"
    "view t = (view s)(freeinode s \<mapsto> (T_FILE, 1, arg_data host a), ROOTINO \<mapsto> (ty, nl, R @ direntry (freeinode s) (arg_name a)))"
    "unat (freeblock t) + nblk (length R) = unat (freeblock s) + nblk (length R + DIRENT_SIZE) + nblk (length (arg_data host a))"
proof -
  let ?n = "freeinode s" and ?d = "direntry (freeinode s) (arg_name a)"
  obtain cs where cs: "host a = Some cs" "\<forall>c\<in>set cs. c \<noteq> []" "arg_data host a = concat cs"
    using a by (cases "host a") (auto simp: arg_ok_def arg_data_def list_all_iff)
  have A: "47 \<notin> set (strip_user a)" "length (arg_name a) \<le> DIRSIZ" "length (concat cs) \<le> MAXFILE * BSIZE"
    using a cs(3) by (simp_all add: arg_ok_def)
  obtain t where t: "mk_ialloc T_FILE s = Ok ?n t" "mk_wf t" "freeinode t = ?n + 1" "keeps_head s t"
    "freeblock t = freeblock s" "view t = (view s)(?n \<mapsto> (T_FILE, 1, []))" "fsz t ?n = 0" "live t ?n"
    by (rule mk_ialloc_view [OF wf fi])
  have rn: "ROOTINO \<noteq> ?n" using root by (auto simp: view_Some live_def)
  then have rt: "view t ROOTINO = Some (ty, nl, R)" using root t(6) by simp
  note RT = rt [unfolded view_Some] and zt = view_length [OF rt]
  have ld: "length ?d = DIRENT_SIZE" by (rule length_direntry [OF A(2)])
  have b1: "fsz t ROOTINO + length ?d \<le> MAXFILE * BSIZE" unfolding zt ld by (rule big)
  have r1: "unat (freeblock t) + nblk (fsz t ROOTINO + length ?d) \<le> FSSIZE + nblk (fsz t ROOTINO)"
    unfolding zt ld t(5) using room by simp
  obtain u where u: "iappend ROOTINO ?d t = Ok () u" "mk_wf u" "freeinode u = freeinode t" "keeps_head t u"
    "view u = (view t)(ROOTINO \<mapsto> (i_type (ino t ROOTINO), i_nlink (ino t ROOTINO),
       file_bytes (sector t) (ino t ROOTINO) 0 (fsz t ROOTINO) @ ?d))"
    "unat (freeblock u) + nblk (fsz t ROOTINO) = unat (freeblock t) + nblk (fsz t ROOTINO + length ?d)"
    by (rule iappend_view [OF t(2) _ b1 r1]) (use RT in blast)+
  have vu: "view u = (view s)(?n \<mapsto> (T_FILE, 1, []), ROOTINO \<mapsto> (ty, nl, R @ ?d))" unfolding u(5) t(6) using RT by simp
  have un: "view u ?n = Some (T_FILE, 1, [])" using rn by (simp add: vu)
  note UN = un [unfolded view_Some]
  have zu: "fsz u ?n = 0" using view_length [OF un] by simp
  have n0: "nblk 0 = 0" using nblk_at [of 0 0] BSIZE_pos by (simp add: NDIRECT_def)
  have r2: "unat (freeblock u) + nblk (fsz u ?n + length (concat cs)) \<le> FSSIZE + nblk (fsz u ?n)"
    using room u(6) unfolding zt ld zu t(5) cs(3) by simp
  obtain v where v: "append_chunks ?n cs u = Ok () v" "mk_wf v" "freeinode v = freeinode u" "keeps_head u v"
    "view v = (view u)(?n \<mapsto> (i_type (ino u ?n), i_nlink (ino u ?n), file_bytes (sector u) (ino u ?n) 0 (fsz u ?n) @ concat cs))"
    "unat (freeblock v) + nblk (fsz u ?n) = unat (freeblock u) + nblk (fsz u ?n + length (concat cs))"
    by (rule append_chunks_view [OF u(2) _ cs(2) _ r2]) (use UN zu A(3) in auto)
  have "view v = (view s)(?n \<mapsto> (T_FILE, 1, concat cs), ROOTINO \<mapsto> (ty, nl, R @ ?d))"
    unfolding v(5) vu using UN rn by (auto simp: fun_eq_iff)
  moreover have "add_file host a s = Ok () v"
    using A(1,2) cs(1) t(1) u(1) v(1) by (simp add: add_file_def arg_name_def Let_def)
  moreover have "keeps_head s v" using t(4) u(4) v(4) by (simp add: keeps_head_def)
  moreover have "unat (freeblock v) + nblk (length R) = unat (freeblock s) + nblk (length R + DIRENT_SIZE) + nblk (length (concat cs))"
    using u(6) v(6) unfolding zt ld zu t(5) n0 by simp
  ultimately show ?thesis using that v(2,3) u(3) t(3) cs(3) by simp
qed

lemma add_files_view:
  assumes "mk_wf s" "view s ROOTINO = Some (ty, nl, R)" "\<forall>a\<in>set as. arg_ok host a" "unat (freeinode s) + length as \<le> NINODES"
    "length R + DIRENT_SIZE * length as \<le> MAXFILE * BSIZE"
    "unat (freeblock s) + nblk (length R + DIRENT_SIZE * length as) + (\<Sum>a\<leftarrow>as. nblk (length (arg_data host a))) \<le> FSSIZE + nblk (length R)"
  shows "\<exists>t. foreach (add_file host) as s = Ok () t \<and> mk_wf t \<and> freeinode t = freeinode s + of_nat (length as) \<and> keeps_head s t \<and>
    view t ROOTINO = Some (ty, nl, R @ entries (freeinode s) as) \<and>
    (\<forall>i<length as. view t (freeinode s + of_nat i) = Some (T_FILE, 1, arg_data host (as ! i))) \<and>
    (\<forall>m. live s m \<and> m \<noteq> ROOTINO \<longrightarrow> view t m = view s m) \<and>
    unat (freeblock t) + nblk (length R) = unat (freeblock s) + nblk (length R + DIRENT_SIZE * length as) +
      (\<Sum>a\<leftarrow>as. nblk (length (arg_data host a)))"
  using assms
proof (induction as arbitrary: s R)
  case Nil
  then show ?case by (auto simp: keeps_head_def)
next
  case (Cons a as)
  have ok: "arg_ok host a" "\<forall>a\<in>set as. arg_ok host a" using Cons.prems(3) by simp_all
  have fi: "unat (freeinode s) < NINODES" using Cons.prems(4) by simp
  have big: "length R + DIRENT_SIZE \<le> MAXFILE * BSIZE" using Cons.prems(5) by simp
  have mono: "nblk (length R + DIRENT_SIZE) \<le> nblk (length R + DIRENT_SIZE * length (a # as))" by (rule nblk_mono) simp
  have room: "unat (freeblock s) + nblk (length R + DIRENT_SIZE) + nblk (length (arg_data host a)) \<le> FSSIZE + nblk (length R)"
    using Cons.prems(6) mono by simp
  let ?R = "R @ direntry (freeinode s) (arg_name a)"
  obtain t where t: "add_file host a s = Ok () t" "mk_wf t" "freeinode t = freeinode s + 1" "keeps_head s t"
    "view t = (view s)(freeinode s \<mapsto> (T_FILE, 1, arg_data host a), ROOTINO \<mapsto> (ty, nl, ?R))"
    "unat (freeblock t) + nblk (length R) = unat (freeblock s) + nblk (length R + DIRENT_SIZE) + nblk (length (arg_data host a))"
    by (rule add_file_view [OF Cons.prems(1,2) ok(1) fi big room])
  have lR: "length ?R = length R + DIRENT_SIZE" using ok(1) by (simp add: arg_ok_def)
  then have al: "length ?R + DIRENT_SIZE * length as = length R + DIRENT_SIZE * length (a # as)" by simp
  have rt: "view t ROOTINO = Some (ty, nl, ?R)" by (simp add: t(5))
  have fit: "unat (freeinode t) = Suc (unat (freeinode s))"
    using fi unfolding t(3) NINODES_def by (subst unat_add_lem [THEN iffD1]) simp_all
  have p4: "unat (freeinode t) + length as \<le> NINODES" using Cons.prems(4) fit by simp
  have p6: "unat (freeblock t) + nblk (length ?R + DIRENT_SIZE * length as) + (\<Sum>a\<leftarrow>as. nblk (length (arg_data host a))) \<le> FSSIZE + nblk (length ?R)"
    unfolding al lR using Cons.prems(6) t(6) by (simp add: add.assoc)
  from Cons.IH [OF t(2) rt ok(2) p4 _ p6, unfolded al, OF Cons.prems(5)] obtain u where
    u: "foreach (add_file host) as t = Ok () u" "mk_wf u" "freeinode u = freeinode t + of_nat (length as)" "keeps_head t u"
      "view u ROOTINO = Some (ty, nl, ?R @ entries (freeinode t) as)"
      "\<forall>i<length as. view u (freeinode t + of_nat i) = Some (T_FILE, 1, arg_data host (as ! i))"
      "\<forall>m. live t m \<and> m \<noteq> ROOTINO \<longrightarrow> view u m = view t m"
      "unat (freeblock u) + nblk (length ?R) = unat (freeblock t) + nblk (length R + DIRENT_SIZE * length (a # as)) +
        (\<Sum>a\<leftarrow>as. nblk (length (arg_data host a)))" by blast
  have lv: "live t m \<longleftrightarrow> live s m \<or> m = freeinode s" for m
    using live_new [OF fi mk_wfD(2) [OF Cons.prems(1)] t(3)] .
  have rn: "ROOTINO \<noteq> freeinode s" using Cons.prems(2) by (auto simp: view_Some live_def)
  have files: "view u (freeinode s + of_nat i) = Some (T_FILE, 1, arg_data host ((a # as) ! i))" if i: "i < length (a # as)" for i
  proof (cases i)
    case 0
    then show ?thesis using u(7) lv t(5) rn by auto
  next
    case (Suc j)
    then show ?thesis using u(6) i t(3) by (simp add: add.assoc)
  qed
  have old: "view u m = view s m" if "live s m" "m \<noteq> ROOTINO" for m
  proof -
    have "view u m = view t m" using u(7) that lv by blast
    also have "m \<noteq> freeinode s" using that(1) by (auto simp: live_def)
    then have "view t m = view s m" using that(2) by (simp add: t(5))
    finally show ?thesis .
  qed
  have run: "foreach (add_file host) (a # as) s = Ok () u" using t(1) u(1) by simp
  have fu: "freeinode u = freeinode s + of_nat (length (a # as))" using u(3) t(3) by simp
  have hd: "keeps_head s u" using u(4) t(4) by (simp add: keeps_head_def)
  have root: "view u ROOTINO = Some (ty, nl, R @ entries (freeinode s) (a # as))" using u(5) t(3) by simp
  have "unat (freeblock u) + nblk (length R) = unat (freeblock s) + nblk (length R + DIRENT_SIZE * length (a # as)) +
      (nblk (length (arg_data host a)) + (\<Sum>a\<leftarrow>as. nblk (length (arg_data host a))))"
    using u(8) [unfolded lR] t(6) by linarith
  then have count: "unat (freeblock u) + nblk (length R) = unat (freeblock s) + nblk (length R + DIRENT_SIZE * length (a # as)) +
      (\<Sum>a\<leftarrow>a # as. nblk (length (arg_data host a)))" by simp
  show ?case using run u(2) fu hd root files old count by blast
qed


section \<open>The root directory's size and the bitmap\<close>

lemma fix_root_ok:
  assumes ok: "img_ok s" and z: "fsz s ROOTINO \<le> MAXFILE * BSIZE"
  obtains t where "fix_root s = Ok () t" "img_ok t" "freeinode t = freeinode s" "freeblock t = freeblock s"
    "\<And>b. b \<noteq> IBLOCK ROOTINO mk_sb \<Longrightarrow> sector t b = sector s b" "\<And>m. unat m < NINODES \<Longrightarrow> m \<noteq> ROOTINO \<Longrightarrow> ino t m = ino s m"
    "ino t ROOTINO = (ino s ROOTINO)\<lparr>i_size := of_nat ((fsz s ROOTINO div BSIZE + 1) * BSIZE)\<rparr>"
proof -
  let ?z = "i_size (ino s ROOTINO)"
  have r: "unat ROOTINO < NINODES" by (simp add: ROOTINO_def NINODES_def)
  have d: "?z div of_nat BSIZE = of_nat (unat ?z div BSIZE)"
  proof -
    have "unat ?z div BSIZE < 2 ^ 32"
      using z div_le_dividend [of "unat ?z" BSIZE] by (simp add: MAXFILE_def NDIRECT_def NINDIRECT_def BSIZE_def)
    from unat_of_nat32 [OF this] show ?thesis by (simp add: word_unat_eq_iff unat_div BSIZE_def)
  qed
  then have e: "(?z div of_nat BSIZE + 1) * of_nat BSIZE = of_nat ((unat ?z div BSIZE + 1) * BSIZE)" by (simp add: algebra_simps)
  let ?ip = "(ino s ROOTINO)\<lparr>i_size := of_nat ((unat ?z div BSIZE + 1) * BSIZE)\<rparr>"
  have ip: "raw ?ip" "length (i_addrs ?ip) = NDIRECT + 1" using raw_ino length_ino by (simp_all add: raw_def)
  obtain t where t: "winode ROOTINO ?ip s = Ok () t" "img_ok t" "freeinode t = freeinode s" "freeblock t = freeblock s"
    "\<And>b. b \<noteq> IBLOCK ROOTINO mk_sb \<Longrightarrow> sector t b = sector s b" "ino t ROOTINO = ?ip"
    "\<And>m. unat m < NINODES \<Longrightarrow> m \<noteq> ROOTINO \<Longrightarrow> ino t m = ino s m"
    by (rule winode_stores [OF ok r ip]) blast
  have "fix_root s = Ok () t"
    unfolding fix_root_def using rinode_ok [OF ok r] t(1) by (simp only: bnd_simps Let_def xint_id e)
  then show ?thesis using that t(2-7) by blast
qed

definition bitmap :: "nat \<Rightarrow> u8 list" where
  "bitmap n = fold (\<lambda>i buf. buf[i div 8 := buf ! (i div 8) OR bit_mask i]) [0..<n] zero_block"

lemma bitmap_bits: "n \<le> BPB \<Longrightarrow> length (bitmap n) = BSIZE \<and> (\<forall>j<BPB. bit_clear (bitmap n) j \<longleftrightarrow> n \<le> j)"
proof (induction n)
  case 0
  have "j div 8 < BSIZE" if "j < BPB" for j using that by (simp add: BPB_def)
  then show ?case by (simp add: bitmap_def bit_clear_def zero_block_def)
next
  case (Suc n)
  have s: "bitmap (Suc n) = (bitmap n)[n div 8 := bitmap n ! (n div 8) OR bit_mask n]" by (simp add: bitmap_def)
  have l: "length (bitmap n) = BSIZE" "n < BPB" using Suc by simp_all
  show ?case using Suc bit_set_clear(1) [OF l] by (auto simp: s)
qed

lemma mk_balloc_ok:
  assumes ok: "img_ok s" and n: "n \<le> FSSIZE"
  shows "mk_balloc n s = Ok () (put_sector 46 (bitmap n) s)" "img_ok (put_sector 46 (bitmap n) s)"
    "sector (put_sector 46 (bitmap n) s) = (sector s)(46 := bitmap n)"
proof -
  have B: "n < BPB" "n \<le> BPB" using n by (simp_all add: FSSIZE_def BPB_def BSIZE_def)
  have u: "unat (46 :: u32) < FSSIZE" "unat (46 :: u32) < unat (freeblock s)"
    using img_okD(3) [OF ok] by (simp_all add: FSSIZE_def layout)
  show "mk_balloc n s = Ok () (put_sector 46 (bitmap n) s)"
    using B wsect_ok [OF ok u(1)] by (simp add: mk_balloc_def bitmap_def layout)
  show "img_ok (put_sector 46 (bitmap n) s)" using bitmap_bits [OF B(2)] by (intro img_ok_put [OF ok u(2)]) simp
  show "sector (put_sector 46 (bitmap n) s) = (sector s)(46 := bitmap n)" by (rule sector_put [OF ok u(1)])
qed


section \<open>The whole image\<close>

definition root_dir :: "u8 list list \<Rightarrow> u8 list" where
  "root_dir args = direntry ROOTINO [46] @ direntry ROOTINO [46, 46] @ entries 2 args"

lemma length_entries: "\<forall>a\<in>set as. length (arg_name a) \<le> DIRSIZ \<Longrightarrow> length (entries n as) = DIRENT_SIZE * length as"
  by (induction as arbitrary: n) auto

lemma length_root_dir: "\<forall>a\<in>set args. arg_ok host a \<Longrightarrow> length (root_dir args) = DIRENT_SIZE * (length args + 2)"
  using length_entries [of args 2] by (simp add: root_dir_def arg_ok_def DIRSIZ_def)

definition blocks_for :: "(u8 list \<Rightarrow> u8 list list option) \<Rightarrow> u8 list list \<Rightarrow> nat" where
  "blocks_for host args = nmeta + nblk (length (root_dir args)) + (\<Sum>a\<leftarrow>args. nblk (length (arg_data host a)))"

text \<open>Up to the fix of the root's size.\<close>

lemma mkfs_files:
  assumes n: "length args + 2 \<le> NINODES" and ok: "\<forall>a\<in>set args. arg_ok host a" and room: "blocks_for host args \<le> FSSIZE"
  obtains s where "mkfs_main host args = bnd (fix_root s) (\<lambda>_ s. mk_balloc (unat (freeblock s)) s)" "mk_wf s"
    "freeinode s = of_nat (length args + 2)" "keeps_head with_super s" "view s ROOTINO = Some (T_DIR, 1, root_dir args)"
    "\<forall>i<length args. view s (of_nat (i + 2)) = Some (T_FILE, 1, arg_data host (args ! i))"
    "unat (freeblock s) = blocks_for host args"
proof -
  have D: "DIRENT_SIZE = 16" by (simp add: DIRENT_SIZE_def DIRSIZ_def)
  have fs: "freeinode with_super = 1" "unat (freeblock with_super) = nmeta" by (simp_all add: with_super_def layout)
  have fi: "unat (freeinode with_super) < NINODES" by (simp add: fs NINODES_def)
  obtain s1 where s1: "mk_ialloc T_DIR with_super = Ok 1 s1" "mk_wf s1" "freeinode s1 = 2" "keeps_head with_super s1"
    "freeblock s1 = freeblock with_super" "view s1 = (view with_super)(1 \<mapsto> (T_DIR, 1, []))" "fsz s1 1 = 0" "live s1 1"
    by (rule mk_ialloc_view [OF with_super_wf fi, of T_DIR]) (simp add: fs)
  have v1: "view s1 ROOTINO = Some (T_DIR, 1, [])" by (simp add: s1(6) ROOTINO_def)
  let ?d1 = "direntry ROOTINO [46]" and ?d2 = "direntry ROOTINO [46, 46]"
  have l: "length ?d1 = 16" "length ?d2 = 16" by (simp_all add: D [symmetric] DIRSIZ_def)
  have nb: "nblk 0 = 0" "nblk 16 = 1" "nblk 32 = 1" by (simp_all add: nblk_def NDIRECT_def BSIZE_def)
  note V1 = v1 [unfolded view_Some]
  obtain s2 where s2: "iappend ROOTINO ?d1 s1 = Ok () s2" "mk_wf s2" "freeinode s2 = freeinode s1" "keeps_head s1 s2"
    "view s2 = (view s1)(ROOTINO \<mapsto> (T_DIR, 1, ?d1))" "unat (freeblock s2) = nmeta + 1"
    using iappend_view [OF s1(2) conjunct1 [OF V1], of ?d1] V1 l s1(5) fs(2) nb view_length [OF v1]
    by (simp add: layout FSSIZE_def MAXFILE_def NDIRECT_def NINDIRECT_def BSIZE_def) metis
  have v2: "view s2 ROOTINO = Some (T_DIR, 1, ?d1)" by (simp add: s2(5))
  note V2 = v2 [unfolded view_Some]
  obtain s3 where s3: "iappend ROOTINO ?d2 s2 = Ok () s3" "mk_wf s3" "freeinode s3 = freeinode s2" "keeps_head s2 s3"
    "view s3 = (view s2)(ROOTINO \<mapsto> (T_DIR, 1, ?d1 @ ?d2))" "unat (freeblock s3) = nmeta + 1"
    using iappend_view [OF s2(2) conjunct1 [OF V2], of ?d2] V2 l s2(6) nb view_length [OF v2]
    by (simp add: layout FSSIZE_def MAXFILE_def NDIRECT_def NINDIRECT_def BSIZE_def) metis
  have v3: "view s3 ROOTINO = Some (T_DIR, 1, ?d1 @ ?d2)" by (simp add: s3(5))
  have f3: "freeinode s3 = 2" using s1(3) s2(3) s3(3) by simp
  have lR: "length (?d1 @ ?d2) = 32" using l by simp
  have dir: "length (?d1 @ ?d2) + DIRENT_SIZE * length args = length (root_dir args)" by (simp add: length_root_dir [OF ok] l D)
  have u3: "unat (freeinode s3) = 2" by (simp add: f3)
  have p4: "unat (freeinode s3) + length args \<le> NINODES" using n by (simp add: u3)
  have p5: "length (root_dir args) \<le> MAXFILE * BSIZE"
    using n by (simp add: length_root_dir [OF ok] D NINODES_def MAXFILE_def NDIRECT_def NINDIRECT_def BSIZE_def)
  have p6: "unat (freeblock s3) + nblk (length (root_dir args)) + (\<Sum>a\<leftarrow>args. nblk (length (arg_data host a))) \<le>
      FSSIZE + nblk (length (?d1 @ ?d2))"
    unfolding lR s3(6) nb(3) using room by (simp add: blocks_for_def)
  from add_files_view [OF s3(2) v3 ok p4, unfolded dir, OF p5 p6] obtain s where
    s: "foreach (add_file host) args s3 = Ok () s" "mk_wf s" "freeinode s = freeinode s3 + of_nat (length args)" "keeps_head s3 s"
      "view s ROOTINO = Some (T_DIR, 1, (?d1 @ ?d2) @ entries (freeinode s3) args)"
      "\<forall>i<length args. view s (freeinode s3 + of_nat i) = Some (T_FILE, 1, arg_data host (args ! i))"
      "unat (freeblock s) + nblk (length (?d1 @ ?d2)) =
        unat (freeblock s3) + nblk (length (root_dir args)) + (\<Sum>a\<leftarrow>args. nblk (length (arg_data host a)))" by blast
  have start: "wsect 1 (patch zero_block 0 (sb_bytes mk_sb)) \<lparr>img = replicate FSSIZE zero_block, freeinode = 1, freeblock = of_nat nmeta\<rparr> =
      Ok () with_super"
    by (simp add: wsect_def with_super_def FSSIZE_def del: replicate_Suc)
  have main: "mkfs_main host args = bnd (fix_root s) (\<lambda>_ s. mk_balloc (unat (freeblock s)) s)"
    unfolding mkfs_main_def wipe [OF order_refl] bnd_simps start s1(1)
    using s2(1) s3(1) s(1) by (simp add: ROOTINO_def)
  have head: "keeps_head with_super s" using s1(4) s2(4) s3(4) s(4) by (simp add: keeps_head_def)
  have fin: "freeinode s = of_nat (length args + 2)" using s(3) f3 by simp
  have root: "view s ROOTINO = Some (T_DIR, 1, root_dir args)" using s(5) by (simp add: root_dir_def f3)
  have files: "\<forall>i<length args. view s (of_nat (i + 2)) = Some (T_FILE, 1, arg_data host (args ! i))"
    using s(6) by (simp add: f3 add.commute)
  have count: "unat (freeblock s) = blocks_for host args" using s(7) unfolding lR s3(6) nb(3) by (simp add: blocks_for_def)
  show ?thesis by (rule that [OF main s(2) fin head root files count])
qed


lemma keeps_data:
  assumes m: "live s m" and wf: "mk_wf s" and t: "img_ok t" "freeinode t = freeinode s" "unat (freeblock s) \<le> unat (freeblock t)"
    and d: "\<And>b. nmeta \<le> unat b \<Longrightarrow> sector t b = sector s b" and i: "ino t m = ino s m"
  shows "view t m = view s m"
proof -
  note M = ownsD [OF ino_okD(1) [OF mk_wfD(4) [OF wf m]]]
  have "file_bytes (sector t) (ino t m) 0 (fsz s m) = file_bytes (sector s) (ino s m) 0 (fsz s m)"
    by (rule ino_kept(3) [OF mk_wfD(4) [OF wf m] i t(1,3)]) (use M(4,5) d in blast)
  then show ?thesis using i t(2) by (simp add: view_def live_def)
qed

text \<open>The bytes of the root directory up to the end of its last block.\<close>

lemma root_bytes:
  assumes wf: "mk_wf s" and r: "live s n" and d: "\<And>b. nmeta \<le> unat b \<Longrightarrow> sector t b = sector s b"
    and a: "i_addrs jp = i_addrs (ino s n)" and z: "z = (fsz s n + BSIZE - 1) div BSIZE * BSIZE"
  shows "file_bytes (sector t) jp 0 z = file_bytes (sector s) (ino s n) 0 (fsz s n) @ replicate (z - fsz s n) 0"
proof (rule nth_equalityI)
  note O = ino_okD [OF mk_wfD(4) [OF wf r]]
  note M = ownsD [OF O(1)]
  define q where "q = (fsz s n + BSIZE - 1) div BSIZE"
  have "fsz s n + BSIZE - 1 < q * BSIZE + BSIZE" unfolding q_def using dividend_less_div_times [OF BSIZE_pos, of "fsz s n + BSIZE - 1"] by simp
  then have zle: "fsz s n \<le> z" unfolding z q_def by simp
  then show "length (file_bytes (sector t) jp 0 z) = length (file_bytes (sector s) (ino s n) 0 (fsz s n) @ replicate (z - fsz s n) 0)"
    by simp
  fix j assume "j < length (file_bytes (sector t) jp 0 z)"
  then have j: "j < z" by simp
  then have "j div BSIZE < q" unfolding z q_def [symmetric] by (rule less_mult_imp_div_less)
  then have "j div BSIZE * BSIZE + BSIZE \<le> q * BSIZE" using mult_le_mono1 [of "Suc (j div BSIZE)" q BSIZE] by simp
  also have "q * BSIZE \<le> fsz s n + BSIZE - 1" unfolding q_def by (rule div_times_less_eq_dividend)
  finally have b: "j div BSIZE * BSIZE < fsz s n" using BSIZE_pos by linarith
  then have "j div BSIZE * BSIZE < MAXFILE * BSIZE" by (rule less_le_trans [OF _ O(2)])
  then have m: "j div BSIZE < MAXFILE" by simp
  have "slot_of (j div BSIZE) \<in> needs (fsz s n)"
    using b slot_of_less(1) [OF m] by (auto simp: needs_def slot_of_def split: if_splits)
  then have nz: "mslot s (ino s n) (slot_of (j div BSIZE)) \<noteq> 0" using M(4) [OF slot_of_less(1) [OF m]] by simp
  have "mbyte t jp j = mbyte s (ino s n) j"
    by (rule same_file(2) [OF a _ m nz]) (use M(4,5) d in blast)
  then show "file_bytes (sector t) jp 0 z ! j = (file_bytes (sector s) (ino s n) 0 (fsz s n) @ replicate (z - fsz s n) 0) ! j"
    using j zle O(3) [OF _ m nz] by (auto simp: nth_append)
qed


text \<open>The last two steps change the root's size and the bitmap.\<close>

lemma mkfs_final:
  assumes "length args + 2 \<le> NINODES" "\<forall>a\<in>set args. arg_ok host a" "blocks_for host args \<le> FSSIZE"
  obtains s t where "mkfs_main host args = Ok () t" "mk_wf s" "freeinode s = of_nat (length args + 2)" "keeps_head with_super s"
    "view s ROOTINO = Some (T_DIR, 1, root_dir args)" "\<forall>i<length args. view s (of_nat (i + 2)) = Some (T_FILE, 1, arg_data host (args ! i))"
    "img_ok t" "freeinode t = freeinode s" "freeblock t = freeblock s" "\<And>b. nmeta \<le> unat b \<Longrightarrow> sector t b = sector s b" "sector t 1 = sector s 1"
    "sector t 46 = bitmap (blocks_for host args)" "\<And>m. unat m < NINODES \<Longrightarrow> m \<noteq> ROOTINO \<Longrightarrow> ino t m = ino s m"
    "ino t ROOTINO = (ino s ROOTINO)\<lparr>i_size := of_nat ((length (root_dir args) div BSIZE + 1) * BSIZE)\<rparr>"
proof -
  obtain s where s: "mkfs_main host args = bnd (fix_root s) (\<lambda>_ s. mk_balloc (unat (freeblock s)) s)" "mk_wf s"
    "freeinode s = of_nat (length args + 2)" "keeps_head with_super s" "view s ROOTINO = Some (T_DIR, 1, root_dir args)"
    "\<forall>i<length args. view s (of_nat (i + 2)) = Some (T_FILE, 1, arg_data host (args ! i))"
    "unat (freeblock s) = blocks_for host args"
    by (rule mkfs_files [OF assms])
  note W = mk_wfD [OF s(2)] and R = s(5) [unfolded view_Some] and zr = view_length [OF s(5)]
  have zb: "fsz s ROOTINO \<le> MAXFILE * BSIZE" by (rule ino_okD(2) [OF W(4) [OF conjunct1 [OF R]]])
  obtain t where t: "fix_root s = Ok () t" "img_ok t" "freeinode t = freeinode s" "freeblock t = freeblock s"
    "\<And>b. b \<noteq> IBLOCK ROOTINO mk_sb \<Longrightarrow> sector t b = sector s b" "\<And>m. unat m < NINODES \<Longrightarrow> m \<noteq> ROOTINO \<Longrightarrow> ino t m = ino s m"
    "ino t ROOTINO = (ino s ROOTINO)\<lparr>i_size := of_nat ((length (root_dir args) div BSIZE + 1) * BSIZE)\<rparr>"
    by (rule fix_root_ok [OF W(1) zb, unfolded zr]) blast
  define n where "n = blocks_for host args"
  have n: "n \<le> FSSIZE" "unat (freeblock t) = n" using assms(3) s(7) t(4) by (simp_all add: n_def)
  note B = mk_balloc_ok [OF t(2) n(1)]
  let ?u = "put_sector 46 (bitmap n) t"
  have main: "mkfs_main host args = Ok () ?u" unfolding s(1) t(1) bnd_simps n(2) by (rule B(1))
  have iu: "ino ?u m = ino t m" if "unat m < NINODES" for m
    using iblock_meta [OF that] unfolding ino_def B(3) by auto
  have ib: "33 \<le> unat (IBLOCK ROOTINO mk_sb)" "unat (IBLOCK ROOTINO mk_sb) < 46" "unat ROOTINO < NINODES"
    using iblock_meta [of ROOTINO] by (simp_all add: ROOTINO_def NINODES_def)
  have data: "sector ?u b = sector s b" if "nmeta \<le> unat b" for b
  proof -
    have "b \<noteq> IBLOCK ROOTINO mk_sb" "b \<noteq> 46" using that ib(2) by (auto simp: layout)
    then show ?thesis using t(5) unfolding B(3) by simp
  qed
  have "1 \<noteq> IBLOCK ROOTINO mk_sb" using ib(1) by auto
  then have low: "sector ?u 1 = sector s 1" using t(5) unfolding B(3) by simp
  show ?thesis
  proof (rule that [OF main s(2-6) B(2) _ _ data low])
    show "sector ?u 46 = bitmap (blocks_for host args)" unfolding B(3) n_def [symmetric] by simp
    show "ino ?u m = ino s m" if "unat m < NINODES" "m \<noteq> ROOTINO" for m using iu [OF that(1)] t(6) [OF that] by simp
    show "ino ?u ROOTINO = (ino s ROOTINO)\<lparr>i_size := of_nat ((length (root_dir args) div BSIZE + 1) * BSIZE)\<rparr>"
      using iu [OF ib(3)] t(7) by simp
  qed (simp_all add: t(3,4))
qed

section \<open>Property\<close>

text \<open>
  C12. Given readable files with names of at most 14 bytes, at most 198 of them and no more content than the
  disk has blocks for, the builder makes an image whose super block the kernel reads as meant; inode \<open>i + 2\<close> is
  a file with one link and exactly the content of the \<open>i\<close>th file, whatever the chunks it was read in; the
  root directory holds \<^verbatim>\<open>.\<close>, \<^verbatim>\<open>..\<close> and the names in order, and nothing but empty entries up to the end of its
  last block; all other inodes are free; and the bitmap marks exactly the blocks these files need.
\<close>

theorem mkfs_builds_image:
  assumes "length args + 2 \<le> NINODES" "\<forall>a\<in>set args. arg_ok host a" "blocks_for host args \<le> FSSIZE"
  shows "\<exists>t. mkfs_main host args = Ok () t \<and> length (img t) = FSSIZE \<and> sb_of_bytes (sector t 1) = mk_sb \<and>
    (\<forall>i<length args. view t (of_nat (i + 2)) = Some (T_FILE, 1, arg_data host (args ! i))) \<and>
    i_type (ino t ROOTINO) = T_DIR \<and> i_nlink (ino t ROOTINO) = 1 \<and>
    fsz t ROOTINO = (length (root_dir args) div BSIZE + 1) * BSIZE \<and>
    (let z = (length (root_dir args) + BSIZE - 1) div BSIZE * BSIZE in
      file_bytes (sector t) (ino t ROOTINO) 0 z = root_dir args @ replicate (z - length (root_dir args)) 0) \<and>
    (\<forall>n. length args + 2 \<le> unat n \<and> unat n < NINODES \<longrightarrow> i_type (ino t n) = 0) \<and>
    (\<forall>b<FSSIZE. bit_clear (sector t (BBLOCK (of_nat b) mk_sb)) b \<longleftrightarrow> blocks_for host args \<le> b)"
proof -
  obtain s t where t: "mkfs_main host args = Ok () t" "mk_wf s" "freeinode s = of_nat (length args + 2)" "keeps_head with_super s"
    "view s ROOTINO = Some (T_DIR, 1, root_dir args)" "\<forall>i<length args. view s (of_nat (i + 2)) = Some (T_FILE, 1, arg_data host (args ! i))"
    "img_ok t" "freeinode t = freeinode s" "freeblock t = freeblock s" "\<And>b. nmeta \<le> unat b \<Longrightarrow> sector t b = sector s b" "sector t 1 = sector s 1"
    "sector t 46 = bitmap (blocks_for host args)" "\<And>m. unat m < NINODES \<Longrightarrow> m \<noteq> ROOTINO \<Longrightarrow> ino t m = ino s m"
    "ino t ROOTINO = (ino s ROOTINO)\<lparr>i_size := of_nat ((length (root_dir args) div BSIZE + 1) * BSIZE)\<rparr>"
    by (rule mkfs_final [OF assms]) blast
  note R = t(5) [unfolded view_Some] and zr = view_length [OF t(5)]
  have n32: "length args + 2 < 2 ^ 32" using assms(1) by (simp add: NINODES_def)
  have fi: "unat (freeinode s) = length args + 2" unfolding t(3) by (rule unat_of_nat32 [OF n32])
  have "sb_of_bytes (sector t 1) = mk_sb"
    using t(4,11) with_super_sector [of 1] sb_stored by (simp add: keeps_head_def FSSIZE_def)
  moreover have "view t (of_nat (i + 2)) = Some (T_FILE, 1, arg_data host (args ! i))" if i: "i < length args" for i
  proof -
    have v: "view s (of_nat (i + 2)) = Some (T_FILE, 1, arg_data host (args ! i))" using t(6) i by blast
    then have lv: "live s (of_nat (i + 2))" by (simp add: view_Some)
    have u: "unat (of_nat (i + 2) :: u32) = i + 2" by (rule unat_of_nat32) (use i n32 in simp)
    have "of_nat (i + 2) \<noteq> ROOTINO"
    proof
      assume e: "of_nat (i + 2) = ROOTINO"
      show False using u unfolding e by (simp add: ROOTINO_def)
    qed
    then have "ino t (of_nat (i + 2)) = ino s (of_nat (i + 2))" by (rule t(13) [OF live_less [OF t(2) lv]])
    then show ?thesis using keeps_data [OF lv t(2,7,8) _ t(10)] v t(9) by simp
  qed
  moreover have "fsz t ROOTINO = (length (root_dir args) div BSIZE + 1) * BSIZE"
  proof -
    have "(length (root_dir args) div BSIZE + 1) * BSIZE < 2 ^ 32"
      using assms(1) length_root_dir [OF assms(2)] by (simp add: NINODES_def DIRENT_SIZE_def DIRSIZ_def BSIZE_def)
    from unat_of_nat32 [OF this] show ?thesis by (simp only: t(14)) simp
  qed
  moreover have "i_type (ino t ROOTINO) = T_DIR" "i_nlink (ino t ROOTINO) = 1" using R by (simp_all add: t(14))
  moreover have "file_bytes (sector t) (ino t ROOTINO) 0 z = root_dir args @ replicate (z - length (root_dir args)) 0"
    if "z = (length (root_dir args) + BSIZE - 1) div BSIZE * BSIZE" for z
    using root_bytes [OF t(2) conjunct1 [OF R] t(10), of "ino t ROOTINO" z] R that unfolding zr by (simp add: t(14))
  moreover have "i_type (ino t n) = 0" if "length args + 2 \<le> unat n \<and> unat n < NINODES" for n
  proof -
    have "\<not> live s n" "n \<noteq> ROOTINO" using that fi by (auto simp: live_def word_less_nat_alt ROOTINO_def)
    then show ?thesis using t(13) [of n] mk_wfD(7) [OF t(2), of n] that by (simp add: dinode0_def)
  qed
  moreover have "bit_clear (sector t (BBLOCK (of_nat b) mk_sb)) b \<longleftrightarrow> blocks_for host args \<le> b" if "b < FSSIZE" for b
  proof -
    have "unat (of_nat b :: u32) = b" by (rule unat_of_nat32) (use that in \<open>simp add: FSSIZE_def\<close>)
    then have "(of_nat b :: u32) div of_nat BPB = 0"
      using that by (simp add: word_unat_eq_iff unat_div FSSIZE_def BPB_def BSIZE_def)
    then have "BBLOCK (of_nat b) mk_sb = 46" by (simp add: BBLOCK_def layout)
    then show ?thesis using bitmap_bits [of "blocks_for host args"] assms(3) that t(12) by (simp add: FSSIZE_def BPB_def BSIZE_def)
  qed
  ultimately show ?thesis using t(1) img_okD(1) [OF t(7)] unfolding Let_def by blast
qed

theorem mkfs_builds_image_witness:
  "\<exists>t. mkfs_main (\<lambda>_. Some [[1, 2], [3]]) [[117, 115, 101, 114, 47, 95, 97]] = Ok () t \<and> view t 2 = Some (T_FILE, 1, [1, 2, 3])"
proof -
  let ?h = "\<lambda>_ :: u8 list. Some [[1, 2], [3 :: u8]]" and ?a = "[[117, 115, 101, 114, 47, 95, 97 :: u8]]"
  have ok: "\<forall>a\<in>set ?a. arg_ok ?h a"
    by (simp add: arg_ok_def arg_name_def arg_data_def strip_user_def skip_underscore_def DIRSIZ_def MAXFILE_def NDIRECT_def NINDIRECT_def BSIZE_def)
  have "blocks_for ?h ?a \<le> FSSIZE"
    unfolding blocks_for_def length_root_dir [OF ok]
    by (simp add: layout nblk_def arg_data_def DIRENT_SIZE_def DIRSIZ_def BSIZE_def NDIRECT_def FSSIZE_def)
  then obtain t where "mkfs_main ?h ?a = Ok () t" "\<forall>i<length ?a. view t (of_nat (i + 2)) = Some (T_FILE, 1, arg_data ?h (?a ! i))"
    using mkfs_builds_image [of ?a ?h] ok by (auto simp: NINODES_def)
  then show ?thesis by (auto simp: arg_data_def)
qed

end
