(* ===== verification/Inode_Table.thy ===== *)
theory Inode_Table
  imports Io_State
begin

text \<open>
  The table of inodes in memory: an inode of the disk has at most one entry in use, which all who
  hold a reference to it share.
\<close>

definition in_use :: "inode \<Rightarrow> bool" where "in_use ip \<longleftrightarrow> 0 < i_ref ip"
definition names :: "u32 \<Rightarrow> u32 \<Rightarrow> inode \<Rightarrow> bool" where "names dev inum ip \<longleftrightarrow> i_dev ip = dev \<and> i_inum ip = inum"

definition itable_unique :: "'x kfs_scheme \<Rightarrow> bool" where
  "itable_unique s \<longleftrightarrow> (\<forall>i<length (itable s). 0 \<le> i_ref (itable s ! i)) \<and>
     (\<forall>i<length (itable s). \<forall>j<length (itable s). in_use (itable s ! i) \<longrightarrow> in_use (itable s ! j) \<longrightarrow>
        names (i_dev (itable s ! i)) (i_inum (itable s ! i)) (itable s ! j) \<longrightarrow> i = j)"

text \<open>The entry \<open>i\<close> that \<^verbatim>\<open>iget\<close> answers with; the other entries are as before.\<close>

definition got :: "u32 \<Rightarrow> u32 \<Rightarrow> nat \<Rightarrow> 'x kfs_scheme \<Rightarrow> 'x kfs_scheme \<Rightarrow> bool" where
  "got dev inum i s t \<longleftrightarrow> i < length (itable s) \<and> itable t = (itable s)[i := itable t ! i] \<and>
     itable t ! i = (if in_use (itable s ! i) then (itable s ! i)\<lparr>i_ref := i_ref (itable s ! i) + 1\<rparr>
       else (itable s ! i)\<lparr>i_dev := dev, i_inum := inum, i_ref := 1, i_valid := False\<rparr>) \<and>
     names dev inum (itable t ! i) \<and> (in_use (itable s ! i) \<or> (\<forall>ip\<in>set (itable s). in_use ip \<longrightarrow> \<not> names dev inum ip))"

lemma got_unique:
  assumes "itable_unique s" "got dev inum i s t"
  shows "itable_unique t"
proof -
  have i: "i < length (itable s)" and t: "itable t = (itable s)[i := itable t ! i]" and n: "names dev inum (itable t ! i)"
    and fresh: "in_use (itable s ! i) \<or> (\<forall>ip\<in>set (itable s). in_use ip \<longrightarrow> \<not> names dev inum ip)"
    and e: "itable t ! i = (if in_use (itable s ! i) then (itable s ! i)\<lparr>i_ref := i_ref (itable s ! i) + 1\<rparr>
       else (itable s ! i)\<lparr>i_dev := dev, i_inum := inum, i_ref := 1, i_valid := False\<rparr>)"
    using assms(2) unfolding got_def by blast+
  have l: "length (itable t) = length (itable s)" by (subst t) simp
  have o': "itable t ! j = itable s ! j" if "j \<noteq> i" for j
    using arg_cong [OF t, of "\<lambda>l. l ! j"] that by simp
  have only: "j = i" if "j < length (itable s)" "in_use (itable s ! j)" "names dev inum (itable s ! j)" for j
    using fresh
  proof
    assume u: "in_use (itable s ! i)"
    then have "names dev inum (itable s ! i)" using n e by (simp add: names_def)
    then show ?thesis using assms(1) that i u by (auto simp: itable_unique_def names_def)
  qed (use that in auto)
  have r: "0 \<le> i_ref (itable t ! j)" if "j < length (itable s)" for j
    using assms(1) that e o' [of j] by (cases "j = i") (auto simp: itable_unique_def)
  have u: "j = k" if j: "j < length (itable s)" "k < length (itable s)" "in_use (itable t ! j)" "in_use (itable t ! k)"
    "names (i_dev (itable t ! j)) (i_inum (itable t ! j)) (itable t ! k)" for j k
  proof (cases "j = i \<or> k = i")
    case True
    have "j = k" if jk: "j = i" "k \<noteq> i"
    proof -
      have "in_use (itable s ! k)" "names dev inum (itable s ! k)"
        using j(4,5) n jk(1) o' [OF jk(2)] by (simp_all add: names_def)
      then show ?thesis using only [OF j(2)] jk(1) by blast
    qed
    moreover have "j = k" if jk: "k = i" "j \<noteq> i"
    proof -
      have "in_use (itable s ! j)" "names dev inum (itable s ! j)"
        using j(3,5) n jk(1) o' [OF jk(2)] by (simp_all add: names_def)
      then show ?thesis using only [OF j(1)] jk(1) by blast
    qed
    ultimately show ?thesis using True by blast
  next
    case False
    then show ?thesis using assms(1) j o' unfolding itable_unique_def by metis
  qed
  show ?thesis unfolding itable_unique_def l using r u by blast
qed

lemma iget_got:
  assumes "ItableLock \<notin> set (held s)" "itable_unique s"
  shows "iget dev inum s = Panic ''iget: no inodes'' \<and> (\<forall>ip\<in>set (itable s). in_use ip \<and> \<not> names dev inum ip) \<or>
    (\<exists>i t. iget dev inum s = Ok i t \<and> got dev inum i s t)"
proof (cases "find_idx (\<lambda>ip. 0 < i_ref ip \<and> i_dev ip = dev \<and> i_inum ip = inum) (itable s)")
  case (Some i)
  then have i: "i < length (itable s)" "in_use (itable s ! i)" "names dev inum (itable s ! i)"
    by (auto dest: find_idx_SomeD simp: in_use_def names_def)
  then show ?thesis using assms(1) Some
    by (simp add: iget_def upd_inode_def got_def names_def)
next
  case None
  note N = None
  then have no: "in_use ip \<longrightarrow> \<not> names dev inum ip" if "ip \<in> set (itable s)" for ip
    using that by (auto simp: find_idx_None_iff in_use_def names_def)
  show ?thesis
  proof (cases "find_idx (\<lambda>ip. i_ref ip = 0) (itable s)")
    case None
    have "in_use ip" if ip: "ip \<in> set (itable s)" for ip
    proof -
      have "i_ref ip \<noteq> 0" "0 \<le> i_ref ip"
        using None assms(2) ip by (auto simp: find_idx_None_iff itable_unique_def in_set_conv_nth)
      then show ?thesis by (simp add: in_use_def)
    qed
    then show ?thesis using no assms(1) None N by (simp add: iget_def)
  next
    case (Some i)
    then have "i < length (itable s)" "\<not> in_use (itable s ! i)" by (auto dest: find_idx_SomeD simp: in_use_def)
    then show ?thesis using assms(1) no Some N
      by (simp add: iget_def upd_inode_def got_def names_def)
  qed
qed

section \<open>The property\<close>

text \<open>C29. iget gives every caller who asks for an inode the one entry the inode has in the table,
  with one reference more, or a free entry when it has none, and so keeps the entries in use
  distinct; it panics only when all entries are in use for other inodes.\<close>

theorem iget_one_entry:
  assumes "ItableLock \<notin> set (held s)" "itable_unique s"
  shows "iget dev inum s = Panic ''iget: no inodes'' \<and> (\<forall>ip\<in>set (itable s). in_use ip \<and> \<not> names dev inum ip) \<or>
    (\<exists>i t. iget dev inum s = Ok i t \<and> got dev inum i s t \<and> itable_unique t)"
  using iget_got [OF assms, of dev inum] got_unique [OF assms(2)] by blast

text \<open>Two inodes in use; the request is for the second of them.\<close>

definition ktab :: kio where
  "ktab = kio0\<lparr>itable := [inode0\<lparr>i_dev := 1, i_inum := 1, i_ref := 2\<rparr>, inode0\<lparr>i_dev := 1, i_inum := 7, i_ref := 1\<rparr>] @
     replicate 48 inode0\<rparr>"

lemma ktab_unique: "itable_unique ktab"
proof -
  have n: "itable ktab ! i = (if i = 0 then inode0\<lparr>i_dev := 1, i_inum := 1, i_ref := 2\<rparr>
      else if i = 1 then inode0\<lparr>i_dev := 1, i_inum := 7, i_ref := 1\<rparr> else inode0)" if "i < 50" for i
    using that by (auto simp: ktab_def nth_append nth_Cons' less_Suc_eq_le)
  have l: "length (itable ktab) = 50" by (simp add: ktab_def)
  show ?thesis
    unfolding itable_unique_def l by (simp add: n in_use_def names_def inode0_def)
qed

theorem iget_one_entry_witness:
  "\<exists>t. iget 1 7 ktab = Ok 1 t \<and> i_ref (itable t ! 1) = 2 \<and> itable_unique t"
proof -
  have h: "ItableLock \<notin> set (held ktab)" by (simp add: ktab_def kio0_fields)
  have f: "itable ktab = [inode0\<lparr>i_dev := 1, i_inum := 1, i_ref := 2\<rparr>, inode0\<lparr>i_dev := 1, i_inum := 7, i_ref := 1\<rparr>] @
     replicate 48 inode0" by (simp add: ktab_def)
  have nf: "\<not> (\<forall>ip\<in>set (itable ktab). in_use ip \<and> \<not> names 1 7 ip)"
    by (simp add: f names_def)
  obtain i t where t: "iget 1 7 ktab = Ok i t" "got 1 7 i ktab t" "itable_unique t"
    using iget_one_entry [OF h ktab_unique, of 1 7] nf by blast
  have nf2: "\<not> (\<forall>ip\<in>set (itable ktab). in_use ip \<longrightarrow> \<not> names 1 7 ip)"
    by (simp add: f names_def in_use_def)
  have u: "in_use (itable ktab ! i)" "i < length (itable ktab)" using t(2) nf2 unfolding got_def by blast+
  then have "i = 0 \<or> i = 1" by (auto simp: f in_use_def nth_append nth_Cons' inode0_def split: if_splits)
  moreover have e: "itable t ! i = (itable ktab ! i)\<lparr>i_ref := i_ref (itable ktab ! i) + 1\<rparr>"
    using t(2) u(1) unfolding got_def by presburger
  moreover have n: "names 1 7 (itable t ! i)" using t(2) unfolding got_def by blast
  ultimately have i: "i = 1" by (auto simp: names_def f)
  then have "i_ref (itable t ! 1) = 2" using e by (simp add: f)
  then show ?thesis using t(1,3) i by blast
qed

end
