(* ===== verification/Virtio.thy ===== *)
theory Virtio
  imports Io_State
begin

text \<open>
  \<^verbatim>\<open>kernel/virtio_disk.c\<close>: the descriptors, rings and interrupt handler of the disk driver. The
  rest of the model uses the driver through \<^verbatim>\<open>disk_rw\<close> of theory Bio; theory Virtio_Refine shows
  that the driver with a device that keeps the virtio contract does what \<^verbatim>\<open>disk_rw\<close> says.
  An address given to the device names the object it is the address of. The device's registers
  are read through \<open>mmio_read\<close>, a function of the writes made so far.
\<close>

section \<open>State\<close>

definition NUM :: nat where "NUM = 8"
definition VRING_DESC_F_NEXT :: u16 where "VRING_DESC_F_NEXT = 1"
definition VRING_DESC_F_WRITE :: u16 where "VRING_DESC_F_WRITE = 2"
definition VIRTIO_BLK_T_IN :: u32 where "VIRTIO_BLK_T_IN = 0"
definition VIRTIO_BLK_T_OUT :: u32 where "VIRTIO_BLK_T_OUT = 1"

datatype dma = NoDma | OpsAddr nat | BufData nat | StatusAddr nat

record virtq_desc =
  daddr :: dma
  dlen :: u32
  dflags :: u16
  dnext :: u16

record virtio_blk_req =
  rtype :: u32
  rreserved :: u32
  rsector :: u64

record vinfo =
  ibuf :: "nat option"
  istatus :: u8

text \<open>
  \<open>bdisk\<close> is the field \<^verbatim>\<open>disk\<close> of the buffers; \<open>used_idx\<close> is \<^verbatim>\<open>disk.used_idx\<close>, \<open>used_dev\<close> is
  \<^verbatim>\<open>disk.used->idx\<close>.
\<close>

record kvdisk = kio +
  vdesc :: "virtq_desc list"
  avail_idx :: u16
  avail_ring :: "u16 list"
  used_dev :: u16
  used_ring :: "u32 list"
  vfree :: "nat \<Rightarrow> bool"
  used_idx :: u16
  vinfos :: "vinfo list"
  vops :: "virtio_blk_req list"
  bdisk :: "nat \<Rightarrow> bool"
  vdesc_pa :: u64
  vavail_pa :: u64
  vused_pa :: u64
  mmio_read :: "(u64 \<times> u32) list \<Rightarrow> u64 \<Rightarrow> u32"
  mmio_writes :: "(u64 \<times> u32) list"

definition upd_desc :: "nat \<Rightarrow> (virtq_desc \<Rightarrow> virtq_desc) \<Rightarrow> 'x kvdisk_scheme \<Rightarrow> 'x kvdisk_scheme" where
  "upd_desc i f s = s\<lparr>vdesc := (vdesc s)[i := f (vdesc s ! i)]\<rparr>"

definition upd_info :: "nat \<Rightarrow> (vinfo \<Rightarrow> vinfo) \<Rightarrow> 'x kvdisk_scheme \<Rightarrow> 'x kvdisk_scheme" where
  "upd_info i f s = s\<lparr>vinfos := (vinfos s)[i := f (vinfos s ! i)]\<rparr>"

definition rreg :: "u64 \<Rightarrow> 'x kvdisk_scheme \<Rightarrow> u32" where "rreg r s = mmio_read s (mmio_writes s) r"
definition wreg :: "u64 \<Rightarrow> u32 \<Rightarrow> 'x kvdisk_scheme \<Rightarrow> 'x kvdisk_scheme" where
  "wreg r v s = s\<lparr>mmio_writes := mmio_writes s @ [(r, v)]\<rparr>"

lemma wakeup_disk:
  assumes "wakeup c s = Ok u (t :: 'x kvdisk_scheme)"
  shows "vfree t = vfree s" "vdesc t = vdesc s" "used_idx t = used_idx s" "used_dev t = used_dev s"
  using wakeup_more [OF assms] by (cases s; cases t; simp)+

section \<open>Descriptors\<close>

definition alloc_desc :: "'x kvdisk_scheme \<Rightarrow> nat option \<times> 'x kvdisk_scheme" where
  "alloc_desc s =
     (case find (vfree s) [0..<NUM] of
        Some i \<Rightarrow> (Some i, s\<lparr>vfree := (vfree s)(i := False)\<rparr>)
      | None \<Rightarrow> (None, s))"

definition free_desc :: "nat \<Rightarrow> 'x kvdisk_scheme \<Rightarrow> (unit, 'x kvdisk_scheme) res" where
  "free_desc i s =
     (if NUM \<le> i then Panic ''free_desc 1''
      else if vfree s i then Panic ''free_desc 2''
      else wakeup ChDiskFree
             ((upd_desc i (\<lambda>d. \<lparr>daddr = NoDma, dlen = 0, dflags = 0, dnext = 0\<rparr>) s)\<lparr>vfree := (vfree s)(i := True)\<rparr>))"

text \<open>Each round frees a descriptor that was not free, so the walk along a chain ends.\<close>

definition vbusy :: "'x kvdisk_scheme \<Rightarrow> nat" where
  "vbusy s = card {i. i < NUM \<and> \<not> vfree s i}"

lemma free_desc_busy: "free_desc i s = Ok u t \<Longrightarrow> vbusy t < vbusy s"
proof -
  assume f: "free_desc i s = Ok u t"
  then have i: "i < NUM" "\<not> vfree s i" by (auto simp: free_desc_def split: if_splits)
  have "vfree t = (vfree s)(i := True)"
    using f i by (auto simp: free_desc_def upd_desc_def dest: wakeup_disk(1))
  then have "{j. j < NUM \<and> \<not> vfree t j} \<subset> {j. j < NUM \<and> \<not> vfree s j}" using i by auto
  then show ?thesis unfolding vbusy_def by (intro psubset_card_mono) auto
qed

function free_chain :: "nat \<Rightarrow> 'x kvdisk_scheme \<Rightarrow> (unit, 'x kvdisk_scheme) res" where
  "free_chain i s =
     (let flag = dflags (vdesc s ! i); nxt = unat (dnext (vdesc s ! i)) in
      bnd (free_desc i s) (\<lambda>_ s.
      if flag AND VRING_DESC_F_NEXT \<noteq> 0 then free_chain nxt s else Ok () s))"
  by pat_completeness auto
termination
  by (relation "measure (\<lambda>(i, s). vbusy s)") (auto dest: free_desc_busy)

declare free_chain.simps [simp del]

text \<open>\<open>idx\<close> is the part of the array filled so far, \<open>n\<close> the number still wanted.\<close>

fun alloc_descs :: "nat \<Rightarrow> nat list \<Rightarrow> 'x kvdisk_scheme \<Rightarrow> (nat list option, 'x kvdisk_scheme) res" where
  "alloc_descs 0 idx s = Ok (Some idx) s"
| "alloc_descs (Suc n) idx s =
     (case alloc_desc s of
        (None, s) \<Rightarrow> bnd (foreach free_desc idx s) (\<lambda>_ s. Ok None s)
      | (Some i, s) \<Rightarrow> alloc_descs n (idx @ [i]) s)"

definition alloc3_desc :: "'x kvdisk_scheme \<Rightarrow> (nat list option, 'x kvdisk_scheme) res" where
  "alloc3_desc s = alloc_descs 3 [] s"

section \<open>Requests\<close>

text \<open>The request header, the three descriptors, the bookkeeping and the entry of the available ring.\<close>

definition vrw_format :: "nat \<Rightarrow> bool \<Rightarrow> nat list \<Rightarrow> 'x kvdisk_scheme \<Rightarrow> 'x kvdisk_scheme" where
  "vrw_format b wr idx s =
     (let i0 = idx ! 0; i1 = idx ! 1; i2 = idx ! 2;
          sector = ucast (bblockno (bufs s ! b) * of_nat (BSIZE div 512));
          s = s\<lparr>vops := (vops s)[i0 := \<lparr>rtype = (if wr then VIRTIO_BLK_T_OUT else VIRTIO_BLK_T_IN),
                                         rreserved = 0, rsector = sector\<rparr>]\<rparr>;
          s = upd_desc i0 (\<lambda>d. \<lparr>daddr = OpsAddr i0, dlen = 16, dflags = VRING_DESC_F_NEXT, dnext = of_nat i1\<rparr>) s;
          s = upd_desc i1 (\<lambda>d. \<lparr>daddr = BufData b, dlen = of_nat BSIZE,
                dflags = (if wr then 0 else VRING_DESC_F_WRITE) OR VRING_DESC_F_NEXT, dnext = of_nat i2\<rparr>) s;
          s = upd_info i0 (\<lambda>k. k\<lparr>istatus := 0xff\<rparr>) s;
          s = upd_desc i2 (\<lambda>d. \<lparr>daddr = StatusAddr i0, dlen = 1, dflags = VRING_DESC_F_WRITE, dnext = 0\<rparr>) s
      in s)"

definition QUEUE_NOTIFY :: u64 where "QUEUE_NOTIFY = 0x050"

definition vrw_submit :: "nat \<Rightarrow> bool \<Rightarrow> nat list \<Rightarrow> 'x kvdisk_scheme \<Rightarrow> 'x kvdisk_scheme" where
  "vrw_submit b wr idx s =
     (let s = vrw_format b wr idx s; i0 = idx ! 0;
          s = upd_info i0 (\<lambda>k. k\<lparr>ibuf := Some b\<rparr>) (s\<lparr>bdisk := (bdisk s)(b := True)\<rparr>);
          s = s\<lparr>avail_ring := (avail_ring s)[unat (avail_idx s) mod NUM := of_nat i0]\<rparr>
      in wreg QUEUE_NOTIFY 0 (s\<lparr>avail_idx := avail_idx s + 1\<rparr>))"

text \<open>Waiting for the interrupt handler, and what follows the wait.\<close>

definition vrw_wait :: "nat \<Rightarrow> nat \<Rightarrow> 'x kvdisk_scheme \<Rightarrow> (unit, 'x kvdisk_scheme) res" where
  "vrw_wait b i0 s =
     (if bdisk s b then sleep (ChBuf b) VdiskLock s
      else bnd (free_chain i0 (upd_info i0 (\<lambda>k. k\<lparr>ibuf := None\<rparr>) s)) (\<lambda>_ s. release VdiskLock s))"

definition vrw_alloc :: "nat \<Rightarrow> bool \<Rightarrow> 'x kvdisk_scheme \<Rightarrow> (unit, 'x kvdisk_scheme) res" where
  "vrw_alloc b wr s =
     bnd (alloc3_desc s) (\<lambda>r s.
     case r of None \<Rightarrow> sleep ChDiskFree VdiskLock s
     | Some idx \<Rightarrow> vrw_wait b (idx ! 0) (vrw_submit b wr idx s))"

definition virtio_disk_rw :: "nat \<Rightarrow> bool \<Rightarrow> 'x kvdisk_scheme \<Rightarrow> (unit, 'x kvdisk_scheme) res" where
  "virtio_disk_rw b wr s = bnd (acquire VdiskLock s) (\<lambda>_ s. vrw_alloc b wr s)"

definition vrw_alloc_resume :: "nat \<Rightarrow> bool \<Rightarrow> 'x kvdisk_scheme \<Rightarrow> (unit, 'x kvdisk_scheme) res" where
  "vrw_alloc_resume b wr s = bnd (sleep_resume VdiskLock s) (\<lambda>_ s. vrw_alloc b wr s)"

definition vrw_wait_resume :: "nat \<Rightarrow> nat \<Rightarrow> 'x kvdisk_scheme \<Rightarrow> (unit, 'x kvdisk_scheme) res" where
  "vrw_wait_resume b i0 s = bnd (sleep_resume VdiskLock s) (\<lambda>_ s. vrw_wait b i0 s)"

section \<open>The interrupt handler\<close>

function intr_loop :: "'x kvdisk_scheme \<Rightarrow> (unit, 'x kvdisk_scheme) res" where
  "intr_loop s =
     (if used_idx s \<noteq> used_dev s
      then let i = unat (used_ring s ! (unat (used_idx s) mod NUM)) in
        if NUM \<le> i then oob
        else if istatus (vinfos s ! i) \<noteq> 0 then Panic ''virtio_disk_intr status''
        else case ibuf (vinfos s ! i) of
          None \<Rightarrow> Panic ''kerneltrap''
        | Some b \<Rightarrow> bnd (wakeup (ChBuf b) (s\<lparr>bdisk := (bdisk s)(b := False)\<rparr>)) (\<lambda>_ s.
            intr_loop (s\<lparr>used_idx := used_idx s + 1\<rparr>))
      else Ok () s)"
  by pat_completeness auto
termination
proof (relation "measure (\<lambda>s. unat (used_dev s - used_idx s))")
  fix s :: "'x kvdisk_scheme" and i b u t
  assume ne: "used_idx s \<noteq> used_dev s" and w: "wakeup (ChBuf b) (s\<lparr>bdisk := (bdisk s)(b := False)\<rparr>) = Ok u t"
  have "used_dev s - used_idx s \<noteq> 0" using ne by simp
  then have "unat (used_dev s - used_idx s - 1) < unat (used_dev s - used_idx s)" by (metis measure_unat)
  then show "(t\<lparr>used_idx := used_idx t + 1\<rparr>, s) \<in> measure (\<lambda>s. unat (used_dev s - used_idx s))"
    using wakeup_disk(3,4) [OF w] by (simp add: algebra_simps)
qed simp

declare intr_loop.simps [simp del]

definition INTERRUPT_STATUS :: u64 where "INTERRUPT_STATUS = 0x060"
definition INTERRUPT_ACK :: u64 where "INTERRUPT_ACK = 0x064"

definition virtio_disk_intr :: "'x kvdisk_scheme \<Rightarrow> (unit, 'x kvdisk_scheme) res" where
  "virtio_disk_intr s =
     bnd (acquire VdiskLock s) (\<lambda>_ s.
     bnd (intr_loop (wreg INTERRUPT_ACK (rreg INTERRUPT_STATUS s AND 3) s)) (\<lambda>_ s.
     release VdiskLock s))"

section \<open>Initialisation\<close>

definition MMIO_STATUS :: u64 where "MMIO_STATUS = 0x070"
definition S_ACKNOWLEDGE :: u32 where "S_ACKNOWLEDGE = 1"
definition S_DRIVER :: u32 where "S_DRIVER = 2"
definition S_DRIVER_OK :: u32 where "S_DRIVER_OK = 4"
definition S_FEATURES_OK :: u32 where "S_FEATURES_OK = 8"

text \<open>The features the driver refuses.\<close>

definition refused_features :: "nat list" where "refused_features = [5, 7, 11, 12, 27, 29, 28]"

definition wreg64 :: "u64 \<Rightarrow> u64 \<Rightarrow> 'x kvdisk_scheme \<Rightarrow> 'x kvdisk_scheme" where
  "wreg64 r a s = wreg (r + 4) (ucast (drop_bit 32 a)) (wreg r (ucast a) s)"

text \<open>Zeroing the pages of the rings gives empty rings.\<close>

definition virtio_queue_init :: "u32 \<Rightarrow> 'x kvdisk_scheme \<Rightarrow> (unit, 'x kvdisk_scheme) res" where
  "virtio_queue_init status s =
     bnd (kalloc s) (\<lambda>d s. bnd (kalloc s) (\<lambda>a s. bnd (kalloc s) (\<lambda>u s.
     if d = 0 \<or> a = 0 \<or> u = 0 then Panic ''virtio disk kalloc''
     else
     let s = memset_page u 0 (memset_page a 0 (memset_page d 0 s));
         s = s\<lparr>vdesc_pa := d, vavail_pa := a, vused_pa := u,
               vdesc := replicate NUM \<lparr>daddr = NoDma, dlen = 0, dflags = 0, dnext = 0\<rparr>,
               avail_idx := 0, avail_ring := replicate NUM 0, used_dev := 0, used_ring := replicate NUM 0\<rparr>;
         s = wreg64 0x0a0 u (wreg64 0x090 a (wreg64 0x080 d (wreg 0x038 (of_nat NUM) s)));
         s = wreg 0x044 1 s;
         s = s\<lparr>vfree := (\<lambda>i. i < NUM \<or> vfree s i)\<rparr>
     in Ok () (wreg MMIO_STATUS (status OR S_DRIVER_OK) s))))"

definition virtio_disk_init :: "'x kvdisk_scheme \<Rightarrow> (unit, 'x kvdisk_scheme) res" where
  "virtio_disk_init s =
     (if rreg 0x000 s \<noteq> 0x74726976 \<or> rreg 0x004 s \<noteq> 2 \<or> rreg 0x008 s \<noteq> 2 \<or> rreg 0x00c s \<noteq> 0x554d4551
      then Panic ''could not find virtio disk''
      else
      let status = S_ACKNOWLEDGE;
          s = wreg MMIO_STATUS status (wreg MMIO_STATUS 0 s);
          status = status OR S_DRIVER;
          s = wreg MMIO_STATUS status s;
          features = fold (\<lambda>k f. f AND NOT (push_bit k 1)) refused_features (ucast (rreg 0x010 s) :: u64);
          s = wreg 0x020 (ucast features) s;
          status = status OR S_FEATURES_OK;
          s = wreg MMIO_STATUS status s;
          status = rreg MMIO_STATUS s
      in if status AND S_FEATURES_OK = 0 then Panic ''virtio disk FEATURES_OK unset''
      else
      let s = wreg 0x030 0 s in
      if rreg 0x044 s \<noteq> 0 then Panic ''virtio disk should not be ready''
      else if rreg 0x034 s = 0 then Panic ''virtio disk has no queue 0''
      else if rreg 0x034 s < of_nat NUM then Panic ''virtio disk max queue too short''
      else virtio_queue_init status s)"

end
