(* ===== verification/Virtio_Refine.thy ===== *)
theory Virtio_Refine
  imports Virtio
begin

text \<open>
  What the disk driver promises. Descriptors are taken three at a time or not at all; and with a
  device that serves requests as the virtio standard says, one \<^verbatim>\<open>virtio_disk_rw\<close> from its call, over
  the sleep and the interrupt, to its return has the effect of \<^verbatim>\<open>disk_rw\<close> of theory Bio, the
  operation the buffer cache is built on.
\<close>

section \<open>Descriptors are taken all or none\<close>

definition free_set :: "'x kvdisk_scheme \<Rightarrow> nat set" where
  "free_set s = {i. i < NUM \<and> vfree s i}"

lemma alloc_desc_cases:
  obtains (none) "alloc_desc s = (None, s)" "free_set s = {}"
  | (some) i where "alloc_desc s = (Some i, s\<lparr>vfree := (vfree s)(i := False)\<rparr>)" "i \<in> free_set s"
proof (cases "find (vfree s) [0..<NUM]")
  case None
  moreover have "free_set s = {}" using None by (auto simp: free_set_def find_None_iff)
  ultimately show ?thesis by (intro none) (simp_all add: alloc_desc_def)
next
  case (Some i)
  moreover have "i \<in> free_set s" using Some by (auto simp: free_set_def find_Some_iff)
  ultimately show ?thesis by (intro some [of i]) (simp_all add: alloc_desc_def)
qed

lemma wake_more [simp]: "kproc.more (wake c s) = kproc.more s"
  by (simp add: wake_def)

lemma more_disk:
  assumes "kproc.more (t :: 'x kvdisk_scheme) = kproc.more s"
  shows "vfree t = vfree s" "vdesc t = vdesc s" "vinfos t = vinfos s" "vops t = vops s" "bdisk t = bdisk s"
    "used_idx t = used_idx s" "used_dev t = used_dev s" "used_ring t = used_ring s" "avail_idx t = avail_idx s"
    "avail_ring t = avail_ring s" "bufs t = bufs s" "disk t = disk s" "mmio_writes t = mmio_writes s"
    "mmio_read t = mmio_read s"
  using assms by (cases s; cases t; simp)+

lemmas wake_disk [simp] = more_disk [OF wake_more]

definition freed :: "nat \<Rightarrow> 'x kvdisk_scheme \<Rightarrow> 'x kvdisk_scheme" where
  "freed i s = (upd_desc i (\<lambda>d. \<lparr>daddr = NoDma, dlen = 0, dflags = 0, dnext = 0\<rparr>) s)\<lparr>vfree := (vfree s)(i := True)\<rparr>"

lemma freed_fields [simp]:
  "vfree (freed i s) = (vfree s)(i := True)" "held (freed i s) = held s" "bufs (freed i s) = bufs s"
  "disk (freed i s) = disk s" "used_idx (freed i s) = used_idx s" "used_dev (freed i s) = used_dev s"
  "used_ring (freed i s) = used_ring s" "avail_ring (freed i s) = avail_ring s" "vinfos (freed i s) = vinfos s"
  "vops (freed i s) = vops s" "proc_locks_free (freed i s) = proc_locks_free s"
  "vdesc (freed i s) = (vdesc s)[i := \<lparr>daddr = NoDma, dlen = 0, dflags = 0, dnext = 0\<rparr>]"
  by (simp_all add: freed_def upd_desc_def proc_locks_free_def)

lemma wake_locks [simp]: "proc_locks_free s \<Longrightarrow> proc_locks_free (wake c s)"
  by (simp add: wake_def proc_locks_free_def)

lemma free_desc_eq:
  "i < NUM \<Longrightarrow> \<not> vfree s i \<Longrightarrow> proc_locks_free s \<Longrightarrow> free_desc i s = Ok () (wake ChDiskFree (freed i s))"
  by (simp add: free_desc_def freed_def [symmetric] wakeup_wake)

lemma free_descs_ok:
  assumes "distinct idx" "\<And>i. i \<in> set idx \<Longrightarrow> i < NUM \<and> \<not> vfree s i" "proc_locks_free s"
  shows "\<exists>t. foreach free_desc idx s = Ok () t \<and> free_set t = free_set s \<union> set idx"
  using assms
proof (induction idx arbitrary: s)
  case Nil
  then show ?case by simp
next
  case (Cons i idx)
  define t where "t = wake ChDiskFree (freed i s)"
  have t: "free_desc i s = Ok () t" "vfree t = (vfree s)(i := True)" "proc_locks_free t"
    using free_desc_eq [of i s] Cons.prems by (auto simp: t_def)
  have "j < NUM \<and> \<not> vfree t j" if "j \<in> set idx" for j
    using Cons.prems(1) Cons.prems(2) [of j] that by (auto simp: t(2))
  then obtain u where "foreach free_desc idx t = Ok () u" "free_set u = free_set t \<union> set idx"
    using Cons.IH [of t] t(3) Cons.prems(1) by auto
  then show ?case using t Cons.prems(2) [of i] by (auto simp: free_set_def)
qed

text \<open>The two results of \<^verbatim>\<open>alloc3_desc\<close> with \<open>n\<close> wanted, \<open>F\<close> being the descriptors free at the start.\<close>

definition took :: "nat \<Rightarrow> nat set \<Rightarrow> nat list option \<Rightarrow> 'x kvdisk_scheme \<Rightarrow> bool" where
  "took n F r t \<longleftrightarrow> (case r of None \<Rightarrow> card F < n \<and> free_set t = F
     | Some idx \<Rightarrow> length idx = n \<and> distinct idx \<and> set idx \<subseteq> F \<and> free_set t = F - set idx)"

lemma alloc_descs_took:
  assumes "distinct idx" "set idx \<subseteq> F" "free_set s = F - set idx" "F \<subseteq> {..<NUM}" "proc_locks_free s"
  shows "\<exists>r t. alloc_descs n idx s = Ok r t \<and> took (length idx + n) F r t"
  using assms
proof (induction n arbitrary: idx s)
  case 0
  then show ?case by (auto simp: took_def)
next
  case (Suc n)
  show ?case
  proof (cases rule: alloc_desc_cases [of s])
    case none
    then have F: "F = set idx" using Suc.prems by auto
    have "i < NUM \<and> \<not> vfree s i" if "i \<in> set idx" for i
      using that none(2) F Suc.prems(4) by (auto simp: free_set_def)
    then obtain t where "foreach free_desc idx s = Ok () t" "free_set t = free_set s \<union> set idx"
      using free_descs_ok [of idx s] Suc.prems(1,5) by auto
    moreover have "card F = length idx" using F Suc.prems(1) by (simp add: distinct_card)
    ultimately show ?thesis using none F by (simp add: took_def)
  next
    case (some i)
    have "free_set (s\<lparr>vfree := (vfree s)(i := False)\<rparr>) = F - set (idx @ [i])"
      using Suc.prems(3) by (auto simp: free_set_def)
    then have "\<exists>r t. alloc_descs n (idx @ [i]) (s\<lparr>vfree := (vfree s)(i := False)\<rparr>) = Ok r t \<and>
        took (length (idx @ [i]) + n) F r t"
      using Suc.prems some(2) by (intro Suc.IH) (auto simp: proc_locks_free_def)
    then show ?thesis using some(1) by simp
  qed
qed

section \<open>The device\<close>

text \<open>
  The request a descriptor chain describes, as the standard has it: a header of 16 bytes, the data,
  which the device writes for a read, and a status byte the device writes.
\<close>

definition desc1 :: "nat \<Rightarrow> 'x kvdisk_scheme \<Rightarrow> virtq_desc" where
  "desc1 h s = vdesc s ! unat (dnext (vdesc s ! h))"

definition desc2 :: "nat \<Rightarrow> 'x kvdisk_scheme \<Rightarrow> virtq_desc" where
  "desc2 h s = vdesc s ! unat (dnext (desc1 h s))"

definition blk_chain :: "nat \<Rightarrow> 'x kvdisk_scheme \<Rightarrow> nat \<Rightarrow> nat \<Rightarrow> nat \<Rightarrow> bool" where
  "blk_chain h s k b j \<longleftrightarrow>
     daddr (vdesc s ! h) = OpsAddr k \<and> dlen (vdesc s ! h) = 16 \<and> dflags (vdesc s ! h) = VRING_DESC_F_NEXT \<and>
     daddr (desc1 h s) = BufData b \<and> dlen (desc1 h s) = 1024 \<and>
     dflags (desc1 h s) = VRING_DESC_F_NEXT OR
       (if rtype (vops s ! k) = VIRTIO_BLK_T_IN then VRING_DESC_F_WRITE else 0) \<and>
     daddr (desc2 h s) = StatusAddr j \<and> dlen (desc2 h s) = 1 \<and> dflags (desc2 h s) = VRING_DESC_F_WRITE"

text \<open>The last request offered to the device, and what a device that serves it does. Sectors have 512 bytes.\<close>

definition offered :: "'x kvdisk_scheme \<Rightarrow> nat" where
  "offered s = unat (avail_ring s ! (unat (avail_idx s - 1) mod NUM))"

definition blk_serve :: "nat \<Rightarrow> nat \<Rightarrow> nat \<Rightarrow> nat \<Rightarrow> 'x kvdisk_scheme \<Rightarrow> 'x kvdisk_scheme" where
  "blk_serve h k b j s =
     (let bno = ucast (rsector (vops s ! k) div 2);
          s = (if rtype (vops s ! k) = VIRTIO_BLK_T_OUT then s\<lparr>disk := (disk s)(bno := bdata (bufs s ! b))\<rparr>
               else set_bdata b (disk s bno) s)
      in s\<lparr>vinfos := (vinfos s)[j := (vinfos s ! j)\<lparr>istatus := 0\<rparr>],
           used_ring := (used_ring s)[unat (used_dev s) mod NUM := of_nat h], used_dev := used_dev s + 1\<rparr>)"

text \<open>
  The contract of the device: notified of a request in the standard's form, it serves it. A device
  is a function on the state the driver shares with it.
\<close>

definition virtio_blk_device :: "('x kvdisk_scheme \<Rightarrow> 'x kvdisk_scheme) \<Rightarrow> bool" where
  "virtio_blk_device dev \<longleftrightarrow>
     (\<forall>s k b j ws. mmio_writes s = ws @ [(QUEUE_NOTIFY, 0)] \<and> blk_chain (offered s) s k b j \<longrightarrow>
        dev s = blk_serve (offered s) k b j s)"

section \<open>A request from call to return\<close>

text \<open>No request is in progress.\<close>

definition virtio_idle :: "'x kvdisk_scheme \<Rightarrow> bool" where
  "virtio_idle s \<longleftrightarrow> (\<forall>i<NUM. vfree s i) \<and> used_idx s = used_dev s \<and> length (vdesc s) = NUM \<and>
     length (avail_ring s) = NUM \<and> length (used_ring s) = NUM \<and> length (vinfos s) = NUM \<and> length (vops s) = NUM"

lemma upt_NUM: "[0..<NUM] = [0, 1, 2, 3, 4, 5, 6, 7]"
  by (simp add: NUM_def upt_conv_Cons)

definition three_taken :: "'x kvdisk_scheme \<Rightarrow> 'x kvdisk_scheme" where
  "three_taken s = s\<lparr>vfree := (vfree s)(0 := False, 1 := False, 2 := False)\<rparr>"

lemma alloc3_idle: "virtio_idle s \<Longrightarrow> alloc3_desc s = Ok (Some [0, 1, 2]) (three_taken s)"
  by (simp add: alloc3_desc_def numeral_3_eq_3 alloc_desc_def upt_NUM virtio_idle_def three_taken_def)
    (simp add: NUM_def)

text \<open>The kernel after the request is offered and before the process sleeps.\<close>

definition submitted :: "nat \<Rightarrow> bool \<Rightarrow> 'x kvdisk_scheme \<Rightarrow> 'x kvdisk_scheme" where
  "submitted b wr s = vrw_submit b wr [0, 1, 2] (three_taken s)"

lemmas submit_defs = submitted_def vrw_submit_def vrw_format_def three_taken_def upd_desc_def upd_info_def wreg_def Let_def

lemma vrw_submit_three [simp]: "vrw_submit b wr [0, Suc 0, 2] (three_taken s) = submitted b wr s"
  by (simp add: submitted_def)

lemma submitted_fields [simp]:
  "held (submitted b wr s) = held s" "curproc (submitted b wr s) = curproc s" "ptable (submitted b wr s) = ptable s"
  "bdisk (submitted b wr s) b" "used_idx (submitted b wr s) = used_idx s" "used_dev (submitted b wr s) = used_dev s"
  "bufs (submitted b wr s) = bufs s" "disk (submitted b wr s) = disk s" "used_ring (submitted b wr s) = used_ring s"
  "vfree (submitted b wr s) = (vfree s)(0 := False, 1 := False, 2 := False)"
  "mmio_writes (submitted b wr s) = mmio_writes s @ [(QUEUE_NOTIFY, 0)]"
  by (simp_all add: submit_defs)

lemma submitted_request:
  assumes "virtio_idle s"
  shows "offered (submitted b wr s) = 0" "blk_chain 0 (submitted b wr s) 0 b 0"
    "rtype (vops (submitted b wr s) ! 0) = (if wr then VIRTIO_BLK_T_OUT else VIRTIO_BLK_T_IN)"
    "rsector (vops (submitted b wr s) ! 0) = ucast (bblockno (bufs s ! b) * 2)"
    "ibuf (vinfos (submitted b wr s) ! 0) = Some b"
    "dflags (vdesc (submitted b wr s) ! 0) = VRING_DESC_F_NEXT" "dnext (vdesc (submitted b wr s) ! 0) = 1"
    "dflags (vdesc (submitted b wr s) ! 1) AND VRING_DESC_F_NEXT \<noteq> 0" "dnext (vdesc (submitted b wr s) ! 1) = 2"
    "dflags (vdesc (submitted b wr s) ! 2) AND VRING_DESC_F_NEXT = 0"
    "length (vdesc (submitted b wr s)) = NUM" "length (vinfos (submitted b wr s)) = NUM"
  using assms
  by (simp_all add: submit_defs virtio_idle_def offered_def blk_chain_def desc1_def desc2_def BSIZE_def NUM_def
      VRING_DESC_F_NEXT_def VRING_DESC_F_WRITE_def VIRTIO_BLK_T_IN_def VIRTIO_BLK_T_OUT_def nth_list_update)

lemma virtio_disk_rw_sleeps:
  assumes "quiet s" "virtio_idle s"
  shows "\<exists>s1. virtio_disk_rw b wr s = Block (ChBuf b) s1 \<and> kproc.more s1 = kproc.more (submitted b wr s)"
proof -
  obtain p where p: "curproc s = Some p" "p < length (ptable s)" "held s = []"
    using assms(1) by (auto simp: quiet_def)
  let ?s = "s\<lparr>held := [VdiskLock]\<rparr>"
  have i: "virtio_idle ?s" using assms(2) by (simp add: virtio_idle_def)
  have "virtio_disk_rw b wr s = sleep (ChBuf b) VdiskLock (submitted b wr ?s)"
    using p by (simp add: virtio_disk_rw_def vrw_alloc_def alloc3_idle [OF i] vrw_wait_def)
  also have "... = Block (ChBuf b) (upd_proc p (\<lambda>q. q\<lparr>pchan := Some (ChBuf b), state := SLEEPING\<rparr>)
      ((submitted b wr ?s)\<lparr>held := [ProcLock p]\<rparr>))"
    using p by (simp add: sleep_def sched_def holding_def)
  finally show ?thesis by (simp add: upd_proc_def submit_defs)
qed

text \<open>The device and the interrupt, while the process sleeps.\<close>

lemma blk_chain_more:
  "kproc.more t = kproc.more s \<Longrightarrow> blk_chain h t k b j = blk_chain h s k b j"
  "kproc.more t = kproc.more s \<Longrightarrow> offered t = offered s"
  by (simp_all add: blk_chain_def desc1_def desc2_def offered_def more_disk [of t s])

lemma device_serves:
  assumes "virtio_blk_device dev" "virtio_idle s" "kproc.more t = kproc.more (submitted b wr s)"
  shows "dev t = blk_serve 0 0 b 0 t"
  using assms(1) submitted_request(1,2) [OF assms(2)] blk_chain_more [OF assms(3)] more_disk(13) [OF assms(3)]
  unfolding virtio_blk_device_def by (metis submitted_fields(11))

text \<open>The effect of a request on buffers and disk.\<close>

definition moved :: "nat \<Rightarrow> bool \<Rightarrow> 'x kvdisk_scheme \<Rightarrow> 'y kvdisk_scheme \<Rightarrow> bool" where
  "moved b wr s t \<longleftrightarrow>
     (if wr then bufs t = bufs s \<and> disk t = (disk s)(bblockno (bufs s ! b) := bdata (bufs s ! b))
      else disk t = disk s \<and> bufs t = (bufs s)[b := (bufs s ! b)\<lparr>bdata := disk s (bblockno (bufs s ! b))\<rparr>])"

lemma sector_block:
  assumes "(n :: u32) < 0x80000000"
  shows "ucast ((ucast (n * 2) :: u64) div 2) = n"
proof -
  have n: "unat n < 2 ^ 31" using assms by (simp add: word_less_nat_alt)
  then have "unat (n * 2) = unat n * 2" by (simp add: unat_word_ariths)
  then show ?thesis using n by (simp add: word_unat_eq_iff unat_div unsigned_ucast_eq take_bit_nat_eq_self)
qed

text \<open>The kernel after the interrupt has been handled.\<close>

definition answered :: "nat \<Rightarrow> bool \<Rightarrow> 'x kvdisk_scheme \<Rightarrow> 'y kvdisk_scheme \<Rightarrow> bool" where
  "answered b wr s t \<longleftrightarrow> \<not> bdisk t b \<and> used_idx t = used_dev t \<and> vdesc t = vdesc (submitted b wr s) \<and>
     vfree t = vfree (submitted b wr s) \<and> length (avail_ring t) = NUM \<and> length (used_ring t) = NUM \<and>
     length (vinfos t) = NUM \<and> length (vops t) = NUM \<and> moved b wr s t"

lemma blk_serve_fields [simp]:
  "held (blk_serve h k b j s) = held s" "curproc (blk_serve h k b j s) = curproc s"
  "ptable (blk_serve h k b j s) = ptable s" "used_idx (blk_serve h k b j s) = used_idx s"
  "used_dev (blk_serve h k b j s) = used_dev s + 1"
  "used_ring (blk_serve h k b j s) = (used_ring s)[unat (used_dev s) mod NUM := of_nat h]"
  "vinfos (blk_serve h k b j s) = (vinfos s)[j := (vinfos s ! j)\<lparr>istatus := 0\<rparr>]"
  "vdesc (blk_serve h k b j s) = vdesc s" "vfree (blk_serve h k b j s) = vfree s"
  "avail_ring (blk_serve h k b j s) = avail_ring s" "vops (blk_serve h k b j s) = vops s"
  by (simp_all add: blk_serve_def set_bdata_def upd_buf_def Let_def)

lemma blk_serve_moved:
  assumes "virtio_idle s" "kproc.more t = kproc.more (submitted b wr s)" "bblockno (bufs s ! b) < 0x80000000"
  shows "moved b wr s (blk_serve 0 0 b 0 t)"
  using submitted_request(3,4) [OF assms(1), of b wr] more_disk [OF assms(2)] sector_block [OF assms(3)]
  by (simp add: moved_def blk_serve_def set_bdata_def upd_buf_def Let_def VIRTIO_BLK_T_OUT_def VIRTIO_BLK_T_IN_def)

lemma blk_serve_held: "(blk_serve h k b j s)\<lparr>held := l\<rparr> = blk_serve h k b j (s\<lparr>held := l\<rparr>)"
  by (simp add: blk_serve_def set_bdata_def upd_buf_def Let_def)

lemma moved_cong: "bufs t = bufs u \<Longrightarrow> disk t = disk u \<Longrightarrow> moved b wr s t = moved b wr s u"
  by (simp add: moved_def)

lemma intr_answers:
  assumes "virtio_idle s" "kproc.more t = kproc.more (submitted b wr s)" "bblockno (bufs s ! b) < 0x80000000"
    "proc_locks_free t" "VdiskLock \<notin> set (held t)"
  shows "\<exists>u. virtio_disk_intr (blk_serve 0 0 b 0 t) = Ok () u \<and> answered b wr s u"
proof -
  let ?u = "wreg INTERRUPT_ACK (rreg INTERRUPT_STATUS (blk_serve 0 0 b 0 (t\<lparr>held := VdiskLock # held t\<rparr>)) AND 3)
    (blk_serve 0 0 b 0 (t\<lparr>held := VdiskLock # held t\<rparr>))"
  note M = more_disk [OF assms(2)] and R = submitted_request [OF assms(1), of b wr]
  have idle: "used_idx s = used_dev s" "length (used_ring s) = NUM" using assms(1) by (simp_all add: virtio_idle_def)
  let ?w = "wake (ChBuf b) (?u\<lparr>bdisk := (bdisk ?u)(b := False)\<rparr>)"
  have N: "(0 :: nat) < NUM" by (simp add: NUM_def)
  have ring: "used_ring ?u ! (unat (used_idx ?u) mod NUM) = 0" "used_idx ?u \<noteq> used_dev ?u"
    "istatus (vinfos ?u ! 0) = 0" "ibuf (vinfos ?u ! 0) = Some b"
    using M R idle N by (simp_all add: wreg_def)
  have plf: "proc_locks_free (?u\<lparr>bdisk := (bdisk ?u)(b := False)\<rparr>)"
    using assms(4) by (simp add: proc_locks_free_def wreg_def)
  have "intr_loop ?u = intr_loop (?w\<lparr>used_idx := used_idx ?w + 1\<rparr>)"
    using ring N by (subst intr_loop.simps) (simp add: wakeup_wake [OF plf])
  also have "used_idx ?w + 1 = used_dev ?w" using M idle by (simp add: wreg_def)
  also have "intr_loop (?w\<lparr>used_idx := used_dev ?w\<rparr>) = Ok () (?w\<lparr>used_idx := used_dev ?w\<rparr>)"
    by (subst intr_loop.simps) simp
  finally have L: "intr_loop ?u = Ok () (?w\<lparr>used_idx := used_dev ?w\<rparr>)" .
  let ?z = "?w\<lparr>used_idx := used_dev ?w, held := held t\<rparr>"
  have "virtio_disk_intr (blk_serve 0 0 b 0 t) = Ok () ?z"
    using assms(5) L by (simp add: virtio_disk_intr_def blk_serve_held wreg_def)
  moreover have "moved b wr s ?z"
    using blk_serve_moved [OF assms(1-3)]
    by (subst moved_cong [of _ "blk_serve 0 0 b 0 t"]) (simp_all add: wreg_def flip: blk_serve_held)
  then have "answered b wr s ?z"
    using M R assms(1) by (simp add: answered_def wreg_def virtio_idle_def submit_defs)
  ultimately show ?thesis by blast
qed

text \<open>The process wakes up and returns.\<close>

lemma free_chain_step:
  "i < NUM \<Longrightarrow> \<not> vfree s i \<Longrightarrow> proc_locks_free s \<Longrightarrow>
    free_chain i s = (if dflags (vdesc s ! i) AND VRING_DESC_F_NEXT \<noteq> 0
      then free_chain (unat (dnext (vdesc s ! i))) (wake ChDiskFree (freed i s)) else Ok () (wake ChDiskFree (freed i s)))"
  by (subst free_chain.simps) (simp add: free_desc_eq Let_def)

lemma free_chain_three:
  assumes "vfree s = F(0 := False, 1 := False, 2 := False)" "vdesc s = vdesc (submitted b wr r)" "virtio_idle r"
    "proc_locks_free s"
  shows "free_chain 0 s = Ok () (wake ChDiskFree (freed 2 (wake ChDiskFree (freed 1 (wake ChDiskFree (freed 0 s))))))"
proof -
  note R = submitted_request [OF assms(3), of b wr, folded assms(2)]
  have N: "(0 :: nat) < NUM" "(1 :: nat) < NUM" "(2 :: nat) < NUM" by (simp_all add: NUM_def)
  have "VRING_DESC_F_NEXT AND VRING_DESC_F_NEXT \<noteq> 0" by (simp add: VRING_DESC_F_NEXT_def)
  then show ?thesis using assms(1,4) R(6-10) N
    by (simp add: free_chain_step)
qed

lemma sleeper_returns:
  assumes "virtio_idle s" "answered b wr s t" "held t = [ProcLock p]" "curproc t = Some p" "length (ptable t) = NPROC"
  shows "\<exists>u. vrw_wait_resume b 0 t = Ok () u \<and> virtio_idle u \<and> moved b wr s u"
proof -
  let ?v = "upd_proc p (\<lambda>q. q\<lparr>pchan := None\<rparr>) (t\<lparr>held := [VdiskLock]\<rparr>)"
  let ?u = "upd_info 0 (\<lambda>k. k\<lparr>ibuf := None\<rparr>) ?v"
  let ?w = "wake ChDiskFree (freed 2 (wake ChDiskFree (freed 1 (wake ChDiskFree (freed 0 ?u)))))"
  note A = assms(2) [unfolded answered_def]
  have M: "kproc.more ?v = kproc.more t" by (simp add: upd_proc_def)
  note V = more_disk [OF M]
  have R: "sleep_resume VdiskLock t = Ok () ?v"
    using assms(3,4) by (simp add: sleep_resume_def upd_proc_def)
  have F: "free_chain 0 ?u = Ok () ?w"
    by (rule free_chain_three [OF _ _ assms(1), of _ "vfree s" b wr])
      (use A V assms(5) in \<open>simp_all add: upd_info_def proc_locks_free_def\<close>)
  have "vrw_wait_resume b 0 t = Ok () (?w\<lparr>held := []\<rparr>)"
    using A V F by (simp add: vrw_wait_resume_def R vrw_wait_def upd_info_def)
  moreover have "virtio_idle (?w\<lparr>held := []\<rparr>)"
    using A V assms(1) submitted_request(11) [OF assms(1), of b wr]
    by (auto simp: virtio_idle_def upd_info_def)
  moreover have "moved b wr s (?w\<lparr>held := []\<rparr>)"
    using A V by (subst moved_cong [of _ t]) (simp_all add: upd_info_def)
  ultimately show ?thesis by blast
qed

lemma disk_rw_moved: "quiet s \<Longrightarrow> \<exists>r. disk_rw b wr s = Ok () r \<and> moved b wr s r"
  by (cases wr) (auto simp: quiet_def disk_rw_def moved_def Let_def set_bdata_def upd_buf_def)

lemma moved_same: "moved b wr s t \<Longrightarrow> moved b wr s r \<Longrightarrow> bufs t = bufs r \<and> disk t = disk r"
  by (auto simp: moved_def split: if_splits)

lemma answered_more: "kproc.more t = kproc.more u \<Longrightarrow> answered b wr s u \<Longrightarrow> answered b wr s t"
  using more_disk [of t u] by (auto simp: answered_def moved_def)

section \<open>Properties\<close>

text \<open>C10. With a device that serves requests as the virtio standard says, a disk request from its
  call over the sleep, the interrupt and the wakeup to its return leaves buffers and disk as the
  abstract disk_rw of the buffer cache does, and the driver idle again. Between the three parts the
  rest of the kernel may run, as long as it leaves what is not processes and locks alone.\<close>

theorem virtio_refines_disk_rw:
  fixes s :: "'x kvdisk_scheme"
  assumes "virtio_blk_device dev" "quiet s" "virtio_idle s" "bblockno (bufs s ! b) < 0x80000000"
  shows "\<exists>s1 r. virtio_disk_rw b wr s = Block (ChBuf b) s1 \<and> disk_rw b wr s = Ok () r \<and>
    (\<forall>t. kproc.more t = kproc.more s1 \<and> proc_locks_free t \<and> VdiskLock \<notin> set (held t) \<longrightarrow>
      (\<exists>u. virtio_disk_intr (dev t) = Ok () u \<and>
        (\<forall>v p. kproc.more v = kproc.more u \<and> held v = [ProcLock p] \<and> curproc v = Some p \<and> length (ptable v) = NPROC \<longrightarrow>
          (\<exists>w. vrw_wait_resume b 0 v = Ok () w \<and> virtio_idle w \<and> bufs w = bufs r \<and> disk w = disk r))))"
proof -
  obtain s1 where s1: "virtio_disk_rw b wr s = Block (ChBuf b) s1" "kproc.more s1 = kproc.more (submitted b wr s)"
    using virtio_disk_rw_sleeps [OF assms(2,3)] by blast
  obtain r where r: "disk_rw b wr s = Ok () r" "moved b wr s r" using disk_rw_moved [OF assms(2)] by blast
  have "\<exists>u. virtio_disk_intr (dev t) = Ok () u \<and>
        (\<forall>v p. kproc.more v = kproc.more u \<and> held v = [ProcLock p] \<and> curproc v = Some p \<and> length (ptable v) = NPROC \<longrightarrow>
          (\<exists>w. vrw_wait_resume b 0 v = Ok () w \<and> virtio_idle w \<and> bufs w = bufs r \<and> disk w = disk r))"
    if t: "kproc.more t = kproc.more s1 \<and> proc_locks_free t \<and> VdiskLock \<notin> set (held t)" for t
  proof -
    have m: "kproc.more t = kproc.more (submitted b wr s)" using t s1(2) by simp
    obtain u where u: "virtio_disk_intr (dev t) = Ok () u" "answered b wr s u"
      using intr_answers [OF assms(3) m assms(4)] t device_serves [OF assms(1,3) m] by auto
    have "\<exists>w. vrw_wait_resume b 0 v = Ok () w \<and> virtio_idle w \<and> bufs w = bufs r \<and> disk w = disk r"
      if v: "kproc.more v = kproc.more u" "held v = [ProcLock p]" "curproc v = Some p" "length (ptable v) = NPROC" for v p
      using sleeper_returns [OF assms(3) answered_more [OF v(1) u(2)] v(2-4)] moved_same [OF _ r(2)] by blast
    then show ?thesis using u(1) by blast
  qed
  then show ?thesis using s1(1) r(1) by blast
qed

text \<open>A device, and a kernel with an idle disk.\<close>

definition device0 :: "'x kvdisk_scheme \<Rightarrow> 'x kvdisk_scheme" where
  "device0 s = (let h = offered s in
     case (daddr (vdesc s ! h), daddr (desc1 h s), daddr (desc2 h s)) of
       (OpsAddr k, BufData b, StatusAddr j) \<Rightarrow> blk_serve h k b j s
     | _ \<Rightarrow> s)"

lemma device0_contract: "virtio_blk_device device0"
  by (auto simp: virtio_blk_device_def device0_def blk_chain_def Let_def)

definition kvdisk0 :: kvdisk where
  "kvdisk0 = kio.extend kio0
     \<lparr>vdesc = replicate NUM \<lparr>daddr = NoDma, dlen = 0, dflags = 0, dnext = 0\<rparr>, avail_idx = 0,
      avail_ring = replicate NUM 0, used_dev = 0, used_ring = replicate NUM 0, vfree = \<lambda>i. i < NUM, used_idx = 0,
      vinfos = replicate NUM \<lparr>ibuf = None, istatus = 0\<rparr>,
      vops = replicate NUM \<lparr>rtype = 0, rreserved = 0, rsector = 0\<rparr>, bdisk = \<lambda>_. False,
      vdesc_pa = 0, vavail_pa = 0, vused_pa = 0, mmio_read = \<lambda>_ _. 0, mmio_writes = []\<rparr>"

lemma kvdisk0_facts: "quiet kvdisk0" "virtio_idle kvdisk0" "bblockno (bufs kvdisk0 ! 0) = 0" "held kvdisk0 = []"
  "curproc kvdisk0 = Some 0" "length (ptable kvdisk0) = NPROC"
proof -
  have "held kvdisk0 = held kio0" "curproc kvdisk0 = curproc kio0" "ptable kvdisk0 = ptable kio0" "bufs kvdisk0 = bufs kio0"
    by (simp_all add: kvdisk0_def kio.extend_def)
  moreover have "bufs kio0 = bufs (klog_n 0)" by (simp add: kio0_def klog.extend_def)
  moreover have "bufs (klog_n 0) ! 0 = buf_unused" by (subst klog_n_fields) (simp_all add: NBUF_def MAXOPBLOCKS_def)
  ultimately show "quiet kvdisk0" "bblockno (bufs kvdisk0 ! 0) = 0" "held kvdisk0 = []" "curproc kvdisk0 = Some 0"
    "length (ptable kvdisk0) = NPROC"
    by (simp_all add: quiet_def kio0_fields NPROC_def buf_unused_def)
  show "virtio_idle kvdisk0" by (simp add: virtio_idle_def kvdisk0_def kio.extend_def)
qed

theorem virtio_refines_disk_rw_witness:
  "\<exists>s1 u w r. virtio_disk_rw 0 False kvdisk0 = Block (ChBuf 0) s1 \<and> disk_rw 0 False kvdisk0 = Ok () r \<and>
     virtio_disk_intr (device0 (s1\<lparr>held := [], curproc := Some 0, ptable := ptable kvdisk0\<rparr>)) = Ok () u \<and>
     vrw_wait_resume 0 0 (u\<lparr>held := [ProcLock 0], curproc := Some 0, ptable := ptable kvdisk0\<rparr>) = Ok () w \<and>
     virtio_idle w \<and> bufs w = bufs r \<and> disk w = disk r"
proof -
  have "bblockno (bufs kvdisk0 ! 0) < 0x80000000" by (simp add: kvdisk0_facts)
  from virtio_refines_disk_rw [OF device0_contract kvdisk0_facts(1,2) this, of False]
  obtain s1 r where s1: "virtio_disk_rw 0 False kvdisk0 = Block (ChBuf 0) s1" "disk_rw 0 False kvdisk0 = Ok () r"
    and T: "\<And>t. kproc.more t = kproc.more s1 \<and> proc_locks_free t \<and> VdiskLock \<notin> set (held t) \<Longrightarrow>
      \<exists>u. virtio_disk_intr (device0 t) = Ok () u \<and>
        (\<forall>v p. kproc.more v = kproc.more u \<and> held v = [ProcLock p] \<and> curproc v = Some p \<and> length (ptable v) = NPROC \<longrightarrow>
          (\<exists>w. vrw_wait_resume 0 0 v = Ok () w \<and> virtio_idle w \<and> bufs w = bufs r \<and> disk w = disk r))"
    by blast
  let ?t = "s1\<lparr>held := [], curproc := Some 0, ptable := ptable kvdisk0\<rparr>"
  obtain u where u: "virtio_disk_intr (device0 ?t) = Ok () u"
    and V: "\<And>v p. kproc.more v = kproc.more u \<and> held v = [ProcLock p] \<and> curproc v = Some p \<and> length (ptable v) = NPROC \<Longrightarrow>
          (\<exists>w. vrw_wait_resume 0 0 v = Ok () w \<and> virtio_idle w \<and> bufs w = bufs r \<and> disk w = disk r)"
    using T [of ?t] kvdisk0_facts(6) by (auto simp: proc_locks_free_def)
  let ?v = "u\<lparr>held := [ProcLock 0], curproc := Some 0, ptable := ptable kvdisk0\<rparr>"
  have "\<exists>w. vrw_wait_resume 0 0 ?v = Ok () w \<and> virtio_idle w \<and> bufs w = bufs r \<and> disk w = disk r"
    by (rule V [of _ 0]) (simp add: kvdisk0_facts)
  then show ?thesis using s1 u by blast
qed

text \<open>alloc3_desc takes three distinct free descriptors or, when fewer than three are free, none:
  those it had taken are given back.\<close>

lemma alloc3_all_or_none:
  assumes "proc_locks_free s"
  shows "\<exists>r t. alloc3_desc s = Ok r t \<and> took 3 (free_set s) r t"
  unfolding alloc3_desc_def
  using alloc_descs_took [of "[]" "free_set s" s 3] assms by (auto simp: free_set_def)

lemma alloc3_all_or_none_witness:
  "\<exists>t. alloc3_desc (kvdisk0\<lparr>vfree := \<lambda>i. i < 2\<rparr>) = Ok None t \<and> free_set t = {0, 1}"
proof -
  let ?s = "kvdisk0\<lparr>vfree := \<lambda>i. i < 2\<rparr>"
  have F: "free_set ?s = {0, 1}" by (auto simp: free_set_def NUM_def)
  have "proc_locks_free ?s" by (simp add: proc_locks_free_def kvdisk0_facts)
  from alloc3_all_or_none [OF this] obtain r t where t: "alloc3_desc ?s = Ok r t" "took 3 {0, 1} r t"
    unfolding F by blast
  have "\<not> (length idx = 3 \<and> distinct idx \<and> set idx \<subseteq> {0, 1 :: nat})" for idx
    using card_mono [of "{0, 1 :: nat}" "set idx"] distinct_card [of idx] by auto
  then have "r = None" using t(2) by (auto simp: took_def split: option.splits)
  then show ?thesis using t by (auto simp: took_def)
qed

end
