(* ===== verification/Syscall.thy ===== *)
theory Syscall
  imports Proc_Life
begin

text \<open>
  \<^verbatim>\<open>kernel/sysproc.c\<close> and the dispatcher of \<^verbatim>\<open>kernel/syscall.c\<close>. A system call returns the
  64-bit value that goes to register \<^verbatim>\<open>a0\<close>; one that has to wait is the result \<open>Block\<close>, and its
  \<open>resume\<close> function continues it.
\<close>

section \<open>sysproc.c\<close>

definition sys_exit :: "'x kio_scheme \<Rightarrow> (u64, 'x kio_scheme) res" where
  "sys_exit s = bnd (argint 0 s) (\<lambda>n s. bnd (kexit n s) (\<lambda>_ s. Ok 0 s))"

definition sys_getpid :: "'x kio_scheme \<Rightarrow> (u64, 'x kio_scheme) res" where
  "sys_getpid = with_myproc (\<lambda>p s. Ok (of_int (pid (ptable s ! p))) s)"

definition sys_fork :: "'x kio_scheme \<Rightarrow> (u64, 'x kio_scheme) res" where
  "sys_fork s = bnd (kfork s) (\<lambda>r s. Ok (of_int r) s)"

definition sys_wait :: "'x kio_scheme \<Rightarrow> (u64, 'x kio_scheme) res" where
  "sys_wait s = bnd (argaddr 0 s) (\<lambda>p s. bnd (kwait p s) (\<lambda>r s. Ok (of_int r) s))"

definition sys_sbrk :: "'x kio_scheme \<Rightarrow> (u64, 'x kio_scheme) res" where
  "sys_sbrk s =
     bnd (argint 0 s) (\<lambda>n s.
     bnd (argint 1 s) (\<lambda>t s.
     with_myproc (\<lambda>p s.
     let addr = sz (ptable s ! p) in
     if t = SBRK_EAGER \<or> n < 0
     then bnd (growproc n s) (\<lambda>r s. if r < 0 then Ok (-1) s else Ok addr s)
     else if addr + of_int n < addr then Ok (-1) s
     else if TRAPFRAME < addr + of_int n then Ok (-1) s
     else Ok addr (upd_proc p (\<lambda>q. q\<lparr>sz := sz q + of_int n\<rparr>) s)) s))"

text \<open>The loop of \<^verbatim>\<open>sys_pause\<close>, ticks lock held: the \<^verbatim>\<open>int\<close> is compared as an unsigned.\<close>

definition pause_loop :: "int \<Rightarrow> u32 \<Rightarrow> 'x kio_scheme \<Rightarrow> (u64, 'x kio_scheme) res" where
  "pause_loop n ticks0 s =
     (if ticks s - ticks0 < of_int n
      then with_myproc (\<lambda>p s. bnd (killed p s) (\<lambda>k s.
           if k then bnd (release TicksLock s) (\<lambda>_ s. Ok (-1) s)
           else bnd (sleep ChTicks TicksLock s) (\<lambda>_ s. Ok 0 s))) s
      else bnd (release TicksLock s) (\<lambda>_ s. Ok 0 s))"

definition sys_pause :: "'x kio_scheme \<Rightarrow> (u64, 'x kio_scheme) res" where
  "sys_pause s =
     bnd (argint 0 s) (\<lambda>n s.
     let n = (if n < 0 then 0 else n) in
     bnd (acquire TicksLock s) (\<lambda>_ s. pause_loop n (ticks s) s))"

definition sys_pause_resume :: "int \<Rightarrow> u32 \<Rightarrow> 'x kio_scheme \<Rightarrow> (u64, 'x kio_scheme) res" where
  "sys_pause_resume n ticks0 s = bnd (sleep_resume TicksLock s) (\<lambda>_ s. pause_loop n ticks0 s)"

definition sys_kill :: "'x kio_scheme \<Rightarrow> (u64, 'x kio_scheme) res" where
  "sys_kill s = bnd (argint 0 s) (\<lambda>n s. bnd (kkill n s) (\<lambda>r s. Ok (of_int r) s))"

definition sys_uptime :: "'x kio_scheme \<Rightarrow> (u64, 'x kio_scheme) res" where
  "sys_uptime s =
     bnd (acquire TicksLock s) (\<lambda>_ s.
     let xticks = ticks s in bnd (release TicksLock s) (\<lambda>_ s. Ok (ucast xticks) s))"

definition sys_getprocsinfo :: "'x kio_scheme \<Rightarrow> (u64, 'x kio_scheme) res" where
  "sys_getprocsinfo s =
     bnd (printf (''PID'' @ [CHR 0x09] @ ''STATE'' @ [CHR 0x09] @ ''SIZE'' @ [CHR 0x0A]) [] s) (\<lambda>_ s.
     bnd (foreach (\<lambda>p s.
       let q = ptable s ! p in
       if state q \<noteq> UNUSED
       then printf (''%d'' @ [CHR 0x09] @ ''%d'' @ [CHR 0x09] @ ''%ld'' @ [CHR 0x0A])
              [Num (of_int (pid q)), Num (of_nat (procstate_num (state q))), Num (sz q)] s
       else Ok () s) [0..<NPROC] s) (\<lambda>_ s.
     Ok 0 s))"

definition sys_getppid :: "'x kio_scheme \<Rightarrow> (u64, 'x kio_scheme) res" where
  "sys_getppid =
     with_myproc (\<lambda>p s.
     case parent (ptable s ! p) of
       Some k \<Rightarrow> Ok (of_int (pid (ptable s ! k))) s
     | None \<Rightarrow> Ok (-1) s)"

text \<open>\<^verbatim>\<open>sys_sleep2\<close> differs from \<^verbatim>\<open>sys_pause\<close>: a negative count is kept, and no lock covers \<^verbatim>\<open>p->killed\<close>.\<close>

definition sleep2_loop :: "nat \<Rightarrow> int \<Rightarrow> u32 \<Rightarrow> 'x kio_scheme \<Rightarrow> (u64, 'x kio_scheme) res" where
  "sleep2_loop p n ticks0 s =
     (if ticks s - ticks0 < of_int n
      then if pkilled (ptable s ! p) \<noteq> 0 then bnd (release TicksLock s) (\<lambda>_ s. Ok (-1) s)
           else bnd (sleep ChTicks TicksLock s) (\<lambda>_ s. Ok 0 s)
      else bnd (release TicksLock s) (\<lambda>_ s. Ok 0 s))"

definition sys_sleep2 :: "'x kio_scheme \<Rightarrow> (u64, 'x kio_scheme) res" where
  "sys_sleep2 s =
     bnd (argint 0 s) (\<lambda>n s.
     with_myproc (\<lambda>p s.
     bnd (acquire TicksLock s) (\<lambda>_ s. sleep2_loop p n (ticks s) s)) s)"

definition sys_sleep2_resume :: "nat \<Rightarrow> int \<Rightarrow> u32 \<Rightarrow> 'x kio_scheme \<Rightarrow> (u64, 'x kio_scheme) res" where
  "sys_sleep2_resume p n ticks0 s = bnd (sleep_resume TicksLock s) (\<lambda>_ s. sleep2_loop p n ticks0 s)"

section \<open>syscall.c\<close>

definition SYS_fork :: int where "SYS_fork = 1"
definition SYS_exit :: int where "SYS_exit = 2"
definition SYS_wait :: int where "SYS_wait = 3"
definition SYS_pipe :: int where "SYS_pipe = 4"
definition SYS_read :: int where "SYS_read = 5"
definition SYS_kill :: int where "SYS_kill = 6"
definition SYS_exec :: int where "SYS_exec = 7"
definition SYS_fstat :: int where "SYS_fstat = 8"
definition SYS_chdir :: int where "SYS_chdir = 9"
definition SYS_dup :: int where "SYS_dup = 10"
definition SYS_getpid :: int where "SYS_getpid = 11"
definition SYS_sbrk :: int where "SYS_sbrk = 12"
definition SYS_pause :: int where "SYS_pause = 13"
definition SYS_uptime :: int where "SYS_uptime = 14"
definition SYS_open :: int where "SYS_open = 15"
definition SYS_write :: int where "SYS_write = 16"
definition SYS_mknod :: int where "SYS_mknod = 17"
definition SYS_unlink :: int where "SYS_unlink = 18"
definition SYS_link :: int where "SYS_link = 19"
definition SYS_mkdir :: int where "SYS_mkdir = 20"
definition SYS_close :: int where "SYS_close = 21"
definition SYS_getprocsinfo :: int where "SYS_getprocsinfo = 22"
definition SYS_getppid :: int where "SYS_getppid = 23"
definition SYS_sleep2 :: int where "SYS_sleep2 = 24"

lemmas SYS_defs = SYS_fork_def SYS_exit_def SYS_wait_def SYS_pipe_def SYS_read_def SYS_kill_def
  SYS_exec_def SYS_fstat_def SYS_chdir_def SYS_dup_def SYS_getpid_def SYS_sbrk_def SYS_pause_def
  SYS_uptime_def SYS_open_def SYS_write_def SYS_mknod_def SYS_unlink_def SYS_link_def SYS_mkdir_def
  SYS_close_def SYS_getprocsinfo_def SYS_getppid_def SYS_sleep2_def

text \<open>
  The functions of \<^verbatim>\<open>sysfile.c\<close> compute an \<^verbatim>\<open>int\<close>, which their result type \<^verbatim>\<open>uint64\<close> extends
  by its sign.
\<close>

definition ext :: "('s \<Rightarrow> (int, 's) res) \<Rightarrow> 's \<Rightarrow> (u64, 's) res" where
  "ext f s = bnd (f s) (\<lambda>r s. Ok (of_int r) s)"

definition syscalls :: "int \<Rightarrow> ('x kio_scheme \<Rightarrow> (u64, 'x kio_scheme) res) option" where
  "syscalls num =
     (if num = SYS_fork then Some sys_fork else if num = SYS_exit then Some sys_exit
      else if num = SYS_wait then Some sys_wait else if num = SYS_pipe then Some (ext sys_pipe)
      else if num = SYS_read then Some (ext sys_read) else if num = SYS_kill then Some sys_kill
      else if num = SYS_exec then Some (ext sys_exec) else if num = SYS_fstat then Some (ext sys_fstat)
      else if num = SYS_chdir then Some (ext sys_chdir) else if num = SYS_dup then Some (ext sys_dup)
      else if num = SYS_getpid then Some sys_getpid else if num = SYS_sbrk then Some sys_sbrk
      else if num = SYS_pause then Some sys_pause else if num = SYS_uptime then Some sys_uptime
      else if num = SYS_open then Some (ext sys_open) else if num = SYS_write then Some (ext sys_write)
      else if num = SYS_mknod then Some (ext sys_mknod) else if num = SYS_unlink then Some (ext sys_unlink)
      else if num = SYS_link then Some (ext sys_link) else if num = SYS_mkdir then Some (ext sys_mkdir)
      else if num = SYS_close then Some (ext sys_close)
      else if num = SYS_getprocsinfo then Some sys_getprocsinfo
      else if num = SYS_getppid then Some sys_getppid else if num = SYS_sleep2 then Some sys_sleep2
      else None)"

text \<open>The return value goes to \<^verbatim>\<open>p->trapframe->a0\<close>, also when a call that slept finishes.\<close>

definition set_a0 :: "nat \<Rightarrow> u64 \<Rightarrow> 'x kproc_scheme \<Rightarrow> 'x kproc_scheme" where
  "set_a0 p v = upd_proc p (\<lambda>q. q\<lparr>tf := (tf q)\<lparr>a0 := v\<rparr>\<rparr>)"

definition syscall :: "'x kio_scheme \<Rightarrow> (unit, 'x kio_scheme) res" where
  "syscall =
     with_myproc (\<lambda>p s.
     let num = sint (ucast (a7 (tf (ptable s ! p))) :: u32) in
     case (if 0 < num \<and> num < 25 then syscalls num else None) of
       Some f \<Rightarrow> bnd (f s) (\<lambda>v s. Ok () (set_a0 p v s))
     | None \<Rightarrow>
         bnd (printf (''%d %s: unknown sys call %d'' @ [CHR 0x0A])
                [Num (of_int (pid (ptable s ! p))), Str (Some (bytes_string (pname (ptable s ! p)))), Num (of_int num)] s)
           (\<lambda>_ s. Ok () (set_a0 p (-1) s)))"

end
