(* ===== verification/Trap.thy ===== *)
theory Trap
  imports Syscall Virtio
begin

text \<open>
  \<^verbatim>\<open>kernel/trap.c\<close>, \<^verbatim>\<open>kernel/plic.c\<close> and \<^verbatim>\<open>forkret\<close>: traps from user and kernel mode, device and
  clock interrupts and the return to user mode. The supervisor registers of the hart are fields
  of the state; \<open>plic_pending\<close> is what the interrupt controller answers to the next claims.
\<close>

record ktrap = kvdisk +
  sstatus :: u64
  sepc :: u64
  scause :: u64
  stval :: u64
  stvec :: u64
  satp :: u64
  rtime :: u64
  stimecmp :: u64
  kernelvec_pa :: u64
  plic_pending :: "u32 list"
  plic_done :: "u32 list"

definition trapinithart :: "'x ktrap_scheme \<Rightarrow> 'x ktrap_scheme" where
  "trapinithart s = s\<lparr>stvec := kernelvec_pa s\<rparr>"

definition sie_on :: "'x ktrap_scheme \<Rightarrow> 'x ktrap_scheme" where
  "sie_on s = s\<lparr>sstatus := sstatus s OR SSTATUS_SIE\<rparr>"
definition sie_off :: "'x ktrap_scheme \<Rightarrow> 'x ktrap_scheme" where
  "sie_off s = s\<lparr>sstatus := sstatus s AND NOT SSTATUS_SIE\<rparr>"
definition sie_get :: "'x ktrap_scheme \<Rightarrow> bool" where
  "sie_get s = (sstatus s AND SSTATUS_SIE \<noteq> 0)"

section \<open>Interrupts\<close>

definition plic_claim :: "'x ktrap_scheme \<Rightarrow> int \<times> 'x ktrap_scheme" where
  "plic_claim s =
     (case plic_pending s of [] \<Rightarrow> (0, s) | i # is \<Rightarrow> (sint i, s\<lparr>plic_pending := is\<rparr>))"

definition plic_complete :: "int \<Rightarrow> 'x ktrap_scheme \<Rightarrow> 'x ktrap_scheme" where
  "plic_complete irq s = s\<lparr>plic_done := plic_done s @ [of_int irq]\<rparr>"

definition clockintr :: "'x ktrap_scheme \<Rightarrow> (unit, 'x ktrap_scheme) res" where
  "clockintr s =
     bnd (if cpuid s = 0
          then bnd (acquire TicksLock s) (\<lambda>_ s.
               bnd (wakeup ChTicks (s\<lparr>ticks := ticks s + 1\<rparr>)) (\<lambda>_ s.
               release TicksLock s))
          else Ok () s) (\<lambda>_ s.
     Ok () (s\<lparr>stimecmp := rtime s + 1000000\<rparr>))"

definition devintr :: "'x ktrap_scheme \<Rightarrow> (int, 'x ktrap_scheme) res" where
  "devintr s =
     (if scause s = 0x8000000000000009
      then case plic_claim s of (irq, s) \<Rightarrow>
        bnd (if irq = int UART0_IRQ then uartintr s
             else if irq = int VIRTIO0_IRQ then virtio_disk_intr s
             else if irq \<noteq> 0 then printf (''unexpected interrupt irq=%d'' @ [CHR 0x0A]) [Num (of_int irq)] s
             else Ok () s) (\<lambda>_ s.
        Ok 1 (if irq \<noteq> 0 then plic_complete irq s else s))
      else if scause s = 0x8000000000000005
      then bnd (clockintr s) (\<lambda>_ s. Ok 2 s)
      else Ok 0 s)"

section \<open>Traps from user mode\<close>

definition prepare_return :: "'x ktrap_scheme \<Rightarrow> (unit, 'x ktrap_scheme) res" where
  "prepare_return =
     with_myproc (\<lambda>p s.
     let s = sie_off s;
         s = s\<lparr>stvec := TRAMPOLINE + (uservec_pa s - trampoline_pa s)\<rparr>;
         s = upd_proc p (\<lambda>q. q\<lparr>tf := (tf q)\<lparr>kernel_satp := satp s, kernel_sp := kstack q + PGSIZE,
                                          kernel_trap := usertrap_pa s, kernel_hartid := of_nat (hartid s)\<rparr>\<rparr>) s;
         s = s\<lparr>sstatus := (sstatus s AND NOT SSTATUS_SPP) OR SSTATUS_SPIE\<rparr>
     in Ok () (s\<lparr>sepc := epc (tf (ptable s ! p))\<rparr>))"

text \<open>The end of \<^verbatim>\<open>usertrap\<close>, from the second test of \<^verbatim>\<open>killed\<close>; the result is the user \<^verbatim>\<open>satp\<close>.\<close>

definition usertrap_ret :: "nat \<Rightarrow> 'x ktrap_scheme \<Rightarrow> (u64, 'x ktrap_scheme) res" where
  "usertrap_ret p s = bnd (prepare_return s) (\<lambda>_ s. Ok (MAKE_SATP (pagetable (ptable s ! p))) s)"

definition usertrap_tail :: "int \<Rightarrow> nat \<Rightarrow> 'x ktrap_scheme \<Rightarrow> (u64, 'x ktrap_scheme) res" where
  "usertrap_tail which p s =
     bnd (killed p s) (\<lambda>k s.
     bnd (if k then kexit (-1) s else Ok () s) (\<lambda>_ s.
     bnd (if which = 2 then yield s else Ok () s) (\<lambda>_ s.
     usertrap_ret p s)))"

definition usertrap_yield_resume :: "nat \<Rightarrow> 'x ktrap_scheme \<Rightarrow> (u64, 'x ktrap_scheme) res" where
  "usertrap_yield_resume p s = bnd (yield_resume s) (\<lambda>_ s. usertrap_ret p s)"

definition unexpected_trap :: "nat \<Rightarrow> 'x ktrap_scheme \<Rightarrow> (unit, 'x ktrap_scheme) res" where
  "unexpected_trap p s =
     bnd (printf (''usertrap(): unexpected scause 0x%lx pid=%d'' @ [CHR 0x0A])
            [Num (scause s), Num (of_int (pid (ptable s ! p)))] s) (\<lambda>_ s.
     bnd (printf (''            sepc=0x%lx stval=0x%lx'' @ [CHR 0x0A]) [Num (sepc s), Num (stval s)] s) (\<lambda>_ s.
     setkilled p s))"

definition usertrap :: "'x ktrap_scheme \<Rightarrow> (u64, 'x ktrap_scheme) res" where
  "usertrap s =
     (if sstatus s AND SSTATUS_SPP \<noteq> 0 then Panic ''usertrap: not from user mode''
      else
      with_myproc (\<lambda>p s.
      let s = upd_proc p (\<lambda>q. q\<lparr>tf := (tf q)\<lparr>epc := sepc s\<rparr>\<rparr>) s in
      bnd (if scause s = 8
           then bnd (killed p s) (\<lambda>k s.
                bnd (if k then kexit (-1) s else Ok () s) (\<lambda>_ s.
                let s = sie_on (upd_proc p (\<lambda>q. q\<lparr>tf := (tf q)\<lparr>epc := epc (tf q) + 4\<rparr>\<rparr>) s)
                in bnd (syscall s) (\<lambda>_ s. Ok 0 s)))
           else bnd (devintr s) (\<lambda>which s.
                if which \<noteq> 0 then Ok which s
                else bnd (if scause s = 15 \<or> scause s = 13
                          then vmfault (pagetable (ptable s ! p)) (stval s) (if scause s = 13 then 1 else 0) s
                          else Ok 0 s) (\<lambda>r s.
                if r \<noteq> 0 then Ok 0 s else bnd (unexpected_trap p s) (\<lambda>_ s. Ok 0 s)))) (\<lambda>which s.
      usertrap_tail which p s)) (s\<lparr>stvec := kernelvec_pa s\<rparr>))"

section \<open>Traps from kernel mode\<close>

definition kerneltrap_ret :: "u64 \<Rightarrow> u64 \<Rightarrow> 'x ktrap_scheme \<Rightarrow> (unit, 'x ktrap_scheme) res" where
  "kerneltrap_ret epc0 st s = Ok () (s\<lparr>sepc := epc0, sstatus := st\<rparr>)"

definition kerneltrap :: "'x ktrap_scheme \<Rightarrow> (unit, 'x ktrap_scheme) res" where
  "kerneltrap s =
     (let epc0 = sepc s; st = sstatus s; cause = scause s in
      if st AND SSTATUS_SPP = 0 then Panic ''kerneltrap: not from supervisor mode''
      else if sie_get s then Panic ''kerneltrap: interrupts enabled''
      else bnd (devintr s) (\<lambda>which s.
        if which = 0
        then bnd (printf (''scause=0x%lx sepc=0x%lx stval=0x%lx'' @ [CHR 0x0A]) [Num cause, Num (sepc s), Num (stval s)] s)
               (\<lambda>_ s. Panic ''kerneltrap'')
        else bnd (if which = 2 \<and> myproc s \<noteq> None then yield s else Ok () s) (\<lambda>_ s.
             kerneltrap_ret epc0 st s)))"

definition kerneltrap_resume :: "u64 \<Rightarrow> u64 \<Rightarrow> 'x ktrap_scheme \<Rightarrow> (unit, 'x ktrap_scheme) res" where
  "kerneltrap_resume epc0 st s = bnd (yield_resume s) (\<lambda>_ s. kerneltrap_ret epc0 st s)"

section \<open>The first return of a process\<close>

definition init_path :: "u8 list" where "init_path = [47, 105, 110, 105, 116]"

text \<open>The result is the argument of \<^verbatim>\<open>userret\<close> with the address it is called at.\<close>

definition forkret :: "'x ktrap_scheme \<Rightarrow> (u64 \<times> u64, 'x ktrap_scheme) res" where
  "forkret =
     with_myproc (\<lambda>p s.
     bnd (release (ProcLock p) s) (\<lambda>_ s.
     bnd (if first_proc s
          then bnd (fsinit ROOTDEV s) (\<lambda>_ s.
               bnd (kexec init_path [init_path] (s\<lparr>first_proc := False\<rparr>)) (\<lambda>r s.
               let s = set_a0 p (of_int r) s in
               if a0 (tf (ptable s ! p)) = -1 then Panic ''exec'' else Ok () s))
          else Ok () s) (\<lambda>_ s.
     bnd (prepare_return s) (\<lambda>_ s.
     Ok (MAKE_SATP (pagetable (ptable s ! p)), TRAMPOLINE + (userret_pa s - trampoline_pa s)) s))))"

end
