(* ===== verification/Trap_Return.thy ===== *)
theory Trap_Return
  imports Trap Virtio_Refine
begin

text \<open>
  A system call from user mode and back: what \<^verbatim>\<open>usertrap\<close>, \<^verbatim>\<open>syscall\<close> and
  \<^verbatim>\<open>prepare_return\<close> together do to the registers of the calling process; and what an interrupt of the
  kernel leaves as it was.
\<close>

section \<open>Small steps\<close>

lemma held_same: "held s = h \<Longrightarrow> s\<lparr>held := h\<rparr> = (s :: 'x kcore_scheme)"
  by simp

lemma killed_quiet: "held s = [] \<Longrightarrow> killed p s = Ok (pkilled (ptable s ! p) \<noteq> 0) s"
  by (simp add: killed_def Let_def)

lemma unknown_msg:
  "\<exists>m. vformat kdigits (''%d %s: unknown sys call %d'' @ [CHR 0x0A]) [Num a, Str (Some b), Num c] = Some m"
  by (simp add: vformat.simps(2) conversion_def chr_at_def Let_def)

lemma outp_held: "held s = [] \<Longrightarrow> s\<lparr>outp := x, held := []\<rparr> = (s\<lparr>outp := x\<rparr> :: 'x kcore_scheme)"
  using held_same [of "s\<lparr>outp := x\<rparr>" "[]"] by simp

text \<open>The trap frame a process returns to user mode with: only the kernel's own fields are new.\<close>

definition returning :: "'x ktrap_scheme \<Rightarrow> proc \<Rightarrow> trapframe \<Rightarrow> trapframe" where
  "returning s q f = f\<lparr>kernel_satp := satp s, kernel_sp := kstack q + PGSIZE, kernel_trap := usertrap_pa s,
     kernel_hartid := of_nat (hartid s)\<rparr>"

text \<open>The result register of a call that neither sleeps nor changes anything.\<close>

definition simple_result :: "proc \<Rightarrow> u64" where
  "simple_result q = (if sint (ucast (a7 (tf q)) :: u32) = SYS_getpid then of_int (pid q) else -1)"

definition simple_call :: "proc \<Rightarrow> bool" where
  "simple_call q \<longleftrightarrow> (let num = sint (ucast (a7 (tf q)) :: u32) in num = SYS_getpid \<or> \<not> (0 < num \<and> num < 25))"

lemma syscall_simple:
  fixes s :: "'x ktrap_scheme"
  assumes "held s = []" "curproc s = Some p" "simple_call (ptable s ! p)"
  shows "\<exists>m. syscall s = Ok () (set_a0 p (simple_result (ptable s ! p)) (s\<lparr>outp := outp s @ m\<rparr>))"
proof (cases "sint (ucast (a7 (tf (ptable s ! p))) :: u32) = SYS_getpid")
  case True
  then have "syscall s = Ok () (set_a0 p (simple_result (ptable s ! p)) s)"
    using assms(2) by (simp add: syscall_def syscalls_def SYS_defs sys_getpid_def simple_result_def)
  then show ?thesis by (intro exI [of _ "[]"]) simp
next
  case False
  obtain m where m: "vformat kdigits (''%d %s: unknown sys call %d'' @ [CHR 0x0A])
      [Num (of_int (pid (ptable s ! p))), Str (Some (bytes_string (pname (ptable s ! p)))),
       Num (of_int (sint (ucast (a7 (tf (ptable s ! p))) :: u32)))] = Some m"
    using unknown_msg by blast
  then show ?thesis
    using False assms by (intro exI [of _ m])
      (auto simp: syscall_def simple_call_def simple_result_def Let_def printf_def kprint_def outp_held)
qed

lemma SSTATUS_bits:
  "((w AND NOT SSTATUS_SPP) OR SSTATUS_SPIE) AND SSTATUS_SPP = 0"
  "((w AND NOT SSTATUS_SPP) OR SSTATUS_SPIE) AND SSTATUS_SPIE \<noteq> 0"
  "(((v AND NOT SSTATUS_SIE) AND NOT SSTATUS_SPP) OR SSTATUS_SPIE) AND SSTATUS_SIE = 0"
proof -
  have D: "SSTATUS_SPIE AND SSTATUS_SPP = 0" "SSTATUS_SPIE \<noteq> 0" "SSTATUS_SPIE AND SSTATUS_SIE = 0"
    by (simp_all add: SSTATUS_SPP_def SSTATUS_SPIE_def SSTATUS_SIE_def)
  have "(x AND NOT m OR k) AND m = k AND m" "(x OR k) AND k = k" "((x AND NOT m) AND NOT n OR k) AND m = k AND m" for x m n k :: u64
    by (rule bit_word_eqI, auto simp: bit_simps)+
  then show "((w AND NOT SSTATUS_SPP) OR SSTATUS_SPIE) AND SSTATUS_SPP = 0"
    "((w AND NOT SSTATUS_SPP) OR SSTATUS_SPIE) AND SSTATUS_SPIE \<noteq> 0"
    "(((v AND NOT SSTATUS_SIE) AND NOT SSTATUS_SPP) OR SSTATUS_SPIE) AND SSTATUS_SIE = 0"
    using D by simp_all
qed

lemma user_call:
  fixes s :: "'x ktrap_scheme"
  assumes "held s = []" "curproc s = Some p" "p < length (ptable s)" "sstatus s AND SSTATUS_SPP = 0" "scause s = 8"
    "pkilled (ptable s ! p) = 0" "simple_call (ptable s ! p)"
  shows "\<exists>t. usertrap s = Ok (MAKE_SATP (pagetable (ptable s ! p))) t \<and>
    ptable t = (ptable s)[p := (ptable s ! p)\<lparr>tf := returning s (ptable s ! p)
      ((tf (ptable s ! p))\<lparr>epc := sepc s + 4, a0 := simple_result (ptable s ! p)\<rparr>)\<rparr>] \<and>
    sepc t = sepc s + 4 \<and> sstatus t AND SSTATUS_SPP = 0 \<and> sstatus t AND SSTATUS_SPIE \<noteq> 0 \<and>
    sstatus t AND SSTATUS_SIE = 0"
proof -
  let ?u = "sie_on (upd_proc p (\<lambda>q. q\<lparr>tf := (tf q)\<lparr>epc := sepc s + 4\<rparr>\<rparr>) (s\<lparr>stvec := kernelvec_pa s\<rparr>))"
  have u: "held ?u = []" "curproc ?u = Some p" "ptable ?u ! p = (ptable s ! p)\<lparr>tf := (tf (ptable s ! p))\<lparr>epc := sepc s + 4\<rparr>\<rparr>"
    using assms(1-3) by (simp_all add: sie_on_def)
  have r: "simple_result (ptable ?u ! p) = simple_result (ptable s ! p)" "simple_call (ptable ?u ! p)"
    using assms(7) unfolding u(3) by (simp_all add: simple_result_def simple_call_def)
  obtain m where m: "syscall ?u = Ok () (set_a0 p (simple_result (ptable s ! p)) (?u\<lparr>outp := outp ?u @ m\<rparr>))"
    using syscall_simple [OF u(1,2) r(2)] unfolding r(1) by blast
  let ?v = "set_a0 p (simple_result (ptable s ! p)) (?u\<lparr>outp := outp ?u @ m\<rparr>)"
  have v: "held ?v = []" "curproc ?v = Some p" "pkilled (ptable ?v ! p) = 0" "p < length (ptable ?v)"
    "satp ?v = satp s" "usertrap_pa ?v = usertrap_pa s" "hartid ?v = hartid s" "sstatus ?v = sstatus s OR SSTATUS_SIE"
    "ptable ?v = (ptable s)[p := (ptable s ! p)\<lparr>tf := (tf (ptable s ! p))\<lparr>epc := sepc s + 4, a0 := simple_result (ptable s ! p)\<rparr>\<rparr>]"
    using u(1,2) assms(3,6) by (simp_all add: set_a0_def upd_proc_def sie_on_def)
  have t: "usertrap s = usertrap_tail 0 p ?v"
    using assms(1-6) m by (simp add: usertrap_def killed_quiet upd_proc_def Let_def sie_on_def)
  obtain w where w: "prepare_return ?v = Ok () w" "ptable w = (ptable s)[p := (ptable s ! p)\<lparr>tf := returning s (ptable s ! p)
      ((tf (ptable s ! p))\<lparr>epc := sepc s + 4, a0 := simple_result (ptable s ! p)\<rparr>)\<rparr>]"
    "sepc w = sepc s + 4" "sstatus w = ((sstatus s OR SSTATUS_SIE) AND NOT SSTATUS_SIE) AND NOT SSTATUS_SPP OR SSTATUS_SPIE"
    using v assms(3) by (simp add: prepare_return_def Let_def sie_off_def upd_proc_def returning_def)
  have "usertrap_tail 0 p ?v = Ok (MAKE_SATP (pagetable (ptable s ! p))) w"
    using w(1,2) v(1,3) assms(3) by (simp add: usertrap_tail_def usertrap_ret_def killed_quiet)
  then show ?thesis using t w SSTATUS_bits by auto
qed

section \<open>A process in a call\<close>

text \<open>A process at an \<^verbatim>\<open>ecall\<close> with the given number in \<^verbatim>\<open>a7\<close>.\<close>

definition ktrap0 :: "u64 \<Rightarrow> ktrap" where
  "ktrap0 num = kvdisk.extend (upd_proc 0 (\<lambda>q. q\<lparr>tf := (tf q)\<lparr>a7 := num\<rparr>\<rparr>) kvdisk0)
     \<lparr>sstatus = 0, sepc = 0x1000, scause = 8, stval = 0, stvec = 0, satp = 0, rtime = 0, stimecmp = 0,
      kernelvec_pa = 0x80005000, plic_pending = [], plic_done = []\<rparr>"

lemma ktrap0_fields:
  "held (ktrap0 n) = []" "curproc (ktrap0 n) = Some 0" "length (ptable (ktrap0 n)) = NPROC" "sstatus (ktrap0 n) = 0"
  "scause (ktrap0 n) = 8" "sepc (ktrap0 n) = 0x1000" "pkilled (ptable (ktrap0 n) ! 0) = 0" "pid (ptable (ktrap0 n) ! 0) = 1"
  "a7 (tf (ptable (ktrap0 n) ! 0)) = n"
proof -
  have "ptable kvdisk0 = ptable kio0" by (simp add: kvdisk0_def kio.extend_def)
  then have "pkilled (ptable kvdisk0 ! 0) = 0" "pid (ptable kvdisk0 ! 0) = 1" by (simp_all add: kio0_fields proc0_def)
  moreover have "held (ktrap0 n) = held kvdisk0" "curproc (ktrap0 n) = curproc kvdisk0"
    "ptable (ktrap0 n) = (ptable kvdisk0)[0 := (ptable kvdisk0 ! 0)\<lparr>tf := (tf (ptable kvdisk0 ! 0))\<lparr>a7 := n\<rparr>\<rparr>]"
    by (simp_all add: ktrap0_def kvdisk.extend_def upd_proc_def)
  ultimately show "held (ktrap0 n) = []" "curproc (ktrap0 n) = Some 0" "length (ptable (ktrap0 n)) = NPROC"
    "pkilled (ptable (ktrap0 n) ! 0) = 0" "pid (ptable (ktrap0 n) ! 0) = 1" "a7 (tf (ptable (ktrap0 n) ! 0)) = n"
    using kvdisk0_facts by (simp_all add: NPROC_def)
  show "sstatus (ktrap0 n) = 0" "scause (ktrap0 n) = 8" "sepc (ktrap0 n) = 0x1000"
    by (simp_all add: ktrap0_def kvdisk.extend_def)
qed

lemma user_call_sample:
  "(\<exists>r t. usertrap (ktrap0 99) = Ok r t \<and> a0 (tf (ptable t ! 0)) = -1 \<and> sepc t = 0x1004) \<and>
   (\<exists>r t. usertrap (ktrap0 11) = Ok r t \<and> a0 (tf (ptable t ! 0)) = 1 \<and> sepc t = 0x1004)"
proof (rule conjI)
  note F = ktrap0_fields
  have l: "0 < length (ptable (ktrap0 n))" for n by (simp add: F NPROC_def)
  have c: "simple_call (ptable (ktrap0 99) ! 0)" "simple_result (ptable (ktrap0 99) ! 0) = -1"
    "simple_call (ptable (ktrap0 11) ! 0)" "simple_result (ptable (ktrap0 11) ! 0) = 1"
    by (simp_all add: simple_call_def simple_result_def F SYS_getpid_def Let_def)
  note R = user_call [OF F(1,2) l _ F(5,7), unfolded F(4)]
  show "\<exists>r t. usertrap (ktrap0 99) = Ok r t \<and> a0 (tf (ptable t ! 0)) = -1 \<and> sepc t = 0x1004"
    using R [OF _ c(1)] l by (auto simp: F c returning_def)
  show "\<exists>r t. usertrap (ktrap0 11) = Ok r t \<and> a0 (tf (ptable t ! 0)) = 1 \<and> sepc t = 0x1004"
    using R [OF _ c(3)] l by (auto simp: F c returning_def)
qed

end
