(* ===== verification/Asm.thy ===== *)
theory Asm
  imports Trap_Return
begin

text \<open>
  The assembly of the kernel, \<^verbatim>\<open>trampoline.S\<close>, \<^verbatim>\<open>swtch.S\<close>, \<^verbatim>\<open>kernelvec.S\<close> and \<^verbatim>\<open>entry.S\<close>, and the system call
  stubs of \<^verbatim>\<open>usys.S\<close>: instruction lists with the part of the machine they use, registers, three control
  registers and memory behind the page table in \<open>satp\<close>.
\<close>

section \<open>The machine\<close>

datatype reg = ZERO | RA | SP | GP | TP | T0 | T1 | T2 | S0 | S1 | A0 | A1 | A2 | A3 | A4 | A5 | A6 | A7
  | S2 | S3 | S4 | S5 | S6 | S7 | S8 | S9 | S10 | S11 | T3 | T4 | T5 | T6

datatype csr = SSCRATCH | SATP | MHARTID

record hart =
  rg :: "reg \<Rightarrow> u64"
  csrs :: "csr \<Rightarrow> u64"
  ram :: "u64 \<Rightarrow> u64"

text \<open>What the page table that \<open>satp\<close> names maps an address to; memory is a map from addresses of 8-byte words.\<close>

type_synonym pages = "u64 \<Rightarrow> u64 \<Rightarrow> u64 option"

datatype instr =
    Sd reg u64 reg
  | Ld reg u64 reg
  | Li reg u64
  | Addi reg reg u64
  | Add reg reg reg
  | Mul reg reg reg
  | Csrw csr reg
  | Csrr reg csr
  | Sfence_vma

text \<open>Register 0 reads as zero, and writes to it are lost.\<close>

definition rd :: "hart \<Rightarrow> reg \<Rightarrow> u64" where "rd m r = (if r = ZERO then 0 else rg m r)"

definition set_rg :: "reg \<Rightarrow> u64 \<Rightarrow> hart \<Rightarrow> hart" where
  "set_rg r v m = (if r = ZERO then m else m\<lparr>rg := (rg m)(r := v)\<rparr>)"

text \<open>An access the page table does not allow faults, here \<open>None\<close>.\<close>

fun step :: "pages \<Rightarrow> instr \<Rightarrow> hart \<Rightarrow> hart option" where
  "step pt (Sd r k b) m = map_option (\<lambda>a. m\<lparr>ram := (ram m)(a := rd m r)\<rparr>) (pt (csrs m SATP) (rd m b + k))"
| "step pt (Ld r k b) m = map_option (\<lambda>a. set_rg r (ram m a) m) (pt (csrs m SATP) (rd m b + k))"
| "step pt (Li r v) m = Some (set_rg r v m)"
| "step pt (Addi r x v) m = Some (set_rg r (rd m x + v) m)"
| "step pt (Add r x y) m = Some (set_rg r (rd m x + rd m y) m)"
| "step pt (Mul r x y) m = Some (set_rg r (rd m x * rd m y) m)"
| "step pt (Csrw c r) m = Some (m\<lparr>csrs := (csrs m)(c := rd m r)\<rparr>)"
| "step pt (Csrr r c) m = Some (set_rg r (csrs m c) m)"
| "step pt Sfence_vma m = Some m"

fun run :: "pages \<Rightarrow> instr list \<Rightarrow> hart \<Rightarrow> hart option" where
  "run pt [] m = Some m"
| "run pt (i # is) m = (case step pt i m of None \<Rightarrow> None | Some m \<Rightarrow> run pt is m)"

text \<open>
  How a sequence ends: with a jump, a return, or one of the instructions that change the mode. \<open>link\<close> is
  the address behind it.
\<close>

datatype jump = Jalr reg | Calls u64 | Ret | Sret | Ecall

datatype out = To u64 | Returns | Traps

fun exec :: "pages \<Rightarrow> u64 \<Rightarrow> instr list \<times> jump \<Rightarrow> hart \<Rightarrow> (out \<times> hart) option" where
  "exec pt link (is, j) m = (case run pt is m of None \<Rightarrow> None | Some m \<Rightarrow> Some (case j of
       Jalr r \<Rightarrow> (To (rd m r), set_rg RA link m)
     | Calls f \<Rightarrow> (To f, set_rg RA link m)
     | Ret \<Rightarrow> (To (rd m RA), m)
     | Sret \<Rightarrow> (Returns, m)
     | Ecall \<Rightarrow> (Traps, m)))"

section \<open>The code\<close>

definition saves :: "(reg \<times> u64) list \<Rightarrow> reg \<Rightarrow> instr list" where "saves ps b = map (\<lambda>(r, k). Sd r k b) ps"
definition loads :: "(reg \<times> u64) list \<Rightarrow> reg \<Rightarrow> instr list" where "loads ps b = map (\<lambda>(r, k). Ld r k b) ps"

text \<open>The registers but \<open>a0\<close> with their offsets in the trap frame.\<close>

definition user_slots :: "(reg \<times> u64) list" where
  "user_slots = [(RA, 40), (SP, 48), (GP, 56), (TP, 64), (T0, 72), (T1, 80), (T2, 88), (S0, 96), (S1, 104), (A1, 120), (A2, 128),
     (A3, 136), (A4, 144), (A5, 152), (A6, 160), (A7, 168), (S2, 176), (S3, 184), (S4, 192), (S5, 200), (S6, 208), (S7, 216),
     (S8, 224), (S9, 232), (S10, 240), (S11, 248), (T3, 256), (T4, 264), (T5, 272), (T6, 280)]"

definition uservec :: "instr list \<times> jump" where
  "uservec = ([Csrw SSCRATCH A0, Li A0 TRAPFRAME] @ saves user_slots A0 @
     [Csrr T0 SSCRATCH, Sd T0 112 A0, Ld SP 8 A0, Ld TP 32 A0, Ld T0 16 A0, Ld T1 0 A0, Sfence_vma, Csrw SATP T1, Sfence_vma], Jalr T0)"

definition userret :: "instr list \<times> jump" where
  "userret = ([Sfence_vma, Csrw SATP A0, Sfence_vma, Li A0 TRAPFRAME] @ loads user_slots A0 @ [Ld A0 112 A0], Sret)"

definition context_slots :: "(reg \<times> u64) list" where
  "context_slots = [(RA, 0), (SP, 8), (S0, 16), (S1, 24), (S2, 32), (S3, 40), (S4, 48), (S5, 56), (S6, 64), (S7, 72), (S8, 80),
     (S9, 88), (S10, 96), (S11, 104)]"

definition swtch :: "instr list \<times> jump" where
  "swtch = (saves context_slots A0 @ loads context_slots A1, Ret)"

definition kernel_slots :: "(reg \<times> u64) list" where
  "kernel_slots = [(RA, 0), (GP, 16), (TP, 24), (T0, 32), (T1, 40), (T2, 48), (A0, 72), (A1, 80), (A2, 88), (A3, 96), (A4, 104),
     (A5, 112), (A6, 120), (A7, 128), (T3, 216), (T4, 224), (T5, 232), (T6, 240)]"

text \<open>\<^verbatim>\<open>kernelvec\<close> up to its call of \<^verbatim>\<open>kerneltrap\<close> and from there on; \<open>tp\<close> is saved and not restored.\<close>

definition kernelvec_save :: "u64 \<Rightarrow> instr list \<times> jump" where
  "kernelvec_save handler = (Addi SP SP (-256) # saves kernel_slots SP, Calls handler)"

definition kernelvec_restore :: "instr list \<times> jump" where
  "kernelvec_restore = (loads (filter (\<lambda>(r, k). r \<noteq> TP) kernel_slots) SP @ [Addi SP SP 256], Sret)"

definition entry :: "u64 \<Rightarrow> u64 \<Rightarrow> instr list \<times> jump" where
  "entry stack f =
     ([Li SP stack, Li A0 (1024 * 4), Csrr A1 MHARTID, Addi A1 A1 1, Mul A0 A0 A1, Add SP SP A0], Calls f)"

text \<open>The stub of a system call, up to the trap; it returns with \<^verbatim>\<open>ret\<close>.\<close>

definition usys_stub :: "int \<Rightarrow> instr list \<times> jump" where
  "usys_stub num = ([Li A7 (of_int num)], Ecall)"

definition usys_return :: "instr list \<times> jump" where "usys_return = ([], Ret)"

section \<open>Saving and loading registers\<close>

definition stored :: "u64 \<Rightarrow> hart \<Rightarrow> (reg \<times> u64) list \<Rightarrow> (u64 \<Rightarrow> u64) \<Rightarrow> u64 \<Rightarrow> u64" where
  "stored p m ps f = fold (\<lambda>(r, k) f. f(p + k := rd m r)) ps f"

definition loaded :: "u64 \<Rightarrow> (u64 \<Rightarrow> u64) \<Rightarrow> (reg \<times> u64) list \<Rightarrow> (reg \<Rightarrow> u64) \<Rightarrow> reg \<Rightarrow> u64" where
  "loaded p f ps g = fold (\<lambda>(r, k) g. g(r := f (p + k))) ps g"

lemma run_append: "run pt (is @ js) m = (case run pt is m of None \<Rightarrow> None | Some m \<Rightarrow> run pt js m)"
  by (induction "is" arbitrary: m) (auto split: option.split)

lemma run_saves:
  "\<forall>(r, k)\<in>set ps. pt (csrs m SATP) (rd m b + k) = Some (p + k) \<Longrightarrow>
     run pt (saves ps b) m = Some (m\<lparr>ram := stored p m ps (ram m)\<rparr>)"
proof (induction ps arbitrary: m)
  case Nil
  then show ?case by (simp add: saves_def stored_def)
next
  case (Cons x ps)
  obtain r k where x: "x = (r, k)" by (cases x)
  let ?m = "m\<lparr>ram := (ram m)(p + k := rd m r)\<rparr>"
  have e: "rd ?m = rd m" by (simp add: rd_def fun_eq_iff)
  have "run pt (saves ps b) ?m = Some (?m\<lparr>ram := stored p ?m ps (ram ?m)\<rparr>)"
    using Cons.prems by (intro Cons.IH) (simp add: e)
  then show ?case using Cons.prems by (simp add: x saves_def stored_def e)
qed

lemma stored_other: "a \<notin> (\<lambda>(r, k). p + k) ` set ps \<Longrightarrow> stored p m ps f a = f a"
  unfolding stored_def by (induction ps arbitrary: f) auto

lemma stored_at: "distinct (map snd ps) \<Longrightarrow> (r, k) \<in> set ps \<Longrightarrow> stored p m ps f (p + k) = rd m r"
proof (induction ps arbitrary: f)
  case (Cons x ps)
  obtain r' k' where x: "x = (r', k')" by (cases x)
  have s: "stored p m (x # ps) f = stored p m ps (f(p + k' := rd m r'))" by (simp add: stored_def x)
  show ?case
  proof (cases "(r, k) \<in> set ps")
    case True
    then show ?thesis unfolding s using Cons by simp
  next
    case False
    then have e: "r' = r" "k' = k" using Cons.prems(2) by (simp_all add: x)
    have "p + k \<notin> (\<lambda>(r, k). p + k) ` set ps" using Cons.prems(1) by (force simp: x e)
    then show ?thesis unfolding s by (simp add: stored_other e)
  qed
qed simp

lemma run_loads:
  "b \<notin> fst ` set ps \<Longrightarrow> ZERO \<notin> fst ` set ps \<Longrightarrow> \<forall>(r, k)\<in>set ps. pt (csrs m SATP) (rd m b + k) = Some (p + k) \<Longrightarrow>
     run pt (loads ps b) m = Some (m\<lparr>rg := loaded p (ram m) ps (rg m)\<rparr>)"
proof (induction ps arbitrary: m)
  case Nil
  then show ?case by (simp add: loads_def loaded_def)
next
  case (Cons x ps)
  obtain r k where x: "x = (r, k)" by (cases x)
  let ?m = "m\<lparr>rg := (rg m)(r := ram m (p + k))\<rparr>"
  have rb: "r \<noteq> b" "r \<noteq> ZERO" using Cons.prems(1,2) by (auto simp: x)
  then have e: "rd ?m b = rd m b" by (simp add: rd_def)
  have "run pt (loads ps b) ?m = Some (?m\<lparr>rg := loaded p (ram ?m) ps (rg ?m)\<rparr>)"
    using Cons.prems by (intro Cons.IH) (auto simp: e)
  then show ?case using Cons.prems rb by (simp add: x loads_def loaded_def set_rg_def)
qed

lemma loaded_other: "r \<notin> fst ` set ps \<Longrightarrow> loaded p f ps g r = g r"
  unfolding loaded_def by (induction ps arbitrary: g) auto

lemma loaded_at: "distinct (map fst ps) \<Longrightarrow> (r, k) \<in> set ps \<Longrightarrow> loaded p f ps g r = f (p + k)"
proof (induction ps arbitrary: g)
  case (Cons x ps)
  obtain r' k' where x: "x = (r', k')" by (cases x)
  have s: "loaded p f (x # ps) g = loaded p f ps (g(r' := f (p + k')))" by (simp add: loaded_def x)
  show ?case
  proof (cases "(r, k) \<in> set ps")
    case True
    then show ?thesis unfolding s using Cons by simp
  next
    case False
    then have e: "r' = r" "k' = k" using Cons.prems(2) by (simp_all add: x)
    have "r \<notin> fst ` set ps" using Cons.prems(1) by (simp add: x e)
    then show ?thesis unfolding s by (simp add: loaded_other e)
  qed
qed simp

lemma slots_distinct:
  "distinct (map fst user_slots)" "distinct (map snd user_slots)" "distinct (map fst context_slots)" "distinct (map snd context_slots)"
  "distinct (map fst kernel_slots)" "distinct (map snd kernel_slots)"
  by (simp_all add: user_slots_def context_slots_def kernel_slots_def)


section \<open>The trampoline\<close>

lemma stored_cong: "(\<And>r k. (r, k) \<in> set ps \<Longrightarrow> rd m r = rd m' r) \<Longrightarrow> stored p m ps f = stored p m' ps f"
  unfolding stored_def by (intro fold_cong) auto

text \<open>The page table maps the page of the trap frame at \<open>TRAPFRAME\<close> to \<open>p\<close>.\<close>

definition maps_frame :: "pages \<Rightarrow> u64 \<Rightarrow> u64 \<Rightarrow> bool" where
  "maps_frame pt w p \<longleftrightarrow> (\<forall>x<4096. pt w (TRAPFRAME + x) = Some (p + x))"

lemma user_slots_range: "(r, k) \<in> set user_slots \<Longrightarrow> k < 4096 \<and> 40 \<le> k \<and> k \<noteq> 112 \<and> r \<noteq> A0 \<and> r \<noteq> ZERO"
  by (auto simp: user_slots_def)

lemma user_slots_cover: "r \<noteq> A0 \<Longrightarrow> r \<noteq> ZERO \<Longrightarrow> \<exists>k. (r, k) \<in> set user_slots"
  by (cases r) (simp_all add: user_slots_def)

lemma uservec_saves:
  assumes pt: "maps_frame pt (csrs m SATP) p"
  obtains n where "exec pt link uservec m = Some (To (ram m (p + 16)), n)"
    "\<And>r k. (r, k) \<in> set user_slots \<Longrightarrow> ram n (p + k) = rd m r" "ram n (p + 112) = rd m A0"
    "\<And>a. a \<noteq> p + 112 \<Longrightarrow> (\<forall>(r, k)\<in>set user_slots. a \<noteq> p + k) \<Longrightarrow> ram n a = ram m a"
    "csrs n SATP = ram m p" "rd n SP = ram m (p + 8)" "rd n TP = ram m (p + 32)" "rd n RA = link"
proof -
  let ?m1 = "m\<lparr>csrs := (csrs m)(SSCRATCH := rd m A0), rg := (rg m)(A0 := TRAPFRAME)\<rparr>"
  let ?f = "stored p m user_slots (ram m)"
  let ?m2 = "?m1\<lparr>ram := ?f\<rparr>"
  let ?m3 = "?m2\<lparr>ram := ?f(p + 112 := rd m A0), rg := (rg ?m1)(T0 := ?f (p + 16), SP := ?f (p + 8), TP := ?f (p + 32), T1 := ?f p),
    csrs := (csrs ?m1)(SATP := ?f p)\<rparr>"
  have off: "pt (csrs m SATP) (TRAPFRAME + x) = Some (p + x)" if "x < 4096" for x using pt that by (simp add: maps_frame_def)
  have r1: "rd ?m1 A0 = TRAPFRAME" "rd ?m1 r = rd m r" if "r \<noteq> A0" for r using that by (simp_all add: rd_def)
  have k: "\<forall>(r, k)\<in>set user_slots. pt (csrs ?m1 SATP) (rd ?m1 A0 + k) = Some (p + k)"
    using off user_slots_range by (auto simp: rd_def)
  have "stored p ?m1 user_slots (ram m) = ?f" by (rule stored_cong) (use user_slots_range r1(2) in force)
  then have s: "run pt (saves user_slots A0) ?m1 = Some ?m2" using run_saves [where pt = pt and m = ?m1 and b = A0 and p = p, OF k] by simp
  have low: "?f (p + k) = ram m (p + k)" if "k < 40" for k
  proof (rule stored_other)
    show "p + k \<notin> (\<lambda>(r, k). p + k) ` set user_slots" using user_slots_range that by fastforce
  qed
  have "run pt ([Csrr T0 SSCRATCH, Sd T0 112 A0, Ld SP 8 A0, Ld TP 32 A0, Ld T0 16 A0, Ld T1 0 A0, Sfence_vma, Csrw SATP T1, Sfence_vma]) ?m2 = Some ?m3"
    using off [of 112] off [of 8] off [of 32] off [of 16] off [of 0] by (simp add: rd_def set_rg_def fun_upd_twist)
  then have "exec pt link uservec m = Some (To (ram m (p + 16)), set_rg RA link ?m3)"
    using s low [of 16] by (simp add: uservec_def run_append set_rg_def rd_def)
  moreover have "ram (set_rg RA link ?m3) (p + k) = rd m r" if "(r, k) \<in> set user_slots" for r k
    using stored_at [OF slots_distinct(2) that, of p m "ram m"] user_slots_range [OF that] by (simp add: set_rg_def)
  moreover have "ram (set_rg RA link ?m3) a = ram m a" if "a \<noteq> p + 112" "\<forall>(r, k)\<in>set user_slots. a \<noteq> p + k" for a
  proof -
    have "a \<notin> (\<lambda>(r, k). p + k) ` set user_slots" using that(2) by auto
    then show ?thesis using that(1) stored_other [of a p user_slots m "ram m"] by (simp add: set_rg_def)
  qed
  ultimately show ?thesis
    using low [of 0] low [of 8] low [of 32] by (intro that [of "set_rg RA link ?m3"]) (auto simp: set_rg_def rd_def)
qed


lemma userret_restores:
  assumes pt: "maps_frame pt (rd m A0) p"
  obtains n where "exec pt link userret m = Some (Returns, n)" "csrs n SATP = rd m A0" "ram n = ram m"
    "\<And>r k. (r, k) \<in> set user_slots \<Longrightarrow> rd n r = ram m (p + k)" "rd n A0 = ram m (p + 112)"
proof -
  let ?m1 = "m\<lparr>csrs := (csrs m)(SATP := rd m A0), rg := (rg m)(A0 := TRAPFRAME)\<rparr>"
  let ?g = "loaded p (ram m) user_slots (rg ?m1)"
  let ?m2 = "?m1\<lparr>rg := ?g\<rparr>"
  have off: "pt (rd m A0) (TRAPFRAME + x) = Some (p + x)" if "x < 4096" for x using pt that by (simp add: maps_frame_def)
  have k: "\<forall>(r, k)\<in>set user_slots. pt (csrs ?m1 SATP) (rd ?m1 A0 + k) = Some (p + k)"
    using off user_slots_range by (auto simp: rd_def)
  have b: "A0 \<notin> fst ` set user_slots" "ZERO \<notin> fst ` set user_slots" using user_slots_range by fastforce+
  have s: "run pt (loads user_slots A0) ?m1 = Some ?m2"
    using run_loads [where pt = pt and m = ?m1 and p = p, OF b k] by simp
  have g: "?g A0 = TRAPFRAME" using loaded_other [OF b(1)] by simp
  then have "exec pt link userret m = Some (Returns, set_rg A0 (ram m (p + 112)) ?m2)"
    using s off [of 112] by (simp add: userret_def run_append set_rg_def rd_def)
  moreover have "rd (set_rg A0 (ram m (p + 112)) ?m2) r = ram m (p + k)" if "(r, k) \<in> set user_slots" for r k
    using loaded_at [OF slots_distinct(1) that] user_slots_range [OF that] by (simp add: set_rg_def rd_def)
  ultimately show ?thesis by (intro that [of "set_rg A0 (ram m (p + 112)) ?m2"]) (simp_all add: set_rg_def rd_def)
qed

text \<open>The registers in a trap frame, and a trap frame as words of memory.\<close>

definition saved :: "trapframe \<Rightarrow> (reg \<Rightarrow> u64) \<Rightarrow> trapframe" where
  "saved f g = f\<lparr>tf_ra := g RA, tf_sp := g SP, tf_gp := g GP, tf_tp := g TP, tf_t0 := g T0, tf_t1 := g T1, tf_t2 := g T2,
     tf_s0 := g S0, tf_s1 := g S1, a0 := g A0, a1 := g A1, a2 := g A2, a3 := g A3, a4 := g A4, a5 := g A5, a6 := g A6, a7 := g A7,
     tf_s2 := g S2, tf_s3 := g S3, tf_s4 := g S4, tf_s5 := g S5, tf_s6 := g S6, tf_s7 := g S7, tf_s8 := g S8, tf_s9 := g S9,
     tf_s10 := g S10, tf_s11 := g S11, tf_t3 := g T3, tf_t4 := g T4, tf_t5 := g T5, tf_t6 := g T6\<rparr>"

definition tf_words :: "trapframe \<Rightarrow> u64 list" where
  "tf_words f = [kernel_satp f, kernel_sp f, kernel_trap f, epc f, kernel_hartid f, tf_ra f, tf_sp f, tf_gp f, tf_tp f,
     tf_t0 f, tf_t1 f, tf_t2 f, tf_s0 f, tf_s1 f, a0 f, a1 f, a2 f, a3 f, a4 f, a5 f, a6 f, a7 f, tf_s2 f, tf_s3 f, tf_s4 f,
     tf_s5 f, tf_s6 f, tf_s7 f, tf_s8 f, tf_s9 f, tf_s10 f, tf_s11 f, tf_t3 f, tf_t4 f, tf_t5 f, tf_t6 f]"

definition frame_at :: "(u64 \<Rightarrow> u64) \<Rightarrow> u64 \<Rightarrow> trapframe \<Rightarrow> bool" where
  "frame_at w p f \<longleftrightarrow> map (\<lambda>k. w (p + k)) [0, 8, 16, 24, 32, 40, 48, 56, 64, 72, 80, 88, 96, 104, 112, 120, 128, 136, 144, 152,
     160, 168, 176, 184, 192, 200, 208, 216, 224, 232, 240, 248, 256, 264, 272, 280] = tf_words f"

fun tf_reg :: "trapframe \<Rightarrow> reg \<Rightarrow> u64" where
  "tf_reg f ZERO = 0" | "tf_reg f RA = tf_ra f" | "tf_reg f SP = tf_sp f" | "tf_reg f GP = tf_gp f" | "tf_reg f TP = tf_tp f"
| "tf_reg f T0 = tf_t0 f" | "tf_reg f T1 = tf_t1 f" | "tf_reg f T2 = tf_t2 f" | "tf_reg f S0 = tf_s0 f" | "tf_reg f S1 = tf_s1 f"
| "tf_reg f A0 = a0 f" | "tf_reg f A1 = a1 f" | "tf_reg f A2 = a2 f" | "tf_reg f A3 = a3 f" | "tf_reg f A4 = a4 f"
| "tf_reg f A5 = a5 f" | "tf_reg f A6 = a6 f" | "tf_reg f A7 = a7 f" | "tf_reg f S2 = tf_s2 f" | "tf_reg f S3 = tf_s3 f"
| "tf_reg f S4 = tf_s4 f" | "tf_reg f S5 = tf_s5 f" | "tf_reg f S6 = tf_s6 f" | "tf_reg f S7 = tf_s7 f" | "tf_reg f S8 = tf_s8 f"
| "tf_reg f S9 = tf_s9 f" | "tf_reg f S10 = tf_s10 f" | "tf_reg f S11 = tf_s11 f" | "tf_reg f T3 = tf_t3 f"
| "tf_reg f T4 = tf_t4 f" | "tf_reg f T5 = tf_t5 f" | "tf_reg f T6 = tf_t6 f"

lemma frame_reg: "frame_at w p f \<Longrightarrow> (r, k) \<in> set user_slots \<Longrightarrow> w (p + k) = tf_reg f r"
  by (auto simp: frame_at_def tf_words_def user_slots_def)

lemma frame_kernel:
  "frame_at w p f \<Longrightarrow> w p = kernel_satp f \<and> w (p + 8) = kernel_sp f \<and> w (p + 16) = kernel_trap f \<and> w (p + 24) = epc f \<and>
     w (p + 32) = kernel_hartid f \<and> w (p + 112) = a0 f"
  by (simp add: frame_at_def tf_words_def)

lemma tf_reg_saved: "tf_reg (saved f g) r = (if r = ZERO then 0 else g r)"
  by (cases r) (simp_all add: saved_def)

lemma uservec_frame:
  assumes pt: "maps_frame pt (csrs m SATP) p" and f: "frame_at (ram m) p f"
  obtains n where "exec pt link uservec m = Some (To (kernel_trap f), n)" "frame_at (ram n) p (saved f (rd m))"
    "csrs n SATP = kernel_satp f" "rd n SP = kernel_sp f" "rd n TP = kernel_hartid f" "rd n RA = link"
proof -
  note F = frame_kernel [OF f]
  obtain n where n: "exec pt link uservec m = Some (To (ram m (p + 16)), n)"
    "\<And>r k. (r, k) \<in> set user_slots \<Longrightarrow> ram n (p + k) = rd m r" "ram n (p + 112) = rd m A0"
    "\<And>a. a \<noteq> p + 112 \<Longrightarrow> (\<forall>(r, k)\<in>set user_slots. a \<noteq> p + k) \<Longrightarrow> ram n a = ram m a"
    "csrs n SATP = ram m p" "rd n SP = ram m (p + 8)" "rd n TP = ram m (p + 32)" "rd n RA = link"
    by (rule uservec_saves [OF pt]) blast
  have low: "ram n (p + k) = ram m (p + k)" if "k < 40" for k
    using that user_slots_range by (intro n(4)) fastforce+
  have all: "list_all (\<lambda>(r, k). ram n (p + k) = rd m r) user_slots" using n(2) by (auto simp: list_all_iff)
  have "frame_at (ram n) p (saved f (rd m))"
    using all [unfolded user_slots_def] n(3) low [of 0] low [of 8] low [of 16] low [of 24] low [of 32] F
    by (simp add: frame_at_def tf_words_def saved_def)
  then show ?thesis using n(1,5-8) F that by simp
qed


lemma userret_frame:
  assumes pt: "maps_frame pt (rd m A0) p" and f: "frame_at (ram m) p f"
  obtains n where "exec pt link userret m = Some (Returns, n)" "csrs n SATP = rd m A0" "ram n = ram m" "\<And>r. rd n r = tf_reg f r"
proof -
  obtain n where n: "exec pt link userret m = Some (Returns, n)" "csrs n SATP = rd m A0" "ram n = ram m"
    "\<And>r k. (r, k) \<in> set user_slots \<Longrightarrow> rd n r = ram m (p + k)" "rd n A0 = ram m (p + 112)"
    by (rule userret_restores [OF pt]) blast
  have "rd n r = tf_reg f r" for r
  proof -
    consider "r = ZERO" | "r = A0" | k where "(r, k) \<in> set user_slots" using user_slots_cover by blast
    then show ?thesis
    proof cases
      case 1
      then show ?thesis by (simp add: rd_def)
    next
      case 2
      then show ?thesis using n(5) frame_kernel [OF f] by simp
    next
      case 3
      then show ?thesis using n(4) frame_reg [OF f] by metis
    qed
  qed
  then show ?thesis using n(1-3) that by blast
qed

section \<open>Switching and kernel traps\<close>

definition ctx_words :: "kcontext \<Rightarrow> u64 list" where
  "ctx_words c = [ctx_ra c, ctx_sp c, ctx_s0 c, ctx_s1 c, ctx_s2 c, ctx_s3 c, ctx_s4 c, ctx_s5 c, ctx_s6 c, ctx_s7 c, ctx_s8 c,
     ctx_s9 c, ctx_s10 c, ctx_s11 c]"

definition context_at :: "(u64 \<Rightarrow> u64) \<Rightarrow> u64 \<Rightarrow> kcontext \<Rightarrow> bool" where
  "context_at w p c \<longleftrightarrow> map (\<lambda>k. w (p + k)) [0, 8, 16, 24, 32, 40, 48, 56, 64, 72, 80, 88, 96, 104] = ctx_words c"

definition context_of :: "(reg \<Rightarrow> u64) \<Rightarrow> kcontext" where
  "context_of g = \<lparr>ctx_ra = g RA, ctx_sp = g SP, ctx_s0 = g S0, ctx_s1 = g S1, ctx_s2 = g S2, ctx_s3 = g S3, ctx_s4 = g S4,
     ctx_s5 = g S5, ctx_s6 = g S6, ctx_s7 = g S7, ctx_s8 = g S8, ctx_s9 = g S9, ctx_s10 = g S10, ctx_s11 = g S11\<rparr>"

text \<open>The kernel's page table maps the two contexts, which do not overlap.\<close>

definition maps_context :: "pages \<Rightarrow> u64 \<Rightarrow> u64 \<Rightarrow> bool" where
  "maps_context pt w a \<longleftrightarrow> (\<forall>x<112. pt w (a + x) = Some (a + x))"

lemma context_slots_range: "(r, k) \<in> set context_slots \<Longrightarrow> k < 112 \<and> r \<noteq> A0 \<and> r \<noteq> A1 \<and> r \<noteq> ZERO"
  by (auto simp: context_slots_def)

lemma context_by_slots:
  "list_all (\<lambda>(r, k). g r = w (q + k)) context_slots \<Longrightarrow> context_at w q c \<Longrightarrow> context_of g = c"
  "list_all (\<lambda>(r, k). w (q + k) = g r) context_slots \<Longrightarrow> context_at w q (context_of g)"
  by (cases c) (simp_all add: context_slots_def context_of_def context_at_def ctx_words_def)

lemma swtch_switches:
  assumes pt: "maps_context pt (csrs m SATP) (rd m A0)" "maps_context pt (csrs m SATP) (rd m A1)"
    and new: "context_at (ram m) (rd m A1) c" and apart: "\<And>x y. x < 112 \<Longrightarrow> y < 112 \<Longrightarrow> rd m A0 + x \<noteq> rd m A1 + y"
  obtains n where "exec pt link swtch m = Some (To (ctx_ra c), n)" "context_at (ram n) (rd m A0) (context_of (rd m))"
    "context_of (rd n) = c" "\<And>a. (\<forall>x<112. a \<noteq> rd m A0 + x) \<Longrightarrow> ram n a = ram m a" "csrs n = csrs m"
    "\<And>r. r \<notin> fst ` set context_slots \<Longrightarrow> rd n r = rd m r"
proof -
  let ?p = "rd m A0" and ?q = "rd m A1"
  let ?f = "stored ?p m context_slots (ram m)"
  let ?m1 = "m\<lparr>ram := ?f\<rparr>"
  let ?n = "?m1\<lparr>rg := loaded ?q ?f context_slots (rg m)\<rparr>"
  have k0: "\<forall>(r, k)\<in>set context_slots. pt (csrs m SATP) (rd m A0 + k) = Some (?p + k)"
    and k1: "\<forall>(r, k)\<in>set context_slots. pt (csrs ?m1 SATP) (rd ?m1 A1 + k) = Some (?q + k)"
    using pt context_slots_range by (auto simp: maps_context_def rd_def)
  have b: "A1 \<notin> fst ` set context_slots" "ZERO \<notin> fst ` set context_slots" using context_slots_range by fastforce+
  have run: "run pt (fst swtch) m = Some ?n"
    using run_saves [where pt = pt and m = m and b = A0 and p = ?p, OF k0]
      run_loads [where pt = pt and m = ?m1 and p = ?q, OF b k1] by (simp add: swtch_def run_append)
  have q: "?f (?q + k) = ram m (?q + k)" if "k < 112" for k
    by (rule stored_other) (use apart [OF _ that] context_slots_range in fastforce)
  have ld: "list_all (\<lambda>(r, k). rd ?n r = ram m (?q + k)) context_slots"
    using loaded_at [OF slots_distinct(3)] q context_slots_range by (auto simp: list_all_iff rd_def)
  have st: "list_all (\<lambda>(r, k). ?f (?p + k) = rd m r) context_slots"
    using stored_at [OF slots_distinct(4)] by (auto simp: list_all_iff)
  have ctx: "context_of (rd ?n) = c" by (rule context_by_slots(1) [OF ld new])
  have old: "context_at (ram ?n) ?p (context_of (rd m))" using context_by_slots(2) [OF st] by simp
  have "rd ?n RA = ctx_ra c" using arg_cong [OF ctx, of ctx_ra] by (simp add: context_of_def)
  then have ex: "exec pt link swtch m = Some (To (ctx_ra c), ?n)" using run by (simp add: swtch_def)
  show ?thesis
  proof (rule that [OF ex old ctx])
    show "ram ?n a = ram m a" if "\<forall>x<112. a \<noteq> ?p + x" for a
      using stored_other [of a ?p context_slots m "ram m"] that context_slots_range by fastforce
    show "rd ?n r = rd m r" if "r \<notin> fst ` set context_slots" for r
      using loaded_other [OF that] by (simp add: rd_def)
  qed simp
qed


text \<open>
  An interrupt of the kernel restores all registers but \<open>tp\<close>, provided the handler keeps to the calling
  convention: stack pointer and callee-saved registers as they were, and the caller's stack.
\<close>

definition callee_saved :: "reg set" where "callee_saved = {S0, S1, S2, S3, S4, S5, S6, S7, S8, S9, S10, S11}"

lemma kernel_slots_range: "(r, k) \<in> set kernel_slots \<Longrightarrow> k < 256 \<and> r \<noteq> SP \<and> r \<noteq> ZERO \<and> r \<notin> callee_saved"
  by (auto simp: kernel_slots_def callee_saved_def)

lemma kernel_slots_cover: "r \<noteq> SP \<Longrightarrow> r \<noteq> ZERO \<Longrightarrow> r \<notin> callee_saved \<Longrightarrow> \<exists>k. (r, k) \<in> set kernel_slots"
  by (cases r) (simp_all add: kernel_slots_def callee_saved_def)

lemma kernelvec_saves:
  assumes pt: "\<forall>x<256. pt (csrs m SATP) (rd m SP - 256 + x) = Some (q + x)"
  obtains n where "exec pt link (kernelvec_save h) m = Some (To h, n)" "rd n SP = rd m SP - 256" "csrs n = csrs m" "rd n RA = link"
    "\<And>r k. (r, k) \<in> set kernel_slots \<Longrightarrow> ram n (q + k) = rd m r" "\<And>r. r \<in> callee_saved \<Longrightarrow> rd n r = rd m r"
proof -
  let ?m1 = "m\<lparr>rg := (rg m)(SP := rd m SP - 256)\<rparr>"
  let ?n = "set_rg RA link (?m1\<lparr>ram := stored q ?m1 kernel_slots (ram m)\<rparr>)"
  have k: "\<forall>(r, k)\<in>set kernel_slots. pt (csrs ?m1 SATP) (rd ?m1 SP + k) = Some (q + k)"
    using pt kernel_slots_range by (auto simp: rd_def)
  have r: "rd ?m1 r = rd m r" if "r \<noteq> SP" for r using that by (simp add: rd_def)
  have "exec pt link (kernelvec_save h) m = Some (To h, ?n)"
    using run_saves [where pt = pt and m = ?m1 and b = SP and p = q, OF k] by (simp add: kernelvec_save_def set_rg_def)
  moreover have "ram ?n (q + k) = rd m r" if "(r, k) \<in> set kernel_slots" for r k
    using stored_at [OF slots_distinct(6) that] kernel_slots_range [OF that] r by (simp add: set_rg_def)
  moreover have "rd ?n r = rd m r" if "r \<in> callee_saved" for r
    using that by (auto simp: rd_def set_rg_def callee_saved_def)
  ultimately show ?thesis by (intro that [of ?n]) (simp_all add: set_rg_def rd_def)
qed

lemma kernelvec_restores:
  assumes pt: "\<forall>x<256. pt (csrs m SATP) (rd m SP + x) = Some (q + x)"
  obtains n where "exec pt link kernelvec_restore m = Some (Returns, n)" "rd n SP = rd m SP + 256" "rd n TP = rd m TP" "ram n = ram m"
    "\<And>r k. (r, k) \<in> set kernel_slots \<Longrightarrow> r \<noteq> TP \<Longrightarrow> rd n r = ram m (q + k)" "\<And>r. r \<in> callee_saved \<Longrightarrow> rd n r = rd m r"
proof -
  let ?ps = "filter (\<lambda>(r, k). r \<noteq> TP) kernel_slots"
  let ?m1 = "m\<lparr>rg := loaded q (ram m) ?ps (rg m)\<rparr>"
  let ?n = "set_rg SP (rd m SP + 256) ?m1"
  have k: "\<forall>(r, k)\<in>set ?ps. pt (csrs m SATP) (rd m SP + k) = Some (q + k)" using pt kernel_slots_range by auto
  have b: "SP \<notin> fst ` set ?ps" "ZERO \<notin> fst ` set ?ps" "TP \<notin> fst ` set ?ps" by (simp_all add: kernel_slots_def)
  have c: "r \<notin> fst ` set ?ps" if "r \<in> callee_saved" for r using kernel_slots_range that by fastforce
  have d: "distinct (map fst ?ps)" by (simp add: kernel_slots_def)
  have "loaded q (ram m) ?ps (rg m) SP = rg m SP" by (rule loaded_other [OF b(1)])
  moreover have "run pt (loads ?ps SP) m = Some ?m1"
    by (rule run_loads [where pt = pt and m = m and b = SP and p = q, OF b(1,2) k])
  ultimately have "exec pt link kernelvec_restore m = Some (Returns, ?n)"
    by (simp add: kernelvec_restore_def run_append rd_def)
  moreover have "rd ?n r = ram m (q + k)" if "(r, k) \<in> set kernel_slots" "r \<noteq> TP" for r k
    using loaded_at [OF d, of r k] kernel_slots_range [OF that(1)] that by (simp add: set_rg_def rd_def)
  moreover have "rd ?n TP = rd m TP"
    using loaded_other [OF b(3)] by (simp add: set_rg_def rd_def)
  moreover have "rd ?n r = rd m r" if "r \<in> callee_saved" for r
  proof -
    have "r \<noteq> SP" using that by (auto simp: callee_saved_def)
    then show ?thesis using loaded_other [OF c [OF that]] by (simp add: set_rg_def rd_def)
  qed
  ultimately show ?thesis by (intro that [of ?n]) (simp_all add: set_rg_def rd_def)
qed

lemma kernelvec_round_trip:
  assumes pt: "\<forall>x<256. pt (csrs m SATP) (rd m SP - 256 + x) = Some (q + x)"
  shows "\<exists>n. exec pt link (kernelvec_save h) m = Some (To h, n) \<and> rd n RA = link \<and>
    (\<forall>n'. rd n' SP = rd n SP \<and> csrs n' SATP = csrs n SATP \<and> (\<forall>x<256. ram n' (q + x) = ram n (q + x)) \<and>
        (\<forall>r\<in>callee_saved. rd n' r = rd n r) \<longrightarrow>
      (\<exists>m'. exec pt link' kernelvec_restore n' = Some (Returns, m') \<and> rd m' TP = rd n' TP \<and> (\<forall>r. r \<noteq> TP \<longrightarrow> rd m' r = rd m r)))"
proof -
  obtain n where n: "exec pt link (kernelvec_save h) m = Some (To h, n)" "rd n SP = rd m SP - 256" "csrs n = csrs m" "rd n RA = link"
    "\<And>r k. (r, k) \<in> set kernel_slots \<Longrightarrow> ram n (q + k) = rd m r" "\<And>r. r \<in> callee_saved \<Longrightarrow> rd n r = rd m r"
    by (rule kernelvec_saves [where pt = pt and m = m and q = q and link = link and h = h, OF pt]) blast
  have "\<exists>m'. exec pt link' kernelvec_restore n' = Some (Returns, m') \<and> rd m' TP = rd n' TP \<and> (\<forall>r. r \<noteq> TP \<longrightarrow> rd m' r = rd m r)"
    if n': "rd n' SP = rd n SP" "csrs n' SATP = csrs n SATP" "\<forall>x<256. ram n' (q + x) = ram n (q + x)" "\<forall>r\<in>callee_saved. rd n' r = rd n r" for n'
  proof -
    have pt': "\<forall>x<256. pt (csrs n' SATP) (rd n' SP + x) = Some (q + x)" using pt n(2,3) n'(1,2) by simp
    obtain m' where m': "exec pt link' kernelvec_restore n' = Some (Returns, m')"
      "rd m' SP = rd n' SP + 256" "rd m' TP = rd n' TP" "\<And>r k. (r, k) \<in> set kernel_slots \<Longrightarrow> r \<noteq> TP \<Longrightarrow> rd m' r = ram n' (q + k)"
      "\<And>r. r \<in> callee_saved \<Longrightarrow> rd m' r = rd n' r"
      by (rule kernelvec_restores [where pt = pt and m = n' and q = q and link = link', OF pt']) blast
    have "rd m' r = rd m r" if "r \<noteq> TP" for r
    proof -
      consider "r = ZERO" | "r = SP" | "r \<in> callee_saved" | k where "(r, k) \<in> set kernel_slots" using kernel_slots_cover by blast
      then show ?thesis
      proof cases
        case 4
        then show ?thesis using m'(4) n(5) n'(3) kernel_slots_range that by metis
      qed (use m' n n' in \<open>simp_all add: rd_def [of _ ZERO]\<close>)
    qed
    then show ?thesis using m'(1,3) by blast
  qed
  then show ?thesis using n(1,4) by blast
qed

lemma entry_stack:
  "\<exists>n. exec pt link (entry stack f) m = Some (To f, n) \<and> rd n SP = stack + (csrs m MHARTID + 1) * 4096"
  by (simp add: entry_def set_rg_def rd_def algebra_simps)


section \<open>A system call from user code and back\<close>

lemma a7_saved: "a7 (saved f g) = g A7" by (simp add: saved_def)

lemma saved_back:
  "tf_reg (returning s q ((saved f g)\<lparr>epc := e, a0 := v\<rparr>)) r = (if r = A0 then v else if r = ZERO then 0 else g r)"
  by (cases r) (simp_all add: returning_def saved_def)

text \<open>
  C13. A user program's call of \<^verbatim>\<open>getpid()\<close>, from the stub's first instruction over trampoline, \<^verbatim>\<open>usertrap\<close> and
  back to the caller: no step faults; the trampoline hands the kernel the process's registers in its trap
  frame, with the kernel's stack, page table and entry point from there; and whatever the kernel does to
  memory except the trap frame, the process continues behind its \<^verbatim>\<open>ecall\<close>, on its own page table, with the
  process id in \<^verbatim>\<open>a0\<close>, the call's number in \<^verbatim>\<open>a7\<close> and every other register as it was, and returns to where
  \<^verbatim>\<open>ra\<close> points.
\<close>

theorem getpid_from_user_code:
  fixes s :: "'x ktrap_scheme"
  assumes "maps_frame pt (csrs m SATP) p" "frame_at (ram m) p f"
    "held s = []" "curproc s = Some q" "q < length (ptable s)" "sstatus s AND SSTATUS_SPP = 0" "scause s = 8"
    "pkilled (ptable s ! q) = 0" "MAKE_SATP (pagetable (ptable s ! q)) = csrs m SATP"
    "tf (ptable s ! q) = saved f ((rd m)(A7 := of_int SYS_getpid))"
  shows "\<exists>m1 n t. exec pt link (usys_stub SYS_getpid) m = Some (Traps, m1) \<and>
    exec pt link1 uservec m1 = Some (To (kernel_trap f), n) \<and> frame_at (ram n) p (tf (ptable s ! q)) \<and>
    rd n SP = kernel_sp f \<and> rd n TP = kernel_hartid f \<and> csrs n SATP = kernel_satp f \<and> rd n RA = link1 \<and>
    usertrap s = Ok (csrs m SATP) t \<and> sepc t = sepc s + 4 \<and>
    (\<forall>n'. rd n' A0 = csrs m SATP \<and> frame_at (ram n') p (tf (ptable t ! q)) \<longrightarrow>
      (\<exists>m2. exec pt link2 userret n' = Some (Returns, m2) \<and> csrs m2 SATP = csrs m SATP \<and>
        (\<forall>r. rd m2 r = (if r = A0 then of_int (pid (ptable s ! q)) else if r = A7 then 11 else rd m r)) \<and>
        exec pt link3 usys_return m2 = Some (To (rd m RA), m2)))"
proof -
  let ?m1 = "m\<lparr>rg := (rg m)(A7 := of_int SYS_getpid)\<rparr>" and ?g = "(rd m)(A7 := of_int SYS_getpid)"
  have stub: "exec pt link (usys_stub SYS_getpid) m = Some (Traps, ?m1)" by (simp add: usys_stub_def set_rg_def)
  have g: "rd ?m1 = ?g" by (simp add: rd_def fun_eq_iff)
  have m1: "maps_frame pt (csrs ?m1 SATP) p" "frame_at (ram ?m1) p f" using assms(1,2) by simp_all
  obtain n where n: "exec pt link1 uservec ?m1 = Some (To (kernel_trap f), n)" "frame_at (ram n) p (saved f (rd ?m1))"
    "csrs n SATP = kernel_satp f" "rd n SP = kernel_sp f" "rd n TP = kernel_hartid f" "rd n RA = link1"
    by (rule uservec_frame [OF m1, of link1]) blast
  have a7: "a7 (tf (ptable s ! q)) = 11" by (simp add: assms(10) a7_saved SYS_getpid_def)
  have call: "simple_call (ptable s ! q)" "simple_result (ptable s ! q) = of_int (pid (ptable s ! q))"
    by (simp_all add: simple_call_def simple_result_def a7 SYS_getpid_def)
  from user_call [OF assms(3-8) call(1)] obtain t where
    t: "usertrap s = Ok (csrs m SATP) t" "sepc t = sepc s + 4" "tf (ptable t ! q) = returning s (ptable s ! q)
      ((saved f ?g)\<lparr>epc := sepc s + 4, a0 := of_int (pid (ptable s ! q))\<rparr>)"
    using assms(5,9,10) call(2) by auto
  have "\<exists>m2. exec pt link2 userret n' = Some (Returns, m2) \<and> csrs m2 SATP = csrs m SATP \<and>
      (\<forall>r. rd m2 r = (if r = A0 then of_int (pid (ptable s ! q)) else if r = A7 then 11 else rd m r)) \<and>
      exec pt link3 usys_return m2 = Some (To (rd m RA), m2)"
    if n': "rd n' A0 = csrs m SATP" "frame_at (ram n') p (tf (ptable t ! q))" for n'
  proof -
    have "maps_frame pt (rd n' A0) p" using assms(1) n'(1) by simp
    then obtain m2 where m2: "exec pt link2 userret n' = Some (Returns, m2)" "csrs m2 SATP = rd n' A0" "\<And>r. rd m2 r = tf_reg (tf (ptable t ! q)) r"
      by (rule userret_frame [OF _ n'(2)]) blast
    have "rd m2 r = (if r = A0 then of_int (pid (ptable s ! q)) else if r = A7 then 11 else rd m r)" for r
      unfolding m2(3) t(3) saved_back by (simp add: SYS_getpid_def rd_def)
    then show ?thesis using m2(1,2) n'(1) by (intro exI [of _ m2]) (simp add: usys_return_def)
  qed
  then show ?thesis using stub n t(1,2) assms(10) g by (intro exI [of _ ?m1] exI [of _ n] exI [of _ t]) simp
qed


text \<open>The process of \<open>ktrap0 11\<close> with the registers of its trap frame, at the stub of \<^verbatim>\<open>getpid\<close>.\<close>

definition call_frame :: trapframe where "call_frame = tf (ptable (ktrap0 11) ! 0)"

definition call_hart :: hart where
  "call_hart = \<lparr>rg = tf_reg call_frame, csrs = (\<lambda>_. MAKE_SATP (pagetable (ptable (ktrap0 11) ! 0))),
     ram = (\<lambda>a. tf_words call_frame ! (unat a div 8))\<rparr>"

lemma saved_self: "saved f (tf_reg f) = f" by (cases f) (simp add: saved_def)

lemma frame_self: "frame_at (\<lambda>a. tf_words f ! (unat a div 8)) 0 f"
  by (simp add: frame_at_def tf_words_def)

theorem getpid_from_user_code_witness:
  "\<exists>m1 n t. exec (\<lambda>_ v. Some (v - TRAPFRAME)) 0 (usys_stub SYS_getpid) call_hart = Some (Traps, m1) \<and>
     exec (\<lambda>_ v. Some (v - TRAPFRAME)) 0 uservec m1 = Some (To (kernel_trap call_frame), n) \<and>
     usertrap (ktrap0 11) = Ok (csrs call_hart SATP) t \<and> sepc t = 0x1004 \<and>
     (\<exists>n' m2. exec (\<lambda>_ v. Some (v - TRAPFRAME)) 0 userret n' = Some (Returns, m2) \<and> rd m2 A0 = 1 \<and> rd m2 S11 = rd call_hart S11)"
proof -
  note K = ktrap0_fields
  let ?pt = "\<lambda>_ :: u64. \<lambda>v. Some (v - TRAPFRAME)"
  have l: "0 < length (ptable (ktrap0 11))" by (simp add: K NPROC_def)
  have rd: "rd call_hart = tf_reg call_frame" by (simp add: rd_def call_hart_def fun_eq_iff)
  have mf: "maps_frame ?pt w 0" for w by (simp add: maps_frame_def)
  have fr: "frame_at (ram call_hart) 0 call_frame" using frame_self by (simp add: call_hart_def)
  have a7: "(tf_reg call_frame)(A7 := of_int SYS_getpid) = tf_reg call_frame"
    using K(9) [of 11] by (simp add: fun_eq_iff SYS_getpid_def call_frame_def)
  have tf: "tf (ptable (ktrap0 11) ! 0) = saved call_frame ((rd call_hart)(A7 := of_int SYS_getpid))"
    unfolding rd a7 saved_self by (simp add: call_frame_def)
  have sp: "sstatus (ktrap0 11) AND SSTATUS_SPP = 0" by (simp add: K)
  have sa: "MAKE_SATP (pagetable (ptable (ktrap0 11) ! 0)) = csrs call_hart SATP" by (simp add: call_hart_def)
  obtain m1 n t where m: "exec ?pt 0 (usys_stub SYS_getpid) call_hart = Some (Traps, m1)"
    "exec ?pt 0 uservec m1 = Some (To (kernel_trap call_frame), n)" "usertrap (ktrap0 11) = Ok (csrs call_hart SATP) t" "sepc t = 0x1000 + 4"
    and ends: "\<forall>n'. rd n' A0 = csrs call_hart SATP \<and> frame_at (ram n') 0 (tf (ptable t ! 0)) \<longrightarrow>
      (\<exists>m2. exec ?pt 0 userret n' = Some (Returns, m2) \<and> csrs m2 SATP = csrs call_hart SATP \<and>
        (\<forall>r. rd m2 r = (if r = A0 then 1 else if r = A7 then 11 else rd call_hart r)) \<and>
        exec ?pt 0 usys_return m2 = Some (To (rd call_hart RA), m2))"
    using getpid_from_user_code [OF mf fr K(1,2) l sp K(5,7) sa tf, of 0 0 0 0] unfolding K(6,8) of_int_1 by blast
  let ?n = "call_hart\<lparr>rg := (\<lambda>_. csrs call_hart SATP), ram := (\<lambda>a. tf_words (tf (ptable t ! 0)) ! (unat a div 8))\<rparr>"
  have "frame_at (ram ?n) 0 (tf (ptable t ! 0))" using frame_self by simp
  moreover have "rd ?n A0 = csrs call_hart SATP" by (simp add: rd_def)
  ultimately obtain m2 where "exec ?pt 0 userret ?n = Some (Returns, m2)" "\<forall>r. rd m2 r = (if r = A0 then 1 else if r = A7 then 11 else rd call_hart r)"
    using ends by blast
  then show ?thesis using m by (intro exI [of _ m1] exI [of _ n] exI [of _ t] conjI exI [of _ ?n] exI [of _ m2]) simp_all
qed

end
