(* ===== verification/Sleep_Ticks.thy ===== *)
theory Sleep_Ticks
  imports Trap_Return
begin

text \<open>
  How long \<^verbatim>\<open>sys_sleep2\<close> sleeps: the process with nothing else to do on the machine, from the call
  over one clock interrupt after the other to the return. The tick counter may wrap around.
\<close>

text \<open>
  The scheduler has the CPU while the process sleeps; when it finds the process runnable it takes its
  lock and switches to it.
\<close>

definition scheduling :: "'x ktrap_scheme \<Rightarrow> 'x ktrap_scheme" where
  "scheduling s = s\<lparr>held := [], curproc := None\<rparr>"

definition dispatched :: "nat \<Rightarrow> 'x ktrap_scheme \<Rightarrow> 'x ktrap_scheme" where
  "dispatched p s = upd_proc p (\<lambda>q. q\<lparr>state := RUNNING\<rparr>) (s\<lparr>held := [ProcLock p], curproc := Some p\<rparr>)"

text \<open>One clock interrupt, and what the call has become after \<open>k\<close> of them.\<close>

definition tick_once :: "nat \<Rightarrow> int \<Rightarrow> u32 \<Rightarrow> (u64, 'x ktrap_scheme) res \<Rightarrow> (u64, 'x ktrap_scheme) res" where
  "tick_once p n t0 r =
     (case r of Block c s \<Rightarrow>
        (case clockintr (scheduling s) of
           Ok _ u \<Rightarrow>
             if state (ptable u ! p) = RUNNABLE then sys_sleep2_resume p n t0 (dispatched p u) else Block c u
         | Panic m \<Rightarrow> Panic m | Block c u \<Rightarrow> Block c u)
      | _ \<Rightarrow> r)"

definition after_ticks :: "nat \<Rightarrow> nat \<Rightarrow> int \<Rightarrow> u32 \<Rightarrow> (u64, 'x ktrap_scheme) res \<Rightarrow> (u64, 'x ktrap_scheme) res" where
  "after_ticks k p n t0 r = (tick_once p n t0 ^^ k) r"

lemma after_ticks_simps [simp]: "after_ticks 0 p n t0 r = r"
  "after_ticks (Suc k) p n t0 r = tick_once p n t0 (after_ticks k p n t0 r)"
  by (simp_all add: after_ticks_def)

definition asleep :: "nat \<Rightarrow> u32 \<Rightarrow> 'x ktrap_scheme \<Rightarrow> bool" where
  "asleep p t s \<longleftrightarrow> p < NPROC \<and> length (ptable s) = NPROC \<and> hartid s = 0 \<and> held s = [ProcLock p] \<and> curproc s = Some p \<and>
     state (ptable s ! p) = SLEEPING \<and> pchan (ptable s ! p) = Some ChTicks \<and> pkilled (ptable s ! p) = 0 \<and> ticks s = t"

lemma hartid_upd_proc [simp]: "hartid (upd_proc p f s) = hartid s"
  by (simp add: upd_proc_def)

lemma sleep2_loop_waits:
  assumes "p < NPROC" "length (ptable s) = NPROC" "hartid s = 0" "held s = [TicksLock]" "curproc s = Some p"
    "pkilled (ptable s ! p) = 0"
  shows "if ticks s - t0 < of_int n then \<exists>t. sleep2_loop p n t0 s = Block ChTicks t \<and> asleep p (ticks s) t
    else sleep2_loop p n t0 s = Ok 0 (s\<lparr>held := []\<rparr>)"
  using assms
  by (auto simp: sleep2_loop_def sleep_def sched_def acquire_def release_def holding_def asleep_def)

lemma clock_wakes:
  assumes "asleep p t s"
  shows "\<exists>u. clockintr (scheduling s) = Ok () u \<and> ticks u = t + 1 \<and> state (ptable u ! p) = RUNNABLE \<and> pkilled (ptable u ! p) = 0 \<and>
    length (ptable u) = NPROC \<and> hartid u = 0"
proof -
  let ?s = "scheduling s\<lparr>held := [TicksLock], ticks := ticks s + 1\<rparr>"
  have "proc_locks_free ?s" using assms by (simp add: proc_locks_free_def asleep_def scheduling_def)
  from wakeup_eq [OF this, of ChTicks] show ?thesis
    using assms by (simp add: clockintr_def cpuid_def asleep_def scheduling_def acquire_def release_def holding_def woken_def)
qed

lemma one_tick:
  assumes "asleep p t s"
  shows "if t + 1 - t0 < of_int n then \<exists>u. tick_once p n t0 (Block ChTicks s) = Block ChTicks u \<and> asleep p (t + 1) u
    else \<exists>u. tick_once p n t0 (Block ChTicks s) = Ok 0 u \<and> ticks u = t + 1"
proof -
  obtain u where u: "clockintr (scheduling s) = Ok () u" "ticks u = t + 1" "state (ptable u ! p) = RUNNABLE"
    "pkilled (ptable u ! p) = 0" "length (ptable u) = NPROC" "hartid u = 0" using clock_wakes [OF assms] by blast
  have p: "p < NPROC" using assms by (simp add: asleep_def)
  define v where "v = (upd_proc p (\<lambda>q. q\<lparr>pchan := None\<rparr>) (dispatched p u))\<lparr>held := [TicksLock]\<rparr>"
  have r: "sys_sleep2_resume p n t0 (dispatched p u) = sleep2_loop p n t0 v"
    using u p by (simp add: sys_sleep2_resume_def sleep_resume_def dispatched_def v_def Let_def acquire_def release_def holding_def)
  have "ticks v = t + 1" using u by (simp add: v_def dispatched_def)
  moreover have "if ticks v - t0 < of_int n then \<exists>t. sleep2_loop p n t0 v = Block ChTicks t \<and> asleep p (ticks v) t
    else sleep2_loop p n t0 v = Ok 0 (v\<lparr>held := []\<rparr>)"
    by (rule sleep2_loop_waits) (use u p in \<open>simp_all add: v_def dispatched_def\<close>)
  ultimately show ?thesis using u(1,3) r by (auto simp: tick_once_def split: if_splits)
qed

lemma after_ticks_asleep:
  assumes "asleep p t0 s"
  shows "k < unat (of_int n :: u32) \<Longrightarrow>
    \<exists>u. after_ticks k p n t0 (Block ChTicks s) = Block ChTicks u \<and> asleep p (t0 + of_nat k) u"
proof (induction k)
  case (Suc k)
  then obtain u where u: "after_ticks k p n t0 (Block ChTicks s) = Block ChTicks u" "asleep p (t0 + of_nat k) u" by auto
  have "unat (of_int n :: u32) < 2 ^ LENGTH(32)" by (rule unsigned_less)
  then have "k + 1 < 2 ^ 32" using Suc.prems by simp
  then have "unat (of_nat (k + 1) :: u32) = k + 1" unfolding unsigned_of_nat by (simp add: take_bit_nat_eq_self del: of_nat_Suc)
  then have "t0 + of_nat k + 1 - t0 < (of_int n :: u32)"
    using Suc.prems by (simp add: word_less_nat_alt add.commute)
  then show ?case using one_tick [OF u(2), of t0 n] u(1) by (auto simp: ac_simps)
qed (use assms in simp)

section \<open>The property\<close>

text \<open>The argument of the call is the low half of \<^verbatim>\<open>a0\<close>, as an unsigned number the count of ticks.\<close>

definition tick_count :: "nat \<Rightarrow> 'x ktrap_scheme \<Rightarrow> nat" where
  "tick_count p s = unat (ucast (a0 (tf (ptable s ! p))) :: u32)"

lemma of_int_arg: "of_int (sint (w :: u32)) = w"
  by simp

lemma sleep2_starts:
  assumes "p < NPROC" "length (ptable s) = NPROC" "hartid s = 0" "held s = []" "curproc s = Some p" "pkilled (ptable s ! p) = 0"
  defines "n \<equiv> sint (ucast (a0 (tf (ptable s ! p))) :: u32)"
  shows "if tick_count p s = 0 then sys_sleep2 s = Ok 0 s else \<exists>t. sys_sleep2 s = Block ChTicks t \<and> asleep p (ticks s) t"
proof -
  have e: "sys_sleep2 s = sleep2_loop p n (ticks s) (s\<lparr>held := [TicksLock]\<rparr>)"
    using assms(4,5) by (simp add: sys_sleep2_def argint_def argraw_def n_def acquire_def holding_def Let_def)
  have "(0 :: u32) < of_int n \<longleftrightarrow> tick_count p s \<noteq> 0"
    unfolding n_def of_int_arg tick_count_def by (simp add: word_less_nat_alt)
  then show ?thesis
    using sleep2_loop_waits [of p "s\<lparr>held := [TicksLock]\<rparr>" "ticks s" n] assms(1-6) unfolding e by auto
qed

text \<open>C17. On an otherwise idle machine sleep2(n) returns 0 after exactly n clock interrupts, n being
  its argument read as an unsigned number, and sleeps until then, also when the tick counter wraps around
  in between; sleep2(-1) therefore sleeps for 4294967295 ticks.\<close>

theorem sleep2_takes_n_ticks:
  assumes "p < NPROC" "length (ptable s) = NPROC" "hartid s = 0" "held s = []" "curproc s = Some p" "pkilled (ptable s ! p) = 0"
  shows "(\<forall>k < tick_count p s. \<exists>u. after_ticks k p (sint (ucast (a0 (tf (ptable s ! p))) :: u32)) (ticks s) (sys_sleep2 s) = Block ChTicks u) \<and>
    (\<exists>u. after_ticks (tick_count p s) p (sint (ucast (a0 (tf (ptable s ! p))) :: u32)) (ticks s) (sys_sleep2 s) = Ok 0 u \<and>
       ticks u = ticks s + of_nat (tick_count p s))"
proof -
  define n where "n = sint (ucast (a0 (tf (ptable s ! p))) :: u32)"
  have N: "unat (of_int n :: u32) = tick_count p s" unfolding n_def of_int_arg tick_count_def ..
  show ?thesis unfolding n_def [symmetric]
  proof (cases "tick_count p s")
    case 0
    then show "(\<forall>k < tick_count p s. \<exists>u. after_ticks k p n (ticks s) (sys_sleep2 s) = Block ChTicks u) \<and>
      (\<exists>u. after_ticks (tick_count p s) p n (ticks s) (sys_sleep2 s) = Ok 0 u \<and> ticks u = ticks s + of_nat (tick_count p s))"
      using sleep2_starts [OF assms] by simp
  next
    case (Suc m)
    then obtain t where t: "sys_sleep2 s = Block ChTicks t" "asleep p (ticks s) t" using sleep2_starts [OF assms] by auto
    have below: "\<exists>u. after_ticks k p n (ticks s) (Block ChTicks t) = Block ChTicks u \<and> asleep p (ticks s + of_nat k) u" if "k < tick_count p s" for k
      by (rule after_ticks_asleep [OF t(2)]) (use that N in simp)
    obtain u where u: "after_ticks m p n (ticks s) (Block ChTicks t) = Block ChTicks u" "asleep p (ticks s + of_nat m) u"
      using below [of m] Suc by auto
    have "of_nat (Suc m) = (of_int n :: u32)" 
    proof -
      have "of_nat (unat (of_int n :: u32)) = (of_int n :: u32)" by simp
      then show ?thesis by (simp only: N Suc)
    qed
    then have "\<not> ticks s + of_nat m + 1 - ticks s < (of_int n :: u32)" by (simp add: add.commute)
    then obtain v where v: "tick_once p n (ticks s) (Block ChTicks u) = Ok 0 v" "ticks v = ticks s + of_nat m + 1"
      using one_tick [OF u(2), of "ticks s" n] by auto
    have "after_ticks (Suc m) p n (ticks s) (Block ChTicks t) = Ok 0 v" using u(1) v(1) by simp
    then show "(\<forall>k < tick_count p s. \<exists>u. after_ticks k p n (ticks s) (sys_sleep2 s) = Block ChTicks u) \<and>
      (\<exists>u. after_ticks (tick_count p s) p n (ticks s) (sys_sleep2 s) = Ok 0 u \<and> ticks u = ticks s + of_nat (tick_count p s))"
      using below t(1) v(2) Suc by (auto simp: ac_simps)
  qed
qed

text \<open>The first process calls sleep2(3) when the counter is about to wrap around.\<close>

definition ktrap_sleep :: ktrap where
  "ktrap_sleep = (upd_proc 0 (\<lambda>q. q\<lparr>tf := (tf q)\<lparr>a0 := 3\<rparr>\<rparr>) (ktrap0 24))\<lparr>ticks := 0xFFFFFFFF, hartid := 0\<rparr>"

theorem sleep2_takes_n_ticks_witness:
  "\<exists>u. after_ticks 3 0 3 0xFFFFFFFF (sys_sleep2 ktrap_sleep) = Ok 0 u \<and> ticks u = 2"
proof -
  have F: "length (ptable ktrap_sleep) = NPROC" "hartid ktrap_sleep = 0" "held ktrap_sleep = []" "curproc ktrap_sleep = Some 0"
    "pkilled (ptable ktrap_sleep ! 0) = 0" "a0 (tf (ptable ktrap_sleep ! 0)) = 3" "ticks ktrap_sleep = 0xFFFFFFFF"
    using ktrap0_fields [of 24] by (simp_all add: ktrap_sleep_def NPROC_def)
  have c: "tick_count 0 ktrap_sleep = 3" by (simp add: tick_count_def F)
  have n: "sint (ucast (a0 (tf (ptable ktrap_sleep ! 0))) :: u32) = 3" by (simp add: F)
  have "0 < NPROC" by (simp add: NPROC_def)
  from sleep2_takes_n_ticks [OF this F(1-5)] show ?thesis unfolding n c F(7) by auto
qed

end
