(* ===== verification/Proc_Info.thy ===== *)
theory Proc_Info
  imports Trap_Return
begin

text \<open>
  The calls this repository adds to report on processes: what \<^verbatim>\<open>getprocsinfo\<close> prints for a
  process table and what \<^verbatim>\<open>getppid\<close> returns, over decimal numerals written without reference to
  \<^verbatim>\<open>printint\<close>.
\<close>

section \<open>Decimal numerals\<close>

text \<open>The numeral of a number, most significant digit first.\<close>

fun dec :: "nat \<Rightarrow> string" where
  "dec n = (if n < 10 then [] else dec (n div 10)) @ [''0123456789'' ! (n mod 10)]"

declare dec.simps [simp del]

lemma kdigits_char: "d < 10 \<Longrightarrow> kdigits ! d = ''0123456789'' ! d"
proof -
  assume "d < 10"
  then have "d \<in> {0, 1, 2, 3, 4, 5, 6, 7, 8, 9}" by auto
  then show ?thesis by (auto simp: kdigits_def)
qed

lemma digit_buf_dec: "rev (digit_buf kdigits 10 n) = dec n"
proof (induction n rule: dec.induct)
  case (1 n)
  then show ?case
    by (subst dec.simps, subst digit_buf.simps) (auto simp: kdigits_char)
qed

lemma printint_dec: "sint w \<ge> 0 \<Longrightarrow> printint w 10 True = dec (unat w)"
  by (simp add: printint_def print_digits_def printint_buf_def word_sless_alt Let_def digit_buf_dec)

section \<open>The report\<close>

text \<open>One line of the report: process id, number of the state and size, separated by tabs.\<close>

definition report_line :: "proc \<Rightarrow> string" where
  "report_line q = dec (nat (pid q)) @ [CHR 0x09] @ dec (procstate_num (state q)) @ [CHR 0x09] @ dec (unat (sz q)) @ [CHR 0x0A]"

definition report :: "proc list \<Rightarrow> string" where
  "report ps = ''PID'' @ [CHR 0x09] @ ''STATE'' @ [CHR 0x09] @ ''SIZE'' @ [CHR 0x0A] @
     concat (map report_line (filter (\<lambda>q. state q \<noteq> UNUSED) ps))"

text \<open>The values whose \<^verbatim>\<open>int\<close> and \<^verbatim>\<open>long\<close> are not negative; \<^verbatim>\<open>allocpid\<close> counts from 1.\<close>

definition printable :: "proc \<Rightarrow> bool" where
  "printable q \<longleftrightarrow> 0 \<le> pid q \<and> pid q < 2 ^ 31 \<and> unat (sz q) < 2 ^ 63"

lemma printf_shows:
  "held s = [] \<Longrightarrow> vformat kdigits fmt as = Some m \<Longrightarrow> printf fmt as s = Ok () (s\<lparr>outp := outp s @ m\<rparr>)"
  by (simp add: printf_def kprint_def outp_held)

lemma unat_of_int_small:
  assumes "0 \<le> i" "i < 2 ^ 63"
  shows "unat (of_int i :: u64) = nat i"
proof -
  have "i < 2 ^ 64" by (rule less_trans [OF assms(2)]) simp
  then have "uint (of_int i :: u64) = i"
    using assms(1) by (simp add: uint_word_of_int_eq take_bit_int_eq_self)
  then show ?thesis by (simp only: unat_eq_nat_uint)
qed

lemma sint_nonneg:
  assumes "unat (w :: u64) < 2 ^ 63"
  shows "0 \<le> sint w"
proof -
  have "sint (word_of_nat k :: u64) = int k" if "k < 2 ^ 63" for k
    using that by (simp add: signed_of_nat signed_take_bit_int_eq_self)
  from this [OF assms] show ?thesis by simp
qed

lemma as_int_small: "0 \<le> i \<Longrightarrow> i < 2 ^ 31 \<Longrightarrow> as_int (of_int i) = of_int i"
  unfolding as_int_def by transfer (simp add: take_bit_int_eq_self signed_take_bit_int_eq_self)

lemma printint_int:
  assumes "0 \<le> i" "i < 2 ^ 31"
  shows "printint (as_int (of_int i)) 10 True = dec (nat i)"
proof -
  have "i < 2 ^ 63" using assms(2) by simp
  then have u: "unat (of_int i :: u64) = nat i"
    by (rule unat_of_int_small [OF assms(1)])
  then have "unat (of_int i :: u64) < 2 ^ 63" using assms by simp
  from sint_nonneg [OF this] u show ?thesis
    unfolding as_int_small [OF assms] by (simp only: printint_dec)
qed

lemma line_format:
  assumes "printable q"
  shows "vformat kdigits (''%d'' @ [CHR 0x09] @ ''%d'' @ [CHR 0x09] @ ''%ld'' @ [CHR 0x0A])
    [Num (of_int (pid q)), Num (of_nat (procstate_num (state q))), Num (sz q)] = Some (report_line q)"
proof -
  have "procstate_num (state q) < 6" by (cases "state q") auto
  then have st: "printint (as_int (of_nat (procstate_num (state q)))) 10 True = dec (procstate_num (state q))"
    using printint_int [of "int (procstate_num (state q))"] by simp
  have sz: "printint (sz q) 10 True = dec (unat (sz q))"
    using assms by (simp add: printable_def printint_dec sint_nonneg)
  show ?thesis
    using assms printint_int [of "pid q"] st sz
    by (simp add: vformat.simps(2) conversion_def chr_at_def printable_def report_line_def printint_def)
qed

lemma header_format:
  "vformat kdigits (''PID'' @ [CHR 0x09] @ ''STATE'' @ [CHR 0x09] @ ''SIZE'' @ [CHR 0x0A]) [] =
     Some (''PID'' @ [CHR 0x09] @ ''STATE'' @ [CHR 0x09] @ ''SIZE'' @ [CHR 0x0A])"
  by (simp add: vformat.simps(2))

lemma report_loop:
  fixes s :: "'x kio_scheme"
  assumes "held s = []" "\<And>q. q \<in> set (drop k (take n (ptable s))) \<Longrightarrow> state q \<noteq> UNUSED \<Longrightarrow> printable q"
    "n \<le> length (ptable s)"
  shows "foreach (\<lambda>p s. let q = ptable s ! p in
       if state q \<noteq> UNUSED
       then printf (''%d'' @ [CHR 0x09] @ ''%d'' @ [CHR 0x09] @ ''%ld'' @ [CHR 0x0A])
              [Num (of_int (pid q)), Num (of_nat (procstate_num (state q))), Num (sz q)] s
       else Ok () s) [k..<n] s =
     Ok () (s\<lparr>outp := outp s @ concat (map report_line (filter (\<lambda>q. state q \<noteq> UNUSED) (drop k (take n (ptable s)))))\<rparr>)"
  using assms
proof (induction "n - k" arbitrary: k s)
  case 0
  then show ?case by simp
next
  case (Suc j)
  let ?q = "ptable s ! k"
  let ?t = "s\<lparr>outp := outp s @ (if state ?q \<noteq> UNUSED then report_line ?q else [])\<rparr>"
  have k: "k < n" "k < length (ptable s)" using Suc.hyps(2) Suc.prems(3) by auto
  have d: "drop k (take n (ptable s)) = ?q # drop (Suc k) (take n (ptable s))"
    using k by (simp add: Cons_nth_drop_Suc [symmetric])
  have step: "(if state ?q \<noteq> UNUSED
       then printf (''%d'' @ [CHR 0x09] @ ''%d'' @ [CHR 0x09] @ ''%ld'' @ [CHR 0x0A])
              [Num (of_int (pid ?q)), Num (of_nat (procstate_num (state ?q))), Num (sz ?q)] s
       else Ok () s) = Ok () ?t"
    using printf_shows [OF Suc.prems(1) line_format [of ?q]] Suc.prems(2) [of ?q] by (auto simp: d)
  have IH: "held ?t = []" "n \<le> length (ptable ?t)"
    "\<And>q. q \<in> set (drop (Suc k) (take n (ptable ?t))) \<Longrightarrow> state q \<noteq> UNUSED \<Longrightarrow> printable q" "j = n - Suc k"
    using Suc.prems Suc.hyps(2) d by auto
  note L = Suc.hyps(1) [OF IH(4,1,3,2)]
  show ?case
    unfolding upt_conv_Cons [OF k(1)] foreach.simps Let_def step bnd_simps d
    using L by (simp add: Let_def)
qed

lemma sys_getprocsinfo_prints:
  fixes s :: "'x kio_scheme"
  assumes "held s = []" "\<And>q. q \<in> set (ptable s) \<Longrightarrow> state q \<noteq> UNUSED \<Longrightarrow> printable q" "length (ptable s) = NPROC"
  shows "sys_getprocsinfo s = Ok 0 (s\<lparr>outp := outp s @ report (ptable s)\<rparr>)"
proof -
  let ?h = "''PID'' @ [CHR 0x09] @ ''STATE'' @ [CHR 0x09] @ ''SIZE'' @ [CHR 0x0A]"
  note L = report_loop [of "s\<lparr>outp := outp s @ ?h\<rparr>" 0 NPROC]
  show ?thesis
    unfolding sys_getprocsinfo_def printf_shows [OF assms(1) header_format] bnd_simps
    using L assms by (simp add: report_def)
qed

text \<open>
  C15. The two calls the repository adds to look at processes: \<^verbatim>\<open>getprocsinfo\<close> prints the header and
  then, in the order of the process table, one line of decimal numerals for every entry in use and
  none for the others, and returns 0; \<^verbatim>\<open>getppid\<close> returns the process id of the caller's parent, or
  -1 where there is none. Neither changes anything but the caller's result register.
\<close>

theorem process_report_calls:
  fixes s :: "'x kio_scheme"
  assumes "held s = []" "curproc s = Some p" "length (ptable s) = NPROC"
    "\<And>q. q \<in> set (ptable s) \<Longrightarrow> state q \<noteq> UNUSED \<Longrightarrow> printable q"
  shows "(sint (ucast (a7 (tf (ptable s ! p))) :: u32) = SYS_getprocsinfo \<longrightarrow>
      syscall s = Ok () (set_a0 p 0 (s\<lparr>outp := outp s @ report (ptable s)\<rparr>))) \<and>
    (sint (ucast (a7 (tf (ptable s ! p))) :: u32) = SYS_getppid \<longrightarrow>
      syscall s = Ok () (set_a0 p (case parent (ptable s ! p) of None \<Rightarrow> -1
        | Some k \<Rightarrow> of_int (pid (ptable s ! k))) s))"
proof (intro conjI impI)
  assume "sint (ucast (a7 (tf (ptable s ! p))) :: u32) = SYS_getprocsinfo"
  then show "syscall s = Ok () (set_a0 p 0 (s\<lparr>outp := outp s @ report (ptable s)\<rparr>))"
    using assms(2) sys_getprocsinfo_prints [OF assms(1) assms(4) assms(3)]
    by (simp add: syscall_def syscalls_def SYS_defs)
next
  assume "sint (ucast (a7 (tf (ptable s ! p))) :: u32) = SYS_getppid"
  then show "syscall s = Ok () (set_a0 p (case parent (ptable s ! p) of None \<Rightarrow> -1
      | Some k \<Rightarrow> of_int (pid (ptable s ! k))) s)"
    using assms(2) by (simp add: syscall_def syscalls_def SYS_defs sys_getppid_def split: option.split)
qed

lemma ktrap0_table:
  "ptable (ktrap0 n) = [proc0\<lparr>state := RUNNING, pid := 1, pagetable := 0x87FFD000, sz := 0x3000, tf := (tf proc0)\<lparr>a7 := n\<rparr>\<rparr>,
     proc0\<lparr>state := SLEEPING, pid := 2, pchan := Some ChTicks\<rparr>] @ replicate 62 proc0"
proof -
  have "ptable kvdisk0 = ptable kio0" by (simp add: kvdisk0_def kio.extend_def)
  then show ?thesis by (simp add: ktrap0_def kvdisk.extend_def upd_proc_def kio0_fields)
qed

theorem process_report_calls_witness:
  "syscall (ktrap0 22) = Ok () (set_a0 0 0 ((ktrap0 22)\<lparr>outp := outp (ktrap0 22) @
     ''PID'' @ [CHR 0x09] @ ''STATE'' @ [CHR 0x09] @ ''SIZE'' @ [CHR 0x0A] @
     ''1'' @ [CHR 0x09] @ ''4'' @ [CHR 0x09] @ ''12288'' @ [CHR 0x0A] @
     ''2'' @ [CHR 0x09] @ ''2'' @ [CHR 0x09] @ ''0'' @ [CHR 0x0A]\<rparr>)) \<and>
   syscall (ktrap0 23) = Ok () (set_a0 0 (-1) (ktrap0 23))"
proof -
  have p0: "state proc0 = UNUSED" "sz proc0 = 0" "parent proc0 = None" by (simp_all add: proc0_def)
  have pr: "q \<in> set (ptable (ktrap0 n)) \<Longrightarrow> state q \<noteq> UNUSED \<Longrightarrow> printable q" for q n
    by (auto simp: ktrap0_table printable_def p0)
  have T: "(sint (ucast (a7 (tf (ptable (ktrap0 n) ! 0))) :: u32) = SYS_getprocsinfo \<longrightarrow>
      syscall (ktrap0 n) = Ok () (set_a0 0 0 ((ktrap0 n)\<lparr>outp := outp (ktrap0 n) @ report (ptable (ktrap0 n))\<rparr>))) \<and>
    (sint (ucast (a7 (tf (ptable (ktrap0 n) ! 0))) :: u32) = SYS_getppid \<longrightarrow>
      syscall (ktrap0 n) = Ok () (set_a0 0 (case parent (ptable (ktrap0 n) ! 0) of None \<Rightarrow> -1
        | Some k \<Rightarrow> of_int (pid (ptable (ktrap0 n) ! k))) (ktrap0 n)))" for n
    by (rule process_report_calls [OF ktrap0_fields(1-3)]) (rule pr)
  have d: "dec 1 = ''1''" "dec 2 = ''2''" "dec 4 = ''4''" "dec 0 = ''0''" "dec 12288 = ''12288''"
    by (simp_all add: dec.simps)
  have r: "report (ptable (ktrap0 22)) =
     ''PID'' @ [CHR 0x09] @ ''STATE'' @ [CHR 0x09] @ ''SIZE'' @ [CHR 0x0A] @
     ''1'' @ [CHR 0x09] @ ''4'' @ [CHR 0x09] @ ''12288'' @ [CHR 0x0A] @
     ''2'' @ [CHR 0x09] @ ''2'' @ [CHR 0x09] @ ''0'' @ [CHR 0x0A]"
    using d by (simp add: ktrap0_table report_def report_line_def p0)
  have n: "sint (ucast (a7 (tf (ptable (ktrap0 22) ! 0))) :: u32) = SYS_getprocsinfo"
    "sint (ucast (a7 (tf (ptable (ktrap0 23) ! 0))) :: u32) = SYS_getppid" "parent (ptable (ktrap0 23) ! 0) = None"
    by (simp_all add: ktrap0_table SYS_getprocsinfo_def SYS_getppid_def p0)
  show ?thesis
    using T [THEN conjunct1, rule_format, OF n(1)] T [THEN conjunct2, rule_format, OF n(2)]
    unfolding r n(3) option.case by (rule conjI)
qed

end
