(* ===== verification/Boot.thy ===== *)
theory Boot
  imports Trap
begin

text \<open>
  \<^verbatim>\<open>kernel/start.c\<close>, the initialisation in \<^verbatim>\<open>kernel/plic.c\<close> and the boot sequence of
  \<^verbatim>\<open>kernel/main.c\<close>. The machine-mode registers and the words of the interrupt controller are
  fields of the state; initialising the spinlocks is in Boot_Locks.
\<close>

definition MSTATUS_MPP_MASK :: u64 where "MSTATUS_MPP_MASK = push_bit 11 3"
definition MSTATUS_MPP_S :: u64 where "MSTATUS_MPP_S = push_bit 11 1"
definition SIE_SEIE :: u64 where "SIE_SEIE = push_bit 9 1"
definition SIE_STIE :: u64 where "SIE_STIE = push_bit 5 1"
definition MIE_STIE :: u64 where "MIE_STIE = push_bit 5 1"

record kboot = ktrap +
  mstatus :: u64
  mepc :: u64
  medeleg :: u64
  mideleg :: u64
  sie_reg :: u64
  pmpaddr0 :: u64
  pmpcfg0 :: u64
  mie :: u64
  menvcfg :: u64
  mcounteren :: u64
  mhartid :: u64
  tp :: u64
  main_pa :: u64
  plic_regs :: "u64 \<Rightarrow> u32"
  started :: bool

section \<open>start.c\<close>

definition timerinit :: "'x kboot_scheme \<Rightarrow> 'x kboot_scheme" where
  "timerinit s =
     s\<lparr>mie := mie s OR MIE_STIE, menvcfg := menvcfg s OR push_bit 63 1,
       mcounteren := mcounteren s OR 2, stimecmp := rtime s + 1000000\<rparr>"

text \<open>The state in which \<^verbatim>\<open>mret\<close> enters \<^verbatim>\<open>main\<close>; \<^verbatim>\<open>tp\<close> is what \<^verbatim>\<open>cpuid()\<close> reads.\<close>

definition start :: "'x kboot_scheme \<Rightarrow> 'x kboot_scheme" where
  "start s =
     (let s = s\<lparr>mstatus := (mstatus s AND NOT MSTATUS_MPP_MASK) OR MSTATUS_MPP_S\<rparr>;
          s = s\<lparr>mepc := main_pa s, satp := 0, medeleg := 0xffff, mideleg := 0xffff,
                sie_reg := sie_reg s OR SIE_SEIE OR SIE_STIE,
                pmpaddr0 := 0x3fffffffffffff, pmpcfg0 := 0xf\<rparr>;
          s = timerinit s
      in s\<lparr>tp := mhartid s, hartid := unat (mhartid s)\<rparr>)"

section \<open>plic.c\<close>

definition plic_store :: "u64 \<Rightarrow> u32 \<Rightarrow> 'x kboot_scheme \<Rightarrow> 'x kboot_scheme" where
  "plic_store a v s = s\<lparr>plic_regs := (plic_regs s)(a := v)\<rparr>"

definition plicinit :: "'x kboot_scheme \<Rightarrow> 'x kboot_scheme" where
  "plicinit s =
     plic_store (PLIC + of_nat VIRTIO0_IRQ * 4) 1 (plic_store (PLIC + of_nat UART0_IRQ * 4) 1 s)"

definition plicinithart :: "'x kboot_scheme \<Rightarrow> 'x kboot_scheme" where
  "plicinithart s =
     plic_store (PLIC_SPRIORITY (of_nat (cpuid s))) 0
       (plic_store (PLIC_SENABLE (of_nat (cpuid s))) (push_bit UART0_IRQ 1 OR push_bit VIRTIO0_IRQ 1) s)"

section \<open>main.c\<close>

text \<open>Hart 0 up to its call of \<^verbatim>\<open>scheduler\<close>, and the other harts after they see \<^verbatim>\<open>started\<close>.\<close>

definition main_hart0 :: "'x kboot_scheme \<Rightarrow> (unit, 'x kboot_scheme) res" where
  "main_hart0 s =
     bnd (printf [CHR 0x0A] [] (consoleinit s)) (\<lambda>_ s.
     bnd (printf (''xv6 kernel is booting'' @ [CHR 0x0A]) [] s) (\<lambda>_ s.
     bnd (printf [CHR 0x0A] [] s) (\<lambda>_ s.
     bnd (kinit s) (\<lambda>_ s.
     bnd (kvminit s) (\<lambda>_ s.
     let s = procinit (s\<lparr>satp := kvminithart s\<rparr>);
         s = plicinithart (plicinit (trapinithart s));
         s = iinit (binit s) in
     bnd (virtio_disk_init s) (\<lambda>_ s.
     bnd (userinit s) (\<lambda>_ s.
     Ok () (s\<lparr>started := True\<rparr>))))))))"

definition main_hart :: "'x kboot_scheme \<Rightarrow> (unit, 'x kboot_scheme) res" where
  "main_hart s =
     bnd (printf (''hart %d starting'' @ [CHR 0x0A]) [Num (of_nat (cpuid s))] s) (\<lambda>_ s.
     Ok () (plicinithart (trapinithart (s\<lparr>satp := kvminithart s\<rparr>))))"

end
