(* ===== verification/Boot_Locks.thy ===== *)
theory Boot_Locks
  imports Spinlock Boot
begin

text \<open>
  The lock initialisation of the boot sequence, on the locks of \<^verbatim>\<open>spinlock.c\<close>: what the
  initialisation functions called by hart 0 in \<^verbatim>\<open>main\<close> do besides what Boot has. A sleep lock is
  initialised by initialising the spinlock inside it.
\<close>

type_synonym inits = "(lock \<times> string) list"

definition run_inits :: "inits \<Rightarrow> 'x smp_scheme \<Rightarrow> 'x smp_scheme" where
  "run_inits = fold (\<lambda>(l, n). initlock l n)"

definition initsleeplock_lk :: "lock \<Rightarrow> lock \<times> string" where
  "initsleeplock_lk l = (l, ''sleep lock'')"

definition consoleinit_locks :: inits where "consoleinit_locks = [(ConsLock, ''cons''), (TxLock, ''uart'')]"
definition printfinit :: inits where "printfinit = [(PrLock, ''pr'')]"
definition kinit_locks :: inits where "kinit_locks = [(KmemLock, ''kmem'')]"
definition procinit_locks :: inits where
  "procinit_locks = [(PidLock, ''nextpid''), (WaitLock, ''wait_lock'')] @ map (\<lambda>p. (ProcLock p, ''proc'')) [0..<NPROC]"
definition trapinit :: inits where "trapinit = [(TicksLock, ''time'')]"
definition binit_locks :: inits where
  "binit_locks = (BcacheLock, ''bcache'') # map (\<lambda>b. initsleeplock_lk (BufLk b)) [0..<NBUF]"
definition iinit_locks :: inits where
  "iinit_locks = (ItableLock, ''itable'') # map (\<lambda>i. initsleeplock_lk (InodeLk i)) [0..<NINODE]"
definition fileinit :: inits where "fileinit = [(FtableLock, ''ftable'')]"
definition disk_init_locks :: inits where "disk_init_locks = [(VdiskLock, ''virtio_disk'')]"

text \<open>In the order of \<^verbatim>\<open>main\<close>. The lock of the log is initialised later, by the first process.\<close>

definition boot_inits :: inits where
  "boot_inits = consoleinit_locks @ printfinit @ kinit_locks @ procinit_locks @ trapinit @ binit_locks @ iinit_locks @
     fileinit @ disk_init_locks"

lemma run_inits_locks:
  "locks (run_inits is m) l = (case map_of (rev is) l of None \<Rightarrow> locks m l
     | Some n \<Rightarrow> (locks m l)\<lparr>lname := n, locked := False, lcpu := None\<rparr>)"
  unfolding run_inits_def
  by (induction "is" arbitrary: m rule: rev_induct) (auto simp: initlock_def upd_lock_def split: option.split)

text \<open>No lock is initialised twice, and after the boot each is free under its own name.\<close>

lemma boot_inits_distinct: "distinct (map fst boot_inits)"
  by (simp add: boot_inits_def consoleinit_locks_def printfinit_def kinit_locks_def procinit_locks_def trapinit_def
      binit_locks_def iinit_locks_def fileinit_def disk_init_locks_def initsleeplock_lk_def comp_def distinct_map inj_on_def)
    auto

lemma boot_inits_cover:
  "l \<in> fst ` set boot_inits \<longleftrightarrow> (case l of ProcLock p \<Rightarrow> p < NPROC | BufLk b \<Rightarrow> b < NBUF | InodeLk i \<Rightarrow> i < NINODE
     | LogLock \<Rightarrow> False | PipeLock a \<Rightarrow> False | _ \<Rightarrow> True)"
  by (cases l) (auto simp: boot_inits_def consoleinit_locks_def printfinit_def kinit_locks_def procinit_locks_def trapinit_def
      binit_locks_def iinit_locks_def fileinit_def disk_init_locks_def initsleeplock_lk_def image_image image_Un)

lemma boot_locks_free:
  assumes "(l, n) \<in> set boot_inits"
  shows "locked (locks (run_inits boot_inits m) l) = False \<and> lcpu (locks (run_inits boot_inits m) l) = None \<and>
    lname (locks (run_inits boot_inits m) l) = n"
proof -
  have "map_of (rev boot_inits) l = Some n"
    using assms boot_inits_distinct by (simp add: rev_map [symmetric])
  then show ?thesis
    by (simp add: run_inits_locks)
qed

end
