(* ===== verification/Grep.thy ===== *)
theory Grep
  imports Cstring
begin

text \<open>
  \<^verbatim>\<open>user/grep.c\<close>. A C string is the list of its bytes before the terminating zero. The matcher is
  shown to decide the language its patterns denote, and the program to print the matching lines of
  its input, however the reads cut the input into pieces.
\<close>

section \<open>The matcher\<close>

abbreviation STAR :: u8 where "STAR \<equiv> 0x2A"
abbreviation DOT :: u8 where "DOT \<equiv> 0x2E"
abbreviation DOLLAR :: u8 where "DOLLAR \<equiv> 0x24"
abbreviation CARET :: u8 where "CARET \<equiv> 0x5E"
abbreviation NEWLINE :: u8 where "NEWLINE \<equiv> 0x0A"

function matchhere :: "u8 list \<Rightarrow> u8 list \<Rightarrow> bool"
and matchstar :: "u8 \<Rightarrow> u8 list \<Rightarrow> u8 list \<Rightarrow> bool" where
  "matchhere [] str = True"
| "matchhere (c # re) str =
     (if re \<noteq> [] \<and> hd re = STAR then matchstar c (tl re) str
      else if c = DOLLAR \<and> re = [] then str = []
      else if str \<noteq> [] \<and> (c = DOT \<or> c = hd str) then matchhere re (tl str)
      else False)"
| "matchstar c re str =
     (if matchhere re str then True
      else if str \<noteq> [] \<and> (hd str = c \<or> c = DOT) then matchstar c re (tl str)
      else False)"
  by pat_completeness auto
termination
  by (relation "measures [\<lambda>x. case x of Inl (re, t) \<Rightarrow> length re + length t | Inr (c, re, t) \<Rightarrow> length re + length t,
      \<lambda>x. case x of Inl _ \<Rightarrow> 0 | Inr _ \<Rightarrow> 1]") (auto simp: neq_Nil_conv)

declare matchstar.simps [simp del]

fun match_from :: "u8 list \<Rightarrow> u8 list \<Rightarrow> bool" where
  "match_from re str =
     (if matchhere re str then True
      else case str of [] \<Rightarrow> False | x # xs \<Rightarrow> match_from re xs)"

declare match_from.simps [simp del]

definition grep_match :: "u8 list \<Rightarrow> u8 list \<Rightarrow> bool" where
  "grep_match re str = (if re \<noteq> [] \<and> hd re = CARET then matchhere (tl re) str else match_from re str)"

section \<open>What a pattern denotes\<close>

datatype atom = One u8 | Many u8

fun atoms :: "u8 list \<Rightarrow> atom list" where
  "atoms [] = []"
| "atoms [c] = (if c = DOLLAR then [] else [One c])"
| "atoms (c # d # re) = (if d = STAR then Many c # atoms re else One c # atoms (d # re))"

fun at_end :: "u8 list \<Rightarrow> bool" where
  "at_end [] = False"
| "at_end [c] = (c = DOLLAR)"
| "at_end (c # d # re) = (if d = STAR then at_end re else at_end (d # re))"

definition fits :: "u8 \<Rightarrow> u8 \<Rightarrow> bool" where "fits c x \<longleftrightarrow> c = DOT \<or> x = c"

fun atom_lang :: "atom \<Rightarrow> u8 list set" where
  "atom_lang (One c) = {[x] | x. fits c x}"
| "atom_lang (Many c) = {w. list_all (fits c) w}"

fun lang :: "atom list \<Rightarrow> u8 list set" where
  "lang [] = {[]}"
| "lang (a # as) = {u @ v | u v. u \<in> atom_lang a \<and> v \<in> lang as}"

text \<open>Some beginning of the str is in the language, the whole str if the pattern ends in \<^verbatim>\<open>$\<close>.\<close>

definition begins_with :: "atom list \<Rightarrow> bool \<Rightarrow> u8 list \<Rightarrow> bool" where
  "begins_with as e str \<longleftrightarrow> (\<exists>w q. str = w @ q \<and> w \<in> lang as \<and> (e \<longrightarrow> q = []))"

abbreviation begins :: "u8 list \<Rightarrow> u8 list \<Rightarrow> bool" where
  "begins re \<equiv> begins_with (atoms re) (at_end re)"

lemma begins_with_Nil [simp]: "begins_with [] e str \<longleftrightarrow> (e \<longrightarrow> str = [])"
  by (auto simp: begins_with_def)

lemma begins_with_Cons:
  "begins_with (a # as) e str \<longleftrightarrow> (\<exists>u v. str = u @ v \<and> u \<in> atom_lang a \<and> begins_with as e v)"
proof
  assume "begins_with (a # as) e str"
  then obtain w q where w: "str = w @ q" "w \<in> lang (a # as)" "e \<longrightarrow> q = []" unfolding begins_with_def by blast
  then obtain u v where "w = u @ v" "u \<in> atom_lang a" "v \<in> lang as" by auto
  with w have "str = u @ v @ q" "u \<in> atom_lang a" "v \<in> lang as" "e \<longrightarrow> q = []" by simp_all
  then show "\<exists>u v. str = u @ v \<and> u \<in> atom_lang a \<and> begins_with as e v"
    by (intro exI [of _ u] exI [of _ "v @ q"]) (auto simp: begins_with_def)
next
  assume "\<exists>u v. str = u @ v \<and> u \<in> atom_lang a \<and> begins_with as e v"
  then obtain u v q where "str = u @ v @ q" "u \<in> atom_lang a" "v \<in> lang as" "e \<longrightarrow> q = []"
    by (auto simp: begins_with_def)
  then show "begins_with (a # as) e str"
    unfolding begins_with_def by (intro exI [of _ "u @ v"] exI [of _ q]) auto
qed

lemma begins_with_One: "begins_with (One c # as) e str \<longleftrightarrow> str \<noteq> [] \<and> fits c (hd str) \<and> begins_with as e (tl str)"
proof
  assume "begins_with (One c # as) e str"
  then show "str \<noteq> [] \<and> fits c (hd str) \<and> begins_with as e (tl str)" by (auto simp: begins_with_Cons)
next
  assume "str \<noteq> [] \<and> fits c (hd str) \<and> begins_with as e (tl str)"
  then show "begins_with (One c # as) e str"
    unfolding begins_with_Cons by (intro exI [of _ "[hd str]"] exI [of _ "tl str"]) simp
qed

lemma begins_with_Many:
  "begins_with (Many c # as) e str \<longleftrightarrow>
     begins_with as e str \<or> str \<noteq> [] \<and> fits c (hd str) \<and> begins_with (Many c # as) e (tl str)"
proof (cases str)
  case Nil
  then show ?thesis by (auto simp: begins_with_Cons)
next
  case (Cons x xs)
  have "begins_with (Many c # as) e str \<longleftrightarrow> (\<exists>u v. str = u @ v \<and> list_all (fits c) u \<and> begins_with as e v)" for str
    by (simp add: begins_with_Cons)
  note M = this
  show ?thesis
  proof
    assume "begins_with (Many c # as) e str"
    then obtain u v where "str = u @ v" "list_all (fits c) u" "begins_with as e v" unfolding M by blast
    then show "begins_with as e str \<or> str \<noteq> [] \<and> fits c (hd str) \<and> begins_with (Many c # as) e (tl str)"
      by (cases u) (auto simp: M)
  next
    assume "begins_with as e str \<or> str \<noteq> [] \<and> fits c (hd str) \<and> begins_with (Many c # as) e (tl str)"
    then show "begins_with (Many c # as) e str"
    proof
      assume "begins_with as e str"
      then show ?thesis unfolding M by (intro exI [of _ "[]"] exI [of _ str]) simp
    next
      assume *: "str \<noteq> [] \<and> fits c (hd str) \<and> begins_with (Many c # as) e (tl str)"
      then obtain u v where "tl str = u @ v" "list_all (fits c) u" "begins_with as e v" unfolding M by blast
      then show ?thesis using * Cons unfolding M by (intro exI [of _ "x # u"] exI [of _ v]) simp
    qed
  qed
qed

lemma matchhere_begins:
  "matchhere re str = begins re str"
  "matchstar c re str = begins_with (Many c # atoms re) (at_end re) str"
proof (induction re str and c re str rule: matchhere_matchstar.induct)
  case (1 str)
  then show ?case by simp
next
  case (2 c re str)
  show ?case
  proof (cases re)
    case Nil
    then show ?thesis using 2 by (cases str) (auto simp: begins_with_One fits_def)
  next
    case (Cons d re')
    then show ?thesis using 2 by (cases "d = STAR") (auto simp: begins_with_One fits_def)
  qed
next
  case (3 c re str)
  then show ?case
    by (subst begins_with_Many) (auto simp: matchstar.simps [of c re str] fits_def)
qed

text \<open>A pattern's matches in a line: anywhere, unless it starts with \<^verbatim>\<open>^\<close>.\<close>

definition pattern_matches :: "u8 list \<Rightarrow> u8 list \<Rightarrow> bool" where
  "pattern_matches re str \<longleftrightarrow>
     (let b = (re \<noteq> [] \<and> hd re = CARET); body = (if b then tl re else re) in
      \<exists>p w q. str = p @ w @ q \<and> w \<in> lang (atoms body) \<and> (b \<longrightarrow> p = []) \<and> (at_end body \<longrightarrow> q = []))"

lemma match_from_suffix: "match_from re str \<longleftrightarrow> (\<exists>p v. str = p @ v \<and> begins re v)"
proof (induction str)
  case Nil
  then show ?case by (simp add: match_from.simps matchhere_begins)
next
  case (Cons x xs)
  have "(\<exists>p v. x # xs = p @ v \<and> begins re v) \<longleftrightarrow> begins re (x # xs) \<or> (\<exists>p v. xs = p @ v \<and> begins re v)"
    by (simp add: Cons_eq_append_conv) blast
  then show ?case using Cons by (simp add: match_from.simps [of re "x # xs"] matchhere_begins)
qed

lemma grep_match_pattern: "grep_match re str = pattern_matches re str"
  by (auto simp: grep_match_def pattern_matches_def matchhere_begins match_from_suffix begins_with_def Let_def)

section \<open>The program\<close>

text \<open>
  What the successive calls of \<^verbatim>\<open>read\<close> have to give: a list of pieces, none of them empty, of which a
  read of fewer bytes takes the beginning.
\<close>

fun read_piece :: "nat \<Rightarrow> u8 list list \<Rightarrow> u8 list \<times> u8 list list" where
  "read_piece n [] = ([], [])"
| "read_piece n (c # cs) = (take n c, if n < length c then drop n c # cs else cs)"

text \<open>
  The lines of the buffer: \<^verbatim>\<open>strchr\<close> looks for a newline up to the first zero byte, the one that ends
  the buffer or one of the input. The result is what is printed and what is left from \<open>p\<close> on.
\<close>

definition newline_at :: "u8 list \<Rightarrow> nat option" where
  "newline_at s = (let l = takeWhile (\<lambda>c. c \<noteq> 0 \<and> c \<noteq> NEWLINE) s in
     if length l < length s \<and> s ! length l = NEWLINE then Some (length l) else None)"

function grep_lines :: "u8 list \<Rightarrow> u8 list \<Rightarrow> u8 list \<times> u8 list" where
  "grep_lines re s =
     (case newline_at s of
        None \<Rightarrow> ([], s)
      | Some i \<Rightarrow> let (out, rest) = grep_lines re (drop (Suc i) s) in
          ((if grep_match re (take i s) then take (Suc i) s else []) @ out, rest))"
  by pat_completeness auto
termination
  by (relation "measure (\<lambda>(re, s). length s)") (auto simp: newline_at_def Let_def split: if_splits)

declare grep_lines.simps [simp del]

text \<open>The loop over the reads, with \<open>b\<close> the first \<open>m\<close> bytes of the buffer of 1024.\<close>

function grep_loop :: "u8 list \<Rightarrow> u8 list \<Rightarrow> u8 list list \<Rightarrow> u8 list" where
  "grep_loop re b inp =
     (let (d, inp') = read_piece (1024 - length b - 1) inp in
      if d = [] then []
      else let (out, rest) = grep_lines re (b @ d) in out @ grep_loop re rest inp')"
  by pat_completeness auto
termination
proof (relation "measure (\<lambda>(re, b, inp). length (concat inp))")
  fix re b inp d inp' out rest x y
  assume "x = read_piece (1024 - length b - 1) inp" "(d, inp') = x" "d \<noteq> []"
  then show "((re, rest, inp'), re, b, inp) \<in> measure (\<lambda>(re, b, inp). length (concat inp))"
    by (cases inp) (auto split: if_splits)
qed simp

declare grep_loop.simps [simp del]

definition grep :: "u8 list \<Rightarrow> u8 list list \<Rightarrow> u8 list" where
  "grep re inp = grep_loop re [] inp"

section \<open>Lines\<close>

text \<open>The complete lines of a text, with the beginning \<open>l\<close> of the first one, and what follows the last newline.\<close>

fun full_lines :: "u8 list \<Rightarrow> u8 list \<Rightarrow> u8 list list" where
  "full_lines l [] = []"
| "full_lines l (c # cs) = (if c = NEWLINE then l # full_lines [] cs else full_lines (l @ [c]) cs)"

fun last_line :: "u8 list \<Rightarrow> u8 list \<Rightarrow> u8 list" where
  "last_line l [] = l"
| "last_line l (c # cs) = (if c = NEWLINE then last_line [] cs else last_line (l @ [c]) cs)"

lemma lines_append:
  "full_lines l (s @ t) = full_lines l s @ full_lines (last_line l s) t"
  "last_line l (s @ t) = last_line (last_line l s) t"
  by (induction s arbitrary: l) auto

lemma lines_free: "NEWLINE \<notin> set s \<Longrightarrow> full_lines l s = [] \<and> last_line l s = l @ s"
  by (induction s arbitrary: l) auto

lemma last_line_free: "NEWLINE \<notin> set l \<Longrightarrow> NEWLINE \<notin> set (last_line l s)"
  by (induction s arbitrary: l) auto

lemma last_line_subset: "set (last_line l s) \<subseteq> set l \<union> set s"
  by (induction l s rule: last_line.induct) auto

lemma line_start_short:
  "list_all (\<lambda>x. length x \<le> n) (full_lines l s) \<Longrightarrow> length (last_line l s) \<le> n \<Longrightarrow> length l \<le> n"
proof (induction s arbitrary: l)
  case (Cons c cs)
  then show ?case using Cons.IH [of "l @ [c]"] by (auto split: if_splits)
qed simp

lemma newline_at_Some: "newline_at s = Some i \<Longrightarrow> s = take i s @ NEWLINE # drop (Suc i) s \<and> NEWLINE \<notin> set (take i s)"
proof -
  assume a: "newline_at s = Some i"
  let ?l = "takeWhile (\<lambda>c. c \<noteq> 0 \<and> c \<noteq> NEWLINE) s"
  have i: "i = length ?l" "i < length s" "s ! i = NEWLINE" using a by (auto simp: newline_at_def Let_def split: if_splits)
  have "take i s = ?l" unfolding i(1) by (rule takeWhile_eq_take [symmetric])
  then have "NEWLINE \<notin> set (take i s)" by (auto dest: set_takeWhileD)
  then show ?thesis using id_take_nth_drop [OF i(2)] unfolding i(3) by blast
qed

lemma newline_at_None: "newline_at s = None \<Longrightarrow> 0 \<notin> set s \<Longrightarrow> NEWLINE \<notin> set s"
proof (rule ccontr)
  assume n: "newline_at s = None" "0 \<notin> set s" "\<not> NEWLINE \<notin> set s"
  let ?l = "takeWhile (\<lambda>c. c \<noteq> 0 \<and> c \<noteq> NEWLINE) s"
  have "?l \<noteq> s" using n(3) unfolding takeWhile_eq_all_conv by blast
  moreover have "?l = s" if "length ?l = length s"
    using takeWhile_eq_take [of "\<lambda>c. c \<noteq> 0 \<and> c \<noteq> NEWLINE" s] unfolding that by simp
  ultimately have "length ?l \<noteq> length s" by blast
  then have l: "length ?l < length s" by (rule le_neq_implies_less [OF length_takeWhile_le])
  have "s ! length ?l = 0 \<or> s ! length ?l = NEWLINE" using nth_length_takeWhile [OF l] by simp
  moreover have "s ! length ?l \<noteq> 0" using n(2) nth_mem [OF l] by metis
  ultimately show False using n(1) l by (auto simp: newline_at_def Let_def split: if_splits)
qed

definition printed :: "u8 list \<Rightarrow> u8 list list \<Rightarrow> u8 list" where
  "printed re ls = concat (map (\<lambda>l. l @ [NEWLINE]) (filter (pattern_matches re) ls))"

lemma printed_simps [simp]: "printed re [] = []" "printed re (xs @ ys) = printed re xs @ printed re ys"
  "printed re (l # ls) = (if pattern_matches re l then l @ [NEWLINE] else []) @ printed re ls"
  by (simp_all add: printed_def)

lemma grep_lines_spec: "0 \<notin> set s \<Longrightarrow> grep_lines re s = (printed re (full_lines [] s), last_line [] s)"
proof (induction re s rule: grep_lines.induct)
  case (1 re s)
  show ?case
  proof (cases "newline_at s")
    case None
    then show ?thesis using newline_at_None [OF None 1(2)] lines_free [of s "[]"]
      by (simp add: grep_lines.simps [of re s])
  next
    case (Some i)
    note S = newline_at_Some [OF Some]
    have "0 \<notin> set (drop (Suc i) s)" using 1(2) by (meson in_set_dropD)
    then have IH: "grep_lines re (drop (Suc i) s) = (printed re (full_lines [] (drop (Suc i) s)), last_line [] (drop (Suc i) s))"
      using 1(1) [OF Some] by blast
    have F: "full_lines [] s = take i s # full_lines [] (drop (Suc i) s)" "last_line [] s = last_line [] (drop (Suc i) s)"
      by (subst S [THEN conjunct1], simp add: lines_append lines_free [OF S [THEN conjunct2]])+
    have "take (Suc i) s = take i s @ [NEWLINE]"
      by (subst S [THEN conjunct1]) (use Some in \<open>auto simp: newline_at_def Let_def split: if_splits\<close>)
    then show ?thesis unfolding grep_lines.simps [of re s] F
      by (simp add: Some IH grep_match_pattern)
  qed
qed

lemma read_piece_pieces:
  assumes "[] \<notin> set inp" "0 < n" "read_piece n inp = (d, inp')"
  shows "d @ concat inp' = concat inp" "[] \<notin> set inp'" "d = [] \<longleftrightarrow> inp = []" "length d \<le> n"
  using assms by (cases inp; auto split: if_splits)+

lemma grep_loop_spec:
  assumes "[] \<notin> set inp" "0 \<notin> set (b @ concat inp)" "NEWLINE \<notin> set b"
    "list_all (\<lambda>l. length l \<le> 1022) (full_lines b (concat inp))" "length (last_line b (concat inp)) \<le> 1022"
  shows "grep_loop re b inp = printed re (full_lines b (concat inp))"
  using assms
proof (induction re b inp rule: grep_loop.induct)
  case (1 re b inp)
  have b: "length b \<le> 1022" by (rule line_start_short [OF 1(5,6)])
  obtain d inp' where r: "read_piece (1024 - length b - 1) inp = (d, inp')" by fastforce
  have n: "0 < 1024 - length b - 1" using b by linarith
  note R = read_piece_pieces [OF 1(2) n r]
  show ?case
  proof (cases "d = []")
    case True
    then show ?thesis using R(3) by (simp add: grep_loop.simps [of re b "[]"])
  next
    case False
    have z: "0 \<notin> set (b @ d)" "0 \<notin> set (concat inp')" using 1(3) unfolding R(1) [symmetric] by auto
    let ?l = "last_line b d"
    have L: "full_lines [] (b @ d) = full_lines b d" "last_line [] (b @ d) = ?l"
      using lines_free [OF 1(4), of "[]"] by (simp_all add: lines_append)
    have g: "grep_lines re (b @ d) = (printed re (full_lines b d), ?l)"
      using grep_lines_spec [OF z(1)] unfolding L .
    have all: "full_lines b (concat inp) = full_lines b d @ full_lines ?l (concat inp')"
      "last_line b (concat inp) = last_line ?l (concat inp')"
      unfolding R(1) [symmetric] by (simp_all add: lines_append)
    have zl: "0 \<notin> set (?l @ concat inp')" using z last_line_subset [of b d] by auto
    have "grep_loop re ?l inp' = printed re (full_lines ?l (concat inp'))"
      by (rule 1(1) [OF r [symmetric] _ False g [symmetric]])
        (use R(2) zl last_line_free [OF 1(4)] 1(5,6) all in \<open>auto\<close>)
    then show ?thesis unfolding grep_loop.simps [of re b inp] using r by (simp add: False g all)
  qed
qed

section \<open>Properties\<close>

text \<open>C36. grep's matcher finds a match exactly when the line contains a string of the language the
  pattern denotes, at its start and end as the pattern asks.\<close>

theorem grep_match_denotes: "grep_match re str = pattern_matches re str"
  by (rule grep_match_pattern)

text \<open>C37. However the reads cut its input, grep prints exactly the lines that match, in order, when no
  line is longer than its buffer allows and no byte is zero.\<close>

theorem grep_prints_matching_lines:
  assumes "[] \<notin> set inp" "0 \<notin> set (concat inp)"
    "list_all (\<lambda>l. length l \<le> 1022) (full_lines [] (concat inp))" "length (last_line [] (concat inp)) \<le> 1022"
  shows "grep re inp = concat (map (\<lambda>l. l @ [NEWLINE]) (filter (grep_match re) (full_lines [] (concat inp))))"
proof -
  have "grep_match re = pattern_matches re" by (simp add: fun_eq_iff grep_match_pattern)
  then show ?thesis
    unfolding grep_def using grep_loop_spec [of inp "[]" re] assms by (simp add: printed_def)
qed

theorem grep_prints_matching_lines_witness:
  "grep [0x61, STAR, 0x62, DOLLAR] [[0x61, 0x62, NEWLINE, 0x63], [NEWLINE, 0x62], [NEWLINE]] =
     [0x61, 0x62, NEWLINE, 0x62, NEWLINE]"
proof -
  have "grep_match [0x61, STAR, 0x62, DOLLAR] [0x61, 0x62]" "grep_match [0x61, STAR, 0x62, DOLLAR] [0x62]"
    "\<not> grep_match [0x61, STAR, 0x62, DOLLAR] [0x63]"
    by (simp_all add: grep_match_def match_from.simps matchstar.simps)
  then show ?thesis
    using grep_prints_matching_lines [of "[[0x61, 0x62, NEWLINE, 0x63], [NEWLINE, 0x62], [NEWLINE]]" "[0x61, STAR, 0x62, DOLLAR]"]
    by simp
qed

end
