(* ===== verification/Sh_Parse.thy ===== *)
theory Sh_Parse
  imports Cstring Params
begin

text \<open>
  The parser of the shell, \<^verbatim>\<open>user/sh.c\<close>. The command line is a buffer with its terminating zero,
  a \<^verbatim>\<open>char *\<close> into it an index, and a token the pair of the indices \<^verbatim>\<open>q\<close> and \<^verbatim>\<open>eq\<close> of its first byte and of
  the byte after its last. Memory for the commands is assumed to be available.
\<close>

section \<open>Commands\<close>

type_synonym tok = "nat \<times> nat"

text \<open>\<^verbatim>\<open>argv\<close> and \<^verbatim>\<open>eargv\<close> of an \<^verbatim>\<open>execcmd\<close> are the list of the tokens before the null pointer.\<close>

datatype cmd =
    EXEC "tok list"
  | REDIR cmd tok u32 int
  | PIPE cmd cmd
  | LIST cmd cmd
  | BACK cmd

definition MAXARGS :: nat where "MAXARGS = 10"

abbreviation chPIPE :: u8 where "chPIPE \<equiv> 0x7C"
abbreviation chLPAR :: u8 where "chLPAR \<equiv> 0x28"
abbreviation chRPAR :: u8 where "chRPAR \<equiv> 0x29"
abbreviation chSEMI :: u8 where "chSEMI \<equiv> 0x3B"
abbreviation chAMP :: u8 where "chAMP \<equiv> 0x26"
abbreviation chLESS :: u8 where "chLESS \<equiv> 0x3C"
abbreviation chGREATER :: u8 where "chGREATER \<equiv> 0x3E"
abbreviation chPLUS :: u8 where "chPLUS \<equiv> 0x2B"
abbreviation chWORD :: u8 where "chWORD \<equiv> 0x61"

definition whitespace :: "u8 list" where "whitespace = [0x20, 0x09, 0x0D, 0x0A, 0x0B]"
definition symbols :: "u8 list" where
  "symbols = [chLESS, chPIPE, chGREATER, chAMP, chSEMI, chLPAR, chRPAR]"

definition chr_in :: "u8 list \<Rightarrow> u8 \<Rightarrow> bool" where
  "chr_in toks c = (case strchr (toks @ [0]) c of Some (Some _) \<Rightarrow> True | _ \<Rightarrow> False)"

section \<open>Tokens\<close>

text \<open>\<^verbatim>\<open>while(s < es && strchr(whitespace, *s)) s++\<close> and the scan over a word.\<close>

function skip_ws :: "u8 list \<Rightarrow> nat \<Rightarrow> nat \<Rightarrow> nat" where
  "skip_ws b es s = (if s < es \<and> chr_in whitespace (b ! s) then skip_ws b es (s + 1) else s)"
  by auto
termination by (relation "measure (\<lambda>(b, es, s). es - s)") auto

function skip_word :: "u8 list \<Rightarrow> nat \<Rightarrow> nat \<Rightarrow> nat" where
  "skip_word b es s =
     (if s < es \<and> \<not> chr_in whitespace (b ! s) \<and> \<not> chr_in symbols (b ! s) then skip_word b es (s + 1) else s)"
  by auto
termination by (relation "measure (\<lambda>(b, es, s). es - s)") auto

declare skip_ws.simps [simp del] skip_word.simps [simp del]

text \<open>The result is the kind of the token, \<open>q\<close>, \<open>eq\<close> and the new \<^verbatim>\<open>*ps\<close>.\<close>

definition gettoken :: "u8 list \<Rightarrow> nat \<Rightarrow> nat \<Rightarrow> u8 \<times> tok \<times> nat" where
  "gettoken b es s =
     (let q = skip_ws b es s; c = b ! q;
          (ret, eq) =
            (if c = 0 then (c, q)
             else if c \<in> {chPIPE, chLPAR, chRPAR, chSEMI, chAMP, chLESS} then (c, q + 1)
             else if c = chGREATER
                  then (if b ! (q + 1) = chGREATER then (chPLUS, q + 2) else (c, q + 1))
             else (chWORD, skip_word b es q))
      in (ret, (q, eq), skip_ws b es eq))"

definition peek :: "u8 list \<Rightarrow> nat \<Rightarrow> nat \<Rightarrow> u8 list \<Rightarrow> bool \<times> nat" where
  "peek b es s toks = (let s = skip_ws b es s in (b ! s \<noteq> 0 \<and> chr_in toks (b ! s), s))"

section \<open>The grammar\<close>

text \<open>
  The parsing functions return a command and the new position, or \<^verbatim>\<open>panic\<close>, which ends the process.
  They recurse with one unit of fuel less; \<open>NoFuel\<close> never happens in \<open>parsecmd\<close>.
\<close>

datatype 'a parsed = Parsed 'a nat | Dies string | NoFuel

fun andthen :: "'a parsed \<Rightarrow> ('a \<Rightarrow> nat \<Rightarrow> 'b parsed) \<Rightarrow> 'b parsed" where
  "andthen (Parsed c s) f = f c s"
| "andthen (Dies e) f = Dies e"
| "andthen NoFuel f = NoFuel"

text \<open>
  \<^verbatim>\<open>parseexec\<close> fills \<^verbatim>\<open>argv\<close> of the \<^verbatim>\<open>execcmd\<close> it made while redirections are already wrapped around it.
\<close>

fun set_argv :: "tok list \<Rightarrow> cmd \<Rightarrow> cmd" where
  "set_argv a (EXEC _) = EXEC a"
| "set_argv a (REDIR c f m d) = REDIR (set_argv a c) f m d"
| "set_argv a c = c"

definition redircmd_of :: "u8 \<Rightarrow> tok \<Rightarrow> cmd \<Rightarrow> cmd" where
  "redircmd_of t f c =
     (if t = chLESS then REDIR c f O_RDONLY 0
      else if t = chGREATER then REDIR c f ((O_WRONLY OR O_CREATE) OR O_TRUNC) 1
      else if t = chPLUS then REDIR c f (O_WRONLY OR O_CREATE) 1
      else c)"

fun parseredirs :: "nat \<Rightarrow> u8 list \<Rightarrow> nat \<Rightarrow> cmd \<Rightarrow> nat \<Rightarrow> cmd parsed" where
  "parseredirs 0 b es c s = NoFuel"
| "parseredirs (Suc n) b es c s =
     (let (f, s) = peek b es s [chLESS, chGREATER] in
      if f then
        let (t, _, s) = gettoken b es s; (w, qe, s) = gettoken b es s in
        if w \<noteq> chWORD then Dies ''missing file for redirection''
        else parseredirs n b es (redircmd_of t qe c) s
      else Parsed c s)"

text \<open>The loop over the arguments; \<open>argv\<close> has those stored so far, \<^verbatim>\<open>argc\<close> is its length.\<close>

fun parseargs :: "nat \<Rightarrow> u8 list \<Rightarrow> nat \<Rightarrow> tok list \<Rightarrow> cmd \<Rightarrow> nat \<Rightarrow> cmd parsed" where
  "parseargs 0 b es argv ret s = NoFuel"
| "parseargs (Suc n) b es argv ret s =
     (let (f, s) = peek b es s [chPIPE, chRPAR, chAMP, chSEMI] in
      if f then Parsed (set_argv argv ret) s
      else let (t, qe, s) = gettoken b es s in
        if t = 0 then Parsed (set_argv argv ret) s
        else if t \<noteq> chWORD then Dies ''syntax''
        else if length argv + 1 \<ge> MAXARGS then Dies ''too many args''
        else andthen (parseredirs n b es ret s) (\<lambda>ret s. parseargs n b es (argv @ [qe]) ret s))"

fun parsebacks :: "nat \<Rightarrow> u8 list \<Rightarrow> nat \<Rightarrow> cmd \<Rightarrow> nat \<Rightarrow> cmd parsed" where
  "parsebacks 0 b es c s = NoFuel"
| "parsebacks (Suc n) b es c s =
     (let (f, s) = peek b es s [chAMP] in
      if f then let (_, _, s) = gettoken b es s in parsebacks n b es (BACK c) s else Parsed c s)"

function parseline :: "nat \<Rightarrow> u8 list \<Rightarrow> nat \<Rightarrow> nat \<Rightarrow> cmd parsed"
and parsepipe :: "nat \<Rightarrow> u8 list \<Rightarrow> nat \<Rightarrow> nat \<Rightarrow> cmd parsed"
and parseexec :: "nat \<Rightarrow> u8 list \<Rightarrow> nat \<Rightarrow> nat \<Rightarrow> cmd parsed"
and parseblock :: "nat \<Rightarrow> u8 list \<Rightarrow> nat \<Rightarrow> nat \<Rightarrow> cmd parsed" where
  "parseline 0 b es s = NoFuel"
| "parseline (Suc n) b es s =
     andthen (parsepipe n b es s) (\<lambda>c s.
     andthen (parsebacks n b es c s) (\<lambda>c s.
     let (f, s) = peek b es s [chSEMI] in
     if f then let (_, _, s) = gettoken b es s in andthen (parseline n b es s) (\<lambda>r s. Parsed (LIST c r) s)
     else Parsed c s))"
| "parsepipe 0 b es s = NoFuel"
| "parsepipe (Suc n) b es s =
     andthen (parseexec n b es s) (\<lambda>c s.
     let (f, s) = peek b es s [chPIPE] in
     if f then let (_, _, s) = gettoken b es s in andthen (parsepipe n b es s) (\<lambda>r s. Parsed (PIPE c r) s)
     else Parsed c s)"
| "parseexec 0 b es s = NoFuel"
| "parseexec (Suc n) b es s =
     (let (f, s) = peek b es s [chLPAR] in
      if f then parseblock n b es s
      else andthen (parseredirs n b es (EXEC []) s) (\<lambda>ret s. parseargs n b es [] ret s))"
| "parseblock 0 b es s = NoFuel"
| "parseblock (Suc n) b es s =
     (let (f, s) = peek b es s [chLPAR] in
      if \<not> f then Dies ''parseblock''
      else let (_, _, s) = gettoken b es s in
        andthen (parseline n b es s) (\<lambda>c s.
        let (f, s) = peek b es s [chRPAR] in
        if \<not> f then Dies ''syntax - missing )''
        else let (_, _, s) = gettoken b es s in parseredirs n b es c s))"

  by pat_completeness auto
termination
  by (relation "measure (\<lambda>x. case x of Inl (Inl (n, _)) \<Rightarrow> n | Inl (Inr (n, _)) \<Rightarrow> n | Inr (Inl (n, _)) \<Rightarrow> n | Inr (Inr (n, _)) \<Rightarrow> n)") auto

text \<open>\<^verbatim>\<open>nulterminate\<close> ends every counted string in the buffer.\<close>

fun nulterminate :: "cmd \<Rightarrow> u8 list \<Rightarrow> u8 list" where
  "nulterminate (EXEC ts) b = fold (\<lambda>(q, eq) b. b[eq := 0]) ts b"
| "nulterminate (REDIR c (q, eq) m d) b = (nulterminate c b)[eq := 0]"
| "nulterminate (PIPE l r) b = nulterminate r (nulterminate l b)"
| "nulterminate (LIST l r) b = nulterminate r (nulterminate l b)"
| "nulterminate (BACK c) b = nulterminate c b"

text \<open>The command with the buffer its tokens are in; \<open>None\<close> is a buffer without a zero.\<close>

definition parse_fuel :: "nat \<Rightarrow> nat" where "parse_fuel n = 5 * n + 5"

definition parsecmd :: "u8 list \<Rightarrow> (cmd \<times> u8 list) parsed option" where
  "parsecmd b = map_option (\<lambda>es.
     andthen (parseline (parse_fuel es) b es 0) (\<lambda>c s.
     let (_, s) = peek b es s [] in
     if s \<noteq> es then Dies ''syntax'' else Parsed (c, nulterminate c b) s)) (strlen b)"

section \<open>Tokens of a line\<close>

text \<open>\<open>plain\<close> bytes make up words. The rest of the line is the text from a position on.\<close>

definition plain :: "u8 \<Rightarrow> bool" where
  "plain c \<longleftrightarrow> c \<noteq> 0 \<and> c \<notin> set whitespace \<and> c \<notin> set symbols"

abbreviation blank :: "u8 \<Rightarrow> bool" where "blank c \<equiv> c \<in> set whitespace"

definition rest :: "u8 list \<Rightarrow> nat \<Rightarrow> nat \<Rightarrow> u8 list" where "rest b es s = drop s (take es b)"

abbreviation skipped :: "u8 list \<Rightarrow> u8 list" where "skipped \<equiv> dropWhile blank"

lemma strchr_found: "0 \<notin> set toks \<Longrightarrow> (\<exists>i. strchr (toks @ [0]) c = Some (Some i)) \<longleftrightarrow> c \<in> set toks"
  by (induction toks) (auto split: if_splits)

lemma chr_in_set: "0 \<notin> set toks \<Longrightarrow> chr_in toks c \<longleftrightarrow> c \<in> set toks"
  using strchr_found [of toks c] by (auto simp: chr_in_def split: option.splits)

lemma zero_special [simp]: "0 \<notin> set whitespace" "0 \<notin> set symbols"
  by (simp_all add: whitespace_def symbols_def)

lemma chr_in_special [simp]:
  "chr_in whitespace c \<longleftrightarrow> blank c" "chr_in symbols c \<longleftrightarrow> c \<in> set symbols" "\<not> chr_in [] c"
  "chr_in [x] c \<longleftrightarrow> x \<noteq> 0 \<and> c = x" if "True" for c x :: u8
  using that by (auto simp: chr_in_set) (auto simp: chr_in_def split: if_splits)

lemma line_end:
  assumes "strlen b = Some es"
  shows "es < length b" "b ! es = 0" "i < es \<Longrightarrow> b ! i \<noteq> 0" "0 \<notin> set (rest b es s)"
proof -
  have "es < length b \<and> b ! es = 0 \<and> 0 \<notin> set (take es b)" using assms
    by (induction b arbitrary: es) (auto split: if_splits)
  then show "es < length b" "b ! es = 0" "0 \<notin> set (rest b es s)" unfolding rest_def
    by (auto dest: in_set_dropD)
  then show "i < es \<Longrightarrow> b ! i \<noteq> 0"
    using \<open>es < length b \<and> b ! es = 0 \<and> 0 \<notin> set (take es b)\<close> by (auto simp: in_set_conv_nth)
qed

lemma rest_Cons: "s < es \<Longrightarrow> es \<le> length b \<Longrightarrow> rest b es s = b ! s # rest b es (Suc s)"
  unfolding rest_def by (subst Cons_nth_drop_Suc [symmetric]) auto

lemma rest_end: "es \<le> s \<Longrightarrow> rest b es s = []"
  by (simp add: rest_def)

lemma rest_add: "rest b es (s + k) = drop k (rest b es s)"
  by (simp add: rest_def add.commute)

lemma skip_ws_eq: "es \<le> length b \<Longrightarrow> skip_ws b es s = s + length (takeWhile blank (rest b es s))"
proof (induction b es s rule: skip_ws.induct)
  case (1 b es s)
  show ?case
  proof (cases "s < es")
    case True
    then show ?thesis using 1 by (subst skip_ws.simps) (simp add: rest_Cons)
  next
    case False
    then show ?thesis by (subst skip_ws.simps) (simp add: rest_end)
  qed
qed

lemma skip_word_eq:
  "strlen b = Some es \<Longrightarrow> skip_word b es s = s + length (takeWhile plain (rest b es s))"
proof (induction b es s rule: skip_word.induct)
  case (1 b es s)
  show ?case
  proof (cases "s < es")
    case True
    moreover have "plain (b ! s) \<longleftrightarrow> \<not> blank (b ! s) \<and> b ! s \<notin> set symbols"
      using line_end(3) [OF 1(2) True] by (simp add: plain_def)
    ultimately show ?thesis using 1 line_end(1) [OF 1(2)]
      by (subst skip_word.simps) (simp add: rest_Cons less_imp_le)
  next
    case False
    then show ?thesis by (subst skip_word.simps) (simp add: rest_end)
  qed
qed

lemma length_rest: "es \<le> length b \<Longrightarrow> length (rest b es s) = es - s"
  by (simp add: rest_def)

lemma skip_ws_bounds:
  assumes "strlen b = Some es" "s \<le> es"
  shows "s \<le> skip_ws b es s" "skip_ws b es s \<le> es" "rest b es (skip_ws b es s) = skipped (rest b es s)"
    "skip_ws b es (skip_ws b es s) = skip_ws b es s"
proof -
  have l: "es \<le> length b" using line_end [OF assms(1)] by simp
  show "s \<le> skip_ws b es s" by (simp add: skip_ws_eq l)
  have "length (takeWhile blank (rest b es s)) \<le> es - s"
    using length_takeWhile_le [of blank "rest b es s"] by (simp add: length_rest l)
  then show "skip_ws b es s \<le> es" using assms(2) by (simp add: skip_ws_eq l)
  show r: "rest b es (skip_ws b es s) = skipped (rest b es s)"
    by (simp add: skip_ws_eq l rest_add dropWhile_eq_drop)
  have "takeWhile blank (skipped (rest b es s)) = []"
    by (metis hd_dropWhile takeWhile_eq_Nil_iff)
  then show "skip_ws b es (skip_ws b es s) = skip_ws b es s"
    by (simp add: skip_ws_eq [OF l, of "skip_ws b es s"] r)
qed

text \<open>The text still to parse from a position, without the white space before it.\<close>

definition at :: "u8 list \<Rightarrow> nat \<Rightarrow> nat \<Rightarrow> u8 list \<Rightarrow> bool" where
  "at b es s t \<longleftrightarrow> s \<le> es \<and> skipped (rest b es s) = t"

definition tok_ok :: "u8 list \<Rightarrow> nat \<Rightarrow> tok \<Rightarrow> bool" where
  "tok_ok b es t \<longleftrightarrow> fst t < snd t \<and> snd t \<le> es \<and> (\<forall>i\<in>{fst t..<snd t}. plain (b ! i)) \<and> \<not> plain (b ! snd t)"

definition text_of :: "u8 list \<Rightarrow> tok \<Rightarrow> u8 list" where
  "text_of b t = take (snd t - fst t) (drop (fst t) b)"

lemma rest_nth:
  assumes "strlen b = Some es" "q \<le> es"
  shows "b ! q = (case rest b es q of [] \<Rightarrow> 0 | c # _ \<Rightarrow> c)" "rest b es q = [] \<longleftrightarrow> q = es"
proof -
  have l: "es < length b" "b ! es = 0" using line_end [OF assms(1)] by simp_all
  show "b ! q = (case rest b es q of [] \<Rightarrow> 0 | c # _ \<Rightarrow> c)"
    using assms(2) l by (cases "q = es") (simp_all add: rest_end rest_Cons)
  show "rest b es q = [] \<longleftrightarrow> q = es" using assms(2) l by (auto simp: rest_def)
qed

lemma rest_step: "rest b es q = c # cs \<Longrightarrow> q + 1 \<le> es \<and> rest b es (q + 1) = cs"
proof -
  assume r: "rest b es q = c # cs"
  have "rest b es (q + 1) = tl (rest b es q)" 
    unfolding rest_def Suc_eq_plus1 [symmetric] drop_Suc tl_drop ..
  moreover have "q < es" using r rest_end [of es q b] by fastforce
  ultimately show ?thesis using r by simp
qed

lemma at_skip: "strlen b = Some es \<Longrightarrow> at b es s t \<Longrightarrow> skip_ws b es s \<le> es \<and> rest b es (skip_ws b es s) = t"
  using skip_ws_bounds [of b es s] by (simp add: at_def)

lemma at_skipI: "strlen b = Some es \<Longrightarrow> s \<le> es \<Longrightarrow> rest b es s = u \<Longrightarrow> at b es (skip_ws b es s) (skipped u)"
  using skip_ws_bounds [of b es s] by (simp add: at_def dropWhile_idem)

lemma at_text: "strlen b = Some es \<Longrightarrow> at b es s t \<Longrightarrow> 0 \<notin> set t \<and> (t \<noteq> [] \<longrightarrow> \<not> blank (hd t)) \<and> skipped t = t"
  using line_end(4) [of b es s] hd_dropWhile [of blank "rest b es s"] unfolding at_def
  by (auto dest: set_dropWhileD simp: dropWhile_idem simp del: dropWhile_eq_Nil_conv)

lemma at_peek:
  assumes "strlen b = Some es" "at b es s t" "0 \<notin> set toks"
  shows "peek b es s toks = (t \<noteq> [] \<and> hd t \<in> set toks, skip_ws b es s)" "at b es (skip_ws b es s) t"
proof -
  note k = at_skip [OF assms(1,2)]
  show "peek b es s toks = (t \<noteq> [] \<and> hd t \<in> set toks, skip_ws b es s)"
    using rest_nth(1) [OF assms(1), of "skip_ws b es s"] k at_text [OF assms(1,2)] assms(3)
    by (auto simp: peek_def chr_in_set split: list.splits)
  show "at b es (skip_ws b es s) t"
    using at_skipI [OF assms(1)] k skip_ws_bounds(4) [OF assms(1), of s] assms(2) at_text [OF assms(1,2)]
    by (simp add: at_def)
qed

lemma gettoken_end:
  assumes b: "strlen b = Some es" and a: "at b es s []"
  shows "\<exists>qe s'. gettoken b es s = (0, qe, s') \<and> at b es s' []"
proof -
  have q: "skip_ws b es s \<le> es" "rest b es (skip_ws b es s) = []" using at_skip [OF b a] by simp_all
  then show ?thesis
    using rest_nth [OF b q(1)] at_skipI [OF b q(1) q(2)] by (simp add: gettoken_def Let_def)
qed

lemma gettoken_symbol:
  assumes b: "strlen b = Some es" and a: "at b es s (c # cs)" and c: "c \<in> set symbols"
    and nn: "c = chGREATER \<Longrightarrow> cs = [] \<or> hd cs \<noteq> chGREATER"
  shows "\<exists>qe s'. gettoken b es s = (c, qe, s') \<and> at b es s' (skipped cs)"
proof -
  let ?q = "skip_ws b es s"
  have q: "?q \<le> es" "rest b es ?q = c # cs" using at_skip [OF b a] by simp_all
  have q1: "?q + 1 \<le> es" "rest b es (?q + 1) = cs" using rest_step [OF q(2)] by simp_all
  have c0: "b ! ?q = c" "c \<noteq> 0" using rest_nth(1) [OF b q(1)] q(2) at_text [OF b a] by auto
  have c1: "b ! (?q + 1) = chGREATER \<longleftrightarrow> cs \<noteq> [] \<and> hd cs = chGREATER"
    using rest_nth(1) [OF b q1(1)] q1(2) by (auto split: list.splits)
  show ?thesis
    using c c0 c1 nn at_skipI [OF b q1] unfolding gettoken_def Let_def
    by (auto simp: symbols_def)
qed

lemma gettoken_append:
  assumes b: "strlen b = Some es" and a: "at b es s (chGREATER # chGREATER # cs)"
  shows "\<exists>qe s'. gettoken b es s = (chPLUS, qe, s') \<and> at b es s' (skipped cs)"
proof -
  let ?q = "skip_ws b es s"
  have q: "?q \<le> es" "rest b es ?q = chGREATER # chGREATER # cs" using at_skip [OF b a] by simp_all
  have q1: "?q + 1 \<le> es" "rest b es (?q + 1) = chGREATER # cs" using rest_step [OF q(2)] by simp_all
  have q2: "?q + 2 \<le> es" "rest b es (?q + 2) = cs" using rest_step [OF q1(2)] by (simp_all add: add.assoc)
  have "b ! ?q = chGREATER" "b ! (?q + 1) = chGREATER"
    using rest_nth(1) [OF b q(1)] rest_nth(1) [OF b q1(1)] q(2) q1(2) by auto
  then show ?thesis using at_skipI [OF b q2] by (simp add: gettoken_def Let_def)
qed

lemma gettoken_word:
  assumes b: "strlen b = Some es" and a: "at b es s (w @ y)" and w: "w \<noteq> []" "list_all plain w"
    and y: "y = [] \<or> \<not> plain (hd y)"
  shows "\<exists>qe s'. gettoken b es s = (chWORD, qe, s') \<and> tok_ok b es qe \<and> text_of b qe = w \<and> at b es s' (skipped y)"
proof -
  let ?q = "skip_ws b es s"
  let ?e = "?q + length w"
  have l: "es < length b" "b ! es = 0" using line_end [OF b] by simp_all
  have q: "?q \<le> es" "rest b es ?q = w @ y" using at_skip [OF b a] by simp_all
  have len: "?e + length y = es" using q l length_rest [of es b ?q] by simp
  have tw: "takeWhile plain (w @ y) = w"
    using w(2) y by (cases y) (auto simp: list_all_iff takeWhile_append)
  have e: "skip_word b es ?q = ?e" using skip_word_eq [OF b] q(2) tw by simp
  have re: "rest b es ?e = y" by (simp add: rest_add q(2))
  have at_e: "at b es (skip_ws b es ?e) (skipped y)" using at_skipI [OF b _ re] len by simp
  have hp: "plain (hd w)" using w by (cases w) auto
  have "b ! ?q = hd w" using rest_nth(1) [OF b q(1)] q(2) w(1) by (cases w) auto
  then have bq: "b ! ?q \<noteq> 0" "b ! ?q \<notin> set symbols" using hp by (simp_all add: plain_def)
  have g: "gettoken b es s = (chWORD, (?q, ?e), skip_ws b es ?e)"
    using bq by (simp add: gettoken_def Let_def e symbols_def)
  have tx: "take (?e - ?q) (drop ?q b) = w"
  proof -
    have "take (length w) (rest b es ?q) = take (length w) (drop ?q b)"
      using len by (simp add: rest_def take_drop)
    then show ?thesis by (simp add: q(2))
  qed
  have "plain (b ! i)" if "i \<in> {?q..<?e}" for i
  proof -
    have "w ! (i - ?q) = b ! i" using that tx len l
      by (auto simp: set_conv_nth dest!: arg_cong [of _ _ "\<lambda>x. x ! (i - ?q)"])
    moreover have "plain (w ! (i - ?q))" using w(2) that by (auto simp: list_all_length)
    ultimately show ?thesis by simp
  qed
  moreover have "\<not> plain (b ! ?e)"
    using rest_nth(1) [OF b, of ?e] re len y by (cases y) (auto simp: plain_def)
  ultimately have "tok_ok b es (?q, ?e)" using w(1) len by (simp add: tok_ok_def)
  then show ?thesis using g tx at_e by (auto simp: text_of_def)
qed

end
