(* ===== verification/Sh_Total.thy ===== *)
theory Sh_Total
  imports Sh_Parse
begin

text \<open>
  Every command line makes the shell's parser return or panic: it consumes the line, and the words of
  the command it returns are C strings in the buffer.
\<close>

section \<open>Every token consumes\<close>

lemma gettoken_cases:
  assumes b: "strlen b = Some es" and a: "at b es s t"
  obtains "t = []" "fst (gettoken b es s) = 0"
  | ret qe s' t' where "t \<noteq> []" "gettoken b es s = (ret, qe, s')" "at b es s' t'" "length t' < length t" "ret \<noteq> 0"
      "ret = chWORD \<Longrightarrow> tok_ok b es qe"
proof (cases t)
  case Nil
  then show ?thesis using that(1) gettoken_end [OF b, of s] a by auto
next
  case (Cons c cs)
  note t = Cons
  have nz: "c \<noteq> 0" "\<not> blank c" using at_text [OF b a] t by auto
  have sk: "length (skipped u) \<le> length u" for u :: "u8 list" by (rule length_dropWhile_le)
  show ?thesis
  proof (cases "c \<in> set symbols")
    case True
    show ?thesis
    proof (cases "c = chGREATER \<and> cs \<noteq> [] \<and> hd cs = chGREATER")
      case True
      then obtain ds where d: "t = chGREATER # chGREATER # ds" using t by (cases cs) auto
      obtain qe s' where g: "gettoken b es s = (chPLUS, qe, s')" "at b es s' (skipped ds)"
        using gettoken_append [OF b, of s ds] a d by blast
      show ?thesis by (rule that(2) [OF _ g]) (use d sk [of ds] in auto)
    next
      case False
      then obtain qe s' where g: "gettoken b es s = (c, qe, s')" "at b es s' (skipped cs)"
        using gettoken_symbol [OF b, of s c cs] a t True by blast
      show ?thesis by (rule that(2) [OF _ g]) (use t nz True sk [of cs] in \<open>auto simp: symbols_def\<close>)
    qed
  next
    case False
    let ?w = "takeWhile plain t"
    have w: "?w \<noteq> []" "list_all plain ?w" using t nz False by (auto simp: plain_def list_all_iff dest: set_takeWhileD)
    have y: "dropWhile plain t = [] \<or> \<not> plain (hd (dropWhile plain t))" using hd_dropWhile [of plain t] by blast
    have "at b es s (?w @ dropWhile plain t)" using a by simp
    from gettoken_word [OF b this w y] obtain qe s' where
      g: "gettoken b es s = (chWORD, qe, s')" "tok_ok b es qe" "at b es s' (skipped (dropWhile plain t))"
      by blast
    have "length (dropWhile plain t) < length t"
      using w(1) arg_cong [OF takeWhile_dropWhile_id [of plain t], of length] by (cases ?w) auto
    then have "length (skipped (dropWhile plain t)) < length t" using sk [of "dropWhile plain t"] by linarith
    then show ?thesis using that(2) [OF _ g(1,3)] g(2) t by auto
  qed
qed

section \<open>Parsing returns or panics\<close>

definition redir_modes :: "(u32 \<times> int) set" where
  "redir_modes = {(O_RDONLY, 0), ((O_WRONLY OR O_CREATE) OR O_TRUNC, 1), (O_WRONLY OR O_CREATE, 1)}"

fun good_cmd :: "u8 list \<Rightarrow> nat \<Rightarrow> cmd \<Rightarrow> bool" where
  "good_cmd b es (EXEC ts) \<longleftrightarrow> length ts < MAXARGS \<and> list_all (tok_ok b es) ts"
| "good_cmd b es (REDIR c f m d) \<longleftrightarrow> good_cmd b es c \<and> tok_ok b es f \<and> (m, d) \<in> redir_modes"
| "good_cmd b es (PIPE l r) \<longleftrightarrow> good_cmd b es l \<and> good_cmd b es r"
| "good_cmd b es (LIST l r) \<longleftrightarrow> good_cmd b es l \<and> good_cmd b es r"
| "good_cmd b es (BACK c) \<longleftrightarrow> good_cmd b es c"

definition messages :: "string set" where
  "messages = {''missing file for redirection'', ''syntax'', ''too many args'', ''syntax - missing )''}"

definition parses :: "u8 list \<Rightarrow> nat \<Rightarrow> nat \<Rightarrow> cmd parsed \<Rightarrow> bool" where
  "parses b es m r \<longleftrightarrow> (case r of
     Parsed c s \<Rightarrow> (\<exists>t. at b es s t \<and> length t \<le> m) \<and> good_cmd b es c
   | Dies e \<Rightarrow> e \<in> messages
   | NoFuel \<Rightarrow> False)"

lemma parses_simps [simp]:
  "parses b es m (Dies e) \<longleftrightarrow> e \<in> messages"
  "\<not> parses b es m NoFuel"
  by (simp_all add: parses_def)

lemma parses_Parsed: "at b es s t \<Longrightarrow> length t \<le> m \<Longrightarrow> good_cmd b es c \<Longrightarrow> parses b es m (Parsed c s)"
  by (auto simp: parses_def)

lemma parses_mono: "parses b es m r \<Longrightarrow> m \<le> m' \<Longrightarrow> parses b es m' r"
  by (auto simp: parses_def split: parsed.splits)

lemma parses_andthen:
  assumes "parses b es m r" "\<And>c s t. at b es s t \<Longrightarrow> length t \<le> m \<Longrightarrow> good_cmd b es c \<Longrightarrow> parses b es m (f c s)"
  shows "parses b es m (andthen r f)"
  using assms by (cases r) (auto simp: parses_def)

lemma good_set_argv:
  "good_cmd b es c \<Longrightarrow> length ts < MAXARGS \<Longrightarrow> list_all (tok_ok b es) ts \<Longrightarrow> good_cmd b es (set_argv ts c)"
  by (induction ts c rule: set_argv.induct) auto

lemma good_redircmd: "good_cmd b es c \<Longrightarrow> tok_ok b es f \<Longrightarrow> good_cmd b es (redircmd_of t f c)"
  by (simp add: redircmd_of_def redir_modes_def)

lemma peek_one: "c \<noteq> 0 \<Longrightarrow> 0 \<notin> set [c]" by simp

lemma parseredirs_parses:
  assumes b: "strlen b = Some es"
  shows "at b es s t \<Longrightarrow> 5 * length t + 1 \<le> n \<Longrightarrow> good_cmd b es c \<Longrightarrow> parses b es (length t) (parseredirs n b es c s)"
proof (induction n arbitrary: s t c)
  case (Suc n)
  have p: "peek b es s [chLESS, chGREATER] = (t \<noteq> [] \<and> hd t \<in> {chLESS, chGREATER}, skip_ws b es s)"
    "at b es (skip_ws b es s) t" using at_peek [OF b Suc.prems(1), of "[chLESS, chGREATER]"] by simp_all
  show ?case
  proof (cases "t \<noteq> [] \<and> hd t \<in> {chLESS, chGREATER}")
    case False
    then show ?thesis using p Suc.prems by (auto intro!: parses_Parsed simp: Let_def)
  next
    case True
    then obtain r1 q1 s1 t1 where g1: "gettoken b es (skip_ws b es s) = (r1, q1, s1)" "at b es s1 t1" "length t1 < length t"
      using gettoken_cases [OF b p(2)] by metis
    show ?thesis
    proof (rule gettoken_cases [OF b g1(2)])
      assume "t1 = []" "fst (gettoken b es s1) = 0"
      then show ?thesis using True p g1 by (cases "gettoken b es s1") (auto simp: Let_def messages_def)
    next
      fix r2 q2 s2 t2
      assume g2: "t1 \<noteq> []" "gettoken b es s1 = (r2, q2, s2)" "at b es s2 t2" "length t2 < length t1" "r2 \<noteq> 0"
        "r2 = chWORD \<Longrightarrow> tok_ok b es q2"
      have "parses b es (length t) (parseredirs n b es (redircmd_of r1 q2 c) s2)" if "r2 = chWORD"
        using parses_mono [OF Suc.IH [OF g2(3)], of "redircmd_of r1 q2 c" "length t"] g1 g2 that Suc.prems
        by (auto intro!: good_redircmd)
      then show ?thesis using True p g1 g2 by (auto simp: Let_def messages_def)
    qed
  qed
qed simp

lemma parseargs_parses:
  assumes b: "strlen b = Some es"
  shows "at b es s t \<Longrightarrow> 5 * length t + 1 \<le> n \<Longrightarrow> good_cmd b es c \<Longrightarrow> length ts < MAXARGS \<Longrightarrow> list_all (tok_ok b es) ts \<Longrightarrow>
    parses b es (length t) (parseargs n b es ts c s)"
proof (induction n arbitrary: s t c ts)
  case (Suc n)
  let ?k = "[chPIPE, chRPAR, chAMP, chSEMI]"
  have p: "peek b es s ?k = (t \<noteq> [] \<and> hd t \<in> set ?k, skip_ws b es s)" "at b es (skip_ws b es s) t"
    using at_peek [OF b Suc.prems(1), of ?k] by simp_all
  have fin: "parses b es (length t) (Parsed (set_argv ts c) u)" if "at b es u t'" "length t' \<le> length t" for u t'
    using parses_Parsed [OF that] good_set_argv Suc.prems by blast
  show ?case
  proof (cases "t \<noteq> [] \<and> hd t \<in> set ?k")
    case True
    then show ?thesis using p fin [OF p(2)] by (simp add: Let_def)
  next
    case False
    show ?thesis
    proof (rule gettoken_cases [OF b p(2)])
      assume z: "t = []" "fst (gettoken b es (skip_ws b es s)) = 0"
      obtain qe u where g: "gettoken b es (skip_ws b es s) = (0, qe, u)" "at b es u []"
        using gettoken_end [OF b, of "skip_ws b es s"] p(2) z(1) by blast
      then show ?thesis using False p g fin by (simp add: Let_def)
    next
      fix r q u t'
      assume g: "t \<noteq> []" "gettoken b es (skip_ws b es s) = (r, q, u)" "at b es u t'" "length t' < length t" "r \<noteq> 0"
        "r = chWORD \<Longrightarrow> tok_ok b es q"
      have "parses b es (length t') (andthen (parseredirs n b es c u) (\<lambda>ret s. parseargs n b es (ts @ [q]) ret s))"
        if w: "r = chWORD" "length ts + 1 < MAXARGS"
      proof (rule parses_andthen)
        show "parses b es (length t') (parseredirs n b es c u)"
          using parseredirs_parses [OF b g(3)] g(4) Suc.prems by simp
      next
        fix c' s' t'' assume h: "at b es s' t''" "length t'' \<le> length t'" "good_cmd b es c'"
        show "parses b es (length t') (parseargs n b es (ts @ [q]) c' s')"
          using parses_mono [OF Suc.IH [OF h(1) _ h(3), of "ts @ [q]"] h(2)] g(4,6) h(2) w Suc.prems by simp
      qed
      then have "parses b es (length t) (andthen (parseredirs n b es c u) (\<lambda>ret s. parseargs n b es (ts @ [q]) ret s))"
        if "r = chWORD" "length ts + 1 < MAXARGS" using parses_mono that g(4) by (meson less_imp_le)
      then show ?thesis using False p g by (auto simp: Let_def messages_def)
    qed
  qed
qed simp

lemma parsebacks_parses:
  assumes b: "strlen b = Some es"
  shows "at b es s t \<Longrightarrow> 5 * length t + 1 \<le> n \<Longrightarrow> good_cmd b es c \<Longrightarrow> parses b es (length t) (parsebacks n b es c s)"
proof (induction n arbitrary: s t c)
  case (Suc n)
  have p: "peek b es s [chAMP] = (t \<noteq> [] \<and> hd t \<in> {chAMP}, skip_ws b es s)" "at b es (skip_ws b es s) t"
    using at_peek [OF b Suc.prems(1), of "[chAMP]"] by simp_all
  show ?case
  proof (cases "t \<noteq> [] \<and> hd t = chAMP")
    case False
    then show ?thesis using p Suc.prems by (auto intro!: parses_Parsed simp: Let_def)
  next
    case True
    then obtain r q u t' where g: "gettoken b es (skip_ws b es s) = (r, q, u)" "at b es u t'" "length t' < length t"
      using gettoken_cases [OF b p(2)] by metis
    then show ?thesis using True p Suc.prems parses_mono [OF Suc.IH [OF g(2), of "BACK c"], of "length t"] by simp
  qed
qed simp

lemma parser_parses:
  assumes b: "strlen b = Some es"
  shows "at b es s t \<Longrightarrow> 5 * length t + 5 \<le> n \<Longrightarrow> parses b es (length t) (parseline n b es s)"
    and "at b es s t \<Longrightarrow> 5 * length t + 4 \<le> n \<Longrightarrow> parses b es (length t) (parsepipe n b es s)"
    and "at b es s t \<Longrightarrow> 5 * length t + 3 \<le> n \<Longrightarrow> parses b es (length t) (parseexec n b es s)"
    and "at b es s t \<Longrightarrow> 5 * length t + 2 \<le> n \<Longrightarrow> t \<noteq> [] \<Longrightarrow> hd t = chLPAR \<Longrightarrow> parses b es (length t) (parseblock n b es s)"
proof (induction n arbitrary: s t)
  case (Suc n)
  have pk: "peek b es s [x] = (t \<noteq> [] \<and> hd t = x, skip_ws b es s) \<and> at b es (skip_ws b es s) t"
    if "at b es s t" "x \<noteq> 0" for s t x using at_peek [OF b that(1), of "[x]"] that(2) by simp
  have tok: "\<exists>r q u t'. gettoken b es s = (r, q, u) \<and> at b es u t' \<and> length t' < length t" if "at b es s t" "t \<noteq> []" for s t
    using gettoken_cases [OF b that(1)] that(2) by metis
  {
    case 1
    have "parses b es (length t) (parsepipe n b es s)" using Suc.IH(2) [OF 1(1)] 1(2) by simp
    then show ?case unfolding parseline.simps
    proof (rule parses_andthen, goal_cases)
      case (1 c s1 t1)
      have "parses b es (length t) (parsebacks n b es c s1)"
        using parses_mono [OF parsebacks_parses [OF b 1(1) _ 1(3)] 1(2)] 1(2) \<open>5 * length t + 5 \<le> Suc n\<close> by simp
      then show ?case
      proof (rule parses_andthen, goal_cases)
        case (1 c2 s2 t2)
        note h = this
        show ?case
        proof (cases "t2 \<noteq> [] \<and> hd t2 = chSEMI")
          case False
          then show ?thesis using pk [OF h(1), of chSEMI] h by (auto intro!: parses_Parsed simp: Let_def)
        next
          case True
          then obtain r q u t3 where g: "gettoken b es (skip_ws b es s2) = (r, q, u)" "at b es u t3" "length t3 < length t2"
            using tok [of "skip_ws b es s2" t2] pk [OF h(1), of chSEMI] by auto
          have "parses b es (length t) (andthen (parseline n b es u) (\<lambda>r s. Parsed (LIST c2 r) s))"
          proof (rule parses_andthen)
            show "parses b es (length t) (parseline n b es u)"
              using parses_mono [OF Suc.IH(1) [OF g(2)]] g(3) h(2) \<open>5 * length t + 5 \<le> Suc n\<close> by simp
          qed (use h in \<open>auto intro!: parses_Parsed\<close>)
          then show ?thesis using True pk [OF h(1), of chSEMI] g by (simp add: Let_def)
        qed
      qed
    qed
  next
    case 2
    note prem = this
    have "parses b es (length t) (parseexec n b es s)" using Suc.IH(3) [OF 2(1)] 2(2) by simp
    then show ?case unfolding parsepipe.simps
    proof (rule parses_andthen, goal_cases)
      case (1 c2 s2 t2)
      note h = this
      show ?case
      proof (cases "t2 \<noteq> [] \<and> hd t2 = chPIPE")
        case False
        then show ?thesis using pk [OF h(1), of chPIPE] h by (auto intro!: parses_Parsed simp: Let_def)
      next
        case True
        then obtain r q u t3 where g: "gettoken b es (skip_ws b es s2) = (r, q, u)" "at b es u t3" "length t3 < length t2"
          using tok [of "skip_ws b es s2" t2] pk [OF h(1), of chPIPE] by auto
        have "parses b es (length t) (andthen (parsepipe n b es u) (\<lambda>r s. Parsed (PIPE c2 r) s))"
        proof (rule parses_andthen)
          show "parses b es (length t) (parsepipe n b es u)"
            using parses_mono [OF Suc.IH(2) [OF g(2)]] g(3) h(2) prem by simp
        qed (use h in \<open>auto intro!: parses_Parsed\<close>)
        then show ?thesis using True pk [OF h(1), of chPIPE] g by (simp add: Let_def)
      qed
    qed
  next
    case 3
    note prem = this
    show ?case
    proof (cases "t \<noteq> [] \<and> hd t = chLPAR")
      case True
      then show ?thesis using pk [OF 3(1), of chLPAR] Suc.IH(4) [of "skip_ws b es s" t] 3 by simp
    next
      case False
      note k = pk [OF 3(1), of chLPAR]
      have "parses b es (length t) (parseredirs n b es (EXEC []) (skip_ws b es s))"
        using parseredirs_parses [OF b, of "skip_ws b es s" t n "EXEC []"] k 3 by (simp add: MAXARGS_def)
      then have "parses b es (length t) (andthen (parseredirs n b es (EXEC []) (skip_ws b es s))
          (\<lambda>ret s. parseargs n b es [] ret s))"
      proof (rule parses_andthen, goal_cases)
        case (1 c s t')
        then show ?case using parses_mono [OF parseargs_parses [OF b 1(1) _ 1(3), of n "[]"] 1(2)] prem by (simp add: MAXARGS_def)
      qed
      then show ?thesis using False k by auto
    qed
  next
    case 4
    note prem = this
    note k = pk [OF 4(1), of chLPAR]
    obtain r q u t1 where g: "gettoken b es (skip_ws b es s) = (r, q, u)" "at b es u t1" "length t1 < length t"
      using tok [of "skip_ws b es s" t] k prem by auto
    have "parses b es (length t1) (parseline n b es u)" using Suc.IH(1) [OF g(2)] g(3) prem by simp
    then have "parses b es (length t1) (andthen (parseline n b es u) (\<lambda>c s.
        let (f, s) = peek b es s [chRPAR] in
        if \<not> f then Dies ''syntax - missing )''
        else let (_, _, s) = gettoken b es s in parseredirs n b es c s))"
    proof (rule parses_andthen, goal_cases)
      case (1 c2 s2 t2)
      note h = this
      show ?case
      proof (cases "t2 \<noteq> [] \<and> hd t2 = chRPAR")
        case False
        then show ?thesis using pk [OF h(1), of chRPAR] by (auto simp: Let_def messages_def)
      next
        case True
        then obtain r q u t3 where g3: "gettoken b es (skip_ws b es s2) = (r, q, u)" "at b es u t3" "length t3 < length t2"
          using tok [of "skip_ws b es s2" t2] pk [OF h(1), of chRPAR] by auto
        then show ?thesis using True pk [OF h(1), of chRPAR] h prem g(3)
            parses_mono [OF parseredirs_parses [OF b g3(2) _ h(3), of n], of "length t1"] by (simp add: Let_def)
      qed
    qed
    then show ?case using k prem g parses_mono by (auto simp: Let_def)
  }
qed simp_all

section \<open>Words are strings\<close>

text \<open>A command with its words instead of the places where they are.\<close>

datatype words_cmd =
    Run "u8 list list"
  | Redirect words_cmd "u8 list" u32 int
  | Pipeline words_cmd words_cmd
  | Sequence words_cmd words_cmd
  | Background words_cmd

fun with_words :: "(tok \<Rightarrow> u8 list) \<Rightarrow> cmd \<Rightarrow> words_cmd" where
  "with_words f (EXEC ts) = Run (map f ts)"
| "with_words f (REDIR c t m d) = Redirect (with_words f c) (f t) m d"
| "with_words f (PIPE l r) = Pipeline (with_words f l) (with_words f r)"
| "with_words f (LIST l r) = Sequence (with_words f l) (with_words f r)"
| "with_words f (BACK c) = Background (with_words f c)"

text \<open>What \<^verbatim>\<open>runcmd\<close> reads, C strings, and what was written, counted strings.\<close>

definition string_at :: "u8 list \<Rightarrow> tok \<Rightarrow> u8 list" where "string_at b t = cstr (drop (fst t) b)"

fun toks :: "cmd \<Rightarrow> tok list" where
  "toks (EXEC ts) = ts"
| "toks (REDIR c t m d) = t # toks c"
| "toks (PIPE l r) = toks l @ toks r"
| "toks (LIST l r) = toks l @ toks r"
| "toks (BACK c) = toks c"

lemma with_words_cong: "(\<And>t. t \<in> set (toks c) \<Longrightarrow> f t = g t) \<Longrightarrow> with_words f c = with_words g c"
  by (induction c) auto

lemma good_toks: "good_cmd b es c \<Longrightarrow> t \<in> set (toks c) \<Longrightarrow> tok_ok b es t"
  by (induction c) (auto simp: list_all_iff)

lemma fold_zero:
  "length (fold (\<lambda>(q, eq) b. b[eq := 0]) ts b) = length b \<and>
   (i < length b \<longrightarrow> fold (\<lambda>(q, eq) b. b[eq := 0]) ts b ! i = (if i \<in> snd ` set ts then 0 else b ! i :: u8))"
proof (induction ts arbitrary: b)
  case (Cons t ts)
  then show ?case by (cases t) (auto simp: nth_list_update)
qed simp

lemma nulterminate_length: "length (nulterminate c b) = length b"
  by (induction c b rule: nulterminate.induct) (auto simp: fold_zero)

lemma nulterminate_nth:
  "i < length b \<Longrightarrow> nulterminate c b ! i = (if i \<in> snd ` set (toks c) then 0 else b ! i)"
proof (induction c b rule: nulterminate.induct)
  case (2 c q eq m d b)
  then show ?case by (cases "i = eq") (simp_all add: nulterminate_length)
qed (simp_all add: fold_zero nulterminate_length image_Un)

lemma cstr_upto:
  assumes "q \<le> e" "e < length b" "b ! e = 0" "\<And>i. q \<le> i \<Longrightarrow> i < e \<Longrightarrow> b ! i \<noteq> 0"
  shows "cstr (drop q b) = take (e - q) (drop q b)"
proof -
  let ?w = "take (e - q) (drop q b)"
  have d: "drop q b = ?w @ drop e b"
    using assms(1) append_take_drop_id [of "e - q" "drop q b"] by simp
  have e: "drop e b = 0 # drop (Suc e) b" using assms(2,3) Cons_nth_drop_Suc [of e b] by simp
  have "c \<noteq> 0" if c: "c \<in> set ?w" for c
  proof -
    obtain i where "i < length ?w" "c = ?w ! i" using c in_set_conv_nth by metis
    then show ?thesis using assms by simp
  qed
  then have "takeWhile (\<lambda>c. c \<noteq> 0) (?w @ 0 # drop (Suc e) b) = ?w" by (simp add: takeWhile_append)
  then show ?thesis using d e by (simp add: cstr_def)
qed

lemma nulterminate_words:
  assumes b: "strlen b = Some es" and g: "good_cmd b es c"
  shows "with_words (string_at (nulterminate c b)) c = with_words (text_of b) c"
proof (rule with_words_cong)
  fix t assume t: "t \<in> set (toks c)"
  obtain q e where qe: "t = (q, e)" by (cases t)
  have ok: "q < e" "e \<le> es" "plain (b ! i)" if "i \<in> {q..<e}" for i
    using good_toks [OF g t] that by (auto simp: tok_ok_def qe)
  have qe': "q < e" "e \<le> es" using good_toks [OF g t] by (auto simp: tok_ok_def qe)
  have l: "e < length b" using line_end(1) [OF b] qe' by simp
  have ends: "i \<notin> snd ` set (toks c)" if "i \<in> {q..<e}" for i
    using ok(3) [OF that] good_toks [OF g] by (auto simp: tok_ok_def)
  have n: "nulterminate c b ! i = b ! i" if "i \<in> {q..<e}" for i
    using nulterminate_nth [of i b c] ends [OF that] that l by auto
  have z: "nulterminate c b ! e = 0" using nulterminate_nth [of e b c] l t qe by force
  have "cstr (drop q (nulterminate c b)) = take (e - q) (drop q (nulterminate c b))"
    by (rule cstr_upto) (use qe' l nulterminate_length [of c b] z n ok(3) in \<open>auto simp: plain_def\<close>)
  also have "\<dots> = take (e - q) (drop q b)"
    by (rule nth_equalityI) (use n nulterminate_length [of c b] l in auto)
  finally show "string_at (nulterminate c b) t = text_of b t" by (simp add: string_at_def text_of_def qe)
qed

section \<open>The property\<close>

text \<open>The fuel of \<open>parsecmd\<close> is enough.\<close>

lemma parse_fuel_enough:
  assumes "strlen line = Some n"
  shows "parses line n n (parseline (parse_fuel n) line n 0)"
proof -
  let ?t = "skipped (rest line n 0)"
  have t: "at line n 0 ?t" by (simp add: at_def)
  have l: "length ?t \<le> n"
    using length_dropWhile_le [of blank "rest line n 0"] line_end(1) [OF assms] by (simp add: length_rest)
  have "parses line n (length ?t) (parseline (parse_fuel n) line n 0)"
    by (rule parser_parses(1) [OF assms t]) (use l in \<open>simp add: parse_fuel_def\<close>)
  then show ?thesis using parses_mono l by blast
qed

lemma parsecmd_total:
  assumes "strlen line = Some n"
  shows "(\<exists>e\<in>messages. parsecmd line = Some (Dies e)) \<or>
    (\<exists>c b. parsecmd line = Some (Parsed (c, b) n) \<and> good_cmd line n c \<and> length b = length line \<and>
       with_words (string_at b) c = with_words (text_of line) c)"
proof -
  have p: "parses line n n (parseline (parse_fuel n) line n 0)" by (rule parse_fuel_enough [OF assms])
  show ?thesis
  proof (cases "parseline (parse_fuel n) line n 0")
    case (Parsed c s)
    then obtain u where u: "at line n s u" and g: "good_cmd line n c" using p by (auto simp: parses_def)
    have pk: "peek line n s [] = (False, skip_ws line n s)" using at_peek [OF assms u, of "[]"] by simp
    show ?thesis
      using Parsed pk g nulterminate_words [OF assms g] nulterminate_length [of c line] assms
      by (auto simp: parsecmd_def messages_def)
  next
    case (Dies e)
    then show ?thesis using p assms by (simp add: parsecmd_def)
  next
    case NoFuel
    then show ?thesis using p by simp
  qed
qed

text \<open>C35. For every line the shell's parser terminates: it panics with one of four messages, or it
  consumes the line and returns a command with fewer than MAXARGS arguments each, whose words, after
  nulterminate has written its zeros, are as C strings exactly what they were on the line.\<close>

theorem parsecmd_terminates:
  assumes "strlen line = Some n"
  shows "(\<exists>e\<in>messages. parsecmd line = Some (Dies e)) \<or>
    (\<exists>c b. parsecmd line = Some (Parsed (c, b) n) \<and> good_cmd line n c \<and> length b = length line \<and>
       with_words (string_at b) c = with_words (text_of line) c)"
  by (rule parsecmd_total [OF assms])

text \<open>The line \<^verbatim>\<open>a|(b;c)>d&\<close>.\<close>

definition line_ok :: "u8 list" where
  "line_ok = [0x61, chPIPE, chLPAR, 0x62, chSEMI, 0x63, chRPAR, chGREATER, 0x64, chAMP, 0]"

lemma line_ok_len: "strlen line_ok = Some 10"
  by (simp add: line_ok_def)

theorem parsecmd_terminates_witness:
  "(\<exists>e\<in>messages. parsecmd line_ok = Some (Dies e)) \<or>
    (\<exists>c b. parsecmd line_ok = Some (Parsed (c, b) 10) \<and> good_cmd line_ok 10 c \<and> length b = length line_ok \<and>
       with_words (string_at b) c = with_words (text_of line_ok) c)"
  by (rule parsecmd_terminates [OF line_ok_len])

end
