(* ===== verification/Sh_Roundtrip.thy ===== *)
theory Sh_Roundtrip
  imports Sh_Total
begin

text \<open>
  Every command can be written as a line that the shell's parser reads back as this command: lists
  and pipelines nest to the right, and parentheses, which leave no trace in the command, do the rest.
\<close>

section \<open>Writing a command\<close>

definition show_word :: "u8 list \<Rightarrow> u8 list" where "show_word w = w @ [0x20]"

definition show_redir :: "u8 list \<times> u32 \<times> int \<Rightarrow> u8 list" where
  "show_redir = (\<lambda>(f, m, d).
     (if d = 0 then [chLESS] else if m = (O_WRONLY OR O_CREATE) then [chGREATER, chGREATER] else [chGREATER]) @
     show_word f)"

definition parens :: "bool \<Rightarrow> u8 list \<Rightarrow> u8 list" where
  "parens p t = (if p then chLPAR # t @ [chRPAR] else t)"

text \<open>
  The level says where the text stands: 0 for a line, 1 before \<^verbatim>\<open>&\<close> or \<^verbatim>\<open>;\<close>, 2 for the right and 3 for the
  left side of a pipe.
\<close>

fun show_at :: "nat \<Rightarrow> words_cmd \<Rightarrow> u8 list" where
  "show_at k (Run ws) = concat (map show_word ws)"
| "show_at k (Redirect c f m d) = show_at 3 c @ show_redir (f, m, d)"
| "show_at k (Pipeline l r) = parens (2 < k) (show_at 3 l @ chPIPE # show_at 2 r)"
| "show_at k (Sequence l r) = parens (0 < k) (show_at 1 l @ chSEMI # show_at 0 r)"
| "show_at k (Background c) = parens (1 < k) (show_at 1 c @ [chAMP])"

definition word :: "u8 list \<Rightarrow> bool" where "word w \<longleftrightarrow> w \<noteq> [] \<and> list_all plain w"

fun writable :: "words_cmd \<Rightarrow> bool" where
  "writable (Run ws) \<longleftrightarrow> length ws < MAXARGS \<and> list_all word ws"
| "writable (Redirect c f m d) \<longleftrightarrow> writable c \<and> word f \<and> (m, d) \<in> redir_modes"
| "writable (Pipeline l r) \<longleftrightarrow> writable l \<and> writable r"
| "writable (Sequence l r) \<longleftrightarrow> writable l \<and> writable r"
| "writable (Background c) \<longleftrightarrow> writable c"

section \<open>Redirections\<close>

text \<open>The innermost command and the redirections around it, the innermost one first.\<close>

fun base :: "words_cmd \<Rightarrow> words_cmd" where
  "base (Redirect c f m d) = base c" | "base c = c"

fun redirs :: "words_cmd \<Rightarrow> (u8 list \<times> u32 \<times> int) list" where
  "redirs (Redirect c f m d) = redirs c @ [(f, m, d)]" | "redirs c = []"

abbreviation redirect_all :: "(u8 list \<times> u32 \<times> int) list \<Rightarrow> words_cmd \<Rightarrow> words_cmd" where
  "redirect_all \<equiv> fold (\<lambda>(f, m, d) c. Redirect c f m d)"

abbreviation redir_all :: "(tok \<times> u32 \<times> int) list \<Rightarrow> cmd \<Rightarrow> cmd" where
  "redir_all \<equiv> fold (\<lambda>(f, m, d) c. REDIR c f m d)"

definition show_redirs :: "(u8 list \<times> u32 \<times> int) list \<Rightarrow> u8 list" where
  "show_redirs rs = concat (map show_redir rs)"

definition redir_ok :: "u8 list \<times> u32 \<times> int \<Rightarrow> bool" where
  "redir_ok = (\<lambda>(f, m, d). word f \<and> (m, d) \<in> redir_modes)"

abbreviation texts :: "u8 list \<Rightarrow> (tok \<times> u32 \<times> int) list \<Rightarrow> (u8 list \<times> u32 \<times> int) list" where
  "texts b \<equiv> map (\<lambda>(t, m, d). (text_of b t, m, d))"

lemma base_redirs:
  "a = redirect_all (redirs a) (base a)" "show_at 3 a = show_at 3 (base a) @ show_redirs (redirs a)"
  "writable a \<Longrightarrow> writable (base a) \<and> list_all redir_ok (redirs a)" "size (base a) \<le> size a"
  by (induction a) (auto simp: show_redirs_def redir_ok_def)

lemma with_words_redir_all:
  "with_words (text_of b) (redir_all ts c) = redirect_all (texts b ts) (with_words (text_of b) c)"
  by (induction ts arbitrary: c) auto

lemma set_argv_redir_all: "set_argv a (redir_all ts (EXEC x)) = redir_all ts (EXEC a)"
proof -
  have "set_argv a (redir_all ts c) = redir_all ts (set_argv a c)" for c by (induction ts arbitrary: c) auto
  then show ?thesis by simp
qed

lemma skipped_word: "word w \<Longrightarrow> skipped (show_word w @ y) = w @ 0x20 # y"
  by (cases w) (auto simp: word_def show_word_def plain_def)

lemma not_plain_blank [simp]: "\<not> plain 0x20" "blank 0x20"
  by (simp_all add: plain_def whitespace_def)

lemma symbols_not_blank [simp]:
  "\<not> blank chLESS" "\<not> blank chGREATER" "\<not> blank chPIPE" "\<not> blank chSEMI" "\<not> blank chAMP" "\<not> blank chLPAR" "\<not> blank chRPAR"
  by (simp_all add: whitespace_def)

lemma symbols_are [simp]:
  "chLESS \<in> set symbols" "chGREATER \<in> set symbols" "chPIPE \<in> set symbols" "chSEMI \<in> set symbols"
  "chAMP \<in> set symbols" "chLPAR \<in> set symbols" "chRPAR \<in> set symbols"
  by (simp_all add: symbols_def)

lemma gettoken_show_word:
  assumes "strlen b = Some es" "at b es s (skipped (show_word w @ y))" "word w"
  shows "\<exists>qe s'. gettoken b es s = (chWORD, qe, s') \<and> text_of b qe = w \<and> at b es s' (skipped y)"
proof -
  have "at b es s (w @ 0x20 # y)" using assms(2) skipped_word [OF assms(3)] by simp
  from gettoken_word [OF assms(1) this] assms(3) show ?thesis by (auto simp: word_def)
qed

lemma redir_tokens:
  assumes b: "strlen b = Some es" and a: "at b es s (skipped (show_redir r @ y))" and r: "redir_ok r"
  obtains t q1 s1 q2 s2 where "hd (skipped (show_redir r @ y)) \<in> {chLESS, chGREATER}" "skipped (show_redir r @ y) \<noteq> []"
    "gettoken b es s = (t, q1, s1)" "gettoken b es s1 = (chWORD, q2, s2)" "at b es s2 (skipped y)"
    "\<And>c. redircmd_of t q2 c = REDIR c q2 (fst (snd r)) (snd (snd r))" "text_of b q2 = fst r"
proof -
  note goal = that
  obtain f m d where f: "r = (f, m, d)" by (cases r)
  then have w: "word f" and md: "(m, d) \<in> redir_modes" using r by (simp_all add: redir_ok_def)
  have ng: "skipped (show_word f @ y) = [] \<or> hd (skipped (show_word f @ y)) \<noteq> chGREATER"
    "show_word f @ y = [] \<or> hd (show_word f @ y) \<noteq> chGREATER"
    using w skipped_word [OF w, of y] by (cases f; auto simp: word_def plain_def show_word_def symbols_def)+
  have fin: thesis if t: "gettoken b es s = (t, q1, s1)" "at b es s1 (skipped (show_word f @ y))"
    "redircmd_of t = (\<lambda>q c. REDIR c q m d)" "hd (show_redir r) \<in> {chLESS, chGREATER}" for t q1 s1
  proof -
    obtain q2 s2 where g: "gettoken b es s1 = (chWORD, q2, s2)" "text_of b q2 = f" "at b es s2 (skipped y)"
      using gettoken_show_word [OF b t(2) w] by blast
    have "show_redir r \<noteq> []" by (simp add: show_redir_def f)
    then obtain x xs where x: "show_redir r = x # xs" by (cases "show_redir r") auto
    then have "\<not> blank x" using t(4) by auto
    then show thesis using goal [OF _ _ t(1) g(1,3)] t(3,4) g(2) x f by auto
  qed
  consider "m = O_RDONLY" "d = 0" | "m = (O_WRONLY OR O_CREATE) OR O_TRUNC" "d = 1" | "m = (O_WRONLY OR O_CREATE)" "d = 1"
    using md by (auto simp: redir_modes_def)
  then show thesis
  proof cases
    case 1
    then have "at b es s (chLESS # show_word f @ y)" using a by (simp add: show_redir_def f)
    from gettoken_symbol [OF b this] obtain qe s1 where "gettoken b es s = (chLESS, qe, s1)" "at b es s1 (skipped (show_word f @ y))"
      by auto
    then show thesis by (rule fin) (auto simp: redircmd_of_def fun_eq_iff show_redir_def f 1)
  next
    case 2
    have ne: "m \<noteq> (O_WRONLY OR O_CREATE)" using 2 by (simp add: fcntl_defs)
    then have "at b es s (chGREATER # show_word f @ y)" using a 2(2) by (simp add: show_redir_def f)
    from gettoken_symbol [OF b this] ng(2) obtain qe s1 where "gettoken b es s = (chGREATER, qe, s1)" "at b es s1 (skipped (show_word f @ y))"
      by auto
    then show thesis by (rule fin) (use ne 2 in \<open>auto simp: redircmd_of_def fun_eq_iff show_redir_def f\<close>)
  next
    case 3
    then have "at b es s (chGREATER # chGREATER # show_word f @ y)" using a by (simp add: show_redir_def f)
    from gettoken_append [OF b this] obtain qe s1 where "gettoken b es s = (chPLUS, qe, s1)" "at b es s1 (skipped (show_word f @ y))"
      by auto
    then show thesis by (rule fin) (use 3 in \<open>auto simp: redircmd_of_def fun_eq_iff show_redir_def f\<close>)
  qed
qed

definition no_redir :: "u8 list \<Rightarrow> bool" where
  "no_redir y \<longleftrightarrow> skipped y = [] \<or> hd (skipped y) \<notin> {chLESS, chGREATER}"

lemma parseredirs_show:
  assumes b: "strlen b = Some es"
  shows "at b es s (skipped (show_redirs rs @ y)) \<Longrightarrow> list_all redir_ok rs \<Longrightarrow> no_redir y \<Longrightarrow>
    parseredirs n b es c s = NoFuel \<or>
    (\<exists>ts s'. parseredirs n b es c s = Parsed (redir_all ts c) s' \<and> texts b ts = rs \<and> at b es s' (skipped y))"
proof (induction rs arbitrary: n c s)
  case Nil
  have "at b es s (skipped y)" using Nil by (simp add: show_redirs_def)
  from at_peek [OF b this, of "[chLESS, chGREATER]"] Nil(3)
  have "peek b es s [chLESS, chGREATER] = (False, skip_ws b es s)" "at b es (skip_ws b es s) (skipped y)"
    by (auto simp: no_redir_def)
  then show ?case by (cases n) (auto intro!: exI [of _ "[]"])
next
  case (Cons r rs)
  show ?case
  proof (cases n)
    case (Suc k)
    let ?t = "skipped (show_redir r @ show_redirs rs @ y)"
    have a: "at b es s ?t" using Cons(2) by (simp add: show_redirs_def)
    have p: "peek b es s [chLESS, chGREATER] = (?t \<noteq> [] \<and> hd ?t \<in> {chLESS, chGREATER}, skip_ws b es s)"
      "at b es (skip_ws b es s) ?t" using at_peek [OF b a, of "[chLESS, chGREATER]"] by simp_all
    obtain t q1 s1 q2 s2 where g: "hd ?t \<in> {chLESS, chGREATER}" "?t \<noteq> []"
      "gettoken b es (skip_ws b es s) = (t, q1, s1)" "gettoken b es s1 = (chWORD, q2, s2)"
      "at b es s2 (skipped (show_redirs rs @ y))"
      "\<And>c. redircmd_of t q2 c = REDIR c q2 (fst (snd r)) (snd (snd r))" "text_of b q2 = fst r"
      using redir_tokens [OF b p(2)] Cons(3) list.pred_inject(2) by metis
    have e: "parseredirs n b es c s = parseredirs k b es (REDIR c q2 (fst (snd r)) (snd (snd r))) s2"
      using p g by (simp add: Suc Let_def)
    have "parseredirs k b es (REDIR c q2 (fst (snd r)) (snd (snd r))) s2 = NoFuel \<or>
      (\<exists>ts s'. parseredirs k b es (REDIR c q2 (fst (snd r)) (snd (snd r))) s2 =
          Parsed (redir_all ts (REDIR c q2 (fst (snd r)) (snd (snd r)))) s' \<and> texts b ts = rs \<and> at b es s' (skipped y))"
      by (rule Cons.IH [OF g(5)]) (use Cons in auto)
    then show ?thesis unfolding e
    proof (elim disjE exE conjE)
      fix ts s'
      assume h: "parseredirs k b es (REDIR c q2 (fst (snd r)) (snd (snd r))) s2 =
          Parsed (redir_all ts (REDIR c q2 (fst (snd r)) (snd (snd r)))) s'" "texts b ts = rs" "at b es s' (skipped y)"
      have "texts b ((q2, fst (snd r), snd (snd r)) # ts) = r # rs" using h(2) g(7) by simp
      moreover have "redir_all ((q2, fst (snd r), snd (snd r)) # ts) c = redir_all ts (REDIR c q2 (fst (snd r)) (snd (snd r)))"
        by (simp add: case_prod_beta)
      ultimately show "parseredirs k b es (REDIR c q2 (fst (snd r)) (snd (snd r))) s2 = NoFuel \<or>
        (\<exists>ts s'. parseredirs k b es (REDIR c q2 (fst (snd r)) (snd (snd r))) s2 = Parsed (redir_all ts c) s' \<and>
          texts b ts = r # rs \<and> at b es s' (skipped y))"
        using h(1,3) by metis
    qed simp
  qed simp
qed

section \<open>Arguments\<close>

text \<open>What may follow the text of a command at each level.\<close>

definition follows :: "u8 list \<Rightarrow> u8 list \<Rightarrow> bool" where
  "follows k y \<longleftrightarrow> skipped y = [] \<or> hd (skipped y) \<in> set k"

abbreviation after_exec :: "u8 list" where "after_exec \<equiv> [chRPAR, chSEMI, chAMP, chPIPE]"
abbreviation after_pipe :: "u8 list" where "after_pipe \<equiv> [chRPAR, chSEMI, chAMP]"
abbreviation after_line :: "u8 list" where "after_line \<equiv> [chRPAR]"

lemma parseargs_stop:
  assumes b: "strlen b = Some es" and a: "at b es s (skipped y)" and f: "follows after_exec y"
  shows "parseargs n b es argv c s = NoFuel \<or> (\<exists>s'. parseargs n b es argv c s = Parsed (set_argv argv c) s' \<and> at b es s' (skipped y))"
proof (cases n)
  case (Suc k)
  let ?k = "[chPIPE, chRPAR, chAMP, chSEMI]"
  have p: "peek b es s ?k = (skipped y \<noteq> [], skip_ws b es s)" "at b es (skip_ws b es s) (skipped y)"
    using at_peek [OF b a, of ?k] f by (auto simp: follows_def)
  show ?thesis
  proof (cases "skipped y = []")
    case True
    then obtain qe u where "gettoken b es (skip_ws b es s) = (0, qe, u)" "at b es u []"
      using gettoken_end [OF b] p(2) by metis
    then show ?thesis unfolding True using p by (simp add: Suc Let_def True)
  qed (use p Suc in simp)
qed simp

lemma plain_no_symbol: "plain c \<Longrightarrow> c \<notin> {chLESS, chGREATER, chLPAR, chPIPE, chRPAR, chAMP, chSEMI} \<and> c \<noteq> 0"
  by (auto simp: plain_def)

lemma show_word_start:
  assumes "word w"
  shows "skipped (show_word w @ y) \<noteq> []" "plain (hd (skipped (show_word w @ y)))"
    "hd (skipped (show_word w @ y)) \<notin> {chLESS, chGREATER, chLPAR, chPIPE, chRPAR, chAMP, chSEMI}"
proof -
  have e: "skipped (show_word w @ y) = w @ 0x20 # y" by (rule skipped_word [OF assms])
  show "skipped (show_word w @ y) \<noteq> []" unfolding e by simp
  show p: "plain (hd (skipped (show_word w @ y)))" unfolding e using assms by (cases w) (auto simp: word_def)
  show "hd (skipped (show_word w @ y)) \<notin> {chLESS, chGREATER, chLPAR, chPIPE, chRPAR, chAMP, chSEMI}"
    using plain_no_symbol [OF p] by blast
qed

lemma parseargs_show:
  assumes b: "strlen b = Some es"
  shows "at b es s (skipped (concat (map show_word (w # ws)) @ show_redirs rs @ y)) \<Longrightarrow> list_all word (w # ws) \<Longrightarrow>
    list_all redir_ok rs \<Longrightarrow> follows after_exec y \<Longrightarrow> length argv + length (w # ws) < MAXARGS \<Longrightarrow>
    parseargs n b es argv c s = NoFuel \<or>
    (\<exists>as ts s'. parseargs n b es argv c s = Parsed (set_argv (argv @ as) (redir_all ts c)) s' \<and>
       map (text_of b) as = w # ws \<and> texts b ts = rs \<and> at b es s' (skipped y))"
proof (induction ws arbitrary: w n argv s)
  case (Nil w n argv s)
  show ?case
  proof (cases n)
    case (Suc k)
    let ?k = "[chPIPE, chRPAR, chAMP, chSEMI]"
    let ?t = "skipped (show_word w @ show_redirs rs @ y)"
    have a: "at b es s ?t" using Nil(1) by simp
    have p: "peek b es s ?k = (False, skip_ws b es s)" "at b es (skip_ws b es s) ?t"
      using at_peek [OF b a, of ?k] show_word_start(3) [of w "show_redirs rs @ y"] Nil(2) by auto
    obtain qe u where g: "gettoken b es (skip_ws b es s) = (chWORD, qe, u)" "text_of b qe = w" "at b es u (skipped (show_redirs rs @ y))"
      using gettoken_show_word [OF b p(2)] Nil(2) by auto
    have e: "parseargs n b es argv c s = andthen (parseredirs k b es c u) (\<lambda>ret s. parseargs k b es (argv @ [qe]) ret s)"
      using p g Nil(5) by (simp add: Suc Let_def)
    have nr: "no_redir y" using Nil(4) by (auto simp: follows_def no_redir_def)
    show ?thesis using parseredirs_show [OF b g(3) Nil(3) nr, of k c]
    proof (elim disjE exE conjE)
      fix ts s' assume h: "parseredirs k b es c u = Parsed (redir_all ts c) s'" "texts b ts = rs" "at b es s' (skipped y)"
      then show ?thesis using parseargs_stop [OF b h(3) Nil(4), of k "argv @ [qe]" "redir_all ts c"] g(2) unfolding e
        by (auto intro!: exI [of _ "[qe]"] exI [of _ ts])
    qed (simp add: e)
  qed simp
next
  case (Cons w' ws w n argv s)
  show ?case
  proof (cases n)
    case (Suc k)
    let ?k = "[chPIPE, chRPAR, chAMP, chSEMI]"
    let ?r = "concat (map show_word (w' # ws)) @ show_redirs rs @ y"
    let ?t = "skipped (show_word w @ ?r)"
    have a: "at b es s ?t" using Cons(2) by simp
    have p: "peek b es s ?k = (False, skip_ws b es s)" "at b es (skip_ws b es s) ?t"
      using at_peek [OF b a, of ?k] show_word_start(3) [of w ?r] Cons(3) by auto
    obtain qe u where g: "gettoken b es (skip_ws b es s) = (chWORD, qe, u)" "text_of b qe = w" "at b es u (skipped ?r)"
      using gettoken_show_word [OF b p(2)] Cons(3) by auto
    have e: "parseargs n b es argv c s = andthen (parseredirs k b es c u) (\<lambda>ret s. parseargs k b es (argv @ [qe]) ret s)"
      using p g Cons(6) by (simp add: Suc Let_def)
    have nr: "no_redir ?r"
      using show_word_start(3) [of w' "concat (map show_word ws) @ show_redirs rs @ y"] Cons(3) by (simp add: no_redir_def)
    have "at b es u (skipped (show_redirs [] @ ?r))" using g(3) by (simp add: show_redirs_def)
    from parseredirs_show [OF b this _ nr, of k c] have "parseredirs k b es c u = NoFuel \<or>
      (\<exists>s'. parseredirs k b es c u = Parsed c s' \<and> at b es s' (skipped ?r))" by auto
    then show ?thesis
    proof (elim disjE exE conjE)
      fix s' assume h: "parseredirs k b es c u = Parsed c s'" "at b es s' (skipped ?r)"
      have "parseargs k b es (argv @ [qe]) c s' = NoFuel \<or>
        (\<exists>as ts s''. parseargs k b es (argv @ [qe]) c s' = Parsed (set_argv ((argv @ [qe]) @ as) (redir_all ts c)) s'' \<and>
           map (text_of b) as = w' # ws \<and> texts b ts = rs \<and> at b es s'' (skipped y))"
        by (rule Cons.IH [OF h(2)]) (use Cons in auto)
      then show ?thesis
      proof (elim disjE exE conjE)
        fix as ts s'' assume i: "parseargs k b es (argv @ [qe]) c s' = Parsed (set_argv ((argv @ [qe]) @ as) (redir_all ts c)) s''"
          "map (text_of b) as = w' # ws" "texts b ts = rs" "at b es s'' (skipped y)"
        then show ?thesis using e h(1) g(2) by (auto intro!: exI [of _ "qe # as"] exI [of _ ts])
      qed (use e h in simp)
    qed (simp add: e)
  qed simp
qed

section \<open>Commands at each level\<close>

definition yields :: "u8 list \<Rightarrow> nat \<Rightarrow> words_cmd \<Rightarrow> u8 list \<Rightarrow> cmd parsed \<Rightarrow> bool" where
  "yields b es a z r \<longleftrightarrow> r = NoFuel \<or> (\<exists>c s. r = Parsed c s \<and> with_words (text_of b) c = a \<and> at b es s z)"

definition line_reads :: "u8 list \<Rightarrow> nat \<Rightarrow> words_cmd \<Rightarrow> bool" where
  "line_reads b es a \<longleftrightarrow> (\<forall>n s y. at b es s (skipped (show_at 0 a @ y)) \<longrightarrow> follows after_line y \<longrightarrow>
     yields b es a (skipped y) (parseline n b es s))"

definition pipe_reads :: "u8 list \<Rightarrow> nat \<Rightarrow> words_cmd \<Rightarrow> bool" where
  "pipe_reads b es a \<longleftrightarrow> (\<forall>n s y. at b es s (skipped (show_at 2 a @ y)) \<longrightarrow> follows after_pipe y \<longrightarrow>
     yields b es a (skipped y) (parsepipe n b es s))"

definition exec_reads :: "u8 list \<Rightarrow> nat \<Rightarrow> words_cmd \<Rightarrow> bool" where
  "exec_reads b es a \<longleftrightarrow> (\<forall>n s y. at b es s (skipped (show_at 3 a @ y)) \<longrightarrow> follows after_exec y \<longrightarrow>
     yields b es a (skipped y) (parseexec n b es s))"

text \<open>A pipeline and the \<^verbatim>\<open>&\<close>s after it; more of them may follow.\<close>

definition back_reads :: "u8 list \<Rightarrow> nat \<Rightarrow> words_cmd \<Rightarrow> bool" where
  "back_reads b es a \<longleftrightarrow> (\<forall>n s y. at b es s (skipped (show_at 1 a @ y)) \<longrightarrow> follows after_pipe y \<longrightarrow>
     andthen (parsepipe n b es s) (\<lambda>c s. parsebacks n b es c s) = NoFuel \<or>
     (\<exists>m c s'. andthen (parsepipe n b es s) (\<lambda>c s. parsebacks n b es c s) = parsebacks m b es c s' \<and>
        with_words (text_of b) c = a \<and> at b es s' (skipped y)))"

lemma follows_mono: "follows k y \<Longrightarrow> set k \<subseteq> set k' \<Longrightarrow> follows k' y"
  by (auto simp: follows_def)

lemma follows_symbol: "\<not> blank x \<Longrightarrow> x \<in> set k \<Longrightarrow> follows k (x # y)"
  by (simp add: follows_def)

lemma peek_follow:
  assumes "strlen b = Some es" "at b es s (skipped y)" "follows k y" "x \<notin> set k" "x \<noteq> 0"
  shows "peek b es s [x] = (False, skip_ws b es s)" "at b es (skip_ws b es s) (skipped y)"
  using at_peek [OF assms(1,2), of "[x]"] assms(3-5) by (auto simp: follows_def)

lemma peek_symbol:
  assumes "strlen b = Some es" "at b es s (x # y)" "x \<in> set symbols" "x \<noteq> chGREATER"
  shows "\<exists>c qe s'. peek b es s [x] = (True, skip_ws b es s) \<and> gettoken b es (skip_ws b es s) = (c, qe, s') \<and> at b es s' (skipped y)"
proof -
  have "x \<noteq> 0" using assms(3) by (auto simp: symbols_def)
  then have p: "peek b es s [x] = (True, skip_ws b es s)" "at b es (skip_ws b es s) (x # y)"
    using at_peek [OF assms(1,2), of "[x]"] by simp_all
  then show ?thesis using gettoken_symbol [OF assms(1) p(2) assms(3)] assms(4) by blast
qed

lemma exec_reads_block:
  assumes b: "strlen b = Some es" and l: "line_reads b es (base a)" and r: "list_all redir_ok (redirs a)"
    and s3: "show_at 3 (base a) = chLPAR # show_at 0 (base a) @ [chRPAR]"
  shows "exec_reads b es a"
  unfolding exec_reads_def
proof (intro allI impI)
  fix n s y assume h: "at b es s (skipped (show_at 3 a @ y))" and f: "follows after_exec y"
  let ?y = "show_redirs (redirs a) @ y"
  have a: "at b es s (chLPAR # show_at 0 (base a) @ chRPAR # ?y)" using h base_redirs(2) [of a] s3 by simp
  show "yields b es a (skipped y) (parseexec n b es s)"
  proof (cases n)
    case (Suc k)
    have p: "peek b es s [chLPAR] = (True, skip_ws b es s)"
      using peek_symbol [OF b a] by auto
    have a': "at b es (skip_ws b es s) (chLPAR # show_at 0 (base a) @ chRPAR # ?y)"
      using at_peek(2) [OF b a, of "[]"] by simp
    obtain c' q' s2 where p2: "peek b es (skip_ws b es s) [chLPAR] = (True, skip_ws b es (skip_ws b es s))"
      "gettoken b es (skip_ws b es (skip_ws b es s)) = (c', q', s2)" "at b es s2 (skipped (show_at 0 (base a) @ chRPAR # ?y))"
      using peek_symbol [OF b a'] by auto
    show ?thesis
    proof (cases k)
      case 0
      then show ?thesis using Suc p by (simp add: yields_def)
    next
      case (Suc j)
      have y: "yields b es (base a) (chRPAR # ?y) (parseline j b es s2)"
        using l p2(3) follows_symbol [of chRPAR after_line ?y] unfolding line_reads_def by fastforce
      have nr: "no_redir y" using f by (auto simp: follows_def no_redir_def)
      show ?thesis using y unfolding yields_def
      proof (elim disjE exE conjE)
        assume "parseline j b es s2 = NoFuel"
        then show "parseexec n b es s = NoFuel \<or> (\<exists>c u. parseexec n b es s = Parsed c u \<and> with_words (text_of b) c = a \<and> at b es u (skipped y))"
          using \<open>n = Suc k\<close> Suc p p2 by simp
      next
        fix c3 s3 assume c3: "parseline j b es s2 = Parsed c3 s3" "with_words (text_of b) c3 = base a" "at b es s3 (chRPAR # ?y)"
        obtain c4 q4 s4 where p4: "peek b es s3 [chRPAR] = (True, skip_ws b es s3)"
          "gettoken b es (skip_ws b es s3) = (c4, q4, s4)" "at b es s4 (skipped ?y)"
          using peek_symbol [OF b c3(3)] by auto
        have e: "parseexec n b es s = parseredirs j b es c3 s4"
          using \<open>n = Suc k\<close> Suc p p2 p4 c3 by (simp add: Let_def)
        from parseredirs_show [OF b p4(3) r nr, of j c3]
        show "parseexec n b es s = NoFuel \<or> (\<exists>c u. parseexec n b es s = Parsed c u \<and> with_words (text_of b) c = a \<and> at b es u (skipped y))"
          unfolding e
        proof (elim disjE exE conjE)
          fix ts u assume t: "parseredirs j b es c3 s4 = Parsed (redir_all ts c3) u" "texts b ts = redirs a" "at b es u (skipped y)"
          have "with_words (text_of b) (redir_all ts c3) = a"
            using with_words_redir_all [of b ts c3] t(2) c3(2) base_redirs(1) [of a] by simp
          then show "parseredirs j b es c3 s4 = NoFuel \<or>
            (\<exists>c u. parseredirs j b es c3 s4 = Parsed c u \<and> with_words (text_of b) c = a \<and> at b es u (skipped y))"
            using t by blast
        qed simp
      qed
    qed
  qed (simp add: yields_def)
qed

lemma exec_reads_run:
  assumes b: "strlen b = Some es" and a: "base a = Run ws" and w: "length ws < MAXARGS" "list_all word ws"
    and r: "list_all redir_ok (redirs a)"
  shows "exec_reads b es a"
  unfolding exec_reads_def
proof (intro allI impI)
  fix n s y assume h: "at b es s (skipped (show_at 3 a @ y))" and f: "follows after_exec y"
  have nr: "no_redir y" using f by (auto simp: follows_def no_redir_def)
  let ?t = "concat (map show_word ws) @ show_redirs (redirs a) @ y"
  have at: "at b es s (skipped ?t)" using h base_redirs(2) [of a] a by simp
  have fin: "with_words (text_of b) (set_argv as (redir_all ts (EXEC []))) = a"
    if "map (text_of b) as = ws" "texts b ts = redirs a" for as ts
    using with_words_redir_all [of b ts "EXEC as"] that base_redirs(1) [of a] a by (simp add: set_argv_redir_all)
  have npar: "skipped ?t = [] \<or> hd (skipped ?t) \<noteq> chLPAR"
  proof (cases ws)
    case (Cons w ws')
    then show ?thesis using show_word_start(3) [of w "concat (map show_word ws') @ show_redirs (redirs a) @ y"] w by simp
  next
    case Nil
    show ?thesis
    proof (cases "redirs a")
      case Nil
      then show ?thesis using f \<open>ws = []\<close> by (auto simp: follows_def show_redirs_def)
    next
      case (Cons x xs)
      then show ?thesis using \<open>ws = []\<close> by (auto simp: show_redirs_def show_redir_def split: prod.splits)
    qed
  qed
  show "yields b es a (skipped y) (parseexec n b es s)"
  proof (cases n)
    case (Suc k)
    have p: "peek b es s [chLPAR] = (False, skip_ws b es s)" "at b es (skip_ws b es s) (skipped ?t)"
      using at_peek [OF b at, of "[chLPAR]"] npar by auto
    have e: "parseexec n b es s =
        andthen (parseredirs k b es (EXEC []) (skip_ws b es s)) (\<lambda>ret s. parseargs k b es [] ret s)"
      using p by (simp add: Suc)
    show ?thesis
    proof (cases ws)
      case Nil
      have p2: "at b es (skip_ws b es s) (skipped (show_redirs (redirs a) @ y))" using p(2) Nil by simp
      show ?thesis using parseredirs_show [OF b p2 r nr, of k "EXEC []"]
      proof (elim disjE exE conjE)
        fix ts s' assume t: "parseredirs k b es (EXEC []) (skip_ws b es s) = Parsed (redir_all ts (EXEC [])) s'"
          "texts b ts = redirs a" "at b es s' (skipped y)"
        from parseargs_stop [OF b t(3) f, of k "[]" "redir_all ts (EXEC [])"]
        show ?thesis unfolding e yields_def using t fin [of "[]" ts] Nil by auto
      qed (simp add: e yields_def)
    next
      case (Cons w ws')
      have p2: "at b es (skip_ws b es s) (skipped (show_redirs [] @ ?t))" using p(2) by (simp add: show_redirs_def)
      have n2: "no_redir ?t"
        using show_word_start(3) [of w "concat (map show_word ws') @ show_redirs (redirs a) @ y"] w Cons by (simp add: no_redir_def)
      from parseredirs_show [OF b p2 _ n2, of k "EXEC []"]
      consider "parseredirs k b es (EXEC []) (skip_ws b es s) = NoFuel"
        | s' where "parseredirs k b es (EXEC []) (skip_ws b es s) = Parsed (EXEC []) s'" "at b es s' (skipped ?t)"
        by auto
      then show ?thesis
      proof cases
        case 1
        then show ?thesis by (simp add: e yields_def)
      next
        case (2 s')
        have "parseargs k b es [] (EXEC []) s' = NoFuel \<or>
          (\<exists>as ts s''. parseargs k b es [] (EXEC []) s' = Parsed (set_argv ([] @ as) (redir_all ts (EXEC []))) s'' \<and>
             map (text_of b) as = w # ws' \<and> texts b ts = redirs a \<and> at b es s'' (skipped y))"
          by (rule parseargs_show [OF b]) (use 2 w r f Cons in auto)
        then show ?thesis unfolding e yields_def using 2(1) fin Cons by auto
      qed
    qed
  qed (simp add: yields_def)
qed

lemma pipe_reads_exec:
  assumes b: "strlen b = Some es" and e: "exec_reads b es a" and s: "show_at 2 a = show_at 3 a"
  shows "pipe_reads b es a"
  unfolding pipe_reads_def
proof (intro allI impI)
  fix n s y assume h: "at b es s (skipped (show_at 2 a @ y))" and f: "follows after_pipe y"
  show "yields b es a (skipped y) (parsepipe n b es s)"
  proof (cases n)
    case (Suc k)
    have "yields b es a (skipped y) (parseexec k b es s)"
      using e h s follows_mono [OF f, of after_exec] unfolding exec_reads_def by auto
    then show ?thesis unfolding yields_def using peek_follow [OF b _ f, of _ chPIPE] by (auto simp: Suc)
  qed (simp add: yields_def)
qed

lemma pipe_reads_pipe:
  assumes b: "strlen b = Some es" and l: "exec_reads b es l" and r: "pipe_reads b es r"
  shows "pipe_reads b es (Pipeline l r)"
  unfolding pipe_reads_def
proof (intro allI impI)
  fix n s y assume h: "at b es s (skipped (show_at 2 (Pipeline l r) @ y))" and f: "follows after_pipe y"
  show "yields b es (Pipeline l r) (skipped y) (parsepipe n b es s)"
  proof (cases n)
    case (Suc k)
    have "at b es s (skipped (show_at 3 l @ chPIPE # show_at 2 r @ y))" using h by (simp add: parens_def)
    then have "yields b es l (chPIPE # show_at 2 r @ y) (parseexec k b es s)"
      using l follows_symbol [of chPIPE after_exec "show_at 2 r @ y"] unfolding exec_reads_def by fastforce
    then consider "parseexec k b es s = NoFuel"
      | c s' where "parseexec k b es s = Parsed c s'" "with_words (text_of b) c = l" "at b es s' (chPIPE # show_at 2 r @ y)"
      by (auto simp: yields_def)
    then show ?thesis
    proof cases
      case 1
      then show ?thesis by (simp add: yields_def Suc)
    next
      case (2 c s')
      obtain c1 q1 s1 where p: "peek b es s' [chPIPE] = (True, skip_ws b es s')"
        "gettoken b es (skip_ws b es s') = (c1, q1, s1)" "at b es s1 (skipped (show_at 2 r @ y))"
        using peek_symbol [OF b 2(3)] by auto
      have "yields b es r (skipped y) (parsepipe k b es s1)" using r p(3) f unfolding pipe_reads_def by blast
      then show ?thesis using 2(1,2) p(1,2) by (auto simp: yields_def Suc Let_def)
    qed
  qed (simp add: yields_def)
qed

lemma back_reads_pipe:
  assumes e: "pipe_reads b es a" and s: "show_at 1 a = show_at 2 a"
  shows "back_reads b es a"
  unfolding back_reads_def
proof (intro allI impI)
  fix n s y assume h: "at b es s (skipped (show_at 1 a @ y))" and f: "follows after_pipe y"
  have "yields b es a (skipped y) (parsepipe n b es s)" using e h s f unfolding pipe_reads_def by auto
  then show "andthen (parsepipe n b es s) (\<lambda>c s. parsebacks n b es c s) = NoFuel \<or>
     (\<exists>m c s'. andthen (parsepipe n b es s) (\<lambda>c s. parsebacks n b es c s) = parsebacks m b es c s' \<and>
        with_words (text_of b) c = a \<and> at b es s' (skipped y))"
    unfolding yields_def by (elim disjE exE conjE) auto
qed

lemma back_reads_back:
  assumes b: "strlen b = Some es" and c: "back_reads b es a"
  shows "back_reads b es (Background a)"
  unfolding back_reads_def
proof (intro allI impI)
  fix n s y assume h: "at b es s (skipped (show_at 1 (Background a) @ y))" and f: "follows after_pipe y"
  let ?r = "andthen (parsepipe n b es s) (\<lambda>c s. parsebacks n b es c s)"
  have "at b es s (skipped (show_at 1 a @ chAMP # y))" using h by (simp add: parens_def)
  moreover have "follows after_pipe (chAMP # y)" by (rule follows_symbol) simp_all
  ultimately have "?r = NoFuel \<or> (\<exists>m c s'. ?r = parsebacks m b es c s' \<and> with_words (text_of b) c = a \<and> at b es s' (skipped (chAMP # y)))"
    by (rule c [unfolded back_reads_def, rule_format])
  then show "?r = NoFuel \<or>
     (\<exists>m c s'. ?r = parsebacks m b es c s' \<and> with_words (text_of b) c = Background a \<and> at b es s' (skipped y))"
  proof (elim disjE exE conjE)
    fix m c s' assume i: "?r = parsebacks m b es c s'" "with_words (text_of b) c = a" "at b es s' (skipped (chAMP # y))"
    have i3: "at b es s' (chAMP # y)" using i(3) by simp
    obtain c1 q1 s1 where p: "peek b es s' [chAMP] = (True, skip_ws b es s')"
      "gettoken b es (skip_ws b es s') = (c1, q1, s1)" "at b es s1 (skipped y)"
      using peek_symbol [OF b i3] by auto
    show ?thesis
    proof (cases m)
      case 0
      then show ?thesis using i(1) by simp
    next
      case (Suc j)
      then have "?r = parsebacks j b es (BACK c) s1" using i(1) p by (simp add: Let_def)
      then show ?thesis using i(2) p(3) by (metis with_words.simps(5))
    qed
  qed simp
qed

lemma parsebacks_stop:
  assumes b: "strlen b = Some es" and a: "at b es s (skipped y)" and f: "follows k y" "chAMP \<notin> set k"
  shows "parsebacks m b es c s = NoFuel \<or> parsebacks m b es c s = Parsed c (skip_ws b es s) \<and> at b es (skip_ws b es s) (skipped y)"
  using peek_follow [OF b a f] by (cases m) auto

lemma line_reads_back:
  assumes b: "strlen b = Some es" and e: "back_reads b es a" and s: "show_at 0 a = show_at 1 a"
  shows "line_reads b es a"
  unfolding line_reads_def
proof (intro allI impI)
  fix n s y assume h: "at b es s (skipped (show_at 0 a @ y))" and f: "follows after_line y"
  show "yields b es a (skipped y) (parseline n b es s)"
  proof (cases n)
    case (Suc k)
    let ?r = "andthen (parsepipe k b es s) (\<lambda>c s. parsebacks k b es c s)"
    let ?g = "\<lambda>c s. let (f, s) = peek b es s [chSEMI] in
       if f then let (_, _, s) = gettoken b es s in andthen (parseline k b es s) (\<lambda>r s. Parsed (LIST c r) s)
       else Parsed c s"
    have amp: "chAMP \<notin> set after_line" "chAMP \<notin> set [chSEMI]" by simp_all
    have e0: "parseline n b es s = andthen ?r ?g" by (cases "parsepipe k b es s") (simp_all add: Suc)
    have "at b es s (skipped (show_at 1 a @ y))" "follows after_pipe y" using h s follows_mono [OF f] by auto
    then have "?r = NoFuel \<or> (\<exists>m c s'. ?r = parsebacks m b es c s' \<and> with_words (text_of b) c = a \<and> at b es s' (skipped y))"
      by (rule e [unfolded back_reads_def, rule_format])
    then show ?thesis unfolding e0 yields_def
    proof (elim disjE exE conjE)
      fix m c s' assume i: "?r = parsebacks m b es c s'" "with_words (text_of b) c = a" "at b es s' (skipped y)"
      show "andthen ?r ?g = NoFuel \<or> (\<exists>c s. andthen ?r ?g = Parsed c s \<and> with_words (text_of b) c = a \<and> at b es s (skipped y))"
        using parsebacks_stop [OF b i(3) f amp(1), of m c]
      proof (elim disjE conjE)
        assume j: "parsebacks m b es c s' = Parsed c (skip_ws b es s')" "at b es (skip_ws b es s') (skipped y)"
        then show ?thesis using i(1,2) peek_follow [OF b j(2) f, of chSEMI] by (simp add: Let_def)
      qed (use i in simp_all)
    qed simp
  qed (simp add: yields_def)
qed

lemma line_reads_seq:
  assumes b: "strlen b = Some es" and l: "back_reads b es l" and r: "line_reads b es r"
  shows "line_reads b es (Sequence l r)"
  unfolding line_reads_def
proof (intro allI impI)
  fix n s y assume h: "at b es s (skipped (show_at 0 (Sequence l r) @ y))" and f: "follows after_line y"
  show "yields b es (Sequence l r) (skipped y) (parseline n b es s)"
  proof (cases n)
    case (Suc k)
    let ?r = "andthen (parsepipe k b es s) (\<lambda>c s. parsebacks k b es c s)"
    let ?g = "\<lambda>c s. let (f, s) = peek b es s [chSEMI] in
       if f then let (_, _, s) = gettoken b es s in andthen (parseline k b es s) (\<lambda>r s. Parsed (LIST c r) s)
       else Parsed c s"
    let ?y = "chSEMI # show_at 0 r @ y"
    have amp: "chAMP \<notin> set after_line" "chAMP \<notin> set [chSEMI]" by simp_all
    have e0: "parseline n b es s = andthen ?r ?g" by (cases "parsepipe k b es s") (simp_all add: Suc)
    have fo: "follows [chSEMI] ?y" by (rule follows_symbol) simp_all
    have "at b es s (skipped (show_at 1 l @ ?y))" "follows after_pipe ?y"
      using h follows_mono [OF fo, of after_pipe] by (simp_all add: parens_def)
    then have "?r = NoFuel \<or> (\<exists>m c s'. ?r = parsebacks m b es c s' \<and> with_words (text_of b) c = l \<and> at b es s' (skipped ?y))"
      by (rule l [unfolded back_reads_def, rule_format])
    then show ?thesis unfolding e0 yields_def
    proof (elim disjE exE conjE)
      fix m c s' assume i: "?r = parsebacks m b es c s'" "with_words (text_of b) c = l" "at b es s' (skipped ?y)"
      show "andthen ?r ?g = NoFuel \<or>
        (\<exists>c s. andthen ?r ?g = Parsed c s \<and> with_words (text_of b) c = Sequence l r \<and> at b es s (skipped y))"
        using parsebacks_stop [OF b i(3) fo amp(2), of m c]
      proof (elim disjE conjE)
        assume j: "parsebacks m b es c s' = Parsed c (skip_ws b es s')" "at b es (skip_ws b es s') (skipped ?y)"
        have "at b es (skip_ws b es s') ?y" using j(2) by simp
        from peek_symbol [OF b this] obtain c1 q1 s1 where p:
          "peek b es (skip_ws b es s') [chSEMI] = (True, skip_ws b es (skip_ws b es s'))"
          "gettoken b es (skip_ws b es (skip_ws b es s')) = (c1, q1, s1)" "at b es s1 (skipped (show_at 0 r @ y))" by auto
        have "yields b es r (skipped y) (parseline k b es s1)" using r p(3) f unfolding line_reads_def by blast
        then show ?thesis using i(1,2) j(1) p(1,2) by (auto simp: yields_def Let_def)
      qed (use i in simp_all)
    qed simp
  qed (simp add: yields_def)
qed

lemma base_cases: "\<exists>ws l r. base a = Run ws \<or> base a = Pipeline l r \<or> base a = Sequence l r \<or> base a = Background l"
  by (induction a) auto

lemma show_parens:
  "base a = Pipeline l r \<or> base a = Sequence l r \<or> base a = Background l \<Longrightarrow>
     show_at 3 (base a) = chLPAR # show_at 0 (base a) @ [chRPAR]"
  by (auto simp: parens_def)

lemma reads_all:
  assumes b: "strlen b = Some es"
  shows "writable a \<Longrightarrow> exec_reads b es a \<and> pipe_reads b es a \<and> back_reads b es a \<and> line_reads b es a"
proof (induction a rule: measure_induct_rule [of size])
  case (less a)
  have up: ?case if "exec_reads b es a" "show_at 2 a = show_at 3 a" "show_at 1 a = show_at 2 a" "show_at 0 a = show_at 1 a"
    using that pipe_reads_exec [OF b] back_reads_pipe line_reads_back [OF b] by blast
  have down: "exec_reads b es a" if "line_reads b es a" "base a = a" "redirs a = []"
    "show_at 3 a = chLPAR # show_at 0 a @ [chRPAR]"
    using exec_reads_block [OF b] that by simp
  show ?case
  proof (cases a)
    case (Run ws)
    have "exec_reads b es a" by (rule exec_reads_run [OF b]) (use less.prems Run in auto)
    then show ?thesis using up Run by simp
  next
    case (Redirect c f m d)
    have w: "writable (base a)" "list_all redir_ok (redirs a)" using base_redirs(3) [of a] less.prems by auto
    have "size (base a) < size a" using base_redirs(4) [of c] Redirect by simp
    then have "line_reads b es (base a)" using less.IH w by blast
    then have "exec_reads b es a"
      using base_cases [of a] show_parens [of a] exec_reads_block [OF b _ w(2)] exec_reads_run [OF b _ _ _ w(2)] w(1)
      by fastforce
    then show ?thesis using up Redirect by simp
  next
    case (Pipeline l r)
    have "pipe_reads b es a" using less.IH [of l] less.IH [of r] less.prems pipe_reads_pipe [OF b, of l r] Pipeline by simp
    moreover have "show_at 1 a = show_at 2 a" "show_at 0 a = show_at 1 a" by (simp_all add: Pipeline parens_def)
    ultimately have "back_reads b es a" "line_reads b es a" "pipe_reads b es a"
      using back_reads_pipe line_reads_back [OF b] by blast+
    then show ?thesis using down Pipeline by (simp add: parens_def)
  next
    case (Sequence l r)
    have l: "line_reads b es a" using less.IH [of l] less.IH [of r] less.prems line_reads_seq [OF b, of l r] Sequence by simp
    have "exec_reads b es a" using down [OF l] Sequence by (simp add: parens_def)
    moreover have "show_at 2 a = show_at 3 a" "show_at 1 a = show_at 2 a" by (simp_all add: Sequence parens_def)
    ultimately show ?thesis using l pipe_reads_exec [OF b] back_reads_pipe by blast
  next
    case (Background c)
    have k: "back_reads b es a" using less.IH [of c] less.prems back_reads_back [OF b, of c] Background by simp
    moreover have s0: "show_at 0 a = show_at 1 a" by (simp add: Background parens_def)
    ultimately have l: "line_reads b es a" using line_reads_back [OF b] by blast
    have "exec_reads b es a" using down [OF l] Background by (simp add: parens_def)
    moreover have "show_at 2 a = show_at 3 a" by (simp add: Background parens_def)
    ultimately show ?thesis using l k pipe_reads_exec [OF b] by blast
  qed
qed

section \<open>The property\<close>

lemma show_nonzero: "writable a \<Longrightarrow> 0 \<notin> set (show_at k a)"
proof (induction k a rule: show_at.induct)
  case (1 k ws)
  then show ?case by (auto simp: list_all_iff word_def show_word_def plain_def)
next
  case (2 k c f m d)
  then show ?case by (auto simp: show_redir_def show_word_def word_def list_all_iff plain_def)
qed (auto simp: parens_def)

lemma strlen_append: "0 \<notin> set t \<Longrightarrow> strlen (t @ [0]) = Some (length t)"
  by (induction t) auto

text \<open>C23. The shell's parser reads every command that can be written back from its text: parentheses,
  lists, pipelines, background commands and redirections nested in any way.\<close>

theorem parsecmd_show:
  assumes "writable a"
  shows "\<exists>c b. parsecmd (show_at 0 a @ [0]) = Some (Parsed (c, b) (length (show_at 0 a))) \<and> with_words (string_at b) c = a"
proof -
  let ?l = "show_at 0 a @ [0]" and ?n = "length (show_at 0 a)"
  have l: "strlen ?l = Some ?n" using strlen_append show_nonzero assms by blast
  have fuel: "parses ?l ?n ?n (parseline (parse_fuel ?n) ?l ?n 0)" by (rule parse_fuel_enough [OF l])
  have "at ?l ?n 0 (skipped (show_at 0 a @ []))" by (simp add: at_def rest_def)
  then have "yields ?l ?n a [] (parseline (parse_fuel ?n) ?l ?n 0)"
    using reads_all [OF l assms] unfolding line_reads_def follows_def by fastforce
  then obtain c s where c: "parseline (parse_fuel ?n) ?l ?n 0 = Parsed c s" "with_words (text_of ?l) c = a" "at ?l ?n s []"
    using fuel by (auto simp: yields_def)
  have g: "good_cmd ?l ?n c" using fuel c(1) by (simp add: parses_def)
  have "skip_ws ?l ?n s = ?n" using at_skip [OF l c(3)] rest_nth(2) [OF l, of "skip_ws ?l ?n s"] by blast
  then have e: "peek ?l ?n s [] = (False, ?n)" using at_peek(1) [OF l c(3), of "[]"] by simp
  have "parsecmd ?l = Some (Parsed (c, nulterminate c ?l) ?n)" unfolding parsecmd_def using l c(1) e by simp
  then show ?thesis using nulterminate_words [OF l g] c(2) by auto
qed

text \<open>\<^verbatim>\<open>(a ; b < f ) | c & \<close>\<close>

definition cmd_ex :: words_cmd where
  "cmd_ex = Background (Pipeline (Sequence (Run [[0x61]]) (Redirect (Run [[0x62]]) [0x66] O_RDONLY 0)) (Run [[0x63]]))"

theorem parsecmd_show_witness:
  "\<exists>c b. parsecmd (show_at 0 cmd_ex @ [0]) = Some (Parsed (c, b) (length (show_at 0 cmd_ex))) \<and> with_words (string_at b) c = cmd_ex"
  by (rule parsecmd_show)
    (simp add: cmd_ex_def word_def plain_def whitespace_def symbols_def MAXARGS_def redir_modes_def)

end
