(* ===== verification/Sh_Run.thy ===== *)
theory Sh_Run
  imports Sh_Total
begin

text \<open>
  The shell as the system calls it makes, \<^verbatim>\<open>runcmd\<close> and the main loop of \<^verbatim>\<open>user/sh.c\<close> with \<^verbatim>\<open>gets\<close> of
  \<^verbatim>\<open>user/ulib.c\<close>, and what the processes it makes end up executing with which open files.
\<close>

section \<open>System calls\<close>

text \<open>
  The system calls of a process in their order; what follows a call is a function of its result.
  \<open>Fork\<close> returns 0 in the child, a process identifier in the parent, -1 when it fails; \<open>Exec\<close> goes on
  only when it fails; \<open>Read\<close> reads one byte. \<open>Unfinished\<close> is where the fuel of a loop ends.
\<close>

datatype act =
    Close int act
  | Open "u8 list" u32 "int \<Rightarrow> act"
  | Dup int "int \<Rightarrow> act"
  | MkPipe "(int \<times> int) option \<Rightarrow> act"
  | Fork "int \<Rightarrow> act"
  | Wait act
  | Exec "u8 list" "u8 list list" act
  | Chdir "u8 list" "int \<Rightarrow> act"
  | Read int "u8 option \<Rightarrow> act"
  | Fprintf int string "u8 list list" act
  | Exit int
  | Unfinished

section \<open>Running a command\<close>

definition panic :: "string \<Rightarrow> act" where "panic m = Fprintf 2 (m @ [CHR 0x0A]) [] (Exit 1)"

definition fork1 :: "(int \<Rightarrow> act) \<Rightarrow> act" where
  "fork1 k = Fork (\<lambda>pid. if pid = -1 then panic ''fork'' else k pid)"

fun runcmd :: "u8 list \<Rightarrow> cmd \<Rightarrow> act" where
  "runcmd b (EXEC ts) =
     (case ts of [] \<Rightarrow> Exit 1
      | t # _ \<Rightarrow> Exec (string_at b t) (map (string_at b) ts)
          (Fprintf 2 (''exec %s failed'' @ [CHR 0x0A]) [string_at b t] (Exit 0)))"
| "runcmd b (REDIR c f m d) =
     Close d (Open (string_at b f) m (\<lambda>r.
       if r < 0 then Fprintf 2 (''open %s failed'' @ [CHR 0x0A]) [string_at b f] (Exit 1) else runcmd b c))"
| "runcmd b (LIST l r) = fork1 (\<lambda>pid. if pid = 0 then runcmd b l else Wait (runcmd b r))"
| "runcmd b (PIPE l r) =
     MkPipe (\<lambda>p. case p of None \<Rightarrow> panic ''pipe''
       | Some (p0, p1) \<Rightarrow>
           fork1 (\<lambda>pid. if pid = 0 then Close 1 (Dup p1 (\<lambda>_. Close p0 (Close p1 (runcmd b l)))) else
           fork1 (\<lambda>pid. if pid = 0 then Close 0 (Dup p0 (\<lambda>_. Close p0 (Close p1 (runcmd b r)))) else
           Close p0 (Close p1 (Wait (Wait (Exit 0)))))))"
| "runcmd b (BACK c) = fork1 (\<lambda>pid. if pid = 0 then runcmd b c else Exit 0)"

section \<open>The main loop\<close>

text \<open>\<open>n\<close> bytes may still be read, \<open>s\<close> are those read; \<^verbatim>\<open>buf\<close> is what the buffer held before.\<close>

fun gets_loop :: "nat \<Rightarrow> u8 list \<Rightarrow> (u8 list \<Rightarrow> act) \<Rightarrow> act" where
  "gets_loop 0 s k = k s"
| "gets_loop (Suc n) s k = Read 0 (\<lambda>c. case c of None \<Rightarrow> k s
     | Some c \<Rightarrow> if c = 0x0A \<or> c = 0x0D then k (s @ [c]) else gets_loop n (s @ [c]) k)"

definition gets :: "u8 list \<Rightarrow> nat \<Rightarrow> (u8 list \<Rightarrow> act) \<Rightarrow> act" where
  "gets buf len k = gets_loop (len - 1) [] (\<lambda>s. k (s @ 0 # drop (length s + 1) buf))"

definition getcmd :: "nat \<Rightarrow> (u8 list option \<Rightarrow> act) \<Rightarrow> act" where
  "getcmd nbuf k = Fprintf 2 ''$ '' []
     (gets (replicate nbuf 0) nbuf (\<lambda>buf. k (if buf ! 0 = 0 then None else Some buf)))"

text \<open>
  The body of the loop; \<open>k\<close> is its next round. Before \<^verbatim>\<open>panic("syntax")\<close> the text left over is printed too.
\<close>

definition sh_line :: "u8 list \<Rightarrow> act \<Rightarrow> act" where
  "sh_line buf k =
     (let cmd = dropWhile (\<lambda>c. c = 0x20 \<or> c = 0x09) buf in
      if cmd \<noteq> [] \<and> hd cmd = 0x0A then k
      else if take 3 cmd = [0x63, 0x64, 0x20]
      then (case strlen cmd of None \<Rightarrow> Unfinished
            | Some n \<Rightarrow> let dir = cstr (drop 3 (cmd[n - 1 := 0])) in
                Chdir dir (\<lambda>r. if r < 0 then Fprintf 2 (''cannot cd %s'' @ [CHR 0x0A]) [dir] k else k))
      else fork1 (\<lambda>pid. if pid = 0
             then (case parsecmd cmd of
                     Some (Parsed (c, b) _) \<Rightarrow> runcmd b c | Some (Dies e) \<Rightarrow> panic e | _ \<Rightarrow> Unfinished)
             else Wait k))"

text \<open>The number of rounds is limited by fuel.\<close>

fun sh_loop :: "nat \<Rightarrow> act" where
  "sh_loop 0 = Unfinished"
| "sh_loop (Suc n) = getcmd 100 (\<lambda>buf. case buf of None \<Rightarrow> Exit 0 | Some buf \<Rightarrow> sh_line buf (sh_loop n))"

definition console_path :: "u8 list" where "console_path = [0x63, 0x6F, 0x6E, 0x73, 0x6F, 0x6C, 0x65]"

fun sh_open :: "nat \<Rightarrow> act \<Rightarrow> act" where
  "sh_open 0 k = Unfinished"
| "sh_open (Suc n) k =
     Open console_path O_RDWR (\<lambda>fd. if fd \<ge> 0 then (if fd \<ge> 3 then Close fd k else sh_open n k) else k)"

definition sh_main :: "nat \<Rightarrow> act" where "sh_main n = sh_open NOFILE (sh_loop n)"

section \<open>What is executed\<close>

text \<open>
  An open file is the end of a pipe, a file that was opened, or one the shell was started with. \<open>runs\<close>
  lists the programs that a process and its children execute, each with its file descriptors, when all
  calls but \<^verbatim>\<open>open\<close> succeed: \<^verbatim>\<open>open\<close>, \<^verbatim>\<open>dup\<close> and \<^verbatim>\<open>pipe\<close> take the lowest free descriptors. The pipes are
  numbered as they are made.
\<close>

datatype obj = ReadEnd nat | WriteEnd nat | Opened "u8 list" u32 | Inherited nat

type_synonym fds = "obj option list"

definition lowest :: "fds \<Rightarrow> nat option" where "lowest fds = find (\<lambda>i. fds ! i = None) [0..<length fds]"

definition close_fd :: "int \<Rightarrow> fds \<Rightarrow> fds" where "close_fd d fds = fds[nat d := None]"

definition with_fd :: "obj option \<Rightarrow> (int \<Rightarrow> fds \<Rightarrow> 'a) \<Rightarrow> fds \<Rightarrow> 'a" where
  "with_fd ob k fds = (case lowest fds of Some d \<Rightarrow> k (int d) (fds[d := ob]) | None \<Rightarrow> k (-1) fds)"

primrec runs :: "(u8 list \<Rightarrow> u32 \<Rightarrow> bool) \<Rightarrow> act \<Rightarrow> fds \<Rightarrow> nat \<Rightarrow> (u8 list list \<times> fds) list \<times> nat" where
  "runs opens (Close d a) = (\<lambda>fds n. runs opens a (close_fd d fds) n)"
| "runs opens (Open f m k) = (\<lambda>fds n.
     if opens f m then with_fd (Some (Opened f m)) (\<lambda>d fds. runs opens (k d) fds n) fds else runs opens (k (-1)) fds n)"
| "runs opens (Dup d k) = (\<lambda>fds n. with_fd (fds ! nat d) (\<lambda>e fds. runs opens (k e) fds n) fds)"
| "runs opens (MkPipe k) = (\<lambda>fds n.
     with_fd (Some (ReadEnd n)) (\<lambda>p0. with_fd (Some (WriteEnd n)) (\<lambda>p1 fds. runs opens (k (Some (p0, p1))) fds (n + 1))) fds)"
| "runs opens (Fork k) = (\<lambda>fds n.
     let (xs, n) = runs opens (k 0) fds n; (ys, n) = runs opens (k 1) fds n in (xs @ ys, n))"
| "runs opens (Wait a) = runs opens a"
| "runs opens (Exec p argv a) = (\<lambda>fds n. ([(argv, fds)], n))"
| "runs opens (Chdir p k) = runs opens (k 0)"
| "runs opens (Read d k) = runs opens (k None)"
| "runs opens (Fprintf d f as a) = runs opens a"
| "runs opens (Exit e) = (\<lambda>fds n. ([], n))"
| "runs opens Unfinished = (\<lambda>fds n. ([], n))"

text \<open>
  What a command means: the programs with their standard input and output, taken from the redirection
  next to the program, or else from the pipeline.
\<close>

fun wiring :: "(u8 list \<Rightarrow> u32 \<Rightarrow> bool) \<Rightarrow> words_cmd \<Rightarrow> obj \<Rightarrow> obj \<Rightarrow> nat \<Rightarrow> (u8 list list \<times> obj \<times> obj) list \<times> nat" where
  "wiring opens (Run ws) i ob n = (if ws = [] then [] else [(ws, i, ob)], n)"
| "wiring opens (Redirect c f m d) i ob n =
     (if \<not> opens f m then ([], n)
      else if d = 0 then wiring opens c (Opened f m) ob n else wiring opens c i (Opened f m) n)"
| "wiring opens (Pipeline l r) i ob n =
     (let (xs, k) = wiring opens l i (WriteEnd n) (n + 1); (ys, k) = wiring opens r (ReadEnd n) ob k in (xs @ ys, k))"
| "wiring opens (Sequence l r) i ob n =
     (let (xs, k) = wiring opens l i ob n; (ys, k) = wiring opens r i ob k in (xs @ ys, k))"
| "wiring opens (Background c) i ob n = wiring opens c i ob n"

text \<open>Standard input, output and error, and nothing else.\<close>

definition std :: "obj \<Rightarrow> obj \<Rightarrow> obj \<Rightarrow> fds" where
  "std i ob e = [Some i, Some ob, Some e] @ replicate 13 None"

lemma find_map: "find P (map f xs) = map_option f (find (\<lambda>x. P (f x)) xs)"
  by (induction xs) auto

lemma lowest_Nil: "lowest [] = None"
  by (simp add: lowest_def)

lemma lowest_Cons: "lowest (x # xs) = (if x = None then Some 0 else map_option Suc (lowest xs))"
proof -
  have "[0..<length (x # xs)] = 0 # map Suc [0..<length xs]" by (simp add: upt_conv_Cons map_Suc_upt del: upt_Suc)
  then show ?thesis by (simp add: lowest_def find_map)
qed

lemmas lowest_simps = lowest_Nil lowest_Cons

text \<open>Closing a standard descriptor and opening another file gives it the same number.\<close>

lemma std_std: "std i ob e = Some i # Some ob # Some e # None # None # replicate 11 None"
  by (simp add: std_def numeral_eq_Suc)

lemma reopen_std:
  "d = 0 \<or> d = 1 \<Longrightarrow> with_fd (Some x) k (close_fd d (std i ob e)) =
     (if d = 0 then k 0 (std x ob e) else k 1 (std i x e))"
  by (auto simp: std_std close_fd_def with_fd_def lowest_simps)

lemma runs_redir:
  assumes "d = 0 \<or> d = 1"
  shows "runs opens (runcmd b (REDIR c f m d)) (std i ob e) n =
    (if \<not> opens (string_at b f) m then ([], n)
     else runs opens (runcmd b c) (if d = 0 then std (Opened (string_at b f) m) ob e else std i (Opened (string_at b f) m) e) n)"
  using assms by (auto simp: reopen_std)

lemma runs_fork1:
  "runs opens (fork1 k) fds n =
     (let (xs, n) = runs opens (k 0) fds n; (ys, n) = runs opens (k 1) fds n in (xs @ ys, n))"
  by (simp add: fork1_def)

lemma runs_pipe:
  "runs opens (runcmd b (PIPE l r)) (std i ob e) n =
     (let (xs, k) = runs opens (runcmd b l) (std i (WriteEnd n) e) (n + 1);
          (ys, k) = runs opens (runcmd b r) (std (ReadEnd n) ob e) k in (xs @ ys, k))"
  by (simp add: std_std runs_fork1 with_fd_def lowest_simps close_fd_def split_def Let_def)

section \<open>The property\<close>

fun std_redirs :: "cmd \<Rightarrow> bool" where
  "std_redirs (EXEC ts) = True"
| "std_redirs (REDIR c f m d) \<longleftrightarrow> (d = 0 \<or> d = 1) \<and> std_redirs c"
| "std_redirs (PIPE l r) \<longleftrightarrow> std_redirs l \<and> std_redirs r"
| "std_redirs (LIST l r) \<longleftrightarrow> std_redirs l \<and> std_redirs r"
| "std_redirs (BACK c) \<longleftrightarrow> std_redirs c"

lemma good_std_redirs: "good_cmd b n c \<Longrightarrow> std_redirs c"
  by (induction c) (auto simp: redir_modes_def)

lemma runs_runcmd:
  "std_redirs c \<Longrightarrow> runs opens (runcmd b c) (std i ob e) n =
     (map (\<lambda>(ws, i, ob). (ws, std i ob e)) (fst (wiring opens (with_words (string_at b) c) i ob n)),
      snd (wiring opens (with_words (string_at b) c) i ob n))"
proof (induction c arbitrary: i ob n)
  case (EXEC ts)
  then show ?case by (cases ts) auto
next
  case (REDIR c f m d)
  then show ?case by (auto simp only: runs_redir std_redirs.simps with_words.simps wiring.simps split: if_splits) simp_all
next
  case (PIPE l r)
  then show ?case unfolding runs_pipe by (simp add: split_def Let_def)
next
  case (LIST l r)
  then show ?case by (simp add: runs_fork1 split_def Let_def)
next
  case (BACK c)
  then show ?case by (simp add: runs_fork1 split_def Let_def)
qed

text \<open>C25. Whatever line the shell has parsed, the programs it runs are those of the line, each with
  its arguments, with standard input and output from its own redirection or else from the pipes next
  to it, and with no other descriptor open; nothing runs inside a redirection whose file does not open.\<close>

theorem runcmd_wires_programs:
  assumes "parsecmd line = Some (Parsed (c, b) s)"
  shows "runs opens (runcmd b c) (std i ob e) n =
     (map (\<lambda>(ws, i, ob). (ws, std i ob e)) (fst (wiring opens (with_words (text_of line) c) i ob n)),
      snd (wiring opens (with_words (text_of line) c) i ob n))"
proof -
  obtain es where es: "strlen line = Some es" using assms by (auto simp: parsecmd_def)
  have "good_cmd line es c" "with_words (string_at b) c = with_words (text_of line) c"
    using parsecmd_total [OF es] assms by auto
  then show ?thesis using runs_runcmd [OF good_std_redirs] by metis
qed

text \<open>The line \<^verbatim>\<open>a|(b;c)>d&\<close>.\<close>

definition cmd_ok :: words_cmd where
  "cmd_ok = Background (Pipeline (Run [[0x61]]) (Redirect (Sequence (Run [[0x62]]) (Run [[0x63]])) [0x64] ((O_WRONLY OR O_CREATE) OR O_TRUNC) 1))"

lemma line_ok_parses:
  "case parsecmd line_ok of Some (Parsed (c, b) s) \<Rightarrow> s = 10 \<and> with_words (text_of line_ok) c = cmd_ok | _ \<Rightarrow> False"
  by code_simp

theorem runcmd_wires_programs_witness:
  "\<exists>c b. parsecmd line_ok = Some (Parsed (c, b) 10) \<and>
     fst (runs (\<lambda>_ _. True) (runcmd b c) (std (Inherited 0) (Inherited 1) (Inherited 2)) 0) =
       [([[0x61]], std (Inherited 0) (WriteEnd 0) (Inherited 2)),
        ([[0x62]], std (ReadEnd 0) (Opened [0x64] ((O_WRONLY OR O_CREATE) OR O_TRUNC)) (Inherited 2)),
        ([[0x63]], std (ReadEnd 0) (Opened [0x64] ((O_WRONLY OR O_CREATE) OR O_TRUNC)) (Inherited 2))]"
proof -
  obtain c b where c: "parsecmd line_ok = Some (Parsed (c, b) 10)" "with_words (text_of line_ok) c = cmd_ok"
    using line_ok_parses by (auto split: option.splits parsed.splits)
  show ?thesis
    using runcmd_wires_programs [OF c(1), of "\<lambda>_ _. True" "Inherited 0" "Inherited 1" "Inherited 2" 0] c by (auto simp: cmd_ok_def)
qed

end
