(* ===== verification/Umalloc.thy ===== *)
theory Umalloc
  imports Xv6_Prelude
begin

text \<open>
  The allocator of user programs, \<^verbatim>\<open>user/umalloc.c\<close>: a circular list of free blocks in the order of their
  addresses. Pointers are addresses in bytes, 0 is the null pointer, a header has 16 bytes and its
  fields are maps from the address of the header. A program writes only into the blocks it was given.
\<close>

section \<open>The allocator\<close>

record heap =
  hptr :: "nat \<Rightarrow> nat"
  hsize :: "nat \<Rightarrow> u32"
  freep :: nat
  hbase :: nat
  brk :: nat

abbreviation next_of :: "heap \<Rightarrow> nat \<Rightarrow> nat" where "next_of h p \<equiv> hptr h p"
abbreviation units :: "heap \<Rightarrow> nat \<Rightarrow> nat" where "units h p \<equiv> unat (hsize h p)"
abbreviation set_ptr :: "nat \<Rightarrow> nat \<Rightarrow> heap \<Rightarrow> heap" where "set_ptr p q h \<equiv> h\<lparr>hptr := (hptr h)(p := q)\<rparr>"
abbreviation set_size :: "nat \<Rightarrow> u32 \<Rightarrow> heap \<Rightarrow> heap" where "set_size p n h \<equiv> h\<lparr>hsize := (hsize h)(p := n)\<rparr>"

text \<open>The \<^verbatim>\<open>for\<close> loop of \<^verbatim>\<open>free\<close>: the free block after which \<^verbatim>\<open>bp\<close> belongs.\<close>

partial_function (option) free_after :: "nat \<Rightarrow> heap \<Rightarrow> nat \<Rightarrow> nat option" where
  "free_after bp h p =
     (if bp > p \<and> bp < next_of h p then Some p
      else if p \<ge> next_of h p \<and> (bp > p \<or> bp < next_of h p) then Some p
      else free_after bp h (next_of h p))"

definition free_link :: "nat \<Rightarrow> nat \<Rightarrow> heap \<Rightarrow> heap" where
  "free_link bp p h =
     (let q = next_of h p;
          h = (if bp + 16 * units h bp = q
               then set_ptr bp (next_of h q) (set_size bp (hsize h bp + hsize h q) h)
               else set_ptr bp q h);
          h = (if p + 16 * units h p = bp
               then set_ptr p (next_of h bp) (set_size p (hsize h p + hsize h bp) h)
               else set_ptr p bp h)
      in h\<lparr>freep := p\<rparr>)"

definition free :: "nat \<Rightarrow> heap \<Rightarrow> heap option" where
  "free ap h = (let bp = ap - 16 in map_option (\<lambda>p. free_link bp p h) (free_after bp h (freep h)))"

text \<open>
  \<^verbatim>\<open>sbrk\<close>, the system call, moves the end of the heap and returns the old one. It fails when the kernel
  has no memory to grow by so much, and does nothing when asked to shrink by more than there is.
\<close>

definition sbrk :: "(nat \<Rightarrow> nat \<Rightarrow> bool) \<Rightarrow> int \<Rightarrow> heap \<Rightarrow> nat option \<times> heap" where
  "sbrk avail n h =
     (if 0 \<le> n then (if avail (brk h) (nat n) then (Some (brk h), h\<lparr>brk := brk h + nat n\<rparr>) else (None, h))
      else if nat (- n) \<le> brk h then (Some (brk h), h\<lparr>brk := brk h - nat (- n)\<rparr>)
      else (Some (brk h), h))"

text \<open>\<^verbatim>\<open>nu * sizeof(Header)\<close> becomes the \<^verbatim>\<open>int\<close> argument of \<^verbatim>\<open>sbrk\<close>. The outer option is a loop that does not end.\<close>

definition morecore :: "(nat \<Rightarrow> nat \<Rightarrow> bool) \<Rightarrow> u32 \<Rightarrow> heap \<Rightarrow> (nat \<times> heap) option" where
  "morecore avail nu h =
     (let nu = (if nu < 4096 then 4096 else nu);
          (p, h) = sbrk avail (sint (word_of_nat (unat nu * 16) :: 32 word)) h
      in case p of None \<Rightarrow> Some (0, h)
         | Some p \<Rightarrow> map_option (\<lambda>h. (freep h, h)) (free (p + 16) (set_size p nu h)))"

definition take_block :: "u32 \<Rightarrow> nat \<Rightarrow> nat \<Rightarrow> heap \<Rightarrow> nat \<times> heap" where
  "take_block n prevp p h =
     (let (p, h) =
        (if hsize h p = n then (p, set_ptr prevp (next_of h p) h)
         else let h = set_size p (hsize h p - n) h; p' = p + 16 * units h p in (p', set_size p' n h))
      in (p + 16, h\<lparr>freep := prevp\<rparr>))"

partial_function (option) malloc_loop :: "(nat \<Rightarrow> nat \<Rightarrow> bool) \<Rightarrow> u32 \<Rightarrow> nat \<Rightarrow> nat \<Rightarrow> heap \<Rightarrow> (nat \<times> heap) option" where
  "malloc_loop avail n prevp p h =
     (if hsize h p \<ge> n then Some (take_block n prevp p h)
      else if p = freep h then
        (case morecore avail n h of None \<Rightarrow> None
         | Some (p, h) \<Rightarrow> if p = 0 then Some (0, h) else malloc_loop avail n p (next_of h p) h)
      else malloc_loop avail n p (next_of h p) h)"

definition malloc :: "(nat \<Rightarrow> nat \<Rightarrow> bool) \<Rightarrow> u32 \<Rightarrow> heap \<Rightarrow> (nat \<times> heap) option" where
  "malloc avail nbytes h =
     (let n = word_of_nat ((unat nbytes + 16 - 1) div 16 + 1);
          h = (if freep h = 0 then set_size (hbase h) 0 (set_ptr (hbase h) (hbase h) h\<lparr>freep := hbase h\<rparr>) else h)
      in malloc_loop avail n (freep h) (next_of h (freep h)) h)"

section \<open>The list of free blocks\<close>

text \<open>Every block of the list points to the next one, and the last one to the first.\<close>

definition ring :: "heap \<Rightarrow> nat list \<Rightarrow> bool" where
  "ring h fl \<longleftrightarrow> map (hptr h) fl = rotate1 fl"

lemma ring_split:
  "ring h (us @ p # vs) \<longleftrightarrow> map (hptr h) us = tl (us @ [p]) \<and> hptr h p # map (hptr h) vs = vs @ [hd (us @ [p])]"
proof -
  have "ring h (us @ p # vs) \<longleftrightarrow>
      map (hptr h) us @ (hptr h p # map (hptr h) vs) = tl (us @ [p]) @ (vs @ [hd (us @ [p])])"
    by (cases us) (simp_all add: ring_def)
  then show ?thesis by (subst (asm) append_eq_append_conv) simp_all
qed

lemma ring_rotate: "ring h (us @ vs) \<Longrightarrow> ring h (vs @ us)"
proof -
  have "ring h xs \<Longrightarrow> ring h (rotate n xs)" for n xs
    by (induction n) (simp_all add: ring_def rotate1_map [symmetric])
  then show "ring h (us @ vs) \<Longrightarrow> ring h (vs @ us)" using rotate_append [of us vs] by metis
qed

lemma ring_next_hd: "ring h (us @ p # vs) \<Longrightarrow> hptr h p = hd (vs @ [hd (us @ p # vs)])"
  unfolding ring_split by (cases vs; cases us) auto

lemma ring_next: "ring h (us @ a # b # vs) \<Longrightarrow> hptr h a = b"
  by (simp add: ring_split)

lemma ring_inj: "ring h fl \<Longrightarrow> distinct fl \<Longrightarrow> inj_on (hptr h) (set fl)"
  by (metis distinct_map distinct1_rotate ring_def)

lemma ring_set: "ring h fl \<Longrightarrow> a \<in> set fl \<Longrightarrow> hptr h a \<in> set fl"
  by (metis image_eqI image_set ring_def set_rotate1)

definition after :: "heap \<Rightarrow> nat \<Rightarrow> nat \<Rightarrow> bool" where "after h a b \<longleftrightarrow> a + 16 * units h a < b"

text \<open>
  \<open>fl\<close> lists the free blocks, the static one first, and \<open>A\<close> has the blocks handed out: they lie in the
  heap, no two of them overlap, and no two free blocks are next to each other.
\<close>

definition apart :: "heap \<Rightarrow> nat \<Rightarrow> nat \<Rightarrow> bool" where
  "apart h a b \<longleftrightarrow> a + 16 * units h a \<le> b \<or> b + 16 * units h b \<le> a"

definition in_heap :: "heap \<Rightarrow> nat \<Rightarrow> bool" where
  "in_heap h a \<longleftrightarrow> 0 < units h a \<and> hbase h + 16 \<le> a \<and> a + 16 * units h a \<le> brk h"

definition heap_ok :: "heap \<Rightarrow> nat list \<Rightarrow> nat set \<Rightarrow> bool" where
  "heap_ok h fl A \<longleftrightarrow> fl \<noteq> [] \<and> hd fl = hbase h \<and> 0 < hbase h \<and> units h (hbase h) = 0 \<and> ring h fl \<and>
     sorted_wrt (after h) fl \<and> freep h \<in> set fl \<and> (\<forall>a\<in>set (tl fl) \<union> A. in_heap h a) \<and>
     (\<forall>a\<in>A. \<forall>b\<in>set (tl fl) \<union> (A - {a}). apart h a b) \<and> hbase h + 16 \<le> brk h \<and> brk h \<le> 2 ^ 36"

lemma after_less: "sorted_wrt (after h) fl \<Longrightarrow> sorted_wrt (<) fl"
  by (erule sorted_wrt_mono_rel [rotated]) (simp add: after_def)

section \<open>The place of a block\<close>

definition stops :: "nat \<Rightarrow> heap \<Rightarrow> nat \<Rightarrow> bool" where
  "stops bp h p \<longleftrightarrow> p < bp \<and> bp < hptr h p \<or> hptr h p \<le> p \<and> (p < bp \<or> bp < hptr h p)"

lemma free_after_step: "free_after bp h p = (if stops bp h p then Some p else free_after bp h (hptr h p))"
  by (subst free_after.simps) (auto simp: stops_def)

lemma free_after_walk:
  "map (hptr h) xs = tl (xs @ [p]) \<Longrightarrow> \<forall>x\<in>set xs. \<not> stops bp h x \<Longrightarrow> stops bp h p \<Longrightarrow>
   free_after bp h (hd (xs @ [p])) = Some p"
proof (induction xs)
  case Nil
  then show ?case by (simp add: free_after_step)
next
  case (Cons x xs)
  have "hptr h x = hd (xs @ [p])" "map (hptr h) xs = tl (xs @ [p])" using Cons.prems(1) by (cases xs; simp)+
  then show ?case using Cons by (simp add: free_after_step [of bp h x])
qed

lemma path_suffix: "map (hptr h) (us @ xs) = tl (us @ xs @ [p]) \<Longrightarrow> map (hptr h) xs = tl (xs @ [p])"
proof -
  assume "map (hptr h) (us @ xs) = tl (us @ xs @ [p])"
  then have "drop (length us) (map (hptr h) (us @ xs)) = drop (length us) (tl (us @ xs @ [p]))" by simp
  then show ?thesis by (simp add: drop_map [symmetric] tl_drop [symmetric])
qed

lemma free_after_spec:
  assumes r: "ring h fl" and s: "sorted_wrt (<) fl" and fl: "fl = us @ p # vs" and b: "hd fl < bp" "p < bp" "\<forall>v\<in>set vs. bp < v"
    and f: "f \<in> set fl"
  shows "free_after bp h f = Some p"
proof -
  have us: "\<not> stops bp h x" if m: "x \<in> set us" for x
  proof -
    obtain a c where x: "us = a @ x # c" using split_list [OF m] by blast
    have "hptr h x = hd (c @ [p])" using r ring_next_hd [of h a x "c @ p # vs"] by (cases c) (auto simp: fl x)
    moreover have "hd (c @ [p]) \<in> set (c @ [p])" by (cases c) auto
    moreover have "\<forall>y\<in>set (c @ [p]). x < y \<and> y < bp" using s b by (auto simp: fl x sorted_wrt_append)
    ultimately show ?thesis unfolding stops_def by force
  qed
  have vs: "\<not> stops bp h x" if m: "x \<in> set vs" for x
  proof -
    obtain a c where x: "vs = a @ x # c" using split_list [OF m] by blast
    have e: "hptr h x = hd (c @ [hd fl])"
      using r ring_next_hd [of h "us @ p # a" x c] by (simp add: fl x)
    show ?thesis
    proof (cases c)
      case Nil
      then show ?thesis using e b x by (auto simp: stops_def)
    next
      case (Cons y ys)
      then have "x < hptr h x" using e s by (auto simp: fl x sorted_wrt_append)
      then show ?thesis using b x by (auto simp: stops_def)
    qed
  qed
  have sp: "stops bp h p"
  proof -
    have e: "hptr h p = hd (vs @ [hd fl])" using r ring_next_hd fl by blast
    show ?thesis
    proof (cases vs)
      case Nil
      have "hd fl \<le> p" using s by (cases us) (auto simp: fl)
      then show ?thesis using e b Nil by (simp add: stops_def)
    qed (use e b in \<open>simp add: stops_def\<close>)
  qed
  consider "f \<in> set us" | "f = p" | "f \<in> set vs" using f fl by auto
  then show ?thesis
  proof cases
    case 1
    then obtain a c where x: "us = a @ f # c" using split_list by metis
    have "map (hptr h) (a @ f # c) = tl (a @ (f # c) @ [p])" 
      using r [unfolded fl ring_split] x by simp
    from free_after_walk [OF path_suffix [OF this], of bp] show ?thesis using us sp x by simp
  next
    case 2
    then show ?thesis using sp by (simp add: free_after_step)
  next
    case 3
    then obtain a c where x: "vs = a @ f # c" using split_list by metis
    have "ring h (vs @ us @ [p])" using r ring_rotate [of h "us @ [p]" vs] by (simp add: fl)
    then have "map (hptr h) (a @ f # c @ us) = tl (a @ (f # c @ us) @ [p])"
      using ring_split [of h "vs @ us" p "[]"] x by simp
    from free_after_walk [OF path_suffix [OF this], of bp] show ?thesis using us vs sp x by auto
  qed
qed

lemma place_exists:
  "sorted_wrt (<) fl \<Longrightarrow> fl \<noteq> [] \<Longrightarrow> bp \<notin> set fl \<Longrightarrow> hd fl < (bp::nat) \<Longrightarrow>
   \<exists>us p vs. fl = us @ p # vs \<and> p < bp \<and> (\<forall>v\<in>set vs. bp < v)"
proof (induction fl)
  case (Cons a fl)
  show ?case
  proof (cases "fl = [] \<or> bp < hd fl")
    case True
    have "\<forall>v\<in>set fl. bp < v"
    proof (cases fl)
      case (Cons b bs)
      then show ?thesis using True Cons.prems by auto
    qed simp
    then show ?thesis using Cons.prems by (intro exI [of _ "[]"] exI [of _ a] exI [of _ fl]) simp
  next
    case False
    then have "hd fl < bp" using Cons.prems by (cases fl) auto
    then obtain us p vs where "fl = us @ p # vs \<and> p < bp \<and> (\<forall>v\<in>set vs. bp < v)" using Cons False by auto
    then show ?thesis by (intro exI [of _ "a # us"] exI [of _ p] exI [of _ vs]) simp
  qed
qed simp

section \<open>Giving a block back\<close>

definition span :: "heap \<Rightarrow> nat \<Rightarrow> nat set" where "span h a = {a..<a + 16 * units h a}"

definition free_bytes :: "heap \<Rightarrow> nat list \<Rightarrow> nat set" where "free_bytes h fl = (\<Union>a\<in>set fl. span h a)"

lemma free_bytes_simps [simp]:
  "free_bytes h [] = {}" "free_bytes h (a # fl) = span h a \<union> free_bytes h fl"
  "free_bytes h (us @ vs) = free_bytes h us \<union> free_bytes h vs"
  by (auto simp: free_bytes_def)

lemma free_bytes_other: "a \<notin> set fl \<Longrightarrow> (\<And>x. x \<noteq> a \<Longrightarrow> hsize h' x = hsize h x) \<Longrightarrow> free_bytes h' fl = free_bytes h fl"
  by (induction fl) (auto simp: span_def)

text \<open>Between the two halves of the code: \<open>bp\<close> points into the list, and \<open>p\<close> does not yet point to \<open>bp\<close>.\<close>

definition half_linked :: "heap \<Rightarrow> nat list \<Rightarrow> nat \<Rightarrow> nat \<Rightarrow> nat list \<Rightarrow> nat set \<Rightarrow> bool" where
  "half_linked h us p bp vs A \<longleftrightarrow> hd (us @ [p]) = hbase h \<and> 0 < hbase h \<and> units h (hbase h) = 0 \<and>
     map (hptr h) us = tl (us @ [p]) \<and> hptr h bp # map (hptr h) vs = vs @ [hd (us @ [p])] \<and>
     sorted_wrt (after h) (us @ p # vs) \<and> p + 16 * units h p \<le> bp \<and> p < bp \<and> (\<forall>v\<in>set vs. after h bp v) \<and>
     (\<forall>a\<in>set (tl (us @ [p])) \<union> insert bp (set vs) \<union> A. in_heap h a) \<and>
     (\<forall>a\<in>A. \<forall>b\<in>set (tl (us @ [p])) \<union> insert bp (set vs) \<union> (A - {a}). apart h a b) \<and>
     hbase h + 16 \<le> brk h \<and> brk h \<le> 2 ^ 36 \<and> bp \<notin> set us \<and> bp \<notin> A"

lemma set_ptr_simps [simp]:
  "after (set_ptr a q h) = after h" "in_heap (set_ptr a q h) = in_heap h" "apart (set_ptr a q h) = apart h"
  "span (set_ptr a q h) = span h" "after (h\<lparr>freep := f\<rparr>) = after h" "in_heap (h\<lparr>freep := f\<rparr>) = in_heap h"
  "apart (h\<lparr>freep := f\<rparr>) = apart h" "span (h\<lparr>freep := f\<rparr>) = span h"
  by (auto simp: fun_eq_iff after_def in_heap_def apart_def span_def)

lemma sorted_after_other:
  assumes "sorted_wrt (after h) fl" "a \<notin> set fl" "\<And>x. x \<noteq> a \<Longrightarrow> hsize h' x = hsize h x"
  shows "sorted_wrt (after h') fl"
proof (rule sorted_wrt_mono_rel [OF _ assms(1)])
  fix x y assume "x \<in> set fl" "after h x y"
  moreover have "x \<noteq> a" using \<open>x \<in> set fl\<close> assms(2) by blast
  ultimately show "after h' x y" using assms(3) by (simp add: after_def)
qed

lemma map_ptr_upd [simp]: "a \<notin> set xs \<Longrightarrow> map ((hptr h)(a := q)) xs = map (hptr h) xs"
  by simp

lemma unat_add: "16 * (unat a + unat b) + 16 \<le> 2 ^ 36 \<Longrightarrow> unat (a + b) = unat a + unat (b :: u32)"
  by (simp add: unat_word_ariths)

lemma span_join: "a + 16 * m = b \<Longrightarrow> {a..<a + 16 * (m + n)} = {a..<a + 16 * m} \<union> {b..<b + 16 * n}" for a b m n :: nat
  by auto

lemma in_heap_fit: "in_heap h a \<Longrightarrow> brk h \<le> 2 ^ 36 \<Longrightarrow> a + 16 * units h a \<le> 2 ^ 36 \<and> 16 \<le> a \<and> 0 < units h a"
  by (auto simp: in_heap_def)

text \<open>The first half: \<open>bp\<close> takes over the block behind it, if it is free.\<close>

lemma link_next:
  assumes h: "heap_ok h (us @ p # vs) (insert bp A)" and a: "bp \<notin> A" "p < bp" "\<forall>v\<in>set vs. bp < v"
  defines "q \<equiv> hptr h p"
  defines "h1 \<equiv> (if bp + 16 * units h bp = q then set_ptr bp (hptr h q) (set_size bp (hsize h bp + hsize h q) h) else set_ptr bp q h)"
  shows "\<exists>ws. half_linked h1 us p bp ws A \<and>
    free_bytes h1 (us @ p # bp # ws) = free_bytes h (us @ p # vs) \<union> span h bp \<and> (\<forall>b\<in>A. hsize h1 b = hsize h b) \<and>
    brk h1 = brk h \<and> hbase h1 = hbase h"
proof -
  have H: "hd (us @ [p]) = hbase h" "0 < hbase h" "units h (hbase h) = 0" "ring h (us @ p # vs)"
    "sorted_wrt (after h) (us @ p # vs)" "\<forall>b\<in>set (tl (us @ p # vs)) \<union> insert bp A. in_heap h b"
    "\<forall>x\<in>insert bp A. \<forall>b\<in>set (tl (us @ p # vs)) \<union> (insert bp A - {x}). apart h x b"
    "hbase h + 16 \<le> brk h" "brk h \<le> 2 ^ 36"
    using h unfolding heap_ok_def by (cases us; auto)+
  have tl: "set (tl (us @ p # vs)) = set (tl (us @ [p])) \<union> set vs" by (cases us) auto
  have bpi: "in_heap h bp" using H(6) by blast
  have AA: "\<forall>x\<in>A. \<forall>b\<in>set (tl (us @ [p])) \<union> insert bp (set vs) \<union> (A - {x}). apart h x b"
  proof (intro ballI)
    fix x b assume x: "x \<in> A" "b \<in> set (tl (us @ [p])) \<union> insert bp (set vs) \<union> (A - {x})"
    then have "b \<in> set (tl (us @ p # vs)) \<union> (insert bp A - {x})" using tl a(1) by auto
    then show "apart h x b" using H(7) x(1) by blast
  qed
  have II: "\<forall>x\<in>set (tl (us @ [p])) \<union> insert bp (set vs) \<union> A. in_heap h x" using H(6) tl by blast
  have pe: "p + 16 * units h p \<le> bp"
  proof (cases us)
    case Nil
    then show ?thesis using H(1,3) bpi by (simp add: in_heap_def)
  next
    case (Cons u us')
    then have "apart h bp p" using H(7) by simp
    then show ?thesis using a(2) bpi by (auto simp: apart_def)
  qed
  have ve: "bp + 16 * units h bp \<le> v" if v: "v \<in> set vs" for v
  proof -
    have "apart h bp v" using H(7) v a(3) tl by blast
    moreover have "bp < v" using a(3) v by blast
    ultimately show ?thesis by (simp add: apart_def)
  qed
  have ub: "u < bp" if "u \<in> set us" for u using H(5) that a(2) by (auto simp: sorted_wrt_append after_def)
  have R: "map (hptr h) us = tl (us @ [p])" "q # map (hptr h) vs = vs @ [hd (us @ [p])]"
    using H(4) by (simp_all add: ring_split q_def)
  have nvs: "bp \<notin> set vs" using a(3) by auto
  have nus: "bp \<notin> set us" using ub by auto
  have tlu: "bp \<notin> set (tl (us @ [p]))" using nus a(2) by (cases us) auto
  show ?thesis
  proof (cases "bp + 16 * units h bp = q")
    case False
    have h1: "h1 = set_ptr bp q h" using False by (simp add: h1_def)
    have va: "after h bp v" if v: "v \<in> set vs" for v
    proof -
      obtain y ys where y: "vs = y # ys" using v by (cases vs) auto
      then have "q = y" using R(2) by simp
      then have "bp + 16 * units h bp < y" using ve [of y] False y by simp
      moreover have "y \<le> v" using H(5) v y by (auto simp: sorted_wrt_append after_def)
      ultimately show ?thesis by (simp add: after_def)
    qed
    have "half_linked h1 us p bp vs A"
      unfolding half_linked_def using H(1-3,5,8,9) AA II R pe va a(1,2) nus nvs by (simp add: h1)
    moreover have "free_bytes h1 (us @ p # bp # vs) = free_bytes h (us @ p # vs) \<union> span h bp"
      by (auto simp: free_bytes_def span_def h1)
    ultimately show ?thesis by (auto simp: h1)
  next
    case True
    have "vs \<noteq> []"
    proof
      assume "vs = []"
      then have "q = hbase h" using R(2) H(1) by simp
      then show False using True bpi by (simp add: in_heap_def)
    qed
    then obtain v vs' where v: "vs = v # vs'" by (cases vs) auto
    then have q: "q = v" using R(2) by simp
    have iv: "in_heap h v" using H(6) tl v by simp
    have u: "unat (hsize h bp + hsize h v) = units h bp + units h v"
      by (rule unat_add) (use in_heap_fit [OF iv H(9)] in_heap_fit [OF bpi H(9)] True q in auto)
    have h1: "h1 = set_ptr bp (hptr h v) (set_size bp (hsize h bp + hsize h v) h)" using True q by (simp add: h1_def)
    have va: "v + 16 * units h v < w" if "w \<in> set vs'" for w using H(5) that v by (auto simp: sorted_wrt_append after_def)
    have vR: "hptr h v # map (hptr h) vs' = vs' @ [hd (us @ [p])]" using R(2) v by simp
    have ap: "x + 16 * units h x \<le> bp \<or> v + 16 * units h v \<le> x" if x: "x \<in> A" for x
    proof -
      have "apart h x bp" "apart h x v" "in_heap h x" using H(6,7) x a(1) tl v by auto
      then show ?thesis using True q by (auto simp: apart_def in_heap_def)
    qed
    have s: "sorted_wrt (after h) (us @ p # vs')" using H(5) v by (auto simp: sorted_wrt_append)
    have sz: "hsize h1 x = hsize h x" if "x \<noteq> bp" for x using that by (simp add: h1)
    have szb: "units h1 bp = units h bp + units h v" using u by (simp add: h1)
    have env: "hbase h1 = hbase h" "brk h1 = brk h" by (simp_all add: h1)
    have II': "\<forall>x\<in>set (tl (us @ [p])) \<union> insert bp (set vs') \<union> A. in_heap h1 x"
    proof
      fix x assume x: "x \<in> set (tl (us @ [p])) \<union> insert bp (set vs') \<union> A"
      show "in_heap h1 x"
      proof (cases "x = bp")
        case True
        then show ?thesis using bpi iv szb \<open>bp + 16 * units h bp = q\<close> q by (simp add: in_heap_def env)
      next
        case False
        then show ?thesis using II x v by (simp add: in_heap_def env sz)
      qed
    qed
    have AA': "\<forall>x\<in>A. \<forall>b\<in>set (tl (us @ [p])) \<union> insert bp (set vs') \<union> (A - {x}). apart h1 x b"
    proof (intro ballI)
      fix x b assume x: "x \<in> A" and b: "b \<in> set (tl (us @ [p])) \<union> insert bp (set vs') \<union> (A - {x})"
      have xb: "x \<noteq> bp" using x a(1) by blast
      show "apart h1 x b"
      proof (cases "b = bp")
        case True
        then show ?thesis using ap [OF x] szb sz [OF xb] \<open>bp + 16 * units h bp = q\<close> q by (simp add: apart_def) linarith
      next
        case False
        then have "apart h x b" using AA x b v by auto
        then show ?thesis using False xb by (simp add: apart_def sz)
      qed
    qed
    have "\<forall>w\<in>set vs'. after h1 bp w"
    proof
      fix w assume "w \<in> set vs'"
      from va [OF this] show "after h1 bp w" using szb True q by (simp add: after_def)
    qed
    moreover have "sorted_wrt (after h1) (us @ p # vs')"
      by (rule sorted_after_other [OF s _ sz]) (use nus nvs a(2) v in auto)
    moreover have "units h1 (hbase h1) = 0" "p + 16 * units h1 p \<le> bp"
      using H(3) bpi pe sz a(2) env by (auto simp: in_heap_def)
    moreover have "map (hptr h1) us = tl (us @ [p])" "hptr h1 bp # map (hptr h1) vs' = vs' @ [hd (us @ [p])]"
      using R(1) vR nus nvs v by (simp_all add: h1)
    ultimately have "half_linked h1 us p bp vs' A"
      unfolding half_linked_def using II' AA' H(1,2,8,9) a(1,2) nus env by simp
    moreover have "free_bytes h1 (us @ p # bp # vs') = free_bytes h (us @ p # vs) \<union> span h bp"
    proof -
      have "span h1 bp = span h bp \<union> span h v"
        unfolding span_def szb by (rule span_join) (use True q in simp)
      moreover have "free_bytes h1 us = free_bytes h us" "free_bytes h1 vs' = free_bytes h vs'"
        using free_bytes_other [OF _ sz] nus nvs v by auto
      moreover have "span h1 p = span h p" using sz [of p] a(2) by (simp add: span_def)
      ultimately show ?thesis using v by auto
    qed
    ultimately show ?thesis using a(1) by (auto simp: h1)
  qed
qed

text \<open>The second half: the block before \<open>bp\<close> takes it over, or points to it.\<close>

lemma link_prev:
  assumes h: "half_linked h us p bp vs A"
  defines "h2 \<equiv> (if p + 16 * units h p = bp then set_ptr p (hptr h bp) (set_size p (hsize h p + hsize h bp) h)
    else set_ptr p bp h)\<lparr>freep := p\<rparr>"
  shows "\<exists>fl. heap_ok h2 fl A \<and> free_bytes h2 fl = free_bytes h (us @ p # bp # vs) \<and> (\<forall>b\<in>A. hsize h2 b = hsize h b) \<and>
    brk h2 = brk h \<and> hbase h2 = hbase h"
proof -
  have H: "hd (us @ [p]) = hbase h" "0 < hbase h" "units h (hbase h) = 0" "map (hptr h) us = tl (us @ [p])"
    "hptr h bp # map (hptr h) vs = vs @ [hd (us @ [p])]" "sorted_wrt (after h) (us @ p # vs)" "p + 16 * units h p \<le> bp" "p < bp"
    "\<forall>v\<in>set vs. after h bp v" "\<forall>a\<in>set (tl (us @ [p])) \<union> insert bp (set vs) \<union> A. in_heap h a"
    "\<forall>a\<in>A. \<forall>b\<in>set (tl (us @ [p])) \<union> insert bp (set vs) \<union> (A - {a}). apart h a b"
    "hbase h + 16 \<le> brk h" "brk h \<le> 2 ^ 36" "bp \<notin> set us" "bp \<notin> A"
    using h unfolding half_linked_def by blast+
  have tl: "set (tl (us @ p # xs)) = set (tl (us @ [p])) \<union> set xs" for xs by (cases us) auto
  have hd: "hd (us @ p # xs) = hbase h" for xs using H(1) by (cases us) auto
  have up: "u < p" if "u \<in> set us" for u using H(6) that by (auto simp: sorted_wrt_append after_def)
  have pv: "p < v" if "v \<in> set vs" for v using H(6) that by (auto simp: sorted_wrt_append after_def)
  have np: "p \<notin> set us" "p \<notin> set vs" using up pv by auto
  show ?thesis
  proof (cases "p + 16 * units h p = bp")
    case False
    have h2: "h2 = (set_ptr p bp h)\<lparr>freep := p\<rparr>" using False by (simp add: h2_def)
    have "sorted_wrt (after h) (us @ p # bp # vs)"
      using H(6-9) False up by (auto simp: sorted_wrt_append after_def)
    moreover have "ring h2 (us @ p # bp # vs)" using H(4,5,8) np by (simp add: ring_split h2 split: if_splits)
    ultimately have "heap_ok h2 (us @ p # bp # vs) A"
      unfolding heap_ok_def using H(2,3,10-13) hd tl [of "bp # vs"] by (simp add: h2)
    moreover have "free_bytes h2 fl = free_bytes h fl" for fl by (simp add: free_bytes_def h2)
    ultimately show ?thesis by (auto simp: h2)
  next
    case True
    have ibp: "in_heap h bp" using H(10) by blast
    have us: "us \<noteq> []"
    proof
      assume "us = []"
      then have "bp = hbase h" using H(1,3) True by simp
      then show False using ibp by (simp add: in_heap_def)
    qed
    then have ptl: "p \<in> set (tl (us @ [p]))" by (cases us) auto
    then have ip: "in_heap h p" using H(10) by blast
    have pA: "p \<notin> A"
    proof
      assume p: "p \<in> A"
      then have "apart h p p" using H(11) ptl by blast
      then show False using ip by (simp add: apart_def in_heap_def)
    qed
    have u: "unat (hsize h p + hsize h bp) = units h p + units h bp"
      by (rule unat_add) (use in_heap_fit [OF ip H(13)] in_heap_fit [OF ibp H(13)] True in auto)
    have h2: "h2 = (set_ptr p (hptr h bp) (set_size p (hsize h p + hsize h bp) h))\<lparr>freep := p\<rparr>" using True by (simp add: h2_def)
    have sz: "hsize h2 x = hsize h x" if "x \<noteq> p" for x using that by (simp add: h2)
    have szp: "units h2 p = units h p + units h bp" using u by (simp add: h2)
    have env: "hbase h2 = hbase h" "brk h2 = brk h" "freep h2 = p" by (simp_all add: h2)
    have base: "hbase h \<noteq> p" using ip by (auto simp: in_heap_def)
    have "sorted_wrt (after h2) (us @ p # vs)"
    proof -
      have "after h2 p v" if v: "v \<in> set vs" for v
      proof -
        have "after h bp v" using H(9) v by blast
        then show ?thesis using True szp by (simp add: after_def)
      qed
      moreover have "sorted_wrt (after h) us" "sorted_wrt (after h) vs" using H(6) by (simp_all add: sorted_wrt_append)
      then have "sorted_wrt (after h2) us" "sorted_wrt (after h2) vs"
        using sorted_after_other [OF _ np(1) sz] sorted_after_other [OF _ np(2) sz] by blast+
      moreover have "after h2 x y" if "x \<in> set us" "y \<in> insert p (set vs)" for x y
        using H(6) that np sz [of x] by (auto simp: sorted_wrt_append after_def)
      ultimately show ?thesis by (simp add: sorted_wrt_append)
    qed
    moreover have "ring h2 (us @ p # vs)" using H(4,5) np by (simp add: ring_split h2)
    moreover have "in_heap h2 x" if x: "x \<in> set (tl (us @ p # vs)) \<union> A" for x
    proof (cases "x = p")
      case True
      then show ?thesis using ip ibp szp \<open>p + 16 * units h p = bp\<close> by (simp add: in_heap_def env)
    next
      case False
      then have "in_heap h x" using H(10) x tl by blast
      then show ?thesis using False by (simp add: in_heap_def env sz)
    qed
    moreover have "apart h2 x b" if x: "x \<in> A" and b: "b \<in> set (tl (us @ p # vs)) \<union> (A - {x})" for x b
    proof -
      have xp: "x \<noteq> p" using x pA by blast
      show ?thesis
      proof (cases "b = p")
        case True
        have "apart h x p" "apart h x bp" "in_heap h x" using H(10,11) x ptl by blast+
        then show ?thesis using True szp sz [OF xp] \<open>p + 16 * units h p = bp\<close> by (auto simp: apart_def in_heap_def)
      next
        case False
        then have "apart h x b" using H(11) x b tl by blast
        then show ?thesis using False xp by (simp add: apart_def sz)
      qed
    qed
    ultimately have "heap_ok h2 (us @ p # vs) A"
      unfolding heap_ok_def using H(2,3,12,13) hd [of vs] base by (simp add: env sz)
    moreover have "free_bytes h2 (us @ p # vs) = free_bytes h (us @ p # bp # vs)"
    proof -
      have "span h2 p = span h p \<union> span h bp" unfolding span_def szp by (rule span_join) (use True in simp)
      moreover have "free_bytes h2 us = free_bytes h us" "free_bytes h2 vs = free_bytes h vs"
        using free_bytes_other [OF _ sz] np by blast+
      ultimately show ?thesis by auto
    qed
    ultimately show ?thesis using pA by (auto simp: h2)
  qed
qed

lemma free_ok:
  assumes h: "heap_ok h fl (insert bp A)" and a: "bp \<notin> A"
  shows "\<exists>h' fl'. free (bp + 16) h = Some h' \<and> heap_ok h' fl' A \<and> free_bytes h' fl' = free_bytes h fl \<union> span h bp \<and>
    (\<forall>b\<in>A. hsize h' b = hsize h b) \<and> brk h' = brk h"
proof -
  have H: "fl \<noteq> []" "hd fl = hbase h" "ring h fl" "sorted_wrt (<) fl" "freep h \<in> set fl" "in_heap h bp"
    "\<forall>b\<in>set (tl fl). in_heap h b \<and> apart h bp b"
    using h after_less unfolding heap_ok_def by auto
  have b: "hd fl < bp" using H(2,6) by (simp add: in_heap_def)
  have "bp \<notin> set fl"
  proof
    assume "bp \<in> set fl"
    then have "bp \<in> set (tl fl)" using b H(1) by (cases fl) auto
    then show False using H(7) by (auto simp: apart_def in_heap_def)
  qed
  from place_exists [OF H(4,1) this b] obtain us p vs where
    fl: "fl = us @ p # vs" and p: "p < bp" "\<forall>v\<in>set vs. bp < v" by blast
  have f: "free_after bp h (freep h) = Some p" by (rule free_after_spec [OF H(3,4) fl b p H(5)])
  define h1 where "h1 = (if bp + 16 * units h bp = hptr h p
    then set_ptr bp (hptr h (hptr h p)) (set_size bp (hsize h bp + hsize h (hptr h p)) h) else set_ptr bp (hptr h p) h)"
  obtain ws where w: "half_linked h1 us p bp ws A" "free_bytes h1 (us @ p # bp # ws) = free_bytes h fl \<union> span h bp"
    "\<forall>b\<in>A. hsize h1 b = hsize h b" "brk h1 = brk h"
    using link_next [OF h [unfolded fl] a p] unfolding h1_def [symmetric] fl by blast
  define h2 where "h2 = (if p + 16 * units h1 p = bp then set_ptr p (hptr h1 bp) (set_size p (hsize h1 p + hsize h1 bp) h1)
    else set_ptr p bp h1)\<lparr>freep := p\<rparr>"
  obtain fl' where g: "heap_ok h2 fl' A" "free_bytes h2 fl' = free_bytes h1 (us @ p # bp # ws)" "\<forall>b\<in>A. hsize h2 b = hsize h1 b"
    "brk h2 = brk h1"
    using link_prev [OF w(1)] unfolding h2_def [symmetric] by blast
  have "free (bp + 16) h = Some h2" unfolding free_def free_link_def using f by (simp add: Let_def h2_def h1_def)
  then show ?thesis using w g by auto
qed

section \<open>Taking a block\<close>

lemma sorted_apart:
  "sorted_wrt (after h) fl \<Longrightarrow> a \<in> set fl \<Longrightarrow> b \<in> set fl \<Longrightarrow> a \<noteq> b \<Longrightarrow> apart h a b"
  by (auto simp: sorted_wrt_iff_nth_less in_set_conv_nth apart_def after_def) (metis less_or_eq_imp_le nat_neq_iff)

lemma in_tlD: "x \<in> set (tl xs) \<Longrightarrow> x \<in> set xs"
  by (cases xs) auto

lemma apart_sym: "apart h a b \<Longrightarrow> apart h b a"
  by (auto simp: apart_def)

lemma heap_ok_distinct: "heap_ok h fl A \<Longrightarrow> distinct fl"
  using after_less by (fastforce simp: heap_ok_def strict_sorted_iff)

text \<open>What a successful request does: block \<open>b\<close> of \<open>n\<close> units leaves the free bytes.\<close>

definition took :: "nat \<Rightarrow> nat \<Rightarrow> heap \<Rightarrow> nat set \<Rightarrow> nat set \<Rightarrow> heap \<Rightarrow> nat list \<Rightarrow> bool" where
  "took b n h F A h' fl \<longleftrightarrow> heap_ok h' fl (insert b A) \<and> b \<notin> A \<and> units h' b = n \<and>
     F = free_bytes h' fl \<union> span h' b \<and> (\<forall>a\<in>A. hsize h' a = hsize h a)"

lemma heap_ok_D:
  assumes "heap_ok h fl A"
  shows "fl \<noteq> []" "hd fl = hbase h" "0 < hbase h" "units h (hbase h) = 0" "ring h fl" "sorted_wrt (after h) fl" "freep h \<in> set fl"
    "\<forall>a\<in>set (tl fl) \<union> A. in_heap h a" "\<forall>a\<in>A. \<forall>b\<in>set (tl fl) \<union> (A - {a}). apart h a b" "hbase h + 16 \<le> brk h" "brk h \<le> 2 ^ 36"
  using assms unfolding heap_ok_def by blast+

lemma take_whole:
  assumes h: "heap_ok h fl A" and pr: "pr \<in> set fl" "c \<in> set fl" "hptr h pr = c" and n: "hsize h c = n" "0 < unat n"
  shows "\<exists>fl'. took c (unat n) h (free_bytes h fl) A (set_ptr pr (hptr h c) h\<lparr>freep := pr\<rparr>) fl'"
proof -
  note H = heap_ok_D [OF h]
  obtain us vs where fl: "fl = us @ c # vs" using split_list [OF pr(2)] by blast
  have us: "us \<noteq> []" using H(2,4) n fl by auto
  then have ctl: "c \<in> set (tl fl)" by (cases us) (simp_all add: fl)
  have ic: "in_heap h c" using H(8) ctl by blast
  obtain us' x where x: "us = us' @ [x]" using us by (metis append_butlast_last_id)
  have "hptr h x = c" using H(5) ring_next [of h us' x c vs] by (simp add: fl x)
  then have "x = pr" using ring_inj [OF H(5) heap_ok_distinct [OF h]] pr(1,3) by (auto simp: inj_on_def fl x)
  with x have us': "us = us' @ [pr]" by simp
  have d: "pr \<notin> set us'" "pr \<notin> set vs" "pr \<noteq> c" "c \<notin> set us" "c \<notin> set vs" using heap_ok_distinct [OF h] by (auto simp: fl us')
  let ?h = "set_ptr pr (hptr h c) h\<lparr>freep := pr\<rparr>"
  have R: "map (hptr h) us' = tl (us' @ [pr])" "hptr h c # map (hptr h) vs = vs @ [hd (us' @ [pr])]"
    using H(5) ring_split [of h us' pr "c # vs"] by (simp_all add: fl us')
  have "ring ?h (us' @ pr # vs)" unfolding ring_split using R d by simp
  moreover have "sorted_wrt (after h) (us' @ pr # vs)" using H(6) by (auto simp: fl us' sorted_wrt_append)
  moreover have tl: "set (tl (us' @ pr # vs)) \<subseteq> set (tl fl) - {c}" using d by (cases us') (auto simp: fl us')
  moreover have "hd (us' @ pr # vs) = hbase h" using H(2) by (cases us') (simp_all add: fl us')
  moreover have "c \<notin> A"
  proof
    assume "c \<in> A"
    then have "apart h c c" using H(9) ctl by blast
    then show False using ic by (simp add: apart_def in_heap_def)
  qed
  moreover have "apart h x y" if x: "x \<in> insert c A" and y: "y \<in> set (tl (us' @ pr # vs)) \<union> (insert c A - {x})" for x y
  proof -
    consider "x = c" "y \<in> A" | "x = c" "y \<in> set (tl fl) - {c}" | "x \<in> A" "y \<in> set (tl fl) \<union> (A - {x})" using x y tl ctl by blast
    then show ?thesis
    proof cases
      case 1
      then show ?thesis using H(9) ctl apart_sym by blast
    next
      case 2
      then have "y \<in> set fl" by (auto dest: in_tlD)
      then show ?thesis using sorted_apart [OF H(6) pr(2)] 2 by auto
    next
      case 3
      then show ?thesis using H(9) by blast
    qed
  qed
  ultimately have ok: "heap_ok ?h (us' @ pr # vs) (insert c A)"
    unfolding heap_ok_def using H(3,4,8,10,11) ic by auto
  have "free_bytes h fl = free_bytes ?h (us' @ pr # vs) \<union> span ?h c"
    by (auto simp: fl us' free_bytes_def)
  then show ?thesis using ok \<open>c \<notin> A\<close> n by (auto simp: took_def)
qed

lemma take_tail:
  assumes h: "heap_ok h fl A" and pr: "pr \<in> set fl" "c \<in> set fl" and n: "n < hsize h c" "0 < unat n"
  defines "b \<equiv> c + 16 * unat (hsize h c - n)"
  defines "h' \<equiv> set_size b n (set_size c (hsize h c - n) h)\<lparr>freep := pr\<rparr>"
  shows "took b (unat n) h (free_bytes h fl) A h' fl"
proof -
  note H = heap_ok_D [OF h]
  have "units h c \<noteq> 0" using n by (auto simp: word_less_nat_alt)
  then have ctl: "c \<in> set (tl fl)" using H(2,4) pr(2) by (cases fl) auto
  have ic: "in_heap h c" using H(8) ctl by blast
  have u: "unat (hsize h c - n) = units h c - unat n" 
    using n(1) by (simp add: unat_sub less_imp_le)
  have nl: "unat n < units h c" using n by (simp add: word_less_nat_alt)
  have b: "c < b" "b + 16 * unat n = c + 16 * units h c" using u nl by (auto simp: b_def)
  have szb: "units h' b = unat n" "units h' c = units h c - unat n" using b u by (simp_all add: h'_def)
  have sz: "hsize h' x = hsize h x" if "x \<noteq> b" "x \<noteq> c" for x using that by (simp add: h'_def)
  have env: "hbase h' = hbase h" "brk h' = brk h" "freep h' = pr" "hptr h' = hptr h" by (simp_all add: h'_def)
  text \<open>The blocks keep their ends or shrink, and every other block is apart from the new one.\<close>
  have bA: "b \<notin> A"
  proof
    assume x: "b \<in> A"
    then have "apart h b c" "in_heap h b" using H(8,9) ctl by blast+
    then show False using b n by (auto simp: apart_def in_heap_def)
  qed
  have cA: "c \<notin> A"
  proof
    assume "c \<in> A"
    then have "apart h c c" using H(9) ctl by blast
    then show False using ic by (simp add: apart_def in_heap_def)
  qed
  have bfl: "b \<notin> set fl"
  proof
    assume x: "b \<in> set fl"
    have "apart h c b" by (rule sorted_apart [OF H(6) pr(2) x]) (use b in simp)
    moreover have "in_heap h b" using H(8,2) x ic b by (cases fl) (auto simp: in_heap_def)
    ultimately show False using b n by (auto simp: apart_def in_heap_def)
  qed
  have le: "units h' x \<le> units h x" if "x \<noteq> b" for x using sz [of x] szb that by (cases "x = c") auto
  have s: "sorted_wrt (after h') fl"
  proof (rule sorted_wrt_mono_rel [OF _ H(6)])
    fix x y assume "x \<in> set fl" "after h x y"
    moreover have "x \<noteq> b" using \<open>x \<in> set fl\<close> bfl by blast
    ultimately show "after h' x y" using le [of x] by (simp add: after_def)
  qed
  have I: "in_heap h' x" if x: "x \<in> set (tl fl) \<union> insert b A" for x
  proof (cases "x = b")
    case True
    then show ?thesis using ic b szb n by (auto simp: in_heap_def env)
  next
    case False
    then have "in_heap h x" using x H(8) by blast
    then show ?thesis using le [OF False] sz [OF False] szb nl by (cases "x = c") (auto simp: in_heap_def env)
  qed
  have shrink: "apart h' x y" if "apart h x y" "x \<noteq> b" "y \<noteq> b" for x y
    using that le [of x] le [of y] by (auto simp: apart_def)
  have bx: "apart h' b x" if "x \<noteq> b" "apart h c x \<and> in_heap h x \<or> x = c" for x
    using that le [of x] szb b by (auto simp: apart_def in_heap_def)
  have P: "apart h' x y" if x: "x \<in> insert b A" and y: "y \<in> set (tl fl) \<union> (insert b A - {x})" for x y
  proof (cases "x = b")
    case True
    then have yb: "y \<noteq> b" using y bfl by (auto dest: in_tlD)
    have "apart h c y \<and> in_heap h y \<or> y = c"
    proof (cases "y \<in> A")
      case True
      then show ?thesis using H(8,9) ctl apart_sym by blast
    next
      case False
      then have "y \<in> set (tl fl)" using y \<open>x = b\<close> by blast
      then show ?thesis using sorted_apart [OF H(6) pr(2)] H(8) by (auto dest: in_tlD)
    qed
    then show ?thesis using bx [OF yb] True by blast
  next
    case False
    then have xA: "x \<in> A" using x by blast
    show ?thesis
    proof (cases "y = b")
      case True
      then show ?thesis using bx [OF False] H(8,9) xA ctl apart_sym by blast
    next
      case False
      then have "apart h x y" using H(9) xA y by blast
      then show ?thesis using shrink False \<open>x \<noteq> b\<close> by blast
    qed
  qed
  have base: "units h' (hbase h') = 0"
    using H(4) ic b sz [of "hbase h"] by (simp add: env in_heap_def)
  have "ring h' fl" using H(5) by (simp add: ring_def env)
  then have ok: "heap_ok h' fl (insert b A)"
    unfolding heap_ok_def using H(1-3,10,11) base s I P pr(1) by (simp add: env)
  have "free_bytes h fl = free_bytes h' fl \<union> span h' b"
  proof -
    obtain us vs where fl: "fl = us @ c # vs" using split_list [OF pr(2)] by blast
    have d: "c \<notin> set us" "c \<notin> set vs" using heap_ok_distinct [OF h] by (auto simp: fl)
    have other: "free_bytes h' xs = free_bytes h xs" if "b \<notin> set xs" "c \<notin> set xs" for xs
      using that by (induction xs) (auto simp: span_def sz)
    have "span h c = span h' c \<union> span h' b"
      unfolding span_def szb using b nl by auto
    then show ?thesis using other [of us] other [of vs] d bfl by (auto simp: fl)
  qed
  moreover have "\<forall>a\<in>A. hsize h' a = hsize h a" using sz bA cA by metis
  ultimately show ?thesis using ok bA szb(1) by (simp add: took_def)
qed

lemma take_block_ok:
  assumes h: "heap_ok h fl A" and pr: "pr \<in> set fl" "c \<in> set fl" "hptr h pr = c" and n: "n \<le> hsize h c" "0 < unat n"
  shows "\<exists>b h' fl'. take_block n pr c h = (b + 16, h') \<and> took b (unat n) h (free_bytes h fl) A h' fl'"
proof (cases "hsize h c = n")
  case True
  then show ?thesis using take_whole [OF h pr True n(2)] by (auto simp: take_block_def)
next
  case False
  then have "n < hsize h c" using n(1) by auto
  from take_tail [OF h pr(1,2) this n(2)] show ?thesis using False by (auto simp: take_block_def Let_def)
qed

section \<open>Searching the list\<close>

abbreviation grow :: "(nat \<Rightarrow> nat \<Rightarrow> bool) \<Rightarrow> u32 \<Rightarrow> heap \<Rightarrow> (nat \<times> heap) option" where
  "grow avail n h \<equiv> case morecore avail n h of None \<Rightarrow> None
     | Some (p, h) \<Rightarrow> if p = 0 then Some (0, h) else malloc_loop avail n p (hptr h p) h"

lemma loop_walk:
  "map (hptr h) (prev # butlast cs) = cs \<Longrightarrow> cs \<noteq> [] \<Longrightarrow> last cs = freep h \<Longrightarrow> freep h \<notin> set (butlast cs) \<Longrightarrow>
   (\<exists>pr c. pr \<in> set (prev # cs) \<and> c \<in> set cs \<and> hptr h pr = c \<and> n \<le> hsize h c \<and>
      malloc_loop avail n prev (hd cs) h = Some (take_block n pr c h)) \<or>
   (\<forall>c\<in>set cs. \<not> n \<le> hsize h c) \<and> malloc_loop avail n prev (hd cs) h = grow avail n h"
proof (induction cs arbitrary: prev)
  case (Cons c cs)
  have pc: "hptr h prev = c" using Cons.prems(1) by simp
  show ?case
  proof (cases "n \<le> hsize h c")
    case True
    then show ?thesis using pc by (intro disjI1 exI [of _ prev] exI [of _ c]) (subst malloc_loop.simps, simp)
  next
    case False
    show ?thesis
    proof (cases "cs = []")
      case True
      then show ?thesis using False Cons.prems(3) by (intro disjI2 conjI; (subst malloc_loop.simps)?; simp)
    next
      case ne: False
      then have nf: "c \<noteq> freep h" using Cons.prems(4) by auto
      have p: "map (hptr h) (c # butlast cs) = cs" using Cons.prems(1) ne by simp
      then have nc: "hptr h c = hd cs" by (cases cs) auto
      have e: "malloc_loop avail n prev c h = malloc_loop avail n c (hd cs) h"
        using False nf nc by (subst malloc_loop.simps) simp
      have "(\<exists>pr c'. pr \<in> set (c # cs) \<and> c' \<in> set cs \<and> hptr h pr = c' \<and> n \<le> hsize h c' \<and>
          malloc_loop avail n c (hd cs) h = Some (take_block n pr c' h)) \<or>
        (\<forall>c\<in>set cs. \<not> n \<le> hsize h c) \<and> malloc_loop avail n c (hd cs) h = grow avail n h"
        by (rule Cons.IH [OF p ne]) (use Cons.prems ne in auto)
      then show ?thesis using e False by auto
    qed
  qed
qed simp

lemma search:
  assumes h: "heap_ok h fl A" and n: "0 < unat n"
  shows "(\<exists>b h' fl'. malloc_loop avail n (freep h) (hptr h (freep h)) h = Some (b + 16, h') \<and> took b (unat n) h (free_bytes h fl) A h' fl' \<and> brk h' = brk h) \<or>
    (\<forall>c\<in>set fl. \<not> n \<le> hsize h c) \<and> malloc_loop avail n (freep h) (hptr h (freep h)) h = grow avail n h"
proof -
  note H = heap_ok_D [OF h]
  obtain us vs where fl: "fl = us @ freep h # vs" using split_list [OF H(7)] by blast
  let ?cs = "vs @ us @ [freep h]"
  have r: "ring h (freep h # vs @ us)" using ring_rotate [of h us "freep h # vs"] H(5) by (simp add: fl)
  have p: "map (hptr h) (freep h # butlast ?cs) = ?cs" using r by (simp add: ring_def butlast_append)
  have nf: "freep h \<notin> set (butlast ?cs)" using heap_ok_distinct [OF h] by (simp add: fl butlast_append)
  have hd: "hd ?cs = hptr h (freep h)" using arg_cong [OF p, of hd] by simp
  have set: "set (freep h # ?cs) = set fl" "set ?cs = set fl" by (auto simp: fl)
  have ne: "?cs \<noteq> []" and la: "last ?cs = freep h" by simp_all
  from loop_walk [OF p ne la nf, of n avail] show ?thesis
  proof (elim disjE exE conjE)
    fix pr c assume a: "pr \<in> set (freep h # ?cs)" "c \<in> set ?cs" "hptr h pr = c" "n \<le> hsize h c"
      "malloc_loop avail n (freep h) (hd ?cs) h = Some (take_block n pr c h)"
    obtain b h' fl' where t: "take_block n pr c h = (b + 16, h')" "took b (unat n) h (free_bytes h fl) A h' fl'"
      using take_block_ok [OF h _ _ a(3,4) n] a(1,2) set by blast
    have "brk h' = brk h" using t(1) by (auto simp: take_block_def Let_def split: if_splits)
    then show ?thesis using t a(5) hd by auto
  next
    assume "\<forall>c\<in>set ?cs. \<not> n \<le> hsize h c" "malloc_loop avail n (freep h) (hd ?cs) h = grow avail n h"
    then show ?thesis unfolding set(2) hd by blast
  qed
qed

section \<open>More memory\<close>

text \<open>A range of free bytes lies in one block, as no two blocks are next to each other.\<close>

lemma one_block:
  assumes s: "sorted_wrt (after h) fl" and r: "{p..<p + 16 * m} \<subseteq> free_bytes h fl" "0 < m"
  shows "\<exists>c\<in>set fl. m \<le> units h c"
proof -
  have "p \<in> free_bytes h fl" using r by auto
  then obtain c where c: "c \<in> set fl" "c \<le> p" "p < c + 16 * units h c" by (auto simp: free_bytes_def span_def)
  let ?e = "c + 16 * units h c"
  have "p + 16 * m \<le> ?e"
  proof (rule ccontr)
    assume "\<not> p + 16 * m \<le> ?e"
    then have "?e \<in> free_bytes h fl" using r c by auto
    then obtain d where d: "d \<in> set fl" "d \<le> ?e" "?e < d + 16 * units h d" by (auto simp: free_bytes_def span_def)
    have "c \<noteq> d" using d by auto
    then have "after h c d \<or> after h d c"
      using s c(1) d(1) by (auto simp: sorted_wrt_iff_nth_less in_set_conv_nth) (metis nat_neq_iff)
    then show False using c d by (auto simp: after_def)
  qed
  then have "m \<le> units h c" using c by simp
  then show ?thesis using c(1) by blast
qed

definition enough :: "(nat \<Rightarrow> nat \<Rightarrow> bool) \<Rightarrow> bool" where
  "enough avail \<longleftrightarrow> (\<forall>b n. avail b n \<longrightarrow> b + n \<le> 2 ^ 36)"

lemma freep_pos: "heap_ok h fl A \<Longrightarrow> 0 < freep h"
  by (cases fl) (fastforce simp: heap_ok_def in_heap_def)+

lemma sint_small: "k < 2 ^ 31 \<Longrightarrow> sint (word_of_nat k :: 32 word) = int k"
  by (simp add: signed_of_nat signed_take_bit_int_eq_self)

lemma morecore_ok:
  assumes h: "heap_ok h fl A" and av: "enough avail" and n: "0 < unat n" "unat n * 16 < 2 ^ 31"
  shows "morecore avail n h = Some (0, h) \<or>
    (\<exists>p h' fl'. morecore avail n h = Some (p, h') \<and> p = freep h' \<and> p \<noteq> 0 \<and> heap_ok h' fl' A \<and>
       brk h < brk h' \<and> free_bytes h' fl' = free_bytes h fl \<union> {brk h..<brk h'} \<and> (\<forall>a\<in>A. hsize h' a = hsize h a) \<and>
       (\<exists>c\<in>set fl'. n \<le> hsize h' c))"
proof -
  note H = heap_ok_D [OF h]
  define m where "m = (if n < 4096 then 4096 else n)"
  have m: "n \<le> m" "0 < unat m" "unat m * 16 < 2 ^ 31" using n by (auto simp: m_def word_less_nat_alt word_le_nat_alt)
  have si: "sint (word_of_nat (unat m * 16) :: 32 word) = int (unat m * 16)" by (rule sint_small) (use m in simp)
  have mc: "morecore avail n h = (case sbrk avail (int (unat m * 16)) h of (p, h) \<Rightarrow> case p of None \<Rightarrow> Some (0, h)
      | Some p \<Rightarrow> map_option (\<lambda>h. (freep h, h)) (free (p + 16) (set_size p m h)))"
    unfolding morecore_def m_def [symmetric] Let_def si ..
  let ?p = "brk h" and ?h = "set_size (brk h) m (h\<lparr>brk := brk h + unat m * 16\<rparr>)"
  show ?thesis
  proof (cases "avail (brk h) (unat m * 16)")
    case False
    then show ?thesis by (simp add: mc sbrk_def del: of_nat_mult)
  next
    case True
    then have b: "brk h + unat m * 16 \<le> 2 ^ 36" using av by (simp add: enough_def)
    have below: "a + 16 * units h a \<le> brk h \<and> a < brk h" if "a \<in> set fl \<union> A" for a
    proof (cases "a = hbase h")
      case True
      then show ?thesis using H(4,10) by simp
    next
      case False
      then have "in_heap h a" using that H(2,8) by (cases fl) auto
      then show ?thesis by (auto simp: in_heap_def)
    qed
    have sz: "hsize ?h a = hsize h a" if "a \<noteq> ?p" for a using that by simp
    have nfl: "?p \<notin> set fl" "?p \<notin> A" using below by fastforce+
    have "sorted_wrt (after ?h) fl" by (rule sorted_after_other [OF H(6) nfl(1) sz])
    moreover have I: "in_heap ?h a" if a: "a \<in> set (tl fl) \<union> insert ?p A" for a
    proof (cases "a = ?p")
      case True
      then show ?thesis using H(10) m by (simp add: in_heap_def)
    next
      case False
      then have "in_heap h a" using a H(8) by blast
      then show ?thesis using False by (simp add: in_heap_def)
    qed
    moreover have "apart ?h a c" if a: "a \<in> insert ?p A" and c: "c \<in> set (tl fl) \<union> (insert ?p A - {a})" for a c
    proof -
      have "apart ?h ?p c" if "c \<in> set fl \<union> A" for c using below [OF that] by (auto simp: apart_def)
      moreover have "apart ?h a c" if "a \<in> A" "c \<noteq> ?p"
      proof -
        have "apart h a c" using H(9) that c by blast
        moreover have "a \<noteq> ?p" using that nfl by blast
        ultimately show ?thesis using that by (simp add: apart_def)
      qed
      ultimately show ?thesis using a c in_tlD [of c fl] apart_sym by blast
    qed
    moreover have "units ?h (hbase h) = 0" using H(4,10) by auto
    moreover have "ring ?h fl" using H(5) by (simp add: ring_def)
    ultimately have ok: "heap_ok ?h fl (insert ?p A)"
      unfolding heap_ok_def using H(1-3,7,10) b by simp
    obtain h' fl' where f: "free (?p + 16) ?h = Some h'" "heap_ok h' fl' A"
      "free_bytes h' fl' = free_bytes ?h fl \<union> span ?h ?p" "\<forall>a\<in>A. hsize h' a = hsize ?h a" "brk h' = brk ?h"
      using free_ok [OF ok nfl(2)] by blast
    note F = heap_ok_D [OF f(2)]
    have fb: "free_bytes ?h fl = free_bytes h fl" by (rule free_bytes_other [OF nfl(1) sz])
    have sp: "span ?h ?p = {brk h..<brk h'}" using f(5) by (simp add: span_def mult.commute)
    have p0: "freep h' \<noteq> 0" using freep_pos [OF f(2)] by simp
    have "\<exists>c\<in>set fl'. unat m \<le> units h' c"
      by (rule one_block [OF F(6), of ?p]) (use f(3) sp f(5) m in auto)
    then have "\<exists>c\<in>set fl'. n \<le> hsize h' c" using m(1) by (force simp: word_le_nat_alt)
    moreover have "morecore avail n h = Some (freep h', h')"
      using True f(1) by (simp add: mc sbrk_def del: of_nat_mult)
    moreover have "\<forall>a\<in>A. hsize h' a = hsize h a" using f(4) nfl(2) by auto
    ultimately show ?thesis using f(2,3,5) fb sp p0 m by auto
  qed
qed

section \<open>The property\<close>

text \<open>The heap before the first \<^verbatim>\<open>malloc\<close> has no list yet.\<close>

definition heap_inv :: "heap \<Rightarrow> nat list \<Rightarrow> nat set \<Rightarrow> bool" where
  "heap_inv h fl A \<longleftrightarrow> heap_ok h fl A \<or>
     freep h = 0 \<and> fl = [] \<and> A = {} \<and> 0 < hbase h \<and> hbase h + 16 \<le> brk h \<and> brk h \<le> 2 ^ 36"

definition malloc_result :: "nat \<Rightarrow> heap \<Rightarrow> nat list \<Rightarrow> nat set \<Rightarrow> nat \<Rightarrow> heap \<Rightarrow> bool" where
  "malloc_result nbytes h fl A ap h' \<longleftrightarrow>
     (if ap = 0 then \<exists>fl'. heap_ok h' fl' A \<and> free_bytes h' fl' = free_bytes h fl \<and> brk h' = brk h \<and> (\<forall>a\<in>A. hsize h' a = hsize h a)
      else \<exists>b n fl'. ap = b + 16 \<and> nbytes \<le> 16 * (n - 1) \<and>
        took b n h (free_bytes h fl \<union> {brk h..<brk h'}) A h' fl' \<and> brk h \<le> brk h')"

lemma unat_small: "k < 2 ^ 32 \<Longrightarrow> unat (word_of_nat k :: u32) = k"
  by (simp add: unsigned_of_nat take_bit_nat_eq_self)

lemma malloc_units:
  assumes "unat nbytes + 32 \<le> 2 ^ 31"
  defines "n \<equiv> word_of_nat ((unat (nbytes :: u32) + 16 - 1) div 16 + 1) :: u32"
  shows "unat n = (unat nbytes + 15) div 16 + 1" "0 < unat n" "unat n * 16 < 2 ^ 31" "unat nbytes \<le> 16 * (unat n - 1)"
proof -
  have q: "16 * ((unat nbytes + 15) div 16) \<le> unat nbytes + 15" "unat nbytes + 15 < 16 * ((unat nbytes + 15) div 16) + 16"
    by simp_all
  have "unat n = (unat nbytes + 16 - 1) div 16 + 1" unfolding n_def
    by (rule unat_small) (use q assms(1) in auto)
  then show u: "unat n = (unat nbytes + 15) div 16 + 1" by simp
  show "0 < unat n" "unat n * 16 < 2 ^ 31" "unat nbytes \<le> 16 * (unat n - 1)" using u q assms(1) by auto
qed

lemma malloc_ok:
  assumes h: "heap_ok h fl A" and av: "enough avail" and n: "unat nbytes + 32 \<le> 2 ^ 31"
  shows "\<exists>ap h'. malloc avail nbytes h = Some (ap, h') \<and> malloc_result (unat nbytes) h fl A ap h'"
proof -
  define n where "n = (word_of_nat ((unat nbytes + 16 - 1) div 16 + 1) :: u32)"
  note N = malloc_units [OF n, folded n_def]
  have "freep h \<noteq> 0" using freep_pos [OF h] by simp
  then have e: "malloc avail nbytes h = malloc_loop avail n (freep h) (hptr h (freep h)) h"
    by (simp add: malloc_def Let_def n_def del: of_nat_add of_nat_div of_nat_Suc)
  let ?goal = "\<exists>ap h'. malloc_loop avail n (freep h) (hptr h (freep h)) h = Some (ap, h') \<and> malloc_result (unat nbytes) h fl A ap h'"
  have ?goal using search [OF h N(2), of avail]
  proof (elim disjE exE conjE)
    fix b h' fl' assume a: "malloc_loop avail n (freep h) (hptr h (freep h)) h = Some (b + 16, h')"
      "took b (unat n) h (free_bytes h fl) A h' fl'" "brk h' = brk h"
    then have "malloc_result (unat nbytes) h fl A (b + 16) h'" unfolding malloc_result_def using N(4) by auto
    then show ?goal using a(1) by blast
  next
    assume g: "malloc_loop avail n (freep h) (hptr h (freep h)) h = grow avail n h"
    show ?goal using morecore_ok [OF h av N(2,3)]
    proof (elim disjE exE conjE bexE)
      assume "morecore avail n h = Some (0, h)"
      then have "malloc_loop avail n (freep h) (hptr h (freep h)) h = Some (0, h)" using g by simp
      moreover have "malloc_result (unat nbytes) h fl A 0 h" using h by (auto simp: malloc_result_def)
      ultimately show ?goal by blast
    next
      fix p h1 fl1 c assume m: "morecore avail n h = Some (p, h1)" "p = freep h1" "p \<noteq> 0" "heap_ok h1 fl1 A" "brk h < brk h1"
        "free_bytes h1 fl1 = free_bytes h fl \<union> {brk h..<brk h1}" "\<forall>a\<in>A. hsize h1 a = hsize h a" "c \<in> set fl1" "n \<le> hsize h1 c"
      obtain b h2 fl2 where t: "malloc_loop avail n (freep h1) (hptr h1 (freep h1)) h1 = Some (b + 16, h2)"
        "took b (unat n) h1 (free_bytes h1 fl1) A h2 fl2" "brk h2 = brk h1"
        using search [OF m(4) N(2), of avail] m(8,9) by blast
      have "took b (unat n) h (free_bytes h fl \<union> {brk h..<brk h2}) A h2 fl2" using t(2,3) m(6,7) by (simp add: took_def)
      then have "malloc_result (unat nbytes) h fl A (b + 16) h2"
        unfolding malloc_result_def using N(4) t(3) m(5) by auto
      moreover have "malloc_loop avail n (freep h) (hptr h (freep h)) h = Some (b + 16, h2)" using g m(1-3) t(1) by simp
      ultimately show ?goal by blast
    qed
  qed
  then show ?thesis by (simp add: e)
qed

lemma malloc_result_start:
  "free_bytes h0 fl0 = free_bytes h fl \<Longrightarrow> brk h0 = brk h \<Longrightarrow> malloc_result n h0 fl0 {} ap h' \<Longrightarrow> malloc_result n h fl {} ap h'"
  by (auto simp: malloc_result_def took_def split: if_splits)

lemma malloc_first:
  assumes h: "freep h = 0" "0 < hbase h" "hbase h + 16 \<le> brk h" "brk h \<le> 2 ^ 36"
  defines "h0 \<equiv> set_size (hbase h) 0 (set_ptr (hbase h) (hbase h) h\<lparr>freep := hbase h\<rparr>)"
  shows "malloc avail n h = malloc avail n h0" "heap_ok h0 [hbase h] {}" "free_bytes h0 [hbase h] = {}" "brk h0 = brk h"
  using h by (simp_all add: malloc_def h0_def Let_def heap_ok_def ring_def span_def)

text \<open>C26. malloc and free keep the heap: free blocks and blocks handed out never overlap and lie below
  the break. malloc always returns: a new block with room for the bytes asked for, taken from the free
  bytes or from memory the kernel gave, or null with nothing lost. free always returns, and its block's
  bytes, merged with their neighbours, are all free again.\<close>

theorem malloc_free_keep_heap:
  assumes "heap_inv h fl A" "enough avail" "unat nbytes + 32 \<le> 2 ^ 31"
  shows "(\<exists>ap h'. malloc avail nbytes h = Some (ap, h') \<and> malloc_result (unat nbytes) h fl A ap h') \<and>
    (\<forall>bp\<in>A. \<exists>h' fl'. free (bp + 16) h = Some h' \<and> heap_ok h' fl' (A - {bp}) \<and>
      free_bytes h' fl' = free_bytes h fl \<union> span h bp \<and> (\<forall>a\<in>A - {bp}. hsize h' a = hsize h a))"
  using assms(1) unfolding heap_inv_def
proof (elim disjE conjE)
  assume h: "heap_ok h fl A"
  have "\<exists>h' fl'. free (bp + 16) h = Some h' \<and> heap_ok h' fl' (A - {bp}) \<and>
      free_bytes h' fl' = free_bytes h fl \<union> span h bp \<and> (\<forall>a\<in>A - {bp}. hsize h' a = hsize h a)" if "bp \<in> A" for bp
    using free_ok [of h fl bp "A - {bp}"] h that by (auto simp: insert_absorb)
  then show ?thesis using malloc_ok [OF h assms(2,3)] by blast
next
  assume f: "freep h = 0" "fl = []" "A = {}" "0 < hbase h" "hbase h + 16 \<le> brk h" "brk h \<le> 2 ^ 36"
  note m = malloc_first [OF f(1,4-6)]
  obtain ap h' where r: "malloc avail nbytes h = Some (ap, h')"
    "malloc_result (unat nbytes) (set_size (hbase h) 0 (set_ptr (hbase h) (hbase h) h\<lparr>freep := hbase h\<rparr>)) [hbase h] {} ap h'"
    using malloc_ok [OF m(2) assms(2,3)] m(1) by metis
  have "malloc_result (unat nbytes) h fl A ap h'"
    unfolding f(3) by (rule malloc_result_start [OF _ m(4) r(2)]) (use m(3) f(2) in simp)
  then show ?thesis using r(1) f(3) by blast
qed

text \<open>The first request of a program whose heap starts at 0x4000; the kernel has memory up to 64 KB.\<close>

definition heap0 :: heap where
  "heap0 = \<lparr>hptr = \<lambda>_. 0, hsize = \<lambda>_. 0, freep = 0, hbase = 0x2000, brk = 0x4000\<rparr>"

theorem malloc_free_keep_heap_witness:
  "\<exists>ap h'. malloc (\<lambda>b n. b + n \<le> 0x20000) 100 heap0 = Some (ap, h') \<and> malloc_result 100 heap0 [] {} ap h'"
proof -
  have "heap_inv heap0 [] {}" by (simp add: heap_inv_def heap0_def)
  moreover have "enough (\<lambda>b n. b + n \<le> 0x20000)" by (simp add: enough_def)
  ultimately show ?thesis using malloc_free_keep_heap [of heap0 "[]" "{}" "\<lambda>b n. b + n \<le> 0x20000" 100] by simp
qed

section \<open>A request beyond 2 GB\<close>

text \<open>The bytes asked of \<^verbatim>\<open>sbrk\<close> are cut to an \<^verbatim>\<open>int\<close>: 4294967295 bytes need 2^28+1 units, and 16 bytes are requested.\<close>

lemma malloc_huge_no_room:
  "\<exists>h'. malloc (\<lambda>b n. b + n \<le> 0x20000) 0xFFFFFFFF heap0 = Some (0x4010, h') \<and> brk h' = 0x4010"
proof -
  let ?av = "\<lambda>b n. b + n \<le> (0x20000::nat)"
  define h1 where "h1 = set_size 0x2000 0 (set_ptr 0x2000 0x2000 (heap0\<lparr>freep := 0x2000\<rparr>))"
  have F1: "hptr h1 0x2000 = 0x2000" "hsize h1 0x2000 = 0" "freep h1 = 0x2000" "brk h1 = 0x4000"
    by (simp_all add: h1_def heap0_def)
  have n: "word_of_nat ((unat (0xFFFFFFFF :: u32) + 16 - 1) div 16 + 1) = (0x10000001 :: u32)" by simp
  define h2 where "h2 = h1\<lparr>brk := 0x4010, hsize := (hsize h1)(0x4000 := 0x10000001)\<rparr>"
  have f: "free 0x4010 h2 = Some (free_link 0x4000 0x2000 h2)"
    by (simp add: free_def h2_def F1 free_after.simps)
  have fp: "freep (free_link 0x4000 0x2000 h2) = 0x2000" by (simp add: free_link_def Let_def)
  have m: "morecore ?av 0x10000001 h1 = Some (0x2000, free_link 0x4000 0x2000 h2)"
    by (simp add: morecore_def sbrk_def Let_def F1 h2_def [symmetric] f fp)
  have l: "hptr (free_link 0x4000 0x2000 h2) 0x2000 = 0x4000" "hsize (free_link 0x4000 0x2000 h2) 0x4000 = 0x10000001"
    "brk (free_link 0x4000 0x2000 h2) = 0x4010"
    by (simp_all add: free_link_def Let_def h2_def F1)
  have "malloc ?av 0xFFFFFFFF heap0 = malloc_loop ?av 0x10000001 0x2000 0x2000 h1"
    unfolding malloc_def n by (simp add: h1_def heap0_def)
  also have "\<dots> = malloc_loop ?av 0x10000001 0x2000 0x4000 (free_link 0x4000 0x2000 h2)"
    by (subst malloc_loop.simps) (simp add: F1 m l)
  also have "\<dots> = Some (take_block 0x10000001 0x2000 0x4000 (free_link 0x4000 0x2000 h2))"
    by (subst malloc_loop.simps) (simp add: l)
  finally show ?thesis by (simp add: take_block_def l)
qed

end
