(* ===== verification/Utils.thy ===== *)
theory Utils
  imports Cstring Printf Params
begin

text \<open>
  The small user programs \<^verbatim>\<open>cat\<close>, \<^verbatim>\<open>wc\<close>, \<^verbatim>\<open>echo\<close>, \<^verbatim>\<open>ls\<close>, \<^verbatim>\<open>mkdir\<close>, \<^verbatim>\<open>rm\<close>, \<^verbatim>\<open>ln\<close>, \<^verbatim>\<open>kill\<close>, \<^verbatim>\<open>init\<close> and \<^verbatim>\<open>zombie\<close> of
  \<^verbatim>\<open>user/\<close>, as the system calls they make depending on the replies. Strings are their bytes before the
  NUL; the arguments are those after the program's name.
\<close>

section \<open>Programs\<close>

text \<open>
  What a call returns: its result, the bytes that \<^verbatim>\<open>read\<close> has put into the buffer, what \<^verbatim>\<open>fstat\<close> has found,
  the descriptors of \<^verbatim>\<open>pipe\<close> and the exit status that \<^verbatim>\<open>wait\<close> has stored. After \<open>Read fd n\<close> at most \<open>n\<close> bytes come back.
\<close>

datatype call =
    Open "u8 list" u32
  | Close int
  | Read int nat
  | Write int "u8 list"
  | Fstat int
  | Link "u8 list" "u8 list"
  | Unlink "u8 list"
  | Mkdir "u8 list"
  | Mknod "u8 list" int int
  | Dup int
  | Kill int
  | Fork
  | Exec "u8 list" "u8 list list"
  | Wait
  | Pause int
  | Chdir "u8 list"
  | Pipe
  | Sbrk int
  | Getpid
  | Getppid
  | Getprocsinfo
  | Sleep2 int

record fstatus =
  inumber :: u32
  kind :: u16
  bytes :: u64

record reply =
  ret :: int
  got :: "u8 list"
  status :: fstatus
  ends :: "int \<times> int"
  xstat :: int

text \<open>A program is its next call with what it does on each reply. \<open>Unfinished\<close> ends the fuel of a loop.\<close>

datatype prog = Call call "reply \<Rightarrow> prog" | Exit int | Unfinished

section \<open>Printing\<close>

definition bytes_of :: "string \<Rightarrow> u8 list" where "bytes_of s = map of_char s"

definition string_of :: "u8 list \<Rightarrow> string" where "string_of bs = map (\<lambda>b. char_of (unat b)) bs"

text \<open>\<^verbatim>\<open>fprintf\<close> writes the characters one by one, ignoring the results.\<close>

fun put_all :: "int \<Rightarrow> u8 list \<Rightarrow> prog \<Rightarrow> prog" where
  "put_all fd [] k = k"
| "put_all fd (c # cs) k = Call (Write fd [c]) (\<lambda>_. put_all fd cs k)"

definition fprintf :: "int \<Rightarrow> string \<Rightarrow> arg list \<Rightarrow> prog \<Rightarrow> prog" where
  "fprintf fd fmt as k = (case uprintf fmt as of Some s \<Rightarrow> put_all fd (bytes_of s) k | None \<Rightarrow> Unfinished)"

abbreviation line :: "string \<Rightarrow> string" where "line s \<equiv> s @ [CHR 0x0A]"

abbreviation text_arg :: "u8 list \<Rightarrow> arg" where "text_arg bs \<equiv> Str (Some (string_of bs))"

section \<open>cat\<close>

text \<open>\<open>k\<close> is what follows the return.\<close>

fun cat :: "nat \<Rightarrow> int \<Rightarrow> prog \<Rightarrow> prog" where
  "cat 0 fd k = Unfinished"
| "cat (Suc fuel) fd k =
     Call (Read fd 512) (\<lambda>r.
       if ret r > 0
       then Call (Write 1 (take (nat (ret r)) (got r))) (\<lambda>w.
              if ret w \<noteq> ret r then fprintf 2 (line ''cat: write error'') [] (Exit 1) else cat fuel fd k)
       else if ret r < 0 then fprintf 2 (line ''cat: read error'') [] (Exit 1)
       else k)"

fun cat_files :: "nat \<Rightarrow> u8 list list \<Rightarrow> prog" where
  "cat_files fuel [] = Exit 0"
| "cat_files fuel (a # as) =
     Call (Open a O_RDONLY) (\<lambda>r.
       if ret r < 0 then fprintf 2 (line ''cat: cannot open %s'') [text_arg a] (Exit 1)
       else cat fuel (ret r) (Call (Close (ret r)) (\<lambda>_. cat_files fuel as)))"

definition cat_main :: "nat \<Rightarrow> u8 list list \<Rightarrow> prog" where
  "cat_main fuel args = (if args = [] then cat fuel 0 (Exit 0) else cat_files fuel args)"

section \<open>wc\<close>

text \<open>The counters are C \<^verbatim>\<open>int\<close>s: lines, words, characters, and whether the last byte was inside a word.\<close>

record wcount =
  wl :: u32
  ww :: u32
  wc_c :: u32
  inword :: bool

definition blanks :: "u8 list" where "blanks = [0x20, 0x0D, 0x09, 0x0A, 0x0B, 0]"

definition wc_byte :: "u8 \<Rightarrow> wcount \<Rightarrow> wcount" where
  "wc_byte b s =
     (let s = s\<lparr>wc_c := wc_c s + 1\<rparr>;
          s = (if b = 0x0A then s\<lparr>wl := wl s + 1\<rparr> else s)
      in case strchr blanks b of
           Some (Some _) \<Rightarrow> s\<lparr>inword := False\<rparr>
         | _ \<Rightarrow> if \<not> inword s then s\<lparr>ww := ww s + 1, inword := True\<rparr> else s)"

fun wc_loop :: "nat \<Rightarrow> int \<Rightarrow> u8 list \<Rightarrow> wcount \<Rightarrow> prog \<Rightarrow> prog" where
  "wc_loop 0 fd name s k = Unfinished"
| "wc_loop (Suc fuel) fd name s k =
     Call (Read fd 512) (\<lambda>r.
       if ret r > 0 then wc_loop fuel fd name (fold wc_byte (take (nat (ret r)) (got r)) s) k
       else if ret r < 0 then fprintf 1 (line ''wc: read error'') [] (Exit 1)
       else fprintf 1 (line ''%d %d %d %s'') [Num (ucast (wl s)), Num (ucast (ww s)), Num (ucast (wc_c s)), text_arg name] k)"

definition wc :: "nat \<Rightarrow> int \<Rightarrow> u8 list \<Rightarrow> prog \<Rightarrow> prog" where
  "wc fuel fd name k = wc_loop fuel fd name \<lparr>wl = 0, ww = 0, wc_c = 0, inword = False\<rparr> k"

fun wc_files :: "nat \<Rightarrow> u8 list list \<Rightarrow> prog" where
  "wc_files fuel [] = Exit 0"
| "wc_files fuel (a # as) =
     Call (Open a O_RDONLY) (\<lambda>r.
       if ret r < 0 then fprintf 1 (line ''wc: cannot open %s'') [text_arg a] (Exit 1)
       else wc fuel (ret r) a (Call (Close (ret r)) (\<lambda>_. wc_files fuel as)))"

definition wc_main :: "nat \<Rightarrow> u8 list list \<Rightarrow> prog" where
  "wc_main fuel args = (if args = [] then wc fuel 0 [] (Exit 0) else wc_files fuel args)"

section \<open>echo, mkdir, rm, ln, kill, zombie\<close>

fun echo_args :: "u8 list list \<Rightarrow> prog" where
  "echo_args [] = Exit 0"
| "echo_args (a # as) =
     Call (Write 1 a) (\<lambda>_. Call (Write 1 (if as \<noteq> [] then [0x20] else [0x0A])) (\<lambda>_. echo_args as))"

definition echo_main :: "u8 list list \<Rightarrow> prog" where "echo_main args = echo_args args"

fun mkdir_args :: "u8 list list \<Rightarrow> prog" where
  "mkdir_args [] = Exit 0"
| "mkdir_args (a # as) =
     Call (Mkdir a) (\<lambda>r. if ret r < 0 then fprintf 2 (line ''mkdir: %s failed to create'') [text_arg a] (Exit 0) else mkdir_args as)"

definition mkdir_main :: "u8 list list \<Rightarrow> prog" where
  "mkdir_main args = (if args = [] then fprintf 2 (line ''Usage: mkdir files...'') [] (Exit 1) else mkdir_args args)"

fun rm_args :: "u8 list list \<Rightarrow> prog" where
  "rm_args [] = Exit 0"
| "rm_args (a # as) =
     Call (Unlink a) (\<lambda>r. if ret r < 0 then fprintf 2 (line ''rm: %s failed to delete'') [text_arg a] (Exit 0) else rm_args as)"

definition rm_main :: "u8 list list \<Rightarrow> prog" where
  "rm_main args = (if args = [] then fprintf 2 (line ''Usage: rm files...'') [] (Exit 1) else rm_args args)"

definition ln_main :: "u8 list list \<Rightarrow> prog" where
  "ln_main args = (case args of
       [p, q] \<Rightarrow> Call (Link p q) (\<lambda>r.
         if ret r < 0 then fprintf 2 (line ''link %s %s: failed'') [text_arg p, text_arg q] (Exit 0) else Exit 0)
     | _ \<Rightarrow> fprintf 2 (line ''Usage: ln old new'') [] (Exit 1))"

fun kill_args :: "u8 list list \<Rightarrow> prog" where
  "kill_args [] = Exit 0"
| "kill_args (a # as) = (case atoi (a @ [0]) of Some n \<Rightarrow> Call (Kill n) (\<lambda>_. kill_args as) | None \<Rightarrow> Unfinished)"

definition kill_main :: "u8 list list \<Rightarrow> prog" where
  "kill_main args = (if args = [] then fprintf 2 (line ''usage: kill pid...'') [] (Exit 1) else kill_args args)"

definition zombie_main :: prog where
  "zombie_main = Call Fork (\<lambda>r. if ret r > 0 then Call (Pause 5) (\<lambda>_. Exit 0) else Exit 0)"

section \<open>init\<close>

definition console :: "u8 list" where "console = bytes_of ''console''"

text \<open>It waits until the shell \<open>pid\<close> has exited; then \<open>k\<close>.\<close>

fun init_wait :: "nat \<Rightarrow> int \<Rightarrow> prog \<Rightarrow> prog" where
  "init_wait 0 pid k = Unfinished"
| "init_wait (Suc fuel) pid k =
     Call Wait (\<lambda>w.
       if ret w = pid then k
       else if ret w < 0 then fprintf 1 (line ''init: wait returned an error'') [] (Exit 1)
       else init_wait fuel pid k)"

fun init_loop :: "nat \<Rightarrow> prog" where
  "init_loop 0 = Unfinished"
| "init_loop (Suc fuel) =
     fprintf 1 (line ''init: starting sh'') []
      (Call Fork (\<lambda>r.
        if ret r < 0 then fprintf 1 (line ''init: fork failed'') [] (Exit 1)
        else if ret r = 0
        then Call (Exec (bytes_of ''sh'') [bytes_of ''sh'']) (\<lambda>_. fprintf 1 (line ''init: exec sh failed'') [] (Exit 1))
        else init_wait (Suc fuel) (ret r) (init_loop fuel)))"

definition init_main :: "nat \<Rightarrow> prog" where
  "init_main fuel =
     (let go = Call (Dup 0) (\<lambda>_. Call (Dup 0) (\<lambda>_. init_loop fuel)) in
      Call (Open console O_RDWR) (\<lambda>r.
        if ret r < 0 then Call (Mknod console CONSOLE 0) (\<lambda>_. Call (Open console O_RDWR) (\<lambda>_. go)) else go))"

section \<open>ls\<close>

definition fmtname :: "u8 list \<Rightarrow> u8 list" where
  "fmtname path = (let p = rev (takeWhile (\<lambda>c. c \<noteq> 0x2F) (rev path)) in
     if DIRSIZ \<le> length p then p else p @ replicate (DIRSIZ - length p) 0x20)"

definition ls_line :: "u8 list \<Rightarrow> fstatus \<Rightarrow> prog \<Rightarrow> prog" where
  "ls_line path st k =
     fprintf 1 (line ''%s %d %d %d'') [text_arg (fmtname path), Num (scast (kind st)), Num (ucast (inumber st)), Num (bytes st)] k"

text \<open>\<^verbatim>\<open>stat\<close> of \<^verbatim>\<open>ulib.c\<close>: the result and what has been found.\<close>

definition ustat :: "u8 list \<Rightarrow> (int \<Rightarrow> fstatus \<Rightarrow> prog) \<Rightarrow> prog" where
  "ustat path k =
     Call (Open path O_RDONLY) (\<lambda>f.
       if ret f < 0 then k (-1) (status f)
       else Call (Fstat (ret f)) (\<lambda>r. Call (Close (ret f)) (\<lambda>_. k (ret r) (status r))))"

text \<open>The entries of the open directory \<open>path\<close>; a name ends at its first NUL or after 14 bytes.\<close>

fun ls_entries :: "nat \<Rightarrow> int \<Rightarrow> u8 list \<Rightarrow> prog \<Rightarrow> prog" where
  "ls_entries 0 fd path k = Unfinished"
| "ls_entries (Suc fuel) fd path k =
     Call (Read fd DIRENT_SIZE) (\<lambda>r.
       if ret r \<noteq> int DIRENT_SIZE then k
       else if got r ! 0 = 0 \<and> got r ! 1 = 0 then ls_entries fuel fd path k
       else let file = path @ [0x2F] @ cstr (take DIRSIZ (drop 2 (got r))) in
         ustat file (\<lambda>x st.
           if x < 0 then fprintf 1 (line ''ls: cannot stat %s'') [text_arg file] (ls_entries fuel fd path k)
           else ls_line file st (ls_entries fuel fd path k)))"

definition ls :: "nat \<Rightarrow> u8 list \<Rightarrow> prog \<Rightarrow> prog" where
  "ls fuel path k =
     Call (Open path O_RDONLY) (\<lambda>f.
       if ret f < 0 then fprintf 2 (line ''ls: cannot open %s'') [text_arg path] k
       else let fd = ret f; out = Call (Close fd) (\<lambda>_. k) in
         Call (Fstat fd) (\<lambda>r.
           if ret r < 0 then fprintf 2 (line ''ls: cannot stat %s'') [text_arg path] out
           else let st = status r in
             if kind st = T_DEVICE \<or> kind st = T_FILE then ls_line path st out
             else if kind st = T_DIR
             then (if 512 < length path + 1 + DIRSIZ + 1 then fprintf 1 (line ''ls: path too long'') [] out
                   else ls_entries fuel fd path out)
             else out))"

fun ls_args :: "nat \<Rightarrow> u8 list list \<Rightarrow> prog" where
  "ls_args fuel [] = Exit 0"
| "ls_args fuel (a # as) = ls fuel a (ls_args fuel as)"

definition ls_main :: "nat \<Rightarrow> u8 list list \<Rightarrow> prog" where
  "ls_main fuel args = (if args = [] then ls fuel [0x2E] (Exit 0) else ls_args fuel args)"


section \<open>Running against replies\<close>

text \<open>The calls a program makes when it gets the given replies, and what is left of it then.\<close>

fun calls :: "prog \<Rightarrow> reply list \<Rightarrow> call list" where
  "calls (Call c k) (r # rs) = c # calls (k r) rs"
| "calls p rs = []"

fun feed :: "prog \<Rightarrow> reply list \<Rightarrow> prog" where
  "feed (Call c k) (r # rs) = feed (k r) rs"
| "feed p rs = p"

definition reads :: "u8 list \<Rightarrow> reply" where
  "reads c = \<lparr>ret = int (length c), got = c, status = \<lparr>inumber = 0, kind = 0, bytes = 0\<rparr>,
     ends = (0, 0), xstat = 0\<rparr>"

text \<open>\<^verbatim>\<open>cat\<close> writes what it reads.\<close>

lemma cat_copies:
  assumes "\<forall>c\<in>set cs. c \<noteq> []"
  shows "calls (cat (Suc (length cs)) fd k) (concat (map (\<lambda>c. [reads c, reads c]) cs) @ [reads []]) =
      concat (map (\<lambda>c. [Read fd 512, Write 1 c]) cs) @ [Read fd 512] \<and>
    feed (cat (Suc (length cs)) fd k) (concat (map (\<lambda>c. [reads c, reads c]) cs) @ [reads []]) = k"
  using assms by (induction cs) (simp_all add: reads_def)

text \<open>\<^verbatim>\<open>fmtname\<close> gives the last element of the path, padded with blanks to 14 characters.\<close>

lemma fmtname_last:
  assumes "0x2F \<notin> set name"
  shows "fmtname (dir @ [0x2F] @ name) = name @ replicate (DIRSIZ - length name) 0x20"
    "fmtname name = name @ replicate (DIRSIZ - length name) 0x20"
proof -
  have a: "\<forall>c\<in>set (rev name). c \<noteq> 0x2F" using assms by auto
  have t1: "takeWhile (\<lambda>c. c \<noteq> 0x2F) (rev (dir @ [0x2F] @ name)) = rev name" using a takeWhile_append2 [of "rev name" "\<lambda>c. c \<noteq> 0x2F" "0x2F # rev dir"] by simp
  have t2: "takeWhile (\<lambda>c. c \<noteq> 0x2F) (rev name) = rev name" using a by (simp add: takeWhile_eq_all_conv)
  show "fmtname (dir @ [0x2F] @ name) = name @ replicate (DIRSIZ - length name) 0x20"
    unfolding fmtname_def t1 Let_def by simp
  show "fmtname name = name @ replicate (DIRSIZ - length name) 0x20"
    unfolding fmtname_def t2 Let_def by simp
qed

section \<open>Counting\<close>

definition blank :: "u8 \<Rightarrow> bool" where "blank b \<longleftrightarrow> b \<in> {0x20, 0x0D, 0x09, 0x0A, 0x0B}"

text \<open>The words of a text are its positions where a word begins.\<close>

definition word_starts :: "u8 list \<Rightarrow> nat list" where
  "word_starts bs = filter (\<lambda>i. \<not> blank (bs ! i) \<and> (i = 0 \<or> blank (bs ! (i - 1)))) [0..<length bs]"

lemma strchr_blanks: "strchr blanks b \<noteq> None" "(\<exists>i. strchr blanks b = Some (Some i)) \<longleftrightarrow> blank b"
  by (auto simp: blanks_def blank_def)

lemma wc_byte_eq:
  "wc_byte b s = \<lparr>wl = wl s + (if b = 0x0A then 1 else 0), ww = ww s + (if \<not> blank b \<and> \<not> inword s then 1 else 0),
     wc_c = wc_c s + 1, inword = \<not> blank b\<rparr>"
proof (cases "strchr blanks b")
  case (Some x)
  then show ?thesis using strchr_blanks(2) [of b] by (cases x; cases s) (auto simp: wc_byte_def Let_def)
qed (use strchr_blanks(1) in simp)

lemma word_starts_snoc:
  "word_starts (bs @ [b]) = word_starts bs @ (if \<not> blank b \<and> (bs = [] \<or> blank (last bs)) then [length bs] else [])"
proof -
  have f: "filter (\<lambda>i. \<not> blank ((bs @ [b]) ! i) \<and> (i = 0 \<or> blank ((bs @ [b]) ! (i - 1)))) [0..<length bs] = word_starts bs"
    unfolding word_starts_def by (rule filter_cong) (auto simp: nth_append)
  have "(length bs = 0 \<or> blank ((bs @ [b]) ! (length bs - 1))) \<longleftrightarrow> bs = [] \<or> blank (last bs)"
    by (cases "bs = []") (simp_all add: nth_append last_conv_nth)
  then show ?thesis using f by (simp add: word_starts_def)
qed

lemma wc_counted:
  "fold wc_byte bs \<lparr>wl = 0, ww = 0, wc_c = 0, inword = False\<rparr> =
     \<lparr>wl = of_nat (length (filter (\<lambda>b. b = 0x0A) bs)), ww = of_nat (length (word_starts bs)), wc_c = of_nat (length bs),
      inword = bs \<noteq> [] \<and> \<not> blank (last bs)\<rparr>"
proof (induction bs rule: rev_induct)
  case Nil
  then show ?case by (simp add: word_starts_def)
next
  case (snoc b bs)
  then show ?case by (auto simp: wc_byte_eq word_starts_snoc)
qed

lemma wc_loop_reads:
  "\<forall>c\<in>set cs. c \<noteq> [] \<Longrightarrow> feed (wc_loop (Suc (length cs)) fd name s k) (map reads cs @ [reads []]) =
     feed (wc_loop 1 fd name (fold wc_byte (concat cs) s) k) [reads []]"
  by (induction cs arbitrary: s) (auto simp: reads_def)

text \<open>
  However reads cut the input, \<^verbatim>\<open>wc\<close> prints the number of its newlines, of its words, which are the
  positions of a nonblank byte at the beginning or after a blank, and of its bytes, each modulo \<open>2 ^ 32\<close>.
\<close>

lemma wc_counts:
  assumes "\<forall>c\<in>set cs. c \<noteq> []"
  shows "feed (wc (Suc (length cs)) fd name k) (map reads cs @ [reads []]) =
    fprintf 1 (line ''%d %d %d %s'')
      [Num (ucast (of_nat (length (filter (\<lambda>b. b = 0x0A) (concat cs))) :: u32)), Num (ucast (of_nat (length (word_starts (concat cs))) :: u32)),
       Num (ucast (of_nat (length (concat cs)) :: u32)), text_arg name] k"
proof -
  show ?thesis
    unfolding wc_def wc_loop_reads [OF assms] wc_counted by (simp add: reads_def)
qed

end
