(* ===== verification/Test_Programs.thy ===== *)
theory Test_Programs
  imports Utils
begin

text \<open>
  Programs of \<^verbatim>\<open>user/\<close> that try out the kernel: the three for this repository's own system calls,
  \<^verbatim>\<open>forktest\<close>, \<^verbatim>\<open>stressfs\<close>, \<^verbatim>\<open>logstress\<close>, \<^verbatim>\<open>forphan\<close> and \<^verbatim>\<open>dorphan\<close>, as programs of Utils.
\<close>

section \<open>Pieces\<close>

text \<open>Calls whose results are ignored; \<^verbatim>\<open>printf\<close> of a message and \<^verbatim>\<open>exit\<close>; \<^verbatim>\<open>wait(&x)\<close>.\<close>

fun ignoring :: "call list \<Rightarrow> prog \<Rightarrow> prog" where
  "ignoring [] k = k"
| "ignoring (c # cs) k = Call c (\<lambda>_. ignoring cs k)"

definition die :: "int \<Rightarrow> string \<Rightarrow> int \<Rightarrow> prog" where
  "die fd msg n = fprintf fd (line msg) [] (Exit n)"

definition wait_into :: "int \<Rightarrow> (int \<Rightarrow> prog) \<Rightarrow> prog" where
  "wait_into x k = Call Wait (\<lambda>r. k (if ret r < 0 then x else xstat r))"

fun idle :: "nat \<Rightarrow> prog" where
  "idle 0 = Unfinished"
| "idle (Suc fuel) = Call (Pause 1000) (\<lambda>_. idle fuel)"

section \<open>test_getppid, test_procs, test_sleep2\<close>

definition test_getppid :: prog where
  "test_getppid =
     Call Getpid (\<lambda>r. fprintf 1 (line ''My PID: %d'') [Num (of_int (ret r))]
       (Call Getppid (\<lambda>r. fprintf 1 (line ''Parent PID: %d'') [Num (of_int (ret r))] (Exit 0))))"

definition test_procs :: prog where
  "test_procs = Call Getprocsinfo (\<lambda>_. Exit 0)"

definition test_sleep2 :: prog where
  "test_sleep2 = fprintf 1 (line ''Start'') [] (Call (Sleep2 50) (\<lambda>_. fprintf 1 (line ''End'') [] (Exit 0)))"

section \<open>forktest\<close>

definition put_str :: "string \<Rightarrow> prog \<Rightarrow> prog" where
  "put_str s k = Call (Write 1 (bytes_of s)) (\<lambda>_. k)"

text \<open>At most \<open>m\<close> more forks; \<open>k\<close> gets the number made. The children exit at once.\<close>

fun fork_loop :: "nat \<Rightarrow> nat \<Rightarrow> (nat \<Rightarrow> prog) \<Rightarrow> prog" where
  "fork_loop 0 n k = k n"
| "fork_loop (Suc m) n k =
     Call Fork (\<lambda>r. if ret r < 0 then k n else if ret r = 0 then Exit 0 else fork_loop m (Suc n) k)"

fun wait_loop :: "nat \<Rightarrow> prog \<Rightarrow> prog" where
  "wait_loop 0 k = k"
| "wait_loop (Suc n) k =
     Call Wait (\<lambda>r. if ret r < 0 then put_str (line ''wait stopped early'') (Exit 1) else wait_loop n k)"

definition forktest :: prog where
  "forktest =
     put_str (line ''fork test'')
       (fork_loop 1000 0 (\<lambda>n.
         if n = 1000 then put_str (line ''fork claimed to work N times!'') (Exit 1)
         else wait_loop n (Call Wait (\<lambda>r.
           if ret r \<noteq> -1 then put_str (line ''wait got too many'') (Exit 1)
           else put_str (line ''fork test OK'') (Exit 0)))))"

section \<open>stressfs\<close>

text \<open>Every child forks the next process; \<open>k\<close> gets the number of the process in the chain.\<close>

fun chain :: "nat \<Rightarrow> nat \<Rightarrow> (nat \<Rightarrow> prog) \<Rightarrow> prog" where
  "chain 0 i k = k i"
| "chain (Suc m) i k = Call Fork (\<lambda>r. if ret r > 0 then k i else chain m (Suc i) k)"

definition stressfs_main :: prog where
  "stressfs_main =
     fprintf 1 (line ''stressfs starting'') []
       (chain 4 0 (\<lambda>i.
         let path = bytes_of ''stressfs'' @ [0x30 + of_nat i]; block = replicate 512 0x61 in
         fprintf 1 (line ''write %d'') [Num (of_nat i)]
           (Call (Open path (O_CREATE OR O_RDWR)) (\<lambda>f.
             ignoring (replicate 20 (Write (ret f) block) @ [Close (ret f)])
               (fprintf 1 (line ''read'') []
                 (Call (Open path O_RDONLY) (\<lambda>f.
                   ignoring (replicate 20 (Read (ret f) 512) @ [Close (ret f), Wait]) (Exit 0))))))))"

section \<open>logstress\<close>

text \<open>
  A child fills a buffer and writes it 250 times. \<^verbatim>\<open>buf\<close> has 500 bytes, of which \<^verbatim>\<open>memset\<close> and \<^verbatim>\<open>write\<close>
  use 2000; what is written is as if it had as many.
\<close>

fun log_writes :: "nat \<Rightarrow> int \<Rightarrow> u8 list \<Rightarrow> prog" where
  "log_writes 0 fd block = Exit 0"
| "log_writes (Suc n) fd block =
     Call (Write fd block) (\<lambda>r.
       if ret r \<noteq> 2000 then fprintf 1 (line ''write failed %d'') [Num (of_int (ret r))] (Exit 1)
       else log_writes n fd block)"

fun logstress_forks :: "u8 list \<Rightarrow> nat \<Rightarrow> u8 list list \<Rightarrow> prog \<Rightarrow> prog" where
  "logstress_forks name i [] k = k"
| "logstress_forks name i (a # as) k =
     Call Fork (\<lambda>r.
       if ret r < 0 then fprintf 1 (line ''%s: fork failed'') [text_arg name] (Exit 1)
       else if ret r = 0
       then Call (Open a (O_CREATE OR O_RDWR)) (\<lambda>f.
              if ret f < 0 then fprintf 1 (line ''%s: create %s failed'') [text_arg name, text_arg a] (Exit 1)
              else log_writes 250 (ret f) (replicate 2000 (0x30 + of_nat i)))
       else logstress_forks name (Suc i) as k)"

fun logstress_waits :: "nat \<Rightarrow> int \<Rightarrow> prog" where
  "logstress_waits 0 x = Exit 0"
| "logstress_waits (Suc n) x = wait_into x (\<lambda>x. if x \<noteq> 0 then Exit x else logstress_waits n x)"

text \<open>\<open>x\<close> is what \<^verbatim>\<open>xstatus\<close> holds before it is set.\<close>

definition logstress_main :: "u8 list \<Rightarrow> u8 list list \<Rightarrow> int \<Rightarrow> prog" where
  "logstress_main name args x = logstress_forks name 1 args (logstress_waits (length args) x)"

section \<open>forphan, dorphan\<close>

definition forphan_main :: "nat \<Rightarrow> u8 list \<Rightarrow> prog" where
  "forphan_main fuel name =
     (let ff = bytes_of ''file0'' in
      Call (Open ff (O_CREATE OR O_WRONLY)) (\<lambda>f.
        if ret f < 0 then fprintf 1 (line ''%s: open failed'') [text_arg name] (Exit 1)
        else Call (Fstat (ret f)) (\<lambda>r.
          if ret r < 0 then fprintf 2 (line ''%s: cannot stat %s'') [text_arg name, Str (Some ''ff'')] (Exit 1)
          else let st = status r in
          Call (Unlink ff) (\<lambda>r.
            if ret r < 0 then fprintf 1 (line ''%s: unlink failed'') [text_arg name] (Exit 1)
            else Call (Open ff O_RDONLY) (\<lambda>r.
              if ret r \<noteq> -1 then fprintf 1 (line ''%s: open successed'') [text_arg name] (Exit 1)
              else fprintf 1 (line ''wait for kill and reclaim %d'') [Num (ucast (inumber st))] (idle fuel))))))"

definition dorphan_main :: "nat \<Rightarrow> u8 list \<Rightarrow> prog" where
  "dorphan_main fuel name =
     Call (Mkdir (bytes_of ''dd'')) (\<lambda>r.
       if ret r \<noteq> 0 then fprintf 1 (line ''%s: mkdir dd failed'') [text_arg name] (Exit 1)
       else Call (Chdir (bytes_of ''dd'')) (\<lambda>r.
         if ret r \<noteq> 0 then fprintf 1 (line ''%s: chdir dd failed'') [text_arg name] (Exit 1)
         else Call (Unlink (bytes_of ''../dd'')) (\<lambda>r.
           if ret r < 0 then fprintf 1 (line ''%s: unlink failed'') [text_arg name] (Exit 1)
           else fprintf 1 (line ''wait for kill and reclaim'') [] (idle fuel))))"

section \<open>What the fork test accepts\<close>

definition answers :: "int \<Rightarrow> reply" where
  "answers n = (reads [])\<lparr>ret := n\<rparr>"

lemma answers_ret [simp]: "ret (answers n) = n"
  by (simp add: answers_def)

lemma fork_loop_feed:
  "\<forall>p\<in>set ps. 0 < p \<Longrightarrow> length ps < m \<Longrightarrow>
   feed (fork_loop m n k) (map answers ps @ answers (-1) # rs) = feed (k (n + length ps)) rs"
proof (induction ps arbitrary: m n)
  case Nil
  then show ?case by (cases m) auto
next
  case (Cons p ps)
  then show ?case by (cases m) auto
qed

lemma wait_loop_feed:
  "\<forall>p\<in>set ps. 0 \<le> p \<Longrightarrow> feed (wait_loop (length ps) k) (map answers ps @ rs) = feed k rs"
  by (induction ps) auto

text \<open>
  A kernel that has room for fewer than 1000 processes, and whose \<^verbatim>\<open>wait\<close> then returns every child once
  and -1 afterwards, passes the fork test.
\<close>

lemma forktest_passes:
  assumes "\<forall>p\<in>set ps. 0 < p" "length ps < 1000" "length qs = length ps" "\<forall>q\<in>set qs. 0 < q"
  shows "feed forktest (answers 10 # map answers ps @ answers (-1) # map answers qs @ [answers (-1), answers 13]) = Exit 0"
proof -
  have "length ps < 1000" "length ps \<noteq> 1000" using assms(2) by simp_all
  moreover have "feed (wait_loop (length ps) k) (map answers qs @ rs) = feed k rs" for k rs
    using wait_loop_feed [of qs k rs] assms(3,4) by (simp add: less_imp_le)
  ultimately show ?thesis
    using fork_loop_feed [OF assms(1), of 1000]
    by (simp add: forktest_def put_str_def)
qed

text \<open>One wait that finds no child although one is left fails it.\<close>

lemma forktest_notices:
  assumes "\<forall>p\<in>set ps. 0 < p" "length ps < 1000" "ps \<noteq> []"
  shows "feed forktest (answers 10 # map answers ps @ answers (-1) # [answers (-1), answers 19]) = Exit 1"
proof -
  obtain n where "length ps = Suc n" using assms(3) by (cases ps) auto
  then show ?thesis
    using fork_loop_feed [OF assms(1), of 1000] assms(2)
    by (simp add: forktest_def put_str_def)
qed

end
