(* ===== verification/Grind.thy ===== *)
theory Grind
  imports Test_Programs
begin

text \<open>
  \<^verbatim>\<open>user/grind.c\<close>: the random number generator and the loop of random system calls, as programs of
  Utils. The generator is shown to compute what its comment says without leaving 32-bit integers, to
  stay in its range and to be injective on it.
\<close>

section \<open>The generator\<close>

definition do_rand :: "u64 \<Rightarrow> u64 \<times> int" where
  "do_rand ctx =
     (let x = uint ctx mod 0x7ffffffe + 1;
          hi = x div 127773;
          lo = x mod 127773;
          x = 16807 * lo - 2836 * hi;
          x = (if x < 0 then x + 0x7fffffff else x);
          x = x - 1
      in (of_int x, x))"

lemma schrage:
  fixes x :: int
  assumes "0 < x" "x < 0x7fffffff"
  defines "y \<equiv> 16807 * (x mod 127773) - 2836 * (x div 127773)"
  shows "\<bar>16807 * (x mod 127773)\<bar> < 2 ^ 31" "\<bar>2836 * (x div 127773)\<bar> < 2 ^ 31" "\<bar>y\<bar> < 0x7fffffff"
    "(if y < 0 then y + 0x7fffffff else y) = 16807 * x mod 0x7fffffff"
proof -
  have l: "0 \<le> x mod 127773" "x mod 127773 < 127773" by simp_all
  have h: "0 \<le> x div 127773" "x div 127773 \<le> 16807"
    using assms(1,2) zdiv_mono1 [of x "0x7ffffffe" 127773] by (simp_all add: pos_imp_zdiv_nonneg_iff)
  show "\<bar>16807 * (x mod 127773)\<bar> < 2 ^ 31" "\<bar>2836 * (x div 127773)\<bar> < 2 ^ 31" using l h by simp_all
  show b: "\<bar>y\<bar> < 0x7fffffff" unfolding y_def using l h by simp
  have "x = 127773 * (x div 127773) + x mod 127773" by simp
  then have "y = 16807 * x - 0x7fffffff * (x div 127773)"
    unfolding y_def by presburger
  then have m: "y mod 0x7fffffff = 16807 * x mod 0x7fffffff"
    by (simp add: mod_eq_dvd_iff)
  show "(if y < 0 then y + 0x7fffffff else y) = 16807 * x mod 0x7fffffff"
  proof (cases "y < 0")
    case True
    then have "(y + 0x7fffffff) mod 0x7fffffff = y + 0x7fffffff" using b by (intro mod_pos_pos_trivial) auto
    then show ?thesis using True m by simp
  next
    case False
    then have "y mod 0x7fffffff = y" using b by (intro mod_pos_pos_trivial) auto
    then show ?thesis using False m by simp
  qed
qed

lemma lehmer_unit:
  fixes x y :: int
  assumes "16807 * x mod 0x7fffffff = 16807 * y mod 0x7fffffff" "0 \<le> x" "x < 0x7fffffff" "0 \<le> y" "y < 0x7fffffff"
  shows "x = y"
proof -
  have inv: "16807 * 1407677000 mod 0x7fffffff = (1 :: int)" by simp
  have "z = (16807 * z mod 0x7fffffff) * 1407677000 mod 0x7fffffff" if "0 \<le> z" "z < 0x7fffffff" for z :: int
  proof -
    have "(16807 * z mod 0x7fffffff) * 1407677000 mod 0x7fffffff = 16807 * z * 1407677000 mod 0x7fffffff"
      by (rule mod_mult_left_eq)
    also have "\<dots> = z * (16807 * 1407677000) mod 0x7fffffff"
      by (simp only: mult.assoc mult.commute mult.left_commute)
    also have "\<dots> = z * (16807 * 1407677000 mod 0x7fffffff) mod 0x7fffffff" by (simp only: mod_mult_right_eq)
    also have "\<dots> = z" using that unfolding inv by simp
    finally show ?thesis by simp
  qed
  then show ?thesis using assms by metis
qed

lemma do_rand_lehmer:
  fixes ctx :: u64
  defines "x \<equiv> uint ctx mod 0x7ffffffe + 1"
  shows "do_rand ctx = (of_int (16807 * x mod 0x7fffffff - 1), 16807 * x mod 0x7fffffff - 1)"
    "0 \<le> 16807 * x mod 0x7fffffff - 1" "16807 * x mod 0x7fffffff - 1 < 0x7ffffffe"
proof -
  have r: "0 < x" "x < 0x7fffffff" unfolding x_def
    using pos_mod_bound [of "0x7ffffffe" "uint ctx"] pos_mod_sign [of "0x7ffffffe" "uint ctx"] by simp_all
  show "do_rand ctx = (of_int (16807 * x mod 0x7fffffff - 1), 16807 * x mod 0x7fffffff - 1)"
    using schrage(4) [OF r] unfolding do_rand_def x_def Let_def by simp
  have "16807 * x mod 0x7fffffff \<noteq> 0" using lehmer_unit [of x 0] r by auto
  moreover have "0 \<le> 16807 * x mod 0x7fffffff" "16807 * x mod 0x7fffffff < 0x7fffffff" by simp_all
  ultimately show "0 \<le> 16807 * x mod 0x7fffffff - 1" "16807 * x mod 0x7fffffff - 1 < 0x7ffffffe" by linarith+
qed

text \<open>On its range the generator is injective, hence a permutation.\<close>

lemma do_rand_inj:
  assumes "unat a < 0x7ffffffe" "unat b < 0x7ffffffe" "snd (do_rand a) = snd (do_rand b)"
  shows "a = b"
proof -
  have u: "uint c mod 0x7ffffffe = uint c" if "unat c < 0x7ffffffe" for c :: u64
  proof -
    have "int (unat c) < int 0x7ffffffe" using that by (simp only: of_nat_less_iff)
    then show ?thesis by simp
  qed
  have l: "uint c + 1 < 0x7fffffff" if "unat c < 0x7ffffffe" for c :: u64
    using u [OF that] pos_mod_bound [of "0x7ffffffe" "uint c"] by simp
  have "16807 * (uint a + 1) mod 0x7fffffff = 16807 * (uint b + 1) mod 0x7fffffff"
    using assms(3) unfolding do_rand_lehmer(1) u [OF assms(1)] u [OF assms(2)] by simp
  then have "uint a + 1 = uint b + 1"
    by (rule lehmer_unit) (simp_all add: l assms(1,2))
  then have "uint a = uint b" by simp
  then show ?thesis by (simp only: word_uint_eq_iff)
qed

section \<open>Random system calls\<close>

text \<open>
  What \<^verbatim>\<open>go\<close> keeps between the rounds: its file, its buffer, the rounds and the generator's state, and
  the break it started with. \<open>junk\<close> is what the uninitialised \<^verbatim>\<open>st1\<close> and \<^verbatim>\<open>st2\<close> hold.
\<close>

record gstate =
  gfd :: int
  gbuf :: "u8 list"
  iters :: u64
  rand_next :: u64
  break0 :: int
  junk :: "int \<times> int"

abbreviation rw :: u32 where "rw \<equiv> O_CREATE OR O_RDWR"

definition grind_die :: "string \<Rightarrow> prog" where
  "grind_die msg = die 1 (''grind: '' @ msg) 1"

definition open_close :: "string \<Rightarrow> prog \<Rightarrow> prog" where
  "open_close path k = Call (Open (bytes_of path) rw) (\<lambda>r. Call (Close (ret r)) (\<lambda>_. k))"

text \<open>The \<^verbatim>\<open>fork\<close> of the branches: the child, and the parent with the child's id.\<close>

definition forked :: "prog \<Rightarrow> (int \<Rightarrow> prog) \<Rightarrow> prog" where
  "forked child parent =
     Call Fork (\<lambda>r. if ret r = 0 then child else if ret r < 0 then grind_die ''fork failed'' else parent (ret r))"

text \<open>Rounds 1 to 12: files and directories. \<open>k\<close> gets the descriptor kept.\<close>

definition go_files :: "int \<Rightarrow> gstate \<Rightarrow> (gstate \<Rightarrow> prog) \<Rightarrow> prog" where
  "go_files what s k =
     (if what = 1 then open_close ''grindir/../a'' (k s)
      else if what = 2 then open_close ''grindir/../grindir/../b'' (k s)
      else if what = 3 then ignoring [Unlink (bytes_of ''grindir/../a'')] (k s)
      else if what = 4 then
        Call (Chdir (bytes_of ''grindir'')) (\<lambda>r.
          if ret r \<noteq> 0 then grind_die ''chdir grindir failed''
          else ignoring [Unlink (bytes_of ''../b''), Chdir (bytes_of ''/'')] (k s))
      else if what = 5 then
        ignoring [Close (gfd s)] (Call (Open (bytes_of ''/grindir/../a'') rw) (\<lambda>r. k (s\<lparr>gfd := ret r\<rparr>)))
      else if what = 6 then
        ignoring [Close (gfd s)] (Call (Open (bytes_of ''/./grindir/./../b'') rw) (\<lambda>r. k (s\<lparr>gfd := ret r\<rparr>)))
      else if what = 7 then ignoring [Write (gfd s) (gbuf s)] (k s)
      else if what = 8 then
        Call (Read (gfd s) 999) (\<lambda>r. k (s\<lparr>gbuf := take 999 (got r @ drop (length (got r)) (gbuf s))\<rparr>))
      else if what = 9 then
        ignoring [Mkdir (bytes_of ''grindir/../a'')] (open_close ''a/../a/./a'' (ignoring [Unlink (bytes_of ''a/a'')] (k s)))
      else if what = 10 then
        ignoring [Mkdir (bytes_of ''/../b'')] (open_close ''grindir/../b/b'' (ignoring [Unlink (bytes_of ''b/b'')] (k s)))
      else if what = 11 then
        ignoring [Unlink (bytes_of ''b''), Link (bytes_of ''../grindir/./../a'') (bytes_of ''../b'')] (k s)
      else if what = 12 then
        ignoring [Unlink (bytes_of ''../grindir/../a''), Link (bytes_of ''.././b'') (bytes_of ''/grindir/../a'')] (k s)
      else k s)"

text \<open>The parent's part of round 19 after the fork, and the child's.\<close>

definition pipe_child :: "int \<times> int \<Rightarrow> prog" where
  "pipe_child fds =
     (let reading = Call (Read (fst fds) 1) (\<lambda>r.
            if ret r \<noteq> 1 then fprintf 1 (line ''grind: pipe read failed'') [] (Exit 0) else Exit 0) in
      ignoring [Fork, Fork]
        (Call (Write (snd fds) (bytes_of ''x'')) (\<lambda>r.
          if ret r \<noteq> 1 then fprintf 1 (line ''grind: pipe write failed'') [] reading else reading)))"

text \<open>
  Rounds 13 to 20: processes and memory. The argument of \<^verbatim>\<open>sbrk\<close> is cut to an \<^verbatim>\<open>int\<close>.
\<close>

definition go_procs :: "int \<Rightarrow> gstate \<Rightarrow> (gstate \<Rightarrow> prog) \<Rightarrow> prog" where
  "go_procs what s k =
     (let waiting = ignoring [Wait] (k s) in
      if what = 13 then forked (Exit 0) (\<lambda>_. waiting)
      else if what = 14 then forked (ignoring [Fork, Fork] (Exit 0)) (\<lambda>_. waiting)
      else if what = 15 then ignoring [Sbrk 6011] (k s)
      else if what = 16 then
        Call (Sbrk 0) (\<lambda>r.
          if ret r > break0 s
          then Call (Sbrk 0) (\<lambda>r. ignoring [Sbrk (sint (of_int (- (ret r - break0 s)) :: u32))] (k s))
          else k s)
      else if what = 17 then
        forked (open_close ''a'' (Exit 0)) (\<lambda>pid.
          Call (Chdir (bytes_of ''../grindir/..'')) (\<lambda>r.
            if ret r \<noteq> 0 then grind_die ''chdir failed'' else ignoring [Kill pid] waiting))
      else if what = 18 then
        forked (Call Getpid (\<lambda>r. ignoring [Kill (ret r)] (Exit 0))) (\<lambda>_. waiting)
      else if what = 19 then
        Call Pipe (\<lambda>r.
          if ret r < 0 then grind_die ''pipe failed''
          else let fds = ends r in
            forked (pipe_child fds) (\<lambda>_. ignoring [Close (fst fds), Close (snd fds)] waiting))
      else if what = 20 then
        forked (ignoring [Unlink (bytes_of ''a''), Mkdir (bytes_of ''a''), Chdir (bytes_of ''a''), Unlink (bytes_of ''../a''),
            Open (bytes_of ''x'') rw, Unlink (bytes_of ''x'')] (Exit 0)) (\<lambda>_. waiting)
      else k s)"

text \<open>Round 21: a new file of one byte.\<close>

definition go_check :: "gstate \<Rightarrow> (gstate \<Rightarrow> prog) \<Rightarrow> prog" where
  "go_check s k =
     ignoring [Unlink (bytes_of ''c'')]
       (Call (Open (bytes_of ''c'') rw) (\<lambda>f.
         if ret f < 0 then grind_die ''create c failed''
         else Call (Write (ret f) (bytes_of ''x'')) (\<lambda>r.
           if ret r \<noteq> 1 then grind_die ''write c failed''
           else Call (Fstat (ret f)) (\<lambda>r.
             let st = status r in
             if ret r \<noteq> 0 then grind_die ''fstat failed''
             else if bytes st \<noteq> 1
             then fprintf 1 (line ''grind: fstat reports wrong size %d'') [Num (bytes st)] (Exit 1)
             else if inumber st > 200
             then fprintf 1 (line ''grind: fstat reports crazy i-number %d'') [Num (ucast (inumber st))] (Exit 1)
             else ignoring [Close (ret f), Unlink (bytes_of ''c'')] (k s)))))"

text \<open>Round 22: \<^verbatim>\<open>echo hi | cat\<close>. The two children, then the parent, which reads what \<^verbatim>\<open>cat\<close> prints.\<close>

definition echo_child :: "int \<times> int \<Rightarrow> int \<times> int \<Rightarrow> prog" where
  "echo_child aa bb =
     ignoring [Close (fst bb), Close (snd bb), Close (fst aa), Close 1]
       (Call (Dup (snd aa)) (\<lambda>r.
         if ret r \<noteq> 1 then die 2 ''grind: dup failed'' 1
         else ignoring [Close (snd aa), Exec (bytes_of ''grindir/../echo'') [bytes_of ''echo'', bytes_of ''hi'']]
           (die 2 ''grind: echo: not found'' 2)))"

definition cat_child :: "int \<times> int \<Rightarrow> int \<times> int \<Rightarrow> prog" where
  "cat_child aa bb =
     ignoring [Close (snd aa), Close (fst bb), Close 0]
       (Call (Dup (fst aa)) (\<lambda>r.
         if ret r \<noteq> 0 then die 2 ''grind: dup failed'' 4
         else ignoring [Close (fst aa), Close 1]
           (Call (Dup (snd bb)) (\<lambda>r.
             if ret r \<noteq> 1 then die 2 ''grind: dup failed'' 5
             else ignoring [Close (snd bb), Exec (bytes_of ''/cat'') [bytes_of ''cat'']]
               (die 2 ''grind: cat: not found'' 6)))))"

text \<open>One byte of a read of at most one, 0 if there was none.\<close>

definition byte_of :: "reply \<Rightarrow> u8" where
  "byte_of r = (case got r of [] \<Rightarrow> 0 | b # _ \<Rightarrow> b)"

definition go_compare :: "int \<times> int \<Rightarrow> gstate \<Rightarrow> (gstate \<Rightarrow> prog) \<Rightarrow> prog" where
  "go_compare bb s k =
     Call (Read (fst bb) 1) (\<lambda>r0. Call (Read (fst bb) 1) (\<lambda>r1. Call (Read (fst bb) 1) (\<lambda>r2.
       let got4 = [byte_of r0, byte_of r1, byte_of r2, 0] in
       Call (Close (fst bb)) (\<lambda>_.
         wait_into (fst (junk s)) (\<lambda>st1. wait_into (snd (junk s)) (\<lambda>st2.
           if st1 \<noteq> 0 \<or> st2 \<noteq> 0 \<or> strcmp got4 (bytes_of (line ''hi'') @ [0]) \<noteq> Some 0
           then fprintf 1 (''grind: exec pipeline failed %d %d \"%s\"'' @ [CHR 0x0A])
                  [Num (of_int st1), Num (of_int st2), text_arg (takeWhile (\<lambda>b. b \<noteq> 0) got4)] (Exit 1)
           else k s))))))"

definition go_pipeline :: "gstate \<Rightarrow> (gstate \<Rightarrow> prog) \<Rightarrow> prog" where
  "go_pipeline s k =
     Call Pipe (\<lambda>a.
       if ret a < 0 then die 2 ''grind: pipe failed'' 1
       else let aa = ends a in
       Call Pipe (\<lambda>b.
         if ret b < 0 then die 2 ''grind: pipe failed'' 1
         else let bb = ends b in
         Call Fork (\<lambda>p.
           if ret p = 0 then echo_child aa bb
           else if ret p < 0 then die 2 ''grind: fork failed'' 3
           else Call Fork (\<lambda>p.
             if ret p = 0 then cat_child aa bb
             else if ret p < 0 then die 2 ''grind: fork failed'' 7
             else ignoring [Close (fst aa), Close (snd aa), Close (snd bb)] (go_compare bb s k)))))"

text \<open>One round with the number drawn.\<close>

definition go_round :: "gstate \<Rightarrow> (gstate \<Rightarrow> prog) \<Rightarrow> prog" where
  "go_round s k =
     (case do_rand (rand_next s) of (rnd, x) \<Rightarrow>
        let s = s\<lparr>rand_next := rnd\<rparr>; what = x mod 23 in
        if 1 \<le> what \<and> what \<le> 12 then go_files what s k
        else if 13 \<le> what \<and> what \<le> 20 then go_procs what s k
        else if what = 21 then go_check s k
        else if what = 22 then go_pipeline s k
        else k s)"

fun go_loop :: "nat \<Rightarrow> bool \<Rightarrow> gstate \<Rightarrow> prog" where
  "go_loop 0 which s = Unfinished"
| "go_loop (Suc fuel) which s =
     (let s = s\<lparr>iters := iters s + 1\<rparr>; round = go_round s (go_loop fuel which) in
      if iters s mod 500 = 0 then Call (Write 1 (bytes_of (if which then ''B'' else ''A''))) (\<lambda>_. round) else round)"

definition go :: "nat \<Rightarrow> bool \<Rightarrow> u64 \<Rightarrow> int \<times> int \<Rightarrow> prog" where
  "go fuel which rnd jnk =
     Call (Sbrk 0) (\<lambda>b. ignoring [Mkdir (bytes_of ''grindir'')]
       (Call (Chdir (bytes_of ''grindir'')) (\<lambda>r.
         if ret r \<noteq> 0 then grind_die ''chdir grindir failed''
         else ignoring [Chdir (bytes_of ''/'')]
           (go_loop fuel which \<lparr>gfd = -1, gbuf = replicate 999 0, iters = 0, rand_next = rnd, break0 = ret b, junk = jnk\<rparr>))))"

definition iter :: "nat \<Rightarrow> u64 \<Rightarrow> int \<times> int \<Rightarrow> prog" where
  "iter fuel rnd jnk =
     ignoring [Unlink (bytes_of ''a''), Unlink (bytes_of ''b'')]
       (forked (go fuel False (rnd XOR 31) jnk) (\<lambda>pid1.
         forked (go fuel True (rnd XOR 7177) jnk) (\<lambda>pid2.
           wait_into (-1) (\<lambda>st1.
             ignoring ((if st1 \<noteq> 0 then [Kill pid1, Kill pid2] else []) @ [Wait]) (Exit 0)))))"

fun grind_main :: "nat \<Rightarrow> u64 \<Rightarrow> int \<times> int \<Rightarrow> prog" where
  "grind_main 0 rnd jnk = Unfinished"
| "grind_main (Suc fuel) rnd jnk =
     Call Fork (\<lambda>r.
       if ret r = 0 then iter fuel rnd jnk
       else ignoring ((if ret r > 0 then [Wait] else []) @ [Pause 20]) (grind_main fuel (rnd + 1) jnk))"

end
