(* ===== verification/Spec2Isabelle.thy ===== *)
theory Spec2Isabelle
  imports Spinlock Page_Tables Vm_Frame Sched Log Log_Space Bio_Cache File_Refs Exec_Effect Paths Fs_Blocks Fs_Dir Mkfs_Build Inode_Table Virtio_Refine Trap_Return Asm Sleep_Ticks
    Proc_Info Boot_Locks Grep Sh_Roundtrip Sh_Run Umalloc Grind
begin

text \<open>
  xv6 for RISC-V, the teaching kernel with the system calls \<^verbatim>\<open>getprocsinfo\<close>, \<^verbatim>\<open>getppid\<close> and \<^verbatim>\<open>sleep2\<close> that this
  repository adds, together with the parts of its user library and programs that hold logic of their
  own. File names are those under \<^verbatim>\<open>src/G12_Project1_xv6CustomizeSystemCalls\<close>; definitions have the names
  of the C functions they translate, or of the function and the loop or half of it (\<open>balloc_group\<close>,
  \<open>begin_op_loop\<close>, \<open>sleep_resume\<close>).

  \<^bold>\<open>The program and the state.\<close> A trap brings a process into the kernel (\<^verbatim>\<open>trap.c\<close>, \<^verbatim>\<open>syscall.c\<close>), which
  runs a system call (\<^verbatim>\<open>sysproc.c\<close>, \<^verbatim>\<open>sysfile.c\<close>, \<^verbatim>\<open>exec.c\<close>) on the layers below: open files, pipes and the
  console, the file system, its log, the buffer cache and the disk; processes, their memory and page
  tables, the page allocator; locks at the bottom. The state is one record that grows by one extension
  per layer, so that an operation of a layer is a function on every later state:
    \<^item> \<open>kcore\<close> (Xv6_Prelude): the locks held, the text printed, the hart;
    \<^item> \<open>kmem\<close> (Kalloc): physical memory, a map from addresses to 64-bit words, and the free list;
    \<^item> \<open>kproc\<close> (Proc_State): the process table with trap frames and contexts, \<^verbatim>\<open>ticks\<close>, the current process;
    \<^item> \<open>kslp\<close>, \<open>kbio\<close>, \<open>klog\<close>, \<open>kfs\<close> (Sleeplock, Bio, Log, Fs): sleep-locks, buffers and disk, log header and
      transaction counters, superblock and inode table;
    \<^item> \<open>kio\<close> (Io_State): file table, pipes, console buffer, serial port;
    \<^item> \<open>kvdisk\<close>, \<open>ktrap\<close>, \<open>kboot\<close> (Virtio, Trap, Boot): the disk driver's rings, supervisor registers and interrupt
      controller, machine registers.
  Pointers into static tables are indices, locks and sleep channels are named by what they protect.

  \<^bold>\<open>Results.\<close> Kernel code returns \<open>Ok\<close> a value and the new state, \<open>Panic\<close> with the kernel's message, or
  \<open>Block\<close> at the point where the process gives up the CPU in \<^verbatim>\<open>sched\<close>, with the channel it waits for. What
  it does when it is switched to again is a function of its own, with \<open>resume\<close> in its name, applied
  to the state the other processes have left. \<open>bnd\<close> sequences results, and \<open>foreach\<close>, \<open>scan\<close> and
  \<open>while\<close>-like functions are the loops. A spinlock is on the list \<open>held\<close> while this hart holds it;
  taking a lock one holds, or giving back one not held, panics as in C. That this view of one hart is
  right with several harts running is proved in Spinlock. Functions are total: loops over tables recurse
  on the table, loops over addresses on the distance to the end (\<open>walk\<close> panics from \<^verbatim>\<open>MAXVA\<close> on), the few
  loops that could run forever return an option (\<open>partial_function\<close>) or take fuel, and then returning
  is proved.

  \<^bold>\<open>Theories and what they show.\<close>
    \<^item> Xv6_Prelude, Params, Bytes: vocabulary, the kernel's constants and address macros, little-endian fields.
    \<^item> Cstring (\<^verbatim>\<open>string.c\<close>, \<^verbatim>\<open>ulib.c\<close>), Printf (\<^verbatim>\<open>printf.c\<close> of kernel and user library): memory moves under every
      overlap; number conversion within its buffer; the two printf machines agree.
    \<^item> Spinlock (\<^verbatim>\<open>spinlock.c\<close>): the code cut at its memory accesses into a step relation of several harts;
      mutual exclusion, exactness of \<^verbatim>\<open>holding\<close>, interrupts off while a lock is held, in every reachable state.
    \<^item> Kalloc (\<^verbatim>\<open>kalloc.c\<close>): the locale \<open>page_allocator\<close> and its interpretation; no page is handed out twice.
    \<^item> Vm (\<^verbatim>\<open>vm.c\<close>), Page_Tables, Vm_Frame: page tables in memory; the lookup function a table stands for,
      which \<open>walk\<close> computes and \<open>mappages\<close> and \<open>uvmunmap\<close> update; lazily allocated pages; what is left alone.
    \<^item> Proc_State, Proc, Proc_Life, Sched (\<^verbatim>\<open>proc.h\<close>, \<^verbatim>\<open>proc.c\<close>): the process table and all operations on it; in
      Sched, scheduler, sleep and wakeup of several CPUs as interleaved steps: one CPU per process,
      no lost wake-up, and a scan of the table by a CPU dispatches a runnable process.
    \<^item> Sleeplock, Bio, Bio_Cache (\<^verbatim>\<open>sleeplock.c\<close>, \<^verbatim>\<open>bio.c\<close>): the buffer cache as a map from blocks to contents
      (\<open>blk\<close>), reference counts (\<open>pin\<close>) and locked blocks (\<open>busy\<close>); the cache is transparent.
    \<^item> Log, Log_Space (\<^verbatim>\<open>log.c\<close>): a commit is atomic whatever prefix of its disk writes a crash leaves; the
      reservations of concurrent system calls, as interleaved steps, suffice for every \<^verbatim>\<open>log_write\<close>.
    \<^item> Fs, Fs_Blocks, Inode_Table, Paths, Fs_Frame (\<^verbatim>\<open>fs.c\<close>): the block bitmap, inodes, file contents,
      directories and path lookup; allocation takes a free block and only that; one table entry per
      inode; on-disk inodes read back; path elements. \<open>hlog_wf H\<close> of Fs_Blocks is the invariant of cache and log
      while the buffers \<open>H\<close> are held, with one rule each for reading, changing and releasing a block.
    \<^item> Fs_Data, Fs_Write, Fs_Dir (\<^verbatim>\<open>fs.c\<close>): the content of a file as a list of bytes, found through the direct and
      indirect block numbers (\<open>slot\<close>, \<open>file_bytes\<close>); \<^verbatim>\<open>readi\<close> returns it, \<^verbatim>\<open>writei\<close> updates it with blocks that were
      free and touches no other file's; \<^verbatim>\<open>dirlookup\<close> finds the first entry with the name.
    \<^item> Mkfs, Mkfs_Append, Mkfs_Image, Mkfs_Build (\<^verbatim>\<open>mkfs/mkfs.c\<close>): the image as the list of its sectors; its view as a
      map from inode numbers to type, links and content, of which the inode operations are updates; the
      image of given files has them in the root directory, and the kernel's super block and bitmap.
    \<^item> Ring_Buffer, Pipe, Console (\<^verbatim>\<open>pipe.c\<close>, \<^verbatim>\<open>console.c\<close>, \<^verbatim>\<open>uart.c\<close>): the locales \<open>byte_queue\<close> and \<open>counter_ring\<close>
      (with a \<open>sublocale\<close>), interpreted on the pipe's and the console's buffers: bounded queues with
      32-bit counters that wrap around.
    \<^item> File, Syscall_Args, Sysfile, Exec, Syscall, File_Refs (\<^verbatim>\<open>file.c\<close>, \<^verbatim>\<open>sysfile.c\<close>, \<^verbatim>\<open>exec.c\<close>, \<^verbatim>\<open>sysproc.c\<close>, \<^verbatim>\<open>syscall.c\<close>):
      every system call; the count of an open file is the number of descriptors that name it. Exec_Effect: a
      failing \<^verbatim>\<open>exec\<close> leaves the process as it was.
    \<^item> Virtio, Virtio_Refine (\<^verbatim>\<open>virtio_disk.c\<close>): the driver's descriptors and rings; with a device that serves
      requests as the virtio standard says, a transfer does what \<open>disk_rw\<close> of Bio says. The layers
      above use \<open>disk_rw\<close>, so that their theorems do not repeat the rings.
    \<^item> Trap, Trap_Return, Proc_Info, Sleep_Ticks, Boot, Boot_Locks (\<^verbatim>\<open>trap.c\<close>, \<^verbatim>\<open>plic.c\<close>, \<^verbatim>\<open>start.c\<close>, \<^verbatim>\<open>main.c\<close>): traps and boot; a system call
      returns behind its instruction with nothing but \<^verbatim>\<open>a0\<close> changed; \<^verbatim>\<open>sleep2\<close> takes as many ticks as asked, and
      \<^verbatim>\<open>getprocsinfo\<close> prints the process table; after the boot every lock initialised is free.
    \<^item> Asm (\<^verbatim>\<open>trampoline.S\<close>, \<^verbatim>\<open>swtch.S\<close>, \<^verbatim>\<open>kernelvec.S\<close>, \<^verbatim>\<open>entry.S\<close>, \<^verbatim>\<open>usys.S\<close>): instruction lists and what they do to registers
      and memory; a context switch exchanges \<^verbatim>\<open>struct context\<close>s, a kernel trap restores all registers but \<^verbatim>\<open>tp\<close>,
      and a user's call of \<^verbatim>\<open>getpid\<close> is followed through assembly and C and back.
    \<^item> Grep (\<^verbatim>\<open>user/grep.c\<close>): the matcher decides the language of its patterns, and the input loop prints the
      matching lines however the reads cut the input.
    \<^item> Sh_Parse, Sh_Total, Sh_Roundtrip, Sh_Run (\<^verbatim>\<open>user/sh.c\<close>): the parser over its line buffer, which terminates
      on every line and reads back every command that can be written; \<^verbatim>\<open>runcmd\<close> and the main loop as trees
      of system calls, and the descriptors every program of a line gets.
    \<^item> Utils (\<^verbatim>\<open>user/cat.c\<close>, \<^verbatim>\<open>wc.c\<close>, \<^verbatim>\<open>echo.c\<close>, \<^verbatim>\<open>ls.c\<close>, \<^verbatim>\<open>mkdir.c\<close>, \<^verbatim>\<open>rm.c\<close>, \<^verbatim>\<open>ln.c\<close>, \<^verbatim>\<open>kill.c\<close>, \<^verbatim>\<open>init.c\<close>, \<^verbatim>\<open>zombie.c\<close>): the small
      programs as trees of system calls and replies; \<^verbatim>\<open>cat\<close> copies and \<^verbatim>\<open>wc\<close> counts whatever the reads return.
    \<^item> Test_Programs, Grind (\<^verbatim>\<open>test_getppid.c\<close>, \<^verbatim>\<open>test_procs.c\<close>, \<^verbatim>\<open>test_sleep2.c\<close>, \<^verbatim>\<open>forktest.c\<close>, \<^verbatim>\<open>stressfs.c\<close>,
      \<^verbatim>\<open>logstress.c\<close>, \<^verbatim>\<open>forphan.c\<close>, \<^verbatim>\<open>dorphan.c\<close>, \<^verbatim>\<open>grind.c\<close>): test programs in the same form; what \<^verbatim>\<open>forktest\<close> accepts,
      and \<^verbatim>\<open>grind\<close>'s generator, which stays inside 32-bit integers and permutes its range.
    \<^item> Umalloc (\<^verbatim>\<open>user/umalloc.c\<close>): the circular free list; blocks never overlap, both functions return.

  \<^bold>\<open>Bounds and fuel.\<close> Integers have the width of the C code where they can wrap: addresses and registers 64
  bits, block and inode numbers, pipe counters and ticks 32 bits, directory entries and inode fields 16
  bits; process identifiers and file offsets that C keeps in \<^verbatim>\<open>int\<close> are integers where they stay in range.
  The parser's fuel is five per character of the line and five more, which \<open>parse_fuel_enough\<close> proves to be
  enough; the loops of the shell, \<^verbatim>\<open>cat\<close>, \<^verbatim>\<open>wc\<close>, \<^verbatim>\<open>ls\<close>, \<^verbatim>\<open>init\<close>, \<^verbatim>\<open>grind\<close> and \<^verbatim>\<open>forphan\<close> take the number of rounds as fuel, one more than
  there are reads being enough where the loop ends; those of \<^verbatim>\<open>grind\<close> and of waiting \<^verbatim>\<open>forphan\<close> do not. \<^verbatim>\<open>mkfs\<close> is followed for at most 198 files, as many as it has inodes for. The allocator's theorem needs
  requests below 2 GB and a heap below 64 GB; the bytes \<^verbatim>\<open>malloc\<close> asks of \<^verbatim>\<open>sbrk\<close> are cut to an \<^verbatim>\<open>int\<close> otherwise.

  \<^bold>\<open>Not modelled.\<close> Memory fences and TLB flushes
  have no state in the model; the serial port's set-up is the list of its
  register writes. A
  system call is followed on its own hart up to where it sleeps; interleavings are modelled where the
  code's correctness depends on them, in Spinlock, Sched and Log_Space. The test program \<^verbatim>\<open>usertests.c\<close>, which
  only exercises the kernel from outside, and the second copy of the sources in \<^verbatim>\<open>G12_Project2_2\<close> are left out.
\<close>

end
